(* ===== verification/Go_Prelude.thy ===== *)
theory Go_Prelude
  imports
    Main
    "HOL-Library.Word"
    "HOL-Library.AList"
    "HOL-Library.List_Lexorder"
    "HOL-Library.Char_ord"
begin

text \<open>
  Shared vocabulary of the development: how values of the Go program are represented, and the
  generic facts every component uses.

  \<^item> A Go \<open>map[K]V\<close> is an association list with distinct keys; reading a missing key of an
    \<open>int64\<close> map gives the zero value (\<open>look0\<close>). The interface \<open>finite_map\<close> states the laws of
    such a map once and derives how a sum over all entries changes under an assignment and a
    \<open>delete\<close>; the association lists interpret it (\<open>am\<close>).
  \<^item> A Go \<open>time.Time\<close> is the number of nanoseconds since Go's zero time, so \<open>IsZero\<close> is \<open>t = 0\<close>.
  \<^item> An \<open>int64\<close> is an \<open>int\<close>; \<open>i64\<close> is the two's complement wrap-around, written where the code
    can overflow. A \<open>uint64\<close> is a \<open>64 word\<close>.
  \<^item> Integer division truncates towards zero (\<open>quo\<close>, \<open>rem\<close>).
  \<^item> A function with an \<open>error\<close> result returns a value of a sum type, \<open>Inl\<close> holding the error.
  \<^item> The interface \<open>guarded_machine\<close> is a fallible state machine with an invariant; its client
    lemmas carry an invariant over a whole run, and the ledgers of the agent and of the control
    plane interpret it.
\<close>

section \<open>Collections of facts\<close>

named_theorems int64_defs \<open>the bounds of \<open>int64\<close>\<close>

section \<open>Scalars\<close>

type_synonym gotime = int
type_synonym bytes = "8 word list"
type_synonym u64 = "64 word"

definition max_int64 :: int where
  "max_int64 = 9223372036854775807"

definition min_int64 :: int where
  "min_int64 = - 9223372036854775808"

definition fits64 :: "int \<Rightarrow> bool" where
  "fits64 x \<longleftrightarrow> min_int64 \<le> x \<and> x \<le> max_int64"

declare max_int64_def [int64_defs] min_int64_def [int64_defs] fits64_def [int64_defs]

definition i64 :: "int \<Rightarrow> int" where
  "i64 x = (x + 9223372036854775808) mod 18446744073709551616 - 9223372036854775808"

lemma i64_fits: "fits64 (i64 x)"
  by (simp add: fits64_def i64_def min_int64_def max_int64_def)

lemma i64_id [simp]: "fits64 x \<Longrightarrow> i64 x = x"
  by (simp add: fits64_def i64_def min_int64_def max_int64_def mod_pos_pos_trivial)

definition quo :: "int \<Rightarrow> int \<Rightarrow> int" where
  "quo a b = sgn a * sgn b * (\<bar>a\<bar> div \<bar>b\<bar>)"

definition rem :: "int \<Rightarrow> int \<Rightarrow> int" where
  "rem a b = a - b * quo a b"

lemma quo_pos [simp]: "0 \<le> a \<Longrightarrow> 0 < b \<Longrightarrow> quo a b = a div b"
  by (cases "a = 0") (auto simp: quo_def)

lemma rem_pos [simp]: "0 \<le> a \<Longrightarrow> 0 < b \<Longrightarrow> rem a b = a mod b"
  by (simp add: rem_def minus_mult_div_eq_mod)

definition minTime :: "gotime \<Rightarrow> gotime list \<Rightarrow> gotime" where
  "minTime v vs = fold (\<lambda>x out. if x < out then x else out) vs v"

lemma minTime_two [simp]: "minTime a [b] = min a b"
  by (simp add: minTime_def min_def)

section \<open>Decimal numbers, as \<open>fmt.Sprintf("%d")\<close> prints them\<close>

fun show_nat :: "nat \<Rightarrow> string" where
  "show_nat n = (if n < 10 then [char_of (48 + n)] else show_nat (n div 10) @ [char_of (48 + n mod 10)])"

declare show_nat.simps [simp del]

fun digits_val :: "nat \<Rightarrow> string \<Rightarrow> nat" where
  "digits_val acc [] = acc"
| "digits_val acc (c # cs) = digits_val (acc * 10 + (of_char c - 48)) cs"

lemma digits_val_append: "digits_val a (xs @ ys) = digits_val (digits_val a xs) ys"
  by (induction xs arbitrary: a) auto

lemma of_char_digit: "(n::nat) < 10 \<Longrightarrow> of_char (char_of (48 + n)) = 48 + n"
  by (simp add: of_char_of)

lemma digits_val_show_nat: "digits_val 0 (show_nat n) = n"
proof (induction n rule: show_nat.induct)
  case (1 n)
  show ?case
  proof (cases "n < 10")
    case True
    then show ?thesis by (simp add: show_nat.simps [of n] of_char_digit)
  next
    case False
    have "of_char (char_of (48 + n mod 10)) = 48 + n mod 10"
      by (simp add: of_char_digit)
    with False 1 show ?thesis
      by (subst show_nat.simps) (simp add: digits_val_append)
  qed
qed

lemma show_nat_inj: "show_nat m = show_nat n \<longleftrightarrow> m = n"
  by (metis digits_val_show_nat)

section \<open>Strings\<close>

text \<open>\<open>strings.TrimSpace\<close> is modelled for ASCII white space.\<close>

definition is_space :: "char \<Rightarrow> bool" where
  "is_space c \<longleftrightarrow> c = CHR '' '' \<or> c = CHR 0x09 \<or> c = CHR 0x0A \<or> c = CHR 0x0B \<or> c = CHR 0x0C \<or> c = CHR 0x0D"

definition TrimSpace :: "string \<Rightarrow> string" where
  "TrimSpace s = rev (dropWhile is_space (rev (dropWhile is_space s)))"

fun split_on :: "char \<Rightarrow> string \<Rightarrow> string \<Rightarrow> string list" where
  "split_on c acc [] = [rev acc]"
| "split_on c acc (x # xs) = (if x = c then rev acc # split_on c [] xs else split_on c (x # acc) xs)"

definition TrimPrefix :: "string \<Rightarrow> string \<Rightarrow> string" where
  "TrimPrefix p s = (if take (length p) s = p then drop (length p) s else s)"

lemma TrimPrefix_append [simp]: "TrimPrefix p (p @ s) = s"
  by (simp add: TrimPrefix_def)

section \<open>Finite maps\<close>

locale finite_map =
  fixes lookup :: "'m \<Rightarrow> 'k \<Rightarrow> 'v option"
    and put :: "'k \<Rightarrow> 'v \<Rightarrow> 'm \<Rightarrow> 'm"
    and del :: "'k \<Rightarrow> 'm \<Rightarrow> 'm"
    and entries :: "'m \<Rightarrow> ('k \<times> 'v) list"
    and wf :: "'m \<Rightarrow> bool"
  assumes entries_distinct: "wf m \<Longrightarrow> distinct (map fst (entries m))"
    and lookup_entries: "wf m \<Longrightarrow> lookup m k = map_of (entries m) k"
    and lookup_put: "wf m \<Longrightarrow> lookup (put k v m) j = (if j = k then Some v else lookup m j)"
    and lookup_del: "wf m \<Longrightarrow> lookup (del k m) j = (if j = k then None else lookup m j)"
    and wf_put: "wf m \<Longrightarrow> wf (put k v m)"
    and wf_del: "wf m \<Longrightarrow> wf (del k m)"
begin

definition total :: "('k \<Rightarrow> 'v \<Rightarrow> int) \<Rightarrow> 'm \<Rightarrow> int" where
  "total f m = (\<Sum>(k, v)\<leftarrow>entries m. f k v)"

lemma total_dom:
  assumes "wf m"
  shows "total f m = (\<Sum>k\<in>dom (lookup m). f k (the (lookup m k)))"
proof -
  let ?es = "entries m"
  have d: "distinct ?es" "inj_on fst (set ?es)" and eq: "lookup m = map_of ?es"
    using assms entries_distinct lookup_entries by (auto simp: distinct_map)
  have "total f m = (\<Sum>e\<in>set ?es. f (fst e) (snd e))"
    using d(1) by (simp add: total_def sum_list_distinct_conv_sum_set case_prod_beta)
  also have "\<dots> = (\<Sum>e\<in>set ?es. f (fst e) (the (lookup m (fst e))))"
    using entries_distinct [OF assms] by (intro sum.cong) (auto simp: eq)
  also have "\<dots> = (\<Sum>k\<in>fst ` set ?es. f k (the (lookup m k)))"
    using d(2) by (simp add: sum.reindex)
  also have "fst ` set ?es = dom (lookup m)"
    by (simp add: eq dom_map_of_conv_image_fst)
  finally show ?thesis .
qed

lemma finite_dom_lookup: "wf m \<Longrightarrow> finite (dom (lookup m))"
  using lookup_entries [of m] by (metis ext finite_dom_map_of)

lemma dom_put: "wf m \<Longrightarrow> dom (lookup (put k v m)) = insert k (dom (lookup m))"
  by (auto simp: lookup_put dom_def)

lemma dom_del: "wf m \<Longrightarrow> dom (lookup (del k m)) = dom (lookup m) - {k}"
  by (auto simp: lookup_del dom_def)

lemma total_split:
  assumes "wf m"
  shows "total f m = (\<Sum>j\<in>dom (lookup m) - {k}. f j (the (lookup m j)))
    + (case lookup m k of None \<Rightarrow> 0 | Some v \<Rightarrow> f k v)"
proof (cases "lookup m k")
  case None
  then have "dom (lookup m) - {k} = dom (lookup m)" by auto
  with None show ?thesis by (simp add: total_dom [OF assms])
next
  case (Some v)
  then have "k \<in> dom (lookup m)" by auto
  then show ?thesis
    using Some finite_dom_lookup [OF assms]
    by (simp add: total_dom [OF assms] sum.remove [of _ k])
qed

lemma total_del:
  assumes "wf m"
  shows "total f (del k m) = total f m - (case lookup m k of None \<Rightarrow> 0 | Some v \<Rightarrow> f k v)"
proof -
  have "total f (del k m) = (\<Sum>j\<in>dom (lookup m) - {k}. f j (the (lookup m j)))"
    by (simp add: total_dom [OF wf_del [OF assms]] dom_del [OF assms] lookup_del [OF assms])
  with total_split [OF assms, of f k] show ?thesis by simp
qed

lemma total_put:
  assumes "wf m"
  shows "total f (put k v m) = total f m - (case lookup m k of None \<Rightarrow> 0 | Some o' \<Rightarrow> f k o') + f k v"
proof -
  have "dom (lookup (put k v m)) - {k} = dom (lookup m) - {k}"
    by (auto simp: dom_put [OF assms])
  then have "total f (put k v m) = (\<Sum>j\<in>dom (lookup m) - {k}. f j (the (lookup m j))) + f k v"
    by (simp add: total_split [OF wf_put [OF assms], of f _ _ k] lookup_put [OF assms])
  with total_split [OF assms, of f k] show ?thesis by simp
qed

lemma total_nonneg:
  assumes "wf m" and "\<And>k v. lookup m k = Some v \<Longrightarrow> 0 \<le> f k v"
  shows "0 \<le> total f m"
  using assms by (auto simp: total_dom intro!: sum_nonneg)

lemma total_mono:
  assumes "wf m" and "\<And>k v. lookup m k = Some v \<Longrightarrow> f k v \<le> g k v"
  shows "total f m \<le> total g m"
  using assms by (auto simp: total_dom intro!: sum_mono)

lemma total_member_le:
  assumes "wf m" and "\<And>k v. lookup m k = Some v \<Longrightarrow> 0 \<le> f k v" and "lookup m k = Some v"
  shows "f k v \<le> total f m"
proof -
  have "0 \<le> (\<Sum>j\<in>dom (lookup m) - {k}. f j (the (lookup m j)))"
    using assms(2) by (auto intro!: sum_nonneg)
  then show ?thesis
    using total_split [OF assms(1), of f k] assms(3) by simp
qed

end

type_synonym ('k, 'v) gomap = "('k \<times> 'v) list"

abbreviation put :: "'k \<Rightarrow> 'v \<Rightarrow> ('k, 'v) gomap \<Rightarrow> ('k, 'v) gomap" where
  "put \<equiv> AList.update"

abbreviation del :: "'k \<Rightarrow> ('k, 'v) gomap \<Rightarrow> ('k, 'v) gomap" where
  "del \<equiv> AList.delete"

definition distinct_keys :: "('k, 'v) gomap \<Rightarrow> bool" where
  "distinct_keys m \<longleftrightarrow> distinct (map fst m)"

definition has :: "('k, 'v) gomap \<Rightarrow> 'k \<Rightarrow> bool" where
  "has m k \<longleftrightarrow> map_of m k \<noteq> None"

definition look0 :: "('k, int) gomap \<Rightarrow> 'k \<Rightarrow> int" where
  "look0 m k = (case map_of m k of None \<Rightarrow> 0 | Some v \<Rightarrow> v)"

definition gsum :: "('k \<Rightarrow> 'v \<Rightarrow> int) \<Rightarrow> ('k, 'v) gomap \<Rightarrow> int" where
  "gsum f m = (\<Sum>(k, v)\<leftarrow>m. f k v)"

interpretation am: finite_map map_of put del "\<lambda>m. m" distinct_keys
  rewrites "finite_map.total (\<lambda>m. m) = gsum"
proof -
  show fm: "finite_map map_of put del (\<lambda>m. m) distinct_keys"
    by unfold_locales
      (auto simp: distinct_keys_def update_conv delete_conv intro: distinct_update distinct_delete)
  show "finite_map.total (\<lambda>m. m) = gsum"
    by (rule ext)+ (simp add: finite_map.total_def [OF fm] gsum_def)
qed

lemma distinct_keys_Nil [simp]: "distinct_keys []"
  by (simp add: distinct_keys_def)

lemmas distinct_keys_put [simp, intro] = am.wf_put
lemmas distinct_keys_del [simp, intro] = am.wf_del

lemma map_of_put [simp]: "map_of (put k v m) = (map_of m)(k \<mapsto> v)"
  by (rule update_conv')

lemma map_of_del [simp]: "map_of (del k m) = (map_of m)(k := None)"
  by (rule delete_conv')

lemma look0_put [simp]: "look0 (put k v m) j = (if j = k then v else look0 m j)"
  by (simp add: look0_def)

lemma look0_del [simp]: "look0 (del k m) j = (if j = k then 0 else look0 m j)"
  by (simp add: look0_def)

lemma has_put [simp]: "has (put k v m) j \<longleftrightarrow> j = k \<or> has m j"
  by (simp add: has_def)

lemma has_del [simp]: "has (del k m) j \<longleftrightarrow> j \<noteq> k \<and> has m j"
  by (simp add: has_def)

lemma gsum_Nil [simp]: "gsum f [] = 0"
  by (simp add: gsum_def)

lemma gsum_cong:
  assumes "distinct_keys m" "\<And>k v. map_of m k = Some v \<Longrightarrow> f k v = g k v"
  shows "gsum f m = gsum g m"
  using assms by (intro antisym am.total_mono) auto

lemma gsum_change:
  assumes "distinct_keys m" "map_of m k = Some v" "\<And>j w. map_of m j = Some w \<Longrightarrow> j \<noteq> k \<Longrightarrow> f j w = g j w"
  shows "gsum g m = gsum f m + g k v - f k v"
proof -
  have "(\<Sum>j\<in>dom (map_of m) - {k}. g j (the (map_of m j))) = (\<Sum>j\<in>dom (map_of m) - {k}. f j (the (map_of m j)))"
    using assms(3) by (intro sum.cong) auto
  then show ?thesis
    using am.total_split [OF assms(1), of f k] am.total_split [OF assms(1), of g k] assms(2) by simp
qed

lemma length_put:
  "length (put k v m) = (if has m k then length m else Suc (length m))"
  by (induction m) (auto simp: has_def)

lemma length_put_le: "length (put k v m) \<le> Suc (length m)"
  by (simp add: length_put)

lemma length_del_le: "length (del k m) \<le> length m"
  by (rule length_delete_le)

lemma length_del:
  "distinct_keys m \<Longrightarrow> length (del k m) = (if has m k then length m - 1 else length m)"
proof (induction m)
  case Nil
  then show ?case by (simp add: has_def)
next
  case (Cons e m)
  obtain a b where e: "e = (a, b)" by (cases e)
  have dm: "distinct_keys m" and na: "map_of m a = None"
    using Cons.prems by (auto simp: distinct_keys_def e map_of_eq_None_iff)
  have "length m \<noteq> 0" if "has m k"
    using that by (auto simp: has_def)
  moreover have "length (del a m) = length m"
    using Cons.IH [OF dm] na by (cases "k = a") (auto simp: has_def delete_id map_of_eq_None_iff)
  ultimately show ?case
    using Cons.IH [OF dm] na by (auto simp: e has_def)
qed

lemma map_of_in_set: "distinct_keys m \<Longrightarrow> map_of m k = Some v \<longleftrightarrow> (k, v) \<in> set m"
  by (simp add: distinct_keys_def)

section \<open>Fallible steps\<close>

definition bindE :: "'e + 'a \<Rightarrow> ('a \<Rightarrow> 'e + 'b) \<Rightarrow> 'e + 'b" where
  "bindE r f = (case r of Inl e \<Rightarrow> Inl e | Inr a \<Rightarrow> f a)"

lemma bindE_Inl [simp]: "bindE (Inl e) f = Inl e"
  by (simp add: bindE_def)

lemma bindE_Inr [simp]: "bindE (Inr a) f = f a"
  by (simp add: bindE_def)

lemma bindE_eq_Inr: "bindE r f = Inr b \<longleftrightarrow> (\<exists>a. r = Inr a \<and> f a = Inr b)"
  by (cases r) auto

fun runE :: "('s \<Rightarrow> 'a \<Rightarrow> 'e + 's) \<Rightarrow> 's \<Rightarrow> 'a list \<Rightarrow> 'e + 's" where
  "runE step s [] = Inr s"
| "runE step s (a # as) = (case step s a of Inl e \<Rightarrow> Inl e | Inr s' \<Rightarrow> runE step s' as)"

lemma runE_append: "runE step s (as @ bs) = bindE (runE step s as) (\<lambda>s'. runE step s' bs)"
  by (induction as arbitrary: s) (auto split: sum.splits)

locale guarded_machine =
  fixes step :: "'s \<Rightarrow> 'a \<Rightarrow> 'e + 's"
    and admissible :: "'a \<Rightarrow> bool"
    and inv :: "'s \<Rightarrow> bool"
  assumes step_inv: "inv s \<Longrightarrow> admissible a \<Longrightarrow> step s a = Inr s' \<Longrightarrow> inv s'"
begin

lemma run_inv: "inv s \<Longrightarrow> list_all admissible as \<Longrightarrow> runE step s as = Inr s' \<Longrightarrow> inv s'"
  by (induction as arbitrary: s) (auto split: sum.splits dest: step_inv)

lemma run_prefix_inv:
  assumes "inv s" "list_all admissible (as @ bs)" "runE step s (as @ bs) = Inr s''"
  shows "\<exists>s'. runE step s as = Inr s' \<and> inv s'"
  using assms run_inv [of s as] by (auto simp: runE_append bindE_eq_Inr)

end

end
