(* ===== verification/Contract.thy ===== *)
theory Contract
  imports Go_Prelude
begin

text \<open>
  The wire contract shared by the panel and the Agent (\<open>internal/contract\<close>): the records that the
  modelled code reads, field by field. A rule carries many more fields than accounting looks at;
  these are compared only as a whole (by \<open>reflect.DeepEqual\<close>), so they are one opaque field
  \<open>r_Rest\<close>. A nil slice and an empty slice differ for \<open>reflect.DeepEqual\<close>; the one slice that is
  compared this way (\<open>RouteCandidates\<close>) is therefore an optional list.
\<close>

section \<open>Limits\<close>

record plan_limits =
  pl_MaxRules :: int

definition PlanLimits_Validate :: "plan_limits \<Rightarrow> bool" where
  "PlanLimits_Validate l \<longleftrightarrow> \<not> (pl_MaxRules l < 0 \<or> pl_MaxRules l > 100000)"

record resource_limits =
  rl_MaxRules :: int
  rl_MaxConnectionsPerNode :: int
  rl_MaxIPsPerNode :: int
  rl_BytesPerSecondPerNode :: int

definition ResourceLimits_Validate :: "resource_limits \<Rightarrow> bool" where
  "ResourceLimits_Validate l \<longleftrightarrow> \<not> (rl_MaxRules l < 0 \<or> rl_MaxRules l > 100000
     \<or> rl_MaxConnectionsPerNode l < 0 \<or> rl_MaxConnectionsPerNode l > 1000000
     \<or> rl_MaxIPsPerNode l < 0 \<or> rl_MaxIPsPerNode l > 1000000
     \<or> rl_BytesPerSecondPerNode l < 0 \<or> rl_BytesPerSecondPerNode l > 1000000000000)"

definition no_limits :: resource_limits where
  "no_limits = \<lparr>rl_MaxRules = 0, rl_MaxConnectionsPerNode = 0, rl_MaxIPsPerNode = 0,
     rl_BytesPerSecondPerNode = 0\<rparr>"

section \<open>Leases, rules and configurations\<close>

record lease =
  l_ID :: string
  l_EntitlementID :: string
  l_ExpiresAt :: gotime
  l_Bytes :: int
  l_Limits :: resource_limits

record udp_options =
  udp_CreditWindows :: bool
  udp_MaxSessions :: int

record route_candidate =
  rc_ID :: string
  rc_Weight :: int
  rc_Rest :: string

record rule =
  r_ID :: string
  r_UserID :: string
  r_Network :: string
  r_Enabled :: bool
  r_RouteCandidates :: "route_candidate list option"
  r_Lease :: "lease option"
  r_StandbyLease :: "lease option"
  r_LeasePipeline :: bool
  r_UDP :: "udp_options option"
  r_Rest :: string

record config =
  c_NodeID :: string
  c_Version :: int
  c_ValidUntil :: gotime
  c_Rules :: "rule list"

record registered =
  reg_NodeID :: string
  reg_Token :: string

section \<open>Usage records\<close>

record usage_record =
  u_ID :: string
  u_NodeID :: string
  u_RuleID :: string
  u_LeaseID :: string
  u_EntitlementID :: string
  u_StartedAt :: gotime
  u_EndedAt :: gotime
  u_UploadBytes :: int
  u_DownloadBytes :: int
  u_Kind :: string
  u_WindowID :: string
  u_WindowSequence :: u64

definition window_usage_id :: "string \<Rightarrow> u64 \<Rightarrow> string" where
  "window_usage_id w q = w @ '':'' @ show_nat (unat q)"

definition ValidWindowMetadata :: "usage_record \<Rightarrow> bool" where
  "ValidWindowMetadata u \<longleftrightarrow>
     (if u_Kind u = '''' then u_WindowID u = '''' \<and> u_WindowSequence u = 0
      else (u_Kind u = ''normal'' \<or> u_Kind u = ''recovery'') \<and> length (u_WindowID u) = 32
        \<and> u_WindowSequence u > 0 \<and> u_ID u = window_usage_id (u_WindowID u) (u_WindowSequence u))"

definition usage_bytes :: "usage_record \<Rightarrow> int" where
  "usage_bytes u = u_UploadBytes u + u_DownloadBytes u"

text \<open>Two windows never produce the same record identifier: the window part has a fixed length.\<close>

lemma window_usage_id_inj:
  assumes "length w = 32" "length w' = 32"
  shows "window_usage_id w q = window_usage_id w' q' \<longleftrightarrow> w = w' \<and> q = q'"
  using assms by (auto simp: window_usage_id_def show_nat_inj word_unat_eq_iff)

end
