(* ===== verification/Ledger.thy ===== *)
theory Ledger
  imports Contract
begin

text \<open>
  The Agent's durable ledger (\<open>internal/agent/state.go\<close>, \<open>credits.go\<close>, \<open>durable_bounds.go\<close>): the
  state that is checkpointed to disk, the events that are appended to the write-ahead log, and
  what validating and applying an event does to that state. Every event the Agent writes and every
  event it replays after a restart goes through \<open>validateEvent\<close> and \<open>applyEvent\<close>, so what is
  proved here holds for a running Agent and for a recovering one.

  A lease is a finite allocation of bytes. Bytes of a lease are spent in two ways: a direct charge
  appends a usage record, and a \<^emph>\<open>credit window\<close> reserves a slice of the lease that the data path
  debits in memory. The liability of a lease is what its open windows still hold. The invariant
  \<open>ledger_inv\<close> says that spent bytes plus liability never exceed the lease, that the spool of
  unconfirmed records and open windows is bounded, and that the windows of one rule and of one
  account stay within their responsibility bounds.
\<close>

section \<open>State and events\<close>

datatype agent_error =
    LeaseUnavailable | SpoolFull | CreditUnavailable
  | NegativeCharge | StorageUnavailable | PayloadExceedsLease | LeaseChanged
  | MissingLiveCredit | MissingCreditWindow | InvalidCreditWindow | InvalidCreditReservation
  | CreditLeaseChanged | ExceedsResponsibility | ExceedsBudget
  | InvalidCreditProgress | InvalidCreditUsage | UnexpectedCreditUsage
  | IdentityMissing | IdentityImmutable | ConfigMissing | LeaseIdentityChanged
  | LeaseIDRequired | RetirementLeaseMissing | LeaseNotStopped | UnconfirmedUsage
  | UnknownMutation | InvalidWalUsage | UsageAfterRetirement | WalLeaseMissing | WalInvariant
  | CapacityExceeded | InvalidLeaseBudget | UsageLeaseMissing | RetiredLeaseMissing
  | InvalidPendingUsage | PendingExceedsSpent | CreditExceedsLease | RuleBoundExceeded
  | RandomFailed | WalFailed | StateClosed | QueueFull | ContextDone

record credit_window =
  w_ID :: string
  w_UserID :: string
  w_RuleID :: string
  w_LeaseID :: string
  w_Upload :: bool
  w_Capacity :: int
  w_Confirmed :: int
  w_Sequence :: u64
  w_StartedAt :: gotime
  w_Until :: gotime
  w_Closed :: bool
  w_TCP :: bool

record disk_state =
  d_Identity :: registered
  d_Config :: config
  d_Used :: "(string, int) gomap"
  d_Pending :: "usage_record list"
  d_Retired :: "(string, bool) gomap"
  d_Leases :: "(string, lease) gomap"
  d_Windows :: "(string, credit_window) gomap"

record state_event =
  e_Kind :: string
  e_Identity :: "registered option"
  e_Config :: "config option"
  e_Usage :: "usage_record option"
  e_Lease :: "lease option"
  e_IDs :: "string list"
  e_LeaseID :: string
  e_RuleID :: string
  e_Window :: "credit_window option"

definition event0 :: state_event where
  "event0 = \<lparr>e_Kind = '''', e_Identity = None, e_Config = None, e_Usage = None, e_Lease = None,
     e_IDs = [], e_LeaseID = '''', e_RuleID = '''', e_Window = None\<rparr>"

definition MaxPendingRecords :: int where "MaxPendingRecords = 4096"
definition maxRetainedLeases :: int where "maxRetainedLeases = 16384"
definition creditWindowSize :: int where "creditWindowSize = 262144"
definition maxRuleCredits :: int where "maxRuleCredits = 1048576"
definition maxAccountCredits :: int where "maxAccountCredits = 8388608"
definition maxTCPCreditWindow :: int where "maxTCPCreditWindow = 2097152"
definition maxTCPRuleCredits :: int where "maxTCPRuleCredits = 4194304"

lemmas ledger_consts = MaxPendingRecords_def maxRetainedLeases_def creditWindowSize_def
  maxRuleCredits_def maxAccountCredits_def maxTCPCreditWindow_def maxTCPRuleCredits_def

definition window_limits :: "credit_window \<Rightarrow> int \<times> int" where
  "window_limits w = (if w_TCP w then (maxTCPCreditWindow, maxTCPRuleCredits)
     else (creditWindowSize, maxRuleCredits))"

definition left :: "credit_window \<Rightarrow> int" where
  "left w = w_Capacity w - w_Confirmed w"

text \<open>A sum over the open windows that satisfy a condition, and their number.\<close>

definition win_total :: "(credit_window \<Rightarrow> bool) \<Rightarrow> disk_state \<Rightarrow> int" where
  "win_total P d = gsum (\<lambda>_ w. if P w then left w else 0) (d_Windows d)"

definition win_count :: "(credit_window \<Rightarrow> bool) \<Rightarrow> disk_state \<Rightarrow> int" where
  "win_count P d = gsum (\<lambda>_ w. if P w then 1 else 0) (d_Windows d)"

definition creditLiability :: "disk_state \<Rightarrow> string \<Rightarrow> int" where
  "creditLiability d lid = win_total (\<lambda>w. w_LeaseID w = lid) d"

definition spool :: "disk_state \<Rightarrow> int" where
  "spool d = int (length (d_Pending d)) + int (length (d_Windows d))"

definition ruleLeases :: "rule \<Rightarrow> lease option list" where
  "ruleLeases r = r_Lease r # (case r_StandbyLease r of None \<Rightarrow> [] | Some l \<Rightarrow> [Some l])"

definition sameLease :: "lease \<Rightarrow> lease \<Rightarrow> bool" where
  "sameLease a b \<longleftrightarrow> l_ID a = l_ID b \<and> l_EntitlementID a = l_EntitlementID b
     \<and> l_Bytes a = l_Bytes b \<and> l_ExpiresAt a = l_ExpiresAt b"

section \<open>Validation\<close>

fun count_new_leases :: "(string, lease) gomap \<Rightarrow> string list \<Rightarrow> lease option list \<Rightarrow> int" where
  "count_new_leases m seen [] = 0"
| "count_new_leases m seen (None # ls) = count_new_leases m seen ls"
| "count_new_leases m seen (Some l # ls) =
     (if \<not> has m (l_ID l) \<and> l_ID l \<notin> set seen then 1 + count_new_leases m (l_ID l # seen) ls
      else count_new_leases m seen ls)"

definition validateLeaseCapacity :: "disk_state \<Rightarrow> lease option list \<Rightarrow> agent_error option" where
  "validateLeaseCapacity d incoming =
     (if int (length (d_Leases d)) + count_new_leases (d_Leases d) [] incoming > maxRetainedLeases
      then Some SpoolFull else None)"

definition validateCreditReserve :: "disk_state \<Rightarrow> credit_window \<Rightarrow> lease option \<Rightarrow> agent_error option" where
  "validateCreditReserve d w lo = (case lo of None \<Rightarrow> Some InvalidCreditReservation | Some l \<Rightarrow>
     if has (d_Windows d) (w_ID w) \<or> w_Confirmed w \<noteq> 0 \<or> w_Sequence w \<noteq> 0 \<or> w_Closed w
        \<or> w_LeaseID w \<noteq> l_ID l
     then Some InvalidCreditReservation
     else if (case map_of (d_Leases d) (w_LeaseID w) of None \<Rightarrow> False | Some old \<Rightarrow> \<not> sameLease old l)
     then Some CreditLeaseChanged
     else if has (d_Retired d) (w_LeaseID w) then Some LeaseUnavailable
     else (case validateLeaseCapacity d [Some l] of Some err \<Rightarrow> Some err | None \<Rightarrow>
       let ruleLimit = snd (window_limits w);
           ruleTotal = win_total (\<lambda>v. w_RuleID v = w_RuleID w) d;
           userTotal = win_total (\<lambda>v. w_UserID v = w_UserID w) d;
           count = win_count (\<lambda>v. w_RuleID v = w_RuleID w \<and> w_Upload v = w_Upload w) d
       in if count \<ge> 2 \<or> w_Capacity w > ruleLimit - ruleTotal
             \<or> w_Capacity w > maxAccountCredits - userTotal
          then Some ExceedsResponsibility
          else if w_Capacity w > l_Bytes l - look0 (d_Used d) (w_LeaseID w) - creditLiability d (w_LeaseID w)
             \<or> w_Until w > l_ExpiresAt l \<or> spool d \<ge> MaxPendingRecords
          then Some ExceedsBudget
          else None))"

definition lease_entitlement :: "disk_state \<Rightarrow> string \<Rightarrow> string" where
  "lease_entitlement d lid =
     (case map_of (d_Leases d) lid of None \<Rightarrow> '''' | Some l \<Rightarrow> l_EntitlementID l)"

text \<open>The sum of the two byte counts cannot wrap where it matters: when both are positive the
  direction test rejects the record, whatever the sum.\<close>

definition validCreditUsage :: "disk_state \<Rightarrow> credit_window \<Rightarrow> int \<Rightarrow> usage_record \<Rightarrow> bool" where
  "validCreditUsage d w delta u \<longleftrightarrow>
     \<not> (\<not> ValidWindowMetadata u \<or> u_ID u \<noteq> window_usage_id (w_ID w) (w_Sequence w)
       \<or> u_WindowID u \<noteq> w_ID w \<or> u_WindowSequence u \<noteq> w_Sequence w \<or> u_RuleID u \<noteq> w_RuleID w
       \<or> u_LeaseID u \<noteq> w_LeaseID w \<or> u_NodeID u \<noteq> reg_NodeID (d_Identity d)
       \<or> u_EntitlementID u \<noteq> lease_entitlement d (w_LeaseID w)
       \<or> u_UploadBytes u < 0 \<or> u_DownloadBytes u < 0
       \<or> u_UploadBytes u + u_DownloadBytes u \<noteq> delta
       \<or> w_Upload w \<and> u_DownloadBytes u \<noteq> 0 \<or> \<not> w_Upload w \<and> u_UploadBytes u \<noteq> 0
       \<or> u_StartedAt u \<noteq> w_StartedAt w \<or> u_EndedAt u < w_StartedAt w \<or> u_EndedAt u > w_Until w
       \<or> u_Kind u = ''recovery'' \<and> (\<not> w_Closed w \<or> w_Confirmed w \<noteq> w_Capacity w)
       \<or> int (length (d_Pending d)) \<ge> MaxPendingRecords)"

definition validateCreditProgress ::
    "disk_state \<Rightarrow> credit_window \<Rightarrow> usage_record option \<Rightarrow> agent_error option" where
  "validateCreditProgress d w uo = (case map_of (d_Windows d) (w_ID w) of
     None \<Rightarrow> Some InvalidCreditProgress
   | Some old \<Rightarrow>
       if w_LeaseID w \<noteq> w_LeaseID old \<or> w_RuleID w \<noteq> w_RuleID old \<or> w_UserID w \<noteq> w_UserID old
          \<or> w_Upload w \<noteq> w_Upload old \<or> w_TCP w \<noteq> w_TCP old \<or> w_Capacity w \<noteq> w_Capacity old
          \<or> w_StartedAt w \<noteq> w_StartedAt old \<or> w_Until w \<noteq> w_Until old
          \<or> w_Sequence w \<noteq> w_Sequence old + 1 \<or> w_Confirmed w < w_Confirmed old
       then Some InvalidCreditProgress
       else (let delta = w_Confirmed w - w_Confirmed old in
         if delta > 0 then (case uo of None \<Rightarrow> Some InvalidCreditUsage
           | Some u \<Rightarrow> if validCreditUsage d w delta u then None else Some InvalidCreditUsage)
         else if uo \<noteq> None then Some UnexpectedCreditUsage else None))"

definition window_shape :: "credit_window \<Rightarrow> bool" where
  "window_shape w \<longleftrightarrow>
     \<not> (length (w_ID w) \<noteq> 32 \<or> w_RuleID w = '''' \<or> w_UserID w = '''' \<or> w_Capacity w \<le> 0
       \<or> w_Capacity w > fst (window_limits w) \<or> w_Confirmed w < 0 \<or> w_Confirmed w > w_Capacity w
       \<or> w_StartedAt w = 0 \<or> \<not> w_StartedAt w < w_Until w)"

definition validateCreditEvent :: "disk_state \<Rightarrow> state_event \<Rightarrow> agent_error option" where
  "validateCreditEvent d e = (case e_Window e of None \<Rightarrow> Some MissingCreditWindow | Some w \<Rightarrow>
     if \<not> window_shape w then Some InvalidCreditWindow
     else if e_Kind e = ''credit_reserve'' then validateCreditReserve d w (e_Lease e)
     else validateCreditProgress d w (e_Usage e))"

definition validateConfig :: "disk_state \<Rightarrow> config \<Rightarrow> agent_error option" where
  "validateConfig d c =
     (let metered = filter (\<lambda>r. r_Enabled r \<and> r_Lease r \<noteq> None) (c_Rules c);
          incoming = concat (map ruleLeases metered)
      in if list_ex (\<lambda>lo. case lo of None \<Rightarrow> False | Some l \<Rightarrow>
              (case map_of (d_Leases d) (l_ID l) of None \<Rightarrow> False | Some old \<Rightarrow> \<not> sameLease old l)) incoming
         then Some LeaseIdentityChanged
         else validateLeaseCapacity d incoming)"

definition validateEvent :: "disk_state \<Rightarrow> state_event \<Rightarrow> agent_error option" where
  "validateEvent d e =
     (if e_Kind e = ''credit_reserve'' \<or> e_Kind e = ''credit_progress'' then validateCreditEvent d e
      else if e_Kind e = ''identity'' then
        (case e_Identity e of None \<Rightarrow> Some IdentityMissing
         | Some v \<Rightarrow> if reg_NodeID (d_Identity d) \<noteq> '''' \<and> d_Identity d \<noteq> v
                     then Some IdentityImmutable else None)
      else if e_Kind e = ''config'' then
        (case e_Config e of None \<Rightarrow> Some ConfigMissing | Some c \<Rightarrow> validateConfig d c)
      else if e_Kind e = ''ack'' then None
      else if e_Kind e = ''retire'' then
        (if e_LeaseID e = '''' then Some LeaseIDRequired
         else if \<not> has (d_Leases d) (e_LeaseID e) then Some RetirementLeaseMissing else None)
      else if e_Kind e = ''retire_ack'' then
        (if \<not> has (d_Retired d) (e_LeaseID e) then Some LeaseNotStopped
         else if list_ex (\<lambda>u. u_LeaseID u = e_LeaseID e) (d_Pending d) then Some UnconfirmedUsage
         else None)
      else Some UnknownMutation)"

section \<open>Application\<close>

definition applyReserve :: "disk_state \<Rightarrow> credit_window \<Rightarrow> lease \<Rightarrow> disk_state" where
  "applyReserve d w l = d\<lparr>d_Leases := put (w_LeaseID w) l (d_Leases d),
     d_Windows := put (w_ID w) w (d_Windows d)\<rparr>"

definition spend :: "disk_state \<Rightarrow> usage_record \<Rightarrow> disk_state" where
  "spend d u = d\<lparr>d_Used := put (u_LeaseID u) (look0 (d_Used d) (u_LeaseID u) + usage_bytes u) (d_Used d),
     d_Pending := d_Pending d @ [u]\<rparr>"

definition applyProgress :: "disk_state \<Rightarrow> credit_window \<Rightarrow> usage_record option \<Rightarrow> disk_state" where
  "applyProgress d w uo =
     (let d1 = (case uo of None \<Rightarrow> d | Some u \<Rightarrow>
            d\<lparr>d_Used := put (w_LeaseID w) (look0 (d_Used d) (w_LeaseID w) + usage_bytes u) (d_Used d),
              d_Pending := d_Pending d @ [u]\<rparr>)
      in if w_Closed w then d1\<lparr>d_Windows := del (w_ID w) (d_Windows d1)\<rparr>
         else d1\<lparr>d_Windows := put (w_ID w) w (d_Windows d1)\<rparr>)"

definition applyCreditDisk :: "disk_state \<Rightarrow> state_event \<Rightarrow> agent_error + disk_state" where
  "applyCreditDisk d e = (case validateCreditEvent d e of Some err \<Rightarrow> Inl err | None \<Rightarrow>
     (case e_Window e of None \<Rightarrow> Inl MissingCreditWindow | Some w \<Rightarrow>
        if e_Kind e = ''credit_reserve'' then
          (case e_Lease e of None \<Rightarrow> Inl InvalidCreditReservation | Some l \<Rightarrow> Inr (applyReserve d w l))
        else Inr (applyProgress d w (e_Usage e))))"

definition put_leases :: "lease option list \<Rightarrow> (string, lease) gomap \<Rightarrow> (string, lease) gomap" where
  "put_leases ls m = fold (\<lambda>lo m. case lo of None \<Rightarrow> m | Some l \<Rightarrow> put (l_ID l) l m) ls m"

definition lease_ids :: "lease option list \<Rightarrow> string list" where
  "lease_ids ls = List.map_filter (map_option l_ID) ls"

definition retire_absent :: "string list \<Rightarrow> string list \<Rightarrow> (string, bool) gomap \<Rightarrow> (string, bool) gomap" where
  "retire_absent active ids m =
     fold (\<lambda>i m. if i \<notin> set active \<and> \<not> has m i then put i False m else m) ids m"

definition applyConfig :: "disk_state \<Rightarrow> config \<Rightarrow> disk_state" where
  "applyConfig d c =
     (let enabled = concat (map ruleLeases (filter r_Enabled (c_Rules c)));
          active = lease_ids enabled
      in d\<lparr>d_Leases := put_leases enabled (d_Leases d),
           d_Retired := retire_absent active
              (lease_ids (concat (map ruleLeases (c_Rules (d_Config d))))) (d_Retired d),
           d_Config := c\<rparr>)"

definition applyUsage :: "disk_state \<Rightarrow> state_event \<Rightarrow> agent_error + disk_state" where
  "applyUsage d e = (case e_Usage e of None \<Rightarrow> Inl InvalidWalUsage | Some u \<Rightarrow>
     if u_ID u = '''' \<or> u_UploadBytes u < 0 \<or> u_DownloadBytes u < 0
        \<or> u_UploadBytes u > max_int64 - u_DownloadBytes u
     then Inl InvalidWalUsage
     else if has (d_Retired d) (u_LeaseID u) then Inl UsageAfterRetirement
     else bindE (case map_of (d_Leases d) (u_LeaseID u) of
            Some l \<Rightarrow> Inr (l, d)
          | None \<Rightarrow> (case e_Lease e of None \<Rightarrow> Inl WalLeaseMissing | Some l \<Rightarrow>
               if l_ID l \<noteq> u_LeaseID u then Inl WalLeaseMissing
               else Inr (l, d\<lparr>d_Leases := put (u_LeaseID u) l (d_Leases d)\<rparr>)))
       (\<lambda>(l, d1). let n = usage_bytes u in
          if n > l_Bytes l - look0 (d_Used d1) (u_LeaseID u) - creditLiability d1 (u_LeaseID u)
             \<or> u_NodeID u \<noteq> reg_NodeID (d_Identity d1) \<or> u_EntitlementID u \<noteq> l_EntitlementID l
             \<or> spool d1 \<ge> MaxPendingRecords
          then Inl WalInvariant
          else Inr (spend d1 u)))"

definition applyEvent :: "disk_state \<Rightarrow> state_event \<Rightarrow> agent_error + disk_state" where
  "applyEvent d e =
     (if e_Kind e = ''credit_reserve'' \<or> e_Kind e = ''credit_progress'' then applyCreditDisk d e
      else if e_Kind e = ''usage'' then applyUsage d e
      else case validateEvent d e of Some err \<Rightarrow> Inl err | None \<Rightarrow>
        if e_Kind e = ''identity'' then
          (case e_Identity e of None \<Rightarrow> Inl IdentityMissing | Some v \<Rightarrow> Inr (d\<lparr>d_Identity := v\<rparr>))
        else if e_Kind e = ''config'' then
          (case e_Config e of None \<Rightarrow> Inl ConfigMissing | Some c \<Rightarrow> Inr (applyConfig d c))
        else if e_Kind e = ''ack'' then
          Inr (d\<lparr>d_Pending := filter (\<lambda>u. u_ID u \<notin> set (e_IDs e)) (d_Pending d)\<rparr>)
        else if e_Kind e = ''retire'' then
          Inr (if has (d_Retired d) (e_LeaseID e) then d
               else d\<lparr>d_Retired := put (e_LeaseID e) False (d_Retired d)\<rparr>)
        else if e_Kind e = ''retire_ack'' then
          Inr (d\<lparr>d_Retired := put (e_LeaseID e) True (d_Retired d)\<rparr>)
        else Inr d)"

section \<open>History pruning and snapshot validation\<close>

definition referenced :: "disk_state \<Rightarrow> string list" where
  "referenced d = lease_ids (concat (map ruleLeases (c_Rules (d_Config d))))
     @ map u_LeaseID (d_Pending d) @ map (w_LeaseID \<circ> snd) (d_Windows d)"

definition drop_keys :: "'k list \<Rightarrow> ('k, 'v) gomap \<Rightarrow> ('k, 'v) gomap" where
  "drop_keys ks m = filter (\<lambda>e. fst e \<notin> set ks) m"

definition prunable :: "gotime \<Rightarrow> disk_state \<Rightarrow> string list" where
  "prunable now d = map fst (filter (\<lambda>(i, l). map_of (d_Retired d) i = Some True
     \<and> i \<notin> set (referenced d) \<and> \<not> now < l_ExpiresAt l) (d_Leases d))"

definition pruneLeaseHistory :: "gotime \<Rightarrow> disk_state \<Rightarrow> disk_state \<times> nat" where
  "pruneLeaseHistory now d = (let ids = prunable now d in
     (d\<lparr>d_Leases := drop_keys ids (d_Leases d), d_Used := drop_keys ids (d_Used d),
        d_Retired := drop_keys ids (d_Retired d)\<rparr>, length ids))"

fun check_pending :: "disk_state \<Rightarrow> usage_record list \<Rightarrow> string list \<Rightarrow> (string, int) gomap
    \<Rightarrow> agent_error option" where
  "check_pending d [] ids spent = None"
| "check_pending d (u # us) ids spent = (case map_of (d_Leases d) (u_LeaseID u) of
     None \<Rightarrow> Some InvalidPendingUsage
   | Some l \<Rightarrow>
       if u_ID u = '''' \<or> u_ID u \<in> set ids \<or> \<not> ValidWindowMetadata u
          \<or> u_NodeID u \<noteq> reg_NodeID (d_Identity d) \<or> u_EntitlementID u \<noteq> l_EntitlementID l
          \<or> u_UploadBytes u < 0 \<or> u_DownloadBytes u < 0 \<or> u_UploadBytes u > l_Bytes l
          \<or> u_DownloadBytes u > l_Bytes l - u_UploadBytes u \<or> u_EndedAt u < u_StartedAt u
          \<or> u_EndedAt u > l_ExpiresAt l
       then Some InvalidPendingUsage
       else if usage_bytes u > look0 (d_Used d) (l_ID l) - look0 spent (l_ID l)
       then Some PendingExceedsSpent
       else check_pending d us (u_ID u # ids) (put (l_ID l) (look0 spent (l_ID l) + usage_bytes u) spent))"

record window_sums =
  ws_liability :: "(string, int) gomap"
  ws_rules :: "(string, int) gomap"
  ws_owners :: "(string, int) gomap"
  ws_pools :: "(string \<times> bool, int) gomap"
  ws_ruleLimits :: "(string, int) gomap"

definition bad_window :: "disk_state \<Rightarrow> string \<Rightarrow> credit_window \<Rightarrow> lease \<Rightarrow> bool" where
  "bad_window d i w l \<longleftrightarrow> has (d_Retired d) (w_LeaseID w) \<or> w_ID w \<noteq> i \<or> length (w_ID w) \<noteq> 32
     \<or> w_RuleID w = '''' \<or> w_UserID w = '''' \<or> w_Closed w \<or> w_Capacity w \<le> 0
     \<or> w_Capacity w > fst (window_limits w) \<or> w_Confirmed w < 0 \<or> w_Confirmed w > w_Capacity w
     \<or> w_Confirmed w > 0 \<and> w_Sequence w = 0 \<or> w_Sequence w = - 1 \<or> w_StartedAt w = 0
     \<or> \<not> w_StartedAt w < w_Until w \<or> w_Until w > l_ExpiresAt l"

definition add_window :: "credit_window \<Rightarrow> string \<Rightarrow> window_sums \<Rightarrow> window_sums" where
  "add_window w lid a =
     \<lparr>ws_liability = put lid (look0 (ws_liability a) lid + left w) (ws_liability a),
      ws_rules = put (w_RuleID w) (look0 (ws_rules a) (w_RuleID w) + left w) (ws_rules a),
      ws_owners = put (w_UserID w) (look0 (ws_owners a) (w_UserID w) + left w) (ws_owners a),
      ws_pools = put (w_RuleID w, w_Upload w)
         (look0 (ws_pools a) (w_RuleID w, w_Upload w) + 1) (ws_pools a),
      ws_ruleLimits = put (w_RuleID w)
         (max (look0 (ws_ruleLimits a) (w_RuleID w)) (snd (window_limits w))) (ws_ruleLimits a)\<rparr>"

fun check_windows :: "disk_state \<Rightarrow> (string \<times> credit_window) list \<Rightarrow> window_sums
    \<Rightarrow> agent_error + window_sums" where
  "check_windows d [] a = Inr a"
| "check_windows d ((i, w) # ws) a = (case map_of (d_Leases d) (w_LeaseID w) of
     None \<Rightarrow> Inl InvalidCreditWindow
   | Some l \<Rightarrow>
       if bad_window d i w l then Inl InvalidCreditWindow
       else if left w > l_Bytes l - look0 (d_Used d) (l_ID l) - look0 (ws_liability a) (l_ID l)
       then Inl CreditExceedsLease
       else (let a' = add_window w (l_ID l) a in
         if look0 (ws_owners a') (w_UserID w) > maxAccountCredits
            \<or> look0 (ws_pools a') (w_RuleID w, w_Upload w) > 2
         then Inl ExceedsResponsibility
         else check_windows d ws a'))"

definition sums0 :: window_sums where
  "sums0 = \<lparr>ws_liability = [], ws_rules = [], ws_owners = [], ws_pools = [], ws_ruleLimits = []\<rparr>"

definition validateSnapshot :: "disk_state \<Rightarrow> agent_error option" where
  "validateSnapshot d =
     (if spool d > MaxPendingRecords \<or> int (length (d_Leases d)) > maxRetainedLeases
         \<or> int (length (d_Used d)) > maxRetainedLeases \<or> int (length (d_Retired d)) > maxRetainedLeases
      then Some CapacityExceeded
      else if list_ex (\<lambda>(i, l). i = '''' \<or> i \<noteq> l_ID l \<or> l_Bytes l \<le> 0 \<or> l_ExpiresAt l = 0
         \<or> look0 (d_Used d) i < 0 \<or> look0 (d_Used d) i > l_Bytes l) (d_Leases d)
      then Some InvalidLeaseBudget
      else if list_ex (\<lambda>(i, _). \<not> has (d_Leases d) i) (d_Used d) then Some UsageLeaseMissing
      else if list_ex (\<lambda>(i, _). \<not> has (d_Leases d) i) (d_Retired d) then Some RetiredLeaseMissing
      else (case check_pending d (d_Pending d) [] [] of Some err \<Rightarrow> Some err | None \<Rightarrow>
        (case check_windows d (d_Windows d) sums0 of Inl err \<Rightarrow> Some err | Inr a \<Rightarrow>
           if list_ex (\<lambda>(r, t). t > look0 (ws_ruleLimits a) r) (ws_rules a)
           then Some RuleBoundExceeded else None)))"

end
