(* ===== verification/Ledger_Inv.thy ===== *)
theory Ledger_Inv
  imports Ledger
begin

text \<open>
  The invariant of the Agent's durable ledger and its preservation by every event. The invariant
  is the conjunction of seven named parts, each kept by each kind of event; the one fact about the
  environment that is needed is that an enabled rule of an accepted configuration carries a lease
  (\<open>Runtime.Apply\<close> rejects every other configuration before it reaches the store).
\<close>

section \<open>The invariant\<close>

definition maps_wf :: "disk_state \<Rightarrow> bool" where
  "maps_wf d \<longleftrightarrow> distinct_keys (d_Used d) \<and> distinct_keys (d_Retired d)
     \<and> distinct_keys (d_Leases d) \<and> distinct_keys (d_Windows d)"

definition leases_wf :: "disk_state \<Rightarrow> bool" where
  "leases_wf d \<longleftrightarrow> (\<forall>i l. map_of (d_Leases d) i = Some l \<longrightarrow> l_ID l = i)
     \<and> (\<forall>i n. map_of (d_Used d) i = Some n \<longrightarrow> 0 \<le> n \<and> has (d_Leases d) i)"

definition windows_wf :: "disk_state \<Rightarrow> bool" where
  "windows_wf d \<longleftrightarrow> (\<forall>i w. map_of (d_Windows d) i = Some w \<longrightarrow>
     w_ID w = i \<and> \<not> w_Closed w \<and> window_shape w
     \<and> (\<exists>l. map_of (d_Leases d) (w_LeaseID w) = Some l \<and> w_Until w \<le> l_ExpiresAt l))"

definition budget_ok :: "disk_state \<Rightarrow> bool" where
  "budget_ok d \<longleftrightarrow> (\<forall>i l. map_of (d_Leases d) i = Some l \<longrightarrow>
     look0 (d_Used d) i + creditLiability d i \<le> max 0 (l_Bytes l))"

definition spool_ok :: "disk_state \<Rightarrow> bool" where
  "spool_ok d \<longleftrightarrow> int (length (d_Pending d)) \<le> MaxPendingRecords
     \<and> int (length (d_Windows d)) \<le> MaxPendingRecords"

definition responsibility_ok :: "disk_state \<Rightarrow> bool" where
  "responsibility_ok d \<longleftrightarrow> (\<forall>r. win_total (\<lambda>w. w_RuleID w = r) d \<le> maxTCPRuleCredits)
     \<and> (\<forall>u. win_total (\<lambda>w. w_UserID w = u) d \<le> maxAccountCredits)
     \<and> (\<forall>r b. win_count (\<lambda>w. w_RuleID w = r \<and> w_Upload w = b) d \<le> 2)"

definition pending_total :: "usage_record list \<Rightarrow> string \<Rightarrow> int" where
  "pending_total us i = (\<Sum>u\<leftarrow>us. if u_LeaseID u = i then usage_bytes u else 0)"

definition pending_ok :: "disk_state \<Rightarrow> bool" where
  "pending_ok d \<longleftrightarrow> (\<forall>u\<in>set (d_Pending d). 0 \<le> u_UploadBytes u \<and> 0 \<le> u_DownloadBytes u)
     \<and> (\<forall>i. pending_total (d_Pending d) i \<le> look0 (d_Used d) i)"

definition ledger_inv :: "disk_state \<Rightarrow> bool" where
  "ledger_inv d \<longleftrightarrow> maps_wf d \<and> leases_wf d \<and> windows_wf d \<and> budget_ok d \<and> spool_ok d
     \<and> responsibility_ok d \<and> pending_ok d"

lemma ledger_invD [dest]:
  assumes "ledger_inv d"
  shows "maps_wf d" "leases_wf d" "windows_wf d" "budget_ok d" "spool_ok d" "responsibility_ok d"
    "pending_ok d"
  using assms by (simp_all add: ledger_inv_def)

lemma maps_wfD:
  assumes "maps_wf d"
  shows "distinct_keys (d_Used d)" "distinct_keys (d_Retired d)" "distinct_keys (d_Leases d)"
    "distinct_keys (d_Windows d)"
  using assms by (simp_all add: maps_wf_def)

lemma budget_okD:
  "budget_ok d \<Longrightarrow> map_of (d_Leases d) i = Some l \<Longrightarrow>
     look0 (d_Used d) i + creditLiability d i \<le> max 0 (l_Bytes l)"
  by (simp add: budget_ok_def)

section \<open>Sums over windows\<close>

lemma left_nonneg: "window_shape w \<Longrightarrow> 0 \<le> left w"
  by (simp add: window_shape_def left_def)

lemma windows_wf_left: "windows_wf d \<Longrightarrow> map_of (d_Windows d) i = Some w \<Longrightarrow> 0 \<le> left w"
  by (auto simp: windows_wf_def intro: left_nonneg)

lemma win_total_nonneg: "maps_wf d \<Longrightarrow> windows_wf d \<Longrightarrow> 0 \<le> win_total P d"
  unfolding win_total_def by (rule am.total_nonneg) (auto dest: maps_wfD windows_wf_left)

lemma win_total_mono:
  "maps_wf d \<Longrightarrow> windows_wf d \<Longrightarrow> (\<And>w. P w \<Longrightarrow> Q w) \<Longrightarrow> win_total P d \<le> win_total Q d"
  unfolding win_total_def by (rule am.total_mono) (auto dest: maps_wfD windows_wf_left)

lemma creditLiability_nonneg: "maps_wf d \<Longrightarrow> windows_wf d \<Longrightarrow> 0 \<le> creditLiability d i"
  by (simp add: creditLiability_def win_total_nonneg)

lemma look0_nonneg: "leases_wf d \<Longrightarrow> 0 \<le> look0 (d_Used d) i"
  by (auto simp: leases_wf_def look0_def split: option.splits)

text \<open>A window only counts towards a lease that the ledger knows.\<close>

lemma unknown_lease_zero:
  assumes "maps_wf d" "leases_wf d" "windows_wf d" "\<not> has (d_Leases d) i"
  shows "look0 (d_Used d) i = 0" "creditLiability d i = 0"
proof -
  show "look0 (d_Used d) i = 0"
    using assms(2,4) by (auto simp: leases_wf_def look0_def split: option.splits)
  have "creditLiability d i = (\<Sum>k\<in>dom (map_of (d_Windows d)).
      if w_LeaseID (the (map_of (d_Windows d) k)) = i then left (the (map_of (d_Windows d) k)) else 0)"
    by (simp add: creditLiability_def win_total_def am.total_dom maps_wfD [OF assms(1)])
  also have "\<dots> = 0"
    using assms(3,4) by (intro sum.neutral) (fastforce simp: windows_wf_def has_def)
  finally show "creditLiability d i = 0" .
qed

definition weigh :: "(credit_window \<Rightarrow> bool) \<Rightarrow> credit_window \<Rightarrow> int" where
  "weigh P w = (if P w then left w else 0)"

definition tally :: "(credit_window \<Rightarrow> bool) \<Rightarrow> credit_window \<Rightarrow> int" where
  "tally P w = (if P w then 1 else 0)"

lemma win_total_reserve:
  assumes "distinct_keys (d_Windows d)" "\<not> has (d_Windows d) (w_ID w)"
  shows "win_total P (applyReserve d w l) = win_total P d + weigh P w"
    "win_count P (applyReserve d w l) = win_count P d + tally P w"
  using assms
  by (simp_all add: win_total_def win_count_def applyReserve_def am.total_put has_def weigh_def tally_def)

lemma applyProgress_windows:
  "d_Windows (applyProgress d w uo) =
     (if w_Closed w then del (w_ID w) (d_Windows d) else put (w_ID w) w (d_Windows d))"
  "d_Leases (applyProgress d w uo) = d_Leases d"
  "d_Retired (applyProgress d w uo) = d_Retired d"
  "d_Identity (applyProgress d w uo) = d_Identity d"
  "d_Config (applyProgress d w uo) = d_Config d"
  by (simp_all add: applyProgress_def Let_def split: option.splits)

lemma applyProgress_spent:
  "d_Used (applyProgress d w uo) = (case uo of None \<Rightarrow> d_Used d
     | Some u \<Rightarrow> put (w_LeaseID w) (look0 (d_Used d) (w_LeaseID w) + usage_bytes u) (d_Used d))"
  "d_Pending (applyProgress d w uo) = d_Pending d @ (case uo of None \<Rightarrow> [] | Some u \<Rightarrow> [u])"
  by (simp_all add: applyProgress_def Let_def split: option.splits)

lemma win_total_progress:
  assumes "distinct_keys (d_Windows d)" "map_of (d_Windows d) (w_ID w) = Some old"
  shows "win_total P (applyProgress d w uo) = win_total P d - weigh P old
           + (if w_Closed w then 0 else weigh P w)"
    "win_count P (applyProgress d w uo) = win_count P d - tally P old
           + (if w_Closed w then 0 else tally P w)"
  using assms
  by (simp_all add: win_total_def win_count_def applyProgress_windows am.total_put am.total_del
      weigh_def tally_def)

section \<open>Credit reservations\<close>

definition reserve_ok :: "disk_state \<Rightarrow> credit_window \<Rightarrow> lease \<Rightarrow> bool" where
  "reserve_ok d w l \<longleftrightarrow> window_shape w \<and> validateCreditReserve d w (Some l) = None"

lemma reserve_okD:
  assumes "reserve_ok d w l"
  shows "window_shape w" "\<not> has (d_Windows d) (w_ID w)" "w_Confirmed w = 0" "\<not> w_Closed w"
    "w_LeaseID w = l_ID l"
    "\<And>old. map_of (d_Leases d) (w_LeaseID w) = Some old \<Longrightarrow> sameLease old l"
    "\<not> has (d_Retired d) (w_LeaseID w)"
    "win_count (\<lambda>v. w_RuleID v = w_RuleID w \<and> w_Upload v = w_Upload w) d < 2"
    "w_Capacity w \<le> snd (window_limits w) - win_total (\<lambda>v. w_RuleID v = w_RuleID w) d"
    "w_Capacity w \<le> maxAccountCredits - win_total (\<lambda>v. w_UserID v = w_UserID w) d"
    "w_Capacity w \<le> l_Bytes l - look0 (d_Used d) (w_LeaseID w) - creditLiability d (w_LeaseID w)"
    "w_Until w \<le> l_ExpiresAt l" "spool d < MaxPendingRecords"
  using assms
  by (auto simp: reserve_ok_def validateCreditReserve_def Let_def not_less not_le
      split: if_splits option.splits)

lemma length_put_new: "\<not> has m k \<Longrightarrow> length (put k v m) = Suc (length m)"
  by (simp add: length_put)

lemma ruleLimit_le: "snd (window_limits w) \<le> maxTCPRuleCredits"
  by (simp add: window_limits_def ledger_consts)

lemma applyReserve_inv:
  assumes inv: "ledger_inv d" and ok: "reserve_ok d w l"
  shows "ledger_inv (applyReserve d w l)"
proof -
  let ?d = "applyReserve d w l"
  note I = ledger_invD [OF inv] and R = reserve_okD [OF ok]
  note wt = win_total_reserve [OF maps_wfD(4) [OF I(1)] R(2)]
  have cap: "left w = w_Capacity w" using R(3) by (simp add: left_def)
  have bytes: "l_Bytes l = l_Bytes old" "l_ExpiresAt l = l_ExpiresAt old"
    if "map_of (d_Leases d) (w_LeaseID w) = Some old" for old
    using R(6) [OF that] by (simp_all add: sameLease_def)
  have "maps_wf ?d" using I(1) by (simp add: maps_wf_def applyReserve_def)
  moreover have "leases_wf ?d"
    using I(2) R(5) by (auto simp: leases_wf_def applyReserve_def)
  moreover have "windows_wf ?d"
    using I(3) R(1,4,12) bytes(2) by (fastforce simp: windows_wf_def applyReserve_def)
  moreover have "budget_ok ?d"
    unfolding budget_ok_def
  proof (intro allI impI)
    fix i l' assume l': "map_of (d_Leases ?d) i = Some l'"
    have liab: "creditLiability ?d i = creditLiability d i + (if w_LeaseID w = i then w_Capacity w else 0)"
      by (simp add: creditLiability_def wt weigh_def cap)
    show "look0 (d_Used ?d) i + creditLiability ?d i \<le> max 0 (l_Bytes l')"
    proof (cases "w_LeaseID w = i")
      case True
      with l' have "l' = l" by (simp add: applyReserve_def)
      with True R(11) liab show ?thesis by (simp add: applyReserve_def)
    next
      case False
      with l' have "map_of (d_Leases d) i = Some l'" by (simp add: applyReserve_def)
      with I(4) False liab show ?thesis by (simp add: budget_ok_def applyReserve_def)
    qed
  qed
  moreover have "spool_ok ?d"
    using R(2,13) I(5) by (simp add: spool_ok_def spool_def applyReserve_def length_put_new)
  moreover have "responsibility_ok ?d"
    using I(6) R(8,9,10) ruleLimit_le [of w]
    by (auto simp: responsibility_ok_def wt weigh_def tally_def cap)
  moreover have "pending_ok ?d"
    using I(7) by (simp add: pending_ok_def applyReserve_def)
  ultimately show ?thesis by (simp add: ledger_inv_def)
qed

section \<open>Credit progress\<close>

definition progress_ok :: "disk_state \<Rightarrow> credit_window \<Rightarrow> usage_record option \<Rightarrow> bool" where
  "progress_ok d w uo \<longleftrightarrow> window_shape w \<and> validateCreditProgress d w uo = None"

text \<open>What an accepted progress event says: the window keeps its identity, and the usage record
  carries exactly the newly confirmed bytes.\<close>

lemma validCreditUsage_bytes:
  assumes "validCreditUsage d w delta u"
  shows "usage_bytes u = delta" "0 \<le> u_UploadBytes u" "0 \<le> u_DownloadBytes u"
    "u_LeaseID u = w_LeaseID w" "int (length (d_Pending d)) < MaxPendingRecords"
  using assms by (auto simp: validCreditUsage_def usage_bytes_def)

lemma progress_okE:
  assumes "progress_ok d w uo"
  obtains old where "map_of (d_Windows d) (w_ID w) = Some old" "window_shape w"
    "w_LeaseID w = w_LeaseID old" "w_RuleID w = w_RuleID old" "w_UserID w = w_UserID old"
    "w_Upload w = w_Upload old" "w_Capacity w = w_Capacity old" "w_Until w = w_Until old"
    "w_Confirmed old \<le> w_Confirmed w" "w_TCP w = w_TCP old" "w_Sequence w = w_Sequence old + 1"
    "w_StartedAt w = w_StartedAt old"
    "(case uo of None \<Rightarrow> w_Confirmed w = w_Confirmed old
      | Some u \<Rightarrow> w_Confirmed old < w_Confirmed w
          \<and> validCreditUsage d w (w_Confirmed w - w_Confirmed old) u)"
  using assms
  by (auto simp: progress_ok_def validateCreditProgress_def Let_def split: if_splits option.splits)

lemma pending_total_append [simp]:
  "pending_total (us @ vs) i = pending_total us i + pending_total vs i"
  by (simp add: pending_total_def)

lemma pending_total_single [simp]:
  "pending_total [u] i = (if u_LeaseID u = i then usage_bytes u else 0)" "pending_total [] i = 0"
  by (simp_all add: pending_total_def)

definition advances :: "disk_state \<Rightarrow> credit_window \<Rightarrow> usage_record option \<Rightarrow> credit_window \<Rightarrow> int \<Rightarrow> bool" where
  "advances d w uo old delta \<longleftrightarrow> map_of (d_Windows d) (w_ID w) = Some old \<and> window_shape w
     \<and> w_LeaseID w = w_LeaseID old \<and> w_RuleID w = w_RuleID old \<and> w_UserID w = w_UserID old
     \<and> w_Upload w = w_Upload old \<and> w_Until w = w_Until old
     \<and> left old = left w + delta \<and> 0 \<le> left w \<and> 0 \<le> delta
     \<and> (case uo of None \<Rightarrow> delta = 0 | Some u \<Rightarrow> usage_bytes u = delta \<and> u_LeaseID u = w_LeaseID w
          \<and> 0 \<le> u_UploadBytes u \<and> 0 \<le> u_DownloadBytes u
          \<and> int (length (d_Pending d)) < MaxPendingRecords)"

lemma progress_advances:
  assumes "progress_ok d w uo"
  obtains old delta where "advances d w uo old delta" "delta = w_Confirmed w - w_Confirmed old"
proof -
  obtain old where old: "map_of (d_Windows d) (w_ID w) = Some old" "window_shape w"
    "w_LeaseID w = w_LeaseID old" "w_RuleID w = w_RuleID old" "w_UserID w = w_UserID old"
    "w_Upload w = w_Upload old" "w_Until w = w_Until old" "w_Capacity w = w_Capacity old"
    "w_Confirmed old \<le> w_Confirmed w"
    and usage: "case uo of None \<Rightarrow> w_Confirmed w = w_Confirmed old
      | Some u \<Rightarrow> w_Confirmed old < w_Confirmed w
          \<and> validCreditUsage d w (w_Confirmed w - w_Confirmed old) u"
    by (rule progress_okE [OF assms])
  have "advances d w uo old (w_Confirmed w - w_Confirmed old)"
    unfolding advances_def
  proof (intro conjI)
    show "case uo of None \<Rightarrow> w_Confirmed w - w_Confirmed old = 0
      | Some u \<Rightarrow> usage_bytes u = w_Confirmed w - w_Confirmed old \<and> u_LeaseID u = w_LeaseID w
          \<and> 0 \<le> u_UploadBytes u \<and> 0 \<le> u_DownloadBytes u
          \<and> int (length (d_Pending d)) < MaxPendingRecords"
      using usage by (cases uo) (auto dest: validCreditUsage_bytes)
  qed (use old left_nonneg [OF old(2)] in \<open>simp_all add: left_def\<close>)
  then show ?thesis by (rule that) simp
qed

lemma applyProgress_used:
  assumes "advances d w uo old delta"
  shows "look0 (d_Used (applyProgress d w uo)) i
    = look0 (d_Used d) i + (if i = w_LeaseID w then delta else 0)"
  using assms by (cases uo) (simp_all add: applyProgress_spent advances_def)

lemma applyProgress_liability:
  assumes "distinct_keys (d_Windows d)" "advances d w uo old delta" "P w = P old"
  shows "win_total P (applyProgress d w uo) = win_total P d
      - (if P w then (if w_Closed w then left old else delta) else 0)"
    "win_count P (applyProgress d w uo) = win_count P d - (if P w \<and> w_Closed w then 1 else 0)"
  using assms win_total_progress [OF assms(1), of w old P uo]
  by (simp_all add: advances_def weigh_def tally_def)

lemma applyProgress_budget:
  assumes "distinct_keys (d_Windows d)" "budget_ok d" "advances d w uo old delta"
  shows "budget_ok (applyProgress d w uo)"
  unfolding budget_ok_def
proof (intro allI impI)
  fix i l assume "map_of (d_Leases (applyProgress d w uo)) i = Some l"
  then have "look0 (d_Used d) i + creditLiability d i \<le> max 0 (l_Bytes l)"
    using assms(2) by (simp add: budget_ok_def applyProgress_windows)
  moreover have "creditLiability (applyProgress d w uo) i
      \<le> creditLiability d i - (if i = w_LeaseID w then delta else 0)"
    using assms(3) applyProgress_liability(1) [OF assms(1,3), of "\<lambda>v. w_LeaseID v = i"]
    by (auto simp: creditLiability_def advances_def)
  ultimately show "look0 (d_Used (applyProgress d w uo)) i + creditLiability (applyProgress d w uo) i
      \<le> max 0 (l_Bytes l)"
    using applyProgress_used [OF assms(3), of i] by (simp split: if_splits)
qed

lemma applyProgress_responsibility:
  assumes "distinct_keys (d_Windows d)" "responsibility_ok d" "advances d w uo old delta"
  shows "responsibility_ok (applyProgress d w uo)"
proof -
  have le: "win_total P (applyProgress d w uo) \<le> win_total P d"
    "win_count P (applyProgress d w uo) \<le> win_count P d" if "P w = P old" for P
    using assms(3) applyProgress_liability [OF assms(1,3) that] by (simp_all add: advances_def)
  have same: "w_RuleID w = w_RuleID old" "w_UserID w = w_UserID old" "w_Upload w = w_Upload old"
    using assms(3) by (simp_all add: advances_def)
  show ?thesis
    unfolding responsibility_ok_def
  proof (intro conjI allI)
    show "win_total (\<lambda>v. w_RuleID v = r) (applyProgress d w uo) \<le> maxTCPRuleCredits" for r
      by (rule order_trans [OF le(1)]) (use same assms(2) in \<open>simp_all add: responsibility_ok_def\<close>)
    show "win_total (\<lambda>v. w_UserID v = u) (applyProgress d w uo) \<le> maxAccountCredits" for u
      by (rule order_trans [OF le(1)]) (use same assms(2) in \<open>simp_all add: responsibility_ok_def\<close>)
    show "win_count (\<lambda>v. w_RuleID v = r \<and> w_Upload v = b) (applyProgress d w uo) \<le> 2" for r b
      by (rule order_trans [OF le(2)]) (use same assms(2) in \<open>simp_all add: responsibility_ok_def\<close>)
  qed
qed

lemma applyProgress_leases:
  assumes "leases_wf d" "windows_wf d" "advances d w uo old delta"
  shows "leases_wf (applyProgress d w uo)"
proof -
  have "has (d_Leases d) (w_LeaseID w)"
    using assms(2,3) by (auto simp: windows_wf_def has_def advances_def)
  moreover have "0 \<le> look0 (d_Used d) (w_LeaseID w)"
    by (rule look0_nonneg [OF assms(1)])
  ultimately show ?thesis
    using assms(1,3)
    by (cases uo) (auto simp: leases_wf_def applyProgress_windows applyProgress_spent advances_def
        split: if_splits)
qed

lemma applyProgress_windows_wf:
  assumes "windows_wf d" "advances d w uo old delta"
  shows "windows_wf (applyProgress d w uo)"
proof -
  obtain l where "map_of (d_Leases d) (w_LeaseID w) = Some l" "w_Until w \<le> l_ExpiresAt l"
    using assms by (auto simp: windows_wf_def advances_def)
  then show ?thesis
    using assms by (auto simp: windows_wf_def applyProgress_windows advances_def)
qed

lemma applyProgress_spool:
  assumes "spool_ok d" "advances d w uo old delta"
  shows "spool_ok (applyProgress d w uo)"
proof -
  have "has (d_Windows d) (w_ID w)" using assms(2) by (simp add: advances_def has_def)
  then show ?thesis
    using assms length_del_le [of "w_ID w" "d_Windows d"]
    by (cases uo) (simp_all add: spool_ok_def applyProgress_windows applyProgress_spent length_put
        advances_def)
qed

lemma applyProgress_pending:
  assumes "pending_ok d" "advances d w uo old delta"
  shows "pending_ok (applyProgress d w uo)"
  using assms applyProgress_used [OF assms(2)]
  by (cases uo) (auto simp: pending_ok_def applyProgress_spent advances_def)

lemma applyProgress_inv:
  assumes inv: "ledger_inv d" and ok: "progress_ok d w uo"
  shows "ledger_inv (applyProgress d w uo)"
proof -
  note I = ledger_invD [OF inv]
  obtain old delta where adv: "advances d w uo old delta"
    using ok by (rule progress_advances)
  have "maps_wf (applyProgress d w uo)"
    using I(1) by (cases uo) (simp_all add: maps_wf_def applyProgress_windows applyProgress_spent)
  with maps_wfD [OF I(1)] I adv show ?thesis
    by (simp add: ledger_inv_def applyProgress_leases applyProgress_windows_wf applyProgress_budget
        applyProgress_spool applyProgress_responsibility applyProgress_pending)
qed

section \<open>Direct charges\<close>

lemma win_total_cong: "d_Windows d' = d_Windows d \<Longrightarrow> win_total P d' = win_total P d"
  "d_Windows d' = d_Windows d \<Longrightarrow> win_count P d' = win_count P d"
  "d_Windows d' = d_Windows d \<Longrightarrow> creditLiability d' i = creditLiability d i"
  by (simp_all add: win_total_def win_count_def creditLiability_def)

text \<open>Registering a lease the ledger does not know, or registering a known one again, keeps the
  invariant: an unknown lease has nothing spent and nothing reserved.\<close>

definition leases_extend :: "disk_state \<Rightarrow> (string, lease) gomap \<Rightarrow> bool" where
  "leases_extend d m \<longleftrightarrow> distinct_keys m \<and> (\<forall>i. has (d_Leases d) i \<longrightarrow> has m i)
     \<and> (\<forall>i l. map_of m i = Some l \<longrightarrow> l_ID l = i
          \<and> (\<forall>old. map_of (d_Leases d) i = Some old \<longrightarrow> sameLease old l))"

lemma leases_extendD:
  assumes "leases_extend d m"
  shows "distinct_keys m" "has (d_Leases d) i \<Longrightarrow> has m i"
    "map_of m i = Some l \<Longrightarrow> l_ID l = i"
    "map_of m i = Some l \<Longrightarrow> map_of (d_Leases d) i = Some old \<Longrightarrow> sameLease old l"
  using assms unfolding leases_extend_def by blast+

lemma leases_extend_inv:
  assumes inv: "ledger_inv d" and ext: "leases_extend d m"
  shows "ledger_inv (d\<lparr>d_Leases := m\<rparr>)"
proof -
  let ?d = "d\<lparr>d_Leases := m\<rparr>"
  note I = ledger_invD [OF inv]
  have budget: "look0 (d_Used d) i + creditLiability d i \<le> max 0 (l_Bytes l)"
    if l: "map_of m i = Some l" for i l
  proof (cases "map_of (d_Leases d) i")
    case None
    then show ?thesis using unknown_lease_zero [OF I(1,2,3), of i] by (simp add: has_def)
  next
    case (Some old)
    then have "l_Bytes l = l_Bytes old"
      using leases_extendD(4) [OF ext l] by (simp add: sameLease_def)
    with budget_okD [OF I(4) Some] show ?thesis by simp
  qed
  have "windows_wf ?d"
    unfolding windows_wf_def
  proof (intro allI impI)
    fix i w assume "map_of (d_Windows ?d) i = Some w"
    then obtain old where w: "w_ID w = i" "\<not> w_Closed w" "window_shape w"
      and old: "map_of (d_Leases d) (w_LeaseID w) = Some old" "w_Until w \<le> l_ExpiresAt old"
      using I(3) by (auto simp: windows_wf_def)
    then obtain l where l: "map_of m (w_LeaseID w) = Some l"
      using leases_extendD(2) [OF ext, of "w_LeaseID w"] by (auto simp: has_def)
    have "sameLease old l" by (rule leases_extendD(4) [OF ext l old(1)])
    with w old l show "w_ID w = i \<and> \<not> w_Closed w \<and> window_shape w
      \<and> (\<exists>l. map_of (d_Leases ?d) (w_LeaseID w) = Some l \<and> w_Until w \<le> l_ExpiresAt l)"
      by (auto simp: sameLease_def)
  qed
  moreover have "budget_ok ?d"
    using budget by (simp add: budget_ok_def creditLiability_def win_total_def)
  moreover have "maps_wf ?d" "leases_wf ?d"
    using I(1,2) leases_extendD [OF ext] unfolding maps_wf_def leases_wf_def by auto
  moreover have "spool_ok ?d" "responsibility_ok ?d" "pending_ok ?d"
    using I(5,6,7)
    by (simp_all add: spool_ok_def pending_ok_def responsibility_ok_def win_total_def win_count_def)
  ultimately show ?thesis by (simp add: ledger_inv_def)
qed

lemma leases_extend_put:
  assumes "ledger_inv d" "l_ID l = i" "\<And>old. map_of (d_Leases d) i = Some old \<Longrightarrow> sameLease old l"
  shows "leases_extend d (put i l (d_Leases d))"
  using assms by (auto simp: leases_extend_def ledger_inv_def maps_wf_def leases_wf_def has_def sameLease_def)

lemma spend_inv:
  assumes inv: "ledger_inv d" and l: "map_of (d_Leases d) (u_LeaseID u) = Some l"
    and n: "0 \<le> u_UploadBytes u" "0 \<le> u_DownloadBytes u"
      "usage_bytes u \<le> l_Bytes l - look0 (d_Used d) (u_LeaseID u) - creditLiability d (u_LeaseID u)"
    and room: "spool d < MaxPendingRecords"
  shows "ledger_inv (spend d u)"
proof -
  let ?d = "spend d u"
  note I = ledger_invD [OF inv]
  have fields: "d_Windows ?d = d_Windows d" "d_Leases ?d = d_Leases d" "d_Pending ?d = d_Pending d @ [u]"
    and used: "look0 (d_Used ?d) i = look0 (d_Used d) i + (if i = u_LeaseID u then usage_bytes u else 0)" for i
    by (simp_all add: spend_def)
  have nonneg: "0 \<le> usage_bytes u" using n by (simp add: usage_bytes_def)
  have "maps_wf ?d" using I(1) by (simp add: maps_wf_def spend_def)
  moreover have "leases_wf ?d"
    using I(2) l nonneg look0_nonneg [OF I(2)]
    by (auto simp: leases_wf_def spend_def has_def split: if_splits)
  moreover have "windows_wf ?d"
    using I(3) fields by (simp add: windows_wf_def)
  moreover have "budget_ok ?d"
    using I(4) l n(3) used
    by (auto simp: budget_ok_def fields win_total_cong(3) [OF fields(1)] max_def)
  moreover have "spool_ok ?d"
    using I(5) room by (simp add: spool_ok_def spool_def fields)
  moreover have "responsibility_ok ?d"
    using I(6) by (simp add: responsibility_ok_def win_total_cong(1,2) [OF fields(1)])
  moreover have "pending_ok ?d"
    using I(7) n used by (simp add: pending_ok_def fields)
  ultimately show ?thesis by (simp add: ledger_inv_def)
qed

lemma applyUsage_inv:
  assumes inv: "ledger_inv d" and ok: "applyUsage d e = Inr d'"
  shows "ledger_inv d'"
proof -
  obtain u where u: "e_Usage e = Some u" "0 \<le> u_UploadBytes u" "0 \<le> u_DownloadBytes u"
    using ok by (auto simp: applyUsage_def split: option.splits if_splits)
  obtain l d1 where src: "map_of (d_Leases d) (u_LeaseID u) = Some l \<and> d1 = d
      \<or> map_of (d_Leases d) (u_LeaseID u) = None \<and> l_ID l = u_LeaseID u
        \<and> d1 = d\<lparr>d_Leases := put (u_LeaseID u) l (d_Leases d)\<rparr>"
    and guard: "usage_bytes u \<le> l_Bytes l - look0 (d_Used d1) (u_LeaseID u) - creditLiability d1 (u_LeaseID u)"
      "spool d1 < MaxPendingRecords"
    and d': "d' = spend d1 u"
    using ok u by (auto simp: applyUsage_def Let_def bindE_eq_Inr split: option.splits if_splits)
  have "ledger_inv d1"
    using src inv by (auto intro!: leases_extend_inv leases_extend_put)
  moreover have "map_of (d_Leases d1) (u_LeaseID u) = Some l"
    using src by auto
  ultimately show ?thesis
    unfolding d' using u guard by (intro spend_inv) auto
qed

section \<open>Configurations\<close>

definition metered :: "config \<Rightarrow> bool" where
  "metered c \<longleftrightarrow> list_all (\<lambda>r. r_Enabled r \<longrightarrow> r_Lease r \<noteq> None) (c_Rules c)"

lemma put_leases_source:
  "map_of (put_leases ls m) i = Some l \<Longrightarrow> map_of m i = Some l \<or> Some l \<in> set ls \<and> l_ID l = i"
proof (induction ls arbitrary: m)
  case Nil
  then show ?case by (simp add: put_leases_def)
next
  case (Cons lo ls)
  show ?case
  proof (cases lo)
    case None
    then show ?thesis using Cons by (simp add: put_leases_def)
  next
    case (Some x)
    then have "put_leases (lo # ls) m = put_leases ls (put (l_ID x) x m)"
      by (simp add: put_leases_def)
    with Cons Some show ?thesis by (fastforce split: if_splits)
  qed
qed

lemma put_leases_keeps: "has m i \<Longrightarrow> has (put_leases ls m) i"
proof (induction ls arbitrary: m)
  case (Cons lo ls)
  then show ?case by (cases lo) (simp_all add: put_leases_def)
qed (simp add: put_leases_def)

lemma put_leases_distinct: "distinct_keys m \<Longrightarrow> distinct_keys (put_leases ls m)"
proof (induction ls arbitrary: m)
  case (Cons lo ls)
  then show ?case by (cases lo) (simp_all add: put_leases_def)
qed (simp add: put_leases_def)

lemma retire_absent_distinct: "distinct_keys m \<Longrightarrow> distinct_keys (retire_absent act ids m)"
  by (induction ids arbitrary: m) (auto simp: retire_absent_def)

lemma applyConfig_inv:
  assumes inv: "ledger_inv d" and ok: "validateConfig d c = None" and met: "metered c"
  shows "ledger_inv (applyConfig d c)"
proof -
  note I = ledger_invD [OF inv]
  let ?ls = "concat (map ruleLeases (filter r_Enabled (c_Rules c)))"
  have filt: "filter (\<lambda>r. r_Enabled r \<and> r_Lease r \<noteq> None) (c_Rules c) = filter r_Enabled (c_Rules c)"
    using met by (intro filter_cong) (auto simp: metered_def list_all_iff)
  have same: "sameLease old l" if "Some l \<in> set ?ls" "map_of (d_Leases d) (l_ID l) = Some old" for l old
    using ok that unfolding validateConfig_def filt
    by (fastforce simp: Let_def list_ex_iff split: if_splits option.splits)
  have "leases_extend d (put_leases ?ls (d_Leases d))"
    unfolding leases_extend_def
  proof (intro conjI allI impI)
    fix i l assume l: "map_of (put_leases ?ls (d_Leases d)) i = Some l"
    note src = put_leases_source [OF l]
    show "l_ID l = i" using src I(2) by (auto simp: leases_wf_def)
    fix old assume "map_of (d_Leases d) i = Some old"
    then show "sameLease old l" using src same by (auto simp: sameLease_def)
  qed (use maps_wfD [OF I(1)] in \<open>simp_all add: put_leases_keeps put_leases_distinct\<close>)
  then have "ledger_inv (d\<lparr>d_Leases := put_leases ?ls (d_Leases d)\<rparr>)"
    by (rule leases_extend_inv [OF inv])
  moreover have "ledger_inv (x\<lparr>d_Retired := m, d_Config := c'\<rparr>)"
    if "ledger_inv x" "distinct_keys m" for x m c'
    using that
    by (simp add: ledger_inv_def maps_wf_def leases_wf_def windows_wf_def budget_ok_def spool_ok_def
        responsibility_ok_def pending_ok_def win_total_def win_count_def creditLiability_def)
  ultimately show ?thesis
    using maps_wfD(2) [OF I(1)]
    by (simp add: applyConfig_def Let_def retire_absent_distinct)
qed

section \<open>Every event\<close>

definition event_admissible :: "state_event \<Rightarrow> bool" where
  "event_admissible e \<longleftrightarrow> (case e_Config e of None \<Rightarrow> True | Some c \<Rightarrow> metered c)"

lemma applyCreditDisk_cases:
  assumes "applyCreditDisk d e = Inr d'"
  obtains (reserve) w l where "e_Kind e = ''credit_reserve''" "e_Window e = Some w" "e_Lease e = Some l"
      "reserve_ok d w l" "d' = applyReserve d w l"
  | (progress) w where "e_Kind e \<noteq> ''credit_reserve''" "e_Window e = Some w"
      "progress_ok d w (e_Usage e)" "d' = applyProgress d w (e_Usage e)"
proof (cases "e_Window e")
  case None
  then show ?thesis using assms by (simp add: applyCreditDisk_def validateCreditEvent_def)
next
  case (Some w)
  show ?thesis
  proof (cases "e_Kind e = ''credit_reserve''")
    case True
    with Some assms that(1) [of w] show ?thesis
      by (auto simp: applyCreditDisk_def validateCreditEvent_def reserve_ok_def
          split: option.splits if_splits)
  next
    case False
    with Some assms that(2) [of w] show ?thesis
      by (auto simp: applyCreditDisk_def validateCreditEvent_def progress_ok_def
          split: option.splits if_splits)
  qed
qed

lemma applyCreditDisk_inv:
  assumes "ledger_inv d" "applyCreditDisk d e = Inr d'"
  shows "ledger_inv d'"
  using assms(2)
  by (cases rule: applyCreditDisk_cases)
    (simp_all add: applyReserve_inv applyProgress_inv assms(1))

lemma pending_total_filter:
  assumes "\<forall>u\<in>set us. 0 \<le> u_UploadBytes u \<and> 0 \<le> u_DownloadBytes u"
  shows "pending_total (filter P us) i \<le> pending_total us i"
  using assms by (induction us) (auto simp: pending_total_def usage_bytes_def)

lemma ack_inv:
  assumes "ledger_inv d"
  shows "ledger_inv (d\<lparr>d_Pending := filter P (d_Pending d)\<rparr>)"
proof -
  let ?d = "d\<lparr>d_Pending := filter P (d_Pending d)\<rparr>"
  note I = ledger_invD [OF assms]
  have "pending_total (filter P (d_Pending d)) i \<le> look0 (d_Used d) i" for i
    using I(7) pending_total_filter [of "d_Pending d" P i]
    by (fastforce simp: pending_ok_def intro: order_trans)
  then have "pending_ok ?d" using I(7) by (simp add: pending_ok_def)
  moreover have "spool_ok ?d"
    using I(5) by (simp add: spool_ok_def) (meson length_filter_le of_nat_mono order_trans)
  ultimately show ?thesis
    using I(1-4,6)
    by (simp add: ledger_inv_def maps_wf_def leases_wf_def windows_wf_def budget_ok_def
        responsibility_ok_def win_total_def win_count_def creditLiability_def)
qed

lemma other_fields_inv:
  assumes "ledger_inv d"
  shows "ledger_inv (d\<lparr>d_Identity := v\<rparr>)"
    "distinct_keys m \<Longrightarrow> ledger_inv (d\<lparr>d_Retired := m\<rparr>)"
  using assms
  by (simp_all add: ledger_inv_def maps_wf_def leases_wf_def windows_wf_def budget_ok_def
      spool_ok_def pending_ok_def responsibility_ok_def win_total_def win_count_def creditLiability_def)

lemma applyEvent_inv:
  assumes inv: "ledger_inv d" and adm: "event_admissible e" and ok: "applyEvent d e = Inr d'"
  shows "ledger_inv d'"
proof -
  have ret: "distinct_keys (put i b (d_Retired d))" for i b
    using inv by (auto dest: maps_wfD)
  consider (credit) "e_Kind e = ''credit_reserve'' \<or> e_Kind e = ''credit_progress''"
    | (usage) "e_Kind e = ''usage''" | (identity) "e_Kind e = ''identity''"
    | (config) "e_Kind e = ''config''" | (ack) "e_Kind e = ''ack''"
    | (retire) "e_Kind e = ''retire''" | (retire_ack) "e_Kind e = ''retire_ack''"
    | (other) "e_Kind e \<notin> {''credit_reserve'', ''credit_progress'', ''usage'', ''identity'',
        ''config'', ''ack'', ''retire'', ''retire_ack''}"
    by blast
  then show ?thesis
  proof cases
    case credit
    with ok have "applyCreditDisk d e = Inr d'" by (auto simp: applyEvent_def)
    with inv show ?thesis by (rule applyCreditDisk_inv)
  next
    case usage
    with ok have "applyUsage d e = Inr d'" by (simp add: applyEvent_def)
    with inv show ?thesis by (rule applyUsage_inv)
  next
    case identity
    with ok obtain v where "d' = d\<lparr>d_Identity := v\<rparr>"
      by (auto simp: applyEvent_def split: option.splits)
    with inv show ?thesis by (simp add: other_fields_inv)
  next
    case config
    with ok obtain c where "e_Config e = Some c" "validateConfig d c = None" "d' = applyConfig d c"
      by (auto simp: applyEvent_def validateEvent_def split: option.splits)
    with inv adm show ?thesis by (simp add: applyConfig_inv event_admissible_def)
  next
    case ack
    with ok have "d' = d\<lparr>d_Pending := filter (\<lambda>u. u_ID u \<notin> set (e_IDs e)) (d_Pending d)\<rparr>"
      by (simp add: applyEvent_def validateEvent_def)
    with inv show ?thesis by (simp add: ack_inv)
  next
    case retire
    with ok have "d' = d \<or> d' = d\<lparr>d_Retired := put (e_LeaseID e) False (d_Retired d)\<rparr>"
      by (simp add: applyEvent_def split: option.splits if_splits)
    with inv ret show ?thesis by (auto simp: other_fields_inv)
  next
    case retire_ack
    with ok have "d' = d\<lparr>d_Retired := put (e_LeaseID e) True (d_Retired d)\<rparr>"
      by (simp add: applyEvent_def split: option.splits)
    with inv ret show ?thesis by (simp add: other_fields_inv)
  next
    case other
    with ok show ?thesis by (simp add: applyEvent_def validateEvent_def)
  qed
qed

interpretation agent: guarded_machine applyEvent event_admissible ledger_inv
  by unfold_locales (rule applyEvent_inv)

section \<open>Pruning\<close>

lemma drop_keys_lookup: "map_of (drop_keys ks m) i = (if i \<in> set ks then None else map_of m i)"
  by (induction m) (auto simp: drop_keys_def)

lemma drop_keys_distinct: "distinct_keys m \<Longrightarrow> distinct_keys (drop_keys ks m)"
  by (simp add: drop_keys_def distinct_keys_def distinct_map_filter)

lemma prunable_unreferenced: "i \<in> set (prunable now d) \<Longrightarrow> i \<notin> set (referenced d)"
  by (auto simp: prunable_def)

lemma pending_total_other: "i \<notin> u_LeaseID ` set us \<Longrightarrow> pending_total us i = 0"
  by (induction us) (auto simp: pending_total_def)

lemma pruneLeaseHistory_inv:
  assumes inv: "ledger_inv d"
  shows "ledger_inv (fst (pruneLeaseHistory now d))"
proof -
  let ?ks = "prunable now d"
  let ?d = "fst (pruneLeaseHistory now d)"
  note I = ledger_invD [OF inv]
  have f: "d_Windows ?d = d_Windows d" "d_Pending ?d = d_Pending d"
    "d_Leases ?d = drop_keys ?ks (d_Leases d)" "d_Used ?d = drop_keys ?ks (d_Used d)"
    "d_Retired ?d = drop_keys ?ks (d_Retired d)"
    by (simp_all add: pruneLeaseHistory_def Let_def)
  have used: "look0 (d_Used ?d) i = (if i \<in> set ?ks then 0 else look0 (d_Used d) i)" for i
    by (simp add: f look0_def drop_keys_lookup)
  have kept: "w_LeaseID w \<notin> set ?ks" if "map_of (d_Windows d) i = Some w" for i w
  proof -
    have "w_LeaseID w \<in> set (referenced d)"
      using map_of_SomeD [OF that] by (force simp: referenced_def)
    then show ?thesis using prunable_unreferenced by blast
  qed
  have "maps_wf ?d" using I(1) by (simp add: maps_wf_def f drop_keys_distinct)
  moreover have "leases_wf ?d"
    using I(2) by (auto simp: leases_wf_def f drop_keys_lookup has_def split: if_splits)
  moreover have "windows_wf ?d"
    using I(3) kept by (fastforce simp: windows_wf_def f drop_keys_lookup)
  moreover have "budget_ok ?d"
    using I(4) unfolding budget_ok_def f(3) drop_keys_lookup used win_total_cong(3) [OF f(1)]
    by (auto split: if_splits)
  moreover have "spool_ok ?d" "responsibility_ok ?d"
    using I(5,6) by (simp_all add: spool_ok_def responsibility_ok_def f win_total_cong(1,2) [OF f(1)])
  moreover have "pending_ok ?d"
  proof -
    have "pending_total (d_Pending d) i = 0" if "i \<in> set ?ks" for i
      using prunable_unreferenced [OF that] by (intro pending_total_other) (auto simp: referenced_def)
    with I(7) show ?thesis by (simp add: pending_ok_def f(2) used)
  qed
  ultimately show ?thesis by (simp add: ledger_inv_def)
qed

section \<open>Snapshots\<close>

text \<open>What the loop over the windows of a snapshot establishes: its accumulators are the sums of
  the ledger, and none of the bounds was passed on the way.\<close>

definition sums_ok :: "disk_state \<Rightarrow> window_sums \<Rightarrow> bool" where
  "sums_ok d a \<longleftrightarrow> (\<forall>i l. map_of (d_Leases d) i = Some l \<longrightarrow>
       look0 (d_Used d) i + look0 (ws_liability a) i \<le> l_Bytes l)
     \<and> (\<forall>u. look0 (ws_owners a) u \<le> maxAccountCredits) \<and> (\<forall>k. look0 (ws_pools a) k \<le> 2)
     \<and> (\<forall>r. look0 (ws_ruleLimits a) r \<le> maxTCPRuleCredits)"

definition window_ok :: "disk_state \<Rightarrow> string \<times> credit_window \<Rightarrow> bool" where
  "window_ok d p \<longleftrightarrow> w_ID (snd p) = fst p \<and> \<not> w_Closed (snd p) \<and> window_shape (snd p)
     \<and> (\<exists>l. map_of (d_Leases d) (w_LeaseID (snd p)) = Some l \<and> w_Until (snd p) \<le> l_ExpiresAt l)"

definition list_total :: "(credit_window \<Rightarrow> bool) \<Rightarrow> (string \<times> credit_window) list \<Rightarrow> int" where
  "list_total P ws = (\<Sum>p\<leftarrow>ws. weigh P (snd p))"

definition list_tally :: "(credit_window \<Rightarrow> bool) \<Rightarrow> (string \<times> credit_window) list \<Rightarrow> int" where
  "list_tally P ws = (\<Sum>p\<leftarrow>ws. tally P (snd p))"

lemma list_total_simps [simp]:
  "list_total P [] = 0" "list_total P (p # ws) = weigh P (snd p) + list_total P ws"
  "list_tally P [] = 0" "list_tally P (p # ws) = tally P (snd p) + list_tally P ws"
  by (simp_all add: list_total_def list_tally_def)

lemma win_total_list: "win_total P d = list_total P (d_Windows d)" "win_count P d = list_tally P (d_Windows d)"
  by (simp_all add: win_total_def win_count_def gsum_def list_total_def list_tally_def weigh_def
      tally_def split_def)

lemma not_bad_window:
  assumes "\<not> bad_window d i w l" "map_of (d_Leases d) (w_LeaseID w) = Some l"
  shows "window_ok d (i, w)"
  using assms by (auto simp: bad_window_def window_ok_def window_shape_def not_less)

lemma check_windows_step:
  assumes "check_windows d ((i, w) # ws) a = Inr a'" "leases_wf d" "sums_ok d a"
  shows "check_windows d ws (add_window w (w_LeaseID w) a) = Inr a'" "window_ok d (i, w)"
    "sums_ok d (add_window w (w_LeaseID w) a)"
proof -
  obtain l where l: "map_of (d_Leases d) (w_LeaseID w) = Some l"
    using assms(1) by (auto split: option.splits)
  have id: "l_ID l = w_LeaseID w" using assms(2) l by (simp add: leases_wf_def)
  have g: "\<not> bad_window d i w l" and
    budget: "left w \<le> l_Bytes l - look0 (d_Used d) (w_LeaseID w) - look0 (ws_liability a) (w_LeaseID w)" and
    resp: "look0 (ws_owners a) (w_UserID w) + left w \<le> maxAccountCredits"
      "look0 (ws_pools a) (w_RuleID w, w_Upload w) + 1 \<le> 2" and
    rest: "check_windows d ws (add_window w (w_LeaseID w) a) = Inr a'"
    using assms(1) by (auto simp: l id Let_def add_window_def not_less split: if_splits)
  show "check_windows d ws (add_window w (w_LeaseID w) a) = Inr a'" by (rule rest)
  show "window_ok d (i, w)" using g l by (rule not_bad_window)
  have "look0 (d_Used d) j + look0 (ws_liability (add_window w (w_LeaseID w) a)) j \<le> l_Bytes l'"
    if "map_of (d_Leases d) j = Some l'" for j l'
    using assms(3) that budget l by (auto simp: sums_ok_def add_window_def)
  then show "sums_ok d (add_window w (w_LeaseID w) a)"
    using assms(3) resp ruleLimit_le [of w] by (auto simp: sums_ok_def add_window_def)
qed

lemma check_windows_sound:
  assumes "check_windows d ws a = Inr a'" "leases_wf d" "sums_ok d a"
  shows "sums_ok d a' \<and> list_all (window_ok d) ws
    \<and> (\<forall>i. look0 (ws_liability a') i = look0 (ws_liability a) i + list_total (\<lambda>w. w_LeaseID w = i) ws)
    \<and> (\<forall>r. look0 (ws_rules a') r = look0 (ws_rules a) r + list_total (\<lambda>w. w_RuleID w = r) ws)
    \<and> (\<forall>u. look0 (ws_owners a') u = look0 (ws_owners a) u + list_total (\<lambda>w. w_UserID w = u) ws)
    \<and> (\<forall>r b. look0 (ws_pools a') (r, b) = look0 (ws_pools a) (r, b)
         + list_tally (\<lambda>w. w_RuleID w = r \<and> w_Upload w = b) ws)"
  using assms(1,3)
proof (induction ws arbitrary: a)
  case Nil
  then show ?case by simp
next
  case (Cons p ws)
  obtain i w where p: "p = (i, w)" by (cases p)
  note step = check_windows_step [OF Cons.prems(1) [unfolded p] assms(2) Cons.prems(2)]
  from Cons.IH [OF step(1,3)] step(2) show ?case
    unfolding p by (simp add: add_window_def weigh_def tally_def)
qed

lemma check_pending_sound:
  assumes "check_pending d us ids spent = None" "leases_wf d"
    and "\<And>i. look0 spent i \<le> look0 (d_Used d) i"
  shows "(\<forall>u\<in>set us. 0 \<le> u_UploadBytes u \<and> 0 \<le> u_DownloadBytes u)
    \<and> (\<forall>i. look0 spent i + pending_total us i \<le> look0 (d_Used d) i)"
  using assms(1,3)
proof (induction us arbitrary: ids spent)
  case Nil
  then show ?case by simp
next
  case (Cons u us)
  obtain l where l: "map_of (d_Leases d) (u_LeaseID u) = Some l"
    using Cons.prems(1) by (auto split: option.splits)
  have id: "l_ID l = u_LeaseID u" using assms(2) l by (simp add: leases_wf_def)
  let ?spent = "put (u_LeaseID u) (look0 spent (u_LeaseID u) + usage_bytes u) spent"
  have nonneg: "0 \<le> u_UploadBytes u" "0 \<le> u_DownloadBytes u"
    and le: "usage_bytes u \<le> look0 (d_Used d) (u_LeaseID u) - look0 spent (u_LeaseID u)"
    and rest: "check_pending d us (u_ID u # ids) ?spent = None"
    using Cons.prems(1) by (auto simp: l id not_less split: if_splits)
  have "look0 ?spent i \<le> look0 (d_Used d) i" for i
    using Cons.prems(2) le by simp
  from Cons.IH [OF rest this] nonneg show ?case
    by (auto simp: pending_total_def split: if_splits)
qed

lemma validateSnapshot_sound:
  assumes ok: "validateSnapshot d = None" and maps: "maps_wf d"
  shows "ledger_inv d" "spool d \<le> MaxPendingRecords"
proof -
  note D = maps_wfD [OF maps]
  have lease: "i = l_ID l" "0 < l_Bytes l" "0 \<le> look0 (d_Used d) i" "look0 (d_Used d) i \<le> l_Bytes l"
    if "map_of (d_Leases d) i = Some l" for i l
    using ok map_of_SomeD [OF that]
    by (fastforce simp: validateSnapshot_def list_ex_iff split: if_splits)+
  have known: "has (d_Leases d) i" if "map_of (d_Used d) i = Some n" for i n
    using ok map_of_SomeD [OF that] by (fastforce simp: validateSnapshot_def list_ex_iff split: if_splits)
  have lw: "leases_wf d"
    unfolding leases_wf_def
  proof (intro conjI allI impI)
    show "l_ID l = i" if "map_of (d_Leases d) i = Some l" for i l
      using lease(1) [OF that] by simp
    show kn: "has (d_Leases d) i" if "map_of (d_Used d) i = Some n" for i n
      using that by (rule known)
    show "0 \<le> n" if n: "map_of (d_Used d) i = Some n" for i n
      using known [OF n] lease(3) [of i] n by (auto simp: has_def look0_def)
  qed
  have sp: "spool d \<le> MaxPendingRecords"
    and pend: "check_pending d (d_Pending d) [] [] = None"
    using ok by (auto simp: validateSnapshot_def split: if_splits option.splits)
  obtain a where a: "check_windows d (d_Windows d) sums0 = Inr a"
    and rules: "\<And>r t. (r, t) \<in> set (ws_rules a) \<Longrightarrow> t \<le> look0 (ws_ruleLimits a) r"
    using ok by (fastforce simp: validateSnapshot_def list_ex_iff not_less
        split: if_splits option.splits sum.splits)
  have "sums_ok d sums0"
    using lease by (auto simp: sums_ok_def sums0_def look0_def ledger_consts)
  note S = check_windows_sound [OF a lw this]
  have rule: "look0 (ws_rules a) r \<le> maxTCPRuleCredits" for r
  proof (cases "map_of (ws_rules a) r")
    case None
    then show ?thesis by (simp add: look0_def ledger_consts)
  next
    case (Some t)
    then have "look0 (ws_rules a) r \<le> look0 (ws_ruleLimits a) r"
      using rules [OF map_of_SomeD [OF Some]] by (simp add: look0_def)
    with S show ?thesis unfolding sums_ok_def by (meson order_trans)
  qed
  have ww: "windows_wf d"
    unfolding windows_wf_def
  proof (intro allI impI)
    fix i w assume "map_of (d_Windows d) i = Some w"
    then have "window_ok d (i, w)"
      using S by (auto simp: list_all_iff dest!: map_of_SomeD)
    then show "w_ID w = i \<and> \<not> w_Closed w \<and> window_shape w
        \<and> (\<exists>l. map_of (d_Leases d) (w_LeaseID w) = Some l \<and> w_Until w \<le> l_ExpiresAt l)"
      by (auto simp: window_ok_def)
  qed
  have "budget_ok d"
    using S by (fastforce simp: budget_ok_def sums_ok_def creditLiability_def win_total_list sums0_def look0_def)
  moreover have "responsibility_ok d"
    using S rule by (auto simp: responsibility_ok_def sums_ok_def win_total_list sums0_def look0_def)
  moreover have "pending_ok d"
    using check_pending_sound [OF pend lw] look0_nonneg [OF lw] by (simp add: pending_ok_def look0_def)
  moreover have "spool_ok d"
    using sp by (simp add: spool_ok_def spool_def)
  ultimately show "ledger_inv d" using maps lw ww by (simp add: ledger_inv_def)
  show "spool d \<le> MaxPendingRecords" by (rule sp)
qed

end
