(* ===== verification/Store.thy ===== *)
theory Store
  imports Ledger_Inv
begin

text \<open>
  The running Agent store (\<open>internal/agent/state.go\<close>, \<open>credits.go\<close>, \<open>lease_set.go\<close>,
  \<open>continuity.go\<close>, \<open>limits.go\<close>): the durable ledger together with the volatile credit windows that
  the data path debits, the request queue and the single writer that turns requests into batches
  of write-ahead-log events.

  \<^item> \<open>s_credits\<close> is the heap of \<open>*liveCredit\<close> objects, addressed by window identifier;
    \<open>s_creditPools\<close> holds references into it.
  \<^item> \<open>s_base\<close> and \<open>s_log\<close> are what is on disk: the state of the last checkpoint and the events
    appended to the write-ahead log since (the byte format is the subject of theory \<open>Wal\<close>).
  \<^item> Clock readings, random identifiers and the outcome of disk writes come from outside; they
    are the arguments \<open>now\<close>, \<open>tick\<close> and \<open>io_env\<close>. Calls of \<open>time.Now()\<close> that guard one decision
    are one reading; the later reading that is stored in a record is a separate one.
  \<^item> Wake-up channels carry no data and are not modelled.
\<close>

section \<open>State\<close>

record live_credit =
  lc_window :: credit_window
  lc_used :: int
  lc_last :: gotime
  lc_closed :: bool

type_synonym pool_key = "string \<times> bool"

record tcp_target =
  tt_size :: int
  tt_last :: gotime

record state_request =
  q_event :: state_event
  q_rule :: rule
  q_until :: gotime
  q_upload :: bool
  q_n :: int
  q_creditPrime :: bool
  q_creditSize :: int
  q_renewalOnly :: bool

record io_env =
  io_append :: "nat option"
  io_len :: "state_event list \<Rightarrow> int"
  io_checkpoint :: bool
  io_now :: gotime

record tick =
  t_ctxErr :: bool
  t_now :: gotime
  t_stamp :: gotime
  t_id :: "string option"
  t_io :: io_env

record store =
  s_state :: disk_state
  s_base :: disk_state
  s_log :: "state_event list"
  s_seq :: u64
  s_walBytes :: int
  s_failed :: bool
  s_fastFailed :: bool
  s_pauseTCPGrowth :: bool
  s_closing :: bool
  s_expandedCredits :: bool
  s_credits :: "(string, live_credit) gomap"
  s_creditPools :: "(pool_key, string list) gomap"
  s_refilling :: "(pool_key, bool) gomap"
  s_tcpCreditTargets :: "(pool_key, tcp_target) gomap"
  s_prefetching :: "(string, string) gomap"
  s_queue :: "state_request list"
  s_nextHistoryPrune :: gotime

definition maxStoreQueue :: nat where "maxStoreQueue = 256"
definition maxCommitBatch :: nat where "maxCommitBatch = 128"
definition walHeaderSize :: int where "walHeaderSize = 20"
definition walCheckpointBytes :: int where "walCheckpointBytes = 8388608"
definition tcpCreditIdleTimeout :: int where "tcpCreditIdleTimeout = 1000000000"
definition growthWindow :: int where "growthWindow = 100000000"
definition minute :: int where "minute = 60000000000"
definition renewalLead :: int where "renewalLead = 15000000000"

section \<open>Rules\<close>

definition limitOwner :: "rule \<Rightarrow> string" where
  "limitOwner v = (if r_UserID v \<noteq> '''' then ''user:'' @ r_UserID v else ''rule:'' @ r_ID v)"

definition usesCreditWindows :: "rule \<Rightarrow> bool" where
  "usesCreditWindows r \<longleftrightarrow> r_Network r = ''tcp''
     \<or> r_Network r = ''udp'' \<and> (case r_UDP r of None \<Rightarrow> False | Some u \<Rightarrow> udp_CreditWindows u)"

definition creditKey :: "string \<Rightarrow> bool \<Rightarrow> pool_key" where
  "creditKey r up = (r, up)"

definition slice :: "'a list option \<Rightarrow> 'a list" where
  "slice o' = (case o' of None \<Rightarrow> [] | Some xs \<Rightarrow> xs)"

definition sameExistingCandidates :: "route_candidate list option \<Rightarrow> route_candidate list option \<Rightarrow> bool" where
  "sameExistingCandidates a b \<longleftrightarrow>
     (if slice a = [] \<or> slice b = [] then a = b
      else list_all (\<lambda>old. case find (\<lambda>next. rc_ID old = rc_ID next) (slice b) of
             None \<Rightarrow> False
           | Some next \<Rightarrow> old\<lparr>rc_Weight := 0\<rparr> = next\<lparr>rc_Weight := 0\<rparr>) (slice a))"

definition sameForwardingRule :: "rule \<Rightarrow> rule \<Rightarrow> bool" where
  "sameForwardingRule a b \<longleftrightarrow> (case (r_Lease a, r_Lease b) of
     (Some la, Some lb) \<Rightarrow>
       l_Limits la = l_Limits lb
       \<and> sameExistingCandidates (r_RouteCandidates a) (r_RouteCandidates b)
       \<and> a\<lparr>r_Lease := None, r_StandbyLease := None, r_LeasePipeline := False, r_RouteCandidates := None\<rparr>
       = b\<lparr>r_Lease := None, r_StandbyLease := None, r_LeasePipeline := False, r_RouteCandidates := None\<rparr>
   | _ \<Rightarrow> a = b)"

definition transientMeterError :: "agent_error option \<Rightarrow> bool" where
  "transientMeterError e \<longleftrightarrow> e = Some LeaseUnavailable \<or> e = Some SpoolFull \<or> e = Some CreditUnavailable"

section \<open>Admission\<close>

definition availableLocked :: "gotime \<Rightarrow> store \<Rightarrow> rule \<Rightarrow> gotime \<Rightarrow> int \<Rightarrow> agent_error option" where
  "availableLocked now s r until n =
     (if s_failed s then Some StorageUnavailable
      else case r_Lease r of None \<Rightarrow> Some LeaseUnavailable | Some l \<Rightarrow>
        if \<not> now < until \<or> \<not> now < l_ExpiresAt l then Some LeaseUnavailable
        else if has (d_Retired (s_state s)) (l_ID l) then Some LeaseUnavailable
        else if (case map_of (d_Leases (s_state s)) (l_ID l) of None \<Rightarrow> False
                 | Some old \<Rightarrow> \<not> sameLease old l) then Some LeaseChanged
        else case validateLeaseCapacity (s_state s) [Some l] of Some e \<Rightarrow> Some e | None \<Rightarrow>
          if l_Bytes l \<le> 0
             \<or> n > l_Bytes l - look0 (d_Used (s_state s)) (l_ID l) - creditLiability (s_state s) (l_ID l)
             \<or> look0 (d_Used (s_state s)) (l_ID l) \<ge> l_Bytes l
          then Some LeaseUnavailable
          else if spool (s_state s) \<ge> MaxPendingRecords then Some SpoolFull
          else None)"

definition funded :: "lease \<Rightarrow> rule \<Rightarrow> lease" where
  "funded l r = (case r_Lease r of None \<Rightarrow> l | Some p \<Rightarrow> l\<lparr>l_Limits := l_Limits p\<rparr>)"

definition spendingRuleLocked :: "gotime \<Rightarrow> store \<Rightarrow> rule \<Rightarrow> gotime \<Rightarrow> int \<Rightarrow> rule" where
  "spendingRuleLocked now s r until n =
     (case find (\<lambda>lo. case lo of None \<Rightarrow> False
         | Some l \<Rightarrow> availableLocked now s (r\<lparr>r_Lease := Some (funded l r)\<rparr>) until n = None) (ruleLeases r)
      of Some (Some l) \<Rightarrow> r\<lparr>r_Lease := Some (funded l r)\<rparr> | _ \<Rightarrow> r)"

definition lease_live :: "gotime \<Rightarrow> rule \<Rightarrow> string \<Rightarrow> bool" where
  "lease_live now r lid \<longleftrightarrow> list_ex (\<lambda>lo. case lo of None \<Rightarrow> False
     | Some l \<Rightarrow> l_ID l = lid \<and> now < l_ExpiresAt l) (ruleLeases r)"

definition pool :: "store \<Rightarrow> pool_key \<Rightarrow> string list" where
  "pool s k = (case map_of (s_creditPools s) k of None \<Rightarrow> [] | Some ids \<Rightarrow> ids)"

definition pool_credits :: "store \<Rightarrow> pool_key \<Rightarrow> live_credit list" where
  "pool_credits s k = List.map_filter (map_of (s_credits s)) (pool s k)"

definition hasSpendableCredit :: "gotime \<Rightarrow> store \<Rightarrow> rule \<Rightarrow> gotime \<Rightarrow> bool" where
  "hasSpendableCredit now s r until \<longleftrightarrow> \<not> s_fastFailed s \<and> now < until
     \<and> list_ex (\<lambda>up. list_ex (\<lambda>c. \<not> lc_closed c \<and> w_UserID (lc_window c) = limitOwner r
          \<and> lc_used c < w_Capacity (lc_window c) \<and> now < w_Until (lc_window c)
          \<and> lease_live now r (w_LeaseID (lc_window c)))
        (pool_credits s (creditKey (r_ID r) up))) [True, False]"

definition Available :: "gotime \<Rightarrow> store \<Rightarrow> rule \<Rightarrow> gotime \<Rightarrow> agent_error option" where
  "Available now s r until =
     (let err = availableLocked now s (spendingRuleLocked now s r until 0) until 0
      in if transientMeterError err \<and> usesCreditWindows r \<and> hasSpendableCredit now s r until
         then None else err)"

section \<open>Debiting a window\<close>

definition eligible :: "gotime \<Rightarrow> rule \<Rightarrow> live_credit \<Rightarrow> bool" where
  "eligible now r c \<longleftrightarrow> \<not> (lc_closed c \<or> \<not> lease_live now r (w_LeaseID (lc_window c))
     \<or> w_UserID (lc_window c) \<noteq> limitOwner r \<or> \<not> now < w_Until (lc_window c))"

definition unspent :: "live_credit \<Rightarrow> int" where
  "unspent c = w_Capacity (lc_window c) - lc_used c"

definition grow :: "gotime \<Rightarrow> live_credit \<Rightarrow> int \<Rightarrow> int" where
  "grow now c target =
     (if lc_used c \<ge> creditWindowSize \<and> now - w_StartedAt (lc_window c) < growthWindow
      then max target (min maxTCPCreditWindow (4 * w_Capacity (lc_window c))) else target)"

record scan =
  sc_target :: int
  sc_spendable :: int
  sc_remaining :: int
  sc_eligible :: "string list"

fun scan_pool :: "gotime \<Rightarrow> bool \<Rightarrow> rule \<Rightarrow> (string, live_credit) gomap \<Rightarrow> string list \<Rightarrow> scan \<Rightarrow> scan" where
  "scan_pool now adaptive r cs [] a = a"
| "scan_pool now adaptive r cs (i # is) a = (case map_of cs i of
     None \<Rightarrow> scan_pool now adaptive r cs is a
   | Some c \<Rightarrow>
       if \<not> eligible now r c then scan_pool now adaptive r cs is a
       else scan_pool now adaptive r cs is
         \<lparr>sc_target = (if adaptive then grow now c (max (sc_target a) (w_Capacity (lc_window c)))
                       else sc_target a),
          sc_spendable = (if unspent c > 0 then sc_spendable a + 1 else sc_spendable a),
          sc_remaining = sc_remaining a + unspent c,
          sc_eligible = sc_eligible a @ [i]\<rparr>)"

definition debit_credit :: "gotime \<Rightarrow> int \<Rightarrow> live_credit \<Rightarrow> live_credit" where
  "debit_credit now debit c =
     (let c1 = c\<lparr>lc_used := lc_used c + debit\<rparr> in if debit > 0 then c1\<lparr>lc_last := now\<rparr> else c1)"

fun debit_pool :: "gotime \<Rightarrow> bool \<Rightarrow> string list \<Rightarrow> int \<Rightarrow> int \<Rightarrow> int \<Rightarrow> (string, live_credit) gomap
    \<Rightarrow> int \<times> int \<times> (string, live_credit) gomap" where
  "debit_pool now adaptive [] needed target spendable cs = (target, spendable, cs)"
| "debit_pool now adaptive (i # is) needed target spendable cs = (case map_of cs i of
     None \<Rightarrow> debit_pool now adaptive is needed target spendable cs
   | Some c \<Rightarrow>
       (let debit = min needed (unspent c);
            c' = debit_credit now debit c;
            target' = (if debit > 0 \<and> adaptive then grow now c' target else target);
            spendable' = (if unspent c > 0 \<and> lc_used c' = w_Capacity (lc_window c')
                          then spendable - 1 else spendable);
            cs' = put i c' cs
        in if needed - debit = 0 then (target', spendable', cs')
           else debit_pool now adaptive is (needed - debit) target' spendable' cs'))"

definition reserve_request :: "rule \<Rightarrow> gotime \<Rightarrow> bool \<Rightarrow> int \<Rightarrow> int \<Rightarrow> state_request" where
  "reserve_request r until up n sz = \<lparr>q_event = event0\<lparr>e_Kind := ''credit_reserve''\<rparr>, q_rule = r,
     q_until = until, q_upload = up, q_n = n, q_creditPrime = False, q_creditSize = sz,
     q_renewalOnly = False\<rparr>"

definition enqueue :: "state_request \<Rightarrow> store \<Rightarrow> bool \<times> store" where
  "enqueue q s = (if \<not> s_closing s \<and> length (s_queue s) < maxStoreQueue
     then (True, s\<lparr>s_queue := s_queue s @ [q]\<rparr>) else (False, s))"

definition lease_capacity :: "rule \<Rightarrow> int" where
  "lease_capacity r = fold (\<lambda>lo n. case lo of None \<Rightarrow> n | Some l \<Rightarrow> max n (l_Bytes l)) (ruleLeases r) 0"

definition charge_target :: "gotime \<Rightarrow> store \<Rightarrow> bool \<Rightarrow> pool_key \<Rightarrow> int" where
  "charge_target now s adaptive k = (if adaptive then (case map_of (s_tcpCreditTargets s) k of
       Some p \<Rightarrow> if now - tt_last p < tcpCreditIdleTimeout then max creditWindowSize (tt_size p)
                 else creditWindowSize
     | None \<Rightarrow> creditWindowSize) else creditWindowSize)"

definition adaptive :: "store \<Rightarrow> rule \<Rightarrow> bool" where
  "adaptive s r \<longleftrightarrow> r_Network r = ''tcp'' \<and> \<not> s_pauseTCPGrowth s"

definition charge_scan :: "gotime \<Rightarrow> store \<Rightarrow> rule \<Rightarrow> bool \<Rightarrow> scan" where
  "charge_scan now s r up =
     (let k = creditKey (r_ID r) up in
      scan_pool now (adaptive s r) r (s_credits s) (pool s k)
        \<lparr>sc_target = charge_target now s (adaptive s r) k, sc_spendable = 0, sc_remaining = 0,
         sc_eligible = []\<rparr>)"

record charge_outcome =
  co_admitted :: bool
  co_target :: int
  co_spendable :: int
  co_remaining :: int
  co_credits :: "(string, live_credit) gomap"

definition charge_debit :: "gotime \<Rightarrow> store \<Rightarrow> rule \<Rightarrow> bool \<Rightarrow> int \<Rightarrow> charge_outcome" where
  "charge_debit now s r up n =
     (let a = charge_scan now s r up in
      if sc_eligible a \<noteq> [] \<and> n \<le> sc_remaining a then
        (case debit_pool now (adaptive s r) (sc_eligible a) n (sc_target a) (sc_spendable a) (s_credits s) of
           (target, spendable, cs) \<Rightarrow> \<lparr>co_admitted = True, co_target = target, co_spendable = spendable,
              co_remaining = sc_remaining a - n, co_credits = cs\<rparr>)
      else \<lparr>co_admitted = False, co_target = sc_target a, co_spendable = sc_spendable a,
             co_remaining = sc_remaining a, co_credits = s_credits s\<rparr>)"

definition request_refill :: "pool_key \<Rightarrow> state_request \<Rightarrow> store \<Rightarrow> store" where
  "request_refill k q s = (case enqueue q (s\<lparr>s_refilling := put k True (s_refilling s)\<rparr>) of
     (queued, s') \<Rightarrow> if queued then s' else s'\<lparr>s_refilling := del k (s_refilling s')\<rparr>)"

definition publish_charge :: "gotime \<Rightarrow> rule \<Rightarrow> gotime \<Rightarrow> bool \<Rightarrow> int \<Rightarrow> charge_outcome \<Rightarrow> store \<Rightarrow> store" where
  "publish_charge now r until up n co s =
     (let k = creditKey (r_ID r) up;
          refill = ((\<not> co_admitted co \<or> co_spendable co < 2) \<and> co_remaining co < co_target co
                    \<and> \<not> has (s_refilling s) k);
          s1 = s\<lparr>s_credits := co_credits co,
                 s_tcpCreditTargets := (if adaptive s r \<and> co_admitted co \<and> n > 0
                   then put k \<lparr>tt_size = co_target co, tt_last = now\<rparr> (s_tcpCreditTargets s)
                   else s_tcpCreditTargets s)\<rparr>
      in if refill then request_refill k (reserve_request r until up n (co_target co)) s1 else s1)"

definition TryCreditCharge :: "gotime \<Rightarrow> store \<Rightarrow> rule \<Rightarrow> gotime \<Rightarrow> bool \<Rightarrow> int
    \<Rightarrow> agent_error option \<times> store" where
  "TryCreditCharge now s r until up n =
     (if n < 0 then (Some NegativeCharge, s)
      else if s_fastFailed s then (Some StorageUnavailable, s)
      else if r_Lease r = None then (Some LeaseUnavailable, s)
      else if r_Network r = ''tcp'' \<and> n > lease_capacity r then (Some PayloadExceedsLease, s)
      else if \<not> now < until then (Some LeaseUnavailable, s)
      else let co = charge_debit now s r up n
           in (if co_admitted co then None else Some CreditUnavailable,
               publish_charge now r until up n co s))"

section \<open>Reserving a window\<close>

text \<open>What a staged event will add to or release from the liability of the windows selected by \<open>P\<close>:
  a staged progress event releases the bytes it confirms (all of the rest when it closes the
  window), a staged reservation adds its capacity.\<close>

definition released :: "disk_state \<Rightarrow> credit_window \<Rightarrow> int" where
  "released d w = (case map_of (d_Windows d) (w_ID w) of None \<Rightarrow> 0
     | Some old \<Rightarrow> if w_Closed w then w_Capacity old - w_Confirmed old else w_Confirmed w - w_Confirmed old)"

definition staged_delta :: "disk_state \<Rightarrow> (credit_window \<Rightarrow> bool) \<Rightarrow> state_event \<Rightarrow> int" where
  "staged_delta d P e = (case e_Window e of None \<Rightarrow> 0 | Some w \<Rightarrow>
     if \<not> P w then 0
     else if e_Kind e = ''credit_progress'' then - released d w
     else if e_Kind e = ''credit_reserve'' then w_Capacity w else 0)"

definition staged_count :: "disk_state \<Rightarrow> (credit_window \<Rightarrow> bool) \<Rightarrow> state_event \<Rightarrow> int" where
  "staged_count d P e = (case e_Window e of None \<Rightarrow> 0 | Some w \<Rightarrow>
     if \<not> P w then 0
     else if e_Kind e = ''credit_progress'' then (if has (d_Windows d) (w_ID w) \<and> w_Closed w then - 1 else 0)
     else if e_Kind e = ''credit_reserve'' then 1 else 0)"

definition staged_reserved :: "string \<Rightarrow> state_event \<Rightarrow> int" where
  "staged_reserved lid e = (case e_Window e of None \<Rightarrow> 0 | Some w \<Rightarrow>
     if e_Kind e = ''credit_reserve'' \<and> w_LeaseID w = lid then w_Capacity w else 0)"

text \<open>The rule as the current configuration has it, and the deadline clamped by it.\<close>

definition current_rule :: "store \<Rightarrow> state_request \<Rightarrow> (rule \<times> gotime) option" where
  "current_rule s q =
     (let c = d_Config (s_state s) in
      if c_NodeID c \<noteq> '''' then
        (case find (\<lambda>r. r_ID r = r_ID (q_rule q) \<and> r_Enabled r \<and> usesCreditWindows r
             \<and> sameForwardingRule r (q_rule q)) (c_Rules c) of
           None \<Rightarrow> None
         | Some r \<Rightarrow> Some (r, minTime (q_until q) [c_ValidUntil c]))
      else Some (q_rule q, q_until q))"

definition pick_lease :: "gotime \<Rightarrow> store \<Rightarrow> rule \<Rightarrow> gotime \<Rightarrow> int \<Rightarrow> state_event list \<Rightarrow> rule" where
  "pick_lease now s r until n staged =
     (case find (\<lambda>lo. case lo of None \<Rightarrow> False | Some l \<Rightarrow>
         availableLocked now s (r\<lparr>r_Lease := Some l\<rparr>) until
           (sum_list (map (staged_reserved (l_ID l)) staged) + max 1 n) = None) (ruleLeases r)
      of Some (Some l) \<Rightarrow> r\<lparr>r_Lease := Some l\<rparr> | _ \<Rightarrow> r)"

definition reserve_limits :: "store \<Rightarrow> state_request \<Rightarrow> rule \<Rightarrow> lease \<Rightarrow> int \<times> int" where
  "reserve_limits s q r l =
     (if r_Network r = ''tcp'' \<and> \<not> s_pauseTCPGrowth s
      then (min (min maxTCPCreditWindow (max creditWindowSize (q_creditSize q)))
              (max creditWindowSize (quo (l_Bytes l) 16)), maxTCPRuleCredits)
      else (creditWindowSize, maxRuleCredits))"

definition staged_total :: "store \<Rightarrow> (credit_window \<Rightarrow> bool) \<Rightarrow> state_event list \<Rightarrow> int" where
  "staged_total s P staged = win_total P (s_state s) + sum_list (map (staged_delta (s_state s) P) staged)"

definition base_capacity :: "store \<Rightarrow> state_request \<Rightarrow> rule \<Rightarrow> lease \<Rightarrow> state_event list \<Rightarrow> int" where
  "base_capacity s q r l staged =
     min (min (min (min (fst (reserve_limits s q r l)) (max (q_n q) (quo (l_Bytes l - 1) 4 + 1)))
       (snd (reserve_limits s q r l) - staged_total s (\<lambda>w. w_RuleID w = r_ID r) staged))
       (maxAccountCredits - staged_total s (\<lambda>w. w_UserID w = limitOwner r) staged))
       (l_Bytes l - look0 (d_Used (s_state s)) (l_ID l) - creditLiability (s_state s) (l_ID l)
         - sum_list (map (staged_reserved (l_ID l)) staged))"

definition reserve_capacity :: "store \<Rightarrow> state_request \<Rightarrow> rule \<Rightarrow> lease \<Rightarrow> state_event list \<Rightarrow> int" where
  "reserve_capacity s q r l staged =
     (if q_creditPrime q then
        let rest = l_Bytes l - look0 (d_Used (s_state s)) (l_ID l);
            half = quo rest 2 + (if q_upload q then rem rest 2 else 0);
            directionTotal = staged_total s (\<lambda>w. w_RuleID w = r_ID r \<and> w_Upload w = q_upload q
              \<and> w_LeaseID w = l_ID l) staged
        in min (base_capacity s q r l staged) (half - directionTotal)
      else base_capacity s q r l staged)"

definition reserveCreditLocked :: "tick \<Rightarrow> store \<Rightarrow> state_request \<Rightarrow> state_event list
    \<Rightarrow> agent_error + state_event option" where
  "reserveCreditLocked t s q staged = (case current_rule s q of
     None \<Rightarrow> Inl LeaseUnavailable
   | Some (r0, until) \<Rightarrow>
       let r = pick_lease (t_now t) s r0 until (q_n q) staged in
       (case availableLocked (t_now t) s r until 0 of Some e \<Rightarrow> Inl e | None \<Rightarrow>
       (case r_Lease r of None \<Rightarrow> Inl LeaseUnavailable | Some l \<Rightarrow>
       (case validateLeaseCapacity (s_state s) (Some l # map e_Lease staged) of Some e \<Rightarrow> Inl e | None \<Rightarrow>
         if spool (s_state s) + int (length staged) \<ge> MaxPendingRecords then Inl SpoolFull
         else if win_count (\<lambda>w. w_RuleID w = r_ID r \<and> w_Upload w = q_upload q) (s_state s)
              + sum_list (map (staged_count (s_state s)
                  (\<lambda>w. w_RuleID w = r_ID r \<and> w_Upload w = q_upload q)) staged) \<ge> 2
         then Inr None
         else let capacity = reserve_capacity s q r l staged in
           if capacity \<le> 0 then Inl LeaseUnavailable
           else if q_n q > 0 \<and> capacity < q_n q then Inl LeaseUnavailable
           else case t_id t of None \<Rightarrow> Inl RandomFailed | Some i \<Rightarrow>
             Inr (Some (event0\<lparr>e_Kind := ''credit_reserve'',
               e_Window := Some \<lparr>w_ID = i, w_UserID = limitOwner r, w_RuleID = r_ID r,
                 w_LeaseID = l_ID l, w_Upload = q_upload q, w_Capacity = capacity, w_Confirmed = 0,
                 w_Sequence = 0, w_StartedAt = t_stamp t, w_Until = minTime until [l_ExpiresAt l],
                 w_Closed = False, w_TCP = (r_Network r = ''tcp'')\<rparr>,
               e_Lease := Some l\<rparr>))))))"

section \<open>Settling windows\<close>

definition creditUsage :: "disk_state \<Rightarrow> credit_window \<Rightarrow> int \<Rightarrow> string \<Rightarrow> gotime \<Rightarrow> usage_record" where
  "creditUsage d w n kind end' =
     \<lparr>u_ID = window_usage_id (w_ID w) (w_Sequence w), u_NodeID = reg_NodeID (d_Identity d),
      u_RuleID = w_RuleID w, u_LeaseID = w_LeaseID w,
      u_EntitlementID = lease_entitlement d (w_LeaseID w), u_StartedAt = w_StartedAt w,
      u_EndedAt = end', u_UploadBytes = (if w_Upload w then n else 0),
      u_DownloadBytes = (if w_Upload w then 0 else n), u_Kind = kind, u_WindowID = w_ID w,
      u_WindowSequence = w_Sequence w\<rparr>"

text \<open>The leases that stay in use under a new configuration.\<close>

definition active_leases :: "disk_state \<Rightarrow> config \<Rightarrow> string list" where
  "active_leases d c = lease_ids (concat (map ruleLeases (filter (\<lambda>r.
     r_Enabled r \<and> usesCreditWindows r \<and> r_Lease r \<noteq> None
     \<and> list_ex (\<lambda>old. r_ID old = r_ID r \<and> sameForwardingRule old r) (c_Rules (d_Config d))) (c_Rules c))))"

definition tcp_rules :: "disk_state \<Rightarrow> string list" where
  "tcp_rules d = map r_ID (filter (\<lambda>r. r_Network r = ''tcp'') (c_Rules (d_Config d)))"

definition close_window :: "gotime \<Rightarrow> disk_state \<Rightarrow> state_event \<Rightarrow> credit_window \<Rightarrow> live_credit \<Rightarrow> bool" where
  "close_window now d trigger w c \<longleftrightarrow>
     w_RuleID w \<in> set (tcp_rules d) \<and> now - lc_last c \<ge> tcpCreditIdleTimeout
     \<or> e_Kind trigger = ''credit_close''
     \<or> e_Kind trigger = ''credit_rebalance'' \<and> e_RuleID trigger = w_RuleID w
     \<or> lc_used c = w_Capacity w
     \<or> \<not> now < w_Until w
     \<or> e_Kind trigger = ''retire'' \<and> e_LeaseID trigger = w_LeaseID w
     \<or> (case e_Config trigger of None \<Rightarrow> False | Some cfg \<Rightarrow> w_LeaseID w \<notin> set (active_leases d cfg))"

definition progress_event :: "disk_state \<Rightarrow> credit_window \<Rightarrow> live_credit \<Rightarrow> bool \<Rightarrow> state_event" where
  "progress_event d old c close =
     (let w = old\<lparr>w_Closed := close, w_Sequence := w_Sequence old + 1, w_Confirmed := lc_used c\<rparr>;
          delta = lc_used c - w_Confirmed old
      in event0\<lparr>e_Kind := ''credit_progress'', e_Window := Some w,
           e_Usage := (if delta > 0
             then Some (creditUsage d w delta ''normal'' (minTime (lc_last c) [w_Until w])) else None)\<rparr>)"

fun progress_loop :: "gotime \<Rightarrow> disk_state \<Rightarrow> state_event \<Rightarrow> string list \<Rightarrow> int
    \<Rightarrow> (string, live_credit) gomap \<Rightarrow> (agent_error + state_event list) \<times> (string, live_credit) gomap" where
  "progress_loop now d trigger [] room cs = (Inr [], cs)"
| "progress_loop now d trigger (i # is) room cs = (case (map_of (d_Windows d) i, map_of cs i) of
     (Some w, Some c) \<Rightarrow>
       (let close = close_window now d trigger w c in
        if \<not> close \<and> (lc_used c = w_Confirmed w \<or> room \<le> 0)
        then progress_loop now d trigger is room cs
        else (let (res, cs') = progress_loop now d trigger is (if close then room else room - 1)
                    (if close then put i (c\<lparr>lc_closed := True\<rparr>) cs else cs)
              in (map_sum id (\<lambda>es. progress_event d w c close # es) res, cs')))
   | _ \<Rightarrow> (Inl MissingLiveCredit, cs))"

definition creditProgressLocked :: "gotime \<Rightarrow> store \<Rightarrow> state_event
    \<Rightarrow> (agent_error + state_event list) \<times> store" where
  "creditProgressLocked now s trigger =
     (let d = s_state s;
          targets = filter (\<lambda>(_, t). \<not> now - tt_last t \<ge> tcpCreditIdleTimeout) (s_tcpCreditTargets s);
          ids = sort (map fst (d_Windows d));
          room = MaxPendingRecords - int (length (d_Pending d)) - int (length (d_Windows d));
          (res, cs) = progress_loop now d trigger ids room (s_credits s)
      in (res, s\<lparr>s_tcpCreditTargets := targets, s_credits := cs\<rparr>))"

section \<open>Committing\<close>

definition live_reserve :: "credit_window \<Rightarrow> store \<Rightarrow> store" where
  "live_reserve w s =
     (let k = creditKey (w_RuleID w) (w_Upload w) in
      s\<lparr>s_expandedCredits := (s_expandedCredits s \<or> w_Capacity w > creditWindowSize),
        s_credits := put (w_ID w) \<lparr>lc_window = w, lc_used = 0, lc_last = w_StartedAt w, lc_closed = False\<rparr>
          (s_credits s),
        s_creditPools := put k (pool s k @ [w_ID w]) (s_creditPools s)\<rparr>)"

definition live_progress :: "credit_window \<Rightarrow> store \<Rightarrow> store" where
  "live_progress w s = (case map_of (s_credits s) (w_ID w) of None \<Rightarrow> s | Some c \<Rightarrow>
     if w_Closed w then
       (let k = creditKey (w_RuleID w) (w_Upload w);
            rest = filter (\<lambda>i. i \<noteq> w_ID w) (pool s k)
        in s\<lparr>s_credits := del (w_ID w) (s_credits s),
             s_creditPools := (if rest = [] then del k (s_creditPools s) else put k rest (s_creditPools s))\<rparr>)
     else s\<lparr>s_credits := put (w_ID w) (c\<lparr>lc_window := w\<rparr>) (s_credits s)\<rparr>)"

definition applyCreditEvent :: "store \<Rightarrow> state_event \<Rightarrow> agent_error + store" where
  "applyCreditEvent s e = bindE (applyCreditDisk (s_state s) e) (\<lambda>d.
     let s' = s\<lparr>s_state := d\<rparr> in
     Inr (case e_Window e of None \<Rightarrow> s' | Some w \<Rightarrow>
       if e_Kind e = ''credit_reserve'' then live_reserve w s' else live_progress w s'))"

definition store_apply :: "store \<Rightarrow> state_event \<Rightarrow> agent_error + store" where
  "store_apply s e =
     (if e_Kind e = ''credit_reserve'' \<or> e_Kind e = ''credit_progress'' then applyCreditEvent s e
      else bindE (applyEvent (s_state s) e) (\<lambda>d. Inr (s\<lparr>s_state := d\<rparr>)))"

text \<open>Appending a batch to the log. \<open>io_append\<close> is \<open>Some k\<close> when the write or the sync failed after
  \<open>k\<close> complete records reached the file.\<close>

definition seq_overflow :: "u64 \<Rightarrow> nat \<Rightarrow> bool" where
  "seq_overflow q n \<longleftrightarrow> list_ex (\<lambda>i. q + of_nat i + 1 \<le> q) [0..<n]"

definition appendEvents :: "io_env \<Rightarrow> store \<Rightarrow> state_event list \<Rightarrow> agent_error option \<times> store" where
  "appendEvents io s es =
     (if seq_overflow (s_seq s) (length es) then (Some WalFailed, s)
      else case io_append io of
        Some k \<Rightarrow> (Some WalFailed, s\<lparr>s_log := s_log s @ take k es\<rparr>)
      | None \<Rightarrow> (None, s\<lparr>s_log := s_log s @ es, s_seq := s_seq s + of_nat (length es),
                       s_walBytes := s_walBytes s + io_len io es\<rparr>))"

text \<open>A checkpoint prunes the confirmed, expired history in memory, then replaces the snapshot and
  the log. When it fails, either pair of files may be on disk (theory \<open>Wal\<close>); here the old one.\<close>

definition checkpointLocked :: "io_env \<Rightarrow> store \<Rightarrow> agent_error option \<times> store" where
  "checkpointLocked io s =
     (let d = fst (pruneLeaseHistory (io_now io) (s_state s)); s1 = s\<lparr>s_state := d\<rparr> in
      if io_checkpoint io then (None, s1\<lparr>s_base := d, s_log := [], s_walBytes := walHeaderSize\<rparr>)
      else (Some WalFailed, s1))"

definition fail_store :: "store \<Rightarrow> store" where
  "fail_store s = s\<lparr>s_failed := True, s_fastFailed := True\<rparr>"

text \<open>Applying stops at the first event that is refused; what was applied before stays.\<close>

fun apply_all :: "store \<Rightarrow> state_event list \<Rightarrow> agent_error option \<times> store" where
  "apply_all s [] = (None, s)"
| "apply_all s (e # es) = (case store_apply s e of Inl err \<Rightarrow> (Some err, s) | Inr s' \<Rightarrow> apply_all s' es)"

definition append_apply :: "io_env \<Rightarrow> store \<Rightarrow> state_event list \<Rightarrow> agent_error option \<times> store" where
  "append_apply io s es = (case appendEvents io s es of
     (Some err, s1) \<Rightarrow> (Some err, fail_store s1)
   | (None, s1) \<Rightarrow> (case apply_all s1 es of
       (Some err, s2) \<Rightarrow> (Some err, fail_store s2)
     | (None, s2) \<Rightarrow>
         if s_walBytes s2 \<ge> walCheckpointBytes then
           (case checkpointLocked io s2 of
              (Some err, s3) \<Rightarrow> (Some err, fail_store s3) | (None, s3) \<Rightarrow> (None, s3))
         else (None, s2)))"

definition commitCreditEventsLocked :: "io_env \<Rightarrow> store \<Rightarrow> state_event list \<Rightarrow> agent_error option \<times> store" where
  "commitCreditEventsLocked io s es = (if es = [] then (None, s) else append_apply io s es)"

section \<open>Credit batches\<close>

definition open_unspent :: "live_credit list \<Rightarrow> int" where
  "open_unspent cs = (\<Sum>c\<leftarrow>cs. if lc_closed c then 0 else unspent c)"

definition rebalance_useless :: "gotime \<Rightarrow> store \<Rightarrow> state_request \<Rightarrow> bool" where
  "rebalance_useless now s q \<longleftrightarrow>
     (let r = q_rule q; d = s_state s;
          ruleLimit = (if r_Network r = ''tcp'' then maxTCPRuleCredits else maxRuleCredits)
      in q_n q \<le> ruleLimit - win_total (\<lambda>w. w_RuleID w = r_ID r) d
         \<and> q_n q \<le> maxAccountCredits - win_total (\<lambda>w. w_UserID w = limitOwner r) d
         \<and> list_ex (\<lambda>lo. case lo of None \<Rightarrow> False
              | Some l \<Rightarrow> availableLocked now s (r\<lparr>r_Lease := Some l\<rparr>) (q_until q) (q_n q) = None)
             (ruleLeases r))"

definition flush_batch :: "gotime \<Rightarrow> io_env \<Rightarrow> store \<Rightarrow> state_event \<Rightarrow> agent_error option \<times> store" where
  "flush_batch now io s trigger = (case creditProgressLocked now s trigger of
     (Inl err, s1) \<Rightarrow> (Some err, s1)
   | (Inr es, s1) \<Rightarrow> commitCreditEventsLocked io s1 es)"

definition rebalanceCreditsLocked :: "gotime \<Rightarrow> io_env \<Rightarrow> store \<Rightarrow> state_request
    \<Rightarrow> agent_error option \<times> store" where
  "rebalanceCreditsLocked now io s q =
     (let k = creditKey (r_ID (q_rule q)) (q_upload q);
          k' = creditKey (r_ID (q_rule q)) (\<not> q_upload q);
          remaining = open_unspent (pool_credits s k);
          hasWindows = (pool s k \<noteq> [] \<or> pool s k' \<noteq> []);
          unused = open_unspent (pool_credits s k) + open_unspent (pool_credits s k')
      in if q_n q \<le> 0 then (None, s)
         else if \<not> (hasWindows \<and> remaining < q_n q) \<or> unused = 0 then (None, s)
         else if length (pool s k) < 2 \<and> rebalance_useless now s q then (None, s)
         else flush_batch now io s (event0\<lparr>e_Kind := ''credit_rebalance'', e_RuleID := r_ID (q_rule q)\<rparr>))"

fun rebalance_all :: "store \<Rightarrow> (state_request \<times> tick) list \<Rightarrow> agent_error option \<times> store" where
  "rebalance_all s [] = (None, s)"
| "rebalance_all s ((q, t) # b) = (case rebalanceCreditsLocked (t_now t) (t_io t) s q of
     (Some err, s1) \<Rightarrow> (Some err, s1)
   | (None, s1) \<Rightarrow> rebalance_all s1 b)"

fun reserve_all :: "store \<Rightarrow> (state_request \<times> tick) list \<Rightarrow> state_event list
    \<Rightarrow> agent_error option list \<times> state_event list" where
  "reserve_all s [] staged = ([], staged)"
| "reserve_all s ((q, t) # b) staged = (case reserveCreditLocked t s q staged of
     Inl err \<Rightarrow> (let (rs, es) = reserve_all s b staged in (Some err # rs, es))
   | Inr None \<Rightarrow> (let (rs, es) = reserve_all s b staged in (None # rs, es))
   | Inr (Some e) \<Rightarrow> (let (rs, es) = reserve_all s b (staged @ [e]) in (None # rs, es)))"

definition clear_refilling :: "(state_request \<times> tick) list \<Rightarrow> store \<Rightarrow> store" where
  "clear_refilling b s = s\<lparr>s_refilling :=
     fold (\<lambda>(q, _) m. del (creditKey (r_ID (q_rule q)) (q_upload q)) m) b (s_refilling s)\<rparr>"

definition reserve_batch :: "gotime \<Rightarrow> io_env \<Rightarrow> store \<Rightarrow> (state_request \<times> tick) list
    \<Rightarrow> agent_error option list \<times> store" where
  "reserve_batch now io s b = (case creditProgressLocked now s (event0\<lparr>e_Kind := ''credit_flush''\<rparr>) of
     (Inl err, s1) \<Rightarrow> (map (\<lambda>_. Some err) b, s1)
   | (Inr es, s1) \<Rightarrow> (case reserve_all s1 b es of (rs, es') \<Rightarrow>
       (case commitCreditEventsLocked io s1 es' of
          (Some err, s2) \<Rightarrow> (map (\<lambda>_. Some err) b, s2)
        | (None, s2) \<Rightarrow> (rs, s2))))"

definition credit_batch :: "gotime \<Rightarrow> io_env \<Rightarrow> store \<Rightarrow> (state_request \<times> tick) list
    \<Rightarrow> agent_error option list \<times> store" where
  "credit_batch now io s b =
     (let first = q_event (fst (hd b)) in
      if e_Kind first \<noteq> ''credit_reserve'' then
        (case flush_batch now io s (if e_Kind first = ''credit_close'' then first
                 else event0\<lparr>e_Kind := ''credit_flush''\<rparr>) of (r, s1) \<Rightarrow> ([r], s1))
      else case rebalance_all s b of
        (Some err, s1) \<Rightarrow> (map (\<lambda>_. Some err) b, s1)
      | (None, s1) \<Rightarrow> reserve_batch now io s1 b)"

definition processCreditBatchLocked :: "gotime \<Rightarrow> io_env \<Rightarrow> store \<Rightarrow> (state_request \<times> tick) list
    \<Rightarrow> agent_error option list \<times> store" where
  "processCreditBatchLocked now io s b = map_prod id (clear_refilling b) (credit_batch now io s b)"

section \<open>Recovery\<close>

definition recovery_event :: "gotime \<Rightarrow> disk_state \<Rightarrow> credit_window \<Rightarrow> state_event" where
  "recovery_event now d old =
     (let w = old\<lparr>w_Sequence := w_Sequence old + 1, w_Closed := True, w_Confirmed := w_Capacity old\<rparr>;
          delta = w_Capacity old - w_Confirmed old
      in event0\<lparr>e_Kind := ''credit_progress'', e_Window := Some w,
           e_Usage := (if delta > 0
             then Some (creditUsage d w delta ''recovery'' (minTime now [w_Until w])) else None)\<rparr>)"

definition zero_window :: credit_window where
  "zero_window = \<lparr>w_ID = [], w_UserID = [], w_RuleID = [], w_LeaseID = [], w_Upload = False, w_Capacity = 0,
     w_Confirmed = 0, w_Sequence = 0, w_StartedAt = 0, w_Until = 0, w_Closed = False, w_TCP = False\<rparr>"

definition window_at :: "disk_state \<Rightarrow> string \<Rightarrow> credit_window" where
  "window_at d i = (case map_of (d_Windows d) i of None \<Rightarrow> zero_window | Some w \<Rightarrow> w)"

fun recover_loop :: "gotime \<Rightarrow> io_env \<Rightarrow> store \<Rightarrow> string list \<Rightarrow> agent_error option \<times> store" where
  "recover_loop now io s [] = (None, s)"
| "recover_loop now io s (i # is) =
     (let w = window_at (s_state s) i;
          s0 = s\<lparr>s_expandedCredits := (s_expandedCredits s \<or> w_Capacity w > creditWindowSize)\<rparr>
      in case commitCreditEventsLocked io s0 [recovery_event now (s_state s0) w] of
           (Some err, s1) \<Rightarrow> (Some err, s1)
         | (None, s1) \<Rightarrow> recover_loop now io s1 is)"

definition recoverCredits :: "gotime \<Rightarrow> io_env \<Rightarrow> store \<Rightarrow> agent_error option \<times> store" where
  "recoverCredits now io s = recover_loop now io s (sort (map fst (d_Windows (s_state s))))"

section \<open>Renewal and retirement\<close>

definition live_spent :: "store \<Rightarrow> string \<Rightarrow> int" where
  "live_spent s lid = gsum (\<lambda>_ c. if w_LeaseID (lc_window c) = lid
     then lc_used c - w_Confirmed (lc_window c) else 0) (s_credits s)"

definition spent :: "store \<Rightarrow> string \<Rightarrow> int" where
  "spent s lid = look0 (d_Used (s_state s)) lid + live_spent s lid"

definition renewalDueLocked :: "store \<Rightarrow> rule \<Rightarrow> gotime \<Rightarrow> bool" where
  "renewalDueLocked s r now = (case r_Lease r of None \<Rightarrow> False | Some l \<Rightarrow>
     if \<not> r_Enabled r \<or> has (d_Retired (s_state s)) (l_ID l) then False
     else
       let used = spent s (l_ID l);
           low = (used > 0 \<and> l_Bytes l - used \<le> min (quo (l_Bytes l) 8) 65536);
           low1 = (if r_LeasePipeline r \<and> r_StandbyLease r = None
                      \<and> map_of (s_prefetching s) (r_ID r) = Some (l_ID l) then False else low);
           low2 = (case r_StandbyLease r of
                     Some sb \<Rightarrow> if r_LeasePipeline r
                                then used > 0 \<and> l_Bytes l - used < 32768 \<or> spent s (l_ID sb) > 0
                                else low1
                   | None \<Rightarrow> low1)
       in low2 \<or> \<not> now + renewalLead < minTime (c_ValidUntil (d_Config (s_state s))) [l_ExpiresAt l])"

definition renewals :: "store \<Rightarrow> gotime \<Rightarrow> string list" where
  "renewals s now = List.map_filter (\<lambda>r. if renewalDueLocked s r now then map_option l_ID (r_Lease r) else None)
     (c_Rules (d_Config (s_state s)))"

definition Retirements :: "store \<Rightarrow> (string, int) gomap" where
  "Retirements s = map (\<lambda>(i, _). (i, look0 (d_Used (s_state s)) i))
     (filter (\<lambda>(_, fin). \<not> fin) (d_Retired (s_state s)))"

definition beginPrefetch :: "string \<Rightarrow> string \<Rightarrow> store \<Rightarrow> bool \<times> store" where
  "beginPrefetch rid lid s = (if has (d_Retired (s_state s)) lid then (False, s)
     else (True, s\<lparr>s_prefetching := put rid lid (s_prefetching s)\<rparr>))"

definition endPrefetch :: "string \<Rightarrow> store \<Rightarrow> store" where
  "endPrefetch rid s = s\<lparr>s_prefetching := del rid (s_prefetching s)\<rparr>"

section \<open>The writer\<close>

record batch_acc =
  ba_events :: "state_event list"
  ba_reserved :: "(string, int) gomap"
  ba_retiring :: "string list"
  ba_known :: "string list"
  ba_pending :: int

definition charge_usage :: "disk_state \<Rightarrow> rule \<Rightarrow> lease \<Rightarrow> bool \<Rightarrow> int \<Rightarrow> string \<Rightarrow> gotime \<Rightarrow> usage_record" where
  "charge_usage d r l up n i now =
     \<lparr>u_ID = i, u_NodeID = reg_NodeID (d_Identity d), u_RuleID = r_ID r, u_LeaseID = l_ID l,
      u_EntitlementID = l_EntitlementID l, u_StartedAt = now, u_EndedAt = now,
      u_UploadBytes = (if up then n else 0), u_DownloadBytes = (if up then 0 else n),
      u_Kind = '''', u_WindowID = '''', u_WindowSequence = 0\<rparr>"

definition retire_event :: "string \<Rightarrow> state_event" where
  "retire_event lid = event0\<lparr>e_Kind := ''retire'', e_LeaseID := lid\<rparr>"

definition charge_step :: "tick \<Rightarrow> store \<Rightarrow> batch_acc \<Rightarrow> state_request
    \<Rightarrow> agent_error option \<times> store \<times> batch_acc" where
  "charge_step t s a q =
     (if q_n q < 0 then (Some NegativeCharge, s, a)
      else let r = spendingRuleLocked (t_now t) s (q_rule q) (q_until q) (q_n q); d = s_state s in
      case availableLocked (t_now t) s r (q_until q) 0 of Some e \<Rightarrow> (Some e, s, a) | None \<Rightarrow>
      (case r_Lease r of None \<Rightarrow> (Some LeaseUnavailable, s, a) | Some l \<Rightarrow>
         if q_n q > l_Bytes l then (Some PayloadExceedsLease, s, a)
         else if l_ID l \<in> set (ba_retiring a) then (Some LeaseUnavailable, s, a)
         else if q_n q > l_Bytes l - look0 (d_Used d) (l_ID l) - creditLiability d (l_ID l)
                   - look0 (ba_reserved a) (l_ID l) then
           (case creditProgressLocked (t_now t) s (retire_event (l_ID l)) of
              (Inl err, s1) \<Rightarrow> (Some err, s1, a)
            | (Inr closed, s1) \<Rightarrow> (Some LeaseUnavailable, s1,
                a\<lparr>ba_events := ba_events a @ closed @ [retire_event (l_ID l)],
                  ba_retiring := l_ID l # ba_retiring a\<rparr>))
         else if ba_pending a + int (length (d_Windows d)) \<ge> MaxPendingRecords then (Some SpoolFull, s, a)
         else if q_n q = 0 then (None, s, a)
         else case t_id t of None \<Rightarrow> (Some RandomFailed, s, a) | Some i \<Rightarrow>
           let u = charge_usage d r l (q_upload q) (q_n q) i (t_stamp t);
               new = (\<not> has (d_Leases d) (l_ID l) \<and> l_ID l \<notin> set (ba_known a))
           in (None, s, a\<lparr>ba_events := ba_events a @ [event0\<lparr>e_Kind := ''usage'', e_Usage := Some u,
                   e_Lease := (if new then Some l else None)\<rparr>],
                 ba_known := (if new then l_ID l # ba_known a else ba_known a),
                 ba_reserved := put (l_ID l) (look0 (ba_reserved a) (l_ID l) + q_n q) (ba_reserved a),
                 ba_pending := ba_pending a + 1\<rparr>)))"

definition still_due :: "gotime \<Rightarrow> store \<Rightarrow> string \<Rightarrow> bool" where
  "still_due now s lid = (case find (\<lambda>r. map_option l_ID (r_Lease r) = Some lid) (c_Rules (d_Config (s_state s))) of
     None \<Rightarrow> False | Some r \<Rightarrow> renewalDueLocked s r now)"

definition mutation_step :: "tick \<Rightarrow> store \<Rightarrow> batch_acc \<Rightarrow> state_request
    \<Rightarrow> agent_error option \<times> store \<times> batch_acc" where
  "mutation_step t s a q =
     (let e = q_event q in
      if q_renewalOnly q \<and> \<not> still_due (t_now t) s (e_LeaseID e) then (None, s, a)
      else case validateEvent (s_state s) e of Some err \<Rightarrow> (Some err, s, a) | None \<Rightarrow>
        if e_Kind e = ''config'' \<or> e_Kind e = ''retire'' then
          (case creditProgressLocked (t_now t) s e of
             (Inl err, s1) \<Rightarrow> (Some err, s1, a)
           | (Inr closed, s1) \<Rightarrow> (None, s1, a\<lparr>ba_events := ba_events a @ closed @ [e]\<rparr>))
        else (None, s, a\<lparr>ba_events := ba_events a @ [e]\<rparr>))"

definition batch_step :: "tick \<Rightarrow> store \<Rightarrow> batch_acc \<Rightarrow> state_request
    \<Rightarrow> agent_error option \<times> store \<times> batch_acc" where
  "batch_step t s a q =
     (if t_ctxErr t then (Some ContextDone, s, a)
      else if e_Kind (q_event q) \<noteq> ''charge'' then mutation_step t s a q
      else charge_step t s a q)"

fun batch_loop :: "store \<Rightarrow> batch_acc \<Rightarrow> (state_request \<times> tick) list
    \<Rightarrow> agent_error option list \<times> store \<times> batch_acc" where
  "batch_loop s a [] = ([], s, a)"
| "batch_loop s a ((q, t) # b) = (case batch_step t s a q of (r, s1, a1) \<Rightarrow>
     (case batch_loop s1 a1 b of (rs, s2, a2) \<Rightarrow> (r # rs, s2, a2)))"

definition history_prune :: "gotime \<Rightarrow> io_env \<Rightarrow> store \<Rightarrow> agent_error option \<times> store" where
  "history_prune now io s =
     (if now < s_nextHistoryPrune s then (None, s)
      else let (d, n) = pruneLeaseHistory now (s_state s);
               s1 = s\<lparr>s_nextHistoryPrune := now + minute, s_state := d\<rparr>
           in if n > 0 then (case checkpointLocked io s1 of
                  (Some err, s2) \<Rightarrow> (Some err, fail_store s2) | (None, s2) \<Rightarrow> (None, s2))
              else (None, s1))"

definition process_events :: "io_env \<Rightarrow> store \<Rightarrow> (state_request \<times> tick) list
    \<Rightarrow> agent_error option list \<times> store" where
  "process_events io s b =
     (case batch_loop s \<lparr>ba_events = [], ba_reserved = [], ba_retiring = [], ba_known = [],
          ba_pending = int (length (d_Pending (s_state s)))\<rparr> b of
        (rs, s1, a) \<Rightarrow>
          if ba_events a = [] then (rs, s1)
          else (case append_apply io s1 (ba_events a) of
            (Some err, s2) \<Rightarrow> (map (\<lambda>_. Some err) b, s2) | (None, s2) \<Rightarrow> (rs, s2)))"

definition process :: "gotime \<Rightarrow> io_env \<Rightarrow> io_env \<Rightarrow> store \<Rightarrow> (state_request \<times> tick) list
    \<Rightarrow> agent_error option list \<times> store" where
  "process now io0 io s b =
     (if s_failed s then (map (\<lambda>_. Some StorageUnavailable) b, s\<lparr>s_fastFailed := True\<rparr>)
      else case history_prune now io0 s of (Some err, s1) \<Rightarrow> (map (\<lambda>_. Some err) b, s1) | (None, s1) \<Rightarrow>
        let kind = e_Kind (q_event (fst (hd b))) in
        if kind = ''credit_reserve'' \<or> kind = ''credit_flush'' \<or> kind = ''credit_close''
        then processCreditBatchLocked now io s1 b
        else if kind = ''checkpoint'' then
          (case checkpointLocked io s1 of
             (Some err, s2) \<Rightarrow> ([Some err], fail_store s2) | (None, s2) \<Rightarrow> ([None], s2))
        else process_events io s1 b)"

definition submit :: "state_request \<Rightarrow> store \<Rightarrow> agent_error option \<times> store" where
  "submit q s = (if s_closing s then (Some StateClosed, s)
     else if length (s_queue s) < maxStoreQueue then (None, s\<lparr>s_queue := s_queue s @ [q]\<rparr>)
     else (Some QueueFull, s))"

definition next_batch :: "state_request list \<Rightarrow> state_request list \<times> state_request list" where
  "next_batch qs = (case qs of [] \<Rightarrow> ([], []) | q # rest \<Rightarrow>
     let kind = e_Kind (q_event q) in
     if kind = ''charge'' \<or> kind = ''credit_reserve'' then
       (let more = take (maxCommitBatch - 1) (takeWhile (\<lambda>p. e_Kind (q_event p) = kind) rest)
        in (q # more, drop (length more) rest))
     else ([q], rest))"

end
