(* ===== verification/Store_Inv.thy ===== *)
theory Store_Inv
  imports Store
begin

text \<open>
  The invariant of the running store and its preservation. \<open>live_ok\<close> ties the heap of live credits
  to the open windows of the ledger: every window has exactly one live credit, debited at least as
  far as it is confirmed and never beyond its capacity; \<open>pools_ok\<close> says that the pool of a rule and
  direction lists exactly the live credits of that rule and direction.
\<close>

section \<open>The invariant\<close>

definition credit_ok :: "live_credit \<Rightarrow> bool" where
  "credit_ok c \<longleftrightarrow> w_Confirmed (lc_window c) \<le> lc_used c \<and> lc_used c \<le> w_Capacity (lc_window c)
     \<and> w_StartedAt (lc_window c) \<le> lc_last c"

definition live_ok :: "store \<Rightarrow> bool" where
  "live_ok s \<longleftrightarrow> distinct_keys (s_credits s)
     \<and> (\<forall>i. map_option lc_window (map_of (s_credits s) i) = map_of (d_Windows (s_state s)) i)
     \<and> (\<forall>i c. map_of (s_credits s) i = Some c \<longrightarrow> credit_ok c)"

definition credit_key :: "live_credit \<Rightarrow> pool_key" where
  "credit_key c = creditKey (w_RuleID (lc_window c)) (w_Upload (lc_window c))"

definition pools_ok :: "store \<Rightarrow> bool" where
  "pools_ok s \<longleftrightarrow> (\<forall>k. distinct (pool s k)
     \<and> set (pool s k) = {i. \<exists>c. map_of (s_credits s) i = Some c \<and> credit_key c = k})"

lemma pools_okD:
  assumes "pools_ok s"
  shows "distinct (pool s k)"
    "set (pool s k) = {i. \<exists>c. map_of (s_credits s) i = Some c \<and> credit_key c = k}"
  using assms unfolding pools_ok_def by blast+

definition store_inv :: "store \<Rightarrow> bool" where
  "store_inv s \<longleftrightarrow> ledger_inv (s_state s) \<and> live_ok s \<and> pools_ok s \<and> length (s_queue s) \<le> maxStoreQueue"

lemma store_invD:
  assumes "store_inv s"
  shows "ledger_inv (s_state s)" "live_ok s" "pools_ok s" "length (s_queue s) \<le> maxStoreQueue"
  using assms by (simp_all add: store_inv_def)

lemma live_okD:
  assumes "live_ok s"
  shows "distinct_keys (s_credits s)"
    "map_of (s_credits s) i = Some c \<Longrightarrow> map_of (d_Windows (s_state s)) i = Some (lc_window c)"
    "map_of (s_credits s) i = Some c \<Longrightarrow> credit_ok c"
    "map_of (d_Windows (s_state s)) i = Some w \<Longrightarrow> \<exists>c. map_of (s_credits s) i = Some c \<and> lc_window c = w"
proof -
  have e: "map_option lc_window (map_of (s_credits s) i) = map_of (d_Windows (s_state s)) i"
    using assms by (simp add: live_ok_def)
  show "distinct_keys (s_credits s)"
    "map_of (s_credits s) i = Some c \<Longrightarrow> credit_ok c"
    using assms by (auto simp: live_ok_def)
  show "map_of (s_credits s) i = Some c \<Longrightarrow> map_of (d_Windows (s_state s)) i = Some (lc_window c)"
    using e by simp
  show "map_of (d_Windows (s_state s)) i = Some w \<Longrightarrow> \<exists>c. map_of (s_credits s) i = Some c \<and> lc_window c = w"
    using e by (cases "map_of (s_credits s) i") auto
qed

lemma live_dom: "live_ok s \<Longrightarrow> dom (map_of (s_credits s)) = dom (map_of (d_Windows (s_state s)))"
  unfolding live_ok_def by (metis (no_types, lifting) domIff map_option_is_None subsetI subset_antisym)

section \<open>What a lease has really carried\<close>

text \<open>Bytes confirmed in the ledger plus bytes debited in memory never exceed the lease.\<close>

lemma live_spent_le_liability:
  assumes "live_ok s" "ledger_inv (s_state s)"
  shows "live_spent s i \<le> creditLiability (s_state s) i"
proof -
  note D = live_okD [OF assms(1)]
  have wd: "distinct_keys (d_Windows (s_state s))"
    using assms(2) by (auto dest: maps_wfD)
  have "live_spent s i = (\<Sum>k\<in>dom (map_of (s_credits s)).
      (let c = the (map_of (s_credits s) k) in
       if w_LeaseID (lc_window c) = i then lc_used c - w_Confirmed (lc_window c) else 0))"
    by (simp add: live_spent_def am.total_dom [OF D(1)] Let_def)
  also have "\<dots> \<le> (\<Sum>k\<in>dom (map_of (s_credits s)).
      (let w = the (map_of (d_Windows (s_state s)) k) in if w_LeaseID w = i then left w else 0))"
  proof (rule sum_mono)
    fix k assume "k \<in> dom (map_of (s_credits s))"
    then obtain c where c: "map_of (s_credits s) k = Some c" by auto
    show "(let c = the (map_of (s_credits s) k) in
        if w_LeaseID (lc_window c) = i then lc_used c - w_Confirmed (lc_window c) else 0)
      \<le> (let w = the (map_of (d_Windows (s_state s)) k) in if w_LeaseID w = i then left w else 0)"
      using D(2) [OF c] D(3) [OF c] by (simp add: c credit_ok_def left_def Let_def)
  qed
  also have "\<dots> = creditLiability (s_state s) i"
    by (simp add: creditLiability_def win_total_def am.total_dom [OF wd] live_dom [OF assms(1)] Let_def)
  finally show ?thesis .
qed

lemma live_spent_nonneg: "live_ok s \<Longrightarrow> 0 \<le> live_spent s i"
  unfolding live_spent_def
  by (rule am.total_nonneg) (auto dest: live_okD simp: credit_ok_def)

lemma spent_le_lease:
  assumes "store_inv s" "map_of (d_Leases (s_state s)) i = Some l"
  shows "0 \<le> spent s i" "spent s i \<le> max 0 (l_Bytes l)"
proof -
  note I = store_invD [OF assms(1)]
  show "0 \<le> spent s i"
    using live_spent_nonneg [OF I(2), of i] look0_nonneg ledger_invD(2) [OF I(1)]
    by (metis add_nonneg_nonneg spent_def)
  show "spent s i \<le> max 0 (l_Bytes l)"
    using live_spent_le_liability [OF I(2,1), of i] budget_okD [OF ledger_invD(4) [OF I(1)] assms(2)]
    unfolding spent_def by linarith
qed

section \<open>Debits\<close>

definition elig :: "gotime \<Rightarrow> rule \<Rightarrow> (string, live_credit) gomap \<Rightarrow> string \<Rightarrow> bool" where
  "elig now r cs i \<longleftrightarrow> (case map_of cs i of None \<Rightarrow> False | Some c \<Rightarrow> eligible now r c)"

definition left_at :: "(string, live_credit) gomap \<Rightarrow> string \<Rightarrow> int" where
  "left_at cs i = (case map_of cs i of None \<Rightarrow> 0 | Some c \<Rightarrow> unspent c)"

lemma scan_pool_result:
  "sc_eligible (scan_pool now ad r cs ids a) = sc_eligible a @ filter (elig now r cs) ids"
  "sc_remaining (scan_pool now ad r cs ids a)
     = sc_remaining a + sum_list (map (left_at cs) (filter (elig now r cs) ids))"
  by (induction ids arbitrary: a) (auto simp: elig_def left_at_def split: option.splits)

text \<open>\<open>debited now E cs cs'\<close>: the heap \<open>cs'\<close> is \<open>cs\<close> with some debits to the credits in \<open>E\<close>.\<close>

definition debited1 :: "gotime \<Rightarrow> bool \<Rightarrow> live_credit \<Rightarrow> live_credit \<Rightarrow> bool" where
  "debited1 now E c c' \<longleftrightarrow> lc_window c' = lc_window c \<and> lc_closed c' = lc_closed c
     \<and> lc_used c \<le> lc_used c' \<and> lc_used c' \<le> max (lc_used c) (w_Capacity (lc_window c))
     \<and> (c' = c \<or> E \<and> lc_last c' = now)"

definition debited :: "gotime \<Rightarrow> string set \<Rightarrow> (string, live_credit) gomap \<Rightarrow> (string, live_credit) gomap \<Rightarrow> bool" where
  "debited now E cs cs' \<longleftrightarrow> (\<forall>i. rel_option (debited1 now (i \<in> E)) (map_of cs i) (map_of cs' i))"

definition total_used :: "(string, live_credit) gomap \<Rightarrow> int" where
  "total_used cs = gsum (\<lambda>_ c. lc_used c) cs"

lemma debited_refl: "debited now E cs cs"
  by (simp add: debited_def debited1_def option.rel_refl)

lemma debited_mono: "debited now E cs cs' \<Longrightarrow> E \<subseteq> E' \<Longrightarrow> debited now E' cs cs'"
  unfolding debited_def
  by (intro allI, erule allE, erule option.rel_mono_strong) (auto simp: debited1_def)

lemma debited1_trans:
  "debited1 now E c c' \<Longrightarrow> debited1 now E c' c'' \<Longrightarrow> debited1 now E c c''"
  by (auto simp: debited1_def)

lemma debited_trans:
  assumes "debited now E cs cs'" "debited now E cs' cs''"
  shows "debited now E cs cs''"
  unfolding debited_def
proof
  fix i
  show "rel_option (debited1 now (i \<in> E)) (map_of cs i) (map_of cs'' i)"
    using assms unfolding debited_def
    by (elim allE [of _ i])
      (auto simp: option_rel_Some1 option_rel_Some2 rel_option_iff split: option.splits intro: debited1_trans)
qed

lemma debited_put:
  assumes "map_of cs i = Some c" "debited1 now (i \<in> E) c c'"
  shows "debited now E cs (put i c' cs)"
  using assms by (auto simp: debited_def debited1_def option.rel_refl)

lemma debit_pool_sound:
  assumes "debit_pool now ad ids needed tg sp cs = (tg', sp', cs')"
    and "distinct_keys cs" "distinct ids" "set ids \<subseteq> dom (map_of cs)"
    and "\<And>i. i \<in> set ids \<Longrightarrow> 0 \<le> left_at cs i"
    and "0 \<le> needed" "needed \<le> sum_list (map (left_at cs) ids)"
  shows "debited now (set ids) cs cs' \<and> distinct_keys cs' \<and> total_used cs' = total_used cs + needed"
  using assms
proof (induction ids arbitrary: needed tg sp cs)
  case Nil
  then show ?case by (simp add: debited_refl)
next
  case (Cons i ids)
  obtain c where c: "map_of cs i = Some c" using Cons.prems(4) by auto
  have un: "0 \<le> unspent c" "left_at cs i = unspent c"
    using Cons.prems(5) [of i] by (simp_all add: left_at_def c)
  define db where "db = min needed (unspent c)"
  define c2 where "c2 = debit_credit now db c"
  define cs1 where "cs1 = put i c2 cs"
  have db: "0 \<le> db" "db \<le> unspent c" "db \<le> needed" using un Cons.prems(6) by (auto simp: db_def)
  have d1: "debited1 now (i \<in> set (i # ids)) c c2"
    using db un by (auto simp: debited1_def c2_def debit_credit_def unspent_def Let_def)
  have deb: "debited now (set (i # ids)) cs cs1"
    unfolding cs1_def by (rule debited_put [OF c d1])
  have dk: "distinct_keys cs1" using Cons.prems(2) by (simp add: cs1_def)
  have tot: "total_used cs1 = total_used cs + db"
    using Cons.prems(2) by (simp add: total_used_def cs1_def am.total_put c c2_def debit_credit_def Let_def)
  have rest: "left_at cs1 j = left_at cs j" if "j \<in> set ids" for j
    using that Cons.prems(3) by (auto simp: left_at_def cs1_def)
  show ?case
  proof (cases "needed - db = 0")
    case True
    then have "cs' = cs1"
      using Cons.prems(1) by (simp add: c Let_def cs1_def c2_def db_def split: if_splits)
    with True deb dk tot show ?thesis by simp
  next
    case False
    then obtain tg1 sp1 where step: "debit_pool now ad ids (needed - db) tg1 sp1 cs1 = (tg', sp', cs')"
      using Cons.prems(1) by (auto simp: c Let_def cs1_def c2_def db_def split: if_splits)
    have IH: "debited now (set ids) cs1 cs' \<and> distinct_keys cs'
        \<and> total_used cs' = total_used cs1 + (needed - db)"
    proof (rule Cons.IH [OF step dk])
      show "distinct ids" using Cons.prems(3) by simp
      show "set ids \<subseteq> dom (map_of cs1)" using Cons.prems(4) by (auto simp: cs1_def)
      show "0 \<le> left_at cs1 j" if "j \<in> set ids" for j
        using that Cons.prems(5) rest by simp
      show "0 \<le> needed - db" using db by simp
      have eq: "map (left_at cs1) ids = map (left_at cs) ids"
        by (rule map_cong) (auto simp: rest)
      show "needed - db \<le> sum_list (map (left_at cs1) ids)"
        unfolding eq using Cons.prems(7) un False db by (auto simp: db_def)
    qed
    have "debited now (set (i # ids)) cs cs'"
      by (rule debited_trans [OF deb debited_mono]) (use IH in auto)
    with IH tot show ?thesis by simp
  qed
qed

text \<open>The part of the store that a charge may change: only the heap, the growth targets, the
  refill flags and the queue.\<close>

lemma enqueue_simps:
  assumes "enqueue q s = (b, s')"
  shows "s_credits s' = s_credits s" "s_state s' = s_state s" "s_creditPools s' = s_creditPools s"
    "s_log s' = s_log s" "s_base s' = s_base s" "s_failed s' = s_failed s"
    "length (s_queue s) \<le> maxStoreQueue \<Longrightarrow> length (s_queue s') \<le> maxStoreQueue"
  using assms by (auto simp: enqueue_def split: if_splits)

definition charge_allowed :: "gotime \<Rightarrow> store \<Rightarrow> rule \<Rightarrow> gotime \<Rightarrow> int \<Rightarrow> bool" where
  "charge_allowed now s r until n \<longleftrightarrow> 0 \<le> n \<and> \<not> s_fastFailed s \<and> r_Lease r \<noteq> None
     \<and> (r_Network r = ''tcp'' \<longrightarrow> n \<le> lease_capacity r) \<and> now < until"

text \<open>The credits a charge may draw on, and what they still hold.\<close>

definition sources :: "gotime \<Rightarrow> store \<Rightarrow> rule \<Rightarrow> bool \<Rightarrow> string list" where
  "sources now s r up = filter (elig now r (s_credits s)) (pool s (creditKey (r_ID r) up))"

definition funds :: "gotime \<Rightarrow> store \<Rightarrow> rule \<Rightarrow> bool \<Rightarrow> int" where
  "funds now s r up = sum_list (map (left_at (s_credits s)) (sources now s r up))"

lemma charge_scan_result:
  "sc_eligible (charge_scan now s r up) = sources now s r up"
  "sc_remaining (charge_scan now s r up) = funds now s r up"
  by (simp_all add: charge_scan_def sources_def funds_def scan_pool_result Let_def)

lemma TryCreditCharge_refused:
  assumes "\<not> charge_allowed now s r until n"
  shows "snd (TryCreditCharge now s r until up n) = s"
    "fst (TryCreditCharge now s r until up n) \<noteq> None"
  using assms by (auto simp: TryCreditCharge_def charge_allowed_def)

lemma publish_charge_simps:
  "s_credits (publish_charge now r until up n co s) = co_credits co"
  "s_state (publish_charge now r until up n co s) = s_state s"
  "s_creditPools (publish_charge now r until up n co s) = s_creditPools s"
  "s_log (publish_charge now r until up n co s) = s_log s"
  "s_base (publish_charge now r until up n co s) = s_base s"
  "s_failed (publish_charge now r until up n co s) = s_failed s"
  "length (s_queue s) \<le> maxStoreQueue \<Longrightarrow>
     length (s_queue (publish_charge now r until up n co s)) \<le> maxStoreQueue"
  by (simp_all add: publish_charge_def request_refill_def enqueue_def Let_def)

lemma TryCreditCharge_allowed:
  "charge_allowed now s r until n \<Longrightarrow> TryCreditCharge now s r until up n
     = (if co_admitted (charge_debit now s r up n) then None else Some CreditUnavailable,
        publish_charge now r until up n (charge_debit now s r up n) s)"
  by (auto simp: TryCreditCharge_def charge_allowed_def Let_def)

definition charge_admitted :: "gotime \<Rightarrow> store \<Rightarrow> rule \<Rightarrow> bool \<Rightarrow> int \<Rightarrow> bool" where
  "charge_admitted now s r up n \<longleftrightarrow> sources now s r up \<noteq> [] \<and> n \<le> funds now s r up"

lemma sources_subset: "pools_ok s \<Longrightarrow> set (sources now s r up) \<subseteq> dom (map_of (s_credits s))"
  by (auto simp: sources_def elig_def split: option.splits)

lemma charge_debit_sound:
  assumes "store_inv s" "0 \<le> n"
  shows "co_admitted (charge_debit now s r up n) = charge_admitted now s r up n"
    and "debited now (set (sources now s r up)) (s_credits s) (co_credits (charge_debit now s r up n))"
    and "distinct_keys (co_credits (charge_debit now s r up n))"
    and "total_used (co_credits (charge_debit now s r up n))
      = total_used (s_credits s) + (if charge_admitted now s r up n then n else 0)"
proof -
  note I = store_invD [OF assms(1)]
  let ?a = "charge_scan now s r up" and ?co = "charge_debit now s r up n"
  have dk: "distinct_keys (s_credits s)" by (rule live_okD(1) [OF I(2)])
  show "co_admitted ?co = charge_admitted now s r up n"
    by (auto simp: charge_debit_def charge_admitted_def charge_scan_result Let_def split: prod.splits)
  have "debited now (set (sources now s r up)) (s_credits s) (co_credits ?co) \<and> distinct_keys (co_credits ?co)
    \<and> total_used (co_credits ?co) = total_used (s_credits s) + (if charge_admitted now s r up n then n else 0)"
  proof (cases "charge_admitted now s r up n")
    case False
    then have "co_credits ?co = s_credits s"
      by (auto simp: charge_debit_def charge_admitted_def charge_scan_result Let_def)
    with False dk show ?thesis by (simp add: debited_refl)
  next
    case True
    obtain tg sp cs where dp: "debit_pool now (adaptive s r) (sources now s r up) n
        (sc_target ?a) (sc_spendable ?a) (s_credits s) = (tg, sp, cs)"
      by (metis prod_cases3)
    have "co_credits ?co = cs"
      using True dp by (simp add: charge_debit_def charge_admitted_def charge_scan_result Let_def)
    moreover have "debited now (set (sources now s r up)) (s_credits s) cs \<and> distinct_keys cs
        \<and> total_used cs = total_used (s_credits s) + n"
    proof (rule debit_pool_sound [OF dp dk])
      show "distinct (sources now s r up)" using pools_okD(1) [OF I(3)] by (simp add: sources_def)
      show "set (sources now s r up) \<subseteq> dom (map_of (s_credits s))" by (rule sources_subset [OF I(3)])
      show "0 \<le> left_at (s_credits s) i" for i
        using live_okD(3) [OF I(2), of i] by (auto simp: left_at_def unspent_def credit_ok_def split: option.splits)
      show "0 \<le> n" by (rule assms)
      show "n \<le> sum_list (map (left_at (s_credits s)) (sources now s r up))"
        using True by (simp add: charge_admitted_def funds_def)
    qed
    ultimately show ?thesis using True by simp
  qed
  then show "debited now (set (sources now s r up)) (s_credits s) (co_credits ?co)"
    "distinct_keys (co_credits ?co)"
    "total_used (co_credits ?co) = total_used (s_credits s) + (if charge_admitted now s r up n then n else 0)"
    by auto
qed

text \<open>Debits keep the invariant. The clock must not run behind the start of a window, which is what
  the program ensures by reading it under the lock.\<close>

definition clock_after :: "store \<Rightarrow> gotime \<Rightarrow> bool" where
  "clock_after s now \<longleftrightarrow> (\<forall>i c. map_of (s_credits s) i = Some c \<longrightarrow> w_StartedAt (lc_window c) \<le> now)"

lemma debited_live_ok:
  assumes live: "live_ok s" and deb: "debited now E (s_credits s) cs" and dk: "distinct_keys cs"
    and clock: "clock_after s now"
    and s': "s_credits s' = cs" "s_state s' = s_state s"
  shows "live_ok s'"
proof -
  have rel: "rel_option (debited1 now (i \<in> E)) (map_of (s_credits s) i) (map_of cs i)" for i
    using deb by (simp add: debited_def)
  have "map_option lc_window (map_of cs i) = map_option lc_window (map_of (s_credits s) i)" for i
    using rel [of i] by (auto simp: rel_option_iff debited1_def split: option.splits)
  moreover have "credit_ok c'" if c': "map_of cs i = Some c'" for i c'
  proof -
    obtain c where c: "map_of (s_credits s) i = Some c" and d: "debited1 now (i \<in> E) c c'"
      using rel [of i] c' by (auto simp: option_rel_Some2)
    have "w_StartedAt (lc_window c) \<le> now" using clock c by (auto simp: clock_after_def)
    with live_okD(3) [OF live c] d show ?thesis by (auto simp: credit_ok_def debited1_def)
  qed
  ultimately show ?thesis
    using live dk by (simp add: live_ok_def s')
qed

lemma debited_pools_ok:
  assumes "pools_ok s" "debited now E (s_credits s) cs"
    and "s_credits s' = cs" "s_creditPools s' = s_creditPools s"
  shows "pools_ok s'"
proof -
  have "(\<exists>c. map_of cs i = Some c \<and> credit_key c = k)
      \<longleftrightarrow> (\<exists>c. map_of (s_credits s) i = Some c \<and> credit_key c = k)" for i k
    using assms(2) unfolding debited_def
    by (elim allE [of _ i]) (auto simp: rel_option_iff debited1_def credit_key_def split: option.splits)
  then show ?thesis
    using assms by (simp add: pools_ok_def pool_def)
qed

lemma TryCreditCharge_inv:
  assumes inv: "store_inv s" and clock: "clock_after s now"
  shows "store_inv (snd (TryCreditCharge now s r until up n))"
proof (cases "charge_allowed now s r until n")
  case False
  then show ?thesis using inv TryCreditCharge_refused(1) [OF False] by simp
next
  case True
  note I = store_invD [OF inv]
  have n: "0 \<le> n" using True by (simp add: charge_allowed_def)
  note D = charge_debit_sound [OF inv n, of now r up]
  let ?s = "publish_charge now r until up n (charge_debit now s r up n) s"
  have "live_ok ?s"
    by (rule debited_live_ok [OF I(2) D(2,3) clock]) (simp_all add: publish_charge_simps)
  moreover have "pools_ok ?s"
    by (rule debited_pools_ok [OF I(3) D(2)]) (simp_all add: publish_charge_simps)
  ultimately have "store_inv ?s"
    using I(1,4) by (simp add: store_inv_def publish_charge_simps)
  then show ?thesis by (simp add: TryCreditCharge_allowed [OF True])
qed

section \<open>Progress events\<close>

text \<open>A progress event built from a window and its live credit. The two counters that bound it are
  the room for one more pending record and the room for one more sequence number.\<close>

definition fitting :: "store \<Rightarrow> string \<Rightarrow> bool \<Rightarrow> bool" where
  "fitting s i close \<longleftrightarrow> (\<exists>c. map_of (s_credits s) i = Some c \<and> w_Sequence (lc_window c) + 1 \<noteq> 0)
     \<and> spool (s_state s) \<le> MaxPendingRecords \<and> (close \<or> spool (s_state s) < MaxPendingRecords)"

lemma progress_event_simps [simp]:
  "e_Kind (progress_event d w c close) = ''credit_progress''"
  "e_Window (progress_event d w c close)
     = Some (w\<lparr>w_Closed := close, w_Sequence := w_Sequence w + 1, w_Confirmed := lc_used c\<rparr>)"
  by (simp_all add: progress_event_def Let_def event0_def)

lemma progress_event_usage:
  "e_Usage (progress_event d w c close) = (if lc_used c - w_Confirmed w > 0
     then Some (creditUsage d (w\<lparr>w_Closed := close, w_Sequence := w_Sequence w + 1, w_Confirmed := lc_used c\<rparr>)
        (lc_used c - w_Confirmed w) ''normal'' (min (lc_last c) (w_Until w))) else None)"
  by (simp add: progress_event_def Let_def event0_def)

lemma pending_room:
  assumes "map_of (d_Windows d) i = Some w" "spool d \<le> MaxPendingRecords"
  shows "int (length (d_Pending d)) < MaxPendingRecords"
proof -
  have "d_Windows d \<noteq> []" using assms(1) by auto
  then have "0 < int (length (d_Windows d))" by simp
  with assms(2) show ?thesis unfolding spool_def by linarith
qed

text \<open>The event is computed in one state and applied in a later one that still has the window.\<close>

lemma progress_event_ok:
  assumes inv: "ledger_inv d" and w: "map_of (d_Windows d) i = Some w" and c: "credit_ok c" "lc_window c = w"
    and seq: "w_Sequence w + 1 \<noteq> 0" and room: "int (length (d_Pending d)) < MaxPendingRecords"
    and same: "d_Identity d0 = d_Identity d" "lease_entitlement d0 (w_LeaseID w) = lease_entitlement d (w_LeaseID w)"
  shows "progress_ok d (w\<lparr>w_Closed := close, w_Sequence := w_Sequence w + 1, w_Confirmed := lc_used c\<rparr>)
    (e_Usage (progress_event d0 w c close))"
proof -
  let ?w = "w\<lparr>w_Closed := close, w_Sequence := w_Sequence w + 1, w_Confirmed := lc_used c\<rparr>"
  have id: "w_ID w = i" and shape: "window_shape w"
    using ledger_invD(3) [OF inv] w by (auto simp: windows_wf_def)
  have le: "w_Confirmed w \<le> lc_used c" "lc_used c \<le> w_Capacity w" "w_StartedAt w \<le> lc_last c"
    using c by (auto simp: credit_ok_def)
  have shape': "window_shape ?w"
    using shape le by (auto simp: window_shape_def window_limits_def)
  have until: "w_StartedAt w < w_Until w" and len: "length (w_ID w) = 32"
    using shape by (auto simp: window_shape_def)
  have gt: "0 < w_Sequence w + 1" using seq by (simp add: word_gt_0)
  have "validCreditUsage d ?w (lc_used c - w_Confirmed w)
      (creditUsage d0 ?w (lc_used c - w_Confirmed w) ''normal'' (min (lc_last c) (w_Until w)))"
    if "0 < lc_used c - w_Confirmed w"
    using that le until len gt room same
    by (auto simp: validCreditUsage_def creditUsage_def ValidWindowMetadata_def)
  then have "validateCreditProgress d ?w (e_Usage (progress_event d0 w c close)) = None"
    using w id le by (auto simp: validateCreditProgress_def progress_event_usage Let_def)
  with shape' show ?thesis by (simp add: progress_ok_def)
qed

lemma store_apply_progress:
  assumes "e_Kind e = ''credit_progress''" "e_Window e = Some w" "progress_ok (s_state s) w (e_Usage e)"
  shows "store_apply s e = Inr (live_progress w (s\<lparr>s_state := applyProgress (s_state s) w (e_Usage e)\<rparr>))"
  using assms
  by (simp add: store_apply_def applyCreditEvent_def applyCreditDisk_def validateCreditEvent_def
      progress_ok_def Let_def)

lemma store_apply_progressD:
  assumes "e_Kind e = ''credit_progress''" "store_apply s e = Inr s'"
  obtains w where "e_Window e = Some w" "progress_ok (s_state s) w (e_Usage e)"
    "s' = live_progress w (s\<lparr>s_state := applyProgress (s_state s) w (e_Usage e)\<rparr>)"
  using assms
  by (auto simp: store_apply_def applyCreditEvent_def applyCreditDisk_def validateCreditEvent_def
      progress_ok_def Let_def bindE_def split: option.splits sum.splits if_splits)

section \<open>Applying events keeps the invariant\<close>

text \<open>An event may be applied to the live part when it does not confirm bytes that were never debited,
  and when a new window has an identifier of its own.\<close>

definition live_admissible :: "store \<Rightarrow> state_event \<Rightarrow> bool" where
  "live_admissible s e \<longleftrightarrow> event_admissible e
     \<and> (e_Kind e = ''credit_progress'' \<longrightarrow> (\<forall>w c. e_Window e = Some w \<longrightarrow>
          map_of (s_credits s) (w_ID w) = Some c \<longrightarrow> w_Confirmed w \<le> lc_used c))"

lemma live_progress_simps [simp]:
  "s_state (live_progress w s) = s_state s" "s_queue (live_progress w s) = s_queue s"
  "s_base (live_progress w s) = s_base s" "s_log (live_progress w s) = s_log s"
  "s_failed (live_progress w s) = s_failed s" "s_walBytes (live_progress w s) = s_walBytes s"
  "s_seq (live_progress w s) = s_seq s"
  by (simp_all add: live_progress_def Let_def split: option.splits)

lemma live_reserve_simps [simp]:
  "s_state (live_reserve w s) = s_state s" "s_queue (live_reserve w s) = s_queue s"
  "s_base (live_reserve w s) = s_base s" "s_log (live_reserve w s) = s_log s"
  "s_failed (live_reserve w s) = s_failed s" "s_walBytes (live_reserve w s) = s_walBytes s"
  "s_seq (live_reserve w s) = s_seq s"
  by (simp_all add: live_reserve_def Let_def)

lemma live_progress_credits:
  "map_of (s_credits s) (w_ID w) = Some c \<Longrightarrow> s_credits (live_progress w s)
     = (if w_Closed w then del (w_ID w) (s_credits s) else put (w_ID w) (c\<lparr>lc_window := w\<rparr>) (s_credits s))"
  by (simp add: live_progress_def Let_def)

lemma pool_live_progress:
  assumes "map_of (s_credits s) (w_ID w) = Some c"
  shows "pool (live_progress w s) k = (if w_Closed w \<and> k = creditKey (w_RuleID w) (w_Upload w)
     then filter (\<lambda>i. i \<noteq> w_ID w) (pool s k) else pool s k)"
  using assms by (auto simp: live_progress_def pool_def Let_def)

lemma live_ok_progress:
  assumes live: "live_ok s" and ok: "progress_ok (s_state s) w uo"
    and conf: "\<And>c. map_of (s_credits s) (w_ID w) = Some c \<Longrightarrow> w_Confirmed w \<le> lc_used c"
  shows "live_ok (live_progress w (s\<lparr>s_state := applyProgress (s_state s) w uo\<rparr>))"
proof -
  obtain old where old: "map_of (d_Windows (s_state s)) (w_ID w) = Some old" "w_Capacity w = w_Capacity old"
    "w_StartedAt w = w_StartedAt old"
    by (rule progress_okE [OF ok])
  obtain c where c: "map_of (s_credits s) (w_ID w) = Some c" "lc_window c = old"
    using live_okD(4) [OF live old(1)] by auto
  have "credit_ok (c\<lparr>lc_window := w\<rparr>)"
    using live_okD(3) [OF live c(1)] conf [OF c(1)] old c(2) by (simp add: credit_ok_def)
  with live show ?thesis
    by (auto simp: live_ok_def live_progress_credits c(1) applyProgress_windows)
qed

lemma pools_ok_progress:
  assumes live: "live_ok s" and pools: "pools_ok s" and ok: "progress_ok (s_state s) w uo"
  shows "pools_ok (live_progress w (s\<lparr>s_state := applyProgress (s_state s) w uo\<rparr>))"
proof -
  let ?s = "s\<lparr>s_state := applyProgress (s_state s) w uo\<rparr>"
  obtain old where old: "map_of (d_Windows (s_state s)) (w_ID w) = Some old" "w_RuleID w = w_RuleID old"
    "w_Upload w = w_Upload old"
    by (rule progress_okE [OF ok])
  obtain c where c: "map_of (s_credits s) (w_ID w) = Some c" "lc_window c = old"
    using live_okD(4) [OF live old(1)] by auto
  have c': "map_of (s_credits ?s) (w_ID w) = Some c" by (simp add: c)
  have key: "credit_key c = creditKey (w_RuleID w) (w_Upload w)"
    "credit_key (c\<lparr>lc_window := w\<rparr>) = creditKey (w_RuleID w) (w_Upload w)"
    using old c(2) by (simp_all add: credit_key_def)
  have pool: "pool ?s k = pool s k" for k by (simp add: pool_def)
  show ?thesis
    unfolding pools_ok_def
  proof (intro allI conjI)
    fix k
    note P = pools_okD [OF pools, of k]
    show "distinct (pool (live_progress w ?s) k)"
      using P(1) by (auto simp: pool_live_progress [OF c'] pool)
    show "set (pool (live_progress w ?s) k)
        = {i. \<exists>c. map_of (s_credits (live_progress w ?s)) i = Some c \<and> credit_key c = k}"
      using P(2) key c(1) unfolding pool_live_progress [OF c'] pool live_progress_credits [OF c']
      by (auto split: if_splits)
  qed
qed

lemma pool_live_reserve:
  "pool (live_reserve w s) k = (if k = creditKey (w_RuleID w) (w_Upload w) then pool s k @ [w_ID w] else pool s k)"
  by (simp add: live_reserve_def pool_def Let_def)

lemma live_reserve_credits:
  "s_credits (live_reserve w s) = put (w_ID w)
     \<lparr>lc_window = w, lc_used = 0, lc_last = w_StartedAt w, lc_closed = False\<rparr> (s_credits s)"
  by (simp add: live_reserve_def Let_def)

lemma reserve_fresh:
  assumes "live_ok s" "reserve_ok (s_state s) w l"
  shows "map_of (s_credits s) (w_ID w) = None"
  using live_okD(2) [OF assms(1), of "w_ID w"] reserve_okD(2) [OF assms(2)]
  by (cases "map_of (s_credits s) (w_ID w)") (auto simp: has_def)

lemma live_ok_reserve:
  assumes live: "live_ok s" and ok: "reserve_ok (s_state s) w l"
  shows "live_ok (live_reserve w (s\<lparr>s_state := applyReserve (s_state s) w l\<rparr>))"
proof -
  have "0 \<le> w_Capacity w" using reserve_okD(1) [OF ok] by (simp add: window_shape_def)
  with live reserve_okD(3) [OF ok] show ?thesis
    by (auto simp: live_ok_def live_reserve_credits applyReserve_def credit_ok_def)
qed

lemma pools_ok_reserve:
  assumes live: "live_ok s" and pools: "pools_ok s" and ok: "reserve_ok (s_state s) w l"
  shows "pools_ok (live_reserve w (s\<lparr>s_state := applyReserve (s_state s) w l\<rparr>))"
proof -
  let ?s = "s\<lparr>s_state := applyReserve (s_state s) w l\<rparr>"
  note fresh = reserve_fresh [OF live ok]
  have pool: "pool ?s k = pool s k" for k by (simp add: pool_def)
  show ?thesis
    unfolding pools_ok_def
  proof (intro allI conjI)
    fix k
    note P = pools_okD [OF pools, of k]
    show "distinct (pool (live_reserve w ?s) k)"
      using P fresh by (auto simp: pool_live_reserve pool)
    show "set (pool (live_reserve w ?s) k)
        = {i. \<exists>c. map_of (s_credits (live_reserve w ?s)) i = Some c \<and> credit_key c = k}"
      using P(2) fresh by (auto simp: pool_live_reserve pool live_reserve_credits credit_key_def split: if_splits)
  qed
qed

lemma store_apply_reserveD:
  assumes "e_Kind e = ''credit_reserve''" "store_apply s e = Inr s'"
  obtains w l where "e_Window e = Some w" "e_Lease e = Some l" "reserve_ok (s_state s) w l"
    "s' = live_reserve w (s\<lparr>s_state := applyReserve (s_state s) w l\<rparr>)"
  using assms
  by (auto simp: store_apply_def applyCreditEvent_def applyCreditDisk_def validateCreditEvent_def
      validateCreditReserve_def reserve_ok_def Let_def bindE_def split: option.splits sum.splits if_splits)

text \<open>Every other event leaves the open windows alone.\<close>

lemma applyEvent_windows:
  assumes "e_Kind e \<noteq> ''credit_reserve''" "e_Kind e \<noteq> ''credit_progress''" "applyEvent d e = Inr d'"
  shows "d_Windows d' = d_Windows d"
  using assms
  by (auto simp: applyEvent_def applyUsage_def applyConfig_def spend_def Let_def bindE_def
      split: option.splits sum.splits if_splits)

text \<open>The in-memory store refines the ledger: its durable part moves exactly as \<open>applyEvent\<close> says.\<close>

lemma store_apply_state:
  "(case store_apply s e of Inl err \<Rightarrow> applyEvent (s_state s) e = Inl err
    | Inr s' \<Rightarrow> applyEvent (s_state s) e = Inr (s_state s'))"
  by (auto simp: store_apply_def applyCreditEvent_def applyEvent_def bindE_def Let_def
      split: option.splits sum.splits)

lemma store_apply_frame:
  assumes "store_apply s e = Inr s'"
  shows "s_queue s' = s_queue s" "s_base s' = s_base s" "s_log s' = s_log s" "s_failed s' = s_failed s"
    "s_walBytes s' = s_walBytes s" "s_seq s' = s_seq s"
  using assms
  by (auto simp: store_apply_def applyCreditEvent_def bindE_def Let_def split: option.splits sum.splits if_splits)

lemma store_apply_inv:
  assumes inv: "store_inv s" and adm: "live_admissible s e" and step: "store_apply s e = Inr s'"
  shows "store_inv s'"
proof -
  note I = store_invD [OF inv]
  have led: "ledger_inv (s_state s')"
    using store_apply_state [of s e] step adm I(1) by (auto simp: live_admissible_def intro: applyEvent_inv)
  have "live_ok s' \<and> pools_ok s'"
  proof (cases "e_Kind e = ''credit_progress''")
    case True
    then obtain w where w: "e_Window e = Some w" "progress_ok (s_state s) w (e_Usage e)"
      "s' = live_progress w (s\<lparr>s_state := applyProgress (s_state s) w (e_Usage e)\<rparr>)"
      using step by (rule store_apply_progressD)
    have "w_Confirmed w \<le> lc_used c" if "map_of (s_credits s) (w_ID w) = Some c" for c
      using adm True w(1) that by (simp add: live_admissible_def)
    with live_ok_progress [OF I(2) w(2)] pools_ok_progress [OF I(2,3) w(2)] show ?thesis by (simp add: w(3))
  next
    case np: False
    show ?thesis
    proof (cases "e_Kind e = ''credit_reserve''")
      case True
      then obtain w l where w: "reserve_ok (s_state s) w l"
        "s' = live_reserve w (s\<lparr>s_state := applyReserve (s_state s) w l\<rparr>)"
        using step by (auto elim: store_apply_reserveD)
      then show ?thesis using live_ok_reserve [OF I(2) w(1)] pools_ok_reserve [OF I(2,3) w(1)] by simp
    next
      case False
      with np step obtain d where d: "applyEvent (s_state s) e = Inr d" "s' = s\<lparr>s_state := d\<rparr>"
        by (auto simp: store_apply_def bindE_eq_Inr)
      have "d_Windows d = d_Windows (s_state s)"
        by (rule applyEvent_windows [OF False np d(1)])
      with I(2,3) show ?thesis by (simp add: d(2) live_ok_def pools_ok_def pool_def)
    qed
  qed
  with led I(4) store_apply_frame(1) [OF step] show ?thesis by (simp add: store_inv_def)
qed

text \<open>Applying an event never changes how far a surviving credit is debited.\<close>

definition used_kept :: "store \<Rightarrow> store \<Rightarrow> bool" where
  "used_kept s s' \<longleftrightarrow> (\<forall>i c'. map_of (s_credits s') i = Some c' \<longrightarrow>
     (case map_of (s_credits s) i of None \<Rightarrow> True | Some c \<Rightarrow> lc_used c' = lc_used c))"

lemma store_apply_used:
  assumes "live_ok s" "store_apply s e = Inr s'"
  shows "used_kept s s'"
  unfolding used_kept_def
proof (intro allI impI)
  fix i c' assume c': "map_of (s_credits s') i = Some c'"
  consider (p) "e_Kind e = ''credit_progress''" | (r) "e_Kind e = ''credit_reserve''"
    | (o) "e_Kind e \<noteq> ''credit_progress''" "e_Kind e \<noteq> ''credit_reserve''" by blast
  then show "case map_of (s_credits s) i of None \<Rightarrow> True | Some c \<Rightarrow> lc_used c' = lc_used c"
  proof cases
    case p
    then obtain w where "s' = live_progress w (s\<lparr>s_state := applyProgress (s_state s) w (e_Usage e)\<rparr>)"
      using assms(2) by (rule store_apply_progressD)
    with c' show ?thesis
      by (auto simp: live_progress_def Let_def split: option.splits if_splits)
  next
    case r
    then obtain w l where "reserve_ok (s_state s) w l"
      "s' = live_reserve w (s\<lparr>s_state := applyReserve (s_state s) w l\<rparr>)"
      using assms(2) by (auto elim: store_apply_reserveD)
    with c' reserve_fresh [OF assms(1)] show ?thesis
      by (auto simp: live_reserve_credits split: if_splits option.splits)
  next
    case o
    with assms(2) have "s_credits s' = s_credits s" by (auto simp: store_apply_def bindE_eq_Inr)
    with c' show ?thesis by simp
  qed
qed

section \<open>Batches\<close>

text \<open>A batch is computed against one heap \<open>cs\<close> and applied event by event. Its progress events confirm
  at most what that heap shows, and its reservations use identifiers that are not in it.\<close>

definition event_fits :: "(string, live_credit) gomap \<Rightarrow> state_event \<Rightarrow> bool" where
  "event_fits cs e \<longleftrightarrow> event_admissible e
     \<and> (e_Kind e = ''credit_progress'' \<longrightarrow> (\<exists>w c. e_Window e = Some w
          \<and> map_of cs (w_ID w) = Some c \<and> w_Confirmed w \<le> lc_used c))
     \<and> (e_Kind e = ''credit_reserve'' \<longrightarrow> (\<forall>w. e_Window e = Some w \<longrightarrow> map_of cs (w_ID w) = None))"

definition follows :: "(string, live_credit) gomap \<Rightarrow> store \<Rightarrow> bool" where
  "follows cs s \<longleftrightarrow> (\<forall>i c0 c. map_of cs i = Some c0 \<longrightarrow> map_of (s_credits s) i = Some c \<longrightarrow> lc_used c = lc_used c0)"

lemma follows_refl: "s_credits s = cs \<Longrightarrow> follows cs s"
  by (simp add: follows_def)

lemma event_fits_admissible:
  "event_fits cs e \<Longrightarrow> follows cs s \<Longrightarrow> live_admissible s e"
  by (auto simp: event_fits_def follows_def live_admissible_def)

lemma follows_apply:
  assumes live: "live_ok s" and fol: "follows cs s" and fit: "event_fits cs e"
    and step: "store_apply s e = Inr s'"
  shows "follows cs s'"
  unfolding follows_def
proof (intro allI impI)
  fix i c0 c assume c0: "map_of cs i = Some c0" and c: "map_of (s_credits s') i = Some c"
  have "map_of (s_credits s) i \<noteq> None"
  proof (cases "e_Kind e = ''credit_reserve''")
    case True
    then obtain w l where w: "e_Window e = Some w"
      "s' = live_reserve w (s\<lparr>s_state := applyReserve (s_state s) w l\<rparr>)"
      using step by (auto elim: store_apply_reserveD)
    have "map_of cs (w_ID w) = None" using fit True w(1) by (simp add: event_fits_def)
    with c0 c show ?thesis by (auto simp: w(2) live_reserve_credits split: if_splits)
  next
    case nr: False
    show ?thesis
    proof (cases "e_Kind e = ''credit_progress''")
      case True
      then obtain w where "s' = live_progress w (s\<lparr>s_state := applyProgress (s_state s) w (e_Usage e)\<rparr>)"
        using step by (rule store_apply_progressD)
      with c show ?thesis by (auto simp: live_progress_def Let_def split: option.splits if_splits)
    next
      case False
      with nr step c show ?thesis by (auto simp: store_apply_def bindE_eq_Inr)
    qed
  qed
  then obtain c1 where c1: "map_of (s_credits s) i = Some c1" by auto
  have "lc_used c = lc_used c1"
    using store_apply_used [OF live step] c c1 by (force simp: used_kept_def)
  with fol c0 c1 show "lc_used c = lc_used c0" by (auto simp: follows_def)
qed

lemma apply_all_inv:
  assumes "store_inv s" "follows cs s" "list_all (event_fits cs) es"
  shows "store_inv (snd (apply_all s es))"
  using assms
proof (induction es arbitrary: s)
  case Nil
  then show ?case by simp
next
  case (Cons e es)
  show ?case
  proof (cases "store_apply s e")
    case (Inl err)
    then show ?thesis using Cons.prems by simp
  next
    case (Inr s')
    have fit: "event_fits cs e" using Cons.prems(3) by simp
    have "store_inv s'"
      by (rule store_apply_inv [OF Cons.prems(1) event_fits_admissible [OF fit Cons.prems(2)] Inr])
    moreover have "follows cs s'"
      by (rule follows_apply [OF store_invD(2) [OF Cons.prems(1)] Cons.prems(2) fit Inr])
    ultimately show ?thesis using Cons.IH [of s'] Cons.prems(3) by (simp add: Inr)
  qed
qed

text \<open>Changes outside the ledger, the heap, the pools and the queue do not matter to the invariant.\<close>

lemma store_inv_cong:
  assumes "s_state s' = s_state s" "s_credits s' = s_credits s" "s_creditPools s' = s_creditPools s"
    "length (s_queue s') \<le> maxStoreQueue" "store_inv s"
  shows "store_inv s'"
  using assms by (simp add: store_inv_def live_ok_def pools_ok_def pool_def)

lemma store_inv_prune:
  assumes "store_inv s"
  shows "store_inv (s\<lparr>s_state := fst (pruneLeaseHistory now (s_state s))\<rparr>)"
proof -
  have "d_Windows (fst (pruneLeaseHistory now (s_state s))) = d_Windows (s_state s)"
    by (simp add: pruneLeaseHistory_def Let_def)
  with assms pruneLeaseHistory_inv [of "s_state s" now] show ?thesis
    by (simp add: store_inv_def live_ok_def pools_ok_def pool_def)
qed

lemma checkpoint_inv: "store_inv s \<Longrightarrow> store_inv (snd (checkpointLocked io s))"
  using store_inv_prune [of s "io_now io"]
  by (auto simp: checkpointLocked_def Let_def store_invD(4) intro: store_inv_cong [rotated 4])

lemma fail_store_inv [simp]: "store_inv (fail_store s) = store_inv s"
  by (auto simp: fail_store_def store_inv_def live_ok_def pools_ok_def pool_def)

lemma fail_store_simps [simp]:
  "s_credits (fail_store s) = s_credits s" "s_state (fail_store s) = s_state s"
  "s_base (fail_store s) = s_base s" "s_log (fail_store s) = s_log s" "s_failed (fail_store s)"
  "s_creditPools (fail_store s) = s_creditPools s" "s_queue (fail_store s) = s_queue s"
  by (simp_all add: fail_store_def)

lemma appendEvents_frame:
  "s_state (snd (appendEvents io s es)) = s_state s" "s_credits (snd (appendEvents io s es)) = s_credits s"
  "s_creditPools (snd (appendEvents io s es)) = s_creditPools s" "s_queue (snd (appendEvents io s es)) = s_queue s"
  "s_base (snd (appendEvents io s es)) = s_base s" "s_failed (snd (appendEvents io s es)) = s_failed s"
  by (simp_all add: appendEvents_def split: option.splits)

lemma append_apply_inv:
  assumes inv: "store_inv s" and fit: "list_all (event_fits (s_credits s)) es"
  shows "store_inv (snd (append_apply io s es))"
proof -
  obtain r1 s1 where s1: "appendEvents io s es = (r1, s1)" by fastforce
  have inv1: "store_inv s1"
    by (rule store_inv_cong [OF _ _ _ _ inv])
      (use appendEvents_frame [of io s es] store_invD(4) [OF inv] in \<open>simp_all add: s1\<close>)
  have fol: "follows (s_credits s) s1"
    using appendEvents_frame(2) [of io s es] by (simp add: follows_refl s1)
  obtain r2 s2 where s2: "apply_all s1 es = (r2, s2)" by fastforce
  have inv2: "store_inv s2" using apply_all_inv [OF inv1 fol fit] by (simp add: s2)
  have "store_inv (snd (checkpointLocked io s2))" by (rule checkpoint_inv [OF inv2])
  with inv1 inv2 show ?thesis
    by (auto simp: append_apply_def s1 s2 split: option.splits prod.splits)
qed

section \<open>Settling never fails and never loses a byte\<close>

definition uncl :: "live_credit \<Rightarrow> live_credit" where
  "uncl c = c\<lparr>lc_closed := False\<rparr>"

lemma uncl_simps [simp]:
  "lc_used (uncl c) = lc_used c" "lc_last (uncl c) = lc_last c" "lc_window (uncl c) = lc_window c"
  "uncl (c\<lparr>lc_closed := b\<rparr>) = uncl c"
  by (simp_all add: uncl_def)

lemma uncl_eqD:
  "uncl c = uncl c' \<Longrightarrow> lc_used c = lc_used c' \<and> lc_last c = lc_last c' \<and> lc_window c = lc_window c'"
  by (metis uncl_simps(1-3))

text \<open>\<open>closes cs cs'\<close>: the two heaps differ at most in which credits are closed.\<close>

definition closes :: "(string, live_credit) gomap \<Rightarrow> (string, live_credit) gomap \<Rightarrow> bool" where
  "closes cs cs' \<longleftrightarrow> (\<forall>i. map_option uncl (map_of cs' i) = map_option uncl (map_of cs i))"

lemma closes_refl: "closes cs cs"
  by (simp add: closes_def)

lemma closes_put: "map_of cs i = Some c \<Longrightarrow> closes (put i (c\<lparr>lc_closed := b\<rparr>) cs) cs' \<Longrightarrow> closes cs cs'"
  by (auto simp: closes_def)

lemma closesD:
  assumes "closes cs cs'"
  shows "map_of cs' i = Some c' \<Longrightarrow> \<exists>c. map_of cs i = Some c \<and> uncl c' = uncl c"
    "map_of cs i = Some c \<Longrightarrow> \<exists>c'. map_of cs' i = Some c' \<and> uncl c' = uncl c"
proof -
  have e: "map_option uncl (map_of cs' i) = map_option uncl (map_of cs i)"
    using assms by (simp add: closes_def)
  show "map_of cs' i = Some c' \<Longrightarrow> \<exists>c. map_of cs i = Some c \<and> uncl c' = uncl c"
    using e by (cases "map_of cs i") auto
  show "map_of cs i = Some c \<Longrightarrow> \<exists>c'. map_of cs' i = Some c' \<and> uncl c' = uncl c"
    using e by (cases "map_of cs' i") auto
qed

lemma progress_loop_closes:
  "distinct_keys cs \<Longrightarrow> closes cs (snd (progress_loop now d tr ids room cs))
     \<and> distinct_keys (snd (progress_loop now d tr ids room cs))"
proof (induction ids arbitrary: room cs)
  case Nil
  then show ?case by (simp add: closes_refl)
next
  case (Cons i ids)
  show ?case
  proof (cases "map_of (d_Windows d) i")
    case None
    then show ?thesis using Cons.prems by (simp add: closes_refl)
  next
    case w: (Some w)
    show ?thesis
    proof (cases "map_of cs i")
      case None
      then show ?thesis using Cons.prems w by (simp add: closes_refl)
    next
      case (Some c)
      have dk: "distinct_keys (put i (c\<lparr>lc_closed := True\<rparr>) cs)" using Cons.prems by simp
      show ?thesis
        using Cons.IH [OF Cons.prems, of room] Cons.IH [OF Cons.prems, of "room - 1"]
          Cons.IH [OF dk, of room] closes_put [OF Some, of True]
        by (simp add: w Some Let_def case_prod_beta)
    qed
  qed
qed

lemma store_inv_closes:
  assumes inv: "store_inv s" and cl: "closes (s_credits s) cs" and dk: "distinct_keys cs"
    and s': "s_credits s' = cs" "s_state s' = s_state s" "s_creditPools s' = s_creditPools s" "s_queue s' = s_queue s"
  shows "store_inv s'"
proof -
  note I = store_invD [OF inv] and C = closesD [OF cl]
  have win: "map_option lc_window (map_of cs i) = map_option lc_window (map_of (s_credits s) i)" for i
    using C(1) [of i] C(2) [of i] by (cases "map_of cs i"; cases "map_of (s_credits s) i") (auto dest: uncl_eqD)
  have "credit_ok c'" if "map_of cs i = Some c'" for i c'
    using C(1) [OF that] live_okD(3) [OF I(2), of i] by (auto simp: credit_ok_def dest!: uncl_eqD)
  then have "live_ok s'" using I(2) dk win by (simp add: live_ok_def s')
  moreover have "(\<exists>c. map_of cs i = Some c \<and> credit_key c = k)
      \<longleftrightarrow> (\<exists>c. map_of (s_credits s) i = Some c \<and> credit_key c = k)" for i k
    using C(1) [of i] C(2) [of i] by (fastforce simp: credit_key_def dest: uncl_eqD)
  then have "pools_ok s'" using I(3) by (simp add: pools_ok_def pool_def s')
  ultimately show ?thesis using I(1,4) by (simp add: store_inv_def s')
qed

lemma creditProgress_inv:
  assumes "store_inv s"
  shows "store_inv (snd (creditProgressLocked now s tr))"
    and "closes (s_credits s) (s_credits (snd (creditProgressLocked now s tr)))"
proof -
  let ?l = "progress_loop now (s_state s) tr (sort (map fst (d_Windows (s_state s))))
     (MaxPendingRecords - int (length (d_Pending (s_state s))) - int (length (d_Windows (s_state s)))) (s_credits s)"
  have "closes (s_credits s) (snd ?l)" "distinct_keys (snd ?l)"
    using progress_loop_closes live_okD(1) [OF store_invD(2) [OF assms]] by blast+
  then show "store_inv (snd (creditProgressLocked now s tr))"
    "closes (s_credits s) (s_credits (snd (creditProgressLocked now s tr)))"
    by (auto simp: creditProgressLocked_def Let_def case_prod_beta intro: store_inv_closes [OF assms])
qed

text \<open>The state that all progress events of a batch agree on.\<close>

definition same_frame :: "disk_state \<Rightarrow> disk_state \<Rightarrow> bool" where
  "same_frame d d' \<longleftrightarrow> d_Identity d' = d_Identity d \<and> d_Leases d' = d_Leases d
     \<and> d_Retired d' = d_Retired d \<and> d_Config d' = d_Config d"

lemma progress_step:
  assumes inv: "store_inv s" and w: "map_of (d_Windows (s_state s)) i = Some w"
    and c': "map_of (s_credits s) i = Some c'" "uncl c' = uncl c"
    and seq: "w_Sequence w + 1 \<noteq> 0" and room: "int (length (d_Pending (s_state s))) < MaxPendingRecords"
    and frame: "same_frame d (s_state s)"
  obtains s1 where "store_apply s (progress_event d w c close) = Inr s1" "store_inv s1"
    "\<And>l. spent s1 l = spent s l" "same_frame d (s_state s1)"
    "\<And>j. j \<noteq> i \<Longrightarrow> map_of (d_Windows (s_state s1)) j = map_of (d_Windows (s_state s)) j"
    "\<And>j. j \<noteq> i \<Longrightarrow> map_of (s_credits s1) j = map_of (s_credits s) j"
    "spool (s_state s1) \<le> spool (s_state s) + (if close then 0 else 1)"
    "\<And>j. has (d_Windows (s_state s1)) j \<longleftrightarrow> has (d_Windows (s_state s)) j \<and> \<not> (j = i \<and> close)"
    "map_of (d_Windows (s_state s1)) i = (if close then None
       else Some (w\<lparr>w_Closed := False, w_Sequence := w_Sequence w + 1, w_Confirmed := lc_used c\<rparr>))"
proof -
  note I = store_invD [OF inv]
  let ?e = "progress_event d w c close"
  let ?w = "w\<lparr>w_Closed := close, w_Sequence := w_Sequence w + 1, w_Confirmed := lc_used c\<rparr>"
  let ?d = "applyProgress (s_state s) ?w (e_Usage ?e)"
  let ?s = "live_progress ?w (s\<lparr>s_state := ?d\<rparr>)"
  have same: "lc_used c' = lc_used c" "lc_last c' = lc_last c" "lc_window c' = lc_window c"
    using uncl_eqD [OF c'(2)] by simp_all
  have win: "lc_window c' = w" using live_okD(2) [OF I(2) c'(1)] w by simp
  have id: "w_ID w = i" using ledger_invD(3) [OF I(1)] w by (auto simp: windows_wf_def)
  have cok: "credit_ok c" using live_okD(3) [OF I(2) c'(1)] same by (simp add: credit_ok_def)
  have ok: "progress_ok (s_state s) ?w (e_Usage ?e)"
    by (rule progress_event_ok [OF I(1) w cok _ seq room])
      (use frame win same in \<open>auto simp: same_frame_def lease_entitlement_def\<close>)
  have step: "store_apply s ?e = Inr ?s"
    by (rule store_apply_progress) (use ok in simp_all)
  have "live_admissible s ?e"
    using c'(1) id same by (simp add: live_admissible_def event_admissible_def progress_event_def event0_def Let_def)
  then have inv': "store_inv ?s" by (rule store_apply_inv [OF inv _ step])
  obtain old delta where adv: "advances (s_state s) ?w (e_Usage ?e) old delta"
    and delta: "delta = w_Confirmed ?w - w_Confirmed old"
    by (rule progress_advances [OF ok])
  have old: "old = w" using adv w id by (simp add: advances_def)
  have cr: "map_of (s_credits (s\<lparr>s_state := ?d\<rparr>)) (w_ID ?w) = Some c'" by (simp add: id c'(1))
  note creds = live_progress_credits [OF cr]
  have dk: "distinct_keys (s_credits s)" by (rule live_okD(1) [OF I(2)])
  have sp: "spent ?s l = spent s l" for l
    using applyProgress_used [OF adv, of l] delta old win same
    by (simp add: spent_def live_spent_def creds am.total_put [OF dk] am.total_del [OF dk] id c'(1))
  have len: "length (d_Windows ?d) \<le> length (d_Windows (s_state s))"
    "close \<Longrightarrow> length (d_Windows ?d) + 1 = length (d_Windows (s_state s))"
  proof -
    have "0 < length (d_Windows (s_state s))" using w by auto
    then show "length (d_Windows ?d) \<le> length (d_Windows (s_state s))"
      "close \<Longrightarrow> length (d_Windows ?d) + 1 = length (d_Windows (s_state s))"
      using w by (auto simp: applyProgress_windows id length_put length_del maps_wfD(4)
          [OF ledger_invD(1) [OF I(1)]] has_def)
  qed
  have pend: "length (d_Pending ?d) \<le> length (d_Pending (s_state s)) + 1"
    by (simp add: applyProgress_spent split: option.splits)
  have spool: "spool ?d \<le> spool (s_state s) + (if close then 0 else 1)"
    using len pend by (cases close) (auto simp: spool_def)
  show ?thesis
    by (rule that [OF step inv' sp])
      (use frame spool creds w in \<open>auto simp: same_frame_def applyProgress_windows id has_def\<close>)
qed

text \<open>The states between the events of one batch: the windows still to be visited are as they were
  when the batch was computed, and there is room for what the batch adds.\<close>

definition progress_ready :: "disk_state \<Rightarrow> (string, live_credit) gomap \<Rightarrow> string list \<Rightarrow> int \<Rightarrow> store \<Rightarrow> bool" where
  "progress_ready d cs ids room s \<longleftrightarrow> store_inv s \<and> same_frame d (s_state s) \<and> distinct ids
     \<and> (\<forall>i\<in>set ids. \<exists>w c c'. map_of (d_Windows d) i = Some w \<and> map_of (d_Windows (s_state s)) i = Some w
          \<and> map_of cs i = Some c \<and> map_of (s_credits s) i = Some c' \<and> uncl c' = uncl c
          \<and> w_Sequence w + 1 \<noteq> 0)
     \<and> spool (s_state s) + max 0 room \<le> MaxPendingRecords"

lemma progress_readyD:
  assumes "progress_ready d cs (i # ids) room s"
  obtains w c c' where "map_of (d_Windows d) i = Some w" "map_of (d_Windows (s_state s)) i = Some w"
    "map_of cs i = Some c" "map_of (s_credits s) i = Some c'" "uncl c' = uncl c" "w_Sequence w + 1 \<noteq> 0"
    "store_inv s" "same_frame d (s_state s)" "i \<notin> set ids" "spool (s_state s) + max 0 room \<le> MaxPendingRecords"
    "progress_ready d cs ids room s"
  using assms by (auto simp: progress_ready_def)

text \<open>\<open>settles d s es s'\<close>: the progress events \<open>es\<close>, each computed from the window as \<open>d\<close> has it and
  from its live credit, take the store \<open>s\<close> to \<open>s'\<close>.\<close>

inductive settles :: "disk_state \<Rightarrow> store \<Rightarrow> state_event list \<Rightarrow> store \<Rightarrow> bool" for d where
  settles_Nil: "store_inv s \<Longrightarrow> settles d s [] s"
| settles_Cons: "store_inv s \<Longrightarrow> map_of (d_Windows d) i = Some w \<Longrightarrow> map_of (d_Windows (s_state s)) i = Some w
    \<Longrightarrow> map_of (s_credits s) i = Some c' \<Longrightarrow> uncl c' = uncl c
    \<Longrightarrow> store_apply s (progress_event d w c cl) = Inr s1 \<Longrightarrow> settles d s1 es s'
    \<Longrightarrow> settles d s (progress_event d w c cl # es) s'"

lemma progress_loop_apply:
  assumes "progress_ready d cs ids room s"
  shows "\<exists>es cs' s'. progress_loop now d tr ids room cs = (Inr es, cs') \<and> apply_all s es = (None, s')
    \<and> store_inv s' \<and> (\<forall>l. spent s' l = spent s l) \<and> same_frame d (s_state s')
    \<and> spool (s_state s') \<le> MaxPendingRecords \<and> settles d s es s'"
  using assms
proof (induction ids arbitrary: cs room s)
  case Nil
  then show ?case by (auto simp: progress_ready_def intro: settles_Nil)
next
  case (Cons i ids)
  obtain w c c' where R: "map_of (d_Windows d) i = Some w" "map_of (d_Windows (s_state s)) i = Some w"
    "map_of cs i = Some c" "map_of (s_credits s) i = Some c'" "uncl c' = uncl c" "w_Sequence w + 1 \<noteq> 0"
    "store_inv s" "same_frame d (s_state s)" "i \<notin> set ids" "spool (s_state s) + max 0 room \<le> MaxPendingRecords"
    and tail: "progress_ready d cs ids room s"
    by (rule progress_readyD [OF Cons.prems])
  define cl where "cl = close_window now d tr w c"
  show ?case
  proof (cases "\<not> cl \<and> (lc_used c = w_Confirmed w \<or> room \<le> 0)")
    case True
    then have "progress_loop now d tr (i # ids) room cs = progress_loop now d tr ids room cs"
      by (simp add: R cl_def Let_def)
    with Cons.IH [OF tail] show ?thesis by metis
  next
    case False
    define cs1 where "cs1 = (if cl then put i (c\<lparr>lc_closed := True\<rparr>) cs else cs)"
    define room1 where "room1 = (if cl then room else room - 1)"
    have room: "int (length (d_Pending (s_state s))) < MaxPendingRecords"
      using R(10) by (intro pending_room [OF R(2)]) simp
    obtain s1 where s1: "store_apply s (progress_event d w c cl) = Inr s1" "store_inv s1"
      "\<And>l. spent s1 l = spent s l" "same_frame d (s_state s1)"
      "\<And>j. j \<noteq> i \<Longrightarrow> map_of (d_Windows (s_state s1)) j = map_of (d_Windows (s_state s)) j"
      "\<And>j. j \<noteq> i \<Longrightarrow> map_of (s_credits s1) j = map_of (s_credits s) j"
      "spool (s_state s1) \<le> spool (s_state s) + (if cl then 0 else 1)"
      by (rule progress_step [OF R(7,2,4,5,6) room R(8)]) blast
    have "progress_ready d cs1 ids room1 s1"
      unfolding progress_ready_def
    proof (intro conjI ballI)
      show "store_inv s1" "same_frame d (s_state s1)" by (rule s1)+
      show "distinct ids" using tail by (simp add: progress_ready_def)
      show "spool (s_state s1) + max 0 room1 \<le> MaxPendingRecords"
        using s1(7) R(10) False by (auto simp: room1_def split: if_splits)
      fix j assume j: "j \<in> set ids"
      then have "j \<noteq> i" using R(9) by auto
      with tail j s1(5,6) show "\<exists>w c c'. map_of (d_Windows d) j = Some w \<and> map_of (d_Windows (s_state s1)) j = Some w
          \<and> map_of cs1 j = Some c \<and> map_of (s_credits s1) j = Some c' \<and> uncl c' = uncl c \<and> w_Sequence w + 1 \<noteq> 0"
        by (fastforce simp: progress_ready_def cs1_def)
    qed
    from Cons.IH [OF this] obtain es cs' s' where IH: "progress_loop now d tr ids room1 cs1 = (Inr es, cs')"
      "apply_all s1 es = (None, s')" "store_inv s'" "\<forall>l. spent s' l = spent s1 l" "same_frame d (s_state s')"
      "spool (s_state s') \<le> MaxPendingRecords" "settles d s1 es s'" by blast
    have "progress_loop now d tr (i # ids) room cs = (Inr (progress_event d w c cl # es), cs')"
      using False IH(1) by (auto simp: R cl_def [symmetric] cs1_def [symmetric] room1_def [symmetric] Let_def)
    moreover have "apply_all s (progress_event d w c cl # es) = (None, s')"
      by (simp add: s1(1) IH(2))
    moreover have "settles d s (progress_event d w c cl # es) s'"
      by (rule settles_Cons [OF R(7,1,2,4,5) s1(1) IH(7)])
    ultimately show ?thesis using IH s1(3) by (metis)
  qed
qed

definition seq_room :: "store \<Rightarrow> bool" where
  "seq_room s \<longleftrightarrow> (\<forall>i w. map_of (d_Windows (s_state s)) i = Some w \<longrightarrow> w_Sequence w + 1 \<noteq> 0)"

lemma distinct_window_ids: "ledger_inv d \<Longrightarrow> distinct (sort (map fst (d_Windows d)))"
  using maps_wfD(4) by (fastforce simp: distinct_keys_def)

lemma same_frame_refl [simp]: "same_frame d d"
  by (simp add: same_frame_def)

lemma closes_dom: "closes cs cs' \<Longrightarrow> dom (map_of cs') = dom (map_of cs)"
  using closesD by (simp add: dom_def) blast

lemma closes_live_spent:
  assumes cl: "closes (s_credits s) (s_credits s1)"
    and d: "distinct_keys (s_credits s)" "distinct_keys (s_credits s1)"
  shows "live_spent s1 l = live_spent s l"
  unfolding live_spent_def am.total_dom [OF d(1)] am.total_dom [OF d(2)] closes_dom [OF cl]
proof (rule sum.cong [OF refl])
  fix k assume "k \<in> dom (map_of (s_credits s))"
  then obtain c where c: "map_of (s_credits s) k = Some c" by auto
  obtain c' where c': "map_of (s_credits s1) k = Some c'" "uncl c' = uncl c" using closesD(2) [OF cl c] by auto
  show "(if w_LeaseID (lc_window (the (map_of (s_credits s1) k))) = l
        then lc_used (the (map_of (s_credits s1) k)) - w_Confirmed (lc_window (the (map_of (s_credits s1) k))) else 0)
      = (if w_LeaseID (lc_window (the (map_of (s_credits s) k))) = l
        then lc_used (the (map_of (s_credits s) k)) - w_Confirmed (lc_window (the (map_of (s_credits s) k))) else 0)"
    using uncl_eqD [OF c'(2)] by (simp add: c c'(1))
qed

text \<open>Settling the windows always succeeds: the batch applies as a whole, no byte is lost or
  invented, and the spool stays within its bound.\<close>

lemma creditProgress_applies:
  assumes inv: "store_inv s" and seq: "seq_room s" and spool: "spool (s_state s) \<le> MaxPendingRecords"
  obtains es s1 s2 where "creditProgressLocked now s tr = (Inr es, s1)" "store_inv s1" "s_state s1 = s_state s"
    "apply_all s1 es = (None, s2)" "store_inv s2" "\<And>l. spent s2 l = spent s l"
    "same_frame (s_state s) (s_state s2)" "spool (s_state s2) \<le> MaxPendingRecords"
    "settles (s_state s) s1 es s2" "closes (s_credits s) (s_credits s1)"
proof -
  let ?d = "s_state s"
  let ?room = "MaxPendingRecords - int (length (d_Pending ?d)) - int (length (d_Windows ?d))"
  let ?ids = "sort (map fst (d_Windows ?d))"
  obtain res s1 where s1: "creditProgressLocked now s tr = (res, s1)" by fastforce
  have st: "s_state s1 = ?d"
    using s1 by (auto simp: creditProgressLocked_def Let_def split: prod.splits)
  note C = creditProgress_inv [OF inv, of now tr, unfolded s1 snd_conv]
  have ids: "map_of (d_Windows ?d) i \<noteq> None" if "i \<in> set ?ids" for i
    using that by (auto simp: map_of_eq_None_iff)
  have "progress_ready ?d (s_credits s) ?ids ?room s1"
    unfolding progress_ready_def
  proof (intro conjI ballI)
    show "store_inv s1" by (rule C)
    show "same_frame ?d (s_state s1)" by (simp add: st)
    show "distinct ?ids" by (rule distinct_window_ids [OF store_invD(1) [OF inv]])
    show "spool (s_state s1) + max 0 ?room \<le> MaxPendingRecords" using spool by (simp add: st spool_def)
    fix i assume "i \<in> set ?ids"
    then obtain w where w: "map_of (d_Windows ?d) i = Some w" using ids by fastforce
    obtain c where c: "map_of (s_credits s) i = Some c" using live_okD(4) [OF store_invD(2) [OF inv] w] by auto
    obtain c' where "map_of (s_credits s1) i = Some c'" "uncl c' = uncl c" using closesD(2) [OF C(2) c] by auto
    with w c seq show "\<exists>w c c'. map_of (d_Windows ?d) i = Some w \<and> map_of (d_Windows (s_state s1)) i = Some w
        \<and> map_of (s_credits s) i = Some c \<and> map_of (s_credits s1) i = Some c' \<and> uncl c' = uncl c
        \<and> w_Sequence w + 1 \<noteq> 0"
      by (auto simp: st seq_room_def)
  qed
  from progress_loop_apply [OF this, of now tr] obtain es cs' s2 where
    L: "progress_loop now ?d tr ?ids ?room (s_credits s) = (Inr es, cs')" "apply_all s1 es = (None, s2)"
    "store_inv s2" "\<forall>l. spent s2 l = spent s1 l" "same_frame ?d (s_state s2)" "spool (s_state s2) \<le> MaxPendingRecords"
    "settles ?d s1 es s2"
    by blast
  have "res = Inr es" using s1 L(1) by (auto simp: creditProgressLocked_def Let_def)
  moreover have "spent s1 l = spent s l" for l
    using closes_live_spent [OF C(2) live_okD(1) live_okD(1)] store_invD(2) [OF inv] store_invD(2) [OF C(1)]
    by (simp add: spent_def st)
  ultimately show ?thesis using that [OF _ C(1) st L(2,3) _ L(5,6,7) C(2)] s1 L(4) by simp
qed

end
