(* ===== verification/Store_Reserve.thy ===== *)
theory Store_Reserve
  imports Store_Inv
begin

text \<open>
  Reservations are computed against the state before the batch, with corrections for the events
  staged so far (\<open>reserveCreditLocked\<close>). Here it is shown that these corrections are exact: a
  reservation that is issued is accepted by \<open>validateCreditEvent\<close> once the staged events have been
  applied, provided its start precedes its deadline and its random identifier is new. Hence a
  credit batch, once synced to the log, always applies as a whole.
\<close>

section \<open>Totals after staged events\<close>

definition keyed :: "(credit_window \<Rightarrow> bool) \<Rightarrow> bool" where
  "keyed P \<longleftrightarrow> (\<forall>w w'. w_RuleID w = w_RuleID w' \<longrightarrow> w_UserID w = w_UserID w' \<longrightarrow> w_Upload w = w_Upload w'
     \<longrightarrow> w_LeaseID w = w_LeaseID w' \<longrightarrow> P w = P w')"

lemma keyedI [simp]:
  "keyed (\<lambda>w. w_RuleID w = r)" "keyed (\<lambda>w. w_UserID w = u)" "keyed (\<lambda>w. w_LeaseID w = l)"
  "keyed (\<lambda>w. w_RuleID w = r \<and> w_Upload w = b)"
  "keyed (\<lambda>w. w_RuleID w = r \<and> w_Upload w = b \<and> w_LeaseID w = l)"
  by (auto simp: keyed_def)

text \<open>\<open>tracks d es s s'\<close>: the sums that \<open>reserveCreditLocked\<close> computes from \<open>d\<close> and \<open>es\<close> are the true
  sums of \<open>s'\<close> (for the lease budget, an upper bound).\<close>

definition tracks :: "disk_state \<Rightarrow> state_event list \<Rightarrow> store \<Rightarrow> store \<Rightarrow> bool" where
  "tracks d es s s' \<longleftrightarrow>
     (\<forall>P. keyed P \<longrightarrow> win_total P (s_state s') = win_total P (s_state s) + sum_list (map (staged_delta d P) es)
        \<and> win_count P (s_state s') = win_count P (s_state s) + sum_list (map (staged_count d P) es))
     \<and> (\<forall>i. look0 (d_Used (s_state s')) i + creditLiability (s_state s') i
          \<le> look0 (d_Used (s_state s)) i + creditLiability (s_state s) i
             + sum_list (map (staged_reserved i) es))
     \<and> spool (s_state s') \<le> spool (s_state s) + int (length es)
     \<and> d_Retired (s_state s') = d_Retired (s_state s) \<and> d_Config (s_state s') = d_Config (s_state s)
     \<and> (\<forall>i. has (d_Windows (s_state s')) i \<longrightarrow> has (d_Windows (s_state s)) i
          \<or> (\<exists>e\<in>set es. \<exists>w. e_Kind e = ''credit_reserve'' \<and> e_Window e = Some w \<and> w_ID w = i))"

lemma tracksD:
  assumes "tracks d es s s'"
  shows "keyed P \<Longrightarrow> win_total P (s_state s') = win_total P (s_state s) + sum_list (map (staged_delta d P) es)"
    "keyed P \<Longrightarrow> win_count P (s_state s') = win_count P (s_state s) + sum_list (map (staged_count d P) es)"
    "look0 (d_Used (s_state s')) i + creditLiability (s_state s') i
      \<le> look0 (d_Used (s_state s)) i + creditLiability (s_state s) i + sum_list (map (staged_reserved i) es)"
    "spool (s_state s') \<le> spool (s_state s) + int (length es)"
    "d_Retired (s_state s') = d_Retired (s_state s)" "d_Config (s_state s') = d_Config (s_state s)"
    "has (d_Windows (s_state s')) i \<Longrightarrow> has (d_Windows (s_state s)) i
      \<or> (\<exists>e\<in>set es. \<exists>w. e_Kind e = ''credit_reserve'' \<and> e_Window e = Some w \<and> w_ID w = i)"
  using assms unfolding tracks_def by blast+

lemma progress_event_staged:
  assumes "map_of (d_Windows d) i = Some w" "w_ID w = i" "keyed P"
  shows "staged_delta d P (progress_event d w c cl)
      = (if P w then - (if cl then left w else lc_used c - w_Confirmed w) else 0)"
    "staged_count d P (progress_event d w c cl) = (if P w \<and> cl then - 1 else 0)"
    "staged_reserved l (progress_event d w c cl) = 0"
    "e_Lease (progress_event d w c cl) = None"
proof -
  have "P (w\<lparr>w_Closed := cl, w_Sequence := w_Sequence w + 1, w_Confirmed := lc_used c\<rparr>) = P w"
    using assms(3) unfolding keyed_def
    by (elim allE [of _ "w\<lparr>w_Closed := cl, w_Sequence := w_Sequence w + 1, w_Confirmed := lc_used c\<rparr>"]
        allE [of _ w]) simp
  then show "staged_delta d P (progress_event d w c cl)
      = (if P w then - (if cl then left w else lc_used c - w_Confirmed w) else 0)"
    "staged_count d P (progress_event d w c cl) = (if P w \<and> cl then - 1 else 0)"
    using assms(1,2) by (auto simp: staged_delta_def staged_count_def released_def left_def has_def)
  show "staged_reserved l (progress_event d w c cl) = 0" "e_Lease (progress_event d w c cl) = None"
    by (simp_all add: staged_reserved_def progress_event_def Let_def event0_def)
qed

lemma tracks_progress:
  assumes inv: "store_inv s" and w: "map_of (d_Windows d) i = Some w" "map_of (d_Windows (s_state s)) i = Some w"
    and step: "store_apply s (progress_event d w c cl) = Inr s1" and rest: "tracks d es s1 s'"
  shows "tracks d (progress_event d w c cl # es) s s'"
proof -
  let ?e = "progress_event d w c cl"
  let ?w = "w\<lparr>w_Closed := cl, w_Sequence := w_Sequence w + 1, w_Confirmed := lc_used c\<rparr>"
  note I = store_invD [OF inv]
  have id: "w_ID w = i" using ledger_invD(3) [OF I(1)] w(2) by (auto simp: windows_wf_def)
  have dk: "distinct_keys (d_Windows (s_state s))" by (rule maps_wfD(4) [OF ledger_invD(1) [OF I(1)]])
  have ok: "progress_ok (s_state s) ?w (e_Usage ?e)" and s1: "s_state s1 = applyProgress (s_state s) ?w (e_Usage ?e)"
    using step by (auto elim!: store_apply_progressD [rotated])
  obtain old delta where adv: "advances (s_state s) ?w (e_Usage ?e) old delta"
    and delta: "delta = w_Confirmed ?w - w_Confirmed old"
    by (rule progress_advances [OF ok])
  have old: "old = w" using adv w(2) id by (simp add: advances_def)
  have P: "win_total P (s_state s1) = win_total P (s_state s) + staged_delta d P ?e"
    "win_count P (s_state s1) = win_count P (s_state s) + staged_count d P ?e" if "keyed P" for P
  proof -
    have eq: "P ?w = P old"
      using that unfolding keyed_def old by (elim allE [of _ ?w] allE [of _ w]) simp
    show "win_total P (s_state s1) = win_total P (s_state s) + staged_delta d P ?e"
      "win_count P (s_state s1) = win_count P (s_state s) + staged_count d P ?e"
      using applyProgress_liability [where P = P, OF dk adv eq] eq old delta
      by (simp_all add: s1 progress_event_staged(1,2) [OF w(1) id that])
  qed
  have B: "look0 (d_Used (s_state s1)) j + creditLiability (s_state s1) j
      \<le> look0 (d_Used (s_state s)) j + creditLiability (s_state s) j" for j
    using applyProgress_used [OF adv, of j] P(1) [of "\<lambda>v. w_LeaseID v = j"] adv delta old
      progress_event_staged(1) [OF w(1) id, of "\<lambda>v. w_LeaseID v = j" c cl]
    by (simp add: s1 creditLiability_def advances_def split: if_splits)
  have "length (d_Windows (s_state s1)) \<le> length (d_Windows (s_state s))"
    using w(2) length_del_le [of i] by (auto simp: s1 applyProgress_windows id length_put has_def)
  moreover have "length (d_Pending (s_state s1)) \<le> length (d_Pending (s_state s)) + 1"
    by (simp add: s1 applyProgress_spent split: option.splits)
  ultimately have S: "spool (s_state s1) \<le> spool (s_state s) + 1" by (simp add: spool_def)
  have W: "has (d_Windows (s_state s1)) j \<Longrightarrow> has (d_Windows (s_state s)) j" for j
    using w(2) by (auto simp: s1 applyProgress_windows id has_def split: if_splits)
  have R: "d_Retired (s_state s1) = d_Retired (s_state s)" "d_Config (s_state s1) = d_Config (s_state s)"
    by (simp_all add: s1 applyProgress_windows)
  show ?thesis
    unfolding tracks_def
  proof (intro conjI allI impI)
    fix P assume "keyed P"
    then show "win_total P (s_state s') = win_total P (s_state s) + sum_list (map (staged_delta d P) (?e # es))"
      "win_count P (s_state s') = win_count P (s_state s) + sum_list (map (staged_count d P) (?e # es))"
      using rest P by (simp_all add: tracks_def)
  next
    fix j
    show "look0 (d_Used (s_state s')) j + creditLiability (s_state s') j
        \<le> look0 (d_Used (s_state s)) j + creditLiability (s_state s) j
          + sum_list (map (staged_reserved j) (?e # es))"
      using tracksD(3) [OF rest, of j] B [of j] progress_event_staged(3) [OF w(1) id keyedI(1)]
      by simp
  next
    show "spool (s_state s') \<le> spool (s_state s) + int (length (?e # es))"
      using rest S by (simp add: tracks_def)
    show "d_Retired (s_state s') = d_Retired (s_state s)" "d_Config (s_state s') = d_Config (s_state s)"
      using rest R by (simp_all add: tracks_def)
  next
    fix j assume "has (d_Windows (s_state s')) j"
    then show "has (d_Windows (s_state s)) j
        \<or> (\<exists>e\<in>set (?e # es). \<exists>w. e_Kind e = ''credit_reserve'' \<and> e_Window e = Some w \<and> w_ID w = j)"
      using rest W by (fastforce simp: tracks_def)
  qed
qed

lemma tracks_refl: "tracks d [] s s"
  by (simp add: tracks_def)

lemma settles_tracks: "settles d s es s' \<Longrightarrow> tracks d es s s'"
  by (induction rule: settles.induct) (auto intro: tracks_refl tracks_progress)

lemma tracks_reserve:
  assumes inv: "store_inv s1" and tr: "tracks d es s s1"
    and e: "e_Kind e = ''credit_reserve''" "store_apply s1 e = Inr s2"
  shows "tracks d (es @ [e]) s s2"
proof -
  note I = store_invD [OF inv]
  obtain w l where w: "e_Window e = Some w" "e_Lease e = Some l" "reserve_ok (s_state s1) w l"
    "s2 = live_reserve w (s1\<lparr>s_state := applyReserve (s_state s1) w l\<rparr>)"
    by (rule store_apply_reserveD [OF e])
  note R = reserve_okD [OF w(3)]
  note wt = win_total_reserve [OF maps_wfD(4) [OF ledger_invD(1) [OF I(1)]] R(2)]
  have st: "s_state s2 = applyReserve (s_state s1) w l" by (simp add: w(4))
  have cap: "left w = w_Capacity w" using R(3) by (simp add: left_def)
  have ev: "staged_delta d P e = weigh P w" "staged_count d P e = tally P w"
    "staged_reserved i e = weigh (\<lambda>v. w_LeaseID v = i) w" for P i
    using e(1) w(1) cap by (simp_all add: staged_delta_def staged_count_def staged_reserved_def weigh_def tally_def)
  have other: "d_Retired (s_state s2) = d_Retired (s_state s1)" "d_Config (s_state s2) = d_Config (s_state s1)"
    "d_Used (s_state s2) = d_Used (s_state s1)" "spool (s_state s2) = spool (s_state s1) + 1"
    using R(2) by (simp_all add: st applyReserve_def spool_def length_put)
  show ?thesis
    unfolding tracks_def
  proof (intro conjI allI impI)
    fix P assume "keyed P"
    then show "win_total P (s_state s2) = win_total P (s_state s) + sum_list (map (staged_delta d P) (es @ [e]))"
      "win_count P (s_state s2) = win_count P (s_state s) + sum_list (map (staged_count d P) (es @ [e]))"
      using tr by (simp_all add: tracks_def st wt ev)
  next
    fix i
    show "look0 (d_Used (s_state s2)) i + creditLiability (s_state s2) i
        \<le> look0 (d_Used (s_state s)) i + creditLiability (s_state s) i + sum_list (map (staged_reserved i) (es @ [e]))"
      using tracksD(3) [OF tr, of i] wt(1) [of "\<lambda>v. w_LeaseID v = i" l] ev(3) [of i] other(3)
      by (simp add: creditLiability_def st)
  next
    show "spool (s_state s2) \<le> spool (s_state s) + int (length (es @ [e]))"
      "d_Retired (s_state s2) = d_Retired (s_state s)" "d_Config (s_state s2) = d_Config (s_state s)"
      using tr other by (simp_all add: tracks_def)
  next
    fix i assume "has (d_Windows (s_state s2)) i"
    then have "has (d_Windows (s_state s1)) i \<or> i = w_ID w" by (auto simp: st applyReserve_def)
    then show "has (d_Windows (s_state s)) i
        \<or> (\<exists>e'\<in>set (es @ [e]). \<exists>w. e_Kind e' = ''credit_reserve'' \<and> e_Window e' = Some w \<and> w_ID w = i)"
      using tr w(1) e(1) by (fastforce simp: tracks_def)
  qed
qed

section \<open>The lease history after staged events\<close>

definition staged_leases :: "state_event list \<Rightarrow> lease option list" where
  "staged_leases es = map e_Lease es"

definition lease_names :: "lease option list \<Rightarrow> string set" where
  "lease_names ls = {l_ID l | l. Some l \<in> set ls}"

lemma lease_names_simps [simp]:
  "lease_names [] = {}" "lease_names (None # ls) = lease_names ls"
  "lease_names (Some l # ls) = insert (l_ID l) (lease_names ls)"
  by (auto simp: lease_names_def)

lemma finite_lease_names [simp]: "finite (lease_names ls)"
proof (induction ls)
  case (Cons lo ls)
  then show ?case by (cases lo) auto
qed simp

lemma count_new_card:
  "count_new_leases m seen ls = int (card (lease_names ls - dom (map_of m) - set seen))"
proof (induction m seen ls rule: count_new_leases.induct)
  case (3 m seen l ls)
  have split: "insert (l_ID l) (lease_names ls) - dom (map_of m) - set seen
      = insert (l_ID l) (lease_names ls - dom (map_of m) - set (l_ID l # seen))"
    if "l_ID l \<notin> dom (map_of m)" "l_ID l \<notin> set seen" using that by auto
  have same: "insert (l_ID l) (lease_names ls) - dom (map_of m) - set seen = lease_names ls - dom (map_of m) - set seen"
    if "l_ID l \<in> dom (map_of m) \<or> l_ID l \<in> set seen" using that by auto
  show ?case
  proof (cases "\<not> has m (l_ID l) \<and> l_ID l \<notin> set seen")
    case True
    then have "count_new_leases m seen (Some l # ls) = 1 + count_new_leases m (l_ID l # seen) ls" by simp
    also have "\<dots> = int (card (insert (l_ID l) (lease_names ls - dom (map_of m) - set (l_ID l # seen))))"
      using 3(1) [OF True] by simp
    finally show ?thesis using split True by (auto simp: has_def domIff)
  next
    case False
    then show ?thesis using 3(2) same by (auto simp: has_def domIff)
  qed
qed simp_all

lemma lease_capacity_card:
  assumes "distinct_keys (d_Leases d)"
  shows "validateLeaseCapacity d ls = None
    \<longleftrightarrow> int (card (dom (map_of (d_Leases d)) \<union> lease_names ls)) \<le> maxRetainedLeases"
proof -
  have "length (d_Leases d) = card (dom (map_of (d_Leases d)))"
    using assms distinct_card [of "map fst (d_Leases d)"]
    by (simp add: distinct_keys_def dom_map_of_conv_image_fst)
  moreover have "card (dom (map_of (d_Leases d)) \<union> lease_names ls)
      = card (dom (map_of (d_Leases d))) + card (lease_names ls - dom (map_of (d_Leases d)))"
    by (subst card_Un_disjoint [symmetric]) (auto simp: finite_dom_map_of)
  ultimately show ?thesis by (simp add: validateLeaseCapacity_def count_new_card)
qed

definition leases_track :: "disk_state \<Rightarrow> state_event list \<Rightarrow> disk_state \<Rightarrow> bool" where
  "leases_track d es d' \<longleftrightarrow> dom (map_of (d_Leases d')) \<subseteq> dom (map_of (d_Leases d)) \<union> lease_names (staged_leases es)
     \<and> dom (map_of (d_Leases d)) \<subseteq> dom (map_of (d_Leases d'))
     \<and> (\<forall>i old l. map_of (d_Leases d) i = Some old \<longrightarrow> map_of (d_Leases d') i = Some l \<longrightarrow> sameLease old l)"

lemma sameLease_refl [simp]: "sameLease l l"
  by (simp add: sameLease_def)

lemma sameLease_trans: "sameLease a b \<Longrightarrow> sameLease b c \<Longrightarrow> sameLease a c"
  by (simp add: sameLease_def)

lemma leases_track_frame: "same_frame d d' \<Longrightarrow> leases_track d es d'"
  by (auto simp: leases_track_def same_frame_def)

lemma leases_track_reserve:
  assumes tr: "leases_track d es (s_state s1)"
    and e: "e_Kind e = ''credit_reserve''" "store_apply s1 e = Inr s2"
  shows "leases_track d (es @ [e]) (s_state s2)"
proof -
  obtain w l where w: "e_Lease e = Some l" "reserve_ok (s_state s1) w l"
    "s2 = live_reserve w (s1\<lparr>s_state := applyReserve (s_state s1) w l\<rparr>)"
    using e by (auto elim: store_apply_reserveD)
  note R = reserve_okD [OF w(2)]
  have st: "d_Leases (s_state s2) = put (w_LeaseID w) l (d_Leases (s_state s1))"
    by (simp add: w(3) applyReserve_def)
  have names: "lease_names (staged_leases (es @ [e])) = insert (w_LeaseID w) (lease_names (staged_leases es))"
    using R(5) w(1) by (auto simp: staged_leases_def lease_names_def)
  have "sameLease old l'" if old: "map_of (d_Leases d) i = Some old" and l': "map_of (d_Leases (s_state s2)) i = Some l'" for i old l'
  proof (cases "i = w_LeaseID w")
    case False
    with l' have "map_of (d_Leases (s_state s1)) i = Some l'" by (simp add: st)
    with tr old show ?thesis by (auto simp: leases_track_def)
  next
    case True
    then have l: "l' = l" using l' by (simp add: st)
    show ?thesis
    proof (cases "map_of (d_Leases (s_state s1)) i")
      case None
      then show ?thesis using tr old by (auto simp: leases_track_def)
    next
      case (Some l1)
      then have "sameLease old l1" "sameLease l1 l"
        using tr old R(6) True by (auto simp: leases_track_def)
      then show ?thesis using l by (auto intro: sameLease_trans)
    qed
  qed
  with tr names show ?thesis by (auto simp: leases_track_def st)
qed

section \<open>An issued reservation is accepted\<close>

lemma availableLockedD:
  assumes "availableLocked now s r until n = None" "r_Lease r = Some l"
  shows "\<not> s_failed s" "now < until" "now < l_ExpiresAt l" "\<not> has (d_Retired (s_state s)) (l_ID l)"
    "\<And>old. map_of (d_Leases (s_state s)) (l_ID l) = Some old \<Longrightarrow> sameLease old l"
    "0 < l_Bytes l" "look0 (d_Used (s_state s)) (l_ID l) < l_Bytes l"
    "n \<le> l_Bytes l - look0 (d_Used (s_state s)) (l_ID l) - creditLiability (s_state s) (l_ID l)"
    "spool (s_state s) < MaxPendingRecords"
  using assms by (auto simp: availableLocked_def split: if_splits option.splits)

lemma reserve_okI:
  assumes "window_shape w" "\<not> has (d_Windows d) (w_ID w)" "w_Confirmed w = 0" "w_Sequence w = 0" "\<not> w_Closed w"
    "w_LeaseID w = l_ID l"
    "\<And>old. map_of (d_Leases d) (w_LeaseID w) = Some old \<Longrightarrow> sameLease old l"
    "\<not> has (d_Retired d) (w_LeaseID w)" "validateLeaseCapacity d [Some l] = None"
    "win_count (\<lambda>v. w_RuleID v = w_RuleID w \<and> w_Upload v = w_Upload w) d < 2"
    "w_Capacity w \<le> snd (window_limits w) - win_total (\<lambda>v. w_RuleID v = w_RuleID w) d"
    "w_Capacity w \<le> maxAccountCredits - win_total (\<lambda>v. w_UserID v = w_UserID w) d"
    "w_Capacity w \<le> l_Bytes l - look0 (d_Used d) (w_LeaseID w) - creditLiability d (w_LeaseID w)"
    "w_Until w \<le> l_ExpiresAt l" "spool d < MaxPendingRecords"
  shows "reserve_ok d w l"
proof -
  have "\<not> (case map_of (d_Leases d) (w_LeaseID w) of None \<Rightarrow> False | Some old \<Rightarrow> \<not> sameLease old l)"
    using assms(7) by (auto split: option.splits)
  with assms(1-6,8-) show ?thesis
    unfolding reserve_ok_def validateCreditReserve_def option.case if_not_P by (simp add: Let_def)
qed

lemma reserveCreditD:
  assumes "reserveCreditLocked t s q es = Inr (Some e)"
  obtains r until l i where
    "availableLocked (t_now t) s r until 0 = None" "r_Lease r = Some l"
    "validateLeaseCapacity (s_state s) (Some l # staged_leases es) = None"
    "spool (s_state s) + int (length es) < MaxPendingRecords"
    "win_count (\<lambda>w. w_RuleID w = r_ID r \<and> w_Upload w = q_upload q) (s_state s)
       + sum_list (map (staged_count (s_state s) (\<lambda>w. w_RuleID w = r_ID r \<and> w_Upload w = q_upload q)) es) < 2"
    "0 < reserve_capacity s q r l es" "t_id t = Some i"
    "e = event0\<lparr>e_Kind := ''credit_reserve'',
               e_Window := Some \<lparr>w_ID = i, w_UserID = limitOwner r, w_RuleID = r_ID r,
                 w_LeaseID = l_ID l, w_Upload = q_upload q, w_Capacity = reserve_capacity s q r l es, w_Confirmed = 0,
                 w_Sequence = 0, w_StartedAt = t_stamp t, w_Until = minTime until [l_ExpiresAt l],
                 w_Closed = False, w_TCP = (r_Network r = ''tcp'')\<rparr>,
               e_Lease := Some l\<rparr>"
    "r_ID r = r_ID (q_rule q)"
proof -
  obtain r0 until where cur: "current_rule s q = Some (r0, until)"
    using assms by (auto simp: reserveCreditLocked_def split: option.splits)
  define r where "r = pick_lease (t_now t) s r0 until (q_n q) es"
  have av: "availableLocked (t_now t) s r until 0 = None"
    using assms by (auto simp: reserveCreditLocked_def cur r_def Let_def split: option.splits)
  then obtain l where l: "r_Lease r = Some l"
    by (auto simp: availableLocked_def split: if_splits option.splits)
  have id: "r_ID r = r_ID (q_rule q)"
    using cur by (auto simp: r_def pick_lease_def current_rule_def Let_def find_Some_iff split: option.splits if_splits)
  show ?thesis
    using assms that [of r until l] av l id
    by (auto simp: reserveCreditLocked_def cur r_def [symmetric] staged_leases_def Let_def not_le
        split: option.splits if_splits)
qed

text \<open>The computed capacity respects every bound that the ledger enforces.\<close>

lemma reserve_limits_le:
  "fst (reserve_limits s q r l) \<le> (if r_Network r = ''tcp'' then maxTCPCreditWindow else creditWindowSize)"
  "snd (reserve_limits s q r l) \<le> (if r_Network r = ''tcp'' then maxTCPRuleCredits else maxRuleCredits)"
  by (auto simp: reserve_limits_def ledger_consts min_le_iff_disj)

lemma reserve_capacity_bounds:
  fixes s q r l es
  defines "cap \<equiv> reserve_capacity s q r l es"
  shows "cap \<le> (if r_Network r = ''tcp'' then maxTCPCreditWindow else creditWindowSize)"
    "cap \<le> (if r_Network r = ''tcp'' then maxTCPRuleCredits else maxRuleCredits)
       - staged_total s (\<lambda>w. w_RuleID w = r_ID r) es"
    "cap \<le> maxAccountCredits - staged_total s (\<lambda>w. w_UserID w = limitOwner r) es"
    "cap \<le> l_Bytes l - look0 (d_Used (s_state s)) (l_ID l) - creditLiability (s_state s) (l_ID l)
       - sum_list (map (staged_reserved (l_ID l)) es)"
proof -
  have "cap \<le> base_capacity s q r l es"
    by (simp add: cap_def reserve_capacity_def Let_def)
  then have "cap \<le> fst (reserve_limits s q r l)"
    "cap \<le> snd (reserve_limits s q r l) - staged_total s (\<lambda>w. w_RuleID w = r_ID r) es"
    "cap \<le> maxAccountCredits - staged_total s (\<lambda>w. w_UserID w = limitOwner r) es"
    "cap \<le> l_Bytes l - look0 (d_Used (s_state s)) (l_ID l) - creditLiability (s_state s) (l_ID l)
       - sum_list (map (staged_reserved (l_ID l)) es)"
    by (simp_all add: base_capacity_def)
  with reserve_limits_le [of s q r l] show
    "cap \<le> (if r_Network r = ''tcp'' then maxTCPCreditWindow else creditWindowSize)"
    "cap \<le> (if r_Network r = ''tcp'' then maxTCPRuleCredits else maxRuleCredits)
       - staged_total s (\<lambda>w. w_RuleID w = r_ID r) es"
    "cap \<le> maxAccountCredits - staged_total s (\<lambda>w. w_UserID w = limitOwner r) es"
    "cap \<le> l_Bytes l - look0 (d_Used (s_state s)) (l_ID l) - creditLiability (s_state s) (l_ID l)
       - sum_list (map (staged_reserved (l_ID l)) es)"
    by linarith+
qed

definition stamp_ok :: "tick \<Rightarrow> state_event \<Rightarrow> bool" where
  "stamp_ok t e \<longleftrightarrow> t_stamp t \<noteq> 0 \<and> (case e_Window e of None \<Rightarrow> True | Some w \<Rightarrow> t_stamp t < w_Until w)"

definition fresh_id :: "tick \<Rightarrow> store \<Rightarrow> state_event list \<Rightarrow> bool" where
  "fresh_id t s es \<longleftrightarrow> (case t_id t of None \<Rightarrow> True | Some i \<Rightarrow> length i = 32 \<and> \<not> has (d_Windows (s_state s)) i
     \<and> list_all (\<lambda>e. case e_Window e of None \<Rightarrow> True | Some w \<Rightarrow> w_ID w \<noteq> i) es)"

definition lease_known :: "store \<Rightarrow> state_event \<Rightarrow> bool" where
  "lease_known s e \<longleftrightarrow> (case e_Lease e of None \<Rightarrow> True | Some l \<Rightarrow> has (d_Leases (s_state s)) (l_ID l))"

lemma limitOwner_nonempty [simp]: "limitOwner r \<noteq> []"
  by (simp add: limitOwner_def)

lemma reserve_accepted:
  assumes inv: "store_inv s'" and tr: "tracks (s_state s) es s s'" and lt: "leases_track (s_state s) es (s_state s')"
    and maps: "distinct_keys (d_Leases (s_state s))"
    and R: "reserveCreditLocked t s q es = Inr (Some e)"
    and fresh: "fresh_id t s es" and stamp: "stamp_ok t e" and known: "lease_known s e"
    and rule: "r_ID (q_rule q) \<noteq> []"
  obtains w l s'' where "e_Window e = Some w" "e_Lease e = Some l" "reserve_ok (s_state s') w l"
    "e_Kind e = ''credit_reserve''" "store_apply s' e = Inr s''"
proof -
  obtain r until l i where av: "availableLocked (t_now t) s r until 0 = None" and l: "r_Lease r = Some l"
    and capy: "validateLeaseCapacity (s_state s) (Some l # staged_leases es) = None"
    and room: "spool (s_state s) + int (length es) < MaxPendingRecords"
    and count: "win_count (\<lambda>w. w_RuleID w = r_ID r \<and> w_Upload w = q_upload q) (s_state s)
       + sum_list (map (staged_count (s_state s) (\<lambda>w. w_RuleID w = r_ID r \<and> w_Upload w = q_upload q)) es) < 2"
    and cap: "0 < reserve_capacity s q r l es" and i: "t_id t = Some i"
    and e: "e = event0\<lparr>e_Kind := ''credit_reserve'',
               e_Window := Some \<lparr>w_ID = i, w_UserID = limitOwner r, w_RuleID = r_ID r,
                 w_LeaseID = l_ID l, w_Upload = q_upload q, w_Capacity = reserve_capacity s q r l es, w_Confirmed = 0,
                 w_Sequence = 0, w_StartedAt = t_stamp t, w_Until = minTime until [l_ExpiresAt l],
                 w_Closed = False, w_TCP = (r_Network r = ''tcp'')\<rparr>,
               e_Lease := Some l\<rparr>"
    and rid: "r_ID r = r_ID (q_rule q)"
    by (rule reserveCreditD [OF R])
  note A = availableLockedD [OF av l]
  define w where "w = \<lparr>w_ID = i, w_UserID = limitOwner r, w_RuleID = r_ID r,
                 w_LeaseID = l_ID l, w_Upload = q_upload q, w_Capacity = reserve_capacity s q r l es, w_Confirmed = 0,
                 w_Sequence = 0, w_StartedAt = t_stamp t, w_Until = minTime until [l_ExpiresAt l],
                 w_Closed = False, w_TCP = (r_Network r = ''tcp'')\<rparr>"
  have ew: "e_Window e = Some w" "e_Lease e = Some l" "e_Kind e = ''credit_reserve''"
    by (simp_all add: e w_def)
  have wl: "window_limits w = (if r_Network r = ''tcp'' then (maxTCPCreditWindow, maxTCPRuleCredits)
      else (creditWindowSize, maxRuleCredits))"
    by (simp add: w_def window_limits_def)
  note B = reserve_capacity_bounds [of s q r l es, unfolded staged_total_def]
  have len: "length i = 32" and nw: "\<not> has (d_Windows (s_state s)) i"
    and ne: "\<And>e' w'. e' \<in> set es \<Longrightarrow> e_Window e' = Some w' \<Longrightarrow> w_ID w' \<noteq> i"
    using fresh i by (auto simp: fresh_id_def list_all_iff split: option.splits)
  have shape: "window_shape w"
    using len rid rule cap B(1) stamp ew(1) by (auto simp: window_shape_def stamp_ok_def window_limits_def w_def split: if_splits)
  have new: "\<not> has (d_Windows (s_state s')) i"
    using tracksD(7) [OF tr, of i] nw ne by auto
  have lk: "has (d_Leases (s_state s)) (l_ID l)" using known ew(2) by (simp add: lease_known_def)
  have same: "sameLease old' l" if "map_of (d_Leases (s_state s')) (l_ID l) = Some old'" for old'
  proof -
    obtain old where old: "map_of (d_Leases (s_state s)) (l_ID l) = Some old" using lk by (auto simp: has_def)
    have "sameLease old old'" using lt old that by (auto simp: leases_track_def)
    with A(5) [OF old] show ?thesis by (simp add: sameLease_def)
  qed
  have dk': "distinct_keys (d_Leases (s_state s'))"
    by (rule maps_wfD(3) [OF ledger_invD(1) [OF store_invD(1) [OF inv]]])
  have capy': "validateLeaseCapacity (s_state s') [Some l] = None"
  proof -
    have "dom (map_of (d_Leases (s_state s'))) \<union> lease_names [Some l]
        \<subseteq> dom (map_of (d_Leases (s_state s))) \<union> lease_names (Some l # staged_leases es)"
      using lt by (auto simp: leases_track_def)
    then have "card (dom (map_of (d_Leases (s_state s'))) \<union> lease_names [Some l])
        \<le> card (dom (map_of (d_Leases (s_state s))) \<union> lease_names (Some l # staged_leases es))"
      by (intro card_mono) (simp_all add: finite_dom_map_of)
    with capy show ?thesis by (simp add: lease_capacity_card [OF maps] lease_capacity_card [OF dk'])
  qed
  have budget: "w_Capacity w \<le> l_Bytes l - look0 (d_Used (s_state s')) (l_ID l) - creditLiability (s_state s') (l_ID l)"
    using B(4) tracksD(3) [OF tr, of "l_ID l"] by (simp add: w_def)
  have ok: "reserve_ok (s_state s') w l"
  proof (rule reserve_okI [OF shape])
    show "\<not> has (d_Windows (s_state s')) (w_ID w)" using new by (simp add: w_def)
    show "sameLease old' l" if "map_of (d_Leases (s_state s')) (w_LeaseID w) = Some old'" for old'
      using same that by (simp add: w_def)
    show "\<not> has (d_Retired (s_state s')) (w_LeaseID w)" using A(4) tracksD(5) [OF tr] by (simp add: w_def)
    show "win_count (\<lambda>v. w_RuleID v = w_RuleID w \<and> w_Upload v = w_Upload w) (s_state s') < 2"
      using count tracksD(2) [OF tr, of "\<lambda>v. w_RuleID v = r_ID r \<and> w_Upload v = q_upload q"] by (simp add: w_def)
    show "w_Capacity w \<le> snd (window_limits w) - win_total (\<lambda>v. w_RuleID v = w_RuleID w) (s_state s')"
      using B(2) tracksD(1) [OF tr, of "\<lambda>v. w_RuleID v = r_ID r"] by (simp add: w_def window_limits_def split: if_splits)
    show "w_Capacity w \<le> maxAccountCredits - win_total (\<lambda>v. w_UserID v = w_UserID w) (s_state s')"
      using B(3) tracksD(1) [OF tr, of "\<lambda>v. w_UserID v = limitOwner r"] by (simp add: w_def)
    show "w_Capacity w \<le> l_Bytes l - look0 (d_Used (s_state s')) (w_LeaseID w) - creditLiability (s_state s') (w_LeaseID w)"
      using budget by (simp add: w_def)
    show "spool (s_state s') < MaxPendingRecords" using room tracksD(4) [OF tr] by simp
  qed (simp_all add: w_def capy')
  have "store_apply s' e = Inr (live_reserve w (s'\<lparr>s_state := applyReserve (s_state s') w l\<rparr>))"
    using ok ew by (simp add: store_apply_def applyCreditEvent_def applyCreditDisk_def validateCreditEvent_def
        reserve_ok_def Let_def)
  then show ?thesis by (rule that [OF ew(1,2) ok ew(3)])
qed

section \<open>A credit batch applies as a whole\<close>

lemma apply_all_append:
  "apply_all s (es @ fs) = (case apply_all s es of (Some err, s') \<Rightarrow> (Some err, s') | (None, s') \<Rightarrow> apply_all s' fs)"
  by (induction es arbitrary: s) (auto split: sum.splits)

text \<open>What the environment has to provide for the requests of a batch, in the order in which they are
  served: identifiers that are new, a start before the deadline, and a lease that the ledger knows
  (every lease of the accepted configuration is known).\<close>

fun served :: "store \<Rightarrow> (state_request \<times> tick) list \<Rightarrow> state_event list \<Rightarrow> bool" where
  "served s [] es = True"
| "served s ((q, t) # b) es = (r_ID (q_rule q) \<noteq> [] \<and> fresh_id t s es \<and>
     (case reserveCreditLocked t s q es of
        Inr (Some e) \<Rightarrow> stamp_ok t e \<and> lease_known s e \<and> served s b (es @ [e])
      | _ \<Rightarrow> served s b es))"

definition serve_env :: "gotime \<Rightarrow> store \<Rightarrow> (state_request \<times> tick) list \<Rightarrow> bool" where
  "serve_env now s b \<longleftrightarrow> (case creditProgressLocked now s (event0\<lparr>e_Kind := ''credit_flush''\<rparr>) of
     (Inl _, _) \<Rightarrow> True | (Inr es, s1) \<Rightarrow> served s1 b es)"

definition staged_state :: "store \<Rightarrow> store \<Rightarrow> state_event list \<Rightarrow> store \<Rightarrow> bool" where
  "staged_state s s1 es s' \<longleftrightarrow> apply_all s1 es = (None, s') \<and> store_inv s'
     \<and> tracks (s_state s) es s s' \<and> leases_track (s_state s) es (s_state s')"

lemma staged_state_reserve:
  assumes st: "staged_state s s1 es s'" and maps: "distinct_keys (d_Leases (s_state s))"
    and R: "reserveCreditLocked t s q es = Inr (Some e)"
    and env: "fresh_id t s es" "stamp_ok t e" "lease_known s e" "r_ID (q_rule q) \<noteq> []"
  shows "\<exists>s''. staged_state s s1 (es @ [e]) s'' \<and> spool (s_state s'') \<le> MaxPendingRecords"
proof -
  have S: "apply_all s1 es = (None, s')" "store_inv s'" "tracks (s_state s) es s s'"
    "leases_track (s_state s) es (s_state s')" using st by (simp_all add: staged_state_def)
  obtain w l s'' where e: "e_Window e = Some w" "e_Lease e = Some l" "reserve_ok (s_state s') w l"
    "e_Kind e = ''credit_reserve''" "store_apply s' e = Inr s''"
    by (rule reserve_accepted [OF S(2,3,4) maps R env])
  have "e_Config e = None" using R by (auto elim: reserveCreditD simp: event0_def)
  then have "live_admissible s' e"
    using e(4) by (simp add: live_admissible_def event_admissible_def)
  then have "store_inv s''" by (rule store_apply_inv [OF S(2) _ e(5)])
  moreover have "tracks (s_state s) (es @ [e]) s s''" by (rule tracks_reserve [OF S(2,3) e(4,5)])
  moreover have "leases_track (s_state s) (es @ [e]) (s_state s'')" by (rule leases_track_reserve [OF S(4) e(4,5)])
  moreover have "apply_all s1 (es @ [e]) = (None, s'')" by (simp add: apply_all_append S(1) e(5))
  moreover have "spool (s_state s'') \<le> MaxPendingRecords"
  proof -
    have "s_state s'' = applyReserve (s_state s') w l"
      using store_apply_state [of s' e] e(5) e(1-4)
      by (simp add: applyEvent_def applyCreditDisk_def validateCreditEvent_def reserve_ok_def)
    with reserve_okD(2,13) [OF e(3)] show ?thesis by (simp add: applyReserve_def spool_def length_put_new)
  qed
  ultimately show ?thesis by (auto simp: staged_state_def)
qed

lemma reserve_all_applies:
  assumes "staged_state s s1 es s'" "spool (s_state s') \<le> MaxPendingRecords"
    and "distinct_keys (d_Leases (s_state s))" "served s b es"
  shows "\<exists>s''. staged_state s s1 (snd (reserve_all s b es)) s'' \<and> spool (s_state s'') \<le> MaxPendingRecords"
  using assms(1,2,4)
proof (induction b arbitrary: es s')
  case Nil
  then show ?case by auto
next
  case (Cons x b)
  obtain q t where x: "x = (q, t)" by fastforce
  have env: "r_ID (q_rule q) \<noteq> []" "fresh_id t s es" using Cons.prems(3) by (simp_all add: x)
  show ?case
  proof (cases "reserveCreditLocked t s q es")
    case (Inl err)
    then show ?thesis
      using Cons.IH [OF Cons.prems(1,2)] Cons.prems(3) by (simp add: x case_prod_beta Let_def)
  next
    case (Inr eo)
    show ?thesis
    proof (cases eo)
      case None
      then show ?thesis
        using Inr Cons.IH [OF Cons.prems(1,2)] Cons.prems(3) by (simp add: x case_prod_beta Let_def)
    next
      case (Some e)
      have "stamp_ok t e" "lease_known s e" and rest: "served s b (es @ [e])"
        using Cons.prems(3) Inr Some by (simp_all add: x)
      then obtain s'' where "staged_state s s1 (es @ [e]) s''" "spool (s_state s'') \<le> MaxPendingRecords"
        using staged_state_reserve [OF Cons.prems(1) assms(3) _ env(2) _ _ env(1)] Inr Some by blast
      from Cons.IH [OF this rest] show ?thesis using Inr Some by (simp add: x case_prod_beta Let_def)
    qed
  qed
qed

text \<open>The log and its counters do not influence how events are applied.\<close>

definition relog :: "state_event list \<Rightarrow> u64 \<Rightarrow> int \<Rightarrow> store \<Rightarrow> store" where
  "relog es q n s = s\<lparr>s_log := es, s_seq := q, s_walBytes := n\<rparr>"

lemma relog_simps [simp]:
  "s_state (relog es q n s) = s_state s" "s_credits (relog es q n s) = s_credits s"
  "s_creditPools (relog es q n s) = s_creditPools s" "s_queue (relog es q n s) = s_queue s"
  "pool (relog es q n s) k = pool s k" "s_failed (relog es q n s) = s_failed s"
  "s_base (relog es q n s) = s_base s" "s_log (relog es q n s) = es"
  by (simp_all add: relog_def pool_def)

lemma store_apply_relog:
  "store_apply (relog es q n s) e = map_sum id (relog es q n) (store_apply s e)"
  by (auto simp: store_apply_def applyCreditEvent_def live_reserve_def live_progress_def relog_def bindE_def Let_def
      pool_def split: sum.splits option.splits)

lemma apply_all_relog:
  "apply_all (relog es q n s) fs = map_prod id (relog es q n) (apply_all s fs)"
  by (induction fs arbitrary: s) (auto simp: store_apply_relog split: sum.splits)

text \<open>The write to the log and a checkpoint that becomes due succeed.\<close>

definition io_ok :: "io_env \<Rightarrow> store \<Rightarrow> state_event list \<Rightarrow> bool" where
  "io_ok io s es \<longleftrightarrow> io_append io = None \<and> io_checkpoint io \<and> \<not> seq_overflow (s_seq s) (length es)"

lemma seq_no_overflow:
  assumes "unat q + n < 2 ^ 64"
  shows "\<not> seq_overflow q n"
proof -
  have "\<not> q + of_nat i + 1 \<le> q" if "i < n" for i
  proof -
    have "unat (q + of_nat i + 1) = unat q + i + 1"
      using assms that by (simp add: unat_word_ariths unat_of_nat)
    then show ?thesis by (simp add: word_le_nat_alt)
  qed
  then show ?thesis by (auto simp: seq_overflow_def list_ex_iff)
qed

text \<open>A disk that works, and enough sequence numbers for a batch of \<open>n\<close> events.\<close>

definition io_good :: "io_env \<Rightarrow> store \<Rightarrow> nat \<Rightarrow> bool" where
  "io_good io s n \<longleftrightarrow> io_append io = None \<and> io_checkpoint io \<and> unat (s_seq s) + n < 2 ^ 64"

lemma io_good_ok: "io_good io s n \<Longrightarrow> length es \<le> n \<Longrightarrow> s_seq s1 = s_seq s \<Longrightarrow> io_ok io s1 es"
  using seq_no_overflow [of "s_seq s" "length es"] by (simp add: io_good_def io_ok_def)

lemma append_apply_succeeds:
  assumes "io_ok io s es" "apply_all s es = (None, s')" "store_inv s'" "spool (s_state s') \<le> MaxPendingRecords"
    "\<not> s_failed s'"
  obtains s'' where "append_apply io s es = (None, s'')" "store_inv s''" "spool (s_state s'') \<le> MaxPendingRecords"
    "\<not> s_failed s''" "s_credits s'' = s_credits s'"
    "\<And>i. has (d_Leases (s_state s'')) i \<Longrightarrow> spent s'' i = spent s' i"
proof -
  let ?r = "relog (s_log s @ es) (s_seq s + of_nat (length es)) (s_walBytes s + io_len io es)"
  have ap: "appendEvents io s es = (None, ?r s)"
    using assms(1) by (simp add: io_ok_def appendEvents_def relog_def)
  have all: "apply_all (?r s) es = (None, ?r s')" by (simp add: apply_all_relog assms(2))
  have inv: "store_inv (?r s')"
    by (rule store_inv_cong [OF _ _ _ _ assms(3)]) (use store_invD(4) [OF assms(3)] in simp_all)
  show ?thesis
  proof (cases "s_walBytes (?r s') \<ge> walCheckpointBytes")
    case False
    have "append_apply io s es = (None, ?r s')" using False by (simp add: append_apply_def ap all)
    then show ?thesis by (rule that) (use inv assms(4,5) in \<open>simp_all add: spent_def live_spent_def\<close>)
  next
    case True
    obtain s'' where ck: "checkpointLocked io (?r s') = (None, s'')"
      using assms(1) by (auto simp: checkpointLocked_def io_ok_def Let_def)
    have "append_apply io s es = (None, s'')" using True by (simp add: append_apply_def ap all ck)
    moreover have "store_inv s''" using checkpoint_inv [OF inv, of io] by (simp add: ck)
    moreover have "spool (s_state s'') \<le> MaxPendingRecords" "\<not> s_failed s''" "s_credits s'' = s_credits s'"
      using ck assms(4,5) assms(1)
      by (auto simp: checkpointLocked_def io_ok_def Let_def pruneLeaseHistory_def spool_def)
    moreover have "spent s'' i = spent s' i" if "has (d_Leases (s_state s'')) i" for i
      using that ck assms(1)
      by (auto simp: checkpointLocked_def io_ok_def Let_def pruneLeaseHistory_def spent_def live_spent_def
          look0_def has_def drop_keys_lookup split: if_splits)
    ultimately show ?thesis by (rule that)
  qed
qed

lemma apply_all_failed: "s_failed (snd (apply_all s es)) = s_failed s"
  by (induction es arbitrary: s) (auto split: sum.splits dest: store_apply_frame)

lemma creditProgress_failed: "s_failed (snd (creditProgressLocked now s tr)) = s_failed s"
  "s_seq (snd (creditProgressLocked now s tr)) = s_seq s"
  by (auto simp: creditProgressLocked_def Let_def split: prod.splits)

text \<open>The state in which the writer starts a credit batch.\<close>

definition writer_ready :: "store \<Rightarrow> bool" where
  "writer_ready s \<longleftrightarrow> store_inv s \<and> seq_room s \<and> spool (s_state s) \<le> MaxPendingRecords \<and> \<not> s_failed s"

lemma progress_loop_length:
  "progress_loop now d tr ids room cs = (Inr es, cs') \<Longrightarrow> length es \<le> length ids"
proof (induction ids arbitrary: room cs es)
  case Nil
  then show ?case by simp
next
  case (Cons i ids)
  from Cons.prems show ?case
    by (auto simp: Let_def split: option.splits prod.splits if_splits dest!: Cons.IH)
      (case_tac x1; auto dest!: Cons.IH)+
qed

lemma creditProgress_length:
  assumes "creditProgressLocked now s tr = (Inr es, s1)" "store_inv s"
  shows "length es \<le> 4096"
proof -
  have "length es \<le> length (d_Windows (s_state s))"
    using assms(1) progress_loop_length by (fastforce simp: creditProgressLocked_def Let_def split: prod.splits)
  moreover have "length (d_Windows (s_state s)) \<le> 4096"
    using ledger_invD(5) [OF store_invD(1) [OF assms(2)]] by (simp add: spool_ok_def ledger_consts)
  ultimately show ?thesis by simp
qed

lemma reserve_all_length: "length (snd (reserve_all s b es)) \<le> length es + length b"
proof (induction b arbitrary: es)
  case Nil
  then show ?case by simp
next
  case (Cons x b)
  obtain q t where x: "x = (q, t)" by fastforce
  show ?case
    using Cons.IH [of es] Cons.IH [of "es @ [e]" for e]
    by (fastforce simp: x Let_def case_prod_beta split: sum.splits option.splits)
qed

lemma flush_batch_succeeds:
  assumes ready: "writer_ready s"
    and io: "io_good io s 4096"
  obtains s' where "flush_batch now io s tr = (None, s')" "store_inv s'" "\<not> s_failed s'"
    "spool (s_state s') \<le> MaxPendingRecords"
    "\<And>i. has (d_Leases (s_state s')) i \<Longrightarrow> spent s' i = spent s i"
proof -
  have R: "store_inv s" "seq_room s" "spool (s_state s) \<le> MaxPendingRecords" "\<not> s_failed s"
    using ready by (simp_all add: writer_ready_def)
  obtain es s1 s2 where P: "creditProgressLocked now s tr = (Inr es, s1)" "store_inv s1"
    "s_state s1 = s_state s" "apply_all s1 es = (None, s2)" "store_inv s2" "\<And>l. spent s2 l = spent s l"
    "spool (s_state s2) \<le> MaxPendingRecords" "settles (s_state s) s1 es s2"
    by (rule creditProgress_applies [OF R(1-3)]) blast
  have nf: "\<not> s_failed s1" "\<not> s_failed s2" "s_seq s1 = s_seq s"
    using creditProgress_failed [of now s tr] apply_all_failed [of s1 es] R(4) by (simp_all add: P)
  show ?thesis
  proof (cases "es = []")
    case True
    then have "s2 = s1" using P(4) by simp
    have "flush_batch now io s tr = (None, s1)"
      using True P(1) by (simp add: flush_batch_def commitCreditEventsLocked_def)
    then show ?thesis by (rule that) (use P nf \<open>s2 = s1\<close> in auto)
  next
    case False
    have "io_ok io s1 es" by (rule io_good_ok [OF io creditProgress_length [OF P(1) R(1)] nf(3)])
    then obtain s3 where "append_apply io s1 es = (None, s3)" "store_inv s3"
      "spool (s_state s3) \<le> MaxPendingRecords" "\<not> s_failed s3"
      "\<And>i. has (d_Leases (s_state s3)) i \<Longrightarrow> spent s3 i = spent s2 i"
      by (rule append_apply_succeeds [OF _ P(4,5,7) nf(2)]) blast
    then show ?thesis
      using False P(1,6) by (intro that [of s3]) (simp_all add: flush_batch_def commitCreditEventsLocked_def)
  qed
qed

lemma reserve_batch_succeeds:
  assumes ready: "writer_ready s"
    and served: "serve_env now s b"
    and io: "io_good io s (4096 + length b)"
  obtains es s1 s2 where "creditProgressLocked now s (event0\<lparr>e_Kind := ''credit_flush''\<rparr>) = (Inr es, s1)"
    "reserve_batch now io s b = (fst (reserve_all s1 b es), s2)" "store_inv s2" "\<not> s_failed s2"
    "spool (s_state s2) \<le> MaxPendingRecords"
proof -
  let ?tr = "event0\<lparr>e_Kind := ''credit_flush''\<rparr>"
  have R: "store_inv s" "seq_room s" "spool (s_state s) \<le> MaxPendingRecords" "\<not> s_failed s"
    using ready by (simp_all add: writer_ready_def)
  obtain es s1 s2 where P: "creditProgressLocked now s ?tr = (Inr es, s1)" "store_inv s1"
    "s_state s1 = s_state s" "apply_all s1 es = (None, s2)" "store_inv s2"
    "same_frame (s_state s) (s_state s2)" "spool (s_state s2) \<le> MaxPendingRecords" "settles (s_state s) s1 es s2"
    by (rule creditProgress_applies [OF R(1-3)]) blast
  have nf: "\<not> s_failed s1" "s_seq s1 = s_seq s"
    using creditProgress_failed [of now s ?tr] R(4) by (simp_all add: P)
  have "staged_state s1 s1 es s2"
    using P settles_tracks [OF P(8)] leases_track_frame [OF P(6)] by (simp add: staged_state_def)
  moreover have "distinct_keys (d_Leases (s_state s1))"
    by (rule maps_wfD(3) [OF ledger_invD(1) [OF store_invD(1) [OF P(2)]]])
  moreover have "served s1 b es" using served by (simp add: serve_env_def P(1))
  ultimately obtain s3 where S: "staged_state s1 s1 (snd (reserve_all s1 b es)) s3"
    "spool (s_state s3) \<le> MaxPendingRecords"
    using reserve_all_applies [OF _ P(7)] by blast
  define es' where "es' = snd (reserve_all s1 b es)"
  have all: "apply_all s1 es' = (None, s3)" "store_inv s3"
    using S(1) by (simp_all add: staged_state_def es'_def)
  have nf3: "\<not> s_failed s3" using apply_all_failed [of s1 es'] nf(1) by (simp add: all)
  obtain s4 where C: "commitCreditEventsLocked io s1 es' = (None, s4)" "store_inv s4" "\<not> s_failed s4"
    "spool (s_state s4) \<le> MaxPendingRecords"
  proof (cases "es' = []")
    case True
    then show ?thesis using that [of s1] all S(2) nf P(2) by (simp add: commitCreditEventsLocked_def)
  next
    case False
    have "length es' \<le> 4096 + length b"
      using reserve_all_length [of s1 b es] creditProgress_length [OF P(1) R(1)] by (simp add: es'_def)
    then have "io_ok io s1 es'" by (rule io_good_ok [OF io _ nf(2)])
    from append_apply_succeeds [OF this all S(2) nf3] show ?thesis
      using that False by (metis commitCreditEventsLocked_def)
  qed
  have "reserve_batch now io s b = (fst (reserve_all s1 b es), s4)"
    using C(1) by (simp add: reserve_batch_def P(1) es'_def case_prod_beta)
  then show ?thesis using C(2-4) by (intro that [OF P(1)])
qed

end
