(* ===== verification/Store_Run.thy ===== *)
theory Store_Run
  imports Store_Reserve
begin

text \<open>
  The writer as a whole: every batch keeps the invariant of the store and keeps the log on disk in
  step with the state in memory (\<open>durable\<close>); recovery after a restart settles every window that was
  open; and the store as a transition system, with the invariant for every reachable state.
\<close>

section \<open>Settlement events fit the heap they were computed from\<close>

lemma event_fits_closes:
  assumes "closes cs cs'" "event_fits cs e"
  shows "event_fits cs' e"
proof -
  note C = closesD [OF assms(1)]
  have "\<exists>c'. map_of cs' i = Some c' \<and> lc_used c' = lc_used c" if "map_of cs i = Some c" for i c
    using C(2) [OF that] by (auto dest: uncl_eqD)
  moreover have "map_of cs' i = None" if "map_of cs i = None" for i
    using C(1) [of i] that by (cases "map_of cs' i") auto
  ultimately show ?thesis
    using assms(2) unfolding event_fits_def by (elim conjE, intro conjI impI allI) (blast | force)+
qed

lemma closes_sym: "closes cs cs' \<Longrightarrow> closes cs' cs"
  by (simp add: closes_def)

lemma closes_trans: "closes cs cs' \<Longrightarrow> closes cs' cs'' \<Longrightarrow> closes cs cs''"
  by (simp add: closes_def)

lemma progress_event_fits:
  assumes "map_of cs (w_ID w) = Some c"
  shows "event_fits cs (progress_event d w c cl)"
  using assms by (simp add: event_fits_def event_admissible_def progress_event_def event0_def Let_def)

lemma progress_loop_fits:
  assumes "progress_loop now d tr ids room cs = (Inr es, cs')" "windows_wf d"
  shows "list_all (event_fits cs) es \<and> list_all (\<lambda>e. e_Kind e = ''credit_progress'') es"
  using assms(1)
proof (induction ids arbitrary: room cs es)
  case Nil
  then show ?case by simp
next
  case (Cons i ids)
  obtain w c where w: "map_of (d_Windows d) i = Some w" and c: "map_of cs i = Some c"
    using Cons.prems by (auto split: option.splits)
  have id: "w_ID w = i" using assms(2) w by (auto simp: windows_wf_def)
  define cl where "cl = close_window now d tr w c"
  show ?case
  proof (cases "\<not> cl \<and> (lc_used c = w_Confirmed w \<or> room \<le> 0)")
    case True
    then have "progress_loop now d tr ids room cs = (Inr es, cs')"
      using Cons.prems by (auto simp: w c cl_def Let_def)
    then show ?thesis by (rule Cons.IH)
  next
    case False
    define cs1 where "cs1 = (if cl then put i (c\<lparr>lc_closed := True\<rparr>) cs else cs)"
    obtain es' where L: "progress_loop now d tr ids (if cl then room else room - 1) cs1 = (Inr es', cs')"
      and es: "es = progress_event d w c cl # es'"
      using Cons.prems False
      by (auto simp: w c cl_def [symmetric] cs1_def [symmetric] Let_def split: prod.splits)
        (case_tac x1; auto)+
    have "closes cs1 cs" using c by (simp add: cs1_def closes_def)
    then have "list_all (event_fits cs) es'"
      using Cons.IH [OF L] by (auto simp: list_all_iff intro: event_fits_closes)
    then show ?thesis using Cons.IH [OF L] progress_event_fits [of cs w c] c id by (simp add: es)
  qed
qed

lemma creditProgress_fits:
  assumes "store_inv s" "creditProgressLocked now s tr = (Inr es, s1)"
  shows "list_all (event_fits (s_credits s1)) es" "list_all (\<lambda>e. e_Kind e = ''credit_progress'') es"
proof -
  have "list_all (event_fits (s_credits s)) es" "list_all (\<lambda>e. e_Kind e = ''credit_progress'') es"
    using assms progress_loop_fits ledger_invD(3) [OF store_invD(1) [OF assms(1)]]
    by (auto simp: creditProgressLocked_def Let_def split: prod.splits)
  then show "list_all (event_fits (s_credits s1)) es" "list_all (\<lambda>e. e_Kind e = ''credit_progress'') es"
    using event_fits_closes creditProgress_inv(2) [OF assms(1), of now tr] assms(2)
    by (auto simp: list_all_iff)
qed

lemma creditProgress_frame:
  assumes "creditProgressLocked now s tr = (res, s1)"
  shows "s_state s1 = s_state s" "s_base s1 = s_base s" "s_log s1 = s_log s" "s_failed s1 = s_failed s"
    "s_queue s1 = s_queue s"
  using assms by (auto simp: creditProgressLocked_def Let_def split: prod.splits)

text \<open>The heap of live credits only grows by reservations.\<close>

definition heap_le :: "store \<Rightarrow> store \<Rightarrow> bool" where
  "heap_le s' s \<longleftrightarrow> dom (map_of (s_credits s')) \<subseteq> dom (map_of (s_credits s))"

lemma heap_le_trans: "heap_le a b \<Longrightarrow> heap_le b c \<Longrightarrow> heap_le a c"
  by (auto simp: heap_le_def)

lemma heap_le_eq: "s_credits s' = s_credits s \<Longrightarrow> heap_le s' s"
  by (simp add: heap_le_def)

lemma heap_le_fail [simp]: "heap_le (fail_store s') s = heap_le s' s"
  by (simp add: heap_le_def fail_store_def)

lemma apply_all_heap:
  assumes "list_all (\<lambda>e. e_Kind e = ''credit_progress'') es"
  shows "heap_le (snd (apply_all s es)) s"
  using assms
proof (induction es arbitrary: s)
  case Nil
  then show ?case by (simp add: heap_le_def)
next
  case (Cons e es)
  show ?case
  proof (cases "store_apply s e")
    case (Inl err)
    then show ?thesis by (simp add: heap_le_def)
  next
    case (Inr s1)
    have "e_Kind e = ''credit_progress''" using Cons.prems by simp
    then obtain w where "s1 = live_progress w (s\<lparr>s_state := applyProgress (s_state s) w (e_Usage e)\<rparr>)"
      using Inr by (rule store_apply_progressD)
    then have "heap_le s1 s"
      by (auto simp: heap_le_def live_progress_def Let_def split: option.splits if_splits)
    then show ?thesis using Cons.IH [of s1] Cons.prems by (auto simp: Inr intro: heap_le_trans)
  qed
qed

lemma checkpoint_heap: "s_credits (snd (checkpointLocked io s)) = s_credits s"
  by (simp add: checkpointLocked_def Let_def)

lemma append_apply_heap:
  assumes "list_all (\<lambda>e. e_Kind e = ''credit_progress'') es"
  shows "heap_le (snd (append_apply io s es)) s"
proof -
  obtain r1 s1 where s1: "appendEvents io s es = (r1, s1)" by fastforce
  have h1: "s_credits s1 = s_credits s" using appendEvents_frame(2) [of io s es] by (simp add: s1)
  obtain r2 s2 where s2: "apply_all s1 es = (r2, s2)" by fastforce
  have h2: "heap_le s2 s" using apply_all_heap [OF assms, of s1] h1 by (simp add: s2 heap_le_def)
  moreover have "heap_le (snd (checkpointLocked io s2)) s"
    using h2 checkpoint_heap [of io s2] by (simp add: heap_le_def)
  moreover have "heap_le s1 s" by (rule heap_le_eq [OF h1])
  ultimately show ?thesis
    by (auto simp: append_apply_def s1 s2 split: option.splits prod.splits)
qed

section \<open>The invariant through a batch\<close>

lemma flush_batch_inv:
  assumes "store_inv s"
  shows "store_inv (snd (flush_batch now io s tr))" "heap_le (snd (flush_batch now io s tr)) s"
proof -
  obtain res s1 where s1: "creditProgressLocked now s tr = (res, s1)" by fastforce
  have inv: "store_inv s1" "closes (s_credits s) (s_credits s1)"
    using creditProgress_inv [OF assms, of now tr] by (simp_all add: s1)
  have h1: "heap_le s1 s" using closes_dom [OF inv(2)] by (simp add: heap_le_def)
  show "store_inv (snd (flush_batch now io s tr))"
    using creditProgress_fits(1) [OF assms, of now tr] append_apply_inv [OF inv(1)] inv(1)
    by (auto simp: flush_batch_def s1 commitCreditEventsLocked_def split: sum.splits)
  show "heap_le (snd (flush_batch now io s tr)) s"
    using creditProgress_fits(2) [OF assms, of now tr] h1 append_apply_heap [of _ io s1]
    by (auto simp: flush_batch_def s1 commitCreditEventsLocked_def split: sum.splits intro: heap_le_trans)
qed

lemma rebalance_inv:
  assumes "store_inv s"
  shows "store_inv (snd (rebalanceCreditsLocked now io s q))" "heap_le (snd (rebalanceCreditsLocked now io s q)) s"
  using assms flush_batch_inv [OF assms]
  by (auto simp: rebalanceCreditsLocked_def Let_def heap_le_def)

lemma rebalance_all_inv:
  "store_inv s \<Longrightarrow> store_inv (snd (rebalance_all s b)) \<and> heap_le (snd (rebalance_all s b)) s"
proof (induction b arbitrary: s)
  case Nil
  then show ?case by (simp add: heap_le_def)
next
  case (Cons x b)
  obtain q t where x: "x = (q, t)" by fastforce
  obtain r s1 where s1: "rebalanceCreditsLocked (t_now t) (t_io t) s q = (r, s1)" by fastforce
  have "store_inv s1" "heap_le s1 s"
    using rebalance_inv [OF Cons.prems, of "t_now t" "t_io t" q] by (simp_all add: s1)
  then show ?case
    using Cons.IH [of s1] by (auto simp: x s1 split: option.splits intro: heap_le_trans)
qed

text \<open>What a batch may assume about its requests: an accepted configuration has a lease on every
  enabled rule, and a random identifier is not that of an open window.\<close>

definition batch_env :: "store \<Rightarrow> (state_request \<times> tick) list \<Rightarrow> bool" where
  "batch_env s b \<longleftrightarrow> list_all (\<lambda>(q, t). event_admissible (q_event q)
     \<and> (\<forall>i. t_id t = Some i \<longrightarrow> map_of (s_credits s) i = None)) b"

lemma batch_env_heap:
  assumes "batch_env s b" "heap_le s' s"
  shows "batch_env s' b"
  using assms by (fastforce simp: batch_env_def heap_le_def list_all_iff domIff subset_iff)

lemma reserve_all_fits:
  assumes "list_all (event_fits cs) es" "list_all (\<lambda>(q, t). \<forall>i. t_id t = Some i \<longrightarrow> map_of cs i = None) b"
  shows "list_all (event_fits cs) (snd (reserve_all s b es))"
  using assms
proof (induction b arbitrary: es)
  case Nil
  then show ?case by simp
next
  case (Cons x b)
  obtain q t where x: "x = (q, t)" by fastforce
  have b: "list_all (\<lambda>(q, t). \<forall>i. t_id t = Some i \<longrightarrow> map_of cs i = None) b" using Cons.prems(2) by simp
  have fit: "event_fits cs e" if "reserveCreditLocked t s q es = Inr (Some e)" for e
    using Cons.prems(2) that
    by (auto elim!: reserveCreditD simp: x event_fits_def event_admissible_def event0_def)
  show ?case
  proof (cases "reserveCreditLocked t s q es")
    case (Inl err)
    then show ?thesis using Cons.IH [OF Cons.prems(1) b] by (simp add: x case_prod_beta Let_def)
  next
    case (Inr eo)
    then show ?thesis
      using Cons.IH [OF Cons.prems(1) b] Cons.IH [OF _ b, of "es @ [the eo]"] fit Cons.prems(1)
      by (cases eo) (simp_all add: x case_prod_beta Let_def)
  qed
qed

lemma reserve_batch_inv:
  assumes inv: "store_inv s" and env: "batch_env s b"
  shows "store_inv (snd (reserve_batch now io s b))"
proof -
  let ?tr = "event0\<lparr>e_Kind := ''credit_flush''\<rparr>"
  obtain res s1 where s1: "creditProgressLocked now s ?tr = (res, s1)" by fastforce
  have I1: "store_inv s1" "closes (s_credits s) (s_credits s1)"
    using creditProgress_inv [OF inv, of now ?tr] by (simp_all add: s1)
  have env1: "list_all (\<lambda>(q, t). \<forall>i. t_id t = Some i \<longrightarrow> map_of (s_credits s1) i = None) b"
    using batch_env_heap [OF env, of s1] closes_dom [OF I1(2)] by (auto simp: heap_le_def batch_env_def list_all_iff)
  show ?thesis
  proof (cases res)
    case (Inl err)
    then show ?thesis using I1 s1 by (simp add: reserve_batch_def)
  next
    case (Inr es)
    have "list_all (event_fits (s_credits s1)) (snd (reserve_all s1 b es))"
      using reserve_all_fits creditProgress_fits(1) [OF inv] env1 s1 Inr by blast
    then have "store_inv (snd (commitCreditEventsLocked io s1 (snd (reserve_all s1 b es))))"
      using append_apply_inv [OF I1(1)] I1(1) by (simp add: commitCreditEventsLocked_def)
    then show ?thesis
      using s1 Inr by (auto simp: reserve_batch_def split: prod.splits option.splits)
  qed
qed

lemma credit_batch_inv:
  assumes "store_inv s" "batch_env s b"
  shows "store_inv (snd (credit_batch now io s b))"
proof -
  obtain r s1 where s1: "rebalance_all s b = (r, s1)" by fastforce
  have I: "store_inv s1" "heap_le s1 s" using rebalance_all_inv [OF assms(1), of b] by (simp_all add: s1)
  show ?thesis
    using flush_batch_inv(1) [OF assms(1)] reserve_batch_inv [OF I(1) batch_env_heap [OF assms(2) I(2)]] I(1)
    by (auto simp: credit_batch_def s1 Let_def split: option.splits prod.splits) (metis snd_conv)+
qed

text \<open>Staging a batch of other requests only closes credits in the heap; the staged events fit it.\<close>

definition staging_ok :: "store \<Rightarrow> state_event list \<Rightarrow> store \<Rightarrow> bool" where
  "staging_ok s evs s1 \<longleftrightarrow> store_inv s1 \<and> closes (s_credits s) (s_credits s1) \<and> s_state s1 = s_state s
     \<and> s_base s1 = s_base s \<and> s_log s1 = s_log s \<and> s_failed s1 = s_failed s
     \<and> list_all (event_fits (s_credits s)) evs"

lemma event_fits_plain:
  assumes "event_admissible e" "e_Kind e \<noteq> ''credit_progress''" "e_Kind e \<noteq> ''credit_reserve''"
  shows "event_fits cs e"
  using assms by (simp add: event_fits_def)

lemma staging_progress:
  assumes st: "staging_ok s evs s1" and p: "creditProgressLocked now s1 tr = (Inr es, s2)"
    and e: "event_fits (s_credits s) e"
  shows "staging_ok s (evs @ es @ [e]) s2"
proof -
  have S: "store_inv s1" "closes (s_credits s) (s_credits s1)" using st by (simp_all add: staging_ok_def)
  have c2: "store_inv s2" "closes (s_credits s1) (s_credits s2)"
    using creditProgress_inv [OF S(1), of now tr] by (simp_all add: p)
  have cl: "closes (s_credits s) (s_credits s2)" by (rule closes_trans [OF S(2) c2(2)])
  have "list_all (event_fits (s_credits s)) es"
    using creditProgress_fits(1) [OF S(1) p] event_fits_closes [OF closes_sym [OF cl]] by (auto simp: list_all_iff)
  with st c2(1) cl e creditProgress_frame [OF p] show ?thesis by (simp add: staging_ok_def)
qed

lemma staging_error:
  assumes "staging_ok s evs s1" "creditProgressLocked now s1 tr = (res, s2)"
  shows "staging_ok s evs s2"
  using assms creditProgress_inv [of s1 now tr] creditProgress_frame [OF assms(2)]
  by (auto simp: staging_ok_def intro: closes_trans)

lemma staging_add:
  "staging_ok s evs s1 \<Longrightarrow> event_fits (s_credits s) e \<Longrightarrow> staging_ok s (evs @ [e]) s1"
  by (simp add: staging_ok_def)

lemma retire_event_fits: "event_fits cs (retire_event l)"
  by (simp add: event_fits_def event_admissible_def retire_event_def event0_def)

lemma charge_step_staging:
  assumes st: "staging_ok s (ba_events a) s1" and step: "charge_step t s1 a q = (r, s2, a2)"
  shows "staging_ok s (ba_events a2) s2"
proof -
  have plain: "event_fits cs (event0\<lparr>e_Kind := ''usage'', e_Usage := u, e_Lease := l\<rparr>)" for cs u l
    by (rule event_fits_plain) (simp_all add: event_admissible_def event0_def)
  show ?thesis
    using step st staging_progress [OF st _ retire_event_fits] staging_error [OF st] staging_add [OF st plain]
    by (auto simp: charge_step_def Let_def split: if_splits option.splits prod.splits sum.splits)
qed

lemma mutation_step_staging:
  assumes st: "staging_ok s (ba_events a) s1" and step: "mutation_step t s1 a q = (r, s2, a2)"
    and e: "event_fits (s_credits s) (q_event q)"
  shows "staging_ok s (ba_events a2) s2"
  using step st staging_progress [OF st _ e] staging_error [OF st] staging_add [OF st e]
  by (auto simp: mutation_step_def Let_def split: if_splits option.splits prod.splits sum.splits)

text \<open>Requests that reach this path never carry a credit event: those are issued by the writer only.\<close>

definition plain_requests :: "(state_request \<times> tick) list \<Rightarrow> bool" where
  "plain_requests b \<longleftrightarrow> list_all (\<lambda>(q, _). event_admissible (q_event q)
     \<and> e_Kind (q_event q) \<noteq> ''credit_progress'' \<and> e_Kind (q_event q) \<noteq> ''credit_reserve'') b"

lemma batch_loop_staging:
  assumes "staging_ok s (ba_events a) s1" "plain_requests b" "batch_loop s1 a b = (rs, s2, a2)"
  shows "staging_ok s (ba_events a2) s2"
  using assms
proof (induction b arbitrary: a s1 rs)
  case Nil
  then show ?case by simp
next
  case (Cons x b)
  obtain q t where x: "x = (q, t)" by fastforce
  obtain r s' a' where st: "batch_step t s1 a q = (r, s', a')" by (metis prod_cases3)
  have fit: "event_fits (s_credits s) (q_event q)" and b: "plain_requests b"
    using Cons.prems(2) by (auto simp: plain_requests_def x intro: event_fits_plain)
  have "staging_ok s (ba_events a') s'"
    using st Cons.prems(1) mutation_step_staging [OF Cons.prems(1) _ fit] charge_step_staging [OF Cons.prems(1)]
    by (auto simp: batch_step_def split: if_splits)
  with Cons.IH [OF _ b] Cons.prems(3) st show ?case
    by (auto simp: x split: prod.splits)
qed

lemma process_events_staging:
  assumes "store_inv s" "plain_requests b"
  obtains rs s1 a where "batch_loop s \<lparr>ba_events = [], ba_reserved = [], ba_retiring = [], ba_known = [],
      ba_pending = int (length (d_Pending (s_state s)))\<rparr> b = (rs, s1, a)" "staging_ok s (ba_events a) s1"
proof -
  let ?a = "\<lparr>ba_events = [], ba_reserved = [], ba_retiring = [], ba_known = [],
      ba_pending = int (length (d_Pending (s_state s)))\<rparr>"
  obtain rs s1 a where L: "batch_loop s ?a b = (rs, s1, a)" by (metis prod_cases3)
  have "staging_ok s (ba_events ?a) s" using assms(1) by (simp add: staging_ok_def closes_refl)
  from batch_loop_staging [OF this assms(2) L] L that show ?thesis by blast
qed

lemma staging_fits: "staging_ok s evs s1 \<Longrightarrow> list_all (event_fits (s_credits s1)) evs"
  using event_fits_closes by (auto simp: staging_ok_def list_all_iff)

lemma process_events_inv:
  assumes "store_inv s" "plain_requests b"
  shows "store_inv (snd (process_events io s b))"
proof -
  obtain rs s1 a where L: "batch_loop s \<lparr>ba_events = [], ba_reserved = [], ba_retiring = [], ba_known = [],
      ba_pending = int (length (d_Pending (s_state s)))\<rparr> b = (rs, s1, a)" "staging_ok s (ba_events a) s1"
    by (rule process_events_staging [OF assms])
  have "store_inv s1" using L(2) by (simp add: staging_ok_def)
  moreover from this have "store_inv (snd (append_apply io s1 (ba_events a)))"
    by (rule append_apply_inv [OF _ staging_fits [OF L(2)]])
  ultimately show ?thesis
    by (auto simp: process_events_def L(1) split: prod.splits option.splits)
qed

lemma history_prune_inv:
  assumes "store_inv s"
  shows "store_inv (snd (history_prune now io s))" "heap_le (snd (history_prune now io s)) s"
proof -
  define s1 where "s1 = s\<lparr>s_nextHistoryPrune := now + minute, s_state := fst (pruneLeaseHistory now (s_state s))\<rparr>"
  have "store_inv s1"
    by (rule store_inv_cong [OF _ _ _ _ store_inv_prune [OF assms, of now]])
      (use store_invD(4) [OF assms] in \<open>simp_all add: s1_def\<close>)
  then have "store_inv (snd (checkpointLocked io s1))" "store_inv s1" by (simp_all add: checkpoint_inv)
  moreover have "s_credits (snd (checkpointLocked io s1)) = s_credits s" "s_credits s1 = s_credits s"
    by (simp_all add: checkpoint_heap s1_def)
  ultimately show "store_inv (snd (history_prune now io s))" "heap_le (snd (history_prune now io s)) s"
    using assms
    by (auto simp: history_prune_def Let_def case_prod_beta s1_def [symmetric] heap_le_def
        split: option.splits prod.splits)
qed

definition batch_admissible :: "store \<Rightarrow> (state_request \<times> tick) list \<Rightarrow> bool" where
  "batch_admissible s b \<longleftrightarrow> batch_env s b
     \<and> (e_Kind (q_event (fst (hd b))) \<noteq> ''credit_reserve'' \<longrightarrow> plain_requests b)"

lemma process_inv:
  assumes inv: "store_inv s" and env: "batch_admissible s b"
  shows "store_inv (snd (process now io0 io s b))"
proof -
  obtain r s1 where s1: "history_prune now io0 s = (r, s1)" by fastforce
  have I1: "store_inv s1" and env1: "batch_env s1 b"
    using history_prune_inv [OF inv, of now io0] batch_env_heap [of s b s1] env
    by (simp_all add: s1 batch_admissible_def)
  have ck: "store_inv (snd (checkpointLocked io s1))" by (rule checkpoint_inv [OF I1])
  have cb: "store_inv (snd (processCreditBatchLocked now io s1 b))"
    unfolding processCreditBatchLocked_def snd_map_prod
    by (rule store_inv_cong [OF _ _ _ _ credit_batch_inv [OF I1 env1, of now io]])
      (use store_invD(4) [OF credit_batch_inv [OF I1 env1, of now io]] in \<open>simp_all add: clear_refilling_def\<close>)
  have ff: "store_inv (s\<lparr>s_fastFailed := True\<rparr>)"
    by (rule store_inv_cong [OF _ _ _ _ inv]) (use store_invD(4) [OF inv] in simp_all)
  have pe: "store_inv (snd (process_events io s1 b))"
    if "e_Kind (q_event (fst (hd b))) \<noteq> ''credit_reserve''"
    using process_events_inv [OF I1] env that by (simp add: batch_admissible_def)
  show ?thesis
    using I1 ck cb ff pe
    by (auto simp: process_def s1 Let_def split: option.splits prod.splits)
qed

section \<open>The log never lags behind the state\<close>

text \<open>Replaying the log on top of the last checkpoint gives the state in memory. When a write fails
  the store refuses all further work, so this is what a restart finds.\<close>

definition durable :: "store \<Rightarrow> bool" where
  "durable s \<longleftrightarrow> runE applyEvent (s_base s) (s_log s) = Inr (s_state s)"

lemma apply_all_ledger:
  "apply_all s es = (None, s') \<Longrightarrow> runE applyEvent (s_state s) es = Inr (s_state s')"
proof (induction es arbitrary: s)
  case Nil
  then show ?case by simp
next
  case (Cons e es)
  then obtain s1 where s1: "store_apply s e = Inr s1" "apply_all s1 es = (None, s')"
    by (auto split: sum.splits)
  with Cons.IH [OF s1(2)] store_apply_state [of s e] show ?case by simp
qed

lemma apply_all_disk:
  "s_base (snd (apply_all s es)) = s_base s \<and> s_log (snd (apply_all s es)) = s_log s"
  by (induction es arbitrary: s) (auto split: sum.splits dest: store_apply_frame)

lemma checkpoint_durable:
  "checkpointLocked io s = (None, s') \<Longrightarrow> durable s'"
  by (auto simp: checkpointLocked_def Let_def durable_def split: if_splits)

text \<open>The result \<open>r\<close> of an operation that ends in the store \<open>s\<close>.\<close>

definition outcome_ok :: "agent_error option \<times> store \<Rightarrow> bool" where
  "outcome_ok p \<longleftrightarrow> (fst p = None \<longrightarrow> durable (snd p)) \<and> (s_failed (snd p) \<or> durable (snd p))"

lemma append_apply_durable:
  assumes d: "durable s"
  shows "outcome_ok (append_apply io s es)"
proof -
  obtain r1 s1 where s1: "appendEvents io s es = (r1, s1)" by fastforce
  obtain r2 s2 where s2: "apply_all s1 es = (r2, s2)" by fastforce
  obtain r3 s3 where s3: "checkpointLocked io s2 = (r3, s3)" by fastforce
  have "durable s2" if "r1 = None" "r2 = None"
  proof -
    have "s_log s1 = s_log s @ es" "s_base s1 = s_base s" "s_state s1 = s_state s"
      using s1 that(1) by (auto simp: appendEvents_def split: if_splits option.splits)
    moreover have "runE applyEvent (s_state s1) es = Inr (s_state s2)"
      using s2 that(2) by (intro apply_all_ledger) simp
    moreover have "s_base s2 = s_base s1" "s_log s2 = s_log s1"
      using apply_all_disk [of s1 es] by (simp_all add: s2)
    ultimately show ?thesis using d by (simp add: durable_def runE_append)
  qed
  with checkpoint_durable [of io s2] s3 show ?thesis
    by (auto simp: outcome_ok_def append_apply_def s1 s2 split: option.splits)
qed

lemma durable_cong:
  assumes "durable s" "s_base s' = s_base s" "s_log s' = s_log s" "s_state s' = s_state s"
  shows "durable s'"
  using assms by (simp add: durable_def)

lemma flush_batch_durable:
  assumes "durable s"
  shows "outcome_ok (flush_batch now io s tr)"
proof -
  obtain res s1 where s1: "creditProgressLocked now s tr = (res, s1)" by fastforce
  have d1: "durable s1" by (rule durable_cong [OF assms]) (use creditProgress_frame [OF s1] in simp_all)
  then show ?thesis
    using append_apply_durable [OF d1, of io]
    by (auto simp: flush_batch_def s1 commitCreditEventsLocked_def outcome_ok_def split: sum.splits)
qed

lemma rebalance_all_durable:
  assumes "durable s"
  shows "outcome_ok (rebalance_all s b)"
  using assms
proof (induction b arbitrary: s)
  case Nil
  then show ?case by (simp add: outcome_ok_def)
next
  case (Cons x b)
  obtain q t where x: "x = (q, t)" by fastforce
  obtain r s1 where s1: "rebalanceCreditsLocked (t_now t) (t_io t) s q = (r, s1)" by fastforce
  have o1: "outcome_ok (rebalanceCreditsLocked (t_now t) (t_io t) s q)"
    using flush_batch_durable [OF Cons.prems] Cons.prems
    by (auto simp: rebalanceCreditsLocked_def Let_def outcome_ok_def)
  then have "outcome_ok (rebalance_all s1 b)" if "r = None"
    using that Cons.IH [of s1] by (simp add: s1 outcome_ok_def)
  with o1 show ?case by (cases r) (simp_all add: x s1 outcome_ok_def)
qed

definition sound :: "store \<Rightarrow> bool" where
  "sound s \<longleftrightarrow> s_failed s \<or> durable s"

lemma outcome_sound: "outcome_ok p \<Longrightarrow> sound (snd p)"
  by (auto simp: outcome_ok_def sound_def)

lemma sound_cong:
  assumes "sound s" "s_base s' = s_base s" "s_log s' = s_log s" "s_state s' = s_state s" "s_failed s' = s_failed s"
  shows "sound s'"
  using assms by (simp add: sound_def durable_def)

lemma reserve_batch_sound:
  assumes "durable s"
  shows "sound (snd (reserve_batch now io s b))"
proof -
  obtain res s1 where s1: "creditProgressLocked now s (event0\<lparr>e_Kind := ''credit_flush''\<rparr>) = (res, s1)" by fastforce
  have d1: "durable s1" by (rule durable_cong [OF assms]) (use creditProgress_frame [OF s1] in simp_all)
  have "sound (snd (commitCreditEventsLocked io s1 es))" for es
    using outcome_sound [OF append_apply_durable [OF d1, of io es]] d1
    by (simp add: commitCreditEventsLocked_def sound_def)
  from this d1 show ?thesis
    by (auto simp: reserve_batch_def s1 sound_def split: sum.splits prod.splits option.splits) (metis snd_conv)+
qed

lemma credit_batch_sound:
  assumes "durable s"
  shows "sound (snd (credit_batch now io s b))"
proof -
  obtain r s1 where s1: "rebalance_all s b = (r, s1)" by fastforce
  have o1: "outcome_ok (r, s1)" using rebalance_all_durable [OF assms, of b] by (simp add: s1)
  have "sound (snd (reserve_batch now io s1 b))" if "r = None"
    using reserve_batch_sound that o1 by (simp add: outcome_ok_def)
  with outcome_sound [OF o1] outcome_sound [OF flush_batch_durable [OF assms]] show ?thesis
    by (auto simp: credit_batch_def s1 Let_def split: option.splits prod.splits) (metis snd_conv)+
qed

lemma prune_nothing: "snd (pruneLeaseHistory now d) = 0 \<Longrightarrow> fst (pruneLeaseHistory now d) = d"
  by (simp add: pruneLeaseHistory_def Let_def drop_keys_def)

lemma history_prune_durable:
  assumes "durable s"
  shows "outcome_ok (history_prune now io s)"
proof -
  obtain d n where p: "pruneLeaseHistory now (s_state s) = (d, n)" by fastforce
  show ?thesis
  proof (cases "n = 0")
    case True
    then have "d = s_state s" using prune_nothing [of now "s_state s"] by (simp add: p)
    with True assms show ?thesis by (simp add: history_prune_def p outcome_ok_def durable_def)
  next
    case False
    with assms show ?thesis
      by (auto simp: history_prune_def p outcome_ok_def Let_def dest: checkpoint_durable
          split: prod.splits option.splits)
  qed
qed

lemma batch_loop_frame:
  "s_state (fst (snd (batch_loop s a b))) = s_state s \<and> s_base (fst (snd (batch_loop s a b))) = s_base s
   \<and> s_log (fst (snd (batch_loop s a b))) = s_log s \<and> s_failed (fst (snd (batch_loop s a b))) = s_failed s"
proof (induction b arbitrary: s a)
  case Nil
  then show ?case by simp
next
  case (Cons x b)
  obtain q t where x: "x = (q, t)" by fastforce
  obtain r s' a' where st: "batch_step t s a q = (r, s', a')" by (metis prod_cases3)
  have "s_state s' = s_state s \<and> s_base s' = s_base s \<and> s_log s' = s_log s \<and> s_failed s' = s_failed s"
    using st creditProgress_frame
    by (auto simp: batch_step_def mutation_step_def charge_step_def Let_def
        split: if_splits option.splits prod.splits sum.splits)
  with Cons.IH [of s' a'] show ?case by (simp add: x st case_prod_beta)
qed

lemma process_events_sound:
  assumes "durable s"
  shows "sound (snd (process_events io s b))"
proof -
  let ?a = "\<lparr>ba_events = [], ba_reserved = [], ba_retiring = [], ba_known = [],
      ba_pending = int (length (d_Pending (s_state s)))\<rparr>"
  obtain rs s1 a where L: "batch_loop s ?a b = (rs, s1, a)" by (metis prod_cases3)
  have d1: "durable s1"
    using batch_loop_frame [of s ?a b] assms by (simp add: L durable_def)
  then show ?thesis
    using outcome_sound [OF append_apply_durable [OF d1, of io "ba_events a"]]
    by (auto simp: process_events_def L sound_def split: prod.splits option.splits)
qed

lemma process_sound:
  assumes "sound s"
  shows "sound (snd (process now io0 io s b))"
proof (cases "s_failed s")
  case True
  then show ?thesis by (simp add: process_def sound_def)
next
  case False
  with assms have d: "durable s" by (simp add: sound_def)
  obtain r s1 where s1: "history_prune now io0 s = (r, s1)" by fastforce
  have o1: "outcome_ok (r, s1)" using history_prune_durable [OF d, of now io0] by (simp add: s1)
  show ?thesis
  proof (cases r)
    case (Some err)
    with False o1 show ?thesis by (simp add: process_def s1 outcome_ok_def sound_def)
  next
    case None
    then have d1: "durable s1" using o1 by (simp add: outcome_ok_def)
    have "sound (snd (processCreditBatchLocked now io s1 b))"
      unfolding processCreditBatchLocked_def snd_map_prod
      by (rule sound_cong [OF credit_batch_sound [OF d1, of now io b]]) (simp_all add: clear_refilling_def)
    with process_events_sound [OF d1] checkpoint_durable [of io s1] False None show ?thesis
      by (auto simp: process_def s1 sound_def Let_def split: prod.splits option.splits)
  qed
qed

section \<open>Recovery\<close>

text \<open>After a restart no live credit survives for the windows of the snapshot. Recovery charges what
  each of them still held, so that traffic that was carried but not yet confirmed is never lost.\<close>

definition recoverable :: "gotime \<Rightarrow> disk_state \<Rightarrow> bool" where
  "recoverable now d \<longleftrightarrow> ledger_inv d \<and> spool d \<le> MaxPendingRecords
     \<and> (\<forall>i w. map_of (d_Windows d) i = Some w \<longrightarrow> w_Sequence w + 1 \<noteq> 0 \<and> w_StartedAt w \<le> now)"

text \<open>The live credits left by the replay all belong to open windows.\<close>

definition live_sub :: "store \<Rightarrow> bool" where
  "live_sub s \<longleftrightarrow> distinct_keys (s_credits s) \<and> (\<forall>i c. map_of (s_credits s) i = Some c
     \<longrightarrow> map_of (d_Windows (s_state s)) i = Some (lc_window c)) \<and> pools_ok s"

lemma recovery_event_simps [simp]:
  "e_Kind (recovery_event now d w) = ''credit_progress''"
  "e_Window (recovery_event now d w)
     = Some (w\<lparr>w_Sequence := w_Sequence w + 1, w_Closed := True, w_Confirmed := w_Capacity w\<rparr>)"
  by (simp_all add: recovery_event_def Let_def event0_def)

lemma recovery_event_ok:
  assumes rec: "recoverable now d" and w: "map_of (d_Windows d) i = Some w"
  shows "progress_ok d (w\<lparr>w_Sequence := w_Sequence w + 1, w_Closed := True, w_Confirmed := w_Capacity w\<rparr>)
    (e_Usage (recovery_event now d w))"
proof -
  let ?w = "w\<lparr>w_Sequence := w_Sequence w + 1, w_Closed := True, w_Confirmed := w_Capacity w\<rparr>"
  have inv: "ledger_inv d" and sp: "spool d \<le> MaxPendingRecords"
    and seq: "w_Sequence w + 1 \<noteq> 0" and clock: "w_StartedAt w \<le> now"
    using rec w by (auto simp: recoverable_def)
  have id: "w_ID w = i" and shape: "window_shape w"
    using ledger_invD(3) [OF inv] w by (auto simp: windows_wf_def)
  have shape': "window_shape ?w" using shape by (auto simp: window_shape_def window_limits_def)
  have F: "w_StartedAt w < w_Until w" "length (w_ID w) = 32" "w_Confirmed w \<le> w_Capacity w"
    using shape by (auto simp: window_shape_def)
  have gt: "0 < w_Sequence w + 1" using seq by (simp add: word_gt_0)
  have "validCreditUsage d ?w (w_Capacity w - w_Confirmed w)
      (creditUsage d ?w (w_Capacity w - w_Confirmed w) ''recovery'' (min now (w_Until w)))"
    if "0 < w_Capacity w - w_Confirmed w"
    using that F gt clock pending_room [OF w sp]
    by (auto simp: validCreditUsage_def creditUsage_def ValidWindowMetadata_def)
  then have "validateCreditProgress d ?w (e_Usage (recovery_event now d w)) = None"
    using w id F(3) by (auto simp: validateCreditProgress_def recovery_event_def Let_def event0_def)
  with shape' show ?thesis by (simp add: progress_ok_def)
qed

lemma recover_step:
  assumes rec: "recoverable now (s_state s)" and w: "map_of (d_Windows (s_state s)) i = Some w"
    and live: "live_sub s"
  obtains s1 where "store_apply s (recovery_event now (s_state s) w) = Inr s1" "recoverable now (s_state s1)"
    "live_sub s1" "d_Windows (s_state s1) = del i (d_Windows (s_state s))"
    "\<And>l. look0 (d_Used (s_state s1)) l + creditLiability (s_state s1) l
        = look0 (d_Used (s_state s)) l + creditLiability (s_state s) l"
    "d_Leases (s_state s1) = d_Leases (s_state s)" "s_queue s1 = s_queue s" "s_seq s1 = s_seq s"
proof -
  let ?w = "w\<lparr>w_Sequence := w_Sequence w + 1, w_Closed := True, w_Confirmed := w_Capacity w\<rparr>"
  let ?e = "recovery_event now (s_state s) w"
  let ?d = "applyProgress (s_state s) ?w (e_Usage ?e)"
  let ?s = "live_progress ?w (s\<lparr>s_state := ?d\<rparr>)"
  have inv: "ledger_inv (s_state s)" and sp: "spool (s_state s) \<le> MaxPendingRecords"
    using rec by (auto simp: recoverable_def)
  have id: "w_ID w = i" using ledger_invD(3) [OF inv] w by (auto simp: windows_wf_def)
  have dk: "distinct_keys (d_Windows (s_state s))" by (rule maps_wfD(4) [OF ledger_invD(1) [OF inv]])
  note ok = recovery_event_ok [OF rec w]
  have step: "store_apply s ?e = Inr ?s" by (rule store_apply_progress) (use ok in simp_all)
  obtain old delta where adv: "advances (s_state s) ?w (e_Usage ?e) old delta"
    and delta: "delta = w_Confirmed ?w - w_Confirmed old" by (rule progress_advances [OF ok])
  have old: "old = w" using adv w id by (simp add: advances_def)
  have inv': "ledger_inv ?d" by (rule applyProgress_inv [OF inv ok])
  have wins: "d_Windows ?d = del i (d_Windows (s_state s))" by (simp add: applyProgress_windows id)
  have "length (d_Windows ?d) + 1 = length (d_Windows (s_state s))"
    using w length_del [OF dk, of i] by (cases "d_Windows (s_state s)") (auto simp: wins has_def)
  moreover have "length (d_Pending ?d) \<le> length (d_Pending (s_state s)) + 1"
    by (simp add: applyProgress_spent split: option.splits)
  ultimately have "spool ?d \<le> spool (s_state s)" by (simp add: spool_def)
  then have rec': "recoverable now ?d"
    using rec inv' sp by (auto simp: recoverable_def wins)
  have tot: "look0 (d_Used ?d) l + creditLiability ?d l = look0 (d_Used (s_state s)) l + creditLiability (s_state s) l" for l
    using applyProgress_used [OF adv, of l] applyProgress_liability(1) [OF dk adv, of "\<lambda>v. w_LeaseID v = l"] adv delta old
    by (simp add: creditLiability_def advances_def left_def)
  have "live_sub ?s"
  proof (cases "map_of (s_credits s) i")
    case None
    have "?s = s\<lparr>s_state := ?d\<rparr>" using None by (simp add: live_progress_def id)
    moreover have "pools_ok (s\<lparr>s_state := ?d\<rparr>)" using live by (simp add: live_sub_def pools_ok_def pool_def)
    ultimately show ?thesis using live None by (auto simp: live_sub_def wins)
  next
    case (Some c)
    have cw: "lc_window c = w" using live Some w by (auto simp: live_sub_def)
    have c': "map_of (s_credits (s\<lparr>s_state := ?d\<rparr>)) (w_ID ?w) = Some c" by (simp add: id Some)
    have cr: "s_credits ?s = del i (s_credits s)" using live_progress_credits [OF c'] by (simp add: id)
    have P: "pools_ok s" using live by (simp add: live_sub_def)
    have pl: "pool ?s k = filter (\<lambda>j. j \<noteq> i \<or> k \<noteq> creditKey (w_RuleID w) (w_Upload w)) (pool s k)" for k
      using pool_live_progress [OF c', of k] by (simp add: id pool_def)
    have "pools_ok ?s"
      unfolding pools_ok_def
    proof (intro allI conjI)
      fix k
      show "distinct (pool ?s k)" using pools_okD(1) [OF P, of k] by (simp add: pl)
      show "set (pool ?s k) = {j. \<exists>c. map_of (s_credits ?s) j = Some c \<and> credit_key c = k}"
        using pools_okD(2) [OF P, of k] Some cw by (auto simp: pl cr credit_key_def)
    qed
    then show ?thesis using live by (auto simp: live_sub_def cr wins)
  qed
  then show ?thesis
    by (intro that [OF step]) (simp_all add: rec' wins tot applyProgress_windows id)
qed

lemma append_apply_ok:
  assumes "io_ok io s es" "apply_all s es = (None, s')"
  obtains s'' where "append_apply io s es = (None, s'')" "s_credits s'' = s_credits s'"
    "s_creditPools s'' = s_creditPools s'" "s_queue s'' = s_queue s'" "s_seq s'' = s_seq s + of_nat (length es)"
    "s_state s'' = s_state s' \<or> s_state s'' = fst (pruneLeaseHistory (io_now io) (s_state s'))"
    "s_failed s'' = s_failed s'"
proof -
  let ?r = "relog (s_log s @ es) (s_seq s + of_nat (length es)) (s_walBytes s + io_len io es)"
  have ap: "appendEvents io s es = (None, ?r s)"
    using assms(1) by (simp add: io_ok_def appendEvents_def relog_def)
  have all: "apply_all (?r s) es = (None, ?r s')" by (simp add: apply_all_relog assms(2))
  have seq: "s_seq (?r s') = s_seq s + of_nat (length es)" by (simp add: relog_def)
  show ?thesis
  proof (cases "s_walBytes (?r s') \<ge> walCheckpointBytes")
    case False
    then show ?thesis using that [of "?r s'"] seq by (simp add: append_apply_def ap all)
  next
    case True
    then show ?thesis
      using that [of "snd (checkpointLocked io (?r s'))"] assms(1) seq
      by (simp add: append_apply_def ap all checkpointLocked_def io_ok_def Let_def)
  qed
qed

lemma recoverable_prune:
  assumes "recoverable now d"
  shows "recoverable now (fst (pruneLeaseHistory t d))"
    "has (d_Leases (fst (pruneLeaseHistory t d))) i \<Longrightarrow>
       look0 (d_Used (fst (pruneLeaseHistory t d))) i = look0 (d_Used d) i \<and> has (d_Leases d) i"
    "creditLiability (fst (pruneLeaseHistory t d)) i = creditLiability d i"
  using assms pruneLeaseHistory_inv [of d t]
  by (auto simp: recoverable_def pruneLeaseHistory_def Let_def spool_def look0_def has_def drop_keys_lookup
      creditLiability_def win_total_def split: if_splits)

text \<open>What recovery leaves behind: no open window, and every surviving lease charged with all that its
  windows held.\<close>

definition recovered :: "disk_state \<Rightarrow> store \<Rightarrow> bool" where
  "recovered d s \<longleftrightarrow> ledger_inv (s_state s) \<and> d_Windows (s_state s) = [] \<and> live_sub s
     \<and> (\<forall>l. has (d_Leases (s_state s)) l \<longrightarrow>
          look0 (d_Used (s_state s)) l = look0 (d_Used d) l + creditLiability d l \<and> has (d_Leases d) l)"

lemma recover_loop_succeeds:
  assumes "recoverable now (s_state s)" "live_sub s" "distinct ids" "dom (map_of (d_Windows (s_state s))) = set ids"
    "io_append io = None" "io_checkpoint io" "unat (s_seq s) + length ids < 2 ^ 64"
    "length (s_queue s) \<le> maxStoreQueue"
  shows "\<exists>s'. recover_loop now io s ids = (None, s') \<and> recovered (s_state s) s'
    \<and> length (s_queue s') \<le> maxStoreQueue"
  using assms
proof (induction ids arbitrary: s)
  case Nil
  then have "d_Windows (s_state s) = []" by (simp add: dom_map_of_conv_image_fst)
  with Nil show ?case
    by (auto simp: recovered_def recoverable_def creditLiability_def win_total_def)
next
  case (Cons i ids)
  obtain w where w: "map_of (d_Windows (s_state s)) i = Some w" using Cons.prems(4) by auto
  define s0 where "s0 = s\<lparr>s_expandedCredits := (s_expandedCredits s \<or> w_Capacity w > creditWindowSize)\<rparr>"
  have S0: "s_state s0 = s_state s" "s_seq s0 = s_seq s" "s_queue s0 = s_queue s" "live_sub s0"
    using Cons.prems(2) by (simp_all add: s0_def live_sub_def pools_ok_def pool_def)
  obtain s1 where s1: "store_apply s0 (recovery_event now (s_state s0) w) = Inr s1" "recoverable now (s_state s1)"
    "live_sub s1" "d_Windows (s_state s1) = del i (d_Windows (s_state s0))"
    "\<And>l. look0 (d_Used (s_state s1)) l + creditLiability (s_state s1) l
        = look0 (d_Used (s_state s0)) l + creditLiability (s_state s0) l"
    "d_Leases (s_state s1) = d_Leases (s_state s0)" "s_queue s1 = s_queue s0" "s_seq s1 = s_seq s0"
    by (rule recover_step [of now s0 i w]) (use Cons.prems(1) w S0 in simp_all)
  let ?es = "[recovery_event now (s_state s0) w]"
  have io: "io_ok io s0 ?es"
    using seq_no_overflow [of "s_seq s0" 1] Cons.prems(5,6,7) by (simp add: io_ok_def S0)
  have all: "apply_all s0 ?es = (None, s1)" by (simp add: s1(1))
  obtain s2 where s2: "append_apply io s0 ?es = (None, s2)" "s_credits s2 = s_credits s1"
    "s_creditPools s2 = s_creditPools s1" "s_queue s2 = s_queue s1" "s_seq s2 = s_seq s0 + of_nat (length ?es)"
    "s_state s2 = s_state s1 \<or> s_state s2 = fst (pruneLeaseHistory (io_now io) (s_state s1))"
    by (rule append_apply_ok [OF io all])
  have wins: "d_Windows (s_state s2) = d_Windows (s_state s1)"
    using s2(6) by (auto simp: pruneLeaseHistory_def Let_def)
  have rec2: "recoverable now (s_state s2)" using s2(6) s1(2) recoverable_prune(1) by metis
  have live2: "live_sub s2" using s1(3) wins s2(2,3) by (simp add: live_sub_def pools_ok_def pool_def)
  have tot: "look0 (d_Used (s_state s2)) l + creditLiability (s_state s2) l
      = look0 (d_Used (s_state s)) l + creditLiability (s_state s) l \<and> has (d_Leases (s_state s)) l"
    if "has (d_Leases (s_state s2)) l" for l
    using s2(6) s1(5) [of l] s1(6) recoverable_prune(2,3) [OF s1(2), of "io_now io" l] that S0(1) by auto
  have seq: "unat (s_seq s2) = unat (s_seq s) + 1"
    using s2(5) Cons.prems(7) by (simp add: S0 unat_word_ariths)
  have "\<exists>s'. recover_loop now io s2 ids = (None, s') \<and> recovered (s_state s2) s' \<and> length (s_queue s') \<le> maxStoreQueue"
  proof (rule Cons.IH [OF rec2 live2])
    show "distinct ids" using Cons.prems(3) by simp
    show "dom (map_of (d_Windows (s_state s2))) = set ids"
      using Cons.prems(3,4) by (auto simp: wins s1(4) S0)
    show "unat (s_seq s2) + length ids < 2 ^ 64" using Cons.prems(7) seq by simp
    show "length (s_queue s2) \<le> maxStoreQueue" using Cons.prems(8) by (simp add: s2(4) s1(7) S0)
  qed (use Cons.prems in simp_all)
  then obtain s' where s': "recover_loop now io s2 ids = (None, s')" "recovered (s_state s2) s'"
    "length (s_queue s') \<le> maxStoreQueue" by blast
  have "recover_loop now io s (i # ids) = (None, s')"
    using s2(1) s'(1) S0(1) by (simp add: window_at_def w s0_def [symmetric] commitCreditEventsLocked_def Let_def)
  moreover have "recovered (s_state s) s'"
    using s'(2) tot by (auto simp: recovered_def)
  ultimately show ?case using s'(3) by blast
qed

lemma recoverCredits_succeeds:
  assumes rec: "recoverable now (s_state s)" and live: "live_sub s"
    and io: "io_append io = None" "io_checkpoint io" "unat (s_seq s) + length (d_Windows (s_state s)) < 2 ^ 64"
    and q: "length (s_queue s) \<le> maxStoreQueue"
  obtains s' where "recoverCredits now io s = (None, s')" "recovered (s_state s) s'" "store_inv s'"
proof -
  have inv: "ledger_inv (s_state s)" using rec by (simp add: recoverable_def)
  obtain s' where s': "recoverCredits now io s = (None, s')" "recovered (s_state s) s'"
    "length (s_queue s') \<le> maxStoreQueue"
    using recover_loop_succeeds [OF rec live distinct_window_ids [OF inv] _ io(1,2)] io(3) q
    by (auto simp: recoverCredits_def dom_map_of_conv_image_fst)
  have none: "map_of (s_credits s') i = None" for i
    using s'(2) by (cases "map_of (s_credits s') i") (auto simp: recovered_def live_sub_def)
  have "live_ok s'" using s'(2) none by (simp add: live_ok_def recovered_def live_sub_def)
  with s' that show ?thesis by (auto simp: store_inv_def recovered_def live_sub_def)
qed

section \<open>The store as a transition system\<close>

text \<open>The data path charges, clients submit requests, the writer takes the next batch from the queue or
  a periodic flush, a renewal worker marks a prefetch, and closing or pausing changes a flag. The
  step relation interleaves them freely.\<close>

inductive store_step :: "store \<Rightarrow> store \<Rightarrow> bool" where
  step_charge: "clock_after s now \<Longrightarrow> store_step s (snd (TryCreditCharge now s r until up n))"
| step_request: "store_step s (snd (submit q s))"
| step_write: "next_batch (s_queue s) = (map fst b, rest) \<Longrightarrow> b \<noteq> [] \<Longrightarrow> batch_admissible (s\<lparr>s_queue := rest\<rparr>) b
    \<Longrightarrow> store_step s (snd (process now io0 io (s\<lparr>s_queue := rest\<rparr>) b))"
| step_flush: "batch_admissible s [(q, t)] \<Longrightarrow> e_Kind (q_event q) = ''credit_flush''
    \<Longrightarrow> store_step s (snd (process now io0 io s [(q, t)]))"
| step_begin_prefetch: "store_step s (snd (beginPrefetch r l s))"
| step_end_prefetch: "store_step s (endPrefetch r s)"
| step_pause: "store_step s (s\<lparr>s_pauseTCPGrowth := p\<rparr>)"
| step_closing: "store_step s (s\<lparr>s_fastFailed := True, s_closing := True\<rparr>)"

inductive_cases store_stepE: "store_step s s'"

abbreviation reachable :: "store \<Rightarrow> store \<Rightarrow> bool" where
  "reachable \<equiv> store_step\<^sup>*\<^sup>*"

lemma next_batch_queue: "next_batch qs = (b, rest) \<Longrightarrow> length rest \<le> length qs"
  by (auto simp: next_batch_def Let_def split: list.splits if_splits)

definition healthy :: "store \<Rightarrow> bool" where
  "healthy s \<longleftrightarrow> store_inv s \<and> sound s"

lemma healthy_cong:
  assumes "healthy s" "s_state s' = s_state s" "s_credits s' = s_credits s" "s_creditPools s' = s_creditPools s"
    "length (s_queue s') \<le> maxStoreQueue" "s_base s' = s_base s" "s_log s' = s_log s" "s_failed s' = s_failed s"
  shows "healthy s'"
  using assms store_inv_cong [of s' s] sound_cong [of s s'] by (simp add: healthy_def)

lemma healthy_step:
  assumes "store_step s s'" "healthy s"
  shows "healthy s'"
  using assms
proof (cases rule: store_step.cases)
  case (step_charge now r until up n)
  have "sound s'"
    by (rule sound_cong [of s])
      (use assms(2) step_charge publish_charge_simps TryCreditCharge_refused(1) TryCreditCharge_allowed in
        \<open>cases "charge_allowed now s r until n"; simp add: healthy_def\<close>)+
  with step_charge assms(2) show ?thesis by (simp add: healthy_def TryCreditCharge_inv)
next
  case (step_request q)
  show ?thesis
    by (rule healthy_cong [OF assms(2)])
      (use assms(2) in \<open>auto simp: step_request submit_def healthy_def dest: store_invD\<close>)
next
  case (step_write b rest now io0 io)
  have "healthy (s\<lparr>s_queue := rest\<rparr>)"
    by (rule healthy_cong [OF assms(2)])
      (use assms(2) next_batch_queue [OF step_write(2)] in \<open>auto simp: healthy_def dest: store_invD\<close>)
  with step_write show ?thesis by (simp add: healthy_def process_inv process_sound)
next
  case (step_flush q t now io0 io)
  with step_flush assms(2) show ?thesis by (simp add: healthy_def process_inv process_sound)
next
  case (step_begin_prefetch r l)
  show ?thesis
    by (rule healthy_cong [OF assms(2)])
      (use assms(2) in \<open>auto simp: step_begin_prefetch beginPrefetch_def healthy_def dest: store_invD\<close>)
next
  case (step_end_prefetch r)
  show ?thesis
    by (rule healthy_cong [OF assms(2)])
      (use assms(2) in \<open>auto simp: step_end_prefetch endPrefetch_def healthy_def dest: store_invD\<close>)
next
  case (step_pause p)
  show ?thesis
    by (rule healthy_cong [OF assms(2)]) (use assms(2) in \<open>auto simp: step_pause healthy_def dest: store_invD\<close>)
next
  case step_closing
  show ?thesis
    by (rule healthy_cong [OF assms(2)]) (use assms(2) in \<open>auto simp: step_closing healthy_def dest: store_invD\<close>)
qed

lemma healthy_reachable:
  assumes "reachable s s'" "healthy s"
  shows "healthy s'"
  using assms by (induction rule: rtranclp_induct) (auto intro: healthy_step)

end
