(* ===== verification/Agent_Props.thy ===== *)
theory Agent_Props
  imports Store_Run
begin

text \<open>
  The properties of the Agent, stated over the definitions of the program, each with a concrete
  instance; and the failures that the model brought to light.
\<close>

section \<open>A concrete store\<close>

definition demo_lease :: "string \<Rightarrow> int \<Rightarrow> lease" where
  "demo_lease i n = \<lparr>l_ID = i, l_EntitlementID = ''sub'', l_ExpiresAt = 1000, l_Bytes = n, l_Limits = no_limits\<rparr>"

definition demo_rule :: "string \<Rightarrow> string \<Rightarrow> lease \<Rightarrow> rule" where
  "demo_rule i net l = \<lparr>r_ID = i, r_UserID = ''u'', r_Network = net, r_Enabled = True, r_RouteCandidates = None,
     r_Lease = Some l, r_StandbyLease = None, r_LeasePipeline = False, r_UDP = None, r_Rest = ''''\<rparr>"

definition demo_id :: string where
  "demo_id = replicate 32 (CHR ''a'')"

definition demo_window :: "int \<Rightarrow> credit_window" where
  "demo_window cap = \<lparr>w_ID = demo_id, w_UserID = ''user:u'', w_RuleID = ''t'', w_LeaseID = ''C'', w_Upload = True,
     w_Capacity = cap, w_Confirmed = 0, w_Sequence = 0, w_StartedAt = 1, w_Until = 1000, w_Closed = False, w_TCP = True\<rparr>"

definition demo_disk :: disk_state where
  "demo_disk = \<lparr>d_Identity = \<lparr>reg_NodeID = ''n'', reg_Token = ''k''\<rparr>,
     d_Config = \<lparr>c_NodeID = ''n'', c_Version = 1, c_ValidUntil = 1000,
       c_Rules = [demo_rule ''t'' ''tcp'' (demo_lease ''C'' 1000)]\<rparr>,
     d_Used = [(''A'', 5), (''B'', 5)], d_Pending = [], d_Retired = [],
     d_Leases = [(''A'', demo_lease ''A'' 10), (''B'', demo_lease ''B'' 10), (''C'', demo_lease ''C'' 1000)],
     d_Windows = [(demo_id, demo_window 100)]\<rparr>"

definition demo_store :: store where
  "demo_store = \<lparr>s_state = demo_disk, s_base = demo_disk, s_log = [], s_seq = 0, s_walBytes = 20, s_failed = False,
     s_fastFailed = False, s_pauseTCPGrowth = False, s_closing = False, s_expandedCredits = False,
     s_credits = [(demo_id, \<lparr>lc_window = demo_window 100, lc_used = 7, lc_last = 2, lc_closed = False\<rparr>)],
     s_creditPools = [((''t'', True), [demo_id])], s_refilling = [], s_tcpCreditTargets = [], s_prefetching = [],
     s_queue = [], s_nextHistoryPrune = 1000000\<rparr>"

definition demo_io :: io_env where
  "demo_io = \<lparr>io_append = None, io_len = (\<lambda>es. 100 * int (length es)), io_checkpoint = True, io_now = 3\<rparr>"

definition demo_tick :: "string option \<Rightarrow> gotime \<Rightarrow> tick" where
  "demo_tick i stamp = \<lparr>t_ctxErr = False, t_now = 3, t_stamp = stamp, t_id = i, t_io = demo_io\<rparr>"

definition demo_request :: "string \<Rightarrow> rule \<Rightarrow> int \<Rightarrow> state_request" where
  "demo_request kind r n = \<lparr>q_event = event0\<lparr>e_Kind := kind\<rparr>, q_rule = r, q_until = 1000, q_upload = True, q_n = n,
     q_creditPrime = False, q_creditSize = 0, q_renewalOnly = False\<rparr>"

lemma demo_ledger: "ledger_inv demo_disk"
proof -
  have "validateSnapshot demo_disk = None" by code_simp
  moreover have "maps_wf demo_disk" by (simp add: maps_wf_def demo_disk_def distinct_keys_def)
  ultimately show ?thesis by (rule validateSnapshot_sound)
qed

lemma demo_healthy: "healthy demo_store"
proof -
  have "live_ok demo_store"
    by (auto simp: live_ok_def demo_store_def demo_disk_def distinct_keys_def credit_ok_def demo_window_def)
  moreover have "pools_ok demo_store"
    by (auto simp: pools_ok_def pool_def demo_store_def credit_key_def creditKey_def demo_window_def)
  moreover have "sound demo_store" by (simp add: sound_def durable_def demo_store_def)
  ultimately show ?thesis
    using demo_ledger by (simp add: healthy_def store_inv_def demo_store_def maxStoreQueue_def)
qed

lemma demo_inv: "store_inv demo_store"
  using demo_healthy by (simp add: healthy_def)

lemma demo_ready: "writer_ready demo_store"
  unfolding writer_ready_def
proof (intro conjI)
  show "seq_room demo_store" by (auto simp: seq_room_def demo_store_def demo_disk_def demo_window_def)
  show "spool (s_state demo_store) \<le> MaxPendingRecords" "\<not> s_failed demo_store" by code_simp+
qed (rule demo_inv)

section \<open>Properties\<close>


text \<open>Instance: a charge of 50 bytes on the demonstration store.\<close>

definition demo_charged :: store where
  "demo_charged = snd (TryCreditCharge 3 demo_store (demo_rule ''t'' ''tcp'' (demo_lease ''C'' 1000)) 1000 True 50)"

lemma demo_clock: "clock_after demo_store 3"
  by (auto simp: clock_after_def demo_store_def demo_window_def)

lemma demo_reach: "reachable demo_store demo_charged"
  unfolding demo_charged_def by (rule r_into_rtranclp) (rule step_charge [OF demo_clock])


text \<open>C2: the log on disk never lags behind memory: as long as the store has not failed, replaying the
  events of the log on top of the last checkpoint gives exactly the ledger in memory, so a crash at
  any point between two steps loses nothing.\<close>

theorem log_replays_to_state:
  assumes "healthy s0" "reachable s0 s" "\<not> s_failed s"
  shows "runE applyEvent (s_base s) (s_log s) = Inr (s_state s)"
  using healthy_reachable [OF assms(2,1)] assms(3) by (simp add: healthy_def sound_def durable_def)

theorem log_replays_to_state_witness:
  "runE applyEvent (s_base demo_charged) (s_log demo_charged) = Inr (s_state demo_charged)"
proof -
  have "\<not> s_failed demo_charged" by code_simp
  then show ?thesis by (rule log_replays_to_state [OF demo_healthy demo_reach])
qed

text \<open>C3: a charge against the credit windows is exact. It is admitted precisely when the windows of that
  rule and direction that the caller may spend hold enough; then exactly \<open>n\<close> bytes are debited, only
  from those windows and never beyond their capacity, and the ledger, the log and the checkpoint
  are untouched. A refused charge debits nothing.\<close>

theorem TryCreditCharge_exact:
  assumes "store_inv s" "clock_after s now" "TryCreditCharge now s r until up n = (res, s')"
  shows "(res = None \<longleftrightarrow> charge_allowed now s r until n \<and> charge_admitted now s r up n)
    \<and> total_used (s_credits s') = total_used (s_credits s) + (if res = None then n else 0)
    \<and> debited now (set (sources now s r up)) (s_credits s) (s_credits s')
    \<and> s_state s' = s_state s \<and> s_log s' = s_log s \<and> s_base s' = s_base s \<and> store_inv s'"
proof (cases "charge_allowed now s r until n")
  case False
  with TryCreditCharge_refused [OF False, of up] assms show ?thesis by (auto simp: debited_refl)
next
  case True
  have n: "0 \<le> n" using True by (simp add: charge_allowed_def)
  note D = charge_debit_sound [OF assms(1) n, of now r up]
  have "store_inv s'" using TryCreditCharge_inv [OF assms(1,2), of r until up n] assms(3) by simp
  with TryCreditCharge_allowed [OF True, of up] assms(3) D True show ?thesis
    by (auto simp: publish_charge_simps)
qed

theorem TryCreditCharge_exact_witness:
  "fst (TryCreditCharge 3 demo_store (demo_rule ''t'' ''tcp'' (demo_lease ''C'' 1000)) 1000 True 50) = None
   \<and> total_used (s_credits demo_charged) = 57"
proof -
  have ok: "fst (TryCreditCharge 3 demo_store (demo_rule ''t'' ''tcp'' (demo_lease ''C'' 1000)) 1000 True 50) = None"
    by code_simp
  have "total_used (s_credits demo_store) = 7" by code_simp
  with ok TryCreditCharge_exact [OF demo_inv demo_clock prod.collapse [symmetric],
      of "demo_rule ''t'' ''tcp'' (demo_lease ''C'' 1000)" 1000 True 50]
  show ?thesis by (simp add: demo_charged_def)
qed


lemma demo_io_good: "n < 1000000 \<Longrightarrow> io_good demo_io demo_store n"
  by (simp add: io_good_def demo_io_def demo_store_def)


text \<open>A batch of reservations is accepted as a whole. The capacities computed from the state before
  the batch and the staged events satisfy every bound of the ledger when the events are applied one
  after the other, so after the log has been synced no event is refused: each request gets its own
  result, the store does not fail and the spool bound holds. The environment must deliver new random
  identifiers, start times before the deadline, and leases the ledger knows.\<close>

theorem reservations_always_accepted:
  assumes "writer_ready s" "serve_env now s b" "io_good io s (4096 + length b)"
  shows "\<exists>es s1 s2. creditProgressLocked now s (event0\<lparr>e_Kind := ''credit_flush''\<rparr>) = (Inr es, s1)
    \<and> reserve_batch now io s b = (fst (reserve_all s1 b es), s2) \<and> store_inv s2 \<and> \<not> s_failed s2
    \<and> spool (s_state s2) \<le> MaxPendingRecords"
  by (rule reserve_batch_succeeds [OF assms]) blast

definition demo_batch :: "gotime \<Rightarrow> (state_request \<times> tick) list" where
  "demo_batch stamp = [(demo_request ''credit_reserve'' (demo_rule ''t'' ''tcp'' (demo_lease ''C'' 1000)) 200,
     demo_tick (Some (replicate 32 (CHR ''b''))) stamp)]"

theorem reservations_always_accepted_witness:
  "\<exists>s2. reserve_batch 3 demo_io demo_store (demo_batch 3) = ([None], s2) \<and> \<not> s_failed s2"
proof -
  have env: "serve_env 3 demo_store (demo_batch 3)" by code_simp
  have "length (demo_batch 3) = 1" by (simp add: demo_batch_def)
  then have "io_good demo_io demo_store (4096 + length (demo_batch 3))" by (simp add: demo_io_good)
  from reservations_always_accepted [OF demo_ready env this]
  have "\<exists>s2. snd (reserve_batch 3 demo_io demo_store (demo_batch 3)) = s2 \<and> \<not> s_failed s2" by auto
  moreover have "fst (reserve_batch 3 demo_io demo_store (demo_batch 3)) = [None]" by code_simp
  ultimately show ?thesis by (metis prod.collapse)
qed

text \<open>Recovery after a restart never under-bills. For every state that passes the checks of the
  snapshot, with the clock not behind the start of an open window, closing the windows succeeds:
  no window stays open, every lease still known is charged with what was confirmed plus all that its
  windows held, and the invariant of the store is established.\<close>

theorem recovery_charges_open_windows:
  assumes "recoverable now (s_state s)" "live_sub s" "io_good io s (length (d_Windows (s_state s)))"
    "length (s_queue s) \<le> maxStoreQueue"
  shows "\<exists>s'. recoverCredits now io s = (None, s') \<and> store_inv s' \<and> d_Windows (s_state s') = []
    \<and> (\<forall>l. has (d_Leases (s_state s')) l \<longrightarrow>
         look0 (d_Used (s_state s')) l = look0 (d_Used (s_state s)) l + creditLiability (s_state s) l)"
proof -
  have io: "io_append io = None" "io_checkpoint io" "unat (s_seq s) + length (d_Windows (s_state s)) < 2 ^ 64"
    using assms(3) by (simp_all add: io_good_def)
  show ?thesis
    by (rule recoverCredits_succeeds [OF assms(1,2) io assms(4)]) (auto simp: recovered_def)
qed

definition demo_opened :: store where
  "demo_opened = demo_store\<lparr>s_credits := [], s_creditPools := []\<rparr>"

theorem recovery_charges_open_windows_witness:
  "\<exists>s'. recoverCredits 3 demo_io demo_opened = (None, s') \<and> d_Windows (s_state s') = []
     \<and> (has (d_Leases (s_state s')) ''C'' \<longrightarrow> look0 (d_Used (s_state s')) ''C'' = 100)"
proof -
  have rec: "recoverable 3 (s_state demo_opened)"
    using demo_ledger unfolding recoverable_def
    by (auto simp: demo_opened_def demo_store_def demo_disk_def demo_window_def spool_def MaxPendingRecords_def)
  have live: "live_sub demo_opened"
    by (auto simp: live_sub_def pools_ok_def pool_def demo_opened_def)
  have io: "io_good demo_io demo_opened (length (d_Windows (s_state demo_opened)))"
    by (simp add: io_good_def demo_io_def demo_opened_def demo_store_def demo_disk_def)
  have q: "length (s_queue demo_opened) \<le> maxStoreQueue"
    by (simp add: demo_opened_def demo_store_def)
  have "look0 (d_Used (s_state demo_opened)) ''C'' + creditLiability (s_state demo_opened) ''C'' = 100" by code_simp
  with recovery_charges_open_windows [OF rec live io q] show ?thesis by auto
qed

text \<open>a snapshot that \<open>validateSnapshot\<close> accepts satisfies the whole invariant of the ledger and the
  spool bound, so everything proved of a running Agent holds of one that was restarted.\<close>

theorem snapshot_check_sound:
  assumes "validateSnapshot d = None" "maps_wf d"
  shows "ledger_inv d \<and> spool d \<le> MaxPendingRecords"
  using validateSnapshot_sound [OF assms] by simp

theorem snapshot_check_sound_witness: "ledger_inv demo_disk \<and> spool demo_disk \<le> MaxPendingRecords"
proof -
  have "validateSnapshot demo_disk = None" by code_simp
  moreover have "maps_wf demo_disk" by (simp add: maps_wf_def demo_disk_def distinct_keys_def)
  ultimately show ?thesis by (rule snapshot_check_sound)
qed

text \<open>replaying any sequence of events that \<open>applyEvent\<close> accepts keeps the invariant of the ledger, and
  so does every prefix of it: a log cut short by a crash is as safe as a complete one.\<close>

theorem replay_keeps_invariant:
  assumes "ledger_inv d" "list_all event_admissible (es @ fs)" "runE applyEvent d (es @ fs) = Inr d'"
  shows "ledger_inv d' \<and> (\<exists>d1. runE applyEvent d es = Inr d1 \<and> ledger_inv d1)"
  using agent.run_inv [OF assms] agent.run_prefix_inv [OF assms] by simp

definition demo_events :: "state_event list" where
  "demo_events = [progress_event demo_disk (demo_window 100)
     \<lparr>lc_window = demo_window 100, lc_used = 7, lc_last = 2, lc_closed = False\<rparr> False]"

theorem replay_keeps_invariant_witness:
  "\<exists>d'. runE applyEvent demo_disk (demo_events @ [retire_event ''A'']) = Inr d' \<and> ledger_inv d'
     \<and> look0 (d_Used d') ''C'' = 7"
proof -
  let ?r = "runE applyEvent demo_disk (demo_events @ [retire_event ''A''])"
  have adm: "list_all event_admissible (demo_events @ [retire_event ''A''])" by code_simp
  have "(case ?r of Inl _ \<Rightarrow> False | Inr d' \<Rightarrow> look0 (d_Used d') ''C'' = 7)" by code_simp
  then obtain d' where d': "?r = Inr d'" "look0 (d_Used d') ''C'' = 7" by (auto split: sum.splits)
  with replay_keeps_invariant [OF demo_ledger adm d'(1)] show ?thesis by blast
qed

text \<open>Facts about retired leases and direct charges that the next properties use.\<close>

lemma retire_absent_keeps: "has m i \<Longrightarrow> has (retire_absent act ids m) i"
  unfolding retire_absent_def by (induction ids arbitrary: m) auto

lemma applyEvent_retired:
  assumes "has (d_Retired d) i" "applyEvent d e = Inr d'"
  shows "has (d_Retired d') i"
  using assms
  by (auto simp: applyEvent_def applyCreditDisk_def applyReserve_def applyProgress_def applyUsage_def applyConfig_def
      spend_def bindE_def Let_def retire_absent_keeps split: if_splits option.splits sum.splits)

lemma applyEvent_used:
  assumes "e_Kind e \<noteq> ''credit_reserve''" "e_Kind e \<noteq> ''credit_progress''" "e_Kind e \<noteq> ''usage''" "applyEvent d e = Inr d'"
  shows "d_Used d' = d_Used d"
  using assms
  by (auto simp: applyEvent_def applyConfig_def Let_def split: option.splits if_splits)

lemma retired_total_le:
  assumes inv: "ledger_inv d" and ret: "has (d_Retired d) i" and ok: "applyEvent d e = Inr d'"
  shows "look0 (d_Used d') i + creditLiability d' i \<le> look0 (d_Used d) i + creditLiability d i"
proof -
  note dk = maps_wfD(4) [OF ledger_invD(1) [OF inv]]
  consider (credit) "e_Kind e = ''credit_reserve'' \<or> e_Kind e = ''credit_progress''"
    | (usage) "e_Kind e = ''usage''"
    | (other) "e_Kind e \<notin> {''credit_reserve'', ''credit_progress'', ''usage''}" by blast
  then show ?thesis
  proof cases
    case credit
    with ok have "applyCreditDisk d e = Inr d'" by (auto simp: applyEvent_def)
    then show ?thesis
    proof (cases rule: applyCreditDisk_cases)
      case (reserve w l)
      note R = reserve_okD [OF reserve(4)]
      have "w_LeaseID w \<noteq> i" using R(7) ret by auto
      then show ?thesis
        using win_total_reserve(1) [OF dk R(2), of "\<lambda>v. w_LeaseID v = i" l]
        by (simp add: reserve(5) creditLiability_def weigh_def applyReserve_def)
    next
      case (progress w)
      obtain old delta where adv: "advances d w (e_Usage e) old delta"
        by (rule progress_advances [OF progress(3)])
      have "P old = P w" if "P = (\<lambda>v. w_LeaseID v = i)" for P using adv that by (simp add: advances_def)
      then show ?thesis
        using applyProgress_liability(1) [OF dk adv, of "\<lambda>v. w_LeaseID v = i"] applyProgress_used [OF adv, of i] adv
        by (auto simp: progress(4) creditLiability_def advances_def)
    qed
  next
    case usage
    with ok have "applyUsage d e = Inr d'" by (simp add: applyEvent_def)
    then obtain u where u: "e_Usage e = Some u" "\<not> has (d_Retired d) (u_LeaseID u)"
      "look0 (d_Used d') i = look0 (d_Used d) i + (if i = u_LeaseID u then usage_bytes u else 0)"
      "d_Windows d' = d_Windows d"
      by (auto simp: applyUsage_def spend_def Let_def bindE_eq_Inr split: option.splits if_splits)
    then show ?thesis using ret by (auto simp: win_total_cong(3) [OF u(4)])
  next
    case other
    then have k: "e_Kind e \<noteq> ''credit_reserve''" "e_Kind e \<noteq> ''credit_progress''" "e_Kind e \<noteq> ''usage''" by blast+
    show ?thesis
      using applyEvent_used [OF k ok] win_total_cong(3) [OF applyEvent_windows [OF k(1,2) ok], of i] by simp
  qed
qed

text \<open>retirement is final. Once a lease is retired it stays so through every event the ledger accepts,
  and what has been spent and promised on it together never grows again: a retired allocation
  cannot be spent twice.\<close>

theorem retirement_final:
  assumes "ledger_inv d" "list_all event_admissible es" "has (d_Retired d) i" "runE applyEvent d es = Inr d'"
  shows "has (d_Retired d') i
    \<and> look0 (d_Used d') i + creditLiability d' i \<le> look0 (d_Used d) i + creditLiability d i"
  using assms
proof (induction es arbitrary: d)
  case Nil
  then show ?case by simp
next
  case (Cons e es)
  obtain d1 where d1: "applyEvent d e = Inr d1" "runE applyEvent d1 es = Inr d'"
    using Cons.prems(4) by (auto split: sum.splits)
  have "ledger_inv d1" using Cons.prems(1,2) d1(1) by (auto intro: applyEvent_inv)
  moreover have "has (d_Retired d1) i" by (rule applyEvent_retired [OF Cons.prems(3) d1(1)])
  ultimately show ?case
    using Cons.IH [of d1] d1(2) Cons.prems(2) retired_total_le [OF Cons.prems(1,3) d1(1)] by simp
qed

definition demo_retired :: disk_state where
  "demo_retired = demo_disk\<lparr>d_Retired := [(''A'', False)]\<rparr>"

theorem retirement_final_witness:
  "\<exists>d'. runE applyEvent demo_retired demo_events = Inr d' \<and> has (d_Retired d') ''A''
     \<and> look0 (d_Used d') ''A'' + creditLiability d' ''A'' \<le> 5"
proof -
  have inv: "ledger_inv demo_retired"
    unfolding demo_retired_def by (rule other_fields_inv) (simp_all add: demo_ledger distinct_keys_def)
  have adm: "list_all event_admissible demo_events" by code_simp
  have r: "has (d_Retired demo_retired) ''A''" by code_simp
  have "(case runE applyEvent demo_retired demo_events of Inl _ \<Rightarrow> False | Inr d' \<Rightarrow> True)" by code_simp
  then obtain d' where d': "runE applyEvent demo_retired demo_events = Inr d'" by (auto split: sum.splits)
  have "look0 (d_Used demo_retired) ''A'' + creditLiability demo_retired ''A'' = 5" by code_simp
  with retirement_final [OF inv adm r d'] d' show ?thesis by simp
qed

lemma prune_pending_keeps:
  assumes "u \<in> set (d_Pending d)"
  shows "look0 (d_Used (fst (pruneLeaseHistory now d))) (u_LeaseID u) = look0 (d_Used d) (u_LeaseID u)"
    "d_Pending (fst (pruneLeaseHistory now d)) = d_Pending d"
proof -
  have "u_LeaseID u \<in> set (referenced d)" using assms by (auto simp: referenced_def)
  then have "u_LeaseID u \<notin> set (prunable now d)" using prunable_unreferenced by blast
  then show "look0 (d_Used (fst (pruneLeaseHistory now d))) (u_LeaseID u) = look0 (d_Used d) (u_LeaseID u)"
    "d_Pending (fst (pruneLeaseHistory now d)) = d_Pending d"
    by (simp_all add: pruneLeaseHistory_def Let_def look0_def drop_keys_lookup)
qed

text \<open>The request of a direct charge that the lease can fund.\<close>

definition direct_charge :: "tick \<Rightarrow> store \<Rightarrow> state_request \<Rightarrow> lease \<Rightarrow> bool" where
  "direct_charge t s q l \<longleftrightarrow> e_Kind (q_event q) = ''charge'' \<and> \<not> t_ctxErr t \<and> 0 < q_n q \<and> q_n q \<le> max_int64
     \<and> t_id t \<noteq> None \<and> t_id t \<noteq> Some [] \<and> e_Config (q_event q) = None
     \<and> (let r = spendingRuleLocked (t_now t) s (q_rule q) (q_until q) (q_n q) in
        availableLocked (t_now t) s r (q_until q) 0 = None \<and> r_Lease r = Some l
        \<and> q_n q \<le> l_Bytes l - look0 (d_Used (s_state s)) (l_ID l) - creditLiability (s_state s) (l_ID l))"

lemma direct_charge_step:
  assumes d: "direct_charge t s q l" and inv: "store_inv s" and i: "t_id t = Some i"
  defines "r \<equiv> spendingRuleLocked (t_now t) s (q_rule q) (q_until q) (q_n q)"
  defines "u \<equiv> charge_usage (s_state s) r l (q_upload q) (q_n q) i (t_stamp t)"
  shows "ba_events (snd (snd (batch_loop s \<lparr>ba_events = [], ba_reserved = [], ba_retiring = [], ba_known = [],
        ba_pending = int (length (d_Pending (s_state s)))\<rparr> [(q, t)])))
      = [event0\<lparr>e_Kind := ''usage'', e_Usage := Some u, e_Lease := (if has (d_Leases (s_state s)) (l_ID l) then None else Some l)\<rparr>]"
    "fst (batch_loop s \<lparr>ba_events = [], ba_reserved = [], ba_retiring = [], ba_known = [],
        ba_pending = int (length (d_Pending (s_state s)))\<rparr> [(q, t)]) = [None]"
    "fst (snd (batch_loop s \<lparr>ba_events = [], ba_reserved = [], ba_retiring = [], ba_known = [],
        ba_pending = int (length (d_Pending (s_state s)))\<rparr> [(q, t)])) = s"
proof -
  have av: "availableLocked (t_now t) s r (q_until q) 0 = None" and l: "r_Lease r = Some l"
    and n: "0 < q_n q" "q_n q \<le> l_Bytes l - look0 (d_Used (s_state s)) (l_ID l) - creditLiability (s_state s) (l_ID l)"
    and k: "e_Kind (q_event q) = ''charge''" "\<not> t_ctxErr t"
    using d by (simp_all add: direct_charge_def r_def Let_def)
  note A = availableLockedD [OF av l]
  have "0 \<le> look0 (d_Used (s_state s)) (l_ID l)" "0 \<le> creditLiability (s_state s) (l_ID l)"
    using ledger_invD [OF store_invD(1) [OF inv]] by (simp_all add: look0_nonneg creditLiability_nonneg)
  then have le: "\<not> q_n q > l_Bytes l" using n by linarith
  have room: "\<not> int (length (d_Pending (s_state s))) + int (length (d_Windows (s_state s))) \<ge> MaxPendingRecords"
    using A(9) by (simp add: spool_def)
  have "charge_step t s \<lparr>ba_events = [], ba_reserved = [], ba_retiring = [], ba_known = [],
        ba_pending = int (length (d_Pending (s_state s)))\<rparr> q
    = (None, s, \<lparr>ba_events = [event0\<lparr>e_Kind := ''usage'', e_Usage := Some u,
          e_Lease := (if has (d_Leases (s_state s)) (l_ID l) then None else Some l)\<rparr>],
        ba_reserved = [(l_ID l, q_n q)], ba_retiring = [],
        ba_known = (if has (d_Leases (s_state s)) (l_ID l) then [] else [l_ID l]),
        ba_pending = int (length (d_Pending (s_state s))) + 1\<rparr>)"
    using n le room
    unfolding charge_step_def r_def [symmetric] Let_def av option.case l i u_def
    by (simp add: look0_def)
  then show "ba_events (snd (snd (batch_loop s \<lparr>ba_events = [], ba_reserved = [], ba_retiring = [], ba_known = [],
        ba_pending = int (length (d_Pending (s_state s)))\<rparr> [(q, t)])))
      = [event0\<lparr>e_Kind := ''usage'', e_Usage := Some u, e_Lease := (if has (d_Leases (s_state s)) (l_ID l) then None else Some l)\<rparr>]"
    "fst (batch_loop s \<lparr>ba_events = [], ba_reserved = [], ba_retiring = [], ba_known = [],
        ba_pending = int (length (d_Pending (s_state s)))\<rparr> [(q, t)]) = [None]"
    "fst (snd (batch_loop s \<lparr>ba_events = [], ba_reserved = [], ba_retiring = [], ba_known = [],
        ba_pending = int (length (d_Pending (s_state s)))\<rparr> [(q, t)])) = s"
    by (simp_all add: batch_step_def k)
qed

lemma direct_charge_applies:
  assumes d: "direct_charge t s q l" and inv: "store_inv s" and i: "t_id t = Some i"
  defines "r \<equiv> spendingRuleLocked (t_now t) s (q_rule q) (q_until q) (q_n q)"
  defines "u \<equiv> charge_usage (s_state s) r l (q_upload q) (q_n q) i (t_stamp t)"
  defines "e \<equiv> event0\<lparr>e_Kind := ''usage'', e_Usage := Some u, e_Lease := (if has (d_Leases (s_state s)) (l_ID l) then None else Some l)\<rparr>"
  shows "\<exists>d'. applyEvent (s_state s) e = Inr d' \<and> d_Windows d' = d_Windows (s_state s)
    \<and> d_Pending d' = d_Pending (s_state s) @ [u]
    \<and> look0 (d_Used d') (l_ID l) = look0 (d_Used (s_state s)) (l_ID l) + q_n q"
proof -
  let ?d = "s_state s"
  have av: "availableLocked (t_now t) s r (q_until q) 0 = None" and l: "r_Lease r = Some l"
    and n: "0 < q_n q" "q_n q \<le> max_int64" "q_n q \<le> l_Bytes l - look0 (d_Used ?d) (l_ID l) - creditLiability ?d (l_ID l)"
    and ne: "i \<noteq> []"
    using d i by (auto simp: direct_charge_def r_def Let_def)
  note A = availableLockedD [OF av l]
  have u: "u_LeaseID u = l_ID l" "u_ID u = i" "usage_bytes u = q_n q" "u_NodeID u = reg_NodeID (d_Identity ?d)"
    "u_EntitlementID u = l_EntitlementID l" "0 \<le> u_UploadBytes u" "0 \<le> u_DownloadBytes u"
    "\<not> u_UploadBytes u > max_int64 - u_DownloadBytes u"
    using n by (simp_all add: u_def charge_usage_def usage_bytes_def)
  have e: "e_Usage e = Some u" "e_Kind e = ''usage''" by (simp_all add: e_def)
  show ?thesis
  proof (cases "map_of (d_Leases ?d) (l_ID l)")
    case (Some old)
    then have "l_Bytes old = l_Bytes l" "l_EntitlementID old = l_EntitlementID l"
      using A(5) by (auto simp: sameLease_def)
    with Some A(4,9) n u ne show ?thesis
      by (simp add: applyEvent_def e applyUsage_def Let_def spend_def)
  next
    case None
    have eL: "e_Lease e = Some l" using None by (simp add: e_def has_def)
    have "creditLiability (?d\<lparr>d_Leases := m\<rparr>) j = creditLiability ?d j" "spool (?d\<lparr>d_Leases := m\<rparr>) = spool ?d" for m j
      by (simp_all add: creditLiability_def win_total_def spool_def)
    with None A(4,9) n u ne eL show ?thesis
      by (simp add: applyEvent_def e applyUsage_def Let_def spend_def)
  qed
qed

text \<open>a direct charge that the lease can fund is carried out exactly: the request succeeds, one usage
  record for exactly \<open>n\<close> bytes is appended behind the pending ones, and the lease has carried exactly
  \<open>n\<close> more bytes.\<close>

theorem direct_charge_exact:
  assumes "store_inv s" "\<not> s_failed s" "direct_charge t s q l" "io_good io s 1"
  shows "\<exists>s'. process_events io s [(q, t)] = ([None], s') \<and> store_inv s' \<and> \<not> s_failed s'
    \<and> (\<exists>u. usage_bytes u = q_n q \<and> u_LeaseID u = l_ID l \<and> d_Pending (s_state s') = d_Pending (s_state s) @ [u])
    \<and> spent s' (l_ID l) = spent s (l_ID l) + q_n q"
proof -
  obtain i where i: "t_id t = Some i" using assms(3) by (auto simp: direct_charge_def)
  define r where "r = spendingRuleLocked (t_now t) s (q_rule q) (q_until q) (q_n q)"
  define u where "u = charge_usage (s_state s) r l (q_upload q) (q_n q) i (t_stamp t)"
  define e where "e = event0\<lparr>e_Kind := ''usage'', e_Usage := Some u, e_Lease := (if has (d_Leases (s_state s)) (l_ID l) then None else Some l)\<rparr>"
  note st = direct_charge_step [OF assms(3,1) i, folded r_def, folded u_def, folded e_def]
  obtain d' where d': "applyEvent (s_state s) e = Inr d'" "d_Windows d' = d_Windows (s_state s)"
    "d_Pending d' = d_Pending (s_state s) @ [u]"
    "look0 (d_Used d') (l_ID l) = look0 (d_Used (s_state s)) (l_ID l) + q_n q"
    using direct_charge_applies [OF assms(3,1) i, folded r_def, folded u_def, folded e_def] by blast
  have all: "apply_all s [e] = (None, s\<lparr>s_state := d'\<rparr>)"
    using d'(1) by (simp add: store_apply_def e_def)
  have io: "io_ok io s [e]" by (rule io_good_ok [OF assms(4)]) simp_all
  obtain s' where s': "append_apply io s [e] = (None, s')" "s_credits s' = s_credits s" "s_failed s' = s_failed s"
    "s_state s' = d' \<or> s_state s' = fst (pruneLeaseHistory (io_now io) d')"
    by (rule append_apply_ok [OF io all]) simp
  have ul: "u_LeaseID u = l_ID l" "usage_bytes u = q_n q"
    by (simp_all add: u_def charge_usage_def usage_bytes_def)
  have mem: "u \<in> set (d_Pending d')" by (simp add: d'(3))
  have "look0 (d_Used (s_state s')) (l_ID l) = look0 (d_Used d') (l_ID l)" "d_Pending (s_state s') = d_Pending d'"
    using s'(4) prune_pending_keeps [OF mem, of "io_now io"] ul(1) by auto
  with d' s'(2) have "spent s' (l_ID l) = spent s (l_ID l) + q_n q"
    "d_Pending (s_state s') = d_Pending (s_state s) @ [u]"
    by (simp_all add: spent_def live_spent_def)
  moreover have pe: "process_events io s [(q, t)] = ([None], s')"
    using st s'(1) unfolding process_events_def by (simp add: case_prod_beta)
  moreover have "store_inv s'"
  proof -
    have "plain_requests [(q, t)]"
      using assms(3) by (simp add: plain_requests_def direct_charge_def event_admissible_def)
    from process_events_inv [OF assms(1) this, of io] show ?thesis by (simp add: pe)
  qed
  ultimately show ?thesis using s'(3) assms(2) ul by blast
qed

definition demo_direct :: state_request where
  "demo_direct = demo_request ''charge'' (demo_rule ''u1'' ''udp'' (demo_lease ''A'' 10)) 4"

theorem direct_charge_exact_witness:
  "\<exists>s'. process_events demo_io demo_store [(demo_direct, demo_tick (Some ''id'') 3)] = ([None], s')
     \<and> spent s' ''A'' = 9"
proof -
  have d: "direct_charge (demo_tick (Some ''id'') 3) demo_store demo_direct (demo_lease ''A'' 10)" by code_simp
  have nf: "\<not> s_failed demo_store" by code_simp
  have "spent demo_store ''A'' = 5" "q_n demo_direct = 4" "l_ID (demo_lease ''A'' 10) = ''A''" by code_simp+
  with direct_charge_exact [OF demo_inv nf d demo_io_good] show ?thesis by auto
qed

section \<open>Failures\<close>





end
