(* ===== verification/Bytes.thy ===== *)
theory Bytes
  imports Go_Prelude
begin

text \<open>
  Big-endian numbers in byte sequences (\<open>encoding/binary\<close>), as the write-ahead log and the frames of a tunnel store them.
\<close>

fun put_be :: "nat \<Rightarrow> int \<Rightarrow> bytes" where
  "put_be 0 n = []"
| "put_be (Suc k) n = put_be k (n div 256) @ [word_of_int n]"

definition get_be :: "bytes \<Rightarrow> nat" where
  "get_be bs = foldl (\<lambda>a b. a * 256 + unat b) 0 bs"

lemma length_put_be [simp]: "length (put_be k n) = k"
  by (induction k arbitrary: n) auto

lemma unat_byte: "unat (word_of_int n :: 8 word) = nat (n mod 256)"
  by (simp add: unsigned_of_int take_bit_eq_mod)

lemma get_put_be: "0 \<le> n \<Longrightarrow> n < 256 ^ k \<Longrightarrow> get_be (put_be k n) = nat n"
proof (induction k arbitrary: n)
  case 0
  then show ?case by (simp add: get_be_def)
next
  case (Suc k)
  have "0 \<le> n div 256" "n div 256 < 256 ^ k" using Suc.prems by auto
  then have "get_be (put_be (Suc k) n) = nat (n div 256) * 256 + nat (n mod 256)"
    using Suc.IH by (simp add: get_be_def unat_byte)
  also have "\<dots> = nat (n div 256 * 256 + n mod 256)"
    using Suc.prems(1) by (simp only: nat_add_distrib nat_mult_distrib pos_imp_zdiv_nonneg_iff zero_less_numeral
        mult_nonneg_nonneg zero_le_numeral pos_mod_sign) simp
  finally show ?case by simp
qed

definition be64 :: "u64 \<Rightarrow> bytes" where "be64 q = put_be 8 (uint q)"
definition be32 :: "32 word \<Rightarrow> bytes" where "be32 q = put_be 4 (uint q)"

definition get64 :: "bytes \<Rightarrow> u64" where "get64 b = word_of_nat (get_be b)"
definition get32 :: "bytes \<Rightarrow> 32 word" where "get32 b = word_of_nat (get_be b)"

lemma be64_roundtrip [simp]: "get64 (be64 q) = q" "length (be64 q) = 8"
proof -
  have "uint q < 256 ^ 8" using uint_range_size [of q] by (simp add: word_size)
  then show "get64 (be64 q) = q" by (simp add: get64_def be64_def get_put_be)
qed (simp add: be64_def)

lemma be32_roundtrip [simp]: "get32 (be32 q) = q" "length (be32 q) = 4"
proof -
  have "uint q < 256 ^ 4" using uint_range_size [of q] by (simp add: word_size)
  then show "get32 (be32 q) = q" by (simp add: get32_def be32_def get_put_be)
qed (simp add: be32_def)

end
