(* ===== verification/Wal.thy ===== *)
theory Wal
  imports Ledger_Inv Bytes
begin

text \<open>
  The byte format of the Agent's write-ahead log and its recovery (\<open>internal/agent/wal.go\<close>). The log
  is a header with the sequence number of the checkpoint it follows, then records: a magic word, the
  payload length, the sequence number, a checksum of these and the payload, a checksum of the
  header, and the payload. The payload is the JSON text of an event; the JSON codec is the parameter
  \<open>json\<close>, of which only the round trip and the absence of NUL bytes in a text are used. Checksums
  are CRC-32C, computed bit by bit as the polynomial defines it.
\<close>

unbundle bit_operations_syntax

section \<open>CRC-32C\<close>

definition castagnoli :: "32 word" where "castagnoli = 0x82f63b78"

definition crc_bit :: "32 word \<Rightarrow> 32 word" where
  "crc_bit c = (if bit c 0 then drop_bit 1 c XOR castagnoli else drop_bit 1 c)"

definition crc_byte :: "8 word \<Rightarrow> 32 word \<Rightarrow> 32 word" where
  "crc_byte b c = (crc_bit ^^ 8) (c XOR ucast b)"

definition crc_Update :: "32 word \<Rightarrow> bytes \<Rightarrow> 32 word" where
  "crc_Update crc p = NOT (fold crc_byte p (NOT crc))"

definition crc_Checksum :: "bytes \<Rightarrow> 32 word" where
  "crc_Checksum p = crc_Update 0 p"

lemma crc_Update_append: "crc_Update (crc_Update c p) q = crc_Update c (p @ q)"
  by (simp add: crc_Update_def)

definition ascii :: "string \<Rightarrow> bytes" where
  "ascii s = map (\<lambda>c. word_of_nat (of_char c)) s"


section \<open>Records\<close>

datatype wal_error =
    EventTooLarge | MarshalFailed | IncompleteHeader | CorruptHeader | CheckpointMissing
  | CorruptTail | Corruption | HeaderChecksum | BadLengthOrSequence | RecoveryBound | InteriorLength
  | ChecksumCorruption | UnknownEvent | ReplayFailed agent_error | SnapshotTooLarge | SnapshotSyntax
  | CorruptCheckpoint | CheckpointLimit | SnapshotInvalid agent_error | WalMissing | SequenceOverflow

record checkpoint =
  cp_Version :: int
  cp_Sequence :: u64
  cp_State :: bytes
  cp_CRC :: "32 word"

record json =
  js_marshal :: "state_event \<Rightarrow> bytes option"
  js_unmarshal :: "bytes \<Rightarrow> state_event option"
  js_state :: "disk_state \<Rightarrow> bytes option"
  js_unstate :: "bytes \<Rightarrow> disk_state option"
  js_checkpoint :: "checkpoint \<Rightarrow> bytes option"
  js_uncheckpoint :: "bytes \<Rightarrow> checkpoint option"

definition walVersion :: nat where "walVersion = 2"
definition headerSize :: nat where "headerSize = 20"
definition recordHeaderSize :: nat where "recordHeaderSize = 24"
definition maxWALRecord :: nat where "maxWALRecord = 4194304"
definition checkpointBytes :: nat where "checkpointBytes = 8388608"

definition walMagic :: bytes where "walMagic = ascii ''TFPWAL02''"
definition walMagic1 :: bytes where "walMagic1 = ascii ''TFPWAL01''"
definition recordMagic :: bytes where "recordMagic = ascii ''EV01''"

definition checksum :: "u64 \<Rightarrow> bytes \<Rightarrow> 32 word" where
  "checksum q b = crc_Update (crc_Update 0 (be64 q)) b"

definition walHeader :: "u64 \<Rightarrow> bytes" where
  "walHeader base = (let b = walMagic @ be64 base in b @ be32 (crc_Checksum b))"

definition record_prefix :: "u64 \<Rightarrow> nat \<Rightarrow> bytes" where
  "record_prefix q n = recordMagic @ be32 (word_of_nat n) @ be64 q"

definition record_bytes :: "u64 \<Rightarrow> bytes \<Rightarrow> bytes" where
  "record_bytes q payload =
     (let h16 = record_prefix q (length payload);
          h20 = h16 @ be32 (crc_Update (crc_Update 0 h16) payload)
      in h20 @ be32 (crc_Checksum h20) @ payload)"

definition encodeRecord :: "json \<Rightarrow> u64 \<Rightarrow> state_event \<Rightarrow> wal_error + bytes" where
  "encodeRecord js q e = (case js_marshal js e of None \<Rightarrow> Inl MarshalFailed | Some payload \<Rightarrow>
     if length payload > maxWALRecord then Inl EventTooLarge else Inr (record_bytes q payload))"

text \<open>The batch that \<open>appendEvents\<close> writes, after the sequence number \<open>q\<close>.\<close>

fun encode_batch :: "json \<Rightarrow> u64 \<Rightarrow> u64 \<Rightarrow> state_event list \<Rightarrow> wal_error + bytes" where
  "encode_batch js q0 q [] = Inr []"
| "encode_batch js q0 q (e # es) =
     (if q + 1 \<le> q0 then Inl SequenceOverflow
      else bindE (encodeRecord js (q + 1) e) (\<lambda>b. bindE (encode_batch js q0 (q + 1) es) (\<lambda>bs. Inr (b @ bs))))"

section \<open>Replay\<close>

definition field :: "nat \<Rightarrow> nat \<Rightarrow> bytes \<Rightarrow> bytes" where
  "field i n b = take n (drop i b)"

definition header_ok :: "bytes \<Rightarrow> bool" where
  "header_ok h \<longleftrightarrow> get32 (field 20 4 h) = crc_Checksum (take 20 h)"

definition payload_ok :: "bytes \<Rightarrow> bytes \<Rightarrow> bool" where
  "payload_ok h payload \<longleftrightarrow> crc_Update (crc_Update 0 (take 16 h)) payload = get32 (field 16 4 h)"

definition record_len :: "bytes \<Rightarrow> nat" where "record_len h = unat (get32 (field 4 4 h))"
definition record_seq :: "bytes \<Rightarrow> u64" where "record_seq h = get64 (field 8 8 h)"

definition intact_at :: "bytes \<Rightarrow> u64 \<Rightarrow> bool" where
  "intact_at b q \<longleftrightarrow> take 4 b = recordMagic \<and> header_ok (take recordHeaderSize b)
     \<and> \<not> (record_len b = 0 \<or> record_len b > maxWALRecord \<or> record_len b > length b - recordHeaderSize
          \<or> record_seq b \<le> q)
     \<and> payload_ok b (field recordHeaderSize (record_len b) b)"

fun scan_records :: "bytes \<Rightarrow> u64 \<Rightarrow> bool" where
  "scan_records [] q = False"
| "scan_records (x # b) q = (recordHeaderSize \<le> length (x # b) \<and> (intact_at (x # b) q \<or> scan_records b q))"

definition hasFollowingRecord :: "bytes \<Rightarrow> u64 \<Rightarrow> wal_error + bool" where
  "hasFollowingRecord b q = (if length b > checkpointBytes + maxWALRecord then Inl RecoveryBound
     else Inr (scan_records b q))"

record replayed =
  rp_state :: disk_state
  rp_seq :: u64
  rp_kept :: nat

text \<open>One record at the head of \<open>b\<close> (which is long enough for a record header): stop because the tail
  is torn (\<open>None\<close>), or the new state and the size of the record.\<close>

definition replay_record :: "json \<Rightarrow> u64 \<Rightarrow> replayed \<Rightarrow> bytes \<Rightarrow> wal_error + (replayed \<times> nat) option" where
  "replay_record js expected r b =
     (if take 4 b \<noteq> recordMagic then Inl Corruption
      else if \<not> header_ok (take recordHeaderSize b) then Inl HeaderChecksum
      else let n = record_len b; q = record_seq b in
        if n = 0 \<or> n > maxWALRecord \<or> q \<noteq> expected then Inl BadLengthOrSequence
        else if n > length b - recordHeaderSize then
          bindE (hasFollowingRecord (drop 1 b) q) (\<lambda>found. if found then Inl InteriorLength else Inr None)
        else let payload = field recordHeaderSize n b in
          if \<not> payload_ok b payload then Inl ChecksumCorruption
          else if q > rp_seq r then
            (case js_unmarshal js payload of None \<Rightarrow> Inl UnknownEvent | Some e \<Rightarrow>
               (case applyEvent (rp_state r) e of Inl err \<Rightarrow> Inl (ReplayFailed err) | Inr d \<Rightarrow>
                  Inr (Some (\<lparr>rp_state = d, rp_seq = q, rp_kept = rp_kept r + recordHeaderSize + n\<rparr>,
                    recordHeaderSize + n))))
          else Inr (Some (r\<lparr>rp_kept := rp_kept r + recordHeaderSize + n\<rparr>, recordHeaderSize + n)))"

lemma replay_record_size:
  "replay_record js x r b = Inr (Some (r', k)) \<Longrightarrow> 0 < k"
  by (auto simp: replay_record_def recordHeaderSize_def Let_def bindE_eq_Inr split: if_splits option.splits sum.splits)

function replay_loop :: "json \<Rightarrow> u64 \<Rightarrow> replayed \<Rightarrow> bytes \<Rightarrow> wal_error + replayed" where
  "replay_loop js expected r b =
     (if b = [] then Inr r
      else if length b < recordHeaderSize then
        (let prefix = min (length b) 4 in
         if take prefix b \<noteq> take prefix recordMagic then Inl CorruptTail else Inr r)
      else (case replay_record js expected r b of
          Inl err \<Rightarrow> Inl err
        | Inr None \<Rightarrow> Inr r
        | Inr (Some (r', k)) \<Rightarrow> replay_loop js (expected + 1) r' (drop k b)))"
  by pat_completeness auto
termination
  by (relation "measure (\<lambda>(_, _, _, b). length b)") (auto dest: replay_record_size)

declare replay_loop.simps [simp del]

definition replay :: "json \<Rightarrow> disk_state \<Rightarrow> u64 \<Rightarrow> bytes \<Rightarrow> wal_error + replayed" where
  "replay js d q w =
     (if length w < headerSize then Inl IncompleteHeader
      else if take 8 w \<noteq> walMagic \<and> take 8 w \<noteq> walMagic1 \<or> get32 (field 16 4 w) \<noteq> crc_Checksum (take 16 w)
      then Inl CorruptHeader
      else let base = get64 (field 8 8 w) in
        if base > q then Inl CheckpointMissing
        else replay_loop js (base + 1) \<lparr>rp_state = d, rp_seq = q, rp_kept = headerSize\<rparr> (drop headerSize w))"

section \<open>The layout of a record\<close>

lemma magic_lengths [simp]: "length recordMagic = 4" "length walMagic = 8" "length walMagic1 = 8"
  by (simp_all add: recordMagic_def walMagic_def walMagic1_def ascii_def)

lemma record_prefix_length [simp]: "length (record_prefix q n) = 16"
  by (simp add: record_prefix_def)

lemma record_bytes_length [simp]: "length (record_bytes q p) = 24 + length p"
  by (simp add: record_bytes_def Let_def)

definition record_head :: "u64 \<Rightarrow> bytes \<Rightarrow> bytes" where
  "record_head q p = (let h16 = record_prefix q (length p);
     h20 = h16 @ be32 (crc_Update (crc_Update 0 h16) p) in h20 @ be32 (crc_Checksum h20))"

lemma record_head_length [simp]: "length (record_head q p) = 24"
  by (simp add: record_head_def Let_def)

lemma record_split: "record_bytes q p = record_head q p @ p"
  by (simp add: record_bytes_def record_head_def Let_def)

lemma unat_of_len: "n \<le> maxWALRecord \<Longrightarrow> unat (word_of_nat n :: 32 word) = n"
  by (simp add: maxWALRecord_def unat_of_nat)

text \<open>Whatever follows the 24 bytes of the header, the fields read back what was written.\<close>

lemma record_head_fields:
  assumes "length p \<le> maxWALRecord"
  shows "take 4 (record_head q p @ t) = recordMagic"
    "take 16 (record_head q p @ t) = record_prefix q (length p)"
    "record_len (record_head q p @ t) = length p" "record_seq (record_head q p @ t) = q"
    "get32 (field 16 4 (record_head q p @ t)) = crc_Update (crc_Update 0 (record_prefix q (length p))) p"
    "header_ok (take recordHeaderSize (record_head q p @ t))"
proof -
  let ?h16 = "record_prefix q (length p)"
  let ?c = "be32 (crc_Update (crc_Update 0 ?h16) p)"
  let ?hc = "be32 (crc_Checksum (?h16 @ ?c))"
  have h: "record_head q p @ t = recordMagic @ be32 (word_of_nat (length p)) @ be64 q @ ?c @ ?hc @ t"
    by (simp add: record_head_def record_prefix_def Let_def)
  have h': "record_head q p @ t = (?h16 @ ?c) @ ?hc @ t"
    by (simp add: record_head_def Let_def)
  show "take 4 (record_head q p @ t) = recordMagic" by (simp add: h)
  show "take 16 (record_head q p @ t) = ?h16" by (simp add: h' del: append_assoc)
  have "field 4 4 (record_head q p @ t) = be32 (word_of_nat (length p))" by (simp add: field_def h)
  then show "record_len (record_head q p @ t) = length p" by (simp add: record_len_def unat_of_len [OF assms])
  have "field 8 8 (record_head q p @ t) = be64 q" by (simp add: field_def h)
  then show "record_seq (record_head q p @ t) = q" by (simp add: record_seq_def)
  have "field 16 4 (record_head q p @ t) = ?c" by (simp add: field_def h)
  then show "get32 (field 16 4 (record_head q p @ t)) = crc_Update (crc_Update 0 ?h16) p" by simp
  have "field 20 4 (take recordHeaderSize (record_head q p @ t)) = ?hc"
    "take 20 (take recordHeaderSize (record_head q p @ t)) = ?h16 @ ?c"
    by (simp_all add: field_def recordHeaderSize_def h' del: append_assoc)
  then show "header_ok (take recordHeaderSize (record_head q p @ t))" by (simp add: header_ok_def)
qed

definition codec_ok :: "json \<Rightarrow> bool" where
  "codec_ok js \<longleftrightarrow> (\<forall>e b. js_marshal js e = Some b \<longrightarrow> js_unmarshal js b = Some e \<and> b \<noteq> [] \<and> 0 \<notin> set b)"

lemma replay_record_intact:
  assumes p: "0 < length p" "length p \<le> maxWALRecord"
  shows "replay_record js q r (record_bytes q p @ t) =
    (if q > rp_seq r then
       (case js_unmarshal js p of None \<Rightarrow> Inl UnknownEvent | Some e \<Rightarrow>
          (case applyEvent (rp_state r) e of Inl err \<Rightarrow> Inl (ReplayFailed err) | Inr d \<Rightarrow>
             Inr (Some (\<lparr>rp_state = d, rp_seq = q, rp_kept = rp_kept r + length (record_bytes q p)\<rparr>, length (record_bytes q p)))))
     else Inr (Some (r\<lparr>rp_kept := rp_kept r + length (record_bytes q p)\<rparr>, length (record_bytes q p))))"
proof -
  note F = record_head_fields [OF p(2), of q "p @ t"]
  have b: "record_bytes q p @ t = record_head q p @ p @ t" by (simp add: record_split)
  have pay: "field recordHeaderSize (length p) (record_head q p @ p @ t) = p"
    by (simp add: field_def recordHeaderSize_def)
  have ok: "payload_ok (record_head q p @ p @ t) p" unfolding payload_ok_def F(2,5) ..
  have ne: "length p \<noteq> 0" "\<not> length p > maxWALRecord"
    "\<not> length p > length (record_head q p @ p @ t) - recordHeaderSize"
    using p by (simp_all add: recordHeaderSize_def)
  show ?thesis
    unfolding b replay_record_def Let_def F(3,4) pay using F(1,6) ok ne
    by (simp add: recordHeaderSize_def add.assoc split: option.splits sum.splits)
qed

section \<open>Replaying what was appended\<close>

lemma encode_batch_Cons:
  assumes "encode_batch js q0 q (e # es) = Inr bs" "codec_ok js"
  obtains p bs' where "js_marshal js e = Some p" "js_unmarshal js p = Some e" "0 < length p" "length p \<le> maxWALRecord"
    "0 \<notin> set p" "encode_batch js q0 (q + 1) es = Inr bs'" "bs = record_bytes (q + 1) p @ bs'" "q + 1 \<noteq> 0"
proof -
  have nz: "q + 1 \<noteq> 0" using assms(1) by (auto split: if_splits)
  obtain p bs' where p: "js_marshal js e = Some p" "length p \<le> maxWALRecord"
    "encode_batch js q0 (q + 1) es = Inr bs'" "bs = record_bytes (q + 1) p @ bs'"
    using assms(1) by (auto simp: encodeRecord_def bindE_eq_Inr split: if_splits option.splits)
  moreover have "js_unmarshal js p = Some e" "0 < length p" "0 \<notin> set p"
    using assms(2) p(1) by (auto simp: codec_ok_def)
  ultimately show ?thesis using that nz by blast
qed

lemma word_succ:
  fixes q :: u64
  assumes "q + 1 \<noteq> 0"
  shows "unat (q + 1) = unat q + 1" "q < q + 1"
proof -
  show *: "unat (q + 1) = unat q + 1"
    using assms by (metis Suc_eq_plus1 add.commute unatSuc)
  show "q < q + 1" by (simp add: word_less_nat_alt *)
qed

lemma encode_batch_length:
  "codec_ok js \<Longrightarrow> encode_batch js q0 q es = Inr bs \<Longrightarrow> unat q + length es < 2 ^ 64 \<and> 24 * length es \<le> length bs"
proof (induction es arbitrary: q bs)
  case Nil
  then show ?case using unsigned_less [of q] by simp
next
  case (Cons e es)
  obtain p bs' where p: "encode_batch js q0 (q + 1) es = Inr bs'" "bs = record_bytes (q + 1) p @ bs'" "q + 1 \<noteq> 0"
    by (rule encode_batch_Cons [OF Cons.prems(2,1)])
  with Cons.IH [OF Cons.prems(1) p(1)] word_succ(1) [OF p(3)] show ?case by simp
qed

text \<open>Records newer than the checkpoint are applied one after the other.\<close>

lemma replay_loop_apply:
  assumes "codec_ok js" "encode_batch js q0 q es = Inr bs" "rp_seq r = q"
  shows "replay_loop js (q + 1) r (bs @ t) = (case runE applyEvent (rp_state r) es of
      Inl err \<Rightarrow> Inl (ReplayFailed err)
    | Inr d \<Rightarrow> replay_loop js (q + of_nat (length es) + 1)
        \<lparr>rp_state = d, rp_seq = q + of_nat (length es), rp_kept = rp_kept r + length bs\<rparr> t)"
  using assms(2,3)
proof (induction es arbitrary: q bs r)
  case Nil
  then show ?case by (cases r) auto
next
  case (Cons e es)
  obtain p bs' where p: "js_unmarshal js p = Some e" "0 < length p" "length p \<le> maxWALRecord"
    "encode_batch js q0 (q + 1) es = Inr bs'" "bs = record_bytes (q + 1) p @ bs'" "q + 1 \<noteq> 0"
    by (rule encode_batch_Cons [OF Cons.prems(1) assms(1)])
  have lt: "rp_seq r < q + 1" using word_succ(2) [OF p(6)] Cons.prems(2) by simp
  have one: "replay_loop js (q + 1) r (record_bytes (q + 1) p @ (bs' @ t)) = (case applyEvent (rp_state r) e of
      Inl err \<Rightarrow> Inl (ReplayFailed err)
    | Inr d \<Rightarrow> replay_loop js (q + 1 + 1)
        \<lparr>rp_state = d, rp_seq = q + 1, rp_kept = rp_kept r + length (record_bytes (q + 1) p)\<rparr> (bs' @ t))"
    using replay_record_intact [OF p(2,3), of js "q + 1" r "bs' @ t"] lt p(1,2)
    by (subst replay_loop.simps) (simp add: recordHeaderSize_def record_split split: sum.splits)
  show ?case
  proof (cases "applyEvent (rp_state r) e")
    case (Inl err)
    then show ?thesis using one p(5) by simp
  next
    case (Inr d)
    let ?r = "\<lparr>rp_state = d, rp_seq = q + 1, rp_kept = rp_kept r + length (record_bytes (q + 1) p)\<rparr>"
    have "replay_loop js (q + 1 + 1) ?r (bs' @ t) = (case runE applyEvent d es of
        Inl err \<Rightarrow> Inl (ReplayFailed err)
      | Inr d \<Rightarrow> replay_loop js (q + 1 + of_nat (length es) + 1)
          \<lparr>rp_state = d, rp_seq = q + 1 + of_nat (length es), rp_kept = rp_kept ?r + length bs'\<rparr> t)"
      using Cons.IH [OF p(4), of ?r] by simp
    then show ?thesis
      using one Inr p(5) by (cases "runE applyEvent d es") (simp_all add: add.assoc add.left_commute)
  qed
qed

text \<open>Records the checkpoint already contains are passed over.\<close>

lemma replay_loop_skip:
  assumes "codec_ok js" "encode_batch js q0 q es = Inr bs" "q + of_nat (length es) \<le> rp_seq r"
  shows "replay_loop js (q + 1) r (bs @ t)
    = replay_loop js (q + of_nat (length es) + 1) (r\<lparr>rp_kept := rp_kept r + length bs\<rparr>) t"
  using assms(2,3)
proof (induction es arbitrary: q bs r)
  case Nil
  then show ?case by simp
next
  case (Cons e es)
  obtain p bs' where p: "0 < length p" "length p \<le> maxWALRecord"
    "encode_batch js q0 (q + 1) es = Inr bs'" "bs = record_bytes (q + 1) p @ bs'" "q + 1 \<noteq> 0"
    by (rule encode_batch_Cons [OF Cons.prems(1) assms(1)])
  have bound: "unat (q + 1) + length es < 2 ^ 64" using encode_batch_length [OF assms(1) p(3)] by simp
  then have "unat (q + 1 + of_nat (length es)) = unat (q + 1) + length es"
    by (simp add: unat_word_ariths unat_of_nat)
  then have "\<not> rp_seq r < q + 1"
    using Cons.prems(2) by (simp add: word_less_nat_alt word_le_nat_alt add.assoc add.commute add.left_commute)
  then have one: "replay_loop js (q + 1) r (record_bytes (q + 1) p @ (bs' @ t)) = replay_loop js (q + 1 + 1)
        (r\<lparr>rp_kept := rp_kept r + length (record_bytes (q + 1) p)\<rparr>) (bs' @ t)"
    using replay_record_intact [OF p(1,2), of js "q + 1" r "bs' @ t"] p(1)
    by (subst replay_loop.simps) (simp add: recordHeaderSize_def record_split)
  let ?r = "r\<lparr>rp_kept := rp_kept r + length (record_bytes (q + 1) p)\<rparr>"
  have "q + 1 + of_nat (length es) \<le> rp_seq ?r" using Cons.prems(2) by (simp add: algebra_simps)
  from Cons.IH [OF p(3) this] one p(4) show ?case by (simp add: algebra_simps)
qed

section \<open>A torn tail is recognised\<close>

lemma get_be_append: "get_be (xs @ ys) = get_be xs * 256 ^ length ys + get_be ys"
proof (induction ys rule: rev_induct)
  case Nil
  then show ?case by (simp add: get_be_def)
next
  case (snoc y ys)
  have "get_be (xs @ ys @ [y]) = get_be (xs @ ys) * 256 + unat y"
    by (simp add: get_be_def)
  moreover have "get_be (ys @ [y]) = get_be ys * 256 + unat y" by (simp add: get_be_def)
  ultimately show ?case using snoc by (simp add: algebra_simps)
qed

lemma byte_le: "unat (x :: 8 word) \<le> 255"
proof -
  have "unat x < 2 ^ LENGTH(8)" by (rule unsigned_less)
  then show ?thesis by simp
qed

text \<open>Four bytes of a JSON text, none of them NUL, are never a plausible length.\<close>

lemma text_length_implausible:
  assumes "length b = 4" "0 \<notin> set b"
  shows "unat (get32 b) > maxWALRecord"
proof -
  obtain x1 x2 x3 x4 where b: "b = [x1, x2, x3, x4]"
    using assms(1) by (auto simp: eval_nat_numeral length_Suc_conv)
  have pos: "1 \<le> unat x1" using assms(2) b by (auto simp: unat_eq_0 Suc_le_eq zero_less_iff_neq_zero)
  have le: "unat x1 \<le> 255" "unat x2 \<le> 255" "unat x3 \<le> 255" "unat x4 \<le> 255" by (rule byte_le)+
  have g: "get_be b = unat x1 * 16777216 + unat x2 * 65536 + unat x3 * 256 + unat x4"
    by (simp add: get_be_def b algebra_simps)
  have "get_be b < 4294967296" "16777216 \<le> get_be b" using g pos le by linarith+
  then show ?thesis by (simp add: get32_def unat_of_nat maxWALRecord_def)
qed

lemma not_intact_in_payload:
  assumes "20 \<le> j" "j + 8 \<le> m" "length p \<le> maxWALRecord" "0 \<notin> set p" "m \<le> 24 + length p"
  shows "\<not> intact_at (drop j (take m (record_bytes q p))) q'"
proof -
  let ?b = "drop j (take m (record_bytes q p))"
  have m: "take m (record_bytes q p) = record_head q p @ take (m - 24) p"
    using assms(1,2) by (simp add: record_split)
  have "drop 4 ?b = drop (j + 4) (take m (record_bytes q p))" by (simp add: add.commute)
  also have "\<dots> = drop (j - 20) (take (m - 24) p)"
    using assms(1) unfolding m by (simp add: drop_append)
  finally have f: "field 4 4 ?b = take 4 (drop (j - 20) (take (m - 24) p))" by (simp add: field_def)
  have len: "length (field 4 4 ?b) = 4"
    using assms(1,2,5) by (simp add: f)
  have "set (field 4 4 ?b) \<subseteq> set p"
    unfolding f by (meson set_drop_subset set_take_subset subset_trans)
  then have "0 \<notin> set (field 4 4 ?b)" using assms(4) by blast
  from text_length_implausible [OF len this] show ?thesis
    by (simp add: intact_at_def record_len_def)
qed

text \<open>The header of a record is plain when it does not itself contain the magic word at an inner
  offset (in its length, sequence number or checksums).\<close>

definition plain_header :: "u64 \<Rightarrow> bytes \<Rightarrow> bool" where
  "plain_header q p \<longleftrightarrow> list_all (\<lambda>j. take 4 (drop j (record_bytes q p)) \<noteq> recordMagic) [5..<20]"

lemma recordMagic_bytes: "recordMagic = [0x45, 0x56, 0x30, 0x31]"
  by (simp add: recordMagic_def ascii_def)

lemma put_be_4: "put_be 4 n = [word_of_int (n div 256 div 256 div 256), word_of_int (n div 256 div 256),
    word_of_int (n div 256), word_of_int n]"
proof -
  have "(4::nat) = Suc (Suc (Suc (Suc 0)))" by simp
  then show ?thesis by (simp only: put_be.simps append.simps)
qed

lemma length_byte:
  assumes "n \<le> maxWALRecord"
  shows "hd (be32 (word_of_nat n)) = 0"
proof -
  have "int n div 256 div 256 div 256 = 0" using assms by (simp add: maxWALRecord_def)
  moreover have "uint (word_of_nat n :: 32 word) = int n"
    using unat_of_len [OF assms] by (simp only: uint_nat)
  ultimately show ?thesis by (simp add: be32_def put_be_4)
qed

lemma no_inner_magic:
  assumes plain: "plain_header q p" and p: "length p \<le> maxWALRecord" and j: "1 \<le> j" "j < 20" and m: "j + 4 \<le> m"
  shows "take 4 (drop j (take m (record_bytes q p))) \<noteq> recordMagic"
proof -
  have cut: "take 4 (drop j (take m (record_bytes q p))) = take 4 (drop j (record_bytes q p))"
    using m by (simp add: drop_take min_def)
  show ?thesis
  proof (cases "5 \<le> j")
    case True
    then have "j \<in> set [5..<20]" using j by (simp only: set_upt atLeastLessThan_iff)
    then show ?thesis using plain cut unfolding plain_header_def list_all_iff by metis
  next
    case False
    let ?r = "record_bytes q p"
    have r: "?r = 0x45 # 0x56 # 0x30 # 0x31 # (be32 (word_of_nat (length p)) @ drop 8 ?r)"
      by (simp add: record_bytes_def record_prefix_def Let_def recordMagic_bytes)
    have "be32 (word_of_nat (length p)) \<noteq> []" using be32_roundtrip(2) by (metis list.size(3) zero_neq_numeral)
    then have "be32 (word_of_nat (length p)) ! 0 = 0" using length_byte [OF p] by (simp add: hd_conv_nth)
    then have r4: "?r ! 4 = 0" by (subst r) (simp add: nth_append)
    have "?r ! 1 = 0x56" "?r ! 2 = 0x30" "?r ! 3 = 0x31" by (subst r, simp)+
    moreover have "j = 1 \<or> j = 2 \<or> j = 3 \<or> j = 4" using False j by linarith
    ultimately have "?r ! j \<noteq> 0x45" using r4 by auto
    moreover have "hd (take 4 (drop j ?r)) = ?r ! j"
      using j by (simp add: hd_drop_conv_nth hd_take)
    ultimately have "hd (take 4 (drop j ?r)) \<noteq> hd recordMagic" by (simp add: recordMagic_bytes)
    then show ?thesis unfolding cut by (rule contrapos_nn) (rule arg_cong)
  qed
qed

lemma scan_records_false:
  assumes "\<And>j. j + recordHeaderSize \<le> length b \<Longrightarrow> \<not> intact_at (drop j b) q"
  shows "\<not> scan_records b q"
  using assms
proof (induction b)
  case Nil
  then show ?case by simp
next
  case (Cons x b)
  have "\<not> intact_at (drop j b) q" if "j + recordHeaderSize \<le> length b" for j
    using Cons.prems [of "Suc j"] that by simp
  with Cons.IH Cons.prems [of 0] show ?case by auto
qed

lemma torn_record:
  assumes p: "0 < length p" "length p \<le> maxWALRecord" "0 \<notin> set p" and plain: "plain_header q p"
    and m: "0 < m" "m < length (record_bytes q p)"
  shows "replay_loop js q r (take m (record_bytes q p)) = Inr r"
proof -
  let ?t = "take m (record_bytes q p)"
  have len: "length ?t = m" using m by simp
  have ne: "?t \<noteq> []" using len m(1) by (metis less_numeral_extra(3) list.size(3))
  show ?thesis
  proof (cases "m < recordHeaderSize")
    case True
    have "take (min m 4) ?t = take (min m 4) recordMagic"
      by (simp add: record_bytes_def record_prefix_def Let_def min_def)
    then show ?thesis
      using ne True len by (subst replay_loop.simps) (simp add: Let_def)
  next
    case False
    then have m24: "24 \<le> m" by (simp add: recordHeaderSize_def)
    have t: "?t = record_head q p @ take (m - 24) p" using m24 by (simp add: record_split)
    note F = record_head_fields [OF p(2), of q "take (m - 24) p", folded t]
    have none: "\<not> scan_records (drop 1 ?t) q"
    proof (rule scan_records_false)
      fix j assume "j + recordHeaderSize \<le> length (drop 1 ?t)"
      then have j: "Suc j + 24 \<le> m" using m by (simp add: recordHeaderSize_def)
      have "\<not> intact_at (drop (Suc j) ?t) q"
      proof (cases "Suc j < 20")
        case True
        then show ?thesis
          using no_inner_magic [OF plain p(2), of "Suc j" m] j by (simp add: intact_at_def)
      next
        case False
        then show ?thesis using not_intact_in_payload [of "Suc j" m p q q] j m p by simp
      qed
      then show "\<not> intact_at (drop j (drop 1 ?t)) q" by simp
    qed
    have "hasFollowingRecord (drop 1 ?t) q = Inr False"
      using none m p(2) by (simp add: hasFollowingRecord_def maxWALRecord_def checkpointBytes_def)
    moreover have "length p > length ?t - recordHeaderSize"
      using m m24 by (simp add: recordHeaderSize_def)
    ultimately have "replay_record js q r ?t = Inr None"
      using F(1,3,4,6) p by (simp add: replay_record_def Let_def)
    then show ?thesis
      using ne False len by (subst replay_loop.simps) simp
  qed
qed

section \<open>Crashes\<close>

fun plain_batch :: "json \<Rightarrow> u64 \<Rightarrow> state_event list \<Rightarrow> bool" where
  "plain_batch js q [] = True"
| "plain_batch js q (e # es) = ((case js_marshal js e of None \<Rightarrow> True | Some p \<Rightarrow> plain_header (q + 1) p)
     \<and> plain_batch js (q + 1) es)"

lemma replay_loop_Nil [simp]: "replay_loop js x r [] = Inr r"
  by (subst replay_loop.simps) simp

lemma replay_loop_torn:
  assumes "codec_ok js" "encode_batch js q0 q es = Inr bs" "plain_batch js q es"
    "runE applyEvent (rp_state r) es = Inr d'" "rp_seq r = q" "m \<le> length bs"
  shows "\<exists>k d1 kept. k \<le> length es \<and> runE applyEvent (rp_state r) (take k es) = Inr d1
    \<and> replay_loop js (q + 1) r (take m bs) = Inr \<lparr>rp_state = d1, rp_seq = q + of_nat k, rp_kept = kept\<rparr>
    \<and> (m = length bs \<longrightarrow> k = length es)"
  using assms(2-)
proof (induction es arbitrary: q bs r m)
  case Nil
  then show ?case by (intro exI [of _ 0]) (cases r; simp)
next
  case (Cons e es)
  obtain p bs' where p: "js_marshal js e = Some p" "js_unmarshal js p = Some e" "0 < length p"
    "length p \<le> maxWALRecord" "0 \<notin> set p" "encode_batch js q0 (q + 1) es = Inr bs'"
    "bs = record_bytes (q + 1) p @ bs'" "q + 1 \<noteq> 0"
    by (rule encode_batch_Cons [OF Cons.prems(1) assms(1)])
  have plain: "plain_header (q + 1) p" "plain_batch js (q + 1) es" using Cons.prems(2) p(1) by simp_all
  let ?n = "length (record_bytes (q + 1) p)"
  show ?case
  proof (cases "m < ?n")
    case True
    have "replay_loop js (q + 1) r (take m bs) = Inr r"
    proof (cases "m = 0")
      case False
      with True torn_record [OF p(3,4,5) plain(1), of m js r] p(7) show ?thesis by simp
    qed simp
    then show ?thesis
      using True Cons.prems(4) p(7) by (intro exI [of _ 0]) (cases r; simp)
  next
    case False
    obtain d1 where d1: "applyEvent (rp_state r) e = Inr d1" "runE applyEvent d1 es = Inr d'"
      using Cons.prems(3) by (auto split: sum.splits)
    let ?r = "\<lparr>rp_state = d1, rp_seq = q + 1, rp_kept = rp_kept r + ?n\<rparr>"
    have lt: "rp_seq r < q + 1" using word_succ(2) [OF p(8)] Cons.prems(4) by simp
    have cut: "take m bs = record_bytes (q + 1) p @ take (m - ?n) bs'" using False p(7) by simp
    have one: "replay_loop js (q + 1) r (take m bs) = replay_loop js (q + 1 + 1) ?r (take (m - ?n) bs')"
      using replay_record_intact [OF p(3,4), of js "q + 1" r "take (m - ?n) bs'"] lt p(2,3) d1(1)
      unfolding cut by (subst replay_loop.simps) (simp add: recordHeaderSize_def record_split)
    have rest: "m - ?n \<le> length bs'" using Cons.prems(5) p(7) by simp
    obtain k d2 kept where IH: "k \<le> length es" "runE applyEvent d1 (take k es) = Inr d2"
      "replay_loop js (q + 1 + 1) ?r (take (m - ?n) bs') = Inr \<lparr>rp_state = d2, rp_seq = q + 1 + of_nat k, rp_kept = kept\<rparr>"
      "m - ?n = length bs' \<longrightarrow> k = length es"
      using Cons.IH [OF p(6) plain(2), of ?r "m - ?n"] d1(2) rest by auto
    show ?thesis
      by (intro exI [of _ "Suc k"] exI [of _ d2] exI [of _ kept])
        (use IH one d1(1) p(7) False in \<open>simp add: add.assoc add.left_commute\<close>)
  qed
qed

lemma walHeader_fields:
  "length (walHeader base) = headerSize" "take 8 (walHeader base @ t) = walMagic"
  "get64 (field 8 8 (walHeader base @ t)) = base"
  "get32 (field 16 4 (walHeader base @ t)) = crc_Checksum (take 16 (walHeader base @ t))"
  "drop headerSize (walHeader base @ t) = t"
proof -
  have h: "walHeader base @ t = walMagic @ be64 base @ be32 (crc_Checksum (walMagic @ be64 base)) @ t"
    by (simp add: walHeader_def Let_def)
  have t16: "take 16 (walHeader base @ t) = walMagic @ be64 base" by (simp add: h)
  show "length (walHeader base) = headerSize" by (simp add: walHeader_def Let_def headerSize_def)
  show "take 8 (walHeader base @ t) = walMagic" by (simp add: h)
  show "get64 (field 8 8 (walHeader base @ t)) = base" by (simp add: h field_def)
  have "field 16 4 (walHeader base @ t) = be32 (crc_Checksum (walMagic @ be64 base))" by (simp add: h field_def)
  then show "get32 (field 16 4 (walHeader base @ t)) = crc_Checksum (take 16 (walHeader base @ t))"
    by (simp only: t16 be32_roundtrip)
  show "drop headerSize (walHeader base @ t) = t" by (simp add: h headerSize_def)
qed

lemma replay_header:
  "replay js d q (walHeader base @ t) = (if base > q then Inl CheckpointMissing
     else replay_loop js (base + 1) \<lparr>rp_state = d, rp_seq = q, rp_kept = headerSize\<rparr> t)"
  using walHeader_fields(1) [of base] walHeader_fields(2-5) [of base t] by (simp add: replay_def Let_def)


section \<open>The state directory\<close>

text \<open>The two files of the state directory that a restart reads. The temporary files that are
  written before a rename are not read, so they are left out.\<close>

record disk =
  dk_state :: "bytes option"
  dk_wal :: "bytes option"

definition maxSnapshot :: nat where "maxSnapshot = 67108864"

definition zero_state :: disk_state where
  "zero_state = \<lparr>d_Identity = \<lparr>reg_NodeID = '''', reg_Token = ''''\<rparr>,
     d_Config = \<lparr>c_NodeID = '''', c_Version = 0, c_ValidUntil = 0, c_Rules = []\<rparr>,
     d_Used = [], d_Pending = [], d_Retired = [], d_Leases = [], d_Windows = []\<rparr>"

fun init_leases :: "lease option list \<Rightarrow> (string, lease) gomap \<Rightarrow> (string, lease) gomap" where
  "init_leases [] m = m"
| "init_leases (None # ls) m = init_leases ls m"
| "init_leases (Some l # ls) m = init_leases ls (if has m (l_ID l) then m else put (l_ID l) l m)"

definition initializeMaps :: "disk_state \<Rightarrow> disk_state" where
  "initializeMaps d = d\<lparr>d_Leases := init_leases (concat (map ruleLeases (c_Rules (d_Config d)))) (d_Leases d)\<rparr>"

definition snapshot_bytes :: "json \<Rightarrow> u64 \<Rightarrow> disk_state \<Rightarrow> wal_error + bytes" where
  "snapshot_bytes js q d = (case js_state js d of None \<Rightarrow> Inl MarshalFailed | Some st \<Rightarrow>
     if length st > maxSnapshot - 1024 then Inl CheckpointLimit
     else case js_checkpoint js \<lparr>cp_Version = int walVersion, cp_Sequence = q, cp_State = st, cp_CRC = checksum q st\<rparr> of
       None \<Rightarrow> Inl MarshalFailed | Some b \<Rightarrow> Inr b)"

text \<open>The pairs of files a crash during a checkpoint can leave: before the snapshot is renamed into
  place, after it, and after the new log is renamed into place.\<close>

definition replaceWAL :: "u64 \<Rightarrow> disk \<Rightarrow> disk" where
  "replaceWAL base dk = dk\<lparr>dk_wal := Some (walHeader base)\<rparr>"

definition checkpoint_disks :: "json \<Rightarrow> gotime \<Rightarrow> u64 \<Rightarrow> disk_state \<Rightarrow> disk \<Rightarrow> wal_error + disk list" where
  "checkpoint_disks js now q d dk = bindE (snapshot_bytes js q (fst (pruneLeaseHistory now d)))
     (\<lambda>b. let dk1 = dk\<lparr>dk_state := Some b\<rparr> in Inr [dk, dk1, replaceWAL q dk1])"

record snapshot =
  sn_legacy :: bool
  sn_versioned :: bool
  sn_state :: disk_state
  sn_seq :: u64

definition read_snapshot :: "json \<Rightarrow> bytes option \<Rightarrow> wal_error + snapshot" where
  "read_snapshot js f = (case f of
     None \<Rightarrow> Inr \<lparr>sn_legacy = False, sn_versioned = False, sn_state = zero_state, sn_seq = 0\<rparr>
   | Some b \<Rightarrow> if length b > maxSnapshot then Inl SnapshotTooLarge else
      (case js_uncheckpoint js b of None \<Rightarrow> Inl SnapshotSyntax | Some c \<Rightarrow>
        if cp_Version c = 0 then
          (case js_unstate js b of None \<Rightarrow> Inl SnapshotSyntax | Some d \<Rightarrow>
             Inr \<lparr>sn_legacy = True, sn_versioned = False, sn_state = d, sn_seq = 0\<rparr>)
        else if cp_Version c \<noteq> 1 \<and> cp_Version c \<noteq> int walVersion \<or> checksum (cp_Sequence c) (cp_State c) \<noteq> cp_CRC c
        then Inl CorruptCheckpoint
        else (case js_unstate js (cp_State c) of None \<Rightarrow> Inl SnapshotSyntax | Some d \<Rightarrow>
             Inr \<lparr>sn_legacy = (cp_Version c = 1), sn_versioned = True, sn_state = d, sn_seq = cp_Sequence c\<rparr>)))"

definition open_wal :: "json \<Rightarrow> snapshot \<Rightarrow> disk \<Rightarrow> wal_error + (replayed \<times> bool \<times> disk)" where
  "open_wal js sn dk = (case dk_wal dk of
     None \<Rightarrow> if sn_versioned sn then Inl WalMissing
       else Inr (\<lparr>rp_state = sn_state sn, rp_seq = sn_seq sn, rp_kept = headerSize\<rparr>, sn_legacy sn, replaceWAL (sn_seq sn) dk)
   | Some w \<Rightarrow> bindE (replay js (sn_state sn) (sn_seq sn) w)
       (\<lambda>r. Inr (r, sn_legacy sn \<or> take 8 w = walMagic1, dk\<lparr>dk_wal := Some (take (rp_kept r) w)\<rparr>)))"

definition finish_open :: "json \<Rightarrow> gotime \<Rightarrow> replayed \<Rightarrow> bool \<Rightarrow> disk \<Rightarrow> wal_error + (replayed \<times> disk)" where
  "finish_open js now r legacy dk = (case validateSnapshot (rp_state r) of
     Some err \<Rightarrow> Inl (SnapshotInvalid err)
   | None \<Rightarrow> if legacy
       then bindE (checkpoint_disks js now (rp_seq r) (rp_state r) dk)
         (\<lambda>dks. Inr (r\<lparr>rp_state := fst (pruneLeaseHistory now (rp_state r)), rp_kept := headerSize\<rparr>, last dks))
       else Inr (r, dk))"

definition openDurable :: "json \<Rightarrow> gotime \<Rightarrow> disk \<Rightarrow> wal_error + (replayed \<times> disk)" where
  "openDurable js now dk = bindE (read_snapshot js (dk_state dk)) (\<lambda>sn0.
     let sn = sn0\<lparr>sn_state := initializeMaps (sn_state sn0)\<rparr> in
     case validateSnapshot (sn_state sn) of
       Some err \<Rightarrow> Inl (SnapshotInvalid err)
     | None \<Rightarrow> bindE (open_wal js sn dk) (\<lambda>(r, legacy, dk1). finish_open js now r legacy dk1))"

text \<open>What the recovery relies on in the JSON codec: a state and a checkpoint read back as they were
  written.\<close>

definition state_codec_ok :: "json \<Rightarrow> bool" where
  "state_codec_ok js \<longleftrightarrow> (\<forall>d b. js_state js d = Some b \<longrightarrow> js_unstate js b = Some d)
     \<and> (\<forall>c b. js_checkpoint js c = Some b \<longrightarrow> js_uncheckpoint js b = Some c \<and> length b \<le> length (cp_State c) + 1024)"

lemma read_snapshot_written:
  assumes "state_codec_ok js" "snapshot_bytes js q d = Inr b"
  shows "read_snapshot js (Some b) = Inr \<lparr>sn_legacy = False, sn_versioned = True, sn_state = d, sn_seq = q\<rparr>"
proof -
  obtain st where st: "js_state js d = Some st" "length st \<le> maxSnapshot - 1024"
    "js_checkpoint js \<lparr>cp_Version = int walVersion, cp_Sequence = q, cp_State = st, cp_CRC = checksum q st\<rparr> = Some b"
    using assms(2) by (auto simp: snapshot_bytes_def split: option.splits if_splits)
  have un: "js_unstate js st = Some d" "js_uncheckpoint js b = Some
      \<lparr>cp_Version = int walVersion, cp_Sequence = q, cp_State = st, cp_CRC = checksum q st\<rparr>"
    and "length b \<le> length st + 1024"
    using assms(1) st(1,3) by (fastforce simp: state_codec_ok_def)+
  then have "length b \<le> maxSnapshot" using st(2) by (simp add: maxSnapshot_def)
  then show ?thesis by (simp add: read_snapshot_def un walVersion_def)
qed

text \<open>Opening a directory whose snapshot is \<open>d\<close> at \<open>q\<close> is replaying its log from there.\<close>

lemma openDurable_versioned:
  assumes "state_codec_ok js" "snapshot_bytes js q d = Inr b" "validateSnapshot (initializeMaps d) = None"
    "take 8 w = walMagic"
  shows "openDurable js now \<lparr>dk_state = Some b, dk_wal = Some w\<rparr> =
    bindE (replay js (initializeMaps d) q w) (\<lambda>r. case validateSnapshot (rp_state r) of
        Some err \<Rightarrow> Inl (SnapshotInvalid err)
      | None \<Rightarrow> Inr (r, \<lparr>dk_state = Some b, dk_wal = Some (take (rp_kept r) w)\<rparr>))"
proof -
  have ne: "walMagic \<noteq> walMagic1" by (simp add: walMagic_def walMagic1_def ascii_def)
  show ?thesis
    unfolding openDurable_def using assms(3,4) ne
    by (cases "replay js (initializeMaps d) q w")
      (simp_all add: read_snapshot_written [OF assms(1,2)] open_wal_def finish_open_def Let_def cong: option.case_cong)
qed


section \<open>Recovery after a crash\<close>


text \<open>The log of a running Agent after its header: the batches whose append was acknowledged, each
  encoded from the sequence number that the ones before it have reached.\<close>

fun encode_log :: "json \<Rightarrow> u64 \<Rightarrow> state_event list list \<Rightarrow> wal_error + bytes" where
  "encode_log js q [] = Inr []"
| "encode_log js q (es # ess) = bindE (encode_batch js q q es) (\<lambda>b.
     bindE (encode_log js (q + of_nat (length es)) ess) (\<lambda>bs. Inr (b @ bs)))"

definition wal_file :: "json \<Rightarrow> u64 \<Rightarrow> state_event list list \<Rightarrow> wal_error + bytes" where
  "wal_file js base ess = bindE (encode_log js base ess) (\<lambda>bs. Inr (walHeader base @ bs))"

lemma encode_log_Cons:
  assumes "encode_log js q (es # ess) = Inr w"
  obtains b bs where "encode_batch js q q es = Inr b" "encode_log js (q + of_nat (length es)) ess = Inr bs" "w = b @ bs"
  using assms by (auto simp: bindE_eq_Inr)

text \<open>Replaying acknowledged batches is applying their events.\<close>

lemma replay_loop_log:
  assumes "codec_ok js" "encode_log js q ess = Inr w" "rp_seq r = q" "runE applyEvent (rp_state r) (concat ess) = Inr d'"
  shows "replay_loop js (q + 1) r (w @ t) = replay_loop js (q + of_nat (length (concat ess)) + 1)
      \<lparr>rp_state = d', rp_seq = q + of_nat (length (concat ess)), rp_kept = rp_kept r + length w\<rparr> t"
  using assms(2-)
proof (induction ess arbitrary: w r q)
  case Nil
  then show ?case by (cases r) auto
next
  case (Cons es ess)
  let ?q = "q + of_nat (length es)"
  obtain b bs where w: "encode_batch js q q es = Inr b" "encode_log js ?q ess = Inr bs" "w = b @ bs"
    by (rule encode_log_Cons [OF Cons.prems(1)])
  obtain d1 where d1: "runE applyEvent (rp_state r) es = Inr d1" "runE applyEvent d1 (concat ess) = Inr d'"
    using Cons.prems(3) by (auto simp: runE_append bindE_eq_Inr)
  let ?r = "\<lparr>rp_state = d1, rp_seq = ?q, rp_kept = rp_kept r + length b\<rparr>"
  have "replay_loop js (q + 1) r (b @ bs @ t) = replay_loop js (?q + 1) ?r (bs @ t)"
    by (subst replay_loop_apply [OF assms(1) w(1) Cons.prems(2)]) (simp add: d1(1))
  with Cons.IH [OF w(2), of ?r] d1(2) show ?case by (simp add: w(3) add.assoc)
qed

text \<open>Records the checkpoint already holds are passed over, whatever batches they came in.\<close>

lemma replay_loop_old_log:
  assumes "codec_ok js" "encode_log js q ess = Inr w" "unat q + length (concat ess) \<le> unat (rp_seq r)"
  shows "replay_loop js (q + 1) r (w @ t) = replay_loop js (q + of_nat (length (concat ess)) + 1)
      (r\<lparr>rp_kept := rp_kept r + length w\<rparr>) t"
  using assms(2-)
proof (induction ess arbitrary: w r q)
  case Nil
  then show ?case by simp
next
  case (Cons es ess)
  let ?q = "q + of_nat (length es)"
  obtain b bs where w: "encode_batch js q q es = Inr b" "encode_log js ?q ess = Inr bs" "w = b @ bs"
    by (rule encode_log_Cons [OF Cons.prems(1)])
  have "unat q + length es < 2 ^ 64" using encode_batch_length [OF assms(1) w(1)] by simp
  then have q: "unat ?q = unat q + length es" by (simp add: unat_word_ariths unat_of_nat)
  then have le: "?q \<le> rp_seq r" using Cons.prems(2) by (simp add: word_le_nat_alt)
  let ?r = "r\<lparr>rp_kept := rp_kept r + length b\<rparr>"
  have "replay_loop js (q + 1) r (b @ bs @ t) = replay_loop js (?q + 1) ?r (bs @ t)"
    by (rule replay_loop_skip [OF assms(1) w(1) le])
  with Cons.IH [OF w(2), of ?r] Cons.prems(2) q show ?case by (simp add: w(3) add.assoc)
qed

text \<open>A crash while a batch is appended: the acknowledged batches are replayed in full, and of the
  batch in flight a prefix.\<close>

lemma replay_torn_log:
  assumes js: "codec_ok js" and w: "wal_file js base ess = Inr w"
    and run: "runE applyEvent d (concat ess @ es) = Inr d'"
    and q: "q = base + of_nat (length (concat ess))"
    and bs: "encode_batch js q q es = Inr bs" "plain_batch js q es"
    and m: "m \<le> length bs"
  shows "\<exists>k d1 kept. k \<le> length es \<and> runE applyEvent d (concat ess @ take k es) = Inr d1
    \<and> replay js d base (w @ take m bs) = Inr \<lparr>rp_state = d1, rp_seq = q + of_nat k, rp_kept = kept\<rparr>
    \<and> (m = length bs \<longrightarrow> k = length es)"
proof -
  obtain v where v: "encode_log js base ess = Inr v" "w = walHeader base @ v"
    using w by (auto simp: wal_file_def bindE_eq_Inr)
  obtain d0 where d0: "runE applyEvent d (concat ess) = Inr d0" "runE applyEvent d0 es = Inr d'"
    using run by (auto simp: runE_append bindE_eq_Inr)
  let ?r = "\<lparr>rp_state = d0, rp_seq = q, rp_kept = headerSize + length v\<rparr>"
  obtain k d1 kept where k: "k \<le> length es" "runE applyEvent d0 (take k es) = Inr d1"
    "replay_loop js (q + 1) ?r (take m bs) = Inr \<lparr>rp_state = d1, rp_seq = q + of_nat k, rp_kept = kept\<rparr>"
    "m = length bs \<longrightarrow> k = length es"
    using replay_loop_torn [OF js bs _ _ m, of ?r] d0(2) by auto
  have "replay js d base (w @ take m bs) = replay_loop js (q + 1) ?r (take m bs)"
    using replay_loop_log [OF js v(1), of "\<lparr>rp_state = d, rp_seq = base, rp_kept = headerSize\<rparr>"] d0(1)
    by (simp add: v(2) replay_header q)
  then show ?thesis using k d0(1) by (intro exI [of _ k] exI [of _ d1] exI [of _ kept]) (simp add: runE_append)
qed

end
