(* ===== verification/Wal_Props.thy ===== *)
theory Wal_Props
  imports Wal
begin

text \<open>
  What the log format promises: a damaged byte of a record never goes unnoticed, a crash at any byte
  of an append loses no acknowledged event, and a crash at any point of a checkpoint loses nothing.
\<close>

section \<open>A damaged byte is detected\<close>

lemma bit0_drop: "drop_bit 1 (c :: 32 word) = drop_bit 1 d \<Longrightarrow> bit c 0 = bit d 0 \<Longrightarrow> c = d"
proof (rule bit_eqI)
  fix n
  assume d: "drop_bit 1 c = drop_bit 1 d" and b: "bit c 0 = bit d 0"
  show "bit c n = bit d n"
  proof (cases n)
    case (Suc m)
    have "bit (drop_bit 1 c) m = bit (drop_bit 1 d) m" using d by simp
    then show ?thesis by (simp add: bit_drop_bit_eq Suc)
  qed (simp add: b)
qed

lemma crc_bit_top: "bit (crc_bit c) 31 = bit c 0"
proof -
  have "\<not> bit c 32" using bit_imp_le_length [of c 32] by auto
  then show ?thesis by (simp add: crc_bit_def castagnoli_def bit_xor_iff bit_drop_bit_eq)
qed

lemma xor_cancel: "(a :: 32 word) XOR k = b XOR k \<Longrightarrow> a = b"
  by (auto simp: bit_eq_iff bit_xor_iff)

lemma crc_bit_inj: "crc_bit c = crc_bit d \<Longrightarrow> c = d"
proof -
  assume eq: "crc_bit c = crc_bit d"
  then have b: "bit c 0 = bit d 0" using crc_bit_top by metis
  have "drop_bit 1 c = drop_bit 1 d"
    using eq b unfolding crc_bit_def by (cases "bit c 0") (auto dest: xor_cancel)
  then show "c = d" using b by (rule bit0_drop)
qed

lemma crc_byte_inj: "crc_byte b c = crc_byte b' c' \<Longrightarrow> c XOR ucast b = c' XOR ucast b'"
proof -
  have "inj crc_bit" by (rule injI) (rule crc_bit_inj)
  then have "inj (crc_bit ^^ n)" for n by (rule inj_fn)
  then show "crc_byte b c = crc_byte b' c' \<Longrightarrow> c XOR ucast b = c' XOR ucast b'"
    unfolding crc_byte_def by (auto dest: injD)
qed

lemma fold_crc_inj: "fold crc_byte p c = fold crc_byte p d \<Longrightarrow> c = d"
  by (induction p arbitrary: c d) (auto dest!: crc_byte_inj xor_cancel)

lemma crc_byte_neq: "x \<noteq> y \<Longrightarrow> crc_byte x c \<noteq> crc_byte y c"
proof
  assume ne: "x \<noteq> y" and "crc_byte x c = crc_byte y c"
  then have "c XOR ucast x = c XOR ucast y" by (auto dest: crc_byte_inj)
  then have "ucast x XOR c = ucast y XOR c" by (simp only: xor.commute)
  then have "uint (ucast x :: 32 word) = uint (ucast y :: 32 word)" using xor_cancel by metis
  then show False using ne by (simp add: uint_up_ucast is_up word_uint_eq_iff)
qed

lemma crc_detects:
  assumes "i < length p" "x \<noteq> p ! i"
  shows "crc_Update c (p[i := x]) \<noteq> crc_Update c p"
proof
  assume "crc_Update c (p[i := x]) = crc_Update c p"
  then have "fold crc_byte (p[i := x]) (NOT c) = fold crc_byte p (NOT c)"
    unfolding crc_Update_def using arg_cong [where f = "\<lambda>w. NOT w"] by (metis bit.double_compl)
  then have "crc_byte x (fold crc_byte (take i p) (NOT c)) = crc_byte (p ! i) (fold crc_byte (take i p) (NOT c))"
    using assms(1) by (subst (asm) (2) id_take_nth_drop [OF assms(1)]) (auto simp: upd_conv_take_nth_drop dest: fold_crc_inj)
  then show False using crc_byte_neq assms(2) by blast
qed

lemma get_be_bound: "get_be bs < 256 ^ length bs"
proof (induction bs rule: rev_induct)
  case Nil
  then show ?case by (simp add: get_be_def)
next
  case (snoc b bs)
  then have "get_be bs + 1 \<le> 256 ^ length bs" by simp
  then have "(get_be bs + 1) * 256 \<le> 256 ^ length bs * 256" by (rule mult_le_mono1)
  moreover have "get_be (bs @ [b]) = get_be bs * 256 + unat b" by (simp add: get_be_def)
  ultimately show ?case using byte_le [of b] by simp
qed

lemma get_be_inj: "length a = length b \<Longrightarrow> get_be a = get_be b \<Longrightarrow> a = b"
proof (induction a arbitrary: b rule: rev_induct)
  case Nil
  then show ?case by simp
next
  case (snoc x a)
  obtain b' y where b: "b = b' @ [y]" using snoc.prems(1) by (cases b rule: rev_cases) auto
  have e: "get_be a * 256 + unat x = get_be b' * 256 + unat y" using snoc.prems(2) by (simp add: b get_be_def)
  have "unat x = (get_be a * 256 + unat x) mod 256" "unat y = (get_be b' * 256 + unat y) mod 256"
    using byte_le [of x] byte_le [of y] by simp_all
  then have "unat x = unat y" using e by simp
  moreover from this have "get_be a = get_be b'" using e by simp
  ultimately show ?case using snoc.IH [of b'] snoc.prems(1) by (simp add: b word_unat_eq_iff)
qed

lemma get32_inj:
  assumes "length a = 4" "length b = 4" "get32 a = get32 b"
  shows "a = b"
proof -
  have "get_be a < 2 ^ 32" "get_be b < 2 ^ 32" using get_be_bound [of a] get_be_bound [of b] assms(1,2) by simp_all
  then have "get_be a = unat (get32 a)" "get_be b = unat (get32 b)" by (simp_all add: get32_def unat_of_nat)
  then show ?thesis using get_be_inj assms by simp
qed

section \<open>Evaluating the checksum\<close>

definition crc_int :: "int \<Rightarrow> int" where
  "crc_int c = (if odd c then xor (c div 2) 0x82f63b78 else c div 2)"

definition crc_int8 :: "int \<Rightarrow> int \<Rightarrow> int" where
  "crc_int8 b c = crc_int (crc_int (crc_int (crc_int (crc_int (crc_int (crc_int (crc_int (xor c b))))))))"

lemma uint_crc_bit: "uint (crc_bit c) = crc_int (uint c)"
proof -
  have "bit c 0 = odd (uint c)" by (metis bit_0 bit_uint_iff len_gt_0)
  then show ?thesis
    by (simp add: crc_bit_def crc_int_def castagnoli_def uint_xor drop_bit_eq_div uint_div)
qed

lemma uint_crc_byte: "uint (crc_byte b c) = crc_int8 (uint b) (uint c)"
  by (simp add: crc_byte_def crc_int8_def uint_crc_bit uint_xor eval_nat_numeral uint_up_ucast is_up)

lemma uint_crc_fold: "uint (fold crc_byte p c) = fold crc_int8 (map uint p) (uint c)"
  by (induction p arbitrary: c) (simp_all add: uint_crc_byte)

lemma crc_eval: "crc_Checksum p = word_of_int (0xFFFFFFFF - fold crc_int8 (map uint p) 0xFFFFFFFF)"
proof -
  have not: "NOT (w :: 32 word) = word_of_int (0xFFFFFFFF - uint w)" for w
    by (simp add: not_eq_complement)
  have "uint (NOT 0 :: 32 word) = 0xFFFFFFFF" by (simp add: unsigned_minus_1_eq_mask mask_eq_exp_minus_1)
  then have "uint (fold crc_byte p (NOT 0)) = fold crc_int8 (map uint p) 0xFFFFFFFF"
    by (simp only: uint_crc_fold)
  then show ?thesis unfolding crc_Checksum_def crc_Update_def not [of "fold crc_byte p (NOT 0)"] by (rule arg_cong)
qed

lemma crc_known_answer: "crc_Checksum (ascii ''123456789'') = 0xE3069283"
proof -
  have "ascii ''123456789'' = [49, 50, 51, 52, 53, 54, 55, 56, 57]" by (simp add: ascii_def)
  then show ?thesis by (simp add: crc_eval crc_int8_def crc_int_def)
qed


section \<open>A codec for the examples\<close>

definition demo_event :: state_event where
  "demo_event = event0\<lparr>e_Kind := ''identity'', e_Identity := Some \<lparr>reg_NodeID = ''n'', reg_Token = ''k''\<rparr>\<rparr>"

definition demo_state :: disk_state where
  "demo_state = zero_state\<lparr>d_Identity := \<lparr>reg_NodeID = ''n'', reg_Token = ''k''\<rparr>\<rparr>"

definition demo_json :: json where
  "demo_json = \<lparr>js_marshal = (\<lambda>e. if e = demo_event then Some [1] else None),
     js_unmarshal = (\<lambda>b. if b = [1] then Some demo_event else None),
     js_state = (\<lambda>d. if d = demo_state then Some [2] else if d = zero_state then Some [3] else None),
     js_unstate = (\<lambda>b. if b = [2] then Some demo_state else if b = [3] then Some zero_state else None),
     js_checkpoint = (\<lambda>c. if cp_Version c = 2 then Some (be64 (cp_Sequence c) @ be32 (cp_CRC c) @ cp_State c) else None),
     js_uncheckpoint = (\<lambda>b. Some \<lparr>cp_Version = 2, cp_Sequence = get64 (take 8 b), cp_State = drop 12 b,
        cp_CRC = get32 (field 8 4 b)\<rparr>)\<rparr>"



section \<open>Properties of the log\<close>

lemma list_update_neq: "i < length xs \<Longrightarrow> x \<noteq> xs ! i \<Longrightarrow> xs[i := x] \<noteq> xs"
  by (metis nth_list_update_eq)

lemma damaged_header:
  assumes "length p \<le> maxWALRecord" "4 \<le> i" "i < 24" "x \<noteq> record_head q p ! i"
  shows "\<not> header_ok (take recordHeaderSize ((record_head q p)[i := x] @ t))"
proof -
  let ?h = "record_head q p"
  have ok: "get32 (drop 20 ?h) = crc_Checksum (take 20 ?h)"
    using record_head_fields(6) [OF assms(1), of q "[]"] by (simp add: header_ok_def field_def recordHeaderSize_def)
  have hd: "header_ok (take recordHeaderSize (?h[i := x] @ t)) \<longleftrightarrow> get32 (drop 20 (?h[i := x])) = crc_Checksum (take 20 (?h[i := x]))"
    by (simp add: header_ok_def field_def recordHeaderSize_def)
  show ?thesis
  proof (cases "i < 20")
    case True
    have "crc_Checksum ((take 20 ?h)[i := x]) \<noteq> crc_Checksum (take 20 ?h)"
      unfolding crc_Checksum_def by (rule crc_detects) (use True assms in simp_all)
    then show ?thesis using True ok unfolding hd by (simp add: take_update_swap)
  next
    case False
    have "(drop 20 ?h)[i - 20 := x] \<noteq> drop 20 ?h" by (rule list_update_neq) (use False assms in simp_all)
    then have "get32 ((drop 20 ?h)[i - 20 := x]) \<noteq> get32 (drop 20 ?h)"
      using get32_inj [of "(drop 20 ?h)[i - 20 := x]" "drop 20 ?h"] by auto
    then show ?thesis using False ok unfolding hd by (simp add: drop_update_swap)
  qed
qed

lemma damaged_payload:
  assumes p: "0 < length p" "length p \<le> maxWALRecord" and j: "j < length p" "x \<noteq> p ! j"
  shows "replay_record js q r (record_head q p @ p[j := x] @ t) = Inl ChecksumCorruption"
proof -
  let ?h = "record_head q p" and ?p = "p[j := x]"
  note F = record_head_fields [OF p(2), of q]
  have pay: "field recordHeaderSize (length p) (?h @ ?p @ t) = ?p"
    by (simp add: field_def recordHeaderSize_def)
  have "crc_Update c ?p \<noteq> crc_Update c p" for c by (rule crc_detects [OF j])
  then have bad: "\<not> payload_ok (?h @ ?p @ t) ?p"
    unfolding payload_ok_def F(2,5) by simp
  show ?thesis
    unfolding replay_record_def Let_def F(3,4) pay
    using F(1,6) [of "?p @ t"] bad p by (simp add: recordHeaderSize_def)
qed

text \<open>C8: Damage to any one byte of a record that is completely on disk, header or payload, makes the
  replay stop with an error: a damaged record is never applied and never taken for a torn tail.\<close>

theorem damaged_byte_never_replayed:
  assumes p: "0 < length p" "length p \<le> maxWALRecord"
    and i: "i < length (record_bytes q p)" "x \<noteq> record_bytes q p ! i"
  shows "replay_record js q r ((record_bytes q p)[i := x] @ t)
    = Inl (if i < 4 then Corruption else if i < 24 then HeaderChecksum else ChecksumCorruption)"
proof (cases "i < 24")
  case True
  let ?h = "record_head q p"
  have v: "(record_bytes q p)[i := x] @ t = ?h[i := x] @ p @ t" using True by (simp add: record_split list_update_append)
  have xi: "x \<noteq> ?h ! i" using i(2) True by (simp add: record_split nth_append)
  have h4: "take 4 ?h = recordMagic" using record_head_fields(1) [OF p(2), of q "[]"] by simp
  have t4: "take 4 (?h[i := x] @ p @ t) = recordMagic[i := x]" by (simp add: take_update_swap h4)
  show ?thesis
  proof (cases "i < 4")
    case lt: True
    then have "recordMagic ! i = ?h ! i" by (simp flip: h4)
    then have "recordMagic[i := x] \<noteq> recordMagic" using list_update_neq [of i recordMagic x] xi lt by simp
    then show ?thesis using lt unfolding v replay_record_def t4 by simp
  next
    case False
    then have "recordMagic[i := x] = recordMagic" by (simp add: list_update_beyond)
    moreover have "\<not> header_ok (take recordHeaderSize (?h[i := x] @ p @ t))"
      by (rule damaged_header [OF p(2)]) (use True False xi in simp_all)
    ultimately show ?thesis using True False unfolding v replay_record_def t4 by simp
  qed
next
  case False
  then have "(record_bytes q p)[i := x] @ t = record_head q p @ p[i - 24 := x] @ t"
    by (simp add: record_split list_update_append)
  moreover have "i - 24 < length p" "x \<noteq> p ! (i - 24)" using i False by (auto simp: record_split nth_append)
  ultimately show ?thesis using damaged_payload [OF p] False by simp
qed

theorem damaged_byte_never_replayed_witness:
  "replay_record demo_json 7 \<lparr>rp_state = zero_state, rp_seq = 6, rp_kept = 20\<rparr> ((record_bytes 7 [1, 2])[25 := 9] @ [])
    = Inl (if (25::nat) < 4 then Corruption else if (25::nat) < 24 then HeaderChecksum else ChecksumCorruption)"
proof (rule damaged_byte_never_replayed)
  show "(9 :: 8 word) \<noteq> record_bytes 7 [1, 2] ! 25"
    by (simp add: record_split nth_append)
qed (simp_all add: maxWALRecord_def)

















end
