(* ===== verification/Commerce.thy ===== *)
theory Commerce
  imports Contract Complex_Main
begin

text \<open>
  The database of the panel's commerce service (\<open>internal/commerce\<close>): one record with a field per
  table, the primary keys as keys of maps, and the two services every handler uses, the event outbox
  (\<open>events.go\<close>) and the wallet with its journal and its record of where the money came from
  (\<open>service.go\<close>, \<open>funding.go\<close>).

  A handler runs inside one transaction: it returns an error, and then nothing is stored, or the new
  database. An insert that violates a primary key or a unique constraint is the error \<open>DbConstraint\<close>.
  Random identifiers are drawn from the stream \<open>ev_ids\<close>, any function from the number of identifiers
  drawn so far; a handler reads the clock once. Times of tables that hold milliseconds are \<open>milli\<close> of a
  time. Rationals (\<open>big.Rat\<close>) are the type \<^typ>\<open>rat\<close>, whose
  numerator and denominator in lowest terms are \<open>quotient_of\<close>.
\<close>

section \<open>Tables\<close>

datatype commerce_error =
    NoRows | Conflict | Funds | BalanceOverflow | DbConstraint | FundsSpent | NoFundingHistory
  | AccountDisabled | EntitlementUnavailable | BadBudget | BadMultiplier | BadUsedBytes
  | BadReservation | BatchTooLarge | BadWindowMetadata | BadUsage | UsageOutsideLease
  | LeaseQuotaExceeded | ChargeOverflow | CounterConflict
  | BadTransaction | PaymentMismatch | NotPayable | BadRefund | RefundUnavailable | RefundTooLarge
  | EvidenceRequired | BadKey | PlanUnavailable | PeriodRequired | BadDuration | BadPlan
  | ActiveRequired | QuotaOverflow | NoRefundablePrice | QuotaInUse | BadAdjustment
  | BadCommission | BadRedeem | RedeemUnavailable | ReferralCycle | ReferralTooLate
  | BadOrder | GatewayFailed | Uncertain | Unsupported

record wallet =
  wa_balance :: int
  wa_version :: int

record journal =
  jl_ID :: string
  jl_User :: string
  jl_Amount :: int
  jl_Balance :: int
  jl_Kind :: string
  jl_Reference :: string

record fund_source =
  fs_User :: string
  fs_Order :: string
  fs_Amount :: int
  fs_Remaining :: int
  fs_Created :: string

record fund_alloc =
  fa_Amount :: int
  fa_Restored :: int

record plan =
  p_ID :: string
  p_Name :: string
  p_Price :: int
  p_Quota :: int
  p_Months :: int
  p_DurationUnit :: string
  p_DurationValue :: int
  p_Active :: bool
  p_Version :: int
  p_Kind :: string
  p_Limits :: plan_limits

record entitlement =
  en_ID :: string
  en_User :: string
  en_Plan :: string
  en_Version :: int
  en_StartsAt :: gotime
  en_ExpiresAt :: gotime
  en_Quota :: int
  en_Used :: int
  en_Allocated :: int

record lease_row =
  lr_User :: string
  lr_Node :: string
  lr_Rule :: string
  lr_Ent :: string
  lr_ExpiresAt :: gotime
  lr_Bytes :: int
  lr_Used :: int
  lr_Mult :: rat

record reservation =
  rv_Budget :: int
  rv_Closed :: bool

record usage_row =
  ur_Lease :: string
  ur_Payload :: usage_record
  ur_Charged :: int

record order_row =
  or_User :: string
  or_Channel :: string
  or_Amount :: int
  or_Payable :: int
  or_Status :: string
  or_URL :: string
  or_Key :: string
  or_Tx :: "string option"
  or_Created :: string

record refund_row =
  rf_Order :: string
  rf_User :: string
  rf_Amount :: int
  rf_Status :: string
  rf_Reason :: string
  rf_Actor :: string
  rf_Key :: string
  rf_Evidence :: string
  rf_ResolvedBy :: string

record purchase_row =
  pu_Plan :: string
  pu_Expected :: int
  pu_Ent :: string

record snapshot_row =
  ss_User :: string
  ss_Plan :: plan

record addon_row =
  ad_User :: string
  ad_Key :: string
  ad_Plan :: string
  ad_Expected :: int
  ad_Ent :: string
  ad_Payload :: plan
  ad_Result :: "entitlement \<times> plan_limits"

record prefund_row =
  pr_User :: string
  pr_Purchase :: string
  pr_Amount :: int
  pr_Removed :: int
  pr_Actor :: string
  pr_Reason :: string
  pr_Key :: string

record commission_row =
  co_Inviter :: string
  co_Invitee :: string
  co_Source :: string
  co_Amount :: int
  co_Status :: string

record subscription =
  sb_User :: string
  sb_Events :: string
  sb_Enabled :: bool
  sb_MutedUntil :: int

text \<open>The values of an event's data; \<open>JInt\<close> is a number in the decimal text that \<open>strconv.FormatInt\<close> gives.\<close>

datatype json_value = JInt int | JStr string

record event_row =
  ev_ID :: string
  ev_User :: string
  ev_Kind :: string
  ev_Data :: "(string \<times> json_value) list"

record redeem_row =
  rd_Amount :: int
  rd_Plan :: string
  rd_MaxUses :: int
  rd_Used :: int
  rd_Expires :: "gotime option"
  rd_Enabled :: bool

record redeem_result =
  rr_Amount :: int
  rr_Plan :: string
  rr_Ent :: "string option"

record auto_renew =
  ar_Enabled :: bool
  ar_Plan :: string
  ar_NextAt :: gotime
  ar_LastError :: string

record adjustment =
  aj_ID :: string
  aj_User :: string
  aj_Actor :: string
  aj_Amount :: int
  aj_Key :: string
  aj_Reason :: string

record attempt =
  at_State :: string
  at_Provider :: string

record schedule =
  sc_Attempts :: int
  sc_NextAt :: gotime

record cdb =
  db_drawn :: nat
  db_users :: "string list"
  db_wallets :: "(string, wallet) gomap"
  db_journal :: "journal list"
  db_accounts :: "string list"
  db_sources :: "(string, fund_source) gomap"
  db_allocs :: "(string \<times> string, fund_alloc) gomap"
  db_plans :: "(string, plan) gomap"
  db_ents :: "(string, entitlement) gomap"
  db_entLimits :: "(string, plan_limits) gomap"
  db_leases :: "(string, lease_row) gomap"
  db_res :: "(string, reservation) gomap"
  db_usage :: "(string, usage_row) gomap"
  db_orders :: "(string, order_row) gomap"
  db_attempts :: "(string, attempt) gomap"
  db_schedules :: "(string, schedule) gomap"
  db_refunds :: "(string, refund_row) gomap"
  db_purchases :: "(string \<times> string, purchase_row) gomap"
  db_snapshots :: "(string, snapshot_row) gomap"
  db_addons :: "(string, addon_row) gomap"
  db_prefunds :: "(string, prefund_row) gomap"
  db_commissions :: "(string, commission_row) gomap"
  db_comRefunds :: "(string, int) gomap"
  db_comActions :: "(string \<times> string) list"
  db_rate :: "int option"
  db_refCodes :: "(string, string) gomap"
  db_bindings :: "(string, string) gomap"
  db_redeem :: "(string, redeem_row) gomap"
  db_claims :: "(string \<times> string, redeem_result) gomap"
  db_autoRenew :: "(string, auto_renew) gomap"
  db_adjustments :: "adjustment list"
  db_subs :: "(string, subscription) gomap"
  db_events :: "event_row list"
  db_deliveries :: "(string \<times> string) list"

definition empty_db :: cdb where
  "empty_db = \<lparr>db_drawn = 0, db_users = [], db_wallets = [], db_journal = [], db_accounts = [], db_sources = [],
     db_allocs = [], db_plans = [], db_ents = [], db_entLimits = [], db_leases = [], db_res = [], db_usage = [],
     db_orders = [], db_attempts = [], db_schedules = [], db_refunds = [], db_purchases = [], db_snapshots = [],
     db_addons = [], db_prefunds = [], db_commissions = [], db_comRefunds = [], db_comActions = [], db_rate = None,
     db_refCodes = [], db_bindings = [], db_redeem = [], db_claims = [], db_autoRenew = [], db_adjustments = [],
     db_subs = [], db_events = [], db_deliveries = []\<rparr>"

text \<open>What a transaction reads from outside: the clock, as a time and as the text the tables store, the
  random identifiers, the check of the account that the panel installs, the payment hook, the digest
  of codes, and the conversion between instants and calendar dates of the panel's time zone that the
  \<open>time\<close> package does.\<close>

record civil =
  cv_Year :: int
  cv_Month :: int
  cv_Day :: int
  cv_Clock :: int

record env =
  ev_now :: gotime
  ev_stamp :: string
  ev_ids :: "nat \<Rightarrow> string"
  ev_account :: "string \<Rightarrow> commerce_error option"
  ev_received :: "string \<Rightarrow> string \<Rightarrow> int \<Rightarrow> commerce_error option"
  ev_digest :: "string \<Rightarrow> string"
  ev_civil :: "gotime \<Rightarrow> civil"
  ev_date :: "civil \<Rightarrow> gotime"
  ev_addDays :: "gotime \<Rightarrow> int \<Rightarrow> gotime"

definition milli :: "gotime \<Rightarrow> int" where "milli t = t div 1000000"

definition draw :: "env \<Rightarrow> cdb \<Rightarrow> string \<times> cdb" where
  "draw v db = (ev_ids v (db_drawn db), db\<lparr>db_drawn := Suc (db_drawn db)\<rparr>)"

abbreviation check :: "bool \<Rightarrow> 'e \<Rightarrow> 'e + unit" where
  "check b e \<equiv> (if b then Inr () else Inl e)"

definition row :: "('k, 'v) gomap \<Rightarrow> 'k \<Rightarrow> commerce_error + 'v" where
  "row m k = (case map_of m k of None \<Rightarrow> Inl NoRows | Some v \<Rightarrow> Inr v)"

definition insert_row :: "'k \<Rightarrow> 'v \<Rightarrow> ('k, 'v) gomap \<Rightarrow> commerce_error + ('k, 'v) gomap" where
  "insert_row k v m = (if has m k then Inl DbConstraint else Inr (put k v m))"

lemma row_eq_Inr [simp]: "row m k = Inr v \<longleftrightarrow> map_of m k = Some v"
  by (auto simp: row_def split: option.splits)

lemma insert_row_eq_Inr [simp]: "insert_row k v m = Inr m' \<longleftrightarrow> map_of m k = None \<and> m' = put k v m"
  by (auto simp: insert_row_def has_def)

section \<open>The event outbox\<close>

definition eventAllowed :: "string \<Rightarrow> string \<Rightarrow> bool" where
  "eventAllowed events kind \<longleftrightarrow> list_ex (\<lambda>v. TrimSpace v = kind) (split_on (CHR '','') [] events)"

definition emitEventTx :: "env \<Rightarrow> string \<Rightarrow> string \<Rightarrow> (string \<times> json_value) list \<Rightarrow> cdb \<Rightarrow> commerce_error + cdb" where
  "emitEventTx v user kind data db =
     (if user = '''' \<or> TrimSpace kind = '''' then Inr db
      else let (i, db1) = draw v db in
        if list_ex (\<lambda>e. ev_ID e = i) (db_events db1) then Inl DbConstraint
        else let subs = map fst (filter (\<lambda>(_, s). sb_User s = user \<and> sb_Enabled s \<and> sb_MutedUntil s \<le> milli (ev_now v)
               \<and> (sb_Events s = ''*'' \<or> eventAllowed (sb_Events s) kind)) (db_subs db1))
        in Inr (db1\<lparr>db_events := db_events db1 @ [\<lparr>ev_ID = i, ev_User = user, ev_Kind = kind, ev_Data = data\<rparr>],
             db_deliveries := db_deliveries db1 @ map (Pair i) (filter (\<lambda>s. (i, s) \<notin> set (db_deliveries db1)) subs)\<rparr>))"

section \<open>The wallet\<close>

definition walletTx :: "string \<Rightarrow> cdb \<Rightarrow> wallet \<times> cdb" where
  "walletTx user db = (case map_of (db_wallets db) user of
     Some w \<Rightarrow> (w, db)
   | None \<Rightarrow> let w = \<lparr>wa_balance = 0, wa_version = 0\<rparr> in (w, db\<lparr>db_wallets := put user w (db_wallets db)\<rparr>))"

text \<open>\<open>ORDER BY created_at,id\<close>.\<close>

definition by_age :: "(string \<times> fund_source) list \<Rightarrow> (string \<times> fund_source) list" where
  "by_age xs = sort_key (\<lambda>(_, f). fs_Created f) (sort_key fst xs)"

definition take_from :: "string \<Rightarrow> int \<Rightarrow> cdb \<Rightarrow> cdb" where
  "take_from i n db = (case map_of (db_sources db) i of
     Some f \<Rightarrow> if fs_Remaining f \<ge> n
       then db\<lparr>db_sources := put i (f\<lparr>fs_Remaining := fs_Remaining f - n\<rparr>) (db_sources db)\<rparr> else db
   | None \<Rightarrow> db)"

fun spend_sources :: "string \<Rightarrow> (string \<times> fund_source) list \<Rightarrow> int \<Rightarrow> cdb \<Rightarrow> commerce_error + (int \<times> cdb)" where
  "spend_sources ref [] need db = Inr (need, db)"
| "spend_sources ref ((i, f) # fs) need db =
     (let amount = min need (fs_Remaining f) in
      if amount = 0 then Inr (need, db)
      else let db1 = take_from i amount db in
        bindE (insert_row (ref, i) \<lparr>fa_Amount = amount, fa_Restored = 0\<rparr> (db_allocs db1))
          (\<lambda>m. spend_sources ref fs (need - amount) (db1\<lparr>db_allocs := m\<rparr>)))"

definition give_back :: "string \<Rightarrow> string \<Rightarrow> int \<Rightarrow> cdb \<Rightarrow> cdb" where
  "give_back ref i n db =
     (let db1 = (case map_of (db_allocs db) (ref, i) of None \<Rightarrow> db
            | Some a \<Rightarrow> db\<lparr>db_allocs := put (ref, i) (a\<lparr>fa_Restored := fa_Restored a + n\<rparr>) (db_allocs db)\<rparr>)
      in case map_of (db_sources db1) i of None \<Rightarrow> db1
       | Some f \<Rightarrow> db1\<lparr>db_sources := put i (f\<lparr>fs_Remaining := fs_Remaining f + n\<rparr>) (db_sources db1)\<rparr>)"

fun restore_loop :: "string \<Rightarrow> (string \<times> int) list \<Rightarrow> int \<Rightarrow> cdb \<Rightarrow> int \<times> cdb" where
  "restore_loop ref [] need db = (need, db)"
| "restore_loop ref ((i, available) # as) need db =
     (let n = min need available in
      if n = 0 then restore_loop ref as need db
      else let db1 = give_back ref i n db in
        if need - n = 0 then (0, db1) else restore_loop ref as (need - n) db1)"

definition new_source :: "env \<Rightarrow> string \<Rightarrow> string \<Rightarrow> string \<Rightarrow> int \<Rightarrow> cdb \<Rightarrow> commerce_error + cdb" where
  "new_source v i user order n db =
     bindE (insert_row i \<lparr>fs_User = user, fs_Order = order, fs_Amount = n, fs_Remaining = n, fs_Created = ev_stamp v\<rparr>
              (db_sources db))
       (\<lambda>m. Inr (db\<lparr>db_sources := m\<rparr>))"

definition allocations_of :: "cdb \<Rightarrow> string \<Rightarrow> string \<Rightarrow> (string \<times> int) list" where
  "allocations_of db user ref = map (\<lambda>(i, f). (i, case map_of (db_allocs db) (ref, i) of
        Some a \<Rightarrow> fa_Amount a - fa_Restored a | None \<Rightarrow> 0))
     (filter (\<lambda>(i, f). fs_User f = user \<and> has (db_allocs db) (ref, i)) (by_age (db_sources db)))"

definition restoreFunds :: "env \<Rightarrow> string \<Rightarrow> string \<Rightarrow> int \<Rightarrow> bool \<Rightarrow> cdb \<Rightarrow> commerce_error + cdb" where
  "restoreFunds v user ref amount legacy db =
     (let list = allocations_of db user ref in
      if list = [] \<and> legacy then new_source v (''release:'' @ ref) user '''' amount db
      else case restore_loop ref list amount db of
        (need, db1) \<Rightarrow> if need \<noteq> 0 then Inl NoFundingHistory else Inr db1)"

text \<open>Where a negative posting may take money from: any source of the user, or for a refund to the payer
  the sources of the refunded order, when there are any.\<close>

definition spendable :: "string \<Rightarrow> string \<Rightarrow> string \<Rightarrow> cdb \<Rightarrow> commerce_error + (string \<times> fund_source) list" where
  "spendable user kind ref db =
     (let own = (\<lambda>(i, f). fs_User f = user \<and> fs_Remaining f > 0) in
      if kind = ''refund_reserve'' then
        bindE (row (db_refunds db) (TrimPrefix ''refund-reserve:'' ref)) (\<lambda>r.
          if list_ex (\<lambda>(i, f). fs_User f = user \<and> fs_Order f = rf_Order r) (db_sources db)
          then Inr (filter (\<lambda>(i, f). own (i, f) \<and> fs_Order f = rf_Order r) (by_age (db_sources db)))
          else Inr (filter own (by_age (db_sources db))))
      else Inr (filter own (by_age (db_sources db))))"

definition open_account :: "env \<Rightarrow> string \<Rightarrow> int \<Rightarrow> cdb \<Rightarrow> commerce_error + cdb" where
  "open_account v user balance db =
     (if user \<in> set (db_accounts db) then Inr db
      else let db1 = db\<lparr>db_accounts := user # db_accounts db\<rparr> in
        if balance > 0 then new_source v (''legacy:'' @ user) user '''' balance db1 else Inr db1)"

definition restore_target :: "string \<Rightarrow> string \<Rightarrow> cdb \<Rightarrow> commerce_error + string" where
  "restore_target kind ref db =
     (if kind = ''refund_release'' then Inr (''refund-reserve:'' @ TrimPrefix ''refund-release:'' ref)
      else if kind = ''purchase_refund'' then bindE (row (db_prefunds db) ref) (\<lambda>r. Inr (pr_Purchase r))
      else Inr '''')"

definition move_funds :: "env \<Rightarrow> string \<Rightarrow> int \<Rightarrow> string \<Rightarrow> string \<Rightarrow> cdb \<Rightarrow> commerce_error + cdb" where
  "move_funds v user delta kind ref db =
     (if delta = 0 then Inr db
      else if delta > 0 then
        bindE (restore_target kind ref db) (\<lambda>restore.
          if restore \<noteq> '''' then restoreFunds v user restore delta (kind = ''refund_release'') db
          else let order = (if kind = ''recharge'' then TrimPrefix ''payment:'' ref else '''')
            in new_source v ref user order delta db)
      else bindE (spendable user kind ref db) (\<lambda>list.
        bindE (spend_sources ref list (i64 (- delta)) db) (\<lambda>(need, db1).
          if need \<noteq> 0 then Inl FundsSpent else Inr db1)))"

definition trackFunds :: "env \<Rightarrow> string \<Rightarrow> int \<Rightarrow> int \<Rightarrow> string \<Rightarrow> string \<Rightarrow> cdb \<Rightarrow> commerce_error + cdb" where
  "trackFunds v user balance delta kind ref db =
     bindE (open_account v user balance db) (move_funds v user delta kind ref)"

definition write_wallet :: "string \<Rightarrow> int \<Rightarrow> int \<Rightarrow> cdb \<Rightarrow> commerce_error + cdb" where
  "write_wallet user balance version db = (case map_of (db_wallets db) user of
     Some w \<Rightarrow> if wa_version w = version
       then Inr (db\<lparr>db_wallets := put user \<lparr>wa_balance = balance, wa_version = wa_version w + 1\<rparr> (db_wallets db)\<rparr>)
       else Inl Conflict
   | None \<Rightarrow> Inl Conflict)"

definition write_journal :: "env \<Rightarrow> string \<Rightarrow> int \<Rightarrow> int \<Rightarrow> string \<Rightarrow> string \<Rightarrow> cdb \<Rightarrow> commerce_error + cdb" where
  "write_journal v user delta balance kind ref db =
     (let (i, db1) = draw v db in
      if list_ex (\<lambda>j. jl_ID j = i \<or> jl_Reference j = ref) (db_journal db1) then Inl DbConstraint
      else Inr (db1\<lparr>db_journal := db_journal db1 @ [\<lparr>jl_ID = i, jl_User = user, jl_Amount = delta, jl_Balance = balance,
             jl_Kind = kind, jl_Reference = ref\<rparr>]\<rparr>))"

definition post :: "env \<Rightarrow> string \<Rightarrow> int \<Rightarrow> string \<Rightarrow> string \<Rightarrow> cdb \<Rightarrow> commerce_error + cdb" where
  "post v user delta kind ref db0 =
     (let (w, db) = walletTx user db0; balance = wa_balance w in
      if delta > 0 \<and> balance > max_int64 - delta then Inl BalanceOverflow
      else if delta < 0 \<and> balance < i64 (- delta) then Inl Funds
      else bindE (trackFunds v user balance delta kind ref db) (\<lambda>db1.
        bindE (write_wallet user (balance + delta) (wa_version w) db1) (\<lambda>db2.
        bindE (write_journal v user delta (balance + delta) kind ref db2) (\<lambda>db3.
        emitEventTx v user (''wallet.'' @ kind) [(''amount_cents'', JInt delta), (''balance_cents'', JInt (balance + delta)),
          (''reference'', JStr ref)] db3))))"

end
