(* ===== verification/Wallet_Inv.thy ===== *)
theory Wallet_Inv
  imports Commerce "HOL-Library.Multiset"
begin

text \<open>
  The invariant of the wallet and what a posting does to it. Every balance is the sum of its journal
  and is covered, cent by cent, by what remains of recorded sources; what was taken from a source and
  not given back is recorded as an allocation. A posting that succeeds keeps all of it.
\<close>

section \<open>The invariant\<close>

definition src_total :: "string \<Rightarrow> cdb \<Rightarrow> int" where
  "src_total u db = gsum (\<lambda>_ f. if fs_User f = u then fs_Remaining f else 0) (db_sources db)"

definition taken :: "string \<Rightarrow> cdb \<Rightarrow> int" where
  "taken i db = gsum (\<lambda>k a. if snd k = i then fa_Amount a - fa_Restored a else 0) (db_allocs db)"

definition journal_total :: "string \<Rightarrow> cdb \<Rightarrow> int" where
  "journal_total u db = (\<Sum>j\<leftarrow>db_journal db. if jl_User j = u then jl_Amount j else 0)"

definition balance :: "string \<Rightarrow> cdb \<Rightarrow> int" where
  "balance u db = (case map_of (db_wallets db) u of None \<Rightarrow> 0 | Some w \<Rightarrow> wa_balance w)"

definition funds_ok :: "cdb \<Rightarrow> bool" where
  "funds_ok db \<longleftrightarrow> distinct_keys (db_sources db) \<and> distinct_keys (db_allocs db)
     \<and> (\<forall>i f. map_of (db_sources db) i = Some f \<longrightarrow> 0 \<le> fs_Remaining f \<and> fs_Remaining f + taken i db = fs_Amount f)
     \<and> (\<forall>r i a. map_of (db_allocs db) (r, i) = Some a \<longrightarrow>
          has (db_sources db) i \<and> 0 \<le> fa_Restored a \<and> fa_Restored a \<le> fa_Amount a)"

definition wallet_inv :: "cdb \<Rightarrow> bool" where
  "wallet_inv db \<longleftrightarrow> distinct_keys (db_wallets db) \<and> funds_ok db
     \<and> (\<forall>u. 0 \<le> balance u db \<and> balance u db \<le> max_int64 \<and> journal_total u db = balance u db)
     \<and> (\<forall>u \<in> set (db_accounts db). src_total u db = balance u db)
     \<and> (\<forall>i f. map_of (db_sources db) i = Some f \<longrightarrow> fs_User f \<in> set (db_accounts db))"

lemma funds_okD:
  assumes "funds_ok db"
  shows "distinct_keys (db_sources db)" "distinct_keys (db_allocs db)"
    "\<And>i f. map_of (db_sources db) i = Some f \<Longrightarrow> 0 \<le> fs_Remaining f"
    "\<And>i f. map_of (db_sources db) i = Some f \<Longrightarrow> fs_Remaining f + taken i db = fs_Amount f"
    "\<And>r i a. map_of (db_allocs db) (r, i) = Some a \<Longrightarrow> has (db_sources db) i"
    "\<And>r i a. map_of (db_allocs db) (r, i) = Some a \<Longrightarrow> 0 \<le> fa_Restored a"
    "\<And>r i a. map_of (db_allocs db) (r, i) = Some a \<Longrightarrow> fa_Restored a \<le> fa_Amount a"
  using assms by (auto simp: funds_ok_def)

lemma wallet_invD:
  assumes "wallet_inv db"
  shows "distinct_keys (db_wallets db)" "funds_ok db" "\<And>u. 0 \<le> balance u db" "\<And>u. balance u db \<le> max_int64"
    "\<And>u. journal_total u db = balance u db" "\<And>u. u \<in> set (db_accounts db) \<Longrightarrow> src_total u db = balance u db"
    "\<And>i f. map_of (db_sources db) i = Some f \<Longrightarrow> fs_User f \<in> set (db_accounts db)"
  using assms by (auto simp: wallet_inv_def)

text \<open>Two databases that differ at most in the record of sources.\<close>

definition same_but_funds :: "cdb \<Rightarrow> cdb \<Rightarrow> bool" where
  "same_but_funds db db' \<longleftrightarrow> db'\<lparr>db_sources := [], db_allocs := []\<rparr> = db\<lparr>db_sources := [], db_allocs := []\<rparr>"

lemma same_but_funds_refl [simp]: "same_but_funds db db"
  by (simp add: same_but_funds_def)

lemma same_but_funds_trans [trans]: "same_but_funds a b \<Longrightarrow> same_but_funds b c \<Longrightarrow> same_but_funds a c"
  by (simp add: same_but_funds_def)

lemma same_but_funds_upd [simp]:
  "same_but_funds db (db\<lparr>db_sources := s\<rparr>)" "same_but_funds db (db\<lparr>db_allocs := a\<rparr>)"
  "same_but_funds db (db\<lparr>db_sources := s, db_allocs := a\<rparr>)"
  by (simp_all add: same_but_funds_def)

lemma same_but_fundsD:
  assumes "same_but_funds db db'"
  shows "db_wallets db' = db_wallets db" "db_journal db' = db_journal db" "db_accounts db' = db_accounts db"
    "db_refunds db' = db_refunds db" "db_prefunds db' = db_prefunds db" "db_orders db' = db_orders db"
    "db_ents db' = db_ents db" "db_drawn db' = db_drawn db" "db_events db' = db_events db"
proof -
  let ?e = "\<lambda>d :: cdb. d\<lparr>db_sources := [], db_allocs := []\<rparr>"
  have e: "?e db' = ?e db" using assms by (simp add: same_but_funds_def)
  show "db_wallets db' = db_wallets db" using arg_cong [OF e, of db_wallets] by simp
  show "db_journal db' = db_journal db" using arg_cong [OF e, of db_journal] by simp
  show "db_accounts db' = db_accounts db" using arg_cong [OF e, of db_accounts] by simp
  show "db_refunds db' = db_refunds db" using arg_cong [OF e, of db_refunds] by simp
  show "db_prefunds db' = db_prefunds db" using arg_cong [OF e, of db_prefunds] by simp
  show "db_orders db' = db_orders db" using arg_cong [OF e, of db_orders] by simp
  show "db_ents db' = db_ents db" using arg_cong [OF e, of db_ents] by simp
  show "db_drawn db' = db_drawn db" using arg_cong [OF e, of db_drawn] by simp
  show "db_events db' = db_events db" using arg_cong [OF e, of db_events] by simp
qed

section \<open>Taking and giving back\<close>

lemma src_total_put:
  assumes "distinct_keys (db_sources db)" "map_of (db_sources db) i = Some f" "fs_User f' = fs_User f"
  shows "src_total u (db\<lparr>db_sources := put i f' (db_sources db)\<rparr>)
    = src_total u db + (if u = fs_User f then fs_Remaining f' - fs_Remaining f else 0)"
  using assms by (simp add: src_total_def am.total_put)

lemma taken_put:
  assumes "distinct_keys (db_allocs db)"
  shows "taken i (db\<lparr>db_allocs := put (r, j) a (db_allocs db)\<rparr>) = taken i db
    + (if i = j then fa_Amount a - fa_Restored a
         - (case map_of (db_allocs db) (r, j) of None \<Rightarrow> 0 | Some b \<Rightarrow> fa_Amount b - fa_Restored b) else 0)"
  using assms by (simp add: taken_def am.total_put split: option.splits)

lemma taken_sources [simp]: "taken i (db\<lparr>db_sources := s\<rparr>) = taken i db"
  by (simp add: taken_def)

lemma src_total_allocs [simp]: "src_total u (db\<lparr>db_allocs := a\<rparr>) = src_total u db"
  by (simp add: src_total_def)

text \<open>The users of the sources, which no step changes.\<close>

definition owners :: "cdb \<Rightarrow> string \<Rightarrow> string option" where
  "owners db i = map_option fs_User (map_of (db_sources db) i)"

lemma take_step:
  assumes ok: "funds_ok db" and f: "map_of (db_sources db) i = Some f" and n: "0 \<le> n" "n \<le> fs_Remaining f"
    and new: "map_of (db_allocs db) (r, i) = None"
    and db': "db' = take_from i n db\<lparr>db_allocs := put (r, i) \<lparr>fa_Amount = n, fa_Restored = 0\<rparr> (db_allocs db)\<rparr>"
  shows "funds_ok db'" "src_total u db' = src_total u db - (if u = fs_User f then n else 0)" "owners db' = owners db"
    "same_but_funds db db'" "\<And>j. j \<noteq> i \<Longrightarrow> map_of (db_sources db') j = map_of (db_sources db) j"
proof -
  note O = funds_okD [OF ok]
  let ?f = "f\<lparr>fs_Remaining := fs_Remaining f - n\<rparr>"
  have d: "db' = db\<lparr>db_sources := put i ?f (db_sources db), db_allocs := put (r, i) \<lparr>fa_Amount = n, fa_Restored = 0\<rparr> (db_allocs db)\<rparr>"
    using f n by (simp add: db' take_from_def)
  have t: "taken j db' = taken j db + (if j = i then n else 0)" for j
    using taken_put [OF O(2), of j r i "\<lparr>fa_Amount = n, fa_Restored = 0\<rparr>"] new by (simp add: d taken_def)
  show "funds_ok db'"
    unfolding funds_ok_def using O f n new t by (auto simp: d split: if_splits)
  show "src_total u db' = src_total u db - (if u = fs_User f then n else 0)"
    using src_total_put [OF O(1) f, of ?f u] by (simp add: d src_total_def)
  show "owners db' = owners db" using f by (auto simp: owners_def d fun_eq_iff)
  show "same_but_funds db db'" by (simp add: d)
  show "\<And>j. j \<noteq> i \<Longrightarrow> map_of (db_sources db') j = map_of (db_sources db) j" by (simp add: d)
qed


lemma take_from_frame [simp]: "db_allocs (take_from i n db) = db_allocs db"
  by (simp add: take_from_def split: option.splits)

text \<open>A list of sources as a query returns it: they are the user's, and each row occurs once.\<close>

definition rows_of :: "string \<Rightarrow> (string \<times> fund_source) list \<Rightarrow> cdb \<Rightarrow> bool" where
  "rows_of u fs db \<longleftrightarrow> distinct (map fst fs)
     \<and> (\<forall>(i, f) \<in> set fs. map_of (db_sources db) i = Some f \<and> fs_User f = u \<and> 0 < fs_Remaining f)"

definition available :: "(string \<times> fund_source) list \<Rightarrow> int" where
  "available fs = (\<Sum>(i, f)\<leftarrow>fs. fs_Remaining f)"

lemma spend_sources_ok:
  assumes "funds_ok db" "rows_of u fs db" "0 \<le> need" "spend_sources r fs need db = Inr (need', db')"
  shows "funds_ok db' \<and> same_but_funds db db' \<and> owners db' = owners db
    \<and> need' = need - min need (available fs)
    \<and> (\<forall>x. src_total x db' = src_total x db - (if x = u then min need (available fs) else 0))"
  using assms
proof (induction fs arbitrary: need db)
  case Nil
  then show ?case by (simp add: available_def)
next
  case (Cons p fs)
  obtain i f where p: "p = (i, f)" by (cases p)
  have f: "map_of (db_sources db) i = Some f" "fs_User f = u" "0 < fs_Remaining f" and d: "i \<notin> fst ` set fs"
    using Cons.prems(2) by (auto simp: rows_of_def p)
  have pos: "0 \<le> available fs"
    using Cons.prems(2) by (fastforce simp: rows_of_def available_def intro!: sum_list_nonneg)
  let ?n = "min need (fs_Remaining f)"
  show ?case
  proof (cases "?n = 0")
    case True
    then have "need = 0" using Cons.prems(3) f(3) by linarith
    then show ?thesis using Cons.prems(1,4) pos f(3) by (auto simp: p available_def)
  next
    case False
    let ?db = "(take_from i ?n db)\<lparr>db_allocs := put (r, i) \<lparr>fa_Amount = ?n, fa_Restored = 0\<rparr> (db_allocs db)\<rparr>"
    have new: "map_of (db_allocs db) (r, i) = None" and rest: "spend_sources r fs (need - ?n) ?db = Inr (need', db')"
      using Cons.prems(4) False by (auto simp: p Let_def bindE_eq_Inr)
    have n: "0 \<le> ?n" "?n \<le> fs_Remaining f" using Cons.prems(3) f(3) by auto
    note T = take_step [OF Cons.prems(1) f(1) n new, of ?db, OF refl]
    have "rows_of u fs ?db"
      using Cons.prems(2) d T(5) unfolding rows_of_def p by (fastforce simp: image_iff)
    from Cons.IH [OF T(1) this _ rest] n(1)
    have IH: "funds_ok db'" "same_but_funds ?db db'" "owners db' = owners ?db"
      "need' = need - ?n - min (need - ?n) (available fs)"
      "\<And>x. src_total x db' = src_total x ?db - (if x = u then min (need - ?n) (available fs) else 0)"
      by auto
    have tot: "?n + min (need - ?n) (available fs) = min need (available (p # fs))"
      using pos n f(3) by (simp add: p available_def min_def)
    show ?thesis
      using IH(1) same_but_funds_trans [OF T(4) IH(2)] IH(3) T(3) IH(4) tot IH(5) T(2) f(2) by auto
  qed
qed

lemma give_step:
  assumes ok: "funds_ok db" and f: "map_of (db_sources db) i = Some f" and a: "map_of (db_allocs db) (r, i) = Some a"
    and n: "0 \<le> n" "n \<le> fa_Amount a - fa_Restored a"
  shows "funds_ok (give_back r i n db)"
    "src_total u (give_back r i n db) = src_total u db + (if u = fs_User f then n else 0)"
    "owners (give_back r i n db) = owners db" "same_but_funds db (give_back r i n db)"
    "\<And>j. j \<noteq> i \<Longrightarrow> map_of (db_allocs (give_back r i n db)) (r, j) = map_of (db_allocs db) (r, j)"
proof -
  note O = funds_okD [OF ok]
  let ?f = "f\<lparr>fs_Remaining := fs_Remaining f + n\<rparr>" and ?a = "a\<lparr>fa_Restored := fa_Restored a + n\<rparr>"
  have d: "give_back r i n db = db\<lparr>db_sources := put i ?f (db_sources db), db_allocs := put (r, i) ?a (db_allocs db)\<rparr>"
    using f a by (simp add: give_back_def)
  have t: "taken j (give_back r i n db) = taken j db - (if j = i then n else 0)" for j
    using taken_put [OF O(2), of j r i ?a] a by (simp add: d taken_def)
  show "funds_ok (give_back r i n db)"
    unfolding funds_ok_def
  proof (intro conjI allI impI)
    fix j g
    assume g: "map_of (db_sources (give_back r i n db)) j = Some g"
    show "0 \<le> fs_Remaining g" "fs_Remaining g + taken j (give_back r i n db) = fs_Amount g"
      using g O(3,4) f n t [of j] by (auto simp: d split: if_splits)
  next
    fix s j b
    assume b: "map_of (db_allocs (give_back r i n db)) (s, j) = Some b"
    show "has (db_sources (give_back r i n db)) j" "0 \<le> fa_Restored b" "fa_Restored b \<le> fa_Amount b"
      using b O(5,6,7) a n by (auto simp: d has_def split: if_splits)
  qed (use O(1,2) in \<open>simp_all add: d\<close>)
  show "src_total u (give_back r i n db) = src_total u db + (if u = fs_User f then n else 0)"
    using src_total_put [OF O(1) f, of ?f u] by (simp add: d src_total_def)
  show "owners (give_back r i n db) = owners db" using f by (auto simp: owners_def d fun_eq_iff)
  show "same_but_funds db (give_back r i n db)" by (simp add: d)
  show "\<And>j. j \<noteq> i \<Longrightarrow> map_of (db_allocs (give_back r i n db)) (r, j) = map_of (db_allocs db) (r, j)" by (simp add: d)
qed

text \<open>The allocations of one posting as a query returns them.\<close>

definition allocs_of :: "string \<Rightarrow> string \<Rightarrow> (string \<times> int) list \<Rightarrow> cdb \<Rightarrow> bool" where
  "allocs_of u r as db \<longleftrightarrow> distinct (map fst as) \<and> (\<forall>(i, n) \<in> set as. owners db i = Some u
     \<and> (\<exists>a. map_of (db_allocs db) (r, i) = Some a \<and> n = fa_Amount a - fa_Restored a))"

lemma restore_loop_ok:
  assumes "funds_ok db" "allocs_of u r as db" "0 \<le> need" "restore_loop r as need db = (need', db')"
  shows "funds_ok db' \<and> same_but_funds db db' \<and> owners db' = owners db \<and> 0 \<le> need'
    \<and> (\<forall>x. src_total x db' = src_total x db + (if x = u then need - need' else 0))"
  using assms
proof (induction as arbitrary: need db)
  case Nil
  then show ?case by simp
next
  case (Cons p as)
  obtain i av where p: "p = (i, av)" by (cases p)
  obtain f a where f: "map_of (db_sources db) i = Some f" "fs_User f = u"
    and a: "map_of (db_allocs db) (r, i) = Some a" "av = fa_Amount a - fa_Restored a" and d: "i \<notin> fst ` set as"
    using Cons.prems(2) by (auto simp: allocs_of_def p owners_def)
  have av: "0 \<le> av" using funds_okD(7) [OF Cons.prems(1) a(1)] a(2) by simp
  let ?n = "min need av"
  have tl: "allocs_of u r as db" using Cons.prems(2) by (auto simp: allocs_of_def p)
  show ?case
  proof (cases "?n = 0")
    case True
    with Cons.IH [OF Cons.prems(1) tl Cons.prems(3)] Cons.prems(4) show ?thesis by (simp add: p)
  next
    case False
    have n: "0 \<le> ?n" "?n \<le> fa_Amount a - fa_Restored a" using Cons.prems(3) av a(2) by auto
    note G = give_step [OF Cons.prems(1) f(1) a(1) n]
    let ?db = "give_back r i ?n db"
    show ?thesis
    proof (cases "need - ?n = 0")
      case True
      then have "need' = 0" "db' = ?db" using Cons.prems(4) False by (auto simp: p)
      then show ?thesis using G(1-4) True f(2) by auto
    next
      case rest: False
      have "restore_loop r as (need - ?n) ?db = (need', db')"
        using Cons.prems(4) False rest unfolding p restore_loop.simps Let_def by (simp only: if_False)
      moreover have "allocs_of u r as ?db"
        using tl d G(3,5) unfolding allocs_of_def by (fastforce simp: image_iff)
      ultimately have "funds_ok db' \<and> same_but_funds ?db db' \<and> owners db' = owners ?db \<and> 0 \<le> need'
          \<and> (\<forall>x. src_total x db' = src_total x ?db + (if x = u then need - ?n - need' else 0))"
        using Cons.IH [OF G(1), of "need - ?n"] by simp
      then show ?thesis using same_but_funds_trans [OF G(4)] G(2,3) f(2) by auto
    qed
  qed
qed


section \<open>A posting\<close>

lemma by_age_set [simp]: "set (by_age xs) = set xs" "distinct (map fst (by_age xs)) = distinct (map fst xs)"
proof -
  have "mset (by_age xs) = mset xs" by (simp add: by_age_def)
  then show "set (by_age xs) = set xs" "distinct (map fst (by_age xs)) = distinct (map fst xs)"
    using mset_eq_setD mset_eq_imp_distinct_iff [of "map fst (by_age xs)" "map fst xs"] by (auto simp: mset_map)
qed

lemma rows_of_filter:
  assumes "funds_ok db" "\<And>i f. P (i, f) \<Longrightarrow> fs_User f = u \<and> 0 < fs_Remaining f"
  shows "rows_of u (filter P (by_age (db_sources db))) db"
proof -
  have d: "distinct (map fst (db_sources db))" using funds_okD(1) [OF assms(1)] by (simp add: distinct_keys_def)
  then have "distinct (map fst (filter P (by_age (db_sources db))))"
    by (simp add: distinct_map_filter)
  then show ?thesis using assms(2) d by (auto simp: rows_of_def)
qed

lemma spendable_rows:
  assumes "funds_ok db" "spendable u kind r db = Inr fs"
  shows "rows_of u fs db"
  using assms(2) by (auto simp: spendable_def Let_def bindE_eq_Inr split: if_splits intro!: rows_of_filter [OF assms(1)])

lemma allocations_of_ok:
  assumes "funds_ok db"
  shows "allocs_of u r (allocations_of db u r) db"
proof -
  let ?fs = "filter (\<lambda>(i, f). fs_User f = u \<and> has (db_allocs db) (r, i)) (by_age (db_sources db))"
  have d: "distinct (map fst (db_sources db))" using funds_okD(1) [OF assms] by (simp add: distinct_keys_def)
  have "map fst (allocations_of db u r) = map fst ?fs" by (auto simp: allocations_of_def)
  moreover have "distinct (map fst ?fs)" using d by (simp add: distinct_map_filter)
  ultimately have "distinct (map fst (allocations_of db u r))" by simp
  then show ?thesis
    unfolding allocs_of_def using d by (auto simp: allocations_of_def owners_def has_def)
qed

lemma src_total_absent:
  assumes "\<And>i f. map_of (db_sources db) i = Some f \<Longrightarrow> fs_User f \<noteq> u" "distinct_keys (db_sources db)"
  shows "src_total u db = 0"
proof -
  have "(\<Sum>(k, f)\<leftarrow>db_sources db. if fs_User f = u then fs_Remaining f else 0) = (\<Sum>_\<leftarrow>db_sources db. 0)"
    by (rule arg_cong [of _ _ sum_list], rule map_cong) (use assms in \<open>auto simp: map_of_in_set\<close>)
  then show ?thesis by (simp add: src_total_def gsum_def)
qed

lemma taken_absent:
  assumes "funds_ok db" "map_of (db_sources db) i = None"
  shows "taken i db = 0"
proof -
  have "(\<Sum>(k, a)\<leftarrow>db_allocs db. if snd k = i then fa_Amount a - fa_Restored a else 0) = (\<Sum>_\<leftarrow>db_allocs db. 0)"
  proof (rule arg_cong [of _ _ sum_list], rule map_cong, rule refl, clarify)
    fix r j a assume "((r, j), a) \<in> set (db_allocs db)"
    then have "has (db_sources db) j" using funds_okD(2,5) [OF assms(1)] by (metis map_of_in_set)
    then show "(if snd (r, j) = i then fa_Amount a - fa_Restored a else 0) = 0" using assms(2) by (auto simp: has_def)
  qed
  then show ?thesis by (simp add: taken_def gsum_def)
qed

lemma new_source_ok:
  assumes ok: "funds_ok db" and n: "0 \<le> n" and r: "new_source v i u ord n db = Inr db'"
  shows "funds_ok db'" "same_but_funds db db'" "src_total x db' = src_total x db + (if x = u then n else 0)"
    "owners db' = (owners db)(i \<mapsto> u)"
proof -
  note O = funds_okD [OF ok]
  let ?f = "\<lparr>fs_User = u, fs_Order = ord, fs_Amount = n, fs_Remaining = n, fs_Created = ev_stamp v\<rparr>"
  have new: "map_of (db_sources db) i = None" and d: "db' = db\<lparr>db_sources := put i ?f (db_sources db)\<rparr>"
    using r by (auto simp: new_source_def bindE_eq_Inr)
  show "funds_ok db'"
    unfolding funds_ok_def
  proof (intro conjI allI impI)
    fix j g
    assume g: "map_of (db_sources db') j = Some g"
    show "0 \<le> fs_Remaining g" "fs_Remaining g + taken j db' = fs_Amount g"
      using g O(3,4) n taken_absent [OF ok new] by (auto simp: d split: if_splits)
  next
    fix s j b
    assume b: "map_of (db_allocs db') (s, j) = Some b"
    show "has (db_sources db') j" "0 \<le> fa_Restored b" "fa_Restored b \<le> fa_Amount b"
      using b O(5,6,7) by (auto simp: d has_def)
  qed (use O(1,2) in \<open>simp_all add: d\<close>)
  show "same_but_funds db db'" by (simp add: d)
  show "src_total x db' = src_total x db + (if x = u then n else 0)"
    using O(1) new by (simp add: d src_total_def am.total_put)
  show "owners db' = (owners db)(i \<mapsto> u)" by (auto simp: d owners_def fun_eq_iff)
qed

text \<open>What tracking a posting of \<open>delta\<close> does to the sources, whichever way the money moves.\<close>

definition moved :: "string \<Rightarrow> int \<Rightarrow> cdb \<Rightarrow> cdb \<Rightarrow> bool" where
  "moved u delta db db' \<longleftrightarrow> funds_ok db' \<and> same_but_funds db db'
     \<and> (\<forall>x. src_total x db' = src_total x db + (if x = u then delta else 0))
     \<and> ran (owners db') \<subseteq> insert u (ran (owners db))"

lemma restoreFunds_moved:
  assumes ok: "funds_ok db" and n: "0 \<le> n" and r: "restoreFunds v u ref n legacy db = Inr db'"
  shows "moved u n db db'"
proof (cases "allocations_of db u ref = [] \<and> legacy")
  case True
  then have "new_source v (''release:'' @ ref) u '''' n db = Inr db'"
    using r by (simp add: restoreFunds_def)
  from new_source_ok [OF ok n this] show ?thesis by (auto simp: moved_def ran_def)
next
  case False
  obtain need db1 where l: "restore_loop ref (allocations_of db u ref) n db = (need, db1)" by fastforce
  then have "need = 0" "db' = db1" using r False by (auto simp: restoreFunds_def Let_def split: if_splits)
  with restore_loop_ok [OF ok allocations_of_ok [OF ok] n l] show ?thesis by (auto simp: moved_def)
qed


lemma neg_fits: "min_int64 < delta \<Longrightarrow> delta < 0 \<Longrightarrow> i64 (- delta) = - delta"
  by (intro i64_id) (simp add: fits64_def min_int64_def max_int64_def)

text \<open>After the account is opened its sources cover the balance.\<close>

lemma open_account_ok:
  assumes inv: "wallet_inv db" and r: "open_account v u (balance u db) db = Inr db'"
  shows "funds_ok db'" "set (db_accounts db') = insert u (set (db_accounts db))"
    "\<And>x. x \<in> set (db_accounts db') \<Longrightarrow> src_total x db' = balance x db"
    "ran (owners db') \<subseteq> set (db_accounts db')"
    "db_wallets db' = db_wallets db" "db_journal db' = db_journal db"
proof -
  note I = wallet_invD [OF inv]
  have own: "ran (owners db) \<subseteq> set (db_accounts db)" using I(7) by (auto simp: ran_def owners_def)
  have *: "funds_ok db' \<and> set (db_accounts db') = insert u (set (db_accounts db))
    \<and> (\<forall>x \<in> set (db_accounts db'). src_total x db' = balance x db) \<and> ran (owners db') \<subseteq> set (db_accounts db')
    \<and> db_wallets db' = db_wallets db \<and> db_journal db' = db_journal db"
  proof (cases "u \<in> set (db_accounts db)")
    case True
    then have "db' = db" using r by (simp add: open_account_def)
    with True I(2,6) own show ?thesis by auto
  next
    case False
    let ?db = "db\<lparr>db_accounts := u # db_accounts db\<rparr>"
    have ok: "funds_ok ?db" using I(2) by (simp add: funds_ok_def taken_def)
    have src: "src_total x ?db = src_total x db" "owners ?db = owners db" for x
      by (simp_all add: src_total_def owners_def fun_eq_iff)
    have zero: "src_total u db = 0"
      using src_total_absent [of db u] I(7) False funds_okD(1) [OF I(2)] by metis
    show ?thesis
    proof (cases "balance u db > 0")
      case True
      then have n: "new_source v (''legacy:'' @ u) u '''' (balance u db) ?db = Inr db'"
        using r False by (simp add: open_account_def)
      note N = new_source_ok [OF ok _ n] and F = same_but_fundsD [OF new_source_ok(2) [OF ok _ n]]
      show ?thesis
        using N(1,3,4) F(1,2,3) True src zero own I(6) False by (auto simp: ran_def)
    next
      case False
      then have "db' = ?db" "balance u db = 0" using r \<open>u \<notin> _\<close> I(3) [of u] by (auto simp: open_account_def)
      then show ?thesis using ok src zero own I(6) by auto
    qed
  qed
  then show "funds_ok db'" "set (db_accounts db') = insert u (set (db_accounts db))"
    "\<And>x. x \<in> set (db_accounts db') \<Longrightarrow> src_total x db' = balance x db"
    "ran (owners db') \<subseteq> set (db_accounts db')"
    "db_wallets db' = db_wallets db" "db_journal db' = db_journal db" by auto
qed

lemma move_funds_moved:
  assumes ok: "funds_ok db" and d: "min_int64 < delta" and r: "move_funds v u delta kind ref db = Inr db'"
  shows "moved u delta db db'"
proof -
  consider "delta = 0" | "delta > 0" | "delta < 0" by linarith
  then show ?thesis
  proof cases
    case 1
    then show ?thesis using r ok by (auto simp: moved_def move_funds_def)
  next
    case 2
    define ord where "ord = (if kind = ''recharge'' then TrimPrefix ''payment:'' ref else '''')"
    obtain t where t: "(if t \<noteq> '''' then restoreFunds v u t delta (kind = ''refund_release'') db
        else new_source v ref u ord delta db) = Inr db'"
      using r 2 unfolding move_funds_def Let_def ord_def [symmetric] by (force simp: bindE_eq_Inr)
    show ?thesis
    proof (cases "t = ''''")
      case True
      then have "new_source v ref u ord delta db = Inr db'" using t by simp
      from new_source_ok [OF ok _ this] 2 show ?thesis by (auto simp: moved_def ran_def)
    qed (use t 2 restoreFunds_moved [OF ok] in auto)
  next
    case 3
    then obtain fs where fs: "spendable u kind ref db = Inr fs" "spend_sources ref fs (- delta) db = Inr (0, db')"
      using r neg_fits [OF d] by (auto simp: move_funds_def bindE_eq_Inr split: if_splits)
    from spend_sources_ok [OF ok spendable_rows [OF ok fs(1)] _ fs(2)] 3
    show ?thesis by (auto simp: moved_def)
  qed
qed

lemma write_wallet_ok:
  assumes "write_wallet u b ver db = Inr db'"
  shows "balance x db' = (if x = u then b else balance x db)"
    "db_journal db' = db_journal db" "db_accounts db' = db_accounts db" "db_sources db' = db_sources db"
    "db_allocs db' = db_allocs db" "distinct_keys (db_wallets db) \<Longrightarrow> distinct_keys (db_wallets db')"
  using assms by (auto simp: write_wallet_def balance_def split: option.splits if_splits)

lemma write_journal_ok:
  assumes "write_journal v u d b k ref db = Inr db'"
  shows "journal_total x db' = journal_total x db + (if x = u then d else 0)"
    "db_wallets db' = db_wallets db" "db_accounts db' = db_accounts db" "db_sources db' = db_sources db"
    "db_allocs db' = db_allocs db"
  using assms by (auto simp: write_journal_def draw_def journal_total_def Let_def split: if_splits)

lemma emit_frame:
  assumes "emitEventTx v u k dt db = Inr db'"
  shows "db_wallets db' = db_wallets db" "db_journal db' = db_journal db" "db_accounts db' = db_accounts db"
    "db_sources db' = db_sources db" "db_allocs db' = db_allocs db"
  using assms by (auto simp: emitEventTx_def draw_def Let_def split: if_splits)

text \<open>The invariant looks at these tables only.\<close>

lemma wallet_inv_cong:
  assumes "db_wallets db' = db_wallets db" "db_journal db' = db_journal db" "db_accounts db' = db_accounts db"
    "db_sources db' = db_sources db" "db_allocs db' = db_allocs db"
  shows "wallet_inv db' = wallet_inv db" "balance u db' = balance u db"
  using assms by (simp_all add: wallet_inv_def funds_ok_def balance_def journal_total_def src_total_def taken_def)

lemma walletTx_ok:
  assumes "wallet_inv db" "walletTx u db = (w, db')"
  shows "wallet_inv db'" "wa_balance w = balance u db" "balance x db' = balance x db"
    "map_of (db_wallets db') u = Some w"
proof -
  show b: "balance x db' = balance x db" for x
    using assms(2) by (auto simp: walletTx_def balance_def Let_def split: option.splits if_splits)
  have f: "db_journal db' = db_journal db" "db_accounts db' = db_accounts db" "db_sources db' = db_sources db"
    "db_allocs db' = db_allocs db" "distinct_keys (db_wallets db')"
    using assms wallet_invD(1) [OF assms(1)] by (auto simp: walletTx_def Let_def split: option.splits)
  then show "wallet_inv db'"
    using assms(1) b by (simp add: wallet_inv_def funds_ok_def journal_total_def src_total_def taken_def)
  show "wa_balance w = balance u db" "map_of (db_wallets db') u = Some w"
    using assms(2) by (auto simp: walletTx_def balance_def Let_def split: option.splits)
qed


definition posting_ok :: "int \<Rightarrow> bool" where
  "posting_ok delta \<longleftrightarrow> min_int64 < delta \<and> delta \<le> max_int64"

theorem post_ok:
  assumes inv: "wallet_inv db" and d: "posting_ok delta" and r: "post v u delta kind ref db = Inr db'"
  shows "wallet_inv db'" "balance x db' = balance x db + (if x = u then delta else 0)"
    "0 \<le> balance u db + delta"
proof -
  obtain w db0 where w: "walletTx u db = (w, db0)" by fastforce
  note W = walletTx_ok [OF inv w]
  let ?b = "balance u db"
  have lo: "min_int64 < delta" using d by (simp add: posting_ok_def)
  obtain db1 db2 db3 where g: "\<not> (delta > 0 \<and> ?b > max_int64 - delta)" "\<not> (delta < 0 \<and> ?b < i64 (- delta))"
    and s: "trackFunds v u ?b delta kind ref db0 = Inr db1"
      "write_wallet u (?b + delta) (wa_version w) db1 = Inr db2"
      "write_journal v u delta (?b + delta) kind ref db2 = Inr db3"
      "emitEventTx v u (''wallet.'' @ kind) [(''amount_cents'', JInt delta), (''balance_cents'', JInt (?b + delta)),
          (''reference'', JStr ref)] db3 = Inr db'"
    using r W(2) by (auto simp: post_def w Let_def bindE_eq_Inr split: if_splits)
  have b: "balance u db0 = ?b" by (rule W(3))
  obtain db0' where o: "open_account v u (balance u db0) db0 = Inr db0'" "move_funds v u delta kind ref db0' = Inr db1"
    using s(1) by (auto simp: trackFunds_def bindE_eq_Inr b)
  note O = open_account_ok [OF W(1) o(1)]
  have M: "funds_ok db1" "same_but_funds db0' db1"
    "\<And>x. src_total x db1 = src_total x db0' + (if x = u then delta else 0)"
    "ran (owners db1) \<subseteq> insert u (ran (owners db0'))"
    using move_funds_moved [OF O(1) lo o(2)] by (auto simp: moved_def)
  note F = same_but_fundsD [OF M(2)]
  note WW = write_wallet_ok [OF s(2)] and J = write_journal_ok [OF s(3)] and E = emit_frame [OF s(4)]
  note I0 = wallet_invD [OF W(1)]
  show pos: "0 \<le> ?b + delta" using g(2) neg_fits [OF lo] I0(3) [of u] b by (cases "delta < 0") auto
  have bal: "balance x db' = balance x db + (if x = u then delta else 0)" for x
    using WW(1) [of x] E(1) J(2) F(1) O(5) W(3) [of x] by (simp add: balance_def)
  then show "balance x db' = balance x db + (if x = u then delta else 0)" .
  have acc: "set (db_accounts db') = insert u (set (db_accounts db0))"
    using E(3) J(3) WW(3) F(3) O(2) by simp
  have src: "db_sources db' = db_sources db1" "db_allocs db' = db_allocs db1"
    using E(4,5) J(4,5) WW(4,5) by simp_all
  show "wallet_inv db'"
    unfolding wallet_inv_def
  proof (intro conjI allI impI ballI)
    show "distinct_keys (db_wallets db')" using E(1) J(2) WW(6) F(1) O(5) I0(1) by simp
    show "funds_ok db'" using M(1) by (simp add: funds_ok_def taken_def src)
    fix x
    show "0 \<le> balance x db'" "balance x db' \<le> max_int64"
      using bal [of x] pos I0(3,4) [of x] W(3) [of x] g(1) by (auto split: if_splits)
    have "journal_total x db' = journal_total x db3" using E(2) by (simp add: journal_total_def)
    also have "\<dots> = journal_total x db0 + (if x = u then delta else 0)"
      using J(1) [of x] WW(2) F(2) O(6) by (simp add: journal_total_def)
    finally show "journal_total x db' = balance x db'" using I0(5) [of x] W(3) [of x] bal [of x] by simp
  next
    fix x assume "x \<in> set (db_accounts db')"
    then have "src_total x db0' = balance x db0" using O(2,3) acc by simp
    moreover have "src_total x db' = src_total x db1" by (simp add: src_total_def src)
    ultimately show "src_total x db' = balance x db'" using M(3) [of x] W(3) [of x] bal [of x] by simp
  next
    fix i f assume "map_of (db_sources db') i = Some f"
    then have "fs_User f \<in> ran (owners db1)" by (auto simp: src owners_def ran_def)
    then show "fs_User f \<in> set (db_accounts db')" using M(4) O(2,4) acc by auto
  qed
qed

text \<open>The wallet as a guarded machine: the lemmas on runs apply to any sequence of postings.\<close>

type_synonym posting = "env \<times> string \<times> int \<times> string \<times> string"

definition post_step :: "cdb \<Rightarrow> posting \<Rightarrow> commerce_error + cdb" where
  "post_step db p = (case p of (v, u, delta, kind, ref) \<Rightarrow> post v u delta kind ref db)"

definition posting_admissible :: "posting \<Rightarrow> bool" where
  "posting_admissible p \<longleftrightarrow> (case p of (_, _, delta, _, _) \<Rightarrow> posting_ok delta)"

interpretation wallet: guarded_machine post_step posting_admissible wallet_inv
  by unfold_locales (auto simp: post_step_def posting_admissible_def dest: post_ok(1))

section \<open>Spending what is there\<close>

lemma available_own:
  assumes "funds_ok db"
  shows "available (filter (\<lambda>(i, f). fs_User f = u \<and> fs_Remaining f > 0) (by_age (db_sources db))) = src_total u db"
proof -
  let ?g = "\<lambda>(i, f). if fs_User f = u then fs_Remaining f else (0 :: int)"
  let ?P = "\<lambda>(i :: string, f). fs_User f = u \<and> fs_Remaining f > 0"
  have nn: "0 \<le> fs_Remaining f" if "(i, f) \<in> set (db_sources db)" for i f
    using funds_okD(1,3) [OF assms] that by (metis map_of_in_set)
  have "available (filter ?P xs) = sum_list (map ?g xs)" if "set xs \<subseteq> set (db_sources db)" for xs
    using that
  proof (induction xs)
    case Nil
    then show ?case by (simp add: available_def)
  next
    case (Cons p xs)
    obtain i f where p: "p = (i, f)" by (cases p)
    have "0 \<le> fs_Remaining f" using Cons.prems nn [of i f] by (simp add: p)
    then show ?case using Cons by (auto simp: p available_def)
  qed
  moreover have "sum_list (map ?g (by_age (db_sources db))) = sum_list (map ?g (db_sources db))"
  proof -
    have "mset (by_age (db_sources db)) = mset (db_sources db)" by (simp add: by_age_def)
    then have "mset (map ?g (by_age (db_sources db))) = mset (map ?g (db_sources db))" by (simp only: mset_map)
    then show ?thesis unfolding sum_mset_sum_list [symmetric] by (rule arg_cong)
  qed
  moreover have "src_total u db = sum_list (map ?g (db_sources db))" by (simp add: src_total_def gsum_def)
  ultimately show ?thesis by simp
qed


lemma spend_sources_succeeds:
  assumes "funds_ok db" "rows_of u fs db" "0 \<le> need" "\<And>i. map_of (db_allocs db) (r, i) = None \<or> i \<notin> fst ` set fs"
  shows "\<exists>need' db'. spend_sources r fs need db = Inr (need', db')"
  using assms
proof (induction fs arbitrary: need db)
  case Nil
  then show ?case by simp
next
  case (Cons p fs)
  obtain i f where p: "p = (i, f)" by (cases p)
  have f: "map_of (db_sources db) i = Some f" "0 < fs_Remaining f" and d: "i \<notin> fst ` set fs"
    and new: "map_of (db_allocs db) (r, i) = None"
    using Cons.prems(2) Cons.prems(4) [of i] by (auto simp: rows_of_def p)
  let ?n = "min need (fs_Remaining f)"
  let ?db = "(take_from i ?n db)\<lparr>db_allocs := put (r, i) \<lparr>fa_Amount = ?n, fa_Restored = 0\<rparr> (db_allocs db)\<rparr>"
  have n: "0 \<le> ?n" "?n \<le> fs_Remaining f" using Cons.prems(3) f(2) by auto
  note T = take_step [OF Cons.prems(1) f(1) n new, of ?db, OF refl]
  have "rows_of u fs ?db" using Cons.prems(2) d T(5) unfolding rows_of_def p by (fastforce simp: image_iff)
  moreover have "map_of (db_allocs ?db) (r, j) = None \<or> j \<notin> fst ` set fs" for j
    using Cons.prems(4) [of j] d by (auto simp: p)
  ultimately have "\<exists>need' db'. spend_sources r fs (need - ?n) ?db = Inr (need', db')"
    using Cons.IH [OF T(1)] n by simp
  then show ?case using new by (auto simp: p Let_def insert_row_def has_def)
qed

definition fresh_ids :: "env \<Rightarrow> cdb \<Rightarrow> bool" where
  "fresh_ids v db \<longleftrightarrow> (\<forall>n \<ge> db_drawn db. (\<forall>j \<in> set (db_journal db). jl_ID j \<noteq> ev_ids v n)
     \<and> (\<forall>e \<in> set (db_events db). ev_ID e \<noteq> ev_ids v n))"

definition fresh_ref :: "string \<Rightarrow> string \<Rightarrow> cdb \<Rightarrow> bool" where
  "fresh_ref u ref db \<longleftrightarrow> (\<forall>j \<in> set (db_journal db). jl_Reference j \<noteq> ref) \<and> (\<forall>i. map_of (db_allocs db) (ref, i) = None)
     \<and> (u \<in> set (db_accounts db) \<or> map_of (db_sources db) (''legacy:'' @ u) = None)"

lemma open_account_succeeds:
  assumes "u \<in> set (db_accounts db) \<or> map_of (db_sources db) (''legacy:'' @ u) = None"
  shows "\<exists>db'. open_account v u b db = Inr db' \<and> db_allocs db' = db_allocs db \<and> db_events db' = db_events db
    \<and> db_drawn db' = db_drawn db"
  using assms by (auto simp: open_account_def new_source_def insert_row_def has_def Let_def)

lemma post_succeeds:
  assumes inv: "wallet_inv db" and n: "0 < n" "n \<le> balance u db" and k: "kind \<noteq> ''refund_reserve''"
    and fresh: "fresh_ids v db" "fresh_ref u ref db"
  shows "\<exists>db'. post v u (- n) kind ref db = Inr db'"
proof -
  obtain w db0 where w: "walletTx u db = (w, db0)" by fastforce
  note W = walletTx_ok [OF inv w]
  have fr: "db_journal db0 = db_journal db" "db_accounts db0 = db_accounts db" "db_sources db0 = db_sources db"
    "db_allocs db0 = db_allocs db" "db_events db0 = db_events db" "db_drawn db0 = db_drawn db"
    using w by (auto simp: walletTx_def Let_def split: option.splits)
  let ?b = "balance u db"
  have lo: "min_int64 < - n" using n wallet_invD(4) [OF inv, of u] by (simp add: min_int64_def max_int64_def)
  have neg: "i64 n = n" using neg_fits [OF lo] n(1) by simp
  obtain db1 where o: "open_account v u (balance u db0) db0 = Inr db1"
    "db_allocs db1 = db_allocs db0" "db_events db1 = db_events db0" "db_drawn db1 = db_drawn db0"
    using open_account_succeeds [of u db0 v "balance u db0"] fresh(2) fr by (auto simp: fresh_ref_def)
  note O = open_account_ok [OF W(1) o(1)]
  let ?fs = "filter (\<lambda>(i, f). fs_User f = u \<and> fs_Remaining f > 0) (by_age (db_sources db1))"
  have sp: "spendable u kind ref db1 = Inr ?fs" using k by (simp add: spendable_def Let_def)
  have rows: "rows_of u ?fs db1" by (rule spendable_rows [OF O(1) sp])
  have av: "available ?fs = ?b" using available_own [OF O(1), of u] O(2,3) W(3) [of u] by simp
  obtain need db2 where s: "spend_sources ref ?fs n db1 = Inr (need, db2)"
    using spend_sources_succeeds [OF O(1) rows, of n ref] n(1) fresh(2) o(2) fr(4) by (auto simp: fresh_ref_def)
  have S: "need = 0" "same_but_funds db1 db2"
    using spend_sources_ok [OF O(1) rows _ s] n av by auto
  have t: "trackFunds v u ?b (- n) kind ref db0 = Inr db2"
    using o(1) sp s S(1) n(1) neg by (simp add: trackFunds_def move_funds_def W(3))
  note F = same_but_fundsD [OF S(2)]
  have "map_of (db_wallets db2) u = Some w" using F(1) O(5) W(4) by simp
  then obtain db3 where ww: "write_wallet u (?b - n) (wa_version w) db2 = Inr db3" "db_drawn db3 = db_drawn db2"
    "db_events db3 = db_events db2"
    by (auto simp: write_wallet_def)
  have j: "db_journal db3 = db_journal db" "db_drawn db3 = db_drawn db" "db_events db3 = db_events db"
    using write_wallet_ok(2) [OF ww(1)] F(2,8,9) O(6) o(3,4) ww fr by simp_all
  have nj: "\<not> list_ex (\<lambda>j. jl_ID j = ev_ids v (db_drawn db) \<or> jl_Reference j = ref) (db_journal db)"
    using fresh by (auto simp: list_ex_iff fresh_ids_def fresh_ref_def)
  have ne: "\<not> list_ex (\<lambda>e. ev_ID e = ev_ids v (Suc (db_drawn db))) (db_events db)"
    using fresh by (auto simp: list_ex_iff fresh_ids_def)
  show ?thesis
    using n neg t ww nj ne j W(2)
    by (auto simp: post_def w write_journal_def emitEventTx_def draw_def Let_def)
qed

end
