(* ===== verification/Quota.thy ===== *)
theory Quota
  imports Commerce
begin

text \<open>
  Traffic quota (\<open>internal/commerce/quota.go\<close>, \<open>usage_batch.go\<close>, \<open>internal/storage/queries.go\<close>): the
  panel reserves part of an entitlement's quota for a lease, an Agent spends the lease and reports
  usage, and a finished lease gives back what it did not use. A node's multiplier scales the raw
  bytes of a lease to the bytes charged; charges round up.
\<close>

section \<open>Charging\<close>

definition charge :: "rat \<Rightarrow> int \<Rightarrow> int" where
  "charge m n = (case quotient_of m of (num, den) \<Rightarrow> quo (n * num + (den - 1)) den)"

section \<open>Bulk statements\<close>

record counter_change =
  cc_ID :: string
  cc_Before :: int
  cc_Delta :: int

definition counter_match :: "('v \<Rightarrow> int) \<Rightarrow> bool \<Rightarrow> (string \<Rightarrow> bool) \<Rightarrow> counter_change list \<Rightarrow> string \<Rightarrow> 'v \<Rightarrow> bool" where
  "counter_match get cas guard cs i x \<longleftrightarrow>
     list_ex (\<lambda>c. cc_ID c = i \<and> (cas \<longrightarrow> get x = cc_Before c)) cs \<and> guard i"

definition counter_delta :: "counter_change list \<Rightarrow> string \<Rightarrow> int" where
  "counter_delta cs i = (case find (\<lambda>c. cc_ID c = i) cs of None \<Rightarrow> 0 | Some c \<Rightarrow> cc_Delta c)"

definition counter_chunk :: "('v \<Rightarrow> int) \<Rightarrow> (int \<Rightarrow> 'v \<Rightarrow> 'v) \<Rightarrow> bool \<Rightarrow> (string \<Rightarrow> bool) \<Rightarrow> counter_change list
    \<Rightarrow> (string, 'v) gomap \<Rightarrow> commerce_error + (string, 'v) gomap" where
  "counter_chunk get set_to cas guard cs m =
     (if length (filter (\<lambda>(i, x). counter_match get cas guard cs i x) m) \<noteq> length cs then Inl CounterConflict
      else Inr (map (\<lambda>(i, x). (i, if counter_match get cas guard cs i x then set_to (get x + counter_delta cs i) x else x)) m))"

function counter_chunks :: "('v \<Rightarrow> int) \<Rightarrow> (int \<Rightarrow> 'v \<Rightarrow> 'v) \<Rightarrow> bool \<Rightarrow> (string \<Rightarrow> bool) \<Rightarrow> counter_change list
    \<Rightarrow> (string, 'v) gomap \<Rightarrow> commerce_error + (string, 'v) gomap" where
  "counter_chunks get set_to cas guard cs m =
     (if cs = [] then Inr m
      else case counter_chunk get set_to cas guard (take 100 cs) m of
        Inl e \<Rightarrow> Inl e | Inr m' \<Rightarrow> counter_chunks get set_to cas guard (drop 100 cs) m')"
  by pat_completeness auto
termination
  by (relation "measure (\<lambda>(_, _, _, _, cs, _). length cs)") auto

declare counter_chunks.simps [simp del]

definition BulkCounter :: "('v \<Rightarrow> int) \<Rightarrow> (int \<Rightarrow> 'v \<Rightarrow> 'v) \<Rightarrow> bool \<Rightarrow> (string \<Rightarrow> bool) \<Rightarrow> counter_change list
    \<Rightarrow> (string, 'v) gomap \<Rightarrow> commerce_error + (string, 'v) gomap" where
  "BulkCounter get set_to cas guard cs m = counter_chunks get set_to cas guard (sort_key cc_ID cs) m"

fun BulkInsert :: "('k \<times> 'v) list \<Rightarrow> ('k, 'v) gomap \<Rightarrow> commerce_error + ('k, 'v) gomap" where
  "BulkInsert [] m = Inr m"
| "BulkInsert ((k, x) # rows) m = bindE (insert_row k x m) (BulkInsert rows)"

section \<open>Reserving\<close>

definition latest :: "cdb \<Rightarrow> string \<Rightarrow> entitlement option" where
  "latest db user = (case filter (\<lambda>e. en_User e = user) (map snd (db_ents db)) of
     [] \<Rightarrow> None | es \<Rightarrow> Some (last (sort_key en_Version es)))"

definition outstanding :: "cdb \<Rightarrow> string \<Rightarrow> int" where
  "outstanding db user = gsum (\<lambda>i r. case map_of (db_leases db) i of
     Some l \<Rightarrow> if lr_User l = user \<and> \<not> rv_Closed r then rv_Budget r else 0 | None \<Rightarrow> 0) (db_res db)"

definition minutes :: "int \<Rightarrow> int" where "minutes n = n * 60000000000"

text \<open>The budget a lease may reserve: no more than was asked for, than the account may have outstanding
  and than the quota has left. A quota of zero means unlimited.\<close>

definition lease_budget :: "cdb \<Rightarrow> string \<Rightarrow> int \<Rightarrow> entitlement \<Rightarrow> commerce_error + int" where
  "lease_budget db user requested e =
     (let remaining = (if en_Quota e = 0 then requested else en_Quota e - en_Allocated e) in
      if remaining \<le> 0 then Inl EntitlementUnavailable
      else let budget = min requested (536870912 - outstanding db user) in
        if budget \<le> 0 then Inl EntitlementUnavailable
        else Inr (if budget > remaining then remaining else budget))"

definition lease_bytes :: "rat \<Rightarrow> int \<Rightarrow> commerce_error + int" where
  "lease_bytes m budget = (case quotient_of m of (num, den) \<Rightarrow>
     let raw = quo (budget * den) num in
     if \<not> fits64 raw \<or> raw \<le> 0 then Inl EntitlementUnavailable else Inr raw)"

definition insert_lease :: "env \<Rightarrow> string \<Rightarrow> string \<Rightarrow> string \<Rightarrow> rat \<Rightarrow> int \<Rightarrow> int \<Rightarrow> entitlement \<Rightarrow> cdb
    \<Rightarrow> commerce_error + (lease \<times> cdb)" where
  "insert_lease v user rule node m budget raw e db0 =
     (let deadline0 = ev_now v + minutes 5;
          deadline = (if en_ExpiresAt e < deadline0 then en_ExpiresAt e else deadline0);
          (i, db) = draw v db0
      in bindE (insert_row i \<lparr>lr_User = user, lr_Node = node, lr_Rule = rule, lr_Ent = en_ID e, lr_ExpiresAt = deadline,
               lr_Bytes = raw, lr_Used = 0, lr_Mult = m\<rparr> (db_leases db)) (\<lambda>ls.
         bindE (insert_row i \<lparr>rv_Budget = budget, rv_Closed = False\<rparr> (db_res db)) (\<lambda>rs.
         Inr (\<lparr>l_ID = i, l_EntitlementID = en_ID e, l_ExpiresAt = deadline, l_Bytes = raw, l_Limits = no_limits\<rparr>,
              db\<lparr>db_ents := put (en_ID e) (e\<lparr>en_Allocated := en_Allocated e + budget\<rparr>) (db_ents db),
                 db_leases := ls, db_res := rs\<rparr>))))"

definition AllocateBudgetWithMultiplier ::
    "env \<Rightarrow> string \<Rightarrow> string \<Rightarrow> string \<Rightarrow> rat option \<Rightarrow> int \<Rightarrow> cdb \<Rightarrow> commerce_error + (lease \<times> cdb)" where
  "AllocateBudgetWithMultiplier v user rule node multiplier requested db =
     (if requested \<le> 0 \<or> requested > 268435456 then Inl BadBudget
      else case multiplier of None \<Rightarrow> Inl BadMultiplier | Some m \<Rightarrow>
      if m \<le> 0 then Inl BadMultiplier
      else case latest db user of None \<Rightarrow> Inl EntitlementUnavailable | Some e \<Rightarrow>
      if \<not> ev_now v < en_ExpiresAt e then Inl EntitlementUnavailable
      else bindE (lease_budget db user requested e) (\<lambda>budget.
           bindE (lease_bytes m budget) (\<lambda>raw. insert_lease v user rule node m budget raw e db)))"

definition AllocateWithMultiplier ::
    "env \<Rightarrow> string \<Rightarrow> string \<Rightarrow> string \<Rightarrow> rat option \<Rightarrow> cdb \<Rightarrow> commerce_error + (lease \<times> cdb)" where
  "AllocateWithMultiplier v user rule node m db = AllocateBudgetWithMultiplier v user rule node m 16777216 db"

definition Allocate :: "env \<Rightarrow> string \<Rightarrow> string \<Rightarrow> string \<Rightarrow> cdb \<Rightarrow> commerce_error + (lease \<times> cdb)" where
  "Allocate v user rule node db = AllocateWithMultiplier v user rule node (Some 1) db"

definition LeaseCurrent :: "env \<Rightarrow> string \<Rightarrow> lease option \<Rightarrow> cdb \<Rightarrow> bool" where
  "LeaseCurrent v user lo db = (case lo of None \<Rightarrow> False | Some l \<Rightarrow>
     if \<not> ev_now v < l_ExpiresAt l then False
     else case latest db user of None \<Rightarrow> False | Some e \<Rightarrow>
       if en_ID e \<noteq> l_EntitlementID l then False
       else case map_of (db_res db) (l_ID l) of None \<Rightarrow> True | Some r \<Rightarrow> \<not> rv_Closed r)"

section \<open>Giving back\<close>

definition RetireLease :: "string \<Rightarrow> string \<Rightarrow> int \<Rightarrow> cdb \<Rightarrow> commerce_error + cdb" where
  "RetireLease node lid usedBytes db =
     (if usedBytes < 0 then Inl BadUsedBytes
      else bindE (row (db_leases db) lid) (\<lambda>l.
        if lr_Node l \<noteq> node \<or> lr_Used l \<noteq> usedBytes then Inl Conflict
        else if lr_Mult l \<le> 0 then Inl BadMultiplier
        else let m = lr_Mult l;
                 (r, rs) = (case map_of (db_res db) lid of
                    Some r \<Rightarrow> (r, db_res db)
                  | None \<Rightarrow> let r = \<lparr>rv_Budget = i64 (charge m (lr_Bytes l)), rv_Closed = False\<rparr> in (r, put lid r (db_res db)))
          in if rv_Closed r then Inr (db\<lparr>db_res := rs\<rparr>)
             else let refund = rv_Budget r - i64 (charge m (lr_Used l)) in
               if refund < 0 then Inl BadReservation
               else let db1 = db\<lparr>db_res := put lid (r\<lparr>rv_Closed := True\<rparr>) rs\<rparr> in
                 if refund = 0 then Inr db1
                 else case map_of (db_ents db1) (lr_Ent l) of None \<Rightarrow> Inl Conflict | Some e \<Rightarrow>
                   if en_Allocated e \<ge> refund
                   then Inr (db1\<lparr>db_ents := put (lr_Ent l) (e\<lparr>en_Allocated := en_Allocated e - refund\<rparr>) (db_ents db1)\<rparr>)
                   else Inl Conflict))"

section \<open>Settling usage\<close>

definition valid_usage :: "usage_record \<Rightarrow> bool" where
  "valid_usage u \<longleftrightarrow> \<not> (u_ID u = '''' \<or> length (u_ID u) > 128 \<or> u_UploadBytes u < 0 \<or> u_DownloadBytes u < 0
     \<or> u_UploadBytes u > max_int64 - u_DownloadBytes u \<or> u_StartedAt u = 0 \<or> u_EndedAt u < u_StartedAt u)"

text \<open>One record per identifier, in the order of the batch; the same identifier with other contents is a
  conflict.\<close>

fun dedupe :: "usage_record list \<Rightarrow> (string, usage_record) gomap \<Rightarrow> commerce_error + usage_record list" where
  "dedupe [] seen = Inr []"
| "dedupe (u # us) seen =
     (if \<not> ValidWindowMetadata u then Inl BadWindowMetadata
      else if \<not> valid_usage u then Inl BadUsage
      else case map_of seen (u_ID u) of
        Some old \<Rightarrow> if old \<noteq> u then Inl Conflict else dedupe us seen
      | None \<Rightarrow> bindE (dedupe us (put (u_ID u) u seen)) (\<lambda>rest. Inr (u # rest)))"

definition already :: "cdb \<Rightarrow> usage_record list \<Rightarrow> commerce_error + usage_record list" where
  "already db us =
     (if list_ex (\<lambda>u. case map_of (db_usage db) (u_ID u) of None \<Rightarrow> False | Some r \<Rightarrow> ur_Payload r \<noteq> u) us
      then Inl Conflict
      else Inr (filter (\<lambda>u. \<not> has (db_usage db) (u_ID u)) us))"

definition lease_closed :: "cdb \<Rightarrow> string \<Rightarrow> bool" where
  "lease_closed db i = (case map_of (db_res db) i of None \<Rightarrow> False | Some r \<Rightarrow> rv_Closed r)"

record settlement =
  st_used :: "(string, int) gomap"
  st_charges :: "(string, int) gomap"
  st_rows :: "(string \<times> usage_row) list"

definition used_now :: "cdb \<Rightarrow> settlement \<Rightarrow> string \<Rightarrow> int" where
  "used_now db st i = (case map_of (st_used st) i of Some n \<Rightarrow> n
     | None \<Rightarrow> (case map_of (db_leases db) i of Some l \<Rightarrow> lr_Used l | None \<Rightarrow> 0))"

definition settle_one :: "cdb \<Rightarrow> settlement \<Rightarrow> usage_record \<Rightarrow> commerce_error + settlement" where
  "settle_one db st u = (case map_of (db_leases db) (u_LeaseID u) of None \<Rightarrow> Inl UsageOutsideLease | Some l \<Rightarrow>
     if lease_closed db (u_LeaseID u) \<or> lr_Node l \<noteq> u_NodeID u \<or> lr_Rule l \<noteq> u_RuleID u
        \<or> lr_Ent l \<noteq> u_EntitlementID u \<or> u_EndedAt u > lr_ExpiresAt l
     then Inl UsageOutsideLease
     else let raw = usage_bytes u; used = used_now db st (u_LeaseID u) in
       if used < 0 \<or> used > lr_Bytes l \<or> raw > lr_Bytes l - used then Inl LeaseQuotaExceeded
       else let delta = charge (lr_Mult l) (used + raw) - charge (lr_Mult l) used in
         if \<not> fits64 delta \<or> delta < 0 \<or> look0 (st_charges st) (lr_Ent l) > max_int64 - delta then Inl ChargeOverflow
         else Inr (\<lparr>st_used = put (u_LeaseID u) (used + raw) (st_used st),
                st_charges = put (lr_Ent l) (look0 (st_charges st) (lr_Ent l) + delta) (st_charges st),
                st_rows = st_rows st @ [(u_ID u, \<lparr>ur_Lease = u_LeaseID u, ur_Payload = u, ur_Charged = delta\<rparr>)]\<rparr>))"

definition lease_changes :: "cdb \<Rightarrow> settlement \<Rightarrow> counter_change list" where
  "lease_changes db st = List.map_filter (\<lambda>(i, n). case map_of (db_leases db) i of None \<Rightarrow> None
     | Some l \<Rightarrow> if n \<noteq> lr_Used l then Some \<lparr>cc_ID = i, cc_Before = lr_Used l, cc_Delta = n - lr_Used l\<rparr> else None) (st_used st)"

definition charge_changes :: "settlement \<Rightarrow> counter_change list" where
  "charge_changes st = List.map_filter (\<lambda>(i, d). if d > 0 then Some \<lparr>cc_ID = i, cc_Before = 0, cc_Delta = d\<rparr> else None)
     (st_charges st)"

definition commit_settlement :: "cdb \<Rightarrow> settlement \<Rightarrow> commerce_error + cdb" where
  "commit_settlement db st =
     bindE (BulkCounter lr_Used (\<lambda>n l. l\<lparr>lr_Used := n\<rparr>) True (\<lambda>i. \<not> lease_closed db i) (lease_changes db st) (db_leases db)) (\<lambda>ls.
     bindE (BulkCounter en_Used (\<lambda>n e. e\<lparr>en_Used := n\<rparr>) False (\<lambda>i. True) (charge_changes st) (db_ents db)) (\<lambda>es.
     bindE (BulkInsert (st_rows st) (db_usage db)) (\<lambda>us.
       Inr (db\<lparr>db_leases := ls, db_ents := es, db_usage := us\<rparr>))))"

definition SettleUsageBatch :: "usage_record list \<Rightarrow> cdb \<Rightarrow> commerce_error + cdb" where
  "SettleUsageBatch records db =
     (if length records > 500 then Inl BatchTooLarge
      else if records = [] then Inr db
      else bindE (dedupe records []) (\<lambda>unique. bindE (already db unique) (\<lambda>fresh.
        if fresh = [] then Inr db
        else if list_ex (\<lambda>u. case map_of (db_leases db) (u_LeaseID u) of None \<Rightarrow> False | Some l \<Rightarrow> lr_Mult l \<le> 0) fresh
        then Inl BadMultiplier
        else bindE (runE (settle_one db) \<lparr>st_used = [], st_charges = [], st_rows = []\<rparr> fresh) (commit_settlement db))))"

definition SettleUsage :: "usage_record \<Rightarrow> cdb \<Rightarrow> commerce_error + cdb" where
  "SettleUsage u db = SettleUsageBatch [u] db"

end
