(* ===== verification/Quota_Inv.thy ===== *)
theory Quota_Inv
  imports Quota
begin

text \<open>
  The quota invariant: what an entitlement has allocated is the sum over its leases of the budget of
  an open reservation or of the charge of a closed one, what it has used is the sum of the charges of
  the leases, and both agree with the settled usage records. Reserving, settling and retiring keep it,
  so an entitlement with a finite quota is never charged more than its quota.
\<close>

section \<open>Charges round up\<close>

lemma charge_ceiling:
  assumes "0 \<le> n" "0 \<le> m"
  shows "charge m n = \<lceil>of_int n * m\<rceil>"
proof -
  obtain a b where q: "quotient_of m = (a, b)" by fastforce
  have b: "0 < b" and m: "m = of_int a / of_int b"
    using quotient_of_denom_pos [OF q] quotient_of_div [OF q] by auto
  have a: "0 \<le> a" using assms(2) b by (simp add: m zero_le_divide_iff)
  have "charge m n = (n * a + (b - 1)) div b"
    using assms(1) a b by (simp add: charge_def q)
  also have "\<dots> = \<lceil>(of_int (n * a) :: rat) / of_int b\<rceil>"
  proof -
    let ?x = "n * a" and ?z = "(n * a + (b - 1)) div b"
    have "?z * b + (?x + (b - 1)) mod b = ?x + (b - 1)" by (rule div_mult_mod_eq)
    moreover have "0 \<le> (?x + (b - 1)) mod b" "(?x + (b - 1)) mod b < b" using b by simp_all
    ultimately have "?x \<le> ?z * b" "(?z - 1) * b < ?x" unfolding left_diff_distrib by linarith+
    then have "(of_int ?x :: rat) \<le> of_int (?z * b)" "(of_int ((?z - 1) * b) :: rat) < of_int ?x"
      by (simp_all only: of_int_le_iff of_int_less_iff)
    then have "(of_int ?x :: rat) / of_int b \<le> of_int ?z" "(of_int ?z :: rat) - 1 < of_int ?x / of_int b"
      using b by (simp_all add: pos_divide_le_eq pos_less_divide_eq left_diff_distrib)
    then show ?thesis by (rule ceiling_unique [symmetric, rotated])
  qed
  also have "(of_int (n * a) :: rat) / of_int b = of_int n * m" by (simp add: m)
  finally show ?thesis .
qed

lemma charge_0 [simp]: "charge m 0 = 0"
proof -
  obtain a b where q: "quotient_of m = (a, b)" by fastforce
  have "0 < b" using quotient_of_denom_pos [OF q] .
  then show ?thesis by (simp add: charge_def q)
qed

lemma charge_mono: "0 \<le> n \<Longrightarrow> n \<le> k \<Longrightarrow> 0 \<le> m \<Longrightarrow> charge m n \<le> charge m k"
  by (simp add: charge_ceiling ceiling_mono mult_right_mono)

lemma charge_nonneg: "0 \<le> n \<Longrightarrow> 0 \<le> m \<Longrightarrow> 0 \<le> charge m n"
  using charge_mono [of 0 n m] by simp

text \<open>The bytes of a lease are the most that the reserved budget pays for.\<close>

lemma charge_of_budget:
  assumes q: "quotient_of m = (num, den)" and m: "0 < m" and b: "0 \<le> budget"
  shows "charge m (quo (budget * den) num) \<le> budget" "0 \<le> quo (budget * den) num"
proof -
  have den: "0 < den" and mq: "m = of_int num / of_int den"
    using quotient_of_denom_pos [OF q] quotient_of_div [OF q] by auto
  have num: "0 < num" using m den by (simp add: mq zero_less_divide_iff)
  let ?r = "budget * den div num"
  have r: "quo (budget * den) num = ?r" using num den b by simp
  show nn: "0 \<le> quo (budget * den) num" using num den b by (simp add: r pos_imp_zdiv_nonneg_iff)
  have "?r * num \<le> budget * den" using num by (metis minus_mod_eq_div_mult pos_mod_sign diff_le_self le_add_same_cancel1 diff_add_cancel add.commute)
  then have "(of_int (?r * num) :: rat) \<le> of_int (budget * den)" by (simp only: of_int_le_iff)
  then have "of_int ?r * m \<le> (of_int budget :: rat)" using den by (simp add: mq pos_divide_le_eq)
  then show "charge m (quo (budget * den) num) \<le> budget"
    using nn m by (simp add: charge_ceiling r ceiling_le_iff)
qed

section \<open>Bulk statements\<close>

lemma counter_chunk_ok:
  assumes d: "distinct (map cc_ID cs)" "distinct_keys m" and r: "counter_chunk get set_to cas guard cs m = Inr m'"
  shows "map fst m' = map fst m"
    "map_of m' i = map_option (\<lambda>x. if i \<in> cc_ID ` set cs then set_to (get x + counter_delta cs i) x else x) (map_of m i)"
    "c \<in> set cs \<Longrightarrow> \<exists>x. map_of m (cc_ID c) = Some x \<and> (cas \<longrightarrow> get x = cc_Before c) \<and> guard (cc_ID c)"
proof -
  let ?P = "\<lambda>(i, x). counter_match get cas guard cs i x"
  let ?g = "\<lambda>(i, x). (i, if counter_match get cas guard cs i x then set_to (get x + counter_delta cs i) x else x)"
  have len: "length (filter ?P m) = length cs" and m': "m' = map ?g m"
    using r by (auto simp: counter_chunk_def split: if_splits)
  show "map fst m' = map fst m" by (simp add: m' comp_def case_prod_beta)
  have sub: "fst ` set (filter ?P m) \<subseteq> cc_ID ` set cs" by (auto simp: counter_match_def list_ex_iff)
  have "distinct (map fst (filter ?P m))" using d(2) by (simp add: distinct_keys_def distinct_map_filter)
  then have "card (fst ` set (filter ?P m)) = length cs" using len by (metis distinct_card length_map list.set_map)
  also have "\<dots> = card (cc_ID ` set cs)" using d(1) by (metis distinct_card length_map list.set_map)
  finally have eq: "fst ` set (filter ?P m) = cc_ID ` set cs" using sub by (simp add: card_subset_eq)
  have ex: "\<exists>x. map_of m j = Some x \<and> counter_match get cas guard cs j x" if "j \<in> cc_ID ` set cs" for j
    using that d(2) unfolding eq [symmetric] by (auto simp: distinct_keys_def)
  show "\<exists>x. map_of m (cc_ID c) = Some x \<and> (cas \<longrightarrow> get x = cc_Before c) \<and> guard (cc_ID c)" if c: "c \<in> set cs"
  proof -
    obtain x where x: "map_of m (cc_ID c) = Some x" "counter_match get cas guard cs (cc_ID c) x"
      using ex [OF imageI [OF c]] by auto
    then obtain c' where "c' \<in> set cs" "cc_ID c' = cc_ID c" "cas \<longrightarrow> get x = cc_Before c'" "guard (cc_ID c)"
      by (auto simp: counter_match_def list_ex_iff)
    moreover have "c' = c" using d(1) c calculation(1,2) by (simp add: distinct_map inj_on_def)
    ultimately show ?thesis using x(1) by auto
  qed
  have "map_of m' i = map_option (\<lambda>x. if counter_match get cas guard cs i x then set_to (get x + counter_delta cs i) x else x) (map_of m i)"
    unfolding m' by (induction m) auto
  moreover have "counter_match get cas guard cs i x \<longleftrightarrow> i \<in> cc_ID ` set cs" if "map_of m i = Some x" for x
    using ex [of i] that by (auto simp: counter_match_def list_ex_iff)
  ultimately show "map_of m' i = map_option (\<lambda>x. if i \<in> cc_ID ` set cs then set_to (get x + counter_delta cs i) x else x) (map_of m i)"
    by (cases "map_of m i") auto
qed


lemma distinct_keys_fst: "map fst m' = map fst m \<Longrightarrow> distinct_keys m' = distinct_keys m"
  by (simp add: distinct_keys_def)

lemma counter_delta_eq:
  assumes "distinct (map cc_ID cs)" "c \<in> set cs"
  shows "counter_delta cs (cc_ID c) = cc_Delta c"
  using assms by (induction cs) (auto simp: counter_delta_def)

lemma counter_delta_append: "i \<in> cc_ID ` set xs \<Longrightarrow> counter_delta (xs @ ys) i = counter_delta xs i"
  "i \<notin> cc_ID ` set xs \<Longrightarrow> counter_delta (xs @ ys) i = counter_delta ys i"
  by (induction xs) (auto simp: counter_delta_def)

lemma counter_chunks_ok:
  assumes "distinct (map cc_ID cs)" "distinct_keys m" "counter_chunks get set_to cas guard cs m = Inr m'"
  shows "map fst m' = map fst m \<and> (\<forall>i. map_of m' i =
      map_option (\<lambda>x. if i \<in> cc_ID ` set cs then set_to (get x + counter_delta cs i) x else x) (map_of m i))
    \<and> (\<forall>c \<in> set cs. has m (cc_ID c))"
  using assms
proof (induction get set_to cas guard cs m arbitrary: m' rule: counter_chunks.induct)
  case (1 get set_to cas guard cs m)
  show ?case
  proof (cases "cs = []")
    case True
    then show ?thesis using 1(4) by (simp add: counter_chunks.simps option.map_ident)
  next
    case False
    let ?t = "take 100 cs" and ?d = "drop 100 cs"
    obtain m1 where m1: "counter_chunk get set_to cas guard ?t m = Inr m1" "counter_chunks get set_to cas guard ?d m1 = Inr m'"
      using 1(4) False by (auto simp: counter_chunks.simps [of get set_to cas guard cs] split: sum.splits)
    have dt: "distinct (map cc_ID ?t)" "distinct (map cc_ID ?d)" and disj: "cc_ID ` set ?t \<inter> cc_ID ` set ?d = {}"
      using 1(2) distinct_append [of "map cc_ID ?t" "map cc_ID ?d"]
      by (simp_all add: distinct_take distinct_drop flip: take_map drop_map)
        (metis append_take_drop_id distinct_append list.set_map take_map drop_map)
    note C = counter_chunk_ok [OF dt(1) 1(3) m1(1)]
    have k: "distinct_keys m1" using 1(3) distinct_keys_fst [OF C(1)] by simp
    note IH = 1(1) [OF False m1(1) dt(2) k m1(2)]
    have cs: "set cs = set ?t \<union> set ?d" by (metis append_take_drop_id set_append)
    have delta: "counter_delta cs i = (if i \<in> cc_ID ` set ?t then counter_delta ?t i else counter_delta ?d i)" for i
      using counter_delta_append [of i ?t ?d] by auto
    have "map_of m' i = map_option (\<lambda>x. if i \<in> cc_ID ` set cs then set_to (get x + counter_delta cs i) x else x) (map_of m i)" for i
      using IH C(2) [of i] disj delta [of i] by (cases "map_of m i") (auto simp: cs)
    moreover have "has m (cc_ID c)" if "c \<in> set cs" for c
    proof (cases "c \<in> set ?t")
      case True
      then show ?thesis using C(3) by (auto simp: has_def)
    next
      case False
      then have "has m1 (cc_ID c)" using that IH by (auto simp: cs)
      then show ?thesis using C(2) [of "cc_ID c"] by (auto simp: has_def)
    qed
    ultimately show ?thesis using IH C(1) by simp
  qed
qed

lemma BulkCounter_ok:
  assumes "distinct (map cc_ID cs)" "distinct_keys m" "BulkCounter get set_to cas guard cs m = Inr m'"
  shows "map fst m' = map fst m" "distinct_keys m'"
    "map_of m' i = map_option (\<lambda>x. if i \<in> cc_ID ` set cs then set_to (get x + counter_delta cs i) x else x) (map_of m i)"
    "c \<in> set cs \<Longrightarrow> has m (cc_ID c)"
proof -
  let ?s = "sort_key cc_ID cs"
  have ds: "distinct (map cc_ID ?s)" using assms(1) by (simp add: distinct_map)
  have delta: "counter_delta ?s i = counter_delta cs i" for i
  proof (cases "i \<in> cc_ID ` set cs")
    case True
    then obtain c where "c \<in> set cs" "i = cc_ID c" by blast
    then show ?thesis using counter_delta_eq [OF ds, of c] counter_delta_eq [OF assms(1), of c] by simp
  next
    case False
    then have "find (\<lambda>c. cc_ID c = i) xs = None" if "set xs = set cs" for xs
      using that by (auto simp: find_None_iff)
    then show ?thesis by (simp add: counter_delta_def)
  qed
  have *: "map fst m' = map fst m \<and> (\<forall>i. map_of m' i =
      map_option (\<lambda>x. if i \<in> cc_ID ` set cs then set_to (get x + counter_delta cs i) x else x) (map_of m i))
    \<and> (\<forall>c \<in> set cs. has m (cc_ID c))"
    using counter_chunks_ok [OF ds assms(2) assms(3) [unfolded BulkCounter_def]] unfolding delta by simp
  then show "map fst m' = map fst m"
    "map_of m' i = map_option (\<lambda>x. if i \<in> cc_ID ` set cs then set_to (get x + counter_delta cs i) x else x) (map_of m i)"
    "c \<in> set cs \<Longrightarrow> has m (cc_ID c)" by auto
  show "distinct_keys m'" using * assms(2) distinct_keys_fst by blast
qed

lemma BulkInsert_ok:
  assumes "distinct_keys m" "BulkInsert rows m = Inr m'"
  shows "distinct_keys m'" "gsum f m' = gsum f m + (\<Sum>(k, x)\<leftarrow>rows. f k x)"
    "map_of m' k = Some x \<Longrightarrow> map_of m k = Some x \<or> (k, x) \<in> set rows"
proof -
  have "distinct_keys m' \<and> gsum f m' = gsum f m + (\<Sum>(k, x)\<leftarrow>rows. f k x)
    \<and> (map_of m' k = Some x \<longrightarrow> map_of m k = Some x \<or> (k, x) \<in> set rows)"
    using assms
  proof (induction rows m rule: BulkInsert.induct)
    case (2 j y rows m)
    then have n: "map_of m j = None" "BulkInsert rows (put j y m) = Inr m'" by (auto simp: bindE_eq_Inr)
    have "gsum f (put j y m) = gsum f m + f j y" using am.total_put [OF 2(2), of f j y] n(1) by simp
    with 2(1) [of "put j y m"] 2(2) n show ?case by (auto simp: insert_row_def has_def split: if_splits)
  qed simp
  then show "distinct_keys m'" "gsum f m' = gsum f m + (\<Sum>(k, x)\<leftarrow>rows. f k x)"
    "map_of m' k = Some x \<Longrightarrow> map_of m k = Some x \<or> (k, x) \<in> set rows" by auto
qed


section \<open>The invariant\<close>

definition cost :: "cdb \<Rightarrow> string \<Rightarrow> lease_row \<Rightarrow> int" where
  "cost db i l = (case map_of (db_res db) i of
     None \<Rightarrow> charge (lr_Mult l) (lr_Bytes l)
   | Some r \<Rightarrow> if rv_Closed r then charge (lr_Mult l) (lr_Used l) else rv_Budget r)"

definition ent_cost :: "cdb \<Rightarrow> string \<Rightarrow> int" where
  "ent_cost db e = gsum (\<lambda>i l. if lr_Ent l = e then cost db i l else 0) (db_leases db)"

definition ent_used :: "cdb \<Rightarrow> string \<Rightarrow> int" where
  "ent_used db e = gsum (\<lambda>i l. if lr_Ent l = e then charge (lr_Mult l) (lr_Used l) else 0) (db_leases db)"

definition reported :: "cdb \<Rightarrow> string \<Rightarrow> int" where
  "reported db i = gsum (\<lambda>_ r. if ur_Lease r = i then usage_bytes (ur_Payload r) else 0) (db_usage db)"

definition charged :: "cdb \<Rightarrow> string \<Rightarrow> int" where
  "charged db i = gsum (\<lambda>_ r. if ur_Lease r = i then ur_Charged r else 0) (db_usage db)"

definition lease_ok :: "cdb \<Rightarrow> string \<Rightarrow> lease_row \<Rightarrow> bool" where
  "lease_ok db i l \<longleftrightarrow> has (db_ents db) (lr_Ent l) \<and> 0 < lr_Mult l \<and> 0 \<le> lr_Used l \<and> lr_Used l \<le> lr_Bytes l
     \<and> charge (lr_Mult l) (lr_Bytes l) \<le> max_int64
     \<and> (\<forall>r. map_of (db_res db) i = Some r \<longrightarrow> charge (lr_Mult l) (lr_Bytes l) \<le> rv_Budget r)
     \<and> reported db i = lr_Used l \<and> charged db i = charge (lr_Mult l) (lr_Used l)"

definition ent_ok :: "cdb \<Rightarrow> string \<Rightarrow> entitlement \<Rightarrow> bool" where
  "ent_ok db i e \<longleftrightarrow> en_ID e = i \<and> en_Allocated e = ent_cost db i \<and> en_Used e = ent_used db i
     \<and> (en_Quota e \<noteq> 0 \<longrightarrow> en_Allocated e \<le> en_Quota e)"

definition quota_inv :: "cdb \<Rightarrow> bool" where
  "quota_inv db \<longleftrightarrow> distinct_keys (db_ents db) \<and> distinct_keys (db_leases db) \<and> distinct_keys (db_res db)
     \<and> distinct_keys (db_usage db)
     \<and> (\<forall>i e. map_of (db_ents db) i = Some e \<longrightarrow> ent_ok db i e)
     \<and> (\<forall>i l. map_of (db_leases db) i = Some l \<longrightarrow> lease_ok db i l)
     \<and> (\<forall>i r. map_of (db_usage db) i = Some r \<longrightarrow> has (db_leases db) (ur_Lease r))"

lemma quota_invD:
  assumes "quota_inv db"
  shows "distinct_keys (db_ents db)" "distinct_keys (db_leases db)" "distinct_keys (db_res db)" "distinct_keys (db_usage db)"
    "\<And>i e. map_of (db_ents db) i = Some e \<Longrightarrow> ent_ok db i e"
    "\<And>i l. map_of (db_leases db) i = Some l \<Longrightarrow> lease_ok db i l"
    "\<And>i r. map_of (db_usage db) i = Some r \<Longrightarrow> has (db_leases db) (ur_Lease r)"
  using assms by (auto simp: quota_inv_def)

text \<open>The invariant looks at four tables only.\<close>

lemma quota_inv_cong:
  assumes "db_ents db' = db_ents db" "db_leases db' = db_leases db" "db_res db' = db_res db" "db_usage db' = db_usage db"
  shows "quota_inv db' = quota_inv db"
proof -
  have "cost db' = cost db" by (intro ext) (simp add: cost_def assms)
  then have "ent_cost db' = ent_cost db" "ent_used db' = ent_used db" "reported db' = reported db" "charged db' = charged db"
    by (auto simp: ent_cost_def ent_used_def reported_def charged_def assms intro!: ext cong: if_cong)
  then show ?thesis by (simp add: quota_inv_def ent_ok_def lease_ok_def assms)
qed

text \<open>A lease costs at least what it has been charged.\<close>

lemma cost_covers:
  assumes "lease_ok db i l"
  shows "charge (lr_Mult l) (lr_Used l) \<le> cost db i l" "0 \<le> charge (lr_Mult l) (lr_Used l)"
    "charge (lr_Mult l) (lr_Used l) \<le> charge (lr_Mult l) (lr_Bytes l)"
proof -
  have m: "0 \<le> lr_Mult l" "0 \<le> lr_Used l" "lr_Used l \<le> lr_Bytes l" using assms by (auto simp: lease_ok_def)
  show c: "charge (lr_Mult l) (lr_Used l) \<le> charge (lr_Mult l) (lr_Bytes l)" by (rule charge_mono [OF m(2,3,1)])
  then show "charge (lr_Mult l) (lr_Used l) \<le> cost db i l"
    using assms by (auto simp: cost_def lease_ok_def split: option.splits)
  show "0 \<le> charge (lr_Mult l) (lr_Used l)" by (rule charge_nonneg [OF m(2,1)])
qed

lemma used_le_allocated:
  assumes inv: "quota_inv db" and e: "map_of (db_ents db) i = Some e"
  shows "0 \<le> en_Used e" "en_Used e \<le> en_Allocated e" "en_Quota e \<noteq> 0 \<Longrightarrow> en_Used e \<le> en_Quota e"
proof -
  note I = quota_invD [OF inv]
  have "0 \<le> ent_used db i" unfolding ent_used_def
    by (auto intro!: am.total_nonneg [OF I(2)] cost_covers(2) [OF I(6)])
  then show "0 \<le> en_Used e" using I(5) [OF e] by (simp add: ent_ok_def)
  have "ent_used db i \<le> ent_cost db i" unfolding ent_used_def ent_cost_def
    by (auto intro!: am.total_mono [OF I(2)] cost_covers(1) [OF I(6)])
  then show le: "en_Used e \<le> en_Allocated e" using I(5) [OF e] by (simp add: ent_ok_def)
  show "en_Quota e \<noteq> 0 \<Longrightarrow> en_Used e \<le> en_Quota e" using le I(5) [OF e] by (auto simp: ent_ok_def)
qed

section \<open>Reserving keeps the invariant\<close>

lemma latest_row:
  assumes "distinct_keys (db_ents db)" "\<And>i e. map_of (db_ents db) i = Some e \<Longrightarrow> en_ID e = i" "latest db user = Some e"
  shows "map_of (db_ents db) (en_ID e) = Some e" "en_User e = user"
proof -
  let ?es = "filter (\<lambda>e. en_User e = user) (map snd (db_ents db))"
  have ne: "?es \<noteq> []" and e: "e = last (sort_key en_Version ?es)"
    using assms(3) by (auto simp: latest_def split: list.splits)
  have "sort_key en_Version ?es \<noteq> []" using ne by (metis length_0_conv length_sort)
  then have "e \<in> set ?es" using e last_in_set by (metis set_sort)
  then obtain i where "(i, e) \<in> set (db_ents db)" "en_User e = user" by auto
  then show "map_of (db_ents db) (en_ID e) = Some e" "en_User e = user"
    using assms(1,2) by (auto simp: distinct_keys_def)
qed

lemma gsum_absent:
  assumes "distinct_keys m" "\<And>k v. map_of m k = Some v \<Longrightarrow> f k v = 0"
  shows "gsum f m = 0"
proof -
  have "gsum (\<lambda>_ _. 0) m = 0" by (induction m) (auto simp: gsum_def)
  then show ?thesis using gsum_cong [of m f "\<lambda>_ _. 0"] assms by simp
qed

text \<open>A new lease with an open reservation.\<close>

lemma reserve_inv:
  assumes inv: "quota_inv db" and e: "map_of (db_ents db) x = Some e" and new: "map_of (db_leases db) i = None" "map_of (db_res db) i = None"
    and l: "lr_Ent l = x" "lr_Used l = 0" "0 < lr_Mult l" "0 \<le> lr_Bytes l" "charge (lr_Mult l) (lr_Bytes l) \<le> b" "b \<le> max_int64"
    and q: "en_Quota e \<noteq> 0 \<Longrightarrow> en_Allocated e + b \<le> en_Quota e"
    and db': "db' = db\<lparr>db_ents := put x (e\<lparr>en_Allocated := en_Allocated e + b\<rparr>) (db_ents db), db_leases := put i l (db_leases db),
        db_res := put i \<lparr>rv_Budget = b, rv_Closed = False\<rparr> (db_res db)\<rparr>"
  shows "quota_inv db'"
proof -
  note I = quota_invD [OF inv]
  have cost: "cost db' j k = (if j = i then b else cost db j k)" for j k by (simp add: cost_def db')
  have L: "db_leases db' = put i l (db_leases db)" by (simp add: db')
  have noi: "\<And>r. map_of (db_usage db) k = Some r \<Longrightarrow> ur_Lease r \<noteq> i" for k using I(7) new(1) by (fastforce simp: has_def)
  have "reported db i = 0" "charged db i = 0"
    unfolding reported_def charged_def using I(4) noi by (auto intro!: gsum_absent)
  moreover have rep: "reported db' j = reported db j" "charged db' j = charged db j" for j
    by (simp_all add: reported_def charged_def db')
  ultimately have zero: "reported db' i = 0" "charged db' i = 0" by simp_all
  have ec: "ent_cost db' y = ent_cost db y + (if y = x then b else 0)" for y
  proof -
    have "ent_cost db' y = gsum (\<lambda>j k. if lr_Ent k = y then cost db' j k else 0) (db_leases db) + (if y = x then b else 0)"
      using am.total_put [OF I(2), of "\<lambda>j k. if lr_Ent k = y then cost db' j k else 0" i l] new(1) l(1)
      by (simp add: ent_cost_def L cost)
    also have "gsum (\<lambda>j k. if lr_Ent k = y then cost db' j k else 0) (db_leases db) = ent_cost db y"
      unfolding ent_cost_def using new(1) by (intro gsum_cong [OF I(2)]) (auto simp: cost)
    finally show ?thesis .
  qed
  have eu: "ent_used db' y = ent_used db y" for y
    using new(1) l(2) by (simp add: ent_used_def db' am.total_put [OF I(2)])
  show ?thesis
    unfolding quota_inv_def
  proof (intro conjI allI impI)
    fix y f assume f: "map_of (db_ents db') y = Some f"
    show "ent_ok db' y f"
    proof (cases "y = x")
      case True
      then have "f = e\<lparr>en_Allocated := en_Allocated e + b\<rparr>" using f by (simp add: db')
      then show ?thesis using I(5) [OF e] q ec [of y] eu [of y] True by (simp add: ent_ok_def)
    next
      case False
      then have "ent_ok db y f" using f I(5) [of y f] by (simp add: db')
      then show ?thesis using ec [of y] eu [of y] False by (auto simp: ent_ok_def)
    qed
  next
    fix j k assume k: "map_of (db_leases db') j = Some k"
    show "lease_ok db' j k"
    proof (cases "j = i")
      case True
      then have "k = l" using k by (simp add: db')
      then show ?thesis using True l zero e by (auto simp: lease_ok_def db')
    next
      case False
      then have "lease_ok db j k" using k I(6) by (simp add: db')
      then show ?thesis using False rep by (auto simp: lease_ok_def db')
    qed
  next
    fix j r assume "map_of (db_usage db') j = Some r"
    then show "has (db_leases db') (ur_Lease r)" using I(7) by (auto simp: db')
  qed (use I(1-4) in \<open>simp_all add: db'\<close>)
qed

lemma lease_budget_ok:
  assumes "lease_budget db user req e = Inr b"
  shows "0 < b" "b \<le> req" "en_Quota e \<noteq> 0 \<Longrightarrow> en_Allocated e + b \<le> en_Quota e"
    "b \<le> 536870912 - outstanding db user"
  using assms by (auto simp: lease_budget_def Let_def split: if_splits)

lemma lease_bytes_ok:
  assumes "lease_bytes m b = Inr raw" "0 < m" "0 \<le> b"
  shows "0 < raw" "charge m raw \<le> b"
proof -
  obtain num den where q: "quotient_of m = (num, den)" by fastforce
  then have raw: "raw = quo (b * den) num" "0 < raw" using assms(1) by (auto simp: lease_bytes_def Let_def split: if_splits)
  then show "0 < raw" "charge m raw \<le> b" using charge_of_budget [OF q assms(2,3)] by auto
qed

lemma Allocate_cases:
  assumes "AllocateBudgetWithMultiplier v user rule node m req db = Inr (le, db')"
  obtains mu e b raw where "m = Some mu" "0 < mu" "req \<le> 268435456" "latest db user = Some e" "ev_now v < en_ExpiresAt e"
    "lease_budget db user req e = Inr b" "lease_bytes mu b = Inr raw" "insert_lease v user rule node mu b raw e db = Inr (le, db')"
  using assms by (auto simp: AllocateBudgetWithMultiplier_def bindE_eq_Inr split: if_splits option.splits)

lemma Allocate_inv:
  assumes inv: "quota_inv db" and r: "AllocateBudgetWithMultiplier v user rule node m req db = Inr (le, db')"
  shows "quota_inv db'"
proof -
  note I = quota_invD [OF inv]
  obtain mu e b raw where m: "0 < mu" "req \<le> 268435456" "latest db user = Some e"
    "lease_budget db user req e = Inr b" "lease_bytes mu b = Inr raw" "insert_lease v user rule node mu b raw e db = Inr (le, db')"
    by (rule Allocate_cases [OF r])
  note B = lease_budget_ok [OF m(4)]
  note R = lease_bytes_ok [OF m(5,1) less_imp_le [OF B(1)]]
  have id: "en_ID f = i" if "map_of (db_ents db) i = Some f" for i f using I(5) [OF that] by (simp add: ent_ok_def)
  note E = latest_row [OF I(1) id m(3)]
  let ?i = "ev_ids v (db_drawn db)" and ?db = "db\<lparr>db_drawn := Suc (db_drawn db)\<rparr>"
  let ?l = "\<lparr>lr_User = user, lr_Node = node, lr_Rule = rule, lr_Ent = en_ID e,
      lr_ExpiresAt = (if en_ExpiresAt e < ev_now v + minutes 5 then en_ExpiresAt e else ev_now v + minutes 5),
      lr_Bytes = raw, lr_Used = 0, lr_Mult = mu\<rparr>"
  have n: "map_of (db_leases db) ?i = None" "map_of (db_res db) ?i = None"
    and db': "db' = ?db\<lparr>db_ents := put (en_ID e) (e\<lparr>en_Allocated := en_Allocated e + b\<rparr>) (db_ents db),
      db_leases := put ?i ?l (db_leases db), db_res := put ?i \<lparr>rv_Budget = b, rv_Closed = False\<rparr> (db_res db)\<rparr>"
    using m(6) by (auto simp: insert_lease_def draw_def bindE_eq_Inr Let_def)
  have inv': "quota_inv ?db"
    using inv quota_inv_cong [of ?db db] by simp
  show ?thesis
    by (rule reserve_inv [OF inv', of "en_ID e" e ?i ?l b]) (use n R E m(1,2) B in \<open>auto simp: db' max_int64_def\<close>)
qed


section \<open>Retiring keeps the invariant\<close>

lemma put_same: "map_of m k = Some v \<Longrightarrow> put k v m = m"
  by (induction m) (auto split: if_splits)

lemma close_inv:
  assumes inv: "quota_inv db" and l: "map_of (db_leases db) i = Some l" and e: "map_of (db_ents db) (lr_Ent l) = Some e"
    and b: "cost db i l = b" "charge (lr_Mult l) (lr_Bytes l) \<le> b"
    and db': "db' = db\<lparr>db_res := put i \<lparr>rv_Budget = b, rv_Closed = True\<rparr> (db_res db),
      db_ents := put (lr_Ent l) (e\<lparr>en_Allocated := en_Allocated e - (b - charge (lr_Mult l) (lr_Used l))\<rparr>) (db_ents db)\<rparr>"
  shows "quota_inv db'"
proof -
  note I = quota_invD [OF inv]
  let ?d = "b - charge (lr_Mult l) (lr_Used l)"
  have d: "0 \<le> ?d" using cost_covers(1) [OF I(6) [OF l]] b(1) by simp
  have L: "db_leases db' = db_leases db" "db_usage db' = db_usage db" by (simp_all add: db')
  have cost: "cost db' j k = (if j = i then charge (lr_Mult k) (lr_Used k) else cost db j k)" for j k
    by (simp add: cost_def db')
  have ec: "ent_cost db' y = ent_cost db y - (if y = lr_Ent l then ?d else 0)" for y
    using gsum_change [OF I(2) l, of "\<lambda>j k. if lr_Ent k = y then cost db j k else 0" "\<lambda>j k. if lr_Ent k = y then cost db' j k else 0"]
    b(1) by (auto simp: ent_cost_def L cost)
  have same: "ent_used db' y = ent_used db y" "reported db' y = reported db y" "charged db' y = charged db y" for y
    by (simp_all add: ent_used_def reported_def charged_def L)
  show ?thesis
    unfolding quota_inv_def
  proof (intro conjI allI impI)
    fix y f assume f: "map_of (db_ents db') y = Some f"
    show "ent_ok db' y f"
    proof (cases "y = lr_Ent l")
      case True
      then have "f = e\<lparr>en_Allocated := en_Allocated e - ?d\<rparr>" using f by (simp add: db')
      then show ?thesis using I(5) [OF e] d ec [of y] same(1) [of y] True by (auto simp: ent_ok_def)
    next
      case False
      then have "ent_ok db y f" using f I(5) [of y f] by (simp add: db')
      then show ?thesis using ec [of y] same(1) [of y] False by (auto simp: ent_ok_def)
    qed
  next
    fix j k assume k: "map_of (db_leases db') j = Some k"
    then have "lease_ok db j k" using I(6) by (simp add: L)
    then show "lease_ok db' j k" using same b(2) l k L by (auto simp: lease_ok_def db' split: if_splits)
  next
    fix j r assume "map_of (db_usage db') j = Some r"
    then show "has (db_leases db') (ur_Lease r)" using I(7) by (simp add: L)
  qed (use I(1-4) in \<open>simp_all add: db'\<close>)
qed

text \<open>The reservation that retirement reads or, for a lease older than reservations, creates.\<close>

definition reservation_of :: "cdb \<Rightarrow> string \<Rightarrow> lease_row \<Rightarrow> reservation" where
  "reservation_of db i l = (case map_of (db_res db) i of Some r \<Rightarrow> r
     | None \<Rightarrow> \<lparr>rv_Budget = charge (lr_Mult l) (lr_Bytes l), rv_Closed = False\<rparr>)"

lemma RetireLease_cases:
  assumes inv: "quota_inv db" and r: "RetireLease node i n db = Inr db'"
  obtains l where "map_of (db_leases db) i = Some l" "lr_Node l = node" "lr_Used l = n"
    "lease_closed db i" "db' = db"
  | l e where "map_of (db_leases db) i = Some l" "lr_Node l = node" "lr_Used l = n" "\<not> lease_closed db i"
    "map_of (db_ents db) (lr_Ent l) = Some e"
    "db' = db\<lparr>db_res := put i \<lparr>rv_Budget = cost db i l, rv_Closed = True\<rparr> (db_res db),
      db_ents := put (lr_Ent l) (e\<lparr>en_Allocated := en_Allocated e - (cost db i l - charge (lr_Mult l) n)\<rparr>) (db_ents db)\<rparr>"
proof -
  obtain l where l: "map_of (db_leases db) i = Some l" "lr_Node l = node" "lr_Used l = n" "0 < lr_Mult l"
    using r by (auto simp: RetireLease_def bindE_eq_Inr split: if_splits)
  note K = quota_invD(6) [OF inv l(1)] and C = cost_covers [OF quota_invD(6) [OF inv l(1)]]
  obtain e where e: "map_of (db_ents db) (lr_Ent l) = Some e" using K by (auto simp: lease_ok_def has_def)
  have fit: "i64 (charge (lr_Mult l) n) = charge (lr_Mult l) n" "i64 (charge (lr_Mult l) (lr_Bytes l)) = charge (lr_Mult l) (lr_Bytes l)"
    using C(2,3) K l(3) by (auto simp: lease_ok_def fits64_def min_int64_def intro!: i64_id)
  have put2: "put i x (put i y (db_res db)) = put i x (db_res db)" for x y
    by (induction "db_res db") auto
  let ?r = "reservation_of db i l"
  show ?thesis
  proof (cases "rv_Closed ?r")
    case True
    then have "lease_closed db i" "db' = db"
      using r l fit by (auto simp: RetireLease_def row_def reservation_of_def lease_closed_def Let_def split: option.splits if_splits)
    with l that(1) show ?thesis by blast
  next
    case False
    then have b: "rv_Budget ?r = cost db i l" "\<not> lease_closed db i"
      by (auto simp: reservation_of_def cost_def lease_closed_def split: option.splits)
    have rr: "?r\<lparr>rv_Closed := True\<rparr> = \<lparr>rv_Budget = cost db i l, rv_Closed = True\<rparr>" using b(1) by (cases ?r) simp
    let ?d = "cost db i l - charge (lr_Mult l) n"
    have "db' = db\<lparr>db_res := put i (?r\<lparr>rv_Closed := True\<rparr>) (db_res db),
        db_ents := put (lr_Ent l) (e\<lparr>en_Allocated := en_Allocated e - ?d\<rparr>) (db_ents db)\<rparr>"
    proof (cases "?d = 0")
      case True
      have "e\<lparr>en_Allocated := en_Allocated e - 0\<rparr> = e" by simp
      then have "put (lr_Ent l) (e\<lparr>en_Allocated := en_Allocated e - ?d\<rparr>) (db_ents db) = db_ents db"
        using put_same [OF e] True by simp
      then show ?thesis
        using r l fit False b(1) True
        by (auto simp: RetireLease_def row_def reservation_of_def Let_def put2 split: option.splits if_splits)
    next
      case nz: False
      then show ?thesis
        using r l fit False b(1) e
        by (auto simp: RetireLease_def row_def reservation_of_def Let_def put2 split: option.splits if_splits)
    qed
    with that(2) [OF l(1-3) b(2) e] rr show ?thesis by simp
  qed
qed

lemma RetireLease_inv:
  assumes inv: "quota_inv db" and r: "RetireLease node i n db = Inr db'"
  shows "quota_inv db'"
  using inv r
proof (cases rule: RetireLease_cases)
  case (2 l e)
  have K: "lease_ok db i l" by (rule quota_invD(6) [OF inv 2(1)])
  have "charge (lr_Mult l) (lr_Bytes l) \<le> cost db i l"
    using K 2(4) by (auto simp: lease_ok_def cost_def lease_closed_def split: option.splits)
  from close_inv [OF inv 2(1,5) refl this] 2(3,6) show ?thesis by simp
qed (use inv in simp)


section \<open>Settling keeps the invariant\<close>

text \<open>The totals of a settlement in progress: the bytes and the charge it adds to a lease.\<close>

definition added :: "settlement \<Rightarrow> string \<Rightarrow> int" where
  "added st i = (\<Sum>(k, r)\<leftarrow>st_rows st. if ur_Lease r = i then usage_bytes (ur_Payload r) else 0)"

definition added_charge :: "settlement \<Rightarrow> string \<Rightarrow> int" where
  "added_charge st i = (\<Sum>(k, r)\<leftarrow>st_rows st. if ur_Lease r = i then ur_Charged r else 0)"

definition pending_charge :: "cdb \<Rightarrow> settlement \<Rightarrow> string \<Rightarrow> int" where
  "pending_charge db st e = gsum (\<lambda>i l. if lr_Ent l = e
     then charge (lr_Mult l) (used_now db st i) - charge (lr_Mult l) (lr_Used l) else 0) (db_leases db)"

definition loop_inv :: "cdb \<Rightarrow> settlement \<Rightarrow> bool" where
  "loop_inv db st \<longleftrightarrow> distinct_keys (st_used st) \<and> distinct_keys (st_charges st)
     \<and> (\<forall>i n. map_of (st_used st) i = Some n \<longrightarrow> (\<exists>l. map_of (db_leases db) i = Some l \<and> lr_Used l \<le> n \<and> n \<le> lr_Bytes l
          \<and> \<not> lease_closed db i))
     \<and> (\<forall>e. look0 (st_charges st) e = pending_charge db st e)
     \<and> (\<forall>i l. map_of (db_leases db) i = Some l \<longrightarrow> added st i = used_now db st i - lr_Used l
          \<and> added_charge st i = charge (lr_Mult l) (used_now db st i) - charge (lr_Mult l) (lr_Used l))
     \<and> (\<forall>(k, r) \<in> set (st_rows st). has (db_leases db) (ur_Lease r))"

lemma loop_invD:
  assumes "loop_inv db st"
  shows "distinct_keys (st_used st)" "distinct_keys (st_charges st)"
    "\<And>i n. map_of (st_used st) i = Some n \<Longrightarrow>
      \<exists>l. map_of (db_leases db) i = Some l \<and> lr_Used l \<le> n \<and> n \<le> lr_Bytes l \<and> \<not> lease_closed db i"
    "\<And>e. look0 (st_charges st) e = pending_charge db st e"
    "\<And>i l. map_of (db_leases db) i = Some l \<Longrightarrow> added st i = used_now db st i - lr_Used l"
    "\<And>i l. map_of (db_leases db) i = Some l \<Longrightarrow>
      added_charge st i = charge (lr_Mult l) (used_now db st i) - charge (lr_Mult l) (lr_Used l)"
    "\<And>k r. (k, r) \<in> set (st_rows st) \<Longrightarrow> has (db_leases db) (ur_Lease r)"
  using assms by (auto simp: loop_inv_def)

lemma loop_inv_start: "quota_inv db \<Longrightarrow> loop_inv db \<lparr>st_used = [], st_charges = [], st_rows = []\<rparr>"
proof -
  assume inv: "quota_inv db"
  have "gsum (\<lambda>i l. if lr_Ent l = e then charge (lr_Mult l)
      (used_now db \<lparr>st_used = [], st_charges = [], st_rows = []\<rparr> i) - charge (lr_Mult l) (lr_Used l) else 0) (db_leases db) = 0" for e
    by (rule gsum_absent [OF quota_invD(2) [OF inv]]) (simp add: used_now_def)
  then show ?thesis
    by (auto simp: loop_inv_def added_def added_charge_def pending_charge_def used_now_def look0_def)
qed

lemma used_now_bounds:
  assumes "quota_inv db" "loop_inv db st" "map_of (db_leases db) i = Some l"
  shows "lr_Used l \<le> used_now db st i" "used_now db st i \<le> lr_Bytes l"
proof -
  have "0 \<le> lr_Used l" "lr_Used l \<le> lr_Bytes l" using quota_invD(6) [OF assms(1,3)] by (auto simp: lease_ok_def)
  then show "lr_Used l \<le> used_now db st i" "used_now db st i \<le> lr_Bytes l"
    using loop_invD(3) [OF assms(2), of i] assms(3) by (auto simp: used_now_def split: option.splits)
qed

lemma settle_one_ok:
  assumes inv: "quota_inv db" and li: "loop_inv db st" and u: "valid_usage u" and r: "settle_one db st u = Inr st'"
  shows "loop_inv db st'" "map fst (st_rows st') = map fst (st_rows st) @ [u_ID u]"
proof -
  note L = loop_invD [OF li]
  let ?i = "u_LeaseID u" and ?n = "used_now db st (u_LeaseID u) + usage_bytes u"
  obtain l where l: "map_of (db_leases db) ?i = Some l" "\<not> lease_closed db ?i" "?n \<le> lr_Bytes l"
    and st': "st' = \<lparr>st_used = put ?i ?n (st_used st),
        st_charges = put (lr_Ent l) (look0 (st_charges st) (lr_Ent l)
          + (charge (lr_Mult l) ?n - charge (lr_Mult l) (used_now db st ?i))) (st_charges st),
        st_rows = st_rows st @ [(u_ID u, \<lparr>ur_Lease = ?i, ur_Payload = u,
          ur_Charged = charge (lr_Mult l) ?n - charge (lr_Mult l) (used_now db st ?i)\<rparr>)]\<rparr>"
    using r by (auto simp: settle_one_def Let_def split: option.splits if_splits)
  have nn: "0 \<le> usage_bytes u" using u by (simp add: valid_usage_def usage_bytes_def)
  have now: "used_now db st' j = (if j = ?i then ?n else used_now db st j)" for j
    by (simp add: used_now_def st')
  let ?f = "\<lambda>s e i k. if lr_Ent k = e then charge (lr_Mult k) (used_now db s i) - charge (lr_Mult k) (lr_Used k) else 0"
  have pend: "pending_charge db st' e = pending_charge db st e
      + (if e = lr_Ent l then charge (lr_Mult l) ?n - charge (lr_Mult l) (used_now db st ?i) else 0)" for e
    using gsum_change [OF quota_invD(2) [OF inv] l(1), of "?f st e" "?f st' e"]
    by (auto simp: pending_charge_def now)
  show "map fst (st_rows st') = map fst (st_rows st) @ [u_ID u]" by (simp add: st')
  show "loop_inv db st'"
    unfolding loop_inv_def
  proof (intro conjI allI impI ballI)
    fix j n assume "map_of (st_used st') j = Some n"
    then show "\<exists>l. map_of (db_leases db) j = Some l \<and> lr_Used l \<le> n \<and> n \<le> lr_Bytes l \<and> \<not> lease_closed db j"
      using L(3) [of j n] l used_now_bounds(1) [OF inv li l(1)] nn by (auto simp: st' split: if_splits)
  next
    fix e show "look0 (st_charges st') e = pending_charge db st' e"
      using L(4) [of e] pend [of e] by (auto simp: st')
  next
    fix j k assume k: "map_of (db_leases db) j = Some k"
    have "added st' j = added st j + (if j = ?i then usage_bytes u else 0)" by (simp add: added_def st')
    then show "added st' j = used_now db st' j - lr_Used k" using L(5) [OF k] now [of j] by auto
    have "added_charge st' j = added_charge st j
        + (if j = ?i then charge (lr_Mult l) ?n - charge (lr_Mult l) (used_now db st ?i) else 0)"
      by (simp add: added_charge_def st')
    then show "added_charge st' j = charge (lr_Mult k) (used_now db st' j) - charge (lr_Mult k) (lr_Used k)"
      using L(6) [OF k] now [of j] k l(1) by auto
  next
    fix p assume "p \<in> set (st_rows st')"
    then show "case p of (k, r) \<Rightarrow> has (db_leases db) (ur_Lease r)"
      using L(7) l(1) by (auto simp: st' has_def)
  qed (use L(1,2) in \<open>simp_all add: st'\<close>)
qed

interpretation settle: guarded_machine "settle_one db" valid_usage "\<lambda>st. quota_inv db \<and> loop_inv db st" for db
  by unfold_locales (auto dest: settle_one_ok(1))

lemma dedupe_valid:
  "dedupe us seen = Inr vs \<Longrightarrow> list_all valid_usage vs \<and> distinct (map u_ID vs) \<and> (\<forall>v \<in> set vs. \<not> has seen (u_ID v))
    \<and> (\<forall>u \<in> set us. map_of seen (u_ID u) = Some u \<or> u \<in> set vs) \<and> set vs \<subseteq> set us"
proof (induction us seen arbitrary: vs rule: dedupe.induct)
  case (2 u us seen)
  show ?case
  proof (cases "map_of seen (u_ID u)")
    case None
    then obtain rest where "dedupe us (put (u_ID u) u seen) = Inr rest" "vs = u # rest" "valid_usage u"
      using 2(3) by (auto simp: bindE_eq_Inr split: if_splits)
    with 2(1) [OF _ _ None] 2(3) None show ?thesis by (auto simp: has_def split: if_splits)
  next
    case (Some old)
    then have "dedupe us seen = Inr vs" using 2(3) by (auto split: if_splits)
    with 2(2) [OF _ _ Some] 2(3) Some show ?thesis by (auto simp: has_def split: if_splits)
  qed
qed auto


lemma changes_of_map:
  assumes "distinct_keys m" "\<And>i n c. g i n = Some c \<Longrightarrow> cc_ID c = i"
  shows "distinct (map cc_ID (List.map_filter (\<lambda>(i, n). g i n) m))"
    "c \<in> set (List.map_filter (\<lambda>(i, n). g i n) m) \<longleftrightarrow> (\<exists>i n. map_of m i = Some n \<and> g i n = Some c)"
proof -
  have sub: "cc_ID ` set (List.map_filter (\<lambda>(i, n). g i n) xs) \<subseteq> fst ` set xs" for xs
    using assms(2) by (force simp: List.map_filter_def)
  show "distinct (map cc_ID (List.map_filter (\<lambda>(i, n). g i n) m))"
    using assms(1)
  proof (induction m)
    case (Cons p m)
    obtain i n where p: "p = (i, n)" by (cases p)
    have i: "i \<notin> cc_ID ` set (List.map_filter (\<lambda>(i, n). g i n) m)" and d: "distinct_keys m"
      using sub [of m] Cons.prems by (auto simp: distinct_keys_def p)
    show ?case
    proof (cases "g i n")
      case (Some c)
      then show ?thesis using i Cons.IH [OF d] assms(2) [OF Some] by (simp add: p List.map_filter_simps)
    qed (use Cons.IH [OF d] in \<open>simp add: p List.map_filter_simps\<close>)
  qed (simp add: List.map_filter_simps)
  show "c \<in> set (List.map_filter (\<lambda>(i, n). g i n) m) \<longleftrightarrow> (\<exists>i n. map_of m i = Some n \<and> g i n = Some c)"
    using assms(1) by (force simp: List.map_filter_def map_of_in_set)
qed

lemma BulkCounter_changes:
  assumes m: "distinct_keys m" and k: "distinct_keys ks" and g: "\<And>i n c. g i n = Some c \<Longrightarrow> cc_ID c = i"
    and r: "BulkCounter get set_to cas guard (List.map_filter (\<lambda>(i, n). g i n) ks) m = Inr m'"
  shows "distinct_keys m'" "map fst m' = map fst m"
    "map_of m' i = map_option (\<lambda>x. case map_of ks i of None \<Rightarrow> x
       | Some n \<Rightarrow> (case g i n of None \<Rightarrow> x | Some c \<Rightarrow> set_to (get x + cc_Delta c) x)) (map_of m i)"
proof -
  let ?cs = "List.map_filter (\<lambda>(i, n). g i n) ks"
  have D: "distinct (map cc_ID ?cs)" "\<And>c. c \<in> set ?cs \<longleftrightarrow> (\<exists>i n. map_of ks i = Some n \<and> g i n = Some c)"
    by (rule changes_of_map [OF k]; erule g)+
  note B = BulkCounter_ok [OF D(1) m r]
  show "distinct_keys m'" by (rule B(2))
  show "map fst m' = map fst m" by (rule B(1))
  have i: "i \<in> cc_ID ` set ?cs \<longleftrightarrow> (\<exists>n c. map_of ks i = Some n \<and> g i n = Some c)"
  proof
    assume "i \<in> cc_ID ` set ?cs"
    then obtain c where c: "c \<in> set ?cs" "i = cc_ID c" by blast
    then obtain j n where j: "map_of ks j = Some n" "g j n = Some c" using D(2) by blast
    then show "\<exists>n c. map_of ks i = Some n \<and> g i n = Some c" using g [OF j(2)] c(2) by auto
  next
    assume "\<exists>n c. map_of ks i = Some n \<and> g i n = Some c"
    then obtain n c where c: "map_of ks i = Some n" "g i n = Some c" by blast
    then have "c \<in> set ?cs" using D(2) by blast
    then show "i \<in> cc_ID ` set ?cs" using g [OF c(2)] by blast
  qed
  show "map_of m' i = map_option (\<lambda>x. case map_of ks i of None \<Rightarrow> x
       | Some n \<Rightarrow> (case g i n of None \<Rightarrow> x | Some c \<Rightarrow> set_to (get x + cc_Delta c) x)) (map_of m i)"
  proof (cases "i \<in> cc_ID ` set ?cs")
    case True
    then obtain n c where c: "map_of ks i = Some n" "g i n = Some c" using i by blast
    then have "counter_delta ?cs i = cc_Delta c" using counter_delta_eq [OF D(1), of c] D(2) g [OF c(2)] by blast
    then show ?thesis using B(3) [of i] True c by simp
  next
    case False
    then have "map_of m' i = map_of m i" using B(3) [of i] by (simp add: option.map_ident)
    moreover have "(case map_of ks i of None \<Rightarrow> x
       | Some n \<Rightarrow> (case g i n of None \<Rightarrow> x | Some c \<Rightarrow> set_to (get x + cc_Delta c) x)) = x" for x
      using False i by (auto split: option.splits)
    ultimately show ?thesis by (simp add: option.map_ident)
  qed
qed

lemma pending_nonneg:
  assumes "quota_inv db" "loop_inv db st"
  shows "0 \<le> pending_charge db st e"
  unfolding pending_charge_def
proof (rule am.total_nonneg [OF quota_invD(2) [OF assms(1)]])
  fix i l assume l: "map_of (db_leases db) i = Some l"
  have "0 \<le> lr_Used l" "0 \<le> lr_Mult l" using quota_invD(6) [OF assms(1) l] by (auto simp: lease_ok_def)
  then have "charge (lr_Mult l) (lr_Used l) \<le> charge (lr_Mult l) (used_now db st i)"
    using used_now_bounds [OF assms l] by (intro charge_mono) auto
  then show "0 \<le> (if lr_Ent l = e then charge (lr_Mult l) (used_now db st i) - charge (lr_Mult l) (lr_Used l) else 0)" by simp
qed

lemma gsum_map_option:
  assumes "distinct_keys m" "map fst m' = map fst m" "\<And>i. map_of m' i = map_option (g i) (map_of m i)"
  shows "gsum f m' = gsum (\<lambda>i x. f i (g i x)) m"
proof -
  have d: "distinct_keys m'" using distinct_keys_fst [OF assms(2)] assms(1) by simp
  have "dom (map_of m') = dom (map_of m)" using assms(3) by (auto simp: dom_def)
  then show ?thesis
    unfolding am.total_dom [OF d] am.total_dom [OF assms(1)] by (intro sum.cong) (auto simp: assms(3))
qed

lemma commit_settlement_ok:
  assumes inv: "quota_inv db" and li: "loop_inv db st" and r: "commit_settlement db st = Inr db'"
  shows "quota_inv db'" "db_res db' = db_res db"
    "map_of (db_leases db') i = map_option (\<lambda>l. l\<lparr>lr_Used := used_now db st i\<rparr>) (map_of (db_leases db) i)"
    "map_of (db_ents db') e = map_option (\<lambda>x. x\<lparr>en_Used := en_Used x + look0 (st_charges st) e\<rparr>) (map_of (db_ents db) e)"
    "BulkInsert (st_rows st) (db_usage db) = Inr (db_usage db')"
proof -
  note I = quota_invD [OF inv] and L = loop_invD [OF li]
  obtain ls es us where
    ls: "BulkCounter lr_Used (\<lambda>n l. l\<lparr>lr_Used := n\<rparr>) True (\<lambda>i. \<not> lease_closed db i) (lease_changes db st) (db_leases db) = Inr ls"
    and es: "BulkCounter en_Used (\<lambda>n e. e\<lparr>en_Used := n\<rparr>) False (\<lambda>i. True) (charge_changes st) (db_ents db) = Inr es"
    and us: "BulkInsert (st_rows st) (db_usage db) = Inr us"
    and db': "db' = db\<lparr>db_leases := ls, db_ents := es, db_usage := us\<rparr>"
    using r by (auto simp: commit_settlement_def bindE_eq_Inr)
  show "db_res db' = db_res db" "BulkInsert (st_rows st) (db_usage db) = Inr (db_usage db')" using us by (simp_all add: db')
  note B1 = BulkCounter_changes [OF I(2) L(1) _ ls [unfolded lease_changes_def]]
  have ls1: "distinct_keys ls" "map fst ls = map fst (db_leases db)" 
    by (rule B1(1); force split: option.splits if_splits) (rule B1(2); force split: option.splits if_splits)
  have ls2: "map_of ls j = map_option (\<lambda>l. l\<lparr>lr_Used := used_now db st j\<rparr>) (map_of (db_leases db) j)" for j
  proof (cases "map_of (db_leases db) j")
    case (Some l)
    have "map_of ls j = map_option (\<lambda>x. case map_of (st_used st) j of None \<Rightarrow> x
       | Some n \<Rightarrow> (case (case map_of (db_leases db) j of None \<Rightarrow> None
     | Some l \<Rightarrow> if n \<noteq> lr_Used l then Some \<lparr>cc_ID = j, cc_Before = lr_Used l, cc_Delta = n - lr_Used l\<rparr> else None)
         of None \<Rightarrow> x | Some c \<Rightarrow> x\<lparr>lr_Used := lr_Used x + cc_Delta c\<rparr>)) (map_of (db_leases db) j)"
      by (rule B1(3)) (auto split: option.splits if_splits)
    then show ?thesis using Some by (auto simp: used_now_def split: option.splits)
  qed (use map_of_eq_None_iff ls1(2) in \<open>metis list.set_map map_option_is_None\<close>)
  note B2 = BulkCounter_changes [OF I(1) L(2) _ es [unfolded charge_changes_def]]
  have es1: "distinct_keys es" "map fst es = map fst (db_ents db)" 
    by (rule B2(1); force split: option.splits if_splits) (rule B2(2); force split: option.splits if_splits)
  have es2: "map_of es j = map_option (\<lambda>x. x\<lparr>en_Used := en_Used x + look0 (st_charges st) j\<rparr>) (map_of (db_ents db) j)" for j
  proof -
    have "map_of es j = map_option (\<lambda>x. case map_of (st_charges st) j of None \<Rightarrow> x
       | Some n \<Rightarrow> (case (if n > 0 then Some \<lparr>cc_ID = j, cc_Before = 0, cc_Delta = n\<rparr> else None)
         of None \<Rightarrow> x | Some c \<Rightarrow> x\<lparr>en_Used := en_Used x + cc_Delta c\<rparr>)) (map_of (db_ents db) j)"
      by (rule B2(3)) (auto split: option.splits if_splits)
    then show ?thesis using L(4) [of j] pending_nonneg [OF inv li, of j]
      by (cases "map_of (db_ents db) j") (auto simp: look0_def split: option.splits)
  qed
  show "map_of (db_leases db') i = map_option (\<lambda>l. l\<lparr>lr_Used := used_now db st i\<rparr>) (map_of (db_leases db) i)"
    "map_of (db_ents db') e = map_option (\<lambda>x. x\<lparr>en_Used := en_Used x + look0 (st_charges st) e\<rparr>) (map_of (db_ents db) e)"
    using ls2 es2 by (simp_all add: db')
  note U = BulkInsert_ok [OF I(4) us]
  have rep: "reported db' j = reported db j + added st j" "charged db' j = charged db j + added_charge st j" for j
    unfolding reported_def charged_def added_def added_charge_def using U(2) by (simp_all add: db' case_prod_beta)
  have ls': "db_leases db' = ls" by (simp add: db')
  let ?u = "\<lambda>i l. l\<lparr>lr_Used := used_now db st i\<rparr>"
  have sums: "gsum f ls = gsum (\<lambda>i x. f i (?u i x)) (db_leases db)" for f
    by (rule gsum_map_option [OF I(2) ls1(2) ls2])
  have cost: "cost db' j (?u j l) = cost db j l" if "map_of (db_leases db) j = Some l" for j l
    using L(3) [of j] that by (auto simp: cost_def db' used_now_def lease_closed_def split: option.splits)
  have ec: "ent_cost db' y = ent_cost db y" for y
  proof -
    have "ent_cost db' y = gsum (\<lambda>i l. if lr_Ent (?u i l) = y then cost db' i (?u i l) else 0) (db_leases db)"
      unfolding ent_cost_def ls' by (rule sums)
    also have "\<dots> = ent_cost db y" unfolding ent_cost_def by (rule gsum_cong [OF I(2)]) (simp add: cost)
    finally show ?thesis .
  qed
  have eu: "ent_used db' y = ent_used db y + pending_charge db st y" for y
  proof -
    have "ent_used db' y = gsum (\<lambda>i l. if lr_Ent l = y then charge (lr_Mult l) (used_now db st i) else 0) (db_leases db)"
      unfolding ent_used_def ls' by (subst sums) (simp cong: if_cong)
    also have "\<dots> = ent_used db y + pending_charge db st y"
      unfolding ent_used_def pending_charge_def gsum_def sum_list_addf [symmetric]
      by (rule arg_cong [of _ _ sum_list], rule map_cong) auto
    finally show ?thesis .
  qed
  show "quota_inv db'"
    unfolding quota_inv_def
  proof (intro conjI allI impI)
    fix y f assume "map_of (db_ents db') y = Some f"
    then obtain f0 where f0: "map_of (db_ents db) y = Some f0" "f = f0\<lparr>en_Used := en_Used f0 + look0 (st_charges st) y\<rparr>"
      using es2 [of y] by (auto simp: db')
    show "ent_ok db' y f" using I(5) [OF f0(1)] ec [of y] eu [of y] L(4) [of y] by (auto simp: ent_ok_def f0(2))
  next
    fix j k assume "map_of (db_leases db') j = Some k"
    then obtain l where l: "map_of (db_leases db) j = Some l" "k = ?u j l" using ls2 [of j] by (auto simp: db')
    have E: "has (db_ents db') x = has (db_ents db) x" for x using es2 [of x] by (auto simp: has_def db')
    have "0 \<le> used_now db st j" using used_now_bounds(1) [OF inv li l(1)] I(6) [OF l(1)] by (simp add: lease_ok_def)
    then show "lease_ok db' j k"
      using I(6) [OF l(1)] used_now_bounds [OF inv li l(1)] L(5,6) [OF l(1)] rep [of j]
      by (simp add: lease_ok_def l(2) E) (simp add: db')
  next
    fix j x assume "map_of (db_usage db') j = Some x"
    then have "map_of (db_usage db) j = Some x \<or> (j, x) \<in> set (st_rows st)" using U(3) by (simp add: db')
    then have "has (db_leases db) (ur_Lease x)" using I(7) L(7) by blast
    then show "has (db_leases db') (ur_Lease x)" using ls2 [of "ur_Lease x"] by (auto simp: has_def db')
  qed (use I(3) ls1 es1 U(1) in \<open>simp_all add: db'\<close>)
qed

lemma already_ok:
  assumes "already db us = Inr vs"
  shows "vs = filter (\<lambda>u. \<not> has (db_usage db) (u_ID u)) us"
    "\<And>u r. u \<in> set us \<Longrightarrow> map_of (db_usage db) (u_ID u) = Some r \<Longrightarrow> ur_Payload r = u"
  using assms by (fastforce simp: already_def list_ex_iff split: if_splits)+

lemma settle_rows:
  assumes "runE (settle_one db) st us = Inr st'"
  shows "map (\<lambda>(k, r). (k, ur_Payload r)) (st_rows st') = map (\<lambda>(k, r). (k, ur_Payload r)) (st_rows st) @ map (\<lambda>u. (u_ID u, u)) us"
  using assms
proof (induction us arbitrary: st)
  case (Cons u us)
  then obtain st1 where s: "settle_one db st u = Inr st1" "runE (settle_one db) st1 us = Inr st'" by (auto split: sum.splits)
  have "map (\<lambda>(k, r). (k, ur_Payload r)) (st_rows st1) = map (\<lambda>(k, r). (k, ur_Payload r)) (st_rows st) @ [(u_ID u, u)]"
    using s(1) by (auto simp: settle_one_def Let_def split: option.splits if_splits)
  with Cons.IH [OF s(2)] show ?case by simp
qed simp

lemma Settle_cases:
  assumes r: "SettleUsageBatch us db = Inr db'"
  obtains "db' = db" "\<And>u. u \<in> set us \<Longrightarrow> \<exists>r. map_of (db_usage db) (u_ID u) = Some r \<and> ur_Payload r = u"
  | vs st where "vs \<noteq> []" "list_all valid_usage vs" "runE (settle_one db) \<lparr>st_used = [], st_charges = [], st_rows = []\<rparr> vs = Inr st"
    "commit_settlement db st = Inr db'" "distinct (map u_ID vs)"
    "\<And>u. u \<in> set us \<Longrightarrow> u \<in> set vs \<or> (\<exists>r. map_of (db_usage db) (u_ID u) = Some r \<and> ur_Payload r = u)"
proof (cases "us = []")
  case True
  then show ?thesis using r that(1) by (simp add: SettleUsageBatch_def)
next
  case False
  then obtain ws vs where ws: "dedupe us [] = Inr ws" "already db ws = Inr vs"
    and rest: "vs = [] \<and> db' = db \<or> vs \<noteq> [] \<and> (\<exists>st. runE (settle_one db) \<lparr>st_used = [], st_charges = [], st_rows = []\<rparr> vs = Inr st
      \<and> commit_settlement db st = Inr db')"
    using r by (auto simp: SettleUsageBatch_def bindE_eq_Inr split: if_splits)
  note A = already_ok [OF ws(2)] and D = dedupe_valid [OF ws(1)]
  have dv: "distinct (map u_ID vs)" "list_all valid_usage vs"
    using D by (auto simp: A(1) distinct_map_filter list_all_iff)
  have cover: "u \<in> set vs \<or> (\<exists>r. map_of (db_usage db) (u_ID u) = Some r \<and> ur_Payload r = u)" if "u \<in> set us" for u
    using that D A(2) [of u] by (auto simp: A(1) has_def)
  show ?thesis
  proof (cases "vs = []")
    case True
    then show ?thesis using rest that(1) cover by simp
  next
    case False
    then obtain st where "runE (settle_one db) \<lparr>st_used = [], st_charges = [], st_rows = []\<rparr> vs = Inr st"
      "commit_settlement db st = Inr db'" using rest by blast
    from that(2) [OF False dv(2) this dv(1) cover] show ?thesis .
  qed
qed

lemma SettleUsageBatch_inv:
  assumes inv: "quota_inv db" and r: "SettleUsageBatch us db = Inr db'"
  shows "quota_inv db'"
  using r
proof (cases rule: Settle_cases)
  case (2 vs st)
  have "loop_inv db st" using settle.run_inv [OF _ 2(2,3)] inv loop_inv_start by blast
  then show ?thesis using commit_settlement_ok(1) [OF inv _ 2(4)] by simp
qed (use inv in simp)


section \<open>Settling twice\<close>

lemma BulkInsert_member:
  assumes "BulkInsert rows m = Inr m'"
  shows "map_of m k = Some x \<Longrightarrow> map_of m' k = Some x" "(k, x) \<in> set rows \<Longrightarrow> map_of m' k = Some x"
proof -
  have "(map_of m k = Some x \<longrightarrow> map_of m' k = Some x) \<and> ((k, x) \<in> set rows \<longrightarrow> map_of m' k = Some x)"
    using assms
  proof (induction rows m rule: BulkInsert.induct)
    case (2 j y rows m)
    then have "map_of m j = None" "BulkInsert rows (put j y m) = Inr m'" by (auto simp: bindE_eq_Inr)
    with 2(1) [of "put j y m"] show ?case
      by (cases "k = j") (auto simp: insert_row_def has_def)
  qed simp
  then show "map_of m k = Some x \<Longrightarrow> map_of m' k = Some x" "(k, x) \<in> set rows \<Longrightarrow> map_of m' k = Some x" by auto
qed

lemma settled:
  assumes inv: "quota_inv db" and r: "SettleUsageBatch us db = Inr db'" and u: "u \<in> set us"
  shows "\<exists>r. map_of (db_usage db') (u_ID u) = Some r \<and> ur_Payload r = u"
  using r
proof (cases rule: Settle_cases)
  case 1
  then show ?thesis using u by simp
next
  case (2 vs st)
  have li: "loop_inv db st" using settle.run_inv [OF _ 2(2,3)] inv loop_inv_start by blast
  note B = BulkInsert_member [OF commit_settlement_ok(5) [OF inv li 2(4)]]
  from 2(6) [OF u] show ?thesis
  proof
    assume "u \<in> set vs"
    then have "(u_ID u, u) \<in> set (map (\<lambda>(k, r). (k, ur_Payload r)) (st_rows st))" using settle_rows [OF 2(3)] by simp
    then obtain r where "(u_ID u, r) \<in> set (st_rows st)" "ur_Payload r = u" by auto
    then show ?thesis using B(2) by blast
  qed (use B(1) in blast)
qed

lemma settle_again:
  assumes inv: "quota_inv db" and r: "SettleUsageBatch us db = Inr db'"
  shows "SettleUsageBatch us db' = Inr db'"
proof (cases "us = []")
  case False
  have len: "length us \<le> 500" using r by (auto simp: SettleUsageBatch_def split: if_splits)
  obtain ws where ws: "dedupe us [] = Inr ws" using r False len by (auto simp: SettleUsageBatch_def bindE_eq_Inr)
  have "\<exists>r. map_of (db_usage db') (u_ID u) = Some r \<and> ur_Payload r = u" if "u \<in> set ws" for u
    using settled [OF inv r] dedupe_valid [OF ws] that by blast
  then have p: "(case map_of (db_usage db') (u_ID u) of None \<Rightarrow> False | Some r \<Rightarrow> ur_Payload r \<noteq> u) = False"
    "has (db_usage db') (u_ID u)" if "u \<in> set ws" for u
    using that by (fastforce simp: has_def)+
  have "already db' ws = Inr []"
    unfolding already_def list_ex_iff using p by (simp add: filter_empty_conv)
  then show ?thesis using False len ws by (simp add: SettleUsageBatch_def)
qed (simp add: SettleUsageBatch_def)

section \<open>Runs of quota operations\<close>

datatype quota_op =
    OpAllocate env string string string "rat option" int
  | OpSettle "usage_record list"
  | OpRetire string string int

definition quota_step :: "cdb \<Rightarrow> quota_op \<Rightarrow> commerce_error + cdb" where
  "quota_step db op = (case op of
     OpAllocate v user rule node m n \<Rightarrow> bindE (AllocateBudgetWithMultiplier v user rule node m n db) (\<lambda>(_, db'). Inr db')
   | OpSettle us \<Rightarrow> SettleUsageBatch us db
   | OpRetire node i n \<Rightarrow> RetireLease node i n db)"

interpretation quota: guarded_machine quota_step "\<lambda>_. True" quota_inv
  by unfold_locales
    (auto simp: quota_step_def bindE_eq_Inr split: quota_op.splits dest: Allocate_inv SettleUsageBatch_inv RetireLease_inv)

end
