(* ===== verification/Billing.thy ===== *)
theory Billing
  imports Quota
begin

text \<open>
  Plans and purchases (\<open>internal/commerce/service.go\<close>, \<open>duration.go\<close>, \<open>plans.go\<close>, \<open>limits.go\<close>, \<open>funding.go\<close>,
  \<open>lifecycle.go\<close>): buying a period, buying extra quota, refunding a purchase to the wallet, the
  commission of whoever invited the buyer, redeem codes, automatic renewal and corrections by an
  administrator. Every handler is one transaction on the commerce database.
\<close>

section \<open>Durations\<close>

definition normalizePlanDuration :: "plan \<Rightarrow> commerce_error + plan" where
  "normalizePlanDuration p =
     (if p_Kind p = ''addon'' then
        (if p_Months p \<noteq> 0 \<or> p_DurationUnit p \<noteq> '''' \<or> p_DurationValue p \<noteq> 0 then Inl BadDuration else Inr p)
      else if p_Kind p \<noteq> ''period'' then Inl BadDuration
      else let p1 = (if p_DurationUnit p = '''' \<and> p_DurationValue p = 0
              then p\<lparr>p_DurationUnit := ''month'', p_DurationValue := p_Months p\<rparr> else p);
               unit = p_DurationUnit p1; value = p_DurationValue p1 in
        bindE (if unit = ''day'' then Inr 3650 else if unit = ''week'' then Inr 520
               else if unit = ''month'' then Inr 120 else if unit = ''year'' then Inr 10 else Inl BadDuration) (\<lambda>mx.
        if value < 1 \<or> value > mx then Inl BadDuration
        else let months = (if unit = ''month'' then value else if unit = ''year'' then value * 12 else 0) in
          if p_Months p1 \<noteq> 0 \<and> p_Months p1 \<noteq> months then Inl BadDuration
          else Inr (p1\<lparr>p_Months := months\<rparr>)))"

definition leap :: "int \<Rightarrow> bool" where
  "leap y \<longleftrightarrow> y mod 4 = 0 \<and> (y mod 100 \<noteq> 0 \<or> y mod 400 = 0)"

definition days_in :: "int \<Rightarrow> int \<Rightarrow> int" where
  "days_in y m = (if m = 2 then (if leap y then 29 else 28) else if m = 4 \<or> m = 6 \<or> m = 9 \<or> m = 11 then 30 else 31)"

text \<open>The first day of the month that many months later, as \<open>time.Date\<close> normalises it, and then the day
  of the month, or the last one when the month is too short.\<close>

definition AddMonths_civil :: "civil \<Rightarrow> int \<Rightarrow> civil" where
  "AddMonths_civil c n =
     (let k = cv_Year c * 12 + (cv_Month c - 1) + n; y = k div 12; m = k mod 12 + 1; last = days_in y m
      in \<lparr>cv_Year = y, cv_Month = m, cv_Day = (if cv_Day c > last then last else cv_Day c), cv_Clock = cv_Clock c\<rparr>)"

definition AddMonths :: "env \<Rightarrow> gotime \<Rightarrow> int \<Rightarrow> gotime" where
  "AddMonths v t n = ev_date v (AddMonths_civil (ev_civil v t) n)"

definition planExpiry :: "env \<Rightarrow> gotime \<Rightarrow> plan \<Rightarrow> commerce_error + gotime" where
  "planExpiry v start p0 = bindE (normalizePlanDuration p0) (\<lambda>p.
     if p_Kind p \<noteq> ''period'' then Inl PeriodRequired
     else if p_DurationUnit p = ''month'' \<or> p_DurationUnit p = ''year'' then Inr (AddMonths v start (p_Months p))
     else let days = (if p_DurationUnit p = ''week'' then p_DurationValue p * 7 else p_DurationValue p)
       in Inr (ev_addDays v start days))"

section \<open>Plans\<close>

definition ruleOnlyLimits :: "plan_limits \<Rightarrow> plan_limits" where
  "ruleOnlyLimits l = \<lparr>pl_MaxRules = pl_MaxRules l\<rparr>"

definition validatePlan :: "plan \<Rightarrow> commerce_error + plan" where
  "validatePlan p =
     (if \<not> PlanLimits_Validate (ruleOnlyLimits (p_Limits p)) then Inl BadPlan
      else if p_Kind p = ''addon'' \<and> ruleOnlyLimits (p_Limits p) \<noteq> \<lparr>pl_MaxRules = 0\<rparr> then Inl BadPlan
      else if TrimSpace (p_Name p) = '''' \<or> length (p_Name p) > 200 \<or> p_Price p \<le> 0 \<or> p_Price p > 100000000 \<or> p_Quota p < 0
      then Inl BadPlan
      else normalizePlanDuration p)"

definition planTx :: "cdb \<Rightarrow> string \<Rightarrow> commerce_error + plan" where
  "planTx db i = bindE (row (db_plans db) i) normalizePlanDuration"

text \<open>The price in yuan and the quota in gigabytes of a request, as \<open>big.Rat\<close> reads them (\<open>None\<close> when it does
  not), and an empty quota for unlimited.\<close>

datatype quota_text = EmptyQuota | QuotaText "rat option"

definition gigabyte :: int where "gigabyte = 1073741824"

definition scaledInteger :: "rat option \<Rightarrow> int \<Rightarrow> int option" where
  "scaledInteger r scale = (case r of None \<Rightarrow> None | Some x \<Rightarrow>
     if x < 0 then None
     else case quotient_of (x * of_int scale) of (num, den) \<Rightarrow> if den \<noteq> 1 \<or> \<not> fits64 num then None else Some num)"

definition applyPlanUnits :: "rat option option \<Rightarrow> quota_text option \<Rightarrow> plan \<Rightarrow> commerce_error + plan" where
  "applyPlanUnits yuan gb p =
     bindE (case yuan of None \<Rightarrow> Inr p | Some y \<Rightarrow>
              (case scaledInteger y 100 of None \<Rightarrow> Inl BadPlan | Some n \<Rightarrow> Inr (p\<lparr>p_Price := n\<rparr>))) (\<lambda>p1.
     case gb of None \<Rightarrow> Inr p1
     | Some EmptyQuota \<Rightarrow> Inr (p1\<lparr>p_Quota := 0\<rparr>)
     | Some (QuotaText q) \<Rightarrow> (case scaledInteger q gigabyte of None \<Rightarrow> Inl BadPlan | Some n \<Rightarrow> Inr (p1\<lparr>p_Quota := n\<rparr>)))"

definition CreatePlan :: "env \<Rightarrow> rat option option \<Rightarrow> quota_text option \<Rightarrow> plan \<Rightarrow> cdb \<Rightarrow> commerce_error + (plan \<times> cdb)" where
  "CreatePlan v yuan gb p0 db =
     (let p1 = (if p_Kind p0 = '''' then p0\<lparr>p_Kind := ''period''\<rparr> else p0) in
      bindE (applyPlanUnits yuan gb p1) (\<lambda>p1. bindE (normalizePlanDuration p1) (\<lambda>p2.
        case validatePlan p2 of Inl _ \<Rightarrow> Inl BadPlan | Inr _ \<Rightarrow>
          let (i, db1) = draw v db; p = p2\<lparr>p_ID := i, p_Active := True, p_Version := 1, p_Limits := ruleOnlyLimits (p_Limits p2)\<rparr> in
          bindE (insert_row i p (db_plans db1)) (\<lambda>m. Inr (p, db1\<lparr>db_plans := m\<rparr>)))))"

definition UpdatePlan :: "rat option option \<Rightarrow> quota_text option \<Rightarrow> plan \<Rightarrow> cdb \<Rightarrow> commerce_error + (plan \<times> cdb)" where
  "UpdatePlan yuan gb p0 db =
     (let legacy = (p_Kind p0 = ''period'' \<and> p_DurationUnit p0 = '''' \<and> p_DurationValue p0 = 0) in
      bindE (applyPlanUnits yuan gb p0) (\<lambda>p1. bindE (normalizePlanDuration p1) (\<lambda>p. bindE (validatePlan p) (\<lambda>_. bindE (planTx db (p_ID p)) (\<lambda>old.
        if p_Version p \<noteq> p_Version old \<or> p_Kind p \<noteq> p_Kind old then Inl Conflict
        else if legacy \<and> p_DurationUnit old \<noteq> ''month'' then Inl BadDuration
        else let p' = p\<lparr>p_Version := p_Version p + 1, p_Active := p_Active old, p_Limits := ruleOnlyLimits (p_Limits p)\<rparr>
          in Inr (p', db\<lparr>db_plans := put (p_ID p) p' (db_plans db)\<rparr>))))))"

definition SetPlanActive :: "string \<Rightarrow> bool \<Rightarrow> cdb \<Rightarrow> commerce_error + cdb" where
  "SetPlanActive i active db =
     (if TrimSpace i = '''' then Inl BadPlan
      else bindE (row (db_plans db) i) (\<lambda>p.
        Inr (db\<lparr>db_plans := put i (p\<lparr>p_Active := active, p_Version := p_Version p + 1\<rparr>) (db_plans db)\<rparr>)))"

definition entitlementLimits :: "cdb \<Rightarrow> string \<Rightarrow> commerce_error + plan_limits" where
  "entitlementLimits db i = (case map_of (db_entLimits db) i of None \<Rightarrow> Inr \<lparr>pl_MaxRules = 0\<rparr>
     | Some l \<Rightarrow> if PlanLimits_Validate l then Inr l else Inl BadPlan)"

definition snapshotLimits :: "string \<Rightarrow> plan_limits \<Rightarrow> cdb \<Rightarrow> commerce_error + cdb" where
  "snapshotLimits i l db = bindE (insert_row i (ruleOnlyLimits l) (db_entLimits db)) (\<lambda>m. Inr (db\<lparr>db_entLimits := m\<rparr>))"

definition insert_ent :: "entitlement \<Rightarrow> cdb \<Rightarrow> commerce_error + cdb" where
  "insert_ent e db =
     (if list_ex (\<lambda>(_, f). en_User f = en_User e \<and> en_Version f = en_Version e) (db_ents db) then Inl DbConstraint
      else bindE (insert_row (en_ID e) e (db_ents db)) (\<lambda>m. Inr (db\<lparr>db_ents := m\<rparr>)))"

definition insert_snapshot :: "string \<Rightarrow> string \<Rightarrow> plan \<Rightarrow> cdb \<Rightarrow> commerce_error + cdb" where
  "insert_snapshot i user p db = bindE (insert_row i \<lparr>ss_User = user, ss_Plan = p\<rparr> (db_snapshots db)) (\<lambda>m. Inr (db\<lparr>db_snapshots := m\<rparr>))"

section \<open>Commissions\<close>

definition commission_amount :: "int \<Rightarrow> int \<Rightarrow> int" where
  "commission_amount price rate = quo price 10000 * rate + quo (rem price 10000 * rate) 10000"

definition recordCommission :: "env \<Rightarrow> string \<Rightarrow> string \<Rightarrow> int \<Rightarrow> cdb \<Rightarrow> commerce_error + cdb" where
  "recordCommission v invitee source price db =
     (if price \<le> 0 then Inr db
      else case db_rate db of None \<Rightarrow> Inr db | Some rate \<Rightarrow>
        if rate = 0 then Inr db
        else case map_of (db_bindings db) invitee of None \<Rightarrow> Inr db | Some inviter \<Rightarrow>
          let amount = commission_amount price rate in
          if amount = 0 then Inr db
          else let (i, db1) = draw v db in
            if list_ex (\<lambda>(_, c). co_Source c = source) (db_commissions db1) then Inl DbConstraint
            else bindE (insert_row i \<lparr>co_Inviter = inviter, co_Invitee = invitee, co_Source = source, co_Amount = amount,
                   co_Status = ''pending''\<rparr> (db_commissions db1)) (\<lambda>m. Inr (db1\<lparr>db_commissions := m\<rparr>)))"

definition fraction :: "int \<Rightarrow> int \<Rightarrow> int \<Rightarrow> int" where
  "fraction whole n d = i64 (quo (whole * n) d)"

definition reversePurchaseCommission :: "env \<Rightarrow> string \<Rightarrow> int \<Rightarrow> int \<Rightarrow> cdb \<Rightarrow> commerce_error + cdb" where
  "reversePurchaseCommission v purchase refunded price db =
     (case find (\<lambda>(_, c). co_Source c = purchase) (db_commissions db) of None \<Rightarrow> Inr db | Some (cid, c) \<Rightarrow>
        if co_Status c = ''reversed'' then Inr db
        else let previous = look0 (db_comRefunds db) cid; target = fraction (co_Amount c) refunded price; delta = target - previous in
          if delta \<le> 0 then Inr db
          else bindE (if co_Status c = ''paid''
                      then (let (i, db1) = draw v db in post v (co_Inviter c) (- delta) ''commission_reversal'' i db1)
                      else Inr db) (\<lambda>db1.
            let db2 = db1\<lparr>db_comRefunds := put cid target (db_comRefunds db1)\<rparr>;
                db3 = (if target = co_Amount c
                       then db2\<lparr>db_commissions := put cid (c\<lparr>co_Status := ''reversed''\<rparr>) (db_commissions db2)\<rparr> else db2)
            in emitEventTx v (co_Inviter c) ''commission.refunded'' [(''commission_id'', JStr cid), (''purchase_id'', JStr purchase)] db3))"

definition ResolveCommission :: "env \<Rightarrow> string \<Rightarrow> string \<Rightarrow> string \<Rightarrow> string \<Rightarrow> cdb \<Rightarrow> commerce_error + cdb" where
  "ResolveCommission v actor cid action reason db =
     (if actor = '''' \<or> (action \<noteq> ''settle'' \<and> action \<noteq> ''reverse'') \<or> TrimSpace reason = '''' \<or> length reason > 500
      then Inl BadCommission
      else bindE (row (db_commissions db) cid) (\<lambda>c.
        let amount = co_Amount c - look0 (db_comRefunds db) cid;
            target = (if action = ''reverse'' then ''reversed'' else ''paid'') in
        if co_Status c = target then Inr db
        else if co_Status c = ''reversed'' then Inl Conflict
        else bindE (if action = ''settle'' then post v (co_Inviter c) amount ''commission'' (''commission:'' @ cid) db
                    else if co_Status c = ''paid''
                    then post v (co_Inviter c) (- amount) ''commission_reversal'' (''commission-reverse:'' @ cid) db
                    else Inr db) (\<lambda>db1.
          let db2 = db1\<lparr>db_commissions := put cid (c\<lparr>co_Status := target\<rparr>) (db_commissions db1)\<rparr> in
          if (cid, action) \<in> set (db_comActions db2) then Inl DbConstraint
          else Inr (db2\<lparr>db_comActions := (cid, action) # db_comActions db2\<rparr>))))"


section \<open>Purchases\<close>

definition grant_ent :: "string \<Rightarrow> string \<Rightarrow> int \<Rightarrow> gotime \<Rightarrow> gotime \<Rightarrow> int \<Rightarrow> string \<Rightarrow> entitlement" where
  "grant_ent user plan version start expiry quota i =
     \<lparr>en_ID = i, en_User = user, en_Plan = plan, en_Version = version, en_StartsAt = start, en_ExpiresAt = expiry,
      en_Quota = quota, en_Used = 0, en_Allocated = 0\<rparr>"

definition replay_purchase :: "string \<Rightarrow> int \<Rightarrow> int \<Rightarrow> purchase_row \<Rightarrow> cdb \<Rightarrow> commerce_error + ((entitlement \<times> plan_limits) \<times> cdb)" where
  "replay_purchase plan expected planVersion pr db =
     bindE (if planVersion \<noteq> 0
            then bindE (row (db_snapshots db) (pu_Ent pr)) (\<lambda>s. check (p_Version (ss_Plan s) = planVersion) Conflict)
            else Inr ()) (\<lambda>_.
     if pu_Plan pr \<noteq> plan \<or> pu_Expected pr \<noteq> expected then Inl Conflict
     else bindE (row (db_ents db) (pu_Ent pr)) (\<lambda>e. bindE (entitlementLimits db (en_ID e)) (\<lambda>l. Inr ((e, l), db))))"

definition current_version :: "cdb \<Rightarrow> string \<Rightarrow> int" where
  "current_version db user = (case latest db user of None \<Rightarrow> 0 | Some e \<Rightarrow> en_Version e)"

definition buy_period :: "env \<Rightarrow> string \<Rightarrow> string \<Rightarrow> string \<Rightarrow> int \<Rightarrow> plan \<Rightarrow> cdb
    \<Rightarrow> commerce_error + ((entitlement \<times> plan_limits) \<times> cdb)" where
  "buy_period v user plan key expected p db0 =
     (let (i, db) = draw v db0 in
      bindE (planExpiry v (ev_now v) p) (\<lambda>expiry.
      let e = grant_ent user plan (current_version db0 user + 1) (ev_now v) expiry (p_Quota p) i in
      bindE (post v user (- p_Price p) ''purchase'' i db) (\<lambda>db1.
      bindE (insert_ent e db1) (\<lambda>db2.
      bindE (snapshotLimits i (p_Limits p) db2) (\<lambda>db3.
      bindE (insert_snapshot i user p db3) (\<lambda>db4.
      bindE (recordCommission v user i (p_Price p) db4) (\<lambda>db5.
      bindE (emitEventTx v user ''entitlement.purchased'' [(''entitlement_id'', JStr i), (''plan_id'', JStr plan),
               (''amount_cents'', JInt (p_Price p))] db5) (\<lambda>db6.
      bindE (insert_row (user, key) \<lparr>pu_Plan = plan, pu_Expected = expected, pu_Ent = i\<rparr> (db_purchases db6)) (\<lambda>m.
        Inr ((e, p_Limits p), db6\<lparr>db_purchases := m\<rparr>))))))))))"

definition purchaseTx :: "env \<Rightarrow> string \<Rightarrow> string \<Rightarrow> string \<Rightarrow> int \<Rightarrow> int \<Rightarrow> cdb
    \<Rightarrow> commerce_error + ((entitlement \<times> plan_limits) \<times> cdb)" where
  "purchaseTx v user plan key expected planVersion db0 =
     (case ev_account v user of Some err \<Rightarrow> Inl err | None \<Rightarrow>
      let db = snd (walletTx user db0) in
      case map_of (db_purchases db) (user, key) of
        Some pr \<Rightarrow> replay_purchase plan expected planVersion pr db
      | None \<Rightarrow>
          if current_version db user \<noteq> expected then Inl Conflict
          else bindE (planTx db plan) (\<lambda>p.
            if \<not> p_Active p \<or> p_Kind p \<noteq> ''period'' then Inl PlanUnavailable
            else if planVersion \<noteq> 0 \<and> p_Version p \<noteq> planVersion then Inl Conflict
            else buy_period v user plan key expected p db))"

definition PurchaseQuote :: "env \<Rightarrow> string \<Rightarrow> string \<Rightarrow> string \<Rightarrow> int \<Rightarrow> int \<Rightarrow> cdb
    \<Rightarrow> commerce_error + ((entitlement \<times> plan_limits) \<times> cdb)" where
  "PurchaseQuote v user plan key expected planVersion db =
     (if length key < 1 \<or> length key > 128 then Inl BadKey
      else purchaseTx v user plan key expected planVersion db)"

definition Purchase :: "env \<Rightarrow> string \<Rightarrow> string \<Rightarrow> string \<Rightarrow> int \<Rightarrow> cdb
    \<Rightarrow> commerce_error + ((entitlement \<times> plan_limits) \<times> cdb)" where
  "Purchase v user plan key expected db = PurchaseQuote v user plan key expected 0 db"

section \<open>Extra quota\<close>

definition addon_quota :: "int \<Rightarrow> int \<Rightarrow> int" where
  "addon_quota current extra = (if extra = 0 then 0 else if current \<noteq> 0 then current + extra else current)"

definition buy_addon :: "env \<Rightarrow> string \<Rightarrow> string \<Rightarrow> string \<Rightarrow> int \<Rightarrow> plan \<Rightarrow> entitlement \<Rightarrow> plan_limits \<Rightarrow> cdb
    \<Rightarrow> commerce_error + ((entitlement \<times> plan_limits) \<times> cdb)" where
  "buy_addon v user plan key expected p e limits db0 =
     (let (i, db) = draw v db0 in
      bindE (post v user (- p_Price p) ''addon'' i db) (\<lambda>db1.
      let q = addon_quota (en_Quota e) (p_Quota p); e' = e\<lparr>en_Quota := q\<rparr>;
          db2 = (case map_of (db_ents db1) (en_ID e) of None \<Rightarrow> db1
                 | Some f \<Rightarrow> db1\<lparr>db_ents := put (en_ID e) (f\<lparr>en_Quota := q\<rparr>) (db_ents db1)\<rparr>) in
      if list_ex (\<lambda>(_, a). ad_User a = user \<and> ad_Key a = key) (db_addons db2) then Inl DbConstraint
      else bindE (insert_row i \<lparr>ad_User = user, ad_Key = key, ad_Plan = plan, ad_Expected = expected, ad_Ent = en_ID e,
               ad_Payload = p, ad_Result = (e', limits)\<rparr> (db_addons db2)) (\<lambda>m.
      bindE (emitEventTx v user ''entitlement.addon'' [(''purchase_id'', JStr i), (''entitlement_id'', JStr (en_ID e)),
               (''plan_id'', JStr plan)] (db2\<lparr>db_addons := m\<rparr>)) (\<lambda>db3. Inr ((e', limits), db3)))))"

definition PurchaseAddon :: "env \<Rightarrow> string \<Rightarrow> string \<Rightarrow> string \<Rightarrow> int \<Rightarrow> int \<Rightarrow> cdb
    \<Rightarrow> commerce_error + ((entitlement \<times> plan_limits) \<times> cdb)" where
  "PurchaseAddon v user plan key expected planVersion db0 =
     (if length key < 1 \<or> length key > 128 then Inl BadKey
      else case ev_account v user of Some err \<Rightarrow> Inl err | None \<Rightarrow>
      let db = snd (walletTx user db0) in
      case find (\<lambda>(_, a). ad_User a = user \<and> ad_Key a = key) (db_addons db) of
        Some (_, a) \<Rightarrow>
          if ad_Plan a \<noteq> plan \<or> expected \<noteq> ad_Expected a \<or> (planVersion \<noteq> 0 \<and> p_Version (ad_Payload a) \<noteq> planVersion)
          then Inl Conflict else Inr (ad_Result a, db)
      | None \<Rightarrow> bindE (planTx db plan) (\<lambda>p.
          if p_Kind p \<noteq> ''addon'' \<or> \<not> p_Active p then Inl PlanUnavailable
          else if planVersion \<noteq> 0 \<and> planVersion \<noteq> p_Version p then Inl Conflict
          else case latest db user of None \<Rightarrow> Inl NoRows | Some e \<Rightarrow>
            bindE (entitlementLimits db (en_ID e)) (\<lambda>limits.
              if en_Version e \<noteq> expected then Inl Conflict
              else if \<not> ev_now v < en_ExpiresAt e then Inl ActiveRequired
              else if en_Quota e \<noteq> 0 \<and> p_Quota p \<noteq> 0 \<and> en_Quota e > max_int64 - p_Quota p then Inl QuotaOverflow
              else buy_addon v user plan key expected p e limits db)))"

section \<open>Refunding a purchase to the wallet\<close>

definition purchase_of :: "cdb \<Rightarrow> string \<Rightarrow> commerce_error + (string \<times> string \<times> plan)" where
  "purchase_of db i = (case map_of (db_snapshots db) i of
     Some s \<Rightarrow> Inr (ss_User s, i, ss_Plan s)
   | None \<Rightarrow> bindE (row (db_addons db) i) (\<lambda>a. Inr (ad_User a, ad_Ent a, ad_Payload a)))"

definition refunded_so_far :: "cdb \<Rightarrow> string \<Rightarrow> int" where
  "refunded_so_far db purchase = gsum (\<lambda>_ r. if pr_Purchase r = purchase then pr_Amount r else 0) (db_prefunds db)"

text \<open>Remove quota from the entitlement, unless it is used or reserved. The number of rows changed
  matters only when something had to be removed.\<close>

definition remove_quota :: "string \<Rightarrow> int \<Rightarrow> cdb \<Rightarrow> commerce_error + cdb" where
  "remove_quota ent removed db = (case map_of (db_ents db) ent of
     Some e \<Rightarrow> if en_Quota e - removed \<ge> en_Allocated e \<and> en_Quota e - removed \<ge> en_Used e
       then Inr (db\<lparr>db_ents := put ent (e\<lparr>en_Quota := en_Quota e - removed\<rparr>) (db_ents db)\<rparr>)
       else if removed \<noteq> 0 then Inl QuotaInUse else Inr db
   | None \<Rightarrow> if removed \<noteq> 0 then Inl QuotaInUse else Inr db)"

definition refund_purchase :: "env \<Rightarrow> string \<Rightarrow> string \<Rightarrow> string \<Rightarrow> string \<Rightarrow> int \<Rightarrow> string \<Rightarrow> string \<Rightarrow> plan \<Rightarrow> cdb
    \<Rightarrow> commerce_error + ((string \<times> int) \<times> cdb)" where
  "refund_purchase v actor purchase key reason amount user ent p db =
     (if p_Price p \<le> 0 then Inl NoRefundablePrice
      else let refunded = refunded_so_far db purchase in
        if amount > p_Price p - refunded then Inl RefundTooLarge
        else let removed = fraction (p_Quota p) (refunded + amount) (p_Price p) - fraction (p_Quota p) refunded (p_Price p) in
          bindE (remove_quota ent removed db) (\<lambda>db1.
          let (i, db2) = draw v db1 in
          bindE (insert_row i \<lparr>pr_User = user, pr_Purchase = purchase, pr_Amount = amount, pr_Removed = removed,
                   pr_Actor = actor, pr_Reason = reason, pr_Key = key\<rparr> (db_prefunds db2)) (\<lambda>m.
          bindE (reversePurchaseCommission v purchase (refunded + amount) (p_Price p) (db2\<lparr>db_prefunds := m\<rparr>)) (\<lambda>db3.
          bindE (post v user amount ''purchase_refund'' i db3) (\<lambda>db4.
          bindE (emitEventTx v user ''purchase.refunded'' [(''purchase_id'', JStr purchase), (''refund_id'', JStr i)] db4) (\<lambda>db5.
            Inr ((i, removed), db5)))))))"

definition RefundPurchase :: "env \<Rightarrow> string \<Rightarrow> string \<Rightarrow> string \<Rightarrow> string \<Rightarrow> int \<Rightarrow> cdb
    \<Rightarrow> commerce_error + ((string \<times> int) \<times> cdb)" where
  "RefundPurchase v actor purchase key reason amount db0 =
     (if actor = '''' \<or> amount \<le> 0 \<or> length key < 1 \<or> length key > 128 \<or> TrimSpace reason = '''' \<or> length reason > 500
      then Inl BadRefund
      else bindE (purchase_of db0 purchase) (\<lambda>(user, ent, p).
        case ev_account v user of Some err \<Rightarrow> Inl err | None \<Rightarrow>
        let db = snd (walletTx user db0) in
        case find (\<lambda>(_, r). pr_Purchase r = purchase \<and> pr_Key r = key) (db_prefunds db) of
          Some (i, r) \<Rightarrow> if pr_Amount r \<noteq> amount \<or> pr_Reason r \<noteq> reason then Inl Conflict else Inr ((i, pr_Removed r), db)
        | None \<Rightarrow> refund_purchase v actor purchase key reason amount user ent p db))"

section \<open>Redeem codes, renewal, referrals and corrections\<close>

definition ToUpper :: "string \<Rightarrow> string" where
  "ToUpper s = map (\<lambda>c. let n = of_char c :: nat in if 97 \<le> n \<and> n \<le> 122 then char_of (n - 32) else c) s"

definition digestCode :: "env \<Rightarrow> string \<Rightarrow> string" where
  "digestCode v code = ev_digest v (ToUpper (TrimSpace code))"

definition CreateRedeemCode :: "env \<Rightarrow> int \<Rightarrow> string \<Rightarrow> int \<Rightarrow> gotime option \<Rightarrow> cdb \<Rightarrow> commerce_error + (string \<times> cdb)" where
  "CreateRedeemCode v amount plan maxUses expires db0 =
     (if amount < 0 \<or> amount > 100000000 \<or> (TrimSpace plan = '''' \<and> amount = 0) \<or> maxUses < 1 \<or> maxUses > 1000000
      then Inl BadRedeem
      else if (case expires of None \<Rightarrow> False | Some t \<Rightarrow> \<not> ev_now v < t) then Inl BadRedeem
      else let (i, db) = draw v db0; plain = ''TFP-'' @ ToUpper i; hash = digestCode v plain in
        bindE (if plan = '''' then Inr () else bindE (row (db_plans db) plan) (\<lambda>p.
                    if p_Kind p \<noteq> ''period'' then Inl NoRows else check (p_Active p) PlanUnavailable)) (\<lambda>_.
        bindE (insert_row hash \<lparr>rd_Amount = amount, rd_Plan = plan, rd_MaxUses = maxUses, rd_Used = 0, rd_Expires = expires,
                 rd_Enabled = True\<rparr> (db_redeem db)) (\<lambda>m. Inr (plain, db\<lparr>db_redeem := m\<rparr>))))"

definition redeem_plan :: "env \<Rightarrow> string \<Rightarrow> string \<Rightarrow> cdb \<Rightarrow> commerce_error + (string \<times> cdb)" where
  "redeem_plan v user plan db0 = bindE (planTx db0 plan) (\<lambda>p.
     if \<not> p_Active p \<or> p_Kind p \<noteq> ''period'' then Inl PlanUnavailable
     else bindE (planExpiry v (ev_now v) p) (\<lambda>expiry.
       let (i, db) = draw v db0 in
       bindE (insert_ent (grant_ent user plan (current_version db user + 1) (ev_now v) expiry (p_Quota p) i) db) (\<lambda>db1.
       bindE (snapshotLimits i (p_Limits p) db1) (\<lambda>db2.
       bindE (insert_snapshot i user p db2) (\<lambda>db3.
       bindE (emitEventTx v user ''entitlement.redeemed'' [(''entitlement_id'', JStr i), (''plan_id'', JStr plan)] db3) (\<lambda>db4.
         Inr (i, db4)))))))"

definition redeem_code :: "env \<Rightarrow> string \<Rightarrow> string \<Rightarrow> redeem_row \<Rightarrow> cdb \<Rightarrow> commerce_error + (redeem_result \<times> cdb)" where
  "redeem_code v user hash c db =
     (let db1 = db\<lparr>db_redeem := put hash (c\<lparr>rd_Used := rd_Used c + 1\<rparr>) (db_redeem db)\<rparr> in
      bindE (if rd_Amount c > 0 then post v user (rd_Amount c) ''redeem'' (''redeem:'' @ digestCode v (hash @ '':'' @ user)) db1
             else Inr db1) (\<lambda>db2.
      bindE (if rd_Plan c \<noteq> '''' then bindE (redeem_plan v user (rd_Plan c) db2) (\<lambda>(i, d). Inr (Some i, d))
             else Inr (None, db2)) (\<lambda>(ent, db3).
      let result = \<lparr>rr_Amount = rd_Amount c, rr_Plan = rd_Plan c, rr_Ent = ent\<rparr> in
      bindE (insert_row (hash, user) result (db_claims db3)) (\<lambda>m. Inr (result, db3\<lparr>db_claims := m\<rparr>)))))"

definition RedeemCode :: "env \<Rightarrow> string \<Rightarrow> string \<Rightarrow> cdb \<Rightarrow> commerce_error + (redeem_result \<times> cdb)" where
  "RedeemCode v user plain db0 =
     (if TrimSpace plain = '''' \<or> length plain > 128 then Inl BadRedeem
      else case ev_account v user of Some err \<Rightarrow> Inl err | None \<Rightarrow>
      let hash = digestCode v plain; db = snd (walletTx user db0) in
      case map_of (db_claims db) (hash, user) of Some r \<Rightarrow> Inr (r, db) | None \<Rightarrow>
      bindE (row (db_redeem db) hash) (\<lambda>c.
        if \<not> rd_Enabled c \<or> rd_Used c \<ge> rd_MaxUses c \<or> (case rd_Expires c of None \<Rightarrow> False | Some t \<Rightarrow> \<not> ev_now v < t)
        then Inl RedeemUnavailable
        else redeem_code v user hash c db))"

definition RevokeRedeemCode :: "string \<Rightarrow> cdb \<Rightarrow> commerce_error + cdb" where
  "RevokeRedeemCode hash db = bindE (row (db_redeem db) hash) (\<lambda>c.
     Inr (db\<lparr>db_redeem := put hash (c\<lparr>rd_Enabled := False\<rparr>) (db_redeem db)\<rparr>))"

definition SetAutoRenew :: "env \<Rightarrow> string \<Rightarrow> string \<Rightarrow> bool \<Rightarrow> cdb \<Rightarrow> commerce_error + cdb" where
  "SetAutoRenew v user plan enabled db0 = (case ev_account v user of Some err \<Rightarrow> Inl err | None \<Rightarrow>
     let db = snd (walletTx user db0) in
     bindE (if enabled then bindE (row (db_plans db) plan) (\<lambda>p. if p_Kind p \<noteq> ''period'' then Inl NoRows
              else if \<not> p_Active p then Inl PlanUnavailable else Inr plan) else Inr '''') (\<lambda>pl.
       Inr (db\<lparr>db_autoRenew := put user \<lparr>ar_Enabled = enabled, ar_Plan = pl, ar_NextAt = milli (ev_now v), ar_LastError = ''''\<rparr>
              (db_autoRenew db)\<rparr>)))"

definition set_renewal :: "string \<Rightarrow> gotime \<Rightarrow> string \<Rightarrow> cdb \<Rightarrow> cdb" where
  "set_renewal user due_at msg db = (case map_of (db_autoRenew db) user of None \<Rightarrow> db
     | Some a \<Rightarrow> db\<lparr>db_autoRenew := put user (a\<lparr>ar_NextAt := milli due_at, ar_LastError := msg\<rparr>) (db_autoRenew db)\<rparr>)"

text \<open>The transaction for one user of a renewal batch. A failed purchase is rolled back to the savepoint
  before the next attempt is scheduled.\<close>

definition renew_one :: "env \<Rightarrow> string \<Rightarrow> cdb \<Rightarrow> commerce_error + (bool \<times> cdb)" where
  "renew_one v user db0 =
     (case ev_account v user of
        Some err \<Rightarrow> if err \<noteq> AccountDisabled then Inl err else
          (let db = snd (walletTx user db0) in
           bindE (row (db_autoRenew db) user) (\<lambda>a.
             if \<not> ar_Enabled a \<or> ar_NextAt a > milli (ev_now v) then Inr (False, db)
             else Inr (False, set_renewal user (ev_now v + minutes 60) ''account_disabled'' db)))
      | None \<Rightarrow>
          (let db = snd (walletTx user db0) in
           bindE (row (db_autoRenew db) user) (\<lambda>a.
             if \<not> ar_Enabled a \<or> ar_NextAt a > milli (ev_now v) then Inr (False, db)
             else case latest db user of
               None \<Rightarrow> Inr (False, set_renewal user (ev_now v + minutes 60) '''' db)
             | Some e \<Rightarrow>
                 if en_ExpiresAt e > ev_now v then Inr (False, set_renewal user (en_ExpiresAt e) '''' db)
                 else case purchaseTx v user (ar_Plan a) (''autorenew:'' @ en_ID e) (en_Version e) 0 db of
                     Inl err \<Rightarrow> Inr (True, set_renewal user (ev_now v + minutes 60)
                        (if err = Funds then ''insufficient_funds'' else ''renewal_failed'') db)
                   | Inr ((renewed, _), db1) \<Rightarrow> Inr (True, set_renewal user (en_ExpiresAt renewed) '''' db1))))"

fun renew_loop :: "env \<Rightarrow> string list \<Rightarrow> nat \<Rightarrow> cdb \<Rightarrow> commerce_error option \<times> nat \<times> cdb" where
  "renew_loop v [] n db = (None, n, db)"
| "renew_loop v (u # us) n db = (case renew_one v u db of
     Inl err \<Rightarrow> (Some err, n, db)
   | Inr (attempted, db1) \<Rightarrow> renew_loop v us (if attempted then Suc n else n) db1)"

definition RunAutoRenew :: "env \<Rightarrow> int \<Rightarrow> cdb \<Rightarrow> commerce_error option \<times> nat \<times> cdb" where
  "RunAutoRenew v limit0 db =
     (let limit = (if limit0 \<le> 0 \<or> limit0 > 100 then 20 else limit0);
          due = filter (\<lambda>(u, a). ar_Enabled a \<and> ar_NextAt a \<le> milli (ev_now v)) (db_autoRenew db)
      in renew_loop v (take (nat limit) (map fst (sort_key (\<lambda>(u, a). ar_NextAt a) (sort_key fst due)))) 0 db)"

definition CreateReferralCode :: "env \<Rightarrow> string \<Rightarrow> cdb \<Rightarrow> commerce_error + (string \<times> cdb)" where
  "CreateReferralCode v user db0 =
     (let (i, db) = draw v db0; plain = ''INV-'' @ ToUpper i in
      if list_ex (\<lambda>(_, owner). owner = user) (db_refCodes db) then Inl DbConstraint
      else bindE (insert_row (digestCode v plain) user (db_refCodes db)) (\<lambda>m. Inr (plain, db\<lparr>db_refCodes := m\<rparr>)))"

definition SetCommissionRate :: "int \<Rightarrow> cdb \<Rightarrow> commerce_error + cdb" where
  "SetCommissionRate bps db = (if bps < 0 \<or> bps > 10000 then Inl BadCommission else Inr (db\<lparr>db_rate := Some bps\<rparr>))"

text \<open>Walking up the chain of inviters: an error when it meets the user or is 1000 long.\<close>

function referral_walk :: "(string, string) gomap \<Rightarrow> string \<Rightarrow> string \<Rightarrow> nat \<Rightarrow> commerce_error option" where
  "referral_walk bindings user current depth =
     (if current = '''' then None
      else if current = user \<or> depth \<ge> 1000 then Some ReferralCycle
      else case map_of bindings current of None \<Rightarrow> None | Some parent \<Rightarrow> referral_walk bindings user parent (Suc depth))"
  by pat_completeness auto
termination
  by (relation "measure (\<lambda>(_, _, _, depth). 1000 - depth)") auto

declare referral_walk.simps [simp del]

definition BindReferral :: "env \<Rightarrow> string \<Rightarrow> string \<Rightarrow> cdb \<Rightarrow> commerce_error + cdb" where
  "BindReferral v user plain db0 =
     (let db1 = (case db_rate db0 of None \<Rightarrow> db0\<lparr>db_rate := Some 0\<rparr> | Some _ \<Rightarrow> db0) in
      bindE (row (db_refCodes db1) (digestCode v plain)) (\<lambda>inviter.
        case referral_walk (db_bindings db1) user inviter 0 of Some err \<Rightarrow> Inl err | None \<Rightarrow>
        let db = snd (walletTx user db1) in
        if list_ex (\<lambda>((u, _), _). u = user) (db_purchases db) then Inl ReferralTooLate
        else bindE (insert_row user inviter (db_bindings db)) (\<lambda>m. Inr (db\<lparr>db_bindings := m\<rparr>))))"

definition AdjustUserBalance :: "env \<Rightarrow> string \<Rightarrow> string \<Rightarrow> string \<Rightarrow> string \<Rightarrow> int \<Rightarrow> cdb \<Rightarrow> commerce_error + cdb" where
  "AdjustUserBalance v actor user key0 reason0 delta db0 =
     (let key = TrimSpace key0; reason = TrimSpace reason0 in
      if delta = 0 \<or> delta > 1000000000000 \<or> delta < - 1000000000000 \<or> length key = 0 \<or> length key > 128
         \<or> length reason = 0 \<or> length reason > 500
      then Inl BadAdjustment
      else if user \<notin> set (db_users db0) then Inl NoRows
      else let db = snd (walletTx user db0) in
        case find (\<lambda>a. aj_User a = user \<and> aj_Key a = key) (db_adjustments db) of
          Some a \<Rightarrow> if aj_Actor a = actor \<and> aj_Amount a = delta \<and> aj_Reason a = reason then Inr db else Inl Conflict
        | None \<Rightarrow> let (i, db1) = draw v db in
            bindE (post v user delta ''adjustment'' (''admin-adjustment:'' @ i) db1) (\<lambda>db2.
              if list_ex (\<lambda>a. aj_ID a = i) (db_adjustments db2) then Inl DbConstraint
              else Inr (db2\<lparr>db_adjustments := db_adjustments db2 @ [\<lparr>aj_ID = i, aj_User = user, aj_Actor = actor,
                     aj_Amount = delta, aj_Key = key, aj_Reason = reason\<rparr>]\<rparr>)))"

end
