(* ===== verification/Money.thy ===== *)
theory Money
  imports Go_Prelude Complex_Main
begin

text \<open>
  Amounts of money as text: \<open>internal/contract/money.go\<close>, which reads and prints the panel's own amounts,
  and what \<open>internal/payment/epay.go\<close> prints into an order and reads back from a callback. Amounts are
  integers in cents. The lemmas show that printing and reading are inverse within the documented
  range, that a text is read as exactly the decimal number it denotes, and where the two ranges differ.
\<close>

section \<open>Decimal text\<close>

definition is_digit :: "char \<Rightarrow> bool" where
  "is_digit c \<longleftrightarrow> 48 \<le> (of_char c :: nat) \<and> (of_char c :: nat) \<le> 57"

definition Cut :: "char \<Rightarrow> string \<Rightarrow> string \<times> string \<times> bool" where
  "Cut c s = (takeWhile (\<lambda>x. x \<noteq> c) s, drop 1 (dropWhile (\<lambda>x. x \<noteq> c) s), c \<in> set s)"

definition ParseInt :: "string \<Rightarrow> int option" where
  "ParseInt s = (if s = '''' \<or> \<not> list_all is_digit s \<or> max_int64 < int (digits_val 0 s) then None
     else Some (int (digits_val 0 s)))"

definition FormatInt :: "int \<Rightarrow> string" where
  "FormatInt n = (if n < 0 then CHR ''-'' # show_nat (nat (- n)) else show_nat (nat n))"

lemma is_digit_char_of: "(n::nat) < 10 \<Longrightarrow> is_digit (char_of (48 + n))"
  by (simp add: is_digit_def of_char_digit)

lemma show_nat_digits: "list_all is_digit (show_nat n)"
proof (induction n rule: show_nat.induct)
  case (1 n)
  then show ?case
    by (cases "n < 10") (simp_all add: show_nat.simps [of n] is_digit_char_of)
qed

lemma show_nat_Cons: "show_nat n \<noteq> []"
  by (subst show_nat.simps) simp

lemma show_nat_length: "n < 10 ^ Suc k \<Longrightarrow> length (show_nat n) \<le> Suc k"
proof (induction k arbitrary: n)
  case 0
  then show ?case by (simp add: show_nat.simps [of n])
next
  case (Suc k)
  show ?case
  proof (cases "n < 10")
    case False
    have "n div 10 < 10 ^ Suc k" using Suc.prems by (simp add: less_mult_imp_div_less mult.commute)
    with Suc.IH False show ?thesis by (simp add: show_nat.simps [of n])
  qed (simp add: show_nat.simps [of n])
qed

lemma show_nat_length_ge: "10 ^ k \<le> n \<Longrightarrow> Suc k \<le> length (show_nat n)"
proof (induction k arbitrary: n)
  case 0
  then show ?case using show_nat_Cons [of n] by (simp add: Suc_le_eq)
next
  case (Suc k)
  have "10 ^ k \<le> n div 10" using Suc.prems by (simp add: less_eq_div_iff_mult_less_eq mult.commute)
  moreover have "\<not> n < 10" using Suc.prems one_le_power [of "10::nat" k] unfolding power_Suc by linarith
  ultimately show ?case using Suc.IH [of "n div 10"] by (simp add: show_nat.simps [of n])
qed

text \<open>Two digits, as \<open>%02d\<close> prints them.\<close>

definition two_digits :: "nat \<Rightarrow> string" where
  "two_digits n = [char_of (48 + n div 10), char_of (48 + n mod 10)]"

lemma two_digits_val: "n < 100 \<Longrightarrow> digits_val 0 (two_digits n) = n"
  by (simp add: two_digits_def of_char_digit)

lemma two_digits_digits: "n < 100 \<Longrightarrow> list_all is_digit (two_digits n)"
  by (simp add: two_digits_def is_digit_char_of)

lemma show_nat_hundred: "n < 100 \<Longrightarrow> show_nat (n + 100) = CHR ''1'' # two_digits n"
proof -
  assume n: "n < 100"
  have one: "show_nat (Suc 0) = ''1''" by code_simp
  have "show_nat (n div 10 + 10) = ''1'' @ [char_of (48 + n div 10)]"
    using n by (subst show_nat.simps) (simp add: one)
  moreover have "(n + 100) div 10 = n div 10 + 10" "(n + 100) mod 10 = n mod 10" by presburger+
  ultimately show ?thesis by (subst show_nat.simps) (simp add: two_digits_def)
qed

lemma digits_no_dot: "list_all is_digit s \<Longrightarrow> CHR ''.'' \<notin> set s"
  by (induction s) (auto simp: is_digit_def)

lemma digits_no_space: "list_all is_digit s \<Longrightarrow> c \<in> set s \<Longrightarrow> \<not> is_space c"
  by (induction s) (auto simp: is_digit_def is_space_def)

lemma Cut_dot: "CHR ''.'' \<notin> set w \<Longrightarrow> Cut (CHR ''.'') (w @ CHR ''.'' # f) = (w, f, True)"
  by (induction w) (auto simp: Cut_def)

lemma TrimSpace_id: "(\<And>c. c \<in> set s \<Longrightarrow> \<not> is_space c) \<Longrightarrow> TrimSpace s = s"
proof -
  assume "\<And>c. c \<in> set s \<Longrightarrow> \<not> is_space c"
  then have "dropWhile is_space t = t" if "set t = set s" for t
    using that by (cases t) auto
  then show ?thesis by (simp add: TrimSpace_def)
qed

lemma digits_val_less: "list_all is_digit s \<Longrightarrow> digits_val a s < (a + 1) * 10 ^ length s"
proof (induction s arbitrary: a)
  case (Cons c s)
  have c: "of_char c - 48 \<le> (9::nat)" "list_all is_digit s" using Cons.prems by (auto simp: is_digit_def [of c])
  have "digits_val (a * 10 + (of_char c - 48)) s < (a * 10 + (of_char c - 48) + 1) * 10 ^ length s"
    by (rule Cons.IH) (rule c(2))
  also have "\<dots> \<le> ((a + 1) * 10) * 10 ^ length s" using c by (intro mult_right_mono) auto
  finally show ?case by (simp add: algebra_simps)
qed simp

section \<open>Panel amounts\<close>

definition MaxAmountCents :: int where "MaxAmountCents = 1000000000000"

definition maxAmountDigits :: nat where "maxAmountDigits = 13"

definition ParseAmount :: "string \<Rightarrow> int option" where
  "ParseAmount v =
     (let s = TrimSpace v; (whole, fp, hasFrac) = Cut (CHR ''.'') s in
      if s = '''' then None
      else if hasFrac \<and> length fp > 2 then None
      else if whole = '''' \<or> length whole > maxAmountDigits then None
      else if \<not> list_all is_digit whole \<or> \<not> list_all is_digit fp then None
      else let fp' = fp @ replicate (2 - length fp) (CHR ''0'') in
        case ParseInt whole of None \<Rightarrow> None | Some units \<Rightarrow>
        case ParseInt fp' of None \<Rightarrow> None | Some cents \<Rightarrow>
        if units > MaxAmountCents div 100 then None
        else let n = units * 100 + cents in if n > MaxAmountCents then None else Some n)"

definition FormatAmount :: "int \<Rightarrow> string" where
  "FormatAmount cents0 =
     (let neg = cents0 < 0; cents = (if neg then i64 (- cents0) else cents0);
          s = FormatInt (quo cents 100) @ ''.'' @ drop 1 (FormatInt (rem cents 100 + 100))
      in if neg then CHR ''-'' # s else s)"

lemma FormatAmount_nonneg:
  assumes "0 \<le> n" shows "FormatAmount n = show_nat (nat n div 100) @ CHR ''.'' # two_digits (nat n mod 100)"
proof -
  have "nat (n mod 100 + 100) = nat n mod 100 + 100" "nat (n div 100) = nat n div 100" "\<not> n mod 100 + 100 < 0"
    using assms pos_mod_sign [of 100 n] by (simp_all add: nat_add_distrib nat_mod_distrib nat_div_distrib)
  then show ?thesis using assms
    by (simp add: FormatAmount_def FormatInt_def show_nat_hundred pos_imp_zdiv_neg_iff)
qed


text \<open>The number of cents that a decimal text denotes, as a rational number: the reference for \<open>ParseAmount\<close>.\<close>

definition decimal_cents :: "string \<Rightarrow> string \<Rightarrow> rat" where
  "decimal_cents whole fp = 100 * (of_nat (digits_val 0 whole) + of_nat (digits_val 0 fp) / 10 ^ length fp)"

lemma digits_val_zeros: "digits_val a (replicate k (CHR ''0'')) = a * 10 ^ k"
  by (induction k arbitrary: a) auto

lemma ParseInt_digits:
  assumes "s \<noteq> ''''" "list_all is_digit s" "length s \<le> 18"
  shows "ParseInt s = Some (int (digits_val 0 s))"
proof -
  have "digits_val 0 s < 10 ^ length s" using digits_val_less [of s 0] assms by simp
  also have "\<dots> \<le> 10 ^ 18" using assms by (intro power_increasing) auto
  finally show ?thesis using assms by (simp add: ParseInt_def max_int64_def)
qed

lemma padded_cents:
  assumes "list_all is_digit fp" "length fp \<le> 2"
  shows "ParseInt (fp @ replicate (2 - length fp) (CHR ''0'')) = Some (int (digits_val 0 fp * 10 ^ (2 - length fp)))"
    and "of_nat (digits_val 0 fp * 10 ^ (2 - length fp)) = (100 :: rat) * (of_nat (digits_val 0 fp) / 10 ^ length fp)"
proof -
  have "list_all is_digit (replicate k (CHR ''0''))" for k by (induction k) (auto simp: is_digit_def)
  then show "ParseInt (fp @ replicate (2 - length fp) (CHR ''0''))
      = Some (int (digits_val 0 fp * 10 ^ (2 - length fp)))"
    using assms by (subst ParseInt_digits) (auto simp: digits_val_append digits_val_zeros)
  show "of_nat (digits_val 0 fp * 10 ^ (2 - length fp)) = (100 :: rat) * (of_nat (digits_val 0 fp) / 10 ^ length fp)"
  proof -
    consider "length fp = 0" | "length fp = 1" | "length fp = 2" using assms(2) by linarith
    then show ?thesis by cases simp_all
  qed
qed

lemma ParseAmount_eq:
  "ParseAmount v = Some n \<longleftrightarrow>
     (case Cut (CHR ''.'') (TrimSpace v) of (whole, fp, _) \<Rightarrow>
        whole \<noteq> '''' \<and> list_all is_digit whole \<and> list_all is_digit fp \<and> length whole \<le> 13 \<and> length fp \<le> 2
        \<and> n \<le> MaxAmountCents \<and> of_int n = decimal_cents whole fp)"
proof -
  obtain whole fp hasFrac where cut: "Cut (CHR ''.'') (TrimSpace v) = (whole, fp, hasFrac)" by (cases "Cut (CHR ''.'') (TrimSpace v)") auto
  have fp: "hasFrac \<or> fp = ''''"
  proof (cases "CHR ''.'' \<in> set (TrimSpace v)")
    case False
    then have "dropWhile (\<lambda>x. x \<noteq> CHR ''.'') (TrimSpace v) = []" by (simp add: dropWhile_eq_Nil_conv) blast
    with cut show ?thesis by (auto simp: Cut_def)
  qed (use cut in \<open>auto simp: Cut_def\<close>)
  have empty: "TrimSpace v = '''' \<Longrightarrow> whole = ''''" using cut by (auto simp: Cut_def)
  show ?thesis
  proof (cases "whole \<noteq> '''' \<and> list_all is_digit whole \<and> list_all is_digit fp \<and> length whole \<le> 13 \<and> length fp \<le> 2")
    case True
    let ?c = "digits_val 0 fp * 10 ^ (2 - length fp)" and ?u = "digits_val 0 whole"
    have "(of_int n :: rat) = decimal_cents whole fp \<longleftrightarrow> n = int ?u * 100 + int ?c"
    proof -
      have "decimal_cents whole fp = of_int (int ?u * 100 + int ?c)"
        using padded_cents(2) True by (simp add: decimal_cents_def algebra_simps)
      then show ?thesis by (simp only: of_int_eq_iff)
    qed
    moreover have cents: "0 \<le> int (digits_val 0 fp) * 10 ^ (2 - length fp)" by simp
    moreover have "ParseInt whole = Some (int ?u)" using True by (intro ParseInt_digits) auto
    ultimately show ?thesis using True cut empty padded_cents(1) [of fp]
      by (auto simp: ParseAmount_def maxAmountDigits_def MaxAmountCents_def Let_def) (use cents in linarith)
  next
    case False
    then have "ParseAmount v = None"
      using cut fp by (auto simp: ParseAmount_def maxAmountDigits_def Let_def)
    with False cut show ?thesis by auto
  qed
qed

lemma Parse_amount_text:
  assumes "u < 10 ^ 13" "c < 100" "int u * 100 + int c \<le> MaxAmountCents"
  shows "ParseAmount (show_nat u @ CHR ''.'' # two_digits c) = Some (int u * 100 + int c)"
proof -
  let ?s = "show_nat u @ CHR ''.'' # two_digits c"
  have digits: "list_all is_digit (show_nat u)" "list_all is_digit (two_digits c)"
    using assms by (auto intro: show_nat_digits two_digits_digits)
  have "TrimSpace ?s = ?s"
    using digits by (intro TrimSpace_id) (auto dest: digits_no_space simp: is_space_def)
  moreover have "Cut (CHR ''.'') ?s = (show_nat u, two_digits c, True)"
    using digits by (intro Cut_dot digits_no_dot)
  moreover have "length (show_nat u) \<le> 13" using show_nat_length [of u 12] assms by simp
  moreover have "length (two_digits c) = 2" by (simp add: two_digits_def)
  ultimately show ?thesis using digits assms
    by (simp add: ParseAmount_eq show_nat_Cons decimal_cents_def digits_val_show_nat two_digits_val)
qed

section \<open>Amounts in an EPay order and callback\<close>

definition epay_amount :: "int \<Rightarrow> string" where
  "epay_amount cents = FormatInt (quo cents 100) @ ''.''
     @ (let c = FormatInt (rem cents 100) in if length c < 2 then CHR ''0'' # c else c)"

definition verify_amount :: "string \<Rightarrow> int option" where
  "verify_amount amount = (case split_on (CHR ''.'') [] amount of
     [whole, fp] \<Rightarrow>
       if length fp \<noteq> 2 then None
       else if \<not> list_all is_digit (whole @ fp) then None
       else if length whole > 10 then None
       else if whole = '''' then None
       else let cents = int (digits_val 0 whole) * 100 + int (digits_val 0 fp) in
         if cents \<le> 0 then None else Some cents
   | _ \<Rightarrow> None)"

lemma split_on_none: "c \<notin> set s \<Longrightarrow> split_on c acc s = [rev acc @ s]"
  by (induction s arbitrary: acc) auto

lemma split_on_one: "c \<notin> set a \<Longrightarrow> split_on c acc (a @ c # b) = (rev acc @ a) # split_on c [] b"
  by (induction a arbitrary: acc) auto

lemma epay_amount_format:
  assumes "0 \<le> n" shows "epay_amount n = FormatAmount n"
proof -
  have c: "nat n mod 100 < 100" by simp
  have "(let c = show_nat k in if length c < 2 then CHR ''0'' # c else c) = two_digits k" if "k < 100" for k :: nat
  proof (cases "k < 10")
    case True
    have "char_of (48 :: nat) = CHR ''0''" by code_simp
    with True show ?thesis by (simp add: show_nat.simps [of k] two_digits_def)
  next
    case False
    moreover have "k div 10 < 10" using that by presburger
    ultimately show ?thesis by (simp add: show_nat.simps [of k] show_nat.simps [of "k div 10"] two_digits_def)
  qed
  from this [OF c] show ?thesis
    using assms pos_mod_sign [of 100 n]
    by (simp add: FormatAmount_nonneg epay_amount_def FormatInt_def pos_imp_zdiv_neg_iff not_less
        nat_mod_distrib nat_div_distrib leD)
qed

lemma verify_amount_text:
  assumes "c < 100"
  shows "verify_amount (show_nat u @ CHR ''.'' # two_digits c)
    = (if length (show_nat u) > 10 \<or> u * 100 + c = 0 then None else Some (int u * 100 + int c))"
proof -
  have digits: "list_all is_digit (show_nat u)" "list_all is_digit (two_digits c)"
    using assms by (auto intro: show_nat_digits two_digits_digits)
  then have "split_on (CHR ''.'') [] (show_nat u @ CHR ''.'' # two_digits c) = [show_nat u, two_digits c]"
    by (simp add: split_on_one split_on_none digits_no_dot)
  then show ?thesis using digits assms
    by (auto simp: verify_amount_def show_nat_Cons digits_val_show_nat two_digits_val Let_def two_digits_def)
qed


section \<open>Properties\<close>

text \<open>Reading and printing an amount are inverse: every amount from zero to the documented maximum is
  printed as a text that is read back as the same number of cents.\<close>

theorem amount_roundtrip:
  assumes "0 \<le> n" "n \<le> MaxAmountCents"
  shows "ParseAmount (FormatAmount n) = Some n"
proof -
  have "nat n div 100 < 10 ^ 13" using assms by (simp add: MaxAmountCents_def)
  moreover have "int (nat n div 100) * 100 + int (nat n mod 100) = n" using assms by (simp add: zdiv_int zmod_int)
  ultimately show ?thesis
    using Parse_amount_text [of "nat n div 100" "nat n mod 100"] assms by (simp add: FormatAmount_nonneg)
qed

theorem amount_roundtrip_witness: "ParseAmount (FormatAmount 1234) = Some 1234"
  using amount_roundtrip [of 1234] by (simp add: MaxAmountCents_def)

text \<open>\<open>ParseAmount\<close> reads exactly the decimal numbers with up to thirteen digits, at most two decimals and no
  sign or exponent, surrounded by white space, that are not above the maximum; the result is the exact number of
  cents such a text denotes, never a rounded or a negative one.\<close>

theorem ParseAmount_exact:
  "ParseAmount v = Some n \<longleftrightarrow>
     (case Cut (CHR ''.'') (TrimSpace v) of (whole, fp, _) \<Rightarrow>
        whole \<noteq> '''' \<and> list_all is_digit whole \<and> list_all is_digit fp \<and> length whole \<le> maxAmountDigits \<and> length fp \<le> 2
        \<and> 0 \<le> n \<and> n \<le> MaxAmountCents
        \<and> of_int n = 100 * (of_nat (digits_val 0 whole) + of_nat (digits_val 0 fp) / (10 :: rat) ^ length fp))"
proof -
  have "0 \<le> n" if "(of_int n :: rat) = decimal_cents w f" for w f
  proof -
    have "0 \<le> decimal_cents w f" by (simp add: decimal_cents_def)
    with that show ?thesis by (metis of_int_0_le_iff)
  qed
  then show ?thesis
    unfolding ParseAmount_eq by (auto simp: maxAmountDigits_def decimal_cents_def split: prod.splits)
qed

text \<open>C20: The amount a callback of the EPay gateway quotes is read back as the amount of the order, for every order
  below the maximum. An order of exactly the maximum, which \<open>CreateOrder\<close> still accepts, is printed
  with eleven digits before the point, and its callback is refused.\<close>

theorem epay_callback_amount:
  assumes "0 < n"
  shows "verify_amount (epay_amount n) = (if n < MaxAmountCents then Some n else None)"
proof -
  let ?u = "nat n div 100" and ?c = "nat n mod 100"
  have n: "int ?u * 100 + int ?c = n" "?u * 100 + ?c \<noteq> 0" using assms by (simp_all add: zdiv_int zmod_int)
  have "length (show_nat ?u) > 10 \<longleftrightarrow> \<not> ?u < 10 ^ 10"
    using show_nat_length [of ?u 9] show_nat_length_ge [of 10 ?u] by (cases "?u < 10 ^ 10") auto
  also have "\<dots> \<longleftrightarrow> \<not> n < MaxAmountCents" using assms by (simp add: MaxAmountCents_def) linarith
  finally show ?thesis
    using n verify_amount_text [of ?c ?u] assms by (simp add: epay_amount_format FormatAmount_nonneg)
qed

theorem epay_callback_amount_witness:
  "verify_amount (epay_amount 1234) = Some 1234 \<and> verify_amount (epay_amount MaxAmountCents) = None"
  using epay_callback_amount [of 1234] epay_callback_amount [of MaxAmountCents] by (simp add: MaxAmountCents_def)

end
