(* ===== verification/Orders.thy ===== *)
theory Orders
  imports Commerce Money
begin

text \<open>
  Payment orders (\<open>internal/commerce/orders.go\<close>, \<open>channels.go\<close>, \<open>manual.go\<close>, \<open>reconciliation.go\<close>), refunds of
  payments (\<open>refunds.go\<close>) and \<open>CloseOrder\<close> (\<open>lifecycle.go\<close>).

  A payment gateway is a value of the interface \<open>payment.Adapter\<close>: the record \<open>adapter\<close> holds its answers, any
  functions of the request. The two transactions of \<open>CreateAdapterOrder\<close>, with the gateway called in between,
  are the definitions \<open>begin_order\<close> and \<open>finish_order\<close>, so that other operations may run between them. The
  hook \<open>PaymentAllowed\<close> is an argument, \<open>PaymentReceived\<close> is \<open>ev_received\<close>. Requests are never cancelled.
\<close>

section \<open>Channels and quotes\<close>

record status =
  st_Order :: string
  st_Tx :: string
  st_Currency :: string
  st_Amount :: int
  st_State :: string

record created =
  cd_Order :: string
  cd_Tx :: string
  cd_URL :: string
  cd_Currency :: string
  cd_Amount :: int

record create_request =
  cr_Order :: string
  cr_UserKey :: string
  cr_Currency :: string
  cr_NotifyURL :: string
  cr_ReturnURL :: string
  cr_ClientIP :: string
  cr_Method :: string
  cr_Amount :: int

record adapter =
  ad_CanQuery :: bool
  ad_Create :: "create_request \<Rightarrow> created option"
  ad_Query :: "string \<Rightarrow> string \<Rightarrow> status option"

text \<open>\<open>ch_RateValue\<close> is the number that \<open>big.Rat.SetString\<close> reads in \<open>ch_Rate\<close>, if it reads one.\<close>

record channel =
  ch_Adapter :: "adapter option"
  ch_NotifyURL :: string
  ch_ReturnURL :: string
  ch_Method :: string
  ch_FeeBPS :: int
  ch_FeeFixed :: int
  ch_Rate :: string
  ch_RateValue :: "rat option"
  ch_Crypto :: string

definition no_channel :: channel where
  "no_channel = \<lparr>ch_Adapter = None, ch_NotifyURL = '''', ch_ReturnURL = '''', ch_Method = '''', ch_FeeBPS = 0, ch_FeeFixed = 0,
     ch_Rate = '''', ch_RateValue = None, ch_Crypto = ''''\<rparr>"

definition SettlementCurrency :: string where "SettlementCurrency = ''CNY''"

definition Quote :: "channel \<Rightarrow> int \<Rightarrow> int \<times> int" where
  "Quote c amount =
     (let fee0 = i64 (quo (i64 (amount * ch_FeeBPS c)) 10000 + ch_FeeFixed c); fee = (if fee0 < 0 then 0 else fee0)
      in (i64 (amount + fee), fee))"

definition CryptoQuote :: "channel \<Rightarrow> int \<Rightarrow> string" where
  "CryptoQuote c payable =
     (if ch_Crypto c = '''' \<or> payable \<le> 0 then ''''
      else case ch_RateValue c of None \<Rightarrow> '''' | Some rate \<Rightarrow>
        if rate \<le> 0 then ''''
        else let (num, den) = quotient_of ((of_int payable / 100) / rate * 100);
                 units = quo num den + (if rem num den > 0 then 1 else 0)
          in if \<not> fits64 units then '''' else FormatAmount units)"

record order_view =
  ov_ID :: string
  ov_Channel :: string
  ov_Amount :: int
  ov_Payable :: int
  ov_Fee :: int
  ov_Currency :: string
  ov_PayableCrypto :: string
  ov_CryptoCurrency :: string
  ov_Rate :: string
  ov_Status :: string
  ov_URL :: string
  ov_Created :: string

definition stored_view :: "string \<Rightarrow> order_row \<Rightarrow> order_view" where
  "stored_view i o0 = \<lparr>ov_ID = i, ov_Channel = or_Channel o0, ov_Amount = or_Amount o0, ov_Payable = or_Payable o0, ov_Fee = 0,
     ov_Currency = SettlementCurrency, ov_PayableCrypto = '''', ov_CryptoCurrency = '''', ov_Rate = '''',
     ov_Status = or_Status o0, ov_URL = or_URL o0, ov_Created = or_Created o0\<rparr>"

definition resolvePayable :: "channel \<Rightarrow> order_view \<Rightarrow> order_view" where
  "resolvePayable c o0 =
     (let payable = (if ov_Payable o0 \<le> 0 then ov_Amount o0 else ov_Payable o0)
      in o0\<lparr>ov_Payable := payable, ov_Fee := payable - ov_Amount o0, ov_CryptoCurrency := ch_Crypto c, ov_Rate := ch_Rate c,
            ov_PayableCrypto := CryptoQuote c payable\<rparr>)"

definition is_settled :: "string \<Rightarrow> bool" where
  "is_settled s \<longleftrightarrow> s = ''paid'' \<or> s = ''paid_late'' \<or> s = ''refunded'' \<or> s = ''partially_refunded''"

definition is_payable :: "string \<Rightarrow> bool" where
  "is_payable s \<longleftrightarrow> s = ''pending'' \<or> s = ''closed'' \<or> s = ''expired''"

definition HasActivePaymentOrders :: "string \<Rightarrow> cdb \<Rightarrow> commerce_error + bool" where
  "HasActivePaymentOrders ch db =
     (if ch = '''' then Inl BadOrder
      else Inr (list_ex (\<lambda>(i, o0). or_Channel o0 = ch \<and>
         (is_payable (or_Status o0) \<or>
          (case map_of (db_attempts db) i of None \<Rightarrow> False
             | Some a \<Rightarrow> (at_State a = ''creating'' \<or> at_State a = ''uncertain'') \<and> \<not> is_settled (or_Status o0)))) (db_orders db)))"

section \<open>Creating orders\<close>

definition reconciliationDelay :: int where "reconciliationDelay = 30 * 1000000000"

definition reconciliationMaxDelay :: int where "reconciliationMaxDelay = 3600 * 1000000000"

definition scheduleReconciliation :: "env \<Rightarrow> string \<Rightarrow> cdb \<Rightarrow> commerce_error + cdb" where
  "scheduleReconciliation v order db =
     bindE (insert_row order \<lparr>sc_Attempts = 0, sc_NextAt = milli (ev_now v + reconciliationDelay)\<rparr> (db_schedules db))
       (\<lambda>m. Inr (db\<lparr>db_schedules := m\<rparr>))"

definition order_of_key :: "cdb \<Rightarrow> string \<Rightarrow> string \<Rightarrow> (string \<times> order_row) option" where
  "order_of_key db user key = find (\<lambda>(_, o0). or_User o0 = user \<and> or_Key o0 = key) (db_orders db)"

definition new_order :: "env \<Rightarrow> string \<Rightarrow> string \<Rightarrow> string \<Rightarrow> int \<Rightarrow> int \<Rightarrow> string \<Rightarrow> order_row" where
  "new_order v user ch key amount payable url =
     \<lparr>or_User = user, or_Channel = ch, or_Amount = amount, or_Payable = payable, or_Status = ''pending'', or_URL = url,
      or_Key = key, or_Tx = None, or_Created = ev_stamp v\<rparr>"

definition insert_order :: "string \<Rightarrow> order_row \<Rightarrow> cdb \<Rightarrow> commerce_error + cdb" where
  "insert_order i o0 db = bindE (insert_row i o0 (db_orders db)) (\<lambda>m. Inr (db\<lparr>db_orders := m\<rparr>))"

definition insert_attempt :: "string \<Rightarrow> string \<Rightarrow> cdb \<Rightarrow> commerce_error + cdb" where
  "insert_attempt i state db =
     bindE (insert_row i \<lparr>at_State = state, at_Provider = ''''\<rparr> (db_attempts db)) (\<lambda>m. Inr (db\<lparr>db_attempts := m\<rparr>))"

definition CreateOrder :: "env \<Rightarrow> (int \<Rightarrow> commerce_error option) \<Rightarrow> (string \<Rightarrow> int \<Rightarrow> commerce_error + string)
    \<Rightarrow> string \<Rightarrow> string \<Rightarrow> string \<Rightarrow> int \<Rightarrow> cdb \<Rightarrow> commerce_error + (order_view \<times> cdb)" where
  "CreateOrder v allowed gateway user ch key amount db0 = (case allowed amount of Some err \<Rightarrow> Inl err | None \<Rightarrow>
     if ch \<noteq> ''epay'' \<or> amount \<le> 0 \<or> amount > MaxAmountCents \<or> length key = 0 \<or> length key > 128 then Inl BadOrder
     else let db = snd (walletTx user db0) in
       case order_of_key db user key of
         Some (i, o0) \<Rightarrow> if or_Channel o0 \<noteq> ch \<or> or_Amount o0 \<noteq> amount then Inl Conflict
           else Inr (resolvePayable no_channel (stored_view i o0), db)
       | None \<Rightarrow> let (i, db1) = draw v db in
           bindE (gateway i amount) (\<lambda>url.
           let o0 = new_order v user ch key amount amount url in
           bindE (insert_order i o0 db1) (\<lambda>db2.
           bindE (scheduleReconciliation v i db2) (\<lambda>db3. Inr (stored_view i o0, db3)))))"

text \<open>The first transaction of \<open>CreateAdapterOrder\<close>: it allocates the order before the gateway is called. The
  second value says that the order is new.\<close>

definition begin_order :: "env \<Rightarrow> (int \<Rightarrow> commerce_error option) \<Rightarrow> channel \<Rightarrow> string \<Rightarrow> string \<Rightarrow> string \<Rightarrow> int \<Rightarrow> cdb
    \<Rightarrow> commerce_error + ((order_view \<times> bool) \<times> cdb)" where
  "begin_order v allowed c user ch key amount db0 = (case allowed amount of Some err \<Rightarrow> Inl err | None \<Rightarrow>
     if ch_Adapter c = None \<or> amount \<le> 0 \<or> amount > MaxAmountCents \<or> key = '''' \<or> length key > 128 then Inl BadOrder
     else let (payable, fee) = Quote c amount; db = snd (walletTx user db0) in
       case order_of_key db user key of
         Some (i, o0) \<Rightarrow> if or_Channel o0 \<noteq> ch \<or> or_Amount o0 \<noteq> amount then Inl Conflict
           else Inr ((resolvePayable c (stored_view i o0), False), db)
       | None \<Rightarrow> let (i, db1) = draw v db; o0 = new_order v user ch key amount payable '''' in
           bindE (insert_order i o0 db1) (\<lambda>db2.
           bindE (insert_attempt i ''creating'' db2) (\<lambda>db3.
           bindE (scheduleReconciliation v i db3) (\<lambda>db4.
             Inr ((resolvePayable c ((stored_view i o0)\<lparr>ov_Fee := fee\<rparr>), True), db4)))))"

definition gateway_create :: "channel \<Rightarrow> string \<Rightarrow> string \<Rightarrow> string \<Rightarrow> int \<Rightarrow> created option" where
  "gateway_create c i user ip payable = (case ch_Adapter c of None \<Rightarrow> None | Some a \<Rightarrow>
     case ad_Create a \<lparr>cr_Order = i, cr_UserKey = user, cr_Currency = SettlementCurrency, cr_NotifyURL = ch_NotifyURL c,
            cr_ReturnURL = ch_ReturnURL c, cr_ClientIP = ip, cr_Method = ch_Method c, cr_Amount = payable\<rparr> of
       None \<Rightarrow> None
     | Some r \<Rightarrow> if cd_Order r \<noteq> i \<or> cd_Currency r \<noteq> SettlementCurrency \<or> cd_Amount r \<noteq> payable \<or> cd_URL r = '''' then None
         else Some r)"

definition finish_order :: "string \<Rightarrow> created option \<Rightarrow> cdb \<Rightarrow> cdb" where
  "finish_order i res db =
     (let state = (case res of None \<Rightarrow> ''uncertain'' | Some _ \<Rightarrow> ''ready'');
          provider = (case res of None \<Rightarrow> '''' | Some r \<Rightarrow> cd_Tx r);
          db1 = (case map_of (db_attempts db) i of None \<Rightarrow> db
             | Some _ \<Rightarrow> db\<lparr>db_attempts := put i \<lparr>at_State = state, at_Provider = provider\<rparr> (db_attempts db)\<rparr>)
      in case res of None \<Rightarrow> db1
         | Some r \<Rightarrow> (case map_of (db_orders db1) i of None \<Rightarrow> db1
             | Some o0 \<Rightarrow> db1\<lparr>db_orders := put i (o0\<lparr>or_URL := cd_URL r\<rparr>) (db_orders db1)\<rparr>))"

definition CreateAdapterOrder :: "env \<Rightarrow> (int \<Rightarrow> commerce_error option) \<Rightarrow> channel \<Rightarrow> string \<Rightarrow> string \<Rightarrow> string \<Rightarrow> string \<Rightarrow> int
    \<Rightarrow> cdb \<Rightarrow> (commerce_error + order_view) \<times> cdb" where
  "CreateAdapterOrder v allowed c ip user ch key amount db0 =
     (case begin_order v allowed c user ch key amount db0 of
        Inl err \<Rightarrow> (Inl err, db0)
      | Inr ((o0, fresh), db) \<Rightarrow>
          if \<not> fresh then (Inr o0, db)
          else let res = gateway_create c (ov_ID o0) user ip (fst (Quote c amount)); db1 = finish_order (ov_ID o0) res db
            in case res of None \<Rightarrow> (Inl Uncertain, db1) | Some r \<Rightarrow> (Inr (o0\<lparr>ov_URL := cd_URL r\<rparr>), db1))"

definition CreateManualOrderAtomic :: "env \<Rightarrow> (int \<Rightarrow> commerce_error option) \<Rightarrow> (order_view \<Rightarrow> cdb \<Rightarrow> commerce_error + cdb)
    \<Rightarrow> string \<Rightarrow> string \<Rightarrow> string \<Rightarrow> int \<Rightarrow> string \<Rightarrow> cdb \<Rightarrow> commerce_error + (order_view \<times> cdb)" where
  "CreateManualOrderAtomic v allowed after user ch key amount address db0 =
     (if user = '''' \<or> ch = '''' \<or> length ch > 32 \<or> key = '''' \<or> length key > 128 \<or> amount \<le> 0 \<or> amount > MaxAmountCents
         \<or> TrimSpace address = '''' then Inl BadOrder
      else case allowed amount of Some err \<Rightarrow> Inl err | None \<Rightarrow>
      case ev_account v user of Some err \<Rightarrow> Inl err | None \<Rightarrow>
      let db = snd (walletTx user db0) in
      case order_of_key db user key of
        Some (i, o0) \<Rightarrow> if or_Channel o0 \<noteq> ch \<or> or_Amount o0 \<noteq> amount \<or> or_URL o0 \<noteq> address then Inl Conflict
          else Inr (stored_view i o0, db)
      | None \<Rightarrow> let (i, db1) = draw v db; o0 = new_order v user ch key amount amount address in
          bindE (insert_order i o0 db1) (\<lambda>db2.
          bindE (insert_attempt i ''manual'' db2) (\<lambda>db3.
          bindE (after (stored_view i o0) db3) (\<lambda>db4. Inr (stored_view i o0, db4)))))"

definition CreateManualOrder :: "env \<Rightarrow> (int \<Rightarrow> commerce_error option) \<Rightarrow> string \<Rightarrow> string \<Rightarrow> string \<Rightarrow> int \<Rightarrow> string \<Rightarrow> cdb
    \<Rightarrow> commerce_error + (order_view \<times> cdb)" where
  "CreateManualOrder v allowed = CreateManualOrderAtomic v allowed (\<lambda>_. Inr)"


section \<open>Confirming and closing\<close>

definition set_order :: "string \<Rightarrow> (order_row \<Rightarrow> order_row) \<Rightarrow> cdb \<Rightarrow> cdb" where
  "set_order i f db = (case map_of (db_orders db) i of None \<Rightarrow> db
     | Some o0 \<Rightarrow> db\<lparr>db_orders := put i (f o0) (db_orders db)\<rparr>)"

definition ConfirmPaymentTx :: "env \<Rightarrow> string \<Rightarrow> string \<Rightarrow> string \<Rightarrow> int \<Rightarrow> cdb \<Rightarrow> commerce_error + cdb" where
  "ConfirmPaymentTx v ch order tx amount db =
     (if tx = '''' \<or> length tx > 128 then Inl BadTransaction
      else bindE (row (db_orders db) order) (\<lambda>o0.
        let payable = (if or_Payable o0 \<le> 0 then or_Amount o0 else or_Payable o0) in
        if or_Channel o0 \<noteq> ch \<or> payable \<noteq> amount then Inl PaymentMismatch
        else if is_settled (or_Status o0) then
          (if (case or_Tx o0 of None \<Rightarrow> '''' | Some t \<Rightarrow> t) \<noteq> tx then Inl Conflict else Inr db)
        else if \<not> is_payable (or_Status o0) then Inl NotPayable
        else if list_ex (\<lambda>(_, p). or_Channel p = ch \<and> or_Tx p = Some tx) (db_orders db) then Inl Conflict
        else bindE (post v (or_User o0) (or_Amount o0) ''recharge'' (''payment:'' @ order) db) (\<lambda>db1.
          let db2 = set_order order (\<lambda>r. r\<lparr>or_Status := (if or_Status o0 = ''pending'' then ''paid'' else ''paid_late''),
                      or_Tx := Some tx\<rparr>) db1;
              db3 = db2\<lparr>db_schedules := del order (db_schedules db2)\<rparr>
          in case ev_received v (or_User o0) order (or_Amount o0) of Some err \<Rightarrow> Inl err | None \<Rightarrow> Inr db3)))"

definition ConfirmPayment :: "env \<Rightarrow> string \<Rightarrow> string \<Rightarrow> string \<Rightarrow> int \<Rightarrow> cdb \<Rightarrow> commerce_error + cdb" where
  "ConfirmPayment = ConfirmPaymentTx"

definition ValidateExpected :: "status \<Rightarrow> string \<Rightarrow> int \<Rightarrow> string \<Rightarrow> bool" where
  "ValidateExpected s order cents currency \<longleftrightarrow>
     st_Order s = order \<and> st_Amount s = cents \<and> st_Currency s = currency \<and> st_Tx s \<noteq> ''''"

definition ConfirmStatus :: "env \<Rightarrow> string \<Rightarrow> status \<Rightarrow> cdb \<Rightarrow> commerce_error + cdb" where
  "ConfirmStatus v ch s db =
     (if st_State s \<noteq> ''paid'' then Inl GatewayFailed
      else bindE (row (db_orders db) (st_Order s)) (\<lambda>o0.
        if or_Channel o0 \<noteq> ch then Inl NoRows
        else let expected = (if or_Payable o0 > 0 then or_Payable o0 else or_Amount o0) in
          if \<not> ValidateExpected s (st_Order s) expected SettlementCurrency then Inl PaymentMismatch
          else ConfirmPayment v ch (st_Order s) (st_Tx s) (st_Amount s) db))"

definition CloseOrder :: "string \<Rightarrow> string \<Rightarrow> cdb \<Rightarrow> commerce_error + (order_view \<times> cdb)" where
  "CloseOrder user i db = bindE (row (db_orders db) i) (\<lambda>o0.
     if user \<noteq> '''' \<and> or_User o0 \<noteq> user then Inl NoRows
     else let w = (stored_view i o0)\<lparr>ov_Payable := 0\<rparr> in
       if or_Status o0 = ''pending''
       then Inr (w\<lparr>ov_Status := ''closed''\<rparr>, set_order i (\<lambda>r. r\<lparr>or_Status := ''closed''\<rparr>) db)
       else Inr (w, db))"

section \<open>Reconciliation\<close>

function backoff_loop :: "int \<Rightarrow> int \<Rightarrow> int" where
  "backoff_loop attempts delay =
     (if attempts > 1 \<and> delay < reconciliationMaxDelay then backoff_loop (attempts - 1) (delay * 2) else delay)"
  by pat_completeness auto
termination
  by (relation "measure (\<lambda>(attempts, _). nat attempts)") auto

declare backoff_loop.simps [simp del]

definition reconciliationBackoff :: "int \<Rightarrow> int" where
  "reconciliationBackoff attempts =
     (let delay = backoff_loop attempts reconciliationDelay in
      if delay > reconciliationMaxDelay then reconciliationMaxDelay else delay)"

definition ReconcileOrder :: "env \<Rightarrow> (string, channel) gomap \<Rightarrow> string \<Rightarrow> string \<Rightarrow> cdb \<Rightarrow> (commerce_error + order_view) \<times> cdb" where
  "ReconcileOrder v channels user i db = (case map_of (db_orders db) i of
     None \<Rightarrow> (Inl NoRows, db)
   | Some o0 \<Rightarrow>
      if or_User o0 \<noteq> user then (Inl NoRows, db)
      else let provider = (case map_of (db_attempts db) i of None \<Rightarrow> '''' | Some a \<Rightarrow> at_Provider a);
               c = (case map_of channels (or_Channel o0) of None \<Rightarrow> no_channel | Some c \<Rightarrow> c);
               w = resolvePayable c (stored_view i o0)
        in if is_settled (or_Status o0) then (Inr w, db)
        else case ch_Adapter c of None \<Rightarrow> (Inl Unsupported, db) | Some a \<Rightarrow>
        if \<not> ad_CanQuery a then (Inl Unsupported, db)
        else case ad_Query a i provider of None \<Rightarrow> (Inl GatewayFailed, db) | Some s \<Rightarrow>
        if \<not> ValidateExpected s i (ov_Payable w) SettlementCurrency then (Inl PaymentMismatch, db)
        else if st_State s = ''paid'' then
          (case ConfirmStatus v (or_Channel o0) s db of
             Inl err \<Rightarrow> (Inl err, db)
           | Inr db1 \<Rightarrow> (case map_of (db_orders db1) i of None \<Rightarrow> (Inl NoRows, db1)
               | Some o1 \<Rightarrow> (Inr (w\<lparr>ov_Status := or_Status o1\<rparr>), db1)))
        else (Inr w, db))"

definition query_channels :: "(string, channel) gomap \<Rightarrow> string list" where
  "query_channels channels = sort (map fst (filter (\<lambda>(_, c). case ch_Adapter c of None \<Rightarrow> False | Some a \<Rightarrow> ad_CanQuery a) channels))"

text \<open>Orders without a schedule, oldest first, get one.\<close>

definition missing_schedules :: "string list \<Rightarrow> nat \<Rightarrow> cdb \<Rightarrow> string list" where
  "missing_schedules names limit db = take limit (map fst (sort_key (\<lambda>(_, o0). or_Created o0) (sort_key fst
     (filter (\<lambda>(i, o0). is_payable (or_Status o0) \<and> \<not> has (db_schedules db) i \<and> or_Channel o0 \<in> set names) (db_orders db)))))"

fun repair_loop :: "string list \<Rightarrow> cdb \<Rightarrow> commerce_error + cdb" where
  "repair_loop [] db = Inr db"
| "repair_loop (i # is) db = bindE (row (db_orders db) i) (\<lambda>o0.
     if \<not> is_payable (or_Status o0) \<or> has (db_schedules db) i then repair_loop is db
     else repair_loop is (db\<lparr>db_schedules := put i \<lparr>sc_Attempts = 0, sc_NextAt = 0\<rparr> (db_schedules db)\<rparr>))"

definition repairReconciliation :: "string list \<Rightarrow> nat \<Rightarrow> cdb \<Rightarrow> commerce_error + cdb" where
  "repairReconciliation names limit db = repair_loop (missing_schedules names limit db) db"

definition due_orders :: "env \<Rightarrow> string list \<Rightarrow> nat \<Rightarrow> cdb \<Rightarrow> (string \<times> string \<times> int) list" where
  "due_orders v names limit db =
     take limit (map (\<lambda>(i, s). (i, case map_of (db_orders db) i of None \<Rightarrow> '''' | Some o0 \<Rightarrow> or_User o0, sc_Attempts s))
       (sort_key (\<lambda>(_, s). sc_NextAt s) (sort_key fst (filter (\<lambda>(i, s). sc_NextAt s \<le> milli (ev_now v)
          \<and> (case map_of (db_orders db) i of None \<Rightarrow> False | Some o0 \<Rightarrow> is_payable (or_Status o0) \<and> or_Channel o0 \<in> set names))
        (db_schedules db)))))"

text \<open>The transaction that claims one due order: it moves the next attempt before the gateway is asked.\<close>

definition claim_order :: "env \<Rightarrow> string \<Rightarrow> int \<Rightarrow> cdb \<Rightarrow> commerce_error + (bool \<times> cdb)" where
  "claim_order v i attempts0 db = bindE (row (db_orders db) i) (\<lambda>o0.
     if \<not> is_payable (or_Status o0) then Inr (False, db)
     else let attempts = (if attempts0 \<ge> 2147483647 then 2147483647 else attempts0 + 1) in
       case map_of (db_schedules db) i of None \<Rightarrow> Inr (False, db)
       | Some s \<Rightarrow> if sc_Attempts s = attempts0 \<and> sc_NextAt s \<le> milli (ev_now v)
           then Inr (True, db\<lparr>db_schedules := put i \<lparr>sc_Attempts = attempts,
                  sc_NextAt = milli (ev_now v + reconciliationBackoff attempts)\<rparr> (db_schedules db)\<rparr>)
           else Inr (False, db))"

fun reconcile_loop :: "env \<Rightarrow> (string, channel) gomap \<Rightarrow> (string \<times> string \<times> int) list \<Rightarrow> nat \<Rightarrow> commerce_error list \<Rightarrow> cdb
    \<Rightarrow> (nat \<times> commerce_error list) \<times> cdb" where
  "reconcile_loop v channels [] count failures db = ((count, failures), db)"
| "reconcile_loop v channels ((i, user, attempts) # due) count failures db =
     (case claim_order v i attempts db of
        Inl err \<Rightarrow> ((count, failures @ [err]), db)
      | Inr (False, db1) \<Rightarrow> reconcile_loop v channels due count failures db1
      | Inr (True, db1) \<Rightarrow> (case ReconcileOrder v channels user i db1 of
            (Inl err, db2) \<Rightarrow> reconcile_loop v channels due (Suc count) (failures @ [err]) db2
          | (Inr _, db2) \<Rightarrow> reconcile_loop v channels due (Suc count) failures db2))"

definition ReconcilePending :: "env \<Rightarrow> (string, channel) gomap \<Rightarrow> int \<Rightarrow> cdb \<Rightarrow> (nat \<times> commerce_error list) \<times> cdb" where
  "ReconcilePending v channels limit0 db =
     (let limit = nat (min (if limit0 \<le> 0 then 20 else limit0) 100); names = query_channels channels in
      if names = [] then ((0, []), db)
      else case repairReconciliation names limit db of
        Inl err \<Rightarrow> ((0, [err]), db)
      | Inr db1 \<Rightarrow> reconcile_loop v channels (due_orders v names limit db1) 0 [] db1)"

section \<open>Refunds to the payer\<close>

definition reserved_refunds :: "string \<Rightarrow> cdb \<Rightarrow> int" where
  "reserved_refunds order db =
     gsum (\<lambda>_ r. if rf_Order r = order \<and> rf_Status r \<noteq> ''canceled'' then rf_Amount r else 0) (db_refunds db)"

definition completed_refunds :: "string \<Rightarrow> cdb \<Rightarrow> int" where
  "completed_refunds order db =
     gsum (\<lambda>_ r. if rf_Order r = order \<and> rf_Status r = ''completed'' then rf_Amount r else 0) (db_refunds db)"

definition RequestRefund :: "env \<Rightarrow> string \<Rightarrow> string \<Rightarrow> string \<Rightarrow> string \<Rightarrow> int \<Rightarrow> cdb
    \<Rightarrow> commerce_error + ((string \<times> refund_row) \<times> cdb)" where
  "RequestRefund v actor order key reason amount db =
     (if actor = '''' \<or> length key < 1 \<or> length key > 128 \<or> amount \<le> 0 \<or> TrimSpace reason = '''' \<or> length reason > 500
      then Inl BadRefund
      else bindE (row (db_orders db) order) (\<lambda>o0.
        case find (\<lambda>(_, r). rf_Order r = order \<and> rf_Key r = key) (db_refunds db) of
          Some (i, r) \<Rightarrow> if rf_Amount r \<noteq> amount \<or> rf_Reason r \<noteq> reason then Inl Conflict else Inr ((i, r), db)
        | None \<Rightarrow>
            if or_Status o0 \<noteq> ''paid'' \<and> or_Status o0 \<noteq> ''paid_late'' \<and> or_Status o0 \<noteq> ''partially_refunded''
            then Inl RefundUnavailable
            else if amount > or_Amount o0 - reserved_refunds order db then Inl RefundTooLarge
            else let (i, db1) = draw v db;
                     r = \<lparr>rf_Order = order, rf_User = or_User o0, rf_Amount = amount, rf_Status = ''pending_external'',
                          rf_Reason = reason, rf_Actor = actor, rf_Key = key, rf_Evidence = '''', rf_ResolvedBy = ''''\<rparr>
              in bindE (insert_row i r (db_refunds db1)) (\<lambda>m.
                 bindE (post v (or_User o0) (- amount) ''refund_reserve'' (''refund-reserve:'' @ i) (db1\<lparr>db_refunds := m\<rparr>)) (\<lambda>db2.
                   Inr ((i, r), db2)))))"

definition ResolveRefund :: "env \<Rightarrow> string \<Rightarrow> string \<Rightarrow> string \<Rightarrow> bool \<Rightarrow> cdb
    \<Rightarrow> commerce_error + ((string \<times> refund_row) \<times> cdb)" where
  "ResolveRefund v actor i evidence completed db =
     (if actor = '''' \<or> TrimSpace evidence = '''' \<or> length evidence > 500 then Inl EvidenceRequired
      else bindE (row (db_refunds db) i) (\<lambda>r.
        bindE (row (db_orders db) (rf_Order r)) (\<lambda>o0.
        let st = (if completed then ''completed'' else ''canceled'') in
        if rf_Status r \<noteq> ''pending_external'' then
          (if rf_Status r = st \<and> rf_Evidence r = evidence then Inr ((i, r), db) else Inl Conflict)
        else bindE (if completed then Inr db
                    else post v (or_User o0) (rf_Amount r) ''refund_release'' (''refund-release:'' @ i) db) (\<lambda>db1.
          let r1 = r\<lparr>rf_Status := st, rf_Evidence := evidence, rf_ResolvedBy := actor\<rparr>;
              db2 = db1\<lparr>db_refunds := put i r1 (db_refunds db1)\<rparr>;
              db3 = (if completed then set_order (rf_Order r)
                       (\<lambda>p. p\<lparr>or_Status := (if completed_refunds (rf_Order r) db2 = or_Amount o0 then ''refunded''
                              else ''partially_refunded'')\<rparr>) db2
                     else db2)
          in bindE (emitEventTx v (or_User o0) (''refund.'' @ st) [(''refund_id'', JStr i), (''order_id'', JStr (rf_Order r))] db3) (\<lambda>db4.
            Inr ((i, r1), db4))))))"

end
