(* ===== verification/Books.thy ===== *)
theory Books
  imports Wallet_Inv Quota_Inv Billing Orders
begin

text \<open>
  The handlers of the commerce service, seen together. A first part states what each handler leaves alone
  and what it adds to the journal: \<open>posts db es db'\<close> says that a transaction from \<open>db\<close> to \<open>db'\<close> appends
  exactly the entries \<open>es\<close> and keeps the wallet invariant. A second part collects all handlers in one
  state machine with one invariant for the whole database.
\<close>

section \<open>What a posting leaves alone\<close>

definition rest :: "cdb \<Rightarrow> cdb" where
  "rest db = db\<lparr>db_drawn := 0, db_wallets := [], db_journal := [], db_accounts := [], db_sources := [], db_allocs := [],
     db_events := [], db_deliveries := []\<rparr>"

lemma rest_upd [simp]:
  "rest (db\<lparr>db_drawn := a\<rparr>) = rest db" "rest (db\<lparr>db_wallets := b\<rparr>) = rest db" "rest (db\<lparr>db_journal := c\<rparr>) = rest db"
  "rest (db\<lparr>db_accounts := d\<rparr>) = rest db" "rest (db\<lparr>db_sources := e\<rparr>) = rest db" "rest (db\<lparr>db_allocs := f\<rparr>) = rest db"
  "rest (db\<lparr>db_events := g\<rparr>) = rest db" "rest (db\<lparr>db_deliveries := h\<rparr>) = rest db"
  "rest (db\<lparr>db_drawn := a, db_events := g, db_deliveries := h\<rparr>) = rest db"
  by (simp_all add: rest_def)

lemma rest_sel:
  assumes "rest db' = rest db"
  shows "db_users db' = db_users db" "db_plans db' = db_plans db" "db_ents db' = db_ents db" "db_entLimits db' = db_entLimits db"
    "db_leases db' = db_leases db" "db_res db' = db_res db" "db_usage db' = db_usage db" "db_orders db' = db_orders db"
    "db_attempts db' = db_attempts db" "db_schedules db' = db_schedules db" "db_refunds db' = db_refunds db"
    "db_purchases db' = db_purchases db" "db_snapshots db' = db_snapshots db" "db_addons db' = db_addons db"
    "db_prefunds db' = db_prefunds db" "db_commissions db' = db_commissions db" "db_comRefunds db' = db_comRefunds db"
    "db_comActions db' = db_comActions db" "db_rate db' = db_rate db" "db_refCodes db' = db_refCodes db"
    "db_bindings db' = db_bindings db" "db_redeem db' = db_redeem db" "db_claims db' = db_claims db"
    "db_autoRenew db' = db_autoRenew db" "db_adjustments db' = db_adjustments db" "db_subs db' = db_subs db"
  using arg_cong [OF assms, of db_users] arg_cong [OF assms, of db_plans] arg_cong [OF assms, of db_ents]
    arg_cong [OF assms, of db_entLimits] arg_cong [OF assms, of db_leases] arg_cong [OF assms, of db_res]
    arg_cong [OF assms, of db_usage] arg_cong [OF assms, of db_orders] arg_cong [OF assms, of db_attempts]
    arg_cong [OF assms, of db_schedules] arg_cong [OF assms, of db_refunds] arg_cong [OF assms, of db_purchases]
    arg_cong [OF assms, of db_snapshots] arg_cong [OF assms, of db_addons] arg_cong [OF assms, of db_prefunds]
    arg_cong [OF assms, of db_commissions] arg_cong [OF assms, of db_comRefunds] arg_cong [OF assms, of db_comActions]
    arg_cong [OF assms, of db_rate] arg_cong [OF assms, of db_refCodes] arg_cong [OF assms, of db_bindings]
    arg_cong [OF assms, of db_redeem] arg_cong [OF assms, of db_claims] arg_cong [OF assms, of db_autoRenew]
    arg_cong [OF assms, of db_adjustments] arg_cong [OF assms, of db_subs]
  by (simp_all add: rest_def)

lemma same_but_funds_rest: "same_but_funds db db' \<Longrightarrow> rest db' = rest db"
proof -
  assume "same_but_funds db db'"
  then have "rest (db'\<lparr>db_sources := [], db_allocs := []\<rparr>) = rest (db\<lparr>db_sources := [], db_allocs := []\<rparr>)"
    by (simp add: same_but_funds_def)
  then show ?thesis by (simp add: rest_def)
qed

lemma walletTx_rest: "rest (snd (walletTx u db)) = rest db"
  by (simp add: walletTx_def Let_def split: option.splits)

lemma draw_rest: "draw v db = (i, db') \<Longrightarrow> rest db' = rest db"
  by (auto simp: draw_def)

lemma emit_rest: "emitEventTx v u k dt db = Inr db' \<Longrightarrow> rest db' = rest db"
  by (auto simp: emitEventTx_def draw_def Let_def split: if_splits)

lemma new_source_rest: "new_source v i u o0 n db = Inr db' \<Longrightarrow> rest db' = rest db"
  by (auto simp: new_source_def bindE_eq_Inr)

lemma open_account_rest: "open_account v u b db = Inr db' \<Longrightarrow> rest db' = rest db"
  by (auto simp: open_account_def Let_def dest: new_source_rest split: if_splits)

lemma take_from_rest: "rest (take_from i n db) = rest db"
  by (simp add: take_from_def split: option.splits)

lemma spend_sources_rest: "spend_sources r fs need db = Inr (n, db') \<Longrightarrow> rest db' = rest db"
  by (induction r fs need db rule: spend_sources.induct)
    (auto simp: Let_def bindE_eq_Inr take_from_rest split: if_splits)

lemma give_back_rest: "rest (give_back r i n db) = rest db"
  by (simp add: give_back_def Let_def split: option.splits)

lemma restore_loop_rest: "restore_loop r as need db = (n, db') \<Longrightarrow> rest db' = rest db"
  by (induction r as need db rule: restore_loop.induct) (auto simp: Let_def give_back_rest split: if_splits)

lemma move_funds_rest: "move_funds v u d k r db = Inr db' \<Longrightarrow> rest db' = rest db"
  by (auto simp: move_funds_def restoreFunds_def bindE_eq_Inr Let_def
      dest: new_source_rest spend_sources_rest restore_loop_rest split: if_splits prod.splits)

lemma write_rest:
  "write_wallet u b n db = Inr db' \<Longrightarrow> rest db' = rest db" "write_journal v u d b k r db = Inr db' \<Longrightarrow> rest db' = rest db"
  by (auto simp: write_wallet_def write_journal_def draw_def Let_def split: option.splits if_splits)

lemma post_rest:
  assumes "post v u d k r db = Inr db'"
  shows "rest db' = rest db"
proof -
  obtain w db0 where w: "walletTx u db = (w, db0)" by fastforce
  obtain db1 db2 db3 db4 where s: "open_account v u (wa_balance w) db0 = Inr db1" "move_funds v u d k r db1 = Inr db2"
    "write_wallet u (wa_balance w + d) (wa_version w) db2 = Inr db3" "write_journal v u d (wa_balance w + d) k r db3 = Inr db4"
    "emitEventTx v u (''wallet.'' @ k) [(''amount_cents'', JInt d), (''balance_cents'', JInt (wa_balance w + d)),
          (''reference'', JStr r)] db4 = Inr db'"
    using assms by (auto simp: post_def w trackFunds_def bindE_eq_Inr Let_def split: if_splits)
  have "rest db0 = rest db" using walletTx_rest [of u db] by (simp add: w)
  then show ?thesis
    using open_account_rest [OF s(1)] move_funds_rest [OF s(2)] write_rest(1) [OF s(3)] write_rest(2) [OF s(4)] emit_rest [OF s(5)]
    by simp
qed

section \<open>What a transaction posts\<close>

type_synonym entry = "string \<times> int \<times> string \<times> string"

definition entries :: "cdb \<Rightarrow> entry list" where
  "entries db = map (\<lambda>j. (jl_User j, jl_Amount j, jl_Kind j, jl_Reference j)) (db_journal db)"

definition posts :: "cdb \<Rightarrow> entry list \<Rightarrow> cdb \<Rightarrow> bool" where
  "posts db es db' \<longleftrightarrow> wallet_inv db \<longrightarrow> wallet_inv db' \<and> entries db' = entries db @ es"

lemma posts_trans: "posts a xs b \<Longrightarrow> posts b ys c \<Longrightarrow> posts a (xs @ ys) c"
  by (auto simp: posts_def)

lemma posts_before: "posts a [] b \<Longrightarrow> posts b ys c \<Longrightarrow> posts a ys c"
  by (drule posts_trans) auto

lemma posts_after: "posts a xs b \<Longrightarrow> posts b [] c \<Longrightarrow> posts a xs c"
  by (drule posts_trans, assumption) auto

lemma posts_idle:
  assumes "db_wallets db' = db_wallets db" "db_journal db' = db_journal db" "db_accounts db' = db_accounts db"
    "db_sources db' = db_sources db" "db_allocs db' = db_allocs db"
  shows "posts db [] db'"
  using wallet_inv_cong(1) [OF assms] assms(2) by (simp add: posts_def entries_def)

lemma posts_walletTx: "posts db [] (snd (walletTx u db))"
proof -
  obtain w db' where w: "walletTx u db = (w, db')" by fastforce
  have "db_journal db' = db_journal db" using w by (auto simp: walletTx_def Let_def split: option.splits)
  then show ?thesis using walletTx_ok(1) [OF _ w] by (simp add: posts_def entries_def w)
qed

lemma posts_draw: "draw v db = (i, db') \<Longrightarrow> posts db [] db'"
  by (rule posts_idle) (auto simp: draw_def)

lemma posts_emit: "emitEventTx v u k dt db = Inr db' \<Longrightarrow> posts db [] db'"
  using emit_frame [of v u k dt db db'] by (intro posts_idle) simp_all

lemma spend_sources_journal: "spend_sources r fs need db = Inr (n, db') \<Longrightarrow> db_journal db' = db_journal db"
  by (induction r fs need db rule: spend_sources.induct)
    (auto simp: Let_def bindE_eq_Inr take_from_def split: if_splits option.splits)

lemma give_back_journal: "db_journal (give_back r i n db) = db_journal db"
  by (simp add: give_back_def Let_def split: option.splits)

lemma restore_loop_journal: "restore_loop r as need db = (n, db') \<Longrightarrow> db_journal db' = db_journal db"
  by (induction r as need db rule: restore_loop.induct)
    (auto simp: Let_def give_back_journal split: if_splits)

lemma post_entry:
  assumes "post v u d k r db = Inr db'"
  shows "entries db' = entries db @ [(u, d, k, r)]"
proof -
  obtain w db0 where w: "walletTx u db = (w, db0)" by fastforce
  obtain db1 db2 db3 db4 where s: "open_account v u (wa_balance w) db0 = Inr db1" "move_funds v u d k r db1 = Inr db2"
    "write_wallet u (wa_balance w + d) (wa_version w) db2 = Inr db3" "write_journal v u d (wa_balance w + d) k r db3 = Inr db4"
    "emitEventTx v u (''wallet.'' @ k) [(''amount_cents'', JInt d), (''balance_cents'', JInt (wa_balance w + d)),
          (''reference'', JStr r)] db4 = Inr db'"
    using assms by (auto simp: post_def w trackFunds_def bindE_eq_Inr Let_def split: if_splits)
  have "db_journal db0 = db_journal db" using w by (auto simp: walletTx_def Let_def split: option.splits)
  moreover have "db_journal db1 = db_journal db0"
    using s(1) by (auto simp: open_account_def new_source_def bindE_eq_Inr Let_def split: if_splits)
  moreover have "db_journal db2 = db_journal db1"
  proof -
    show ?thesis using s(2)
      by (auto simp: move_funds_def restoreFunds_def new_source_def bindE_eq_Inr Let_def dest: spend_sources_journal restore_loop_journal split: if_splits prod.splits)
  qed
  moreover have "entries db4 = entries db2 @ [(u, d, k, r)]"
    using s(3,4) by (auto simp: write_wallet_def write_journal_def draw_def entries_def Let_def split: option.splits if_splits)
  ultimately show ?thesis using emit_frame(2) [OF s(5)] by (simp add: entries_def)
qed

text \<open>A posting that succeeds is at most the largest balance, so a lower bound on the amount is all that
  the wallet invariant asks of the caller.\<close>

lemma posts_post:
  assumes r: "post v u d k ref db = Inr db'" and lo: "min_int64 < d"
  shows "posts db [(u, d, k, ref)] db'"
  unfolding posts_def
proof
  assume inv: "wallet_inv db"
  obtain w db0 where w: "walletTx u db = (w, db0)" by fastforce
  have "\<not> (d > 0 \<and> wa_balance w > max_int64 - d)" using r by (auto simp: post_def w Let_def split: if_splits)
  then have "d \<le> max_int64"
    using walletTx_ok(2) [OF inv w] wallet_invD(3) [OF inv, of u] by (cases "d > 0") (auto simp: max_int64_def)
  then have "posting_ok d" using lo by (simp add: posting_ok_def)
  then show "wallet_inv db' \<and> entries db' = entries db @ [(u, d, k, ref)]"
    using post_ok(1) [OF inv _ r] post_entry [OF r] by simp
qed

lemma balance_entries:
  assumes "wallet_inv db"
  shows "balance u db = (\<Sum>(x, d, _)\<leftarrow>entries db. if x = u then d else 0)"
  using wallet_invD(5) [OF assms, of u] by (simp add: journal_total_def entries_def o_def)

lemma posts_balance:
  assumes "posts db es db'" "wallet_inv db"
  shows "wallet_inv db'" "balance u db' = balance u db + (\<Sum>(x, d, _)\<leftarrow>es. if x = u then d else 0)"
  using assms balance_entries [of db u] balance_entries [of db' u] by (simp_all add: posts_def)


section \<open>Rows in range\<close>

definition all_rows :: "('v \<Rightarrow> bool) \<Rightarrow> ('k, 'v) gomap \<Rightarrow> bool" where
  "all_rows P m \<longleftrightarrow> (\<forall>(k, v) \<in> set m. P v)"

lemma all_rows_Nil [simp]: "all_rows P []"
  by (simp add: all_rows_def)

lemma put_set: "x \<in> set (put k v m) \<Longrightarrow> x = (k, v) \<or> x \<in> set m"
  by (induction m) (auto split: if_splits)

lemma all_rows_put [intro]: "all_rows P m \<Longrightarrow> P v \<Longrightarrow> all_rows P (put k v m)"
  by (auto simp: all_rows_def dest!: put_set)

lemma all_rows_mem: "all_rows P m \<Longrightarrow> (k, v) \<in> set m \<Longrightarrow> P v"
  by (auto simp: all_rows_def)

lemma all_rowsD: "all_rows P m \<Longrightarrow> map_of m k = Some v \<Longrightarrow> P v"
  by (auto dest: map_of_SomeD all_rows_mem)

lemma find_SomeD: "find P xs = Some x \<Longrightarrow> x \<in> set xs \<and> P x"
  by (induction xs) (auto split: if_splits)

definition plan_ok :: "plan \<Rightarrow> bool" where
  "plan_ok p \<longleftrightarrow> 0 < p_Price p \<and> p_Price p \<le> 100000000 \<and> 0 \<le> p_Quota p \<and> PlanLimits_Validate (p_Limits p)"

text \<open>A plan's limits consist of the number of rules.\<close>

lemma ruleOnlyLimits_id [simp]: "ruleOnlyLimits l = l"
  by (cases l) (simp add: ruleOnlyLimits_def)

definition amounts_ok :: "cdb \<Rightarrow> bool" where
  "amounts_ok db \<longleftrightarrow> all_rows (\<lambda>r. 0 < or_Amount r) (db_orders db) \<and> all_rows (\<lambda>r. 0 < rf_Amount r) (db_refunds db)
     \<and> all_rows plan_ok (db_plans db) \<and> all_rows (\<lambda>c. 0 \<le> co_Amount c \<and> co_Amount c \<le> max_int64) (db_commissions db)
     \<and> all_rows (\<lambda>n. 0 \<le> n \<and> n \<le> max_int64) (db_comRefunds db) \<and> (\<forall>r. db_rate db = Some r \<longrightarrow> 0 \<le> r \<and> r \<le> 10000)"

lemma amounts_okD:
  assumes "amounts_ok db"
  shows "map_of (db_orders db) i = Some a \<Longrightarrow> 0 < or_Amount a" "map_of (db_refunds db) i = Some b \<Longrightarrow> 0 < rf_Amount b"
    "map_of (db_plans db) i = Some p \<Longrightarrow> plan_ok p"
    "(i, c) \<in> set (db_commissions db) \<Longrightarrow> 0 \<le> co_Amount c" "(i, c) \<in> set (db_commissions db) \<Longrightarrow> co_Amount c \<le> max_int64"
    "0 \<le> look0 (db_comRefunds db) i" "look0 (db_comRefunds db) i \<le> max_int64"
    "db_rate db = Some r \<Longrightarrow> 0 \<le> r" "db_rate db = Some r \<Longrightarrow> r \<le> 10000"
proof -
  have *: "all_rows (\<lambda>r. 0 < or_Amount r) (db_orders db)" "all_rows (\<lambda>r. 0 < rf_Amount r) (db_refunds db)"
    "all_rows plan_ok (db_plans db)" "all_rows (\<lambda>c. 0 \<le> co_Amount c \<and> co_Amount c \<le> max_int64) (db_commissions db)"
    "all_rows (\<lambda>n. 0 \<le> n \<and> n \<le> max_int64) (db_comRefunds db)" "\<forall>r. db_rate db = Some r \<longrightarrow> 0 \<le> r \<and> r \<le> 10000"
    using assms by (simp_all add: amounts_ok_def)
  show "map_of (db_orders db) i = Some a \<Longrightarrow> 0 < or_Amount a" by (rule all_rowsD [OF *(1)])
  show "map_of (db_refunds db) i = Some b \<Longrightarrow> 0 < rf_Amount b" by (rule all_rowsD [OF *(2)])
  show "map_of (db_plans db) i = Some p \<Longrightarrow> plan_ok p" by (rule all_rowsD [OF *(3)])
  show "(i, c) \<in> set (db_commissions db) \<Longrightarrow> 0 \<le> co_Amount c" "(i, c) \<in> set (db_commissions db) \<Longrightarrow> co_Amount c \<le> max_int64"
    using all_rows_mem [OF *(4)] by auto
  show "0 \<le> look0 (db_comRefunds db) i" "look0 (db_comRefunds db) i \<le> max_int64"
    using all_rowsD [OF *(5), of i] by (auto simp: look0_def max_int64_def split: option.splits)
  show "db_rate db = Some r \<Longrightarrow> 0 \<le> r" "db_rate db = Some r \<Longrightarrow> r \<le> 10000" using *(6) by auto
qed

lemma amounts_ok_cong:
  assumes "db_orders db' = db_orders db" "db_refunds db' = db_refunds db" "db_plans db' = db_plans db"
    "db_commissions db' = db_commissions db" "db_comRefunds db' = db_comRefunds db" "db_rate db' = db_rate db"
  shows "amounts_ok db' = amounts_ok db"
  using assms by (simp add: amounts_ok_def)

lemma normalize_ok: "normalizePlanDuration p = Inr p' \<Longrightarrow> plan_ok p \<Longrightarrow> plan_ok p'"
  by (auto simp: normalizePlanDuration_def plan_ok_def bindE_eq_Inr Let_def split: if_splits)

lemma planTx_ok: "amounts_ok db \<Longrightarrow> planTx db i = Inr p \<Longrightarrow> plan_ok p"
  by (auto simp: planTx_def bindE_eq_Inr intro: normalize_ok dest: amounts_okD(3))

section \<open>Transactions that keep the books\<close>

definition payment_ref :: "string \<Rightarrow> bool" where
  "payment_ref r \<longleftrightarrow> take 8 r = ''payment:''"

definition good_ids :: "env \<Rightarrow> bool" where
  "good_ids v \<longleftrightarrow> (\<forall>n. CHR '':'' \<notin> set (ev_ids v n))"

lemma good_ids_quiet: "good_ids v \<Longrightarrow> \<not> payment_ref (ev_ids v n)"
proof
  assume v: "good_ids v" and p: "payment_ref (ev_ids v n)"
  have "CHR '':'' \<in> set (take 8 (ev_ids v n))" using p by (simp add: payment_ref_def)
  then have "CHR '':'' \<in> set (ev_ids v n)" by (rule in_set_takeD)
  with v show False by (simp add: good_ids_def)
qed

text \<open>Postings under other references than a payment's.\<close>

definition posts_quietly :: "cdb \<Rightarrow> cdb \<Rightarrow> bool" where
  "posts_quietly db db' \<longleftrightarrow> (\<exists>es. posts db es db' \<and> (\<forall>(u, d, k, r) \<in> set es. \<not> payment_ref r))"

lemma posts_quietly_trans: "posts_quietly a b \<Longrightarrow> posts_quietly b c \<Longrightarrow> posts_quietly a c"
  unfolding posts_quietly_def
proof (elim exE conjE)
  fix xs ys assume "posts a xs b" "\<forall>(u, d, k, r) \<in> set xs. \<not> payment_ref r" "posts b ys c" "\<forall>(u, d, k, r) \<in> set ys. \<not> payment_ref r"
  then show "\<exists>es. posts a es c \<and> (\<forall>(u, d, k, r) \<in> set es. \<not> payment_ref r)"
    by (intro exI [of _ "xs @ ys"]) (auto intro: posts_trans)
qed

lemma posts_quietly_idle: "posts a [] b \<Longrightarrow> posts_quietly a b"
  by (auto simp: posts_quietly_def intro!: exI [of _ "[]"])

text \<open>A transaction that keeps every invariant, leaves orders and refunds alone and posts nothing under a
  payment's reference.\<close>

definition keeps :: "cdb \<Rightarrow> cdb \<Rightarrow> bool" where
  "keeps db db' \<longleftrightarrow> amounts_ok db \<longrightarrow> amounts_ok db' \<and> (quota_inv db \<longrightarrow> quota_inv db') \<and> db_orders db' = db_orders db
     \<and> db_refunds db' = db_refunds db \<and> posts_quietly db db'"

lemma keeps_trans [trans]: "keeps a b \<Longrightarrow> keeps b c \<Longrightarrow> keeps a c"
  unfolding keeps_def by (auto intro: posts_quietly_trans)

lemma keeps_refl [simp]: "keeps db db"
  by (auto simp: keeps_def intro!: posts_quietly_idle posts_idle)

lemma keeps_rest:
  assumes "rest db' = rest db" "posts_quietly db db'"
  shows "keeps db db'"
proof -
  note S = rest_sel [OF assms(1)]
  have "amounts_ok db' = amounts_ok db" by (rule amounts_ok_cong) (simp_all add: S)
  moreover have "quota_inv db' = quota_inv db" by (rule quota_inv_cong) (simp_all add: S)
  ultimately show ?thesis using assms(2) by (simp add: keeps_def S)
qed

lemma keeps_idle:
  assumes "db_wallets db' = db_wallets db" "db_journal db' = db_journal db" "db_accounts db' = db_accounts db"
    "db_sources db' = db_sources db" "db_allocs db' = db_allocs db"
    "db_orders db' = db_orders db" "db_refunds db' = db_refunds db"
    "amounts_ok db \<Longrightarrow> amounts_ok db'" "amounts_ok db \<Longrightarrow> quota_inv db \<Longrightarrow> quota_inv db'"
  shows "keeps db db'"
  using posts_idle [OF assms(1-5)] assms(6-9) by (auto simp: keeps_def intro: posts_quietly_idle)

text \<open>Tables that no invariant looks at.\<close>

lemma keeps_other [simp]:
  "keeps db (db\<lparr>db_entLimits := a\<rparr>)" "keeps db (db\<lparr>db_purchases := b\<rparr>)" "keeps db (db\<lparr>db_snapshots := c\<rparr>)"
  "keeps db (db\<lparr>db_addons := d\<rparr>)" "keeps db (db\<lparr>db_prefunds := e\<rparr>)" "keeps db (db\<lparr>db_comActions := f\<rparr>)"
  "keeps db (db\<lparr>db_refCodes := g\<rparr>)" "keeps db (db\<lparr>db_bindings := h\<rparr>)" "keeps db (db\<lparr>db_redeem := i\<rparr>)"
  "keeps db (db\<lparr>db_claims := j\<rparr>)" "keeps db (db\<lparr>db_autoRenew := k\<rparr>)" "keeps db (db\<lparr>db_adjustments := l\<rparr>)"
  "keeps db (db\<lparr>db_subs := m\<rparr>)" "keeps db (db\<lparr>db_drawn := n\<rparr>)"
  by (rule keeps_idle; simp add: amounts_ok_def cong: quota_inv_cong)+


lemma keeps_walletTx: "keeps db (snd (walletTx u db))"
  by (intro keeps_rest walletTx_rest posts_quietly_idle posts_walletTx)

lemma keeps_draw: "draw v db = (i, db') \<Longrightarrow> keeps db db'"
  by (auto simp: draw_def)

lemma keeps_emit: "emitEventTx v u k dt db = Inr db' \<Longrightarrow> keeps db db'"
  by (intro keeps_rest emit_rest posts_quietly_idle posts_emit)

lemma keeps_post:
  assumes "post v u d k r db = Inr db'" "min_int64 < d" "\<not> payment_ref r"
  shows "keeps db db'"
  using post_rest [OF assms(1)] posts_post [OF assms(1,2)] assms(3)
  by (intro keeps_rest) (auto simp: posts_quietly_def intro!: exI [of _ "[(u, d, k, r)]"])

lemma keeps_commissions:
  "0 \<le> co_Amount c \<Longrightarrow> co_Amount c \<le> max_int64 \<Longrightarrow> keeps db (db\<lparr>db_commissions := put i c (db_commissions db)\<rparr>)"
  by (rule keeps_idle) (auto simp: amounts_ok_def cong: quota_inv_cong)

lemma keeps_comRefunds: "0 \<le> n \<Longrightarrow> n \<le> max_int64 \<Longrightarrow> keeps db (db\<lparr>db_comRefunds := put i n (db_comRefunds db)\<rparr>)"
  by (rule keeps_idle) (auto simp: amounts_ok_def cong: quota_inv_cong)

lemma keeps_rate: "0 \<le> r \<Longrightarrow> r \<le> 10000 \<Longrightarrow> keeps db (db\<lparr>db_rate := Some r\<rparr>)"
  by (rule keeps_idle) (auto simp: amounts_ok_def cong: quota_inv_cong)

lemma keeps_plans: "plan_ok p \<Longrightarrow> keeps db (db\<lparr>db_plans := put i p (db_plans db)\<rparr>)"
  by (rule keeps_idle) (auto simp: amounts_ok_def cong: quota_inv_cong)

text \<open>Entitlements: a new one is unused and nothing refers to it, and a quota may change as long as it covers
  what is allocated.\<close>

lemma ent_cost_unused:
  assumes "quota_inv db" "map_of (db_ents db) i = None"
  shows "ent_cost db i = 0" "ent_used db i = 0"
proof -
  have "lr_Ent l \<noteq> i" if "map_of (db_leases db) j = Some l" for j l
    using quota_invD(6) [OF assms(1) that] assms(2) by (auto simp: lease_ok_def has_def)
  then show "ent_cost db i = 0" "ent_used db i = 0"
    unfolding ent_cost_def ent_used_def by (auto intro!: gsum_absent [OF quota_invD(2) [OF assms(1)]])
qed

lemma quota_inv_ents:
  assumes inv: "quota_inv db" and ok: "en_ID e = i" "en_Allocated e = ent_cost db i" "en_Used e = ent_used db i"
    "en_Quota e \<noteq> 0 \<Longrightarrow> en_Allocated e \<le> en_Quota e"
  shows "quota_inv (db\<lparr>db_ents := put i e (db_ents db)\<rparr>)"
proof -
  let ?db = "db\<lparr>db_ents := put i e (db_ents db)\<rparr>"
  note I = quota_invD [OF inv]
  have "cost ?db = cost db" by (intro ext) (simp add: cost_def)
  then have eq: "ent_cost ?db = ent_cost db" "ent_used ?db = ent_used db" "reported ?db = reported db" "charged ?db = charged db"
    by (auto simp: ent_cost_def ent_used_def reported_def charged_def intro!: ext cong: if_cong)
  have "ent_ok ?db j f" if "map_of (db_ents ?db) j = Some f" for j f
    using that I(5) [of j f] ok by (auto simp: ent_ok_def eq split: if_splits)
  moreover have "lease_ok ?db j l" if "map_of (db_leases ?db) j = Some l" for j l
    using that I(6) [of j l] by (auto simp: lease_ok_def eq)
  ultimately show ?thesis using I(1-4,7) by (auto simp: quota_inv_def)
qed

lemma keeps_ents:
  assumes "amounts_ok db \<Longrightarrow> quota_inv db \<Longrightarrow> en_ID e = i \<and> en_Allocated e = ent_cost db i \<and> en_Used e = ent_used db i
    \<and> (en_Quota e \<noteq> 0 \<longrightarrow> en_Allocated e \<le> en_Quota e)"
  shows "keeps db (db\<lparr>db_ents := put i e (db_ents db)\<rparr>)"
  using assms by (intro keeps_idle) (auto simp: amounts_ok_def intro: quota_inv_ents)

lemma keeps_insert_ent:
  assumes r: "insert_ent e db = Inr db'" and e: "en_Allocated e = 0" "en_Used e = 0" "0 \<le> en_Quota e"
  shows "keeps db db'"
proof -
  have new: "map_of (db_ents db) (en_ID e) = None" and d: "db' = db\<lparr>db_ents := put (en_ID e) e (db_ents db)\<rparr>"
    using r by (auto simp: insert_ent_def bindE_eq_Inr split: if_splits)
  show ?thesis unfolding d by (rule keeps_ents) (use ent_cost_unused [OF _ new] e in auto)
qed

lemma keeps_quota:
  assumes e: "map_of (db_ents db) i = Some e" and q: "q \<noteq> 0 \<Longrightarrow> en_Quota e \<noteq> 0 \<Longrightarrow> en_Allocated e \<le> en_Quota e \<Longrightarrow> en_Allocated e \<le> q"
    and z: "en_Quota e = 0 \<Longrightarrow> q \<noteq> 0 \<Longrightarrow> en_Allocated e \<le> q"
  shows "keeps db (db\<lparr>db_ents := put i (e\<lparr>en_Quota := q\<rparr>) (db_ents db)\<rparr>)"
proof (rule keeps_ents)
  assume "quota_inv db"
  then have "ent_ok db i e" by (rule quota_invD(5)) (rule e)
  then show "en_ID (e\<lparr>en_Quota := q\<rparr>) = i \<and> en_Allocated (e\<lparr>en_Quota := q\<rparr>) = ent_cost db i
    \<and> en_Used (e\<lparr>en_Quota := q\<rparr>) = ent_used db i
    \<and> (en_Quota (e\<lparr>en_Quota := q\<rparr>) \<noteq> 0 \<longrightarrow> en_Allocated (e\<lparr>en_Quota := q\<rparr>) \<le> en_Quota (e\<lparr>en_Quota := q\<rparr>))"
    using q z by (cases "en_Quota e = 0") (auto simp: ent_ok_def)
qed

section \<open>Each handler\<close>

lemma commission_amount_bounds:
  assumes "0 \<le> price" "0 \<le> rate" "rate \<le> 10000"
  shows "0 \<le> commission_amount price rate" "commission_amount price rate \<le> price"
proof -
  have a: "0 \<le> price mod 10000 * rate" "price mod 10000 * rate \<le> price mod 10000 * 10000"
    using assms by (auto intro: mult_left_mono)
  have b: "0 \<le> price div 10000 * rate" "price div 10000 * rate \<le> price div 10000 * 10000"
    using assms by (auto intro!: mult_left_mono mult_nonneg_nonneg simp: pos_imp_zdiv_nonneg_iff)
  have "price mod 10000 * rate div 10000 \<le> price mod 10000" using a(2) by linarith
  moreover have "0 \<le> price mod 10000 * rate div 10000" using a(1) by linarith
  moreover have "commission_amount price rate = price div 10000 * rate + price mod 10000 * rate div 10000"
    using assms a by (simp add: commission_amount_def)
  ultimately show "0 \<le> commission_amount price rate" "commission_amount price rate \<le> price"
    using b div_mult_mod_eq [of price 10000] by linarith+
qed

lemma keeps_recordCommission:
  assumes r: "recordCommission v invitee source price db = Inr db'" and ok: "amounts_ok db" and p: "price \<le> max_int64"
  shows "keeps db db'"
proof (cases "db' = db")
  case False
  then obtain rate inviter i where rate: "db_rate db = Some rate" "0 < price"
    and d: "db' = (db\<lparr>db_drawn := Suc (db_drawn db)\<rparr>)\<lparr>db_commissions := put i \<lparr>co_Inviter = inviter, co_Invitee = invitee,
        co_Source = source, co_Amount = commission_amount price rate, co_Status = ''pending''\<rparr> (db_commissions db)\<rparr>"
    using r by (auto simp: recordCommission_def draw_def Let_def bindE_eq_Inr split: if_splits option.splits)
  have "0 \<le> commission_amount price rate" "commission_amount price rate \<le> max_int64"
    using commission_amount_bounds [of price rate] rate amounts_okD(8,9) [OF ok rate(1)] p by auto
  then show ?thesis unfolding d
    using keeps_trans [OF keeps_other(14) keeps_commissions [of _ "db\<lparr>db_drawn := Suc (db_drawn db)\<rparr>" i]] by simp
qed simp


lemma keeps_reverse:
  assumes r: "reversePurchaseCommission v purchase refunded price db = Inr db'" and ok: "amounts_ok db" and v: "good_ids v"
  shows "keeps db db'"
proof (cases "db' = db")
  case False
  let ?t = "\<lambda>c. fraction (co_Amount c) refunded price"
  obtain cid c where f: "find (\<lambda>(_, c). co_Source c = purchase) (db_commissions db) = Some (cid, c)"
    using r False by (auto simp: reversePurchaseCommission_def split: option.splits)
  let ?d = "?t c - look0 (db_comRefunds db) cid"
  obtain db1 where d: "0 < ?d"
    and p: "(if co_Status c = ''paid'' then (let (i, db1) = draw v db in
               post v (co_Inviter c) (- ?d) ''commission_reversal'' i db1) else Inr db) = Inr db1"
    and e: "(let db2 = db1\<lparr>db_comRefunds := put cid (?t c) (db_comRefunds db1)\<rparr>;
                 db3 = (if ?t c = co_Amount c then db2\<lparr>db_commissions := put cid (c\<lparr>co_Status := ''reversed''\<rparr>) (db_commissions db2)\<rparr> else db2)
             in emitEventTx v (co_Inviter c) ''commission.refunded'' [(''commission_id'', JStr cid), (''purchase_id'', JStr purchase)] db3) = Inr db'"
    using r False unfolding reversePurchaseCommission_def f
    by (auto simp: Let_def bindE_eq_Inr split: if_splits)
  have c: "0 \<le> co_Amount c" "co_Amount c \<le> max_int64"
    using find_SomeD [OF f] amounts_okD(4,5) [OF ok, of cid c] by auto
  have t: "0 \<le> ?t c" "?t c \<le> max_int64"
    using d amounts_okD(6) [OF ok, of cid] i64_fits [of "quo (co_Amount c * refunded) price"] by (auto simp: fraction_def fits64_def)
  have 1: "keeps db db1"
  proof (cases "co_Status c = ''paid''")
    case True
    obtain i db0 where w: "draw v db = (i, db0)" by fastforce
    have "\<not> payment_ref i" using w good_ids_quiet [OF v] by (auto simp: draw_def)
    moreover have "min_int64 < - ?d" using t amounts_okD(6) [OF ok, of cid] by (simp add: min_int64_def max_int64_def)
    ultimately show ?thesis using p True w keeps_trans [OF keeps_draw [OF w] keeps_post] by simp
  qed (use p in simp)
  let ?db2 = "db1\<lparr>db_comRefunds := put cid (?t c) (db_comRefunds db1)\<rparr>"
  have "keeps db1 ?db2" by (rule keeps_comRefunds [OF t])
  moreover have "keeps ?db2 (if ?t c = co_Amount c then ?db2\<lparr>db_commissions := put cid (c\<lparr>co_Status := ''reversed''\<rparr>) (db_commissions ?db2)\<rparr> else ?db2)"
    using keeps_commissions [of "c\<lparr>co_Status := ''reversed''\<rparr>" ?db2 cid] c
    by (cases "?t c = co_Amount c") simp_all
  ultimately show ?thesis using 1 keeps_emit e unfolding Let_def by (blast intro: keeps_trans)
qed simp

lemma keeps_ResolveCommission:
  assumes r: "ResolveCommission v actor cid action reason db = Inr db'" and ok: "amounts_ok db"
  shows "keeps db db'"
proof (cases "db' = db")
  case False
  obtain c db1 where c: "map_of (db_commissions db) cid = Some c"
    and p: "(if action = ''settle'' then post v (co_Inviter c) (co_Amount c - look0 (db_comRefunds db) cid) ''commission'' (''commission:'' @ cid) db
             else if co_Status c = ''paid''
             then post v (co_Inviter c) (- (co_Amount c - look0 (db_comRefunds db) cid)) ''commission_reversal'' (''commission-reverse:'' @ cid) db
             else Inr db) = Inr db1"
    and d: "db' = db1\<lparr>db_commissions := put cid (c\<lparr>co_Status := (if action = ''reverse'' then ''reversed'' else ''paid'')\<rparr>) (db_commissions db1),
        db_comActions := (cid, action) # db_comActions db1\<rparr>"
    using r False by (auto simp: ResolveCommission_def Let_def bindE_eq_Inr split: if_splits)
  have a: "0 \<le> co_Amount c" "co_Amount c \<le> max_int64" using amounts_okD(4,5) [OF ok map_of_SomeD [OF c]] by auto
  then have "min_int64 < co_Amount c - look0 (db_comRefunds db) cid" "min_int64 < - (co_Amount c - look0 (db_comRefunds db) cid)"
    using amounts_okD(6,7) [OF ok, of cid] by (auto simp: min_int64_def max_int64_def)
  then have 1: "keeps db db1" using p by (auto simp: payment_ref_def intro: keeps_post split: if_splits)
  let ?db2 = "db1\<lparr>db_commissions := put cid (c\<lparr>co_Status := (if action = ''reverse'' then ''reversed'' else ''paid'')\<rparr>) (db_commissions db1)\<rparr>"
  have "keeps db1 ?db2" using a by (intro keeps_commissions) auto
  then have "keeps db1 (?db2\<lparr>db_comActions := (cid, action) # db_comActions db1\<rparr>)" using keeps_other(6) by (rule keeps_trans)
  with 1 show ?thesis unfolding d by (rule keeps_trans)
qed simp


lemma keeps_snapshotLimits: "snapshotLimits i l db = Inr db' \<Longrightarrow> keeps db db'"
  by (auto simp: snapshotLimits_def bindE_eq_Inr)

lemma keeps_insert_snapshot: "insert_snapshot i user p db = Inr db' \<Longrightarrow> keeps db db'"
  by (auto simp: insert_snapshot_def bindE_eq_Inr)

lemma keeps_buy_period:
  assumes r: "buy_period v user plan key expected p db = Inr (e, db')" and ok: "amounts_ok db" and p: "plan_ok p" and v: "good_ids v"
  shows "keeps db db'"
proof -
  let ?i = "ev_ids v (db_drawn db)" and ?db = "db\<lparr>db_drawn := Suc (db_drawn db)\<rparr>"
  obtain expiry db1 db2 db3 db4 db5 db6 m where s:
    "post v user (- p_Price p) ''purchase'' ?i ?db = Inr db1"
    "insert_ent (grant_ent user plan (current_version db user + 1) (ev_now v) expiry (p_Quota p) ?i) db1 = Inr db2"
    "snapshotLimits ?i (p_Limits p) db2 = Inr db3" "insert_snapshot ?i user p db3 = Inr db4"
    "recordCommission v user ?i (p_Price p) db4 = Inr db5"
    "emitEventTx v user ''entitlement.purchased'' [(''entitlement_id'', JStr ?i), (''plan_id'', JStr plan),
               (''amount_cents'', JInt (p_Price p))] db5 = Inr db6" "db' = db6\<lparr>db_purchases := m\<rparr>"
    using r by (auto simp: buy_period_def draw_def Let_def bindE_eq_Inr)
  have "keeps db db1"
    by (rule keeps_trans [OF keeps_other(14) keeps_post [OF s(1) _ good_ids_quiet [OF v]]])
      (use p in \<open>simp add: plan_ok_def min_int64_def\<close>)
  also have "keeps db1 db2" using p by (intro keeps_insert_ent [OF s(2)]) (auto simp: grant_ent_def plan_ok_def)
  also have "keeps db2 db3" by (rule keeps_snapshotLimits [OF s(3)])
  also have "keeps db3 db4" by (rule keeps_insert_snapshot [OF s(4)])
  finally have 4: "keeps db db4" .
  then have "amounts_ok db4" using ok by (simp add: keeps_def)
  then have "keeps db4 db5" using p by (intro keeps_recordCommission [OF s(5)]) (auto simp: plan_ok_def max_int64_def)
  with 4 have "keeps db db5" by (rule keeps_trans)
  also have "keeps db5 db6" by (rule keeps_emit [OF s(6)])
  also have "keeps db6 db'" by (simp add: s(7))
  finally show ?thesis .
qed

lemma amounts_ok_keeps: "keeps db db' \<Longrightarrow> amounts_ok db \<Longrightarrow> amounts_ok db'"
  by (simp add: keeps_def)

lemma keeps_purchaseTx:
  assumes r: "purchaseTx v user plan key expected planVersion db = Inr (e, db')" and ok: "amounts_ok db" and v: "good_ids v"
  shows "keeps db db'"
proof -
  let ?db = "snd (walletTx user db)"
  have ok': "amounts_ok ?db" using amounts_ok_keeps [OF keeps_walletTx ok] .
  have "keeps ?db db'"
  proof (cases "map_of (db_purchases ?db) (user, key)")
    case None
    then obtain p where p: "planTx ?db plan = Inr p" "buy_period v user plan key expected p ?db = Inr (e, db')"
      using r by (auto simp: purchaseTx_def Let_def bindE_eq_Inr split: option.splits if_splits)
    show ?thesis using keeps_buy_period [OF p(2) ok' planTx_ok [OF ok' p(1)] v] .
  next
    case (Some pr)
    then have "db' = ?db" using r by (auto simp: purchaseTx_def replay_purchase_def Let_def bindE_eq_Inr split: option.splits if_splits)
    then show ?thesis by simp
  qed
  then show ?thesis using keeps_trans [OF keeps_walletTx] by blast
qed

lemma keeps_PurchaseQuote:
  "PurchaseQuote v user plan key expected planVersion db = Inr (e, db') \<Longrightarrow> amounts_ok db \<Longrightarrow> good_ids v \<Longrightarrow> keeps db db'"
  by (auto simp: PurchaseQuote_def split: if_splits intro: keeps_purchaseTx)

lemma keeps_addon_quota:
  assumes "map_of (db_ents db) i = Some f" "en_Quota f = en_Quota e" "0 \<le> extra"
  shows "keeps db (db\<lparr>db_ents := put i (f\<lparr>en_Quota := addon_quota (en_Quota e) extra\<rparr>) (db_ents db)\<rparr>)"
  using assms by (intro keeps_quota) (auto simp: addon_quota_def split: if_splits)


lemma keeps_buy_addon:
  assumes r: "buy_addon v user plan key expected p e limits db = Inr (x, db')" and p: "plan_ok p" and v: "good_ids v"
    and e: "map_of (db_ents db) (en_ID e) = Some e"
  shows "keeps db db'"
proof -
  let ?i = "ev_ids v (db_drawn db)" and ?db = "db\<lparr>db_drawn := Suc (db_drawn db)\<rparr>"
  obtain db1 where 1: "post v user (- p_Price p) ''addon'' ?i ?db = Inr db1"
    using r by (auto simp: buy_addon_def draw_def bindE_eq_Inr)
  have k1: "keeps db db1"
    by (rule keeps_trans [OF keeps_other(14) keeps_post [OF 1 _ good_ids_quiet [OF v]]])
      (use p in \<open>simp add: plan_ok_def min_int64_def\<close>)
  have e1: "map_of (db_ents db1) (en_ID e) = Some e" using rest_sel(3) [OF post_rest [OF 1]] e by simp
  let ?db2 = "db1\<lparr>db_ents := put (en_ID e) (e\<lparr>en_Quota := addon_quota (en_Quota e) (p_Quota p)\<rparr>) (db_ents db1)\<rparr>"
  obtain a where 3: "emitEventTx v user ''entitlement.addon'' [(''purchase_id'', JStr ?i), (''entitlement_id'', JStr (en_ID e)),
               (''plan_id'', JStr plan)] (?db2\<lparr>db_addons := put ?i a (db_addons ?db2)\<rparr>) = Inr db'"
    using r 1 e1 by (auto simp: buy_addon_def draw_def Let_def bindE_eq_Inr split: if_splits)
  note k1
  also have "keeps db1 ?db2" using e1 p by (intro keeps_addon_quota) (auto simp: plan_ok_def)
  also have "keeps ?db2 (?db2\<lparr>db_addons := put ?i a (db_addons ?db2)\<rparr>)" by (rule keeps_other)
  also have "keeps (?db2\<lparr>db_addons := put ?i a (db_addons ?db2)\<rparr>) db'" by (rule keeps_emit [OF 3])
  finally show ?thesis .
qed

lemma quota_inv_keeps: "keeps db db' \<Longrightarrow> amounts_ok db \<Longrightarrow> quota_inv db \<Longrightarrow> quota_inv db'"
  by (simp add: keeps_def)

lemma latest_ent: "quota_inv db \<Longrightarrow> latest db user = Some e \<Longrightarrow> map_of (db_ents db) (en_ID e) = Some e"
  by (rule latest_row(1)) (auto dest: quota_invD(1,5) simp: ent_ok_def)

lemma keeps_PurchaseAddon:
  assumes r: "PurchaseAddon v user plan key expected planVersion db = Inr (x, db')" and ok: "amounts_ok db" "quota_inv db" and v: "good_ids v"
  shows "keeps db db'"
proof -
  let ?db = "snd (walletTx user db)"
  note k = keeps_walletTx [of db user]
  have ok': "amounts_ok ?db" "quota_inv ?db" using amounts_ok_keeps [OF k ok(1)] quota_inv_keeps [OF k ok] by auto
  have "keeps ?db db'"
  proof (cases "find (\<lambda>(_, a). ad_User a = user \<and> ad_Key a = key) (db_addons ?db)")
    case None
    then obtain p e limits where p: "planTx ?db plan = Inr p" "latest ?db user = Some e"
      "buy_addon v user plan key expected p e limits ?db = Inr (x, db')"
      using r by (auto simp: PurchaseAddon_def Let_def bindE_eq_Inr split: option.splits if_splits)
    show ?thesis using keeps_buy_addon [OF p(3) planTx_ok [OF ok'(1) p(1)] v latest_ent [OF ok'(2) p(2)]] .
  next
    case (Some a)
    then have "db' = ?db" using r by (auto simp: PurchaseAddon_def Let_def split: option.splits if_splits prod.splits)
    then show ?thesis by simp
  qed
  with k show ?thesis by (rule keeps_trans)
qed

lemma keeps_remove_quota:
  assumes "remove_quota ent removed db = Inr db'"
  shows "keeps db db'"
proof (cases "db' = db")
  case False
  then obtain e where e: "map_of (db_ents db) ent = Some e" "en_Quota e - removed \<ge> en_Allocated e"
    "db' = db\<lparr>db_ents := put ent (e\<lparr>en_Quota := en_Quota e - removed\<rparr>) (db_ents db)\<rparr>"
    using assms by (auto simp: remove_quota_def split: option.splits if_splits)
  show ?thesis unfolding e(3) using e(1,2) by (intro keeps_quota) auto
qed simp

lemma keeps_refund_purchase:
  assumes r: "refund_purchase v actor purchase key reason amount user ent p db = Inr (x, db')" and ok: "amounts_ok db"
    and n: "0 < amount" and v: "good_ids v"
  shows "keeps db db'"
proof -
  let ?n = "refunded_so_far db purchase + amount"
  obtain removed db1 where 1: "remove_quota ent removed db = Inr db1"
    and 2: "(let (i, db2) = draw v db1 in
          bindE (insert_row i \<lparr>pr_User = user, pr_Purchase = purchase, pr_Amount = amount, pr_Removed = removed,
                   pr_Actor = actor, pr_Reason = reason, pr_Key = key\<rparr> (db_prefunds db2)) (\<lambda>m.
          bindE (reversePurchaseCommission v purchase ?n (p_Price p) (db2\<lparr>db_prefunds := m\<rparr>)) (\<lambda>db3.
          bindE (post v user amount ''purchase_refund'' i db3) (\<lambda>db4.
          bindE (emitEventTx v user ''purchase.refunded'' [(''purchase_id'', JStr purchase), (''refund_id'', JStr i)] db4) (\<lambda>db5.
            Inr ((i, removed), db5)))))) = Inr (x, db')"
    using r by (auto simp: refund_purchase_def Let_def bindE_eq_Inr split: if_splits)
  let ?i = "ev_ids v (db_drawn db1)" and ?db = "db1\<lparr>db_drawn := Suc (db_drawn db1)\<rparr>"
  obtain m db3 db4 where 3: "reversePurchaseCommission v purchase ?n (p_Price p) (?db\<lparr>db_prefunds := m\<rparr>) = Inr db3"
    "post v user amount ''purchase_refund'' ?i db3 = Inr db4"
    "emitEventTx v user ''purchase.refunded'' [(''purchase_id'', JStr purchase), (''refund_id'', JStr ?i)] db4 = Inr db'"
    using 2 by (auto simp: draw_def bindE_eq_Inr)
  have "keeps db db1" by (rule keeps_remove_quota [OF 1])
  also have "keeps db1 ?db" by (rule keeps_other)
  also have "keeps ?db (?db\<lparr>db_prefunds := m\<rparr>)" by (rule keeps_other)
  finally have k: "keeps db (?db\<lparr>db_prefunds := m\<rparr>)" .
  note k
  also have "keeps (?db\<lparr>db_prefunds := m\<rparr>) db3" by (rule keeps_reverse [OF 3(1) amounts_ok_keeps [OF k ok] v])
  also have "keeps db3 db4" using n by (intro keeps_post [OF 3(2)] good_ids_quiet [OF v]) (simp add: min_int64_def)
  also have "keeps db4 db'" by (rule keeps_emit [OF 3(3)])
  finally show ?thesis .
qed

lemma keeps_RefundPurchase:
  assumes r: "RefundPurchase v actor purchase key reason amount db = Inr (x, db')" and ok: "amounts_ok db" and v: "good_ids v"
  shows "keeps db db'"
proof -
  obtain user ent p where u: "purchase_of db purchase = Inr (user, ent, p)" and n: "0 < amount"
    using r by (auto simp: RefundPurchase_def bindE_eq_Inr split: if_splits)
  let ?db = "snd (walletTx user db)"
  note k = keeps_walletTx [of db user]
  have "db' = ?db \<or> refund_purchase v actor purchase key reason amount user ent p ?db = Inr (x, db')"
    using r u by (auto simp: RefundPurchase_def Let_def split: if_splits option.splits prod.splits)
  then have "keeps ?db db'" by (auto intro: keeps_refund_purchase [OF _ amounts_ok_keeps [OF k ok] n v])
  with k show ?thesis by (rule keeps_trans)
qed


lemma keeps_redeem_plan:
  assumes r: "redeem_plan v user plan db = Inr (i, db')" and ok: "amounts_ok db"
  shows "keeps db db'"
proof -
  let ?i = "ev_ids v (db_drawn db)" and ?db = "db\<lparr>db_drawn := Suc (db_drawn db)\<rparr>"
  obtain p expiry db1 db2 db3 where s: "planTx db plan = Inr p"
    "insert_ent (grant_ent user plan (current_version ?db user + 1) (ev_now v) expiry (p_Quota p) ?i) ?db = Inr db1"
    "snapshotLimits ?i (p_Limits p) db1 = Inr db2" "insert_snapshot ?i user p db2 = Inr db3"
    "emitEventTx v user ''entitlement.redeemed'' [(''entitlement_id'', JStr ?i), (''plan_id'', JStr plan)] db3 = Inr db'"
    using r by (auto simp: redeem_plan_def draw_def bindE_eq_Inr split: if_splits)
  have "keeps db ?db" by (rule keeps_other)
  also have "keeps ?db db1"
    using planTx_ok [OF ok s(1)] by (intro keeps_insert_ent [OF s(2)]) (auto simp: grant_ent_def plan_ok_def)
  also have "keeps db1 db2" by (rule keeps_snapshotLimits [OF s(3)])
  also have "keeps db2 db3" by (rule keeps_insert_snapshot [OF s(4)])
  also have "keeps db3 db'" by (rule keeps_emit [OF s(5)])
  finally show ?thesis .
qed

lemma keeps_RedeemCode:
  assumes r: "RedeemCode v user plain db = Inr (x, db')" and ok: "amounts_ok db"
  shows "keeps db db'"
proof -
  let ?db = "snd (walletTx user db)" and ?h = "digestCode v plain"
  note k = keeps_walletTx [of db user]
  have "keeps ?db db'"
  proof (cases "map_of (db_claims ?db) (?h, user)")
    case None
    then obtain c where c: "redeem_code v user ?h c ?db = Inr (x, db')"
      using r by (auto simp: RedeemCode_def Let_def bindE_eq_Inr split: option.splits if_splits)
    let ?db1 = "?db\<lparr>db_redeem := put ?h (c\<lparr>rd_Used := rd_Used c + 1\<rparr>) (db_redeem ?db)\<rparr>"
    obtain db2 ent db3 m where s:
      "(if rd_Amount c > 0 then post v user (rd_Amount c) ''redeem'' (''redeem:'' @ digestCode v (?h @ '':'' @ user)) ?db1 else Inr ?db1) = Inr db2"
      "(if rd_Plan c \<noteq> '''' then bindE (redeem_plan v user (rd_Plan c) db2) (\<lambda>(i, d). Inr (Some i, d)) else Inr (None, db2)) = Inr (ent, db3)"
      "db' = db3\<lparr>db_claims := m\<rparr>"
      using c by (auto simp: redeem_code_def Let_def bindE_eq_Inr)
    have "keeps ?db ?db1" by (rule keeps_other)
    moreover have "keeps ?db1 db2"
      using s(1) by (auto simp: payment_ref_def min_int64_def intro: keeps_post split: if_splits)
    ultimately have 2: "keeps ?db db2" by (rule keeps_trans)
    have "amounts_ok db2" using amounts_ok_keeps [OF 2 amounts_ok_keeps [OF k ok]] .
    then have "keeps db2 db3" using s(2) by (auto simp: bindE_eq_Inr intro: keeps_redeem_plan split: if_splits)
    with 2 have "keeps ?db db3" by (rule keeps_trans)
    then show ?thesis unfolding s(3) using keeps_other(10) by (rule keeps_trans)
  next
    case (Some a)
    then have "db' = ?db" using r by (auto simp: RedeemCode_def Let_def split: option.splits if_splits)
    then show ?thesis by simp
  qed
  with k show ?thesis by (rule keeps_trans)
qed

lemma keeps_set_renewal: "keeps db (set_renewal user t msg db)"
  by (simp add: set_renewal_def split: option.splits)

lemma keeps_renew_one:
  assumes r: "renew_one v user db = Inr (b, db')" and ok: "amounts_ok db" and v: "good_ids v"
  shows "keeps db db'"
proof -
  let ?db = "snd (walletTx user db)"
  note k = keeps_walletTx [of db user]
  consider "db' = ?db" | t msg where "db' = set_renewal user t msg ?db"
    | plan key n e db1 t where "purchaseTx v user plan key n 0 ?db = Inr (e, db1)" "db' = set_renewal user t '''' db1"
  proof (cases "ev_account v user")
    case (Some err)
    with r that(1,2) show thesis by (auto simp: renew_one_def Let_def bindE_eq_Inr split: if_splits)
  next
    case None
    note rn = r [unfolded renew_one_def None Let_def option.case]
    show thesis
    proof (cases "latest ?db user")
      case None
      with rn that(1,2) show thesis by (auto simp: bindE_eq_Inr split: if_splits)
    next
      case (Some e)
      obtain a :: auto_renew where a: "(if \<not> ar_Enabled a \<or> ar_NextAt a > milli (ev_now v) then Inr (False, ?db)
          else if en_ExpiresAt e > ev_now v then Inr (False, set_renewal user (en_ExpiresAt e) '''' ?db)
          else case purchaseTx v user (ar_Plan a) (''autorenew:'' @ en_ID e) (en_Version e) 0 ?db of
             Inl err \<Rightarrow> Inr (True, set_renewal user (ev_now v + minutes 60)
                        (if err = Funds then ''insufficient_funds'' else ''renewal_failed'') ?db)
           | Inr ((renewed, _), db1) \<Rightarrow> Inr (True, set_renewal user (en_ExpiresAt renewed) '''' db1)) = (Inr (b, db') :: commerce_error + bool \<times> cdb)"
        using rn unfolding Some option.case bindE_eq_Inr by blast
      show thesis
      proof (cases "purchaseTx v user (ar_Plan a) (''autorenew:'' @ en_ID e) (en_Version e) 0 ?db")
        case (Inl err)
        with a that(1,2) show thesis by (auto split: if_splits)
      next
        case (Inr x)
        with a that show thesis by (auto split: if_splits prod.splits)
      qed
    qed
  qed
  then have "keeps ?db db'"
  proof cases
    case 3
    show ?thesis unfolding 3(2)
      by (rule keeps_trans [OF keeps_purchaseTx [OF 3(1) amounts_ok_keeps [OF k ok] v] keeps_set_renewal])
  qed (auto intro: keeps_set_renewal)
  with k show ?thesis by (rule keeps_trans)
qed

lemma keeps_renew_loop:
  assumes v: "good_ids v"
  shows "renew_loop v us n db = (err, k, db') \<Longrightarrow> amounts_ok db \<Longrightarrow> keeps db db'"
proof (induction us arbitrary: n db)
  case (Cons u us)
  show ?case
  proof (cases "renew_one v u db")
    case (Inl e)
    with Cons.prems show ?thesis by simp
  next
    case (Inr x)
    obtain b db1 where x: "x = (b, db1)" by (cases x)
    have 1: "keeps db db1" using keeps_renew_one [OF _ Cons.prems(2) v] Inr x by simp
    have "keeps db1 db'" using Cons.IH [OF _ amounts_ok_keeps [OF 1 Cons.prems(2)]] Cons.prems(1) Inr x by simp
    with 1 show ?thesis by (rule keeps_trans)
  qed
qed simp

lemma keeps_RunAutoRenew:
  "RunAutoRenew v limit db = (err, n, db') \<Longrightarrow> amounts_ok db \<Longrightarrow> good_ids v \<Longrightarrow> keeps db db'"
  by (auto simp: RunAutoRenew_def Let_def intro: keeps_renew_loop)

lemma validatePlan_ok: "validatePlan p = Inr q \<Longrightarrow> plan_ok p"
  by (auto simp: validatePlan_def plan_ok_def split: if_splits)

lemma keeps_CreatePlan:
  assumes "CreatePlan v yuan gb p db = Inr (q, db')"
  shows "keeps db db'"
proof -
  let ?db = "db\<lparr>db_drawn := Suc (db_drawn db)\<rparr>"
  obtain p2 x i where p: "validatePlan p2 = Inr x" "db' = ?db\<lparr>db_plans := put i q (db_plans ?db)\<rparr>"
    "q = p2\<lparr>p_ID := i, p_Active := True, p_Version := 1, p_Limits := ruleOnlyLimits (p_Limits p2)\<rparr>"
  proof -
    obtain p2 where p2: "(case validatePlan p2 of Inl _ \<Rightarrow> Inl BadPlan | Inr _ \<Rightarrow>
          let (i, db1) = draw v db; p = p2\<lparr>p_ID := i, p_Active := True, p_Version := 1, p_Limits := ruleOnlyLimits (p_Limits p2)\<rparr> in
          bindE (insert_row i p (db_plans db1)) (\<lambda>m. Inr (p, db1\<lparr>db_plans := m\<rparr>))) = Inr (q, db')"
      using assms unfolding CreatePlan_def Let_def bindE_eq_Inr by blast
    then show thesis using that by (cases "validatePlan p2") (auto simp: draw_def Let_def bindE_eq_Inr)
  qed
  have "plan_ok q" using validatePlan_ok [OF p(1)] by (simp add: p(3) plan_ok_def)
  then show ?thesis unfolding p(2) by (rule keeps_trans [OF keeps_other(14) keeps_plans])
qed

lemma keeps_UpdatePlan:
  assumes "UpdatePlan yuan gb p db = Inr (q, db')"
  shows "keeps db db'"
proof -
  obtain p2 x where p: "validatePlan p2 = Inr x" "db' = db\<lparr>db_plans := put (p_ID p2) q (db_plans db)\<rparr>"
    "p_Price q = p_Price p2" "p_Quota q = p_Quota p2" "p_Limits q = p_Limits p2"
    using assms by (auto simp: UpdatePlan_def Let_def bindE_eq_Inr split: if_splits)
  have "plan_ok q" using validatePlan_ok [OF p(1)] by (simp add: p(3,4,5) plan_ok_def)
  then show ?thesis unfolding p(2) by (rule keeps_plans)
qed

lemma keeps_SetPlanActive:
  assumes "SetPlanActive i active db = Inr db'" "amounts_ok db"
  shows "keeps db db'"
proof -
  obtain p where p: "map_of (db_plans db) i = Some p"
    "db' = db\<lparr>db_plans := put i (p\<lparr>p_Active := active, p_Version := p_Version p + 1\<rparr>) (db_plans db)\<rparr>"
    using assms(1) by (auto simp: SetPlanActive_def bindE_eq_Inr split: if_splits)
  show ?thesis unfolding p(2) using amounts_okD(3) [OF assms(2) p(1)] by (intro keeps_plans) (simp add: plan_ok_def)
qed


lemma keeps_simple:
  "SetAutoRenew v user plan enabled db = Inr db' \<Longrightarrow> keeps db db'"
  "CreateRedeemCode v n plan uses expires db = Inr (x, db') \<Longrightarrow> keeps db db'"
  "RevokeRedeemCode h db = Inr db' \<Longrightarrow> keeps db db'"
  "CreateReferralCode v user db = Inr (x, db') \<Longrightarrow> keeps db db'"
  "SetCommissionRate bps db = Inr db' \<Longrightarrow> keeps db db'"
proof -
  show "SetAutoRenew v user plan enabled db = Inr db' \<Longrightarrow> keeps db db'"
    by (auto simp: SetAutoRenew_def Let_def bindE_eq_Inr split: option.splits if_splits
        intro: keeps_trans [OF keeps_walletTx keeps_other(11)])
  show "CreateRedeemCode v n plan uses expires db = Inr (x, db') \<Longrightarrow> keeps db db'"
    by (auto simp: CreateRedeemCode_def draw_def Let_def bindE_eq_Inr split: option.splits if_splits
        intro: keeps_trans [OF keeps_other(14) keeps_other(9)])
  show "RevokeRedeemCode h db = Inr db' \<Longrightarrow> keeps db db'" by (auto simp: RevokeRedeemCode_def bindE_eq_Inr)
  show "CreateReferralCode v user db = Inr (x, db') \<Longrightarrow> keeps db db'"
    by (auto simp: CreateReferralCode_def draw_def Let_def bindE_eq_Inr split: if_splits
        intro: keeps_trans [OF keeps_other(14) keeps_other(7)])
  show "SetCommissionRate bps db = Inr db' \<Longrightarrow> keeps db db'"
    by (auto simp: SetCommissionRate_def split: if_splits intro: keeps_rate)
qed

lemma keeps_BindReferral:
  assumes "BindReferral v user plain db = Inr db'"
  shows "keeps db db'"
proof -
  let ?db1 = "case db_rate db of None \<Rightarrow> db\<lparr>db_rate := Some 0\<rparr> | Some _ \<Rightarrow> db"
  obtain m where d: "db' = (snd (walletTx user ?db1))\<lparr>db_bindings := m\<rparr>"
    using assms by (auto simp: BindReferral_def Let_def bindE_eq_Inr split: option.splits if_splits)
  have "keeps db ?db1" by (auto intro: keeps_rate split: option.splits)
  then have "keeps db (snd (walletTx user ?db1))" using keeps_walletTx by (rule keeps_trans)
  then show ?thesis unfolding d using keeps_other(8) by (rule keeps_trans)
qed

lemma keeps_AdjustUserBalance:
  assumes r: "AdjustUserBalance v actor user key reason delta db = Inr db'"
  shows "keeps db db'"
proof -
  let ?db = "snd (walletTx user db)"
  have d: "min_int64 < delta" using r by (auto simp: AdjustUserBalance_def Let_def min_int64_def split: if_splits)
  have "keeps ?db db'"
  proof (cases "db' = ?db")
    case False
    let ?i = "ev_ids v (db_drawn ?db)" and ?db1 = "?db\<lparr>db_drawn := Suc (db_drawn ?db)\<rparr>"
    obtain db2 a where s: "post v user delta ''adjustment'' (''admin-adjustment:'' @ ?i) ?db1 = Inr db2" "db' = db2\<lparr>db_adjustments := a\<rparr>"
      using r False by (auto simp: AdjustUserBalance_def draw_def Let_def bindE_eq_Inr split: option.splits if_splits)
    have "keeps ?db ?db1" by (rule keeps_other)
    also have "keeps ?db1 db2" by (rule keeps_post [OF s(1) d]) (simp add: payment_ref_def)
    also have "keeps db2 db'" by (simp add: s(2))
    finally show ?thesis .
  qed simp
  with keeps_walletTx show ?thesis by (rule keeps_trans)
qed

text \<open>The quota operations touch no table of the books.\<close>

definition same_books :: "cdb \<Rightarrow> cdb \<Rightarrow> bool" where
  "same_books db db' \<longleftrightarrow> db_wallets db' = db_wallets db \<and> db_journal db' = db_journal db \<and> db_accounts db' = db_accounts db
     \<and> db_sources db' = db_sources db \<and> db_allocs db' = db_allocs db \<and> db_orders db' = db_orders db \<and> db_refunds db' = db_refunds db
     \<and> db_plans db' = db_plans db \<and> db_commissions db' = db_commissions db \<and> db_comRefunds db' = db_comRefunds db
     \<and> db_rate db' = db_rate db"

lemma keeps_same_books: "same_books db db' \<Longrightarrow> (quota_inv db \<Longrightarrow> quota_inv db') \<Longrightarrow> keeps db db'"
  by (rule keeps_idle) (auto simp: same_books_def amounts_ok_def)

lemma keeps_Allocate:
  assumes r: "AllocateBudgetWithMultiplier v user rule node m req db = Inr (le, db')"
  shows "keeps db db'"
proof (rule keeps_same_books)
  show "same_books db db'"
    using r by (auto simp: AllocateBudgetWithMultiplier_def insert_lease_def draw_def Let_def bindE_eq_Inr same_books_def
        split: if_splits option.splits)
qed (rule Allocate_inv [OF _ r])

lemma keeps_RetireLease:
  assumes r: "RetireLease node i n db = Inr db'"
  shows "keeps db db'"
proof (rule keeps_same_books)
  show "same_books db db'"
    using r by (auto simp: RetireLease_def Let_def bindE_eq_Inr same_books_def split: if_splits option.splits)
qed (rule RetireLease_inv [OF _ r])

lemma keeps_SettleUsageBatch:
  assumes r: "SettleUsageBatch us db = Inr db'"
  shows "keeps db db'"
proof (rule keeps_same_books)
  show "same_books db db'"
    using r by (auto simp: SettleUsageBatch_def commit_settlement_def Let_def bindE_eq_Inr same_books_def split: if_splits)
qed (rule SettleUsageBatch_inv [OF _ r])

end
