(* ===== verification/Order_Inv.thy ===== *)
theory Order_Inv
  imports Books
begin

text \<open>
  The invariant of payment orders and their refunds, \<open>orders_ok\<close>: an order is credited in the journal exactly
  once when it is settled and not at all before, a gateway's transaction pays for one order only, and
  what is refunded or reserved for a refund never exceeds what was paid. Every handler of \<open>Orders\<close> keeps it,
  and so does every handler that \<open>keeps\<close> the books.
\<close>

section \<open>The invariant\<close>

definition payment_entries :: "string \<Rightarrow> cdb \<Rightarrow> entry list" where
  "payment_entries i db = filter (\<lambda>(_, _, _, r). r = ''payment:'' @ i) (entries db)"

definition order_ok :: "cdb \<Rightarrow> string \<Rightarrow> order_row \<Rightarrow> bool" where
  "order_ok db i r \<longleftrightarrow> (is_settled (or_Status r) \<or> is_payable (or_Status r))
     \<and> payment_entries i db = (if is_settled (or_Status r) then [(or_User r, or_Amount r, ''recharge'', ''payment:'' @ i)] else [])
     \<and> (is_settled (or_Status r) \<longleftrightarrow> or_Tx r \<noteq> None)
     \<and> reserved_refunds i db \<le> (if is_settled (or_Status r) then or_Amount r else 0)
     \<and> (or_Status r = ''refunded'' \<longleftrightarrow> completed_refunds i db = or_Amount r)"

definition tx_unique :: "(string, order_row) gomap \<Rightarrow> bool" where
  "tx_unique m \<longleftrightarrow> (\<forall>i j r q t. map_of m i = Some r \<longrightarrow> map_of m j = Some q \<longrightarrow> i \<noteq> j \<longrightarrow> or_Channel r = or_Channel q
     \<longrightarrow> or_Tx r = Some t \<longrightarrow> or_Tx q \<noteq> Some t)"

definition orders_ok :: "cdb \<Rightarrow> bool" where
  "orders_ok db \<longleftrightarrow> distinct_keys (db_orders db) \<and> distinct_keys (db_refunds db)
     \<and> (\<forall>i r. map_of (db_orders db) i = Some r \<longrightarrow> order_ok db i r)
     \<and> (\<forall>i f. map_of (db_refunds db) i = Some f \<longrightarrow> has (db_orders db) (rf_Order f))
     \<and> tx_unique (db_orders db)
     \<and> (\<forall>i. payment_entries i db \<noteq> [] \<longrightarrow> has (db_orders db) i)"

lemma orders_okD:
  assumes "orders_ok db"
  shows "distinct_keys (db_orders db)" "distinct_keys (db_refunds db)"
    "\<And>i r. map_of (db_orders db) i = Some r \<Longrightarrow> order_ok db i r"
    "\<And>i f. map_of (db_refunds db) i = Some f \<Longrightarrow> has (db_orders db) (rf_Order f)"
    "tx_unique (db_orders db)" "\<And>i. payment_entries i db \<noteq> [] \<Longrightarrow> has (db_orders db) i"
  using assms by (auto simp: orders_ok_def)

lemma refund_sums_cong:
  assumes "db_refunds db' = db_refunds db"
  shows "reserved_refunds i db' = reserved_refunds i db" "completed_refunds i db' = completed_refunds i db"
  using assms by (simp_all add: reserved_refunds_def completed_refunds_def)

lemma order_ok_cong:
  assumes "payment_entries i db' = payment_entries i db" "reserved_refunds i db' = reserved_refunds i db"
    "completed_refunds i db' = completed_refunds i db"
  shows "order_ok db' i r = order_ok db i r"
  by (simp only: order_ok_def assms)

lemma orders_ok_cong:
  assumes "db_orders db' = db_orders db" "db_refunds db' = db_refunds db" "\<And>i. payment_entries i db' = payment_entries i db"
  shows "orders_ok db' = orders_ok db"
  using assms refund_sums_cong [OF assms(2)] by (simp add: orders_ok_def order_ok_def)

lemma payment_entries_append:
  assumes "entries db' = entries db @ es"
  shows "payment_entries i db' = payment_entries i db @ filter (\<lambda>(_, _, _, r). r = ''payment:'' @ i) es"
  using assms by (simp add: payment_entries_def)

lemma posts_quietly_entries:
  assumes "posts_quietly db db'" "wallet_inv db"
  shows "payment_entries i db' = payment_entries i db"
proof -
  obtain es where e: "entries db' = entries db @ es" "\<forall>(u, d, k, r) \<in> set es. \<not> payment_ref r"
    using assms by (auto simp: posts_quietly_def posts_def)
  have "filter (\<lambda>(_, _, _, r). r = ''payment:'' @ i) es = []"
    using e(2) by (auto simp: filter_empty_conv payment_ref_def)
  then show ?thesis by (simp add: payment_entries_append [OF e(1)])
qed

text \<open>What the money side and the orders have in common, and the quota side.\<close>

definition books :: "cdb \<Rightarrow> bool" where
  "books db \<longleftrightarrow> wallet_inv db \<and> amounts_ok db \<and> quota_inv db \<and> orders_ok db"

lemma booksD: "books db \<Longrightarrow> wallet_inv db" "books db \<Longrightarrow> amounts_ok db" "books db \<Longrightarrow> quota_inv db" "books db \<Longrightarrow> orders_ok db"
  by (auto simp: books_def)

lemma keeps_books:
  assumes k: "keeps db db'" and b: "books db"
  shows "books db'"
proof -
  note B = booksD [OF b]
  have K: "amounts_ok db'" "quota_inv db'" "db_orders db' = db_orders db" "db_refunds db' = db_refunds db" "posts_quietly db db'"
    using k B by (auto simp: keeps_def)
  have "wallet_inv db'" using K(5) B(1) by (auto simp: posts_quietly_def posts_def)
  moreover have "orders_ok db'" using orders_ok_cong [OF K(3,4) posts_quietly_entries [OF K(5) B(1)]] B(4) by simp
  ultimately show ?thesis using K(1,2) by (simp add: books_def)
qed

section \<open>Changing one order\<close>

text \<open>Everything outside the orders, the refunds and their schedules is as before.\<close>

definition order_frame :: "cdb \<Rightarrow> cdb \<Rightarrow> bool" where
  "order_frame db db' \<longleftrightarrow> db_wallets db' = db_wallets db \<and> db_journal db' = db_journal db \<and> db_accounts db' = db_accounts db
     \<and> db_sources db' = db_sources db \<and> db_allocs db' = db_allocs db \<and> db_plans db' = db_plans db
     \<and> db_commissions db' = db_commissions db \<and> db_comRefunds db' = db_comRefunds db \<and> db_rate db' = db_rate db
     \<and> db_ents db' = db_ents db \<and> db_leases db' = db_leases db \<and> db_res db' = db_res db \<and> db_usage db' = db_usage db"

lemma order_frame_books:
  assumes f: "order_frame db db'" and b: "books db"
    and a: "all_rows (\<lambda>r. 0 < or_Amount r) (db_orders db')" "all_rows (\<lambda>r. 0 < rf_Amount r) (db_refunds db')"
    and o: "orders_ok db'"
  shows "books db'"
proof -
  note B = booksD [OF b]
  have "wallet_inv db' = wallet_inv db" using f by (intro wallet_inv_cong(1)) (simp_all add: order_frame_def)
  moreover have "quota_inv db' = quota_inv db" using f by (intro quota_inv_cong) (simp_all add: order_frame_def)
  ultimately show ?thesis using B f a o by (simp add: books_def amounts_ok_def order_frame_def)
qed

lemma order_frame_entries: "order_frame db db' \<Longrightarrow> payment_entries i db' = payment_entries i db"
  by (simp add: order_frame_def payment_entries_def entries_def)

lemma all_orders: "books db \<Longrightarrow> all_rows (\<lambda>r. 0 < or_Amount r) (db_orders db)"
  and all_refunds: "books db \<Longrightarrow> all_rows (\<lambda>r. 0 < rf_Amount r) (db_refunds db)"
  by (auto simp: books_def amounts_ok_def)

lemma put_order_books:
  assumes b: "books db" and f: "order_frame db db'" and d: "db_orders db' = put i r (db_orders db)" "db_refunds db' = db_refunds db"
    and r: "0 < or_Amount r" "order_ok db i r"
    and u: "\<And>j q t. map_of (db_orders db) j = Some q \<Longrightarrow> j \<noteq> i \<Longrightarrow> or_Channel q = or_Channel r \<Longrightarrow> or_Tx r = Some t \<Longrightarrow> or_Tx q \<noteq> Some t"
  shows "books db'"
proof (rule order_frame_books [OF f b])
  note O = orders_okD [OF booksD(4) [OF b]]
  note E = order_frame_entries [OF f] and S = refund_sums_cong [OF d(2)]
  show "all_rows (\<lambda>r. 0 < or_Amount r) (db_orders db')" using all_orders [OF b] r(1) by (auto simp: d)
  show "all_rows (\<lambda>r. 0 < rf_Amount r) (db_refunds db')" using all_refunds [OF b] by (simp add: d)
  have ok: "order_ok db' j q = order_ok db j q" for j q by (rule order_ok_cong) (simp_all add: E S)
  have "tx_unique (db_orders db')"
    unfolding tx_unique_def d(1) using O(5) [unfolded tx_unique_def] u by (auto split: if_splits)
  moreover have "order_ok db' j q" if "map_of (db_orders db') j = Some q" for j q
    using that O(3) [of j q] r(2) by (auto simp: d ok split: if_splits)
  ultimately show "orders_ok db'" using O(1,2,4,6) by (auto simp: orders_ok_def d E)
qed

text \<open>A new order, which nothing refers to.\<close>

lemma no_refunds:
  assumes "books db" "map_of (db_orders db) i = None"
  shows "reserved_refunds i db = 0" "completed_refunds i db = 0"
proof -
  note O = orders_okD [OF booksD(4) [OF assms(1)]]
  have "rf_Order f \<noteq> i" if "map_of (db_refunds db) j = Some f" for j f using O(4) [OF that] assms(2) by (auto simp: has_def)
  then show "reserved_refunds i db = 0" "completed_refunds i db = 0"
    unfolding reserved_refunds_def completed_refunds_def by (auto intro!: gsum_absent [OF O(2)])
qed

lemma insert_order_books:
  assumes b: "books db" and f: "order_frame db db'" and n: "map_of (db_orders db) i = None" "0 < amount"
    and d: "db_orders db' = put i (new_order v user ch key amount payable url) (db_orders db)" "db_refunds db' = db_refunds db"
  shows "books db'"
proof (rule put_order_books [OF b f d])
  note O = orders_okD [OF booksD(4) [OF b]]
  have "payment_entries i db = []" using O(6) [of i] n(1) by (auto simp: has_def)
  then show "order_ok db i (new_order v user ch key amount payable url)"
    using no_refunds [OF b n(1)] n(2) by (simp add: order_ok_def new_order_def is_settled_def is_payable_def)
qed (use n in \<open>auto simp: new_order_def\<close>)


section \<open>Each order handler\<close>

lemma order_frame_refl [simp]: "order_frame db db"
  by (simp add: order_frame_def)

lemma order_frame_trans [trans]: "order_frame a b \<Longrightarrow> order_frame b c \<Longrightarrow> order_frame a c"
  by (simp add: order_frame_def)

lemma order_frame_upd [simp]:
  "order_frame db (db\<lparr>db_orders := a\<rparr>)" "order_frame db (db\<lparr>db_attempts := b\<rparr>)" "order_frame db (db\<lparr>db_schedules := c\<rparr>)"
  "order_frame db (db\<lparr>db_refunds := d\<rparr>)" "order_frame db (db\<lparr>db_drawn := e\<rparr>)"
  by (simp_all add: order_frame_def)

lemma books_walletTx: "books db \<Longrightarrow> books (snd (walletTx u db))"
  using keeps_books [OF keeps_walletTx] .

lemma books_order_frame:
  assumes "books db" "order_frame db db'" "db_orders db' = db_orders db" "db_refunds db' = db_refunds db"
  shows "books db'"
  using order_frame_books [OF assms(2,1)] all_orders [OF assms(1)] all_refunds [OF assms(1)]
    orders_ok_cong [OF assms(3,4) order_frame_entries [OF assms(2)]] booksD(4) [OF assms(1)] assms(3,4) by simp

lemma scheduleReconciliation_frame:
  "scheduleReconciliation v i db = Inr db' \<Longrightarrow> order_frame db db' \<and> db_orders db' = db_orders db \<and> db_refunds db' = db_refunds db"
  by (auto simp: scheduleReconciliation_def bindE_eq_Inr)

lemma insert_attempt_frame:
  "insert_attempt i st db = Inr db' \<Longrightarrow> order_frame db db' \<and> db_orders db' = db_orders db \<and> db_refunds db' = db_refunds db"
  by (auto simp: insert_attempt_def bindE_eq_Inr)

lemma insert_order_eq:
  "insert_order i r db = Inr db' \<longleftrightarrow> map_of (db_orders db) i = None \<and> db' = db\<lparr>db_orders := put i r (db_orders db)\<rparr>"
  by (auto simp: insert_order_def bindE_eq_Inr)

lemma CreateOrder_books:
  assumes r: "CreateOrder v allowed gateway user ch key amount db = Inr (x, db')" and b: "books db"
  shows "books db'"
proof -
  let ?db = "snd (walletTx user db)" and ?i = "ev_ids v (db_drawn (snd (walletTx user db)))"
  let ?db1 = "?db\<lparr>db_drawn := Suc (db_drawn ?db)\<rparr>"
  note b' = books_walletTx [OF b, of user]
  show ?thesis
  proof (cases "db' = ?db")
    case False
    then obtain url db2 where s: "0 < amount" "insert_order ?i (new_order v user ch key amount amount url) ?db1 = Inr db2"
      "scheduleReconciliation v ?i db2 = Inr db'"
      using r by (auto simp: CreateOrder_def draw_def Let_def bindE_eq_Inr split: option.splits if_splits)
    then have i: "map_of (db_orders ?db) ?i = None" "db2 = ?db1\<lparr>db_orders := put ?i (new_order v user ch key amount amount url) (db_orders ?db)\<rparr>"
      by (auto simp: insert_order_eq)
    note F = scheduleReconciliation_frame [OF s(3)]
    have "order_frame ?db ?db1" by (rule order_frame_upd)
    also have "order_frame ?db1 db2" unfolding i(2) by (rule order_frame_upd)
    also have "order_frame db2 db'" using F by blast
    finally have f: "order_frame ?db db'" .
    show ?thesis by (rule insert_order_books [OF b' f i(1) s(1)]) (use F i(2) in auto)
  qed (use b' in simp)
qed

lemma begin_order_books:
  assumes r: "begin_order v allowed c user ch key amount db = Inr (x, db')" and b: "books db"
  shows "books db'"
proof -
  let ?db = "snd (walletTx user db)" and ?i = "ev_ids v (db_drawn (snd (walletTx user db)))"
  let ?db1 = "?db\<lparr>db_drawn := Suc (db_drawn ?db)\<rparr>" and ?o = "new_order v user ch key amount (fst (Quote c amount)) ''''"
  note b' = books_walletTx [OF b, of user]
  show ?thesis
  proof (cases "db' = ?db")
    case False
    then obtain db2 db3 where s: "0 < amount" "insert_order ?i ?o ?db1 = Inr db2" "insert_attempt ?i ''creating'' db2 = Inr db3"
      "scheduleReconciliation v ?i db3 = Inr db'"
      using r by (auto simp: begin_order_def draw_def Let_def bindE_eq_Inr case_prod_beta split: option.splits if_splits)
    then have i: "map_of (db_orders ?db) ?i = None" "db2 = ?db1\<lparr>db_orders := put ?i ?o (db_orders ?db)\<rparr>"
      by (auto simp: insert_order_eq)
    note F = scheduleReconciliation_frame [OF s(4)] insert_attempt_frame [OF s(3)]
    have "order_frame ?db ?db1" by (rule order_frame_upd)
    also have "order_frame ?db1 db2" unfolding i(2) by (rule order_frame_upd)
    also have "order_frame db2 db3" using F by blast
    also have "order_frame db3 db'" using F by blast
    finally have f: "order_frame ?db db'" .
    show ?thesis by (rule insert_order_books [OF b' f i(1) s(1)]) (use F i(2) in auto)
  qed (use b' in simp)
qed

lemma CreateManualOrder_books:
  assumes r: "CreateManualOrder v allowed user ch key amount address db = Inr (x, db')" and b: "books db"
  shows "books db'"
proof -
  let ?db = "snd (walletTx user db)" and ?i = "ev_ids v (db_drawn (snd (walletTx user db)))"
  let ?db1 = "?db\<lparr>db_drawn := Suc (db_drawn ?db)\<rparr>" and ?o = "new_order v user ch key amount amount address"
  note b' = books_walletTx [OF b, of user]
  show ?thesis
  proof (cases "db' = ?db")
    case False
    then obtain db2 where s: "0 < amount" "insert_order ?i ?o ?db1 = Inr db2" "insert_attempt ?i ''manual'' db2 = Inr db'"
      using r by (auto simp: CreateManualOrder_def CreateManualOrderAtomic_def draw_def Let_def bindE_eq_Inr split: option.splits if_splits)
    then have i: "map_of (db_orders ?db) ?i = None" "db2 = ?db1\<lparr>db_orders := put ?i ?o (db_orders ?db)\<rparr>"
      by (auto simp: insert_order_eq)
    note F = insert_attempt_frame [OF s(3)]
    have "order_frame ?db ?db1" by (rule order_frame_upd)
    also have "order_frame ?db1 db2" unfolding i(2) by (rule order_frame_upd)
    also have "order_frame db2 db'" using F by blast
    finally have f: "order_frame ?db db'" .
    show ?thesis by (rule insert_order_books [OF b' f i(1) s(1)]) (use F i(2) in auto)
  qed (use b' in simp)
qed

text \<open>A change to an order that does not affect what was paid and refunded.\<close>

lemma touch_order_books:
  assumes b: "books db" and f: "order_frame db db'" and d: "db_orders db' = put i r' (db_orders db)" "db_refunds db' = db_refunds db"
    and r: "map_of (db_orders db) i = Some r" "or_User r' = or_User r" "or_Amount r' = or_Amount r" "or_Channel r' = or_Channel r"
      "or_Tx r' = or_Tx r" "or_Status r' = or_Status r \<or> or_Status r = ''pending'' \<and> or_Status r' = ''closed''"
  shows "books db'"
proof (rule put_order_books [OF b f d])
  note O = orders_okD [OF booksD(4) [OF b]]
  show "0 < or_Amount r'" using amounts_okD(1) [OF booksD(2) [OF b] r(1)] r(3) by simp
  have st: "is_settled (or_Status r') = is_settled (or_Status r)" "is_payable (or_Status r') = is_payable (or_Status r)"
    "(or_Status r' = ''refunded'') = (or_Status r = ''refunded'')"
    using r(6) by (auto simp: is_settled_def is_payable_def)
  show "order_ok db i r'" using O(3) [OF r(1)] unfolding order_ok_def st r(2,3,5) .
  fix j q t assume "map_of (db_orders db) j = Some q" "j \<noteq> i" "or_Channel q = or_Channel r'" "or_Tx r' = Some t"
  then show "or_Tx q \<noteq> Some t" using O(5) [unfolded tx_unique_def, rule_format, of i r j q t] r by simp
qed

lemma finish_order_books:
  assumes b: "books db"
  shows "books (finish_order i res db)"
proof -
  let ?db1 = "case map_of (db_attempts db) i of None \<Rightarrow> db
             | Some _ \<Rightarrow> db\<lparr>db_attempts := put i \<lparr>at_State = (case res of None \<Rightarrow> ''uncertain'' | Some _ \<Rightarrow> ''ready''),
                 at_Provider = (case res of None \<Rightarrow> '''' | Some r \<Rightarrow> cd_Tx r)\<rparr> (db_attempts db)\<rparr>"
  have f: "order_frame db ?db1" "db_orders ?db1 = db_orders db" "db_refunds ?db1 = db_refunds db" by (auto split: option.splits)
  have b1: "books ?db1" by (rule books_order_frame [OF b f])
  consider "finish_order i res db = ?db1"
    | r r' where "res = Some r" "map_of (db_orders ?db1) i = Some r'"
      "finish_order i res db = ?db1\<lparr>db_orders := put i (r'\<lparr>or_URL := cd_URL r\<rparr>) (db_orders ?db1)\<rparr>"
    unfolding finish_order_def Let_def by (cases res; cases "map_of (db_orders ?db1) i") auto
  then show ?thesis
  proof cases
    case 2
    show ?thesis unfolding 2(3) by (rule touch_order_books [OF b1 _ _ _ 2(2), where r' = "r'\<lparr>or_URL := cd_URL r\<rparr>"]) simp_all
  qed (use b1 in simp)
qed

lemma CloseOrder_books:
  assumes r: "CloseOrder user i db = Inr (x, db')" and b: "books db"
  shows "books db'"
proof (cases "db' = db")
  case False
  then obtain r' where s: "map_of (db_orders db) i = Some r'" "or_Status r' = ''pending''"
    "db' = db\<lparr>db_orders := put i (r'\<lparr>or_Status := ''closed''\<rparr>) (db_orders db)\<rparr>"
    using r by (auto simp: CloseOrder_def set_order_def Let_def bindE_eq_Inr split: if_splits)
  show ?thesis unfolding s(3) by (rule touch_order_books [OF b _ _ _ s(1), where r' = "r'\<lparr>or_Status := ''closed''\<rparr>"]) (simp_all add: s(2))
qed (use b in simp)


lemma ConfirmPaymentTx_cases:
  assumes r: "ConfirmPaymentTx v ch order tx amount db = Inr db'"
  obtains o0 where "map_of (db_orders db) order = Some o0" "is_settled (or_Status o0)" "or_Tx o0 = Some tx \<or> or_Tx o0 = None" "db' = db"
  | o0 db1 r' where "map_of (db_orders db) order = Some o0" "\<not> is_settled (or_Status o0)" "is_payable (or_Status o0)" "or_Channel o0 = ch"
    "amount = (if or_Payable o0 \<le> 0 then or_Amount o0 else or_Payable o0)"
    "\<And>j q. map_of (db_orders db) j = Some q \<Longrightarrow> or_Channel q = ch \<Longrightarrow> or_Tx q \<noteq> Some tx"
    "post v (or_User o0) (or_Amount o0) ''recharge'' (''payment:'' @ order) db = Inr db1"
    "r' = o0\<lparr>or_Status := (if or_Status o0 = ''pending'' then ''paid'' else ''paid_late''), or_Tx := Some tx\<rparr>"
    "db' = db1\<lparr>db_orders := put order r' (db_orders db1), db_schedules := del order (db_schedules db1)\<rparr>"
proof -
  obtain o0 where o: "map_of (db_orders db) order = Some o0" using r by (auto simp: ConfirmPaymentTx_def bindE_eq_Inr split: if_splits)
  show thesis
  proof (cases "is_settled (or_Status o0)")
    case True
    then show thesis using r o that(1) by (auto simp: ConfirmPaymentTx_def row_def Let_def split: if_splits option.splits)
  next
    case False
    then obtain db1 where s: "or_Channel o0 = ch" "amount = (if or_Payable o0 \<le> 0 then or_Amount o0 else or_Payable o0)"
      "is_payable (or_Status o0)" "\<not> list_ex (\<lambda>(_, p). or_Channel p = ch \<and> or_Tx p = Some tx) (db_orders db)"
      "post v (or_User o0) (or_Amount o0) ''recharge'' (''payment:'' @ order) db = Inr db1"
      "db' = (set_order order (\<lambda>r. r\<lparr>or_Status := (if or_Status o0 = ''pending'' then ''paid'' else ''paid_late''), or_Tx := Some tx\<rparr>) db1)
         \<lparr>db_schedules := del order (db_schedules (set_order order (\<lambda>r. r\<lparr>or_Status :=
           (if or_Status o0 = ''pending'' then ''paid'' else ''paid_late''), or_Tx := Some tx\<rparr>) db1))\<rparr>"
      using r o by (auto simp: ConfirmPaymentTx_def row_def Let_def bindE_eq_Inr split: if_splits option.splits)
    have "map_of (db_orders db1) order = Some o0" using rest_sel(8) [OF post_rest [OF s(5)]] o by simp
    then have d: "db' = db1\<lparr>db_orders := put order (o0\<lparr>or_Status := (if or_Status o0 = ''pending'' then ''paid'' else ''paid_late''),
        or_Tx := Some tx\<rparr>) (db_orders db1), db_schedules := del order (db_schedules db1)\<rparr>"
      by (simp add: s(6) set_order_def)
    have "or_Tx q \<noteq> Some tx" if "map_of (db_orders db) j = Some q" "or_Channel q = ch" for j q
      using s(4) map_of_SomeD [OF that(1)] that(2) by (auto simp: list_ex_iff)
    then show thesis using that(2) [OF o False s(3,1,2) _ s(5) refl d] by blast
  qed
qed

text \<open>The state between the posting and the update of the order: the entry of this order is there already.\<close>

lemma recharge_books:
  assumes b: "books db" and o: "map_of (db_orders db) i = Some o0" "\<not> is_settled (or_Status o0)"
    and p: "post v (or_User o0) (or_Amount o0) ''recharge'' (''payment:'' @ i) db = Inr db1"
    and r: "r' = o0\<lparr>or_Status := st, or_Tx := Some tx\<rparr>" "st = ''paid'' \<or> st = ''paid_late''"
    and u: "\<And>j q. map_of (db_orders db) j = Some q \<Longrightarrow> or_Channel q = or_Channel o0 \<Longrightarrow> or_Tx q \<noteq> Some tx"
    and d: "order_frame db1 db'" "db_orders db' = put i r' (db_orders db1)" "db_refunds db' = db_refunds db1"
  shows "books db'"
proof -
  note B = booksD [OF b] and S = rest_sel [OF post_rest [OF p]]
  note O = orders_okD [OF B(4)]
  have pos: "0 < or_Amount o0" by (rule amounts_okD(1) [OF B(2) o(1)])
  have "posts db [(or_User o0, or_Amount o0, ''recharge'', ''payment:'' @ i)] db1" by (rule posts_post [OF p]) (use pos in \<open>simp add: min_int64_def\<close>)
  then have w: "wallet_inv db1" and e: "entries db1 = entries db @ [(or_User o0, or_Amount o0, ''recharge'', ''payment:'' @ i)]"
    using B(1) by (auto simp: posts_def)
  have "wallet_inv db' = wallet_inv db1" using d(1) by (intro wallet_inv_cong(1)) (simp_all add: order_frame_def)
  then have w': "wallet_inv db'" using w by simp
  have q': "quota_inv db'" using B(3) quota_inv_cong [of db' db] d(1) S by (simp add: order_frame_def)
  have a': "amounts_ok db'"
    using B(2) d S pos r(1) by (auto simp: amounts_ok_def order_frame_def)
  have E: "payment_entries j db' = payment_entries j db @ (if j = i then [(or_User o0, or_Amount o0, ''recharge'', ''payment:'' @ i)] else [])" for j
    using order_frame_entries [OF d(1), of j] payment_entries_append [OF e, of j] by auto
  have R: "reserved_refunds j db' = reserved_refunds j db" "completed_refunds j db' = completed_refunds j db" for j
    using d(3) S by (simp_all add: reserved_refunds_def completed_refunds_def)
  have K: "order_ok db i o0" by (rule O(3) [OF o(1)])
  have nn: "completed_refunds i db \<le> reserved_refunds i db"
    unfolding completed_refunds_def reserved_refunds_def
    by (rule am.total_mono [OF O(2)]) (use amounts_okD(2) [OF B(2)] in force)
  have "is_settled st" "st \<noteq> ''refunded''" using r(2) by (auto simp: is_settled_def)
  then have "order_ok db' i r'"
    using K o(2) pos nn by (auto simp: order_ok_def r(1) E R)
  moreover have "order_ok db' j q" if "map_of (db_orders db) j = Some q" "j \<noteq> i" for j q
    using O(3) [OF that(1)] order_ok_cong [OF _ R, of j] that(2) by (simp add: E)
  ultimately have all: "order_ok db' j q" if "map_of (db_orders db') j = Some q" for j q
    using that S by (auto simp: d(2) split: if_splits)
  have tx: "tx_unique (db_orders db')"
    unfolding tx_unique_def d(2) using O(5) [unfolded tx_unique_def] u S by (auto simp: r(1) split: if_splits)
  have "orders_ok db'"
    unfolding orders_ok_def
  proof (intro conjI allI impI)
    show "distinct_keys (db_orders db')" "distinct_keys (db_refunds db')" using O(1,2) d S by simp_all
    show "\<And>j f. map_of (db_refunds db') j = Some f \<Longrightarrow> has (db_orders db') (rf_Order f)" using O(4) d S by simp
    show "\<And>j. payment_entries j db' \<noteq> [] \<Longrightarrow> has (db_orders db') j" using O(6) d S by (auto simp: E split: if_splits)
  qed (use all tx in auto)
  then show ?thesis using w' q' a' by (simp add: books_def)
qed

lemma ConfirmPaymentTx_books:
  assumes r: "ConfirmPaymentTx v ch order tx amount db = Inr db'" and b: "books db"
  shows "books db'"
  using r
proof (cases rule: ConfirmPaymentTx_cases)
  case (2 o0 db1 r')
  show ?thesis
    by (rule recharge_books [OF b 2(1,2,7) 2(8)]) (use 2(4,6,9) in \<open>auto simp: order_frame_def\<close>)
qed (use b in simp)


lemma ConfirmStatus_books: "ConfirmStatus v ch s db = Inr db' \<Longrightarrow> books db \<Longrightarrow> books db'"
  by (auto simp: ConfirmStatus_def ConfirmPayment_def Let_def bindE_eq_Inr split: if_splits intro: ConfirmPaymentTx_books)

lemma ReconcileOrder_result:
  assumes "ReconcileOrder v channels user i db = (res, db')"
  shows "db' = db \<or> (\<exists>ch s. ConfirmStatus v ch s db = Inr db')"
proof (cases "map_of (db_orders db) i")
  case None
  then show ?thesis using assms by (simp add: ReconcileOrder_def)
next
  case (Some o0)
  let ?c = "case map_of channels (or_Channel o0) of None \<Rightarrow> no_channel | Some c \<Rightarrow> c"
  let ?p = "case map_of (db_attempts db) i of None \<Rightarrow> '''' | Some a \<Rightarrow> at_Provider a"
  show ?thesis
  proof (cases "ch_Adapter ?c")
    case None
    then show ?thesis using assms Some by (auto simp: ReconcileOrder_def Let_def split: if_splits)
  next
    case (Some a)
    note a = this
    show ?thesis
    proof (cases "ad_Query a i ?p")
      case None
      then show ?thesis using assms a \<open>map_of (db_orders db) i = Some o0\<close> by (auto simp: ReconcileOrder_def Let_def split: if_splits)
    next
      case (Some s)
      then show ?thesis using assms a \<open>map_of (db_orders db) i = Some o0\<close>
        by (cases "ConfirmStatus v (or_Channel o0) s db") (auto simp: ReconcileOrder_def Let_def split: if_splits option.splits)
    qed
  qed
qed

lemma ReconcileOrder_books: "ReconcileOrder v channels user i db = (res, db') \<Longrightarrow> books db \<Longrightarrow> books db'"
  using ReconcileOrder_result ConfirmStatus_books by blast

lemma claim_order_books:
  assumes "claim_order v i n db = Inr (c, db')" "books db"
  shows "books db'"
  using assms(1) by (intro books_order_frame [OF assms(2)])
    (auto simp: claim_order_def Let_def bindE_eq_Inr split: if_splits option.splits)

lemma reconcile_loop_books:
  "reconcile_loop v channels due n fs db = (res, db') \<Longrightarrow> books db \<Longrightarrow> books db'"
proof (induction due arbitrary: n fs db)
  case (Cons d due)
  obtain i user a where d: "d = (i, user, a)" by (cases d) auto
  show ?case
  proof (cases "claim_order v i a db")
    case (Inl e)
    with Cons.prems show ?thesis by (simp add: d)
  next
    case (Inr x)
    obtain c db1 where x: "x = (c, db1)" by (cases x)
    have b1: "books db1" using claim_order_books Cons.prems(2) Inr x by blast
    obtain res2 db2 where rc: "ReconcileOrder v channels user i db1 = (res2, db2)" by fastforce
    have b2: "books db2" using ReconcileOrder_books [OF rc b1] .
    show ?thesis
      using Cons.prems(1) Inr x rc Cons.IH b1 b2 by (cases c; cases res2) (auto simp: d)
  qed
qed simp

lemma repair_loop_books: "repair_loop is db = Inr db' \<Longrightarrow> books db \<Longrightarrow> books db'"
proof (induction "is" db rule: repair_loop.induct)
  case (2 i "is" db)
  then obtain o0 where o: "map_of (db_orders db) i = Some o0" by (auto simp: bindE_eq_Inr)
  show ?case
  proof (cases "\<not> is_payable (or_Status o0) \<or> has (db_schedules db) i")
    case True
    then show ?thesis using 2 o by (auto simp: row_def)
  next
    case False
    have "books (db\<lparr>db_schedules := put i \<lparr>sc_Attempts = 0, sc_NextAt = 0\<rparr> (db_schedules db)\<rparr>)"
      by (rule books_order_frame [OF 2(4)]) simp_all
    then show ?thesis using 2 o False by (auto simp: row_def)
  qed
qed simp

lemma ReconcilePending_books: "ReconcilePending v channels limit db = (res, db') \<Longrightarrow> books db \<Longrightarrow> books db'"
  by (auto simp: ReconcilePending_def repairReconciliation_def Let_def split: if_splits sum.splits
      intro: reconcile_loop_books repair_loop_books)

section \<open>Refunds\<close>

lemma refund_sums_put:
  assumes "distinct_keys (db_refunds db)" "db_refunds db' = put i f (db_refunds db)"
  shows "reserved_refunds j db' = reserved_refunds j db + (if rf_Order f = j \<and> rf_Status f \<noteq> ''canceled'' then rf_Amount f else 0)
      - (case map_of (db_refunds db) i of None \<Rightarrow> 0 | Some g \<Rightarrow> if rf_Order g = j \<and> rf_Status g \<noteq> ''canceled'' then rf_Amount g else 0)"
    "completed_refunds j db' = completed_refunds j db + (if rf_Order f = j \<and> rf_Status f = ''completed'' then rf_Amount f else 0)
      - (case map_of (db_refunds db) i of None \<Rightarrow> 0 | Some g \<Rightarrow> if rf_Order g = j \<and> rf_Status g = ''completed'' then rf_Amount g else 0)"
  using assms by (simp_all add: reserved_refunds_def completed_refunds_def am.total_put split: option.splits)

text \<open>A change of one refund and the status of its order.\<close>

lemma refund_books:
  assumes b: "books db" and f: "order_frame db db'" and d: "db_refunds db' = put i f (db_refunds db)" "0 < rf_Amount f"
    and o: "map_of (db_orders db) (rf_Order f) = Some od" "distinct_keys (db_orders db')"
      "map_of (db_orders db') = (map_of (db_orders db))(rf_Order f \<mapsto> od\<lparr>or_Status := st\<rparr>)"
    and s: "is_settled (or_Status od)" "is_settled st" "reserved_refunds (rf_Order f) db' \<le> or_Amount od"
      "st = ''refunded'' \<longleftrightarrow> completed_refunds (rf_Order f) db' = or_Amount od"
    and old: "\<And>g. map_of (db_refunds db) i = Some g \<Longrightarrow> rf_Order g = rf_Order f"
    and amt: "all_rows (\<lambda>r. 0 < or_Amount r) (db_orders db')"
  shows "books db'"
proof (rule order_frame_books [OF f b amt])
  note O = orders_okD [OF booksD(4) [OF b]] and E = order_frame_entries [OF f]
  show "all_rows (\<lambda>r. 0 < rf_Amount r) (db_refunds db')" using all_refunds [OF b] d by auto
  have K: "order_ok db (rf_Order f) od" by (rule O(3) [OF o(1)])
  have new: "order_ok db' (rf_Order f) (od\<lparr>or_Status := st\<rparr>)"
    using K s by (simp add: order_ok_def E)
  have "order_ok db' j q" if q: "map_of (db_orders db') j = Some q" for j q
  proof (cases "j = rf_Order f")
    case True
    then show ?thesis using q new o(3) by simp
  next
    case False
    have g: "rf_Order g \<noteq> j" if "map_of (db_refunds db) i = Some g" for g using old [OF that] False by simp
    have "reserved_refunds j db' = reserved_refunds j db" "completed_refunds j db' = completed_refunds j db"
      using refund_sums_put [OF O(2) d(1), of j] False g by (cases "map_of (db_refunds db) i"; simp)+
    moreover have "order_ok db j q" using q False o(3) by (intro O(3)) simp
    ultimately show ?thesis using order_ok_cong [OF E] by simp
  qed
  moreover have "tx_unique (db_orders db')"
    unfolding tx_unique_def
  proof (intro allI impI)
    fix a c r q t
    assume x: "map_of (db_orders db') a = Some r" "map_of (db_orders db') c = Some q" "a \<noteq> c" "or_Channel r = or_Channel q" "or_Tx r = Some t"
    obtain r0 q0 where y: "map_of (db_orders db) a = Some r0" "map_of (db_orders db) c = Some q0"
      "or_Channel r0 = or_Channel r" "or_Tx r0 = or_Tx r" "or_Channel q0 = or_Channel q" "or_Tx q0 = or_Tx q"
      using x(1,2) o(1,3) by (auto split: if_splits)
    then show "or_Tx q \<noteq> Some t" using O(5) [unfolded tx_unique_def, rule_format, OF y(1,2) x(3)] x(4,5) by simp
  qed
  moreover have "has (db_orders db') k = has (db_orders db) k" for k using o(1,3) by (simp add: has_def)
  moreover have "has (db_orders db) (rf_Order f)" using o(1) by (simp add: has_def)
  ultimately show "orders_ok db'" using O(2,4,6) o(2) d(1) by (auto simp: orders_ok_def E split: if_splits)
qed


lemma RequestRefund_books:
  assumes r: "RequestRefund v actor order key reason amount db = Inr (x, db')" and b: "books db" and n: "amount \<le> max_int64"
  shows "books db'"
proof (cases "db' = db")
  case False
  let ?i = "ev_ids v (db_drawn db)" and ?db1 = "db\<lparr>db_drawn := Suc (db_drawn db)\<rparr>"
  obtain o0 where o: "map_of (db_orders db) order = Some o0"
    using r by (auto simp: RequestRefund_def bindE_eq_Inr split: if_splits)
  let ?f = "\<lparr>rf_Order = order, rf_User = or_User o0, rf_Amount = amount, rf_Status = ''pending_external'',
                          rf_Reason = reason, rf_Actor = actor, rf_Key = key, rf_Evidence = '''', rf_ResolvedBy = ''''\<rparr>"
  let ?db2 = "?db1\<lparr>db_refunds := put ?i ?f (db_refunds db)\<rparr>"
  have s: "0 < amount" "or_Status o0 = ''paid'' \<or> or_Status o0 = ''paid_late'' \<or> or_Status o0 = ''partially_refunded''"
    "amount \<le> or_Amount o0 - reserved_refunds order db" "map_of (db_refunds db) ?i = None"
    "post v (or_User o0) (- amount) ''refund_reserve'' (''refund-reserve:'' @ ?i) ?db2 = Inr db'"
    using r o False by (auto simp: RequestRefund_def row_def draw_def Let_def bindE_eq_Inr split: if_splits option.splits)
  note O = orders_okD [OF booksD(4) [OF b]]
  have st: "is_settled (or_Status o0)" "or_Status o0 \<noteq> ''refunded''" using s(2) by (auto simp: is_settled_def)
  have sums: "reserved_refunds order ?db2 = reserved_refunds order db + amount" "completed_refunds order ?db2 = completed_refunds order db"
    using refund_sums_put [OF O(2), of ?db2 ?i ?f order] s(4) by simp_all
  have "books ?db2"
  proof (rule refund_books [OF b, where f = ?f and od = o0 and st = "or_Status o0"])
    show "or_Status o0 = ''refunded'' \<longleftrightarrow> completed_refunds (rf_Order ?f) ?db2 = or_Amount o0"
      using O(3) [OF o] sums by (simp add: order_ok_def)
    show "map_of (db_orders ?db2) = (map_of (db_orders db))(rf_Order ?f \<mapsto> o0\<lparr>or_Status := or_Status o0\<rparr>)"
      using o by (simp add: fun_upd_idem)
  qed (use s o st sums O(1) all_orders [OF b] in \<open>auto simp: order_frame_def\<close>)
  moreover have "keeps ?db2 db'"
    by (rule keeps_post [OF s(5)]) (use n in \<open>simp_all add: payment_ref_def min_int64_def max_int64_def\<close>)
  ultimately show ?thesis by (rule keeps_books [rotated])
qed (use b in simp)

lemma ResolveRefund_books:
  assumes r: "ResolveRefund v actor i evidence completed db = Inr (x, db')" and b: "books db"
  shows "books db'"
proof (cases "db' = db")
  case False
  obtain f o0 where o: "map_of (db_refunds db) i = Some f" "map_of (db_orders db) (rf_Order f) = Some o0"
    using r by (auto simp: ResolveRefund_def bindE_eq_Inr split: if_splits)
  let ?st = "if completed then ''completed'' else ''canceled''"
  let ?f = "f\<lparr>rf_Status := ?st, rf_Evidence := evidence, rf_ResolvedBy := actor\<rparr>"
  obtain db1 where s: "rf_Status f = ''pending_external''"
    "(if completed then Inr db else post v (or_User o0) (rf_Amount f) ''refund_release'' (''refund-release:'' @ i) db) = Inr db1"
    "(let db2 = db1\<lparr>db_refunds := put i ?f (db_refunds db1)\<rparr>;
          db3 = (if completed then set_order (rf_Order f)
                       (\<lambda>p. p\<lparr>or_Status := (if completed_refunds (rf_Order f) db2 = or_Amount o0 then ''refunded''
                              else ''partially_refunded'')\<rparr>) db2 else db2)
      in emitEventTx v (or_User o0) (''refund.'' @ ?st) [(''refund_id'', JStr i), (''order_id'', JStr (rf_Order f))] db3) = Inr db'"
    using r o False by (auto simp: ResolveRefund_def row_def Let_def bindE_eq_Inr split: if_splits)
  have pos: "0 < rf_Amount f" by (rule amounts_okD(2) [OF booksD(2) [OF b] o(1)])
  have "keeps db db1"
    using s(2) pos by (auto simp: payment_ref_def min_int64_def intro: keeps_post split: if_splits)
  then have b1: "books db1" using b by (rule keeps_books)
  have "rest db1 = rest db" using s(2) by (auto dest: post_rest split: if_splits)
  note S = rest_sel [OF this]
  note O = orders_okD [OF booksD(4) [OF b1]]
  have o1: "map_of (db_refunds db1) i = Some f" "map_of (db_orders db1) (rf_Order f) = Some o0" using o S by simp_all
  note K = O(3) [OF o1(2)]
  let ?db2 = "db1\<lparr>db_refunds := put i ?f (db_refunds db1)\<rparr>"
  let ?new = "if completed then (if completed_refunds (rf_Order f) ?db2 = or_Amount o0 then ''refunded'' else ''partially_refunded'') else or_Status o0"
  define db3 where "db3 = ?db2\<lparr>db_orders := put (rf_Order f) (o0\<lparr>or_Status := ?new\<rparr>) (db_orders db1)\<rparr>"
  have sums: "reserved_refunds (rf_Order f) ?db2 = reserved_refunds (rf_Order f) db1 - (if completed then 0 else rf_Amount f)"
    "completed_refunds (rf_Order f) ?db2 = completed_refunds (rf_Order f) db1 + (if completed then rf_Amount f else 0)"
    using refund_sums_put [OF O(2), of ?db2 i ?f "rf_Order f"] o1(1) s(1) by (simp_all split: if_splits)
  have sums3: "reserved_refunds (rf_Order f) db3 = reserved_refunds (rf_Order f) ?db2" "completed_refunds (rf_Order f) db3 = completed_refunds (rf_Order f) ?db2"
    by (simp_all add: db3_def reserved_refunds_def completed_refunds_def)
  have res: "rf_Amount f \<le> reserved_refunds (rf_Order f) db1"
  proof -
    have "(if rf_Order f = rf_Order f \<and> rf_Status f \<noteq> ''canceled'' then rf_Amount f else 0) \<le> reserved_refunds (rf_Order f) db1"
      unfolding reserved_refunds_def
      by (rule am.total_member_le [OF O(2) _ o1(1)]) (use amounts_okD(2) [OF booksD(2) [OF b1]] in force)
    then show ?thesis using s(1) by simp
  qed
  then have st: "is_settled (or_Status o0)" using K pos by (auto simp: order_ok_def split: if_splits)
  have "books db3"
  proof (rule refund_books [OF b1, where f = ?f and od = o0 and st = ?new])
    show "order_frame db1 db3" by (simp add: db3_def order_frame_def)
    show "?new = ''refunded'' \<longleftrightarrow> completed_refunds (rf_Order ?f) db3 = or_Amount o0"
      using K sums sums3 by (cases completed) (auto simp: order_ok_def)
    show "reserved_refunds (rf_Order ?f) db3 \<le> or_Amount o0"
      using K st pos sums sums3 by (auto simp: order_ok_def)
    show "\<And>g. map_of (db_refunds db1) i = Some g \<Longrightarrow> rf_Order g = rf_Order ?f" using o1(1) by simp
    show "is_settled ?new" using st by (simp add: is_settled_def)
    show "all_rows (\<lambda>r. 0 < or_Amount r) (db_orders db3)"
      using all_orders [OF b1] amounts_okD(1) [OF booksD(2) [OF b1] o1(2)] by (auto simp: db3_def)
  qed (use st pos O(1) o1 in \<open>simp_all add: db3_def\<close>)
  moreover have "emitEventTx v (or_User o0) (''refund.'' @ ?st) [(''refund_id'', JStr i), (''order_id'', JStr (rf_Order f))] db3 = Inr db'"
  proof -
    have "put (rf_Order f) o0 (db_orders db1) = db_orders db1" by (rule put_same [OF o1(2)])
    then have "db3 = (if completed then set_order (rf_Order f)
       (\<lambda>p. p\<lparr>or_Status := (if completed_refunds (rf_Order f) ?db2 = or_Amount o0 then ''refunded'' else ''partially_refunded'')\<rparr>) ?db2 else ?db2)"
      using o1(2) by (simp add: db3_def set_order_def)
    then show ?thesis using s(3) by (simp add: Let_def)
  qed
  ultimately show ?thesis using keeps_emit keeps_books by blast
qed (use b in simp)

end
