(* ===== verification/Commerce_Run.thy ===== *)
theory Commerce_Run
  imports Order_Inv
begin

text \<open>
  The commerce service as one machine: its requests, one transaction each, applied to one database. The
  two transactions of \<open>CreateAdapterOrder\<close> are two requests, so that anything may happen while the
  gateway is asked. A request that fails is rolled back; a run is a list of requests that succeed.
\<close>

datatype commerce_op =
    OpCreateOrder env "int \<Rightarrow> commerce_error option" "string \<Rightarrow> int \<Rightarrow> commerce_error + string" string string string int
  | OpBeginOrder env "int \<Rightarrow> commerce_error option" channel string string string int
  | OpFinishOrder string "created option"
  | OpManualOrder env "int \<Rightarrow> commerce_error option" string string string int string
  | OpConfirm env string string string int
  | OpConfirmStatus env string status
  | OpClose string string
  | OpReconcile env "(string, channel) gomap" int
  | OpRequestRefund env string string string string int
  | OpResolveRefund env string string string bool
  | OpCreatePlan env "rat option option" "quota_text option" plan
  | OpUpdatePlan "rat option option" "quota_text option" plan
  | OpPlanActive string bool
  | OpPurchase env string string string int int
  | OpAddon env string string string int int
  | OpRefundPurchase env string string string string int
  | OpResolveCommission env string string string string
  | OpRate int
  | OpReferralCode env string
  | OpBind env string string
  | OpCreateRedeem env int string int "gotime option"
  | OpRedeem env string string
  | OpRevoke string
  | OpAutoRenew env string string bool
  | OpRunAutoRenew env int
  | OpAdjust env string string string string int
  | OpQuota quota_op

definition drop_result :: "commerce_error + ('a \<times> cdb) \<Rightarrow> commerce_error + cdb" where
  "drop_result r = bindE r (\<lambda>(_, db). Inr db)"

lemma drop_result_eq [simp]: "drop_result r = Inr db \<longleftrightarrow> (\<exists>x. r = Inr (x, db))"
  by (auto simp: drop_result_def bindE_eq_Inr)

fun commerce_step :: "cdb \<Rightarrow> commerce_op \<Rightarrow> commerce_error + cdb" where
  "commerce_step db (OpCreateOrder v allowed gateway user ch key amount) = drop_result (CreateOrder v allowed gateway user ch key amount db)"
| "commerce_step db (OpBeginOrder v allowed c user ch key amount) = drop_result (begin_order v allowed c user ch key amount db)"
| "commerce_step db (OpFinishOrder i res) = Inr (finish_order i res db)"
| "commerce_step db (OpManualOrder v allowed user ch key amount address) = drop_result (CreateManualOrder v allowed user ch key amount address db)"
| "commerce_step db (OpConfirm v ch order tx amount) = ConfirmPayment v ch order tx amount db"
| "commerce_step db (OpConfirmStatus v ch s) = ConfirmStatus v ch s db"
| "commerce_step db (OpClose user i) = drop_result (CloseOrder user i db)"
| "commerce_step db (OpReconcile v channels limit) = Inr (snd (ReconcilePending v channels limit db))"
| "commerce_step db (OpRequestRefund v actor order key reason amount) = drop_result (RequestRefund v actor order key reason amount db)"
| "commerce_step db (OpResolveRefund v actor i evidence completed) = drop_result (ResolveRefund v actor i evidence completed db)"
| "commerce_step db (OpCreatePlan v yuan gb p) = drop_result (CreatePlan v yuan gb p db)"
| "commerce_step db (OpUpdatePlan yuan gb p) = drop_result (UpdatePlan yuan gb p db)"
| "commerce_step db (OpPlanActive i active) = SetPlanActive i active db"
| "commerce_step db (OpPurchase v user plan key expected version) = drop_result (PurchaseQuote v user plan key expected version db)"
| "commerce_step db (OpAddon v user plan key expected version) = drop_result (PurchaseAddon v user plan key expected version db)"
| "commerce_step db (OpRefundPurchase v actor purchase key reason amount) = drop_result (RefundPurchase v actor purchase key reason amount db)"
| "commerce_step db (OpResolveCommission v actor cid action reason) = ResolveCommission v actor cid action reason db"
| "commerce_step db (OpRate bps) = SetCommissionRate bps db"
| "commerce_step db (OpReferralCode v user) = drop_result (CreateReferralCode v user db)"
| "commerce_step db (OpBind v user plain) = BindReferral v user plain db"
| "commerce_step db (OpCreateRedeem v amount plan uses expires) = drop_result (CreateRedeemCode v amount plan uses expires db)"
| "commerce_step db (OpRedeem v user plain) = drop_result (RedeemCode v user plain db)"
| "commerce_step db (OpRevoke hash) = RevokeRedeemCode hash db"
| "commerce_step db (OpAutoRenew v user plan enabled) = SetAutoRenew v user plan enabled db"
| "commerce_step db (OpRunAutoRenew v limit) = Inr (snd (snd (RunAutoRenew v limit db)))"
| "commerce_step db (OpAdjust v actor user key reason delta) = AdjustUserBalance v actor user key reason delta db"
| "commerce_step db (OpQuota op) = quota_step db op"

text \<open>What a request may look like: identifiers come from \<open>id()\<close>, which gives hexadecimal digits and so no
  colon, and an amount is an \<open>int64\<close>.\<close>

fun op_ok :: "commerce_op \<Rightarrow> bool" where
  "op_ok (OpPurchase v _ _ _ _ _) = good_ids v"
| "op_ok (OpAddon v _ _ _ _ _) = good_ids v"
| "op_ok (OpRefundPurchase v _ _ _ _ _) = good_ids v"
| "op_ok (OpRunAutoRenew v _) = good_ids v"
| "op_ok (OpRequestRefund _ _ _ _ _ amount) = fits64 amount"
| "op_ok _ = True"

lemma quota_step_keeps: "quota_step db op = Inr db' \<Longrightarrow> keeps db db'"
  by (auto simp: quota_step_def bindE_eq_Inr split: quota_op.splits
      dest: keeps_Allocate keeps_RetireLease keeps_SettleUsageBatch)

lemma commerce_step_books:
  assumes b: "books db" and a: "op_ok op" and r: "commerce_step db op = Inr db'"
  shows "books db'"
proof -
  note B = booksD [OF b]
  have K: "keeps db d \<Longrightarrow> books d" for d using keeps_books [OF _ b] .
  show ?thesis
  proof (cases op)
    case (OpCreateOrder v allowed gateway user ch key amount)
    then show ?thesis using r CreateOrder_books [OF _ b] by auto
  next
    case (OpBeginOrder v allowed c user ch key amount)
    then show ?thesis using r begin_order_books [OF _ b] by fastforce
  next
    case (OpFinishOrder i res)
    then show ?thesis using r finish_order_books [OF b] by auto
  next
    case (OpManualOrder v allowed user ch key amount address)
    then show ?thesis using r CreateManualOrder_books [OF _ b] by auto
  next
    case (OpConfirm v ch order tx amount)
    then show ?thesis using r ConfirmPaymentTx_books [OF _ b] by (auto simp: ConfirmPayment_def)
  next
    case (OpConfirmStatus v ch s)
    then show ?thesis using r ConfirmStatus_books [OF _ b] by auto
  next
    case (OpClose user i)
    then show ?thesis using r CloseOrder_books [OF _ b] by auto
  next
    case (OpReconcile v channels limit)
    then show ?thesis using r ReconcilePending_books [OF prod.collapse [symmetric] b] by auto
  next
    case (OpRequestRefund v actor order key reason amount)
    then show ?thesis using r a RequestRefund_books [OF _ b] by (fastforce simp: fits64_def)
  next
    case (OpResolveRefund v actor i evidence completed)
    then show ?thesis using r ResolveRefund_books [OF _ b] by fastforce
  next
    case (OpCreatePlan v yuan gb p)
    then show ?thesis using r by (auto intro: K keeps_CreatePlan)
  next
    case (OpUpdatePlan yuan gb p)
    then show ?thesis using r by (auto intro: K keeps_UpdatePlan)
  next
    case (OpPlanActive i active)
    then show ?thesis using r B by (auto intro: K keeps_SetPlanActive)
  next
    case (OpPurchase v user plan key expected version)
    then show ?thesis using r a B by (auto intro: K keeps_PurchaseQuote)
  next
    case (OpAddon v user plan key expected version)
    then show ?thesis using r a B by (auto intro: K keeps_PurchaseAddon)
  next
    case (OpRefundPurchase v actor purchase key reason amount)
    then show ?thesis using r a B by (auto intro: K keeps_RefundPurchase)
  next
    case (OpResolveCommission v actor cid action reason)
    then show ?thesis using r B by (auto intro: K keeps_ResolveCommission)
  next
    case (OpBind v user plain)
    then show ?thesis using r by (auto intro: K keeps_BindReferral)
  next
    case (OpRedeem v user plain)
    then show ?thesis using r B by (auto intro: K keeps_RedeemCode)
  next
    case (OpRunAutoRenew v limit)
    obtain err n d where x: "RunAutoRenew v limit db = (err, n, d)" by (cases "RunAutoRenew v limit db") auto
    then show ?thesis using r a B OpRunAutoRenew keeps_RunAutoRenew [OF x] K by auto
  next
    case (OpAdjust v actor user key reason delta)
    then show ?thesis using r by (auto intro: K keeps_AdjustUserBalance)
  next
    case (OpQuota q)
    then show ?thesis using r by (auto intro: K quota_step_keeps)
  qed (use r in \<open>auto intro: K keeps_simple\<close>)
qed

interpretation panel: guarded_machine commerce_step op_ok books
  by unfold_locales (rule commerce_step_books)

lemma books_empty: "books empty_db"
  by (simp add: books_def wallet_inv_def funds_ok_def amounts_ok_def quota_inv_def orders_ok_def tx_unique_def payment_entries_def
      entries_def empty_db_def balance_def journal_total_def max_int64_def)

end
