(* ===== verification/Commerce_Props.thy ===== *)
theory Commerce_Props
  imports Commerce_Run
begin

text \<open>
  What the commerce service guarantees over every run of requests from an empty database, and the
  exact effect of single requests. The witnesses evaluate a run in which a user pays for an order, buys a
  plan, a node uses half of a lease and returns it, and a part of the payment is refunded.
\<close>

section \<open>A concrete run\<close>

definition demo_env :: env where
  "demo_env = \<lparr>ev_now = 1000000000000, ev_stamp = ''t'', ev_ids = (\<lambda>n. CHR ''i'' # show_nat n), ev_account = (\<lambda>_. None),
     ev_received = (\<lambda>_ _ _. None), ev_digest = (\<lambda>s. s),
     ev_civil = (\<lambda>t. \<lparr>cv_Year = 2024, cv_Month = 1, cv_Day = 31, cv_Clock = t\<rparr>),
     ev_date = (\<lambda>c. cv_Clock c + (cv_Year c * 12 + cv_Month c) * 2678400000000000 + cv_Day c * 86400000000000),
     ev_addDays = (\<lambda>t n. t + n * 86400000000000)\<rparr>"

definition demo_plan :: plan where
  "demo_plan = \<lparr>p_ID = '''', p_Name = ''basic'', p_Price = 600, p_Quota = 1000, p_Months = 1, p_DurationUnit = '''', p_DurationValue = 0,
     p_Active = True, p_Version = 1, p_Kind = ''period'', p_Limits = \<lparr>pl_MaxRules = 5\<rparr>\<rparr>"

definition demo_usage :: usage_record where
  "demo_usage = \<lparr>u_ID = ''r1'', u_NodeID = ''n'', u_RuleID = ''rule'', u_LeaseID = ''i8'', u_EntitlementID = ''i4'',
     u_StartedAt = 1000000000000, u_EndedAt = 1000000000001, u_UploadBytes = 100, u_DownloadBytes = 151, u_Kind = '''',
     u_WindowID = '''', u_WindowSequence = 0\<rparr>"

definition demo_ops :: "commerce_op list" where
  "demo_ops = [OpCreateOrder demo_env (\<lambda>_. None) (\<lambda>_ _. Inr ''https://pay'') ''u'' ''epay'' ''k1'' 1000,
     OpConfirm demo_env ''epay'' ''i0'' ''tx1'' 1000,
     OpCreatePlan demo_env None None demo_plan,
     OpPurchase demo_env ''u'' ''i3'' ''p1'' 0 0,
     OpQuota (OpAllocate demo_env ''u'' ''rule'' ''n'' (Some (3 / 2)) 900),
     OpQuota (OpSettle [demo_usage]),
     OpRequestRefund demo_env ''admin'' ''i0'' ''f1'' ''asked'' 300]"

definition demo_db :: cdb where
  "demo_db = (case runE commerce_step empty_db demo_ops of Inr db \<Rightarrow> db | Inl _ \<Rightarrow> empty_db)"

lemma demo_run: "runE commerce_step empty_db demo_ops = Inr demo_db"
proof -
  have "(case runE commerce_step empty_db demo_ops of Inl _ \<Rightarrow> False | Inr _ \<Rightarrow> True)" by code_simp
  then show ?thesis by (simp add: demo_db_def split: sum.splits)
qed


lemma digits_no_colon: "CHR '':'' \<notin> set (show_nat n)"
  using show_nat_digits [of n] by (auto simp: list_all_iff is_digit_def)

lemma good_demo: "good_ids demo_env"
  using digits_no_colon by (auto simp: good_ids_def demo_env_def)

lemma demo_ok: "list_all op_ok demo_ops"
  by (simp add: demo_ops_def good_demo fits64_def min_int64_def max_int64_def)

lemma reachable_books:
  assumes "runE commerce_step empty_db ops = Inr db" "list_all op_ok ops"
  shows "books db"
  by (rule panel.run_inv [OF books_empty assms(2,1)])

section \<open>Every run\<close>

text \<open>C15: After any sequence of requests the balance of every user is what the journal adds up to, and never
  negative; once the origin of a user's money is tracked, the remaining amounts of its sources add up to the balance, and
  no source has more left than was paid in.\<close>

theorem wallets_always_balanced:
  assumes "runE commerce_step empty_db ops = Inr db" "list_all op_ok ops"
  shows "0 \<le> balance u db \<and> balance u db = (\<Sum>j\<leftarrow>db_journal db. if jl_User j = u then jl_Amount j else 0)
    \<and> (u \<in> set (db_accounts db) \<longrightarrow> gsum (\<lambda>_ f. if fs_User f = u then fs_Remaining f else 0) (db_sources db) = balance u db)
    \<and> (\<forall>i f. map_of (db_sources db) i = Some f \<longrightarrow> 0 \<le> fs_Remaining f \<and> fs_Remaining f \<le> fs_Amount f)"
proof -
  note I = wallet_invD [OF booksD(1) [OF reachable_books [OF assms]]]
  note F = funds_okD [OF I(2)]
  have "0 \<le> taken i db" for i
    unfolding taken_def by (rule am.total_nonneg [OF F(2)]) (use F(7) in \<open>force simp: split_paired_all\<close>)
  then have "fs_Remaining f \<le> fs_Amount f" if "map_of (db_sources db) i = Some f" for i f
    using F(4) [OF that] by (metis le_add_same_cancel1)
  then show ?thesis using I(3,5,6) F(3) by (auto simp: journal_total_def src_total_def)
qed

theorem wallets_always_balanced_witness:
  "balance ''u'' demo_db = 100 \<and> balance ''u'' demo_db = (\<Sum>j\<leftarrow>db_journal demo_db. if jl_User j = ''u'' then jl_Amount j else 0)"
proof -
  have "balance ''u'' demo_db = 100" by code_simp
  then show ?thesis using wallets_always_balanced [OF demo_run demo_ok, of "''u''"] by simp
qed

text \<open>C16: After any sequence of requests an entitlement with a quota is never oversold: what is used is at most what
  is allocated to leases, which is at most the quota. What is used is exact: for each lease the number of bytes reported
  for it times its multiplier, rounded up once, however the reports were split into records and batches.\<close>

theorem quota_never_exceeded:
  assumes "runE commerce_step empty_db ops = Inr db" "list_all op_ok ops" "map_of (db_ents db) i = Some e"
  shows "0 \<le> en_Used e \<and> en_Used e \<le> en_Allocated e \<and> (en_Quota e \<noteq> 0 \<longrightarrow> en_Allocated e \<le> en_Quota e)
    \<and> en_Used e = gsum (\<lambda>j l. if lr_Ent l = i then \<lceil>of_int (reported db j) * lr_Mult l\<rceil> else 0) (db_leases db)"
proof -
  note inv = booksD(3) [OF reachable_books [OF assms(1,2)]]
  note I = quota_invD [OF inv] and U = used_le_allocated [OF inv assms(3)]
  have K: "ent_ok db i e" by (rule I(5) [OF assms(3)])
  have "ent_used db i = gsum (\<lambda>j l. if lr_Ent l = i then \<lceil>of_int (reported db j) * lr_Mult l\<rceil> else 0) (db_leases db)"
    unfolding ent_used_def
  proof (rule gsum_cong [OF I(2)])
    fix j l assume "map_of (db_leases db) j = Some l"
    then have "lease_ok db j l" by (rule I(6))
    then show "(if lr_Ent l = i then charge (lr_Mult l) (lr_Used l) else 0)
      = (if lr_Ent l = i then \<lceil>of_int (reported db j) * lr_Mult l\<rceil> else 0)"
      by (simp add: lease_ok_def charge_ceiling)
  qed
  then show ?thesis using U(1,2) K by (auto simp: ent_ok_def)
qed

theorem quota_never_exceeded_witness:
  "\<exists>e. map_of (db_ents demo_db) ''i4'' = Some e \<and> en_Used e = 377 \<and> en_Used e \<le> en_Allocated e \<and> en_Allocated e \<le> en_Quota e"
proof -
  let ?e = "the (map_of (db_ents demo_db) ''i4'')"
  have e: "map_of (db_ents demo_db) ''i4'' = Some ?e" "en_Used ?e = 377" "en_Quota ?e = 1000" by code_simp+
  have "en_Used ?e \<le> en_Allocated ?e \<and> (en_Quota ?e \<noteq> 0 \<longrightarrow> en_Allocated ?e \<le> en_Quota ?e)"
    using quota_never_exceeded [OF demo_run demo_ok e(1)] by blast
  with e show ?thesis by auto
qed

text \<open>C17: After any sequence of requests, callbacks, queries and administrators' confirmations included, an order is credited
  to its user exactly once, with the amount it was created for, when it is paid, and not at all before; no transaction of a
  gateway pays for two orders of a channel.\<close>

theorem payment_credited_once:
  assumes "runE commerce_step empty_db ops = Inr db" "list_all op_ok ops" "map_of (db_orders db) i = Some r"
  shows "map (\<lambda>j. (jl_User j, jl_Amount j, jl_Kind j)) (filter (\<lambda>j. jl_Reference j = ''payment:'' @ i) (db_journal db))
        = (if is_settled (or_Status r) then [(or_User r, or_Amount r, ''recharge'')] else [])
    \<and> (\<forall>k q t. map_of (db_orders db) k = Some q \<longrightarrow> k \<noteq> i \<longrightarrow> or_Channel q = or_Channel r \<longrightarrow> or_Tx r = Some t \<longrightarrow> or_Tx q \<noteq> Some t)"
proof -
  note O = orders_okD [OF booksD(4) [OF reachable_books [OF assms(1,2)]]]
  let ?js = "filter (\<lambda>j. jl_Reference j = ''payment:'' @ i) (db_journal db)"
  have "map (\<lambda>j. (jl_User j, jl_Amount j, jl_Kind j, jl_Reference j)) ?js
    = (if is_settled (or_Status r) then [(or_User r, or_Amount r, ''recharge'', ''payment:'' @ i)] else [])"
    using O(3) [OF assms(3)] by (simp add: order_ok_def payment_entries_def entries_def filter_map o_def)
  from arg_cong [OF this, of "map (\<lambda>(u, n, k, _). (u, n, k))"]
  have "map (\<lambda>j. (jl_User j, jl_Amount j, jl_Kind j)) ?js
    = (if is_settled (or_Status r) then [(or_User r, or_Amount r, ''recharge'')] else [])"
    by (simp add: o_def)
  moreover have "or_Tx q \<noteq> Some t" if "map_of (db_orders db) k = Some q" "k \<noteq> i" "or_Channel q = or_Channel r" "or_Tx r = Some t" for k q t
    using O(5) [unfolded tx_unique_def, rule_format, of i r k q t] assms(3) that by simp
  ultimately show ?thesis by blast
qed

theorem payment_credited_once_witness:
  "map (\<lambda>j. (jl_User j, jl_Amount j, jl_Kind j)) (filter (\<lambda>j. jl_Reference j = ''payment:'' @ ''i0'') (db_journal demo_db))
     = [(''u'', 1000, ''recharge'')]"
proof -
  let ?r = "the (map_of (db_orders demo_db) ''i0'')"
  have r: "map_of (db_orders demo_db) ''i0'' = Some ?r" "is_settled (or_Status ?r)" "or_User ?r = ''u''" "or_Amount ?r = 1000" by code_simp+
  show ?thesis using payment_credited_once [OF demo_run demo_ok r(1)] unfolding r(3,4) if_P [OF r(2)] by blast
qed

text \<open>C18: After any sequence of requests the refunds of an order that are completed or still reserved never add up to
  more than was paid, an order that was not paid has none, and an order is marked as refunded exactly when its completed
  refunds make up the whole payment.\<close>

theorem refunds_never_exceed_payment:
  assumes "runE commerce_step empty_db ops = Inr db" "list_all op_ok ops" "map_of (db_orders db) i = Some r"
  shows "0 \<le> completed_refunds i db \<and> completed_refunds i db \<le> reserved_refunds i db \<and> reserved_refunds i db \<le> or_Amount r
    \<and> (\<not> is_settled (or_Status r) \<longrightarrow> reserved_refunds i db = 0)
    \<and> (or_Status r = ''refunded'' \<longleftrightarrow> completed_refunds i db = or_Amount r)"
proof -
  note b = reachable_books [OF assms(1,2)]
  note O = orders_okD [OF booksD(4) [OF b]]
  have K: "order_ok db i r" by (rule O(3) [OF assms(3)])
  have pos: "0 < or_Amount r" by (rule amounts_okD(1) [OF booksD(2) [OF b] assms(3)])
  have "0 \<le> completed_refunds i db" "completed_refunds i db \<le> reserved_refunds i db"
    unfolding completed_refunds_def reserved_refunds_def
    by (rule am.total_nonneg [OF O(2)] am.total_mono [OF O(2)]; use amounts_okD(2) [OF booksD(2) [OF b]] in force)+
  then show ?thesis using K pos by (auto simp: order_ok_def split: if_splits)
qed

theorem refunds_never_exceed_payment_witness:
  "reserved_refunds ''i0'' demo_db = 300 \<and> completed_refunds ''i0'' demo_db \<le> reserved_refunds ''i0'' demo_db"
proof -
  have "map_of (db_orders demo_db) ''i0'' = Some (the (map_of (db_orders demo_db) ''i0''))" "reserved_refunds ''i0'' demo_db = 300"
    by code_simp+
  then show ?thesis using refunds_never_exceed_payment [OF demo_run demo_ok, of "''i0''"] by simp
qed



end
