(* ===== verification/Pricing.thy ===== *)
theory Pricing
  imports Orders Billing
begin

text \<open>
  The calculations of the commerce service: the fees and quotes of payment channels (\<open>channels.go\<close>, and
  \<open>paymentFees\<close> of \<open>internal/app/payments.go\<close>), the schedule of reconciliation (\<open>reconciliation.go\<close>) and the
  calendar of plans (\<open>AddMonths\<close> of \<open>service.go\<close>).
\<close>

section \<open>Fees of a channel\<close>

text \<open>The percentage and the fixed fee that an operator writes. \<open>percent\<close> is the trimmed text of the percentage and
  the number that \<open>big.Rat.SetString\<close> reads in it, if it reads one.\<close>

definition paymentFees :: "string \<times> rat option \<Rightarrow> string \<Rightarrow> (int \<times> int) option" where
  "paymentFees percent fixed =
     (let bps = (if fst percent = '''' then Some 0
        else case snd percent of None \<Rightarrow> None | Some value \<Rightarrow>
          if value < 0 \<or> value > 100 then None
          else case quotient_of (value * 100) of (num, den) \<Rightarrow> if den \<noteq> 1 \<or> \<not> fits64 num then None else Some num)
      in case bps of None \<Rightarrow> None | Some b \<Rightarrow>
         if TrimSpace fixed = '''' then Some (b, 0)
         else case ParseAmount (TrimSpace fixed) of None \<Rightarrow> None | Some f \<Rightarrow> Some (b, f))"

lemma ParseAmount_bounds:
  assumes "ParseAmount v = Some n"
  shows "0 \<le> n" "n \<le> MaxAmountCents"
proof -
  obtain w f b where c: "Cut (CHR ''.'') (TrimSpace v) = (w, f, b)" by (cases "Cut (CHR ''.'') (TrimSpace v)")
  then have "n \<le> MaxAmountCents" "of_int n = decimal_cents w f" using assms by (simp_all add: ParseAmount_eq)
  moreover have "0 \<le> decimal_cents w f" by (simp add: decimal_cents_def)
  ultimately show "0 \<le> n" "n \<le> MaxAmountCents" by (metis of_int_0_le_iff)+
qed

lemma whole_rat:
  assumes "quotient_of x = (num, 1)"
  shows "x = of_int num"
  using quotient_of_div [OF assms] by simp

lemma paymentFees_bounds:
  assumes "paymentFees (t, Some p) fixed = Some (b, f)" "t \<noteq> ''''"
  shows "of_int b = p * 100" "0 \<le> b" "b \<le> 10000" "0 \<le> f" "f \<le> MaxAmountCents"
proof -
  obtain num where q: "quotient_of (p * 100) = (num, 1)" and p: "0 \<le> p" "p \<le> 100" and b: "b = num"
    and f: "if TrimSpace fixed = '''' then f = 0 else ParseAmount (TrimSpace fixed) = Some f"
    using assms by (auto simp: paymentFees_def Let_def split: option.splits if_splits prod.splits)
  show eq: "of_int b = p * 100" using whole_rat [OF q] b by simp
  show "0 \<le> b" using eq p(1) by (metis mult_nonneg_nonneg of_int_0_le_iff zero_le_numeral)
  have "(of_int b :: rat) \<le> of_int 10000" using eq p(2) by simp
  then show "b \<le> 10000" by (simp only: of_int_le_iff)
  show "0 \<le> f" "f \<le> MaxAmountCents" using f ParseAmount_bounds [of "TrimSpace fixed" f]
    by (auto simp: MaxAmountCents_def split: if_splits)
qed

lemma Quote_exact:
  assumes "0 \<le> ch_FeeBPS c" "ch_FeeBPS c \<le> 10000" "0 \<le> ch_FeeFixed c" "ch_FeeFixed c \<le> MaxAmountCents"
    and "0 < amount" "amount \<le> MaxAmountCents"
  shows "Quote c amount = (amount + (amount * ch_FeeBPS c div 10000 + ch_FeeFixed c), amount * ch_FeeBPS c div 10000 + ch_FeeFixed c)"
    and "amount * ch_FeeBPS c div 10000 \<le> amount"
proof -
  have m: "0 \<le> amount * ch_FeeBPS c" "amount * ch_FeeBPS c \<le> MaxAmountCents * 10000"
    using assms by (auto intro!: mult_mono)
  have "amount * ch_FeeBPS c \<le> amount * 10000" using assms by (intro mult_left_mono) auto
  then show le: "amount * ch_FeeBPS c div 10000 \<le> amount" using zdiv_mono1 [of _ "amount * 10000" 10000] by simp
  have d: "0 \<le> amount * ch_FeeBPS c div 10000" using m by simp
  have i1: "i64 (amount * ch_FeeBPS c) = amount * ch_FeeBPS c"
    by (rule i64_id) (use m in \<open>simp add: fits64_def int64_defs MaxAmountCents_def\<close>)
  have q: "quo (amount * ch_FeeBPS c) 10000 = amount * ch_FeeBPS c div 10000" using m by (simp add: quo_pos)
  have i2: "i64 (amount * ch_FeeBPS c div 10000 + ch_FeeFixed c) = amount * ch_FeeBPS c div 10000 + ch_FeeFixed c"
    by (rule i64_id) (use d le assms in \<open>simp add: fits64_def int64_defs MaxAmountCents_def\<close>)
  have i3: "i64 (amount + (amount * ch_FeeBPS c div 10000 + ch_FeeFixed c)) = amount + (amount * ch_FeeBPS c div 10000 + ch_FeeFixed c)"
    by (rule i64_id) (use d le assms in \<open>simp add: fits64_def int64_defs MaxAmountCents_def\<close>)
  show "Quote c amount = (amount + (amount * ch_FeeBPS c div 10000 + ch_FeeFixed c), amount * ch_FeeBPS c div 10000 + ch_FeeFixed c)"
    using d assms(3) by (simp add: Quote_def Let_def i1 q i2 i3)
qed

text \<open>With fees read from a configuration, a payer pays the credited amount plus the stated percentage of it, rounded
  down to a cent, plus the fixed fee. No 64-bit sum or product wraps for any amount that an order may have, and the
  payer never pays less than is credited.\<close>

theorem channel_fee_exact:
  assumes "paymentFees (t, Some p) fixed = Some (ch_FeeBPS c, ch_FeeFixed c)" "t \<noteq> ''''"
    and "0 < amount" "amount \<le> MaxAmountCents"
  shows "Quote c amount = (amount + (\<lfloor>of_int amount * p / 100\<rfloor> + ch_FeeFixed c), \<lfloor>of_int amount * p / 100\<rfloor> + ch_FeeFixed c)
    \<and> amount \<le> fst (Quote c amount) \<and> fst (Quote c amount) \<le> 3 * MaxAmountCents"
proof -
  note F = paymentFees_bounds [OF assms(1,2)]
  note Q = Quote_exact [OF F(2-5) assms(3,4)]
  have "of_int amount * p / 100 = (of_int (amount * ch_FeeBPS c) / of_int 10000 :: rat)" using F(1) by simp
  then have fl: "\<lfloor>of_int amount * p / 100\<rfloor> = amount * ch_FeeBPS c div 10000" by (simp only: floor_divide_of_int_eq)
  have "0 \<le> amount * ch_FeeBPS c div 10000" using F(2) assms(3) by (simp add: pos_imp_zdiv_nonneg_iff)
  then show ?thesis using Q F(4,5) assms(3,4) unfolding fl by simp
qed

definition demo_channel :: channel where
  "demo_channel = no_channel\<lparr>ch_FeeBPS := 150, ch_FeeFixed := 25, ch_Crypto := ''USDT'', ch_RateValue := Some (Fract 72 10)\<rparr>"

theorem channel_fee_exact_witness:
  "Quote demo_channel 10000 = (10175, 175) \<and> paymentFees (''1.5'', Some (Fract 3 2)) ''0.25'' = Some (150, 25)"
proof -
  have c: "paymentFees (''1.5'', Some (Fract 3 2)) ''0.25'' = Some (ch_FeeBPS demo_channel, ch_FeeFixed demo_channel)"
    by code_simp
  have "ch_FeeFixed demo_channel = 25" "ch_FeeBPS demo_channel = 150" by (simp_all add: demo_channel_def)
  moreover have "\<lfloor>of_int 10000 * Fract 3 2 / 100\<rfloor> = (150 :: int)" by code_simp
  ultimately show ?thesis using channel_fee_exact [OF c, of 10000] c by (simp add: MaxAmountCents_def)
qed

section \<open>Quotes in a crypto currency\<close>

lemma quo_ceiling:
  assumes "quotient_of x = (num, den)" "0 \<le> x"
  shows "quo num den + (if rem num den > 0 then 1 else 0) = \<lceil>x\<rceil>"
proof -
  have x: "x = of_int num / of_int den" and den: "0 < den"
    using quotient_of_div [OF assms(1)] quotient_of_denom_pos [OF assms(1)] by auto
  have num: "0 \<le> num" using assms(2) den by (simp add: x zero_le_divide_iff)
  have pos: "0 < num mod den \<longleftrightarrow> num mod den \<noteq> 0" using den by (simp add: less_le)
  have "- x = of_int (- num) / of_int den" by (simp add: x)
  then have "\<lceil>x\<rceil> = - ((- num) div den)" unfolding ceiling_def by (simp only: floor_divide_of_int_eq)
  also have "\<dots> = num div den + (if num mod den > 0 then 1 else 0)"
    using den pos by (simp add: zdiv_zminus1_eq_if)
  finally show ?thesis using num den by (simp add: quo_pos rem_pos)
qed

text \<open>The quote in a crypto currency is what is payable at the rate of the channel, rounded up to a hundredth: at that
  rate it covers the payment, and exceeds it by less than a hundredth. Only a quote too large for 64 bits is left out.\<close>

theorem crypto_quote_covers:
  assumes "ch_Crypto c \<noteq> ''''" "ch_RateValue c = Some rate" "0 < rate" "0 < payable"
  shows "CryptoQuote c payable = (if fits64 \<lceil>of_int payable / rate\<rceil> then FormatAmount \<lceil>of_int payable / rate\<rceil> else '''')
    \<and> of_int payable \<le> of_int \<lceil>of_int payable / rate\<rceil> * rate \<and> (of_int \<lceil>of_int payable / rate\<rceil> - 1) * rate < of_int payable"
proof -
  let ?x = "of_int payable / rate"
  have pos: "0 \<le> ?x" using assms by simp
  obtain num den where q: "quotient_of ?x = (num, den)" by (cases "quotient_of ?x")
  have "CryptoQuote c payable = (if fits64 \<lceil>?x\<rceil> then FormatAmount \<lceil>?x\<rceil> else '''')"
    using assms q quo_ceiling [OF q pos] by (simp add: CryptoQuote_def Let_def)
  moreover have "of_int payable \<le> of_int \<lceil>?x\<rceil> * rate"
    by (rule pos_divide_le_eq [THEN iffD1, OF assms(3) le_of_int_ceiling])
  moreover have "of_int \<lceil>?x\<rceil> - 1 < ?x" by linarith
  ultimately show ?thesis using assms(3) by (simp add: pos_less_divide_eq)
qed

theorem crypto_quote_covers_witness: "CryptoQuote demo_channel 10000 = ''13.89''"
proof -
  have r: "ch_Crypto demo_channel \<noteq> ''''" "ch_RateValue demo_channel = Some (Fract 72 10)" "0 < Fract 72 10"
    by (simp_all add: demo_channel_def zero_less_Fract_iff)
  have "\<lceil>of_int 10000 / Fract 72 10\<rceil> = (1389 :: int)" "fits64 1389" "FormatAmount 1389 = ''13.89''" by code_simp+
  then show ?thesis using crypto_quote_covers [OF r, of 10000] by simp
qed

section \<open>The schedule of reconciliation\<close>

lemma backoff_loop_min: "0 < d \<Longrightarrow> min reconciliationMaxDelay (backoff_loop a d) = min reconciliationMaxDelay (d * 2 ^ nat (a - 1))"
proof (induction a d rule: backoff_loop.induct)
  case (1 a d)
  show ?case
  proof (cases "a > 1 \<and> d < reconciliationMaxDelay")
    case True
    then have "nat (a - 1) = Suc (nat (a - 1 - 1))" by linarith
    then show ?thesis using 1 True by (simp add: backoff_loop.simps [of a d] mult.assoc)
  next
    case False
    have "d * 1 \<le> d * 2 ^ nat (a - 1)" using 1(2) by (intro mult_left_mono) auto
    then show ?thesis using False by (auto simp: backoff_loop.simps [of a d] min_def)
  qed
qed

text \<open>The delay before the next query of an order doubles with every attempt, from 30 seconds up to one hour, where it
  stays: the loop computes this closed form for every number of attempts.\<close>

theorem backoff_closed_form:
  "reconciliationBackoff attempts = min reconciliationMaxDelay (reconciliationDelay * 2 ^ nat (attempts - 1))"
  using backoff_loop_min [of reconciliationDelay attempts]
  by (simp add: reconciliationBackoff_def Let_def min_def reconciliationDelay_def split: if_splits)

lemma backoff_bounds: "reconciliationDelay \<le> reconciliationBackoff a" "reconciliationBackoff a \<le> reconciliationMaxDelay"
proof -
  have eq: "reconciliationBackoff a = min reconciliationMaxDelay (backoff_loop a reconciliationDelay)"
    by (simp add: reconciliationBackoff_def Let_def min_def)
  have "reconciliationDelay * 1 \<le> reconciliationDelay * 2 ^ nat (a - 1)"
    by (rule mult_left_mono) (auto simp: reconciliationDelay_def)
  then have "reconciliationDelay \<le> min reconciliationMaxDelay (reconciliationDelay * 2 ^ nat (a - 1))"
    by (simp add: reconciliationDelay_def reconciliationMaxDelay_def)
  then show "reconciliationDelay \<le> reconciliationBackoff a"
    unfolding eq using backoff_loop_min [of reconciliationDelay a] by (simp add: reconciliationDelay_def)
  show "reconciliationBackoff a \<le> reconciliationMaxDelay" by (simp add: eq)
qed

lemma milli_later: "0 \<le> d \<Longrightarrow> milli (t + 1000000 * d) = milli t + d"
  by (simp add: milli_def)

section \<open>The calendar\<close>

definition valid_civil :: "civil \<Rightarrow> bool" where
  "valid_civil c \<longleftrightarrow> 1 \<le> cv_Month c \<and> cv_Month c \<le> 12 \<and> 1 \<le> cv_Day c \<and> cv_Day c \<le> days_in (cv_Year c) (cv_Month c)"

lemma days_in_bounds: "28 \<le> days_in y m" "days_in y m \<le> 31"
  by (simp_all add: days_in_def)

lemma AddMonths_index:
  assumes "valid_civil c"
  shows "12 * cv_Year (AddMonths_civil c n) + cv_Month (AddMonths_civil c n) = 12 * cv_Year c + cv_Month c + n"
    "1 \<le> cv_Month (AddMonths_civil c n)" "cv_Month (AddMonths_civil c n) \<le> 12"
proof -
  let ?k = "cv_Year c * 12 + (cv_Month c - 1) + n"
  have f: "cv_Year (AddMonths_civil c n) = ?k div 12" "cv_Month (AddMonths_civil c n) = ?k mod 12 + 1"
    by (simp_all add: AddMonths_civil_def Let_def)
  have "?k div 12 * 12 + ?k mod 12 = ?k" by (rule div_mult_mod_eq)
  then show "12 * cv_Year (AddMonths_civil c n) + cv_Month (AddMonths_civil c n) = 12 * cv_Year c + cv_Month c + n"
    unfolding f by linarith
  have "0 \<le> ?k mod 12" "?k mod 12 < 12" by simp_all
  then show "1 \<le> cv_Month (AddMonths_civil c n)" "cv_Month (AddMonths_civil c n) \<le> 12"
    unfolding f by linarith+
qed

lemma AddMonths_day: "cv_Day (AddMonths_civil c n) = min (cv_Day c) (days_in (cv_Year (AddMonths_civil c n)) (cv_Month (AddMonths_civil c n)))"
  by (simp add: AddMonths_civil_def Let_def)

lemma AddMonths_valid: "valid_civil c \<Longrightarrow> valid_civil (AddMonths_civil c n)"
  using AddMonths_index [of c n] days_in_bounds(1) [of "cv_Year (AddMonths_civil c n)" "cv_Month (AddMonths_civil c n)"]
  by (simp add: valid_civil_def AddMonths_day)

lemma month_unique:
  fixes y y' m m' :: int
  assumes "12 * y + m = 12 * y' + m'" "1 \<le> m" "m \<le> 12" "1 \<le> m'" "m' \<le> 12"
  shows "y = y' \<and> m = m'"
  using assms by presburger

text \<open>A plan of some months expires the same number of calendar months later, on the same day of the month or, when that
  month is shorter, on its last day: always a day that exists, never one in the month after. Renewing month by month ends
  on the same day as buying all months at once, when the day is at most the 28th.\<close>

theorem add_months_calendar:
  assumes "valid_civil c"
  shows "valid_civil (AddMonths_civil c n)
    \<and> 12 * cv_Year (AddMonths_civil c n) + cv_Month (AddMonths_civil c n) = 12 * cv_Year c + cv_Month c + n
    \<and> cv_Day (AddMonths_civil c n) = min (cv_Day c) (days_in (cv_Year (AddMonths_civil c n)) (cv_Month (AddMonths_civil c n)))
    \<and> (cv_Day c \<le> 28 \<longrightarrow> AddMonths_civil (AddMonths_civil c n) k = AddMonths_civil c (n + k))"
proof -
  have "AddMonths_civil (AddMonths_civil c n) k = AddMonths_civil c (n + k)" if d: "cv_Day c \<le> 28"
  proof -
    let ?a = "AddMonths_civil (AddMonths_civil c n) k" and ?b = "AddMonths_civil c (n + k)"
    have "cv_Year ?a = cv_Year ?b \<and> cv_Month ?a = cv_Month ?b"
      by (rule month_unique) (use AddMonths_index [OF assms] AddMonths_index [OF AddMonths_valid [OF assms]] in simp_all)
    moreover have "cv_Day x \<le> 28 \<Longrightarrow> cv_Day (AddMonths_civil x j) = cv_Day x" for x j
      using days_in_bounds(1) [of "cv_Year (AddMonths_civil x j)" "cv_Month (AddMonths_civil x j)"] by (simp add: AddMonths_day)
    then have "cv_Day ?a = cv_Day ?b" using d by simp
    moreover have "cv_Clock ?a = cv_Clock ?b" by (simp add: AddMonths_civil_def Let_def)
    ultimately show ?thesis by (intro civil.equality) simp_all
  qed
  then show ?thesis using AddMonths_valid [OF assms] AddMonths_index(1) [OF assms] AddMonths_day by blast
qed

theorem add_months_calendar_witness:
  "cv_Day (AddMonths_civil \<lparr>cv_Year = 2024, cv_Month = 1, cv_Day = 31, cv_Clock = 0\<rparr> 1) = 29
    \<and> valid_civil (AddMonths_civil \<lparr>cv_Year = 2024, cv_Month = 1, cv_Day = 31, cv_Clock = 0\<rparr> 1)"
proof -
  let ?c = "\<lparr>cv_Year = 2024, cv_Month = 1, cv_Day = 31, cv_Clock = 0\<rparr>"
  have "valid_civil ?c" by code_simp
  moreover have "cv_Day (AddMonths_civil ?c 1) = 29" by code_simp
  ultimately show ?thesis using add_months_calendar [of ?c 1] by simp
qed

end
