(* ===== verification/Request_Props.thy ===== *)
theory Request_Props
  imports Commerce_Props Pricing
begin

text \<open>
  The exact effect of single requests of the commerce service: settlement and retirement of leases,
  purchases, refunds of purchases, redeem codes, referrals, quotes, and the schedule of reconciliation.
\<close>

section \<open>Settlement and retirement\<close>

definition demo_lease_db :: cdb where
  "demo_lease_db = (case runE commerce_step empty_db (take 5 demo_ops) of Inr db \<Rightarrow> db | Inl _ \<Rightarrow> empty_db)"

lemma demo_lease_run: "runE commerce_step empty_db (take 5 demo_ops) = Inr demo_lease_db"
proof -
  have "(case runE commerce_step empty_db (take 5 demo_ops) of Inl _ \<Rightarrow> False | Inr _ \<Rightarrow> True)" by code_simp
  then show ?thesis by (simp add: demo_lease_db_def split: sum.splits)
qed

lemma demo_prefix_ok: "list_all op_ok (take n demo_ops)"
  using demo_ok by (metis append_take_drop_id list_all_append)

text \<open>Settling a batch of usage records stores every record of it, and settling the same batch again, as an agent does
  that did not see the acknowledgement, succeeds and changes nothing.\<close>

theorem settlement_idempotent:
  assumes "runE commerce_step empty_db ops = Inr db" "list_all op_ok ops" "SettleUsageBatch us db = Inr db'"
  shows "SettleUsageBatch us db' = Inr db' \<and> (\<forall>u \<in> set us. \<exists>r. map_of (db_usage db') (u_ID u) = Some r \<and> ur_Payload r = u)"
proof -
  have inv: "quota_inv db" by (rule booksD(3) [OF reachable_books [OF assms(1,2)]])
  show ?thesis using settle_again [OF inv assms(3)] settled [OF inv assms(3)] by blast
qed

theorem settlement_idempotent_witness:
  "\<exists>db'. SettleUsageBatch [demo_usage] demo_lease_db = Inr db' \<and> db_usage db' \<noteq> [] \<and> SettleUsageBatch [demo_usage] db' = Inr db'"
proof -
  have "(case SettleUsageBatch [demo_usage] demo_lease_db of Inl _ \<Rightarrow> False | Inr db \<Rightarrow> db_usage db \<noteq> [])" by code_simp
  then obtain db' where d: "SettleUsageBatch [demo_usage] demo_lease_db = Inr db'" "db_usage db' \<noteq> []" by (auto split: sum.splits)
  then show ?thesis using settlement_idempotent [OF demo_lease_run demo_prefix_ok d(1)] by blast
qed

text \<open>Retiring a lease closes it and returns to the entitlement exactly the part of the reservation that the reported
  bytes did not use up; repeating the retirement succeeds without returning anything more, and no usage is
  accepted for the lease from then on.\<close>

theorem retirement_returns_unused:
  assumes "runE commerce_step empty_db ops = Inr db" "list_all op_ok ops" "RetireLease node i n db = Inr db'"
    and "map_of (db_res db) i = Some rv" "\<not> rv_Closed rv"
  shows "\<exists>l e e'. map_of (db_leases db) i = Some l \<and> n = lr_Used l
    \<and> map_of (db_ents db) (lr_Ent l) = Some e \<and> map_of (db_ents db') (lr_Ent l) = Some e'
    \<and> en_Allocated e' = en_Allocated e - (rv_Budget rv - \<lceil>of_int n * lr_Mult l\<rceil>)
    \<and> en_Used e' = en_Used e \<and> RetireLease node i n db' = Inr db'
    \<and> (\<forall>u st. u_LeaseID u = i \<longrightarrow> settle_one db' st u = Inl UsageOutsideLease)"
proof -
  have inv: "quota_inv db" by (rule booksD(3) [OF reachable_books [OF assms(1,2)]])
  have open': "\<not> lease_closed db i" using assms(4,5) by (simp add: lease_closed_def)
  show ?thesis
    using inv assms(3)
  proof (cases rule: RetireLease_cases)
    case 1
    then show ?thesis using open' by simp
  next
    case (2 l e)
    have K: "lease_ok db i l" by (rule quota_invD(6) [OF inv 2(1)])
    have c: "cost db i l = rv_Budget rv" using assms(4,5) by (simp add: cost_def)
    have closed: "lease_closed db' i" by (simp add: 2(6) lease_closed_def)
    have l': "map_of (db_leases db') i = Some l" using 2(1) by (simp add: 2(6))
    have "RetireLease node i n db' = Inr db'"
      using 2(2,3) l' closed K by (simp add: RetireLease_def row_def lease_ok_def lease_closed_def split: option.splits)
    moreover have "settle_one db' st u = Inl UsageOutsideLease" if "u_LeaseID u = i" for st u
      using closed that l' by (simp add: settle_one_def)
    moreover have e': "map_of (db_ents db') (lr_Ent l)
        = Some (e\<lparr>en_Allocated := en_Allocated e - (rv_Budget rv - \<lceil>of_int n * lr_Mult l\<rceil>)\<rparr>)" (is "_ = Some ?e'")
      using 2(3) K c by (simp add: 2(6) charge_ceiling lease_ok_def)
    ultimately show ?thesis
      by - (rule exI [of _ l], rule exI [of _ e], rule exI [of _ ?e'], use 2(1,3,5) e' in simp)
  qed
qed

theorem retirement_returns_unused_witness:
  "\<exists>db'. RetireLease ''n'' ''i8'' 251 demo_db = Inr db' \<and> RetireLease ''n'' ''i8'' 251 db' = Inr db'"
proof -
  have "(case RetireLease ''n'' ''i8'' 251 demo_db of Inl _ \<Rightarrow> False | Inr _ \<Rightarrow> True)" by code_simp
  then obtain db' where d: "RetireLease ''n'' ''i8'' 251 demo_db = Inr db'" by (auto split: sum.splits)
  have "map_of (db_res demo_db) ''i8'' = Some \<lparr>rv_Budget = 900, rv_Closed = False\<rparr>" by code_simp
  from retirement_returns_unused [OF demo_run demo_ok d this] d show ?thesis by auto
qed

section \<open>Reconciliation\<close>

text \<open>A due order is queried by one reconciliation at a time: whoever claims it moves its next attempt at least 30
  seconds and at most an hour away, and no other claim of the order, with whatever counter it read, succeeds before then.\<close>

theorem claim_is_exclusive:
  assumes "claim_order v i n db = Inr (True, db')"
  shows "\<exists>s. map_of (db_schedules db') i = Some s \<and> milli (ev_now v) + 30000 \<le> sc_NextAt s \<and> sc_NextAt s \<le> milli (ev_now v) + 3600000
    \<and> (\<forall>w m. milli (ev_now w) < sc_NextAt s \<longrightarrow> claim_order w i m db' = Inr (False, db'))
    \<and> db_orders db' = db_orders db"
proof -
  obtain o0 s where o: "map_of (db_orders db) i = Some o0" "is_payable (or_Status o0)"
    and s: "map_of (db_schedules db) i = Some s"
    and db': "db' = db\<lparr>db_schedules := put i \<lparr>sc_Attempts = (if n \<ge> 2147483647 then 2147483647 else n + 1),
        sc_NextAt = milli (ev_now v + reconciliationBackoff (if n \<ge> 2147483647 then 2147483647 else n + 1))\<rparr> (db_schedules db)\<rparr>"
    using assms by (auto simp: claim_order_def bindE_eq_Inr row_eq_Inr Let_def split: if_splits option.splits)
  have m: "milli (t + reconciliationDelay) = milli t + 30000" "milli (t + reconciliationMaxDelay) = milli t + 3600000" for t
    using milli_later [of 30000 t] milli_later [of 3600000 t] by (simp_all add: reconciliationDelay_def reconciliationMaxDelay_def)
  have mono: "milli a \<le> milli b" if "a \<le> b" for a b using that by (simp add: milli_def zdiv_mono1)
  have b: "milli (ev_now v) + 30000 \<le> milli (ev_now v + reconciliationBackoff a)"
    "milli (ev_now v + reconciliationBackoff a) \<le> milli (ev_now v) + 3600000" for a
    using mono [of "ev_now v + reconciliationDelay" "ev_now v + reconciliationBackoff a"]
      mono [of "ev_now v + reconciliationBackoff a" "ev_now v + reconciliationMaxDelay"] backoff_bounds [of a] by (simp_all add: m)
  have "claim_order w i k db' = Inr (False, db')" if "milli (ev_now w) < milli (ev_now v + reconciliationBackoff (if n \<ge> 2147483647 then 2147483647 else n + 1))" for w k
    using o that by (simp add: claim_order_def row_def db' Let_def)
  then show ?thesis using b by (simp add: db')
qed

definition demo_order_db :: cdb where
  "demo_order_db = (case runE commerce_step empty_db (take 1 demo_ops) of Inr db \<Rightarrow> db | Inl _ \<Rightarrow> empty_db)"

theorem claim_is_exclusive_witness:
  "\<exists>db'. claim_order (demo_env\<lparr>ev_now := 1030000000000\<rparr>) ''i0'' 0 demo_order_db = Inr (True, db')
    \<and> claim_order (demo_env\<lparr>ev_now := 1040000000000\<rparr>) ''i0'' 1 db' = Inr (False, db')"
proof -
  let ?v = "demo_env\<lparr>ev_now := 1030000000000\<rparr>" and ?w = "demo_env\<lparr>ev_now := 1040000000000\<rparr>"
  have "(case claim_order ?v ''i0'' 0 demo_order_db of Inr (b, _) \<Rightarrow> b | Inl _ \<Rightarrow> False)" by code_simp
  then obtain db' where d: "claim_order ?v ''i0'' 0 demo_order_db = Inr (True, db')" by (auto split: sum.splits)
  have "milli (ev_now ?w) < milli (ev_now ?v) + 30000" by code_simp
  then show ?thesis using claim_is_exclusive [OF d] d by fastforce
qed

end
