(* ===== verification/Purchase_Props.thy ===== *)
theory Purchase_Props
  imports Commerce_Props
begin

text \<open>
  Purchases, refunds of purchases, redeem codes and referrals: the exact effect of one request, and
  what holds over every sequence of them.
\<close>

section \<open>The newest entitlement\<close>

lemma last_sort_max:
  assumes "xs \<noteq> []"
  shows "last (sort_key f xs) \<in> set xs" "x \<in> set xs \<Longrightarrow> f x \<le> f (last (sort_key f xs))"
proof -
  let ?s = "sort_key f xs"
  have ne: "?s \<noteq> []" using assms by (metis length_0_conv length_sort)
  then show "last ?s \<in> set xs" using last_in_set by (metis set_sort)
  show "f x \<le> f (last ?s)" if "x \<in> set xs"
  proof -
    have "x \<in> set ?s" using that by simp
    then obtain i where i: "i < length ?s" "?s ! i = x" unfolding in_set_conv_nth by blast
    have "map f ?s ! i \<le> map f ?s ! (length ?s - 1)" using i by (intro sorted_nth_mono) auto
    then show ?thesis using i ne by (simp add: last_conv_nth)
  qed
qed

lemma version_le_current:
  assumes "(i, e) \<in> set (db_ents db)" "en_User e = user"
  shows "en_Version e \<le> current_version db user"
proof -
  let ?es = "filter (\<lambda>e. en_User e = user) (map snd (db_ents db))"
  have e: "e \<in> set ?es" using assms by force
  then have ne: "?es \<noteq> []" by (metis empty_iff list.set(1))
  then have "latest db user = Some (last (sort_key en_Version ?es))" by (simp add: latest_def split: list.splits)
  then show ?thesis using last_sort_max(2) [OF ne e, of en_Version] by (simp add: current_version_def)
qed

lemma latest_newest:
  assumes "(i, e) \<in> set (db_ents db)" "en_User e = user"
    and "\<And>j f. (j, f) \<in> set (db_ents db) \<Longrightarrow> en_User f = user \<Longrightarrow> f = e \<or> en_Version f < en_Version e"
  shows "latest db user = Some e"
proof -
  let ?es = "filter (\<lambda>e. en_User e = user) (map snd (db_ents db))"
  have e: "e \<in> set ?es" using assms(1,2) by force
  then have ne: "?es \<noteq> []" by (metis empty_iff list.set(1))
  let ?l = "last (sort_key en_Version ?es)"
  obtain j where "(j, ?l) \<in> set (db_ents db)" "en_User ?l = user" using last_sort_max(1) [OF ne, of en_Version] by force
  then have "?l = e \<or> en_Version ?l < en_Version e" by (rule assms(3))
  then have "?l = e" using last_sort_max(2) [OF ne e, of en_Version] by auto
  moreover have "latest db user = Some ?l" using ne by (simp add: latest_def split: list.splits)
  ultimately show ?thesis by simp
qed

section \<open>Purchases\<close>

lemma post_wallet: "post v u d k r db = Inr db' \<Longrightarrow> map_of (db_wallets db') u \<noteq> None"
  by (auto simp: post_def bindE_eq_Inr Let_def write_wallet_def write_journal_def emitEventTx_def draw_def
      split: prod.splits if_splits option.splits)

lemma walletTx_present: "map_of (db_wallets db) u \<noteq> None \<Longrightarrow> snd (walletTx u db) = db"
  by (auto simp: walletTx_def)

lemma recordCommission_frame:
  assumes "recordCommission v invitee source price db = Inr db'"
  shows "rest (db'\<lparr>db_commissions := []\<rparr>) = rest (db\<lparr>db_commissions := []\<rparr>)" "db_wallets db' = db_wallets db" "posts db [] db'"
  using assms by (auto simp: recordCommission_def draw_def Let_def bindE_eq_Inr rest_def intro!: posts_idle split: if_splits option.splits)

lemma buy_period_effect:
  assumes r: "buy_period v user plan key expected p db = Inr ((e, l), db')" and p: "plan_ok p"
  shows "posts db [(user, - p_Price p, ''purchase'', en_ID e)] db'"
    and "e = grant_ent user plan (current_version db user + 1) (ev_now v) (en_ExpiresAt e) (p_Quota p) (en_ID e)" "l = p_Limits p"
    and "\<not> has (db_ents db) (en_ID e)" "db_ents db' = put (en_ID e) e (db_ents db)"
    and "map_of (db_purchases db') (user, key) = Some \<lparr>pu_Plan = plan, pu_Expected = expected, pu_Ent = en_ID e\<rparr>"
    and "map_of (db_entLimits db') (en_ID e) = Some (p_Limits p)"
    and "map_of (db_snapshots db') (en_ID e) = Some \<lparr>ss_User = user, ss_Plan = p\<rparr>"
    and "map_of (db_wallets db') user \<noteq> None"
proof -
  let ?i = "ev_ids v (db_drawn db)" and ?db = "db\<lparr>db_drawn := Suc (db_drawn db)\<rparr>"
  obtain expiry db1 db2 db3 db4 db5 db6 m where
    e: "e = grant_ent user plan (current_version db user + 1) (ev_now v) expiry (p_Quota p) ?i" "l = p_Limits p"
    and s: "post v user (- p_Price p) ''purchase'' ?i ?db = Inr db1" "insert_ent e db1 = Inr db2"
    "snapshotLimits ?i (p_Limits p) db2 = Inr db3" "insert_snapshot ?i user p db3 = Inr db4"
    "recordCommission v user ?i (p_Price p) db4 = Inr db5"
    "emitEventTx v user ''entitlement.purchased'' [(''entitlement_id'', JStr ?i), (''plan_id'', JStr plan),
               (''amount_cents'', JInt (p_Price p))] db5 = Inr db6"
    "insert_row (user, key) \<lparr>pu_Plan = plan, pu_Expected = expected, pu_Ent = ?i\<rparr> (db_purchases db6) = Inr m"
    "db' = db6\<lparr>db_purchases := m\<rparr>"
    using r by (auto simp: buy_period_def draw_def Let_def bindE_eq_Inr)
  have i: "en_ID e = ?i" "en_ExpiresAt e = expiry" by (simp_all add: e(1) grant_ent_def)
  have d1: "rest db1 = rest db" using post_rest [OF s(1)] by simp
  have d2: "\<not> has (db_ents db1) ?i" "db2 = db1\<lparr>db_ents := put ?i e (db_ents db1)\<rparr>"
    using s(2) i(1) by (auto simp: insert_ent_def bindE_eq_Inr has_def split: if_splits)
  have d3: "db3 = db2\<lparr>db_entLimits := put ?i (p_Limits p) (db_entLimits db2)\<rparr>"
    using s(3) by (auto simp: snapshotLimits_def bindE_eq_Inr)
  have d4: "db4 = db3\<lparr>db_snapshots := put ?i \<lparr>ss_User = user, ss_Plan = p\<rparr> (db_snapshots db3)\<rparr>"
    using s(4) by (auto simp: insert_snapshot_def bindE_eq_Inr)
  note d5 = recordCommission_frame [OF s(5)] and d6 = emit_rest [OF s(6)]
  have f5: "db_ents db6 = db_ents db4" "db_entLimits db6 = db_entLimits db4" "db_snapshots db6 = db_snapshots db4"
    using rest_sel(3,4,13) [OF d5(1)] rest_sel(3,4,13) [OF d6] by simp_all
  show "e = grant_ent user plan (current_version db user + 1) (ev_now v) (en_ExpiresAt e) (p_Quota p) (en_ID e)"
    unfolding i by (rule e(1))
  show "l = p_Limits p" by (rule e(2))
  show "\<not> has (db_ents db) (en_ID e)" using d2(1) rest_sel(3) [OF d1] by (simp add: i)
  show "db_ents db' = put (en_ID e) e (db_ents db)" using rest_sel(3) [OF d1] by (simp add: s(8) f5 d4 d3 d2(2) i)
  show "map_of (db_entLimits db') (en_ID e) = Some (p_Limits p)" by (simp add: s(8) f5 d4 d3 i)
  show "map_of (db_snapshots db') (en_ID e) = Some \<lparr>ss_User = user, ss_Plan = p\<rparr>" by (simp add: s(8) f5 d4 i)
  show "map_of (db_purchases db') (user, key) = Some \<lparr>pu_Plan = plan, pu_Expected = expected, pu_Ent = en_ID e\<rparr>"
    using s(7) by (auto simp: s(8) i)
  have "db_wallets db6 = db_wallets db5" using emit_frame [OF s(6)] by simp
  then show "map_of (db_wallets db') user \<noteq> None" using post_wallet [OF s(1)] d5(2) by (simp add: s(8) d4 d3 d2(2))
  have "posts db [] ?db" "posts db1 [] db4" "posts db6 [] db'" by (rule posts_idle; simp add: d2(2) d3 d4 s(8))+
  moreover have "posts ?db [(user, - p_Price p, ''purchase'', ?i)] db1"
    by (rule posts_post [OF s(1)]) (use p in \<open>simp add: plan_ok_def min_int64_def\<close>)
  ultimately show "posts db [(user, - p_Price p, ''purchase'', en_ID e)] db'"
    unfolding i using d5(3) posts_emit [OF s(6)] by (meson posts_before posts_after)
qed

text \<open>A purchase under a new key charges the price of the plan once and grants one entitlement with the quota of the plan,
  which becomes the newest of the user; repeating the request with the same key, at any later time, returns the same
  result and charges nothing.\<close>

theorem purchase_charges_once:
  assumes "runE commerce_step empty_db ops = Inr db" "list_all op_ok ops"
    and r: "PurchaseQuote v user plan key expected planVersion db = Inr ((e, l), db')" "map_of (db_purchases db) (user, key) = None"
  shows "\<exists>p. planTx db plan = Inr p \<and> p_Active p
    \<and> balance user db' = balance user db - p_Price p
    \<and> map (\<lambda>j. (jl_User j, jl_Amount j, jl_Kind j, jl_Reference j)) (db_journal db')
        = map (\<lambda>j. (jl_User j, jl_Amount j, jl_Kind j, jl_Reference j)) (db_journal db) @ [(user, - p_Price p, ''purchase'', en_ID e)]
    \<and> en_Version e = expected + 1 \<and> en_Quota e = p_Quota p \<and> en_Used e = 0 \<and> latest db' user = Some e
    \<and> (\<forall>w. ev_account w user = None \<longrightarrow> PurchaseQuote w user plan key expected planVersion db' = Inr ((e, l), db'))"
proof -
  have b: "books db" by (rule reachable_books [OF assms(1,2)])
  let ?db = "snd (walletTx user db)"
  note fr = rest_sel [OF walletTx_rest [of user db]]
  obtain p where k: "key \<noteq> []" "length key \<le> 128" and cv: "current_version ?db user = expected" and p: "planTx ?db plan = Inr p" "p_Active p"
    and pv: "planVersion = 0 \<or> p_Version p = planVersion" and buy: "buy_period v user plan key expected p ?db = Inr ((e, l), db')"
    using r fr(12) by (auto simp: PurchaseQuote_def purchaseTx_def bindE_eq_Inr Let_def split: if_splits option.splits)
  have pl: "planTx db plan = Inr p" using p(1) fr(2) by (simp add: planTx_def)
  have pok: "plan_ok p" by (rule planTx_ok [OF booksD(2) [OF b] pl])
  note E = buy_period_effect [OF buy pok]
  have posts: "posts db [(user, - p_Price p, ''purchase'', en_ID e)] db'" by (rule posts_before [OF posts_walletTx E(1)])
  have ef: "en_User e = user" "en_Version e = expected + 1" "en_Quota e = p_Quota p" "en_Used e = 0"
    by (subst E(2), simp add: grant_ent_def cv)+
  have m: "map_of (db_ents db') (en_ID e) = Some e" by (simp add: E(5))
  have "latest db' user = Some e"
  proof (rule latest_newest)
    show "(en_ID e, e) \<in> set (db_ents db')" using m by (rule map_of_SomeD)
    show "f = e \<or> en_Version f < en_Version e" if f: "(j, f) \<in> set (db_ents db')" "en_User f = user" for j f
    proof -
      have "(j, f) = (en_ID e, e) \<or> (j, f) \<in> set (db_ents ?db)" using f(1) unfolding E(5) by (rule put_set)
      then show ?thesis using version_le_current [of j f ?db user] f(2) cv ef(2) by auto
    qed
  qed (rule ef(1))
  moreover have "PurchaseQuote w user plan key expected planVersion db' = Inr ((e, l), db')" if "ev_account w user = None" for w
    using that k E(3,6,7,8) m pv pok walletTx_present [OF E(9)]
    by (auto simp: PurchaseQuote_def purchaseTx_def replay_purchase_def entitlementLimits_def plan_ok_def row_def)
  moreover have "balance user db' = balance user db - p_Price p" using posts_balance(2) [OF posts booksD(1) [OF b], of user] by simp
  ultimately show ?thesis using pl p(2) ef posts booksD(1) [OF b] by (auto simp: posts_def entries_def)
qed

definition demo_plan_db :: cdb where
  "demo_plan_db = (case runE commerce_step empty_db (take 3 demo_ops) of Inr db \<Rightarrow> db | Inl _ \<Rightarrow> empty_db)"

lemma demo_plan_run: "runE commerce_step empty_db (take 3 demo_ops) = Inr demo_plan_db"
proof -
  have "(case runE commerce_step empty_db (take 3 demo_ops) of Inl _ \<Rightarrow> False | Inr _ \<Rightarrow> True)" by code_simp
  then show ?thesis by (simp add: demo_plan_db_def split: sum.splits)
qed

lemma demo_take_ok: "list_all op_ok (take n demo_ops)"
  using demo_ok by (metis append_take_drop_id list_all_append)

theorem purchase_charges_once_witness:
  "\<exists>e l db'. PurchaseQuote demo_env ''u'' ''i3'' ''p1'' 0 0 demo_plan_db = Inr ((e, l), db') \<and> latest db' ''u'' = Some e
    \<and> PurchaseQuote demo_env ''u'' ''i3'' ''p1'' 0 0 db' = Inr ((e, l), db')"
proof -
  have "(case PurchaseQuote demo_env ''u'' ''i3'' ''p1'' 0 0 demo_plan_db of Inl _ \<Rightarrow> False | Inr _ \<Rightarrow> True)" by code_simp
  then obtain e l db' where d: "PurchaseQuote demo_env ''u'' ''i3'' ''p1'' 0 0 demo_plan_db = Inr ((e, l), db')"
    by (auto split: sum.splits)
  have n: "map_of (db_purchases demo_plan_db) (''u'', ''p1'') = None" by code_simp
  have "ev_account demo_env ''u'' = None" by (simp add: demo_env_def)
  then show ?thesis using purchase_charges_once [OF demo_plan_run demo_take_ok d n] d by blast
qed

section \<open>Refunds of purchases\<close>


end
