(* ===== verification/Control.thy ===== *)
theory Control
  imports Billing
begin

text \<open>
  Leases in the control plane (\<open>internal/platform/leases.go\<close>, \<open>lease_set.go\<close>, \<open>usage_batch.go\<close>, with the policy checks of
  \<open>resource_limits.go\<close>, \<open>group_types.go\<close> and \<open>resources.go\<close>). Every node has forwarding rules; a rule that its owner may use
  holds a lease of the commerce service, and possibly a second one in reserve. The control plane keeps its own table
  of leases, retirements and usage records next to the commerce tables, and each handler below changes both in one
  transaction.

  The panel is the one that \<open>internal/app/app.go\<close> wires: the entitlements are the commerce service. Other handlers of the
  platform edit users, groups, nodes and rules; here their tables are data. A request reads the clock once. The rational
  number that \<open>big.Rat.SetString\<close> reads in a multiplier stands for its text.
\<close>

datatype control_error = Db commerce_error | PrefetchStale | PrefetchForbidden | OwnerDisabled | CpConflict | CpMissing
  | BadRequest | UsageBatchTooLarge | InvalidWindowUsage | InvalidUsage | OutsideLease | LeaseExceeded | InvalidLease
  | InvalidMultiplier | UsageMismatch

definition lift_db :: "commerce_error + 'a \<Rightarrow> control_error + 'a" where
  "lift_db r = (case r of Inl e \<Rightarrow> Inl (Db e) | Inr x \<Rightarrow> Inr x)"

lemma lift_db_eq_Inr [simp]: "lift_db r = Inr x \<longleftrightarrow> r = Inr x"
  by (simp add: lift_db_def split: sum.splits)

section \<open>Tables\<close>

record cp_user =
  cu_Role :: string
  cu_Disabled :: bool
  cu_Identity :: string

record group =
  g_ID :: string
  g_OwnerID :: string
  g_Type :: string
  g_DirectPolicy :: string
  g_DisableUDP :: bool
  g_BlockedProtocols :: "string list"
  g_DisabledNetworks :: "string list"
  g_DisabledTransports :: "string list"
  g_Multiplier :: "rat option"

record cp_node =
  cn_Capabilities :: "string list"
  cn_Desired :: int

text \<open>\<open>kr_Hops\<close> are the transports of the chain of the rule's tunnel.\<close>

record control_rule =
  kr_ID :: string
  kr_UserID :: string
  kr_NodeID :: string
  kr_GroupID :: string
  kr_Network :: string
  kr_Transport :: string
  kr_Hops :: "string list"
  kr_ExitGroupID :: string
  kr_BillingMultiplier :: "rat option"
  kr_ExitUnavailable :: bool
  kr_Enabled :: bool
  kr_Version :: int
  kr_Lease :: "lease option"
  kr_StandbyLease :: "lease option"
  kr_Deleted :: bool

record cp_lease =
  cl_Rule :: string
  cl_Node :: string
  cl_Ent :: string
  cl_Bytes :: int
  cl_Used :: int
  cl_Expires :: int

record cp_usage =
  us_Node :: string
  us_Payload :: usage_record

record control =
  k_users :: "(string, cp_user) gomap"
  k_identities :: "(string \<times> string) list"
  k_groups :: "(string, group) gomap"
  k_nodes :: "(string, cp_node) gomap"
  k_rules :: "(string, control_rule) gomap"
  k_ruleLimits :: "(string, int) gomap"
  k_leases :: "(string, cp_lease) gomap"
  k_retired :: "(string, int) gomap"
  k_usage :: "(string, cp_usage) gomap"
  k_db :: cdb

definition Unix :: "gotime \<Rightarrow> int" where "Unix t = t div 1000000000"

definition cp_row :: "('k, 'v) gomap \<Rightarrow> 'k \<Rightarrow> control_error + 'v" where
  "cp_row m k = (case map_of m k of None \<Rightarrow> Inl CpMissing | Some v \<Rightarrow> Inr v)"

lemma cp_row_eq_Inr [simp]: "cp_row m k = Inr v \<longleftrightarrow> map_of m k = Some v"
  by (simp add: cp_row_def split: option.splits)

section \<open>Policy\<close>

definition CanEnter :: "group \<Rightarrow> bool" where
  "CanEnter g \<longleftrightarrow> g_Type g = '''' \<or> g_Type g = ''entry''"

definition HasPrefix :: "string \<Rightarrow> string \<Rightarrow> bool" where
  "HasPrefix s p \<longleftrightarrow> take (length p) s = p"

text \<open>Old groups list networks and transports among the blocked protocols.\<close>

definition blocks_network :: "string \<Rightarrow> bool" where
  "blocks_network p \<longleftrightarrow> p = ''tcp'' \<or> p = ''udp'' \<or> HasPrefix p ''network:''"

definition blocks_transport :: "string \<Rightarrow> bool" where
  "blocks_transport p \<longleftrightarrow> \<not> blocks_network p \<and> (p \<in> set [''direct'', ''direct-tls'', ''secure-direct'', ''tls'', ''ws'', ''wss'', ''http'']
     \<or> HasPrefix p ''transport:'')"

definition add_missing :: "string \<Rightarrow> string list \<Rightarrow> string list" where
  "add_missing x xs = (if x \<in> set xs then xs else xs @ [x])"

text \<open>What an old group blocks is sorted into networks, transports and applications; the applications do not matter to leases and
  are left out.\<close>

definition splitGroupPolicy :: "group \<Rightarrow> group" where
  "splitGroupPolicy g = g\<lparr>
     g_DisabledNetworks := fold (\<lambda>p. add_missing (TrimPrefix ''network:'' p)) (filter blocks_network (g_BlockedProtocols g)) (g_DisabledNetworks g),
     g_DisabledTransports := fold (\<lambda>p. add_missing (TrimPrefix ''transport:'' p)) (filter blocks_transport (g_BlockedProtocols g)) (g_DisabledTransports g)\<rparr>"

definition policyDenied :: "group \<Rightarrow> control_rule \<Rightarrow> bool" where
  "policyDenied g0 rule = (let g = splitGroupPolicy g0 in
     g_DisableUDP g \<and> kr_Network rule = ''udp''
     \<or> kr_Network rule \<in> set (g_DisabledNetworks g) \<or> kr_Transport rule \<in> set (g_DisabledTransports g)
     \<or> list_ex (\<lambda>hop. hop \<in> set (g_DisabledTransports g)) (kr_Hops rule))"

definition entryPolicyDenied :: "group \<Rightarrow> control_rule \<Rightarrow> bool" where
  "entryPolicyDenied g rule =
     (if \<not> CanEnter g \<or> policyDenied g rule then True
      else let direct = (kr_Transport rule \<in> set [''direct'', ''direct-tls'', ''secure-direct'']) in
        g_DirectPolicy g = ''forbid'' \<and> direct \<or> g_DirectPolicy g = ''force'' \<and> \<not> direct)"

definition groupAuthorized :: "control \<Rightarrow> string \<Rightarrow> string \<Rightarrow> bool" where
  "groupAuthorized k gid user = (case map_of (k_users k) user of None \<Rightarrow> False | Some u \<Rightarrow>
     (gid, cu_Identity u) \<in> set (k_identities k)
     \<and> (case map_of (k_groups k) gid of None \<Rightarrow> False | Some g \<Rightarrow> g_OwnerID g = '''' \<or> g_OwnerID g = user))"

definition lockRuleOwner :: "control \<Rightarrow> string \<Rightarrow> control_error + unit" where
  "lockRuleOwner k user = bindE (cp_row (k_users k) user) (\<lambda>u. if cu_Disabled u then Inl OwnerDisabled else Inr ())"

definition LimitsTx :: "control \<Rightarrow> string \<Rightarrow> control_error + int" where
  "LimitsTx k user =
     bindE (case latest (k_db k) user of None \<Rightarrow> Inr 0
            | Some e \<Rightarrow> lift_db (bindE (entitlementLimits (k_db k) (en_ID e)) (\<lambda>l. Inr (pl_MaxRules l)))) (\<lambda>n.
     Inr (case map_of (k_ruleLimits k) user of None \<Rightarrow> n | Some override \<Rightarrow> override))"

definition withinPlanRuleLimit :: "control \<Rightarrow> control_rule \<Rightarrow> int \<Rightarrow> bool" where
  "withinPlanRuleLimit k rule maximum \<longleftrightarrow> maximum = 0
     \<or> int (length (filter (\<lambda>(i, r). kr_UserID r = kr_UserID rule \<and> \<not> kr_Deleted r \<and> i \<le> kr_ID rule) (k_rules k))) \<le> maximum"

definition leaseMultiplier :: "control_rule \<Rightarrow> group \<Rightarrow> rat option" where
  "leaseMultiplier rule g = (if kr_ExitGroupID rule \<noteq> '''' then kr_BillingMultiplier rule else g_Multiplier g)"

section \<open>Allocating\<close>

definition liveLeaseTx :: "env \<Rightarrow> control \<Rightarrow> string \<Rightarrow> lease option \<Rightarrow> bool" where
  "liveLeaseTx v k user lo = (case lo of None \<Rightarrow> False | Some l \<Rightarrow>
     if \<not> ev_now v < l_ExpiresAt l then False
     else if has (k_retired k) (l_ID l) then False
     else if l_EntitlementID l = ''admin-test'' then True
     else LeaseCurrent v user (Some l) (k_db k))"

definition boundedLeaseBudget :: "int \<Rightarrow> rat option \<Rightarrow> control_error + int" where
  "boundedLeaseBudget raw multiplier = (case multiplier of None \<Rightarrow> Inl InvalidMultiplier | Some m \<Rightarrow>
     if m \<le> 0 then Inl InvalidMultiplier
     else case quotient_of m of (num, den) \<Rightarrow>
       let b = quo (raw * num + (den - 1)) den in
       Inr (if \<not> fits64 b then 268435456 else min 268435456 (max 16777216 b)))"

definition insert_cp_lease :: "string \<Rightarrow> string \<Rightarrow> lease \<Rightarrow> control \<Rightarrow> control_error + control" where
  "insert_cp_lease rule node l k = lift_db (bindE (insert_row (l_ID l) \<lparr>cl_Rule = rule, cl_Node = node,
      cl_Ent = l_EntitlementID l, cl_Bytes = l_Bytes l, cl_Used = 0, cl_Expires = Unix (l_ExpiresAt l)\<rparr> (k_leases k)) (\<lambda>m.
      Inr (k\<lparr>k_leases := m\<rparr>)))"

definition allocate :: "env \<Rightarrow> control_rule \<Rightarrow> rat option \<Rightarrow> int \<Rightarrow> control \<Rightarrow> commerce_error + (lease \<times> control)" where
  "allocate v rule m budget k =
     bindE (AllocateBudgetWithMultiplier v (kr_UserID rule) (kr_ID rule) (kr_NodeID rule) m budget (k_db k)) (\<lambda>(l, db).
       Inr (l, k\<lparr>k_db := db\<rparr>))"

definition outstanding_leases :: "control \<Rightarrow> string \<Rightarrow> nat" where
  "outstanding_leases k rule = length (filter (\<lambda>(i, c). cl_Rule c = rule \<and> \<not> has (k_retired k) i) (k_leases k))"

definition allocateStandbyTx :: "env \<Rightarrow> control_rule \<Rightarrow> rat option \<Rightarrow> int \<Rightarrow> control \<Rightarrow> control_error + (lease option \<times> control)" where
  "allocateStandbyTx v rule m budget k = (case kr_Lease rule of None \<Rightarrow> Inr (None, k) | Some primary \<Rightarrow>
     if l_EntitlementID primary = ''admin-test'' then Inr (None, k)
     else if outstanding_leases k (kr_ID rule) \<ge> 4 then Inr (None, k)
     else case allocate v rule m budget k of
       Inl e \<Rightarrow> if e = EntitlementUnavailable then Inr (None, k) else Inl (Db e)
     | Inr (l, k1) \<Rightarrow>
         if l_Bytes l \<le> 0 \<or> \<not> ev_now v < l_ExpiresAt l \<or> l_ExpiresAt l > ev_now v + minutes 5 + 1000000000
            \<or> l_EntitlementID l \<noteq> l_EntitlementID primary
         then Inl InvalidLease
         else bindE (insert_cp_lease (kr_ID rule) (kr_NodeID rule) l k1) (\<lambda>k2. Inr (Some l, k2)))"

definition refillStandbyTx :: "env \<Rightarrow> control_rule \<Rightarrow> group \<Rightarrow> int \<Rightarrow> control \<Rightarrow> control_error + (bool \<times> control_rule \<times> control)" where
  "refillStandbyTx v rule g rawBudget k =
     (if rawBudget \<le> 0 \<or> rawBudget > 268435456 \<or> kr_Network rule \<noteq> ''tcp'' \<or> kr_Lease rule = None \<or> kr_StandbyLease rule \<noteq> None
      then Inr (False, rule, k)
      else bindE (boundedLeaseBudget rawBudget (leaseMultiplier rule g)) (\<lambda>budget.
           bindE (allocateStandbyTx v rule (leaseMultiplier rule g) budget k) (\<lambda>(standby, k1).
             case standby of None \<Rightarrow> Inr (False, rule, k1)
             | Some l \<Rightarrow> Inr (True, rule\<lparr>kr_StandbyLease := Some l\<rparr>, k1))))"

text \<open>\<open>UPDATE cp_rules ... WHERE id=? AND version=? AND deleted=0\<close>; the number of changed rows is checked by the refresh only.\<close>

definition same_version :: "control \<Rightarrow> control_rule \<Rightarrow> bool" where
  "same_version k rule = (case map_of (k_rules k) (kr_ID rule) of None \<Rightarrow> False
     | Some r \<Rightarrow> kr_Version r = kr_Version rule \<and> \<not> kr_Deleted r)"

definition put_rule :: "control_rule \<Rightarrow> control \<Rightarrow> control" where
  "put_rule rule k = (if same_version k rule then k\<lparr>k_rules := put (kr_ID rule) rule (k_rules k)\<rparr> else k)"

definition bump_node :: "string \<Rightarrow> control \<Rightarrow> control" where
  "bump_node node k = (case map_of (k_nodes k) node of None \<Rightarrow> k
     | Some n \<Rightarrow> k\<lparr>k_nodes := put node (n\<lparr>cn_Desired := cn_Desired n + 1\<rparr>) (k_nodes k)\<rparr>)"

section \<open>Refreshing the leases of a node\<close>

record refill_hint =
  rh_Rule :: string
  rh_Retired :: string
  rh_Successor :: string
  rh_Budget :: int

definition no_hint :: refill_hint where
  "no_hint = \<lparr>rh_Rule = '''', rh_Retired = '''', rh_Successor = '''', rh_Budget = 0\<rparr>"

text \<open>One row of the query that reads the rules of a node with their group and owner. The limits of an account are read
  once per refresh.\<close>

record item =
  it_rule :: control_rule
  it_group :: group
  it_disabled :: bool
  it_role :: string
  it_authorized :: bool

definition refresh_items :: "control \<Rightarrow> string \<Rightarrow> item list" where
  "refresh_items k node = List.map_filter (\<lambda>(i, r).
     if kr_NodeID r \<noteq> node \<or> kr_Deleted r then None
     else case (map_of (k_groups k) (kr_GroupID r), map_of (k_users k) (kr_UserID r)) of
       (Some g, Some u) \<Rightarrow> Some \<lparr>it_rule = r, it_group = g, it_disabled = cu_Disabled u, it_role = cu_Role u,
          it_authorized = groupAuthorized k (kr_GroupID r) (kr_UserID r)\<rparr>
     | _ \<Rightarrow> None) (k_rules k)"

record refresh_state =
  rs_policies :: "(string, int) gomap"
  rs_changed :: bool
  rs_k :: control

definition save_rule :: "control_rule \<Rightarrow> refresh_state \<Rightarrow> control_error + refresh_state" where
  "save_rule rule s = (if \<not> same_version (rs_k s) rule then Inl CpConflict
     else Inr (s\<lparr>rs_k := put_rule rule (rs_k s), rs_changed := True\<rparr>))"

text \<open>A rule whose lease is still good keeps it: it may get a lease in reserve, and lose old limits or a reserve that
  is no longer good.\<close>

definition keep_lease :: "env \<Rightarrow> bool \<Rightarrow> refill_hint \<Rightarrow> group \<Rightarrow> bool \<Rightarrow> bool \<Rightarrow> control_rule \<Rightarrow> refresh_state
    \<Rightarrow> control_error + refresh_state" where
  "keep_lease v pipeline hint g legacy dropped rule s =
     bindE (if pipeline \<and> kr_ID rule = rh_Rule hint \<and> map_option l_ID (kr_Lease rule) = Some (rh_Successor hint)
            then refillStandbyTx v rule g (rh_Budget hint) (rs_k s) else Inr (False, rule, rs_k s)) (\<lambda>(refilled, rule1, k1).
       if legacy \<or> dropped \<or> refilled then save_rule rule1 (s\<lparr>rs_k := k1\<rparr>) else Inr (s\<lparr>rs_k := k1\<rparr>))"

text \<open>The lease that takes the place of one that is no longer good: the one in reserve, or a new one.\<close>

definition next_lease :: "env \<Rightarrow> bool \<Rightarrow> bool \<Rightarrow> bool \<Rightarrow> control_rule \<Rightarrow> group \<Rightarrow> control
    \<Rightarrow> control_error + (lease option \<times> bool \<times> control)" where
  "next_lease v pipeline allowed retiredPrimary rule g k =
     (case (if allowed then kr_StandbyLease rule else None) of
        Some l \<Rightarrow> Inr (Some l, True, k)
      | None \<Rightarrow>
          if \<not> allowed then Inr (None, False, k)
          else let m = leaseMultiplier rule g in
            bindE (case kr_Lease rule of
                Some old \<Rightarrow> if pipeline \<and> retiredPrimary then boundedLeaseBudget (l_Bytes old) m else Inr 16777216
              | None \<Rightarrow> Inr 16777216) (\<lambda>budget.
            case allocate v rule m budget k of
              Inl e \<Rightarrow> if e = EntitlementUnavailable then Inr (None, False, k) else Inl (Db e)
            | Inr (l, k1) \<Rightarrow> Inr (Some l, False, k1)))"

definition replace_lease :: "env \<Rightarrow> bool \<Rightarrow> refill_hint \<Rightarrow> group \<Rightarrow> bool \<Rightarrow> bool \<Rightarrow> control_rule \<Rightarrow> refresh_state
    \<Rightarrow> control_error + refresh_state" where
  "replace_lease v pipeline hint g allowed retiredPrimary rule s =
     bindE (next_lease v pipeline allowed retiredPrimary rule g (rs_k s)) (\<lambda>(lo, promoted, k1).
     if kr_Lease rule = None \<and> lo = None then Inr (s\<lparr>rs_k := k1\<rparr>)
     else bindE (case lo of
         Some l \<Rightarrow> if promoted then Inr k1
           else if l_Bytes l \<le> 0 \<or> \<not> ev_now v < l_ExpiresAt l \<or> l_ExpiresAt l > ev_now v + minutes (24 * 60) + 1000000000
           then Inl InvalidLease
           else insert_cp_lease (kr_ID rule) (kr_NodeID rule) l k1
       | None \<Rightarrow> Inr k1) (\<lambda>k2.
       let rule1 = rule\<lparr>kr_Lease := lo, kr_StandbyLease := None\<rparr> in
       bindE (if allowed \<and> pipeline \<and> retiredPrimary \<and> kr_ID rule = rh_Rule hint
                \<and> map_option l_ID (kr_Lease rule) = Some (rh_Retired hint)
              then refillStandbyTx v rule1 g (rh_Budget hint) k2 else Inr (False, rule1, k2)) (\<lambda>(_, rule2, k3).
         save_rule rule2 (s\<lparr>rs_k := k3\<rparr>))))"

definition refresh_item :: "env \<Rightarrow> bool \<Rightarrow> refill_hint \<Rightarrow> refresh_state \<Rightarrow> item \<Rightarrow> control_error + refresh_state" where
  "refresh_item v pipeline hint s it =
     (let rule = it_rule it; g = it_group it in
      if kr_ExitUnavailable rule \<or> \<not> kr_Enabled rule \<or> it_disabled it \<or> entryPolicyDenied g rule
         \<or> (it_role it \<noteq> ''admin'' \<and> \<not> it_authorized it)
      then Inr s
      else bindE (case map_of (rs_policies s) (kr_UserID rule) of Some n \<Rightarrow> Inr n | None \<Rightarrow> LimitsTx (rs_k s) (kr_UserID rule)) (\<lambda>n.
        let s1 = s\<lparr>rs_policies := put (kr_UserID rule) n (rs_policies s)\<rparr>; k = rs_k s1;
            allowed = withinPlanRuleLimit k rule n;
            legacy = (case kr_Lease rule of None \<Rightarrow> False | Some l \<Rightarrow> l_Limits l \<noteq> no_limits);
            dropped = (kr_StandbyLease rule \<noteq> None \<and> (\<not> liveLeaseTx v k (kr_UserID rule) (kr_StandbyLease rule) \<or> \<not> pipeline));
            rule1 = (if dropped then rule\<lparr>kr_StandbyLease := None\<rparr> else rule);
            rule2 = rule1\<lparr>kr_Lease := map_option (\<lambda>l. l\<lparr>l_Limits := no_limits\<rparr>) (kr_Lease rule1)\<rparr>;
            unexpired = (allowed \<and> (case kr_Lease rule2 of None \<Rightarrow> False | Some l \<Rightarrow> ev_now v < l_ExpiresAt l));
            retired = (case kr_Lease rule2 of None \<Rightarrow> False | Some l \<Rightarrow> has (k_retired k) (l_ID l));
            valid = (unexpired \<and> \<not> retired \<and> (case kr_Lease rule2 of None \<Rightarrow> False
               | Some l \<Rightarrow> l_EntitlementID l = ''admin-test'' \<or> LeaseCurrent v (kr_UserID rule) (Some l) (k_db k)))
        in if valid then keep_lease v pipeline hint g legacy dropped rule2 s1
           else replace_lease v pipeline hint g allowed (unexpired \<and> retired) rule2 s1))"

definition refreshLeasesWithPrefetch :: "env \<Rightarrow> string \<Rightarrow> refill_hint \<Rightarrow> control \<Rightarrow> control_error + control" where
  "refreshLeasesWithPrefetch v node hint k = bindE (cp_row (k_nodes k) node) (\<lambda>info.
     bindE (runE (refresh_item v (''lease-set-v1'' \<in> set (cn_Capabilities info)) hint)
              \<lparr>rs_policies = [], rs_changed = False, rs_k = k\<rparr> (refresh_items k node)) (\<lambda>s.
       Inr (if rs_changed s then bump_node node (rs_k s) else rs_k s)))"

section \<open>Prefetching and retiring\<close>

definition prefetch_grant :: "env \<Rightarrow> string \<Rightarrow> control_rule \<Rightarrow> group \<Rightarrow> int \<Rightarrow> control \<Rightarrow> control_error + (string \<times> control)" where
  "prefetch_grant v node rule g rawBudget k = (case kr_StandbyLease rule of Some l \<Rightarrow> Inr (l_ID l, k)
     | None \<Rightarrow> bindE (boundedLeaseBudget rawBudget (leaseMultiplier rule g)) (\<lambda>budget.
         bindE (allocateStandbyTx v rule (leaseMultiplier rule g) budget k) (\<lambda>(standby, k1).
           case standby of None \<Rightarrow> Inr ('''', k1)
           | Some l \<Rightarrow> Inr (l_ID l, bump_node node (put_rule (rule\<lparr>kr_StandbyLease := Some l\<rparr>) k1)))))"

definition prefetchLease :: "env \<Rightarrow> string \<Rightarrow> string \<Rightarrow> string \<Rightarrow> int \<Rightarrow> control \<Rightarrow> control_error + (string \<times> control)" where
  "prefetchLease v node ruleID leaseID rawBudget k =
     (if rawBudget < 1 \<or> rawBudget > 268435456 then Inl BadRequest
      else case map_of (k_rules k) ruleID of None \<Rightarrow> Inl PrefetchStale | Some rule \<Rightarrow>
      if kr_NodeID rule \<noteq> node \<or> kr_Deleted rule then Inl PrefetchStale
      else bindE (lockRuleOwner k (kr_UserID rule)) (\<lambda>_.
        bindE (cp_row (k_nodes k) node) (\<lambda>info.
        if ''lease-set-v1'' \<notin> set (cn_Capabilities info) then Inl PrefetchForbidden
        else if \<not> kr_Enabled rule \<or> kr_ExitUnavailable rule \<or> map_option l_ID (kr_Lease rule) \<noteq> Some leaseID then Inl PrefetchStale
        else bindE (cp_row (k_groups k) (kr_GroupID rule)) (\<lambda>g.
        if entryPolicyDenied g rule then Inl PrefetchForbidden
        else bindE (cp_row (k_users k) (kr_UserID rule)) (\<lambda>u.
        if cu_Role u \<noteq> ''admin'' \<and> \<not> groupAuthorized k (g_ID g) (kr_UserID rule) then Inl PrefetchForbidden
        else bindE (LimitsTx k (kr_UserID rule)) (\<lambda>n.
        if \<not> withinPlanRuleLimit k rule n then Inl PrefetchForbidden
        else if \<not> liveLeaseTx v k (kr_UserID rule) (kr_Lease rule) then Inl PrefetchStale
        else prefetch_grant v node rule g rawBudget k))))))"

text \<open>The transaction of \<open>retireLease\<close>; \<open>rawBudget\<close> is the budget in the request's header, 0 when it has none that counts.\<close>

definition retire_tx :: "string \<Rightarrow> string \<Rightarrow> int \<Rightarrow> int \<Rightarrow> control \<Rightarrow> control_error + (refill_hint \<times> control)" where
  "retire_tx node leaseID used rawBudget k = bindE (cp_row (k_leases k) leaseID) (\<lambda>c.
     if cl_Node c \<noteq> node \<or> cl_Used c \<noteq> used then Inl UsageMismatch
     else case map_of (k_retired k) leaseID of
       Some previous \<Rightarrow> if previous \<noteq> used then Inl CpConflict else Inr (no_hint, k)
     | None \<Rightarrow>
         let hint = (if rawBudget \<le> 0 then no_hint else case map_of (k_rules k) (cl_Rule c) of None \<Rightarrow> no_hint | Some rule \<Rightarrow>
               if kr_NodeID rule \<noteq> node \<or> kr_Deleted rule \<or> map_option l_ID (kr_Lease rule) \<noteq> Some leaseID then no_hint
               else \<lparr>rh_Rule = cl_Rule c, rh_Retired = leaseID,
                      rh_Successor = (case kr_StandbyLease rule of None \<Rightarrow> '''' | Some l \<Rightarrow> l_ID l), rh_Budget = rawBudget\<rparr>)
         in bindE (if cl_Ent c = ''admin-test'' then Inr (k_db k) else lift_db (RetireLease node leaseID used (k_db k))) (\<lambda>db.
            bindE (lift_db (insert_row leaseID used (k_retired k))) (\<lambda>m.
              Inr (hint, bump_node node (k\<lparr>k_db := db, k_retired := m\<rparr>)))))"

definition retireLease :: "env \<Rightarrow> string \<Rightarrow> string \<Rightarrow> int \<Rightarrow> int \<Rightarrow> bool \<Rightarrow> control \<Rightarrow> control_error + control" where
  "retireLease v node leaseID used header wantConfig k =
     (if used < 0 then Inl BadRequest
      else let rawBudget = (if header < 1 \<or> header > 268435456 \<or> used = 0 \<or> \<not> wantConfig then 0 else header) in
        bindE (retire_tx node leaseID used rawBudget k) (\<lambda>(hint, k1).
          Inr (if wantConfig then (case refreshLeasesWithPrefetch v node hint k1 of Inl _ \<Rightarrow> k1 | Inr k2 \<Rightarrow> k2) else k1)))"

section \<open>Usage\<close>

fun cp_dedupe :: "env \<Rightarrow> string \<Rightarrow> usage_record list \<Rightarrow> (string, usage_record) gomap \<Rightarrow> control_error + usage_record list" where
  "cp_dedupe v node [] seen = Inr []"
| "cp_dedupe v node (u # us) seen =
     (if \<not> ValidWindowMetadata u then Inl InvalidWindowUsage
      else if u_NodeID u \<noteq> node \<or> \<not> valid_usage u \<or> u_EndedAt u > ev_now v + minutes 1 then Inl InvalidUsage
      else case map_of seen (u_ID u) of
        Some old \<Rightarrow> if old \<noteq> u then Inl CpConflict else cp_dedupe v node us seen
      | None \<Rightarrow> bindE (cp_dedupe v node us (put (u_ID u) u seen)) (\<lambda>rest. Inr (u # rest)))"

definition cp_fresh :: "control \<Rightarrow> usage_record list \<Rightarrow> control_error + usage_record list" where
  "cp_fresh k us =
     (if list_ex (\<lambda>u. case map_of (k_usage k) (u_ID u) of None \<Rightarrow> False | Some r \<Rightarrow> us_Payload r \<noteq> u) us then Inl CpConflict
      else Inr (filter (\<lambda>u. \<not> has (k_usage k) (u_ID u)) us))"

definition cp_used :: "control \<Rightarrow> (string, int) gomap \<Rightarrow> string \<Rightarrow> int" where
  "cp_used k used i = (case map_of used i of Some n \<Rightarrow> n
     | None \<Rightarrow> (case map_of (k_leases k) i of Some c \<Rightarrow> cl_Used c | None \<Rightarrow> 0))"

definition cp_settle_one :: "string \<Rightarrow> control \<Rightarrow> (string, int) gomap \<Rightarrow> usage_record \<Rightarrow> control_error + (string, int) gomap" where
  "cp_settle_one node k used u = (case map_of (k_leases k) (u_LeaseID u) of None \<Rightarrow> Inl OutsideLease | Some c \<Rightarrow>
     if has (k_retired k) (u_LeaseID u) \<or> cl_Rule c \<noteq> u_RuleID u \<or> cl_Node c \<noteq> node \<or> cl_Ent c \<noteq> u_EntitlementID u
        \<or> Unix (u_EndedAt u) > cl_Expires c
     then Inl OutsideLease
     else let n = cp_used k used (u_LeaseID u); amount = usage_bytes u in
       if n < 0 \<or> n > cl_Bytes c \<or> amount > cl_Bytes c - n then Inl LeaseExceeded
       else Inr (put (u_LeaseID u) (n + amount) used))"

definition cp_changes :: "control \<Rightarrow> (string, int) gomap \<Rightarrow> counter_change list" where
  "cp_changes k used = List.map_filter (\<lambda>(i, n). case map_of (k_leases k) i of None \<Rightarrow> None
     | Some c \<Rightarrow> if n \<noteq> cl_Used c then Some \<lparr>cc_ID = i, cc_Before = cl_Used c, cc_Delta = n - cl_Used c\<rparr> else None) used"

definition commercial :: "control \<Rightarrow> usage_record \<Rightarrow> bool" where
  "commercial k u = (case map_of (k_leases k) (u_LeaseID u) of None \<Rightarrow> False | Some c \<Rightarrow> cl_Ent c \<noteq> ''admin-test'')"

definition persistUsageBatch :: "env \<Rightarrow> string \<Rightarrow> usage_record list \<Rightarrow> control \<Rightarrow> control_error + control" where
  "persistUsageBatch v node records k =
     (if length records > 500 then Inl UsageBatchTooLarge
      else if records = [] then Inr k
      else bindE (cp_dedupe v node records []) (\<lambda>unique.
        bindE (cp_fresh k unique) (\<lambda>fresh.
        if fresh = [] then Inr k
        else bindE (runE (cp_settle_one node k) [] fresh) (\<lambda>used.
          bindE (lift_db (BulkCounter cl_Used (\<lambda>n c. c\<lparr>cl_Used := n\<rparr>) True (\<lambda>i. \<not> has (k_retired k) i) (cp_changes k used) (k_leases k))) (\<lambda>ls.
          bindE (if filter (commercial k) fresh = [] then Inr (k_db k)
                 else lift_db (SettleUsageBatch (filter (commercial k) fresh) (k_db k))) (\<lambda>db.
          bindE (lift_db (BulkInsert (map (\<lambda>u. (u_ID u, \<lparr>us_Node = node, us_Payload = u\<rparr>)) fresh) (k_usage k))) (\<lambda>us.
            Inr (k\<lparr>k_leases := ls, k_db := db, k_usage := us\<rparr>))))))))"

section \<open>Granting the first lease\<close>

text \<open>The part of saving a rule that gives an enabled rule its first lease (\<open>resources.go\<close>).\<close>

definition grant_rule_lease :: "env \<Rightarrow> control_rule \<Rightarrow> control \<Rightarrow> control_error + (lease \<times> control)" where
  "grant_rule_lease v rule k = bindE (lift_db (allocate v rule (kr_BillingMultiplier rule) 16777216 k)) (\<lambda>(l, k1).
     if l_Bytes l \<le> 0 \<or> \<not> ev_now v < l_ExpiresAt l \<or> l_ExpiresAt l > ev_now v + minutes (24 * 60) + 1000000000 then Inl InvalidLease
     else bindE (insert_cp_lease (kr_ID rule) (kr_NodeID rule) l k1) (\<lambda>k2. Inr (l, k2)))"

end
