(* ===== verification/Metering.thy ===== *)
theory Metering
  imports Commerce_Run Control
begin

text \<open>
  The tables that meter traffic: commerce requests other than those of the lease interface leave leases,
  reservations and usage records alone.
\<close>

definition metering :: "cdb \<Rightarrow> (string, lease_row) gomap \<times> (string, reservation) gomap \<times> (string, usage_row) gomap" where
  "metering db = (db_leases db, db_res db, db_usage db)"

lemma metering_upd [simp]:
  "metering (db\<lparr>db_drawn := a\<rparr>) = metering db" "metering (db\<lparr>db_plans := b\<rparr>) = metering db" "metering (db\<lparr>db_ents := c\<rparr>) = metering db"
  "metering (db\<lparr>db_entLimits := d\<rparr>) = metering db" "metering (db\<lparr>db_orders := e\<rparr>) = metering db"
  "metering (db\<lparr>db_attempts := f\<rparr>) = metering db" "metering (db\<lparr>db_schedules := g\<rparr>) = metering db"
  "metering (db\<lparr>db_refunds := h\<rparr>) = metering db" "metering (db\<lparr>db_purchases := i\<rparr>) = metering db"
  "metering (db\<lparr>db_snapshots := j\<rparr>) = metering db" "metering (db\<lparr>db_addons := k\<rparr>) = metering db"
  "metering (db\<lparr>db_prefunds := l\<rparr>) = metering db" "metering (db\<lparr>db_commissions := m\<rparr>) = metering db"
  "metering (db\<lparr>db_comRefunds := n\<rparr>) = metering db" "metering (db\<lparr>db_comActions := q\<rparr>) = metering db"
  "metering (db\<lparr>db_rate := r\<rparr>) = metering db" "metering (db\<lparr>db_refCodes := s\<rparr>) = metering db"
  "metering (db\<lparr>db_bindings := t\<rparr>) = metering db" "metering (db\<lparr>db_redeem := u\<rparr>) = metering db"
  "metering (db\<lparr>db_claims := v\<rparr>) = metering db" "metering (db\<lparr>db_autoRenew := w\<rparr>) = metering db"
  "metering (db\<lparr>db_adjustments := x\<rparr>) = metering db"
  by (simp_all add: metering_def)

lemma metering_rest: "rest db' = rest db \<Longrightarrow> metering db' = metering db"
  using rest_sel(5,6,7) [of db' db] by (simp add: metering_def)

lemmas metering_post [dest!] = metering_rest [OF post_rest] and metering_emit [dest!] = metering_rest [OF emit_rest]
  and metering_walletTx [simp] = metering_rest [OF walletTx_rest]

lemma metering_rows [dest!]:
  "insert_ent e db = Inr db' \<Longrightarrow> metering db' = metering db" "snapshotLimits i l db = Inr db' \<Longrightarrow> metering db' = metering db"
  "insert_snapshot i user p db = Inr db' \<Longrightarrow> metering db' = metering db" "remove_quota ent n db = Inr db' \<Longrightarrow> metering db' = metering db"
  "recordCommission v u i n db = Inr db' \<Longrightarrow> metering db' = metering db" "insert_order i o1 db = Inr db' \<Longrightarrow> metering db' = metering db"
  "insert_attempt i st db = Inr db' \<Longrightarrow> metering db' = metering db" "scheduleReconciliation v i db = Inr db' \<Longrightarrow> metering db' = metering db"
  by (auto simp: insert_ent_def snapshotLimits_def insert_snapshot_def remove_quota_def recordCommission_def draw_def Let_def
      insert_order_def insert_attempt_def scheduleReconciliation_def bindE_eq_Inr split: if_splits option.splits)

lemma metering_buy [dest!]:
  "buy_period v user plan key expected p db = Inr (x, db') \<Longrightarrow> metering db' = metering db"
  "buy_addon v user plan key expected p e l db = Inr (y, db') \<Longrightarrow> metering db' = metering db"
  "redeem_plan v user plan db = Inr (z, db') \<Longrightarrow> metering db' = metering db"
  subgoal by (auto simp: buy_period_def draw_def bindE_eq_Inr Let_def)
  subgoal by (auto simp: buy_addon_def draw_def bindE_eq_Inr Let_def split: if_splits option.splits)
  subgoal by (auto simp: redeem_plan_def draw_def bindE_eq_Inr Let_def split: if_splits)
  done

lemma metering_reverse [dest!]: "reversePurchaseCommission v purchase n price db = Inr db' \<Longrightarrow> metering db' = metering db"
  by (auto simp: reversePurchaseCommission_def draw_def bindE_eq_Inr Let_def split: if_splits option.splits)

lemma metering_refund_purchase [dest!]:
  "refund_purchase v actor purchase key reason n user ent p db = Inr (x, db') \<Longrightarrow> metering db' = metering db"
  by (auto simp: refund_purchase_def draw_def bindE_eq_Inr Let_def split: if_splits)

lemma metering_redeem_code [dest!]: "redeem_code v user hash c db = Inr (x, db') \<Longrightarrow> metering db' = metering db"
  by (auto simp: redeem_code_def bindE_eq_Inr Let_def split: if_splits)

lemma metering_set [simp]: "metering (set_renewal user t msg db) = metering db" "metering (set_order i f db) = metering db"
  by (simp_all add: set_renewal_def set_order_def split: option.splits)

lemma metering_purchaseTx [dest!]: "purchaseTx v user plan key expected n db = Inr (x, db') \<Longrightarrow> metering db' = metering db"
  by (auto simp: purchaseTx_def replay_purchase_def bindE_eq_Inr Let_def split: if_splits option.splits)

lemma metering_renew_one [dest!]: "renew_one v user db = Inr (b, db') \<Longrightarrow> metering db' = metering db"
  by (auto simp: renew_one_def bindE_eq_Inr Let_def split: if_splits option.splits sum.splits)

lemma metering_renew_loop: "metering (snd (snd (renew_loop v us n db))) = metering db"
proof (induction us arbitrary: n db)
  case (Cons u us)
  then show ?case by (cases "renew_one v u db") (auto split: prod.splits)
qed simp

lemma metering_confirm [dest!]: "ConfirmPaymentTx v ch order tx n db = Inr db' \<Longrightarrow> metering db' = metering db"
  by (auto simp: ConfirmPaymentTx_def bindE_eq_Inr Let_def split: if_splits option.splits)

lemma metering_status [dest!]: "ConfirmStatus v ch s db = Inr db' \<Longrightarrow> metering db' = metering db"
  by (auto simp: ConfirmStatus_def ConfirmPayment_def bindE_eq_Inr Let_def split: if_splits)

lemma metering_reconcile [dest!]: "ReconcileOrder v channels user i db = (x, db') \<Longrightarrow> metering db' = metering db"
  by (auto simp: ReconcileOrder_def Let_def split: option.splits if_splits sum.splits)

lemma metering_reconcile_loop: "metering (snd (reconcile_loop v channels due n fs db)) = metering db"
proof (induction v channels due n fs db rule: reconcile_loop.induct)
  case (2 v channels i user attempts due n fs db)
  have c: "metering d = metering db" if "claim_order v i attempts db = Inr (b, d)" for b d
    using that by (auto simp: claim_order_def bindE_eq_Inr Let_def split: if_splits option.splits)
  show ?case
  proof (cases "claim_order v i attempts db")
    case (Inr r)
    obtain b db1 where r: "r = (b, db1)" by (cases r)
    obtain x db2 where x: "ReconcileOrder v channels user i db1 = (x, db2)" by (cases "ReconcileOrder v channels user i db1")
    show ?thesis
    proof (cases b)
      case True
      then have b: "b = True" by simp
      then show ?thesis
        using 2(1) [OF Inr r [symmetric] b x [symmetric]] 2(2) [OF Inr r [symmetric] b x [symmetric]] c Inr r x
          metering_reconcile [OF x] by (cases x) simp_all
    next
      case False
      then show ?thesis using 2(3) [OF Inr r [symmetric]] c Inr r by simp
    qed
  qed simp
qed simp

lemma metering_repair: "repair_loop is db = Inr db' \<Longrightarrow> metering db' = metering db"
  by (induction "is" db rule: repair_loop.induct) (auto simp: bindE_eq_Inr split: if_splits)

lemma metering_ReconcilePending: "metering (snd (ReconcilePending v channels limit db)) = metering db"
  by (auto simp: ReconcilePending_def repairReconciliation_def Let_def metering_reconcile_loop dest: metering_repair split: sum.splits)


lemma metering_simple [dest!]:
  "CreatePlan v yuan gb p db = Inr (x, db') \<Longrightarrow> metering db' = metering db" "UpdatePlan yuan gb p db = Inr (x, db') \<Longrightarrow> metering db' = metering db"
  "SetPlanActive i a db = Inr db' \<Longrightarrow> metering db' = metering db" "SetCommissionRate n db = Inr db' \<Longrightarrow> metering db' = metering db"
  "CreateReferralCode v user db = Inr (y, db') \<Longrightarrow> metering db' = metering db" "RevokeRedeemCode hash db = Inr db' \<Longrightarrow> metering db' = metering db"
  "SetAutoRenew v user plan enabled db = Inr db' \<Longrightarrow> metering db' = metering db"
  "CreateRedeemCode v n plan uses expires db = Inr (z, db') \<Longrightarrow> metering db' = metering db"
  subgoal by (auto simp: CreatePlan_def draw_def bindE_eq_Inr Let_def split: sum.splits) (metis sum.exhaust)
  subgoal by (auto simp: UpdatePlan_def bindE_eq_Inr Let_def split: if_splits)
  subgoal by (auto simp: SetPlanActive_def bindE_eq_Inr split: if_splits)
  subgoal by (auto simp: SetCommissionRate_def split: if_splits)
  subgoal by (auto simp: CreateReferralCode_def draw_def bindE_eq_Inr Let_def split: if_splits)
  subgoal by (auto simp: RevokeRedeemCode_def bindE_eq_Inr)
  subgoal by (auto simp: SetAutoRenew_def bindE_eq_Inr Let_def split: option.splits if_splits)
  subgoal by (auto simp: CreateRedeemCode_def draw_def bindE_eq_Inr Let_def split: option.splits if_splits)
  done

lemma metering_orders [dest!]:
  "CreateOrder v allowed gateway user ch key n db = Inr (x, db') \<Longrightarrow> metering db' = metering db"
  "begin_order v allowed c user ch key n db = Inr (y, db') \<Longrightarrow> metering db' = metering db"
  "CreateManualOrder v allowed user ch key n address db = Inr (z, db') \<Longrightarrow> metering db' = metering db"
  "CloseOrder user i db = Inr (w, db') \<Longrightarrow> metering db' = metering db"
  "RequestRefund v actor order key reason n db = Inr (q, db') \<Longrightarrow> metering db' = metering db"
  "ResolveRefund v actor i evidence completed db = Inr (r, db') \<Longrightarrow> metering db' = metering db"
  subgoal by (auto simp: CreateOrder_def draw_def bindE_eq_Inr Let_def split: option.splits if_splits)
  subgoal by (auto simp: begin_order_def draw_def bindE_eq_Inr Let_def split: option.splits if_splits prod.splits)
  subgoal by (auto simp: CreateManualOrder_def CreateManualOrderAtomic_def draw_def bindE_eq_Inr Let_def split: option.splits if_splits)
  subgoal by (auto simp: CloseOrder_def bindE_eq_Inr Let_def split: if_splits)
  subgoal by (auto simp: RequestRefund_def draw_def bindE_eq_Inr Let_def split: option.splits if_splits)
  subgoal by (auto simp: ResolveRefund_def bindE_eq_Inr Let_def split: if_splits)
  done

lemma metering_finish_order [simp]: "metering (finish_order i res db) = metering db"
  by (auto simp: finish_order_def Let_def split: option.splits)

lemma metering_purchases [dest!]:
  "PurchaseQuote v user plan key expected n db = Inr (x, db') \<Longrightarrow> metering db' = metering db"
  "PurchaseAddon v user plan key expected n db = Inr (y, db') \<Longrightarrow> metering db' = metering db"
  "RefundPurchase v actor purchase key reason m db = Inr (z, db') \<Longrightarrow> metering db' = metering db"
  "RedeemCode v user plain db = Inr (w, db') \<Longrightarrow> metering db' = metering db"
  "ResolveCommission v actor cid action reason db = Inr db' \<Longrightarrow> metering db' = metering db"
  "BindReferral v user plain db = Inr db' \<Longrightarrow> metering db' = metering db"
  "AdjustUserBalance v actor user key reason m db = Inr db' \<Longrightarrow> metering db' = metering db"
  subgoal by (auto simp: PurchaseQuote_def split: if_splits)
  subgoal by (auto simp: PurchaseAddon_def bindE_eq_Inr Let_def split: option.splits if_splits)
  subgoal by (auto simp: RefundPurchase_def bindE_eq_Inr Let_def split: option.splits if_splits)
  subgoal by (auto simp: RedeemCode_def bindE_eq_Inr Let_def split: option.splits if_splits)
  subgoal by (auto simp: ResolveCommission_def bindE_eq_Inr Let_def split: if_splits)
  subgoal by (auto simp: BindReferral_def bindE_eq_Inr Let_def split: option.splits if_splits)
  subgoal by (auto simp: AdjustUserBalance_def draw_def bindE_eq_Inr Let_def split: option.splits if_splits)
  done

lemma commerce_step_metering:
  assumes "commerce_step db op = Inr db'" "\<nexists>q. op = OpQuota q"
  shows "metering db' = metering db"
  using assms
  by (cases op) (auto simp: ConfirmPayment_def metering_ReconcilePending RunAutoRenew_def Let_def metering_renew_loop)

end
