(* ===== verification/Control_Inv.thy ===== *)
theory Control_Inv
  imports Metering
begin

text \<open>
  The control plane and the commerce service keep the same books on leases: every lease of a rule in the control
  plane's table is the commerce lease of that name, with the same rule, node, entitlement, bytes and used bytes, and is
  retired there exactly when its reservation is closed here. Every handler of the control plane keeps this, so a batch of
  usage that one side accepts is not refused by the other.
\<close>

section \<open>The invariant\<close>

definition mirrors :: "control \<Rightarrow> string \<Rightarrow> cp_lease \<Rightarrow> lease_row \<Rightarrow> bool" where
  "mirrors k i c l \<longleftrightarrow> lr_Rule l = cl_Rule c \<and> lr_Node l = cl_Node c \<and> lr_Ent l = cl_Ent c \<and> lr_Bytes l = cl_Bytes c
     \<and> lr_Used l = cl_Used c \<and> Unix (lr_ExpiresAt l) = cl_Expires c \<and> lease_closed (k_db k) i = has (k_retired k) i
     \<and> charge (lr_Mult l) (lr_Bytes l) \<le> 268435456"

definition control_inv :: "control \<Rightarrow> bool" where
  "control_inv k \<longleftrightarrow> books (k_db k) \<and> distinct_keys (k_leases k) \<and> distinct_keys (k_usage k)
     \<and> (\<forall>i c. map_of (k_leases k) i = Some c \<longrightarrow> cl_Ent c \<noteq> ''admin-test''
          \<longrightarrow> (\<exists>l. map_of (db_leases (k_db k)) i = Some l \<and> mirrors k i c l))
     \<and> (\<forall>i. has (k_retired k) i \<longrightarrow> has (k_leases k) i)
     \<and> (\<forall>i r. map_of (db_usage (k_db k)) i = Some r \<longrightarrow> (\<exists>w. map_of (k_usage k) i = Some w \<and> us_Payload w = ur_Payload r))"

lemma control_invD:
  assumes "control_inv k"
  shows "books (k_db k)" "distinct_keys (k_leases k)" "distinct_keys (k_usage k)"
    "\<And>i c. map_of (k_leases k) i = Some c \<Longrightarrow> cl_Ent c \<noteq> ''admin-test'' \<Longrightarrow> \<exists>l. map_of (db_leases (k_db k)) i = Some l \<and> mirrors k i c l"
    "\<And>i. has (k_retired k) i \<Longrightarrow> has (k_leases k) i"
    "\<And>i r. map_of (db_usage (k_db k)) i = Some r \<Longrightarrow> \<exists>w. map_of (k_usage k) i = Some w \<and> us_Payload w = ur_Payload r"
  using assms by (auto simp: control_inv_def)

lemma control_inv_cong:
  assumes "k_leases k' = k_leases k" "k_retired k' = k_retired k" "k_usage k' = k_usage k" "books (k_db k')"
    "metering (k_db k') = metering (k_db k)" "control_inv k"
  shows "control_inv k'"
proof -
  have m: "db_leases (k_db k') = db_leases (k_db k)" "db_res (k_db k') = db_res (k_db k)" "db_usage (k_db k') = db_usage (k_db k)"
    using assms(5) by (simp_all add: metering_def)
  then have "mirrors k' i c l = mirrors k i c l" for i c l by (simp add: mirrors_def lease_closed_def assms(2))
  then show ?thesis using assms(4,6) unfolding control_inv_def assms(1-3) m by simp
qed

lemma control_inv_tables [simp]:
  "control_inv (k\<lparr>k_rules := a\<rparr>) = control_inv k" "control_inv (k\<lparr>k_nodes := b\<rparr>) = control_inv k"
  "control_inv (k\<lparr>k_users := c\<rparr>) = control_inv k" "control_inv (k\<lparr>k_groups := d\<rparr>) = control_inv k"
  "control_inv (k\<lparr>k_identities := e\<rparr>) = control_inv k" "control_inv (k\<lparr>k_ruleLimits := f\<rparr>) = control_inv k"
  by (simp_all add: control_inv_def mirrors_def)

lemma control_inv_rows [simp]: "control_inv (bump_node node k) = control_inv k" "control_inv (put_rule rule k) = control_inv k"
  by (simp_all add: bump_node_def put_rule_def split: option.splits)

section \<open>Granting\<close>

lemma allocate_effect:
  assumes "allocate v rule m b k = Inr (l, k1)"
  obtains row bud db where "k1 = k\<lparr>k_db := db\<rparr>"
    "AllocateBudgetWithMultiplier v (kr_UserID rule) (kr_ID rule) (kr_NodeID rule) m b (k_db k) = Inr (l, db)"
    "map_of (db_leases (k_db k)) (l_ID l) = None" "map_of (db_res (k_db k)) (l_ID l) = None"
    "db_leases db = put (l_ID l) row (db_leases (k_db k))" "db_res db = put (l_ID l) \<lparr>rv_Budget = bud, rv_Closed = False\<rparr> (db_res (k_db k))"
    "db_usage db = db_usage (k_db k)" "lr_Rule row = kr_ID rule" "lr_Node row = kr_NodeID rule" "lr_Ent row = l_EntitlementID l"
    "lr_Bytes row = l_Bytes l" "lr_Used row = 0" "lr_ExpiresAt row = l_ExpiresAt l" "charge (lr_Mult row) (lr_Bytes row) \<le> 268435456"
proof -
  obtain db where r: "AllocateBudgetWithMultiplier v (kr_UserID rule) (kr_ID rule) (kr_NodeID rule) m b (k_db k) = Inr (l, db)"
    and k1: "k1 = k\<lparr>k_db := db\<rparr>"
    using assms by (auto simp: allocate_def bindE_eq_Inr)
  obtain mu e bud raw where m: "0 < mu" "b \<le> 268435456" "lease_budget (k_db k) (kr_UserID rule) b e = Inr bud"
    "lease_bytes mu bud = Inr raw" "insert_lease v (kr_UserID rule) (kr_ID rule) (kr_NodeID rule) mu bud raw e (k_db k) = Inr (l, db)"
    by (rule Allocate_cases [OF r])
  note B = lease_budget_ok [OF m(3)]
  have "charge mu raw \<le> 268435456" using lease_bytes_ok [OF m(4,1) less_imp_le [OF B(1)]] B m(2) by linarith
  then show ?thesis
    using m(5) by (intro that [OF k1 r]) (auto simp: insert_lease_def draw_def bindE_eq_Inr Let_def)
qed

lemma grant_inv:
  assumes inv: "control_inv k" and a: "allocate v rule m b k = Inr (l, k1)"
    and i: "insert_cp_lease (kr_ID rule) (kr_NodeID rule) l k1 = Inr k2"
  shows "control_inv k2"
proof -
  note I = control_invD [OF inv]
  obtain row bud db where A: "k1 = k\<lparr>k_db := db\<rparr>"
    "AllocateBudgetWithMultiplier v (kr_UserID rule) (kr_ID rule) (kr_NodeID rule) m b (k_db k) = Inr (l, db)"
    "map_of (db_leases (k_db k)) (l_ID l) = None" "map_of (db_res (k_db k)) (l_ID l) = None"
    "db_leases db = put (l_ID l) row (db_leases (k_db k))" "db_res db = put (l_ID l) \<lparr>rv_Budget = bud, rv_Closed = False\<rparr> (db_res (k_db k))"
    "db_usage db = db_usage (k_db k)" "lr_Rule row = kr_ID rule" "lr_Node row = kr_NodeID rule" "lr_Ent row = l_EntitlementID l"
    "lr_Bytes row = l_Bytes l" "lr_Used row = 0" "lr_ExpiresAt row = l_ExpiresAt l" "charge (lr_Mult row) (lr_Bytes row) \<le> 268435456"
    by (rule allocate_effect [OF a])
  let ?c = "\<lparr>cl_Rule = kr_ID rule, cl_Node = kr_NodeID rule, cl_Ent = l_EntitlementID l, cl_Bytes = l_Bytes l, cl_Used = 0,
    cl_Expires = Unix (l_ExpiresAt l)\<rparr>"
  have new: "map_of (k_leases k) (l_ID l) = None" and k2: "k2 = k1\<lparr>k_leases := put (l_ID l) ?c (k_leases k)\<rparr>"
    using i by (auto simp: insert_cp_lease_def bindE_eq_Inr A(1))
  have fresh: "\<not> has (k_retired k) (l_ID l)" using I(5) [of "l_ID l"] new by (cases "map_of (k_retired k) (l_ID l)") (auto simp: has_def)
  have "books db" by (rule keeps_books [OF keeps_Allocate [OF A(2)] I(1)])
  moreover have "mirrors k2 (l_ID l) ?c row" using A fresh by (simp add: mirrors_def k2 lease_closed_def)
  moreover have "mirrors k2 j c x = mirrors k j c x" if "j \<noteq> l_ID l" for j c x
    using that by (simp add: mirrors_def k2 A(1,6) lease_closed_def)
  ultimately show ?thesis
    using I(2-6) by (auto simp: control_inv_def k2 A(1,5,7))
qed

lemma allocateStandbyTx_inv:
  assumes "control_inv k" "allocateStandbyTx v rule m b k = Inr (s, k')"
  shows "control_inv k'"
  using assms by (auto simp: allocateStandbyTx_def bindE_eq_Inr intro: grant_inv split: option.splits sum.splits if_splits)

lemma refillStandbyTx_inv:
  assumes "control_inv k" "refillStandbyTx v rule g n k = Inr (b, rule', k')"
  shows "control_inv k'"
  using assms by (auto simp: refillStandbyTx_def bindE_eq_Inr dest: allocateStandbyTx_inv split: option.splits if_splits)

lemma grant_rule_lease_inv: "control_inv k \<Longrightarrow> grant_rule_lease v rule k = Inr (l, k') \<Longrightarrow> control_inv k'"
  by (auto simp: grant_rule_lease_def bindE_eq_Inr intro: grant_inv split: if_splits)

section \<open>Refreshing\<close>

lemma save_rule_inv: "control_inv (rs_k s) \<Longrightarrow> save_rule rule s = Inr s' \<Longrightarrow> control_inv (rs_k s')"
  by (auto simp: save_rule_def split: if_splits)

lemma keep_lease_inv:
  assumes "control_inv (rs_k s)" "keep_lease v pipeline hint g legacy dropped rule s = Inr s'"
  shows "control_inv (rs_k s')"
  using assms by (auto simp: keep_lease_def bindE_eq_Inr dest!: save_rule_inv [rotated] dest: refillStandbyTx_inv split: if_splits)

lemma next_lease_cases:
  assumes "next_lease v pipeline allowed retiredPrimary rule g k = Inr (lo, promoted, k1)"
  obtains "k1 = k" "lo = None \<or> promoted" | l m b where "lo = Some l" "\<not> promoted" "allocate v rule m b k = Inr (l, k1)"
proof (cases "if allowed then kr_StandbyLease rule else None")
  case None
  show ?thesis
  proof (cases allowed)
    case True
    let ?m = "leaseMultiplier rule g"
    obtain b where "(case allocate v rule ?m b k of
         Inl e \<Rightarrow> if e = EntitlementUnavailable then Inr (None, False, k) else Inl (Db e)
       | Inr (l, k1) \<Rightarrow> Inr (Some l, False, k1)) = Inr (lo, promoted, k1)"
      using assms None True unfolding next_lease_def by (auto simp: bindE_eq_Inr Let_def)
    then show ?thesis using that by (cases "allocate v rule ?m b k") (auto split: if_splits)
  qed (use assms None that(1) in \<open>simp add: next_lease_def\<close>)
qed (use assms that(1) in \<open>simp add: next_lease_def\<close>)

lemma replace_lease_inv:
  assumes inv: "control_inv (rs_k s)" and r: "replace_lease v pipeline hint g allowed retiredPrimary rule s = Inr s'"
  shows "control_inv (rs_k s')"
proof -
  obtain lo promoted k1 where n: "next_lease v pipeline allowed retiredPrimary rule g (rs_k s) = Inr (lo, promoted, k1)"
    using r by (auto simp: replace_lease_def bindE_eq_Inr)
  show ?thesis
  proof (cases "kr_Lease rule = None \<and> lo = None")
    case True
    then show ?thesis using r n inv by (auto simp: replace_lease_def elim: next_lease_cases)
  next
    case False
    obtain k2 b rule2 k3 where ins: "(case lo of
         Some l \<Rightarrow> if promoted then Inr k1
           else if l_Bytes l \<le> 0 \<or> \<not> ev_now v < l_ExpiresAt l \<or> l_ExpiresAt l > ev_now v + minutes (24 * 60) + 1000000000
           then Inl InvalidLease
           else insert_cp_lease (kr_ID rule) (kr_NodeID rule) l k1
       | None \<Rightarrow> Inr k1) = Inr k2"
      and 3: "(let rule1 = rule\<lparr>kr_Lease := lo, kr_StandbyLease := None\<rparr> in
         if allowed \<and> pipeline \<and> retiredPrimary \<and> kr_ID rule = rh_Rule hint
                \<and> map_option l_ID (kr_Lease rule) = Some (rh_Retired hint)
              then refillStandbyTx v rule1 g (rh_Budget hint) k2 else Inr (False, rule1, k2)) = Inr (b, rule2, k3)"
      and 4: "save_rule rule2 (s\<lparr>rs_k := k3\<rparr>) = Inr s'"
      using r n False by (auto simp: replace_lease_def bindE_eq_Inr Let_def)
    have "control_inv k2"
      using n
    proof (cases rule: next_lease_cases)
      case 1
      then show ?thesis using ins inv by (auto split: option.splits)
    next
      case (2 l m b)
      then show ?thesis using ins by (auto intro: grant_inv [OF inv] split: if_splits)
    qed
    then have "control_inv k3" using 3 by (auto simp: Let_def dest: refillStandbyTx_inv split: if_splits)
    then show ?thesis using save_rule_inv [OF _ 4] by simp
  qed
qed

lemma refresh_item_inv:
  assumes "control_inv (rs_k s)" "refresh_item v pipeline hint s it = Inr s'"
  shows "control_inv (rs_k s')"
  using assms by (auto simp: refresh_item_def bindE_eq_Inr Let_def dest: keep_lease_inv [rotated] replace_lease_inv [rotated] split: if_splits)

interpretation refresh: guarded_machine "refresh_item v pipeline hint" "\<lambda>_. True" "\<lambda>s. control_inv (rs_k s)" for v pipeline hint
  by unfold_locales (rule refresh_item_inv)

lemma refresh_cases:
  assumes "refreshLeasesWithPrefetch v node hint k = Inr k'"
  obtains pipeline s where "runE (refresh_item v pipeline hint) \<lparr>rs_policies = [], rs_changed = False, rs_k = k\<rparr> (refresh_items k node) = Inr s"
    "k' = (if rs_changed s then bump_node node (rs_k s) else rs_k s)"
proof -
  obtain info where info: "map_of (k_nodes k) node = Some info"
    using assms by (auto simp: refreshLeasesWithPrefetch_def bindE_eq_Inr)
  let ?r = "runE (refresh_item v (''lease-set-v1'' \<in> set (cn_Capabilities info)) hint)
      \<lparr>rs_policies = [], rs_changed = False, rs_k = k\<rparr> (refresh_items k node)"
  have "bindE ?r (\<lambda>s. Inr (if rs_changed s then bump_node node (rs_k s) else rs_k s)) = Inr k'"
    using assms info by (simp add: refreshLeasesWithPrefetch_def cp_row_def)
  then show ?thesis using that by (cases ?r) simp_all
qed

lemma refreshLeases_inv:
  assumes "control_inv k" "refreshLeasesWithPrefetch v node hint k = Inr k'"
  shows "control_inv k'"
proof -
  obtain pipeline s where s: "runE (refresh_item v pipeline hint) \<lparr>rs_policies = [], rs_changed = False, rs_k = k\<rparr> (refresh_items k node) = Inr s"
    and k': "k' = (if rs_changed s then bump_node node (rs_k s) else rs_k s)"
    by (rule refresh_cases [OF assms(2)])
  have "control_inv (rs_k s)" by (rule refresh.run_inv [OF _ _ s]) (simp_all add: assms(1) list_all_iff)
  then show ?thesis by (simp add: k')
qed

lemma prefetch_grant_inv:
  assumes inv: "control_inv k" and r: "prefetch_grant v node rule g n k = Inr (i, k')"
  shows "control_inv k'"
proof (cases "kr_StandbyLease rule")
  case None
  then obtain b st k1 where a: "allocateStandbyTx v rule (leaseMultiplier rule g) b k = Inr (st, k1)"
    and k': "(case st of None \<Rightarrow> Inr ('''', k1)
      | Some l \<Rightarrow> Inr (l_ID l, bump_node node (put_rule (rule\<lparr>kr_StandbyLease := Some l\<rparr>) k1))) = (Inr (i, k') :: control_error + _)"
    using r by (auto simp: prefetch_grant_def bindE_eq_Inr)
  have "control_inv k1" by (rule allocateStandbyTx_inv [OF inv a])
  then show ?thesis using k' by (cases st) auto
qed (use inv r in \<open>auto simp: prefetch_grant_def\<close>)

lemma prefetchLease_inv:
  assumes "control_inv k" "prefetchLease v node ruleID leaseID n k = Inr (i, k')"
  shows "control_inv k'"
  using assms by (auto simp: prefetchLease_def bindE_eq_Inr dest: prefetch_grant_inv split: option.splits if_splits)

section \<open>Retiring\<close>

lemma retire_tx_inv:
  assumes inv: "control_inv k" and r: "retire_tx node i n b k = Inr (hint, k')"
  shows "control_inv k'"
proof -
  note I = control_invD [OF inv]
  obtain c where c: "map_of (k_leases k) i = Some c" "cl_Node c = node" "cl_Used c = n"
    using r by (auto simp: retire_tx_def bindE_eq_Inr split: if_splits)
  show ?thesis
  proof (cases "map_of (k_retired k) i")
    case (Some p)
    then show ?thesis using r c inv by (auto simp: retire_tx_def bindE_eq_Inr split: if_splits)
  next
    case None
    then have nr: "\<not> has (k_retired k) i" by (simp add: has_def)
    obtain db where d: "(if cl_Ent c = ''admin-test'' then Inr (k_db k) else lift_db (RetireLease node i n (k_db k))) = Inr db"
      and k': "k' = bump_node node (k\<lparr>k_db := db, k_retired := put i n (k_retired k)\<rparr>)"
      using r c None by (auto simp: retire_tx_def cp_row_def bindE_eq_Inr Let_def)
    have keep: "keeps (k_db k) db \<and> db_leases db = db_leases (k_db k) \<and> db_usage db = db_usage (k_db k)
      \<and> (\<forall>j. j \<noteq> i \<longrightarrow> lease_closed db j = lease_closed (k_db k) j) \<and> (cl_Ent c \<noteq> ''admin-test'' \<longrightarrow> lease_closed db i)"
    proof (cases "cl_Ent c = ''admin-test''")
      case False
      then have rl: "RetireLease node i n (k_db k) = Inr db" using d by simp
      from booksD(3) [OF I(1)] rl show ?thesis
        by (cases rule: RetireLease_cases) (use keeps_RetireLease [OF rl] in \<open>auto simp: lease_closed_def\<close>)
    qed (use d in simp)
    let ?k = "k\<lparr>k_db := db, k_retired := put i n (k_retired k)\<rparr>"
    have "books db" using keep keeps_books [OF _ I(1)] by blast
    moreover have "has (put i n (k_retired k)) j \<Longrightarrow> has (k_leases k) j" for j using I(5) [of j] c(1) by (auto simp: has_def split: if_splits)
    ultimately have "control_inv ?k"
      unfolding control_inv_def
    proof (intro conjI allI impI)
      fix j x assume x: "map_of (k_leases ?k) j = Some x" "cl_Ent x \<noteq> ''admin-test''"
      then obtain l where l: "map_of (db_leases (k_db k)) j = Some l" "mirrors k j x l" using I(4) [of j x] by auto
      have "mirrors ?k j x l"
      proof (cases "j = i")
        case True
        then show ?thesis using x c(1) l(2) keep by (auto simp: mirrors_def)
      qed (use l(2) keep in \<open>auto simp: mirrors_def\<close>)
      then show "\<exists>l. map_of (db_leases (k_db ?k)) j = Some l \<and> mirrors ?k j x l" using l(1) keep by simp
    qed (use I(2,3,6) keep in simp_all)
    then show ?thesis by (simp add: k')
  qed
qed

lemma retireLease_cases:
  assumes "retireLease v node i n header want k = Inr k'"
  obtains b hint k1 where "retire_tx node i n b k = Inr (hint, k1)" "k' = k1 \<or> refreshLeasesWithPrefetch v node hint k1 = Inr k'"
proof -
  obtain b hint k1 where r: "retire_tx node i n b k = Inr (hint, k1)"
    and k': "(if want then (case refreshLeasesWithPrefetch v node hint k1 of Inl _ \<Rightarrow> k1 | Inr k2 \<Rightarrow> k2) else k1) = k'"
    using assms unfolding retireLease_def by (auto simp: bindE_eq_Inr Let_def split: if_splits)
  show ?thesis
    by (rule that [OF r]) (use k' in \<open>cases "refreshLeasesWithPrefetch v node hint k1"; auto split: if_splits\<close>)
qed

lemma retireLease_inv:
  assumes "control_inv k" "retireLease v node i n header want k = Inr k'"
  shows "control_inv k'"
proof -
  obtain b hint k1 where "retire_tx node i n b k = Inr (hint, k1)" and k': "k' = k1 \<or> refreshLeasesWithPrefetch v node hint k1 = Inr k'"
    by (rule retireLease_cases [OF assms(2)])
  then have "control_inv k1" using retire_tx_inv [OF assms(1)] by blast
  then show ?thesis using k' refreshLeases_inv by blast
qed

section \<open>Usage\<close>

definition bytes_for :: "string \<Rightarrow> usage_record list \<Rightarrow> int" where
  "bytes_for i us = (\<Sum>u\<leftarrow>us. if u_LeaseID u = i then usage_bytes u else 0)"

lemma bytes_for_simps [simp]:
  "bytes_for i [] = 0" "bytes_for i (u # us) = (if u_LeaseID u = i then usage_bytes u else 0) + bytes_for i us"
  by (simp_all add: bytes_for_def)

lemma bytes_for_nonneg: "list_all valid_usage us \<Longrightarrow> 0 \<le> bytes_for i us"
  by (induction us) (auto simp: valid_usage_def usage_bytes_def)

lemma bytes_for_filter:
  "(\<And>u. u \<in> set us \<Longrightarrow> u_LeaseID u = i \<Longrightarrow> P u) \<Longrightarrow> bytes_for i (filter P us) = bytes_for i us"
  by (induction us) auto

lemma cp_dedupe_distinct:
  "cp_dedupe v node us seen = Inr vs \<Longrightarrow> list_all valid_usage vs \<and> list_all ValidWindowMetadata vs \<and> distinct (map u_ID vs)
    \<and> (\<forall>x \<in> set vs. \<not> has seen (u_ID x) \<and> u_NodeID x = node) \<and> (\<forall>u \<in> set us. map_of seen (u_ID u) = Some u \<or> u \<in> set vs) \<and> set vs \<subseteq> set us"
proof (induction v node us seen arbitrary: vs rule: cp_dedupe.induct)
  case (2 v node u us seen)
  show ?case
  proof (cases "map_of seen (u_ID u)")
    case None
    then obtain rest where r: "cp_dedupe v node us (put (u_ID u) u seen) = Inr rest" "vs = u # rest"
      and u: "valid_usage u" "ValidWindowMetadata u" "u_NodeID u = node" "u_EndedAt u \<le> ev_now v + minutes 1"
      using 2(3) by (auto simp: bindE_eq_Inr split: if_splits)
    have new: "\<not> has seen (u_ID u)" using None by (simp add: has_def)
    have IH: "list_all valid_usage rest \<and> list_all ValidWindowMetadata rest \<and> distinct (map u_ID rest)
      \<and> (\<forall>x \<in> set rest. \<not> has (put (u_ID u) u seen) (u_ID x) \<and> u_NodeID x = node)
      \<and> (\<forall>w \<in> set us. map_of (put (u_ID u) u seen) (u_ID w) = Some w \<or> w \<in> set rest) \<and> set rest \<subseteq> set us"
      by (rule 2(1) [OF _ _ None r(1)]) (use u in simp_all)
    then have "u_ID u \<notin> u_ID ` set rest" by auto
    moreover have "w \<in> set us \<Longrightarrow> map_of seen (u_ID w) = Some w \<or> w = u \<or> w \<in> set rest" for w
      using IH by (auto split: if_splits)
    ultimately show ?thesis using IH u new None by (auto simp: r(2))
  next
    case (Some old)
    then have "cp_dedupe v node us seen = Inr vs" "old = u" using 2(3) by (auto split: if_splits)
    with 2(2) [OF _ _ Some] 2(3) Some show ?thesis by (auto split: if_splits)
  qed
qed auto

lemma dedupe_id:
  assumes "list_all valid_usage us" "list_all ValidWindowMetadata us" "distinct (map u_ID us)" "\<forall>u \<in> set us. \<not> has seen (u_ID u)"
  shows "dedupe us seen = Inr us"
  using assms
proof (induction us arbitrary: seen)
  case (Cons u us)
  have "dedupe us (put (u_ID u) u seen) = Inr us" by (rule Cons.IH) (use Cons.prems in \<open>force simp: image_iff\<close>)+
  moreover have "map_of seen (u_ID u) = None" using Cons.prems(4) by (simp add: has_def)
  ultimately show ?case using Cons.prems by simp
qed simp

lemma cp_dedupe_id:
  assumes "list_all valid_usage us" "list_all ValidWindowMetadata us" "distinct (map u_ID us)" "\<forall>u \<in> set us. \<not> has seen (u_ID u)"
    "\<forall>u \<in> set us. u_NodeID u = node \<and> u_EndedAt u \<le> ev_now v + minutes 1"
  shows "cp_dedupe v node us seen = Inr us"
  using assms
proof (induction us arbitrary: seen)
  case (Cons u us)
  have "cp_dedupe v node us (put (u_ID u) u seen) = Inr us" by (rule Cons.IH) (use Cons.prems in \<open>force simp: image_iff\<close>)+
  moreover have "map_of seen (u_ID u) = None" using Cons.prems(4) by (simp add: has_def)
  ultimately show ?case using Cons.prems by (simp add: not_less)
qed simp

lemma cp_settle_used:
  assumes "runE (cp_settle_one node k) used us = Inr used'"
  shows "cp_used k used' i = cp_used k used i + bytes_for i us"
    "map_of used' i = None \<longleftrightarrow> map_of used i = None \<and> i \<notin> u_LeaseID ` set us"
    "u \<in> set us \<Longrightarrow> \<exists>c. map_of (k_leases k) (u_LeaseID u) = Some c \<and> \<not> has (k_retired k) (u_LeaseID u) \<and> cl_Node c = node"
    "distinct_keys used \<Longrightarrow> distinct_keys used'"
proof -
  have "cp_used k used' i = cp_used k used i + bytes_for i us \<and> (map_of used' i = None \<longleftrightarrow> map_of used i = None \<and> i \<notin> u_LeaseID ` set us)
    \<and> (\<forall>u \<in> set us. \<exists>c. map_of (k_leases k) (u_LeaseID u) = Some c \<and> \<not> has (k_retired k) (u_LeaseID u) \<and> cl_Node c = node)
    \<and> (distinct_keys used \<longrightarrow> distinct_keys used')"
    using assms
  proof (induction us arbitrary: used)
    case (Cons u us)
    then obtain used1 where s: "cp_settle_one node k used u = Inr used1" and u2: "runE (cp_settle_one node k) used1 us = Inr used'"
      by (auto split: sum.splits)
    obtain c where c: "map_of (k_leases k) (u_LeaseID u) = Some c" "\<not> has (k_retired k) (u_LeaseID u)" "cl_Node c = node"
      and u1: "used1 = put (u_LeaseID u) (cp_used k used (u_LeaseID u) + usage_bytes u) used"
      using s by (auto simp: cp_settle_one_def Let_def split: option.splits if_splits)
    have "cp_used k used1 i = cp_used k used i + (if u_LeaseID u = i then usage_bytes u else 0)" by (auto simp: cp_used_def u1)
    then show ?case using Cons.IH [OF u2] c by (auto simp: u1 split: if_splits)
  qed simp
  then show "cp_used k used' i = cp_used k used i + bytes_for i us"
    "map_of used' i = None \<longleftrightarrow> map_of used i = None \<and> i \<notin> u_LeaseID ` set us"
    "u \<in> set us \<Longrightarrow> \<exists>c. map_of (k_leases k) (u_LeaseID u) = Some c \<and> \<not> has (k_retired k) (u_LeaseID u) \<and> cl_Node c = node"
    "distinct_keys used \<Longrightarrow> distinct_keys used'" by blast+
qed

lemma settle_used:
  assumes "runE (settle_one db) st us = Inr st'"
  shows "used_now db st' i = used_now db st i + bytes_for i us"
  using assms
proof (induction us arbitrary: st)
  case (Cons u us)
  then obtain st1 where s: "settle_one db st u = Inr st1" "runE (settle_one db) st1 us = Inr st'" by (auto split: sum.splits)
  have "used_now db st1 i = used_now db st i + (if u_LeaseID u = i then usage_bytes u else 0)"
    using s(1) by (auto simp: settle_one_def Let_def used_now_def split: option.splits if_splits)
  then show ?case using Cons.IH [OF s(2)] by simp
qed simp

lemma cp_leases_after:
  assumes "distinct_keys (k_leases k)" "distinct_keys used"
    and r: "BulkCounter cl_Used (\<lambda>n c. c\<lparr>cl_Used := n\<rparr>) True g (cp_changes k used) (k_leases k) = Inr ls"
  shows "distinct_keys ls" "map_of ls i = map_option (\<lambda>c. c\<lparr>cl_Used := cp_used k used i\<rparr>) (map_of (k_leases k) i)"
proof -
  note B = BulkCounter_changes [OF assms(1,2) _ r [unfolded cp_changes_def]]
  show "distinct_keys ls" by (rule B(1)) (auto split: option.splits if_splits)
  have "map_of ls i = map_option (\<lambda>x. case map_of used i of None \<Rightarrow> x
       | Some n \<Rightarrow> (case (case map_of (k_leases k) i of None \<Rightarrow> None
     | Some c \<Rightarrow> if n \<noteq> cl_Used c then Some \<lparr>cc_ID = i, cc_Before = cl_Used c, cc_Delta = n - cl_Used c\<rparr> else None)
         of None \<Rightarrow> x | Some c \<Rightarrow> x\<lparr>cl_Used := cl_Used x + cc_Delta c\<rparr>)) (map_of (k_leases k) i)"
    by (rule B(3)) (auto split: option.splits if_splits)
  then show "map_of ls i = map_option (\<lambda>c. c\<lparr>cl_Used := cp_used k used i\<rparr>) (map_of (k_leases k) i)"
    by (cases "map_of (k_leases k) i") (auto simp: cp_used_def split: option.splits)
qed

lemma cp_fresh_ok:
  assumes "cp_fresh k us = Inr vs"
  shows "vs = filter (\<lambda>u. \<not> has (k_usage k) (u_ID u)) us"
    "\<And>u w. u \<in> set us \<Longrightarrow> map_of (k_usage k) (u_ID u) = Some w \<Longrightarrow> us_Payload w = u"
  using assms by (fastforce simp: cp_fresh_def list_ex_iff split: if_splits)+

text \<open>A batch either brings nothing new, or its new records go through both tables.\<close>

lemma persist_cases:
  assumes "persistUsageBatch v node records k = Inr k'"
  obtains "k' = k" "\<And>u. u \<in> set records \<Longrightarrow> \<exists>w. map_of (k_usage k) (u_ID u) = Some w \<and> us_Payload w = u"
  | fresh used ls db us where "fresh \<noteq> []" "list_all valid_usage fresh" "list_all ValidWindowMetadata fresh" "distinct (map u_ID fresh)"
    "\<And>u. u \<in> set fresh \<Longrightarrow> \<not> has (k_usage k) (u_ID u)" "length fresh \<le> 500"
    "\<And>u. u \<in> set records \<Longrightarrow> u \<in> set fresh \<or> (\<exists>w. map_of (k_usage k) (u_ID u) = Some w \<and> us_Payload w = u)"
    "runE (cp_settle_one node k) [] fresh = Inr used"
    "BulkCounter cl_Used (\<lambda>n c. c\<lparr>cl_Used := n\<rparr>) True (\<lambda>i. \<not> has (k_retired k) i) (cp_changes k used) (k_leases k) = Inr ls"
    "(if filter (commercial k) fresh = [] then Inr (k_db k) else SettleUsageBatch (filter (commercial k) fresh) (k_db k)) = Inr db"
    "BulkInsert (map (\<lambda>u. (u_ID u, \<lparr>us_Node = node, us_Payload = u\<rparr>)) fresh) (k_usage k) = Inr us"
    "k' = k\<lparr>k_leases := ls, k_db := db, k_usage := us\<rparr>" "set fresh \<subseteq> set records"
proof (cases "records = []")
  case True
  then show ?thesis using assms that(1) by (simp add: persistUsageBatch_def)
next
  case False
  then obtain unique fresh where u: "cp_dedupe v node records [] = Inr unique" "cp_fresh k unique = Inr fresh" and len: "length records \<le> 500"
    and rest: "(if fresh = [] then Inr k
        else bindE (runE (cp_settle_one node k) [] fresh) (\<lambda>used.
          bindE (lift_db (BulkCounter cl_Used (\<lambda>n c. c\<lparr>cl_Used := n\<rparr>) True (\<lambda>i. \<not> has (k_retired k) i) (cp_changes k used) (k_leases k))) (\<lambda>ls.
          bindE (if filter (commercial k) fresh = [] then Inr (k_db k)
                 else lift_db (SettleUsageBatch (filter (commercial k) fresh) (k_db k))) (\<lambda>db.
          bindE (lift_db (BulkInsert (map (\<lambda>u. (u_ID u, \<lparr>us_Node = node, us_Payload = u\<rparr>)) fresh) (k_usage k))) (\<lambda>us.
            Inr (k\<lparr>k_leases := ls, k_db := db, k_usage := us\<rparr>)))))) = Inr k'"
    using assms by (auto simp: persistUsageBatch_def bindE_eq_Inr split: if_splits)
  note D = cp_dedupe_distinct [OF u(1)] and F = cp_fresh_ok [OF u(2)]
  have fv: "list_all valid_usage fresh" "list_all ValidWindowMetadata fresh" "distinct (map u_ID fresh)"
    "\<And>u. u \<in> set fresh \<Longrightarrow> \<not> has (k_usage k) (u_ID u)"
    using D by (auto simp: F(1) list_all_iff distinct_map_filter)
  have cover: "u \<in> set fresh \<or> (\<exists>w. map_of (k_usage k) (u_ID u) = Some w \<and> us_Payload w = u)" if "u \<in> set records" for u
  proof -
    have "u \<in> set unique" using D that by auto
    then show ?thesis using F(2) [of u] by (auto simp: F(1) has_def)
  qed
  have "distinct fresh" using fv(3) by (simp add: distinct_map)
  then have "length fresh = card (set fresh)" by (simp add: distinct_card)
  also have "\<dots> \<le> card (set records)" using D by (intro card_mono) (auto simp: F(1))
  finally have l5: "length fresh \<le> 500" using card_length [of records] len by linarith
  show ?thesis
  proof (cases "fresh = []")
    case True
    then show ?thesis using rest that(1) cover by simp
  next
    case False
    then obtain used ls db us where "runE (cp_settle_one node k) [] fresh = Inr used"
      "BulkCounter cl_Used (\<lambda>n c. c\<lparr>cl_Used := n\<rparr>) True (\<lambda>i. \<not> has (k_retired k) i) (cp_changes k used) (k_leases k) = Inr ls"
      "(if filter (commercial k) fresh = [] then Inr (k_db k) else SettleUsageBatch (filter (commercial k) fresh) (k_db k)) = Inr db"
      "BulkInsert (map (\<lambda>u. (u_ID u, \<lparr>us_Node = node, us_Payload = u\<rparr>)) fresh) (k_usage k) = Inr us"
      "k' = k\<lparr>k_leases := ls, k_db := db, k_usage := us\<rparr>"
      using rest by (auto simp: bindE_eq_Inr split: if_splits)
    from that(2) [OF False fv l5 cover this] show ?thesis using D by (auto simp: F(1))
  qed
qed

text \<open>New records are new for the commerce service, too.\<close>

lemma settle_commercial:
  assumes inv: "control_inv k" and f: "list_all valid_usage fs" "list_all ValidWindowMetadata fs" "distinct (map u_ID fs)"
    "\<And>u. u \<in> set fs \<Longrightarrow> \<not> has (k_usage k) (u_ID u)" "length fs \<le> 500" "fs \<noteq> []"
  shows "SettleUsageBatch fs (k_db k) =
    (if list_ex (\<lambda>u. case map_of (db_leases (k_db k)) (u_LeaseID u) of None \<Rightarrow> False | Some l \<Rightarrow> lr_Mult l \<le> 0) fs then Inl BadMultiplier
     else bindE (runE (settle_one (k_db k)) \<lparr>st_used = [], st_charges = [], st_rows = []\<rparr> fs) (commit_settlement (k_db k)))"
proof -
  have new: "map_of (db_usage (k_db k)) (u_ID u) = None" if "u \<in> set fs" for u
    using control_invD(6) [OF inv, of "u_ID u"] f(4) [OF that] by (cases "map_of (db_usage (k_db k)) (u_ID u)") (auto simp: has_def)
  have "\<not> has ([] :: (string, usage_record) gomap) x" for x by (simp add: has_def)
  then have "dedupe fs [] = Inr fs" using f by (intro dedupe_id) auto
  moreover have "already (k_db k) fs = Inr fs" using new by (auto simp: already_def list_ex_iff has_def filter_id_conv)
  ultimately show ?thesis using f(5,6) by (simp add: SettleUsageBatch_def)
qed

lemma settle_effect:
  assumes inv: "control_inv k" and f: "list_all valid_usage fs" "list_all ValidWindowMetadata fs" "distinct (map u_ID fs)"
    "\<And>u. u \<in> set fs \<Longrightarrow> \<not> has (k_usage k) (u_ID u)" "length fs \<le> 500"
    and r: "(if fs = [] then Inr (k_db k) else SettleUsageBatch fs (k_db k)) = Inr db"
  shows "books db" "db_res db = db_res (k_db k)"
    "map_of (db_leases db) i = map_option (\<lambda>l. l\<lparr>lr_Used := lr_Used l + bytes_for i fs\<rparr>) (map_of (db_leases (k_db k)) i)"
    "map_of (db_usage db) i = Some x \<Longrightarrow> map_of (db_usage (k_db k)) i = Some x \<or> ur_Payload x \<in> set fs \<and> u_ID (ur_Payload x) = i"
proof -
  note b = control_invD(1) [OF inv]
  note Q = booksD(3) [OF b]
  show "books db" using r b keeps_books [OF keeps_SettleUsageBatch [of fs "k_db k" db] b] by (auto split: if_splits)
  have "db_res db = db_res (k_db k)
    \<and> map_of (db_leases db) i = map_option (\<lambda>l. l\<lparr>lr_Used := lr_Used l + bytes_for i fs\<rparr>) (map_of (db_leases (k_db k)) i)
    \<and> (map_of (db_usage db) i = Some x \<longrightarrow> map_of (db_usage (k_db k)) i = Some x \<or> ur_Payload x \<in> set fs \<and> u_ID (ur_Payload x) = i)"
  proof (cases "fs = []")
    case True
    then show ?thesis using r by (simp add: option.map_ident)
  next
    case False
    let ?s0 = "\<lparr>st_used = [], st_charges = [], st_rows = []\<rparr>"
    obtain st where st: "runE (settle_one (k_db k)) ?s0 fs = Inr st" "commit_settlement (k_db k) st = Inr db"
      using r False settle_commercial [OF inv f(1-5) False] by (auto simp: bindE_eq_Inr split: if_splits)
    have li: "loop_inv (k_db k) st" using settle.run_inv [OF _ f(1) st(1)] Q loop_inv_start by blast
    note C = commit_settlement_ok [OF Q li st(2)]
    have "used_now (k_db k) st i = lr_Used l + bytes_for i fs" if "map_of (db_leases (k_db k)) i = Some l" for l
      using settle_used [OF st(1), of i] that by (simp add: used_now_def)
    then have "map_of (db_leases db) i = map_option (\<lambda>l. l\<lparr>lr_Used := lr_Used l + bytes_for i fs\<rparr>) (map_of (db_leases (k_db k)) i)"
      using C(3) [of i] by (cases "map_of (db_leases (k_db k)) i") auto
    moreover have "ur_Payload x \<in> set fs \<and> u_ID (ur_Payload x) = i" if "(i, x) \<in> set (st_rows st)"
    proof -
      have "(i, ur_Payload x) \<in> set (map (\<lambda>(k, r). (k, ur_Payload r)) (st_rows st))" using that by force
      then show ?thesis using settle_rows [OF st(1)] by auto
    qed
    ultimately show ?thesis using C(2) BulkInsert_ok(3) [OF quota_invD(4) [OF Q] C(5), of i x] by blast
  qed
  then show "db_res db = db_res (k_db k)"
    "map_of (db_leases db) i = map_option (\<lambda>l. l\<lparr>lr_Used := lr_Used l + bytes_for i fs\<rparr>) (map_of (db_leases (k_db k)) i)"
    "map_of (db_usage db) i = Some x \<Longrightarrow> map_of (db_usage (k_db k)) i = Some x \<or> ur_Payload x \<in> set fs \<and> u_ID (ur_Payload x) = i"
    by auto
qed

lemma persist_inv:
  assumes inv: "control_inv k" and r: "persistUsageBatch v node records k = Inr k'"
  shows "control_inv k'"
  using r
proof (cases rule: persist_cases)
  case 1
  then show ?thesis using inv by simp
next
  case (2 fresh used ls db us)
  note I = control_invD [OF inv]
  let ?cs = "filter (commercial k) fresh"
  have f: "list_all valid_usage ?cs" "list_all ValidWindowMetadata ?cs" "distinct (map u_ID ?cs)" "length ?cs \<le> 500"
    "\<And>u. u \<in> set ?cs \<Longrightarrow> \<not> has (k_usage k) (u_ID u)"
    using 2(2-6) le_trans [OF length_filter_le] by (auto simp: list_all_iff distinct_map_filter)
  note E = settle_effect [OF inv f(1-3,5,4) 2(10)]
  have du: "distinct_keys used" by (rule cp_settle_used(4) [OF 2(8)]) simp
  note L = cp_leases_after [OF I(2) du 2(9)]
  note U = BulkInsert_ok [OF I(3) 2(11)] and M = BulkInsert_member [OF 2(11)]
  show ?thesis
    unfolding control_inv_def
  proof (intro conjI allI impI)
    show "books (k_db k')" "distinct_keys (k_leases k')" "distinct_keys (k_usage k')" using E(1) L(1) U(1) by (simp_all add: 2(12))
  next
    fix i assume "has (k_retired k') i"
    then have "has (k_leases k) i" using I(5) by (simp add: 2(12))
    then show "has (k_leases k') i" using L(2) [of i] by (auto simp: has_def 2(12))
  next
    fix i c assume "map_of (k_leases k') i = Some c" and nt: "cl_Ent c \<noteq> ''admin-test''"
    then obtain c0 where c0: "map_of (k_leases k) i = Some c0" "c = c0\<lparr>cl_Used := cp_used k used i\<rparr>" using L(2) [of i] by (auto simp: 2(12))
    then obtain l where l: "map_of (db_leases (k_db k)) i = Some l" "mirrors k i c0 l" using I(4) [OF c0(1)] nt by auto
    have "bytes_for i ?cs = bytes_for i fresh"
      by (rule bytes_for_filter) (use c0 nt in \<open>auto simp: commercial_def\<close>)
    moreover have "cp_used k used i = cl_Used c0 + bytes_for i fresh"
      using cp_settle_used(1) [OF 2(8), of i] c0(1) by (simp add: cp_used_def)
    ultimately have "mirrors k' i c (l\<lparr>lr_Used := lr_Used l + bytes_for i ?cs\<rparr>)"
      using l(2) E(2) by (auto simp: mirrors_def c0(2) 2(12) lease_closed_def)
    then show "\<exists>l. map_of (db_leases (k_db k')) i = Some l \<and> mirrors k' i c l" using E(3) [of i] l(1) by (auto simp: 2(12))
  next
    fix i x assume "map_of (db_usage (k_db k')) i = Some x"
    then have "map_of (db_usage (k_db k)) i = Some x \<or> ur_Payload x \<in> set ?cs \<and> u_ID (ur_Payload x) = i" using E(4) by (simp add: 2(12))
    then show "\<exists>w. map_of (k_usage k') i = Some w \<and> us_Payload w = ur_Payload x"
    proof
      assume "map_of (db_usage (k_db k)) i = Some x"
      then obtain w where w: "map_of (k_usage k) i = Some w" "us_Payload w = ur_Payload x" using I(6) by blast
      then show ?thesis using M(1) [OF w(1)] by (auto simp: 2(12))
    next
      assume a: "ur_Payload x \<in> set ?cs \<and> u_ID (ur_Payload x) = i"
      then have "(i, \<lparr>us_Node = node, us_Payload = ur_Payload x\<rparr>) \<in> set (map (\<lambda>u. (u_ID u, \<lparr>us_Node = node, us_Payload = u\<rparr>)) fresh)" by auto
      from M(2) [OF this] show ?thesis by (auto simp: 2(12))
    qed
  qed
qed

lemma persist_stored:
  assumes r: "persistUsageBatch v node records k = Inr k'" and u: "u \<in> set records"
  shows "\<exists>w. map_of (k_usage k') (u_ID u) = Some w \<and> us_Payload w = u"
  using r
proof (cases rule: persist_cases)
  case 1
  then show ?thesis using u by simp
next
  case (2 fresh used ls db us)
  note M = BulkInsert_member [OF 2(11)]
  from 2(7) [OF u] show ?thesis
  proof
    assume "u \<in> set fresh"
    then have "(u_ID u, \<lparr>us_Node = node, us_Payload = u\<rparr>) \<in> set (map (\<lambda>u. (u_ID u, \<lparr>us_Node = node, us_Payload = u\<rparr>)) fresh)" by auto
    from M(2) [OF this] show ?thesis by (simp add: 2(12))
  next
    assume "\<exists>w. map_of (k_usage k) (u_ID u) = Some w \<and> us_Payload w = u"
    then show ?thesis using M(1) by (auto simp: 2(12))
  qed
qed

end
