(* ===== verification/Upload.thy ===== *)
theory Upload
  imports Control_Inv
begin

text \<open>
  When an upload of usage goes through. The bulk statements find every row they mean to change, the charges stay in range, and
  the two books agree: a batch of new records, each within its lease in time and all together within it in bytes, is stored.
\<close>

section \<open>Bulk statements that succeed\<close>

lemma counter_chunk_succeeds:
  assumes d: "distinct (map cc_ID cs)" "distinct_keys m"
    and e: "\<And>c. c \<in> set cs \<Longrightarrow> \<exists>x. map_of m (cc_ID c) = Some x \<and> (cas \<longrightarrow> get x = cc_Before c) \<and> guard (cc_ID c)"
  shows "\<exists>m'. counter_chunk get set_to cas guard cs m = Inr m'"
proof -
  let ?P = "\<lambda>(i, x). counter_match get cas guard cs i x"
  have "fst ` set (filter ?P m) = cc_ID ` set cs"
  proof
    show "cc_ID ` set cs \<subseteq> fst ` set (filter ?P m)"
    proof
      fix i assume "i \<in> cc_ID ` set cs"
      then obtain c where c: "c \<in> set cs" "i = cc_ID c" by blast
      then obtain x where "map_of m i = Some x" "cas \<longrightarrow> get x = cc_Before c" "guard i" using e [OF c(1)] by blast
      then have "(i, x) \<in> set m" "counter_match get cas guard cs i x" using c by (auto simp: counter_match_def list_ex_iff map_of_SomeD)
      then have "(i, x) \<in> set (filter ?P m)" by simp
      then show "i \<in> fst ` set (filter ?P m)" by force
    qed
  qed (auto simp: counter_match_def list_ex_iff)
  moreover have "distinct (map fst (filter ?P m))" using d(2) by (simp add: distinct_keys_def distinct_map_filter)
  ultimately have "length (filter ?P m) = length cs" using d(1) by (metis distinct_card length_map list.set_map)
  then show ?thesis by (simp add: counter_chunk_def)
qed

lemma counter_chunks_succeed:
  assumes "distinct (map cc_ID cs)" "distinct_keys m"
    "\<And>c. c \<in> set cs \<Longrightarrow> \<exists>x. map_of m (cc_ID c) = Some x \<and> (cas \<longrightarrow> get x = cc_Before c) \<and> guard (cc_ID c)"
  shows "\<exists>m'. counter_chunks get set_to cas guard cs m = Inr m'"
  using assms
proof (induction get set_to cas guard cs m rule: counter_chunks.induct)
  case (1 get set_to cas guard cs m)
  show ?case
  proof (cases "cs = []")
    case False
    let ?t = "take 100 cs" and ?d = "drop 100 cs"
    have dt: "distinct (map cc_ID ?t)" "distinct (map cc_ID ?d)" and disj: "cc_ID ` set ?t \<inter> cc_ID ` set ?d = {}"
      using 1(2) by (simp_all add: distinct_take distinct_drop flip: take_map drop_map)
        (metis append_take_drop_id distinct_append list.set_map take_map drop_map)
    have sub: "set ?t \<subseteq> set cs" "set ?d \<subseteq> set cs" by (simp_all add: set_take_subset set_drop_subset)
    have "\<exists>m1. counter_chunk get set_to cas guard ?t m = Inr m1"
      using sub(1) by (intro counter_chunk_succeeds [OF dt(1) 1(3)] 1(4)) blast
    then obtain m1 where m1: "counter_chunk get set_to cas guard ?t m = Inr m1" by blast
    note C = counter_chunk_ok [OF dt(1) 1(3) m1]
    have "\<exists>m'. counter_chunks get set_to cas guard ?d m1 = Inr m'"
    proof (rule 1(1) [OF False m1 dt(2)])
      show "distinct_keys m1" using 1(3) distinct_keys_fst [OF C(1)] by simp
      fix c assume c: "c \<in> set ?d"
      then obtain x where "map_of m (cc_ID c) = Some x" "cas \<longrightarrow> get x = cc_Before c" "guard (cc_ID c)" using 1(4) sub(2) by blast
      moreover have "cc_ID c \<notin> cc_ID ` set ?t" using disj c by blast
      ultimately show "\<exists>x. map_of m1 (cc_ID c) = Some x \<and> (cas \<longrightarrow> get x = cc_Before c) \<and> guard (cc_ID c)"
        using C(2) [of "cc_ID c"] by simp
    qed
    then show ?thesis using m1 False by (simp add: counter_chunks.simps [of get set_to cas guard cs])
  qed (simp add: counter_chunks.simps)
qed

lemma BulkCounter_succeeds:
  assumes "distinct_keys m" "distinct_keys ks" "\<And>i n c. g i n = Some c \<Longrightarrow> cc_ID c = i"
    "\<And>i n c. map_of ks i = Some n \<Longrightarrow> g i n = Some c \<Longrightarrow> \<exists>x. map_of m i = Some x \<and> (cas \<longrightarrow> get x = cc_Before c) \<and> guard i"
  shows "\<exists>m'. BulkCounter get set_to cas guard (List.map_filter (\<lambda>(i, n). g i n) ks) m = Inr m'"
proof -
  let ?cs = "List.map_filter (\<lambda>(i, n). g i n) ks"
  have D: "distinct (map cc_ID ?cs)" "\<And>c. c \<in> set ?cs \<longleftrightarrow> (\<exists>i n. map_of ks i = Some n \<and> g i n = Some c)"
    by (rule changes_of_map [OF assms(2)]; erule assms(3))+
  show ?thesis
    unfolding BulkCounter_def
  proof (rule counter_chunks_succeed [OF _ assms(1)])
    show "distinct (map cc_ID (sort_key cc_ID ?cs))" using D(1) by (simp add: distinct_map)
    fix c assume "c \<in> set (sort_key cc_ID ?cs)"
    then obtain i n where "map_of ks i = Some n" "g i n = Some c" using D(2) by auto
    then show "\<exists>x. map_of m (cc_ID c) = Some x \<and> (cas \<longrightarrow> get x = cc_Before c) \<and> guard (cc_ID c)" using assms(3,4) by fastforce
  qed
qed

lemma BulkInsert_succeeds:
  assumes "distinct (map fst rows)" "\<And>k. k \<in> fst ` set rows \<Longrightarrow> \<not> has m k"
  shows "\<exists>m'. BulkInsert rows m = Inr m'"
  using assms
proof (induction rows arbitrary: m)
  case (Cons r rows)
  obtain k x where r: "r = (k, x)" by (cases r)
  have "\<exists>m'. BulkInsert rows (put k x m) = Inr m'"
    by (rule Cons.IH) (use Cons.prems in \<open>auto simp: r\<close>)
  moreover have "map_of m k = None" using Cons.prems(2) [of k] by (simp add: r has_def)
  ultimately show ?case by (simp add: r insert_row_def has_def)
qed simp


section \<open>Records within their leases\<close>

text \<open>A new record of a paid lease that is open, made by the lease's node for its rule, and ended before the lease expired.\<close>

definition reportable :: "env \<Rightarrow> string \<Rightarrow> control \<Rightarrow> usage_record \<Rightarrow> bool" where
  "reportable v node k u \<longleftrightarrow> ValidWindowMetadata u \<and> valid_usage u \<and> u_NodeID u = node \<and> u_EndedAt u \<le> ev_now v + minutes 1
     \<and> \<not> has (k_usage k) (u_ID u) \<and> \<not> has (k_retired k) (u_LeaseID u)
     \<and> (case (map_of (k_leases k) (u_LeaseID u), map_of (db_leases (k_db k)) (u_LeaseID u)) of
          (Some c, Some l) \<Rightarrow> cl_Rule c = u_RuleID u \<and> cl_Node c = node \<and> cl_Ent c = u_EntitlementID u \<and> cl_Ent c \<noteq> ''admin-test''
            \<and> u_EndedAt u \<le> lr_ExpiresAt l
        | _ \<Rightarrow> False)"

text \<open>All the records of the batch for a lease fit into what the lease has left.\<close>

definition fits_leases :: "control \<Rightarrow> usage_record list \<Rightarrow> bool" where
  "fits_leases k us = list_all (\<lambda>u. case map_of (k_leases k) (u_LeaseID u) of None \<Rightarrow> False
     | Some c \<Rightarrow> cl_Used c + bytes_for (u_LeaseID u) us \<le> cl_Bytes c) us"

lemma reportableD:
  assumes "reportable v node k u" "control_inv k"
  obtains c l where "map_of (k_leases k) (u_LeaseID u) = Some c" "map_of (db_leases (k_db k)) (u_LeaseID u) = Some l" "mirrors k (u_LeaseID u) c l"
    "lease_ok (k_db k) (u_LeaseID u) l" "cl_Rule c = u_RuleID u" "cl_Node c = node" "u_NodeID u = node" "cl_Ent c = u_EntitlementID u" "cl_Ent c \<noteq> ''admin-test''"
    "u_EndedAt u \<le> lr_ExpiresAt l" "Unix (u_EndedAt u) \<le> cl_Expires c" "\<not> has (k_retired k) (u_LeaseID u)" "0 \<le> usage_bytes u"
proof -
  note I = control_invD [OF assms(2)]
  obtain c l where c: "map_of (k_leases k) (u_LeaseID u) = Some c" "map_of (db_leases (k_db k)) (u_LeaseID u) = Some l" "cl_Rule c = u_RuleID u"
    "cl_Node c = node" "cl_Ent c = u_EntitlementID u" "cl_Ent c \<noteq> ''admin-test''" "u_EndedAt u \<le> lr_ExpiresAt l" "u_NodeID u = node" "\<not> has (k_retired k) (u_LeaseID u)"
    "valid_usage u"
    using assms(1) by (auto simp: reportable_def split: option.splits)
  have m: "mirrors k (u_LeaseID u) c l" using I(4) [OF c(1,6)] c(2) by simp
  have "Unix (u_EndedAt u) \<le> cl_Expires c" using m zdiv_mono1 [OF c(7), of 1000000000] by (simp add: mirrors_def Unix_def)
  moreover have "0 \<le> usage_bytes u" using c(10) by (simp add: valid_usage_def usage_bytes_def)
  ultimately show ?thesis using that [OF c(1,2) m quota_invD(6) [OF booksD(3) [OF I(1)] c(2)] c(3,4,8,5,6,7) _ c(9)] by blast
qed

lemma bytes_for_mine: "list_all valid_usage us \<Longrightarrow> u_LeaseID u = i \<Longrightarrow> usage_bytes u \<le> bytes_for i (u # us)"
  using bytes_for_nonneg [of us i] by simp

lemma reportable_valid: "list_all (reportable v node k) us \<Longrightarrow> list_all valid_usage us"
  by (auto simp: list_all_iff reportable_def)

lemma cp_settle_succeeds:
  assumes inv: "control_inv k" and "list_all (reportable v node k) us" "\<And>i. i \<in> u_LeaseID ` set us \<Longrightarrow> 0 \<le> cp_used k used i"
    "\<And>u c. u \<in> set us \<Longrightarrow> map_of (k_leases k) (u_LeaseID u) = Some c \<Longrightarrow> cp_used k used (u_LeaseID u) + bytes_for (u_LeaseID u) us \<le> cl_Bytes c"
  shows "\<exists>used'. runE (cp_settle_one node k) used us = Inr used'"
  using assms(2-)
proof (induction us arbitrary: used)
  case (Cons u us)
  let ?i = "u_LeaseID u"
  obtain c l where c: "map_of (k_leases k) ?i = Some c" "cl_Rule c = u_RuleID u" "cl_Node c = node" "cl_Ent c = u_EntitlementID u"
    "Unix (u_EndedAt u) \<le> cl_Expires c" "\<not> has (k_retired k) ?i" "0 \<le> usage_bytes u"
    using Cons.prems(1) by (auto elim: reportableD [OF _ inv])
  have v: "list_all valid_usage us" using Cons.prems(1) by (auto intro: reportable_valid)
  have "0 \<le> cp_used k used ?i" "cp_used k used ?i + bytes_for ?i (u # us) \<le> cl_Bytes c"
    using Cons.prems(2) [of ?i] Cons.prems(3) [OF list.set_intros(1) c(1)] by auto
  then have fit: "0 \<le> cp_used k used ?i" "cp_used k used ?i + usage_bytes u \<le> cl_Bytes c" using bytes_for_mine [OF v refl, of u] by linarith+
  let ?used = "put ?i (cp_used k used ?i + usage_bytes u) used"
  have s: "cp_settle_one node k used u = Inr ?used" using c fit by (simp add: cp_settle_one_def Let_def not_less)
  have used: "cp_used k ?used j = cp_used k used j + (if ?i = j then usage_bytes u else 0)" for j by (auto simp: cp_used_def)
  have "\<exists>used'. runE (cp_settle_one node k) ?used us = Inr used'"
  proof (rule Cons.IH)
    show "list_all (reportable v node k) us" using Cons.prems(1) by simp
    show "0 \<le> cp_used k ?used i" if "i \<in> u_LeaseID ` set us" for i using Cons.prems(2) [of i] that c(7) by (auto simp: used)
    show "cp_used k ?used (u_LeaseID w) + bytes_for (u_LeaseID w) us \<le> cl_Bytes d"
      if "w \<in> set us" "map_of (k_leases k) (u_LeaseID w) = Some d" for w d
      using Cons.prems(3) [of w d] that by (simp add: used)
  qed
  then show ?case using s by simp
qed simp


lemma charge_step:
  assumes "lease_ok db i l" "charge (lr_Mult l) (lr_Bytes l) \<le> 268435456" "0 \<le> n" "0 \<le> raw" "n + raw \<le> lr_Bytes l"
  shows "0 \<le> charge (lr_Mult l) (n + raw) - charge (lr_Mult l) n" "charge (lr_Mult l) (n + raw) - charge (lr_Mult l) n \<le> 268435456"
proof -
  have m: "0 \<le> lr_Mult l" using assms(1) by (simp add: lease_ok_def)
  show "0 \<le> charge (lr_Mult l) (n + raw) - charge (lr_Mult l) n" using charge_mono [OF assms(3) _ m, of "n + raw"] assms(4) by simp
  have "charge (lr_Mult l) (n + raw) \<le> charge (lr_Mult l) (lr_Bytes l)" using charge_mono [OF _ assms(5) m] assms(3,4) by simp
  then show "charge (lr_Mult l) (n + raw) - charge (lr_Mult l) n \<le> 268435456" using assms(2) charge_nonneg [OF assms(3) m] by linarith
qed

lemma settle_one_succeeds:
  assumes inv: "control_inv k" and u: "reportable v node k u" and l: "map_of (db_leases (k_db k)) (u_LeaseID u) = Some l"
    and fit: "0 \<le> used_now (k_db k) st (u_LeaseID u)" "used_now (k_db k) st (u_LeaseID u) + usage_bytes u \<le> lr_Bytes l"
    and b: "\<And>e. look0 (st_charges st) e \<le> b" "b + 268435456 \<le> max_int64"
  obtains d where "0 \<le> d" "d \<le> 268435456" "settle_one (k_db k) st u = Inr \<lparr>
      st_used = put (u_LeaseID u) (used_now (k_db k) st (u_LeaseID u) + usage_bytes u) (st_used st),
      st_charges = put (lr_Ent l) (look0 (st_charges st) (lr_Ent l) + d) (st_charges st),
      st_rows = st_rows st @ [(u_ID u, \<lparr>ur_Lease = u_LeaseID u, ur_Payload = u, ur_Charged = d\<rparr>)]\<rparr>"
proof -
  let ?i = "u_LeaseID u" and ?n = "used_now (k_db k) st (u_LeaseID u)"
  let ?d = "charge (lr_Mult l) (?n + usage_bytes u) - charge (lr_Mult l) ?n"
  obtain c where c: "mirrors k ?i c l" "lease_ok (k_db k) ?i l" "cl_Rule c = u_RuleID u" "cl_Node c = node" "u_NodeID u = node"
    "cl_Ent c = u_EntitlementID u" "u_EndedAt u \<le> lr_ExpiresAt l" "\<not> has (k_retired k) ?i" "0 \<le> usage_bytes u"
    by (rule reportableD [OF u inv]) (use l in simp)
  have "charge (lr_Mult l) (lr_Bytes l) \<le> 268435456" using c(1) unfolding mirrors_def by blast
  note S = charge_step [OF c(2) this fit(1) c(9) fit(2)]
  have "fits64 ?d" using S by (simp add: fits64_def min_int64_def max_int64_def)
  moreover have "look0 (st_charges st) (lr_Ent l) \<le> max_int64 - ?d" using b(1) [of "lr_Ent l"] b(2) S(2) by linarith
  moreover have "\<not> lease_closed (k_db k) ?i" "lr_Node l = u_NodeID u" "lr_Rule l = u_RuleID u" "lr_Ent l = u_EntitlementID u"
    using c by (simp_all add: mirrors_def)
  ultimately show ?thesis using fit S c(7,9) l
    by (intro that [OF S]) (simp add: settle_one_def Let_def not_less)
qed

lemma settle_succeeds:
  assumes inv: "control_inv k" and "list_all (reportable v node k) us" "\<And>i. i \<in> u_LeaseID ` set us \<Longrightarrow> 0 \<le> used_now (k_db k) st i"
    "\<And>u l. u \<in> set us \<Longrightarrow> map_of (db_leases (k_db k)) (u_LeaseID u) = Some l \<Longrightarrow> used_now (k_db k) st (u_LeaseID u) + bytes_for (u_LeaseID u) us \<le> lr_Bytes l"
    "\<And>e. look0 (st_charges st) e \<le> b" "0 \<le> b" "b + int (length us) * 268435456 \<le> max_int64" "\<And>e. has (st_charges st) e \<Longrightarrow> has (db_ents (k_db k)) e"
  shows "\<exists>st'. runE (settle_one (k_db k)) st us = Inr st' \<and> (\<forall>e. has (st_charges st') e \<longrightarrow> has (db_ents (k_db k)) e)"
  using assms(2-)
proof (induction us arbitrary: st b)
  case (Cons u us)
  let ?i = "u_LeaseID u" and ?db = "k_db k"
  have ru: "reportable v node k u" using Cons.prems(1) by simp
  obtain l where l: "map_of (db_leases ?db) ?i = Some l" "lease_ok ?db ?i l" "0 \<le> usage_bytes u" by (rule reportableD [OF ru inv])
  have v: "list_all valid_usage us" using Cons.prems(1) by (auto intro: reportable_valid)
  have "0 \<le> used_now ?db st ?i" "used_now ?db st ?i + bytes_for ?i (u # us) \<le> lr_Bytes l"
    using Cons.prems(2) [of ?i] Cons.prems(3) [OF list.set_intros(1) l(1)] by auto
  then have fit: "0 \<le> used_now ?db st ?i" "used_now ?db st ?i + usage_bytes u \<le> lr_Bytes l" using bytes_for_mine [OF v refl, of u] by linarith+
  have room: "b + 268435456 + int (length us) * 268435456 \<le> max_int64" using Cons.prems(6) by (simp add: algebra_simps)
  then have "b + 268435456 \<le> max_int64" by linarith
  then obtain d where d: "0 \<le> d" "d \<le> 268435456" "settle_one ?db st u = Inr \<lparr>
      st_used = put ?i (used_now ?db st ?i + usage_bytes u) (st_used st),
      st_charges = put (lr_Ent l) (look0 (st_charges st) (lr_Ent l) + d) (st_charges st),
      st_rows = st_rows st @ [(u_ID u, \<lparr>ur_Lease = ?i, ur_Payload = u, ur_Charged = d\<rparr>)]\<rparr>"
    by (rule settle_one_succeeds [OF inv ru l(1) fit Cons.prems(4)])
  let ?st = "\<lparr>st_used = put ?i (used_now ?db st ?i + usage_bytes u) (st_used st),
      st_charges = put (lr_Ent l) (look0 (st_charges st) (lr_Ent l) + d) (st_charges st),
      st_rows = st_rows st @ [(u_ID u, \<lparr>ur_Lease = ?i, ur_Payload = u, ur_Charged = d\<rparr>)]\<rparr>"
  have used: "used_now ?db ?st j = used_now ?db st j + (if ?i = j then usage_bytes u else 0)" for j by (auto simp: used_now_def)
  have "\<exists>st'. runE (settle_one ?db) ?st us = Inr st' \<and> (\<forall>e. has (st_charges st') e \<longrightarrow> has (db_ents ?db) e)"
  proof (rule Cons.IH [OF _ _ _ _ _ room])
    show "list_all (reportable v node k) us" "0 \<le> b + 268435456" using Cons.prems(1,5) by simp_all
    show "0 \<le> used_now ?db ?st i" if "i \<in> u_LeaseID ` set us" for i using Cons.prems(2) [of i] that l(3) by (auto simp: used)
    show "used_now ?db ?st (u_LeaseID w) + bytes_for (u_LeaseID w) us \<le> lr_Bytes x"
      if "w \<in> set us" "map_of (db_leases ?db) (u_LeaseID w) = Some x" for w x
      using Cons.prems(3) [of w x] that by (simp add: used)
    show "look0 (st_charges ?st) e \<le> b + 268435456" for e
      using Cons.prems(4) [of e] Cons.prems(4) [of "lr_Ent l"] d(2) by (auto simp: look0_def)
    show "has (db_ents ?db) e" if "has (st_charges ?st) e" for e
      using that Cons.prems(7) [of e] l(2) by (auto simp: lease_ok_def)
  qed
  then show ?case using d(3) by simp
qed simp


section \<open>Both books\<close>

lemma cp_counters_succeed:
  assumes inv: "control_inv k" and r: "runE (cp_settle_one node k) [] us = Inr used"
  shows "\<exists>ls. BulkCounter cl_Used (\<lambda>n c. c\<lparr>cl_Used := n\<rparr>) True (\<lambda>i. \<not> has (k_retired k) i) (cp_changes k used) (k_leases k) = Inr ls"
  unfolding cp_changes_def
proof (rule BulkCounter_succeeds [OF control_invD(2) [OF inv]])
  show "distinct_keys used" by (rule cp_settle_used(4) [OF r]) simp
next
  fix i n c assume n: "map_of used i = Some n"
    and c: "(case map_of (k_leases k) i of None \<Rightarrow> None
      | Some c \<Rightarrow> if n \<noteq> cl_Used c then Some \<lparr>cc_ID = i, cc_Before = cl_Used c, cc_Delta = n - cl_Used c\<rparr> else None) = Some c"
  obtain u where "u \<in> set us" "i = u_LeaseID u" using n cp_settle_used(2) [OF r, of i] by auto
  then have "\<not> has (k_retired k) i" using cp_settle_used(3) [OF r] by blast
  then show "\<exists>x. map_of (k_leases k) i = Some x \<and> (True \<longrightarrow> cl_Used x = cc_Before c) \<and> \<not> has (k_retired k) i"
    using c by (auto split: option.splits if_splits)
qed (auto split: option.splits if_splits)

lemma commit_succeeds:
  assumes inv: "quota_inv db" and li: "loop_inv db st" and e: "\<And>e. has (st_charges st) e \<Longrightarrow> has (db_ents db) e"
    and rows: "distinct (map fst (st_rows st))" "\<And>i. i \<in> fst ` set (st_rows st) \<Longrightarrow> \<not> has (db_usage db) i"
  shows "\<exists>db'. commit_settlement db st = Inr db'"
proof -
  note Q = quota_invD [OF inv] and L = loop_invD [OF li]
  have "\<exists>ls. BulkCounter lr_Used (\<lambda>n l. l\<lparr>lr_Used := n\<rparr>) True (\<lambda>i. \<not> lease_closed db i) (lease_changes db st) (db_leases db) = Inr ls"
    unfolding lease_changes_def
    by (rule BulkCounter_succeeds [OF Q(2) L(1)]) (auto dest: L(3) split: option.splits if_splits)
  moreover have "\<exists>es. BulkCounter en_Used (\<lambda>n e. e\<lparr>en_Used := n\<rparr>) False (\<lambda>i. True) (charge_changes st) (db_ents db) = Inr es"
    unfolding charge_changes_def
  proof (rule BulkCounter_succeeds [OF Q(1) L(2)])
    fix i n c assume "map_of (st_charges st) i = Some n"
    then have "has (db_ents db) i" using e by (simp add: has_def)
    then show "\<exists>x. map_of (db_ents db) i = Some x \<and> (False \<longrightarrow> en_Used x = cc_Before c) \<and> True" by (auto simp: has_def)
  qed (auto split: if_splits)
  moreover have "\<exists>us. BulkInsert (st_rows st) (db_usage db) = Inr us" by (rule BulkInsert_succeeds [OF rows])
  ultimately show ?thesis by (auto simp: commit_settlement_def)
qed

lemma fits_leasesD:
  assumes "fits_leases k us" "u \<in> set us" "map_of (k_leases k) (u_LeaseID u) = Some c"
  shows "cl_Used c + bytes_for (u_LeaseID u) us \<le> cl_Bytes c"
proof -
  have "case map_of (k_leases k) (u_LeaseID u) of None \<Rightarrow> False | Some c \<Rightarrow> cl_Used c + bytes_for (u_LeaseID u) us \<le> cl_Bytes c"
    using assms(1,2) unfolding fits_leases_def list_all_iff by (rule bspec)
  then show ?thesis by (simp add: assms(3))
qed

lemma settle_batch_succeeds:
  assumes inv: "control_inv k" and r: "list_all (reportable v node k) us" and d: "distinct (map u_ID us)" "length us \<le> 500" "us \<noteq> []"
    and fit: "fits_leases k us"
  shows "\<exists>db. SettleUsageBatch us (k_db k) = Inr db"
proof -
  let ?db = "k_db k" and ?s0 = "\<lparr>st_used = [], st_charges = [], st_rows = []\<rparr>"
  note Q = booksD(3) [OF control_invD(1) [OF inv]]
  have f: "list_all valid_usage us" "list_all ValidWindowMetadata us" "\<And>u. u \<in> set us \<Longrightarrow> \<not> has (k_usage k) (u_ID u)"
    using r by (auto simp: list_all_iff reportable_def)
  have mult: "0 < lr_Mult l" if "map_of (db_leases ?db) i = Some l" for i l using quota_invD(6) [OF Q that] by (simp add: lease_ok_def)
  have start: "0 \<le> lr_Used l \<and> lr_Used l + bytes_for (u_LeaseID u) us \<le> lr_Bytes l"
    if u: "u \<in> set us" "map_of (db_leases ?db) (u_LeaseID u) = Some l" for u l
  proof -
    have "reportable v node k u" using r u(1) by (simp add: list_all_iff)
    then obtain c where "map_of (k_leases k) (u_LeaseID u) = Some c" "mirrors k (u_LeaseID u) c l" "lease_ok ?db (u_LeaseID u) l"
      by (rule reportableD [OF _ inv]) (use u(2) in simp)
    then show ?thesis using fits_leasesD [OF fit u(1)] by (auto simp: mirrors_def lease_ok_def)
  qed
  have "\<exists>st. runE (settle_one ?db) ?s0 us = Inr st \<and> (\<forall>e. has (st_charges st) e \<longrightarrow> has (db_ents ?db) e)"
  proof (rule settle_succeeds [OF inv r, of _ 0])
    show "0 \<le> used_now ?db ?s0 i" if "i \<in> u_LeaseID ` set us" for i
      using that start by (auto simp: used_now_def split: option.splits)
    show "used_now ?db ?s0 (u_LeaseID u) + bytes_for (u_LeaseID u) us \<le> lr_Bytes l"
      if "u \<in> set us" "map_of (db_leases ?db) (u_LeaseID u) = Some l" for u l
      using start [OF that] that(2) by (simp add: used_now_def)
    show "0 + int (length us) * 268435456 \<le> max_int64" using d(2) by (simp add: max_int64_def)
  qed (simp_all add: look0_def has_def)
  then obtain st where st: "runE (settle_one ?db) ?s0 us = Inr st" "\<And>e. has (st_charges st) e \<Longrightarrow> has (db_ents ?db) e" by blast
  have "loop_inv ?db st" using settle.run_inv [OF _ f(1) st(1)] Q loop_inv_start by blast
  moreover have ids: "map fst (st_rows st) = map u_ID us"
    using arg_cong [OF settle_rows [OF st(1)], of "map fst"] by (simp add: o_def case_prod_beta')
  moreover have "\<not> has (db_usage ?db) i" if "i \<in> fst ` set (st_rows st)" for i
  proof -
    have "i \<in> u_ID ` set us" using that arg_cong [OF ids, of set] by simp
    then have "\<not> has (k_usage k) i" using f(3) by blast
    then show ?thesis using control_invD(6) [OF inv, of i] by (cases "map_of (db_usage ?db) i") (auto simp: has_def)
  qed
  ultimately have "\<exists>db. commit_settlement ?db st = Inr db" using commit_succeeds [OF Q _ st(2)] d(1) by metis
  moreover have "\<not> list_ex (\<lambda>u. case map_of (db_leases ?db) (u_LeaseID u) of None \<Rightarrow> False | Some l \<Rightarrow> lr_Mult l \<le> 0) us"
    using mult by (force simp: list_ex_iff not_le split: option.splits)
  ultimately show ?thesis using settle_commercial [OF inv f(1,2) d(1) f(3) d(2,3)] st(1) by simp
qed

lemma persist_succeeds:
  assumes inv: "control_inv k" and r: "list_all (reportable v node k) us" and d: "distinct (map u_ID us)" "length us \<le> 500"
    and fit: "fits_leases k us"
  shows "\<exists>k'. persistUsageBatch v node us k = Inr k'"
proof (cases "us = []")
  case False
  have f: "list_all valid_usage us" "list_all ValidWindowMetadata us" "\<forall>u \<in> set us. u_NodeID u = node \<and> u_EndedAt u \<le> ev_now v + minutes 1"
    "\<And>u. u \<in> set us \<Longrightarrow> \<not> has (k_usage k) (u_ID u)"
    using r by (auto simp: list_all_iff reportable_def)
  have "cp_dedupe v node us [] = Inr us" by (rule cp_dedupe_id [OF f(1,2) d(1) _ f(3)]) (simp add: has_def)
  moreover have "cp_fresh k us = Inr us" using f(4) by (auto simp: cp_fresh_def list_ex_iff has_def filter_id_conv)
  moreover have start: "0 \<le> cl_Used c" if u: "u \<in> set us" "map_of (k_leases k) (u_LeaseID u) = Some c" for u c
  proof -
    have "reportable v node k u" using r u(1) by (simp add: list_all_iff)
    then obtain l where "mirrors k (u_LeaseID u) c l" "lease_ok (k_db k) (u_LeaseID u) l" by (rule reportableD [OF _ inv]) (use u(2) in simp)
    then show ?thesis by (simp add: mirrors_def lease_ok_def)
  qed
  moreover obtain used where used: "runE (cp_settle_one node k) [] us = Inr used"
  proof -
    have "\<exists>used. runE (cp_settle_one node k) [] us = Inr used"
    proof (rule cp_settle_succeeds [OF inv r])
      show "0 \<le> cp_used k [] i" if "i \<in> u_LeaseID ` set us" for i using that start by (auto simp: cp_used_def split: option.splits)
      show "cp_used k [] (u_LeaseID u) + bytes_for (u_LeaseID u) us \<le> cl_Bytes c" if "u \<in> set us" "map_of (k_leases k) (u_LeaseID u) = Some c" for u c
        using fits_leasesD [OF fit that] that(2) by (simp add: cp_used_def)
    qed
    then show ?thesis using that by blast
  qed
  moreover obtain ls where "BulkCounter cl_Used (\<lambda>n c. c\<lparr>cl_Used := n\<rparr>) True (\<lambda>i. \<not> has (k_retired k) i) (cp_changes k used) (k_leases k) = Inr ls"
    using cp_counters_succeed [OF inv used] by blast
  moreover have "filter (commercial k) us = us"
    using r by (force simp: filter_id_conv list_all_iff reportable_def commercial_def split: option.splits)
  moreover obtain db where "SettleUsageBatch us (k_db k) = Inr db" using settle_batch_succeeds [OF inv r d False fit] by blast
  moreover have "\<exists>m. BulkInsert (map (\<lambda>u. (u_ID u, \<lparr>us_Node = node, us_Payload = u\<rparr>)) us) (k_usage k) = Inr m"
    by (rule BulkInsert_succeeds) (use d(1) f(4) in \<open>auto simp: o_def\<close>)
  ultimately show ?thesis using d(2) False by (auto simp: persistUsageBatch_def lift_db_def)
qed (simp add: persistUsageBatch_def)

end
