(* ===== verification/Control_Props.thy ===== *)
theory Control_Props
  imports Upload Commerce_Props
begin

text \<open>
  The control plane as one machine: the handlers of leases and usage, the requests of the commerce service, and
  edits of users, groups, nodes and rules, which are arbitrary here. Over every run from an empty panel the two books of
  leases agree.
\<close>

section \<open>Runs\<close>

record edit =
  ed_users :: "(string, cp_user) gomap"
  ed_identities :: "(string \<times> string) list"
  ed_groups :: "(string, group) gomap"
  ed_nodes :: "(string, cp_node) gomap"
  ed_rules :: "(string, control_rule) gomap"
  ed_ruleLimits :: "(string, int) gomap"

datatype control_op =
    OpRefresh env string refill_hint
  | OpPrefetch env string string string int
  | OpRetire env string string int int bool
  | OpUsage env string "usage_record list"
  | OpGrant env control_rule
  | OpEdit edit
  | OpCommerce commerce_op

fun control_step :: "control \<Rightarrow> control_op \<Rightarrow> control_error + control" where
  "control_step k (OpRefresh v node hint) = refreshLeasesWithPrefetch v node hint k"
| "control_step k (OpPrefetch v node rule lease n) = bindE (prefetchLease v node rule lease n k) (\<lambda>(_, k'). Inr k')"
| "control_step k (OpRetire v node lease used header wantConfig) = retireLease v node lease used header wantConfig k"
| "control_step k (OpUsage v node records) = persistUsageBatch v node records k"
| "control_step k (OpGrant v rule) = bindE (grant_rule_lease v rule k) (\<lambda>(_, k'). Inr k')"
| "control_step k (OpEdit e) = Inr (k\<lparr>k_users := ed_users e, k_identities := ed_identities e, k_groups := ed_groups e,
     k_nodes := ed_nodes e, k_rules := ed_rules e, k_ruleLimits := ed_ruleLimits e\<rparr>)"
| "control_step k (OpCommerce op) = bindE (lift_db (commerce_step (k_db k) op)) (\<lambda>db. Inr (k\<lparr>k_db := db\<rparr>))"

text \<open>The quota of an entitlement is reached through the control plane only.\<close>

fun is_quota :: "commerce_op \<Rightarrow> bool" where
  "is_quota (OpQuota _) = True"
| "is_quota _ = False"

fun control_ok :: "control_op \<Rightarrow> bool" where
  "control_ok (OpCommerce op) \<longleftrightarrow> op_ok op \<and> \<not> is_quota op"
| "control_ok _ \<longleftrightarrow> True"

definition empty_control :: control where
  "empty_control = \<lparr>k_users = [], k_identities = [], k_groups = [], k_nodes = [], k_rules = [], k_ruleLimits = [], k_leases = [],
     k_retired = [], k_usage = [], k_db = empty_db\<rparr>"

lemma control_step_inv:
  assumes inv: "control_inv k" and ok: "control_ok op" and r: "control_step k op = Inr k'"
  shows "control_inv k'"
proof (cases op)
  case (OpCommerce c)
  then obtain db where db: "commerce_step (k_db k) c = Inr db" "k' = k\<lparr>k_db := db\<rparr>" using r by (auto simp: bindE_eq_Inr)
  have "books db" using commerce_step_books [OF control_invD(1) [OF inv] _ db(1)] ok OpCommerce by simp
  moreover have "metering db = metering (k_db k)" using commerce_step_metering [OF db(1)] ok OpCommerce by (cases c) auto
  ultimately show ?thesis by (intro control_inv_cong [OF _ _ _ _ _ inv]) (simp_all add: db(2))
qed (use inv r in \<open>auto simp: bindE_eq_Inr intro: refreshLeases_inv prefetchLease_inv retireLease_inv persist_inv grant_rule_lease_inv\<close>)

interpretation control: guarded_machine control_step control_ok control_inv
  by unfold_locales (rule control_step_inv)

lemma control_inv_empty: "control_inv empty_control"
  using books_empty by (simp add: control_inv_def empty_control_def empty_db_def has_def)

lemma control_reachable:
  assumes "runE control_step empty_control ops = Inr k" "list_all control_ok ops"
  shows "control_inv k"
  by (rule control.run_inv [OF control_inv_empty assms(2,1)])

section \<open>What is stored stays\<close>

text \<open>No handler removes or changes a stored usage record.\<close>

lemma usage_grants [dest!]:
  "allocate v rule m b k = Inr (l, k1) \<Longrightarrow> k_usage k1 = k_usage k"
  "insert_cp_lease r n l k = Inr k2 \<Longrightarrow> k_usage k2 = k_usage k"
  by (auto simp: allocate_def insert_cp_lease_def bindE_eq_Inr)

lemma usage_allocateStandbyTx [dest!]: "allocateStandbyTx v rule m b k = Inr (s, k') \<Longrightarrow> k_usage k' = k_usage k"
  by (auto simp: allocateStandbyTx_def bindE_eq_Inr split: option.splits sum.splits if_splits)

lemma usage_refillStandbyTx [dest!]: "refillStandbyTx v rule g n k = Inr (b, rule', k') \<Longrightarrow> k_usage k' = k_usage k"
  by (auto simp: refillStandbyTx_def bindE_eq_Inr split: option.splits if_splits)

lemma usage_rows [simp]: "k_usage (bump_node node k) = k_usage k" "k_usage (put_rule rule k) = k_usage k"
  by (simp_all add: bump_node_def put_rule_def split: option.splits)

lemma usage_save_rule [dest!]: "save_rule rule s = Inr s' \<Longrightarrow> k_usage (rs_k s') = k_usage (rs_k s)"
  by (auto simp: save_rule_def split: if_splits)

lemma usage_keep_lease [dest!]:
  "keep_lease v pipeline hint g legacy dropped rule s = Inr s' \<Longrightarrow> k_usage (rs_k s') = k_usage (rs_k s)"
  by (auto simp: keep_lease_def bindE_eq_Inr split: if_splits)

lemma usage_next_lease [dest!]: "next_lease v pipeline allowed retired rule g k = Inr (lo, p, k1) \<Longrightarrow> k_usage k1 = k_usage k"
  by (erule next_lease_cases) auto

lemma usage_replace_lease [dest!]:
  "replace_lease v pipeline hint g allowed retired rule s = Inr s' \<Longrightarrow> k_usage (rs_k s') = k_usage (rs_k s)"
  by (auto simp: replace_lease_def bindE_eq_Inr Let_def split: if_splits option.splits)

lemma usage_refresh_item: "refresh_item v pipeline hint s it = Inr s' \<Longrightarrow> k_usage (rs_k s') = k_usage (rs_k s)"
  by (auto simp: refresh_item_def bindE_eq_Inr Let_def split: if_splits)


interpretation refresh_usage: guarded_machine "refresh_item v pipeline hint" "\<lambda>_. True" "\<lambda>s. k_usage (rs_k s) = us"
  for v pipeline hint us
  by unfold_locales (simp add: usage_refresh_item)

lemma usage_refresh [dest!]:
  assumes "refreshLeasesWithPrefetch v node hint k = Inr k'"
  shows "k_usage k' = k_usage k"
proof -
  obtain pipeline s where s: "runE (refresh_item v pipeline hint) \<lparr>rs_policies = [], rs_changed = False, rs_k = k\<rparr> (refresh_items k node) = Inr s"
    and k': "k' = (if rs_changed s then bump_node node (rs_k s) else rs_k s)"
    by (rule refresh_cases [OF assms])
  have "k_usage (rs_k s) = k_usage k" by (rule refresh_usage.run_inv [OF _ _ s]) (simp_all add: list_all_iff)
  then show ?thesis by (simp add: k')
qed

lemma usage_prefetch_grant [dest!]: "prefetch_grant v node rule g n k = Inr (i, k') \<Longrightarrow> k_usage k' = k_usage k"
  by (auto simp: prefetch_grant_def bindE_eq_Inr split: option.splits)

lemma usage_prefetch [dest!]: "prefetchLease v node ruleID leaseID n k = Inr (j, k') \<Longrightarrow> k_usage k' = k_usage k"
  by (auto simp: prefetchLease_def bindE_eq_Inr split: option.splits if_splits)

lemma usage_retire_tx [dest!]: "retire_tx node i n b k = Inr (hint, k') \<Longrightarrow> k_usage k' = k_usage k"
  by (auto simp: retire_tx_def bindE_eq_Inr Let_def split: option.splits if_splits)

lemma usage_retireLease [dest!]: "retireLease v node i n header want k = Inr k' \<Longrightarrow> k_usage k' = k_usage k"
  by (erule retireLease_cases) auto

lemma usage_grant_rule_lease [dest!]: "grant_rule_lease v rule k = Inr (l, k') \<Longrightarrow> k_usage k' = k_usage k"
  by (auto simp: grant_rule_lease_def bindE_eq_Inr split: if_splits)

lemma usage_kept:
  assumes "control_step k op = Inr k'" "map_of (k_usage k) i = Some w"
  shows "map_of (k_usage k') i = Some w"
proof (cases op)
  case (OpUsage v node records)
  then have "persistUsageBatch v node records k = Inr k'" using assms(1) by simp
  then show ?thesis by (cases rule: persist_cases) (use assms(2) BulkInsert_member(1) in auto)
qed (use assms in \<open>auto simp: bindE_eq_Inr\<close>)

interpretation storage: guarded_machine control_step "\<lambda>_. True" "\<lambda>k. map_of (k_usage k) i = Some w" for i w
  by unfold_locales (rule usage_kept)

lemma cp_dedupe_later:
  assumes "cp_dedupe v node us seen = Inr vs" "ev_now v \<le> ev_now v'"
  shows "cp_dedupe v' node us seen = Inr vs"
  using assms
proof (induction us arbitrary: seen vs)
  case (Cons u us)
  have later: "u_EndedAt u \<le> ev_now v + minutes 1 \<Longrightarrow> u_EndedAt u \<le> ev_now v' + minutes 1" using Cons.prems(2) by linarith
  show ?case
  proof (cases "map_of seen (u_ID u)")
    case None
    then obtain rest where "cp_dedupe v node us (put (u_ID u) u seen) = Inr rest" "vs = u # rest"
      using Cons.prems(1) by (auto simp: bindE_eq_Inr split: if_splits)
    then show ?thesis using Cons.prems later Cons.IH None by (auto simp: not_less split: if_splits)
  next
    case (Some old)
    then show ?thesis using Cons.prems later Cons.IH by (auto simp: not_less split: if_splits)
  qed
qed simp

lemma persist_again:
  assumes d: "cp_dedupe v node records [] = Inr vs" "length records \<le> 500"
    and s: "\<And>u. u \<in> set records \<Longrightarrow> \<exists>w. map_of (k_usage k) (u_ID u) = Some w \<and> us_Payload w = u"
  shows "persistUsageBatch v node records k = Inr k"
proof -
  have sub: "set vs \<subseteq> set records" using cp_dedupe_distinct [OF d(1)] by blast
  have st: "has (k_usage k) (u_ID u) \<and> (\<forall>w. map_of (k_usage k) (u_ID u) = Some w \<longrightarrow> us_Payload w = u)" if "u \<in> set vs" for u
    using s [of u] sub that by (auto simp: has_def)
  then have "filter (\<lambda>u. \<not> has (k_usage k) (u_ID u)) vs = []" by (simp add: filter_empty_conv)
  moreover have "\<not> list_ex (\<lambda>u. case map_of (k_usage k) (u_ID u) of None \<Rightarrow> False | Some r \<Rightarrow> us_Payload r \<noteq> u) vs"
    using st by (auto simp: list_ex_iff split: option.splits)
  ultimately have "cp_fresh k vs = Inr []" by (simp add: cp_fresh_def)
  then show ?thesis using d by (simp add: persistUsageBatch_def)
qed

lemma persist_dedupe:
  assumes "persistUsageBatch v node records k = Inr k'"
  shows "length records \<le> 500" "\<exists>vs. cp_dedupe v node records [] = Inr vs"
  using assms by (auto simp: persistUsageBatch_def bindE_eq_Inr split: if_splits)


section \<open>Counting\<close>

lemma persist_counts:
  assumes inv: "control_inv k" and r: "persistUsageBatch v node us k = Inr k'" and d: "distinct (map u_ID us)"
    and new: "\<And>u. u \<in> set us \<Longrightarrow> \<not> has (k_usage k) (u_ID u)" and c: "map_of (k_leases k) i = Some c"
  shows "map_of (k_leases k') i = Some (c\<lparr>cl_Used := cl_Used c + bytes_for i us\<rparr>)"
  using r
proof (cases rule: persist_cases)
  case 1
  have "us = []" using 1(2) new by (cases us) (auto simp: has_def)
  then show ?thesis using 1(1) c by simp
next
  case (2 fresh used ls db vs)
  have du: "distinct_keys used" by (rule cp_settle_used(4) [OF 2(8)]) simp
  have "u \<in> set fresh" if "u \<in> set us" for u using 2(7) [OF that] new [OF that] by (auto simp: has_def)
  then have "set fresh = set us" using 2(13) by blast
  moreover have "distinct fresh" "distinct us" using 2(4) d by (simp_all add: distinct_map)
  ultimately have "bytes_for i fresh = bytes_for i us" by (simp add: bytes_for_def sum_list_distinct_conv_sum_set)
  then have "cp_used k used i = cl_Used c + bytes_for i us" using cp_settle_used(1) [OF 2(8), of i] c by (simp add: cp_used_def)
  then show ?thesis using cp_leases_after(2) [OF control_invD(2) [OF inv] du 2(9), of i] c by (simp add: 2(12))
qed

lemma settle_in_time:
  assumes "runE (settle_one db) st us = Inr st'" "u \<in> set us" "map_of (db_leases db) (u_LeaseID u) = Some l"
  shows "u_EndedAt u \<le> lr_ExpiresAt l"
  using assms
proof (induction us arbitrary: st)
  case (Cons w us)
  then obtain st1 where s: "settle_one db st w = Inr st1" "runE (settle_one db) st1 us = Inr st'" by (auto split: sum.splits)
  show ?case
  proof (cases "u = w")
    case True
    then show ?thesis using s(1) Cons.prems(3) by (auto simp: settle_one_def split: if_splits)
  qed (use Cons.IH [OF s(2)] Cons.prems in simp)
qed simp

section \<open>A concrete panel\<close>

definition control_env :: env where
  "control_env = demo_env\<lparr>ev_now := 1000500000000\<rparr>"

definition demo_edit :: edit where
  "demo_edit = \<lparr>ed_users = [(''u'', \<lparr>cu_Role = ''user'', cu_Disabled = False, cu_Identity = ''all''\<rparr>)], ed_identities = [(''g'', ''all'')],
     ed_groups = [(''g'', \<lparr>g_ID = ''g'', g_OwnerID = '''', g_Type = ''entry'', g_DirectPolicy = ''allow'', g_DisableUDP = False,
       g_BlockedProtocols = [], g_DisabledNetworks = [], g_DisabledTransports = [], g_Multiplier = Some (3 / 2)\<rparr>)],
     ed_nodes = [(''n'', \<lparr>cn_Capabilities = [''lease-set-v1''], cn_Desired = 1\<rparr>)],
     ed_rules = [(''rule'', \<lparr>kr_ID = ''rule'', kr_UserID = ''u'', kr_NodeID = ''n'', kr_GroupID = ''g'', kr_Network = ''tcp'', kr_Transport = ''direct'',
       kr_Hops = [], kr_ExitGroupID = '''', kr_BillingMultiplier = Some (3 / 2), kr_ExitUnavailable = False, kr_Enabled = True, kr_Version = 1,
       kr_Lease = None, kr_StandbyLease = None, kr_Deleted = False\<rparr>)], ed_ruleLimits = []\<rparr>"

definition control_ops :: "control_op list" where
  "control_ops = [OpEdit demo_edit,
     OpCommerce (OpCreateOrder demo_env (\<lambda>_. None) (\<lambda>_ _. Inr ''https://pay'') ''u'' ''epay'' ''k1'' 1000),
     OpCommerce (OpConfirm demo_env ''epay'' ''i0'' ''tx1'' 1000),
     OpCommerce (OpCreatePlan demo_env None None (demo_plan\<lparr>p_Quota := 40000000\<rparr>)),
     OpCommerce (OpPurchase demo_env ''u'' ''i3'' ''p1'' 0 0),
     OpRefresh control_env ''n'' no_hint]"

definition demo_control :: control where
  "demo_control = (case runE control_step empty_control control_ops of Inr k \<Rightarrow> k | Inl _ \<Rightarrow> empty_control)"

lemma control_run: "runE control_step empty_control control_ops = Inr demo_control"
proof -
  have "(case runE control_step empty_control control_ops of Inl _ \<Rightarrow> False | Inr _ \<Rightarrow> True)" by code_simp
  then show ?thesis by (simp add: demo_control_def split: sum.splits)
qed

lemma control_ops_ok: "list_all control_ok control_ops"
  by (simp add: control_ops_def good_demo)





text \<open>A record of the last second of the lease, a fifth of a second too late.\<close>

definition control_late_env :: env where
  "control_late_env = demo_env\<lparr>ev_now := 1300700000000\<rparr>"

definition demo_late :: usage_record where
  "demo_late = demo_usage\<lparr>u_ID := ''r2'', u_EndedAt := 1300700000000\<rparr>"

section \<open>Properties\<close>



text \<open>C13: An upload that the panel took is stored, and sending it again later, whatever happened in between, is
  accepted and changes nothing: a node that lost the answer can repeat it without being billed twice.\<close>

theorem retried_upload_changes_nothing:
  assumes "persistUsageBatch v node records k = Inr k'" "runE control_step k' ops = Inr k''" "ev_now v \<le> ev_now v'"
  shows "persistUsageBatch v' node records k'' = Inr k'' \<and> (\<forall>u. u \<in> set records \<longrightarrow> (\<exists>w. map_of (k_usage k'') (u_ID u) = Some w \<and> us_Payload w = u))"
proof -
  have st: "\<exists>w. map_of (k_usage k'') (u_ID u) = Some w \<and> us_Payload w = u" if u: "u \<in> set records" for u
  proof -
    obtain w where w: "map_of (k_usage k') (u_ID u) = Some w" "us_Payload w = u" using persist_stored [OF assms(1) u] by blast
    have "map_of (k_usage k'') (u_ID u) = Some w" by (rule storage.run_inv [OF w(1) _ assms(2)]) (simp add: list_all_iff)
    then show ?thesis using w(2) by blast
  qed
  obtain vs where "cp_dedupe v node records [] = Inr vs" using persist_dedupe(2) [OF assms(1)] by blast
  from cp_dedupe_later [OF this assms(3)] show ?thesis using st persist_again [OF _ persist_dedupe(1) [OF assms(1)]] by blast
qed

theorem retried_upload_changes_nothing_witness:
  "\<exists>k k'. persistUsageBatch control_env ''n'' [demo_usage] demo_control = Inr k
     \<and> control_step k (OpRetire control_env ''n'' ''i8'' 251 1000 True) = Inr k'
     \<and> persistUsageBatch control_env ''n'' [demo_usage] k' = Inr k'"
proof -
  have "case persistUsageBatch control_env ''n'' [demo_usage] demo_control of Inl _ \<Rightarrow> False
    | Inr k \<Rightarrow> (case control_step k (OpRetire control_env ''n'' ''i8'' 251 1000 True) of Inl _ \<Rightarrow> False | Inr _ \<Rightarrow> True)"
    by code_simp
  then obtain k k' where k: "persistUsageBatch control_env ''n'' [demo_usage] demo_control = Inr k"
    "control_step k (OpRetire control_env ''n'' ''i8'' 251 1000 True) = Inr k'"
    by (auto split: sum.splits)
  then have "runE control_step k [OpRetire control_env ''n'' ''i8'' 251 1000 True] = Inr k'" by simp
  from retried_upload_changes_nothing [OF k(1) this order_refl] k show ?thesis by blast
qed

text \<open>C12: An upload of new records goes through. When the records are at most 500 with different names, each belongs to an open
  paid lease of its node and rule and ended before the lease expired, and the records of each lease fit into what the lease has
  left, the panel takes the batch, whatever happened before: no counter is missed, no charge overflows, and the two
  sides do not disagree.\<close>

theorem usage_upload_accepted:
  assumes "runE control_step empty_control ops = Inr k" "list_all control_ok ops"
    "length us \<le> 500" "distinct (map u_ID us)" "list_all (reportable v node k) us" "fits_leases k us"
  shows "\<exists>k'. persistUsageBatch v node us k = Inr k' \<and> control_inv k'
    \<and> (\<forall>i c. map_of (k_leases k) i = Some c \<longrightarrow> map_of (k_leases k') i = Some (c\<lparr>cl_Used := cl_Used c + bytes_for i us\<rparr>))"
proof -
  note inv = control_reachable [OF assms(1,2)]
  obtain k' where k': "persistUsageBatch v node us k = Inr k'" using persist_succeeds [OF inv assms(5,4,3,6)] by blast
  have new: "\<not> has (k_usage k) (u_ID u)" if "u \<in> set us" for u using assms(5) that by (simp add: list_all_iff reportable_def)
  show ?thesis using k' persist_inv [OF inv k'] persist_counts [OF inv k' assms(4) new] by blast
qed

theorem usage_upload_accepted_witness:
  "\<exists>k'. persistUsageBatch control_env ''n'' [demo_usage] demo_control = Inr k' \<and> control_inv k'"
proof -
  have "list_all (reportable control_env ''n'' demo_control) [demo_usage]" "fits_leases demo_control [demo_usage]" by code_simp+
  then show ?thesis using usage_upload_accepted [OF control_run control_ops_ok, of "[demo_usage]" control_env "''n''"] by auto
qed

text \<open>C14: A record of a paid lease that ended after the exact moment the lease expired blocks its whole batch. The control plane's own check
  compares seconds and lets a record of the lease's last second pass; the commerce service compares exact times and refuses the transaction, so the
  other records of the batch are refused with it.\<close>

theorem late_record_blocks_batch:
  assumes "runE control_step empty_control ops = Inr k" "list_all control_ok ops" "u \<in> set us" "\<not> has (k_usage k) (u_ID u)"
    "map_of (k_leases k) (u_LeaseID u) = Some c" "cl_Ent c \<noteq> ''admin-test''"
    "map_of (db_leases (k_db k)) (u_LeaseID u) = Some l" "lr_ExpiresAt l < u_EndedAt u"
  shows "\<exists>e. persistUsageBatch v node us k = Inl e"
proof (cases "persistUsageBatch v node us k")
  case (Inr k')
  note inv = control_reachable [OF assms(1,2)]
  from Inr show ?thesis
  proof (cases rule: persist_cases)
    case 1
    then show ?thesis using 1(2) [OF assms(3)] assms(4) by (auto simp: has_def)
  next
    case (2 fresh used ls db vs)
    let ?cs = "filter (commercial k) fresh"
    have "u \<in> set fresh" using 2(7) [OF assms(3)] assms(4) by (auto simp: has_def)
    then have u: "u \<in> set ?cs" using assms(5,6) by (simp add: commercial_def)
    have f: "list_all valid_usage ?cs" "list_all ValidWindowMetadata ?cs" "distinct (map u_ID ?cs)" "length ?cs \<le> 500"
      "\<And>u. u \<in> set ?cs \<Longrightarrow> \<not> has (k_usage k) (u_ID u)"
      using 2(2-6) le_trans [OF length_filter_le] by (auto simp: list_all_iff distinct_map_filter)
    have "?cs \<noteq> []" using u by (metis empty_iff empty_set)
    then obtain st where "runE (settle_one (k_db k)) \<lparr>st_used = [], st_charges = [], st_rows = []\<rparr> ?cs = Inr st"
      using 2(10) settle_commercial [OF inv f(1-3,5,4)]
      by (cases "runE (settle_one (k_db k)) \<lparr>st_used = [], st_charges = [], st_rows = []\<rparr> ?cs") (auto split: if_splits)
    from settle_in_time [OF this u assms(7)] show ?thesis using assms(8) by simp
  qed
qed blast

theorem late_record_blocks_batch_witness:
  "(\<exists>k'. persistUsageBatch control_late_env ''n'' [demo_usage] demo_control = Inr k')
    \<and> (\<exists>e. persistUsageBatch control_late_env ''n'' [demo_usage, demo_late] demo_control = Inl e)
    \<and> (\<exists>used. runE (cp_settle_one ''n'' demo_control) [] [demo_usage, demo_late] = Inr used)"
proof -
  let ?c = "the (map_of (k_leases demo_control) ''i8'')" and ?l = "the (map_of (db_leases (k_db demo_control)) ''i8'')"
  have c: "map_of (k_leases demo_control) ''i8'' = Some ?c" "cl_Ent ?c = ''i4''" "map_of (db_leases (k_db demo_control)) ''i8'' = Some ?l"
    "lr_ExpiresAt ?l = 1300500000000" "\<not> has (k_usage demo_control) ''r2''" by code_simp+
  have u: "u_LeaseID demo_late = ''i8''" "u_ID demo_late = ''r2''" "u_EndedAt demo_late = 1300700000000" by (simp_all add: demo_late_def demo_usage_def)
  have "\<exists>e. persistUsageBatch control_late_env ''n'' [demo_usage, demo_late] demo_control = Inl e"
    by (rule late_record_blocks_batch [OF control_run control_ops_ok, of demo_late _ ?c ?l]) (use c u in simp_all)
  moreover have "case persistUsageBatch control_late_env ''n'' [demo_usage] demo_control of Inl _ \<Rightarrow> False | Inr _ \<Rightarrow> True"
    "case runE (cp_settle_one ''n'' demo_control) [] [demo_usage, demo_late] of Inl _ \<Rightarrow> False | Inr _ \<Rightarrow> True" by code_simp+
  ultimately show ?thesis by (auto split: sum.splits)
qed

end
