(* ===== verification/Policy.thy ===== *)
theory Policy
  imports Money
begin

text \<open>
  What a group of nodes lets through (\<open>internal/policy/match.go\<close>, \<open>inspection_config.go\<close> and \<open>ValidServerName\<close> of
  \<open>contract/advanced.go\<close>): lists of allowed and blocked hosts, of blocked paths and of blocked applications, layer by layer.

  Parsers of addresses and of internationalised names are arguments (\<open>net_env\<close>): \<open>netip.ParseAddr\<close>, here with the text of the
  unmapped address as its result, \<open>net.ParseIP\<close>, \<open>idna.Lookup.ToASCII\<close> of the lower-case name, \<open>url.ParseRequestURI\<close> and the character classes of
  \<open>httpguts\<close>. Strings are lists of bytes. A layer also carries the identifier of its group, which no check reads.
\<close>

datatype policy_error = Denied | InvalidHostPort | InvalidBracketedHost | InvalidHostName | IPWildcard | InvalidPath | InvalidEncodedPath
  | DoubleEncoded | TooManyLayers | TooManyHosts | TooManyPaths | InvalidPathPattern | UnsupportedDetector | BadInspection
  | LineTooLarge | UnexpectedEOF | RequiresCRLF | InvalidHeader | BadFraming | InvalidChunk | InvalidTrailer

record request_uri =
  ru_Fragment :: string
  ru_User :: bool
  ru_IsAbs :: bool
  ru_Host :: string
  ru_EscapedPath :: string

record net_env =
  ne_ParseAddr :: "string \<Rightarrow> string option"
  ne_ParseIP :: "string \<Rightarrow> bool"
  ne_ToASCII :: "string \<Rightarrow> string option"
  ne_URI :: "string \<Rightarrow> request_uri option"
  ne_FieldName :: "string \<Rightarrow> bool"
  ne_FieldValue :: "string \<Rightarrow> bool"

section \<open>Host names\<close>

definition in_range :: "char \<Rightarrow> char \<Rightarrow> char \<Rightarrow> bool" where
  "in_range lo hi c \<longleftrightarrow> (of_char lo :: nat) \<le> of_char c \<and> (of_char c :: nat) \<le> of_char hi"

definition Index :: "char \<Rightarrow> string \<Rightarrow> nat option" where
  "Index c s = (if c \<in> set s then Some (length (takeWhile (\<lambda>x. x \<noteq> c) s)) else None)"

definition LastIndex :: "char \<Rightarrow> string \<Rightarrow> nat option" where
  "LastIndex c s = (if c \<in> set s then Some (length s - 1 - length (takeWhile (\<lambda>x. x \<noteq> c) (rev s))) else None)"

text \<open>\<open>net.SplitHostPort\<close>: the host may stand in brackets, and a host without them has no colon.\<close>

definition SplitHostPort :: "string \<Rightarrow> (string \<times> string) option" where
  "SplitHostPort s = (case LastIndex (CHR '':'') s of None \<Rightarrow> None | Some i \<Rightarrow>
     let part = (if take 1 s = ''['' then
           (case Index (CHR '']'') s of None \<Rightarrow> None
            | Some e \<Rightarrow> if e + 1 = i then Some (drop 1 (take e s), 1, e + 1) else None)
         else if CHR '':'' \<in> set (take i s) then None else Some (take i s, 0, 0)) in
     case part of None \<Rightarrow> None | Some (host, j, k) \<Rightarrow>
       if CHR ''['' \<in> set (drop j s) \<or> CHR '']'' \<in> set (drop k s) then None
       else Some (host, drop (i + 1) s))"

definition TrimSuffix :: "string \<Rightarrow> string \<Rightarrow> string" where
  "TrimSuffix x s = (if drop (length s - length x) s = x then take (length s - length x) s else s)"

definition HasSuffix :: "string \<Rightarrow> string \<Rightarrow> bool" where
  "HasSuffix s x \<longleftrightarrow> length x \<le> length s \<and> drop (length s - length x) s = x"

definition Starts :: "string \<Rightarrow> string \<Rightarrow> bool" where
  "Starts p s \<longleftrightarrow> take (length p) s = p"

text \<open>The source also compares the name with its lower-case form; the last test implies that comparison.\<close>

definition ValidServerName :: "net_env \<Rightarrow> string \<Rightarrow> bool" where
  "ValidServerName ne s \<longleftrightarrow> s \<noteq> '''' \<and> length s \<le> 253 \<and> \<not> ne_ParseIP ne s
     \<and> list_all (\<lambda>l. l \<noteq> '''' \<and> length l \<le> 63 \<and> hd l \<noteq> CHR ''-'' \<and> last l \<noteq> CHR ''-''
         \<and> list_all (\<lambda>c. in_range (CHR ''a'') (CHR ''z'') c \<or> in_range (CHR ''0'') (CHR ''9'') c \<or> c = CHR ''-'') l)
       (split_on (CHR ''.'') [] s)"

text \<open>\<open>strconv.Atoi\<close> of a text of digits, as far as a port needs it.\<close>

definition valid_port :: "string \<Rightarrow> bool" where
  "valid_port p \<longleftrightarrow> p \<noteq> '''' \<and> list_all is_digit p \<and> 1 \<le> digits_val 0 p \<and> digits_val 0 p \<le> 65535"

definition Host :: "net_env \<Rightarrow> string \<Rightarrow> policy_error + string" where
  "Host ne value0 = (let value1 = TrimSpace value0 in
     bindE (case SplitHostPort value1 of None \<Rightarrow> Inr value1
            | Some (h, p) \<Rightarrow> if valid_port p then Inr h else Inl InvalidHostPort) (\<lambda>value.
       if Starts ''['' value \<and> HasSuffix value '']'' then
         (case ne_ParseAddr ne (drop 1 (butlast value)) of Some a \<Rightarrow> Inr a | None \<Rightarrow> Inl InvalidBracketedHost)
       else let value = TrimSuffix ''.'' value in
         (case ne_ParseAddr ne value of Some a \<Rightarrow> Inr a
          | None \<Rightarrow> (case ne_ToASCII ne value of None \<Rightarrow> Inl InvalidHostName
             | Some name \<Rightarrow> if ValidServerName ne name then Inr name else Inl InvalidHostName))))"

definition HostPattern :: "net_env \<Rightarrow> string \<Rightarrow> policy_error + string" where
  "HostPattern ne value0 = (let value = TrimSpace value0; wild = Starts ''*.'' value in
     bindE (Host ne (if wild then drop 2 value else value)) (\<lambda>name.
       if wild \<and> ne_ParseAddr ne name \<noteq> None then Inl IPWildcard
       else Inr ((if wild then ''*.'' else '''') @ name)))"

definition MatchHost :: "string \<Rightarrow> string \<Rightarrow> bool" where
  "MatchHost pattern host =
     (if Starts ''*.'' pattern then HasSuffix host (drop 1 pattern) \<and> length host > length pattern - 1
      else pattern = host)"

section \<open>Paths\<close>

text \<open>The loop of \<open>MatchPath\<close>: \<open>i\<close> runs over the pattern and \<open>j\<close> over the path; \<open>star\<close> is the place of the last star, and \<open>retry\<close> where
  its match ends. The result is \<open>i\<close> when the path is used up, and None where the loop returns false.\<close>

function match_loop :: "string \<Rightarrow> string \<Rightarrow> nat \<Rightarrow> nat \<Rightarrow> nat option \<Rightarrow> nat \<Rightarrow> nat option" where
  "match_loop pattern path i j star retry =
     (if \<not> j < length path then Some i
      else if i < length pattern \<and> (pattern ! i = CHR ''?'' \<or> pattern ! i = path ! j)
      then match_loop pattern path (i + 1) (j + 1) star retry
      else if i < length pattern \<and> pattern ! i = CHR ''*'' then match_loop pattern path (i + 1) j (Some i) j
      else case star of None \<Rightarrow> None | Some s \<Rightarrow> match_loop pattern path (s + 1) (retry + 1) star (retry + 1))"
  by pat_completeness auto
termination
  by (relation "measures [\<lambda>(p, s, i, j, star, r). if j < length s then 1 else 0,
        \<lambda>(p, s, i, j, star, r). case star of None \<Rightarrow> 0 | Some t \<Rightarrow> if i \<le> t then 1 else 0,
        \<lambda>(p, s, i, j, star, r). length p + 1 - (case star of None \<Rightarrow> 0 | Some t \<Rightarrow> t + 1),
        \<lambda>(p, s, i, j, star, r). length s - r,
        \<lambda>(p, s, i, j, star, r). (length s - j) + (length p - i)]") (auto split: option.splits)

declare match_loop.simps [simp del]

definition skip_stars :: "string \<Rightarrow> nat \<Rightarrow> nat" where
  "skip_stars pattern i = i + length (takeWhile (\<lambda>c. c = CHR ''*'') (drop i pattern))"

definition MatchPath :: "string \<Rightarrow> string \<Rightarrow> bool" where
  "MatchPath pattern path = (case match_loop pattern path 0 0 None 0 of None \<Rightarrow> False
     | Some i \<Rightarrow> skip_stars pattern i = length pattern)"


definition is_hex :: "char \<Rightarrow> bool" where
  "is_hex c \<longleftrightarrow> is_digit c \<or> in_range (CHR ''a'') (CHR ''f'') c \<or> in_range (CHR ''A'') (CHR ''F'') c"

definition unhex :: "char \<Rightarrow> nat" where
  "unhex c = (if is_digit c then of_char c - 48 else if in_range (CHR ''a'') (CHR ''f'') c then of_char c - 87 else of_char c - 55)"

fun PathUnescape :: "string \<Rightarrow> string option" where
  "PathUnescape [] = Some []"
| "PathUnescape (c # s) =
     (if c = CHR ''%'' then
        (case s of a # b # t \<Rightarrow> if is_hex a \<and> is_hex b then map_option (Cons (char_of (unhex a * 16 + unhex b))) (PathUnescape t) else None
         | _ \<Rightarrow> None)
      else map_option (Cons c) (PathUnescape s))"

definition bad_chars :: "string \<Rightarrow> bool" where
  "bad_chars s \<longleftrightarrow> list_ex (\<lambda>c. c = CHR 0x00 \<or> c = CHR 0x0D \<or> c = CHR 0x0A \<or> c = CHR 0x5C) s"

fun resolve :: "string list \<Rightarrow> string list \<Rightarrow> string list" where
  "resolve segments [] = segments"
| "resolve segments (p # ps) =
     (if p = '''' \<or> p = ''.'' then resolve segments ps
      else if p = ''..'' then resolve (butlast segments) ps
      else resolve (segments @ [p]) ps)"

fun Join :: "string list \<Rightarrow> string" where
  "Join [] = ''''"
| "Join [x] = x"
| "Join (x # xs) = x @ ''/'' @ Join xs"

definition canonical_path :: "string \<Rightarrow> string" where
  "canonical_path decoded = (let canonical = ''/'' @ Join (resolve [] (split_on (CHR ''/'') [] decoded)) in
     if HasSuffix decoded ''/'' \<and> canonical \<noteq> ''/'' then canonical @ ''/'' else canonical)"

definition Paths :: "string \<Rightarrow> policy_error + string list" where
  "Paths raw =
     (if length raw > 8192 \<or> \<not> Starts ''/'' raw then Inl InvalidPath
      else case PathUnescape raw of None \<Rightarrow> Inl InvalidEncodedPath | Some decoded \<Rightarrow>
        if bad_chars decoded then Inl InvalidEncodedPath
        else if CHR ''%'' \<in> set decoded then Inl DoubleEncoded
        else Inr [raw, decoded, canonical_path decoded])"

section \<open>Layers\<close>

record business_inbound =
  bi_TLSProfile :: string
  bi_WebSocket :: bool
  bi_WebSocketEarlyData :: bool
  bi_UpstreamTLSProfile :: string

record inspection_policy =
  ip_Version :: int
  ip_Profiles :: "string list"
  ip_Mode :: string
  ip_Unknown :: string
  ip_Business :: "business_inbound option"

record inbound_policy =
  ib_Inspection :: "inspection_policy option"
  ib_AllowedHosts :: "string list"
  ib_BlockedHosts :: "string list"
  ib_BlockedPaths :: "string list"
  ib_BlockedApps :: "string list"
  ib_TLSRequired :: bool
  ib_RejectEmptySNI :: bool

definition SupportedProtocol :: "string \<Rightarrow> bool" where
  "SupportedProtocol s \<longleftrightarrow> s \<in> set [''http'', ''socks'', ''socks4'', ''socks5'', ''shadowsocks'', ''vmess'', ''trojan'']"

definition to_lower :: "char \<Rightarrow> char" where
  "to_lower c = (if in_range (CHR ''A'') (CHR ''Z'') c then char_of (of_char c + 32 :: nat) else c)"

definition NormalizeApplication :: "string \<Rightarrow> string option" where
  "NormalizeApplication value0 = (let value = TrimPrefix ''app:'' (map to_lower (TrimSpace value0)) in
     if SupportedProtocol value then Some value else None)"

definition validProfileLabel :: "string \<Rightarrow> bool" where
  "validProfileLabel value \<longleftrightarrow> value \<noteq> '''' \<and> length value \<le> 64
     \<and> list_all (\<lambda>c. in_range (CHR ''a'') (CHR ''z'') c \<or> in_range (CHR ''A'') (CHR ''Z'') c \<or> in_range (CHR ''0'') (CHR ''9'') c
          \<or> c = CHR ''-'' \<or> c = CHR ''_'') value"

definition compact :: "string list \<Rightarrow> string list" where
  "compact xs = remdups_adj (sort xs)"

definition NormalizeInspection :: "inspection_policy option \<Rightarrow> policy_error + inspection_policy option" where
  "NormalizeInspection po = (case po of None \<Rightarrow> Inr None | Some p0 \<Rightarrow>
     if ip_Version p0 \<noteq> 1 then Inl BadInspection
     else let p = p0\<lparr>ip_Mode := (if ip_Mode p0 = '''' then ''strict'' else ip_Mode p0),
                     ip_Unknown := (if ip_Unknown p0 = '''' then ''allow'' else ip_Unknown p0)\<rparr> in
       if ip_Mode p \<noteq> ''strict'' \<and> ip_Mode p \<noteq> ''observe'' then Inl BadInspection
       else if ip_Unknown p \<noteq> ''allow'' \<and> ip_Unknown p \<noteq> ''deny'' then Inl BadInspection
       else if ip_Mode p = ''observe'' \<and> ip_Unknown p = ''deny'' then Inl BadInspection
       else if length (ip_Profiles p) > 16 \<or> \<not> list_all validProfileLabel (ip_Profiles p) then Inl BadInspection
       else if (case ip_Business p of None \<Rightarrow> False | Some b \<Rightarrow>
           bi_WebSocketEarlyData b \<and> \<not> bi_WebSocket b
           \<or> bi_TLSProfile b = '''' \<and> \<not> bi_WebSocket b \<and> bi_UpstreamTLSProfile b = ''''
           \<or> list_ex (\<lambda>l. l \<noteq> '''' \<and> \<not> validProfileLabel l) [bi_TLSProfile b, bi_UpstreamTLSProfile b]) then Inl BadInspection
       else Inr (Some (p\<lparr>ip_Profiles := compact (ip_Profiles p)\<rparr>)))"

fun mapE :: "('a \<Rightarrow> 'e + 'b) \<Rightarrow> 'a list \<Rightarrow> 'e + 'b list" where
  "mapE f [] = Inr []"
| "mapE f (x # xs) = bindE (f x) (\<lambda>y. bindE (mapE f xs) (\<lambda>ys. Inr (y # ys)))"

definition normalize_hosts :: "net_env \<Rightarrow> string list \<Rightarrow> policy_error + string list" where
  "normalize_hosts ne hosts = (if length hosts > 256 then Inl TooManyHosts
     else bindE (mapE (HostPattern ne) hosts) (\<lambda>hs. Inr (compact hs)))"

definition normalize_layer :: "net_env \<Rightarrow> inbound_policy \<Rightarrow> policy_error + inbound_policy" where
  "normalize_layer ne p = bindE (NormalizeInspection (ib_Inspection p)) (\<lambda>insp.
     bindE (normalize_hosts ne (ib_AllowedHosts p)) (\<lambda>allowed.
     bindE (normalize_hosts ne (ib_BlockedHosts p)) (\<lambda>blocked.
     if length (ib_BlockedPaths p) > 256 then Inl TooManyPaths
     else if list_ex (\<lambda>path. length path > 2048 \<or> \<not> Starts ''/'' path \<or> bad_chars path) (ib_BlockedPaths p) then Inl InvalidPathPattern
     else bindE (mapE (\<lambda>app. case NormalizeApplication app of None \<Rightarrow> Inl UnsupportedDetector | Some a \<Rightarrow> Inr a) (ib_BlockedApps p)) (\<lambda>apps.
       Inr (p\<lparr>ib_Inspection := insp, ib_AllowedHosts := allowed, ib_BlockedHosts := blocked, ib_BlockedPaths := compact (ib_BlockedPaths p),
              ib_BlockedApps := compact apps\<rparr>)))))"

definition NormalizeLayers :: "net_env \<Rightarrow> inbound_policy list \<Rightarrow> policy_error + inbound_policy list" where
  "NormalizeLayers ne layers = (if length layers > 8 then Inl TooManyLayers else mapE (normalize_layer ne) layers)"

definition NeedsInspect :: "inbound_policy list \<Rightarrow> bool" where
  "NeedsInspect layers = list_ex (\<lambda>p. ib_Inspection p \<noteq> None \<or> ib_TLSRequired p \<or> ib_RejectEmptySNI p
     \<or> length (ib_AllowedHosts p) + length (ib_BlockedHosts p) + length (ib_BlockedPaths p) + length (ib_BlockedApps p) > 0) layers"

definition NeedsHTTP :: "inbound_policy list \<Rightarrow> bool" where
  "NeedsHTTP layers = list_ex (\<lambda>p. length (ib_AllowedHosts p) + length (ib_BlockedHosts p) + length (ib_BlockedPaths p) > 0) layers"

text \<open>A layer in which the host matches no entry of a list of allowed hosts, or one of the blocked hosts, denies; a host that
  cannot be read matches nothing.\<close>

fun check_host :: "policy_error + string \<Rightarrow> inbound_policy list \<Rightarrow> policy_error option" where
  "check_host host [] = None"
| "check_host host (p # layers) = (let hit = (\<lambda>pattern. case host of Inl _ \<Rightarrow> False | Inr h \<Rightarrow> MatchHost pattern h) in
     if ib_AllowedHosts p \<noteq> [] \<and> \<not> list_ex hit (ib_AllowedHosts p) then Some Denied
     else if list_ex hit (ib_BlockedHosts p) then Some Denied
     else check_host host layers)"

definition CheckHost :: "net_env \<Rightarrow> inbound_policy list \<Rightarrow> string \<Rightarrow> policy_error option" where
  "CheckHost ne layers value = check_host (Host ne value) layers"

fun check_paths :: "inbound_policy list \<Rightarrow> string \<Rightarrow> bool \<Rightarrow> policy_error option" where
  "check_paths [] rawPath upgrade = None"
| "check_paths (p # layers) rawPath upgrade =
     (if ib_BlockedPaths p = [] then check_paths layers rawPath upgrade
      else if upgrade then Some Denied
      else case Paths rawPath of Inl err \<Rightarrow> Some err
        | Inr paths \<Rightarrow> if list_ex (\<lambda>pattern. list_ex (MatchPath pattern) paths) (ib_BlockedPaths p) then Some Denied
            else check_paths layers rawPath upgrade)"

definition CheckHTTP :: "net_env \<Rightarrow> inbound_policy list \<Rightarrow> string \<Rightarrow> string \<Rightarrow> bool \<Rightarrow> policy_error option" where
  "CheckHTTP ne layers host rawPath upgrade = (case CheckHost ne layers host of Some err \<Rightarrow> Some err
     | None \<Rightarrow> check_paths layers rawPath upgrade)"

end
