(* ===== verification/Http_Filter.thy ===== *)
theory Http_Filter
  imports Policy
begin

text \<open>
  The filter on the HTTP requests of a forwarded connection (\<open>internal/policy/http.go\<close>). It reads a header, checks it against the policy, and only then releases
  its bytes; it then passes exactly the body that the header announces, and expects the next header after it.

  The bytes of the connection are a list; a read that gives fewer bytes than there is room for is the argument \<open>got\<close>. What a failed
  parse has consumed does not matter: the error is final.
\<close>

section \<open>Lines and headers\<close>

definition CRLF :: string where
  "CRLF = [CHR 0x0D, CHR 0x0A]"

definition HeaderLimit :: int where
  "HeaderLimit = 32768"

definition readLine :: "string \<Rightarrow> int \<Rightarrow> policy_error + (string \<times> string)" where
  "readLine inp limit =
     (if CHR 0x0A \<notin> set inp then Inl (if int (length inp) > limit then LineTooLarge else UnexpectedEOF)
      else let l = takeWhile (\<lambda>c. c \<noteq> CHR 0x0A) inp @ [CHR 0x0A] in
        if int (length l) > limit then Inl LineTooLarge
        else if length l < 2 \<or> l ! (length l - 2) \<noteq> CHR 0x0D then Inl RequiresCRLF
        else Inr (l, drop (length l) inp))"

lemma take_line: "c \<in> set xs \<Longrightarrow> xs = takeWhile (\<lambda>x. x \<noteq> c) xs @ c # drop (Suc (length (takeWhile (\<lambda>x. x \<noteq> c) xs))) xs"
  by (induction xs) auto

lemma readLine_ok:
  assumes "readLine inp limit = Inr (l, rest)"
  shows "inp = l @ rest" "l \<noteq> []"
proof -
  have nl: "CHR 0x0A \<in> set inp" and l: "l = takeWhile (\<lambda>c. c \<noteq> CHR 0x0A) inp @ [CHR 0x0A]" and rest: "rest = drop (length l) inp"
    using assms by (auto simp: readLine_def Let_def split: if_splits)
  show "inp = l @ rest" using take_line [OF nl] by (simp add: l rest)
  show "l \<noteq> []" by (simp add: l)
qed

lemma readLine_shorter: "readLine inp limit = Inr (l, rest) \<Longrightarrow> length rest < length inp"
  using readLine_ok [of inp limit l rest] by (cases l) auto

function readHeaderLimit :: "string \<Rightarrow> int \<Rightarrow> policy_error + (string \<times> string)" where
  "readHeaderLimit inp limit = (case readLine inp limit of Inl e \<Rightarrow> Inl e
     | Inr (p, rest) \<Rightarrow> if p = CRLF then Inr (p, rest)
         else (case readHeaderLimit rest (limit - int (length p)) of Inl e \<Rightarrow> Inl e | Inr (b, rest') \<Rightarrow> Inr (p @ b, rest')))"
  by pat_completeness auto
termination
  by (relation "measure (\<lambda>(inp, _). length inp)") (auto dest: readLine_shorter)

declare readHeaderLimit.simps [simp del]

definition readHeader :: "string \<Rightarrow> policy_error + (string \<times> string)" where
  "readHeader inp = readHeaderLimit inp HeaderLimit"

lemma readHeaderLimit_ok:
  "readHeaderLimit inp limit = Inr (b, rest) \<Longrightarrow> inp = b @ rest \<and> b \<noteq> []"
proof (induction inp limit arbitrary: b rest rule: readHeaderLimit.induct)
  case (1 inp limit)
  obtain p r where l: "readLine inp limit = Inr (p, r)"
    using 1(2) by (auto simp: readHeaderLimit.simps [of inp] split: sum.splits)
  note L = readLine_ok [OF l]
  show ?case
  proof (cases "p = CRLF")
    case True
    then have "b = p" "rest = r" using 1(2) l by (simp_all add: readHeaderLimit.simps [of inp])
    then show ?thesis using L by simp
  next
    case False
    then obtain b' where b: "readHeaderLimit r (limit - int (length p)) = Inr (b', rest)" "b = p @ b'"
      using 1(2) l by (auto simp: readHeaderLimit.simps [of inp] split: sum.splits)
    have "r = b' @ rest \<and> b' \<noteq> []" by (rule 1(1) [OF l refl False b(1)])
    then show ?thesis using L b(2) by auto
  qed
qed

fun split_crlf :: "string \<Rightarrow> string \<Rightarrow> string list" where
  "split_crlf acc (a # b # s) = (if [a, b] = [CHR 0x0D, CHR 0x0A] then rev acc # split_crlf [] s else split_crlf (a # acc) (b # s))"
| "split_crlf acc [a] = [rev (a # acc)]"
| "split_crlf acc [] = [rev acc]"

definition is_token :: "char \<Rightarrow> bool" where
  "is_token c \<longleftrightarrow> in_range (CHR ''a'') (CHR ''z'') c \<or> in_range (CHR ''A'') (CHR ''Z'') c \<or> in_range (CHR ''0'') (CHR ''9'') c
     \<or> c \<in> set ''!#$%&*+-.^_`|~'' \<or> c = CHR 0x27"

record http_header =
  hh_host :: string
  hh_path :: string
  hh_length :: int
  hh_chunked :: bool
  hh_opaque :: bool

text \<open>The fields of a header with the names in lower case, as \<open>http.Header\<close> does not tell cases apart.\<close>

definition header_field :: "net_env \<Rightarrow> string \<Rightarrow> policy_error + (string \<times> string)" where
  "header_field ne line =
     (if take 1 line = '' '' \<or> take 1 line = [CHR 0x09] then Inl InvalidHeader
      else case Cut (CHR '':'') line of (k, x, ok) \<Rightarrow>
        if \<not> ok \<or> k = '''' \<or> \<not> list_all is_token k \<or> \<not> ne_FieldValue ne x then Inl InvalidHeader
        else Inr (map to_lower k, TrimSpace x))"

definition Values :: "string \<Rightarrow> (string \<times> string) list \<Rightarrow> string list" where
  "Values name h = map snd (filter (\<lambda>(k, _). k = name) h)"

definition Get :: "string \<Rightarrow> (string \<times> string) list \<Rightarrow> string" where
  "Get name h = (case Values name h of [] \<Rightarrow> '''' | v # _ \<Rightarrow> v)"

text \<open>\<open>strings.EqualFold(te, "chunked")\<close>: case folding also takes the Kelvin sign for a k.\<close>

definition is_chunked :: "string \<Rightarrow> bool" where
  "is_chunked te \<longleftrightarrow> map to_lower te = ''chunked'' \<or> map to_lower te = ''chun'' @ [CHR 0xE2, CHR 0x84, CHR 0xAA] @ ''ed''"

definition request_path :: "net_env \<Rightarrow> string \<Rightarrow> string \<Rightarrow> string \<Rightarrow> policy_error + string" where
  "request_path ne verb uri host =
     (if verb = ''CONNECT'' then bindE (Host ne uri) (\<lambda>authority. if authority \<noteq> host then Inl InvalidHeader else Inr ''/'')
      else case ne_URI ne uri of None \<Rightarrow> Inl InvalidHeader | Some u \<Rightarrow>
        if ru_Fragment u \<noteq> '''' \<or> ru_User u then Inl InvalidHeader
        else bindE (if ru_IsAbs u then bindE (Host ne (ru_Host u)) (\<lambda>authority. if authority \<noteq> host then Inl InvalidHeader else Inr ())
                    else Inr ()) (\<lambda>_. Inr (if ru_EscapedPath u = '''' then ''/'' else ru_EscapedPath u)))"

definition body_framing :: "(string \<times> string) list \<Rightarrow> policy_error + (int \<times> bool)" where
  "body_framing h = (let cl = Values ''content-length'' h; te = Values ''transfer-encoding'' h in
     if length cl > 1 \<or> length te > 1 \<or> cl \<noteq> [] \<and> te \<noteq> [] then Inl BadFraming
     else bindE (case cl of [] \<Rightarrow> Inr 0 | v # _ \<Rightarrow> (case ParseInt v of None \<Rightarrow> Inl BadFraming | Some n \<Rightarrow> Inr n)) (\<lambda>n.
       case te of [] \<Rightarrow> Inr (n, False) | v # _ \<Rightarrow> if is_chunked v then Inr (n, True) else Inl BadFraming))"

definition finish_header :: "net_env \<Rightarrow> string \<Rightarrow> string \<Rightarrow> (string \<times> string) list \<Rightarrow> policy_error + http_header" where
  "finish_header ne verb uri h = (if length (Values ''host'' h) \<noteq> 1 then Inl InvalidHeader
     else bindE (Host ne (Get ''host'' h)) (\<lambda>host.
       bindE (request_path ne verb uri host) (\<lambda>path.
       bindE (body_framing h) (\<lambda>(n, chunked).
         Inr \<lparr>hh_host = host, hh_path = path, hh_length = n, hh_chunked = chunked,
              hh_opaque = (verb = ''CONNECT'' \<or> Get ''upgrade'' h \<noteq> '''')\<rparr>))))"

definition parseHeader :: "net_env \<Rightarrow> string \<Rightarrow> policy_error + http_header" where
  "parseHeader ne b = (let lines = split_crlf [] b; start = split_on (CHR '' '') [] (hd lines) in
     if length lines < 3 then Inl InvalidHeader
     else if length start \<noteq> 3 \<or> start ! 0 = '''' \<or> start ! 2 \<noteq> ''HTTP/1.1'' \<and> start ! 2 \<noteq> ''HTTP/1.0'' then Inl InvalidHeader
     else if \<not> list_all is_token (start ! 0) then Inl InvalidHeader
     else bindE (mapE (header_field ne) (takeWhile (\<lambda>l. l \<noteq> '''') (tl lines))) (finish_header ne (start ! 0) (start ! 1)))"

section \<open>Chunks\<close>

definition TrimLeft :: "string \<Rightarrow> string" where
  "TrimLeft s = dropWhile (\<lambda>c. c = CHR '' '' \<or> c = CHR 0x09) s"

definition IndexAny :: "string \<Rightarrow> string \<Rightarrow> nat option" where
  "IndexAny cs s = (if list_ex (\<lambda>c. c \<in> set cs) s then Some (length (takeWhile (\<lambda>c. c \<notin> set cs) s)) else None)"

text \<open>The text up to the closing quotation mark, and what follows it; a backslash escapes the next byte.\<close>

fun quoted :: "string \<Rightarrow> (string \<times> string) option" where
  "quoted [] = None"
| "quoted (c # s) =
     (if c = CHR 0x22 then Some ([], s)
      else if c = CHR 0x5C then (case s of [] \<Rightarrow> None | d # t \<Rightarrow> map_option (\<lambda>(v, r). (c # d # v, r)) (quoted t))
      else map_option (\<lambda>(v, r). (c # v, r)) (quoted s))"

lemma quoted_shorter: "quoted s = Some (v, r) \<Longrightarrow> length r < length s"
proof (induction s arbitrary: v r rule: quoted.induct)
  case (2 c s)
  show ?case
  proof (cases s)
    case Nil
    then show ?thesis using 2(3) by (auto split: if_splits)
  next
    case (Cons d t)
    consider "c = CHR 0x22" | "c \<noteq> CHR 0x22" "c = CHR 0x5C" | "c \<noteq> CHR 0x22" "c \<noteq> CHR 0x5C" by blast
    then show ?thesis
    proof cases
      case 2
      then show ?thesis using \<open>quoted (c # s) = Some (v, r)\<close> Cons 2(1) "2.IH"(1) [OF _ _ Cons] by fastforce
    next
      case 3
      then show ?thesis using \<open>quoted (c # s) = Some (v, r)\<close> "2.IH"(2) by fastforce
    qed (use 2(3) in auto)
  qed
qed simp

lemma TrimLeft_shorter: "length (TrimLeft s) \<le> length s"
  by (simp add: TrimLeft_def length_dropWhile_le)

function validChunkExtensions :: "net_env \<Rightarrow> string \<Rightarrow> bool" where
  "validChunkExtensions ne s0 = (case TrimLeft s0 of [] \<Rightarrow> True | c # t \<Rightarrow>
     if c \<noteq> CHR '';'' then False
     else let s1 = TrimLeft t in
       case IndexAny (CHR 0x09 # ''=; '') s1 of None \<Rightarrow> ne_FieldName ne s1 | Some n \<Rightarrow>
         if \<not> ne_FieldName ne (take n s1) then False
         else (case TrimLeft (drop n s1) of [] \<Rightarrow> True | d # u \<Rightarrow>
           if d \<noteq> CHR ''='' then validChunkExtensions ne (d # u)
           else (case TrimLeft u of [] \<Rightarrow> False | q # w \<Rightarrow>
             if q \<noteq> CHR 0x22 then
               (case IndexAny (CHR 0x09 # ''; '') (q # w) of None \<Rightarrow> ne_FieldName ne (q # w) | Some m \<Rightarrow>
                  ne_FieldName ne (take m (q # w)) \<and> validChunkExtensions ne (drop m (q # w)))
             else (case quoted w of None \<Rightarrow> False | Some (v, r) \<Rightarrow> ne_FieldValue ne v \<and> validChunkExtensions ne r))))"
  by pat_completeness auto
termination
proof (relation "measure (\<lambda>(_, s). length s)", goal_cases)
  case 1
  show ?case by simp
next
  case (2 ne s0 c t s1 n d u)
  then show ?case using TrimLeft_shorter [of s0] TrimLeft_shorter [of t] TrimLeft_shorter [of "drop n s1"] by simp
next
  case (3 ne s0 c t s1 n d u q w m)
  then show ?case using TrimLeft_shorter [of s0] TrimLeft_shorter [of t] TrimLeft_shorter [of "drop n s1"] TrimLeft_shorter [of u] by simp
next
  case (4 ne s0 c t s1 n d u q w p v r)
  then show ?case using TrimLeft_shorter [of s0] TrimLeft_shorter [of t] TrimLeft_shorter [of "drop n s1"] TrimLeft_shorter [of u]
      quoted_shorter [of w v r] by simp
qed

declare validChunkExtensions.simps [simp del]


definition hex_val :: "string \<Rightarrow> nat" where
  "hex_val s = fold (\<lambda>c n. n * 16 + unhex c) s 0"

definition chunk_size :: "net_env \<Rightarrow> string \<Rightarrow> policy_error + int" where
  "chunk_size ne b = (case Cut (CHR '';'') (TrimSuffix CRLF b) of (digits, extensions, extended) \<Rightarrow>
     if digits = '''' \<or> list_ex (\<lambda>c. c \<in> set (CHR 0x09 # '' +-'')) digits then Inl InvalidChunk
     else if extended \<and> \<not> validChunkExtensions ne (CHR '';'' # extensions) then Inl InvalidChunk
     else if \<not> list_all is_hex digits \<or> hex_val digits \<ge> 9223372036854775808 then Inl InvalidChunk
     else Inr (int (hex_val digits)))"

definition trailer_ok :: "net_env \<Rightarrow> string \<Rightarrow> bool" where
  "trailer_ok ne b = list_all (\<lambda>line. case Cut (CHR '':'') line of (name, v, ok) \<Rightarrow>
     ok \<and> ne_FieldName ne name \<and> ne_FieldValue ne v
     \<and> map to_lower name \<notin> set [''host'', ''content-length'', ''transfer-encoding'', ''connection'', ''upgrade'', ''trailer''])
     (takeWhile (\<lambda>l. l \<noteq> '''') (split_crlf [] b))"

section \<open>The reader\<close>

record httpReader =
  hr_in :: string
  hr_pending :: string
  hr_left :: int
  hr_chunked :: bool
  hr_chunkCRLF :: bool
  hr_trailers :: bool
  hr_opaque :: bool
  hr_err :: "policy_error option"

definition newHTTPReader :: "string \<Rightarrow> httpReader" where
  "newHTTPReader inp = \<lparr>hr_in = inp, hr_pending = '''', hr_left = 0, hr_chunked = False, hr_chunkCRLF = False, hr_trailers = False,
     hr_opaque = False, hr_err = None\<rparr>"

text \<open>One pass of the loop in \<open>Read\<close> that does not return: it finds the next bytes to release, or an error.\<close>

definition fill_header :: "net_env \<Rightarrow> inbound_policy list \<Rightarrow> httpReader \<Rightarrow> httpReader" where
  "fill_header ne layers r = (case readHeader (hr_in r) of Inl e \<Rightarrow> r\<lparr>hr_err := Some e\<rparr> | Inr (b, rest) \<Rightarrow>
     (case parseHeader ne b of Inl e \<Rightarrow> r\<lparr>hr_err := Some e\<rparr> | Inr h \<Rightarrow>
       (case CheckHTTP ne layers (hh_host h) (hh_path h) (hh_opaque h) of Some e \<Rightarrow> r\<lparr>hr_err := Some e\<rparr>
        | None \<Rightarrow> r\<lparr>hr_in := rest, hr_pending := b, hr_left := hh_length h, hr_chunked := hh_chunked h, hr_opaque := hh_opaque h\<rparr>)))"

definition fill_chunk :: "net_env \<Rightarrow> httpReader \<Rightarrow> httpReader" where
  "fill_chunk ne r =
     (if hr_chunkCRLF r then
        (if take 2 (hr_in r) \<noteq> CRLF then r\<lparr>hr_err := Some InvalidChunk\<rparr>
         else r\<lparr>hr_in := drop 2 (hr_in r), hr_pending := CRLF, hr_chunkCRLF := False\<rparr>)
      else if hr_trailers r then
        (case readHeader (hr_in r) of Inl e \<Rightarrow> r\<lparr>hr_err := Some e\<rparr> | Inr (b, rest) \<Rightarrow>
           if \<not> trailer_ok ne b then r\<lparr>hr_err := Some InvalidTrailer\<rparr>
           else r\<lparr>hr_in := rest, hr_pending := b, hr_chunked := False, hr_trailers := False\<rparr>)
      else (case readLine (hr_in r) 4096 of Inl e \<Rightarrow> r\<lparr>hr_err := Some e\<rparr> | Inr (b, rest) \<Rightarrow>
        (case chunk_size ne b of Inl e \<Rightarrow> r\<lparr>hr_err := Some e\<rparr> | Inr n \<Rightarrow>
           r\<lparr>hr_in := rest, hr_pending := b, hr_left := n, hr_chunkCRLF := n > 0, hr_trailers := n = 0\<rparr>)))"

definition fill :: "net_env \<Rightarrow> inbound_policy list \<Rightarrow> httpReader \<Rightarrow> httpReader" where
  "fill ne layers r =
     (if hr_pending r \<noteq> '''' \<or> hr_err r \<noteq> None \<or> hr_opaque r \<or> hr_left r > 0 then r
      else if hr_chunked r then fill_chunk ne r else fill_header ne layers r)"

definition conn_read :: "nat \<Rightarrow> nat \<Rightarrow> string \<Rightarrow> nat" where
  "conn_read n got inp = min (min got n) (length inp)"

text \<open>\<open>Read\<close> with room for \<open>n\<close> bytes: the bytes it gives, its error and the reader after it.\<close>

definition Read :: "net_env \<Rightarrow> inbound_policy list \<Rightarrow> nat \<Rightarrow> nat \<Rightarrow> httpReader \<Rightarrow> string \<times> policy_error option \<times> httpReader" where
  "Read ne layers n got r0 =
     (if n = 0 then ('''', None, r0)
      else let r = fill ne layers r0 in
        if hr_pending r \<noteq> '''' then (take n (hr_pending r), None, r\<lparr>hr_pending := drop n (hr_pending r)\<rparr>)
        else if hr_err r \<noteq> None then ('''', hr_err r, r)
        else if hr_in r = '''' then ('''', Some UnexpectedEOF, if hr_opaque r then r else r\<lparr>hr_err := Some UnexpectedEOF\<rparr>)
        else let k = conn_read (if hr_opaque r then n else min n (nat (hr_left r))) got (hr_in r) in
          (take k (hr_in r), None, r\<lparr>hr_in := drop k (hr_in r), hr_left := (if hr_opaque r then hr_left r else hr_left r - int k)\<rparr>))"

fun Reads :: "net_env \<Rightarrow> inbound_policy list \<Rightarrow> (nat \<times> nat) list \<Rightarrow> httpReader \<Rightarrow> string \<times> httpReader" where
  "Reads ne layers [] r = ('''', r)"
| "Reads ne layers ((n, got) # ops) r = (case Read ne layers n got r of (out, _, r1) \<Rightarrow>
     (case Reads ne layers ops r1 of (rest, r2) \<Rightarrow> (out @ rest, r2)))"

end
