(* ===== verification/Policy_Props.thy ===== *)
theory Policy_Props
  imports Policy
begin

text \<open>
  The matcher of paths is compared with the meaning of a pattern: a star stands for any text and a question mark for any byte. The
  canonical form of a path has no dot segments. The checks deny exactly what the layers say.
\<close>

definition block_admin :: inbound_policy where
  "block_admin = \<lparr>ib_Inspection = None, ib_AllowedHosts = [], ib_BlockedHosts = [], ib_BlockedPaths = [''/admin*''], ib_BlockedApps = [],
     ib_TLSRequired = False, ib_RejectEmptySNI = False\<rparr>"

section \<open>The meaning of a pattern\<close>

fun glob :: "string \<Rightarrow> string \<Rightarrow> bool" where
  "glob [] s = (s = [])"
| "glob (c # p) s = (if c = CHR ''*'' then glob p s \<or> (case s of [] \<Rightarrow> False | _ # t \<Rightarrow> glob (c # p) t)
     else case s of [] \<Rightarrow> False | d # t \<Rightarrow> (c = CHR ''?'' \<or> c = d) \<and> glob p t)"

lemma glob_star: "glob (CHR ''*'' # p) s \<longleftrightarrow> (\<exists>k \<le> length s. glob p (drop k s))"
proof (induction s)
  case (Cons d s)
  have "(\<exists>k \<le> length (d # s). glob p (drop k (d # s))) \<longleftrightarrow> glob p (d # s) \<or> (\<exists>k \<le> length s. glob p (drop k s))"
  proof
    assume "\<exists>k \<le> length (d # s). glob p (drop k (d # s))"
    then obtain k where "k \<le> length (d # s)" "glob p (drop k (d # s))" by blast
    then show "glob p (d # s) \<or> (\<exists>k \<le> length s. glob p (drop k s))" by (cases k) auto
  next
    assume "glob p (d # s) \<or> (\<exists>k \<le> length s. glob p (drop k s))"
    then show "\<exists>k \<le> length (d # s). glob p (drop k (d # s))"
    proof
      assume "glob p (d # s)"
      then show ?thesis by (intro exI [of _ 0]) simp
    next
      assume "\<exists>k \<le> length s. glob p (drop k s)"
      then obtain k where "k \<le> length s" "glob p (drop k s)" by blast
      then show ?thesis by (intro exI [of _ "Suc k"]) simp
    qed
  qed
  then show ?case using Cons.IH by simp
qed simp

lemma glob_nil: "glob p [] \<longleftrightarrow> list_all (\<lambda>c. c = CHR ''*'') p"
  by (induction p) auto

text \<open>A part of a pattern without stars takes exactly as many bytes as it is long.\<close>

definition plain :: "string \<Rightarrow> bool" where
  "plain p \<longleftrightarrow> CHR ''*'' \<notin> set p"

definition fits :: "string \<Rightarrow> string \<Rightarrow> bool" where
  "fits p s \<longleftrightarrow> length p \<le> length s \<and> (\<forall>i < length p. p ! i = CHR ''?'' \<or> p ! i = s ! i)"

lemma fits_Cons [simp]: "fits (c # p) (d # s) \<longleftrightarrow> (c = CHR ''?'' \<or> c = d) \<and> fits p s" "fits (c # p) [] = False" "fits [] s"
  by (auto simp: fits_def less_Suc_eq_0_disj)

lemma glob_plain: "plain p \<Longrightarrow> glob (p @ q) s \<longleftrightarrow> fits p s \<and> glob q (drop (length p) s)"
proof (induction p arbitrary: s)
  case (Cons c p)
  then show ?case by (cases s) (auto simp: plain_def)
qed simp

section \<open>The loop\<close>

text \<open>Between two stars the loop has matched the part of the pattern after the last star against the path from \<open>retry\<close>; the pattern matches
  the path exactly when the rest after the star matches from \<open>retry\<close> on.\<close>

definition loop_ok :: "string \<Rightarrow> string \<Rightarrow> nat \<Rightarrow> nat \<Rightarrow> nat option \<Rightarrow> nat \<Rightarrow> bool" where
  "loop_ok p s i j star retry \<longleftrightarrow> i \<le> length p \<and> j \<le> length s \<and> (case star of
     None \<Rightarrow> glob p s = glob (drop i p) (drop j s)
   | Some t \<Rightarrow> t < i \<and> retry \<le> j \<and> i - (t + 1) = j - retry \<and> plain (drop (t + 1) (take i p))
       \<and> fits (drop (t + 1) (take i p)) (drop retry s)
       \<and> glob p s = (\<exists>k. retry \<le> k \<and> k \<le> length s \<and> glob (drop (t + 1) p) (drop k s)))"

lemma split_pattern: "t < i \<Longrightarrow> i \<le> length p \<Longrightarrow> drop (t + 1) p = drop (t + 1) (take i p) @ drop i p"
  by (metis Suc_eq_plus1 Suc_leI append_take_drop_id drop_append length_take min_absorb2 diff_is_0_eq drop0)

lemma loop_current:
  assumes "loop_ok p s i j (Some t) retry"
  shows "glob (drop (t + 1) p) (drop retry s) \<longleftrightarrow> glob (drop i p) (drop j s)"
    "glob (drop (t + 1) p) (drop k s) \<Longrightarrow> retry \<le> k \<Longrightarrow> k + (j - retry) \<le> length s \<and> glob (drop i p) (drop (k + (j - retry)) s) \<or> k > length s"
proof -
  let ?g = "drop (t + 1) (take i p)"
  have a: "t < i" "i \<le> length p" "retry \<le> j" "j \<le> length s" "i - (t + 1) = j - retry" "plain ?g" "fits ?g (drop retry s)"
    using assms by (auto simp: loop_ok_def)
  have len: "length ?g = j - retry" using a by simp
  note eq = split_pattern [OF a(1,2)]
  show "glob (drop (t + 1) p) (drop retry s) \<longleftrightarrow> glob (drop i p) (drop j s)"
    unfolding eq glob_plain [OF a(6)] using a(3,7) len by simp
  show "k + (j - retry) \<le> length s \<and> glob (drop i p) (drop (k + (j - retry)) s) \<or> k > length s"
    if "glob (drop (t + 1) p) (drop k s)" "retry \<le> k"
    using that(1) len unfolding eq glob_plain [OF a(6)] by (auto simp: fits_def add.commute)
qed

lemma fits_snoc:
  assumes "fits g s" "length g < length s" "c = CHR ''?'' \<or> c = s ! length g"
  shows "fits (g @ [c]) s"
  using assms by (auto simp: fits_def nth_append less_Suc_eq)

lemma drop_index:
  assumes "m \<le> length s"
  shows "(\<exists>k \<le> length (drop m s). P (drop k (drop m s))) \<longleftrightarrow> (\<exists>k. m \<le> k \<and> k \<le> length s \<and> P (drop k s))"
proof
  assume "\<exists>k \<le> length (drop m s). P (drop k (drop m s))"
  then obtain k where "k \<le> length s - m" "P (drop (k + m) s)" by auto
  then show "\<exists>k. m \<le> k \<and> k \<le> length s \<and> P (drop k s)" using assms by (intro exI [of _ "k + m"]) auto
next
  assume "\<exists>k. m \<le> k \<and> k \<le> length s \<and> P (drop k s)"
  then obtain k where "m \<le> k" "k \<le> length s" "P (drop k s)" by blast
  then show "\<exists>k \<le> length (drop m s). P (drop k (drop m s))" by (intro exI [of _ "k - m"]) auto
qed

lemma match_loop_correct:
  assumes "CHR ''*'' \<notin> set s" "loop_ok p s i j star retry"
  shows "(case match_loop p s i j star retry of None \<Rightarrow> False | Some i \<Rightarrow> skip_stars p i = length p) = glob p s"
  using assms
proof (induction p s i j star retry rule: match_loop.induct)
  case (1 p s i j star retry)
  have il: "i \<le> length p" and jl: "j \<le> length s" using 1(5) by (auto simp: loop_ok_def)
  consider (finish) "\<not> j < length s" | (hit) "j < length s" "i < length p \<and> (p ! i = CHR ''?'' \<or> p ! i = s ! j)"
    | (wild) "j < length s" "\<not> (i < length p \<and> (p ! i = CHR ''?'' \<or> p ! i = s ! j))" "i < length p \<and> p ! i = CHR ''*''"
    | (retreat) "j < length s" "\<not> (i < length p \<and> (p ! i = CHR ''?'' \<or> p ! i = s ! j))" "\<not> (i < length p \<and> p ! i = CHR ''*'')"
    by blast
  then show ?case
  proof cases
    case finish
    then have j: "j = length s" using jl by simp
    have skip: "skip_stars p i = length p \<longleftrightarrow> glob (drop i p) (drop j s)"
    proof -
      have "length (takeWhile (\<lambda>c. c = CHR ''*'') (drop i p)) = length (drop i p) \<longleftrightarrow> list_all (\<lambda>c. c = CHR ''*'') (drop i p)"
        by (metis (mono_tags, lifting) list_all_iff takeWhile_eq_all_conv takeWhile_eq_take take_all_iff order_refl)
      then show ?thesis using il by (simp add: skip_stars_def j glob_nil) linarith
    qed
    have "glob p s \<longleftrightarrow> glob (drop i p) (drop j s)"
    proof (cases star)
      case None
      then show ?thesis using 1(5) by (simp add: loop_ok_def)
    next
      case (Some t)
      note L = 1(5) [unfolded Some]
      have "k = retry" if "retry \<le> k" "k \<le> length s" "glob (drop (t + 1) p) (drop k s)" for k
        using loop_current(2) [OF L that(3,1)] that(1,2) L j by (auto simp: loop_ok_def)
      moreover have "glob p s = (\<exists>k. retry \<le> k \<and> k \<le> length s \<and> glob (drop (t + 1) p) (drop k s))" "retry \<le> length s"
        using L by (auto simp: loop_ok_def)
      ultimately show ?thesis using loop_current(1) [OF L] by blast
    qed
    then show ?thesis using finish skip by (simp add: match_loop.simps)
  next
    case hit
    have "s ! j \<noteq> CHR ''*''" using 1(4) nth_mem [OF hit(1)] by auto
    then have ns: "p ! i \<noteq> CHR ''*''" using hit(2) by auto
    have step: "drop i p = p ! i # drop (i + 1) p" "drop j s = s ! j # drop (j + 1) s" using hit by (simp_all add: Cons_nth_drop_Suc)
    have "loop_ok p s (i + 1) (j + 1) star retry"
    proof (cases star)
      case None
      then show ?thesis using 1(5) hit ns by (auto simp: loop_ok_def step)
    next
      case (Some t)
      have a: "t < i" "retry \<le> j" "i - (t + 1) = j - retry" "plain (drop (t + 1) (take i p))" "fits (drop (t + 1) (take i p)) (drop retry s)"
        "glob p s = (\<exists>k. retry \<le> k \<and> k \<le> length s \<and> glob (drop (t + 1) p) (drop k s))"
        using 1(5) Some by (auto simp: loop_ok_def)
      have g: "drop (t + 1) (take (i + 1) p) = drop (t + 1) (take i p) @ [p ! i]" using a(1) hit by (simp add: take_Suc_conv_app_nth)
      have "fits (drop (t + 1) (take i p) @ [p ! i]) (drop retry s)"
        by (rule fits_snoc [OF a(5)]) (use a hit in auto)
      then have "fits (drop (t + 1) (take (i + 1) p)) (drop retry s)" "plain (drop (t + 1) (take (i + 1) p))"
        unfolding g using a(4) ns by (auto simp: plain_def)
      then show ?thesis using a hit by (auto simp: loop_ok_def Some)
    qed
    then show ?thesis using 1(1) 1(4) hit by (simp add: match_loop.simps [of p s i j])
  next
    case wild
    have di: "drop i p = CHR ''*'' # drop (i + 1) p" using wild by (metis Cons_nth_drop_Suc Suc_eq_plus1)
    have cur: "glob (drop i p) (drop m s) \<longleftrightarrow> (\<exists>k. m \<le> k \<and> k \<le> length s \<and> glob (drop (i + 1) p) (drop k s))" if "m \<le> length s" for m
      unfolding di glob_star using that by (rule drop_index)
    have "glob p s \<longleftrightarrow> (\<exists>k. j \<le> k \<and> k \<le> length s \<and> glob (drop (i + 1) p) (drop k s))"
    proof (cases star)
      case None
      then show ?thesis using 1(5) cur [OF jl] by (simp add: loop_ok_def)
    next
      case (Some t)
      note L = 1(5) [unfolded Some]
      have e: "glob p s = (\<exists>k. retry \<le> k \<and> k \<le> length s \<and> glob (drop (t + 1) p) (drop k s))" "retry \<le> j"
        using L by (auto simp: loop_ok_def)
      show ?thesis
      proof
        assume "glob p s"
        then obtain k where k: "retry \<le> k" "k \<le> length s" "glob (drop (t + 1) p) (drop k s)" using e(1) by blast
        then have "k + (j - retry) \<le> length s" "glob (drop i p) (drop (k + (j - retry)) s)" using loop_current(2) [OF L k(3,1)] by auto
        then obtain m where "k + (j - retry) \<le> m" "m \<le> length s" "glob (drop (i + 1) p) (drop m s)" using cur by blast
        then show "\<exists>k. j \<le> k \<and> k \<le> length s \<and> glob (drop (i + 1) p) (drop k s)" using k(1) e(2) by (intro exI [of _ m]) auto
      next
        assume "\<exists>k. j \<le> k \<and> k \<le> length s \<and> glob (drop (i + 1) p) (drop k s)"
        then have "glob (drop (t + 1) p) (drop retry s)" using cur [OF jl] loop_current(1) [OF L] by blast
        then show "glob p s" using e jl by auto
      qed
    qed
    then have "loop_ok p s (i + 1) j (Some i) j" using wild jl by (auto simp: loop_ok_def plain_def)
    then show ?thesis using 1(2) 1(4) wild by (simp add: match_loop.simps [of p s i j])
  next
    case retreat
    have no: "\<not> glob (drop i p) (drop j s)"
    proof (cases "i < length p")
      case True
      then have "drop i p = p ! i # drop (Suc i) p" "drop j s = s ! j # drop (Suc j) s" using retreat by (simp_all add: Cons_nth_drop_Suc)
      then show ?thesis using True retreat by auto
    qed (use retreat in simp)
    show ?thesis
    proof (cases star)
      case None
      then have "match_loop p s i j star retry = None" using retreat by (subst match_loop.simps) auto
      then show ?thesis using 1(5) no None by (simp add: loop_ok_def)
    next
      case (Some t)
      note L = 1(5) [unfolded Some]
      have e: "glob p s = (\<exists>k. retry \<le> k \<and> k \<le> length s \<and> glob (drop (t + 1) p) (drop k s))" "retry \<le> j" "t < i"
        using L by (auto simp: loop_ok_def)
      have "\<not> glob (drop (t + 1) p) (drop retry s)" using no loop_current(1) [OF L] by blast
      then have "glob p s = (\<exists>k. retry + 1 \<le> k \<and> k \<le> length s \<and> glob (drop (t + 1) p) (drop k s))"
        unfolding e(1) by (metis Suc_eq_plus1 Suc_leD le_neq_implies_less Suc_leI)
      then have "loop_ok p s (t + 1) (retry + 1) (Some t) (retry + 1)" using e retreat il by (auto simp: loop_ok_def plain_def)
      moreover have "match_loop p s i j star retry = match_loop p s (t + 1) (retry + 1) (Some t) (retry + 1)"
        using retreat Some by (subst match_loop.simps) auto
      ultimately show ?thesis using 1(3) [OF _ retreat(2,3) Some] 1(4) retreat(1) Some by simp
    qed
  qed
qed

section \<open>Canonical paths\<close>

lemma split_on_part: "c \<notin> set x \<Longrightarrow> split_on c acc (x @ c # rest) = (rev acc @ x) # split_on c [] rest"
  by (induction x arbitrary: acc) auto

lemma split_on_last: "c \<notin> set x \<Longrightarrow> split_on c acc x = [rev acc @ x]"
  by (induction x arbitrary: acc) auto

lemma split_on_parts: "c \<notin> set acc \<Longrightarrow> p \<in> set (split_on c acc s) \<Longrightarrow> c \<notin> set p"
proof (induction s arbitrary: acc)
  case (Cons x s)
  show ?case
  proof (cases "x = c")
    case True
    then show ?thesis using Cons.prems Cons.IH [of "[]"] by auto
  next
    case False
    then show ?thesis using Cons.prems Cons.IH [of "x # acc"] by simp
  qed
qed simp

definition segment_ok :: "string \<Rightarrow> bool" where
  "segment_ok x \<longleftrightarrow> x \<noteq> '''' \<and> x \<noteq> ''.'' \<and> x \<noteq> ''..'' \<and> CHR ''/'' \<notin> set x"

lemma resolve_ok:
  assumes "list_all segment_ok segs" "\<And>p. p \<in> set ps \<Longrightarrow> CHR ''/'' \<notin> set p"
  shows "list_all segment_ok (resolve segs ps)"
  using assms
proof (induction segs ps rule: resolve.induct)
  case (2 segs p ps)
  have "list_all segment_ok (butlast segs)" using 2(4) by (auto simp: list_all_iff dest: in_set_butlastD)
  moreover have "p \<noteq> '''' \<Longrightarrow> p \<noteq> ''.'' \<Longrightarrow> p \<noteq> ''..'' \<Longrightarrow> segment_ok p" using 2(5) by (simp add: segment_ok_def)
  ultimately show ?case using 2 by simp
qed simp

lemma resolve_id: "list_all segment_ok ps \<Longrightarrow> resolve segs ps = segs @ ps"
  by (induction ps arbitrary: segs) (auto simp: segment_ok_def)

lemma resolve_blank: "resolve segs (ps @ ['''']) = resolve segs ps"
  by (induction segs ps rule: resolve.induct) auto

lemma split_Join:
  assumes "list_all segment_ok segs" "segs \<noteq> []"
  shows "split_on (CHR ''/'') [] (Join segs) = segs" "split_on (CHR ''/'') [] (Join segs @ ''/'') = segs @ ['''']"
    "Join segs \<noteq> ''''" "last (Join segs) \<noteq> CHR ''/''"
proof -
  have "split_on (CHR ''/'') [] (Join segs) = segs \<and> split_on (CHR ''/'') [] (Join segs @ ''/'') = segs @ ['''']
    \<and> Join segs \<noteq> '''' \<and> last (Join segs) \<noteq> CHR ''/''"
    using assms
  proof (induction segs rule: Join.induct)
    case (2 x)
    then have "CHR ''/'' \<notin> set x" "x \<noteq> []" by (simp_all add: segment_ok_def)
    moreover from this have "last x \<noteq> CHR ''/''" using last_in_set [of x] by metis
    ultimately show ?case by (auto simp: split_on_last split_on_part)
  next
    case (3 x y ys)
    then have "CHR ''/'' \<notin> set x" "x \<noteq> []" by (simp_all add: segment_ok_def)
    then show ?case using 3 by (simp add: split_on_part)
  qed simp
  then show "split_on (CHR ''/'') [] (Join segs) = segs" "split_on (CHR ''/'') [] (Join segs @ ''/'') = segs @ ['''']"
    "Join segs \<noteq> ''''" "last (Join segs) \<noteq> CHR ''/''" by blast+
qed

lemma HasSuffix_slash: "HasSuffix s ''/'' \<longleftrightarrow> s \<noteq> [] \<and> last s = CHR ''/''"
  by (cases s rule: rev_cases) (auto simp: HasSuffix_def)

definition segments :: "string \<Rightarrow> string list" where
  "segments decoded = resolve [] (split_on (CHR ''/'') [] decoded)"

lemma segments_ok: "list_all segment_ok (segments decoded)"
  unfolding segments_def by (rule resolve_ok) (auto dest: split_on_parts [rotated])

lemma canonical_path_eq:
  "canonical_path d = ''/'' @ Join (segments d) @ (if HasSuffix d ''/'' \<and> segments d \<noteq> [] then ''/'' else '''')"
  using split_Join(3) [OF segments_ok, of d] by (cases "segments d") (auto simp: canonical_path_def segments_def Let_def)

lemma segments_canonical: "segments (canonical_path d) = segments d"
proof (cases "segments d = []")
  case True
  then show ?thesis by (simp add: canonical_path_eq) (simp add: segments_def)
next
  case False
  note J = split_Join [OF segments_ok False]
  show ?thesis
    using J(1,2) by (simp add: canonical_path_eq False segments_def [of "CHR ''/'' # _"] resolve_blank resolve_id [OF segments_ok])
qed

lemma canonical_idem: "canonical_path (canonical_path d) = canonical_path d"
proof (cases "segments d = []")
  case True
  then show ?thesis by (simp add: canonical_path_eq [of "canonical_path d"] segments_canonical) (simp add: canonical_path_eq)
next
  case False
  have "HasSuffix (canonical_path d) ''/'' \<longleftrightarrow> HasSuffix d ''/''"
    using split_Join(3,4) [OF segments_ok False] False by (simp add: canonical_path_eq HasSuffix_slash)
  then show ?thesis by (simp add: canonical_path_eq [of "canonical_path d"] segments_canonical) (simp add: canonical_path_eq)
qed

lemma Join_chars: "set (Join segs) \<subseteq> insert (CHR ''/'') (\<Union>x \<in> set segs. set x)"
  by (induction segs rule: Join.induct) auto

lemma split_on_chars: "p \<in> set (split_on c acc s) \<Longrightarrow> set p \<subseteq> set acc \<union> set s"
  by (induction s arbitrary: acc) (fastforce split: if_splits)+

lemma resolve_subset: "set (resolve segs ps) \<subseteq> set segs \<union> set ps"
  by (induction segs ps rule: resolve.induct) (auto dest: in_set_butlastD)

lemma canonical_chars: "set (canonical_path d) \<subseteq> insert (CHR ''/'') (set d)"
proof -
  have "set x \<subseteq> set d" if "x \<in> set (segments d)" for x
    using that resolve_subset [of "[]" "split_on (CHR ''/'') [] d"] split_on_chars [of x "CHR ''/''" "[]" d] by (auto simp: segments_def)
  then show ?thesis using Join_chars [of "segments d"] by (auto simp: canonical_path_eq)
qed

section \<open>Properties\<close>

text \<open>C23: The matcher of blocked paths, a single pass with one place to return to, decides exactly whether the path fits the pattern, where a star
  stands for any text and a question mark for one byte, for every path that has no star itself.\<close>

theorem MatchPath_is_glob:
  assumes "CHR ''*'' \<notin> set path"
  shows "MatchPath pattern path = glob pattern path"
  using match_loop_correct [OF assms, of pattern 0 0 None 0] by (simp add: MatchPath_def loop_ok_def)

theorem MatchPath_is_glob_witness:
  "MatchPath ''/a*b?d'' ''/aabxbbcd'' = glob ''/a*b?d'' ''/aabxbbcd'' \<and> glob ''/a*b?d'' ''/aabxbbcd''"
  using MatchPath_is_glob [of "''/aabxbbcd''" "''/a*b?d''"] by simp


text \<open>A blocked path cannot be disguised by percent encoding, doubled slashes or dot segments: whenever the decoded path, or the path it leads to
  from the root, fits a blocked pattern of some layer, the request is denied, with or without an upgrade. The canonical form is final: it has no empty or dot
  segments, and taking it again changes nothing.\<close>

theorem disguised_path_denied:
  assumes "PathUnescape raw = Some d" "CHR ''*'' \<notin> set d" "p \<in> set layers" "pattern \<in> set (ib_BlockedPaths p)"
    "glob pattern d \<or> glob pattern (canonical_path d)"
  shows "check_paths layers raw upgrade \<noteq> None \<and> canonical_path (canonical_path d) = canonical_path d \<and> list_all segment_ok (segments d)"
proof -
  have "CHR ''*'' \<notin> set (canonical_path d)" using canonical_chars [of d] assms(2) by auto
  then have hit: "MatchPath pattern d \<or> MatchPath pattern (canonical_path d)"
    using assms(2,5) match_loop_correct [of d pattern 0 0 None 0] match_loop_correct [of "canonical_path d" pattern 0 0 None 0]
    by (auto simp: MatchPath_def loop_ok_def)
  have "check_paths layers raw upgrade \<noteq> None"
    using assms(3)
  proof (induction layers)
    case (Cons q layers)
    then show ?case using assms(1,4) hit by (auto simp: Paths_def list_ex_iff split: sum.splits)
  qed simp
  then show ?thesis using canonical_idem segments_ok by blast
qed

theorem disguised_path_denied_witness:
  "check_paths [block_admin] ''/x/..//%61dmin/y'' False \<noteq> None \<and> canonical_path ''/x/..//admin/y'' = ''/admin/y''"
proof -
  have e: "PathUnescape ''/x/..//%61dmin/y'' = Some ''/x/..//admin/y''" "canonical_path ''/x/..//admin/y'' = ''/admin/y''"
    "glob ''/admin*'' ''/admin/y''" by code_simp+
  have "check_paths [block_admin] ''/x/..//%61dmin/y'' False \<noteq> None"
    using disguised_path_denied [OF e(1), of block_admin "[block_admin]" "''/admin*''" False] e by (simp add: block_admin_def)
  then show ?thesis using e(2) by blast
qed

end
