(* ===== verification/Http_Props.thy ===== *)
theory Http_Props
  imports Http_Filter Policy_Props
begin

text \<open>
  What comes out of the filter. A grammar says what a connection of checked requests looks like: headers that pass the policy, each followed by the
  body it announces. Whatever arrives, in whatever pieces, the bytes that leave the filter are a beginning of what arrived and a beginning of
  such a connection, so that no request can hide in the body of another.
\<close>

section \<open>Connections of checked requests\<close>

definition header_block :: "string \<Rightarrow> bool" where
  "header_block b \<longleftrightarrow> readHeader b = Inr (b, [])"

definition passes :: "net_env \<Rightarrow> inbound_policy list \<Rightarrow> string \<Rightarrow> http_header \<Rightarrow> bool" where
  "passes ne layers b h \<longleftrightarrow> header_block b \<and> parseHeader ne b = Inr h \<and> CheckHTTP ne layers (hh_host h) (hh_path h) (hh_opaque h) = None"

definition chunk_line :: "net_env \<Rightarrow> string \<Rightarrow> int \<Rightarrow> bool" where
  "chunk_line ne b n \<longleftrightarrow> readLine b 4096 = Inr (b, []) \<and> chunk_size ne b = Inr n"

definition trailer :: "net_env \<Rightarrow> string \<Rightarrow> bool" where
  "trailer ne b \<longleftrightarrow> header_block b \<and> trailer_ok ne b"

inductive chunks :: "net_env \<Rightarrow> string \<Rightarrow> bool" for ne where
  last_chunk: "chunk_line ne b 0 \<Longrightarrow> trailer ne t \<Longrightarrow> chunks ne (b @ t)"
| more_chunk: "chunk_line ne b n \<Longrightarrow> 0 < n \<Longrightarrow> int (length data) = n \<Longrightarrow> chunks ne rest \<Longrightarrow> chunks ne (b @ data @ CRLF @ rest)"

inductive requests :: "net_env \<Rightarrow> inbound_policy list \<Rightarrow> string \<Rightarrow> bool" for ne layers where
  no_request: "requests ne layers []"
| opaque_request: "passes ne layers b h \<Longrightarrow> hh_opaque h \<Longrightarrow> requests ne layers (b @ x)"
| sized_request: "passes ne layers b h \<Longrightarrow> \<not> hh_opaque h \<Longrightarrow> \<not> hh_chunked h \<Longrightarrow> int (length data) = hh_length h \<Longrightarrow> requests ne layers rest
    \<Longrightarrow> requests ne layers (b @ data @ rest)"
| chunked_request: "passes ne layers b h \<Longrightarrow> \<not> hh_opaque h \<Longrightarrow> hh_chunked h \<Longrightarrow> chunks ne c \<Longrightarrow> requests ne layers rest
    \<Longrightarrow> requests ne layers (b @ c @ rest)"

section \<open>Lines are found where they end\<close>

lemma readLine_append: "readLine inp limit = Inr (l, rest) \<Longrightarrow> readLine (l @ any) limit = Inr (l, any)"
proof -
  assume a: "readLine inp limit = Inr (l, rest)"
  have l: "l = takeWhile (\<lambda>c. c \<noteq> CHR 0x0A) inp @ [CHR 0x0A]" and c: "\<not> int (length l) > limit" "\<not> (length l < 2 \<or> l ! (length l - 2) \<noteq> CHR 0x0D)"
    using a by (auto simp: readLine_def Let_def split: if_splits)
  have "\<forall>x \<in> set (takeWhile (\<lambda>c. c \<noteq> CHR 0x0A) inp). x \<noteq> CHR 0x0A" by (auto dest: set_takeWhileD)
  then have t: "takeWhile (\<lambda>c. c \<noteq> CHR 0x0A) (l @ any) @ [CHR 0x0A] = l" by (simp add: l)
  have "CHR 0x0A \<in> set (l @ any)" by (simp add: l)
  then show ?thesis unfolding readLine_def t Let_def using c by simp
qed

lemma readHeaderLimit_append: "readHeaderLimit inp limit = Inr (b, rest) \<Longrightarrow> readHeaderLimit (b @ any) limit = Inr (b, any)"
proof (induction inp limit arbitrary: b rest rule: readHeaderLimit.induct)
  case (1 inp limit)
  obtain p r where l: "readLine inp limit = Inr (p, r)"
    using 1(2) by (auto simp: readHeaderLimit.simps [of inp] split: sum.splits)
  show ?case
  proof (cases "p = CRLF")
    case True
    then have "b = p" using 1(2) l by (simp add: readHeaderLimit.simps [of inp])
    then show ?thesis using readLine_append [OF l, of any] True by (simp add: readHeaderLimit.simps [of "CRLF @ any"])
  next
    case False
    then obtain b' where b: "readHeaderLimit r (limit - int (length p)) = Inr (b', rest)" "b = p @ b'"
      using 1(2) l by (auto simp: readHeaderLimit.simps [of inp] split: sum.splits)
    have "readHeaderLimit (b' @ any) (limit - int (length p)) = Inr (b', any)" by (rule 1(1) [OF l refl False b(1)])
    then show ?thesis using readLine_append [OF l, of "b' @ any"] False by (simp add: b(2) readHeaderLimit.simps [of "p @ b' @ any"])
  qed
qed

lemma readHeader_block: "readHeader inp = Inr (b, rest) \<Longrightarrow> header_block b \<and> inp = b @ rest \<and> b \<noteq> []"
  using readHeaderLimit_append [of inp HeaderLimit b rest "[]"] readHeaderLimit_ok [of inp HeaderLimit b rest]
  by (simp add: readHeader_def header_block_def)

lemma framing_nonneg: "body_framing h = Inr (n, c) \<Longrightarrow> 0 \<le> n"
  by (auto simp: body_framing_def ParseInt_def bindE_eq_Inr Let_def split: list.splits if_splits option.splits)

lemma length_nonneg: "parseHeader ne b = Inr h \<Longrightarrow> 0 \<le> hh_length h"
  by (auto simp: parseHeader_def finish_header_def bindE_eq_Inr Let_def dest!: framing_nonneg split: if_splits)

lemma framing_chunked: "body_framing h = Inr (n, True) \<Longrightarrow> n = 0"
  by (auto simp: body_framing_def bindE_eq_Inr Let_def split: list.splits if_splits option.splits)

lemma chunked_length: "parseHeader ne b = Inr h \<Longrightarrow> hh_chunked h \<Longrightarrow> hh_length h = 0"
  by (auto simp: parseHeader_def finish_header_def bindE_eq_Inr Let_def dest!: framing_chunked split: if_splits)

lemma chunk_size_nonneg: "chunk_size ne b = Inr n \<Longrightarrow> 0 \<le> n"
  by (auto simp: chunk_size_def split: prod.splits if_splits)

section \<open>What may follow\<close>

text \<open>The bytes that may leave a reader in a given state.\<close>

definition follows :: "net_env \<Rightarrow> inbound_policy list \<Rightarrow> httpReader \<Rightarrow> string \<Rightarrow> bool" where
  "follows ne layers r y \<longleftrightarrow> hr_opaque r \<or> (\<exists>data rest. y = data @ rest \<and> int (length data) = hr_left r
     \<and> (if hr_chunked r then \<exists>c z. rest = (if hr_chunkCRLF r then CRLF else []) @ c @ z \<and> (if hr_trailers r then trailer ne c else chunks ne c)
            \<and> requests ne layers z
        else requests ne layers rest))"

definition may_emit :: "net_env \<Rightarrow> inbound_policy list \<Rightarrow> httpReader \<Rightarrow> string \<Rightarrow> bool" where
  "may_emit ne layers r x \<longleftrightarrow> (\<exists>y. x = hr_pending r @ y \<and> follows ne layers r y)"

definition reader_inv :: "httpReader \<Rightarrow> bool" where
  "reader_inv r \<longleftrightarrow> 0 \<le> hr_left r \<and> (\<not> hr_chunked r \<longrightarrow> \<not> hr_chunkCRLF r \<and> \<not> hr_trailers r) \<and> (hr_chunkCRLF r \<longrightarrow> \<not> hr_trailers r)"

lemma CRLF_nonempty [simp]: "CRLF \<noteq> []" "length CRLF = 2"
  by (simp_all add: CRLF_def)

lemma fill_header_cases:
  obtains e where "fill_header ne layers r = r\<lparr>hr_err := Some e\<rparr>"
  | b rest h where "readHeader (hr_in r) = Inr (b, rest)" "parseHeader ne b = Inr h" "passes ne layers b h"
    "fill_header ne layers r = r\<lparr>hr_in := rest, hr_pending := b, hr_left := hh_length h, hr_chunked := hh_chunked h, hr_opaque := hh_opaque h\<rparr>"
proof (cases "readHeader (hr_in r)")
  case (Inr p)
  obtain b rest where p: "p = (b, rest)" by (cases p)
  show ?thesis
  proof (cases "parseHeader ne b")
    case (Inr h)
    show ?thesis
    proof (cases "CheckHTTP ne layers (hh_host h) (hh_path h) (hh_opaque h)")
      case None
      then show ?thesis
        using that(2) [of b rest h] \<open>readHeader (hr_in r) = Inr p\<close> Inr readHeader_block [of "hr_in r" b rest] by (simp add: p passes_def fill_header_def)
    qed (use that(1) Inr \<open>readHeader (hr_in r) = Inr p\<close> p in \<open>simp add: fill_header_def\<close>)
  qed (use that(1) Inr p in \<open>simp add: fill_header_def\<close>)
qed (use that(1) in \<open>simp add: fill_header_def\<close>)

text \<open>The laws of one step of the reader: what may follow it may follow after what it gives, and no byte is lost.\<close>

definition step_ok :: "net_env \<Rightarrow> inbound_policy list \<Rightarrow> httpReader \<Rightarrow> string \<Rightarrow> httpReader \<Rightarrow> bool" where
  "step_ok ne layers r out r' \<longleftrightarrow> reader_inv r' \<and> hr_pending r @ hr_in r = out @ hr_pending r' @ hr_in r'
     \<and> (\<forall>x. may_emit ne layers r' x \<longrightarrow> may_emit ne layers r (out @ x))"

lemma step_ok_err: "reader_inv r \<Longrightarrow> step_ok ne layers r [] (r\<lparr>hr_err := e\<rparr>)"
  by (simp add: step_ok_def reader_inv_def may_emit_def follows_def)

lemma fill_header_ok:
  assumes "hr_pending r = []" "hr_left r = 0" "\<not> hr_chunked r" "\<not> hr_opaque r" "reader_inv r"
  shows "step_ok ne layers r [] (fill_header ne layers r)"
proof (cases rule: fill_header_cases [of ne layers r])
  case (1 e)
  then show ?thesis using step_ok_err [OF assms(5)] by simp
next
  case (2 b rest h)
  have c: "\<not> hr_chunkCRLF r" "\<not> hr_trailers r" using assms(3,5) by (auto simp: reader_inv_def)
  have "may_emit ne layers r x" if m: "may_emit ne layers (fill_header ne layers r) x" for x
  proof -
    obtain y where y: "x = b @ y" "follows ne layers (fill_header ne layers r) y" using m unfolding may_emit_def 2(4) by auto
    have "requests ne layers x"
    proof (cases "hh_opaque h")
      case True
      then show ?thesis using opaque_request [OF 2(3) True] by (simp add: y(1))
    next
      case False
      then obtain data rest' where d: "y = data @ rest'" "int (length data) = hh_length h"
        "if hh_chunked h then \<exists>c z. rest' = c @ z \<and> chunks ne c \<and> requests ne layers z else requests ne layers rest'"
        using y(2) c unfolding follows_def 2(4) by (auto cong: if_cong)
      show ?thesis
      proof (cases "hh_chunked h")
        case True
        then have "data = []" using d(2) chunked_length [OF 2(2)] by simp
        then show ?thesis using d(1,3) True chunked_request [OF 2(3) False True] by (auto simp: y(1))
      qed (use d sized_request [OF 2(3) False _ d(2)] in \<open>auto simp: y(1)\<close>)
    qed
    then show ?thesis using assms(1-4) by (auto simp: may_emit_def follows_def)
  qed
  moreover have "reader_inv (fill_header ne layers r)" using c length_nonneg [OF 2(2)] by (simp add: reader_inv_def 2(4))
  ultimately show ?thesis using readHeader_block [OF 2(1)] assms(1) by (simp add: step_ok_def 2(4))
qed

lemma fill_chunk_ok:
  assumes idle: "hr_pending r = []" "hr_left r = 0" "hr_chunked r" "\<not> hr_opaque r" and inv: "reader_inv r"
  shows "step_ok ne layers r [] (fill_chunk ne r)"
proof -
  have emit: "may_emit ne layers r x \<longleftrightarrow> (\<exists>c z. x = (if hr_chunkCRLF r then CRLF else []) @ c @ z
      \<and> (if hr_trailers r then trailer ne c else chunks ne c) \<and> requests ne layers z)" for x
    using idle by (simp add: may_emit_def follows_def)
  consider (crlf) "hr_chunkCRLF r" "\<not> hr_trailers r" | (trailers) "\<not> hr_chunkCRLF r" "hr_trailers r" | (line) "\<not> hr_chunkCRLF r" "\<not> hr_trailers r"
    using inv by (auto simp: reader_inv_def)
  then show ?thesis
  proof cases
    case crlf
    show ?thesis
    proof (cases "take 2 (hr_in r) = CRLF")
      case True
      then have f: "fill_chunk ne r = r\<lparr>hr_in := drop 2 (hr_in r), hr_pending := CRLF, hr_chunkCRLF := False\<rparr>" using crlf by (simp add: fill_chunk_def)
      have "CRLF @ drop 2 (hr_in r) = hr_in r" using True by (metis append_take_drop_id)
      moreover have "may_emit ne layers r x" if m: "may_emit ne layers (fill_chunk ne r) x" for x
        using m idle crlf unfolding emit by (auto simp: may_emit_def follows_def f)
      ultimately show ?thesis using inv idle by (simp add: step_ok_def f reader_inv_def)
    qed (use crlf step_ok_err [OF inv] in \<open>simp add: fill_chunk_def\<close>)
  next
    case trailers
    show ?thesis
    proof (cases "readHeader (hr_in r)")
      case (Inr p)
      obtain b rest where p: "p = (b, rest)" by (cases p)
      note B = readHeader_block [OF Inr [unfolded p]]
      show ?thesis
      proof (cases "trailer_ok ne b")
        case True
        then have f: "fill_chunk ne r = r\<lparr>hr_in := rest, hr_pending := b, hr_chunked := False, hr_trailers := False\<rparr>"
          using trailers Inr by (simp add: fill_chunk_def p)
        have "trailer ne b" using B True by (simp add: trailer_def)
        then have "may_emit ne layers r x" if m: "may_emit ne layers (fill_chunk ne r) x" for x
          using m idle trailers unfolding emit by (auto simp: may_emit_def follows_def f)
        then show ?thesis using inv idle B trailers by (simp add: step_ok_def f reader_inv_def)
      qed (use trailers Inr step_ok_err [OF inv] p in \<open>simp add: fill_chunk_def\<close>)
    qed (use trailers step_ok_err [OF inv] in \<open>simp add: fill_chunk_def\<close>)
  next
    case line
    show ?thesis
    proof (cases "readLine (hr_in r) 4096")
      case (Inr p)
      obtain b rest where p: "p = (b, rest)" by (cases p)
      note B = readLine_ok [OF Inr [unfolded p]] readLine_append [OF Inr [unfolded p], of "[]"]
      show ?thesis
      proof (cases "chunk_size ne b")
        case (Inr n)
        then have f: "fill_chunk ne r = r\<lparr>hr_in := rest, hr_pending := b, hr_left := n, hr_chunkCRLF := n > 0, hr_trailers := n = 0\<rparr>"
          using line \<open>readLine (hr_in r) 4096 = Inr p\<close> by (simp add: fill_chunk_def p)
        have n: "chunk_line ne b n" "0 \<le> n" using B(3) Inr chunk_size_nonneg [OF Inr] by (simp_all add: chunk_line_def)
        have "may_emit ne layers r x" if m: "may_emit ne layers (fill_chunk ne r) x" for x
        proof -
          obtain data c z where d: "x = b @ data @ (if n > 0 then CRLF else []) @ c @ z" "int (length data) = n"
            "if n = 0 then trailer ne c else chunks ne c" "requests ne layers z"
            using m idle unfolding may_emit_def follows_def f by (auto cong: if_cong)
          have "\<exists>c'. x = c' @ z \<and> chunks ne c'"
          proof (cases "n = 0")
            case True
            then show ?thesis using d n last_chunk [of ne b c] by auto
          next
            case False
            then have "chunks ne (b @ data @ CRLF @ c)" using d n by (intro more_chunk) auto
            then show ?thesis using d(1) False n(2) by (intro exI [of _ "b @ data @ CRLF @ c"]) simp
          qed
          then show ?thesis unfolding emit using line d(4) by auto
        qed
        then show ?thesis using inv idle B n(2) by (simp add: step_ok_def f reader_inv_def)
      qed (use line \<open>readLine (hr_in r) 4096 = Inr p\<close> step_ok_err [OF inv] p in \<open>simp add: fill_chunk_def\<close>)
    qed (use line step_ok_err [OF inv] in \<open>simp add: fill_chunk_def\<close>)
  qed
qed

lemma fill_ok: "reader_inv r \<Longrightarrow> step_ok ne layers r [] (fill ne layers r)"
  using fill_header_ok [of r ne layers] fill_chunk_ok [of r ne layers] by (auto simp: fill_def step_ok_def reader_inv_def)


lemma step_ok_trans:
  assumes "step_ok ne layers r a r1" "step_ok ne layers r1 b r2"
  shows "step_ok ne layers r (a @ b) r2"
  using assms by (simp add: step_ok_def)

lemma release_ok:
  assumes "reader_inv r"
  shows "step_ok ne layers r (take n (hr_pending r)) (r\<lparr>hr_pending := drop n (hr_pending r)\<rparr>)"
proof -
  have all: "take n (hr_pending r) @ drop n (hr_pending r) @ y = hr_pending r @ y" for y by simp
  have "follows ne layers (r\<lparr>hr_pending := drop n (hr_pending r)\<rparr>) y = follows ne layers r y" for y by (simp add: follows_def cong: if_cong)
  then have "may_emit ne layers r (take n (hr_pending r) @ x)" if m: "may_emit ne layers (r\<lparr>hr_pending := drop n (hr_pending r)\<rparr>) x" for x
    using m unfolding may_emit_def by (auto simp: all)
  then show ?thesis using assms unfolding step_ok_def by (auto simp: reader_inv_def all)
qed

lemma pass_ok:
  assumes inv: "reader_inv r" and p: "hr_pending r = []" and k: "hr_opaque r \<or> int k \<le> hr_left r" "k \<le> length (hr_in r)"
  shows "step_ok ne layers r (take k (hr_in r)) (r\<lparr>hr_in := drop k (hr_in r), hr_left := (if hr_opaque r then hr_left r else hr_left r - int k)\<rparr>)"
proof (cases "hr_opaque r")
  case True
  then show ?thesis using inv p by (auto simp: step_ok_def may_emit_def follows_def reader_inv_def)
next
  case False
  let ?r = "r\<lparr>hr_in := drop k (hr_in r), hr_left := hr_left r - int k\<rparr>"
  have "may_emit ne layers r (take k (hr_in r) @ x)" if m: "may_emit ne layers ?r x" for x
  proof -
    obtain data rest where d: "x = data @ rest" "int (length data) = hr_left r - int k"
      "if hr_chunked r then \<exists>c z. rest = (if hr_chunkCRLF r then CRLF else []) @ c @ z \<and> (if hr_trailers r then trailer ne c else chunks ne c)
         \<and> requests ne layers z else requests ne layers rest"
      using m False p unfolding may_emit_def follows_def by (auto cong: if_cong)
    have "int (length (take k (hr_in r) @ data)) = hr_left r" using d(2) k(2) by simp
    moreover have "take k (hr_in r) @ x = (take k (hr_in r) @ data) @ rest" by (simp add: d(1))
    ultimately have "follows ne layers r (take k (hr_in r) @ x)" unfolding follows_def using d(3) by blast
    then show ?thesis using p by (simp add: may_emit_def)
  qed
  then show ?thesis using inv p k(1) False by (simp add: step_ok_def reader_inv_def)
qed

lemma Read_ok:
  assumes "reader_inv r0" "Read ne layers n got r0 = (out, err, r')"
  shows "step_ok ne layers r0 out r'"
proof (cases "n = 0")
  case True
  then show ?thesis using assms by (simp add: Read_def step_ok_def)
next
  case False
  let ?r = "fill ne layers r0"
  note F = fill_ok [OF assms(1), of ne layers]
  then have inv: "reader_inv ?r" by (simp add: step_ok_def)
  have "step_ok ne layers ?r out r'"
  proof (cases "hr_pending ?r = []")
    case True
    consider (err) "hr_err ?r \<noteq> None" | (eof) "hr_err ?r = None" "hr_in ?r = []" | (data) "hr_err ?r = None" "hr_in ?r \<noteq> []" by blast
    then show ?thesis
    proof cases
      case err
      then show ?thesis using assms(2) False True inv by (simp add: Read_def Let_def step_ok_def)
    next
      case eof
      then have "out = []" "r' = ?r \<or> r' = ?r\<lparr>hr_err := Some UnexpectedEOF\<rparr>" using assms(2) False True by (auto simp: Read_def Let_def split: if_splits)
      then show ?thesis using step_ok_err [OF inv, of ne layers "hr_err ?r"] step_ok_err [OF inv, of ne layers "Some UnexpectedEOF"] by auto
    next
      case data
      let ?k = "conn_read (if hr_opaque ?r then n else min n (nat (hr_left ?r))) got (hr_in ?r)"
      have "hr_opaque ?r \<or> int ?k \<le> hr_left ?r" using inv by (auto simp: conn_read_def reader_inv_def)
      moreover have "?k \<le> length (hr_in ?r)" by (simp add: conn_read_def)
      ultimately have "step_ok ne layers ?r (take ?k (hr_in ?r))
        (?r\<lparr>hr_in := drop ?k (hr_in ?r), hr_left := (if hr_opaque ?r then hr_left ?r else hr_left ?r - int ?k)\<rparr>)"
        by (rule pass_ok [OF inv True])
      moreover have "out = take ?k (hr_in ?r)"
        "r' = ?r\<lparr>hr_in := drop ?k (hr_in ?r), hr_left := (if hr_opaque ?r then hr_left ?r else hr_left ?r - int ?k)\<rparr>"
        using assms(2) False True data by (simp_all add: Read_def Let_def)
      ultimately show ?thesis by simp
    qed
  next
    case pend: False
    then show ?thesis using assms(2) False release_ok [OF inv, of ne layers n] by (auto simp: Read_def Let_def)
  qed
  from step_ok_trans [OF F this] show ?thesis by simp
qed

lemma Reads_ok: "reader_inv r \<Longrightarrow> Reads ne layers ops r = (out, r') \<Longrightarrow> step_ok ne layers r out r'"
proof (induction ne layers ops r arbitrary: out r' rule: Reads.induct)
  case (1 ne layers r)
  then show ?case by (simp add: step_ok_def)
next
  case (2 ne layers n got ops r)
  obtain o1 e r1 where r1: "Read ne layers n got r = (o1, e, r1)" by (cases "Read ne layers n got r") auto
  obtain o2 r2 where r2: "Reads ne layers ops r1 = (o2, r2)" by (cases "Reads ne layers ops r1")
  note S = Read_ok [OF 2(2) r1]
  then have "reader_inv r1" by (simp add: step_ok_def)
  from 2(1) [OF r1 [symmetric] refl this r2] S 2(3) show ?case by (auto simp: r1 r2 intro: step_ok_trans)
qed

section \<open>Something always may follow\<close>




section \<open>Checked requests pass\<close>

text \<open>A reader whose remaining bytes are what may follow in its state.\<close>

definition on_track :: "net_env \<Rightarrow> inbound_policy list \<Rightarrow> httpReader \<Rightarrow> bool" where
  "on_track ne layers r \<longleftrightarrow> reader_inv r \<and> hr_err r = None \<and> follows ne layers r (hr_in r)"

lemma header_block_append: "header_block b \<Longrightarrow> readHeader (b @ rest) = Inr (b, rest) \<and> b \<noteq> []"
  using readHeaderLimit_append [of b HeaderLimit b "[]" rest] readHeaderLimit_ok [of b HeaderLimit b "[]"]
  by (simp add: header_block_def readHeader_def)

lemma fill_header_track:
  assumes t: "on_track ne layers r" and idle: "hr_left r = 0" "\<not> hr_chunked r" "\<not> hr_opaque r" "hr_in r \<noteq> []"
  shows "on_track ne layers (fill_header ne layers r) \<and> hr_pending (fill_header ne layers r) \<noteq> []"
proof -
  have q: "requests ne layers (hr_in r)" "reader_inv r" "hr_err r = None" using t idle by (auto simp: on_track_def follows_def)
  have c: "\<not> hr_chunkCRLF r" "\<not> hr_trailers r" using q(2) idle(2) by (auto simp: reader_inv_def)
  obtain b h y where b: "hr_in r = b @ y" "passes ne layers b h" "hh_opaque h \<or> \<not> hh_opaque h \<and> \<not> hh_chunked h
      \<and> (\<exists>data rest. y = data @ rest \<and> int (length data) = hh_length h \<and> requests ne layers rest)
    \<or> \<not> hh_opaque h \<and> hh_chunked h \<and> (\<exists>c z. y = c @ z \<and> chunks ne c \<and> requests ne layers z)"
    using q(1) idle(4) by (cases rule: requests.cases) blast+
  have p: "header_block b" "parseHeader ne b = Inr h" "CheckHTTP ne layers (hh_host h) (hh_path h) (hh_opaque h) = None"
    using b(2) by (simp_all add: passes_def)
  note H = header_block_append [OF p(1), of y]
  have f: "fill_header ne layers r = r\<lparr>hr_in := y, hr_pending := b, hr_left := hh_length h, hr_chunked := hh_chunked h, hr_opaque := hh_opaque h\<rparr>"
    using H p by (simp add: fill_header_def b(1))
  have "follows ne layers (fill_header ne layers r) y"
  proof (cases "hh_opaque h \<or> \<not> hh_chunked h")
    case True
    then show ?thesis using b(3) unfolding follows_def f by (auto cong: if_cong)
  next
    case False
    then obtain c z where z: "y = c @ z" "chunks ne c" "requests ne layers z" using b(3) by blast
    then show ?thesis using False chunked_length [OF p(2)] c unfolding follows_def f by (auto cong: if_cong)
  qed
  then show ?thesis using c q(3) length_nonneg [OF p(2)] H by (simp add: on_track_def f reader_inv_def)
qed

lemma fill_chunk_track:
  assumes t: "on_track ne layers r" and idle: "hr_left r = 0" "hr_chunked r" "\<not> hr_opaque r"
  shows "on_track ne layers (fill_chunk ne r) \<and> hr_pending (fill_chunk ne r) \<noteq> []"
proof -
  obtain c z where z: "hr_in r = (if hr_chunkCRLF r then CRLF else []) @ c @ z" "if hr_trailers r then trailer ne c else chunks ne c" "requests ne layers z"
    using t idle by (auto simp: on_track_def follows_def)
  have inv: "reader_inv r" "hr_err r = None" using t by (simp_all add: on_track_def)
  consider (crlf) "hr_chunkCRLF r" "\<not> hr_trailers r" | (trailers) "\<not> hr_chunkCRLF r" "hr_trailers r" | (line) "\<not> hr_chunkCRLF r" "\<not> hr_trailers r"
    using inv by (auto simp: reader_inv_def)
  then show ?thesis
  proof cases
    case crlf
    then have i: "hr_in r = CRLF @ c @ z" "chunks ne c" using z by simp_all
    have "take 2 (hr_in r) = CRLF" "drop 2 (hr_in r) = c @ z" by (simp_all add: i(1) CRLF_def)
    then have f: "fill_chunk ne r = r\<lparr>hr_in := c @ z, hr_pending := CRLF, hr_chunkCRLF := False\<rparr>" using crlf by (simp add: fill_chunk_def)
    have "follows ne layers (fill_chunk ne r) (c @ z)" using i z(3) idle crlf unfolding follows_def f by (auto cong: if_cong)
    then show ?thesis using inv by (simp add: on_track_def f reader_inv_def)
  next
    case trailers
    then have i: "hr_in r = c @ z" "header_block c" "trailer_ok ne c" using z by (simp_all add: trailer_def)
    note H = header_block_append [OF i(2), of z]
    have f: "fill_chunk ne r = r\<lparr>hr_in := z, hr_pending := c, hr_chunked := False, hr_trailers := False\<rparr>"
      using trailers H i by (simp add: fill_chunk_def)
    have "follows ne layers (fill_chunk ne r) z" using z(3) idle unfolding follows_def f by (auto cong: if_cong)
    then show ?thesis using inv trailers H by (simp add: on_track_def f reader_inv_def)
  next
    case line
    then have i: "hr_in r = c @ z" "chunks ne c" using z by simp_all
    obtain b n y where b: "c = b @ y" "chunk_line ne b n" "n = 0 \<and> trailer ne y \<or> 0 < n \<and> (\<exists>data rest. y = data @ CRLF @ rest \<and> int (length data) = n \<and> chunks ne rest)"
      using i(2) by (cases rule: chunks.cases) blast+
    have l: "readLine (b @ y @ z) 4096 = Inr (b, y @ z)" "b \<noteq> []" "chunk_size ne b = Inr n"
      using b(2) readLine_append [of b 4096 b "[]" "y @ z"] readLine_ok(2) [of b 4096 b "[]"] by (simp_all add: chunk_line_def)
    have f: "fill_chunk ne r = r\<lparr>hr_in := y @ z, hr_pending := b, hr_left := n, hr_chunkCRLF := n > 0, hr_trailers := n = 0\<rparr>"
      using line l by (simp add: fill_chunk_def i(1) b(1))
    have "follows ne layers (fill_chunk ne r) (y @ z)"
    proof (cases "n = 0")
      case True
      then show ?thesis using b(3) z(3) idle unfolding follows_def f by (auto cong: if_cong)
    next
      case False
      then obtain data rest where d: "y = data @ CRLF @ rest" "int (length data) = n" "chunks ne rest" "0 < n" using b(3) by blast
      have "\<exists>c' z'. CRLF @ rest @ z = CRLF @ c' @ z' \<and> chunks ne c' \<and> requests ne layers z'" using d(3) z(3) by blast
      moreover have "y @ z = data @ CRLF @ rest @ z" by (simp add: d(1))
      ultimately have "\<exists>data' rest'. y @ z = data' @ rest' \<and> int (length data') = n
        \<and> (\<exists>c' z'. rest' = CRLF @ c' @ z' \<and> chunks ne c' \<and> requests ne layers z')" using d(2) by blast
      then show ?thesis using d(4) idle unfolding follows_def f by (simp cong: if_cong)
    qed
    then show ?thesis using inv l idle(2) b(3) by (auto simp: on_track_def f reader_inv_def)
  qed
qed

lemma fill_track:
  assumes t: "on_track ne layers r" and more: "hr_pending r @ hr_in r \<noteq> []"
  shows "on_track ne layers (fill ne layers r) \<and> (hr_pending (fill ne layers r) \<noteq> []
    \<or> hr_in (fill ne layers r) \<noteq> [] \<and> (hr_opaque (fill ne layers r) \<or> 0 < hr_left (fill ne layers r)))"
proof -
  have "0 \<le> hr_left r" "hr_err r = None" using t by (simp_all add: on_track_def reader_inv_def)
  then show ?thesis
    using fill_header_track [OF t] fill_chunk_track [OF t] t more by (auto simp: fill_def)
qed

lemma Read_track:
  assumes t: "on_track ne layers r" and more: "hr_pending r @ hr_in r \<noteq> []" and n: "0 < n" "0 < got"
    and R: "Read ne layers n got r = (out, err, r')"
  shows "on_track ne layers r' \<and> out \<noteq> []"
proof -
  let ?r = "fill ne layers r"
  note F = fill_track [OF t more]
  have inv: "reader_inv ?r" "hr_err ?r = None" "follows ne layers ?r (hr_in ?r)" using F by (simp_all add: on_track_def)
  show ?thesis
  proof (cases "hr_pending ?r = []")
    case False
    then have r': "r' = ?r\<lparr>hr_pending := drop n (hr_pending ?r)\<rparr>" "out = take n (hr_pending ?r)" using R n by (auto simp: Read_def Let_def)
    have "follows ne layers r' (hr_in r')" using inv(3) unfolding follows_def r' by (simp cong: if_cong)
    then show ?thesis using False n inv by (simp add: on_track_def r' reader_inv_def)
  next
    case True
    let ?k = "conn_read (if hr_opaque ?r then n else min n (nat (hr_left ?r))) got (hr_in ?r)"
    have i: "hr_in ?r \<noteq> []" "hr_opaque ?r \<or> 0 < hr_left ?r" using F True by simp_all
    have r': "r' = ?r\<lparr>hr_in := drop ?k (hr_in ?r), hr_left := (if hr_opaque ?r then hr_left ?r else hr_left ?r - int ?k)\<rparr>"
      "out = take ?k (hr_in ?r)" using R n True inv(2) i(1) by (auto simp: Read_def Let_def)
    have k: "0 < ?k" "hr_opaque ?r \<or> int ?k \<le> hr_left ?r" using n i by (auto simp: conn_read_def)
    have "follows ne layers r' (hr_in r')"
    proof (cases "hr_opaque ?r")
      case False
      then obtain data rest where d: "hr_in ?r = data @ rest" "int (length data) = hr_left ?r"
        "if hr_chunked ?r then \<exists>c z. rest = (if hr_chunkCRLF ?r then CRLF else []) @ c @ z \<and> (if hr_trailers ?r then trailer ne c else chunks ne c)
         \<and> requests ne layers z else requests ne layers rest"
        using inv(3) unfolding follows_def by blast
      have "?k \<le> length data" using k(2) False d(2) by linarith
      then have "drop ?k (hr_in ?r) = drop ?k data @ rest" "int (length (drop ?k data)) = hr_left ?r - int ?k" using d(1,2) by simp_all
      then have "\<exists>data' rest'. drop ?k (hr_in ?r) = data' @ rest' \<and> int (length data') = hr_left ?r - int ?k
        \<and> (if hr_chunked ?r then \<exists>c z. rest' = (if hr_chunkCRLF ?r then CRLF else []) @ c @ z \<and> (if hr_trailers ?r then trailer ne c else chunks ne c)
         \<and> requests ne layers z else requests ne layers rest')" using d(3) by blast
      then show ?thesis using False unfolding follows_def r' by (simp cong: if_cong)
    qed (simp add: follows_def r')
    then show ?thesis using inv k i(1) by (auto simp: on_track_def r' reader_inv_def)
  qed
qed

lemma Reads_track:
  assumes "on_track ne layers r" "list_all (\<lambda>(n, got). 0 < n \<and> 0 < got) ops" "length (hr_pending r @ hr_in r) \<le> length ops"
  shows "fst (Reads ne layers ops r) = hr_pending r @ hr_in r"
  using assms
proof (induction ne layers ops r rule: Reads.induct)
  case (2 ne layers n got ops r)
  obtain out err r1 where R: "Read ne layers n got r = (out, err, r1)" by (cases "Read ne layers n got r") auto
  have inv: "reader_inv r" using 2(2) by (simp add: on_track_def)
  have "step_ok ne layers r out r1" by (rule Read_ok [OF inv R])
  then have e: "hr_pending r @ hr_in r = out @ hr_pending r1 @ hr_in r1" by (simp add: step_ok_def)
  show ?case
  proof (cases "hr_pending r @ hr_in r = []")
    case True
    obtain out2 r2 where R2: "Reads ne layers ((n, got) # ops) r = (out2, r2)" by (cases "Reads ne layers ((n, got) # ops) r")
    have "step_ok ne layers r out2 r2" by (rule Reads_ok [OF inv R2])
    then have "out2 = []" using True by (simp add: step_ok_def)
    then show ?thesis using R2 True by simp
  next
    case False
    then have t: "on_track ne layers r1 \<and> out \<noteq> []" using Read_track [OF 2(2) False _ _ R] 2(3) by simp
    then have "length (hr_pending r1 @ hr_in r1) \<le> length ops" using 2(4) arg_cong [OF e, of length] by (cases out) auto
    then have "fst (Reads ne layers ops r1) = hr_pending r1 @ hr_in r1" using 2(1) [OF R [symmetric] refl] t 2(3) by simp
    then show ?thesis using e by (cases "Reads ne layers ops r1") (simp add: R)
  qed
qed simp

section \<open>Properties\<close>


text \<open>A connection of checked requests passes the filter completely: after enough reads, each with room for something and giving something, every
  byte that was sent has left the filter.\<close>

theorem checked_requests_pass:
  assumes "requests ne layers inp" "list_all (\<lambda>(n, got). 0 < n \<and> 0 < got) ops" "length inp \<le> length ops"
  shows "fst (Reads ne layers ops (newHTTPReader inp)) = inp"
  using Reads_track [of ne layers "newHTTPReader inp" ops] assms
  by (simp add: on_track_def follows_def reader_inv_def newHTTPReader_def)

definition demo_net :: net_env where
  "demo_net = \<lparr>ne_ParseAddr = (\<lambda>_. None), ne_ParseIP = (\<lambda>_. False), ne_ToASCII = Some,
     ne_URI = (\<lambda>u. Some \<lparr>ru_Fragment = '''', ru_User = False, ru_IsAbs = False, ru_Host = '''', ru_EscapedPath = u\<rparr>),
     ne_FieldName = (\<lambda>s. s \<noteq> '''' \<and> list_all is_token s), ne_FieldValue = (\<lambda>_. True)\<rparr>"

definition demo_post :: string where
  "demo_post = ''POST /a HTTP/1.1'' @ CRLF @ ''Host: x.y'' @ CRLF @ ''Content-Length: 2'' @ CRLF @ CRLF"

theorem checked_requests_pass_witness:
  "fst (Reads demo_net [block_admin] (replicate 200 (7, 5)) (newHTTPReader (demo_post @ ''hi''))) = demo_post @ ''hi''"
proof -
  have "passes demo_net [block_admin] demo_post \<lparr>hh_host = ''x.y'', hh_path = ''/a'', hh_length = 2, hh_chunked = False, hh_opaque = False\<rparr>"
    by code_simp
  from sized_request [OF this, of "''hi''" "[]"] no_request have "requests demo_net [block_admin] (demo_post @ ''hi'')" by simp
  moreover have "length (demo_post @ ''hi'') \<le> 200" by (simp add: demo_post_def CRLF_def)
  ultimately show ?thesis by (intro checked_requests_pass) (simp_all add: list_all_iff)
qed

end
