(* ===== verification/Failover.thy ===== *)
theory Failover
  imports Policy
begin

text \<open>
  Choosing the backend of a forwarded connection on the Agent (\<open>internal/agent/failover.go\<close>): smooth weighted round robin over the
  candidates of a rule, with a circuit breaker per candidate. A candidate that failed often enough rests until a deadline, and is
  then tried by one connection at a time.

  The table of backend states is a list of pairs; two candidates with the same identifier share one state, as they share one pointer in the
  code. A time is \<open>None\<close> where the code has the zero time. Dialling itself is an argument: for every attempt of a connection it gives the two readings of the clock
  and the outcome. Of a rule only the fields read here are kept, and the settings of a tunnel, which are passed on unread, are a text.
  Weights are at most 100 and candidates at most 16 (\<open>validate\<close> in \<open>runtime.go\<close>), so the arithmetic of the code does not overflow.
\<close>

section \<open>Policies, candidates and rules\<close>

record failover_policy =
  fp_MaxFail :: int
  fp_CooldownSec :: int

record effective_policy =
  ep_Version :: int
  ep_InboundLayers :: "inbound_policy list"
  ep_PreferIPv6 :: bool
  ep_Failover :: "failover_policy option"
  ep_Hash :: string

record candidate =
  ca_ID :: string
  ca_ExitGroupID :: string
  ca_Target :: string
  ca_Transport :: string
  ca_Tunnel :: "string option"
  ca_Weight :: int
  ca_EffectivePolicy :: "effective_policy option"
  ca_BillingMultiplier :: string

record backend =
  be_Target :: string
  be_Weight :: int
  be_Disabled :: bool

record failover_rule =
  fr_ID :: string
  fr_Target :: string
  fr_Transport :: string
  fr_Tunnel :: "string option"
  fr_ExitGroupID :: string
  fr_EffectivePolicy :: "effective_policy option"
  fr_BillingMultiplier :: string
  fr_Backends :: "backend list"
  fr_RouteCandidates :: "candidate list"

record backendState =
  bs_current :: int
  bs_failures :: int
  bs_until :: "gotime option"
  bs_probing :: bool

type_synonym backends = "(string, backendState) gomap"

definition fresh_backend :: backendState where
  "fresh_backend = \<lparr>bs_current = 0, bs_failures = 0, bs_until = None, bs_probing = False\<rparr>"

definition rule_candidate :: "failover_rule \<Rightarrow> string \<Rightarrow> int \<Rightarrow> candidate" where
  "rule_candidate v target weight = \<lparr>ca_ID = target, ca_ExitGroupID = '''', ca_Target = target, ca_Transport = fr_Transport v, ca_Tunnel = fr_Tunnel v,
     ca_Weight = weight, ca_EffectivePolicy = fr_EffectivePolicy v, ca_BillingMultiplier = fr_BillingMultiplier v\<rparr>"

definition candidates :: "failover_rule \<Rightarrow> candidate list" where
  "candidates v =
     (if fr_RouteCandidates v \<noteq> [] then fr_RouteCandidates v
      else if fr_Backends v = [] then [rule_candidate v (fr_Target v) 1]
      else map (\<lambda>x. rule_candidate v (be_Target x) (be_Weight x)) (filter (\<lambda>x. \<not> be_Disabled x) (fr_Backends v)))"

definition backendKey :: "failover_rule \<Rightarrow> string \<Rightarrow> string" where
  "backendKey v target = fr_ID v @ ''|'' @ (case fr_EffectivePolicy v of None \<Rightarrow> '''' | Some p \<Rightarrow> ep_Hash p) @ ''|'' @ target"

lemma backendKey_inj [simp]: "backendKey v a = backendKey v b \<longleftrightarrow> a = b"
  by (simp add: backendKey_def)

section \<open>Choosing\<close>

definition weight :: "candidate \<Rightarrow> int" where
  "weight c = max 1 (ca_Weight c)"

definition state_of :: "backends \<Rightarrow> string \<Rightarrow> backendState" where
  "state_of m k = (case map_of m k of None \<Rightarrow> fresh_backend | Some s \<Rightarrow> s)"

definition resting :: "gotime \<Rightarrow> backendState \<Rightarrow> bool" where
  "resting now s \<longleftrightarrow> (case bs_until s of None \<Rightarrow> False | Some u \<Rightarrow> now < u) \<or> bs_probing s"

text \<open>The loop of \<open>selectCandidate\<close>: the table, the sum of the weights and the best candidate so far, whose state is read from the table.\<close>

fun select_loop :: "failover_rule \<Rightarrow> string list \<Rightarrow> gotime \<Rightarrow> candidate list \<Rightarrow> backends \<Rightarrow> int \<Rightarrow> candidate option
    \<Rightarrow> backends \<times> int \<times> candidate option" where
  "select_loop v tried now [] m tot best = (m, tot, best)"
| "select_loop v tried now (c # cs) m tot best =
     (if ca_ID c \<in> set tried then select_loop v tried now cs m tot best
      else let k = backendKey v (ca_ID c); s = state_of m k in
        if resting now s then select_loop v tried now cs (put k s m) tot best
        else let s' = s\<lparr>bs_current := bs_current s + weight c\<rparr>; m' = put k s' m;
                 better = (case best of None \<Rightarrow> True | Some b \<Rightarrow> bs_current s' > bs_current (state_of m' (backendKey v (ca_ID b)))) in
          select_loop v tried now cs m' (tot + weight c) (if better then Some c else best))"

definition selectCandidate :: "failover_rule \<Rightarrow> string list \<Rightarrow> gotime \<Rightarrow> backends \<Rightarrow> candidate option \<times> backends" where
  "selectCandidate v tried now m0 = (case select_loop v tried now (candidates v) m0 0 None of (m, tot, best) \<Rightarrow>
     (case best of None \<Rightarrow> (None, m)
      | Some c \<Rightarrow> let k = backendKey v (ca_ID c); s = state_of m k in
          (Some c, put k (s\<lparr>bs_current := bs_current s - tot,
             bs_probing := (if bs_failures s > 0 \<and> bs_until s \<noteq> None then True else bs_probing s)\<rparr>) m)))"

section \<open>Results of an attempt\<close>

definition maxFail :: "failover_rule \<Rightarrow> int" where
  "maxFail v = (case fr_EffectivePolicy v of None \<Rightarrow> 1 | Some p \<Rightarrow> (case ep_Failover p of None \<Rightarrow> 1 | Some f \<Rightarrow> max 1 (fp_MaxFail f)))"

definition cooldown :: "failover_rule \<Rightarrow> int" where
  "cooldown v = (case fr_EffectivePolicy v of None \<Rightarrow> 10 | Some p \<Rightarrow> (case ep_Failover p of None \<Rightarrow> 10 | Some f \<Rightarrow> fp_CooldownSec f))"

definition rest_until :: "failover_rule \<Rightarrow> gotime \<Rightarrow> gotime" where
  "rest_until v now = now + max 1 (cooldown v) * 1000000000"

definition markCandidate :: "failover_rule \<Rightarrow> string \<Rightarrow> bool \<Rightarrow> gotime \<Rightarrow> backends \<Rightarrow> backends" where
  "markCandidate v ident failed now m = (let k = backendKey v ident in case map_of m k of None \<Rightarrow> m | Some s \<Rightarrow>
     if \<not> failed then put k (s\<lparr>bs_probing := False, bs_failures := 0, bs_until := None\<rparr>) m
     else let n = bs_failures s + 1 in
       put k (s\<lparr>bs_probing := False, bs_failures := n, bs_until := (if n \<ge> maxFail v then Some (rest_until v now) else bs_until s)\<rparr>) m)"

definition stop_probing :: "failover_rule \<Rightarrow> string \<Rightarrow> backends \<Rightarrow> backends" where
  "stop_probing v ident m = (let k = backendKey v ident in put k ((state_of m k)\<lparr>bs_probing := False\<rparr>) m)"

datatype dial_outcome = DialOk | DialFailed | DialTimedOut
datatype 'e dial_error = CandidateMismatch | CheckFailed 'e | ContextDone | AllUnavailable

text \<open>The attempts of a connection: \<open>env n c\<close> is the time at which the \<open>n\<close>th candidate is chosen, and, when it is \<open>c\<close>, the outcome of dialling it and the time after
  that; a timeout is the end of the whole connection attempt, not of the single dial.\<close>

type_synonym dial_env = "nat \<Rightarrow> gotime \<times> (candidate \<Rightarrow> dial_outcome \<times> gotime)"

function dial_loop :: "failover_rule \<Rightarrow> (effective_policy option \<Rightarrow> 'e option) \<Rightarrow> dial_env \<Rightarrow> string list \<Rightarrow> backends
    \<Rightarrow> ('e dial_error + candidate) \<times> backends" where
  "dial_loop v check env tried m0 =
     (if \<not> length tried < length (candidates v) then (Inl AllUnavailable, m0)
      else case selectCandidate v tried (fst (env (length tried))) m0 of
        (None, m) \<Rightarrow> (Inl AllUnavailable, m)
      | (Some c, m) \<Rightarrow>
          if ca_BillingMultiplier c \<noteq> fr_BillingMultiplier v \<or> ca_ExitGroupID c \<noteq> '''' \<and> ca_ExitGroupID c \<noteq> fr_ExitGroupID v
          then (Inl CandidateMismatch, m)
          else case check (ca_EffectivePolicy c) of Some e \<Rightarrow> (Inl (CheckFailed e), stop_probing v (ca_ID c) m)
          | None \<Rightarrow> (case snd (env (length tried)) c of
              (DialOk, t) \<Rightarrow> (Inr c, markCandidate v (ca_ID c) False t m)
            | (DialTimedOut, t) \<Rightarrow> (Inl ContextDone, stop_probing v (ca_ID c) m)
            | (DialFailed, t) \<Rightarrow> dial_loop v check env (ca_ID c # tried) (markCandidate v (ca_ID c) True t m)))"
  by pat_completeness auto
termination
  by (relation "measure (\<lambda>(v, check, env, tried, m). length (candidates v) - length tried)") auto

declare dial_loop.simps [simp del]

definition dialCandidates :: "failover_rule \<Rightarrow> (effective_policy option \<Rightarrow> 'e option) \<Rightarrow> dial_env \<Rightarrow> backends
    \<Rightarrow> ('e dial_error + candidate) \<times> backends" where
  "dialCandidates v check env m = dial_loop v check env [] m"

definition dialBackends :: "failover_rule \<Rightarrow> dial_env \<Rightarrow> backends \<Rightarrow> (unit dial_error + candidate) \<times> backends" where
  "dialBackends v env m = dialCandidates v (\<lambda>_. None) env m"

end
