(* ===== verification/Breaker.thy ===== *)
theory Breaker
  imports Go_Prelude
begin

text \<open>
  The contract of a circuit breaker, which the choice of a backend (\<open>internal/agent/failover.go\<close>) and the exits of a tunnel (\<open>internal/tunnel/group_policy.go\<close>) both keep.
  The health of a key is its number of failures, the end of its rest and whether it is being tried. Many connections attempt and report at the same time; each call holds a lock, so what they do
  is a sequence of calls.
\<close>

type_synonym key_health = "int \<times> gotime option \<times> bool"

datatype ('r, 'p) breaker_op = Attempt 'r gotime | Report 'p

text \<open>A run gives the keys that were admitted, with the times.\<close>

fun breaker_run :: "('r \<Rightarrow> gotime \<Rightarrow> 's \<Rightarrow> string option \<times> 's) \<Rightarrow> ('p \<Rightarrow> 's \<Rightarrow> 's) \<Rightarrow> ('r, 'p) breaker_op list \<Rightarrow> 's \<Rightarrow> (string \<times> gotime) list" where
  "breaker_run attempt report [] s = []"
| "breaker_run attempt report (Attempt r now # ops) s = (case attempt r now s of
     (None, s') \<Rightarrow> breaker_run attempt report ops s' | (Some k, s') \<Rightarrow> (k, now) # breaker_run attempt report ops s')"
| "breaker_run attempt report (Report p # ops) s = breaker_run attempt report ops (report p s)"

fun about :: "('p \<Rightarrow> string) \<Rightarrow> string \<Rightarrow> ('r, 'p) breaker_op \<Rightarrow> bool" where
  "about subject k (Attempt r now) = False"
| "about subject k (Report p) = (subject p = k)"

definition tried_once :: "string \<Rightarrow> gotime \<Rightarrow> (string \<times> gotime) list \<Rightarrow> bool" where
  "tried_once k u ps \<longleftrightarrow> length ps \<le> 1 \<and> list_all (\<lambda>(j, t). u \<le> t) ps"

locale circuit_breaker =
  fixes health :: "'s \<Rightarrow> string \<Rightarrow> key_health"
    and attempt :: "'r \<Rightarrow> gotime \<Rightarrow> 's \<Rightarrow> string option \<times> 's"
    and report :: "'p \<Rightarrow> 's \<Rightarrow> 's"
    and subject :: "'p \<Rightarrow> string"
  assumes attempt_other: "attempt r now s = (b, s') \<Longrightarrow> b \<noteq> Some k \<Longrightarrow> health s' k = health s k"
    and attempt_free: "attempt r now s = (Some k, s') \<Longrightarrow> health s k = (f, e, q) \<Longrightarrow> \<not> q \<and> (\<forall>t. e = Some t \<longrightarrow> t \<le> now)"
    and attempt_probes: "attempt r now s = (Some k, s') \<Longrightarrow> health s k = (f, Some u, q) \<Longrightarrow> 0 < f \<Longrightarrow> health s' k = (f, Some u, True)"
    and report_other: "subject p \<noteq> k \<Longrightarrow> health (report p s) k = health s k"
begin

lemma tried_not_admitted:
  assumes "list_all (\<lambda>p. \<not> about subject k p) ops" "health s k = (f, u, True)"
  shows "filter (\<lambda>(j, t). j = k) (breaker_run attempt report ops s) = []"
  using assms
proof (induction ops arbitrary: s)
  case (Cons p ops)
  show ?case
  proof (cases p)
    case (Attempt r now)
    obtain b s' where a: "attempt r now s = (b, s')" by (cases "attempt r now s") auto
    have ne: "b \<noteq> Some k" using attempt_free [of r now s k s'] a Cons.prems(2) by blast
    then have "health s' k = (f, u, True)" using attempt_other [OF a] Cons.prems(2) by simp
    then show ?thesis using Cons Attempt a ne by (auto split: option.splits)
  next
    case (Report q)
    then show ?thesis using Cons report_other [of q k s] by simp
  qed
qed simp

lemma open_admits_once:
  assumes "list_all (\<lambda>p. \<not> about subject k p) ops" "health s k = (f, Some u, False)" "0 < f"
  shows "tried_once k u (filter (\<lambda>(j, t). j = k) (breaker_run attempt report ops s))"
  using assms(1,2)
proof (induction ops arbitrary: s)
  case (Cons p ops)
  show ?case
  proof (cases p)
    case (Attempt r now)
    obtain b s' where a: "attempt r now s = (b, s')" by (cases "attempt r now s") auto
    show ?thesis
    proof (cases "b = Some k")
      case True
      note a' = a [unfolded True]
      have "u \<le> now" using attempt_free [OF a' Cons.prems(2)] by simp
      moreover have "filter (\<lambda>(j, t). j = k) (breaker_run attempt report ops s') = []"
        using tried_not_admitted [OF _ attempt_probes [OF a' Cons.prems(2) assms(3)]] Cons.prems(1) by simp
      ultimately show ?thesis using Attempt a' by (simp add: tried_once_def)
    next
      case False
      then have "health s' k = (f, Some u, False)" using attempt_other [OF a] Cons.prems(2) by simp
      then show ?thesis using Cons Attempt a False by (auto split: option.splits)
    qed
  next
    case (Report q)
    then show ?thesis using Cons report_other [of q k s] by simp
  qed
qed (simp add: tried_once_def)

end

end
