(* ===== verification/Failover_Props.thy ===== *)
theory Failover_Props
  imports Failover Breaker
begin

text \<open>
  Properties of the choice of a backend: over the sum of the weights many connections every all_healthy candidate serves exactly its weight; a candidate
  that failed rests, and is then tried by one connection at a time, in every interleaving of connections; and a connection reaches a
  all_healthy candidate whenever there is one.
\<close>

section \<open>One choice\<close>

definition health :: "backendState \<Rightarrow> key_health" where
  "health s = (bs_failures s, bs_until s, bs_probing s)"

definition cand_state :: "failover_rule \<Rightarrow> backends \<Rightarrow> candidate \<Rightarrow> backendState" where
  "cand_state v m c = state_of m (backendKey v (ca_ID c))"

definition avail :: "failover_rule \<Rightarrow> string list \<Rightarrow> gotime \<Rightarrow> backends \<Rightarrow> candidate \<Rightarrow> bool" where
  "avail v tried now m c \<longleftrightarrow> ca_ID c \<notin> set tried \<and> \<not> resting now (cand_state v m c)"

definition cur :: "failover_rule \<Rightarrow> backends \<Rightarrow> candidate \<Rightarrow> int" where
  "cur v m c = bs_current (cand_state v m c)"

lemma state_of_put [simp]: "state_of (put k s m) j = (if j = k then s else state_of m j)"
  by (simp add: state_of_def)

lemma resting_health: "health s = health t \<Longrightarrow> resting now s = resting now t"
  by (simp add: health_def resting_def)

lemma health_current [simp]: "health (s\<lparr>bs_current := x\<rparr>) = health s"
  by (simp add: health_def)

lemma weight_pos: "0 < weight c"
  by (simp add: weight_def)

lemma avail_cong: "(\<And>k. health (state_of m k) = health (state_of m' k)) \<Longrightarrow> avail v tried now m c = avail v tried now m' c"
  unfolding avail_def cand_state_def using resting_health by blast

text \<open>One pass of the loop over a candidate that is available: its share grows by its weight, and it becomes the best when its share is larger.\<close>

definition bump :: "failover_rule \<Rightarrow> candidate \<Rightarrow> backends \<Rightarrow> backends" where
  "bump v c m = put (backendKey v (ca_ID c)) ((cand_state v m c)\<lparr>bs_current := cur v m c + weight c\<rparr>) m"

definition touch :: "failover_rule \<Rightarrow> candidate \<Rightarrow> backends \<Rightarrow> backends" where
  "touch v c m = put (backendKey v (ca_ID c)) (cand_state v m c) m"

definition pick_best :: "failover_rule \<Rightarrow> candidate \<Rightarrow> backends \<Rightarrow> candidate option \<Rightarrow> candidate option" where
  "pick_best v c m best = (case best of None \<Rightarrow> Some c | Some b \<Rightarrow> if cur v m c > cur v m b then Some c else best)"

lemma select_loop_Cons:
  "select_loop v tried now (c # cs) m t b =
     (if ca_ID c \<in> set tried then select_loop v tried now cs m t b
      else if resting now (cand_state v m c) then select_loop v tried now cs (touch v c m) t b
      else select_loop v tried now cs (bump v c m) (t + weight c) (pick_best v c (bump v c m) b))"
  by (simp add: Let_def touch_def bump_def pick_best_def cand_state_def cur_def split: option.splits)

declare select_loop.simps(2) [simp del]

lemma touch_state [simp]: "state_of (touch v c m) k = state_of m k"
  by (simp add: touch_def cand_state_def)

lemma touch_view [simp]: "cand_state v (touch u c m) = cand_state v m" "cur v (touch u c m) = cur v m" "avail v tried now (touch u c m) = avail v tried now m"
  by (simp_all add: cand_state_def cur_def avail_def fun_eq_iff)

lemma bump_health [simp]: "health (state_of (bump v c m) k) = health (state_of m k)"
  by (simp add: bump_def cand_state_def)

lemma avail_bump [simp]: "avail v tried now (bump v c m) d = avail v tried now m d"
  by (rule avail_cong) simp

lemma cur_bump: "cur v (bump v c m) d = cur v m d + (if ca_ID c = ca_ID d then weight c else 0)"
  by (simp add: cur_def bump_def cand_state_def)

lemma select_loop_health:
  "select_loop v tried now cs m t b = (m', t', b') \<Longrightarrow> health (state_of m' k) = health (state_of m k)"
  by (induction cs arbitrary: m t b) (auto simp: select_loop_Cons split: if_splits)

lemma pick_best_cases: "pick_best v c m b = b \<or> pick_best v c m b = Some c"
  by (auto simp: pick_best_def split: option.splits)

lemma select_loop_member:
  "select_loop v tried now cs m t b = (m', t', b') \<Longrightarrow> b' = b \<or> (\<exists>c\<in>set cs. b' = Some c \<and> avail v tried now m c)"
proof (induction cs arbitrary: m t b)
  case (Cons c cs)
  have "avail v tried now m c" if "ca_ID c \<notin> set tried" "\<not> resting now (cand_state v m c)"
    using that by (simp add: avail_def)
  then show ?case using Cons.prems Cons.IH pick_best_cases [of v c "bump v c m" b]
    by (fastforce simp: select_loop_Cons split: if_splits)
qed simp

lemma select_loop_some:
  assumes "select_loop v tried now cs m t b = (m', t', b')" "b \<noteq> None \<or> (\<exists>c\<in>set cs. avail v tried now m c)"
  shows "b' \<noteq> None"
  using assms
proof (induction cs arbitrary: m t b)
  case (Cons c cs)
  have "pick_best v c (bump v c m) b \<noteq> None" by (auto simp: pick_best_def split: option.splits)
  then show ?case using Cons by (auto simp: select_loop_Cons avail_def split: if_splits)
qed simp

text \<open>The choice made by a whole call.\<close>

lemma select_some:
  assumes "selectCandidate v tried now m = (Some c, m')"
  shows "c \<in> set (candidates v)" "avail v tried now m c"
    "k \<noteq> backendKey v (ca_ID c) \<Longrightarrow> health (state_of m' k) = health (state_of m k)"
    "health (cand_state v m' c) = (case health (cand_state v m c) of (f, u, p) \<Rightarrow> (f, u, f > 0 \<and> u \<noteq> None \<or> p))"
proof -
  obtain m1 t where l: "select_loop v tried now (candidates v) m 0 None = (m1, t, Some c)"
    and m': "m' = put (backendKey v (ca_ID c)) ((cand_state v m1 c)\<lparr>bs_current := cur v m1 c - t,
       bs_probing := (if bs_failures (cand_state v m1 c) > 0 \<and> bs_until (cand_state v m1 c) \<noteq> None then True else bs_probing (cand_state v m1 c))\<rparr>) m1"
    using assms by (auto simp: selectCandidate_def Let_def cand_state_def cur_def split: prod.splits option.splits cong: if_cong)
  show "c \<in> set (candidates v)" "avail v tried now m c" using select_loop_member [OF l] by auto
  have h: "health (state_of m1 j) = health (state_of m j)" for j by (rule select_loop_health [OF l])
  show "k \<noteq> backendKey v (ca_ID c) \<Longrightarrow> health (state_of m' k) = health (state_of m k)" by (simp add: m' h)
  show "health (cand_state v m' c) = (case health (cand_state v m c) of (f, u, p) \<Rightarrow> (f, u, f > 0 \<and> u \<noteq> None \<or> p))"
    using h [of "backendKey v (ca_ID c)"] by (auto simp: m' cand_state_def health_def)
qed

lemma select_none_health:
  assumes "selectCandidate v tried now m = (None, m')"
  shows "health (state_of m' k) = health (state_of m k)"
  using assms select_loop_health [of v tried now "candidates v" m 0 None]
  by (auto simp: selectCandidate_def Let_def split: prod.splits option.splits)

lemma select_exists:
  assumes "c \<in> set (candidates v)" "avail v tried now m c"
  obtains d m' where "selectCandidate v tried now m = (Some d, m')"
  using assms select_loop_some [of v tried now "candidates v" m 0 None]
  by (fastforce simp: selectCandidate_def Let_def split: prod.splits option.splits)


lemma mark_other [simp]: "k \<noteq> backendKey v ident \<Longrightarrow> state_of (markCandidate v ident failed now m) k = state_of m k"
  by (simp add: markCandidate_def Let_def split: option.splits)

lemma stop_other [simp]: "k \<noteq> backendKey v ident \<Longrightarrow> state_of (stop_probing v ident m) k = state_of m k"
  by (simp add: stop_probing_def Let_def)

lemma mark_failed:
  assumes "map_of m (backendKey v ident) = Some s" "bs_failures s + 1 \<ge> maxFail v"
  shows "health (state_of (markCandidate v ident True now m) (backendKey v ident)) = (bs_failures s + 1, Some (rest_until v now), False)"
  using assms by (simp add: markCandidate_def Let_def health_def)

section \<open>The circuit breaker\<close>

datatype outcome = Dialled failover_rule string bool gotime | Released failover_rule string

definition backend_attempt :: "failover_rule \<times> string list \<Rightarrow> gotime \<Rightarrow> backends \<Rightarrow> string option \<times> backends" where
  "backend_attempt r now m = (case selectCandidate (fst r) (snd r) now m of (b, m') \<Rightarrow> (map_option (\<lambda>c. backendKey (fst r) (ca_ID c)) b, m'))"

fun backend_report :: "outcome \<Rightarrow> backends \<Rightarrow> backends" where
  "backend_report (Dialled v ident failed now) m = markCandidate v ident failed now m"
| "backend_report (Released v ident) m = stop_probing v ident m"

fun report_key :: "outcome \<Rightarrow> string" where
  "report_key (Dialled v ident failed now) = backendKey v ident"
| "report_key (Released v ident) = backendKey v ident"

lemma backend_attempt_some:
  assumes "backend_attempt r now m = (Some k, m')"
  obtains c where "selectCandidate (fst r) (snd r) now m = (Some c, m')" "k = backendKey (fst r) (ca_ID c)"
  using assms by (auto simp: backend_attempt_def split: prod.splits)

interpretation bb: circuit_breaker "\<lambda>m k. health (state_of m k)" backend_attempt backend_report report_key
proof
  fix r now m b m' k
  assume a: "backend_attempt r now m = (b, m')" "b \<noteq> Some k"
  show "health (state_of m' k) = health (state_of m k)"
  proof (cases b)
    case None
    then show ?thesis using a(1) select_none_health [of "fst r" "snd r" now m m' k] by (auto simp: backend_attempt_def split: prod.splits)
  next
    case (Some j)
    then obtain c where "selectCandidate (fst r) (snd r) now m = (Some c, m')" "j = backendKey (fst r) (ca_ID c)" using a(1) backend_attempt_some by metis
    then show ?thesis using select_some(3) a(2) Some by auto
  qed
next
  fix r now m k m' f u p
  assume a: "backend_attempt r now m = (Some k, m')" and h: "health (state_of m k) = (f, u, p)"
  obtain c where c: "selectCandidate (fst r) (snd r) now m = (Some c, m')" "k = backendKey (fst r) (ca_ID c)" using a backend_attempt_some by metis
  show "\<not> p \<and> (\<forall>t. u = Some t \<longrightarrow> t \<le> now)"
    using select_some(2) [OF c(1)] c(2) h by (auto simp: avail_def resting_def cand_state_def health_def)
next
  fix r now m k m' f u p
  assume a: "backend_attempt r now m = (Some k, m')" and h: "health (state_of m k) = (f, Some u, p)" "0 < f"
  obtain c where c: "selectCandidate (fst r) (snd r) now m = (Some c, m')" "k = backendKey (fst r) (ca_ID c)" using a backend_attempt_some by metis
  show "health (state_of m' k) = (f, Some u, True)" using select_some(4) [OF c(1)] c(2) h by (simp add: cand_state_def)
next
  fix p m k
  assume "report_key p \<noteq> k"
  then show "health (state_of (backend_report p m) k) = health (state_of m k)" by (cases p) auto
qed

text \<open>C26: A backend that has failed as often as its policy allows is left alone by every connection until the end of its rest. After that one connection tries it, and no other before that
  attempt has been report_key: from one failure report to the next report at most one connection chooses the backend, and none before the rest is over, however
  the calls of all connections interleave.\<close>

theorem failed_backend_rests:
  assumes "map_of m (backendKey v ident) = Some s" "0 \<le> bs_failures s" "bs_failures s + 1 \<ge> maxFail v"
    and "list_all (\<lambda>p. \<not> about report_key (backendKey v ident) p) ops"
    and "filter (\<lambda>(k, t). k = backendKey v ident) (breaker_run backend_attempt backend_report ops (markCandidate v ident True now m)) = picks"
  shows "length picks \<le> 1 \<and> list_all (\<lambda>(k, t). now + max 1 (cooldown v) * 1000000000 \<le> t) picks"
  using bb.open_admits_once [OF assms(4) mark_failed [OF assms(1,3), of now]] assms(2,5) by (simp add: rest_until_def tried_once_def)

definition demo_candidate :: "string \<Rightarrow> int \<Rightarrow> candidate" where
  "demo_candidate target w = \<lparr>ca_ID = target, ca_ExitGroupID = '''', ca_Target = target, ca_Transport = ''direct'', ca_Tunnel = None,
     ca_Weight = w, ca_EffectivePolicy = None, ca_BillingMultiplier = ''1''\<rparr>"

definition route_rule :: failover_rule where
  "route_rule = \<lparr>fr_ID = ''r1'', fr_Target = ''a'', fr_Transport = ''direct'', fr_Tunnel = None, fr_ExitGroupID = '''', fr_EffectivePolicy = None,
     fr_BillingMultiplier = ''1'', fr_Backends = [], fr_RouteCandidates = [demo_candidate ''a'' 2, demo_candidate ''b'' 1]\<rparr>"

lemma route_rule_candidates: "candidates route_rule = [demo_candidate ''a'' 2, demo_candidate ''b'' 1]"
  by (simp add: route_rule_def candidates_def)

definition breaker_demo :: "(failover_rule \<times> string list, outcome) breaker_op list" where
  "breaker_demo = [Attempt (route_rule, []) 1000, Report (Dialled route_rule ''b'' False 2000), Attempt (route_rule, []) 10000000005, Attempt (route_rule, [''b'']) 10000000006]"

text \<open>The backend fails at time 5 and rests for ten seconds; the next connection goes elsewhere, the first one after the rest tries it, and a connection at the same time that has
  nothing else to try is refused.\<close>

theorem failed_backend_rests_witness:
  "breaker_run backend_attempt backend_report breaker_demo (markCandidate route_rule ''a'' True 5 [(''r1||a'', fresh_backend)]) = [(''r1||b'', 1000), (''r1||a'', 10000000005)]
   \<and> length [(''r1||a'', 10000000005 :: gotime)] \<le> 1 \<and> list_all (\<lambda>(k, t). 5 + 10 * 1000000000 \<le> t) [(''r1||a'', 10000000005 :: gotime)]"
proof -
  have run: "breaker_run backend_attempt backend_report breaker_demo (markCandidate route_rule ''a'' True 5 [(''r1||a'', fresh_backend)]) = [(''r1||b'', 1000), (''r1||a'', 10000000005)]"
    by code_simp
  have k: "backendKey route_rule ''a'' = ''r1||a''" "cooldown route_rule = 10" by code_simp+
  have h: "map_of [(''r1||a'', fresh_backend)] (backendKey route_rule ''a'') = Some fresh_backend" "0 \<le> bs_failures fresh_backend"
    "maxFail route_rule \<le> bs_failures fresh_backend + 1" "list_all (\<lambda>p. \<not> about report_key (backendKey route_rule ''a'') p) breaker_demo"
    by code_simp+
  have p: "filter (\<lambda>(k, t). k = backendKey route_rule ''a'') (breaker_run backend_attempt backend_report breaker_demo (markCandidate route_rule ''a'' True 5 [(''r1||a'', fresh_backend)]))
     = [(''r1||a'', 10000000005)]" unfolding run k by simp
  show ?thesis using failed_backend_rests [OF h p] run k by simp
qed

section \<open>Reaching a healthy candidate\<close>

definition in_scope :: "failover_rule \<Rightarrow> candidate \<Rightarrow> bool" where
  "in_scope v c \<longleftrightarrow> ca_BillingMultiplier c = fr_BillingMultiplier v \<and> (ca_ExitGroupID c = '''' \<or> ca_ExitGroupID c = fr_ExitGroupID v)"

lemma select_stored:
  assumes "selectCandidate v tried now m = (Some c, m')"
  obtains s where "map_of m' (backendKey v (ca_ID c)) = Some s"
  using assms by (auto simp: selectCandidate_def Let_def split: prod.splits option.splits)

lemma mark_healthy:
  assumes "selectCandidate v tried now m = (Some c, m')"
  shows "health (cand_state v (markCandidate v (ca_ID c) False t m') c) = (0, None, False)"
  by (rule select_stored [OF assms]) (simp add: markCandidate_def Let_def cand_state_def health_def)

lemma tried_less:
  assumes "distinct tried" "set tried \<subseteq> ca_ID ` set cs" "c \<in> set cs" "ca_ID c \<notin> set tried"
  shows "length tried < length cs"
proof -
  have "length tried = card (set tried)" using assms(1) by (simp add: distinct_card)
  also have "\<dots> < card (ca_ID ` set cs)" using assms by (intro psubset_card_mono) auto
  also have "\<dots> \<le> length cs" by (meson List.finite_set card_image_le card_length le_trans)
  finally show ?thesis .
qed

lemma dial_loop_step:
  assumes "length tried < length (candidates v)" "selectCandidate v tried (fst (env (length tried))) m = (Some d, m1)"
    and "in_scope v d" "check (ca_EffectivePolicy d) = None" "snd (env (length tried)) d = (o1, t)" "o1 \<noteq> DialTimedOut"
  shows "dial_loop v check env tried m = (if o1 = DialOk then (Inr d, markCandidate v (ca_ID d) False t m1)
     else dial_loop v check env (ca_ID d # tried) (markCandidate v (ca_ID d) True t m1))"
  using assms by (subst dial_loop.simps) (auto simp: in_scope_def split: dial_outcome.splits)

lemma dial_loop_reaches:
  assumes c: "c \<in> set (candidates v)" "distinct (map ca_ID (candidates v))" "list_all (in_scope v) (candidates v)"
    and check: "list_all (\<lambda>d. check (ca_EffectivePolicy d) = None) (candidates v)"
    and env: "\<And>n d. fst (snd (env n) d) \<noteq> DialTimedOut" "\<And>n. fst (snd (env n) c) = DialOk"
    and free: "\<And>n. \<not> resting (fst (env n)) (cand_state v m c)"
    and tried: "ca_ID c \<notin> set tried" "distinct tried" "set tried \<subseteq> ca_ID ` set (candidates v)"
  shows "\<exists>d m'. dial_loop v check env tried m = (Inr d, m') \<and> d \<in> set (candidates v) \<and> health (cand_state v m' d) = (0, None, False)"
  using free tried
proof (induction "length (candidates v) - length tried" arbitrary: tried m rule: less_induct)
  case less
  let ?now = "fst (env (length tried))"
  have lt: "length tried < length (candidates v)" using tried_less less.prems c(1) by blast
  have "avail v tried ?now m c" using less.prems by (simp add: avail_def)
  then obtain d m1 where sel: "selectCandidate v tried ?now m = (Some d, m1)" using select_exists c(1) by blast
  note d = select_some [OF sel]
  obtain r t where dial: "snd (env (length tried)) d = (r, t)" by (cases "snd (env (length tried)) d") auto
  have step: "dial_loop v check env tried m = (if r = DialOk then (Inr d, markCandidate v (ca_ID d) False t m1)
     else dial_loop v check env (ca_ID d # tried) (markCandidate v (ca_ID d) True t m1))"
    using dial_loop_step [where env = env and check = check, OF lt sel _ _ dial] d(1) c(3) check env(1) [of "length tried" d] dial by (simp add: list_all_iff)
  show ?case
  proof (cases "r = DialOk")
    case True then show ?thesis using step d(1) mark_healthy [OF sel] by auto
  next
    case False
    then have "d \<noteq> c" using env(2) [of "length tried"] dial by auto
    then have ne: "ca_ID c \<noteq> ca_ID d" using c(1,2) d(1) by (auto simp: distinct_map inj_on_def)
    let ?m = "markCandidate v (ca_ID d) True t m1"
    have "health (cand_state v ?m c) = health (cand_state v m c)" using d(3) ne by (simp add: cand_state_def)
    then have free': "\<not> resting (fst (env n)) (cand_state v ?m c)" for n using less.prems(1) resting_health by blast
    have "ca_ID d \<notin> set tried" using d(2) by (simp add: avail_def)
    then have "\<exists>e m'. dial_loop v check env (ca_ID d # tried) ?m = (Inr e, m') \<and> e \<in> set (candidates v) \<and> health (cand_state v m' e) = (0, None, False)"
      using less.prems ne d(1) lt free' by (intro less.hyps) auto
    then show ?thesis using step False by simp
  qed
qed

text \<open>A connection is served whenever a healthy candidate accepts it: with the candidates of a rule in the scope the Agent checks, a candidate that is neither resting nor being tried, that the
  policy check admits and whose dial succeeds, the connection ends at some candidate, however many of the others fail before, unless its time is over; and
  the candidate it ends at is all_healthy again.\<close>

theorem connection_reaches_candidate:
  assumes "c \<in> set (candidates v)" "distinct (map ca_ID (candidates v))" "list_all (in_scope v) (candidates v)"
    and "list_all (\<lambda>d. check (ca_EffectivePolicy d) = None) (candidates v)"
    and "\<And>n d. fst (snd (env n) d) \<noteq> DialTimedOut" "\<And>n. fst (snd (env n) c) = DialOk"
    and "\<And>n. \<not> resting (fst (env n)) (cand_state v m c)"
  shows "\<exists>d m'. dialCandidates v check env m = (Inr d, m') \<and> d \<in> set (candidates v)
    \<and> bs_failures (cand_state v m' d) = 0 \<and> bs_until (cand_state v m' d) = None \<and> \<not> bs_probing (cand_state v m' d)"
  using dial_loop_reaches [where tried = "[]" and v = v and check = check and env = env and m = m and c = c] assms
  by (auto simp: dialCandidates_def health_def)

definition dial_demo :: "(candidate \<Rightarrow> dial_outcome) \<Rightarrow> dial_env" where
  "dial_demo dial = (\<lambda>n. (int n, \<lambda>d. (dial d, int n + 1)))"

definition only_b :: "candidate \<Rightarrow> dial_outcome" where
  "only_b d = (if ca_ID d = ''b'' then DialOk else DialFailed)"

text \<open>The preferred candidate refuses, and the connection goes to the other one.\<close>

theorem connection_reaches_candidate_witness:
  "fst (dialCandidates route_rule (\<lambda>_. None :: unit option) (dial_demo only_b) []) = Inr (demo_candidate ''b'' 1)
   \<and> (\<exists>d m'. dialCandidates route_rule (\<lambda>_. None :: unit option) (dial_demo only_b) [] = (Inr d, m') \<and> bs_failures (cand_state route_rule m' d) = 0)"
proof -
  have "fst (dialCandidates route_rule (\<lambda>_. None :: unit option) (dial_demo only_b) []) = Inr (demo_candidate ''b'' 1)" by code_simp
  moreover have "\<exists>d m'. dialCandidates route_rule (\<lambda>_. None :: unit option) (dial_demo only_b) [] = (Inr d, m') \<and> d \<in> set (candidates route_rule)
    \<and> bs_failures (cand_state route_rule m' d) = 0 \<and> bs_until (cand_state route_rule m' d) = None \<and> \<not> bs_probing (cand_state route_rule m' d)"
    by (rule connection_reaches_candidate [where c = "demo_candidate ''b'' 1"])
      (simp_all add: candidates_def in_scope_def demo_candidate_def route_rule_def dial_demo_def only_b_def cand_state_def state_of_def fresh_backend_def resting_def)
  ultimately show ?thesis by blast
qed

section \<open>Fairness\<close>

definition weights :: "failover_rule \<Rightarrow> int" where
  "weights v = (\<Sum>d\<in>set (candidates v). weight d)"

definition all_healthy :: "failover_rule \<Rightarrow> backends \<Rightarrow> bool" where
  "all_healthy v m \<longleftrightarrow> (\<forall>d\<in>set (candidates v). health (cand_state v m d) = (0, None, False))"

lemma healthy_avail: "all_healthy v m \<Longrightarrow> d \<in> set (candidates v) \<Longrightarrow> avail v [] now m d"
  by (auto simp: all_healthy_def avail_def resting_def health_def)

text \<open>The loop over candidates that are all available: every share grows by its weight, and the best has the largest share.\<close>

definition share :: "candidate list \<Rightarrow> candidate \<Rightarrow> int" where
  "share cs d = (\<Sum>c\<leftarrow>cs. if ca_ID c = ca_ID d then weight c else 0)"

lemma share_none: "ca_ID d \<notin> ca_ID ` set cs \<Longrightarrow> share cs d = 0"
  by (induction cs) (auto simp: share_def)

lemma select_loop_all:
  assumes "select_loop v tried now cs m t b = (m', t', b')" "\<forall>d\<in>set cs. avail v tried now m d" "distinct (map ca_ID cs)"
    and "\<forall>x. b = Some x \<longrightarrow> ca_ID x \<notin> ca_ID ` set cs"
  shows "t' = t + sum_list (map weight cs) \<and> (\<forall>d. cur v m' d = cur v m d + share cs d)
    \<and> (\<forall>x. b' = Some x \<longrightarrow> (\<forall>d\<in>set cs \<union> set_option b. cur v m' d \<le> cur v m' x))"
  using assms
proof (induction cs arbitrary: m t b)
  case Nil then show ?case by (auto simp: share_def)
next
  case (Cons c cs)
  let ?m = "bump v c m" and ?b = "pick_best v c (bump v c m) b"
  have av: "avail v tried now m c" using Cons.prems(2) by simp
  have run: "select_loop v tried now cs ?m (t + weight c) ?b = (m', t', b')"
    using Cons.prems(1) av by (simp add: select_loop_Cons avail_def)
  have fresh: "ca_ID c \<notin> ca_ID ` set cs" "distinct (map ca_ID cs)" using Cons.prems(3) by auto
  have IH: "t' = t + weight c + sum_list (map weight cs) \<and> (\<forall>d. cur v m' d = cur v ?m d + share cs d)
    \<and> (\<forall>x. b' = Some x \<longrightarrow> (\<forall>d\<in>set cs \<union> set_option ?b. cur v m' d \<le> cur v m' x))"
    using Cons.prems(2,4) fresh pick_best_cases [of v c ?m b] by (intro Cons.IH [OF run]) auto
  have same: "cur v m' d = cur v ?m d" if "ca_ID d \<notin> ca_ID ` set cs" for d using IH share_none [OF that] by simp
  have "cur v m' c \<le> cur v m' x \<and> (\<forall>y. b = Some y \<longrightarrow> cur v m' y \<le> cur v m' x)" if "b' = Some x" for x
  proof -
    have mx: "cur v m' d \<le> cur v m' x" if "?b = Some d" for d using IH that \<open>b' = Some x\<close> by auto
    show ?thesis
    proof (cases b)
      case None then show ?thesis using mx by (simp add: pick_best_def)
    next
      case (Some y)
      have "ca_ID y \<notin> ca_ID ` set cs" using Cons.prems(4) Some by auto
      then have e: "cur v m' y = cur v ?m y" "cur v m' c = cur v ?m c" using same fresh(1) by auto
      show ?thesis using mx [of y] mx [of c] Some e by (cases "cur v ?m c > cur v ?m y") (simp_all add: pick_best_def)
    qed
  qed
  moreover have "cur v m' d = cur v m d + share (c # cs) d" for d using IH by (simp add: cur_bump share_def)
  ultimately show ?case using IH by auto
qed

lemma share_own: "distinct (map ca_ID cs) \<Longrightarrow> d \<in> set cs \<Longrightarrow> share cs d = weight d"
proof (induction cs)
  case (Cons c cs)
  then show ?case using share_none [of c cs] by (cases "d = c") (auto simp: share_def)
qed simp

lemma select_healthy:
  assumes "all_healthy v m" "distinct (map ca_ID (candidates v))" "candidates v \<noteq> []"
  obtains c m' where "selectCandidate v [] now m = (Some c, m')" "c \<in> set (candidates v)" "all_healthy v m'"
    "\<forall>d\<in>set (candidates v). cur v m' d = cur v m d + weight d - (if d = c then weights v else 0)"
    "\<forall>d\<in>set (candidates v). cur v m d + weight d \<le> cur v m c + weight c"
proof -
  let ?cs = "candidates v"
  obtain m1 t b where l: "select_loop v [] now ?cs m 0 None = (m1, t, b)" by (metis prod_cases3)
  have av: "\<forall>d\<in>set ?cs. avail v [] now m d" using healthy_avail assms(1) by blast
  note all = select_loop_all [OF l av assms(2)]
  have t: "t = weights v" using all assms(2) by (simp add: weights_def sum_list_distinct_conv_sum_set distinct_map)
  obtain c where b: "b = Some c" using select_loop_some [OF l] av assms(3) by (cases "candidates v") auto
  have c: "c \<in> set ?cs" using select_loop_member [OF l] b by auto
  have cur1: "cur v m1 d = cur v m d + weight d" if "d \<in> set ?cs" for d
    using all share_own [OF assms(2) that] by simp
  define m' where "m' = snd (selectCandidate v [] now m)"
  have sel: "selectCandidate v [] now m = (Some c, m')"
    using l b by (simp add: m'_def selectCandidate_def Let_def)
  have eq: "ca_ID d = ca_ID c \<longleftrightarrow> d = c" if "d \<in> set ?cs" for d using assms(2) that c by (auto simp: distinct_map inj_on_def)
  have "cur v m' d = cur v m d + weight d - (if d = c then weights v else 0)" if "d \<in> set ?cs" for d
    using l b t cur1 [OF that] eq [OF that]
    by (auto simp: m'_def selectCandidate_def Let_def cur_def cand_state_def)
  moreover have "all_healthy v m'"
    unfolding all_healthy_def
  proof
    fix d assume d: "d \<in> set ?cs"
    have h: "health (cand_state v m e) = (0, None, False)" if "e \<in> set ?cs" for e using assms(1) that by (simp add: all_healthy_def)
    show "health (cand_state v m' d) = (0, None, False)"
      using select_some(3,4) [OF sel] h [OF d] eq [OF d] by (cases "d = c") (auto simp: cand_state_def)
  qed
  moreover have "\<forall>d\<in>set ?cs. cur v m d + weight d \<le> cur v m c + weight c" using all b c cur1 by force
  ultimately show thesis using that sel c by blast
qed

text \<open>A connection whose dials all succeed is served by the first candidate chosen.\<close>

definition dials_succeed :: "dial_env \<Rightarrow> bool" where
  "dials_succeed env \<longleftrightarrow> (\<forall>n d. fst (snd (env n) d) = DialOk)"

fun serve :: "failover_rule \<Rightarrow> dial_env list \<Rightarrow> backends \<Rightarrow> candidate list \<times> backends" where
  "serve v [] m = ([], m)"
| "serve v (env # envs) m = (case dialBackends v env m of
     (Inl _, m1) \<Rightarrow> serve v envs m1
   | (Inr c, m1) \<Rightarrow> (case serve v envs m1 of (cs, m2) \<Rightarrow> (c # cs, m2)))"

lemma mark_ok_cur [simp]: "bs_current (state_of (markCandidate v ident False t m) k) = bs_current (state_of m k)"
  by (simp add: markCandidate_def Let_def state_of_def split: option.splits)

lemma mark_ok_healthy: "all_healthy v m \<Longrightarrow> all_healthy v (markCandidate v ident False t m)"
  by (auto simp: all_healthy_def markCandidate_def Let_def cand_state_def health_def state_of_def split: option.splits)

lemma dial_healthy:
  assumes "all_healthy v m" "distinct (map ca_ID (candidates v))" "candidates v \<noteq> []" "list_all (in_scope v) (candidates v)" "dials_succeed env"
  obtains c m' where "dialBackends v env m = (Inr c, m')" "c \<in> set (candidates v)" "all_healthy v m'"
    "\<forall>d\<in>set (candidates v). cur v m' d = cur v m d + weight d - (if d = c then weights v else 0)"
    "\<forall>d\<in>set (candidates v). cur v m d + weight d \<le> cur v m c + weight c"
proof -
  obtain c m1 where s: "selectCandidate v [] (fst (env 0)) m = (Some c, m1)" "c \<in> set (candidates v)" "all_healthy v m1"
    "\<forall>d\<in>set (candidates v). cur v m1 d = cur v m d + weight d - (if d = c then weights v else 0)"
    "\<forall>d\<in>set (candidates v). cur v m d + weight d \<le> cur v m c + weight c"
    using select_healthy [OF assms(1-3), of "fst (env 0)"] by metis
  obtain t where "snd (env 0) c = (DialOk, t)" using assms(5) by (metis dials_succeed_def prod.collapse)
  moreover have "in_scope v c" using assms(4) s(2) by (simp add: list_all_iff)
  ultimately have "dialBackends v env m = (Inr c, markCandidate v (ca_ID c) False t m1)"
    using dial_loop_step [where env = env and check = "\<lambda>_. None" and tried = "[]" and v = v and m = m and d = c and ?m1.0 = m1 and ?o1.0 = DialOk and t = t] s(1) assms(3)
    by (simp add: dialBackends_def dialCandidates_def)
  then show thesis using that s mark_ok_healthy [OF s(3)] by (simp add: cur_def cand_state_def)
qed

lemma weights_sum: "candidates v \<noteq> [] \<Longrightarrow> 0 < weights v"
  unfolding weights_def by (rule sum_pos) (auto simp: weight_pos)

lemma largest_share_positive:
  fixes x :: "'a \<Rightarrow> int"
  assumes "finite A" "0 < sum x A" "\<forall>d\<in>A. x d \<le> x c"
  shows "0 < x c"
proof (rule ccontr)
  assume "\<not> 0 < x c"
  then have "sum x A \<le> 0" using assms(3) by (intro sum_nonpos) force
  then show False using assms(2) by simp
qed

definition balanced :: "failover_rule \<Rightarrow> backends \<Rightarrow> bool" where
  "balanced v m \<longleftrightarrow> all_healthy v m \<and> (\<Sum>d\<in>set (candidates v). cur v m d) = 0 \<and> (\<forall>d\<in>set (candidates v). - weights v < cur v m d)"


lemma balanced_step:
  assumes "balanced v m" "distinct (map ca_ID (candidates v))" "candidates v \<noteq> []" "list_all (in_scope v) (candidates v)" "dials_succeed env"
  obtains c m' where "dialBackends v env m = (Inr c, m')" "c \<in> set (candidates v)" "balanced v m'"
    "\<forall>d\<in>set (candidates v). cur v m' d = cur v m d + weight d - (if d = c then weights v else 0)"
proof -
  let ?A = "set (candidates v)"
  have b: "all_healthy v m" "(\<Sum>d\<in>?A. cur v m d) = 0" "\<forall>d\<in>?A. - weights v < cur v m d" using assms(1) by (auto simp: balanced_def)
  obtain c m' where s: "dialBackends v env m = (Inr c, m')" "c \<in> ?A" "all_healthy v m'"
    "\<forall>d\<in>?A. cur v m' d = cur v m d + weight d - (if d = c then weights v else 0)"
    "\<forall>d\<in>?A. cur v m d + weight d \<le> cur v m c + weight c"
    using dial_healthy [OF b(1) assms(2-5)] by metis
  have tot: "(\<Sum>d\<in>?A. cur v m d + weight d) = weights v" using b(2) by (simp add: sum.distrib weights_def)
  have pos: "0 < cur v m c + weight c"
    using largest_share_positive [of ?A "\<lambda>d. cur v m d + weight d" c] tot weights_sum [OF assms(3)] s(5) by simp
  have "(\<Sum>d\<in>?A. cur v m' d) = (\<Sum>d\<in>?A. cur v m d + weight d) - (\<Sum>d\<in>?A. if d = c then weights v else 0)"
    using s(4) by (simp add: sum_subtractf cong: sum.cong)
  then have "(\<Sum>d\<in>?A. cur v m' d) = 0" using tot s(2) by (simp add: sum.delta)
  moreover have "- weights v < cur v m' d" if "d \<in> ?A" for d
    using s(4) that pos b(3) weight_pos [of d] by (cases "d = c") (auto intro: add_strict_increasing2 less_trans)
  ultimately have "balanced v m'" using s(3) by (simp add: balanced_def)
  then show thesis using that s by blast
qed

lemma serve_balanced:
  assumes "distinct (map ca_ID (candidates v))" "candidates v \<noteq> []" "list_all (in_scope v) (candidates v)"
    and "balanced v m" "list_all dials_succeed envs" "serve v envs m = (ps, m')"
  shows "balanced v m' \<and> length ps = length envs \<and> set ps \<subseteq> set (candidates v)
    \<and> (\<forall>d\<in>set (candidates v). cur v m' d = cur v m d + int (length envs) * weight d - int (count_list ps d) * weights v)"
  using assms(4-6)
proof (induction envs arbitrary: m ps)
  case (Cons env envs)
  have "dials_succeed env" using Cons.prems(2) by simp
  then obtain c m1 where s: "dialBackends v env m = (Inr c, m1)" "c \<in> set (candidates v)" "balanced v m1"
    "\<forall>d\<in>set (candidates v). cur v m1 d = cur v m d + weight d - (if d = c then weights v else 0)"
    using balanced_step [OF Cons.prems(1) assms(1-3)] by metis
  obtain qs where q: "serve v envs m1 = (qs, m')" "ps = c # qs" using Cons.prems(3) s(1) by (auto split: prod.splits)
  have IH: "balanced v m' \<and> length qs = length envs \<and> set qs \<subseteq> set (candidates v)
    \<and> (\<forall>d\<in>set (candidates v). cur v m' d = cur v m1 d + int (length envs) * weight d - int (count_list qs d) * weights v)"
    using Cons.IH [OF s(3) _ q(1)] Cons.prems(2) by simp
  have "cur v m' d = cur v m d + int (length (env # envs)) * weight d - int (count_list ps d) * weights v" if "d \<in> set (candidates v)" for d
    using IH [THEN conjunct2, THEN conjunct2, THEN conjunct2, rule_format, OF that] s(4) [rule_format, OF that] q(2) by (cases "c = d") (auto simp: algebra_simps)
  then show ?case using IH s(2) q(2) by simp
qed simp

lemma fair_counts:
  assumes "distinct (map ca_ID (candidates v))" "candidates v \<noteq> []" "list_all (in_scope v) (candidates v)" "list_all dials_succeed envs"
    and start: "\<forall>d\<in>set (candidates v). cand_state v m d = fresh_backend"
    and len: "int (length envs) = weights v" and run: "serve v envs m = (ps, m')" and d: "d \<in> set (candidates v)"
  shows "int (count_list ps d) = weight d \<and> cand_state v m' d = fresh_backend"
proof -
  let ?A = "set (candidates v)"
  have W: "0 < weights v" by (rule weights_sum [OF assms(2)])
  have cur0: "\<forall>e\<in>?A. cur v m e = 0" using start by (simp add: cur_def fresh_backend_def)
  have "balanced v m" using start cur0 W by (auto simp: balanced_def all_healthy_def health_def fresh_backend_def)
  note r = serve_balanced [OF assms(1-3) this assms(4) run]
  have cur1: "cur v m' e = (weight e - int (count_list ps e)) * weights v" if "e \<in> ?A" for e
    using r cur0 that len by (simp add: algebra_simps)
  have le: "int (count_list ps e) \<le> weight e" if "e \<in> ?A" for e
  proof -
    have "- weights v < (weight e - int (count_list ps e)) * weights v" unfolding cur1 [OF that, symmetric] using r that by (auto simp: balanced_def)
    then have "(-1) * weights v < (weight e - int (count_list ps e)) * weights v" by simp
    then have "-1 < weight e - int (count_list ps e)" using W by (subst (asm) mult_less_cancel_right) auto
    then show ?thesis by simp
  qed
  have "(\<Sum>e\<in>?A. count_list ps e) = length ps" using r by (intro sum_count_set) auto
  then have "(\<Sum>e\<in>?A. int (count_list ps e)) = weights v" using r len by (metis of_nat_sum)
  then have "(\<Sum>e\<in>?A. weight e - int (count_list ps e)) = 0" by (simp add: sum_subtractf weights_def)
  then have "\<forall>e\<in>?A. weight e - int (count_list ps e) = 0" using le by (subst (asm) sum_nonneg_eq_0_iff) auto
  then have eq: "int (count_list ps d) = weight d" using d by auto
  then have "cur v m' d = 0" using cur1 [OF d] by simp
  moreover have "health (cand_state v m' d) = (0, None, False)" using r d by (simp add: balanced_def all_healthy_def)
  ultimately show ?thesis using eq by (simp add: cur_def health_def fresh_backend_def)
qed

text \<open>C25: The choice is fair: while all candidates of a rule are healthy, of as many connections as the weights add up to, each candidate serves exactly its weight (at least one), and
  afterwards the table is as before, so the same holds for every further round.\<close>

theorem round_robin_fair:
  assumes "distinct (map ca_ID (candidates v))" "list_all (in_scope v) (candidates v)" "list_all dials_succeed envs"
    and "list_all (\<lambda>c. state_of m (backendKey v (ca_ID c)) = fresh_backend) (candidates v)"
    and "int (length envs) = sum_list (map (\<lambda>c. max 1 (ca_Weight c)) (candidates v))" "serve v envs m = (ps, m')"
  shows "length ps = length envs
    \<and> list_all (\<lambda>c. int (count_list ps c) = max 1 (ca_Weight c) \<and> state_of m' (backendKey v (ca_ID c)) = fresh_backend) (candidates v)"
proof (cases "candidates v = []")
  case True then show ?thesis using assms(5,6) by simp
next
  case False
  have start: "\<forall>d\<in>set (candidates v). cand_state v m d = fresh_backend" using assms(4) by (simp add: list_all_iff cand_state_def)
  have len: "int (length envs) = weights v" using assms(1,5)
    by (simp add: weights_def weight_def [abs_def] sum_list_distinct_conv_sum_set distinct_map)
  note fc = fair_counts [OF assms(1) False assms(2,3) start len assms(6)]
  have "balanced v m" using start weights_sum [OF False]
    by (auto simp: balanced_def all_healthy_def health_def cur_def fresh_backend_def)
  then have "length ps = length envs" using serve_balanced [OF assms(1) False assms(2) _ assms(3,6)] by simp
  then show ?thesis using fc by (simp add: list_all_iff cand_state_def weight_def)
qed


text \<open>Three connections over weights 2 and 1: the candidates take turns, and the table is as at the start.\<close>

theorem round_robin_fair_witness:
  "fst (serve route_rule (replicate 3 (dial_demo (\<lambda>_. DialOk))) []) = [demo_candidate ''a'' 2, demo_candidate ''b'' 1, demo_candidate ''a'' 2]
   \<and> int (count_list (fst (serve route_rule (replicate 3 (dial_demo (\<lambda>_. DialOk))) [])) (demo_candidate ''a'' 2)) = 2"
proof -
  let ?es = "replicate 3 (dial_demo (\<lambda>_. DialOk))"
  obtain ps m' where r: "serve route_rule ?es [] = (ps, m')" by fastforce
  have "fst (serve route_rule ?es []) = [demo_candidate ''a'' 2, demo_candidate ''b'' 1, demo_candidate ''a'' 2]" by code_simp
  moreover have "length ps = length ?es
    \<and> list_all (\<lambda>c. int (count_list ps c) = max 1 (ca_Weight c) \<and> state_of m' (backendKey route_rule (ca_ID c)) = fresh_backend) (candidates route_rule)"
    by (rule round_robin_fair [OF _ _ _ _ _ r])
      (simp_all add: candidates_def in_scope_def demo_candidate_def route_rule_def dial_demo_def dials_succeed_def state_of_def numeral_3_eq_3)
  ultimately show ?thesis using r by (simp add: route_rule_candidates demo_candidate_def)
qed

end
