(* ===== verification/Slots.thy ===== *)
theory Slots
  imports Contract
begin

text \<open>
  The slots of an account on an Agent (\<open>resourcePool\<close> in \<open>internal/agent/limits.go\<close>): how many connections an account holds, from how many addresses.
  Every admitted connection gets a function that gives its slot back; it acts on its first call only. The functions handed out are the list \<open>rp_slots\<close>, each with its
  address and whether it has been called. Reading the address of a peer (\<open>net.SplitHostPort\<close> and \<open>netip.ParseAddr\<close>, unmapped and without its zone) is the argument \<open>parse\<close>.
  The token bucket of the same structure computes with floating-point numbers and the clock, and is left out.
\<close>

record 'ip resourcePool =
  rp_limits :: resource_limits
  rp_connections :: int
  rp_ips :: "('ip, int) gomap"
  rp_slots :: "('ip \<times> bool) list"

definition new_pool :: "'ip resourcePool" where
  "new_pool = \<lparr>rp_limits = no_limits, rp_connections = 0, rp_ips = [], rp_slots = []\<rparr>"

definition pool_configure :: "resource_limits \<Rightarrow> 'ip resourcePool \<Rightarrow> 'ip resourcePool" where
  "pool_configure limits p = p\<lparr>rp_limits := limits\<rparr>"

text \<open>The number of the slot, or None when the connection is refused.\<close>

definition acquire :: "('a \<Rightarrow> 'ip option) \<Rightarrow> 'a \<Rightarrow> 'ip resourcePool \<Rightarrow> nat option \<times> 'ip resourcePool" where
  "acquire parse peer p = (case parse peer of None \<Rightarrow> (None, p) | Some ip \<Rightarrow>
     if rl_MaxConnectionsPerNode (rp_limits p) > 0 \<and> rp_connections p \<ge> rl_MaxConnectionsPerNode (rp_limits p) then (None, p)
     else if rl_MaxIPsPerNode (rp_limits p) > 0 \<and> look0 (rp_ips p) ip = 0 \<and> int (length (rp_ips p)) \<ge> rl_MaxIPsPerNode (rp_limits p) then (None, p)
     else (Some (length (rp_slots p)),
       p\<lparr>rp_connections := rp_connections p + 1, rp_ips := put ip (look0 (rp_ips p) ip + 1) (rp_ips p), rp_slots := rp_slots p @ [(ip, False)]\<rparr>))"

definition release_slot :: "nat \<Rightarrow> 'ip resourcePool \<Rightarrow> 'ip resourcePool" where
  "release_slot n p =
     (if n < length (rp_slots p) then
        (case rp_slots p ! n of (ip, called) \<Rightarrow>
           if called then p
           else let ips = put ip (look0 (rp_ips p) ip - 1) (rp_ips p) in
             p\<lparr>rp_connections := rp_connections p - 1, rp_ips := (if look0 ips ip = 0 then del ip ips else ips), rp_slots := (rp_slots p)[n := (ip, True)]\<rparr>)
      else p)"

section \<open>Counting\<close>

definition held :: "'ip resourcePool \<Rightarrow> 'ip list" where
  "held p = map fst (filter (\<lambda>(ip, called). \<not> called) (rp_slots p))"

text \<open>The counters are exactly the slots that have not been given back.\<close>

definition pool_inv :: "'ip resourcePool \<Rightarrow> bool" where
  "pool_inv p \<longleftrightarrow> distinct_keys (rp_ips p) \<and> rp_connections p = int (length (held p))
     \<and> (\<forall>ip. look0 (rp_ips p) ip = int (count_list (held p) ip)) \<and> (\<forall>ip. has (rp_ips p) ip \<longleftrightarrow> ip \<in> set (held p))"

lemma count_list_update_filter:
  assumes "n < length xs" "xs ! n = (ip, False)"
  shows "int (count_list (map fst (filter (\<lambda>(ip, called). \<not> called) (xs[n := (ip, True)]))) j)
      = int (count_list (map fst (filter (\<lambda>(ip, called). \<not> called) xs)) j) - (if j = ip then 1 else 0)"
    and "length (filter (\<lambda>(ip, called). \<not> called) (xs[n := (ip, True)])) + 1 = length (filter (\<lambda>(ip, called). \<not> called) xs)"
proof -
  have xs: "xs = take n xs @ (ip, False) # drop (n + 1) xs" using assms by (metis Suc_eq_plus1 id_take_nth_drop)
  have up: "xs[n := (ip, True)] = take n xs @ (ip, True) # drop (n + 1) xs" using assms(1) by (simp add: upd_conv_take_nth_drop)
  show "length (filter (\<lambda>(ip, called). \<not> called) (xs[n := (ip, True)])) + 1 = length (filter (\<lambda>(ip, called). \<not> called) xs)"
    unfolding up by (subst (3) xs) simp
  show "int (count_list (map fst (filter (\<lambda>(ip, called). \<not> called) (xs[n := (ip, True)]))) j)
      = int (count_list (map fst (filter (\<lambda>(ip, called). \<not> called) xs)) j) - (if j = ip then 1 else 0)"
    unfolding up by (subst (3) xs) simp
qed

lemma pool_inv_new [simp]: "pool_inv new_pool"
  by (simp add: pool_inv_def new_pool_def held_def look0_def has_def)

lemma pool_inv_configure [simp]: "pool_inv p \<Longrightarrow> pool_inv (pool_configure limits p)"
  by (simp add: pool_inv_def pool_configure_def held_def)

lemma held_acquire:
  assumes "acquire parse peer p = (Some n, q)"
  obtains ip where "parse peer = Some ip" "held q = held p @ [ip]" "rp_connections q = rp_connections p + 1"
    "rp_ips q = put ip (look0 (rp_ips p) ip + 1) (rp_ips p)" "rp_limits q = rp_limits p"
    "rl_MaxConnectionsPerNode (rp_limits p) > 0 \<Longrightarrow> rp_connections p < rl_MaxConnectionsPerNode (rp_limits p)"
    "rl_MaxIPsPerNode (rp_limits p) > 0 \<Longrightarrow> look0 (rp_ips p) ip = 0 \<Longrightarrow> int (length (rp_ips p)) < rl_MaxIPsPerNode (rp_limits p)"
  using assms by (auto simp: acquire_def held_def split: option.splits if_splits)

lemma acquire_refused: "acquire parse peer p = (None, q) \<Longrightarrow> q = p"
  by (auto simp: acquire_def split: option.splits if_splits)

lemma pool_inv_acquire:
  assumes "pool_inv p" "acquire parse peer p = (r, q)"
  shows "pool_inv q"
proof (cases r)
  case None then show ?thesis using assms(1) acquire_refused assms(2) [unfolded None] by metis
next
  case (Some n)
  obtain ip where "held q = held p @ [ip]" "rp_connections q = rp_connections p + 1" "rp_ips q = put ip (look0 (rp_ips p) ip + 1) (rp_ips p)"
    using held_acquire assms(2) Some by metis
  then show ?thesis using assms(1) by (auto simp: pool_inv_def)
qed

lemma pool_inv_release:
  assumes "pool_inv p"
  shows "pool_inv (release_slot n p)"
proof (cases "n < length (rp_slots p) \<and> \<not> snd (rp_slots p ! n)")
  case False then show ?thesis using assms by (auto simp: release_slot_def split: prod.splits)
next
  case True
  then obtain ip where slot: "n < length (rp_slots p)" "rp_slots p ! n = (ip, False)" by (cases "rp_slots p ! n") auto
  define q where "q = release_slot n p"
  let ?ips = "put ip (look0 (rp_ips p) ip - 1) (rp_ips p)"
  have q: "rp_connections q = rp_connections p - 1" "rp_ips q = (if look0 ?ips ip = 0 then del ip ?ips else ?ips)" "rp_slots q = (rp_slots p)[n := (ip, True)]"
    using slot by (simp_all add: q_def release_slot_def Let_def)
  have c: "int (count_list (held q) j) = int (count_list (held p) j) - (if j = ip then 1 else 0)" for j
    using count_list_update_filter(1) [OF slot] by (simp add: held_def q)
  have l: "length (held q) + 1 = length (held p)" using count_list_update_filter(2) [OF slot] by (simp add: held_def q)
  have m: "j \<in> set (held q) \<longleftrightarrow> count_list (held q) j \<noteq> 0" for j by (simp add: count_list_0_iff)
  have m0: "j \<in> set (held p) \<longleftrightarrow> count_list (held p) j \<noteq> 0" for j by (simp add: count_list_0_iff)
  have inv: "distinct_keys (rp_ips p)" "rp_connections p = int (length (held p))" "\<And>j. look0 (rp_ips p) j = int (count_list (held p) j)"
    "\<And>j. has (rp_ips p) j \<longleftrightarrow> j \<in> set (held p)" using assms by (auto simp: pool_inv_def)
  have look: "look0 (rp_ips q) j = int (count_list (held q) j)" for j using inv(3) c by (auto simp: q(2))
  moreover have "has (rp_ips q) j \<longleftrightarrow> j \<in> set (held q)" for j
  proof -
    have "count_list (held p) ip \<noteq> 0" using c [of ip] by simp
    then show ?thesis using inv(3) [of ip] inv(4) c [of j] c [of ip] by (cases "j = ip") (auto simp: q(2) m m0)
  qed
  ultimately show ?thesis using inv(1,2) q(1) l by (auto simp: pool_inv_def q(2) simp flip: q_def)
qed

section \<open>Sequences of operations\<close>

datatype 'a pool_op = Configure resource_limits | Acquire 'a | ReleaseSlot nat

fun pool_run :: "('a \<Rightarrow> 'ip option) \<Rightarrow> 'a pool_op list \<Rightarrow> 'ip resourcePool \<Rightarrow> 'ip resourcePool" where
  "pool_run parse [] p = p"
| "pool_run parse (Configure l # ops) p = pool_run parse ops (pool_configure l p)"
| "pool_run parse (Acquire peer # ops) p = pool_run parse ops (snd (acquire parse peer p))"
| "pool_run parse (ReleaseSlot n # ops) p = pool_run parse ops (release_slot n p)"

lemma pool_run_inv: "pool_inv p \<Longrightarrow> pool_inv (pool_run parse ops p)"
proof (induction parse ops p rule: pool_run.induct)
  case (3 parse peer ops p)
  then show ?case using pool_inv_acquire [of p parse peer] by (metis pool_run.simps(3) prod.collapse)
qed (simp_all add: pool_inv_release)

lemma distinct_ips: "pool_inv p \<Longrightarrow> length (rp_ips p) = card (set (held p))"
proof -
  assume inv: "pool_inv p"
  have "length (rp_ips p) = card (fst ` set (rp_ips p))"
    using inv by (simp add: pool_inv_def distinct_keys_def distinct_card flip: set_map)
  also have "fst ` set (rp_ips p) = set (held p)" using inv by (auto simp: pool_inv_def has_def set_eq_iff map_of_eq_None_iff simp del: not_None_eq)
  finally show ?thesis .
qed


lemma pool_view:
  assumes "pool_inv p"
  shows "rp_connections p = int (length (held p))" "look0 (rp_ips p) ip = 0 \<longleftrightarrow> ip \<notin> set (held p)" "int (length (rp_ips p)) = int (card (set (held p)))"
    "rp_ips p = [] \<longleftrightarrow> held p = []"
proof -
  show "rp_connections p = int (length (held p))" "look0 (rp_ips p) ip = 0 \<longleftrightarrow> ip \<notin> set (held p)"
    using assms by (auto simp: pool_inv_def count_list_0_iff)
  show l: "int (length (rp_ips p)) = int (card (set (held p)))" using distinct_ips [OF assms] by simp
  then show "rp_ips p = [] \<longleftrightarrow> held p = []" by (metis List.finite_set card_0_eq length_0_conv of_nat_eq_iff set_empty)
qed

text \<open>What an account may hold: the list of the addresses of its connections, and a rule for admitting one more.\<close>

definition may_hold :: "resource_limits \<Rightarrow> 'ip list \<Rightarrow> 'ip \<Rightarrow> bool" where
  "may_hold l hs ip \<longleftrightarrow> (rl_MaxConnectionsPerNode l > 0 \<longrightarrow> int (length hs) < rl_MaxConnectionsPerNode l)
     \<and> (rl_MaxIPsPerNode l > 0 \<longrightarrow> ip \<in> set hs \<or> int (card (set hs)) < rl_MaxIPsPerNode l)"

lemma acquire_spec:
  assumes "pool_inv p"
  shows "case parse peer of None \<Rightarrow> acquire parse peer p = (None, p)
     | Some ip \<Rightarrow> if may_hold (rp_limits p) (held p) ip
         then fst (acquire parse peer p) = Some (length (rp_slots p)) \<and> held (snd (acquire parse peer p)) = held p @ [ip]
         else acquire parse peer p = (None, p)"
  using pool_view [OF assms] by (auto simp: acquire_def may_hold_def held_def split: option.splits)

text \<open>C27: After any sequence of admissions, refusals, releases, repeated releases and changes of the limits, the counters of an account are exactly its connections that have not ended: their number, their number per address, and the
  number of addresses. So the next connection is admitted exactly when one more connection is within the limit and its address is already in use or one more address is within the limit; and an account
  whose connections have all ended holds nothing.\<close>

theorem admission_exact:
  assumes "pool_run parse ops new_pool = p" "parse peer = Some ip"
  shows "rp_connections p = int (length (held p)) \<and> look0 (rp_ips p) a = int (count_list (held p) a) \<and> (held p = [] \<longleftrightarrow> rp_ips p = [])
    \<and> (fst (acquire parse peer p) \<noteq> None \<longleftrightarrow> may_hold (rp_limits p) (held p) ip)
    \<and> held (snd (acquire parse peer p)) = (if may_hold (rp_limits p) (held p) ip then held p @ [ip] else held p)"
proof -
  have inv: "pool_inv p" using pool_run_inv [of new_pool parse ops] assms(1) by simp
  have "look0 (rp_ips p) a = int (count_list (held p) a)" using inv by (simp add: pool_inv_def)
  then show ?thesis using pool_view [OF inv] acquire_spec [OF inv, of parse peer] assms(2) by (auto split: if_splits)
qed

definition demo_limits :: resource_limits where
  "demo_limits = \<lparr>rl_MaxRules = 0, rl_MaxConnectionsPerNode = 3, rl_MaxIPsPerNode = 1, rl_BytesPerSecondPerNode = 0\<rparr>"

definition demo_pool :: "nat resourcePool" where
  "demo_pool = pool_run Some [Configure demo_limits, Acquire 7, Acquire 8, Acquire 7, ReleaseSlot 0, ReleaseSlot 0] new_pool"

text \<open>One address is allowed: a second one is refused while the first is in use, and a repeated release takes nothing away.\<close>

theorem admission_exact_witness:
  "held demo_pool = [7] \<and> rp_connections demo_pool = 1 \<and> fst (acquire Some 9 demo_pool) = None \<and> fst (acquire Some 7 demo_pool) \<noteq> None"
proof -
  have h: "held demo_pool = [7]" "rp_limits demo_pool = demo_limits" by code_simp+
  have m: "\<not> may_hold demo_limits [7 :: nat] 9" "may_hold demo_limits [7 :: nat] 7" by code_simp+
  note r = demo_pool_def [symmetric]
  show ?thesis using admission_exact [OF r, of 9 9] admission_exact [OF r, of 7 7] h m by simp
qed

end
