(* ===== verification/Frames.thy ===== *)
theory Frames
  imports Bytes
begin

text \<open>
  The frames of a tunnel between nodes (\<open>Session\<close>, \<open>writeFrame\<close> and \<open>readFrame\<close> in \<open>internal/tunnel/tunnel.go\<close>): a byte for the kind, the length in four
  bytes and the data. A stream is cut into data frames and ends with an end frame, so that one direction can be closed; a packet is one data frame.
  The carrier is the list of the bytes that were sent; \<open>io.ReadFull\<close> finds the end of the carrier when it runs out of them.
\<close>

datatype frame_error = FrameTooLarge | EndOfStream | UnexpectedEnd | InvalidCloseFrame | InvalidDataFrame | PartialFrame

definition maxFrame :: int where "maxFrame = 65535"
definition dataFrame :: "8 word" where "dataFrame = 1"
definition endFrame :: "8 word" where "endFrame = 2"

definition writeFrame :: "8 word \<Rightarrow> bytes \<Rightarrow> frame_error + bytes" where
  "writeFrame kind p = (if int (length p) > maxFrame then Inl FrameTooLarge else Inr (kind # be32 (word_of_nat (length p)) @ p))"

definition ReadFull :: "int \<Rightarrow> bytes \<Rightarrow> bytes \<times> frame_error option \<times> bytes" where
  "ReadFull n inp = (if n \<le> int (length inp) then (take (nat n) inp, None, drop (nat n) inp)
     else (inp, Some (if inp = [] then EndOfStream else UnexpectedEnd), []))"

definition readFrameHeader :: "bytes \<Rightarrow> (frame_error + 8 word \<times> int) \<times> bytes" where
  "readFrameHeader inp = (case ReadFull 5 inp of
     (h, Some e, rest) \<Rightarrow> (Inl e, rest)
   | (h, None, rest) \<Rightarrow> let n = uint (get32 (drop 1 h)) in
       if n > maxFrame then (Inl FrameTooLarge, rest) else (Inr (hd h, n), rest))"

definition readFrame :: "bytes \<Rightarrow> (frame_error + 8 word \<times> bytes) \<times> bytes" where
  "readFrame inp = (case readFrameHeader inp of
     (Inl e, rest) \<Rightarrow> (Inl e, rest)
   | (Inr (k, n), rest) \<Rightarrow> (case ReadFull n rest of
       (p, Some e, rest) \<Rightarrow> (Inl e, rest) | (p, None, rest) \<Rightarrow> (Inr (k, p), rest)))"

section \<open>Sessions\<close>

record session =
  se_in :: bytes
  se_remaining :: int
  se_readErr :: "frame_error option"

definition new_session :: "bytes \<Rightarrow> session" where
  "new_session inp = \<lparr>se_in = inp, se_remaining = 0, se_readErr = None\<rparr>"

lemma ReadFull_length: "ReadFull n inp = (p, None, rest) \<Longrightarrow> 0 \<le> n \<Longrightarrow> int (length rest) = int (length inp) - n"
  by (auto simp: ReadFull_def split: if_splits)

lemma header_length: "readFrameHeader inp = (Inr x, rest) \<Longrightarrow> length rest < length inp"
  using ReadFull_length [of 5 inp] by (auto simp: readFrameHeader_def Let_def split: prod.splits option.splits if_splits)

text \<open>The loop of \<open>Read\<close>: headers are read until a frame has data left or the stream is over.\<close>

function next_frame :: "session \<Rightarrow> session" where
  "next_frame s =
     (if se_remaining s \<noteq> 0 \<or> se_readErr s \<noteq> None then s
      else case readFrameHeader (se_in s) of
        (Inl e, rest) \<Rightarrow> s\<lparr>se_in := rest, se_readErr := Some e\<rparr>
      | (Inr (k, n), rest) \<Rightarrow>
          if k = endFrame then s\<lparr>se_in := rest, se_readErr := Some (if n \<noteq> 0 then InvalidCloseFrame else EndOfStream)\<rparr>
          else if k \<noteq> dataFrame then s\<lparr>se_in := rest, se_readErr := Some InvalidDataFrame\<rparr>
          else next_frame (s\<lparr>se_in := rest, se_remaining := n\<rparr>))"
  by pat_completeness auto
termination
  by (relation "measure (\<lambda>s. length (se_in s))") (auto dest: header_length [OF sym])

declare next_frame.simps [simp del]

definition Session_Read :: "int \<Rightarrow> session \<Rightarrow> bytes \<times> frame_error option \<times> session" where
  "Session_Read room s0 =
     (if room = 0 then ([], None, s0)
      else let s = next_frame s0 in
        if se_readErr s \<noteq> None then ([], se_readErr s, s)
        else case ReadFull (min room (se_remaining s)) (se_in s) of (p, e, rest) \<Rightarrow>
          let e = (if e = Some EndOfStream then Some UnexpectedEnd else e) in
          (p, e, s\<lparr>se_in := rest, se_remaining := se_remaining s - int (length p), se_readErr := e\<rparr>))"

function Session_Write :: "bytes \<Rightarrow> frame_error + bytes" where
  "Session_Write p = (if p = [] then Inr []
     else let n = min (int (length p)) maxFrame in
       bindE (writeFrame dataFrame (take (nat n) p)) (\<lambda>b. bindE (Session_Write (drop (nat n) p)) (\<lambda>rest. Inr (b @ rest))))"
  by pat_completeness auto
termination
  by (relation "measure length") (auto simp: maxFrame_def min_def)

declare Session_Write.simps [simp del]

definition CloseWrite :: "frame_error + bytes" where
  "CloseWrite = writeFrame endFrame []"

definition WritePacket :: "bytes \<Rightarrow> frame_error + bytes" where
  "WritePacket p = writeFrame dataFrame p"

definition ReadPacket :: "session \<Rightarrow> (frame_error + bytes) \<times> session" where
  "ReadPacket s = (case se_readErr s of Some e \<Rightarrow> (Inl e, s) | None \<Rightarrow>
     if se_remaining s \<noteq> 0 then (Inl PartialFrame, s)
     else case readFrame (se_in s) of
       (Inl e, rest) \<Rightarrow> (Inl e, s\<lparr>se_in := rest, se_readErr := Some e\<rparr>)
     | (Inr (k, p), rest) \<Rightarrow>
         if k = endFrame then let e = (if p \<noteq> [] then InvalidCloseFrame else EndOfStream) in (Inl e, s\<lparr>se_in := rest, se_readErr := Some e\<rparr>)
         else if k \<noteq> dataFrame then (Inl InvalidDataFrame, s\<lparr>se_in := rest, se_readErr := Some InvalidDataFrame\<rparr>)
         else (Inr p, s\<lparr>se_in := rest\<rparr>))"


section \<open>Round trips\<close>

definition frame :: "8 word \<Rightarrow> bytes \<Rightarrow> bytes" where
  "frame k p = k # be32 (word_of_nat (length p)) @ p"

definition fits_frame :: "bytes \<Rightarrow> bool" where
  "fits_frame p \<longleftrightarrow> int (length p) \<le> maxFrame"

lemma writeFrame_frame: "fits_frame p \<Longrightarrow> writeFrame k p = Inr (frame k p)"
  by (simp add: writeFrame_def frame_def fits_frame_def)

lemma ReadFull_append: "ReadFull (int (length p)) (p @ rest) = (p, None, rest)"
  by (simp add: ReadFull_def)

lemma readFrameHeader_frame:
  assumes "fits_frame p"
  shows "readFrameHeader (frame k p @ rest) = (Inr (k, int (length p)), p @ rest)"
proof -
  have n: "uint (word_of_nat (length p) :: 32 word) = int (length p)"
    using assms by (simp add: fits_frame_def maxFrame_def unsigned_of_nat take_bit_nat_eq_self_iff flip: of_nat_take_bit)
  have "ReadFull 5 (frame k p @ rest) = (k # be32 (word_of_nat (length p)), None, p @ rest)"
    using ReadFull_append [of "k # be32 (word_of_nat (length p))" "p @ rest"] by (simp add: frame_def)
  then show ?thesis using assms n by (simp add: readFrameHeader_def fits_frame_def)
qed

text \<open>What a session still has to deliver: the rest of the frame it is in, and the data frames up to the end frame.\<close>

definition delivers :: "session \<Rightarrow> bytes \<Rightarrow> bool" where
  "delivers s d \<longleftrightarrow> se_readErr s = None \<and> (\<exists>body ws. list_all fits_frame ws \<and> d = body @ concat ws \<and> se_remaining s = int (length body)
     \<and> se_in s = body @ concat (map (frame dataFrame) ws) @ frame endFrame [])"

lemma frame_kinds [simp]: "dataFrame \<noteq> endFrame" "endFrame \<noteq> dataFrame" "fits_frame []"
  by (simp_all add: dataFrame_def endFrame_def fits_frame_def maxFrame_def)

lemma next_frame_delivers:
  "delivers s d \<Longrightarrow> if d = [] then se_readErr (next_frame s) = Some EndOfStream else delivers (next_frame s) d \<and> 0 < se_remaining (next_frame s)"
proof (induction s rule: next_frame.induct)
  case (1 s)
  obtain body ws where s: "se_readErr s = None" "list_all fits_frame ws" "d = body @ concat ws" "se_remaining s = int (length body)"
     "se_in s = body @ concat (map (frame dataFrame) ws) @ frame endFrame []" using 1(2) unfolding delivers_def by blast
  show ?case
  proof (cases "body = []")
    case False then have "next_frame s = s" using s(4) by (subst next_frame.simps) simp
    then show ?thesis using s 1(2) False by simp
  next
    case True
    show ?thesis
    proof (cases ws)
      case Nil
      have "readFrameHeader (se_in s) = (Inr (endFrame, 0), [])" using s(5) True Nil readFrameHeader_frame [of "[]" endFrame "[]"] by simp
      then have "se_readErr (next_frame s) = Some EndOfStream" using s True by (subst next_frame.simps) simp
      then show ?thesis using s(3) True Nil by simp
    next
      case (Cons w ws')
      let ?s = "s\<lparr>se_in := w @ concat (map (frame dataFrame) ws') @ frame endFrame [], se_remaining := int (length w)\<rparr>"
      have h: "readFrameHeader (se_in s) = (Inr (dataFrame, int (length w)), w @ concat (map (frame dataFrame) ws') @ frame endFrame [])"
        using s(2,5) True Cons readFrameHeader_frame [of w dataFrame "concat (map (frame dataFrame) ws') @ frame endFrame []"] by simp
      have step: "next_frame s = next_frame ?s" using h s(1,4) True by (subst next_frame.simps) simp
      have "delivers ?s d" unfolding delivers_def using s Cons True by auto
      then show ?thesis using 1(1) [OF _ h [symmetric] refl refl] s(1,4) True step by simp
    qed
  qed
qed


lemma Session_Read_delivers:
  assumes "delivers s d" "0 < room"
  obtains (over) s' where "d = []" "Session_Read room s = ([], Some EndOfStream, s')"
    | (more) k s' where "0 < k" "int k \<le> room" "k \<le> length d" "Session_Read room s = (take k d, None, s')" "delivers s' (drop k d)"
proof (cases "d = []")
  case True
  then have e: "se_readErr (next_frame s) = Some EndOfStream" using next_frame_delivers [OF assms(1)] by simp
  then have "Session_Read room s = ([], Some EndOfStream, next_frame s)" using assms(2) by (simp add: Session_Read_def Let_def)
  then show thesis by (rule over [OF True])
next
  case False
  then have n: "delivers (next_frame s) d" "0 < se_remaining (next_frame s)" using next_frame_delivers [OF assms(1)] by simp_all
  then obtain body ws where t: "se_readErr (next_frame s) = None" "list_all fits_frame ws" "d = body @ concat ws" "se_remaining (next_frame s) = int (length body)"
     "se_in (next_frame s) = body @ concat (map (frame dataFrame) ws) @ frame endFrame []" unfolding delivers_def by blast
  define k where "k = nat (min room (int (length body)))"
  have k: "int k = min room (int (length body))" "0 < k" "k \<le> length body" using assms(2) n(2) t(4) by (simp_all add: k_def)
  let ?t = "(next_frame s)\<lparr>se_in := drop k body @ concat (map (frame dataFrame) ws) @ frame endFrame [], se_remaining := int (length (drop k body)), se_readErr := None\<rparr>"
  have "ReadFull (min room (se_remaining (next_frame s))) (se_in (next_frame s)) = (take k body, None, drop k body @ concat (map (frame dataFrame) ws) @ frame endFrame [])"
    using k t(4,5) by (simp add: ReadFull_def flip: k(1))
  then have "Session_Read room s = (take k d, None, ?t)"
    using assms(2) t(1,3,4) k by (simp add: Session_Read_def Let_def)
  moreover have "delivers ?t (drop k d)" unfolding delivers_def
    using t(2,3) k(3) by (intro conjI exI [of _ "drop k body"] exI [of _ ws]) auto
  ultimately show thesis using more k t(3) by auto
qed

text \<open>Reading with buffers of the given sizes until an error: what arrived, and the error.\<close>

fun Session_Reads :: "int list \<Rightarrow> session \<Rightarrow> bytes \<times> frame_error option" where
  "Session_Reads [] s = ([], None)"
| "Session_Reads (room # rooms) s = (case Session_Read room s of
     (p, Some e, s') \<Rightarrow> (p, Some e)
   | (p, None, s') \<Rightarrow> (case Session_Reads rooms s' of (q, e) \<Rightarrow> (p @ q, e)))"

fun ReadPackets :: "nat \<Rightarrow> session \<Rightarrow> bytes list \<times> frame_error option" where
  "ReadPackets 0 s = ([], None)"
| "ReadPackets (Suc n) s = (case ReadPacket s of
     (Inl e, s') \<Rightarrow> ([], Some e)
   | (Inr p, s') \<Rightarrow> (case ReadPackets n s' of (ps, e) \<Rightarrow> (p # ps, e)))"

lemma Session_Reads_prefix:
  assumes "delivers s d" "list_all (\<lambda>r. 0 < r) rooms"
  shows "\<exists>q e. Session_Reads rooms s = (take q d, e) \<and> (e = None \<or> e = Some EndOfStream \<and> take q d = d) \<and> (length d < length rooms \<longrightarrow> e = Some EndOfStream)"
  using assms
proof (induction rooms arbitrary: s d)
  case Nil then show ?case by (auto intro: exI [of _ 0])
next
  case (Cons room rooms)
  have "0 < room" using Cons.prems(2) by simp
  with Cons.prems(1) show ?case
  proof (cases rule: Session_Read_delivers)
    case (over s') then show ?thesis by simp
  next
    case (more k s')
    obtain q e where IH: "Session_Reads rooms s' = (take q (drop k d), e)" "e = None \<or> e = Some EndOfStream \<and> take q (drop k d) = drop k d"
      "length (drop k d) < length rooms \<longrightarrow> e = Some EndOfStream"
      using Cons.IH [OF more(5)] Cons.prems(2) by auto
    have "Session_Reads (room # rooms) s = (take (k + q) d, e)" using more(4) IH(1) by (simp add: take_add)
    moreover have "e = None \<or> e = Some EndOfStream \<and> take (k + q) d = d" using IH(2) by (auto simp: take_add)
    moreover have "length d < length (room # rooms) \<longrightarrow> e = Some EndOfStream" using IH(3) more(1,3) by auto
    ultimately show ?thesis by blast
  qed
qed


lemma Session_Write_frames:
  "\<exists>ws. Session_Write p = Inr (concat (map (frame dataFrame) ws)) \<and> list_all fits_frame ws \<and> concat ws = p"
proof (induction p rule: Session_Write.induct)
  case (1 p)
  show ?case
  proof (cases "p = []")
    case True then show ?thesis by (subst Session_Write.simps) (auto intro: exI [of _ "[]"])
  next
    case False
    let ?n = "nat (min (int (length p)) maxFrame)"
    have fit: "fits_frame (take ?n p)" by (simp add: fits_frame_def maxFrame_def)
    obtain ws where IH: "Session_Write (drop ?n p) = Inr (concat (map (frame dataFrame) ws))" "list_all fits_frame ws" "concat ws = drop ?n p"
      using 1 [OF False refl] writeFrame_frame [OF fit] by blast
    have "Session_Write p = Inr (concat (map (frame dataFrame) (take ?n p # ws)))"
      using False IH(1) writeFrame_frame [OF fit] by (subst Session_Write.simps) (simp add: Let_def)
    then show ?thesis using IH(2,3) fit by (intro exI [of _ "take ?n p # ws"]) simp
  qed
qed

fun send :: "(bytes \<Rightarrow> frame_error + bytes) \<Rightarrow> bytes list \<Rightarrow> frame_error + bytes" where
  "send write [] = CloseWrite"
| "send write (p # ps) = bindE (write p) (\<lambda>b. bindE (send write ps) (\<lambda>rest. Inr (b @ rest)))"

lemma CloseWrite_frame: "CloseWrite = Inr (frame endFrame [])"
  by (simp add: CloseWrite_def writeFrame_frame)

lemma send_stream:
  "\<exists>ws. send Session_Write ps = Inr (concat (map (frame dataFrame) ws) @ frame endFrame []) \<and> list_all fits_frame ws \<and> concat ws = concat ps"
proof (induction ps)
  case Nil then show ?case by (intro exI [of _ "[]"]) (simp add: CloseWrite_frame)
next
  case (Cons p ps)
  obtain ws vs where "send Session_Write ps = Inr (concat (map (frame dataFrame) ws) @ frame endFrame [])" "list_all fits_frame ws" "concat ws = concat ps"
    "Session_Write p = Inr (concat (map (frame dataFrame) vs))" "list_all fits_frame vs" "concat vs = p"
    using Cons.IH Session_Write_frames [of p] by blast
  then show ?case by (intro exI [of _ "vs @ ws"]) simp
qed

lemma send_packets: "list_all fits_frame ps \<Longrightarrow> send WritePacket ps = Inr (concat (map (frame dataFrame) ps) @ frame endFrame [])"
  by (induction ps) (simp_all add: CloseWrite_frame WritePacket_def writeFrame_frame)

lemma readFrame_frame: "fits_frame p \<Longrightarrow> readFrame (frame k p @ rest) = (Inr (k, p), rest)"
  using ReadFull_append [of p rest] by (simp add: readFrame_def readFrameHeader_frame)

lemma ReadPackets_all:
  assumes "list_all fits_frame ps"
  shows "ReadPackets (Suc (length ps)) \<lparr>se_in = concat (map (frame dataFrame) ps) @ frame endFrame [], se_remaining = 0, se_readErr = None\<rparr> = (ps, Some EndOfStream)"
  using assms
proof (induction ps)
  case Nil
  then show ?case using readFrame_frame [of "[]" endFrame "[]"] by (simp add: ReadPacket_def)
next
  case (Cons p ps)
  have "ReadPacket \<lparr>se_in = concat (map (frame dataFrame) (p # ps)) @ frame endFrame [], se_remaining = 0, se_readErr = None\<rparr>
    = (Inr p, \<lparr>se_in = concat (map (frame dataFrame) ps) @ frame endFrame [], se_remaining = 0, se_readErr = None\<rparr>)"
    using Cons.prems readFrame_frame [of p dataFrame "concat (map (frame dataFrame) ps) @ frame endFrame []"] by (simp add: ReadPacket_def)
  then show ?case using Cons by (subst ReadPackets.simps) (simp del: ReadPackets.simps)
qed

text \<open>C28: A tunnel carries a stream and its end: whatever pieces are written, of any size, they can always be sent, and a reader with buffers of any sizes receives the same bytes in the
  same order, with no end of the stream before all of them; with one buffer more than there are bytes it has received everything and the end. Packets that fit a
  frame arrive one by one, with their boundaries.\<close>

theorem session_roundtrip:
  assumes "list_all (\<lambda>r. 0 < r) rooms" "list_all (\<lambda>p. int (length p) \<le> 65535) packets"
  shows "(\<exists>sent n e. send Session_Write pieces = Inr sent \<and> Session_Reads rooms (new_session sent) = (take n (concat pieces), e)
      \<and> (if length (concat pieces) < length rooms then e = Some EndOfStream \<and> take n (concat pieces) = concat pieces
         else e = None \<or> e = Some EndOfStream \<and> take n (concat pieces) = concat pieces))
    \<and> (\<exists>sent. send WritePacket packets = Inr sent \<and> ReadPackets (length packets + 1) (new_session sent) = (packets, Some EndOfStream))"
proof
  obtain ws where w: "send Session_Write pieces = Inr (concat (map (frame dataFrame) ws) @ frame endFrame [])" "list_all fits_frame ws" "concat ws = concat pieces"
    using send_stream by blast
  have "delivers (new_session (concat (map (frame dataFrame) ws) @ frame endFrame [])) (concat pieces)"
    unfolding delivers_def new_session_def using w(2,3) by (auto intro: exI [of _ "[]"] exI [of _ ws])
  from Session_Reads_prefix [OF this assms(1)] w(1)
  show "\<exists>sent n e. send Session_Write pieces = Inr sent \<and> Session_Reads rooms (new_session sent) = (take n (concat pieces), e)
      \<and> (if length (concat pieces) < length rooms then e = Some EndOfStream \<and> take n (concat pieces) = concat pieces
         else e = None \<or> e = Some EndOfStream \<and> take n (concat pieces) = concat pieces)" by auto
  have "list_all fits_frame packets" using assms(2) by (simp add: fits_frame_def [abs_def] maxFrame_def)
  then show "\<exists>sent. send WritePacket packets = Inr sent \<and> ReadPackets (length packets + 1) (new_session sent) = (packets, Some EndOfStream)"
    using send_packets ReadPackets_all by (simp add: new_session_def del: ReadPackets.simps)
qed

text \<open>Three bytes in two pieces, read with buffers of two bytes.\<close>

theorem session_roundtrip_witness:
  "(\<exists>sent. send Session_Write [[1, 2], [3]] = Inr sent \<and> Session_Reads [2, 2, 2, 2] (new_session sent) = ([1, 2, 3], Some EndOfStream))
    \<and> (\<exists>sent. send WritePacket [[7], []] = Inr sent \<and> ReadPackets 3 (new_session sent) = ([[7], []], Some EndOfStream))"
proof -
  note t = session_roundtrip [of "[2, 2, 2, 2]" "[[7], []]" "[[1, 2], [3]]"]
  have n: "ReadPackets 3 = ReadPackets (length [[7 :: 8 word], []] + 1)" by (simp add: numeral_3_eq_3)
  show ?thesis using t unfolding n by (auto simp del: send.simps Session_Reads.simps ReadPackets.simps)
qed

end
