(* ===== verification/Exit.thy ===== *)
theory Exit
  imports Failover
begin

text \<open>
  An exit node of a tunnel (\<open>internal/tunnel/chain.go\<close>, \<open>group_policy.go\<close>, \<open>serveRequest\<close> in \<open>tunnel.go\<close> and \<open>open\<close> in \<open>mux.go\<close>): which requests it accepts, and what it
  does with them: connect to the target, pass the request on to the next exit of a chain, or hand it to an exit that has connected to it in reverse.

  What is inspected in the bytes of a connection, and whether a dial succeeds, are arguments. The client that a server passes requests on with carries only its TLS settings (the servers are made so in
  \<open>service_manager.go\<close> and \<open>cmd/agent/main.go\<close>). Parsing a URL, lower case and parsing an address are arguments (\<open>hop_env\<close>).
\<close>

section \<open>Requests and servers\<close>

record tunnel_hop =
  th_Transport :: string
  th_Endpoint :: string
  th_ServerName :: string
  th_Token :: string
  th_PreferIPv6 :: bool
  th_Inspect :: bool
  th_StagedInspection :: bool

record openRequest =
  or_StagedInspection :: bool
  or_Business :: "business_inbound option"
  or_RuleID :: string
  or_Inspect :: bool
  or_Version :: int
  or_Token :: string
  or_Network :: string
  or_Target :: string
  or_Chain :: "tunnel_hop list"
  or_Visited :: "string list"
  or_Reverse :: string

record service_target =
  st_Business :: "business_inbound option"
  st_RuleID :: string
  st_Network :: string
  st_Target :: string

record service_grant =
  sg_Identity :: string
  sg_StreamToken :: string
  sg_Token :: string
  sg_Targets :: "service_target list"

record targetState =
  ts_failures :: int
  ts_until :: "gotime option"
  ts_probing :: bool

record exit_server =
  xs_Managed :: bool
  xs_Grants :: "service_grant list"
  xs_Policy :: "effective_policy option"
  xs_Token :: string
  xs_NextHops :: "tunnel_hop list"
  xs_SecureDirect :: bool
  xs_NodeID :: string
  xs_targets :: "(string, targetState) gomap"

record parsed_url =
  pu_Scheme :: string
  pu_User :: bool
  pu_Host :: string
  pu_Fragment :: string
  pu_Port :: string
  pu_Hostname :: string

record hop_env =
  he_Parse :: "string \<Rightarrow> parsed_url option"
  he_ToLower :: "string \<Rightarrow> string"
  he_ParseAddr :: "string \<Rightarrow> string option"

datatype exit_error = InvalidEndpoint | UnsupportedTransport | InvalidAddress | InvalidHopPort | TooManyExits | ShortToken | ChainCycle
  | ChainVersion | NoIdentity | RepeatedIdentity | CircuitCapacity | TargetCooling | NotDirect

section \<open>Chains\<close>

definition JoinHostPort :: "string \<Rightarrow> string \<Rightarrow> string" where
  "JoinHostPort host port = (if CHR '':'' \<in> set host then ''['' @ host @ '']:'' @ port else host @ '':'' @ port)"

text \<open>\<open>strconv.Atoi\<close>, as far as a port needs it.\<close>

definition port_number :: "string \<Rightarrow> nat option" where
  "port_number port = (let ds = TrimPrefix ''+'' port in
     if ds \<noteq> '''' \<and> list_all is_digit ds \<and> 1 \<le> digits_val 0 ds \<and> int (digits_val 0 ds) \<le> 65535 then Some (digits_val 0 ds) else None)"

definition ws_address :: "hop_env \<Rightarrow> tunnel_hop \<Rightarrow> exit_error + string" where
  "ws_address he h = (case he_Parse he (th_Endpoint h) of None \<Rightarrow> Inl InvalidEndpoint
     | Some u \<Rightarrow> if pu_Scheme u \<noteq> th_Transport h \<or> pu_User u \<or> pu_Host u = '''' \<or> pu_Fragment u \<noteq> '''' then Inl InvalidEndpoint
         else if pu_Port u = '''' then Inr (JoinHostPort (pu_Hostname u) (if th_Transport h = ''wss'' then ''443'' else ''80''))
         else Inr (pu_Host u))"

definition hopAddress :: "hop_env \<Rightarrow> tunnel_hop \<Rightarrow> exit_error + string" where
  "hopAddress he h = bindE
     (if th_Transport h \<in> set [''tls'', ''tls_simple'', ''http'', ''secure-direct''] then Inr (th_Endpoint h)
      else if th_Transport h \<in> set [''ws'', ''wss''] then ws_address he h
      else Inl UnsupportedTransport) (\<lambda>address.
     case SplitHostPort address of None \<Rightarrow> Inl InvalidAddress | Some (host, port) \<Rightarrow>
       if host = '''' \<or> port = '''' then Inl InvalidAddress
       else case port_number port of None \<Rightarrow> Inl InvalidHopPort | Some p \<Rightarrow>
         let host = TrimSuffix ''.'' (he_ToLower he host);
             host = (case he_ParseAddr he host of Some ip \<Rightarrow> ip | None \<Rightarrow> host) in
         Inr (JoinHostPort host (show_nat p)))"

fun chain_loop :: "hop_env \<Rightarrow> string list \<Rightarrow> tunnel_hop list \<Rightarrow> exit_error option" where
  "chain_loop he seen [] = None"
| "chain_loop he seen (h # hs) = (case hopAddress he h of Inl e \<Rightarrow> Some e
     | Inr address \<Rightarrow> if length (th_Token h) < 16 then Some ShortToken
         else if address \<in> set seen then Some ChainCycle
         else chain_loop he (address # seen) hs)"

definition ValidateChain :: "hop_env \<Rightarrow> tunnel_hop \<Rightarrow> tunnel_hop list \<Rightarrow> exit_error option" where
  "ValidateChain he first remaining = (if length remaining > 2 then Some TooManyExits else chain_loop he [] (first # remaining))"

definition validNodeID :: "string \<Rightarrow> bool" where
  "validNodeID ident \<longleftrightarrow> ident \<noteq> '''' \<and> length ident \<le> 128 \<and> TrimSpace ident = ident"

fun visited_ok :: "string list \<Rightarrow> string list \<Rightarrow> bool" where
  "visited_ok seen [] = True"
| "visited_ok seen (ident # ids) = (if \<not> validNodeID ident \<or> ident \<in> set seen then False else visited_ok (ident # seen) ids)"

definition validateRoute :: "hop_env \<Rightarrow> exit_server \<Rightarrow> openRequest \<Rightarrow> exit_error option" where
  "validateRoute he s req =
     (if or_Version req = 1 then (if or_Chain req \<noteq> [] \<or> or_Visited req \<noteq> [] then Some ChainVersion else None)
      else if \<not> validNodeID (xs_NodeID s) then Some NoIdentity
      else if length (or_Visited req) + length (or_Chain req) + 1 > 3 then Some TooManyExits
      else if \<not> visited_ok [xs_NodeID s] (or_Visited req) then Some RepeatedIdentity
      else case or_Chain req of [] \<Rightarrow> None | h # hs \<Rightarrow> ValidateChain he h hs)"

definition authorizedNext :: "exit_server \<Rightarrow> tunnel_hop \<Rightarrow> tunnel_hop option" where
  "authorizedNext s requested = find (\<lambda>allowed. th_Transport allowed = th_Transport requested \<and> th_Endpoint allowed = th_Endpoint requested
     \<and> th_ServerName allowed = th_ServerName requested \<and> th_Token allowed = th_Token requested) (xs_NextHops s)"

section \<open>Who may open what\<close>

text \<open>What one grant says to a request: None where the loop goes on with the next grant.\<close>

definition grant_verdict :: "openRequest \<Rightarrow> service_grant \<Rightarrow> bool option" where
  "grant_verdict req g =
     (if or_Network req = ''reverse'' then (if or_Target req = sg_Identity g \<and> or_Token req = sg_Token g then Some True else None)
      else if or_Token req \<noteq> sg_StreamToken g then None
      else if or_Reverse req \<noteq> '''' \<and> or_Reverse req \<noteq> sg_Identity g then None
      else if or_Network req = ''mux'' then Some (or_Target req = '''')
      else if list_ex (\<lambda>t. st_RuleID t = or_RuleID req \<and> st_Network t = or_Network req \<and> st_Target t = or_Target req \<and> st_Business t = or_Business req) (sg_Targets g)
      then Some True else None)"

fun grants_loop :: "openRequest \<Rightarrow> service_grant list \<Rightarrow> bool" where
  "grants_loop req [] = False"
| "grants_loop req (g # gs) = (case grant_verdict req g of Some b \<Rightarrow> b | None \<Rightarrow> grants_loop req gs)"

definition authorized :: "exit_server \<Rightarrow> openRequest \<Rightarrow> bool" where
  "authorized s req = (if xs_Grants s = [] then \<not> xs_Managed s \<and> or_Business req = None \<and> or_Token req = xs_Token s
     else grants_loop req (xs_Grants s))"

section \<open>The circuit breaker of an exit\<close>

definition target_key :: "openRequest \<Rightarrow> string" where
  "target_key req = or_RuleID req @ ''|'' @ or_Target req @ ''|'' @ or_Reverse req @ (case or_Chain req of [] \<Rightarrow> '''' | h # _ \<Rightarrow> ''|'' @ th_Endpoint h)"

definition server_failover :: "exit_server \<Rightarrow> failover_policy option" where
  "server_failover s = (case xs_Policy s of None \<Rightarrow> None | Some p \<Rightarrow> ep_Failover p)"

definition target_resting :: "gotime \<Rightarrow> targetState \<Rightarrow> bool" where
  "target_resting now st \<longleftrightarrow> (case ts_until st of None \<Rightarrow> False | Some u \<Rightarrow> now < u) \<or> ts_probing st"

text \<open>\<open>targetAttempt\<close> up to the function it returns; the attempt is then reported by \<open>finish_attempt\<close>.\<close>

definition targetAttempt :: "openRequest \<Rightarrow> gotime \<Rightarrow> exit_server \<Rightarrow> exit_error option \<times> exit_server" where
  "targetAttempt req now s = (case server_failover s of None \<Rightarrow> (None, s) | Some f \<Rightarrow>
     let key = target_key req in
     case (case map_of (xs_targets s) key of Some st \<Rightarrow> Some st
           | None \<Rightarrow> if length (xs_targets s) \<ge> 4096 then None else Some \<lparr>ts_failures = 0, ts_until = None, ts_probing = False\<rparr>) of
       None \<Rightarrow> (Some CircuitCapacity, s)
     | Some st \<Rightarrow> if target_resting now st then (Some TargetCooling, s\<lparr>xs_targets := put key st (xs_targets s)\<rparr>)
         else (None, s\<lparr>xs_targets := put key (st\<lparr>ts_probing := ts_until st \<noteq> None\<rparr>) (xs_targets s)\<rparr>))"

definition finish_attempt :: "failover_policy \<Rightarrow> string \<Rightarrow> bool \<Rightarrow> gotime \<Rightarrow> exit_server \<Rightarrow> exit_server" where
  "finish_attempt f key failed now s = (case map_of (xs_targets s) key of None \<Rightarrow> s | Some st \<Rightarrow>
     s\<lparr>xs_targets := put key
       (if \<not> failed then st\<lparr>ts_probing := False, ts_failures := 0, ts_until := None\<rparr>
        else st\<lparr>ts_probing := False, ts_failures := ts_failures st + 1,
          ts_until := (if ts_failures st + 1 \<ge> max 1 (fp_MaxFail f) then Some (now + max 1 (fp_CooldownSec f) * 1000000000) else ts_until st)\<rparr>) (xs_targets s)\<rparr>)"

section \<open>Passing a request on\<close>

text \<open>The request that a client opens on a connection.\<close>

definition opened :: "bool \<Rightarrow> bool \<Rightarrow> business_inbound option \<Rightarrow> string \<Rightarrow> string \<Rightarrow> string \<Rightarrow> string \<Rightarrow> tunnel_hop list \<Rightarrow> string list \<Rightarrow> string \<Rightarrow> openRequest" where
  "opened inspection staged0 business ruleID token network target chain visited back =
     (let staged = network = ''tcp'' \<and> (staged0 \<or> (case business of None \<Rightarrow> False | Some b \<Rightarrow> \<not> bi_WebSocket b));
          version1 = (if chain \<noteq> [] \<or> visited \<noteq> [] then 2 else 1);
          version2 = (if inspection \<and> network = ''tcp'' then 3 else version1);
          version = (if (business \<noteq> None \<or> staged) \<and> network = ''tcp'' then 4 else version2) in
      \<lparr>or_StagedInspection = staged, or_Business = business, or_RuleID = ruleID,
       or_Inspect = ((inspection \<or> business \<noteq> None \<or> staged) \<and> network = ''tcp''), or_Version = version, or_Token = token, or_Network = network,
       or_Target = target, or_Chain = chain, or_Visited = visited, or_Reverse = back\<rparr>)"

text \<open>What becomes of a request: it is refused, or its connection carries further streams, or the exit dials the target, a reverse exit or the next exit; \<open>DialError\<close> is a next exit that the
  client refuses to dial. The result of dialling is reported by \<open>finish_attempt\<close>.\<close>

datatype exit_action = Refused | Multiplexed | DialError | ToTarget | ToReverse string openRequest | ToNext tunnel_hop openRequest

text \<open>The checks of \<open>serveRequest\<close> before it inspects the connection.\<close>

definition request_ok :: "hop_env \<Rightarrow> exit_server \<Rightarrow> openRequest \<Rightarrow> bool" where
  "request_ok he s req \<longleftrightarrow> (or_Network req = ''tcp'' \<or> or_Network req = ''udp'')
     \<and> \<not> (or_Business req \<noteq> None \<and> (or_Version req \<noteq> 4 \<or> or_Network req \<noteq> ''tcp'' \<or> \<not> or_Inspect req))
     \<and> \<not> (or_StagedInspection req \<and> (or_Version req \<noteq> 4 \<or> or_Network req \<noteq> ''tcp'' \<or> \<not> or_Inspect req))
     \<and> SplitHostPort (or_Target req) \<noteq> None \<and> validateRoute he s req = None
     \<and> (let layers = (case xs_Policy s of None \<Rightarrow> [] | Some p \<Rightarrow> ep_InboundLayers p) in
         \<not> (or_Network req = ''tcp'' \<and> NeedsInspect layers \<and> (or_Version req \<noteq> 3 \<and> or_Version req \<noteq> 4 \<or> \<not> or_Inspect req)))
     \<and> \<not> (or_Inspect req \<and> (or_Version req \<noteq> 3 \<and> or_Version req \<noteq> 4 \<or> or_Network req \<noteq> ''tcp''))"

definition forward :: "exit_server \<Rightarrow> tunnel_hop \<Rightarrow> openRequest \<Rightarrow> exit_action" where
  "forward s hop req =
     (let visited = or_Visited req @ [xs_NodeID s] in
      if th_Transport hop = ''secure-direct'' \<and> (or_Network req \<noteq> ''tcp'' \<or> tl (or_Chain req) \<noteq> [] \<or> visited \<noteq> []) then DialError
      else ToNext hop (opened (th_Inspect hop) (th_StagedInspection hop) (or_Business req) (or_RuleID req) (th_Token hop) (or_Network req) (or_Target req)
        (tl (or_Chain req)) visited ''''))"

definition serveRequest :: "hop_env \<Rightarrow> bool \<Rightarrow> (openRequest \<Rightarrow> bool) \<Rightarrow> gotime \<Rightarrow> exit_server \<Rightarrow> openRequest \<Rightarrow> exit_action \<times> exit_server" where
  "serveRequest he special inspected now s req =
     (if or_Version req \<notin> set [1, 2, 3, 4] \<or> \<not> authorized s req then (Refused, s)
      else if xs_SecureDirect s \<and> (or_Network req = ''mux'' \<or> or_Network req = ''reverse'' \<or> or_Network req = ''udp'' \<or> or_Chain req \<noteq> []
        \<or> or_Visited req \<noteq> [] \<or> or_Reverse req \<noteq> '''') then (Refused, s)
      else if special \<and> (or_Network req = ''mux'' \<or> or_Network req = ''reverse'') then (Multiplexed, s)
      else if \<not> request_ok he s req \<or> or_Inspect req \<and> \<not> inspected req then (Refused, s)
      else case (case or_Chain req of [] \<Rightarrow> Some None | h # _ \<Rightarrow> map_option Some (authorizedNext s h)) of
        None \<Rightarrow> (Refused, s)
      | Some hop \<Rightarrow>
          if or_Reverse req \<noteq> '''' \<and> or_Chain req \<noteq> [] then (Refused, s)
          else case targetAttempt req now s of
            (Some e, s') \<Rightarrow> (Refused, s')
          | (None, s') \<Rightarrow>
              (if or_Reverse req \<noteq> '''' then ToReverse (or_Reverse req) (opened (or_Inspect req) (or_StagedInspection req) (or_Business req) (or_RuleID req)
                  (or_Token req) (or_Network req) (or_Target req) [] [] '''')
               else case hop of None \<Rightarrow> ToTarget | Some h \<Rightarrow> forward s h req, s'))"

end
