(* ===== verification/Exit_Props.thy ===== *)
theory Exit_Props
  imports Exit Breaker
begin

text \<open>
  Properties of the exits of a tunnel: a request passes at most three exits of a chain, no exit twice, and only along entries of the operators' own lists; and a target that failed rests, as
  the contract of a circuit breaker says.
\<close>

section \<open>What accepting a request implies\<close>

lemma serve_accepts:
  assumes "serveRequest he special inspected now s req = (a, s')" "a \<noteq> Refused" "a \<noteq> Multiplexed"
  shows "authorized s req" "validateRoute he s req = None" "or_Chain req \<noteq> [] \<Longrightarrow> or_Reverse req = ''''"
    "a = ToTarget \<Longrightarrow> or_Chain req = [] \<and> or_Reverse req = ''''"
    "a = ToReverse ident r \<Longrightarrow> or_Chain req = [] \<and> or_Chain r = [] \<and> or_Reverse r = ''''"
    "a = ToNext h r \<Longrightarrow> or_Chain req \<noteq> [] \<and> h \<in> set (xs_NextHops s) \<and> or_Token r = th_Token h \<and> or_Chain r = tl (or_Chain req)
       \<and> or_Visited r = or_Visited req @ [xs_NodeID s] \<and> or_Version r \<noteq> 1"
proof -
  have "authorized s req" "request_ok he s req" using assms by (auto simp: serveRequest_def split: if_splits)
  then show "authorized s req" "validateRoute he s req = None" by (simp_all add: request_ok_def)
  obtain hop where hop: "(case or_Chain req of [] \<Rightarrow> Some None | h # _ \<Rightarrow> map_option Some (authorizedNext s h)) = Some hop"
    using assms by (auto simp: serveRequest_def split: if_splits option.splits)
  have rc: "\<not> (or_Reverse req \<noteq> '''' \<and> or_Chain req \<noteq> [])" using assms hop by (auto simp: serveRequest_def split: if_splits option.splits)
  have act: "a = (if or_Reverse req \<noteq> '''' then ToReverse (or_Reverse req) (opened (or_Inspect req) (or_StagedInspection req) (or_Business req) (or_RuleID req)
       (or_Token req) (or_Network req) (or_Target req) [] [] '''') else case hop of None \<Rightarrow> ToTarget | Some h \<Rightarrow> forward s h req)"
    using assms hop by (auto simp: serveRequest_def split: if_splits option.splits prod.splits)
  show "or_Chain req \<noteq> [] \<Longrightarrow> or_Reverse req = ''''" using rc by blast
  have fwd: "forward s g req \<noteq> ToTarget" "forward s g req \<noteq> ToReverse i q" for g i q by (simp_all add: forward_def Let_def)
  show "a = ToTarget \<Longrightarrow> or_Chain req = [] \<and> or_Reverse req = ''''"
    using act hop fwd by (auto split: if_splits option.splits list.splits)
  show "a = ToReverse ident r \<Longrightarrow> or_Chain req = [] \<and> or_Chain r = [] \<and> or_Reverse r = ''''"
    using act rc fwd by (auto simp: opened_def Let_def split: if_splits option.splits)
  show "or_Chain req \<noteq> [] \<and> h \<in> set (xs_NextHops s) \<and> or_Token r = th_Token h \<and> or_Chain r = tl (or_Chain req)
       \<and> or_Visited r = or_Visited req @ [xs_NodeID s] \<and> or_Version r \<noteq> 1" if n: "a = ToNext h r"
  proof -
    obtain g where g: "hop = Some g" "forward s g req = ToNext h r" using act n by (auto split: if_splits option.splits)
    then obtain c cs where c: "or_Chain req = c # cs" "authorizedNext s c = Some g" using hop by (auto split: list.splits)
    have "g \<in> set (xs_NextHops s)" using c(2) by (auto simp: authorizedNext_def find_Some_iff)
    then show ?thesis using g(2) c(1) by (auto simp: forward_def opened_def Let_def split: if_splits)
  qed
qed

lemma visited_ok_fresh: "visited_ok seen ids \<Longrightarrow> set ids \<inter> set seen = {} \<and> distinct ids"
  by (induction seen ids rule: visited_ok.induct) (auto split: if_splits)

lemma validateRoute_bounds:
  assumes "validateRoute he s req = None"
  shows "length (or_Chain req) \<le> 2" "or_Version req \<noteq> 1 \<Longrightarrow> xs_NodeID s \<notin> set (or_Visited req)"
  using assms visited_ok_fresh [of "[xs_NodeID s]" "or_Visited req"] by (auto simp: validateRoute_def split: if_splits)

section \<open>Routes\<close>

definition accepts :: "hop_env \<Rightarrow> exit_server \<times> openRequest \<Rightarrow> bool" where
  "accepts he x \<longleftrightarrow> (\<exists>special inspected now a s'. serveRequest he special inspected now (fst x) (snd x) = (a, s') \<and> a \<noteq> Refused \<and> a \<noteq> Multiplexed)"

definition passes_on :: "hop_env \<Rightarrow> exit_server \<times> openRequest \<Rightarrow> exit_server \<times> openRequest \<Rightarrow> bool" where
  "passes_on he x y \<longleftrightarrow> (\<exists>special inspected now h s'. serveRequest he special inspected now (fst x) (snd x) = (ToNext h (snd y), s'))"

text \<open>A route: each exit accepts the request it gets and passes one on; which server it reaches with that is up to the network.\<close>

fun route :: "hop_env \<Rightarrow> (exit_server \<times> openRequest) list \<Rightarrow> bool" where
  "route he [] = True"
| "route he [x] = accepts he x"
| "route he (x # y # p) = (passes_on he x y \<and> route he (y # p))"

lemma passes_on_accepts: "passes_on he x y \<Longrightarrow> accepts he x"
  unfolding passes_on_def accepts_def by blast

lemma route_head: "route he (x # p) \<Longrightarrow> accepts he x"
  by (cases p) (auto intro: passes_on_accepts)

lemma accepts_route: "accepts he x \<Longrightarrow> validateRoute he (fst x) (snd x) = None"
  unfolding accepts_def using serve_accepts(2) by blast

lemma passes_on_request:
  assumes "passes_on he x y"
  shows "length (or_Chain (snd x)) = length (or_Chain (snd y)) + 1" "or_Visited (snd y) = or_Visited (snd x) @ [xs_NodeID (fst x)]" "or_Version (snd y) \<noteq> 1"
proof -
  obtain special inspected now h s' where r: "serveRequest he special inspected now (fst x) (snd x) = (ToNext h (snd y), s')"
    using assms unfolding passes_on_def by blast
  have "or_Chain (snd x) \<noteq> [] \<and> h \<in> set (xs_NextHops (fst x)) \<and> or_Token (snd y) = th_Token h \<and> or_Chain (snd y) = tl (or_Chain (snd x))
    \<and> or_Visited (snd y) = or_Visited (snd x) @ [xs_NodeID (fst x)] \<and> or_Version (snd y) \<noteq> 1"
    by (rule serve_accepts(6) [OF r]) simp_all
  then show "length (or_Chain (snd x)) = length (or_Chain (snd y)) + 1" "or_Visited (snd y) = or_Visited (snd x) @ [xs_NodeID (fst x)]" "or_Version (snd y) \<noteq> 1"
    by (auto simp: neq_Nil_conv)
qed

lemma route_fresh:
  assumes "route he (x # p)"
  shows "length p \<le> length (or_Chain (snd x)) \<and> distinct (map (xs_NodeID \<circ> fst) p)
    \<and> (\<forall>y\<in>set p. xs_NodeID (fst y) \<notin> set (or_Visited (snd x) @ [xs_NodeID (fst x)]))"
  using assms
proof (induction p arbitrary: x)
  case (Cons y p)
  have st: "passes_on he x y" "route he (y # p)" using Cons.prems by simp_all
  note rq = passes_on_request [OF st(1)]
  have IH: "length p \<le> length (or_Chain (snd y)) \<and> distinct (map (xs_NodeID \<circ> fst) p)
    \<and> (\<forall>z\<in>set p. xs_NodeID (fst z) \<notin> set (or_Visited (snd y) @ [xs_NodeID (fst y)]))" by (rule Cons.IH [OF st(2)])
  have "xs_NodeID (fst y) \<notin> set (or_Visited (snd y))"
    using validateRoute_bounds(2) accepts_route route_head st(2) rq(3) by blast
  then show ?case using IH rq by (auto simp: comp_def)
qed simp

text \<open>C29: A request passes at most three exits, whatever the first client asked for and wherever the entries of the exits lead: along a chain no exit sees the request twice and there are at most three of them; each exit
  passes it on only to an entry of its own operator's list, with the token of that entry; and an exit reached in reverse passes it on to no further exit.\<close>

theorem tunnel_routes_end:
  assumes "route he p"
  shows "length p \<le> 3 \<and> distinct (map (xs_NodeID \<circ> fst) p)
    \<and> (serveRequest he special inspected now s req = (ToNext h r, s') \<longrightarrow> authorized s req \<and> h \<in> set (xs_NextHops s) \<and> or_Token r = th_Token h)
    \<and> (serveRequest he special inspected now s req = (ToReverse ident r, s') \<longrightarrow>
        fst (serveRequest he special' inspected' now' t r) \<in> {Refused, Multiplexed, ToTarget})"
proof (intro conjI impI)
  have "length p \<le> 3 \<and> distinct (map (xs_NodeID \<circ> fst) p)"
  proof (cases p)
    case (Cons x q)
    have "length (or_Chain (snd x)) \<le> 2" using validateRoute_bounds(1) accepts_route route_head assms Cons by blast
    then show ?thesis using route_fresh [of he x q] assms Cons by auto
  qed simp
  then show "length p \<le> 3" "distinct (map (xs_NodeID \<circ> fst) p)" by simp_all
next
  assume r: "serveRequest he special inspected now s req = (ToNext h r, s')"
  show "authorized s req" "h \<in> set (xs_NextHops s)" "or_Token r = th_Token h" using serve_accepts(1,6) [OF r] by auto
next
  assume r: "serveRequest he special inspected now s req = (ToReverse ident r, s')"
  have q: "or_Chain r = []" "or_Reverse r = ''''" using serve_accepts(5) [OF r] by auto
  show "fst (serveRequest he special' inspected' now' t r) \<in> {Refused, Multiplexed, ToTarget}"
    using q by (auto simp: serveRequest_def split: option.splits prod.splits)
qed


definition demo_hop :: tunnel_hop where
  "demo_hop = \<lparr>th_Transport = ''tls'', th_Endpoint = ''b:443'', th_ServerName = '''', th_Token = ''0123456789abcdef'', th_PreferIPv6 = False, th_Inspect = False,
     th_StagedInspection = False\<rparr>"

definition demo_exit :: "string \<Rightarrow> string \<Rightarrow> tunnel_hop list \<Rightarrow> exit_server" where
  "demo_exit ident token hops = \<lparr>xs_Managed = False, xs_Grants = [], xs_Policy = None, xs_Token = token, xs_NextHops = hops, xs_SecureDirect = False, xs_NodeID = ident, xs_targets = []\<rparr>"

definition demo_open :: openRequest where
  "demo_open = opened False False None ''r1'' ''secret'' ''tcp'' ''10.0.0.1:80'' [demo_hop] [] ''''"

definition demo_passed :: openRequest where
  "demo_passed = opened False False None ''r1'' ''0123456789abcdef'' ''tcp'' ''10.0.0.1:80'' [] [''a''] ''''"

definition demo_hop_env :: hop_env where
  "demo_hop_env = \<lparr>he_Parse = (\<lambda>_. None), he_ToLower = (\<lambda>x. x), he_ParseAddr = (\<lambda>_. None)\<rparr>"

text \<open>Exit a passes a request to exit b, which connects to the target.\<close>

theorem tunnel_routes_end_witness:
  "serveRequest demo_hop_env True (\<lambda>_. True) 0 (demo_exit ''a'' ''secret'' [demo_hop]) demo_open = (ToNext demo_hop demo_passed, demo_exit ''a'' ''secret'' [demo_hop])
   \<and> length [(demo_exit ''a'' ''secret'' [demo_hop], demo_open), (demo_exit ''b'' ''0123456789abcdef'' [], demo_passed)] \<le> 3
   \<and> distinct [''a'', ''b''] \<and> or_Token demo_passed = th_Token demo_hop"
proof -
  let ?a = "demo_exit ''a'' ''secret'' [demo_hop]" and ?b = "demo_exit ''b'' ''0123456789abcdef'' []"
  have a: "serveRequest demo_hop_env True (\<lambda>_. True) 0 ?a demo_open = (ToNext demo_hop demo_passed, ?a)" by code_simp
  have b: "serveRequest demo_hop_env True (\<lambda>_. True) 0 ?b demo_passed = (ToTarget, ?b)" by code_simp
  have "passes_on demo_hop_env (?a, demo_open) (?b, demo_passed)" unfolding passes_on_def fst_conv snd_conv using a by blast
  moreover have "accepts demo_hop_env (?b, demo_passed)" unfolding accepts_def fst_conv snd_conv using b by blast
  ultimately have "route demo_hop_env [(?a, demo_open), (?b, demo_passed)]" by simp
  from tunnel_routes_end [OF this, of True "\<lambda>_. True" 0 ?a demo_open demo_hop demo_passed ?a] a show ?thesis by (simp add: demo_exit_def)
qed

section \<open>Targets that failed\<close>

definition target_health :: "exit_server \<Rightarrow> string \<Rightarrow> key_health" where
  "target_health s k = (if server_failover s = None then (0, None, False) else case map_of (xs_targets s) k of None \<Rightarrow> (0, None, False)
     | Some st \<Rightarrow> (ts_failures st, ts_until st, ts_probing st))"

definition target_attempt :: "openRequest \<Rightarrow> gotime \<Rightarrow> exit_server \<Rightarrow> string option \<times> exit_server" where
  "target_attempt req now s = (case targetAttempt req now s of (None, s') \<Rightarrow> (Some (target_key req), s') | (Some e, s') \<Rightarrow> (None, s'))"

fun target_report :: "failover_policy \<times> string \<times> bool \<times> gotime \<Rightarrow> exit_server \<Rightarrow> exit_server" where
  "target_report (f, k, failed, now) s = finish_attempt f k failed now s"

lemma targetAttempt_cases:
  assumes "server_failover s = Some f"
  obtains (full) "map_of (xs_targets s) (target_key req) = None" "targetAttempt req now s = (Some CircuitCapacity, s)"
  | (known) st where "target_health s (target_key req) = (ts_failures st, ts_until st, ts_probing st)"
      "targetAttempt req now s = (if target_resting now st then (Some TargetCooling, s\<lparr>xs_targets := put (target_key req) st (xs_targets s)\<rparr>)
         else (None, s\<lparr>xs_targets := put (target_key req) (st\<lparr>ts_probing := ts_until st \<noteq> None\<rparr>) (xs_targets s)\<rparr>))"
proof (cases "map_of (xs_targets s) (target_key req)")
  case None
  let ?st = "\<lparr>ts_failures = 0, ts_until = None, ts_probing = False\<rparr>"
  show thesis
  proof (cases "length (xs_targets s) \<ge> 4096")
    case True then show thesis using full None assms by (simp add: targetAttempt_def Let_def)
  next
    case False then show thesis using known [of ?st] None assms by (simp add: targetAttempt_def Let_def target_health_def)
  qed
next
  case (Some st)
  then show thesis using known [of st] assms by (simp add: targetAttempt_def Let_def target_health_def)
qed

lemma failover_update [simp]: "server_failover (s\<lparr>xs_targets := m\<rparr>) = server_failover s"
  by (simp add: server_failover_def)

lemma health_update:
  "server_failover s = Some f \<Longrightarrow> target_health (s\<lparr>xs_targets := put j st (xs_targets s)\<rparr>) k = (if k = j then (ts_failures st, ts_until st, ts_probing st) else target_health s k)"
  by (simp add: target_health_def)

interpretation tb: circuit_breaker target_health target_attempt target_report "\<lambda>(f, k, failed, now). k"
proof
  fix r now s b s' k
  assume a: "target_attempt r now s = (b, s')" "b \<noteq> Some k"
  show "target_health s' k = target_health s k"
  proof (cases "server_failover s")
    case None then show ?thesis using a by (auto simp: target_attempt_def targetAttempt_def)
  next
    case (Some f)
    then show ?thesis
      by (cases rule: targetAttempt_cases [where req = r and now = now])
        (use a Some in \<open>auto simp: target_attempt_def health_update [OF Some] split: if_splits\<close>)
  qed
next
  fix r now s k s' f e q
  assume a: "target_attempt r now s = (Some k, s')" and h: "target_health s k = (f, e, q)"
  show "\<not> q \<and> (\<forall>t. e = Some t \<longrightarrow> t \<le> now)"
  proof (cases "server_failover s")
    case None then show ?thesis using h by (auto simp: target_health_def)
  next
    case (Some g)
    then show ?thesis
      by (cases rule: targetAttempt_cases [where req = r and now = now])
        (use a h in \<open>auto simp: target_attempt_def target_resting_def split: if_splits\<close>)
  qed
next
  fix r now s k s' f u q
  assume a: "target_attempt r now s = (Some k, s')" and h: "target_health s k = (f, Some u, q)" "0 < f"
  show "target_health s' k = (f, Some u, True)"
  proof (cases "server_failover s")
    case None then show ?thesis using h by (auto simp: target_health_def)
  next
    case (Some g)
    then show ?thesis
      by (cases rule: targetAttempt_cases [where req = r and now = now])
        (use a h in \<open>auto simp: target_attempt_def health_update [OF Some] dest: sym [of "Some u"] split: if_splits\<close>)
  qed
next
  fix p :: "failover_policy \<times> string \<times> bool \<times> gotime" and k s
  assume "(case p of (f, k, failed, now) \<Rightarrow> k) \<noteq> k"
  then show "target_health (target_report p s) k = target_health s k"
    by (cases p) (auto simp: finish_attempt_def target_health_def split: option.splits)
qed

text \<open>From a failure report that opens the circuit of a target to the next report on it, an exit makes at most one attempt, and none before the rest is over.\<close>

lemma failed_target_rests:
  assumes "server_failover s = Some f" "map_of (xs_targets s) k = Some st" "0 \<le> ts_failures st" "ts_failures st + 1 \<ge> max 1 (fp_MaxFail f)"
    and "list_all (\<lambda>p. \<not> about (\<lambda>(f, k, failed, now). k) k p) ops"
  shows "tried_once k (now + max 1 (fp_CooldownSec f) * 1000000000)
    (filter (\<lambda>(j, t). j = k) (breaker_run target_attempt target_report ops (finish_attempt f k True now s)))"
proof -
  have "target_health (finish_attempt f k True now s) k = (ts_failures st + 1, Some (now + max 1 (fp_CooldownSec f) * 1000000000), False)"
    using assms(1,2,4) by (simp add: finish_attempt_def target_health_def)
  then show ?thesis using tb.open_admits_once [OF assms(5)] assms(3) by simp
qed

end
