(* ===== verification/Association.thy ===== *)
theory Association
  imports Bytes
begin

text \<open>
  Associations of SOCKS5 (\<open>internal/policy/association\<close>): an Agent lets a UDP packet count as SOCKS5 traffic only when a live control connection of the same peer has set up that
  association with the operator's own server. \<open>Registry\<close> (\<open>registry.go\<close>) keeps the relationships that the operator allows and the control connections; \<open>observer\<close> (\<open>observer.go\<close>)
  reads along on a control connection.

  Addresses are those of \<open>netip\<close> without zones. The two-level index of the registry is one map from pairs of a lookup key and a session number. A session that is removed from the
  table leaves the index at the same moment, so an observer whose session is gone has nothing to remove and changes nothing that is looked at again. The session counter is not bounded here: it has 64 bits.
  The clock is read where the code reads it; a second reading in one call is the argument \<open>later\<close>.
\<close>

section \<open>Addresses\<close>

datatype addr = IPv4 "32 word" | IPv6 "128 word"

definition Unmap :: "addr \<Rightarrow> addr" where
  "Unmap a = (case a of IPv4 w \<Rightarrow> a | IPv6 w \<Rightarrow> if uint w div 2 ^ 32 = 0xffff then IPv4 (word_of_int (uint w)) else a)"

definition IsUnspecified :: "addr \<Rightarrow> bool" where
  "IsUnspecified a = (case a of IPv4 w \<Rightarrow> w = 0 | IPv6 w \<Rightarrow> w = 0)"

lemma Unmap_Unmap [simp]: "Unmap (Unmap a) = Unmap a"
  by (auto simp: Unmap_def split: addr.splits)

text \<open>A pair of an address and a port; without an address it is not valid.\<close>

record addr_port =
  ap_Addr :: "addr option"
  ap_Port :: "16 word"

record assoc_binding =
  bd_ControlRuleID :: string
  bd_UDPRuleID :: string
  bd_Generation :: string
  bd_RelayEndpoint :: addr_port
  bd_RelayTarget :: string

record lookup_key =
  lk_ruleID :: string
  lk_generation :: string
  lk_target :: string
  lk_peer :: addr

section \<open>The registry\<close>

record control_session =
  cs_bindings :: "assoc_binding list"
  cs_peer :: addr
  cs_port :: "16 word"
  cs_ready :: bool
  cs_closed :: bool
  cs_expires :: gotime

record registry =
  rg_limit :: int
  rg_ttl :: int
  rg_next :: nat
  rg_allowed :: "assoc_binding list"
  rg_sessions :: "(nat, control_session) gomap"
  rg_index :: "(lookup_key \<times> nat, assoc_binding) gomap"

definition MaxBindings :: int where "MaxBindings = 256"
definition MaxSessions :: int where "MaxSessions = 4096"
definition maxPeerSessions :: int where "maxPeerSessions = 32"

definition New_registry :: "int \<Rightarrow> int \<Rightarrow> registry" where
  "New_registry limit ttl = \<lparr>rg_limit = (if limit \<le> 0 \<or> limit > MaxSessions then MaxSessions else limit),
     rg_ttl = (if ttl \<le> 0 \<or> ttl > 24 * 3600 * 1000000000 then 120 * 1000000000 else ttl), rg_next = 0, rg_allowed = [], rg_sessions = [], rg_index = []\<rparr>"

definition validBinding :: "assoc_binding \<Rightarrow> bool" where
  "validBinding b \<longleftrightarrow> bd_ControlRuleID b \<noteq> '''' \<and> bd_UDPRuleID b \<noteq> '''' \<and> bd_Generation b \<noteq> '''' \<and> length (bd_ControlRuleID b) \<le> 128
     \<and> length (bd_UDPRuleID b) \<le> 128 \<and> length (bd_Generation b) \<le> 256
     \<and> (case ap_Addr (bd_RelayEndpoint b) of None \<Rightarrow> False | Some a \<Rightarrow> \<not> IsUnspecified a) \<and> ap_Port (bd_RelayEndpoint b) \<noteq> 0
     \<and> bd_RelayTarget b \<noteq> '''' \<and> length (bd_RelayTarget b) \<le> 512"

definition canonicalBinding :: "assoc_binding \<Rightarrow> assoc_binding" where
  "canonicalBinding b = b\<lparr>bd_RelayEndpoint := (bd_RelayEndpoint b)\<lparr>ap_Addr := map_option Unmap (ap_Addr (bd_RelayEndpoint b))\<rparr>\<rparr>"

definition key_of :: "control_session \<Rightarrow> assoc_binding \<Rightarrow> lookup_key" where
  "key_of s b = \<lparr>lk_ruleID = bd_UDPRuleID b, lk_generation = bd_Generation b, lk_target = bd_RelayTarget b, lk_peer = cs_peer s\<rparr>"

definition removeSession :: "nat \<Rightarrow> registry \<Rightarrow> registry" where
  "removeSession i r = (case map_of (rg_sessions r) i of None \<Rightarrow> r
     | Some s \<Rightarrow> r\<lparr>rg_sessions := del i (rg_sessions r), rg_index := fold (\<lambda>b. del (key_of s b, i)) (cs_bindings s) (rg_index r)\<rparr>)"

definition remove_where :: "(control_session \<Rightarrow> bool) \<Rightarrow> registry \<Rightarrow> registry" where
  "remove_where P r = fold (\<lambda>(i, s) r. if P s then removeSession i r else r) (rg_sessions r) r"

definition prune :: "gotime \<Rightarrow> registry \<Rightarrow> registry" where
  "prune now r = remove_where (\<lambda>s. cs_closed s \<or> \<not> now < cs_expires s) r"

definition index_count :: "lookup_key \<Rightarrow> registry \<Rightarrow> int" where
  "index_count k r = int (length (filter (\<lambda>((j, i), b). j = k) (rg_index r)))"

definition indexSession :: "nat \<Rightarrow> control_session \<Rightarrow> registry \<Rightarrow> registry option" where
  "indexSession i s r = (if list_ex (\<lambda>b. index_count (key_of s b) r \<ge> maxPeerSessions) (cs_bindings s) then None
     else Some (r\<lparr>rg_index := fold (\<lambda>b. put (key_of s b, i) b) (cs_bindings s) (rg_index r)\<rparr>))"

definition reindex :: "nat \<Rightarrow> registry \<Rightarrow> registry" where
  "reindex i r = (case map_of (rg_sessions r) i of None \<Rightarrow> r | Some s \<Rightarrow>
     if \<not> cs_ready s then r
     else case indexSession i s r of Some r' \<Rightarrow> r' | None \<Rightarrow> r\<lparr>rg_sessions := put i (s\<lparr>cs_ready := False\<rparr>) (rg_sessions r)\<rparr>)"

datatype assoc_error = BindingCapacity | InvalidBinding | InvalidObservation | NoPeer | SessionCapacity | NotConfigured

definition keep_allowed :: "assoc_binding list \<Rightarrow> registry \<Rightarrow> registry" where
  "keep_allowed allowed r = r\<lparr>rg_sessions := filter (\<lambda>(i, s). cs_bindings s \<noteq> [])
     (map (\<lambda>(i, s). (i, s\<lparr>cs_bindings := filter (\<lambda>b. b \<in> set allowed) (cs_bindings s)\<rparr>)) (rg_sessions r)), rg_index := []\<rparr>"

definition Configure_registry :: "assoc_binding list \<Rightarrow> gotime \<Rightarrow> registry \<Rightarrow> assoc_error + registry" where
  "Configure_registry bindings now r =
     (if int (length bindings) > MaxBindings then Inl BindingCapacity
      else let allowed = map canonicalBinding bindings in
        if \<not> list_all validBinding allowed then Inl InvalidBinding
        else let r1 = keep_allowed allowed (prune now (r\<lparr>rg_allowed := allowed\<rparr>)) in
          Inr (fold (\<lambda>(i, s). reindex i) (rg_sessions r1) r1))"

definition of_rule :: "string \<Rightarrow> assoc_binding \<Rightarrow> bool" where
  "of_rule ruleID b \<longleftrightarrow> bd_ControlRuleID b = ruleID \<or> bd_UDPRuleID b = ruleID"

definition revoke :: "(assoc_binding \<Rightarrow> bool) \<Rightarrow> registry \<Rightarrow> registry" where
  "revoke P r = remove_where (\<lambda>s. list_ex P (cs_bindings s)) (r\<lparr>rg_allowed := filter (\<lambda>b. \<not> P b) (rg_allowed r)\<rparr>)"

definition RevokeRule :: "string \<Rightarrow> registry \<Rightarrow> registry" where
  "RevokeRule ruleID = revoke (of_rule ruleID)"

definition RevokeGeneration :: "string \<Rightarrow> registry \<Rightarrow> registry" where
  "RevokeGeneration generation = revoke (\<lambda>b. bd_Generation b = generation)"

definition RevokeAll :: "registry \<Rightarrow> registry" where
  "RevokeAll r = r\<lparr>rg_sessions := [], rg_index := [], rg_allowed := []\<rparr>"

definition Count_sessions :: "gotime \<Rightarrow> registry \<Rightarrow> int \<times> registry" where
  "Count_sessions now r = (let r' = prune now r in (int (length (rg_sessions r')), r'))"

section \<open>Proofs of an association\<close>

record proof_of =
  pf_sessionID :: nat
  pf_binding :: assoc_binding
  pf_source :: addr_port

definition ValidFor :: "proof_of option \<Rightarrow> string \<Rightarrow> string \<Rightarrow> string \<Rightarrow> gotime \<Rightarrow> registry \<Rightarrow> bool \<times> registry" where
  "ValidFor po ruleID generation target now r = (case po of None \<Rightarrow> (False, r) | Some p \<Rightarrow>
     if bd_UDPRuleID (pf_binding p) \<noteq> ruleID \<or> bd_Generation (pf_binding p) \<noteq> generation \<or> bd_RelayTarget (pf_binding p) \<noteq> target then (False, r)
     else case map_of (rg_sessions r) (pf_sessionID p) of None \<Rightarrow> (False, r)
     | Some s \<Rightarrow> if \<not> now < cs_expires s then (False, removeSession (pf_sessionID p) r)
         else (cs_ready s \<and> \<not> cs_closed s \<and> pf_binding p \<in> set (rg_allowed r) \<and> Some (cs_peer s) = ap_Addr (pf_source p)
           \<and> cs_port s = ap_Port (pf_source p) \<and> pf_binding p \<in> set (cs_bindings s), r))"

definition validUDP :: "bytes \<Rightarrow> bool" where
  "validUDP b \<longleftrightarrow> length b \<ge> 4 \<and> b ! 0 = 0 \<and> b ! 1 = 0
     \<and> (if b ! 3 = 1 then length b \<ge> 4 + 4 + 2
        else if b ! 3 = 4 then length b \<ge> 4 + 16 + 2
        else if b ! 3 = 3 then length b > 4 \<and> b ! 4 \<noteq> 0 \<and> length b \<ge> 4 + 1 + unat (b ! 4) + 2
        else False)"

text \<open>The loop of \<open>Admission\<close> over the sessions of a key, which Go visits in any order (the argument \<open>order\<close> of \<open>Admission\<close>). The result is the registry and the chosen session with its binding; None where the loop returns at once, because two sessions fit.\<close>

fun admit_loop :: "lookup_key \<Rightarrow> gotime \<Rightarrow> addr_port \<Rightarrow> (nat \<times> assoc_binding) list \<Rightarrow> registry \<Rightarrow> (nat \<times> assoc_binding) option \<Rightarrow> registry \<times> (nat \<times> assoc_binding) option option" where
  "admit_loop k now source [] r chosen = (r, Some chosen)"
| "admit_loop k now source ((i, b) # row) r chosen = (case map_of (rg_sessions r) i of
     None \<Rightarrow> admit_loop k now source row (r\<lparr>rg_index := del (k, i) (rg_index r)\<rparr>) chosen
   | Some s \<Rightarrow>
       if \<not> now < cs_expires s then admit_loop k now source row (removeSession i r) chosen
       else if \<not> cs_ready s \<or> cs_closed s \<or> Some (cs_peer s) \<noteq> ap_Addr source \<or> cs_port s \<noteq> 0 \<and> cs_port s \<noteq> ap_Port source
       then admit_loop k now source row r chosen
       else if b \<notin> set (rg_allowed r) then admit_loop k now source row r chosen
       else if (case chosen of None \<Rightarrow> False | Some (j, _) \<Rightarrow> j \<noteq> i) then (r, None)
       else admit_loop k now source row r (Some (i, b)))"

definition index_row :: "lookup_key \<Rightarrow> registry \<Rightarrow> (nat \<times> assoc_binding) list" where
  "index_row k r = map (\<lambda>((j, i), b). (i, b)) (filter (\<lambda>((j, i), b). j = k) (rg_index r))"

definition Admission :: "((nat \<times> assoc_binding) list \<Rightarrow> (nat \<times> assoc_binding) list) \<Rightarrow> string \<Rightarrow> string \<Rightarrow> addr_port \<Rightarrow> string \<Rightarrow> bytes \<Rightarrow> gotime \<Rightarrow> gotime \<Rightarrow> registry \<Rightarrow> proof_of option \<times> registry" where
  "Admission order ruleID generation source0 target payload now later r = (case ap_Addr source0 of None \<Rightarrow> (None, r) | Some a \<Rightarrow>
     if ap_Port source0 = 0 \<or> \<not> validUDP payload then (None, r)
     else let source = source0\<lparr>ap_Addr := Some (Unmap a)\<rparr>;
              k = \<lparr>lk_ruleID = ruleID, lk_generation = generation, lk_target = target, lk_peer = Unmap a\<rparr> in
       case admit_loop k now source (order (index_row k r)) r None of
         (r', Some (Some (i, b))) \<Rightarrow> (case map_of (rg_sessions r') i of None \<Rightarrow> (None, r')
            | Some s \<Rightarrow> (Some \<lparr>pf_sessionID = i, pf_binding = b, pf_source = source\<rparr>,
                r'\<lparr>rg_sessions := put i (s\<lparr>cs_port := ap_Port source, cs_expires := later + rg_ttl r'\<rparr>) (rg_sessions r')\<rparr>))
       | (r', _) \<Rightarrow> (None, r'))"

section \<open>Observing a control connection\<close>

record observer =
  ob_session :: nat
  ob_peer :: addr
  ob_stage :: nat
  ob_client :: bytes
  ob_server :: bytes
  ob_methods :: bytes
  ob_failed :: bool
  ob_closed :: bool

definition maxHandshake :: int where "maxHandshake = 1024"

text \<open>The peer is the remote address of the connection, None when it cannot be read.\<close>

definition peerIP :: "addr_port option \<Rightarrow> addr option" where
  "peerIP remote = (case remote of None \<Rightarrow> None | Some ap \<Rightarrow> (case ap_Addr ap of None \<Rightarrow> None
     | Some a \<Rightarrow> if IsUnspecified a then None else Some (Unmap a)))"

definition Observe :: "addr_port option \<Rightarrow> assoc_binding list \<Rightarrow> gotime \<Rightarrow> gotime \<Rightarrow> registry \<Rightarrow> (assoc_error + observer) \<times> registry" where
  "Observe remote bindings now later r =
     (if bindings = [] \<or> int (length bindings) > MaxBindings then (Inl InvalidObservation, r)
      else case peerIP remote of None \<Rightarrow> (Inl NoPeer, r) | Some peer \<Rightarrow>
        let r1 = prune now r in
        if int (length (rg_sessions r1)) \<ge> rg_limit r1 then (Inl SessionCapacity, r1)
        else let accepted = map canonicalBinding bindings in
          if \<not> list_all (\<lambda>b. validBinding b \<and> b \<in> set (rg_allowed r1)) accepted then (Inl NotConfigured, r1)
          else let i = rg_next r1 + 1 in
            (Inr \<lparr>ob_session = i, ob_peer = peer, ob_stage = 0, ob_client = [], ob_server = [], ob_methods = [], ob_failed = False, ob_closed = False\<rparr>,
             r1\<lparr>rg_next := i, rg_sessions := put i \<lparr>cs_bindings = accepted, cs_peer = peer, cs_port = 0, cs_ready = False, cs_closed = False,
               cs_expires = later + rg_ttl r1\<rparr> (rg_sessions r1)\<rparr>))"

definition closeLocked :: "observer \<Rightarrow> registry \<Rightarrow> observer \<times> registry" where
  "closeLocked ob r = (if ob_closed ob then (ob, r)
     else (ob\<lparr>ob_closed := True, ob_failed := True, ob_client := [], ob_server := []\<rparr>, removeSession (ob_session ob) r))"

text \<open>A numeric endpoint from position 3 on: how many bytes it takes, and the endpoint when they are all there. The number is 0 where the code has a negative one.\<close>

definition parseAddress :: "bytes \<Rightarrow> nat \<times> addr_port option" where
  "parseAddress b =
     (if length b \<le> 3 then (4, None)
      else if b ! 3 = 1 then
        (if length b < 4 + 4 + 2 then (4 + 4 + 2, None)
         else (10, Some \<lparr>ap_Addr = Some (IPv4 (word_of_nat (get_be (take 4 (drop 4 b))))), ap_Port = word_of_nat (get_be (take 2 (drop 8 b)))\<rparr>))
      else if b ! 3 = 4 then
        (if length b < 4 + 16 + 2 then (4 + 16 + 2, None)
         else (22, Some \<lparr>ap_Addr = Some (Unmap (IPv6 (word_of_nat (get_be (take 16 (drop 4 b)))))), ap_Port = word_of_nat (get_be (take 2 (drop 20 b)))\<rparr>))
      else if b ! 3 = 3 then
        (if length b \<le> 4 then (5, None)
         else if b ! 4 = 0 then (0, None)
         else if length b < 4 + 1 + unat (b ! 4) + 2 then (4 + 1 + unat (b ! 4) + 2, None) else (0, None))
      else (0, None))"

text \<open>One pass of the loop of \<open>feed\<close>: whether it goes on, and the observer and registry after it. Each stage of the handshake is a case.\<close>

type_synonym observed = "bool \<times> observer \<times> registry"

definition give_up :: "observer \<Rightarrow> registry \<Rightarrow> observed" where
  "give_up ob r = (False, closeLocked ob r)"

definition stage_greeting :: "observer \<Rightarrow> registry \<Rightarrow> observed" where
  "stage_greeting ob r = (let c = ob_client ob in
     if length c < 2 then (False, ob, r)
     else if c ! 0 \<noteq> 5 \<or> c ! 1 = 0 then give_up ob r
     else let n = 2 + unat (c ! 1) in
       if length c < n then (False, ob, r)
       else let methods = take (n - 2) (drop 2 c); ob1 = ob\<lparr>ob_methods := methods\<rparr> in
         if 255 \<in> set methods then give_up ob1 r
         else (True, ob1\<lparr>ob_client := drop n c, ob_stage := 1\<rparr>, r))"

definition stage_method :: "observer \<Rightarrow> registry \<Rightarrow> observed" where
  "stage_method ob r = (let s = ob_server ob in
     if length s < 2 then (False, ob, r)
     else if s ! 0 \<noteq> 5 \<or> s ! 1 \<notin> set (ob_methods ob) \<or> s ! 1 \<noteq> 0 \<and> s ! 1 \<noteq> 2 then give_up ob r
     else (True, ob\<lparr>ob_server := drop 2 s, ob_stage := (if s ! 1 = 2 then 2 else 4)\<rparr>, r))"

definition stage_login :: "observer \<Rightarrow> registry \<Rightarrow> observed" where
  "stage_login ob r = (let c = ob_client ob in
     if length c < 2 then (False, ob, r)
     else if c ! 0 \<noteq> 1 \<or> c ! 1 = 0 then give_up ob r
     else let n = 2 + unat (c ! 1) in
       if length c < n + 1 then (False, ob, r)
       else if c ! n = 0 then give_up ob r
       else let m = n + (1 + unat (c ! n)) in
         if length c < m then (False, ob, r)
         else (True, ob\<lparr>ob_client := drop m c, ob_stage := 3\<rparr>, r))"

definition stage_granted :: "observer \<Rightarrow> registry \<Rightarrow> observed" where
  "stage_granted ob r = (let s = ob_server ob in
     if length s < 2 then (False, ob, r)
     else if s ! 0 \<noteq> 1 \<or> s ! 1 \<noteq> 0 then give_up ob r
     else (True, ob\<lparr>ob_server := drop 2 s, ob_stage := 4\<rparr>, r))"

definition set_port :: "nat \<Rightarrow> 16 word \<Rightarrow> registry \<Rightarrow> registry" where
  "set_port i port r = (case map_of (rg_sessions r) i of None \<Rightarrow> r | Some s \<Rightarrow> r\<lparr>rg_sessions := put i (s\<lparr>cs_port := port\<rparr>) (rg_sessions r)\<rparr>)"

definition stage_request :: "observer \<Rightarrow> registry \<Rightarrow> observed" where
  "stage_request ob r = (let c = ob_client ob in
     if length c < 4 then (False, ob, r)
     else if c ! 0 \<noteq> 5 \<or> c ! 1 \<noteq> 3 \<or> c ! 2 \<noteq> 0 then give_up ob r
     else case parseAddress c of
       (n, None) \<Rightarrow> if n > 0 \<and> int n \<le> maxHandshake then (False, ob, r) else give_up ob r
     | (n, Some ep) \<Rightarrow> (case ap_Addr ep of None \<Rightarrow> give_up ob r | Some a \<Rightarrow>
         if \<not> IsUnspecified a \<and> Unmap a \<noteq> ob_peer ob then give_up ob r
         else let r1 = set_port (ob_session ob) (ap_Port ep) r; ob1 = ob\<lparr>ob_client := drop n c\<rparr> in
           if drop n c \<noteq> [] then give_up ob1 r1 else (True, ob1\<lparr>ob_stage := 5\<rparr>, r1)))"

text \<open>The answer of the server names the relay: the bindings with that endpoint that are still allowed are kept, and the session becomes ready.\<close>

definition make_ready :: "nat \<Rightarrow> addr_port \<Rightarrow> gotime \<Rightarrow> gotime \<Rightarrow> registry \<Rightarrow> bool \<times> registry" where
  "make_ready i ep now later r = (case map_of (rg_sessions r) i of None \<Rightarrow> (False, r) | Some s \<Rightarrow>
     if cs_closed s \<or> \<not> now < cs_expires s then (False, r)
     else let s1 = s\<lparr>cs_bindings := filter (\<lambda>b. bd_RelayEndpoint b = ep \<and> b \<in> set (rg_allowed r)) (cs_bindings s)\<rparr>;
              r1 = r\<lparr>rg_sessions := put i s1 (rg_sessions r)\<rparr> in
       if cs_bindings s1 = [] then (False, r1)
       else case indexSession i s1 r1 of
         None \<Rightarrow> (False, r1\<lparr>rg_sessions := put i (s1\<lparr>cs_ready := False, cs_expires := later + rg_ttl r\<rparr>) (rg_sessions r1)\<rparr>)
       | Some r2 \<Rightarrow> (True, r2\<lparr>rg_sessions := put i (s1\<lparr>cs_ready := True, cs_expires := later + rg_ttl r\<rparr>) (rg_sessions r2)\<rparr>))"

definition stage_reply :: "gotime \<Rightarrow> gotime \<Rightarrow> observer \<Rightarrow> registry \<Rightarrow> observed" where
  "stage_reply now later ob r = (let s = ob_server ob in
     if length s < 4 then (False, ob, r)
     else if s ! 0 \<noteq> 5 \<or> s ! 1 \<noteq> 0 \<or> s ! 2 \<noteq> 0 then give_up ob r
     else case parseAddress s of
       (n, None) \<Rightarrow> if n > 0 \<and> int n \<le> maxHandshake then (False, ob, r) else give_up ob r
     | (n, Some ep) \<Rightarrow>
         if (case ap_Addr ep of None \<Rightarrow> True | Some a \<Rightarrow> IsUnspecified a) \<or> ap_Port ep = 0 then give_up ob r
         else (case make_ready (ob_session ob) ep now later r of
             (False, r1) \<Rightarrow> give_up ob r1
           | (True, r1) \<Rightarrow> let ob1 = ob\<lparr>ob_server := drop n s\<rparr> in
               if drop n s \<noteq> [] then give_up ob1 r1
               else (False, ob1\<lparr>ob_stage := 6, ob_methods := [], ob_client := [], ob_server := []\<rparr>, r1)))"

definition feed_stage :: "gotime \<Rightarrow> gotime \<Rightarrow> observer \<Rightarrow> registry \<Rightarrow> observed" where
  "feed_stage now later ob r =
     (if ob_stage ob = 0 then stage_greeting ob r else if ob_stage ob = 1 then stage_method ob r else if ob_stage ob = 2 then stage_login ob r
      else if ob_stage ob = 3 then stage_granted ob r else if ob_stage ob = 4 then stage_request ob r else if ob_stage ob = 5 then stage_reply now later ob r
      else (False, ob, r))"

lemmas stage_defs = stage_greeting_def stage_method_def stage_login_def stage_granted_def stage_request_def stage_reply_def give_up_def

lemma feed_stage_advances: "feed_stage now later ob r = (True, ob', r') \<Longrightarrow> ob_stage ob < ob_stage ob' \<and> ob_stage ob' \<le> 6"
  by (auto simp: feed_stage_def stage_defs Let_def split: if_splits prod.splits option.splits bool.splits)

function feed_loop :: "gotime \<Rightarrow> gotime \<Rightarrow> observer \<Rightarrow> registry \<Rightarrow> observer \<times> registry" where
  "feed_loop now later ob r = (case feed_stage now later ob r of (True, ob', r') \<Rightarrow> feed_loop now later ob' r' | (False, ob', r') \<Rightarrow> (ob', r'))"
  by pat_completeness auto
termination
  by (relation "measure (\<lambda>(now, later, ob, r). 6 - ob_stage ob)") (auto dest: feed_stage_advances [OF sym])

declare feed_loop.simps [simp del]

definition listening :: "observer \<Rightarrow> bool" where
  "listening ob \<longleftrightarrow> \<not> ob_failed ob \<and> \<not> ob_closed ob \<and> ob_stage ob \<noteq> 6"

definition feed :: "bool \<Rightarrow> bytes \<Rightarrow> gotime \<Rightarrow> gotime \<Rightarrow> observer \<Rightarrow> registry \<Rightarrow> observer \<times> registry" where
  "feed client b now later ob r =
     (if \<not> listening ob then (ob, r)
      else if int (length b) > maxHandshake - int (length (if client then ob_client ob else ob_server ob)) then closeLocked ob r
      else feed_loop now later (if client then ob\<lparr>ob_client := ob_client ob @ b\<rparr> else ob\<lparr>ob_server := ob_server ob @ b\<rparr>) r)"


text \<open>The wrapped connections: what is written to one endpoint is observed after it was written (\<open>n\<close> bytes of \<open>b\<close>), and an error or a close of either endpoint ends the association.\<close>

definition observe_Read :: "bool \<Rightarrow> observer \<Rightarrow> registry \<Rightarrow> observer \<times> registry" where
  "observe_Read failed ob r = (if failed then closeLocked ob r else (ob, r))"

definition observe_Write :: "bool \<Rightarrow> bytes \<Rightarrow> nat \<Rightarrow> bool \<Rightarrow> gotime \<Rightarrow> gotime \<Rightarrow> observer \<Rightarrow> registry \<Rightarrow> observer \<times> registry" where
  "observe_Write clientSide b n failed now later ob r =
     (let (ob1, r1) = (if n > 0 then feed (\<not> clientSide) (take n b) now later ob r else (ob, r)) in
      if failed then closeLocked ob1 r1 else (ob1, r1))"

definition observe_Close :: "observer \<Rightarrow> registry \<Rightarrow> observer \<times> registry" where
  "observe_Close ob r = closeLocked ob r"

end
