(* ===== verification/Association_Props.thy ===== *)
theory Association_Props
  imports Association
begin

text \<open>
  Properties of the associations of SOCKS5: a proof is given only for a live control connection of the same peer on which the whole handshake with the operator's server was seen, and a proof that was
  revoked once is never valid again.
\<close>

section \<open>The invariant of the registry\<close>

definition reg_inv :: "registry \<Rightarrow> bool" where
  "reg_inv r \<longleftrightarrow> distinct_keys (rg_sessions r) \<and> distinct_keys (rg_index r) \<and> int (length (rg_sessions r)) \<le> rg_limit r
     \<and> (\<forall>i s. map_of (rg_sessions r) i = Some s \<longrightarrow> i \<le> rg_next r \<and> set (cs_bindings s) \<subseteq> set (rg_allowed r) \<and> \<not> cs_closed s)
     \<and> (\<forall>k i b. map_of (rg_index r) (k, i) = Some b \<longrightarrow>
         (\<exists>s. map_of (rg_sessions r) i = Some s \<and> cs_ready s \<and> b \<in> set (cs_bindings s) \<and> key_of s b = k))
     \<and> (\<forall>i s b. map_of (rg_sessions r) i = Some s \<longrightarrow> cs_ready s \<longrightarrow> b \<in> set (cs_bindings s) \<longrightarrow> has (rg_index r) (key_of s b, i))"

lemma reg_invI:
  assumes "distinct_keys (rg_sessions r)" "distinct_keys (rg_index r)" "int (length (rg_sessions r)) \<le> rg_limit r"
    and "\<And>i s. map_of (rg_sessions r) i = Some s \<Longrightarrow> i \<le> rg_next r \<and> set (cs_bindings s) \<subseteq> set (rg_allowed r) \<and> \<not> cs_closed s"
    and "\<And>k i b. map_of (rg_index r) (k, i) = Some b \<Longrightarrow> \<exists>s. map_of (rg_sessions r) i = Some s \<and> cs_ready s \<and> b \<in> set (cs_bindings s) \<and> key_of s b = k"
    and "\<And>i s b. map_of (rg_sessions r) i = Some s \<Longrightarrow> cs_ready s \<Longrightarrow> b \<in> set (cs_bindings s) \<Longrightarrow> has (rg_index r) (key_of s b, i)"
  shows "reg_inv r"
  unfolding reg_inv_def using assms by blast

lemma reg_invD:
  assumes "reg_inv r"
  shows "distinct_keys (rg_sessions r)" "distinct_keys (rg_index r)" "int (length (rg_sessions r)) \<le> rg_limit r"
    and "map_of (rg_sessions r) i = Some s \<Longrightarrow> i \<le> rg_next r \<and> set (cs_bindings s) \<subseteq> set (rg_allowed r) \<and> \<not> cs_closed s"
    and "map_of (rg_index r) (k, i) = Some b \<Longrightarrow> \<exists>s. map_of (rg_sessions r) i = Some s \<and> cs_ready s \<and> b \<in> set (cs_bindings s) \<and> key_of s b = k"
    and "map_of (rg_sessions r) i = Some s \<Longrightarrow> cs_ready s \<Longrightarrow> b \<in> set (cs_bindings s) \<Longrightarrow> has (rg_index r) (key_of s b, i)"
  using assms unfolding reg_inv_def by blast+

lemma map_of_fold_del: "map_of (fold (\<lambda>b. del (f b)) bs m) x = (if x \<in> f ` set bs then None else map_of m x)"
  by (induction bs arbitrary: m) auto

lemma distinct_fold_del: "distinct_keys m \<Longrightarrow> distinct_keys (fold (\<lambda>b. del (f b)) bs m)"
  by (induction bs arbitrary: m) auto

text \<open>Removing a session takes it out of the table and of the index, and changes nothing else.\<close>

lemma removeSession_view:
  assumes "reg_inv r"
  shows "map_of (rg_sessions (removeSession i r)) = (map_of (rg_sessions r))(i := None)"
    "map_of (rg_index (removeSession i r)) (k, j) = (if j = i then None else map_of (rg_index r) (k, j))"
    "rg_allowed (removeSession i r) = rg_allowed r" "rg_next (removeSession i r) = rg_next r"
    "rg_limit (removeSession i r) = rg_limit r" "rg_ttl (removeSession i r) = rg_ttl r"
    "distinct_keys (rg_sessions (removeSession i r))" "distinct_keys (rg_index (removeSession i r))"
    "length (rg_sessions (removeSession i r)) \<le> length (rg_sessions r)"
proof -
  note inv = reg_invD [OF assms]
  have idx: "map_of (rg_index r) (l, i) = Some b \<Longrightarrow> map_of (rg_sessions r) i = Some s \<Longrightarrow> l \<in> key_of s ` set (cs_bindings s)" for l b s
    using inv(5) by fastforce
  have none: "map_of (rg_sessions r) i = None \<Longrightarrow> map_of (rg_index r) (l, i) = None" for l
    using inv(5) by (cases "map_of (rg_index r) (l, i)") fastforce+
  show "map_of (rg_sessions (removeSession i r)) = (map_of (rg_sessions r))(i := None)"
    by (auto simp: removeSession_def fun_eq_iff split: option.splits)
  show "map_of (rg_index (removeSession i r)) (k, j) = (if j = i then None else map_of (rg_index r) (k, j))"
  proof (cases "map_of (rg_sessions r) i")
    case None then show ?thesis using none by (simp add: removeSession_def)
  next
    case (Some s)
    have "map_of (rg_index r) (k, i) = None" if "k \<notin> key_of s ` set (cs_bindings s)"
      using idx [OF _ Some] that by (cases "map_of (rg_index r) (k, i)") auto
    then show ?thesis using Some by (auto simp: removeSession_def map_of_fold_del)
  qed
  show "rg_allowed (removeSession i r) = rg_allowed r" "rg_next (removeSession i r) = rg_next r"
    "rg_limit (removeSession i r) = rg_limit r" "rg_ttl (removeSession i r) = rg_ttl r"
    "distinct_keys (rg_sessions (removeSession i r))" "distinct_keys (rg_index (removeSession i r))"
    "length (rg_sessions (removeSession i r)) \<le> length (rg_sessions r)"
    using inv(1,2) by (auto simp: removeSession_def distinct_fold_del length_del_le split: option.splits)
qed

lemma reg_inv_remove: "reg_inv r \<Longrightarrow> reg_inv (removeSession i r)"
proof -
  assume r: "reg_inv r"
  note inv = reg_invD [OF r] and v = removeSession_view [OF r]
  show ?thesis
  proof (rule reg_invI)
    show "int (length (rg_sessions (removeSession i r))) \<le> rg_limit (removeSession i r)" using inv(3) v(5,9) [of i] by simp
    show "j \<le> rg_next (removeSession i r) \<and> set (cs_bindings s) \<subseteq> set (rg_allowed (removeSession i r)) \<and> \<not> cs_closed s"
      if "map_of (rg_sessions (removeSession i r)) j = Some s" for j s using that inv(4) by (auto simp: v split: if_splits)
    show "\<exists>s. map_of (rg_sessions (removeSession i r)) j = Some s \<and> cs_ready s \<and> b \<in> set (cs_bindings s) \<and> key_of s b = k"
      if "map_of (rg_index (removeSession i r)) (k, j) = Some b" for k j b using that inv(5) by (auto simp: v split: if_splits)
    show "has (rg_index (removeSession i r)) (key_of s b, j)"
      if "map_of (rg_sessions (removeSession i r)) j = Some s" "cs_ready s" "b \<in> set (cs_bindings s)" for j s b
      using that inv(6) by (auto simp: v has_def split: if_splits)
  qed (simp_all add: v)
qed

text \<open>What never comes back: a session keeps its peer and only loses bindings, and new sessions have new numbers.\<close>

definition follows_reg :: "registry \<Rightarrow> registry \<Rightarrow> bool" where
  "follows_reg r r' \<longleftrightarrow> rg_next r \<le> rg_next r' \<and> (\<forall>i s'. i \<le> rg_next r \<longrightarrow> map_of (rg_sessions r') i = Some s' \<longrightarrow>
     (\<exists>s. map_of (rg_sessions r) i = Some s \<and> set (cs_bindings s') \<subseteq> set (cs_bindings s) \<and> cs_peer s' = cs_peer s))"

lemma follows_reg_refl [simp]: "follows_reg r r"
  by (simp add: follows_reg_def)

lemma follows_regI:
  assumes "rg_next r \<le> rg_next r'"
    and "\<And>i s'. i \<le> rg_next r \<Longrightarrow> map_of (rg_sessions r') i = Some s' \<Longrightarrow>
      \<exists>s. map_of (rg_sessions r) i = Some s \<and> set (cs_bindings s') \<subseteq> set (cs_bindings s) \<and> cs_peer s' = cs_peer s"
  shows "follows_reg r r'"
  using assms unfolding follows_reg_def by blast

lemma follows_regD:
  assumes "follows_reg r r'" "i \<le> rg_next r" "map_of (rg_sessions r') i = Some s'"
  obtains s where "map_of (rg_sessions r) i = Some s" "set (cs_bindings s') \<subseteq> set (cs_bindings s)" "cs_peer s' = cs_peer s"
  using assms unfolding follows_reg_def by blast

lemma follows_reg_next: "follows_reg r r' \<Longrightarrow> rg_next r \<le> rg_next r'"
  by (simp add: follows_reg_def)

lemma follows_reg_trans:
  assumes "follows_reg a b" "follows_reg b c"
  shows "follows_reg a c"
proof (rule follows_regI)
  show "rg_next a \<le> rg_next c" using assms follows_reg_next le_trans by blast
  fix i s'' assume i: "i \<le> rg_next a" "map_of (rg_sessions c) i = Some s''"
  have "i \<le> rg_next b" using i(1) follows_reg_next [OF assms(1)] by simp
  then obtain s' where s': "map_of (rg_sessions b) i = Some s'" "set (cs_bindings s'') \<subseteq> set (cs_bindings s')" "cs_peer s'' = cs_peer s'"
    using follows_regD [OF assms(2) _ i(2)] by blast
  obtain s where "map_of (rg_sessions a) i = Some s" "set (cs_bindings s') \<subseteq> set (cs_bindings s)" "cs_peer s' = cs_peer s"
    using follows_regD [OF assms(1) i(1) s'(1)] by blast
  then show "\<exists>s. map_of (rg_sessions a) i = Some s \<and> set (cs_bindings s'') \<subseteq> set (cs_bindings s) \<and> cs_peer s'' = cs_peer s"
    using s' by (intro exI [of _ s]) auto
qed

text \<open>Most operations add no session and make none ready.\<close>

definition shrinks :: "registry \<Rightarrow> registry \<Rightarrow> bool" where
  "shrinks r r' \<longleftrightarrow> rg_next r' = rg_next r \<and> (\<forall>i s'. map_of (rg_sessions r') i = Some s' \<longrightarrow>
     (\<exists>s. map_of (rg_sessions r) i = Some s \<and> set (cs_bindings s') \<subseteq> set (cs_bindings s) \<and> cs_peer s' = cs_peer s \<and> (cs_ready s' \<longrightarrow> cs_ready s)))"

lemma shrinksI:
  assumes "rg_next r' = rg_next r"
    and "\<And>i s'. map_of (rg_sessions r') i = Some s' \<Longrightarrow>
      \<exists>s. map_of (rg_sessions r) i = Some s \<and> set (cs_bindings s') \<subseteq> set (cs_bindings s) \<and> cs_peer s' = cs_peer s \<and> (cs_ready s' \<longrightarrow> cs_ready s)"
  shows "shrinks r r'"
  using assms unfolding shrinks_def by blast

lemma shrinksD:
  assumes "shrinks r r'" "map_of (rg_sessions r') i = Some s'"
  obtains s where "map_of (rg_sessions r) i = Some s" "set (cs_bindings s') \<subseteq> set (cs_bindings s)" "cs_peer s' = cs_peer s" "cs_ready s' \<Longrightarrow> cs_ready s"
  using assms unfolding shrinks_def by blast

lemma shrinks_next: "shrinks r r' \<Longrightarrow> rg_next r' = rg_next r"
  by (simp add: shrinks_def)

lemma shrinks_refl [simp]: "shrinks r r"
  by (simp add: shrinks_def)

lemma shrinks_trans:
  assumes "shrinks a b" "shrinks b c"
  shows "shrinks a c"
proof (rule shrinksI)
  show "rg_next c = rg_next a" using assms by (simp add: shrinks_def)
  fix i s'' assume i: "map_of (rg_sessions c) i = Some s''"
  obtain s' where s': "map_of (rg_sessions b) i = Some s'" "set (cs_bindings s'') \<subseteq> set (cs_bindings s')" "cs_peer s'' = cs_peer s'" "cs_ready s'' \<Longrightarrow> cs_ready s'"
    using shrinksD [OF assms(2) i] by blast
  obtain s where "map_of (rg_sessions a) i = Some s" "set (cs_bindings s') \<subseteq> set (cs_bindings s)" "cs_peer s' = cs_peer s" "cs_ready s' \<Longrightarrow> cs_ready s"
    using shrinksD [OF assms(1) s'(1)] by blast
  then show "\<exists>s. map_of (rg_sessions a) i = Some s \<and> set (cs_bindings s'') \<subseteq> set (cs_bindings s) \<and> cs_peer s'' = cs_peer s \<and> (cs_ready s'' \<longrightarrow> cs_ready s)"
    using s' by (intro exI [of _ s]) auto
qed

lemma shrinks_follows: "shrinks r r' \<Longrightarrow> follows_reg r r'"
  unfolding shrinks_def follows_reg_def by fastforce

lemma shrinks_remove: "reg_inv r \<Longrightarrow> shrinks r (removeSession i r)"
  by (auto simp: shrinks_def removeSession_view)

text \<open>Removing every session with a property.\<close>

lemma remove_fold:
  fixes P :: "control_session \<Rightarrow> bool"
  assumes "reg_inv r"
  defines "r' \<equiv> \<lambda>xs. fold (\<lambda>(i, s) r. if P s then removeSession i r else r) xs r"
  shows "reg_inv (r' xs) \<and> shrinks r (r' xs) \<and> rg_allowed (r' xs) = rg_allowed r \<and> rg_next (r' xs) = rg_next r \<and> rg_limit (r' xs) = rg_limit r \<and> rg_ttl (r' xs) = rg_ttl r
    \<and> (\<forall>i. map_of (rg_sessions (r' xs)) i = (if \<exists>s. (i, s) \<in> set xs \<and> P s then None else map_of (rg_sessions r) i))"
proof (induction xs rule: rev_induct)
  case Nil then show ?case using assms(1) by (simp add: r'_def)
next
  case (snoc x xs)
  obtain i s where x: "x = (i, s)" by (cases x)
  show ?case
  proof (cases "P s")
    case False then show ?thesis using snoc x by (auto simp: r'_def)
  next
    case True
    have e: "r' (xs @ [x]) = removeSession i (r' xs)" using x True by (simp add: r'_def)
    have I: "reg_inv (r' xs)" using snoc by simp
    show ?thesis unfolding e
      using snoc shrinks_remove [OF I, of i] reg_inv_remove [OF I] shrinks_trans x True by (auto simp: removeSession_view [OF I])
  qed
qed

lemma remove_where_view:
  assumes "reg_inv r"
  shows "reg_inv (remove_where P r)" "shrinks r (remove_where P r)" "rg_allowed (remove_where P r) = rg_allowed r" "rg_next (remove_where P r) = rg_next r"
    "rg_limit (remove_where P r) = rg_limit r" "rg_ttl (remove_where P r) = rg_ttl r"
    "map_of (rg_sessions (remove_where P r)) i = (case map_of (rg_sessions r) i of None \<Rightarrow> None | Some s \<Rightarrow> if P s then None else Some s)"
proof -
  note f = remove_fold [OF assms, of P "rg_sessions r", folded remove_where_def]
  have "(\<exists>s. (i, s) \<in> set (rg_sessions r) \<and> P s) \<longleftrightarrow> (\<exists>s. map_of (rg_sessions r) i = Some s \<and> P s)"
    using map_of_in_set [OF reg_invD(1) [OF assms]] by metis
  then show "map_of (rg_sessions (remove_where P r)) i = (case map_of (rg_sessions r) i of None \<Rightarrow> None | Some s \<Rightarrow> if P s then None else Some s)"
    using f by (auto split: option.splits)
qed (use remove_fold [OF assms, of P "rg_sessions r", folded remove_where_def] in auto)

lemma reg_inv_allowed:
  assumes "reg_inv r" "\<And>i s. map_of (rg_sessions r) i = Some s \<Longrightarrow> set (cs_bindings s) \<subseteq> set bs"
  shows "reg_inv (r\<lparr>rg_allowed := bs\<rparr>)"
  using assms unfolding reg_inv_def by simp

lemma removeSession_allowed: "removeSession i (r\<lparr>rg_allowed := bs\<rparr>) = (removeSession i r)\<lparr>rg_allowed := bs\<rparr>"
  by (simp add: removeSession_def split: option.splits)

lemma remove_where_allowed: "remove_where P (r\<lparr>rg_allowed := bs\<rparr>) = (remove_where P r)\<lparr>rg_allowed := bs\<rparr>"
proof -
  have "fold (\<lambda>(i, s) r. if P s then removeSession i r else r) xs (q\<lparr>rg_allowed := bs\<rparr>)
      = (fold (\<lambda>(i, s) r. if P s then removeSession i r else r) xs q)\<lparr>rg_allowed := bs\<rparr>" for xs q
    by (induction xs arbitrary: q) (auto simp: removeSession_allowed)
  then show ?thesis by (simp add: remove_where_def)
qed

lemma shrinks_allowed [simp]: "shrinks r (r'\<lparr>rg_allowed := bs\<rparr>) = shrinks r r'" "shrinks (r\<lparr>rg_allowed := bs\<rparr>) r' = shrinks r r'"
  by (simp_all add: shrinks_def)

lemma prune_view:
  assumes "reg_inv r"
  shows "reg_inv (prune now r)" "shrinks r (prune now r)" "rg_allowed (prune now r) = rg_allowed r" "rg_next (prune now r) = rg_next r"
    "rg_limit (prune now r) = rg_limit r" "rg_ttl (prune now r) = rg_ttl r"
    "map_of (rg_sessions (prune now r)) i = Some s \<Longrightarrow> map_of (rg_sessions r) i = Some s \<and> now < cs_expires s"
  using remove_where_view [OF assms] by (auto simp: prune_def split: option.splits if_splits)

lemma revoke_view:
  assumes "reg_inv r"
  shows "reg_inv (revoke P r)" "shrinks r (revoke P r)" "rg_allowed (revoke P r) = filter (\<lambda>b. \<not> P b) (rg_allowed r)"
    "map_of (rg_sessions (revoke P r)) i = Some s \<Longrightarrow> map_of (rg_sessions r) i = Some s \<and> list_all (\<lambda>b. \<not> P b) (cs_bindings s)"
proof -
  let ?Q = "\<lambda>s. list_ex P (cs_bindings s)"
  have e: "revoke P r = (remove_where ?Q r)\<lparr>rg_allowed := filter (\<lambda>b. \<not> P b) (rg_allowed r)\<rparr>"
    by (simp add: revoke_def remove_where_allowed)
  note v = remove_where_view [OF assms, of ?Q]
  have keep: "map_of (rg_sessions r) i = Some s \<and> list_all (\<lambda>b. \<not> P b) (cs_bindings s)" if "map_of (rg_sessions (remove_where ?Q r)) i = Some s" for i s
    using that v(7) [of i] by (auto simp: list_all_iff list_ex_iff split: option.splits if_splits)
  show "reg_inv (revoke P r)" unfolding e
  proof (rule reg_inv_allowed [OF v(1)])
    fix i s assume a: "map_of (rg_sessions (remove_where ?Q r)) i = Some s"
    then have "set (cs_bindings s) \<subseteq> set (rg_allowed r)" using reg_invD(4) [OF v(1) a] v(3) by simp
    then show "set (cs_bindings s) \<subseteq> set (filter (\<lambda>b. \<not> P b) (rg_allowed r))" using keep [OF a] by (auto simp: list_all_iff)
  qed
  show "shrinks r (revoke P r)" using v(2) by (simp add: e)
  show "rg_allowed (revoke P r) = filter (\<lambda>b. \<not> P b) (rg_allowed r)" by (simp add: e)
  show "map_of (rg_sessions (revoke P r)) i = Some s \<Longrightarrow> map_of (rg_sessions r) i = Some s \<and> list_all (\<lambda>b. \<not> P b) (cs_bindings s)"
    using keep by (simp add: e)
qed

section \<open>Putting sessions into the index\<close>

lemma map_of_fold_put:
  "map_of (fold (\<lambda>b. put (f b, i) b) bs m) (k, j) = Some c \<Longrightarrow> (j = i \<and> c \<in> set bs \<and> f c = k) \<or> map_of m (k, j) = Some c"
proof (induction bs arbitrary: m)
  case (Cons b bs)
  then show ?case by (fastforce split: if_splits)
qed simp

lemma has_fold_put: "has (fold (\<lambda>b. put (f b, i) b) bs m) x \<longleftrightarrow> x \<in> (\<lambda>b. (f b, i)) ` set bs \<or> has m x"
  by (induction bs arbitrary: m) auto

lemma distinct_fold_put: "distinct_keys m \<Longrightarrow> distinct_keys (fold (\<lambda>b. put (f b, i) b) bs m)"
  by (induction bs arbitrary: m) auto

text \<open>The invariant while the index is built: only the sessions in \<open>D\<close> are in it.\<close>

definition reg_on :: "nat set \<Rightarrow> registry \<Rightarrow> bool" where
  "reg_on D r \<longleftrightarrow> distinct_keys (rg_sessions r) \<and> distinct_keys (rg_index r) \<and> int (length (rg_sessions r)) \<le> rg_limit r
     \<and> (\<forall>i s. map_of (rg_sessions r) i = Some s \<longrightarrow> i \<le> rg_next r \<and> set (cs_bindings s) \<subseteq> set (rg_allowed r) \<and> \<not> cs_closed s)
     \<and> (\<forall>k i b. map_of (rg_index r) (k, i) = Some b \<longrightarrow> i \<in> D
         \<and> (\<exists>s. map_of (rg_sessions r) i = Some s \<and> cs_ready s \<and> b \<in> set (cs_bindings s) \<and> key_of s b = k))
     \<and> (\<forall>i s b. i \<in> D \<longrightarrow> map_of (rg_sessions r) i = Some s \<longrightarrow> cs_ready s \<longrightarrow> b \<in> set (cs_bindings s) \<longrightarrow> has (rg_index r) (key_of s b, i))"

lemma reg_on_all: "reg_on D r \<Longrightarrow> \<forall>i s. map_of (rg_sessions r) i = Some s \<longrightarrow> i \<in> D \<or> \<not> cs_ready s \<Longrightarrow> reg_inv r"
  unfolding reg_on_def reg_inv_def by blast

lemma reg_on_not_ready: "reg_inv r \<Longrightarrow> map_of (rg_sessions r) i = Some s \<Longrightarrow> \<not> cs_ready s \<Longrightarrow> reg_on (- {i}) r"
  unfolding reg_on_def reg_inv_def by (intro conjI allI impI) fastforce+

lemma reg_on_index:
  assumes r: "reg_on D r" "i \<notin> D" "map_of (rg_sessions r) i = Some s0"
    and s: "cs_ready s" "set (cs_bindings s) \<subseteq> set (rg_allowed r)" "\<not> cs_closed s"
    and r1: "rg_index r1 = fold (\<lambda>b. put (key_of s b, i) b) (cs_bindings s) (rg_index r)" "map_of (rg_sessions r1) = (map_of (rg_sessions r))(i \<mapsto> s)"
      "distinct_keys (rg_sessions r1)" "length (rg_sessions r1) = length (rg_sessions r)" "rg_limit r1 = rg_limit r" "rg_next r1 = rg_next r" "rg_allowed r1 = rg_allowed r"
  shows "reg_on (insert i D) r1"
proof -
  have old: "j \<in> D \<and> j \<noteq> i \<and> (\<exists>t. map_of (rg_sessions r) j = Some t \<and> cs_ready t \<and> b \<in> set (cs_bindings t) \<and> key_of t b = k)"
    if "map_of (rg_index r) (k, j) = Some b" for k j b using that r(1,2) unfolding reg_on_def by blast
  have new: "j \<in> insert i D \<and> (\<exists>t. map_of (rg_sessions r1) j = Some t \<and> cs_ready t \<and> b \<in> set (cs_bindings t) \<and> key_of t b = k)"
    if "map_of (rg_index r1) (k, j) = Some b" for k j b
  proof -
    have "(j = i \<and> b \<in> set (cs_bindings s) \<and> key_of s b = k) \<or> map_of (rg_index r) (k, j) = Some b"
      using that map_of_fold_put [of "key_of s" i "cs_bindings s" "rg_index r" k j b] by (simp add: r1)
    then show ?thesis using s(1) old [of k j b] by (auto simp: r1(2))
  qed
  have base: "distinct_keys (rg_index r)" "int (length (rg_sessions r)) \<le> rg_limit r"
    "\<And>j t. map_of (rg_sessions r) j = Some t \<Longrightarrow> j \<le> rg_next r \<and> set (cs_bindings t) \<subseteq> set (rg_allowed r) \<and> \<not> cs_closed t"
    "\<And>j t b. j \<in> D \<Longrightarrow> map_of (rg_sessions r) j = Some t \<Longrightarrow> cs_ready t \<Longrightarrow> b \<in> set (cs_bindings t) \<Longrightarrow> has (rg_index r) (key_of t b, j)"
    using r(1) unfolding reg_on_def by blast+
  have "j \<le> rg_next r1 \<and> set (cs_bindings t) \<subseteq> set (rg_allowed r1) \<and> \<not> cs_closed t" if "map_of (rg_sessions r1) j = Some t" for j t
    using that base(3) [of j] base(3) [OF r(3)] s by (auto simp: r1 split: if_splits)
  moreover have "has (rg_index r1) (key_of t b, j)"
    if "j \<in> insert i D" "map_of (rg_sessions r1) j = Some t" "cs_ready t" "b \<in> set (cs_bindings t)" for j t b
    using that base(4) [of j t b] by (auto simp: r1 has_fold_put split: if_splits)
  ultimately show ?thesis unfolding reg_on_def using new base(1,2) r1(3-5) distinct_fold_put [OF base(1)] by (auto simp: r1(1))
qed

lemma reg_on_sessions:
  assumes "reg_on D r" "map_of (rg_sessions r) i = Some s0" "i \<notin> D" "\<not> cs_ready s" "set (cs_bindings s) \<subseteq> set (rg_allowed r)" "\<not> cs_closed s"
  shows "reg_on (insert i D) (r\<lparr>rg_sessions := put i s (rg_sessions r)\<rparr>)"
  using assms unfolding reg_on_def
  by (intro conjI allI impI) (auto simp: length_put has_def split: if_splits)

section \<open>Configuring\<close>

lemma keep_allowed_view:
  "map_of (rg_sessions (keep_allowed bs r)) i = (case map_of (rg_sessions r) i of None \<Rightarrow> None
     | Some s \<Rightarrow> let s' = s\<lparr>cs_bindings := filter (\<lambda>b. b \<in> set bs) (cs_bindings s)\<rparr> in if cs_bindings s' = [] then None else Some s')"
  if "distinct_keys (rg_sessions r)"
proof -
  let ?f = "\<lambda>s. s\<lparr>cs_bindings := filter (\<lambda>b. b \<in> set bs) (cs_bindings s)\<rparr>"
  have "distinct_keys m \<Longrightarrow> map_of (filter (\<lambda>(i, s). cs_bindings s \<noteq> []) (map (\<lambda>(i, s). (i, ?f s)) m)) i
      = (case map_of m i of None \<Rightarrow> None | Some s \<Rightarrow> if cs_bindings (?f s) = [] then None else Some (?f s))" for m :: "(nat, control_session) gomap"
  proof (induction m)
    case (Cons x m)
    obtain j s where x: "x = (j, s)" by (cases x)
    have "distinct_keys m" "map_of m j = None" using Cons.prems x by (auto simp: distinct_keys_def map_of_eq_None_iff)
    then show ?case using Cons.IH x by (cases "j = i") auto
  qed simp
  note this [OF that]
  then show ?thesis by (auto simp: keep_allowed_def Let_def split: option.splits)
qed

lemma keep_allowed_rest:
  "rg_next (keep_allowed bs r) = rg_next r" "rg_limit (keep_allowed bs r) = rg_limit r" "rg_ttl (keep_allowed bs r) = rg_ttl r"
  "rg_allowed (keep_allowed bs r) = rg_allowed r" "rg_index (keep_allowed bs r) = []" "length (rg_sessions (keep_allowed bs r)) \<le> length (rg_sessions r)"
  "distinct_keys (rg_sessions r) \<Longrightarrow> distinct_keys (rg_sessions (keep_allowed bs r))"
proof -
  show "length (rg_sessions (keep_allowed bs r)) \<le> length (rg_sessions r)"
    unfolding keep_allowed_def by simp
  have "map fst (map (\<lambda>(i, s). (i, s\<lparr>cs_bindings := filter (\<lambda>b. b \<in> set bs) (cs_bindings s)\<rparr>)) m) = map fst m" for m :: "(nat, control_session) gomap"
    by auto
  then have "distinct_keys (rg_sessions r) \<Longrightarrow>
    distinct (map fst (map (\<lambda>(i, s). (i, s\<lparr>cs_bindings := filter (\<lambda>b. b \<in> set bs) (cs_bindings s)\<rparr>)) (rg_sessions r)))"
    unfolding distinct_keys_def by (simp only:)
  then show "distinct_keys (rg_sessions r) \<Longrightarrow> distinct_keys (rg_sessions (keep_allowed bs r))"
    unfolding keep_allowed_def distinct_keys_def
    using distinct_map_filter [of fst "map (\<lambda>(i, s). (i, s\<lparr>cs_bindings := filter (\<lambda>b. b \<in> set bs) (cs_bindings s)\<rparr>)) (rg_sessions r)"] by simp
qed (simp_all add: keep_allowed_def)

lemma reindex_on:
  assumes "reg_on D r" "i \<notin> D"
  shows "reg_on (insert i D) (reindex i r) \<and> shrinks r (reindex i r) \<and> rg_allowed (reindex i r) = rg_allowed r
    \<and> rg_limit (reindex i r) = rg_limit r \<and> rg_ttl (reindex i r) = rg_ttl r"
proof (cases "map_of (rg_sessions r) i")
  case None
  have "reg_on (insert i D) r" using assms(1) None unfolding reg_on_def by auto
  then show ?thesis using None by (simp add: reindex_def)
next
  case (Some s)
  have s: "set (cs_bindings s) \<subseteq> set (rg_allowed r)" "\<not> cs_closed s" using assms(1) Some unfolding reg_on_def by blast+
  show ?thesis
  proof (cases "cs_ready s")
    case False
    have "reg_on (insert i D) r" using assms(1) Some False unfolding reg_on_def by auto
    then show ?thesis using Some False by (simp add: reindex_def)
  next
    case ready: True
    show ?thesis
    proof (cases "indexSession i s r")
      case None
      have "reg_on (insert i D) (r\<lparr>rg_sessions := put i (s\<lparr>cs_ready := False\<rparr>) (rg_sessions r)\<rparr>)"
        using reg_on_sessions [OF assms(1) Some assms(2)] s by simp
      moreover have "shrinks r (r\<lparr>rg_sessions := put i (s\<lparr>cs_ready := False\<rparr>) (rg_sessions r)\<rparr>)" using Some by (auto intro!: shrinksI split: if_splits)
      ultimately show ?thesis using Some ready None by (simp add: reindex_def)
    next
      case r1: (Some r1)
      have e: "r1 = r\<lparr>rg_index := fold (\<lambda>b. put (key_of s b, i) b) (cs_bindings s) (rg_index r)\<rparr>" using r1 by (auto simp: indexSession_def split: if_splits)
      have "distinct_keys (rg_sessions r)" using assms(1) unfolding reg_on_def by blast
      then have "reg_on (insert i D) r1" using reg_on_index [OF assms Some ready s, of r1] Some by (simp add: e fun_upd_idem)
      then show ?thesis using Some ready r1 by (simp add: reindex_def e shrinks_def)
    qed
  qed
qed

lemma reindex_fold:
  assumes "reg_on {} r" "distinct (map fst xs)"
  shows "reg_on (fst ` set xs) (fold (\<lambda>(i, s). reindex i) xs r) \<and> shrinks r (fold (\<lambda>(i, s). reindex i) xs r) \<and> rg_allowed (fold (\<lambda>(i, s). reindex i) xs r) = rg_allowed r
    \<and> rg_limit (fold (\<lambda>(i, s). reindex i) xs r) = rg_limit r \<and> rg_ttl (fold (\<lambda>(i, s). reindex i) xs r) = rg_ttl r"
  using assms(2)
proof (induction xs rule: rev_induct)
  case Nil then show ?case using assms(1) by simp
next
  case (snoc x xs)
  obtain i s where x: "x = (i, s)" by (cases x)
  have "i \<notin> fst ` set xs" "distinct (map fst xs)" using snoc.prems x by auto
  then show ?case using snoc.IH reindex_on [of "fst ` set xs" "fold (\<lambda>(i, s). reindex i) xs r" i] x shrinks_trans by auto
qed

lemma Configure_view:
  assumes "reg_inv r" "Configure_registry bindings now r = Inr r'"
  shows "reg_inv r'" "shrinks r r'" "rg_allowed r' = map canonicalBinding bindings" "rg_limit r' = rg_limit r" "rg_ttl r' = rg_ttl r"
proof -
  define bs where "bs = map canonicalBinding bindings"
  define p where "p = prune now r"
  define q where "q = keep_allowed bs (p\<lparr>rg_allowed := bs\<rparr>)"
  have p: "reg_inv p" "shrinks r p" "rg_limit p = rg_limit r" "rg_ttl p = rg_ttl r" using prune_view [OF assms(1)] by (simp_all add: p_def)
  have r': "r' = fold (\<lambda>(i, s). reindex i) (rg_sessions q) q"
    using assms(2) by (auto simp: Configure_registry_def Let_def prune_def remove_where_allowed p_def q_def bs_def split: if_splits)
  note inv = reg_invD [OF p(1)]
  have view: "map_of (rg_sessions q) i = (case map_of (rg_sessions p) i of None \<Rightarrow> None
     | Some s \<Rightarrow> let s' = s\<lparr>cs_bindings := filter (\<lambda>b. b \<in> set bs) (cs_bindings s)\<rparr> in if cs_bindings s' = [] then None else Some s')" for i
    using keep_allowed_view [where r = "p\<lparr>rg_allowed := bs\<rparr>" and bs = bs and i = i] inv(1) by (simp add: q_def)
  have sub: "\<exists>s. map_of (rg_sessions p) i = Some s \<and> s' = s\<lparr>cs_bindings := filter (\<lambda>b. b \<in> set bs) (cs_bindings s)\<rparr>" if "map_of (rg_sessions q) i = Some s'" for i s'
    using that view by (auto simp: Let_def split: option.splits if_splits)
  have q: "rg_next q = rg_next p" "rg_limit q = rg_limit p" "rg_ttl q = rg_ttl p" "rg_allowed q = bs" "rg_index q = []"
    "length (rg_sessions q) \<le> length (rg_sessions p)" "distinct_keys (rg_sessions q)"
    using keep_allowed_rest [where r = "p\<lparr>rg_allowed := bs\<rparr>" and bs = bs] inv(1) by (simp_all add: q_def)
  have "i \<le> rg_next q \<and> set (cs_bindings s) \<subseteq> set (rg_allowed q) \<and> \<not> cs_closed s" if "map_of (rg_sessions q) i = Some s" for i s
    using sub [OF that] inv(4) by (auto simp: q)
  then have "reg_on {} q" unfolding reg_on_def using q inv(3) by simp
  note f = reindex_fold [OF this q(7) [unfolded distinct_keys_def], folded r']
  have "shrinks p q" by (rule shrinksI) (use sub in \<open>fastforce simp: q\<close>)+
  moreover have "shrinks q r'" using f by simp
  ultimately show "shrinks r r'" using shrinks_trans [OF p(2)] shrinks_trans by blast
  show "rg_allowed r' = map canonicalBinding bindings" "rg_limit r' = rg_limit r" "rg_ttl r' = rg_ttl r" using f q p by (simp_all add: bs_def)
  have "i \<in> fst ` set (rg_sessions q)" if a: "map_of (rg_sessions r') i = Some s" for i s
  proof -
    have "shrinks q r'" using f by simp
    then obtain s0 where "map_of (rg_sessions q) i = Some s0" using shrinksD [OF _ a] by blast
    then show ?thesis by (force dest: map_of_SomeD)
  qed
  then have "\<forall>i s. map_of (rg_sessions r') i = Some s \<longrightarrow> i \<in> fst ` set (rg_sessions q) \<or> \<not> cs_ready s" by blast
  then show "reg_inv r'" using f reg_on_all [of "fst ` set (rg_sessions q)" r'] by simp
qed


section \<open>Sessions that change\<close>

lemma reg_inv_session:
  assumes "reg_inv r" "map_of (rg_sessions r) i = Some s" "cs_bindings s' = cs_bindings s" "cs_peer s' = cs_peer s" "cs_ready s' = cs_ready s" "\<not> cs_closed s'"
  shows "reg_inv (r\<lparr>rg_sessions := put i s' (rg_sessions r)\<rparr>) \<and> shrinks r (r\<lparr>rg_sessions := put i s' (rg_sessions r)\<rparr>)"
proof
  have k: "key_of s' b = key_of s b" for b using assms(4) by (simp add: key_of_def)
  note inv = reg_invD [OF assms(1)]
  show "reg_inv (r\<lparr>rg_sessions := put i s' (rg_sessions r)\<rparr>)"
  proof (rule reg_invI)
    show "\<exists>t. map_of (rg_sessions (r\<lparr>rg_sessions := put i s' (rg_sessions r)\<rparr>)) j = Some t \<and> cs_ready t \<and> b \<in> set (cs_bindings t) \<and> key_of t b = l"
      if "map_of (rg_index (r\<lparr>rg_sessions := put i s' (rg_sessions r)\<rparr>)) (l, j) = Some b" for l j b
      using inv(5) [of l j b] that assms k by auto
  qed (use inv assms k in \<open>auto simp: length_put has_def split: if_splits\<close>)
  show "shrinks r (r\<lparr>rg_sessions := put i s' (rg_sessions r)\<rparr>)" by (rule shrinksI) (use assms in \<open>auto split: if_splits\<close>)
qed

lemma set_port_view: "reg_inv r \<Longrightarrow> reg_inv (set_port i port r) \<and> shrinks r (set_port i port r) \<and> rg_allowed (set_port i port r) = rg_allowed r
    \<and> (map_of (rg_sessions (set_port i port r)) j = None \<longleftrightarrow> map_of (rg_sessions r) j = None)"
  using reg_inv_session [of r i] reg_invD(4) [of r i] by (auto simp: set_port_def split: option.splits if_splits)

lemma reg_inv_unready:
  assumes "reg_inv r" "map_of (rg_sessions r) i = Some s" "\<not> cs_ready s" "\<not> cs_ready s'" "set (cs_bindings s') \<subseteq> set (cs_bindings s)" "cs_peer s' = cs_peer s" "\<not> cs_closed s'"
  shows "reg_inv (r\<lparr>rg_sessions := put i s' (rg_sessions r)\<rparr>) \<and> shrinks r (r\<lparr>rg_sessions := put i s' (rg_sessions r)\<rparr>)"
proof
  have "set (cs_bindings s') \<subseteq> set (rg_allowed r)" using reg_invD(4) [OF assms(1,2)] assms(5) by blast
  then have "reg_on (insert i (- {i})) (r\<lparr>rg_sessions := put i s' (rg_sessions r)\<rparr>)"
    using reg_on_sessions [OF reg_on_not_ready [OF assms(1-3)] assms(2)] assms(4,7) by simp
  then show "reg_inv (r\<lparr>rg_sessions := put i s' (rg_sessions r)\<rparr>)" by (rule reg_on_all) auto
  show "shrinks r (r\<lparr>rg_sessions := put i s' (rg_sessions r)\<rparr>)" by (rule shrinksI) (use assms in \<open>auto split: if_splits\<close>)
qed

text \<open>A session becomes ready only with bindings that name the relay of the answer.\<close>

lemma make_ready_view:
  assumes r: "reg_inv r" and s: "\<And>s. map_of (rg_sessions r) i = Some s \<Longrightarrow> \<not> cs_ready s" and m: "make_ready i ep now later r = (ok, r')"
  shows "reg_inv r'" "follows_reg r r'" "rg_next r' = rg_next r" "rg_allowed r' = rg_allowed r" "\<not> ok \<Longrightarrow> shrinks r r'"
    "map_of (rg_sessions r') j = Some t \<Longrightarrow> cs_ready t \<Longrightarrow> (\<exists>u. map_of (rg_sessions r) j = Some u \<and> cs_ready u \<and> j \<noteq> i \<and> t = u)
       \<or> ok \<and> j = i \<and> (\<forall>b\<in>set (cs_bindings t). bd_RelayEndpoint b = ep)"
proof -
  have "reg_inv r' \<and> follows_reg r r' \<and> rg_next r' = rg_next r \<and> rg_allowed r' = rg_allowed r \<and> (\<not> ok \<longrightarrow> shrinks r r')
    \<and> (map_of (rg_sessions r') j = Some t \<longrightarrow> cs_ready t \<longrightarrow> (\<exists>u. map_of (rg_sessions r) j = Some u \<and> cs_ready u \<and> j \<noteq> i \<and> t = u)
       \<or> ok \<and> j = i \<and> (\<forall>b\<in>set (cs_bindings t). bd_RelayEndpoint b = ep))"
  proof (cases "map_of (rg_sessions r) i")
    case None then show ?thesis using r m by (auto simp: make_ready_def)
  next
    case (Some u)
    note nr = s [OF Some]
    define s1 where "s1 = u\<lparr>cs_bindings := filter (\<lambda>b. bd_RelayEndpoint b = ep \<and> b \<in> set (rg_allowed r)) (cs_bindings u)\<rparr>"
    define r1 where "r1 = r\<lparr>rg_sessions := put i s1 (rg_sessions r)\<rparr>"
    have u: "\<not> cs_closed u" using reg_invD(4) [OF r Some] by simp
    show ?thesis
    proof (cases "\<not> now < cs_expires u")
      case True then show ?thesis using Some m r s nr by (auto simp: make_ready_def)
    next
      case live: False
      have r1: "reg_inv r1 \<and> shrinks r r1" unfolding r1_def using reg_inv_unready [OF r Some nr, of s1] nr u by (auto simp: s1_def)
      have one: "map_of (rg_sessions r1) i = Some s1" by (simp add: r1_def)
      show ?thesis
      proof (cases "cs_bindings s1 = []")
        case True
        then have "ok = False" "r' = r1" using m Some live u by (simp_all add: make_ready_def Let_def s1_def r1_def)
        moreover have "follows_reg r r1" using r1 shrinks_follows by blast
        moreover have "map_of (rg_sessions r1) = (map_of (rg_sessions r))(i \<mapsto> s1)" "rg_next r1 = rg_next r" "rg_allowed r1 = rg_allowed r" "\<not> cs_ready s1"
          using nr by (simp_all add: r1_def s1_def)
        ultimately show ?thesis using r1 by (auto split: if_splits)
      next
        case ne: False
        show ?thesis
        proof (cases "indexSession i s1 r1")
          case None
          then have e: "ok = False" "r' = r1\<lparr>rg_sessions := put i (s1\<lparr>cs_ready := False, cs_expires := later + rg_ttl r\<rparr>) (rg_sessions r1)\<rparr>"
            using m Some live u ne by (simp_all add: make_ready_def Let_def s1_def r1_def)
          have "reg_inv r' \<and> shrinks r1 r'" unfolding e(2) using reg_inv_unready [of r1 i s1] r1 one nr u by (simp add: s1_def)
          then have h: "reg_inv r'" "shrinks r r'" "follows_reg r r'" using shrinks_trans [OF r1 [THEN conjunct2]] shrinks_follows by blast+
          have "map_of (rg_sessions r') = (map_of (rg_sessions r))(i \<mapsto> s1\<lparr>cs_ready := False, cs_expires := later + rg_ttl r\<rparr>)" "rg_next r' = rg_next r" "rg_allowed r' = rg_allowed r"
            by (simp_all add: e(2) r1_def)
          then show ?thesis using h e(1) by (auto split: if_splits)
        next
          case i2: (Some r2)
          let ?s = "s1\<lparr>cs_ready := True, cs_expires := later + rg_ttl r\<rparr>"
          have e: "ok" "r' = r2\<lparr>rg_sessions := put i ?s (rg_sessions r2)\<rparr>" using m Some live u ne i2 by (simp_all add: make_ready_def Let_def s1_def r1_def)
          have r2: "r2 = r1\<lparr>rg_index := fold (\<lambda>b. put (key_of s1 b, i) b) (cs_bindings s1) (rg_index r1)\<rparr>" using i2 by (auto simp: indexSession_def split: if_splits)
          have key: "key_of ?s = key_of s1" by (simp add: key_of_def fun_eq_iff)
          have nr1: "\<not> cs_ready s1" using nr by (simp add: s1_def)
          have ok1: "reg_inv r1" "set (cs_bindings s1) \<subseteq> set (rg_allowed r1)" "\<not> cs_closed s1" using r1 u by (auto simp: s1_def r1_def)
          have "reg_on (insert i (- {i})) r'"
            by (rule reg_on_index [OF reg_on_not_ready [OF r1 [THEN conjunct1] one nr1] _ one, of ?s])
              (use ok1 reg_invD(1) [of r1] one in \<open>auto simp: e(2) r2 key length_put has_def\<close>)
          then have "reg_inv r'" by (rule reg_on_all) auto
          moreover have "follows_reg r r'" by (rule follows_regI) (use Some in \<open>auto simp: e(2) r2 r1_def s1_def split: if_splits\<close>)
          moreover have "map_of (rg_sessions r') = (map_of (rg_sessions r))(i \<mapsto> ?s)" "rg_next r' = rg_next r" "rg_allowed r' = rg_allowed r"
            by (simp_all add: e(2) r2 r1_def)
          moreover have "\<forall>b\<in>set (cs_bindings ?s). bd_RelayEndpoint b = ep" by (simp add: s1_def)
          ultimately show ?thesis using e(1) by (auto split: if_splits)
        qed
      qed
    qed
  qed
  then show "reg_inv r'" "follows_reg r r'" "rg_next r' = rg_next r" "rg_allowed r' = rg_allowed r" "\<not> ok \<Longrightarrow> shrinks r r'"
    "map_of (rg_sessions r') j = Some t \<Longrightarrow> cs_ready t \<Longrightarrow> (\<exists>u. map_of (rg_sessions r) j = Some u \<and> cs_ready u \<and> j \<noteq> i \<and> t = u)
       \<or> ok \<and> j = i \<and> (\<forall>b\<in>set (cs_bindings t). bd_RelayEndpoint b = ep)" by blast+
qed


section \<open>Admission\<close>

definition fits :: "gotime \<Rightarrow> addr_port \<Rightarrow> registry \<Rightarrow> nat \<times> assoc_binding \<Rightarrow> bool" where
  "fits now source r x \<longleftrightarrow> (\<exists>s. map_of (rg_sessions r) (fst x) = Some s \<and> now < cs_expires s \<and> cs_ready s \<and> \<not> cs_closed s \<and> Some (cs_peer s) = ap_Addr source
     \<and> (cs_port s = 0 \<or> cs_port s = ap_Port source) \<and> snd x \<in> set (rg_allowed r))"

text \<open>The loop only removes sessions that have expired.\<close>

definition loop_ok :: "gotime \<Rightarrow> registry \<Rightarrow> registry \<Rightarrow> bool" where
  "loop_ok now r r' \<longleftrightarrow> reg_inv r' \<and> shrinks r r' \<and> rg_allowed r' = rg_allowed r \<and> rg_ttl r' = rg_ttl r
     \<and> (\<forall>i s. map_of (rg_sessions r') i = Some s \<longrightarrow> map_of (rg_sessions r) i = Some s)
     \<and> (\<forall>i s. map_of (rg_sessions r) i = Some s \<longrightarrow> now < cs_expires s \<longrightarrow> map_of (rg_sessions r') i = Some s)"

lemma loop_ok_trans:
  assumes "loop_ok now a b" "loop_ok now b c"
  shows "loop_ok now a c"
proof -
  have "shrinks a c" using assms shrinks_trans [of a b c] unfolding loop_ok_def by blast
  moreover have "rg_allowed c = rg_allowed a" "rg_ttl c = rg_ttl a" using assms unfolding loop_ok_def by metis+
  ultimately show ?thesis using assms unfolding loop_ok_def by blast
qed

lemma loop_ok_fits: "loop_ok now r r' \<Longrightarrow> fits now source r' x = fits now source r x"
  unfolding loop_ok_def fits_def by metis

lemma loop_ok_remove:
  assumes "reg_inv r" "map_of (rg_sessions r) i = Some s" "\<not> now < cs_expires s"
  shows "loop_ok now r (removeSession i r)"
  using assms removeSession_view [OF assms(1), of i] reg_inv_remove shrinks_remove unfolding loop_ok_def by (auto split: if_splits)

lemma no_index: "reg_inv r \<Longrightarrow> map_of (rg_sessions r) i = None \<Longrightarrow> r\<lparr>rg_index := del (k, i) (rg_index r)\<rparr> = r"
proof -
  assume r: "reg_inv r" "map_of (rg_sessions r) i = None"
  have "map_of (rg_index r) (k, i) = None" using reg_invD(5) [OF r(1), of k i] r(2) by (cases "map_of (rg_index r) (k, i)") auto
  then have "(k, i) \<notin> fst ` set (rg_index r)" by (simp add: map_of_eq_None_iff)
  then show ?thesis by (simp add: delete_id)
qed

lemma admit_loop_view:
  assumes "reg_inv r" "admit_loop k now source row r chosen = (r', res)"
  shows "loop_ok now r r' \<and> (\<forall>c. res = Some c \<longrightarrow>
      (c = chosen \<or> (\<exists>x\<in>set row. c = Some x \<and> fits now source r x))
      \<and> (\<forall>x\<in>set row. fits now source r x \<longrightarrow> (\<exists>b. c = Some (fst x, b)))
      \<and> (\<forall>i b. chosen = Some (i, b) \<longrightarrow> (\<exists>b'. c = Some (i, b'))))"
  using assms
proof (induction row arbitrary: r chosen)
  case Nil then show ?case by (auto simp: loop_ok_def)
next
  case (Cons x row)
  obtain i b where x: "x = (i, b)" by (cases x)
  show ?case
  proof (cases "map_of (rg_sessions r) i")
    case None
    then have "admit_loop k now source row r chosen = (r', res)" using Cons.prems x no_index by simp
    moreover have "\<not> fits now source r x" using x None by (simp add: fits_def)
    ultimately show ?thesis using Cons.IH [OF Cons.prems(1)] by auto
  next
    case (Some s)
    show ?thesis
    proof (cases "now < cs_expires s")
      case False
      let ?r = "removeSession i r"
      have ok: "loop_ok now r ?r" using loop_ok_remove [OF Cons.prems(1) Some False] .
      have run: "admit_loop k now source row ?r chosen = (r', res)" using Cons.prems(2) x Some False by simp
      have "reg_inv ?r" using ok by (simp add: loop_ok_def)
      note IH = Cons.IH [OF this run]
      have "\<not> fits now source r x" using Some False x by (simp add: fits_def)
      then show ?thesis using IH loop_ok_trans [OF ok] unfolding loop_ok_fits [OF ok] by auto
    next
      case live: True
      have closed: "\<not> cs_closed s" using reg_invD(4) [OF Cons.prems(1) Some] by simp
      have fx: "fits now source r x \<longleftrightarrow> cs_ready s \<and> Some (cs_peer s) = ap_Addr source \<and> (cs_port s = 0 \<or> cs_port s = ap_Port source) \<and> b \<in> set (rg_allowed r)"
        using Some live closed x by (simp add: fits_def)
      show ?thesis
      proof (cases "fits now source r x")
        case False
        then have "admit_loop k now source row r chosen = (r', res)" using Cons.prems(2) x Some live closed fx by (auto split: if_splits)
        then show ?thesis using Cons.IH [OF Cons.prems(1)] False by auto
      next
        case True
        show ?thesis
        proof (cases "case chosen of None \<Rightarrow> False | Some (j, _) \<Rightarrow> j \<noteq> i")
          case two: True
          then have "r' = r" "res = None" using Cons.prems(2) x Some live closed fx True by (auto split: if_splits)
          then show ?thesis using Cons.prems(1) by (auto simp: loop_ok_def)
        next
          case False
          then have "admit_loop k now source row r (Some (i, b)) = (r', res)" using Cons.prems(2) x Some live closed fx True by (auto split: if_splits)
          note IH = Cons.IH [OF Cons.prems(1) this]
          have "chosen = None \<or> (\<exists>c. chosen = Some (i, c))" using False by (cases chosen) auto
          then show ?thesis using IH x True by auto
        qed
      qed
    qed
  qed
qed

lemma index_row_set: "reg_inv r \<Longrightarrow> (i, b) \<in> set (index_row k r) \<longleftrightarrow> map_of (rg_index r) (k, i) = Some b"
  using map_of_in_set [OF reg_invD(2), of r "(k, i)" b] by (force simp: index_row_def)

definition admission_key :: "string \<Rightarrow> string \<Rightarrow> string \<Rightarrow> addr \<Rightarrow> lookup_key" where
  "admission_key ruleID generation target a = \<lparr>lk_ruleID = ruleID, lk_generation = generation, lk_target = target, lk_peer = a\<rparr>"

text \<open>The sessions that can vouch for a packet.\<close>

definition vouches :: "string \<Rightarrow> string \<Rightarrow> string \<Rightarrow> addr \<Rightarrow> 16 word \<Rightarrow> gotime \<Rightarrow> registry \<Rightarrow> nat \<Rightarrow> assoc_binding \<Rightarrow> bool" where
  "vouches ruleID generation target a port now r i b \<longleftrightarrow> (\<exists>s. map_of (rg_sessions r) i = Some s \<and> cs_ready s \<and> now < cs_expires s \<and> cs_peer s = a
     \<and> (cs_port s = 0 \<or> cs_port s = port) \<and> b \<in> set (cs_bindings s) \<and> b \<in> set (rg_allowed r)
     \<and> bd_UDPRuleID b = ruleID \<and> bd_Generation b = generation \<and> bd_RelayTarget b = target)"

lemma Admission_view:
  assumes r: "reg_inv r" and ord: "\<And>xs. set (order xs) = set xs" and adm: "Admission order ruleID generation source target payload now later r = (po, r')"
  shows "reg_inv r'" "shrinks r r'" "rg_allowed r' = rg_allowed r"
    "po = Some p \<Longrightarrow> \<exists>a. ap_Addr source = Some a \<and> validUDP payload \<and> vouches ruleID generation target (Unmap a) (ap_Port source) now r (pf_sessionID p) (pf_binding p)
        \<and> (\<forall>j c. vouches ruleID generation target (Unmap a) (ap_Port source) now r j c \<longrightarrow> j = pf_sessionID p)"
proof -
  have "reg_inv r' \<and> shrinks r r' \<and> rg_allowed r' = rg_allowed r \<and> (po = Some p \<longrightarrow> (\<exists>a. ap_Addr source = Some a \<and> validUDP payload
      \<and> vouches ruleID generation target (Unmap a) (ap_Port source) now r (pf_sessionID p) (pf_binding p)
      \<and> (\<forall>j c. vouches ruleID generation target (Unmap a) (ap_Port source) now r j c \<longrightarrow> j = pf_sessionID p)))"
proof (cases "\<exists>a. ap_Addr source = Some a \<and> ap_Port source \<noteq> 0 \<and> validUDP payload")
  case False
  then have "po = None" "r' = r" using adm by (auto simp: Admission_def split: option.splits if_splits)
  then show ?thesis using r by simp
next
  case True
  then obtain a where a: "ap_Addr source = Some a" "ap_Port source \<noteq> 0" "validUDP payload" by blast
  define src where "src = source\<lparr>ap_Addr := Some (Unmap a)\<rparr>"
  define k where "k = admission_key ruleID generation target (Unmap a)"
  obtain r1 res where l: "admit_loop k now src (order (index_row k r)) r None = (r1, res)" by fastforce
  note v = admit_loop_view [OF r l]
  have ok: "loop_ok now r r1" using v by blast
  then have r1: "reg_inv r1" "shrinks r r1" "rg_allowed r1 = rg_allowed r" by (simp_all add: loop_ok_def)
  have adm': "(po, r') = (case res of Some (Some (i, b)) \<Rightarrow> (case map_of (rg_sessions r1) i of None \<Rightarrow> (None, r1)
      | Some s \<Rightarrow> (Some \<lparr>pf_sessionID = i, pf_binding = b, pf_source = src\<rparr>,
          r1\<lparr>rg_sessions := put i (s\<lparr>cs_port := ap_Port src, cs_expires := later + rg_ttl r1\<rparr>) (rg_sessions r1)\<rparr>)) | _ \<Rightarrow> (None, r1))"
    using adm a l by (auto simp: Admission_def Let_def src_def k_def admission_key_def split: option.splits prod.splits)
  show ?thesis
  proof (cases po)
    case None
    then have "r' = r1" using adm' by (auto split: option.splits)
    then show ?thesis using r1 None by simp
  next
    case (Some p')
    then obtain i b s where c: "res = Some (Some (i, b))" "map_of (rg_sessions r1) i = Some s" "p' = \<lparr>pf_sessionID = i, pf_binding = b, pf_source = src\<rparr>"
      "r' = r1\<lparr>rg_sessions := put i (s\<lparr>cs_port := ap_Port src, cs_expires := later + rg_ttl r1\<rparr>) (rg_sessions r1)\<rparr>"
      using adm' by (auto split: option.splits prod.splits)
    have "\<not> cs_closed s" using reg_invD(4) [OF r1(1) c(2)] by simp
    then have r': "reg_inv r'" "shrinks r1 r'" "rg_allowed r' = rg_allowed r1"
      using reg_inv_session [OF r1(1) c(2), of "s\<lparr>cs_port := ap_Port src, cs_expires := later + rg_ttl r1\<rparr>"] by (simp_all add: c(4))
    have row: "(i, b) \<in> set (index_row k r)" "fits now src r (i, b)" using v c(1) ord by auto
    have idx: "map_of (rg_index r) (k, i) = Some b" using row(1) index_row_set [OF r] by simp
    obtain s0 where s0: "map_of (rg_sessions r) i = Some s0" "b \<in> set (cs_bindings s0)" "key_of s0 b = k" using reg_invD(5) [OF r idx] by blast
    have uniq: "j = i" if vo: "vouches ruleID generation target (Unmap a) (ap_Port source) now r j e" for j e
    proof -
      obtain t where t: "map_of (rg_sessions r) j = Some t" "cs_ready t" "now < cs_expires t" "cs_peer t = Unmap a" "cs_port t = 0 \<or> cs_port t = ap_Port source"
        and e: "e \<in> set (cs_bindings t)" "bd_UDPRuleID e = ruleID" "bd_Generation e = generation" "bd_RelayTarget e = target" using vo unfolding vouches_def by blast
      have "key_of t e = k" using t(4) e by (simp add: key_of_def k_def admission_key_def)
      then obtain d where d: "map_of (rg_index r) (k, j) = Some d" using reg_invD(6) [OF r t(1,2) e(1)] by (auto simp: has_def)
      obtain t' where "map_of (rg_sessions r) j = Some t'" "d \<in> set (cs_bindings t')" using reg_invD(5) [OF r d] by blast
      then have "d \<in> set (rg_allowed r)" using reg_invD(4) [OF r t(1)] t(1) by auto
      then have "fits now src r (j, d)" using t reg_invD(4) [OF r t(1)] by (simp add: fits_def src_def)
      moreover have "(j, d) \<in> set (order (index_row k r))" using d index_row_set [OF r] ord by simp
      ultimately show ?thesis using v c(1) by fastforce
    qed
    have f: "cs_ready s0" "now < cs_expires s0" "cs_peer s0 = Unmap a" "cs_port s0 = 0 \<or> cs_port s0 = ap_Port source" "b \<in> set (rg_allowed r)"
      using row(2) s0(1) by (auto simp: fits_def src_def)
    have kk: "bd_UDPRuleID b = ruleID" "bd_Generation b = generation" "bd_RelayTarget b = target" using s0(3) by (auto simp: key_of_def k_def admission_key_def)
    have "shrinks r r'" using shrinks_trans r1(2) r'(2) by blast
    moreover have "rg_allowed r' = rg_allowed r" using r'(3) r1(3) by simp
    moreover have "vouches ruleID generation target (Unmap a) (ap_Port source) now r i b" unfolding vouches_def using s0 f kk by blast
    moreover have "pf_sessionID p = i" "pf_binding p = b" if "po = Some p" using that Some c(3) by auto
    ultimately show ?thesis using r'(1) a(1,3) uniq by blast
  qed
  qed
  then show "reg_inv r'" "shrinks r r'" "rg_allowed r' = rg_allowed r"
    "po = Some p \<Longrightarrow> \<exists>a. ap_Addr source = Some a \<and> validUDP payload \<and> vouches ruleID generation target (Unmap a) (ap_Port source) now r (pf_sessionID p) (pf_binding p)
        \<and> (\<forall>j c. vouches ruleID generation target (Unmap a) (ap_Port source) now r j c \<longrightarrow> j = pf_sessionID p)" by blast+
qed

end
