(* ===== verification/Association_Run.thy ===== *)
theory Association_Run
  imports Association_Props
begin

text \<open>
  The handshake that an observer sees, and the machine of a registry with its observers.
\<close>

section \<open>The handshake\<close>

definition is_greeting :: "bytes \<Rightarrow> bytes \<Rightarrow> bool" where
  "is_greeting g ms \<longleftrightarrow> length g \<ge> 2 \<and> g ! 0 = 5 \<and> g ! 1 \<noteq> 0 \<and> length g = 2 + unat (g ! 1) \<and> ms = drop 2 g \<and> 255 \<notin> set ms"

definition is_login :: "bytes \<Rightarrow> bool" where
  "is_login l \<longleftrightarrow> length l \<ge> 2 \<and> l ! 0 = 1 \<and> l ! 1 \<noteq> 0 \<and> length l > 2 + unat (l ! 1) \<and> l ! (2 + unat (l ! 1)) \<noteq> 0
     \<and> length l = 2 + unat (l ! 1) + (1 + unat (l ! (2 + unat (l ! 1))))"

definition negotiated :: "bytes \<Rightarrow> bytes \<Rightarrow> bool" where
  "negotiated c s \<longleftrightarrow> (\<exists>g ms. is_greeting g ms \<and> (c = g \<and> s = [5, 0] \<and> 0 \<in> set ms \<or> (\<exists>l. is_login l \<and> c = g @ l \<and> s = [5, 2, 1, 0] \<and> 2 \<in> set ms)))"

definition is_request :: "bytes \<Rightarrow> addr \<Rightarrow> bool" where
  "is_request q peer \<longleftrightarrow> length q \<ge> 4 \<and> q ! 0 = 5 \<and> q ! 1 = 3 \<and> q ! 2 = 0
     \<and> (\<exists>ep a. parseAddress q = (length q, Some ep) \<and> ap_Addr ep = Some a \<and> (IsUnspecified a \<or> Unmap a = peer))"

definition is_reply :: "bytes \<Rightarrow> addr_port \<Rightarrow> bool" where
  "is_reply p relay \<longleftrightarrow> length p \<ge> 4 \<and> p ! 0 = 5 \<and> p ! 1 = 0 \<and> p ! 2 = 0 \<and> parseAddress p = (length p, Some relay)"

text \<open>The bytes of the two directions, when the client has asked for an association from its own address and the server has named the relay.\<close>

definition handshake :: "addr \<Rightarrow> addr_port \<Rightarrow> bytes \<Rightarrow> bytes \<Rightarrow> bool" where
  "handshake peer relay c s \<longleftrightarrow> (\<exists>pc ps q x p. negotiated pc ps \<and> is_request q peer \<and> c = pc @ q @ x \<and> s = ps @ p \<and> is_reply p relay)"

text \<open>What an observer has seen in each stage, where \<open>c\<close> and \<open>s\<close> are all the bytes of the two directions.\<close>

definition stage_ok :: "observer \<Rightarrow> bytes \<Rightarrow> bytes \<Rightarrow> bool" where
  "stage_ok ob c s \<longleftrightarrow>
     (if ob_stage ob = 0 then c = ob_client ob \<and> s = ob_server ob
      else if ob_stage ob = 1 then \<exists>g. is_greeting g (ob_methods ob) \<and> c = g @ ob_client ob \<and> s = ob_server ob
      else if ob_stage ob = 2 then \<exists>g ms. is_greeting g ms \<and> 2 \<in> set ms \<and> c = g @ ob_client ob \<and> s = [5, 2] @ ob_server ob
      else if ob_stage ob = 3 then \<exists>g ms l. is_greeting g ms \<and> 2 \<in> set ms \<and> is_login l \<and> c = g @ l @ ob_client ob \<and> s = [5, 2] @ ob_server ob
      else if ob_stage ob = 4 then \<exists>pc ps. negotiated pc ps \<and> c = pc @ ob_client ob \<and> s = ps @ ob_server ob
      else if ob_stage ob = 5 then \<exists>pc ps q. negotiated pc ps \<and> is_request q (ob_peer ob) \<and> c = pc @ q @ ob_client ob \<and> s = ps @ ob_server ob
      else True)"

text \<open>The results of one stage: it waits, gives up, goes on, or has seen the whole handshake.\<close>

definition kept :: "observer \<Rightarrow> observer \<Rightarrow> bool" where
  "kept ob ob' \<longleftrightarrow> ob_session ob' = ob_session ob \<and> ob_peer ob' = ob_peer ob"

definition gave_up :: "observer \<Rightarrow> registry \<Rightarrow> observer \<Rightarrow> registry \<Rightarrow> bool" where
  "gave_up ob r ob' r' \<longleftrightarrow> kept ob ob' \<and> ob_closed ob' \<and> reg_inv r' \<and> shrinks r r' \<and> rg_allowed r' = rg_allowed r \<and> map_of (rg_sessions r') (ob_session ob) = None"

definition went_on :: "bytes \<Rightarrow> bytes \<Rightarrow> observer \<Rightarrow> registry \<Rightarrow> observer \<Rightarrow> registry \<Rightarrow> bool" where
  "went_on c s ob r ob' r' \<longleftrightarrow> kept ob ob' \<and> stage_ok ob' c s \<and> ob_stage ob' \<le> 5 \<and> \<not> ob_failed ob' \<and> \<not> ob_closed ob' \<and> reg_inv r' \<and> shrinks r r' \<and> rg_allowed r' = rg_allowed r"

definition complete :: "bytes \<Rightarrow> bytes \<Rightarrow> observer \<Rightarrow> registry \<Rightarrow> observer \<Rightarrow> registry \<Rightarrow> bool" where
  "complete c s ob r ob' r' \<longleftrightarrow> kept ob ob' \<and> ob_stage ob' = 6 \<and> \<not> ob_closed ob' \<and> reg_inv r' \<and> follows_reg r r' \<and> rg_next r' = rg_next r \<and> rg_allowed r' = rg_allowed r
     \<and> (\<forall>j t. j \<noteq> ob_session ob \<longrightarrow> map_of (rg_sessions r') j = Some t \<longrightarrow>
         (\<exists>u. map_of (rg_sessions r) j = Some u \<and> set (cs_bindings t) \<subseteq> set (cs_bindings u) \<and> cs_peer t = cs_peer u \<and> (cs_ready t \<longrightarrow> cs_ready u)))
     \<and> (\<forall>t. map_of (rg_sessions r') (ob_session ob) = Some t \<longrightarrow> (\<forall>b\<in>set (cs_bindings t). handshake (ob_peer ob) (bd_RelayEndpoint b) c s))"

lemma closeLocked_view:
  assumes "reg_inv r" "\<not> ob_closed ob" "closeLocked ob r = (ob', r')"
  shows "gave_up ob r ob' r'"
  using assms removeSession_view [OF assms(1), of "ob_session ob"] reg_inv_remove shrinks_remove
  by (auto simp: closeLocked_def gave_up_def kept_def)

lemma gave_up_trans:
  assumes "gave_up ob1 r1 ob' r'" "kept ob ob1" "shrinks r r1" "rg_allowed r1 = rg_allowed r"
  shows "gave_up ob r ob' r'"
proof -
  have "shrinks r r'" using assms(1,3) shrinks_trans unfolding gave_up_def by blast
  then show ?thesis using assms unfolding gave_up_def kept_def by simp
qed

lemma make_ready_others: "make_ready i ep now later r = (ok, r') \<Longrightarrow> j \<noteq> i \<Longrightarrow> map_of (rg_sessions r') j = map_of (rg_sessions r) j"
  by (auto simp: make_ready_def Let_def indexSession_def split: option.splits if_splits)

lemma kept_refl [simp]: "kept ob ob"
  by (simp add: kept_def)


definition seen :: "bytes \<Rightarrow> bytes \<Rightarrow> observer \<Rightarrow> registry \<Rightarrow> observed \<Rightarrow> bool" where
  "seen c s ob r res \<longleftrightarrow> (case res of (cont, ob', r') \<Rightarrow> if cont then went_on c s ob r ob' r' else ob' = ob \<and> r' = r \<or> gave_up ob r ob' r' \<or> complete c s ob r ob' r')"

definition ready_to_read :: "observer \<Rightarrow> registry \<Rightarrow> bool" where
  "ready_to_read ob r \<longleftrightarrow> reg_inv r \<and> \<not> ob_failed ob \<and> \<not> ob_closed ob \<and> (\<forall>t. map_of (rg_sessions r) (ob_session ob) = Some t \<longrightarrow> \<not> cs_ready t)"

lemma seen_waits: "seen c s ob r (False, ob, r)"
  by (simp add: seen_def)

lemma seen_gives_up: "ready_to_read ob1 r \<Longrightarrow> kept ob ob1 \<Longrightarrow> seen c s ob r (give_up ob1 r)"
  using closeLocked_view [of r ob1] gave_up_trans [of ob1 r _ _ ob r]
  by (cases "closeLocked ob1 r") (auto simp: seen_def give_up_def ready_to_read_def)

lemma seen_goes_on:
  assumes "ready_to_read ob r" "kept ob ob'" "stage_ok ob' c s" "ob_stage ob' \<le> 5" "ob_failed ob' = ob_failed ob" "ob_closed ob' = ob_closed ob"
  shows "seen c s ob r (True, ob', r)"
  using assms by (simp add: seen_def went_on_def ready_to_read_def)

lemma take_prefix:
  assumes "n \<le> length xs" "m < n"
  shows "take n xs ! m = xs ! m" "length (take n xs) = n" "xs = take n xs @ drop n xs"
  using assms by simp_all

lemma seen_greeting:
  assumes "ready_to_read ob r" "stage_ok ob c s" "ob_stage ob = 0"
  shows "seen c s ob r (stage_greeting ob r)"
proof -
  let ?c = "ob_client ob" and ?n = "2 + unat (ob_client ob ! 1)"
  have eq: "c = ?c" "s = ob_server ob" using assms(2,3) by (simp_all add: stage_ok_def)
  let ?ob = "ob\<lparr>ob_methods := take (?n - 2) (drop 2 ?c)\<rparr>"
  have r1: "ready_to_read ?ob r" "kept ob ?ob" using assms(1) by (simp_all add: ready_to_read_def kept_def)
  show ?thesis
  proof (cases "length ?c < 2 \<or> (?c ! 0 = 5 \<and> ?c ! 1 \<noteq> 0 \<and> length ?c < ?n)")
    case True then show ?thesis using seen_waits by (auto simp: stage_greeting_def Let_def)
  next
    case len: False
    show ?thesis
    proof (cases "?c ! 0 \<noteq> 5 \<or> ?c ! 1 = 0 \<or> 255 \<in> set (take (?n - 2) (drop 2 ?c))")
      case True then show ?thesis using len seen_gives_up [OF assms(1)] seen_gives_up [OF r1] by (auto simp: stage_greeting_def Let_def)
    next
      case False
      have g: "is_greeting (take ?n ?c) (take (?n - 2) (drop 2 ?c))" using False len by (auto simp: is_greeting_def drop_take)
      have "stage_ok (?ob\<lparr>ob_client := drop ?n ?c, ob_stage := 1\<rparr>) c s"
        using g eq by (auto simp: stage_ok_def intro!: exI [of _ "take ?n ?c"])
      then have "seen c s ob r (True, ?ob\<lparr>ob_client := drop ?n ?c, ob_stage := 1\<rparr>, r)"
        by (intro seen_goes_on [OF assms(1)]) (simp_all add: kept_def)
      then show ?thesis using False len by (simp add: stage_greeting_def Let_def)
    qed
  qed
qed

lemma two_bytes: "\<not> length xs < 2 \<Longrightarrow> xs = xs ! 0 # xs ! 1 # drop 2 xs"
  by (cases xs; cases "tl xs") auto

lemma seen_method:
  assumes "ready_to_read ob r" "stage_ok ob c s" "ob_stage ob = 1"
  shows "seen c s ob r (stage_method ob r)"
proof -
  let ?s = "ob_server ob"
  obtain g where g: "is_greeting g (ob_methods ob)" "c = g @ ob_client ob" "s = ?s" using assms(2,3) by (auto simp: stage_ok_def)
  show ?thesis
  proof (cases "length ?s < 2")
    case True then show ?thesis using seen_waits by (simp add: stage_method_def)
  next
    case len: False
    note two = two_bytes [OF len]
    show ?thesis
    proof (cases "?s ! 0 \<noteq> 5 \<or> ?s ! 1 \<notin> set (ob_methods ob) \<or> ?s ! 1 \<noteq> 0 \<and> ?s ! 1 \<noteq> 2")
      case True then show ?thesis using len seen_gives_up [OF assms(1)] by (auto simp: stage_method_def Let_def)
    next
      case False
      let ?ob = "ob\<lparr>ob_server := drop 2 ?s, ob_stage := (if ?s ! 1 = 2 then 2 else 4)\<rparr>"
      have "stage_ok ?ob c s"
      proof (cases "?s ! 1 = 2")
        case True
        then have "s = [5, 2] @ drop 2 ?s" using two False g(3) by simp
        then show ?thesis using True False g by (auto simp: stage_ok_def)
      next
        case no: False
        then have "s = [5, 0] @ drop 2 ?s" "0 \<in> set (ob_methods ob)" using two False g(3) by auto
        then have "negotiated g [5, 0] \<and> s = [5, 0] @ drop 2 ?s" using g(1) by (auto simp: negotiated_def)
        then show ?thesis using no g(2) by (auto simp: stage_ok_def)
      qed
      then have "seen c s ob r (True, ?ob, r)" by (intro seen_goes_on [OF assms(1)]) (simp_all add: kept_def)
      then show ?thesis using False len by (auto simp: stage_method_def Let_def)
    qed
  qed
qed

lemma seen_login:
  assumes "ready_to_read ob r" "stage_ok ob c s" "ob_stage ob = 2"
  shows "seen c s ob r (stage_login ob r)"
proof -
  let ?c = "ob_client ob" and ?n = "2 + unat (ob_client ob ! 1)"
  let ?m = "?n + (1 + unat (?c ! ?n))"
  obtain g ms where g: "is_greeting g ms" "2 \<in> set ms" "c = g @ ?c" "s = [5, 2] @ ob_server ob" using assms(2,3) by (auto simp: stage_ok_def)
  show ?thesis
  proof (cases "\<not> length ?c < 2 \<and> ?c ! 0 = 1 \<and> ?c ! 1 \<noteq> 0 \<and> \<not> length ?c < ?n + 1 \<and> ?c ! ?n \<noteq> 0 \<and> \<not> length ?c < ?m")
    case False
    then show ?thesis using seen_waits seen_gives_up [OF assms(1)] by (auto simp: stage_login_def Let_def)
  next
    case True
    have l: "is_login (take ?m ?c)" using True by (auto simp: is_login_def)
    let ?ob = "ob\<lparr>ob_client := drop ?m ?c, ob_stage := 3\<rparr>"
    have "\<exists>g ms l. is_greeting g ms \<and> 2 \<in> set ms \<and> is_login l \<and> c = g @ l @ ob_client ?ob \<and> s = [5, 2] @ ob_server ?ob"
      using g l by (intro exI [of _ g] exI [of _ ms] exI [of _ "take ?m ?c"]) simp
    then have "stage_ok ?ob c s" by (simp add: stage_ok_def)
    then have "seen c s ob r (True, ?ob, r)" by (intro seen_goes_on [OF assms(1)]) (simp_all add: kept_def)
    then show ?thesis using True by (simp add: stage_login_def Let_def)
  qed
qed

lemma seen_granted:
  assumes "ready_to_read ob r" "stage_ok ob c s" "ob_stage ob = 3"
  shows "seen c s ob r (stage_granted ob r)"
proof -
  let ?s = "ob_server ob"
  obtain g ms l where g: "is_greeting g ms" "2 \<in> set ms" "is_login l" "c = g @ l @ ob_client ob" "s = [5, 2] @ ?s" using assms(2,3) by (auto simp: stage_ok_def)
  show ?thesis
  proof (cases "\<not> length ?s < 2 \<and> ?s ! 0 = 1 \<and> ?s ! 1 = 0")
    case False then show ?thesis using seen_waits seen_gives_up [OF assms(1)] by (auto simp: stage_granted_def Let_def)
  next
    case True
    let ?ob = "ob\<lparr>ob_server := drop 2 ?s, ob_stage := 4\<rparr>"
    have "?s = 1 # 0 # drop 2 ?s" using two_bytes [of ?s] True by simp
    then have s: "s = [5, 2, 1, 0] @ drop 2 ?s" using g(5) by simp
    have "negotiated (g @ l) [5, 2, 1, 0]" using g by (auto simp: negotiated_def)
    then have "stage_ok ?ob c s" using s g(4) by (auto simp: stage_ok_def)
    then have "seen c s ob r (True, ?ob, r)" by (intro seen_goes_on [OF assms(1)]) (simp_all add: kept_def)
    then show ?thesis using True by (simp add: stage_granted_def Let_def)
  qed
qed


lemma parseAddress_length: "parseAddress b = (n, Some ep) \<Longrightarrow> n \<le> length b"
  by (auto simp: parseAddress_def split: if_splits)

lemma seen_request:
  assumes "ready_to_read ob r" "stage_ok ob c s" "ob_stage ob = 4"
  shows "seen c s ob r (stage_request ob r)"
proof -
  let ?c = "ob_client ob"
  obtain pc ps where g: "negotiated pc ps" "c = pc @ ?c" "s = ps @ ob_server ob" using assms(2,3) by (auto simp: stage_ok_def)
  show ?thesis
  proof (cases "length ?c < 4 \<or> ?c ! 0 \<noteq> 5 \<or> ?c ! 1 \<noteq> 3 \<or> ?c ! 2 \<noteq> 0")
    case True then show ?thesis using seen_waits seen_gives_up [OF assms(1)] by (auto simp: stage_request_def Let_def)
  next
    case head: False
    obtain n epo where pa: "parseAddress ?c = (n, epo)" by (cases "parseAddress ?c") auto
    show ?thesis
    proof (cases "\<exists>ep a. epo = Some ep \<and> ap_Addr ep = Some a \<and> (IsUnspecified a \<or> Unmap a = ob_peer ob)")
      case False
      then show ?thesis using head pa seen_waits seen_gives_up [OF assms(1)]
        by (auto simp: stage_request_def Let_def split: option.splits)
    next
      case True
      then obtain ep a where ep: "epo = Some ep" "ap_Addr ep = Some a" "IsUnspecified a \<or> Unmap a = ob_peer ob" by blast
      define r1 where "r1 = set_port (ob_session ob) (ap_Port ep) r"
      define ob1 where "ob1 = ob\<lparr>ob_client := drop n ?c\<rparr>"
      have res: "stage_request ob r = (if drop n ?c \<noteq> [] then give_up ob1 r1 else (True, ob1\<lparr>ob_stage := 5\<rparr>, r1))"
        using head pa ep by (auto simp: stage_request_def Let_def r1_def ob1_def)
      have r: "reg_inv r" "\<not> ob_closed ob" "\<not> ob_failed ob" using assms(1) by (simp_all add: ready_to_read_def)
      have v: "reg_inv r1" "shrinks r r1" "rg_allowed r1 = rg_allowed r" using set_port_view [OF r(1), of "ob_session ob"] by (auto simp: r1_def)
      have k: "kept ob ob1" by (simp add: ob1_def kept_def)
      show ?thesis
      proof (cases "drop n ?c \<noteq> []")
        case True
        obtain ob' r' where e: "closeLocked ob1 r1 = (ob', r')" by fastforce
        have "gave_up ob1 r1 ob' r'" by (rule closeLocked_view [OF v(1) _ e]) (simp add: ob1_def r(2))
        then have "gave_up ob r ob' r'" by (rule gave_up_trans [OF _ k v(2,3)])
        then show ?thesis using res True e by (simp add: seen_def give_up_def)
      next
        case False
        have len: "n = length ?c" using parseAddress_length pa ep(1) False by (simp add: le_antisym)
        then have q: "is_request ?c (ob_peer ob)" using head pa ep by (auto simp: is_request_def)
        have "\<exists>pc ps q. negotiated pc ps \<and> is_request q (ob_peer ob) \<and> c = pc @ q @ drop n ?c \<and> s = ps @ ob_server ob"
          using g q False by (intro exI [of _ pc] exI [of _ ps] exI [of _ ?c]) simp
        then have "stage_ok (ob1\<lparr>ob_stage := 5\<rparr>) c s" by (simp add: stage_ok_def ob1_def)
        then show ?thesis using res False v r by (simp add: seen_def went_on_def ob1_def kept_def)
      qed
    qed
  qed
qed

lemma seen_reply:
  assumes "ready_to_read ob r" "stage_ok ob c s" "ob_stage ob = 5"
  shows "seen c s ob r (stage_reply now later ob r)"
proof -
  let ?s = "ob_server ob"
  obtain pc ps q where g: "negotiated pc ps" "is_request q (ob_peer ob)" "c = pc @ q @ ob_client ob" "s = ps @ ?s" using assms(2,3) by (auto simp: stage_ok_def)
  have r: "reg_inv r" "\<not> ob_closed ob" "\<And>t. map_of (rg_sessions r) (ob_session ob) = Some t \<Longrightarrow> \<not> cs_ready t" using assms(1) by (simp_all add: ready_to_read_def)
  show ?thesis
  proof (cases "length ?s < 4 \<or> ?s ! 0 \<noteq> 5 \<or> ?s ! 1 \<noteq> 0 \<or> ?s ! 2 \<noteq> 0")
    case True then show ?thesis using seen_waits seen_gives_up [OF assms(1)] by (auto simp: stage_reply_def Let_def)
  next
    case head: False
    obtain n epo where pa: "parseAddress ?s = (n, epo)" by (cases "parseAddress ?s") auto
    show ?thesis
    proof (cases "\<exists>ep. epo = Some ep \<and> \<not> ((case ap_Addr ep of None \<Rightarrow> True | Some a \<Rightarrow> IsUnspecified a) \<or> ap_Port ep = 0)")
      case False
      then show ?thesis using head pa seen_waits seen_gives_up [OF assms(1)] by (auto simp: stage_reply_def Let_def split: option.splits)
    next
      case True
      then obtain ep where ep: "epo = Some ep" "\<not> ((case ap_Addr ep of None \<Rightarrow> True | Some a \<Rightarrow> IsUnspecified a) \<or> ap_Port ep = 0)" by blast
      obtain ok r1 where mr: "make_ready (ob_session ob) ep now later r = (ok, r1)" by fastforce
      define ob1 where "ob1 = ob\<lparr>ob_server := drop n ?s\<rparr>"
      have res: "stage_reply now later ob r = (if \<not> ok then give_up ob r1 else if drop n ?s \<noteq> [] then give_up ob1 r1
          else (False, ob1\<lparr>ob_stage := 6, ob_methods := [], ob_client := [], ob_server := []\<rparr>, r1))"
        using head pa ep mr by (auto simp: stage_reply_def Let_def ob1_def split: bool.splits)
      note v = make_ready_view [OF r(1,3) mr]
      have close: "seen c s ob r (give_up ob2 r1)" if ob2: "kept ob ob2" "\<not> ob_closed ob2" for ob2
      proof -
        obtain ob' r' where e: "closeLocked ob2 r1 = (ob', r')" by fastforce
        have u: "gave_up ob2 r1 ob' r'" by (rule closeLocked_view [OF v(1) ob2(2) e])
        have "shrinks r r'"
        proof (rule shrinksI)
          show "rg_next r' = rg_next r" using u v(3) shrinks_next unfolding gave_up_def by metis
          fix j t assume j: "map_of (rg_sessions r') j = Some t"
          have ne: "j \<noteq> ob_session ob" using u j ob2(1) unfolding gave_up_def kept_def by force
          have "shrinks r1 r'" using u unfolding gave_up_def by blast
          then show "\<exists>t'. map_of (rg_sessions r) j = Some t' \<and> set (cs_bindings t) \<subseteq> set (cs_bindings t') \<and> cs_peer t = cs_peer t' \<and> (cs_ready t \<longrightarrow> cs_ready t')"
            using j make_ready_others [OF mr ne] unfolding shrinks_def by metis
        qed
        then have "gave_up ob r ob' r'" using u ob2(1) v(4) unfolding gave_up_def kept_def by simp
        then show ?thesis using e by (simp add: seen_def give_up_def)
      qed
      show ?thesis
      proof (cases "ok \<and> drop n ?s = []")
        case False
        then show ?thesis using res close [of ob] close [of ob1] r(2) by (auto simp: ob1_def kept_def)
      next
        case True
        have len: "n = length ?s" using parseAddress_length pa ep(1) True by (simp add: le_antisym)
        then have "is_reply ?s ep" using head pa ep by (simp add: is_reply_def)
        then have h: "handshake (ob_peer ob) ep c s" unfolding handshake_def using g by blast
        have "bd_RelayEndpoint b = ep" if t: "map_of (rg_sessions r1) (ob_session ob) = Some t" "b \<in> set (cs_bindings t)" for t b
          using mr True t by (auto simp: make_ready_def Let_def indexSession_def split: option.splits if_splits)
        then have "complete c s ob r (ob1\<lparr>ob_stage := 6, ob_methods := [], ob_client := [], ob_server := []\<rparr>) r1"
          unfolding complete_def using v(1-4) h make_ready_others [OF mr] r(2) by (auto simp: kept_def ob1_def)
        then show ?thesis using res True by (simp add: seen_def)
      qed
    qed
  qed
qed

lemma feed_stage_seen:
  assumes "ready_to_read ob r" "stage_ok ob c s"
  shows "seen c s ob r (feed_stage now later ob r)"
  using seen_greeting [OF assms] seen_method [OF assms] seen_login [OF assms] seen_granted [OF assms] seen_request [OF assms] seen_reply [OF assms] seen_waits
  by (simp add: feed_stage_def)


lemma went_on_ready: "ready_to_read ob r \<Longrightarrow> went_on c s ob r ob' r' \<Longrightarrow> ready_to_read ob' r'"
  unfolding ready_to_read_def went_on_def kept_def shrinks_def by metis

lemma kept_trans: "kept a b \<Longrightarrow> kept b c \<Longrightarrow> kept a c"
  by (simp add: kept_def)

lemma went_on_trans:
  assumes "went_on c s ob r ob1 r1" "went_on c s ob1 r1 ob' r'"
  shows "went_on c s ob r ob' r'"
  using assms kept_trans [of ob ob1 ob'] shrinks_trans [of r r1 r'] unfolding went_on_def by metis

lemma complete_trans:
  assumes "went_on c s ob r ob1 r1" "complete c s ob1 r1 ob' r'"
  shows "complete c s ob r ob' r'"
proof -
  have w: "kept ob ob1" "shrinks r r1" "rg_allowed r1 = rg_allowed r" using assms(1) unfolding went_on_def by blast+
  have k: "kept ob ob'" "ob_session ob1 = ob_session ob" "ob_peer ob1 = ob_peer ob" using kept_trans [OF w(1)] assms(2) w(1) unfolding complete_def kept_def by auto
  have "follows_reg r r'" using follows_reg_trans [OF shrinks_follows [OF w(2)]] assms(2) unfolding complete_def by blast
  moreover have "\<exists>u. map_of (rg_sessions r) j = Some u \<and> set (cs_bindings t) \<subseteq> set (cs_bindings u) \<and> cs_peer t = cs_peer u \<and> (cs_ready t \<longrightarrow> cs_ready u)"
    if j: "j \<noteq> ob_session ob" "map_of (rg_sessions r') j = Some t" for j t
  proof -
    obtain u where u: "map_of (rg_sessions r1) j = Some u" "set (cs_bindings t) \<subseteq> set (cs_bindings u)" "cs_peer t = cs_peer u" "cs_ready t \<longrightarrow> cs_ready u"
      using assms(2) j k(2) unfolding complete_def by metis
    obtain x where "map_of (rg_sessions r) j = Some x" "set (cs_bindings u) \<subseteq> set (cs_bindings x)" "cs_peer u = cs_peer x" "cs_ready u \<Longrightarrow> cs_ready x"
      using shrinksD [OF w(2) u(1)] by blast
    then show ?thesis using u by (intro exI [of _ x]) auto
  qed
  moreover have "rg_next r' = rg_next r" "rg_allowed r' = rg_allowed r" using assms(2) w(3) shrinks_next [OF w(2)] unfolding complete_def by simp_all
  ultimately show ?thesis using assms(2) k unfolding complete_def by simp
qed

lemma feed_loop_view:
  assumes "ready_to_read ob r" "stage_ok ob c s" "ob_stage ob \<le> 5" "feed_loop now later ob r = (ob', r')"
  shows "went_on c s ob r ob' r' \<or> gave_up ob r ob' r' \<or> complete c s ob r ob' r'"
  using assms
proof (induction now later ob r rule: feed_loop.induct)
  case (1 now later ob r)
  obtain cont ob1 r1 where st: "feed_stage now later ob r = (cont, ob1, r1)" by (cases "feed_stage now later ob r") auto
  have sn: "seen c s ob r (cont, ob1, r1)" using feed_stage_seen [OF 1(2,3), of now later] st by simp
  show ?case
  proof (cases cont)
    case True
    then have w: "went_on c s ob r ob1 r1" using sn by (simp add: seen_def)
    have run: "feed_loop now later ob1 r1 = (ob', r')" using 1(5) st True by (subst (asm) feed_loop.simps) simp
    have s1: "stage_ok ob1 c s" "ob_stage ob1 \<le> 5" "kept ob ob1" "shrinks r r1" "rg_allowed r1 = rg_allowed r" using w unfolding went_on_def by blast+
    have "went_on c s ob1 r1 ob' r' \<or> gave_up ob1 r1 ob' r' \<or> complete c s ob1 r1 ob' r'"
      by (rule 1(1) [OF st [symmetric] _ refl went_on_ready [OF 1(2) w] s1(1,2) run]) (simp_all add: True)
    then show ?thesis using went_on_trans [OF w] gave_up_trans [OF _ s1(3-5)] complete_trans [OF w] by blast
  next
    case False
    then have e: "ob' = ob1" "r' = r1" using 1(5) st by (subst (asm) feed_loop.simps, simp)+
    have "went_on c s ob r ob r" using 1(2-4) unfolding went_on_def ready_to_read_def by simp
    then show ?thesis using sn False e unfolding seen_def by auto
  qed
qed

text \<open>Reading bytes on: the same three results for the longer streams.\<close>

lemma feed_view:
  assumes "ready_to_read ob r" "stage_ok ob c s" "ob_stage ob \<le> 5" "feed client b now later ob r = (ob', r')"
  defines "c' \<equiv> if client then c @ b else c" and "s' \<equiv> if client then s else s @ b"
  shows "went_on c' s' ob r ob' r' \<or> gave_up ob r ob' r' \<or> complete c' s' ob r ob' r'"
proof -
  have l: "listening ob" using assms(1,3) by (simp add: listening_def ready_to_read_def)
  show ?thesis
  proof (cases "int (length b) > maxHandshake - int (length (if client then ob_client ob else ob_server ob))")
    case True
    then show ?thesis using closeLocked_view [of r ob ob' r'] assms(1,4) l by (simp add: feed_def ready_to_read_def)
  next
    case False
    define ob1 where "ob1 = (if client then ob\<lparr>ob_client := ob_client ob @ b\<rparr> else ob\<lparr>ob_server := ob_server ob @ b\<rparr>)"
    have run: "feed_loop now later ob1 r = (ob', r')" using assms(4) l False by (simp add: feed_def ob1_def)
    have same: "ob_stage ob1 = ob_stage ob" "ob_peer ob1 = ob_peer ob" "ob_session ob1 = ob_session ob" "ob_methods ob1 = ob_methods ob"
      "ob_client ob1 = ob_client ob @ (if client then b else [])" "ob_server ob1 = ob_server ob @ (if client then [] else b)"
      "ob_failed ob1 = ob_failed ob" "ob_closed ob1 = ob_closed ob" by (simp_all add: ob1_def)
    have "stage_ok ob1 c' s'"
    proof -
      have e: "c' = c @ (if client then b else [])" "s' = s @ (if client then [] else b)" by (simp_all add: c'_def s'_def)
      show ?thesis using assms(2) unfolding stage_ok_def same e by (auto split: if_splits)
    qed
    moreover have "ready_to_read ob1 r" using assms(1) by (simp add: ready_to_read_def same)
    ultimately have "went_on c' s' ob1 r ob' r' \<or> gave_up ob1 r ob' r' \<or> complete c' s' ob1 r ob' r'"
      using feed_loop_view run assms(3) same(1) by simp
    then show ?thesis using same unfolding went_on_def gave_up_def complete_def kept_def by simp
  qed
qed

end
