(* ===== verification/Association_Safety.thy ===== *)
theory Association_Safety
  imports Association_Run
begin

text \<open>
  The registry with the control connections that are observed, as a machine: every operation of the registry and of the wrapped connections is a step, in any order. A proof of an association is backed by a
  whole handshake that was transmitted on the connection, and a proof that was revoked is never valid again.
\<close>

section \<open>The machine\<close>

text \<open>The observers are numbered as their sessions. The bytes that were written while an observer listened are remembered beside them: they are not part of the program's state.\<close>

record assoc_state =
  ag_reg :: registry
  ag_obs :: "(nat, observer) gomap"
  ag_fed :: "(nat, bytes \<times> bytes) gomap"

definition assoc_start :: "int \<Rightarrow> int \<Rightarrow> assoc_state" where
  "assoc_start limit ttl = \<lparr>ag_reg = New_registry limit ttl, ag_obs = [], ag_fed = []\<rparr>"

definition fed_of :: "assoc_state \<Rightarrow> nat \<Rightarrow> bytes \<times> bytes" where
  "fed_of st i = (case map_of (ag_fed st) i of None \<Rightarrow> ([], []) | Some x \<Rightarrow> x)"

definition more_fed :: "observer \<Rightarrow> bool \<Rightarrow> bytes \<Rightarrow> bytes \<times> bytes \<Rightarrow> bytes \<times> bytes" where
  "more_fed ob client b x = (if \<not> listening ob then x else if client then (fst x @ b, snd x) else (fst x, snd x @ b))"

datatype assoc_op =
    OpConfigure "assoc_binding list" gotime
  | OpRevokeRule string
  | OpRevokeGeneration string
  | OpRevokeAll
  | OpCount gotime
  | OpObserve "addr_port option" "assoc_binding list" gotime gotime
  | OpRead nat bool
  | OpWrite nat bool bytes nat bool gotime gotime
  | OpClose nat
  | OpAdmission "(nat \<times> assoc_binding) list \<Rightarrow> (nat \<times> assoc_binding) list" string string addr_port string bytes gotime gotime
  | OpValidFor "proof_of option" string string string gotime

definition on_observer :: "nat \<Rightarrow> (observer \<Rightarrow> registry \<Rightarrow> observer \<times> registry) \<Rightarrow> (observer \<Rightarrow> bytes \<times> bytes \<Rightarrow> bytes \<times> bytes) \<Rightarrow> assoc_state \<Rightarrow> assoc_state" where
  "on_observer i f g st = (case map_of (ag_obs st) i of None \<Rightarrow> st
     | Some ob \<Rightarrow> let (ob', r') = f ob (ag_reg st) in \<lparr>ag_reg = r', ag_obs = put i ob' (ag_obs st), ag_fed = put i (g ob (fed_of st i)) (ag_fed st)\<rparr>)"

fun assoc_step :: "assoc_op \<Rightarrow> assoc_state \<Rightarrow> assoc_state" where
  "assoc_step (OpConfigure bs now) st = (case Configure_registry bs now (ag_reg st) of Inl e \<Rightarrow> st | Inr r \<Rightarrow> st\<lparr>ag_reg := r\<rparr>)"
| "assoc_step (OpRevokeRule ruleID) st = st\<lparr>ag_reg := RevokeRule ruleID (ag_reg st)\<rparr>"
| "assoc_step (OpRevokeGeneration g) st = st\<lparr>ag_reg := RevokeGeneration g (ag_reg st)\<rparr>"
| "assoc_step OpRevokeAll st = st\<lparr>ag_reg := RevokeAll (ag_reg st)\<rparr>"
| "assoc_step (OpCount now) st = st\<lparr>ag_reg := snd (Count_sessions now (ag_reg st))\<rparr>"
| "assoc_step (OpObserve remote bs now later) st = (case Observe remote bs now later (ag_reg st) of
     (Inl e, r) \<Rightarrow> st\<lparr>ag_reg := r\<rparr> | (Inr ob, r) \<Rightarrow> st\<lparr>ag_reg := r, ag_obs := put (ob_session ob) ob (ag_obs st)\<rparr>)"
| "assoc_step (OpRead i failed) st = on_observer i (observe_Read failed) (\<lambda>ob x. x) st"
| "assoc_step (OpWrite i clientSide b n failed now later) st =
     on_observer i (observe_Write clientSide b n failed now later) (\<lambda>ob x. if n > 0 then more_fed ob (\<not> clientSide) (take n b) x else x) st"
| "assoc_step (OpClose i) st = on_observer i observe_Close (\<lambda>ob x. x) st"
| "assoc_step (OpAdmission order ruleID g source target payload now later) st =
     st\<lparr>ag_reg := snd (Admission order ruleID g source target payload now later (ag_reg st))\<rparr>"
| "assoc_step (OpValidFor po ruleID g target now) st = st\<lparr>ag_reg := snd (ValidFor po ruleID g target now (ag_reg st))\<rparr>"

definition assoc_run :: "assoc_op list \<Rightarrow> assoc_state \<Rightarrow> assoc_state" where
  "assoc_run ops st = fold assoc_step ops st"

text \<open>The loop of \<open>Admission\<close> visits the sessions of a key in some order.\<close>

definition op_ok :: "assoc_op \<Rightarrow> bool" where
  "op_ok op = (case op of OpAdmission order _ _ _ _ _ _ _ \<Rightarrow> (\<forall>xs. set (order xs) = set xs) | _ \<Rightarrow> True)"

section \<open>The invariant\<close>

definition obs_ok :: "registry \<Rightarrow> bytes \<times> bytes \<Rightarrow> nat \<Rightarrow> observer \<Rightarrow> bool" where
  "obs_ok r x i ob \<longleftrightarrow> ob_session ob = i \<and> i \<le> rg_next r \<and> (ob_closed ob \<longrightarrow> map_of (rg_sessions r) i = None) \<and> (listening ob \<longrightarrow> ob_stage ob \<le> 5 \<and> stage_ok ob (fst x) (snd x))"

definition session_ok :: "bytes \<times> bytes \<Rightarrow> observer option \<Rightarrow> control_session \<Rightarrow> bool" where
  "session_ok x obo s \<longleftrightarrow> (\<exists>ob. obo = Some ob \<and> ob_peer ob = cs_peer s
     \<and> (cs_ready s \<longrightarrow> ob_stage ob = 6 \<and> (\<forall>b\<in>set (cs_bindings s). handshake (cs_peer s) (bd_RelayEndpoint b) (fst x) (snd x))))"

definition assoc_inv :: "assoc_state \<Rightarrow> bool" where
  "assoc_inv st \<longleftrightarrow> reg_inv (ag_reg st) \<and> (\<forall>i ob. map_of (ag_obs st) i = Some ob \<longrightarrow> obs_ok (ag_reg st) (fed_of st i) i ob)
     \<and> (\<forall>i s. map_of (rg_sessions (ag_reg st)) i = Some s \<longrightarrow> session_ok (fed_of st i) (map_of (ag_obs st) i) s)
     \<and> (\<forall>i. rg_next (ag_reg st) < i \<longrightarrow> map_of (ag_fed st) i = None)"

lemma assoc_invD:
  assumes "assoc_inv st"
  shows "reg_inv (ag_reg st)" "map_of (ag_obs st) i = Some ob \<Longrightarrow> obs_ok (ag_reg st) (fed_of st i) i ob"
    "map_of (rg_sessions (ag_reg st)) i = Some s \<Longrightarrow> session_ok (fed_of st i) (map_of (ag_obs st) i) s"
    "rg_next (ag_reg st) < i \<Longrightarrow> map_of (ag_fed st) i = None"
  using assms unfolding assoc_inv_def by blast+

lemma assoc_inv_start: "assoc_inv (assoc_start limit ttl)"
  by (simp add: assoc_inv_def assoc_start_def reg_inv_def New_registry_def MaxSessions_def distinct_keys_def)

lemma session_ok_shrinks:
  assumes "session_ok x obo s" "set (cs_bindings s') \<subseteq> set (cs_bindings s)" "cs_peer s' = cs_peer s" "cs_ready s' \<Longrightarrow> cs_ready s"
  shows "session_ok x obo s'"
  using assms unfolding session_ok_def by (auto 0 3)

lemma assoc_inv_shrinks:
  assumes "assoc_inv st" "reg_inv r" "shrinks (ag_reg st) r"
  shows "assoc_inv (st\<lparr>ag_reg := r\<rparr>)"
proof -
  have f: "fed_of (st\<lparr>ag_reg := r\<rparr>) i = fed_of st i" for i by (simp add: fed_of_def)
  have "session_ok (fed_of st i) (map_of (ag_obs st) i) s'" if s': "map_of (rg_sessions r) i = Some s'" for i s'
  proof -
    obtain s where "map_of (rg_sessions (ag_reg st)) i = Some s" "set (cs_bindings s') \<subseteq> set (cs_bindings s)" "cs_peer s' = cs_peer s" "cs_ready s' \<Longrightarrow> cs_ready s"
      using shrinksD [OF assms(3) s'] by blast
    then show ?thesis using assoc_invD(3) [OF assms(1)] session_ok_shrinks by blast
  qed
  moreover have "map_of (rg_sessions r) i = None" if "map_of (rg_sessions (ag_reg st)) i = None" for i
    using that shrinksD [OF assms(3), of i] by (cases "map_of (rg_sessions r) i") auto
  ultimately show ?thesis using assms(2) assoc_invD(2,4) [OF assms(1)] shrinks_next [OF assms(3)] unfolding assoc_inv_def obs_ok_def by (simp add: f)
qed

text \<open>What a step of one connection leaves: the other sessions only shrink, and what the observer has seen fits the bytes.\<close>

definition obs_result :: "registry \<Rightarrow> nat \<Rightarrow> observer \<Rightarrow> bytes \<times> bytes \<Rightarrow> observer \<Rightarrow> registry \<Rightarrow> bool" where
  "obs_result r i ob x ob' r' \<longleftrightarrow> kept ob ob' \<and> reg_inv r' \<and> follows_reg r r' \<and> rg_next r' = rg_next r
     \<and> (\<forall>j t. j \<noteq> i \<longrightarrow> map_of (rg_sessions r') j = Some t \<longrightarrow>
         (\<exists>u. map_of (rg_sessions r) j = Some u \<and> set (cs_bindings t) \<subseteq> set (cs_bindings u) \<and> cs_peer t = cs_peer u \<and> (cs_ready t \<longrightarrow> cs_ready u)))
     \<and> (ob_closed ob' \<longrightarrow> map_of (rg_sessions r') i = None)
     \<and> (listening ob' \<longrightarrow> ob_stage ob' \<le> 5 \<and> stage_ok ob' (fst x) (snd x))
     \<and> (\<forall>t. map_of (rg_sessions r') i = Some t \<longrightarrow> session_ok x (Some ob') t)"

lemma assoc_inv_observer:
  assumes inv: "assoc_inv st" and ob: "map_of (ag_obs st) i = Some ob" and res: "obs_result (ag_reg st) i ob x ob' r'"
  shows "assoc_inv \<lparr>ag_reg = r', ag_obs = put i ob' (ag_obs st), ag_fed = put i x (ag_fed st)\<rparr>"
proof -
  let ?st = "\<lparr>ag_reg = r', ag_obs = put i ob' (ag_obs st), ag_fed = put i x (ag_fed st)\<rparr>"
  have f: "fed_of \<lparr>ag_reg = q, ag_obs = os, ag_fed = put i x (ag_fed st)\<rparr> j = (if j = i then x else fed_of st j)" for q os j by (simp add: fed_of_def)
  have i: "ob_session ob = i" "i \<le> rg_next (ag_reg st)" using assoc_invD(2) [OF inv ob] unfolding obs_ok_def by blast+
  have r': "reg_inv r'" "rg_next r' = rg_next (ag_reg st)" "kept ob ob'" using res unfolding obs_result_def by blast+
  have "obs_ok r' (fed_of ?st j) j ob2" if ob2: "map_of (put i ob' (ag_obs st)) j = Some ob2" for j ob2
  proof (cases "j = i")
    case True
    then show ?thesis using ob2 i r' res unfolding obs_ok_def obs_result_def kept_def by (simp add: f)
  next
    case False
    moreover have "map_of (rg_sessions r') j = None" if "map_of (rg_sessions (ag_reg st)) j = None"
      using that False res unfolding obs_result_def by (cases "map_of (rg_sessions r') j") auto
    ultimately show ?thesis using ob2 assoc_invD(2) [OF inv, of j ob2] r'(2) unfolding obs_ok_def by (simp add: f)
  qed
  moreover have "session_ok (fed_of ?st j) (map_of (put i ob' (ag_obs st)) j) t" if t: "map_of (rg_sessions r') j = Some t" for j t
  proof (cases "j = i")
    case True
    then show ?thesis using t res unfolding obs_result_def by (simp add: f)
  next
    case False
    then obtain u where u: "map_of (rg_sessions (ag_reg st)) j = Some u" "set (cs_bindings t) \<subseteq> set (cs_bindings u)" "cs_peer t = cs_peer u" "cs_ready t \<Longrightarrow> cs_ready u"
      using t res unfolding obs_result_def by blast
    have "session_ok (fed_of st j) (map_of (ag_obs st) j) t" by (rule session_ok_shrinks [OF assoc_invD(3) [OF inv u(1)] u(2-4)])
    then show ?thesis using False by (simp add: f)
  qed
  moreover have "map_of (ag_fed ?st) j = None" if "rg_next r' < j" for j using that r'(2) i(2) assoc_invD(4) [OF inv, of j] by auto
  ultimately show ?thesis using r'(1) unfolding assoc_inv_def by simp
qed

lemma obs_result_shrinks:
  assumes inv: "assoc_inv st" and ob: "map_of (ag_obs st) i = Some ob" and k: "kept ob ob'" "reg_inv r'" "shrinks (ag_reg st) r'"
    and cl: "ob_closed ob' \<Longrightarrow> map_of (rg_sessions r') i = None"
    and l: "listening ob' \<Longrightarrow> ob_stage ob' \<le> 5 \<and> stage_ok ob' (fst x) (snd x)"
    and r: "\<And>t. map_of (rg_sessions r') i = Some t \<Longrightarrow> cs_ready t \<Longrightarrow> ob_stage ob' = ob_stage ob \<and> x = fed_of st i"
  shows "obs_result (ag_reg st) i ob x ob' r'"
proof -
  have "session_ok x (Some ob') t" if t: "map_of (rg_sessions r') i = Some t" for t
  proof -
    obtain u where u: "map_of (rg_sessions (ag_reg st)) i = Some u" "set (cs_bindings t) \<subseteq> set (cs_bindings u)" "cs_peer t = cs_peer u" "cs_ready t \<Longrightarrow> cs_ready u"
      using shrinksD [OF k(3) t] by blast
    have "session_ok (fed_of st i) (Some ob) t" using session_ok_shrinks [OF assoc_invD(3) [OF inv u(1)] u(2-4)] ob by simp
    then show ?thesis using r [OF t] k(1) unfolding session_ok_def kept_def by (cases "cs_ready t") auto
  qed
  then show ?thesis using k cl l shrinks_follows [OF k(3)] shrinks_next [OF k(3)] k(3) unfolding obs_result_def shrinks_def by blast
qed

lemma obs_result_same:
  assumes inv: "assoc_inv st" and ob: "map_of (ag_obs st) i = Some ob"
  shows "obs_result (ag_reg st) i ob (fed_of st i) ob (ag_reg st)"
  by (rule obs_result_shrinks [OF assms]) (use assoc_invD(1) [OF inv] assoc_invD(2) [OF assms] in \<open>auto simp: obs_ok_def\<close>)

lemma obs_result_close:
  assumes res: "obs_result r i ob x ob1 r1" and i: "ob_session ob = i" and cl: "closeLocked ob1 r1 = (ob', r')"
  shows "obs_result r i ob x ob' r'"
proof (cases "ob_closed ob1")
  case True
  then show ?thesis using res cl by (simp add: closeLocked_def)
next
  case False
  have r1: "reg_inv r1" "kept ob ob1" "follows_reg r r1" "rg_next r1 = rg_next r" using res unfolding obs_result_def by blast+
  have g: "gave_up ob1 r1 ob' r'" by (rule closeLocked_view [OF r1(1) False cl])
  have gu: "kept ob1 ob'" "reg_inv r'" "shrinks r1 r'" "map_of (rg_sessions r') (ob_session ob1) = None" "ob_closed ob'" using g unfolding gave_up_def by blast+
  have "ob_session ob1 = i" using r1(2) i unfolding kept_def by simp
  then have g': "kept ob ob'" "reg_inv r'" "shrinks r1 r'" "map_of (rg_sessions r') i = None" "\<not> listening ob'"
    using gu kept_trans [OF r1(2) gu(1)] by (simp_all add: listening_def)
  have "\<exists>u. map_of (rg_sessions r) j = Some u \<and> set (cs_bindings t) \<subseteq> set (cs_bindings u) \<and> cs_peer t = cs_peer u \<and> (cs_ready t \<longrightarrow> cs_ready u)"
    if j: "j \<noteq> i" "map_of (rg_sessions r') j = Some t" for j t
  proof -
    obtain v where v: "map_of (rg_sessions r1) j = Some v" "set (cs_bindings t) \<subseteq> set (cs_bindings v)" "cs_peer t = cs_peer v" "cs_ready t \<Longrightarrow> cs_ready v"
      using shrinksD [OF g'(3) j(2)] by blast
    obtain u where "map_of (rg_sessions r) j = Some u" "set (cs_bindings v) \<subseteq> set (cs_bindings u)" "cs_peer v = cs_peer u" "cs_ready v \<longrightarrow> cs_ready u"
      using res j(1) v(1) unfolding obs_result_def by blast
    then show ?thesis using v by (intro exI [of _ u]) auto
  qed
  then show ?thesis using g' follows_reg_trans [OF r1(3) shrinks_follows [OF g'(3)]] shrinks_next [OF g'(3)] r1(4) unfolding obs_result_def by simp
qed

lemma obs_result_feed:
  assumes inv: "assoc_inv st" and ob: "map_of (ag_obs st) i = Some ob" and fd: "feed client b now later ob (ag_reg st) = (ob', r')"
  shows "obs_result (ag_reg st) i ob (more_fed ob client b (fed_of st i)) ob' r'"
proof (cases "listening ob")
  case False
  then show ?thesis using obs_result_same [OF inv ob] fd by (simp add: feed_def more_fed_def)
next
  case l: True
  obtain c s where x: "fed_of st i = (c, s)" by fastforce
  define c' where "c' = (if client then c @ b else c)"
  define s' where "s' = (if client then s else s @ b)"
  have m: "more_fed ob client b (fed_of st i) = (c', s')" using l x by (simp add: more_fed_def c'_def s'_def)
  have o: "ob_session ob = i" "i \<le> rg_next (ag_reg st)" "ob_stage ob \<le> 5" "stage_ok ob c s"
    using assoc_invD(2) [OF inv ob] l x unfolding obs_ok_def by auto
  have nr: "\<not> cs_ready t" if t: "map_of (rg_sessions (ag_reg st)) i = Some t" for t
    using assoc_invD(3) [OF inv t] ob o(3) unfolding session_ok_def by auto
  then have "ready_to_read ob (ag_reg st)" using assoc_invD(1) [OF inv] l o(1) unfolding ready_to_read_def listening_def by blast
  then have v: "went_on c' s' ob (ag_reg st) ob' r' \<or> gave_up ob (ag_reg st) ob' r' \<or> complete c' s' ob (ag_reg st) ob' r'"
    unfolding c'_def s'_def by (rule feed_view [OF _ o(4,3) fd])
  have nr': "\<not> cs_ready t" if "shrinks (ag_reg st) r'" "map_of (rg_sessions r') i = Some t" for t
    using shrinksD [OF that] nr by metis
  consider "went_on c' s' ob (ag_reg st) ob' r'" | "gave_up ob (ag_reg st) ob' r'" | "complete c' s' ob (ag_reg st) ob' r'" using v by blast
  then show ?thesis
  proof cases
    case 1
    then show ?thesis unfolding m by (intro obs_result_shrinks [OF inv ob]) (use nr' in \<open>auto simp: went_on_def\<close>)
  next
    case 2
    then show ?thesis unfolding m by (intro obs_result_shrinks [OF inv ob]) (use nr' o(1) in \<open>auto simp: gave_up_def listening_def\<close>)
  next
    case 3
    have "session_ok (c', s') (Some ob') t" if t: "map_of (rg_sessions r') i = Some t" for t
    proof -
      have "follows_reg (ag_reg st) r'" using 3 unfolding complete_def by blast
      then obtain u where u: "map_of (rg_sessions (ag_reg st)) i = Some u" "cs_peer t = cs_peer u" using follows_regD [OF _ o(2) t] by blast
      have "ob_peer ob = cs_peer t" using assoc_invD(3) [OF inv u(1)] ob u(2) unfolding session_ok_def by auto
      moreover have "kept ob ob'" "ob_stage ob' = 6" "\<forall>b\<in>set (cs_bindings t). handshake (ob_peer ob) (bd_RelayEndpoint b) c' s'"
        using 3 t o(1) unfolding complete_def by blast+
      ultimately show ?thesis unfolding session_ok_def kept_def by simp
    qed
    moreover have "\<not> listening ob'" using 3 unfolding complete_def listening_def by simp
    ultimately show ?thesis using 3 o(1) unfolding m obs_result_def complete_def by blast
  qed
qed

section \<open>Every step keeps the invariant\<close>

lemma RevokeAll_view: "reg_inv r \<Longrightarrow> reg_inv (RevokeAll r) \<and> shrinks r (RevokeAll r)"
  using reg_invD(3) [of r] by (auto simp: RevokeAll_def reg_inv_def shrinks_def distinct_keys_def)

lemma ValidFor_view: "reg_inv r \<Longrightarrow> reg_inv (snd (ValidFor po ruleID g target now r)) \<and> shrinks r (snd (ValidFor po ruleID g target now r))"
  using reg_inv_remove shrinks_remove by (auto simp: ValidFor_def split: option.splits)

text \<open>A new observer gets the next number; nothing else but expired sessions changes.\<close>

lemma Observe_refused: "reg_inv r \<Longrightarrow> Observe remote bs now later r = (Inl e, r') \<Longrightarrow> reg_inv r' \<and> shrinks r r'"
  using prune_view [of r now] by (auto simp: Observe_def Let_def split: if_splits option.splits)

lemma Observe_accepted:
  assumes r: "reg_inv r" and o: "Observe remote bs now later r = (Inr ob, r')"
  shows "reg_inv r'" "ob_session ob = rg_next r + 1" "rg_next r' = rg_next r + 1" "ob_stage ob = 0" "ob_client ob = []" "ob_server ob = []"
    "\<exists>s. map_of (rg_sessions r') (rg_next r + 1) = Some s \<and> cs_peer s = ob_peer ob \<and> \<not> cs_ready s"
    "i \<noteq> rg_next r + 1 \<Longrightarrow> map_of (rg_sessions r') i = map_of (rg_sessions (prune now r)) i"
    "\<not> ob_closed ob"
proof -
  define p where "p = prune now r"
  have p: "reg_inv p" "rg_next p = rg_next r" using prune_view [OF r] by (simp_all add: p_def)
  obtain peer where pe: "peerIP remote = Some peer" and lim: "\<not> int (length (rg_sessions p)) \<ge> rg_limit p"
    and ok: "list_all (\<lambda>b. validBinding b \<and> b \<in> set (rg_allowed p)) (map canonicalBinding bs)"
    using o by (auto simp: Observe_def Let_def p_def [symmetric] split: if_splits option.splits)
  define s where "s = \<lparr>cs_bindings = map canonicalBinding bs, cs_peer = peer, cs_port = 0, cs_ready = False, cs_closed = False, cs_expires = later + rg_ttl p\<rparr>"
  have e: "ob = \<lparr>ob_session = rg_next r + 1, ob_peer = peer, ob_stage = 0, ob_client = [], ob_server = [], ob_methods = [], ob_failed = False, ob_closed = False\<rparr>"
    "r' = p\<lparr>rg_next := rg_next r + 1, rg_sessions := put (rg_next r + 1) s (rg_sessions p)\<rparr>"
    using o pe by (auto simp: Observe_def Let_def p_def [symmetric] p(2) s_def split: if_splits)
  note inv = reg_invD [OF p(1)]
  have fresh: "map_of (rg_sessions p) (rg_next r + 1) = None"
    using inv(4) [of "rg_next r + 1"] p(2) by (cases "map_of (rg_sessions p) (rg_next r + 1)") auto
  have idx: "\<exists>t. map_of (rg_sessions r') i = Some t \<and> cs_ready t \<and> b \<in> set (cs_bindings t) \<and> key_of t b = k" if x: "map_of (rg_index r') (k, i) = Some b" for k i b
  proof -
    obtain t where t: "map_of (rg_sessions p) i = Some t" "cs_ready t" "b \<in> set (cs_bindings t)" "key_of t b = k" using inv(5) [of k i b] x by (auto simp: e)
    then have "i \<noteq> rg_next r + 1" using fresh by auto
    then show ?thesis using t by (simp add: e)
  qed
  have bs: "set (cs_bindings s) \<subseteq> set (rg_allowed p)" using ok by (auto simp: s_def list_all_iff)
  show "reg_inv r'"
  proof (rule reg_invI)
    show "int (length (rg_sessions r')) \<le> rg_limit r'" using lim length_put_le [of "rg_next r + 1" s "rg_sessions p"] by (simp add: e)
    show "i \<le> rg_next r' \<and> set (cs_bindings t) \<subseteq> set (rg_allowed r') \<and> \<not> cs_closed t" if "map_of (rg_sessions r') i = Some t" for i t
      using that inv(4) [of i t] bs p(2) by (auto simp: e s_def split: if_splits)
    show "has (rg_index r') (key_of t b, i)" if "map_of (rg_sessions r') i = Some t" "cs_ready t" "b \<in> set (cs_bindings t)" for i t b
      using that inv(6) [of i t b] by (auto simp: e s_def split: if_splits)
  qed (use inv(1,2) idx in \<open>auto simp: e\<close>)
  show "ob_session ob = rg_next r + 1" "rg_next r' = rg_next r + 1" "ob_stage ob = 0" "ob_client ob = []" "ob_server ob = []"
    "\<exists>s. map_of (rg_sessions r') (rg_next r + 1) = Some s \<and> cs_peer s = ob_peer ob \<and> \<not> cs_ready s"
    "i \<noteq> rg_next r + 1 \<Longrightarrow> map_of (rg_sessions r') i = map_of (rg_sessions (prune now r)) i"
    "\<not> ob_closed ob" by (simp_all add: e s_def p_def)
qed

definition step_ok :: "assoc_state \<Rightarrow> assoc_state \<Rightarrow> bool" where
  "step_ok st st' \<longleftrightarrow> assoc_inv st' \<and> follows_reg (ag_reg st) (ag_reg st')"

lemma step_ok_shrinks: "assoc_inv st \<Longrightarrow> reg_inv r \<Longrightarrow> shrinks (ag_reg st) r \<Longrightarrow> step_ok st (st\<lparr>ag_reg := r\<rparr>)"
  using assoc_inv_shrinks shrinks_follows by (simp add: step_ok_def)

lemma step_ok_observer:
  assumes inv: "assoc_inv st"
    and f: "\<And>ob ob' r'. map_of (ag_obs st) i = Some ob \<Longrightarrow> f ob (ag_reg st) = (ob', r') \<Longrightarrow> obs_result (ag_reg st) i ob (g ob (fed_of st i)) ob' r'"
  shows "step_ok st (on_observer i f g st)"
proof (cases "map_of (ag_obs st) i")
  case None
  then show ?thesis using inv by (simp add: on_observer_def step_ok_def)
next
  case (Some ob)
  obtain ob' r' where e: "f ob (ag_reg st) = (ob', r')" by fastforce
  have res: "obs_result (ag_reg st) i ob (g ob (fed_of st i)) ob' r'" by (rule f [OF Some e])
  then have "follows_reg (ag_reg st) r'" unfolding obs_result_def by blast
  then show ?thesis using Some e assoc_inv_observer [OF inv Some res] by (simp add: on_observer_def step_ok_def)
qed

lemma step_ok_observe:
  assumes inv: "assoc_inv st" and o: "Observe remote bs now later (ag_reg st) = (Inr ob, r')"
  shows "step_ok st (st\<lparr>ag_reg := r', ag_obs := put (ob_session ob) ob (ag_obs st)\<rparr>)"
proof -
  let ?r = "ag_reg st" and ?st = "st\<lparr>ag_reg := r', ag_obs := put (ob_session ob) ob (ag_obs st)\<rparr>"
  note r = assoc_invD(1) [OF inv]
  note v = Observe_accepted [OF r o]
  note p = prune_view [OF r, of now]
  have f: "fed_of (st\<lparr>ag_reg := q, ag_obs := os\<rparr>) j = fed_of st j" for q os j by (simp add: fed_of_def)
  have f0: "fed_of st (rg_next ?r + 1) = ([], [])" using assoc_invD(4) [OF inv, of "rg_next ?r + 1"] by (simp add: fed_of_def)
  have old: "\<exists>u. map_of (rg_sessions ?r) j = Some u \<and> t = u" if "j \<noteq> rg_next ?r + 1" "map_of (rg_sessions r') j = Some t" for j t
    using v(8) [OF that(1)] that(2) p(7) [of j t] by simp
  have "obs_ok r' (fed_of st j) j ob2" if ob2: "map_of (put (ob_session ob) ob (ag_obs st)) j = Some ob2" for j ob2
  proof (cases "j = rg_next ?r + 1")
    case True
    then show ?thesis using ob2 v(2-6,9) f0 unfolding obs_ok_def stage_ok_def by simp
  next
    case False
    moreover have "map_of (rg_sessions r') j = None" if "map_of (rg_sessions ?r) j = None" using that old [OF False] by (cases "map_of (rg_sessions r') j") auto
    ultimately show ?thesis using ob2 v(2,3) assoc_invD(2) [OF inv, of j ob2] unfolding obs_ok_def by simp
  qed
  moreover have "session_ok (fed_of st j) (map_of (put (ob_session ob) ob (ag_obs st)) j) t" if t: "map_of (rg_sessions r') j = Some t" for j t
  proof (cases "j = rg_next ?r + 1")
    case True
    then show ?thesis using t v(2,7) unfolding session_ok_def by auto
  next
    case False
    then show ?thesis using old [OF False t] assoc_invD(3) [OF inv, of j t] v(2) by simp
  qed
  moreover have "map_of (ag_fed st) j = None" if "rg_next r' < j" for j using that v(3) assoc_invD(4) [OF inv, of j] by simp
  ultimately have "assoc_inv ?st" using v(1) unfolding assoc_inv_def by (simp add: f)
  moreover have "follows_reg ?r r'" by (rule follows_regI) (use v(3) old in fastforce)+
  ultimately show ?thesis by (simp add: step_ok_def)
qed

lemma obs_result_closed:
  assumes "assoc_inv st" "map_of (ag_obs st) i = Some ob" "closeLocked ob (ag_reg st) = (ob', r')"
  shows "obs_result (ag_reg st) i ob (fed_of st i) ob' r'"
  by (rule obs_result_close [OF obs_result_same [OF assms(1,2)] _ assms(3)]) (use assoc_invD(2) [OF assms(1,2)] in \<open>simp add: obs_ok_def\<close>)

lemma obs_result_write:
  assumes inv: "assoc_inv st" and ob: "map_of (ag_obs st) i = Some ob" and w: "observe_Write clientSide b n failed now later ob (ag_reg st) = (ob', r')"
  shows "obs_result (ag_reg st) i ob (if n > 0 then more_fed ob (\<not> clientSide) (take n b) (fed_of st i) else fed_of st i) ob' r'"
proof -
  obtain ob1 r1 where e: "(if n > 0 then feed (\<not> clientSide) (take n b) now later ob (ag_reg st) else (ob, ag_reg st)) = (ob1, r1)" by fastforce
  have fed: "obs_result (ag_reg st) i ob (if n > 0 then more_fed ob (\<not> clientSide) (take n b) (fed_of st i) else fed_of st i) ob1 r1"
    using e obs_result_feed [OF inv ob] obs_result_same [OF inv ob] by (simp split: if_splits)
  have i: "ob_session ob = i" using assoc_invD(2) [OF inv ob] by (simp add: obs_ok_def)
  have "(if failed then closeLocked ob1 r1 else (ob1, r1)) = (ob', r')" using w e by (simp add: observe_Write_def)
  then show ?thesis using fed obs_result_close [OF fed i] by (simp split: if_splits)
qed

lemma assoc_step_ok:
  assumes inv: "assoc_inv st" and ok: "op_ok op"
  shows "step_ok st (assoc_step op st)"
proof -
  note r = assoc_invD(1) [OF inv]
  have same: "step_ok st st" using inv by (simp add: step_ok_def)
  show ?thesis
  proof (cases op)
    case (OpConfigure bs now)
    then show ?thesis using same Configure_view(1,2) [OF r] step_ok_shrinks [OF inv] by (auto split: sum.splits)
  next
    case (OpRevokeRule x)
    then show ?thesis using revoke_view(1,2) [OF r] step_ok_shrinks [OF inv] by (simp add: RevokeRule_def)
  next
    case (OpRevokeGeneration g)
    then show ?thesis using revoke_view(1,2) [OF r] step_ok_shrinks [OF inv] by (simp add: RevokeGeneration_def)
  next
    case OpRevokeAll
    then show ?thesis using RevokeAll_view [OF r] step_ok_shrinks [OF inv] by simp
  next
    case (OpCount now)
    then show ?thesis using prune_view(1,2) [OF r] step_ok_shrinks [OF inv] by (simp add: Count_sessions_def Let_def)
  next
    case (OpObserve remote bs now later)
    obtain res r' where e: "Observe remote bs now later (ag_reg st) = (res, r')" by fastforce
    show ?thesis
      using OpObserve e step_ok_observe [OF inv, of remote bs now later _ r'] Observe_refused [OF r, of remote bs now later _ r'] step_ok_shrinks [OF inv]
      by (cases res) auto
  next
    case (OpRead i failed)
    have "obs_result (ag_reg st) i ob (fed_of st i) ob' r'" if "map_of (ag_obs st) i = Some ob" "observe_Read failed ob (ag_reg st) = (ob', r')" for ob ob' r'
      using that obs_result_same [OF inv that(1)] obs_result_closed [OF inv that(1)] by (simp add: observe_Read_def split: if_splits)
    then show ?thesis using OpRead step_ok_observer [OF inv] by simp
  next
    case (OpWrite i clientSide b n failed now later)
    show ?thesis unfolding OpWrite assoc_step.simps by (rule step_ok_observer [OF inv]) (rule obs_result_write [OF inv])
  next
    case (OpClose i)
    show ?thesis unfolding OpClose assoc_step.simps by (rule step_ok_observer [OF inv]) (simp add: observe_Close_def obs_result_closed [OF inv])
  next
    case (OpAdmission order ruleID g source target payload now later)
    obtain po r' where e: "Admission order ruleID g source target payload now later (ag_reg st) = (po, r')" by fastforce
    show ?thesis using OpAdmission ok e Admission_view(1,2) [OF r _ e] step_ok_shrinks [OF inv] by (simp add: op_ok_def)
  next
    case (OpValidFor po ruleID g target now)
    then show ?thesis using ValidFor_view [OF r] step_ok_shrinks [OF inv] by simp
  qed
qed

lemma assoc_run_ok: "assoc_inv st \<Longrightarrow> list_all op_ok ops \<Longrightarrow> step_ok st (assoc_run ops st)"
proof (induction ops arbitrary: st)
  case Nil
  then show ?case by (simp add: assoc_run_def step_ok_def)
next
  case (Cons op ops)
  have s: "step_ok st (assoc_step op st)" using assoc_step_ok Cons.prems by simp
  then have "step_ok (assoc_step op st) (assoc_run ops (assoc_step op st))" using Cons.IH Cons.prems by (simp add: step_ok_def)
  then show ?case using s follows_reg_trans unfolding step_ok_def by (auto simp: assoc_run_def)
qed

lemma assoc_reachable: "list_all op_ok ops \<Longrightarrow> assoc_inv (assoc_run ops (assoc_start limit ttl))"
  using assoc_run_ok [OF assoc_inv_start] by (simp add: step_ok_def)

section \<open>What a proof stands for\<close>

text \<open>An operation that takes back what a proof stands for: its rule, its generation, its relationship or its connection.\<close>

definition revokes :: "assoc_state \<Rightarrow> proof_of \<Rightarrow> assoc_op \<Rightarrow> bool" where
  "revokes st p op = (case op of
     OpConfigure bs now \<Rightarrow> (case Configure_registry bs now (ag_reg st) of Inl e \<Rightarrow> False | Inr r \<Rightarrow> pf_binding p \<notin> set (map canonicalBinding bs))
   | OpRevokeRule ruleID \<Rightarrow> of_rule ruleID (pf_binding p)
   | OpRevokeGeneration g \<Rightarrow> bd_Generation (pf_binding p) = g
   | OpRevokeAll \<Rightarrow> True
   | OpCount now \<Rightarrow> (case map_of (rg_sessions (ag_reg st)) (pf_sessionID p) of None \<Rightarrow> True | Some s \<Rightarrow> \<not> now < cs_expires s)
   | OpRead i failed \<Rightarrow> i = pf_sessionID p \<and> failed
   | OpWrite i clientSide b n failed now later \<Rightarrow> i = pf_sessionID p \<and> failed
   | OpClose i \<Rightarrow> i = pf_sessionID p
   | _ \<Rightarrow> False)"

definition gone :: "proof_of \<Rightarrow> registry \<Rightarrow> bool" where
  "gone p r \<longleftrightarrow> (\<forall>s. map_of (rg_sessions r) (pf_sessionID p) = Some s \<longrightarrow> pf_binding p \<notin> set (cs_bindings s))"

lemma gone_invalid: "gone p r \<Longrightarrow> \<not> fst (ValidFor (Some p) ruleID g target now r)"
  by (auto simp: gone_def ValidFor_def split: option.splits)

lemma gone_follows: "gone p r \<Longrightarrow> follows_reg r r' \<Longrightarrow> pf_sessionID p \<le> rg_next r \<Longrightarrow> gone p r'"
  unfolding gone_def follows_reg_def by blast

lemma closed_gone:
  assumes inv: "assoc_inv st" and cl: "\<And>ob. map_of (ag_obs st) i = Some ob \<Longrightarrow> ob_closed (fst (f ob (ag_reg st)))"
    and ok: "assoc_inv (on_observer i f g st)"
  shows "map_of (rg_sessions (ag_reg (on_observer i f g st))) i = None"
proof (cases "map_of (ag_obs st) i")
  case None
  then show ?thesis using assoc_invD(3) [OF inv, of i] by (cases "map_of (rg_sessions (ag_reg st)) i") (auto simp: on_observer_def session_ok_def)
next
  case (Some ob)
  then have "map_of (ag_obs (on_observer i f g st)) i = Some (fst (f ob (ag_reg st)))" by (simp add: on_observer_def split: prod.splits)
  then show ?thesis using assoc_invD(2) [OF ok] cl [OF Some] unfolding obs_ok_def by blast
qed

lemma closeLocked_closes: "ob_closed (fst (closeLocked ob r))"
  by (simp add: closeLocked_def)

lemma revoke_gone:
  assumes "reg_inv r" "P (pf_binding p)"
  shows "gone p (revoke P r)"
proof -
  have "pf_binding p \<notin> set (cs_bindings s)" if "map_of (rg_sessions (revoke P r)) (pf_sessionID p) = Some s" for s
    using revoke_view(4) [OF assms(1) that] assms(2) by (auto simp: list_all_iff)
  then show ?thesis by (simp add: gone_def)
qed

lemma prune_gone:
  assumes "reg_inv r" "case map_of (rg_sessions r) (pf_sessionID p) of None \<Rightarrow> True | Some s \<Rightarrow> \<not> now < cs_expires s"
  shows "gone p (prune now r)"
proof -
  have "False" if "map_of (rg_sessions (prune now r)) (pf_sessionID p) = Some s" for s
    using prune_view(7) [OF assms(1) that] assms(2) by simp
  then show ?thesis unfolding gone_def by blast
qed

lemma absent_gone: "map_of (rg_sessions r) (pf_sessionID p) = None \<Longrightarrow> gone p r"
  by (simp add: gone_def)

lemma revokes_gone:
  assumes inv: "assoc_inv st" and ok: "op_ok op" and rv: "revokes st p op"
  shows "gone p (ag_reg (assoc_step op st))"
proof -
  note r = assoc_invD(1) [OF inv]
  have st': "assoc_inv (assoc_step op st)" using assoc_step_ok [OF inv ok] by (simp add: step_ok_def)
  show ?thesis
  proof (cases op)
    case (OpConfigure bs now)
    then obtain r' where c: "Configure_registry bs now (ag_reg st) = Inr r'" "pf_binding p \<notin> set (map canonicalBinding bs)" using rv by (auto simp: revokes_def split: sum.splits)
    note v = Configure_view [OF r c(1)]
    have "pf_binding p \<notin> set (cs_bindings s)" if "map_of (rg_sessions r') (pf_sessionID p) = Some s" for s
      using reg_invD(4) [OF v(1) that] c(2) v(3) by auto
    then show ?thesis using OpConfigure c(1) by (simp add: gone_def)
  next
    case (OpRevokeRule x)
    then show ?thesis using rv revoke_gone [OF r, of "of_rule x"] by (simp add: revokes_def RevokeRule_def)
  next
    case (OpRevokeGeneration g)
    then show ?thesis using rv revoke_gone [OF r, of "\<lambda>b. bd_Generation b = g"] by (simp add: revokes_def RevokeGeneration_def)
  next
    case (OpCount now)
    then show ?thesis using rv prune_gone [OF r] by (simp add: revokes_def Count_sessions_def Let_def)
  next
    case (OpRead i failed)
    then have i: "i = pf_sessionID p" failed using rv by (simp_all add: revokes_def)
    have "ob_closed (fst (observe_Read failed ob q))" for ob q using i closeLocked_closes by (simp add: observe_Read_def)
    then show ?thesis using absent_gone closed_gone [OF inv _ st' [unfolded OpRead assoc_step.simps]] OpRead i(1) by simp
  next
    case (OpWrite i clientSide b n failed now later)
    then have i: "i = pf_sessionID p" failed using rv by (simp_all add: revokes_def)
    have "ob_closed (fst (observe_Write clientSide b n failed now later ob q))" for ob q
      using i closeLocked_closes by (simp add: observe_Write_def split: prod.splits)
    then show ?thesis using absent_gone closed_gone [OF inv _ st' [unfolded OpWrite assoc_step.simps]] OpWrite i(1) by simp
  next
    case (OpClose i)
    then have i: "i = pf_sessionID p" using rv by (simp add: revokes_def)
    have "ob_closed (fst (observe_Close ob q))" for ob q using closeLocked_closes by (simp add: observe_Close_def)
    then show ?thesis using absent_gone closed_gone [OF inv _ st' [unfolded OpClose assoc_step.simps]] OpClose i by simp
  qed (use rv in \<open>simp_all add: revokes_def RevokeAll_def gone_def\<close>)
qed

text \<open>C30: Whatever was done before, and in whatever order: when \<open>Admission\<close> gives a proof for a UDP packet, then the packet has a complete header of SOCKS5, its source has the address of the peer of a
  live control connection, and on that connection the whole handshake was transmitted: the greeting, a method the client had offered (with its login when the server asked for one), the client's request
  for an association from its own address, and the server's grant that names just the relay of the binding. The binding is one of that connection, it is still allowed, it has the rule, generation
  and target that were asked for, and no other connection could have been meant.\<close>

theorem association_proof_sound:
  assumes "list_all op_ok ops" "\<forall>xs. set (order xs) = set xs" "st = assoc_run ops (assoc_start limit ttl)"
    and "fst (Admission order ruleID generation source target payload now later (ag_reg st)) = Some p"
  shows "\<exists>a s. ap_Addr source = Some a \<and> validUDP payload \<and> map_of (rg_sessions (ag_reg st)) (pf_sessionID p) = Some s
    \<and> cs_peer s = Unmap a \<and> cs_ready s \<and> now < cs_expires s \<and> pf_binding p \<in> set (cs_bindings s) \<and> pf_binding p \<in> set (rg_allowed (ag_reg st))
    \<and> bd_UDPRuleID (pf_binding p) = ruleID \<and> bd_Generation (pf_binding p) = generation \<and> bd_RelayTarget (pf_binding p) = target
    \<and> handshake (Unmap a) (bd_RelayEndpoint (pf_binding p)) (fst (fed_of st (pf_sessionID p))) (snd (fed_of st (pf_sessionID p)))
    \<and> (\<forall>j b. vouches ruleID generation target (Unmap a) (ap_Port source) now (ag_reg st) j b \<longrightarrow> j = pf_sessionID p)"
proof -
  have inv: "assoc_inv st" using assoc_reachable assms(1,3) by simp
  obtain r' where e: "Admission order ruleID generation source target payload now later (ag_reg st) = (Some p, r')" using assms(4) by (metis eq_fst_iff)
  obtain a where a: "ap_Addr source = Some a" "validUDP payload" "\<forall>j b. vouches ruleID generation target (Unmap a) (ap_Port source) now (ag_reg st) j b \<longrightarrow> j = pf_sessionID p"
    and v: "vouches ruleID generation target (Unmap a) (ap_Port source) now (ag_reg st) (pf_sessionID p) (pf_binding p)"
    using Admission_view(4) [OF assoc_invD(1) [OF inv] _ e] assms(2) by blast
  obtain s where s: "map_of (rg_sessions (ag_reg st)) (pf_sessionID p) = Some s" "cs_ready s" "now < cs_expires s" "cs_peer s = Unmap a" "pf_binding p \<in> set (cs_bindings s)"
    "pf_binding p \<in> set (rg_allowed (ag_reg st))" "bd_UDPRuleID (pf_binding p) = ruleID" "bd_Generation (pf_binding p) = generation" "bd_RelayTarget (pf_binding p) = target"
    using v unfolding vouches_def by blast
  have "handshake (Unmap a) (bd_RelayEndpoint (pf_binding p)) (fst (fed_of st (pf_sessionID p))) (snd (fed_of st (pf_sessionID p)))"
    using assoc_invD(3) [OF inv s(1)] s(2,4,5) unfolding session_ok_def by auto
  then show ?thesis using a s by blast
qed

text \<open>A run for the witnesses: one relationship is configured, a client connects and the whole handshake is relayed.\<close>

definition demo_binding :: assoc_binding where
  "demo_binding = \<lparr>bd_ControlRuleID = ''c'', bd_UDPRuleID = ''u'', bd_Generation = ''g'', bd_RelayEndpoint = \<lparr>ap_Addr = Some (IPv4 7), ap_Port = 9\<rparr>, bd_RelayTarget = ''t''\<rparr>"

definition demo_source :: addr_port where
  "demo_source = \<lparr>ap_Addr = Some (IPv4 3), ap_Port = 50\<rparr>"

definition demo_ops :: "assoc_op list" where
  "demo_ops = [OpConfigure [demo_binding] 0, OpObserve (Some demo_source) [demo_binding] 0 0,
     OpWrite 1 False [5, 1, 0] 3 False 1 1, OpWrite 1 True [5, 0] 2 False 2 2,
     OpWrite 1 False [5, 3, 0, 1, 0, 0, 0, 0, 0, 0] 10 False 3 3, OpWrite 1 True [5, 0, 0, 1, 0, 0, 0, 7, 0, 9] 10 False 4 4]"

definition demo_packet :: bytes where
  "demo_packet = [0, 0, 0, 1, 1, 2, 3, 4, 0, 80]"

definition demo_proof :: proof_of where
  "demo_proof = \<lparr>pf_sessionID = 1, pf_binding = demo_binding, pf_source = demo_source\<rparr>"

lemma demo_ops_ok: "list_all op_ok demo_ops"
  by (simp add: demo_ops_def op_ok_def)

lemma demo_admitted: "fst (Admission (\<lambda>xs. xs) ''u'' ''g'' demo_source ''t'' demo_packet 5 5 (ag_reg (assoc_run demo_ops (assoc_start 0 0)))) = Some demo_proof"
  by code_simp

lemma association_proof_sound_witness:
  "\<exists>a s. ap_Addr demo_source = Some a \<and> validUDP demo_packet
    \<and> map_of (rg_sessions (ag_reg (assoc_run demo_ops (assoc_start 0 0)))) (pf_sessionID demo_proof) = Some s \<and> cs_peer s = Unmap a \<and> cs_ready s \<and> 5 < cs_expires s
    \<and> handshake (Unmap a) (bd_RelayEndpoint (pf_binding demo_proof)) (fst (fed_of (assoc_run demo_ops (assoc_start 0 0)) (pf_sessionID demo_proof)))
        (snd (fed_of (assoc_run demo_ops (assoc_start 0 0)) (pf_sessionID demo_proof)))"
  using association_proof_sound [OF demo_ops_ok _ refl demo_admitted] by auto

text \<open>C31: Once a proof was given, any of these ends it for good: revoking one of its rules, its generation or everything, a configuration without its relationship, an error on or the close of its control
  connection, or its session being found expired. Nothing that happens afterwards, not even configuring the same relationship again, makes \<open>ValidFor\<close> accept the proof again.\<close>

theorem revoked_proof_stays_invalid:
  assumes "list_all op_ok (ops0 @ ops1 @ ops2)" "op_ok rv" "\<forall>xs. set (order xs) = set xs" "st0 = assoc_run ops0 (assoc_start limit ttl)"
    and "fst (Admission order ruleID generation source target payload now later (ag_reg st0)) = Some p"
    and "st1 = assoc_run ops1 (assoc_step (OpAdmission order ruleID generation source target payload now later) st0)"
    and "revokes st1 p rv"
  shows "\<not> fst (ValidFor (Some p) ruleID' generation' target' now' (ag_reg (assoc_run ops2 (assoc_step rv st1))))"
proof -
  let ?a = "OpAdmission order ruleID generation source target payload now later"
  have inv0: "assoc_inv st0" using assoc_reachable assms(1,4) by simp
  have "op_ok ?a" using assms(3) by (simp add: op_ok_def)
  then have s0: "step_ok st0 (assoc_step ?a st0)" by (rule assoc_step_ok [OF inv0])
  then have "assoc_inv (assoc_step ?a st0)" unfolding step_ok_def by blast
  then have s1: "step_ok (assoc_step ?a st0) st1" unfolding assms(6) using assoc_run_ok assms(1) by simp
  have s2: "step_ok st1 (assoc_step rv st1)" using assoc_step_ok assms(2) s1 by (simp add: step_ok_def)
  have s3: "step_ok (assoc_step rv st1) (assoc_run ops2 (assoc_step rv st1))" using assoc_run_ok assms(1) s2 by (simp add: step_ok_def)
  obtain r' where e: "Admission order ruleID generation source target payload now later (ag_reg st0) = (Some p, r')" using assms(5) by (metis eq_fst_iff)
  obtain s where "map_of (rg_sessions (ag_reg st0)) (pf_sessionID p) = Some s"
    using Admission_view(4) [OF assoc_invD(1) [OF inv0] _ e] assms(3) unfolding vouches_def by blast
  then have "pf_sessionID p \<le> rg_next (ag_reg st0)" using reg_invD(4) [OF assoc_invD(1) [OF inv0]] by blast
  moreover have "follows_reg (ag_reg st0) (ag_reg (assoc_step rv st1))" using s0 s1 s2 follows_reg_trans unfolding step_ok_def by metis
  ultimately have "pf_sessionID p \<le> rg_next (ag_reg (assoc_step rv st1))" using follows_reg_next le_trans by blast
  moreover have "gone p (ag_reg (assoc_step rv st1))" using revokes_gone [OF _ assms(2,7)] s1 by (simp add: step_ok_def)
  ultimately have "gone p (ag_reg (assoc_run ops2 (assoc_step rv st1)))" using gone_follows s3 unfolding step_ok_def by blast
  then show ?thesis by (rule gone_invalid)
qed

lemma revoked_proof_stays_invalid_witness:
  "fst (ValidFor (Some demo_proof) ''u'' ''g'' ''t'' 6 (snd (Admission (\<lambda>xs. xs) ''u'' ''g'' demo_source ''t'' demo_packet 5 5 (ag_reg (assoc_run demo_ops (assoc_start 0 0))))))
   \<and> \<not> fst (ValidFor (Some demo_proof) ''u'' ''g'' ''t'' 6 (ag_reg (assoc_run demo_ops (assoc_step (OpRevokeRule ''c'')
        (assoc_run [] (assoc_step (OpAdmission (\<lambda>xs. xs) ''u'' ''g'' demo_source ''t'' demo_packet 5 5) (assoc_run demo_ops (assoc_start 0 0))))))))"
proof
  show "fst (ValidFor (Some demo_proof) ''u'' ''g'' ''t'' 6 (snd (Admission (\<lambda>xs. xs) ''u'' ''g'' demo_source ''t'' demo_packet 5 5 (ag_reg (assoc_run demo_ops (assoc_start 0 0))))))"
    by code_simp
  have "list_all op_ok (demo_ops @ [] @ demo_ops)" "op_ok (OpRevokeRule ''c'')" using demo_ops_ok by (simp_all add: op_ok_def)
  moreover have "revokes st demo_proof (OpRevokeRule ''c'')" for st by (simp add: revokes_def of_rule_def demo_proof_def demo_binding_def)
  ultimately show "\<not> fst (ValidFor (Some demo_proof) ''u'' ''g'' ''t'' 6 (ag_reg (assoc_run demo_ops (assoc_step (OpRevokeRule ''c'')
        (assoc_run [] (assoc_step (OpAdmission (\<lambda>xs. xs) ''u'' ''g'' demo_source ''t'' demo_packet 5 5) (assoc_run demo_ops (assoc_start 0 0))))))))"
    using revoked_proof_stays_invalid [OF _ _ _ refl demo_admitted refl] by blast
qed

end
