(* ===== verification/Datagram.thy ===== *)
theory Datagram
  imports Bytes
begin

text \<open>
  UDP through a tunnel (\<open>internal/tunnel/datagram.go\<close>): the packets of many flows share one QUIC connection. A packet is cut into frames that the connection may lose, repeat or reorder, and put together
  again at the other end; what waits in between is limited in packets and in bytes.

  A link is one end of a connection. Its flows are numbered, and a job in the queue names its flow by that number. Each function is what the code does while it holds the lock of the session or of the
  admission; the three counters of bytes are atomic. What the connection does with a frame (\<open>SendDatagram\<close>) is an argument, as are the clock and the entry that a full table of seen packets gives up (\<open>evict\<close>).
\<close>

section \<open>State\<close>

definition datagramHeader :: nat where "datagramHeader = 25"
definition maxDatagramFlows :: int where "maxDatagramFlows = 1024"
definition maxDatagramMemory :: int where "maxDatagramMemory = 8388608"
definition fragmentTTL :: int where "fragmentTTL = 1000000000"

record fragments =
  fr_total :: int
  fr_parts :: "bytes option list"
  fr_count :: int
  fr_bytes :: int
  fr_expires :: gotime

record dg_session =
  ds_open :: bool
  ds_sequence :: u64
  ds_in :: "bytes list"
  ds_readDeadline :: "gotime option"
  ds_writeDeadline :: "gotime option"
  ds_parts :: "(u64, fragments) gomap"
  ds_seen :: "(u64, gotime) gomap"

record dg_link =
  dl_alive :: bool
  dl_flows :: "(u64, dg_session) gomap"
  dl_send :: "(u64 \<times> bytes) list"
  dl_queued :: int
  dl_reassembly :: int
  dl_received :: int
  dl_packetSize :: int
  dl_drops :: u64
  dl_sentFrames :: u64

datatype dg_error = FlowInvalid | PacketTooLong | FlowClosed | DeadlineExceeded | QueueFull | NotAuthorized | WouldBlock

definition newDatagramLink :: dg_link where
  "newDatagramLink = \<lparr>dl_alive = True, dl_flows = [], dl_send = [], dl_queued = 0, dl_reassembly = 0, dl_received = 0, dl_packetSize = 1240, dl_drops = 0, dl_sentFrames = 0\<rparr>"

definition new_flow :: dg_session where
  "new_flow = \<lparr>ds_open = True, ds_sequence = 0, ds_in = [], ds_readDeadline = None, ds_writeDeadline = None, ds_parts = [], ds_seen = []\<rparr>"

definition add_flow :: "u64 \<Rightarrow> dg_link \<Rightarrow> dg_error + dg_link" where
  "add_flow flow l = (if flow = 0 \<or> has (dl_flows l) flow \<or> int (length (dl_flows l)) \<ge> maxDatagramFlows \<or> \<not> dl_alive l then Inl FlowInvalid
     else Inr (l\<lparr>dl_flows := put flow new_flow (dl_flows l)\<rparr>))"

definition takeMemory :: "nat \<Rightarrow> int \<Rightarrow> int option" where
  "takeMemory n counter = (if int n > maxDatagramMemory - counter then None else Some (counter + int n))"

definition drop_one :: "dg_link \<Rightarrow> dg_link" where
  "drop_one l = l\<lparr>dl_drops := dl_drops l + 1\<rparr>"

section \<open>Sending\<close>

definition fragment :: "u64 \<Rightarrow> u64 \<Rightarrow> bytes \<Rightarrow> nat \<Rightarrow> nat \<Rightarrow> nat \<Rightarrow> bytes" where
  "fragment flow pid p chunk count i = (let start = i * chunk; stop = min (length p) ((i + 1) * chunk) in
     [1] @ be64 flow @ be64 pid @ put_be 4 (int (length p)) @ put_be 2 (int i) @ put_be 2 (int count) @ take (stop - start) (drop start p))"

datatype send_outcome = Sent | TooLarge int | SendFailed

datatype send_stop = AllSent | Resize int | Stopped

fun send_frames :: "(nat \<Rightarrow> send_outcome) \<Rightarrow> (nat \<Rightarrow> bytes) \<Rightarrow> nat list \<Rightarrow> bytes list \<times> send_stop" where
  "send_frames out frame [] = ([], AllSent)"
| "send_frames out frame (i # is) = (case out i of
     Sent \<Rightarrow> (let (fs, e) = send_frames out frame is in (frame i # fs, e))
   | TooLarge n \<Rightarrow> ([], if n > int datagramHeader + 512 then Resize n else Stopped)
   | SendFailed \<Rightarrow> ([], Stopped))"

definition frame_count :: "bytes \<Rightarrow> nat \<Rightarrow> nat" where
  "frame_count p chunk = max 1 ((length p + chunk - 1) div chunk)"

text \<open>The attempts to send a packet, one for each list of outcomes: whether it was sent, the frames that were, and the session and link after it.\<close>

fun send_attempts :: "(nat \<Rightarrow> send_outcome) list \<Rightarrow> u64 \<Rightarrow> bytes \<Rightarrow> dg_session \<Rightarrow> dg_link \<Rightarrow> bool \<times> bytes list \<times> dg_session \<times> dg_link" where
  "send_attempts [] flow p s l = (False, [], s, l)"
| "send_attempts (out # outs) flow p s l = (let chunk = nat (dl_packetSize l - int datagramHeader) in
     if dl_packetSize l - int datagramHeader < 512 then (False, [], s, l)
     else let count = frame_count p chunk;
              s1 = s\<lparr>ds_sequence := ds_sequence s + 1\<rparr>;
              (fs, e) = send_frames out (fragment flow (ds_sequence s1) p chunk count) [0..<count];
              l1 = l\<lparr>dl_sentFrames := dl_sentFrames l + of_nat (length fs)\<rparr> in
       case e of AllSent \<Rightarrow> (True, fs, s1, l1)
       | Stopped \<Rightarrow> (False, fs, s1, l1)
       | Resize n \<Rightarrow> (let (ok, gs, s2, l2) = send_attempts outs flow p s1 (l1\<lparr>dl_packetSize := n\<rparr>) in (ok, fs @ gs, s2, l2)))"

definition sendPacket :: "(nat \<Rightarrow> send_outcome) \<Rightarrow> (nat \<Rightarrow> send_outcome) \<Rightarrow> u64 \<Rightarrow> bytes \<Rightarrow> dg_session \<Rightarrow> dg_link \<Rightarrow> bool \<times> bytes list \<times> dg_session \<times> dg_link" where
  "sendPacket out1 out2 = send_attempts [out1, out2]"

text \<open>One job of \<open>sender\<close>, and what it does when the connection has ended.\<close>

definition sender_job :: "(nat \<Rightarrow> send_outcome) \<Rightarrow> (nat \<Rightarrow> send_outcome) \<Rightarrow> dg_link \<Rightarrow> bytes list \<times> dg_link" where
  "sender_job out1 out2 l = (case dl_send l of [] \<Rightarrow> ([], l) | (flow, p) # jobs \<Rightarrow>
     let l1 = l\<lparr>dl_send := jobs, dl_queued := dl_queued l - int (length p)\<rparr> in
     case map_of (dl_flows l) flow of None \<Rightarrow> ([], l1)
     | Some s \<Rightarrow> if \<not> ds_open s then ([], l1)
         else let (ok, fs, s', l2) = sendPacket out1 out2 flow p s l1; l3 = (if ok then l2 else drop_one l2) in
           (fs, l3\<lparr>dl_flows := put flow s' (dl_flows l3)\<rparr>))"

definition sender_stop :: "dg_link \<Rightarrow> dg_link" where
  "sender_stop l = (if dl_alive l then l else l\<lparr>dl_send := [], dl_queued := dl_queued l - (\<Sum>(flow, p)\<leftarrow>dl_send l. int (length p))\<rparr>)"

definition WriteAuthorized :: "u64 \<Rightarrow> bytes \<Rightarrow> bool \<Rightarrow> gotime \<Rightarrow> dg_link \<Rightarrow> dg_error + dg_link" where
  "WriteAuthorized flow p authorized now l =
     (if int (length p) > 65535 then Inl PacketTooLong
      else case map_of (dl_flows l) flow of None \<Rightarrow> Inl FlowClosed
      | Some s \<Rightarrow>
          if \<not> ds_open s \<or> \<not> dl_alive l then Inl FlowClosed
          else if (case ds_writeDeadline s of None \<Rightarrow> False | Some d \<Rightarrow> \<not> now < d) then Inl DeadlineExceeded
          else if int (length (dl_send l)) = 256 then Inl QueueFull
          else case takeMemory (length p) (dl_queued l) of None \<Rightarrow> Inl QueueFull
          | Some n \<Rightarrow> if \<not> authorized then Inl NotAuthorized else Inr (l\<lparr>dl_send := dl_send l @ [(flow, p)], dl_queued := n\<rparr>))"

section \<open>Receiving\<close>

definition totals :: "(u64, fragments) gomap \<Rightarrow> int" where
  "totals m = gsum (\<lambda>pid a. fr_total a) m"

definition expireLocked :: "gotime \<Rightarrow> dg_session \<Rightarrow> dg_link \<Rightarrow> dg_session \<times> dg_link" where
  "expireLocked now s l = (let gone = filter (\<lambda>(pid, a). \<not> now < fr_expires a) (ds_parts s) in
     (s\<lparr>ds_parts := filter (\<lambda>(pid, a). now < fr_expires a) (ds_parts s), ds_seen := filter (\<lambda>(pid, until). now < until) (ds_seen s)\<rparr>,
      l\<lparr>dl_reassembly := dl_reassembly l - totals gone, dl_drops := dl_drops l + of_nat (length gone)\<rparr>))"

text \<open>A whole packet goes to the reader, unless too much waits for it already.\<close>

definition deliver :: "nat \<Rightarrow> gotime \<Rightarrow> u64 \<Rightarrow> bytes \<Rightarrow> dg_session \<Rightarrow> dg_link \<Rightarrow> dg_session \<times> dg_link" where
  "deliver evict now pid packet s l =
     (let seen = (if int (length (ds_seen s)) \<ge> 256 then del (fst (ds_seen s ! (evict mod length (ds_seen s)))) (ds_seen s) else ds_seen s);
          s1 = s\<lparr>ds_seen := put pid (now + 2 * fragmentTTL) seen\<rparr> in
      case takeMemory (length packet) (dl_received l) of None \<Rightarrow> (s1, drop_one l)
      | Some n \<Rightarrow> if length (ds_in s1) < 32 then (s1\<lparr>ds_in := ds_in s1 @ [packet]\<rparr>, l\<lparr>dl_received := n\<rparr>) else (s1, drop_one l))"

text \<open>The packet that a frame belongs to, which the first frame of it starts.\<close>

definition assembly :: "gotime \<Rightarrow> u64 \<Rightarrow> nat \<Rightarrow> nat \<Rightarrow> dg_session \<Rightarrow> dg_link \<Rightarrow> (fragments \<times> dg_session \<times> dg_link) option" where
  "assembly now pid tot count s l = (case map_of (ds_parts s) pid of
     Some a \<Rightarrow> Some (a, s, l)
   | None \<Rightarrow> if int (length (ds_parts s)) \<ge> 4 then None
       else case takeMemory tot (dl_reassembly l) of None \<Rightarrow> None
       | Some n \<Rightarrow> let a = \<lparr>fr_total = int tot, fr_parts = replicate count None, fr_count = 0, fr_bytes = 0, fr_expires = now + fragmentTTL\<rparr> in
           Some (a, s\<lparr>ds_parts := put pid a (ds_parts s)\<rparr>, l\<lparr>dl_reassembly := n\<rparr>))"

definition joined :: "bytes option list \<Rightarrow> bytes" where
  "joined parts = concat (map (\<lambda>q. case q of None \<Rightarrow> [] | Some b \<Rightarrow> b) parts)"

definition add_part :: "nat \<Rightarrow> gotime \<Rightarrow> u64 \<Rightarrow> nat \<Rightarrow> nat \<Rightarrow> nat \<Rightarrow> bytes \<Rightarrow> fragments \<Rightarrow> dg_session \<Rightarrow> dg_link \<Rightarrow> dg_session \<times> dg_link" where
  "add_part evict now pid tot index count payload a s l =
     (if fr_total a \<noteq> int tot \<or> length (fr_parts a) \<noteq> count then (s, drop_one l)
      else case fr_parts a ! index of Some q \<Rightarrow> (s, if q \<noteq> payload then drop_one l else l)
      | None \<Rightarrow>
          if int (length payload) > fr_total a - fr_bytes a then (s, drop_one l)
          else let a1 = a\<lparr>fr_parts := (fr_parts a)[index := Some payload], fr_count := fr_count a + 1, fr_bytes := fr_bytes a + int (length payload)\<rparr> in
            if fr_count a1 \<noteq> int count then (s\<lparr>ds_parts := put pid a1 (ds_parts s)\<rparr>, l)
            else let s1 = s\<lparr>ds_parts := del pid (ds_parts s)\<rparr>; l1 = l\<lparr>dl_reassembly := dl_reassembly l - fr_total a1\<rparr> in
              if fr_bytes a1 \<noteq> int tot then (s1, drop_one l1)
              else deliver evict now pid (joined (fr_parts a1)) s1 l1)"

definition accept_frame :: "nat \<Rightarrow> gotime \<Rightarrow> bytes \<Rightarrow> dg_session \<Rightarrow> dg_link \<Rightarrow> dg_session \<times> dg_link" where
  "accept_frame evict now frame s l =
     (let pid = get64 (take 8 (drop 9 frame)); tot = get_be (take 4 (drop 17 frame)); index = get_be (take 2 (drop 21 frame));
          count = get_be (take 2 (drop 23 frame)); payload = drop datagramHeader frame in
      if int tot > 65535 \<or> count < 1 \<or> count > 128 \<or> index \<ge> count \<or> length payload > tot \<or> count > 1 \<and> payload = [] then (s, drop_one l)
      else if \<not> ds_open s then (s, l)
      else let (s1, l1) = expireLocked now s l in
        if has (ds_seen s1) pid then (s1, l1)
        else if count = 1 then (if length payload \<noteq> tot then (s1, drop_one l1) else deliver evict now pid payload s1 l1)
        else case assembly now pid tot count s1 l1 of None \<Rightarrow> (s1, drop_one l1)
          | Some (a, s2, l2) \<Rightarrow> add_part evict now pid tot index count payload a s2 l2)"

definition put_flow :: "u64 \<Rightarrow> dg_session \<times> dg_link \<Rightarrow> dg_link" where
  "put_flow flow = (\<lambda>(s, l). l\<lparr>dl_flows := put flow s (dl_flows l)\<rparr>)"

text \<open>One datagram of the loop of \<open>receive\<close>.\<close>

definition receive_frame :: "nat \<Rightarrow> gotime \<Rightarrow> bytes \<Rightarrow> dg_link \<Rightarrow> dg_link" where
  "receive_frame evict now p l =
     (if length p < datagramHeader \<or> p ! 0 \<noteq> 1 then drop_one l
      else let flow = get64 (take 8 (drop 1 p)) in
        case map_of (dl_flows l) flow of None \<Rightarrow> drop_one l | Some s \<Rightarrow> put_flow flow (accept_frame evict now p s l))"

definition collect :: "gotime \<Rightarrow> dg_link \<Rightarrow> dg_link" where
  "collect now l = fold (\<lambda>(flow, s) l. put_flow flow (expireLocked now s l)) (dl_flows l) l"

definition waiting :: "dg_session \<Rightarrow> int" where
  "waiting s = (\<Sum>p\<leftarrow>ds_in s. int (length p))"

definition Close_flow :: "u64 \<Rightarrow> dg_link \<Rightarrow> dg_link" where
  "Close_flow flow l = (case map_of (dl_flows l) flow of None \<Rightarrow> l
     | Some s \<Rightarrow> l\<lparr>dl_flows := del flow (dl_flows l), dl_reassembly := dl_reassembly l - totals (ds_parts s), dl_received := dl_received l - waiting s\<rparr>)"

text \<open>When the connection has ended, \<open>receive\<close> closes every flow.\<close>

definition receive_stop :: "dg_link \<Rightarrow> dg_link" where
  "receive_stop l = (if dl_alive l then l else fold (\<lambda>(flow, s). Close_flow flow) (dl_flows l) l)"

text \<open>A reader with a buffer of \<open>n\<close> bytes. Where the context has ended and a packet waits as well, \<open>select\<close> takes either (\<open>ended\<close>).\<close>

definition Read_packet :: "u64 \<Rightarrow> nat \<Rightarrow> gotime \<Rightarrow> bool \<Rightarrow> dg_link \<Rightarrow> (dg_error + bytes) \<times> dg_link" where
  "Read_packet flow n now ended l = (case map_of (dl_flows l) flow of None \<Rightarrow> (Inl FlowClosed, l)
     | Some s \<Rightarrow>
         if (case ds_readDeadline s of None \<Rightarrow> False | Some d \<Rightarrow> \<not> now < d) then (Inl DeadlineExceeded, l)
         else if \<not> ds_open s \<and> (ended \<or> ds_in s = []) then (Inl FlowClosed, l)
         else case ds_in s of [] \<Rightarrow> (Inl WouldBlock, l)
         | p # ps \<Rightarrow> (Inr (take n p), l\<lparr>dl_received := dl_received l - int (length p), dl_flows := put flow (s\<lparr>ds_in := ps\<rparr>) (dl_flows l)\<rparr>))"

definition on_flow :: "u64 \<Rightarrow> (dg_session \<Rightarrow> dg_session) \<Rightarrow> dg_link \<Rightarrow> dg_link" where
  "on_flow flow f l = (case map_of (dl_flows l) flow of None \<Rightarrow> l | Some s \<Rightarrow> l\<lparr>dl_flows := put flow (f s) (dl_flows l)\<rparr>)"

definition SetReadDeadline :: "u64 \<Rightarrow> gotime option \<Rightarrow> dg_link \<Rightarrow> dg_link" where
  "SetReadDeadline flow t = on_flow flow (\<lambda>s. s\<lparr>ds_readDeadline := t\<rparr>)"

definition SetWriteDeadline :: "u64 \<Rightarrow> gotime option \<Rightarrow> dg_link \<Rightarrow> dg_link" where
  "SetWriteDeadline flow t = on_flow flow (\<lambda>s. s\<lparr>ds_writeDeadline := t\<rparr>)"

end
