(* ===== verification/Datagram_Inv.thy ===== *)
theory Datagram_Inv
  imports Datagram
begin

text \<open>
  One end of a datagram connection as a machine, and its memory: whatever the other end sends and in whatever order its goroutines run, the counters of bytes are exact and bounded.
\<close>

section \<open>The machine of a link\<close>

datatype dg_op =
    DgAdd u64
  | DgReceive bytes gotime nat
  | DgCollect gotime
  | DgRead u64 nat gotime bool
  | DgWrite u64 bytes bool gotime
  | DgSend "nat \<Rightarrow> send_outcome" "nat \<Rightarrow> send_outcome"
  | DgClose u64
  | DgCancel u64
  | DgReadDeadline u64 "gotime option"
  | DgWriteDeadline u64 "gotime option"
  | DgDown
  | DgSenderStop
  | DgReceiveStop

text \<open>The frames that a step hands to the connection, and the link after it. The context of a flow may end at any time, before the flow is closed.\<close>

fun dg_step :: "dg_op \<Rightarrow> dg_link \<Rightarrow> bytes list \<times> dg_link" where
  "dg_step (DgAdd flow) l = ([], case add_flow flow l of Inl e \<Rightarrow> l | Inr l' \<Rightarrow> l')"
| "dg_step (DgReceive frame now evict) l = ([], receive_frame evict now frame l)"
| "dg_step (DgCollect now) l = ([], collect now l)"
| "dg_step (DgRead flow n now ended) l = ([], snd (Read_packet flow n now ended l))"
| "dg_step (DgWrite flow p authorized now) l = ([], case WriteAuthorized flow p authorized now l of Inl e \<Rightarrow> l | Inr l' \<Rightarrow> l')"
| "dg_step (DgSend out1 out2) l = sender_job out1 out2 l"
| "dg_step (DgClose flow) l = ([], Close_flow flow l)"
| "dg_step (DgCancel flow) l = ([], on_flow flow (\<lambda>s. s\<lparr>ds_open := False\<rparr>) l)"
| "dg_step (DgReadDeadline flow t) l = ([], SetReadDeadline flow t l)"
| "dg_step (DgWriteDeadline flow t) l = ([], SetWriteDeadline flow t l)"
| "dg_step DgDown l = ([], l\<lparr>dl_alive := False\<rparr>)"
| "dg_step DgSenderStop l = ([], sender_stop l)"
| "dg_step DgReceiveStop l = ([], receive_stop l)"

definition dg_run :: "dg_op list \<Rightarrow> dg_link \<Rightarrow> dg_link" where
  "dg_run ops l = fold (\<lambda>op l. snd (dg_step op l)) ops l"

section \<open>The invariant\<close>

definition frag_ok :: "fragments \<Rightarrow> bool" where
  "frag_ok a \<longleftrightarrow> 0 \<le> fr_total a \<and> fr_total a \<le> 65535 \<and> int (length (joined (fr_parts a))) = fr_bytes a \<and> fr_bytes a \<le> fr_total a"

definition flow_ok :: "dg_session \<Rightarrow> bool" where
  "flow_ok s \<longleftrightarrow> distinct_keys (ds_parts s) \<and> int (length (ds_parts s)) \<le> 4 \<and> distinct_keys (ds_seen s) \<and> int (length (ds_seen s)) \<le> 256
     \<and> length (ds_in s) \<le> 32 \<and> (\<forall>pid a. (pid, a) \<in> set (ds_parts s) \<longrightarrow> frag_ok a)"

definition queue_bytes :: "(u64 \<times> bytes) list \<Rightarrow> int" where
  "queue_bytes js = (\<Sum>(flow, p)\<leftarrow>js. int (length p))"

definition link_ok :: "dg_link \<Rightarrow> bool" where
  "link_ok l \<longleftrightarrow> distinct_keys (dl_flows l) \<and> int (length (dl_flows l)) \<le> maxDatagramFlows \<and> (\<forall>flow s. map_of (dl_flows l) flow = Some s \<longrightarrow> flow_ok s)
     \<and> int (length (dl_send l)) \<le> 256
     \<and> dl_queued l = queue_bytes (dl_send l) \<and> dl_queued l \<le> maxDatagramMemory
     \<and> dl_reassembly l = gsum (\<lambda>flow s. totals (ds_parts s)) (dl_flows l) \<and> dl_reassembly l \<le> maxDatagramMemory
     \<and> dl_received l = gsum (\<lambda>flow s. waiting s) (dl_flows l) \<and> dl_received l \<le> maxDatagramMemory"

lemma link_okD:
  assumes "link_ok l"
  shows "distinct_keys (dl_flows l)" "int (length (dl_flows l)) \<le> maxDatagramFlows" "map_of (dl_flows l) flow = Some s \<Longrightarrow> flow_ok s"
    "int (length (dl_send l)) \<le> 256" "dl_queued l = queue_bytes (dl_send l)" "dl_queued l \<le> maxDatagramMemory"
    "dl_reassembly l = gsum (\<lambda>flow s. totals (ds_parts s)) (dl_flows l)" "dl_reassembly l \<le> maxDatagramMemory"
    "dl_received l = gsum (\<lambda>flow s. waiting s) (dl_flows l)" "dl_received l \<le> maxDatagramMemory"
  using assms unfolding link_ok_def by blast+

text \<open>What a step of one session may do to it and to the counters of the link.\<close>

definition moved :: "dg_session \<Rightarrow> dg_link \<Rightarrow> dg_session \<Rightarrow> dg_link \<Rightarrow> bool" where
  "moved s l s' l' \<longleftrightarrow> flow_ok s' \<and> dl_flows l' = dl_flows l \<and> dl_send l' = dl_send l \<and> dl_queued l' = dl_queued l
     \<and> dl_reassembly l' = dl_reassembly l + totals (ds_parts s') - totals (ds_parts s) \<and> dl_reassembly l' \<le> max (dl_reassembly l) maxDatagramMemory
     \<and> dl_received l' = dl_received l + waiting s' - waiting s \<and> dl_received l' \<le> max (dl_received l) maxDatagramMemory"

lemma movedD:
  assumes "moved s l s' l'"
  shows "flow_ok s'" "dl_flows l' = dl_flows l" "dl_send l' = dl_send l" "dl_queued l' = dl_queued l"
    "dl_reassembly l' = dl_reassembly l + totals (ds_parts s') - totals (ds_parts s)" "dl_reassembly l' \<le> max (dl_reassembly l) maxDatagramMemory"
    "dl_received l' = dl_received l + waiting s' - waiting s" "dl_received l' \<le> max (dl_received l) maxDatagramMemory"
  using assms unfolding moved_def by blast+

lemma moved_refl: "flow_ok s \<Longrightarrow> moved s l s l"
  by (simp add: moved_def)

lemma moved_drop: "moved s l s' l' \<Longrightarrow> moved s l s' (drop_one l')"
  by (auto simp: moved_def drop_one_def)

lemma moved_trans:
  assumes "moved a l b m" "moved b m c n"
  shows "moved a l c n"
  using movedD [OF assms(1)] movedD [OF assms(2)] unfolding moved_def by (simp, linarith)

lemma put_flow_ok:
  assumes "link_ok l" "map_of (dl_flows l) flow = Some s" "moved s l s' l'"
  shows "link_ok (put_flow flow (s', l'))"
proof -
  note k = link_okD [OF assms(1)] and t = am.total_put [OF link_okD(1) [OF assms(1)]]
  have "length (put flow s' (dl_flows l)) = length (dl_flows l)" using assms(2) by (simp add: length_put has_def)
  then show ?thesis using assms(2,3) k t [of _ flow s'] unfolding link_ok_def put_flow_def moved_def by (simp add: distinct_keys_put)
qed

lemma totals_filter: "totals (filter (\<lambda>(pid, a). P a) m) + totals (filter (\<lambda>(pid, a). \<not> P a) m) = totals m"
  unfolding totals_def gsum_def by (induction m) auto

lemma totals_nonneg: "(\<And>pid a. (pid, a) \<in> set m \<Longrightarrow> frag_ok a) \<Longrightarrow> 0 \<le> totals m"
  unfolding totals_def gsum_def frag_ok_def by (induction m) fastforce+

lemma distinct_keys_filter: "distinct_keys m \<Longrightarrow> distinct_keys (filter P m)"
  unfolding distinct_keys_def by (rule distinct_map_filter)

lemma length_filter_int: "int (length m) \<le> n \<Longrightarrow> int (length (filter P m)) \<le> n"
  using length_filter_le [of P m] by linarith

lemma expire_moved:
  assumes "flow_ok s" "expireLocked now s l = (s', l')"
  shows "moved s l s' l'"
proof -
  let ?gone = "filter (\<lambda>(pid, a). \<not> now < fr_expires a) (ds_parts s)"
  have e: "s' = s\<lparr>ds_parts := filter (\<lambda>(pid, a). now < fr_expires a) (ds_parts s), ds_seen := filter (\<lambda>(pid, until). now < until) (ds_seen s)\<rparr>"
    "l' = l\<lparr>dl_reassembly := dl_reassembly l - totals ?gone, dl_drops := dl_drops l + of_nat (length ?gone)\<rparr>"
    using assms(2) by (simp_all add: expireLocked_def Let_def)
  have "0 \<le> totals ?gone" using assms(1) by (intro totals_nonneg) (auto simp: flow_ok_def)
  moreover have "totals (ds_parts s') + totals ?gone = totals (ds_parts s)" using totals_filter [of "\<lambda>a. now < fr_expires a" "ds_parts s"] by (simp add: e)
  moreover have "flow_ok s'" using assms(1) unfolding flow_ok_def e by (simp add: distinct_keys_filter length_filter_int del: of_nat_le_numeral_iff) auto
  moreover have "waiting s' = waiting s" by (simp add: e waiting_def)
  ultimately show ?thesis by (auto simp: moved_def e)
qed

lemma takeMemory_Some: "takeMemory n c = Some d \<Longrightarrow> d = c + int n \<and> d \<le> maxDatagramMemory"
  by (auto simp: takeMemory_def split: if_splits)

lemma seen_bound:
  assumes "distinct_keys m" "int (length m) \<le> 256"
  shows "int (length (put pid t (if int (length m) \<ge> 256 then del (fst (m ! (evict mod length m))) m else m))) \<le> 256"
proof (cases "int (length m) \<ge> 256")
  case True
  let ?k = "fst (m ! (evict mod length m))"
  have "evict mod length m < length m" using True by (intro mod_less_divisor) linarith
  then have "has m ?k" by (auto simp: has_def map_of_eq_None_iff)
  then have "length (del ?k m) = length m - 1" using length_del [OF assms(1)] by simp
  then have "int (length (put pid t (del ?k m))) \<le> 256"
    using length_put_le [of pid t "del ?k m"] assms(2) True by linarith
  then show ?thesis using True by simp
next
  case False
  then show ?thesis using length_put_le [of pid t m] by simp
qed

lemma deliver_moved:
  assumes "flow_ok s" "deliver evict now pid packet s l = (s', l')"
  shows "moved s l s' l'"
proof -
  define seen where "seen = (if int (length (ds_seen s)) \<ge> 256 then del (fst (ds_seen s ! (evict mod length (ds_seen s)))) (ds_seen s) else ds_seen s)"
  define s1 where "s1 = s\<lparr>ds_seen := put pid (now + 2 * fragmentTTL) seen\<rparr>"
  have k: "distinct_keys (ds_seen s)" "int (length (ds_seen s)) \<le> 256" using assms(1) unfolding flow_ok_def by blast+
  have s1: "flow_ok s1" using assms(1) seen_bound [OF k, of pid "now + 2 * fragmentTTL" evict] k(1)
    unfolding flow_ok_def s1_def seen_def by (simp del: of_nat_le_numeral_iff)
  have m: "moved s l s1 l" using s1 by (simp add: moved_def s1_def waiting_def)
  have e: "(s', l') = (case takeMemory (length packet) (dl_received l) of None \<Rightarrow> (s1, drop_one l)
      | Some n \<Rightarrow> if length (ds_in s1) < 32 then (s1\<lparr>ds_in := ds_in s1 @ [packet]\<rparr>, l\<lparr>dl_received := n\<rparr>) else (s1, drop_one l))"
    using assms(2) unfolding deliver_def Let_def seen_def [symmetric] s1_def [symmetric] by (rule sym)
  show ?thesis
  proof (cases "takeMemory (length packet) (dl_received l)")
    case None
    then show ?thesis using e moved_drop [OF m] by simp
  next
    case (Some n)
    show ?thesis
    proof (cases "length (ds_in s1) < 32")
      case True
      then have r: "s' = s1\<lparr>ds_in := ds_in s1 @ [packet]\<rparr>" "l' = l\<lparr>dl_received := n\<rparr>" using e Some by simp_all
      have "flow_ok s'" using s1 True unfolding flow_ok_def r by simp
      moreover have "waiting s' = waiting s + int (length packet)" by (simp add: r waiting_def s1_def)
      moreover have "ds_parts s' = ds_parts s" by (simp add: r s1_def)
      ultimately show ?thesis using takeMemory_Some [OF Some] by (simp add: moved_def r(2))
    next
      case False
      then show ?thesis using e Some moved_drop [OF m] by simp
    qed
  qed
qed

lemma joined_replicate [simp]: "joined (replicate n None) = []"
  by (simp add: joined_def)

lemma length_joined_update: "i < length xs \<Longrightarrow> xs ! i = None \<Longrightarrow> length (joined (xs[i := Some q])) = length (joined xs) + length q"
proof (induction xs arbitrary: i)
  case (Cons x xs)
  then show ?case by (cases i) (auto simp: joined_def split: option.splits)
qed simp

lemma assembly_moved:
  assumes "flow_ok s" "int tot \<le> 65535" "assembly now pid tot count s l = Some (a, s', l')"
  shows "moved s l s' l'" "map_of (ds_parts s') pid = Some a"
proof -
  have "moved s l s' l' \<and> map_of (ds_parts s') pid = Some a"
  proof (cases "map_of (ds_parts s) pid")
    case (Some b)
    then show ?thesis using assms moved_refl by (simp add: assembly_def)
  next
    case None
    obtain n where n: "takeMemory tot (dl_reassembly l) = Some n" "\<not> int (length (ds_parts s)) \<ge> 4"
      using assms(3) None by (auto simp: assembly_def Let_def split: if_splits option.splits)
    define b where "b = \<lparr>fr_total = int tot, fr_parts = replicate count None, fr_count = 0, fr_bytes = 0, fr_expires = now + fragmentTTL\<rparr>"
    have e: "a = b" "s' = s\<lparr>ds_parts := put pid b (ds_parts s)\<rparr>" "l' = l\<lparr>dl_reassembly := n\<rparr>"
      using assms(3) None n by (auto simp: assembly_def Let_def b_def)
    have d: "distinct_keys (ds_parts s)" using assms(1) unfolding flow_ok_def by blast
    have t: "totals (ds_parts s') = totals (ds_parts s) + int tot" using am.total_put [OF d] None by (simp add: e totals_def b_def)
    have "frag_ok b" using assms(2) by (simp add: frag_ok_def b_def)
    moreover have "(q, c) \<in> set (put pid b (ds_parts s)) \<Longrightarrow> (q, c) = (pid, b) \<or> (q, c) \<in> set (ds_parts s)" for q c
      using map_of_in_set [OF distinct_keys_put [OF d], of pid b q c] map_of_in_set [OF d, of q c] by (auto split: if_splits)
    ultimately have "flow_ok s'" using assms(1) n(2) length_put_le [of pid b "ds_parts s"] unfolding flow_ok_def e by auto
    then show ?thesis using takeMemory_Some [OF n(1)] t by (simp add: moved_def e waiting_def)
  qed
  then show "moved s l s' l'" "map_of (ds_parts s') pid = Some a" by blast+
qed

lemma del_subset: "set (del k m) \<subseteq> set m"
  by (induction m) auto

lemma add_part_moved:
  assumes "flow_ok s" "map_of (ds_parts s) pid = Some a" "index < count" "add_part evict now pid tot index count payload a s l = (s', l')"
  shows "moved s l s' l'"
proof -
  have d: "distinct_keys (ds_parts s)" "int (length (ds_parts s)) \<le> 4" using assms(1) unfolding flow_ok_def by blast+
  have a: "frag_ok a" using assms(1,2) map_of_SomeD unfolding flow_ok_def by fast
  show ?thesis
  proof (cases "fr_total a \<noteq> int tot \<or> length (fr_parts a) \<noteq> count \<or> fr_parts a ! index \<noteq> None \<or> int (length payload) > fr_total a - fr_bytes a")
    case True
    then have "s' = s \<and> (l' = l \<or> l' = drop_one l)" using assms(4) by (auto simp: add_part_def split: if_splits option.splits)
    then show ?thesis using moved_refl [OF assms(1)] moved_drop by blast
  next
    case False
    define b where "b = a\<lparr>fr_parts := (fr_parts a)[index := Some payload], fr_count := fr_count a + 1, fr_bytes := fr_bytes a + int (length payload)\<rparr>"
    have b: "frag_ok b" "fr_total b = fr_total a"
      using a False assms(3) length_joined_update [of index "fr_parts a" payload] by (auto simp: frag_ok_def b_def)
    define s1 where "s1 = s\<lparr>ds_parts := del pid (ds_parts s)\<rparr>"
    define l1 where "l1 = l\<lparr>dl_reassembly := dl_reassembly l - fr_total b\<rparr>"
    have e: "(s', l') = (if fr_count b \<noteq> int count then (s\<lparr>ds_parts := put pid b (ds_parts s)\<rparr>, l)
        else if fr_bytes b \<noteq> int tot then (s1, drop_one l1) else deliver evict now pid (joined (fr_parts b)) s1 l1)"
      using assms(4) False by (auto simp: add_part_def Let_def b_def s1_def l1_def)
    show ?thesis
    proof (cases "fr_count b \<noteq> int count")
      case True
      then have r: "s' = s\<lparr>ds_parts := put pid b (ds_parts s)\<rparr>" "l' = l" using e by simp_all
      have t: "totals (ds_parts s') = totals (ds_parts s)" using am.total_put [OF d(1)] assms(2) b(2) by (simp add: r totals_def)
      have "(q, c) \<in> set (put pid b (ds_parts s)) \<Longrightarrow> (q, c) = (pid, b) \<or> (q, c) \<in> set (ds_parts s)" for q c
        using map_of_in_set [OF distinct_keys_put [OF d(1)], of pid b q c] map_of_in_set [OF d(1), of q c] by (auto split: if_splits)
      moreover have "length (put pid b (ds_parts s)) = length (ds_parts s)" using assms(2) by (simp add: length_put has_def)
      ultimately have "flow_ok s'" using assms(1) b(1) unfolding flow_ok_def r by auto
      then show ?thesis using t by (simp add: moved_def r waiting_def)
    next
      case fin: False
      have "flow_ok s1" using assms(1) del_subset [of pid "ds_parts s"] length_del_le [of pid "ds_parts s"] unfolding flow_ok_def s1_def by auto
      moreover have "totals (ds_parts s1) = totals (ds_parts s) - fr_total b" using am.total_del [OF d(1)] assms(2) b(2) by (simp add: s1_def totals_def)
      moreover have "0 \<le> fr_total b" using b(1) by (simp add: frag_ok_def)
      ultimately have m: "moved s l s1 l1" by (simp add: moved_def s1_def l1_def waiting_def)
      show ?thesis
      proof (cases "fr_bytes b \<noteq> int tot")
        case True
        then show ?thesis using e fin moved_drop [OF m] by simp
      next
        case False
        then have "deliver evict now pid (joined (fr_parts b)) s1 l1 = (s', l')" using e fin by simp
        then show ?thesis using moved_trans [OF m] deliver_moved movedD(1) [OF m] by blast
      qed
    qed
  qed
qed

lemma accept_moved:
  assumes "flow_ok s" "accept_frame evict now frame s l = (s', l')"
  shows "moved s l s' l'"
proof -
  define pid tot index count payload where f: "pid = get64 (take 8 (drop 9 frame))" "tot = get_be (take 4 (drop 17 frame))" "index = get_be (take 2 (drop 21 frame))"
    "count = get_be (take 2 (drop 23 frame))" "payload = drop datagramHeader frame"
  obtain s1 l1 where x: "expireLocked now s l = (s1, l1)" by fastforce
  note m1 = expire_moved [OF assms(1) x]
  have e: "(s', l') = (if int tot > 65535 \<or> count < 1 \<or> count > 128 \<or> index \<ge> count \<or> length payload > tot \<or> count > 1 \<and> payload = [] then (s, drop_one l)
      else if \<not> ds_open s then (s, l) else if has (ds_seen s1) pid then (s1, l1)
      else if count = 1 then (if length payload \<noteq> tot then (s1, drop_one l1) else deliver evict now pid payload s1 l1)
      else case assembly now pid tot count s1 l1 of None \<Rightarrow> (s1, drop_one l1) | Some (a, s2, l2) \<Rightarrow> add_part evict now pid tot index count payload a s2 l2)"
    using assms(2) unfolding accept_frame_def Let_def f [symmetric] x prod.case by (rule sym)
  have del: "deliver evict now pid payload s1 l1 = (s', l') \<Longrightarrow> ?thesis" using moved_trans [OF m1] deliver_moved [OF movedD(1) [OF m1]] by blast
  have add: "?thesis" if as: "assembly now pid tot count s1 l1 = Some (a, s2, l2)" "int tot \<le> 65535" "index < count" "add_part evict now pid tot index count payload a s2 l2 = (s', l')" for a s2 l2
  proof -
    note m2 = assembly_moved [OF movedD(1) [OF m1] as(2,1)]
    show ?thesis using moved_trans [OF moved_trans [OF m1 m2(1)]] add_part_moved [OF movedD(1) [OF m2(1)] m2(2) as(3,4)] by blast
  qed
  show ?thesis
  proof (cases "int tot > 65535 \<or> count < 1 \<or> count > 128 \<or> index \<ge> count \<or> length payload > tot \<or> count > 1 \<and> payload = []")
    case True
    then have "s' = s" "l' = drop_one l" using e by simp_all
    then show ?thesis using moved_drop [OF moved_refl [OF assms(1)]] by simp
  next
    case good: False
    then have e1: "(s', l') = (if \<not> ds_open s then (s, l) else if has (ds_seen s1) pid then (s1, l1)
      else if count = 1 then (if length payload \<noteq> tot then (s1, drop_one l1) else deliver evict now pid payload s1 l1)
      else case assembly now pid tot count s1 l1 of None \<Rightarrow> (s1, drop_one l1) | Some (a, s2, l2) \<Rightarrow> add_part evict now pid tot index count payload a s2 l2)"
      using e by (simp only: if_False)
    show ?thesis
    proof (cases "\<not> ds_open s \<or> has (ds_seen s1) pid \<or> count = 1")
      case True
      then have "s' = s \<and> l' = l \<or> s' = s1 \<and> l' = l1 \<or> s' = s1 \<and> l' = drop_one l1 \<or> deliver evict now pid payload s1 l1 = (s', l')"
        using e1 by (simp split: if_splits)
      then show ?thesis using del moved_refl [OF assms(1)] moved_drop [OF m1] m1 by blast
    next
      case False
      then have e2: "(s', l') = (case assembly now pid tot count s1 l1 of None \<Rightarrow> (s1, drop_one l1) | Some (a, s2, l2) \<Rightarrow> add_part evict now pid tot index count payload a s2 l2)"
        using e1 by simp
      have c: "int tot \<le> 65535" "index < count" using good by auto
      show ?thesis
      proof (cases "assembly now pid tot count s1 l1")
        case None
        then show ?thesis using e2 moved_drop [OF m1] by simp
      next
        case (Some x)
        obtain a s2 l2 where "x = (a, s2, l2)" by (cases x)
        then show ?thesis using add [of a s2 l2] Some e2 c by simp
      qed
    qed
  qed
qed

section \<open>Every step keeps the invariant\<close>

lemma link_okI:
  assumes "distinct_keys (dl_flows l)" "int (length (dl_flows l)) \<le> maxDatagramFlows" "\<And>flow s. map_of (dl_flows l) flow = Some s \<Longrightarrow> flow_ok s"
    and "int (length (dl_send l)) \<le> 256" "dl_queued l = queue_bytes (dl_send l)" "dl_queued l \<le> maxDatagramMemory"
    and "dl_reassembly l = gsum (\<lambda>flow s. totals (ds_parts s)) (dl_flows l)" "dl_reassembly l \<le> maxDatagramMemory"
    and "dl_received l = gsum (\<lambda>flow s. waiting s) (dl_flows l)" "dl_received l \<le> maxDatagramMemory"
  shows "link_ok l"
  using assms unfolding link_ok_def by blast

lemma link_ok_new: "link_ok newDatagramLink"
  by (simp add: link_ok_def newDatagramLink_def queue_bytes_def maxDatagramFlows_def maxDatagramMemory_def)

lemma link_ok_other:
  assumes "link_ok l" "dl_flows l' = dl_flows l" "dl_send l' = dl_send l" "dl_queued l' = dl_queued l" "dl_reassembly l' = dl_reassembly l" "dl_received l' = dl_received l"
  shows "link_ok l'"
  using assms unfolding link_ok_def by simp

lemma add_flow_ok:
  assumes "link_ok l" "add_flow flow l = Inr l'"
  shows "link_ok l'"
proof -
  note k = link_okD [OF assms(1)]
  have e: "l' = l\<lparr>dl_flows := put flow new_flow (dl_flows l)\<rparr>" "map_of (dl_flows l) flow = None" "\<not> int (length (dl_flows l)) \<ge> maxDatagramFlows"
    using assms(2) by (auto simp: add_flow_def has_def split: if_splits)
  have n: "flow_ok new_flow" "totals (ds_parts new_flow) = 0" "waiting new_flow = 0" by (simp_all add: flow_ok_def new_flow_def totals_def waiting_def)
  show ?thesis
  proof (rule link_okI)
    show "int (length (dl_flows l')) \<le> maxDatagramFlows" using e length_put_le [of flow new_flow "dl_flows l"] by simp
    show "flow_ok s" if "map_of (dl_flows l') f = Some s" for f s using that k(3) [of f s] n(1) by (simp add: e split: if_splits)
  qed (use k e n am.total_put [OF k(1)] in \<open>simp_all\<close>)
qed

lemma on_flow_ok:
  assumes "link_ok l" "\<And>s. flow_ok s \<Longrightarrow> flow_ok (f s) \<and> ds_parts (f s) = ds_parts s \<and> waiting (f s) = waiting s"
  shows "link_ok (on_flow flow f l)"
proof (cases "map_of (dl_flows l) flow")
  case None
  then show ?thesis using assms(1) by (simp add: on_flow_def)
next
  case (Some s)
  have "moved s l (f s) l" using assms(2) [OF link_okD(3) [OF assms(1) Some]] by (simp add: moved_def)
  then show ?thesis using put_flow_ok [OF assms(1) Some] Some by (simp add: on_flow_def put_flow_def)
qed

lemma receive_ok:
  assumes "link_ok l"
  shows "link_ok (receive_frame evict now p l)"
proof -
  have d: "link_ok (drop_one l)" by (rule link_ok_other [OF assms]) (simp_all add: drop_one_def)
  have "link_ok (put_flow flow (accept_frame evict now p s l))" if s: "map_of (dl_flows l) flow = Some s" for flow s
  proof -
    obtain s' l' where e: "accept_frame evict now p s l = (s', l')" by fastforce
    show ?thesis unfolding e by (rule put_flow_ok [OF assms s accept_moved [OF link_okD(3) [OF assms s] e]])
  qed
  then show ?thesis using d by (auto simp: receive_frame_def Let_def split: option.splits)
qed

lemma collect_fold:
  assumes "link_ok l" "distinct (map fst xs)" "\<And>flow s. (flow, s) \<in> set xs \<Longrightarrow> map_of (dl_flows l) flow = Some s"
  shows "link_ok (fold (\<lambda>(flow, s) l. put_flow flow (expireLocked now s l)) xs l)"
  using assms
proof (induction xs arbitrary: l)
  case (Cons x xs)
  obtain flow s where x: "x = (flow, s)" by (cases x)
  obtain s' l' where e: "expireLocked now s l = (s', l')" by fastforce
  have s: "map_of (dl_flows l) flow = Some s" using Cons.prems(3) x by simp
  have m: "moved s l s' l'" by (rule expire_moved [OF link_okD(3) [OF Cons.prems(1) s] e])
  have "map_of (dl_flows (put_flow flow (s', l'))) f = Some t" if t: "(f, t) \<in> set xs" for f t
  proof -
    have "f \<in> set (map fst xs)" using t by force
    then have "f \<noteq> flow" using Cons.prems(2) x by auto
    then show ?thesis using Cons.prems(3) [of f t] t movedD(2) [OF m] by (simp add: put_flow_def)
  qed
  then have "link_ok (fold (\<lambda>(flow, s) l. put_flow flow (expireLocked now s l)) xs (put_flow flow (s', l')))"
    using Cons.IH [OF put_flow_ok [OF Cons.prems(1) s m]] Cons.prems(2) by simp
  then show ?case using x e by simp
qed simp

lemma collect_ok:
  assumes "link_ok l"
  shows "link_ok (collect now l)"
  unfolding collect_def
proof (rule collect_fold [OF assms])
  show "distinct (map fst (dl_flows l))" using link_okD(1) [OF assms] by (simp add: distinct_keys_def)
  show "map_of (dl_flows l) flow = Some s" if "(flow, s) \<in> set (dl_flows l)" for flow s using that map_of_in_set [OF link_okD(1) [OF assms]] by simp
qed

lemma waiting_nonneg: "0 \<le> waiting s"
  by (auto simp: waiting_def intro!: sum_list_nonneg)

lemma flow_ok_totals: "flow_ok s \<Longrightarrow> 0 \<le> totals (ds_parts s)"
  unfolding flow_ok_def by (blast intro: totals_nonneg)

lemma Close_ok:
  assumes "link_ok l"
  shows "link_ok (Close_flow flow l)"
proof (cases "map_of (dl_flows l) flow")
  case None
  then show ?thesis using assms by (simp add: Close_flow_def)
next
  case (Some s)
  note k = link_okD [OF assms]
  let ?l = "l\<lparr>dl_flows := del flow (dl_flows l), dl_reassembly := dl_reassembly l - totals (ds_parts s), dl_received := dl_received l - waiting s\<rparr>"
  have "link_ok ?l"
  proof (rule link_okI)
    show "int (length (dl_flows ?l)) \<le> maxDatagramFlows" using k(2) length_del_le [of flow "dl_flows l"] by simp
    show "flow_ok t" if "map_of (dl_flows ?l) f = Some t" for f t using that k(3) [of f t] by (simp split: if_splits)
    show "dl_reassembly ?l \<le> maxDatagramMemory" using k(8) flow_ok_totals [OF k(3) [OF Some]] by simp
    show "dl_received ?l \<le> maxDatagramMemory" using k(10) waiting_nonneg [of s] by simp
  qed (use k Some am.total_del [OF k(1)] in \<open>simp_all\<close>)
  then show ?thesis using Some by (simp add: Close_flow_def)
qed

lemma receive_stop_ok:
  assumes "link_ok l"
  shows "link_ok (receive_stop l)"
proof -
  have "link_ok (fold (\<lambda>(flow, s). Close_flow flow) xs m)" if "link_ok m" for xs :: "(u64, dg_session) gomap" and m
    using that by (induction xs arbitrary: m) (auto simp: Close_ok)
  then show ?thesis using assms by (simp add: receive_stop_def)
qed

lemma Read_packet_ok:
  assumes "link_ok l"
  shows "link_ok (snd (Read_packet flow n now ended l))"
proof -
  have "link_ok (l\<lparr>dl_received := dl_received l - int (length p), dl_flows := put flow (s\<lparr>ds_in := ps\<rparr>) (dl_flows l)\<rparr>)"
    if s: "map_of (dl_flows l) flow = Some s" and p: "ds_in s = p # ps" for s p ps
  proof -
    have "moved s l (s\<lparr>ds_in := ps\<rparr>) (l\<lparr>dl_received := dl_received l - int (length p)\<rparr>)"
      using link_okD(3) [OF assms s] p by (simp add: moved_def flow_ok_def waiting_def)
    from put_flow_ok [OF assms s this] show ?thesis by (simp add: put_flow_def)
  qed
  then show ?thesis using assms by (auto simp: Read_packet_def split: option.splits list.splits)
qed

lemma Write_ok:
  assumes "link_ok l" "WriteAuthorized flow p authorized now l = Inr l'"
  shows "link_ok l'"
proof -
  note k = link_okD [OF assms(1)]
  obtain n where n: "takeMemory (length p) (dl_queued l) = Some n" "int (length (dl_send l)) \<noteq> 256" "l' = l\<lparr>dl_send := dl_send l @ [(flow, p)], dl_queued := n\<rparr>"
    using assms(2) by (auto simp: WriteAuthorized_def split: if_splits option.splits)
  show ?thesis using k takeMemory_Some [OF n(1)] n(2) unfolding link_ok_def n(3) by (simp add: queue_bytes_def)
qed

text \<open>Sending changes the number of the last packet and the size of the frames, and nothing that is counted here.\<close>

lemma send_nothing: "(\<exists>q. s = s\<lparr>ds_sequence := q\<rparr>) \<and> (\<exists>n m. l = l\<lparr>dl_packetSize := n, dl_sentFrames := m\<rparr>)"
  for s :: dg_session and l :: dg_link
proof -
  have "s = s\<lparr>ds_sequence := ds_sequence s\<rparr>" "l = l\<lparr>dl_packetSize := dl_packetSize l, dl_sentFrames := dl_sentFrames l\<rparr>" by simp_all
  then show ?thesis by blast
qed

lemma send_attempts_view:
  "send_attempts outs flow p s l = (ok, fs, s', l') \<Longrightarrow> (\<exists>q. s' = s\<lparr>ds_sequence := q\<rparr>) \<and> (\<exists>n m. l' = l\<lparr>dl_packetSize := n, dl_sentFrames := m\<rparr>)"
proof (induction outs arbitrary: s l ok fs s' l')
  case Nil
  then show ?case using send_nothing [of s l] by simp
next
  case (Cons out outs)
  show ?case
  proof (cases "dl_packetSize l - int datagramHeader < 512")
    case True
    then show ?thesis using Cons.prems send_nothing [of s l] by simp
  next
    case False
    define s1 where "s1 = s\<lparr>ds_sequence := ds_sequence s + 1\<rparr>"
    define chunk where "chunk = nat (dl_packetSize l - int datagramHeader)"
    obtain gs e where g: "send_frames out (fragment flow (ds_sequence s1) p chunk (frame_count p chunk)) [0..<frame_count p chunk] = (gs, e)" by fastforce
    define l1 where "l1 = l\<lparr>dl_sentFrames := dl_sentFrames l + of_nat (length gs)\<rparr>"
    have r: "(ok, fs, s', l') = (case e of AllSent \<Rightarrow> (True, gs, s1, l1) | Stopped \<Rightarrow> (False, gs, s1, l1)
        | Resize n \<Rightarrow> (let (ok, hs, s2, l2) = send_attempts outs flow p s1 (l1\<lparr>dl_packetSize := n\<rparr>) in (ok, gs @ hs, s2, l2)))"
      using Cons.prems False g by (cases e) (auto simp: Let_def s1_def chunk_def l1_def)
    show ?thesis
    proof (cases e)
      case (Resize n)
      obtain ok2 hs s2 l2 where t: "send_attempts outs flow p s1 (l1\<lparr>dl_packetSize := n\<rparr>) = (ok2, hs, s2, l2)" by (cases "send_attempts outs flow p s1 (l1\<lparr>dl_packetSize := n\<rparr>)") auto
      have "(\<exists>q. s2 = s1\<lparr>ds_sequence := q\<rparr>) \<and> (\<exists>n' m. l2 = (l1\<lparr>dl_packetSize := n\<rparr>)\<lparr>dl_packetSize := n', dl_sentFrames := m\<rparr>)" by (rule Cons.IH [OF t])
      then show ?thesis using r t Resize by (auto simp: s1_def l1_def)
    qed (use r in \<open>auto simp: s1_def l1_def intro!: exI [of _ "dl_packetSize l"]\<close>)
  qed
qed

lemma sender_ok:
  assumes "link_ok l"
  shows "link_ok (snd (sender_job out1 out2 l))"
proof (cases "dl_send l")
  case Nil
  then show ?thesis using assms by (simp add: sender_job_def)
next
  case (Cons j jobs)
  obtain flow p where j: "j = (flow, p)" by (cases j)
  define l1 where "l1 = l\<lparr>dl_send := jobs, dl_queued := dl_queued l - int (length p)\<rparr>"
  have l1: "link_ok l1" using link_okD [OF assms] Cons j unfolding link_ok_def l1_def by (simp add: queue_bytes_def)
  show ?thesis
  proof (cases "\<exists>s. map_of (dl_flows l) flow = Some s \<and> ds_open s")
    case False
    then show ?thesis using l1 Cons j by (auto simp: sender_job_def l1_def Let_def split: option.splits)
  next
    case True
    then obtain s where s: "map_of (dl_flows l) flow = Some s" "ds_open s" by blast
    obtain ok fs s' l2 where e: "sendPacket out1 out2 flow p s l1 = (ok, fs, s', l2)" by (cases "sendPacket out1 out2 flow p s l1") auto
    have v: "(\<exists>q. s' = s\<lparr>ds_sequence := q\<rparr>) \<and> (\<exists>n m. l2 = l1\<lparr>dl_packetSize := n, dl_sentFrames := m\<rparr>)" using send_attempts_view e unfolding sendPacket_def by blast
    have s1: "map_of (dl_flows l1) flow = Some s" using s(1) by (simp add: l1_def)
    have "moved s l1 s' (if ok then l2 else drop_one l2)" using v link_okD(3) [OF l1 s1] by (auto simp: moved_def flow_ok_def waiting_def drop_one_def)
    from put_flow_ok [OF l1 s1 this] show ?thesis using Cons j s e by (simp add: sender_job_def Let_def l1_def put_flow_def)
  qed
qed

lemma dg_step_ok:
  assumes "link_ok l"
  shows "link_ok (snd (dg_step op l))"
proof (cases op)
  case (DgAdd flow)
  then show ?thesis using assms add_flow_ok by (auto split: sum.splits)
next
  case (DgWrite flow p a now)
  then show ?thesis using assms Write_ok by (auto split: sum.splits)
next
  case (DgCancel flow)
  then show ?thesis using on_flow_ok [OF assms] by (simp add: flow_ok_def waiting_def)
next
  case (DgReadDeadline flow t)
  then show ?thesis using on_flow_ok [OF assms] by (simp add: SetReadDeadline_def flow_ok_def waiting_def)
next
  case (DgWriteDeadline flow t)
  then show ?thesis using on_flow_ok [OF assms] by (simp add: SetWriteDeadline_def flow_ok_def waiting_def)
next
  case DgDown
  then show ?thesis using link_ok_other [OF assms] by simp
next
  case DgSenderStop
  then show ?thesis using assms link_okD(5) [OF assms] unfolding link_ok_def by (auto simp: sender_stop_def queue_bytes_def maxDatagramMemory_def)
qed (use receive_ok collect_ok Read_packet_ok sender_ok Close_ok receive_stop_ok assms in simp_all)

lemma dg_run_ok: "link_ok l \<Longrightarrow> link_ok (dg_run ops l)"
  unfolding dg_run_def by (induction ops arbitrary: l) (auto simp: dg_step_ok)

section \<open>Memory\<close>

lemma held_le_totals: "flow_ok s \<Longrightarrow> gsum (\<lambda>pid a. int (length (joined (fr_parts a)))) (ds_parts s) \<le> totals (ds_parts s)"
  unfolding totals_def
proof (rule am.total_mono)
  assume s: "flow_ok s"
  then show "distinct_keys (ds_parts s)" by (simp add: flow_ok_def)
  fix pid a assume "map_of (ds_parts s) pid = Some a"
  then have "frag_ok a" using s map_of_SomeD unfolding flow_ok_def by fast
  then show "int (length (joined (fr_parts a))) \<le> fr_total a" by (simp add: frag_ok_def)
qed

text \<open>C34: Whatever the peer sends, whoever reads and writes, however flows are opened, closed and cancelled and whenever the connection breaks: the bytes that wait to be sent, the bytes that are kept for packets
  in pieces and the bytes that wait to be read are each at most 8 MiB per connection and exactly what the three counters say, there are at most 256 jobs and 1024 flows, and a flow has at most 4
  packets in pieces, 256 numbers of seen packets and 32 packets that wait. Nothing leaks: with no flow left and an empty queue the counters are zero.\<close>

theorem datagram_memory_bounded:
  "let l = dg_run ops newDatagramLink in
     dl_queued l = queue_bytes (dl_send l) \<and> dl_queued l \<le> maxDatagramMemory \<and> int (length (dl_send l)) \<le> 256
     \<and> gsum (\<lambda>flow s. gsum (\<lambda>pid a. int (length (joined (fr_parts a)))) (ds_parts s)) (dl_flows l) \<le> dl_reassembly l
     \<and> dl_reassembly l = gsum (\<lambda>flow s. totals (ds_parts s)) (dl_flows l) \<and> dl_reassembly l \<le> maxDatagramMemory
     \<and> dl_received l = gsum (\<lambda>flow s. waiting s) (dl_flows l) \<and> dl_received l \<le> maxDatagramMemory
     \<and> int (length (dl_flows l)) \<le> maxDatagramFlows
     \<and> list_all (\<lambda>(flow, s). int (length (ds_parts s)) \<le> 4 \<and> int (length (ds_seen s)) \<le> 256 \<and> int (length (ds_in s)) \<le> 32) (dl_flows l)"
proof -
  define l where "l = dg_run ops newDatagramLink"
  have l: "link_ok l" unfolding l_def by (rule dg_run_ok [OF link_ok_new])
  note k = link_okD [OF l]
  have "gsum (\<lambda>flow s. gsum (\<lambda>pid a. int (length (joined (fr_parts a)))) (ds_parts s)) (dl_flows l) \<le> gsum (\<lambda>flow s. totals (ds_parts s)) (dl_flows l)"
    by (rule am.total_mono [OF k(1)]) (use k(3) held_le_totals in blast)
  moreover have "list_all (\<lambda>(flow, s). int (length (ds_parts s)) \<le> 4 \<and> int (length (ds_seen s)) \<le> 256 \<and> int (length (ds_in s)) \<le> 32) (dl_flows l)"
    using k(3) map_of_in_set [OF k(1)] unfolding flow_ok_def list_all_iff by fastforce
  ultimately show ?thesis using k unfolding Let_def l_def [symmetric] by simp
qed

end
