(* ===== verification/Datagram_Wire.thy ===== *)
theory Datagram_Wire
  imports Datagram_Inv
begin

text \<open>
  The frames of a datagram connection: how a packet is cut and what a frame says of it, which frames a sender puts on the wire, and that a receiver only puts together what belongs together.
\<close>

section \<open>Frames and pieces\<close>

definition piece :: "bytes \<Rightarrow> nat \<Rightarrow> nat \<Rightarrow> bytes" where
  "piece p chunk i = take chunk (drop (i * chunk) p)"

lemma fragment_alt: "fragment flow pid p chunk count i =
    1 # be64 flow @ be64 pid @ put_be 4 (int (length p)) @ put_be 2 (int i) @ put_be 2 (int count) @ piece p chunk i"
proof -
  have "take (min (length p) ((i + 1) * chunk) - i * chunk) (drop (i * chunk) p) = piece p chunk i"
    by (cases "(i + 1) * chunk \<le> length p") (auto simp: piece_def min_def)
  then show ?thesis by (simp add: fragment_def Let_def)
qed

lemma fragment_fields:
  fixes flow pid :: u64 and chunk :: nat
  assumes "length p \<le> 65535" "i < 65536" "count < 65536"
  defines "f \<equiv> fragment flow pid p chunk count i"
  shows "\<not> length f < datagramHeader" "f ! 0 = 1" "get64 (take 8 (drop 1 f)) = flow" "get64 (take 8 (drop 9 f)) = pid" "get_be (take 4 (drop 17 f)) = length p"
    "get_be (take 2 (drop 21 f)) = i" "get_be (take 2 (drop 23 f)) = count" "drop datagramHeader f = piece p chunk i"
proof -
  have b: "get_be (put_be 4 (int (length p))) = length p" "get_be (put_be 2 (int i)) = i" "get_be (put_be 2 (int count)) = count"
    using assms(1-3) by (simp_all add: get_put_be)
  show "\<not> length f < datagramHeader" by (simp add: f_def fragment_alt datagramHeader_def)
  show "f ! 0 = 1" by (simp add: f_def fragment_alt)
  show "get64 (take 8 (drop 1 f)) = flow" "get64 (take 8 (drop 9 f)) = pid" "get_be (take 4 (drop 17 f)) = length p"
    "get_be (take 2 (drop 21 f)) = i" "get_be (take 2 (drop 23 f)) = count" "drop datagramHeader f = piece p chunk i"
    using b by (simp_all add: f_def fragment_alt datagramHeader_def)
qed

lemma concat_pieces: "concat (map (piece p chunk) [0..<n]) = take (n * chunk) p"
  by (induction n) (auto simp: piece_def take_add [symmetric] add.commute)

lemma frame_count_bounds:
  assumes "length p \<le> 65535" "512 \<le> chunk"
  shows "1 \<le> frame_count p chunk" "frame_count p chunk \<le> 128" "length p \<le> frame_count p chunk * chunk"
    "1 < frame_count p chunk \<Longrightarrow> i < frame_count p chunk \<Longrightarrow> piece p chunk i \<noteq> []"
proof -
  let ?q = "(length p + chunk - 1) div chunk"
  have q: "?q * chunk \<le> length p + chunk - 1" "length p + chunk - 1 < ?q * chunk + chunk"
    using assms(2) div_times_less_eq_dividend [of "length p + chunk - 1" chunk] dividend_less_div_times [of chunk "length p + chunk - 1"] by auto
  show "1 \<le> frame_count p chunk" by (simp add: frame_count_def)
  have "?q \<le> 128"
  proof (rule ccontr)
    assume "\<not> ?q \<le> 128"
    then have "129 * chunk \<le> ?q * chunk" by (intro mult_right_mono) auto
    then show False using q(1) assms by linarith
  qed
  then show "frame_count p chunk \<le> 128" by (simp add: frame_count_def)
  have l: "length p \<le> ?q * chunk" using q(2) assms(2) by linarith
  also have "\<dots> \<le> frame_count p chunk * chunk" by (intro mult_right_mono) (simp_all add: frame_count_def)
  finally show "length p \<le> frame_count p chunk * chunk" .
  show "piece p chunk i \<noteq> []" if a: "1 < frame_count p chunk" "i < frame_count p chunk"
  proof -
    have "i + 1 \<le> ?q" using a by (simp add: frame_count_def)
    then have "(i + 1) * chunk \<le> ?q * chunk" by (rule mult_right_mono) simp
    moreover have "(i + 1) * chunk = i * chunk + chunk" by simp
    ultimately have "i * chunk < length p" using q(1) assms(2) by linarith
    then show ?thesis using assms(2) by (simp add: piece_def)
  qed
qed

lemma pieces_whole: "length p \<le> 65535 \<Longrightarrow> 512 \<le> chunk \<Longrightarrow> concat (map (piece p chunk) [0..<frame_count p chunk]) = p"
  using frame_count_bounds(3) [of p chunk] by (simp add: concat_pieces)

lemma joined_pieces:
  assumes "length parts = n" "\<And>i. i < n \<Longrightarrow> parts ! i = Some (f i)"
  shows "joined parts = concat (map f [0..<n])"
proof -
  have "parts = map (\<lambda>i. Some (f i)) [0..<n]" using assms by (intro nth_equalityI) auto
  then show ?thesis by (simp add: joined_def comp_def)
qed

section \<open>What the sender puts on the wire\<close>

text \<open>A log tells for the number of a flow and of a packet which packet it is and how long its pieces are.\<close>

type_synonym dg_log = "u64 \<times> u64 \<Rightarrow> (bytes \<times> nat) option"

definition genuine :: "dg_log \<Rightarrow> bytes \<Rightarrow> bool" where
  "genuine log frame \<longleftrightarrow> (\<exists>flow pid p chunk i. log (flow, pid) = Some (p, chunk) \<and> i < frame_count p chunk \<and> frame = fragment flow pid p chunk (frame_count p chunk) i)"

lemma send_frames_set: "send_frames out frame is = (fs, e) \<Longrightarrow> set fs \<subseteq> frame ` set is"
proof (induction "is" arbitrary: fs e)
  case (Cons i "is")
  obtain gs e' where "send_frames out frame is = (gs, e')" by fastforce
  then show ?case using Cons.prems Cons.IH [of gs e'] by (auto split: send_outcome.splits)
qed simp

lemma genuine_mono: "genuine log frame \<Longrightarrow> (\<And>x y. log x = Some y \<Longrightarrow> log' x = Some y) \<Longrightarrow> genuine log' frame"
  unfolding genuine_def by blast

lemma unat_Suc_word: "unat (q :: u64) + 1 < 2 ^ 64 \<Longrightarrow> unat (q + 1) = unat q + 1"
  by (simp add: unat_word_ariths)

text \<open>Each attempt has a new number, and the numbers do not wrap around as long as there are fewer than \<open>2 ^ 64\<close>.\<close>

definition extends :: "dg_log \<Rightarrow> u64 \<Rightarrow> bytes \<Rightarrow> u64 \<Rightarrow> u64 \<Rightarrow> dg_log \<Rightarrow> bool" where
  "extends log flow p q q' log' \<longleftrightarrow> (\<forall>x y. log x = Some y \<longrightarrow> log' x = Some y)
     \<and> (\<forall>f pid p' chunk. log' (f, pid) = Some (p', chunk) \<longrightarrow> log (f, pid) = Some (p', chunk) \<or> f = flow \<and> p' = p \<and> 512 \<le> chunk \<and> unat q < unat pid \<and> unat pid \<le> unat q')"

lemma send_attempts_log:
  assumes "send_attempts outs flow p s l = (ok, fs, s', l')" "unat (ds_sequence s) + length outs < 2 ^ 64"
    and "\<And>pid. unat (ds_sequence s) < unat pid \<Longrightarrow> log (flow, pid) = None"
  shows "\<exists>log'. extends log flow p (ds_sequence s) (ds_sequence s') log' \<and> list_all (genuine log') fs
    \<and> unat (ds_sequence s) \<le> unat (ds_sequence s') \<and> unat (ds_sequence s') \<le> unat (ds_sequence s) + length outs"
  using assms
proof (induction outs arbitrary: s l ok fs s' l' log)
  case Nil
  then show ?case by (auto simp: extends_def intro!: exI [of _ log])
next
  case (Cons out outs)
  show ?case
  proof (cases "dl_packetSize l - int datagramHeader < 512")
    case True
    then show ?thesis using Cons.prems by (auto simp: extends_def intro!: exI [of _ log])
  next
    case False
    define s1 where "s1 = s\<lparr>ds_sequence := ds_sequence s + 1\<rparr>"
    define chunk where "chunk = nat (dl_packetSize l - int datagramHeader)"
    define count where "count = frame_count p chunk"
    define log1 where "log1 = log((flow, ds_sequence s1) \<mapsto> (p, chunk))"
    obtain gs e where g: "send_frames out (fragment flow (ds_sequence s1) p chunk count) [0..<count] = (gs, e)" by fastforce
    define l1 where "l1 = l\<lparr>dl_sentFrames := dl_sentFrames l + of_nat (length gs)\<rparr>"
    have c: "512 \<le> chunk" using False by (simp add: chunk_def)
    have q: "unat (ds_sequence s1) = unat (ds_sequence s) + 1" using Cons.prems(2) unat_Suc_word [of "ds_sequence s"] by (simp add: s1_def)
    have fresh: "log (flow, ds_sequence s1) = None" using Cons.prems(3) q by simp
    have x1: "extends log flow p (ds_sequence s) (ds_sequence s1) log1" using fresh c q by (auto simp: extends_def log1_def split: if_splits)
    have "genuine log1 (fragment flow (ds_sequence s1) p chunk count i)" if "i < count" for i
      unfolding genuine_def using that by (intro exI [of _ flow] exI [of _ "ds_sequence s1"] exI [of _ p] exI [of _ chunk] exI [of _ i]) (simp add: log1_def count_def)
    then have g1: "list_all (genuine log1) gs" using send_frames_set [OF g] by (auto simp: list_all_iff)
    have r: "(ok, fs, s', l') = (case e of AllSent \<Rightarrow> (True, gs, s1, l1) | Stopped \<Rightarrow> (False, gs, s1, l1)
        | Resize n \<Rightarrow> (let (ok, hs, s2, l2) = send_attempts outs flow p s1 (l1\<lparr>dl_packetSize := n\<rparr>) in (ok, gs @ hs, s2, l2)))"
      using Cons.prems(1) False g by (cases e) (auto simp: Let_def s1_def chunk_def l1_def count_def)
    show ?thesis
    proof (cases "\<exists>n. e = Resize n")
      case False
      then have "fs = gs" "s' = s1" using r by (auto split: send_stop.splits)
      then show ?thesis using x1 g1 q by auto
    next
      case True
      then obtain n where n: "e = Resize n" by blast
      obtain ok2 hs s2 l2 where t: "send_attempts outs flow p s1 (l1\<lparr>dl_packetSize := n\<rparr>) = (ok2, hs, s2, l2)" by (cases "send_attempts outs flow p s1 (l1\<lparr>dl_packetSize := n\<rparr>)") auto
      have f: "fs = gs @ hs" "s' = s2" using r t n by simp_all
      have "log1 (flow, pid) = None" if "unat (ds_sequence s1) < unat pid" for pid using that Cons.prems(3) [of pid] q by (auto simp: log1_def)
      then obtain log' where x2: "extends log1 flow p (ds_sequence s1) (ds_sequence s') log'" "list_all (genuine log') hs"
        "unat (ds_sequence s1) \<le> unat (ds_sequence s')" "unat (ds_sequence s') \<le> unat (ds_sequence s1) + length outs"
        using Cons.IH [OF t [folded f(2)], of log1] Cons.prems(2) q by auto
      have "extends log flow p (ds_sequence s) (ds_sequence s') log'"
        unfolding extends_def
      proof (intro conjI allI impI)
        show "log' x = Some y" if "log x = Some y" for x y using that x1 x2(1) unfolding extends_def by blast
        fix f pid p' ch assume a: "log' (f, pid) = Some (p', ch)"
        then have "log1 (f, pid) = Some (p', ch) \<or> f = flow \<and> p' = p \<and> 512 \<le> ch \<and> unat (ds_sequence s1) < unat pid \<and> unat pid \<le> unat (ds_sequence s')"
          using x2(1) unfolding extends_def by blast
        then show "log (f, pid) = Some (p', ch) \<or> f = flow \<and> p' = p \<and> 512 \<le> ch \<and> unat (ds_sequence s) < unat pid \<and> unat pid \<le> unat (ds_sequence s')"
          using x1 x2(3) q unfolding extends_def by fastforce
      qed
      moreover have "list_all (genuine log') fs"
        using g1 x2(2) genuine_mono [of log1 _ log'] x2(1) f(1) unfolding extends_def list_all_iff by auto
      ultimately show ?thesis using x2(3,4) q by (intro exI [of _ log']) auto
    qed
  qed
qed

section \<open>What the receiver puts together\<close>

definition part_ok :: "dg_log \<Rightarrow> u64 \<Rightarrow> u64 \<Rightarrow> fragments \<Rightarrow> bool" where
  "part_ok log flow pid a \<longleftrightarrow> (\<exists>p chunk. log (flow, pid) = Some (p, chunk) \<and> fr_total a = int (length p) \<and> length (fr_parts a) = frame_count p chunk
     \<and> (\<forall>i q. i < length (fr_parts a) \<longrightarrow> fr_parts a ! i = Some q \<longrightarrow> q = piece p chunk i) \<and> fr_count a = int (length (filter (\<lambda>q. q \<noteq> None) (fr_parts a))))"

definition flow_good :: "dg_log \<Rightarrow> u64 \<Rightarrow> dg_session \<Rightarrow> bool" where
  "flow_good log flow s \<longleftrightarrow> distinct_keys (ds_parts s) \<and> (\<forall>pid a. (pid, a) \<in> set (ds_parts s) \<longrightarrow> part_ok log flow pid a)
     \<and> (\<forall>p\<in>set (ds_in s). \<exists>pid chunk. log (flow, pid) = Some (p, chunk))"

definition log_ok :: "dg_log \<Rightarrow> bool" where
  "log_ok log \<longleftrightarrow> (\<forall>x p chunk. log x = Some (p, chunk) \<longrightarrow> length p \<le> 65535 \<and> 512 \<le> chunk)"

lemma part_ok_mono: "part_ok log flow pid a \<Longrightarrow> (\<And>x y. log x = Some y \<Longrightarrow> log' x = Some y) \<Longrightarrow> part_ok log' flow pid a"
  unfolding part_ok_def by blast

lemma flow_good_mono:
  assumes "flow_good log flow s" "\<And>x y. log x = Some y \<Longrightarrow> log' x = Some y"
  shows "flow_good log' flow s"
  using assms(1) part_ok_mono [of log flow _ _ log'] assms(2) unfolding flow_good_def by blast

lemma put_parts: "distinct_keys m \<Longrightarrow> (q, c) \<in> set (put pid b m) \<Longrightarrow> (q, c) = (pid, b) \<or> (q, c) \<in> set m"
  using map_of_in_set [of "put pid b m" q c] map_of_in_set [of m q c] by (auto split: if_splits)

lemma expire_good: "flow_good log flow s \<Longrightarrow> expireLocked now s l = (s', l') \<Longrightarrow> flow_good log flow s'"
  unfolding flow_good_def expireLocked_def Let_def by (auto simp: distinct_keys_filter)

lemma deliver_good:
  assumes "flow_good log flow s" "log (flow, pid) = Some (packet, chunk)" "deliver evict now pid packet s l = (s', l')"
  shows "flow_good log flow s'"
proof -
  have d: "ds_parts s' = ds_parts s \<and> set (ds_in s') \<subseteq> insert packet (set (ds_in s))"
    using assms(3) by (auto simp: deliver_def Let_def split: option.splits if_splits)
  have "\<exists>pid chunk. log (flow, pid) = Some (q, chunk)" if "q \<in> set (ds_in s')" for q
  proof (cases "q = packet")
    case True
    then show ?thesis using assms(2) by blast
  next
    case False
    then have "q \<in> set (ds_in s)" using d that by blast
    then show ?thesis using assms(1) unfolding flow_good_def by blast
  qed
  then show ?thesis using assms(1) d unfolding flow_good_def by simp
qed

lemma assembly_good:
  assumes "flow_good log flow s" "log (flow, pid) = Some (p, chunk)" "assembly now pid (length p) (frame_count p chunk) s l = Some (a, s', l')"
  shows "flow_good log flow s'" "part_ok log flow pid a"
proof -
  have "flow_good log flow s' \<and> part_ok log flow pid a"
  proof (cases "map_of (ds_parts s) pid")
    case (Some b)
    then have "a = b" "s' = s" using assms(3) by (simp_all add: assembly_def)
    then show ?thesis using Some assms(1) map_of_SomeD unfolding flow_good_def by fast
  next
    case None
    have a: "fr_total a = int (length p)" "fr_parts a = replicate (frame_count p chunk) None" "fr_count a = 0" "s' = s\<lparr>ds_parts := put pid a (ds_parts s)\<rparr>"
      using assms(3) None by (auto simp: assembly_def Let_def split: if_splits option.splits)
    then have ok: "part_ok log flow pid a" using assms(2) by (auto simp: part_ok_def)
    have d: "distinct_keys (ds_parts s)" using assms(1) by (simp add: flow_good_def)
    have "part_ok log flow q c" if "(q, c) \<in> set (put pid a (ds_parts s))" for q c
      using put_parts [OF d that] ok assms(1) unfolding flow_good_def by blast
    then show ?thesis using ok assms(1) d unfolding flow_good_def a(4) by simp
  qed
  then show "flow_good log flow s'" "part_ok log flow pid a" by blast+
qed

lemma count_update: "i < length xs \<Longrightarrow> xs ! i = None \<Longrightarrow> length (filter (\<lambda>q. q \<noteq> None) (xs[i := Some q])) = length (filter (\<lambda>q. q \<noteq> None) xs) + 1"
proof (induction xs arbitrary: i)
  case (Cons x xs)
  then show ?case by (cases i) auto
qed simp

lemma part_ok_update:
  assumes "part_ok log flow pid a" "log (flow, pid) = Some (p, chunk)" "i < frame_count p chunk" "fr_parts a ! i = None"
  shows "part_ok log flow pid (a\<lparr>fr_parts := (fr_parts a)[i := Some (piece p chunk i)], fr_count := fr_count a + 1, fr_bytes := n\<rparr>)"
  using assms count_update [of i "fr_parts a" "piece p chunk i"] unfolding part_ok_def by (auto simp: nth_list_update split: if_splits)

lemma part_whole:
  assumes "part_ok log flow pid a" "log (flow, pid) = Some (p, chunk)" "log_ok log" "fr_count a = int (frame_count p chunk)"
  shows "joined (fr_parts a) = p"
proof -
  have a: "length (fr_parts a) = frame_count p chunk" "fr_count a = int (length (filter (\<lambda>q. q \<noteq> None) (fr_parts a)))"
    "\<And>i q. i < length (fr_parts a) \<Longrightarrow> fr_parts a ! i = Some q \<Longrightarrow> q = piece p chunk i"
    using assms(1,2) unfolding part_ok_def by auto
  have "length (filter (\<lambda>q. q \<noteq> None) (fr_parts a)) = length (fr_parts a)" using a(1,2) assms(4) by linarith
  then have "filter (\<lambda>q. \<not> q \<noteq> None) (fr_parts a) = []" using sum_length_filter_compl [of "\<lambda>q. q \<noteq> None" "fr_parts a"] by simp
  then have "\<forall>q\<in>set (fr_parts a). q \<noteq> None" by (simp add: filter_empty_conv)
  then have "fr_parts a ! i = Some (piece p chunk i)" if "i < frame_count p chunk" for i
    using a(1,3) that nth_mem [of i "fr_parts a"] by (cases "fr_parts a ! i") auto
  then have "joined (fr_parts a) = concat (map (piece p chunk) [0..<frame_count p chunk])" using joined_pieces [OF a(1)] by blast
  then show ?thesis using pieces_whole assms(2,3) unfolding log_ok_def by simp
qed

lemma add_part_good:
  assumes s: "flow_good log flow s" "part_ok log flow pid a" and g: "log (flow, pid) = Some (p, chunk)" "log_ok log" "i < frame_count p chunk"
    and e: "add_part evict now pid (length p) i (frame_count p chunk) (piece p chunk i) a s l = (s', l')"
  shows "flow_good log flow s'"
proof (cases "fr_total a \<noteq> int (length p) \<or> length (fr_parts a) \<noteq> frame_count p chunk \<or> fr_parts a ! i \<noteq> None \<or> int (length (piece p chunk i)) > fr_total a - fr_bytes a")
  case True
  then have "s' = s" using e by (auto simp: add_part_def split: if_splits option.splits)
  then show ?thesis using s by simp
next
  case False
  define b where "b = a\<lparr>fr_parts := (fr_parts a)[i := Some (piece p chunk i)], fr_count := fr_count a + 1, fr_bytes := fr_bytes a + int (length (piece p chunk i))\<rparr>"
  have b: "part_ok log flow pid b" unfolding b_def using part_ok_update [OF s(2) g(1,3)] False by blast
  have d: "distinct_keys (ds_parts s)" using s(1) by (simp add: flow_good_def)
  define s1 where "s1 = s\<lparr>ds_parts := del pid (ds_parts s)\<rparr>"
  define l1 where "l1 = l\<lparr>dl_reassembly := dl_reassembly l - fr_total b\<rparr>"
  have r: "(s', l') = (if fr_count b \<noteq> int (frame_count p chunk) then (s\<lparr>ds_parts := put pid b (ds_parts s)\<rparr>, l)
      else if fr_bytes b \<noteq> int (length p) then (s1, drop_one l1) else deliver evict now pid (joined (fr_parts b)) s1 l1)"
    using e False by (auto simp: add_part_def Let_def b_def s1_def l1_def)
  have s1: "flow_good log flow s1" using s(1) del_subset [of pid "ds_parts s"] d unfolding flow_good_def s1_def by auto
  have "part_ok log flow q c" if "(q, c) \<in> set (put pid b (ds_parts s))" for q c using put_parts [OF d that] b s(1) unfolding flow_good_def by blast
  then have p: "flow_good log flow (s\<lparr>ds_parts := put pid b (ds_parts s)\<rparr>)" using s(1) d unfolding flow_good_def by simp
  show ?thesis
  proof (cases "fr_count b = int (frame_count p chunk)")
    case False
    then show ?thesis using r p by simp
  next
    case True
    then have "joined (fr_parts b) = p" by (rule part_whole [OF b g(1,2)])
    then have "s' = s1 \<or> deliver evict now pid p s1 l1 = (s', l')" using r True by (simp split: if_splits)
    then show ?thesis using s1 deliver_good [OF s1 g(1)] by blast
  qed
qed

lemma accept_good:
  assumes "flow_good log flow s" "log (flow, pid) = Some (p, chunk)" "log_ok log" "i < frame_count p chunk"
    and "accept_frame evict now (fragment flow pid p chunk (frame_count p chunk) i) s l = (s', l')"
  shows "flow_good log flow s'"
proof -
  have p: "length p \<le> 65535" "512 \<le> chunk" using assms(2,3) unfolding log_ok_def by blast+
  note c = frame_count_bounds [OF p] and f = fragment_fields [OF p(1), of i "frame_count p chunk" flow pid chunk]
  have n: "i < 65536" "frame_count p chunk < 65536" using c(2) assms(4) by simp_all
  obtain s1 l1 where x: "expireLocked now s l = (s1, l1)" by fastforce
  have s1: "flow_good log flow s1" by (rule expire_good [OF assms(1) x])
  have one: "piece p chunk i = p" if "frame_count p chunk = 1" using that assms(4) pieces_whole [OF p] by simp
  have e: "(s', l') = (s, drop_one l) \<or> (s', l') = (s, l) \<or> (s', l') = (s1, l1) \<or> (s', l') = (s1, drop_one l1)
      \<or> frame_count p chunk = 1 \<and> deliver evict now pid (piece p chunk i) s1 l1 = (s', l')
      \<or> (\<exists>a s2 l2. assembly now pid (length p) (frame_count p chunk) s1 l1 = Some (a, s2, l2)
           \<and> add_part evict now pid (length p) i (frame_count p chunk) (piece p chunk i) a s2 l2 = (s', l'))"
    using assms(5) unfolding accept_frame_def f(4-8) [OF n] x Let_def prod.case
    by (simp split: if_splits option.splits prod.splits)
  have "flow_good log flow s'"
    if a: "assembly now pid (length p) (frame_count p chunk) s1 l1 = Some (a, s2, l2)" "add_part evict now pid (length p) i (frame_count p chunk) (piece p chunk i) a s2 l2 = (s', l')" for a s2 l2
    using add_part_good [OF assembly_good [OF s1 assms(2) a(1)] assms(2-4) a(2)] .
  then show ?thesis using e s1 assms(1,2) one deliver_good [OF s1 assms(2), of evict now l1 s' l'] by auto
qed

end
