(* ===== verification/Datagram_Props.thy ===== *)
theory Datagram_Props
  imports Datagram_Wire
begin

text \<open>
  Both ends of a datagram connection: a packet that is read was written on the same flow, also when the connection loses, repeats and reorders frames, and a packet of which all frames arrive in time is
  delivered once.
\<close>

section \<open>Both ends\<close>

text \<open>One direction of a connection, from the link \<open>dn_a\<close> to the link \<open>dn_b\<close>: every frame that was ever handed to the connection may arrive, at any time, any number of times or never; nothing else arrives, because
  QUIC protects the connection. The client draws the number of a flow at random from 64 bits; runs in which a number is drawn again on the same connection are left out. The packets that were
  accepted for sending are remembered in \<open>dn_written\<close>.\<close>

record dg_net =
  dn_a :: dg_link
  dn_b :: dg_link
  dn_wire :: "bytes list"
  dn_used :: "u64 list"
  dn_written :: "(u64 \<times> bytes) list"

datatype net_op = AtA dg_op | AtB dg_op | Arrive nat gotime nat

definition net_start :: dg_net where
  "net_start = \<lparr>dn_a = newDatagramLink, dn_b = newDatagramLink, dn_wire = [], dn_used = [], dn_written = []\<rparr>"

definition written_by :: "dg_op \<Rightarrow> dg_link \<Rightarrow> (u64 \<times> bytes) list" where
  "written_by op l = (case op of DgWrite flow p authorized now \<Rightarrow> (case WriteAuthorized flow p authorized now l of Inl e \<Rightarrow> [] | Inr l' \<Rightarrow> [(flow, p)]) | _ \<Rightarrow> [])"

definition opened_by :: "dg_op \<Rightarrow> u64 list" where
  "opened_by op = (case op of DgAdd flow \<Rightarrow> [flow] | _ \<Rightarrow> [])"

definition is_receive :: "dg_op \<Rightarrow> bool" where
  "is_receive op = (case op of DgReceive _ _ _ \<Rightarrow> True | _ \<Rightarrow> False)"

fun net_step :: "net_op \<Rightarrow> dg_net \<Rightarrow> dg_net" where
  "net_step (AtA op) st = (if list_ex (\<lambda>flow. flow \<in> set (dn_used st)) (opened_by op) then st
     else let (fs, a) = dg_step op (dn_a st) in
       st\<lparr>dn_a := a, dn_wire := dn_wire st @ fs, dn_used := opened_by op @ dn_used st, dn_written := written_by op (dn_a st) @ dn_written st\<rparr>)"
| "net_step (AtB op) st = (if is_receive op then st else st\<lparr>dn_b := snd (dg_step op (dn_b st))\<rparr>)"
| "net_step (Arrive k now evict) st = (if k < length (dn_wire st) then st\<lparr>dn_b := receive_frame evict now (dn_wire st ! k) (dn_b st)\<rparr> else st)"

definition net_run :: "net_op list \<Rightarrow> dg_net \<Rightarrow> dg_net" where
  "net_run ops st = fold net_step ops st"

subsection \<open>Steps that only take away\<close>

definition expired :: "gotime \<Rightarrow> dg_session \<Rightarrow> dg_session" where
  "expired now s = s\<lparr>ds_parts := filter (\<lambda>(pid, a). now < fr_expires a) (ds_parts s), ds_seen := filter (\<lambda>(pid, until). now < until) (ds_seen s)\<rparr>"

lemma collect_fold_flows:
  "distinct (map fst xs) \<Longrightarrow> dl_send (fold (\<lambda>(flow, s) l. put_flow flow (expireLocked now s l)) xs l) = dl_send l
     \<and> map_of (dl_flows (fold (\<lambda>(flow, s) l. put_flow flow (expireLocked now s l)) xs l)) f
         = (case map_of xs f of None \<Rightarrow> map_of (dl_flows l) f | Some s \<Rightarrow> Some (expired now s))"
proof (induction xs arbitrary: l)
  case (Cons x xs)
  obtain flow s where x: "x = (flow, s)" by (cases x)
  have n: "map_of xs flow = None" "distinct (map fst xs)" using Cons.prems x by (auto simp: map_of_eq_None_iff)
  have "put_flow flow (expireLocked now s l) = (snd (expireLocked now s l))\<lparr>dl_flows := put flow (expired now s) (dl_flows l)\<rparr>"
    "dl_send (put_flow flow (expireLocked now s l)) = dl_send l"
    by (simp_all add: put_flow_def expireLocked_def Let_def expired_def)
  then show ?case using Cons.IH [OF n(2), of "put_flow flow (expireLocked now s l)"] x n(1) by (auto split: option.splits)
qed simp

lemma collect_flows:
  assumes "distinct_keys (dl_flows l)"
  shows "dl_send (collect now l) = dl_send l" "map_of (dl_flows (collect now l)) f = map_option (expired now) (map_of (dl_flows l) f)"
  using collect_fold_flows [of "dl_flows l" now l f] assms unfolding distinct_keys_def collect_def by (auto split: option.splits)

lemma Close_flows: "dl_send (Close_flow flow l) = dl_send l \<and> (map_of (dl_flows (Close_flow flow l)) f = Some s \<longrightarrow> map_of (dl_flows l) f = Some s)"
  by (cases "map_of (dl_flows l) flow") (simp_all add: Close_flow_def)

lemma receive_stop_flows:
  "dl_send (receive_stop l) = dl_send l \<and> (map_of (dl_flows (receive_stop l)) f = Some s \<longrightarrow> map_of (dl_flows l) f = Some s)"
proof -
  have "dl_send (fold (\<lambda>(flow, s). Close_flow flow) xs m) = dl_send m
      \<and> (map_of (dl_flows (fold (\<lambda>(flow, s). Close_flow flow) xs m)) f = Some s \<longrightarrow> map_of (dl_flows m) f = Some s)" for xs :: "(u64, dg_session) gomap" and m
  proof (induction xs arbitrary: m)
    case (Cons x xs)
    obtain flow t where x: "x = (flow, t)" by (cases x)
    have e: "fold (\<lambda>(flow, s). Close_flow flow) (x # xs) m = fold (\<lambda>(flow, s). Close_flow flow) xs (Close_flow flow m)" using x by simp
    show ?case unfolding e using Cons.IH [of "Close_flow flow m"] Close_flows [of flow m f s] by argo
  qed simp
  from this [of "dl_flows l" l] show ?thesis unfolding receive_stop_def by (cases "dl_alive l") simp_all
qed

definition lessened :: "dg_session \<Rightarrow> dg_session \<Rightarrow> bool" where
  "lessened s s' \<longleftrightarrow> set (ds_parts s') \<subseteq> set (ds_parts s) \<and> (distinct_keys (ds_parts s) \<longrightarrow> distinct_keys (ds_parts s')) \<and> set (ds_in s') \<subseteq> set (ds_in s)"

lemma lessened_good: "lessened s s' \<Longrightarrow> flow_good log flow s \<Longrightarrow> flow_good log flow s'"
  unfolding lessened_def flow_good_def by blast

lemma lessened_expired: "lessened s (expired now s)"
  by (auto simp: lessened_def expired_def distinct_keys_filter)

text \<open>What steps other than receiving do to the receiver.\<close>

definition takes_away :: "dg_link \<Rightarrow> dg_link \<Rightarrow> bool" where
  "takes_away l l' \<longleftrightarrow> (\<forall>f s'. map_of (dl_flows l') f = Some s' \<longrightarrow> s' = new_flow \<or> (\<exists>s. map_of (dl_flows l) f = Some s \<and> lessened s s'))"

lemma takes_away_same: "(\<And>f s. map_of (dl_flows l') f = Some s \<Longrightarrow> map_of (dl_flows l) f = Some s) \<Longrightarrow> takes_away l l'"
  unfolding takes_away_def lessened_def by blast

lemma takes_away_one:
  assumes "map_of (dl_flows l) flow = Some s" "dl_flows l' = put flow s' (dl_flows l)" "lessened s s'"
  shows "takes_away l l'"
proof -
  have "lessened t t" for t by (simp add: lessened_def)
  then show ?thesis using assms unfolding takes_away_def by auto
qed

lemma takes_away_on_flow:
  assumes "\<And>s. lessened s (f s)"
  shows "takes_away l (on_flow flow f l)"
proof (cases "map_of (dl_flows l) flow")
  case None
  then show ?thesis using takes_away_same [of l l] by (simp add: on_flow_def)
next
  case (Some s)
  then show ?thesis using takes_away_one [OF Some _ assms] by (simp add: on_flow_def)
qed

lemma sender_flows:
  assumes "sender_job out1 out2 l = (fs, l')"
  shows "(dl_flows l' = dl_flows l \<and> fs = []) \<or> (\<exists>flow p jobs s ok s' l1 l2. dl_send l = (flow, p) # jobs \<and> map_of (dl_flows l) flow = Some s \<and> sendPacket out1 out2 flow p s l1 = (ok, fs, s', l2)
      \<and> dl_flows l' = put flow s' (dl_flows l))"
proof (cases "\<exists>flow p jobs s. dl_send l = (flow, p) # jobs \<and> map_of (dl_flows l) flow = Some s \<and> ds_open s")
  case False
  then show ?thesis using assms by (auto simp: sender_job_def Let_def split: list.splits option.splits if_splits)
next
  case True
  then obtain flow p jobs s where t: "dl_send l = (flow, p) # jobs" "map_of (dl_flows l) flow = Some s" "ds_open s" by blast
  define l1 where "l1 = l\<lparr>dl_send := jobs, dl_queued := dl_queued l - int (length p)\<rparr>"
  obtain ok gs s' l2 where e: "sendPacket out1 out2 flow p s l1 = (ok, gs, s', l2)" by (cases "sendPacket out1 out2 flow p s l1") auto
  have "dl_flows l2 = dl_flows l" using send_attempts_view [of "[out1, out2]" flow p s l1] e by (auto simp: sendPacket_def l1_def)
  then have "fs = gs" "dl_flows l' = put flow s' (dl_flows l)" using assms t e by (auto simp: sender_job_def Let_def l1_def drop_one_def split: if_splits)
  then show ?thesis using t e by blast
qed

lemma sender_takes_job:
  assumes "sender_job out1 out2 l = (fs, l')"
  shows "dl_send l' = tl (dl_send l)"
proof (cases "dl_send l")
  case Nil
  then show ?thesis using assms by (simp add: sender_job_def)
next
  case (Cons j jobs)
  obtain flow p where j: "j = (flow, p)" by (cases j)
  define l1 where "l1 = l\<lparr>dl_send := jobs, dl_queued := dl_queued l - int (length p)\<rparr>"
  show ?thesis
  proof (cases "\<exists>s. map_of (dl_flows l) flow = Some s \<and> ds_open s")
    case False
    then show ?thesis using assms Cons j by (auto simp: sender_job_def Let_def split: option.splits)
  next
    case True
    then obtain s where s: "map_of (dl_flows l) flow = Some s" "ds_open s" by blast
    obtain ok gs s' l2 where e: "sendPacket out1 out2 flow p s l1 = (ok, gs, s', l2)" by (cases "sendPacket out1 out2 flow p s l1") auto
    have "dl_send l2 = jobs" using send_attempts_view [of "[out1, out2]" flow p s l1] e by (auto simp: sendPacket_def l1_def)
    then show ?thesis using assms Cons j s e by (auto simp: sender_job_def Let_def l1_def drop_one_def split: if_splits)
  qed
qed

lemma step_takes_away:
  assumes "\<not> is_receive op" "distinct_keys (dl_flows l)"
  shows "takes_away l (snd (dg_step op l))"
proof (cases op)
  case (DgAdd flow)
  then show ?thesis by (auto simp: takes_away_def lessened_def add_flow_def split: if_splits sum.splits)
next
  case (DgReceive f now evict)
  then show ?thesis using assms(1) by (simp add: is_receive_def)
next
  case (DgCollect now)
  then show ?thesis using collect_flows [OF assms(2)] lessened_expired by (auto simp: takes_away_def)
next
  case (DgRead flow n now ended)
  show ?thesis
  proof (cases "map_of (dl_flows l) flow")
    case None
    then show ?thesis using DgRead takes_away_same [of l l] by (simp add: Read_packet_def)
  next
    case (Some s)
    have "lessened s (s\<lparr>ds_in := ps\<rparr>)" if "ds_in s = p # ps" for p ps using that by (auto simp: lessened_def)
    then show ?thesis using DgRead Some takes_away_same [of l l] takes_away_one [OF Some] by (auto simp: Read_packet_def split: if_splits option.splits list.splits)
  qed
next
  case (DgWrite flow p a now)
  then show ?thesis by (auto intro!: takes_away_same simp: WriteAuthorized_def split: if_splits option.splits sum.splits)
next
  case (DgSend out1 out2)
  obtain fs l' where e: "sender_job out1 out2 l = (fs, l')" by fastforce
  show ?thesis
  proof (cases "dl_flows l' = dl_flows l")
    case True
    then show ?thesis using DgSend e takes_away_same [of l' l] by simp
  next
    case False
    then obtain flow p s ok s' l1 l2 where s: "map_of (dl_flows l) flow = Some s" "sendPacket out1 out2 flow p s l1 = (ok, fs, s', l2)" "dl_flows l' = put flow s' (dl_flows l)"
      using sender_flows [OF e] by blast
    have "lessened s s'" using send_attempts_view [of "[out1, out2]" flow p s l1] s(2) by (auto simp: sendPacket_def lessened_def)
    then show ?thesis using DgSend e takes_away_one [OF s(1,3)] by simp
  qed
next
  case (DgClose flow)
  have "takes_away l (Close_flow flow l)" by (rule takes_away_same) (use Close_flows in blast)
  then show ?thesis using DgClose by simp
next
  case DgReceiveStop
  have "takes_away l (receive_stop l)" by (rule takes_away_same) (use receive_stop_flows in blast)
  then show ?thesis using DgReceiveStop by simp
next
  case DgSenderStop
  have "takes_away l (sender_stop l)" by (rule takes_away_same) (simp add: sender_stop_def split: if_splits)
  then show ?thesis using DgSenderStop by simp
next
  case DgDown
  have "takes_away l (l\<lparr>dl_alive := False\<rparr>)" by (rule takes_away_same) simp
  then show ?thesis using DgDown by simp
qed (simp_all add: SetReadDeadline_def SetWriteDeadline_def takes_away_on_flow lessened_def)

subsection \<open>Steps that number no packet\<close>

lemma expire_seq: "expireLocked now s l = (s', l') \<Longrightarrow> ds_sequence s' = ds_sequence s"
  by (auto simp: expireLocked_def Let_def)

lemma deliver_seq: "deliver evict now pid packet s l = (s', l') \<Longrightarrow> ds_sequence s' = ds_sequence s"
  by (auto simp: deliver_def Let_def split: option.splits if_splits)

lemma assembly_seq: "assembly now pid tot count s l = Some (a, s', l') \<Longrightarrow> ds_sequence s' = ds_sequence s"
  by (auto simp: assembly_def Let_def split: option.splits if_splits)

lemma add_part_seq: "add_part evict now pid tot index count payload a s l = (s', l') \<Longrightarrow> ds_sequence s' = ds_sequence s"
  by (auto simp: add_part_def Let_def dest: deliver_seq split: option.splits if_splits)

lemma accept_seq:
  assumes "accept_frame evict now frame s l = (s', l')"
  shows "ds_sequence s' = ds_sequence s"
proof -
  define pid tot index count payload where f: "pid = get64 (take 8 (drop 9 frame))" "tot = get_be (take 4 (drop 17 frame))" "index = get_be (take 2 (drop 21 frame))"
    "count = get_be (take 2 (drop 23 frame))" "payload = drop datagramHeader frame"
  obtain s1 l1 where x: "expireLocked now s l = (s1, l1)" by fastforce
  have "s' = s \<or> s' = s1 \<or> deliver evict now pid payload s1 l1 = (s', l')
      \<or> (\<exists>a s2 l2. assembly now pid tot count s1 l1 = Some (a, s2, l2) \<and> add_part evict now pid tot index count payload a s2 l2 = (s', l'))"
    using assms unfolding accept_frame_def Let_def f [symmetric] x prod.case by (simp split: if_splits option.splits prod.splits)
  then show ?thesis using expire_seq [OF x] deliver_seq assembly_seq add_part_seq by metis
qed

definition keeps_numbers :: "dg_link \<Rightarrow> dg_link \<Rightarrow> bool" where
  "keeps_numbers l l' \<longleftrightarrow> set (dl_send l') \<subseteq> set (dl_send l) \<and> (\<forall>f s'. map_of (dl_flows l') f = Some s' \<longrightarrow> (\<exists>s. map_of (dl_flows l) f = Some s \<and> ds_sequence s' = ds_sequence s))"

lemma keeps_numbers_same:
  "set (dl_send l') \<subseteq> set (dl_send l) \<Longrightarrow> (\<And>f s. map_of (dl_flows l') f = Some s \<Longrightarrow> map_of (dl_flows l) f = Some s) \<Longrightarrow> keeps_numbers l l'"
  unfolding keeps_numbers_def by blast

lemma keeps_numbers_one:
  assumes "map_of (dl_flows l) flow = Some s" "dl_flows l' = put flow s' (dl_flows l)" "dl_send l' = dl_send l" "ds_sequence s' = ds_sequence s"
  shows "keeps_numbers l l'"
  using assms unfolding keeps_numbers_def by auto

lemma keeps_numbers_on_flow:
  assumes "\<And>s. ds_sequence (f s) = ds_sequence s"
  shows "keeps_numbers l (on_flow flow f l)"
proof (cases "map_of (dl_flows l) flow")
  case None
  then show ?thesis using keeps_numbers_same [of l l] by (simp add: on_flow_def)
next
  case (Some s)
  then show ?thesis using keeps_numbers_one [OF Some, of _ "f s"] assms by (simp add: on_flow_def)
qed

lemma receive_keeps_numbers:
  assumes "link_ok l"
  shows "keeps_numbers l (receive_frame evict now p l)"
proof -
  have d: "keeps_numbers l (drop_one l)" by (rule keeps_numbers_same) (simp_all add: drop_one_def)
  have "keeps_numbers l (put_flow flow (accept_frame evict now p s l))" if s: "map_of (dl_flows l) flow = Some s" for flow s
  proof -
    obtain s' l' where e: "accept_frame evict now p s l = (s', l')" by fastforce
    note m = accept_moved [OF link_okD(3) [OF assms s] e]
    show ?thesis unfolding e by (rule keeps_numbers_one [OF s, of _ s']) (simp_all add: put_flow_def movedD(2,3) [OF m] accept_seq [OF e])
  qed
  then show ?thesis using d by (auto simp: receive_frame_def Let_def split: option.splits)
qed

definition numbers_none :: "dg_op \<Rightarrow> bool" where
  "numbers_none op = (case op of DgAdd _ \<Rightarrow> False | DgWrite _ _ _ _ \<Rightarrow> False | DgSend _ _ \<Rightarrow> False | _ \<Rightarrow> True)"

lemma step_keeps_numbers:
  assumes "link_ok l" "numbers_none op"
  shows "keeps_numbers l (snd (dg_step op l))" "fst (dg_step op l) = []" "opened_by op = []" "written_by op l = []"
proof -
  show "keeps_numbers l (snd (dg_step op l))"
  proof (cases op)
    case (DgReceive f now evict)
    then show ?thesis using receive_keeps_numbers [OF assms(1)] by simp
  next
    case (DgCollect now)
    have "keeps_numbers l (collect now l)" using collect_flows [OF link_okD(1) [OF assms(1)]] by (auto simp: keeps_numbers_def expired_def)
    then show ?thesis using DgCollect by simp
  next
    case (DgRead flow n now ended)
    show ?thesis
    proof (cases "map_of (dl_flows l) flow")
      case None
      then show ?thesis using DgRead keeps_numbers_same [of l l] by (simp add: Read_packet_def)
    next
      case (Some s)
      then show ?thesis using DgRead keeps_numbers_same [of l l] keeps_numbers_one [OF Some] by (auto simp: Read_packet_def split: if_splits option.splits list.splits)
    qed
  next
    case (DgClose flow)
    have "keeps_numbers l (Close_flow flow l)" by (rule keeps_numbers_same) (use Close_flows in \<open>simp, blast\<close>)
    then show ?thesis using DgClose by simp
  next
    case DgReceiveStop
    have "keeps_numbers l (receive_stop l)" by (rule keeps_numbers_same) (use receive_stop_flows in \<open>simp, blast\<close>)
    then show ?thesis using DgReceiveStop by simp
  next
    case DgSenderStop
    have "keeps_numbers l (sender_stop l)" by (rule keeps_numbers_same) (simp_all add: sender_stop_def split: if_splits)
    then show ?thesis using DgSenderStop by simp
  next
    case DgDown
    have "keeps_numbers l (l\<lparr>dl_alive := False\<rparr>)" by (rule keeps_numbers_same) simp_all
    then show ?thesis using DgDown by simp
  qed (use assms(2) in \<open>simp_all add: numbers_none_def SetReadDeadline_def SetWriteDeadline_def keeps_numbers_on_flow\<close>)
  show "fst (dg_step op l) = []" "opened_by op = []" "written_by op l = []"
    using assms(2) by (cases op; simp add: numbers_none_def opened_by_def written_by_def)+
qed

subsection \<open>The invariant\<close>

definition sender_ok_log :: "nat \<Rightarrow> dg_log \<Rightarrow> dg_net \<Rightarrow> bool" where
  "sender_ok_log n log st \<longleftrightarrow> log_ok log
     \<and> (\<forall>f pid p chunk. log (f, pid) = Some (p, chunk) \<longrightarrow> (f, p) \<in> set (dn_written st) \<and> f \<in> set (dn_used st)
         \<and> (\<forall>s. map_of (dl_flows (dn_a st)) f = Some s \<longrightarrow> unat pid \<le> unat (ds_sequence s)))
     \<and> (\<forall>f s. map_of (dl_flows (dn_a st)) f = Some s \<longrightarrow> f \<in> set (dn_used st) \<and> unat (ds_sequence s) \<le> 2 * n)
     \<and> (\<forall>f p. (f, p) \<in> set (dl_send (dn_a st)) \<longrightarrow> (f, p) \<in> set (dn_written st) \<and> length p \<le> 65535)
     \<and> list_all (genuine log) (dn_wire st)"

definition net_inv :: "nat \<Rightarrow> dg_log \<Rightarrow> dg_net \<Rightarrow> bool" where
  "net_inv n log st \<longleftrightarrow> link_ok (dn_a st) \<and> link_ok (dn_b st) \<and> sender_ok_log n log st \<and> (\<forall>f s. map_of (dl_flows (dn_b st)) f = Some s \<longrightarrow> flow_good log f s)"

lemma net_inv_start: "net_inv 0 (\<lambda>x. None) net_start"
  using link_ok_new by (simp add: net_inv_def sender_ok_log_def log_ok_def net_start_def newDatagramLink_def)

lemma sender_keeps_numbers:
  assumes "sender_ok_log n log st" "keeps_numbers (dn_a st) a" "n \<le> m" "set (dn_written st) \<subseteq> set w" "set (dn_used st) \<subseteq> set u"
  shows "sender_ok_log m log (st\<lparr>dn_a := a, dn_used := u, dn_written := w\<rparr>)"
proof -
  have k: "set (dl_send a) \<subseteq> set (dl_send (dn_a st))" "\<And>f s'. map_of (dl_flows a) f = Some s' \<Longrightarrow> \<exists>s. map_of (dl_flows (dn_a st)) f = Some s \<and> ds_sequence s' = ds_sequence s"
    using assms(2) unfolding keeps_numbers_def by blast+
  note i = assms(1) [unfolded sender_ok_log_def]
  have "(f, p) \<in> set w \<and> f \<in> set u \<and> (\<forall>s. map_of (dl_flows a) f = Some s \<longrightarrow> unat pid \<le> unat (ds_sequence s))" if "log (f, pid) = Some (p, chunk)" for f pid p chunk
    using i that k(2) assms(4,5) by fastforce
  moreover have "f \<in> set u \<and> unat (ds_sequence s) \<le> 2 * m" if s: "map_of (dl_flows a) f = Some s" for f s
  proof -
    obtain s0 where "map_of (dl_flows (dn_a st)) f = Some s0" "ds_sequence s = ds_sequence s0" using k(2) [OF s] by blast
    then have "f \<in> set (dn_used st)" "unat (ds_sequence s) \<le> 2 * n" using i by auto
    then show ?thesis using assms(3,5) by auto
  qed
  moreover have "(f, p) \<in> set w \<and> length p \<le> 65535" if "(f, p) \<in> set (dl_send a)" for f p using i that k(1) assms(4) by blast
  ultimately show ?thesis using i unfolding sender_ok_log_def by simp
qed

lemma sender_add:
  assumes "sender_ok_log n log st" "flow \<notin> set (dn_used st)" "add_flow flow (dn_a st) = Inr a"
  shows "sender_ok_log (Suc n) log (st\<lparr>dn_a := a, dn_used := flow # dn_used st\<rparr>)"
proof -
  note i = assms(1) [unfolded sender_ok_log_def]
  have e: "a = (dn_a st)\<lparr>dl_flows := put flow new_flow (dl_flows (dn_a st))\<rparr>" using assms(3) by (auto simp: add_flow_def split: if_splits)
  have "unat pid \<le> unat (ds_sequence s)" if "log (f, pid) = Some (p, chunk)" "map_of (dl_flows a) f = Some s" for f pid p chunk s
  proof -
    have "f \<in> set (dn_used st)" using i that(1) by blast
    then have "f \<noteq> flow" using assms(2) by auto
    then have "map_of (dl_flows (dn_a st)) f = Some s" using that(2) by (simp add: e)
    then show ?thesis using i that(1) by blast
  qed
  moreover have "unat (ds_sequence s) \<le> 2 * Suc n \<and> f \<in> set (flow # dn_used st)" if "map_of (dl_flows a) f = Some s" for f s
  proof (cases "f = flow")
    case True
    then show ?thesis using that by (auto simp: e new_flow_def)
  next
    case False
    then have "map_of (dl_flows (dn_a st)) f = Some s" using that by (simp add: e)
    then show ?thesis using i by fastforce
  qed
  ultimately show ?thesis using i unfolding sender_ok_log_def by (simp add: e)
qed

lemma sender_write:
  assumes "sender_ok_log n log st" "WriteAuthorized flow p authorized now (dn_a st) = Inr a"
  shows "sender_ok_log (Suc n) log (st\<lparr>dn_a := a, dn_written := (flow, p) # dn_written st\<rparr>)"
proof -
  note i = assms(1) [unfolded sender_ok_log_def]
  have e: "dl_flows a = dl_flows (dn_a st)" "dl_send a = dl_send (dn_a st) @ [(flow, p)]" "length p \<le> 65535"
    using assms(2) by (auto simp: WriteAuthorized_def split: if_splits option.splits)
  have "unat (ds_sequence s) \<le> 2 * Suc n" if "map_of (dl_flows (dn_a st)) f = Some s" for f s using i that by fastforce
  then show ?thesis using i e(3) unfolding sender_ok_log_def by (auto simp: e(1,2))
qed

lemma sender_send_log:
  assumes inv: "sender_ok_log n log st" and n: "2 * Suc n < 2 ^ 64" and e: "sender_job out1 out2 (dn_a st) = (fs, a)"
  shows "\<exists>log'. sender_ok_log (Suc n) log' (st\<lparr>dn_a := a, dn_wire := dn_wire st @ fs\<rparr>) \<and> (\<forall>x y. log x = Some y \<longrightarrow> log' x = Some y)"
proof -
  note i = inv [unfolded sender_ok_log_def]
  have send: "set (dl_send a) \<subseteq> set (dl_send (dn_a st))" using sender_takes_job [OF e] by (cases "dl_send (dn_a st)") auto
  show ?thesis
  proof (cases "dl_flows a = dl_flows (dn_a st) \<and> fs = []")
    case True
    then have "keeps_numbers (dn_a st) a" using send by (intro keeps_numbers_same) simp_all
    then have "sender_ok_log (Suc n) log (st\<lparr>dn_a := a, dn_used := dn_used st, dn_written := dn_written st\<rparr>)" by (intro sender_keeps_numbers [OF inv]) simp_all
    then show ?thesis using True by (intro exI [of _ log]) simp
  next
    case False
    then obtain flow p jobs s ok s' l1 l2 where s: "dl_send (dn_a st) = (flow, p) # jobs" "map_of (dl_flows (dn_a st)) flow = Some s"
      "sendPacket out1 out2 flow p s l1 = (ok, fs, s', l2)" "dl_flows a = put flow s' (dl_flows (dn_a st))"
      using sender_flows [OF e] by blast
    have p: "(flow, p) \<in> set (dn_written st)" "length p \<le> 65535" "flow \<in> set (dn_used st)" "unat (ds_sequence s) \<le> 2 * n" using i s(1,2) by auto
    have "log (flow, pid) = None" if "unat (ds_sequence s) < unat pid" for pid using i s(2) that by (cases "log (flow, pid)") fastforce+
    then obtain log' where x: "extends log flow p (ds_sequence s) (ds_sequence s') log'" "list_all (genuine log') fs"
      "unat (ds_sequence s) \<le> unat (ds_sequence s')" "unat (ds_sequence s') \<le> unat (ds_sequence s) + length [out1, out2]"
      using send_attempts_log [OF s(3) [unfolded sendPacket_def], of log] p(4) n by auto
    have up: "\<And>x y. log x = Some y \<Longrightarrow> log' x = Some y" using x(1) unfolding extends_def by blast
    have new: "log (f, pid) = Some (q, chunk) \<or> f = flow \<and> q = p \<and> 512 \<le> chunk \<and> unat pid \<le> unat (ds_sequence s')" if "log' (f, pid) = Some (q, chunk)" for f pid q chunk
      using x(1) that unfolding extends_def by blast
    have flows: "map_of (dl_flows a) f = Some t \<Longrightarrow> f = flow \<and> t = s' \<or> f \<noteq> flow \<and> map_of (dl_flows (dn_a st)) f = Some t" for f t by (auto simp: s(4) split: if_splits)
    have "log_ok log'" unfolding log_ok_def
    proof (intro allI impI)
      fix y q chunk assume y: "log' y = Some (q, chunk)"
      have "log y = Some (q, chunk) \<or> q = p \<and> 512 \<le> chunk" using new [of "fst y" "snd y" q chunk] y by auto
      then show "length q \<le> 65535 \<and> 512 \<le> chunk" using i p(2) unfolding log_ok_def by blast
    qed
    moreover have "(f, q) \<in> set (dn_written st) \<and> f \<in> set (dn_used st) \<and> (\<forall>t. map_of (dl_flows a) f = Some t \<longrightarrow> unat pid \<le> unat (ds_sequence t))"
      if l: "log' (f, pid) = Some (q, chunk)" for f pid q chunk
    proof (cases "log (f, pid) = Some (q, chunk)")
      case True
      then have o: "(f, q) \<in> set (dn_written st)" "f \<in> set (dn_used st)" "\<And>t. map_of (dl_flows (dn_a st)) f = Some t \<Longrightarrow> unat pid \<le> unat (ds_sequence t)" using i by blast+
      have "unat pid \<le> unat (ds_sequence t)" if t: "map_of (dl_flows a) f = Some t" for t
        using flows [OF t] o(3) [of s] o(3) [of t] s(2) x(3) by auto
      then show ?thesis using o by blast
    next
      case False
      then have "f = flow" "q = p" "unat pid \<le> unat (ds_sequence s')" using new [OF l] by blast+
      then show ?thesis using p by (simp add: s(4))
    qed
    moreover have "f \<in> set (dn_used st) \<and> unat (ds_sequence t) \<le> 2 * Suc n" if t: "map_of (dl_flows a) f = Some t" for f t
    proof (cases "f = flow")
      case True
      then have "t = s'" using flows [OF t] by blast
      then show ?thesis using True p(3,4) x(4) by simp
    next
      case False
      then have "map_of (dl_flows (dn_a st)) f = Some t" using flows [OF t] by blast
      then show ?thesis using i by fastforce
    qed
    moreover have "list_all (genuine log') (dn_wire st @ fs)" using i x(2) genuine_mono [OF _ up] unfolding list_all_iff by auto
    moreover have "(f, q) \<in> set (dn_written st) \<and> length q \<le> 65535" if "(f, q) \<in> set (dl_send a)" for f q using i send that by blast
    ultimately show ?thesis using up unfolding sender_ok_log_def by (intro exI [of _ log']) simp
  qed
qed

lemma net_same:
  assumes "net_inv n log st"
  shows "net_inv (Suc n) log st"
proof -
  have "keeps_numbers (dn_a st) (dn_a st)" by (rule keeps_numbers_same) simp_all
  then have "sender_ok_log (Suc n) log (st\<lparr>dn_a := dn_a st, dn_used := dn_used st, dn_written := dn_written st\<rparr>)"
    using assms by (intro sender_keeps_numbers [of n]) (simp_all add: net_inv_def)
  then show ?thesis using assms unfolding net_inv_def by simp
qed

lemma new_flow_good: "flow_good log f new_flow"
  by (simp add: flow_good_def new_flow_def)

lemma net_at_b:
  assumes "net_inv n log st" "\<not> is_receive op"
  shows "net_inv (Suc n) log (st\<lparr>dn_b := snd (dg_step op (dn_b st))\<rparr>)"
proof -
  have b: "link_ok (dn_b st)" using assms(1) by (simp add: net_inv_def)
  have "flow_good log f s'" if s': "map_of (dl_flows (snd (dg_step op (dn_b st)))) f = Some s'" for f s'
  proof -
    have "s' = new_flow \<or> (\<exists>s. map_of (dl_flows (dn_b st)) f = Some s \<and> lessened s s')"
      using step_takes_away [OF assms(2) link_okD(1) [OF b]] s' unfolding takes_away_def by blast
    then show ?thesis using new_flow_good lessened_good assms(1) unfolding net_inv_def by blast
  qed
  then show ?thesis using net_same [OF assms(1)] dg_step_ok [OF b] unfolding net_inv_def sender_ok_log_def by simp
qed

lemma net_arrive:
  assumes "net_inv n log st" "k < length (dn_wire st)"
  shows "net_inv (Suc n) log (st\<lparr>dn_b := receive_frame evict now (dn_wire st ! k) (dn_b st)\<rparr>)"
proof -
  let ?b = "dn_b st"
  have b: "link_ok ?b" "log_ok log" "genuine log (dn_wire st ! k)" using assms unfolding net_inv_def sender_ok_log_def list_all_iff by auto
  obtain flow pid p chunk i where g: "log (flow, pid) = Some (p, chunk)" "i < frame_count p chunk" and frame: "dn_wire st ! k = fragment flow pid p chunk (frame_count p chunk) i"
    using b(3) unfolding genuine_def by blast
  have p: "length p \<le> 65535" "512 \<le> chunk" using b(2) g(1) unfolding log_ok_def by blast+
  have n: "i < 65536" "frame_count p chunk < 65536" using frame_count_bounds(2) [OF p] g(2) by simp_all
  note f = fragment_fields [OF p(1) n, of flow pid chunk, folded frame]
  have r: "receive_frame evict now (dn_wire st ! k) ?b = (case map_of (dl_flows ?b) flow of None \<Rightarrow> drop_one ?b | Some s \<Rightarrow> put_flow flow (accept_frame evict now (dn_wire st ! k) s ?b))"
    using f(1-3) by (simp add: receive_frame_def Let_def)
  have "flow_good log h t" if t: "map_of (dl_flows (receive_frame evict now (dn_wire st ! k) ?b)) h = Some t" for h t
  proof (cases "map_of (dl_flows ?b) flow")
    case None
    then show ?thesis using t r assms(1) by (simp add: drop_one_def net_inv_def)
  next
    case (Some s)
    obtain s' l' where e: "accept_frame evict now (dn_wire st ! k) s ?b = (s', l')" by fastforce
    have s: "flow_good log flow s" using assms(1) Some unfolding net_inv_def by blast
    have "flow_good log flow s'" by (rule accept_good [OF s g(1) b(2) g(2) e [unfolded frame]])
    moreover have "dl_flows l' = dl_flows ?b" using movedD(2) [OF accept_moved [OF link_okD(3) [OF b(1) Some] e]] .
    ultimately show ?thesis using t r Some e assms(1) unfolding net_inv_def by (auto simp: put_flow_def split: if_splits)
  qed
  then show ?thesis using net_same [OF assms(1)] receive_ok [OF b(1)] unfolding net_inv_def sender_ok_log_def by simp
qed

lemma net_at_a:
  assumes inv: "net_inv n log st" and n: "2 * Suc n < 2 ^ 64" and u: "\<not> list_ex (\<lambda>flow. flow \<in> set (dn_used st)) (opened_by op)"
  shows "\<exists>log'. net_inv (Suc n) log' (net_step (AtA op) st)"
proof -
  obtain fs a where e: "dg_step op (dn_a st) = (fs, a)" by fastforce
  define st' where "st' = st\<lparr>dn_a := a, dn_wire := dn_wire st @ fs, dn_used := opened_by op @ dn_used st, dn_written := written_by op (dn_a st) @ dn_written st\<rparr>"
  have step: "net_step (AtA op) st = st'" using u e by (simp add: st'_def)
  have a: "link_ok (dn_a st)" "sender_ok_log n log st" using inv by (simp_all add: net_inv_def)
  have a': "link_ok a" using dg_step_ok [OF a(1), of op] e by simp
  have same: "keeps_numbers (dn_a st) (dn_a st)" by (rule keeps_numbers_same) simp_all
  have "\<exists>log'. sender_ok_log (Suc n) log' st' \<and> (\<forall>x y. log x = Some y \<longrightarrow> log' x = Some y)"
  proof (cases "numbers_none op")
    case True
    note k = step_keeps_numbers [OF a(1) True]
    have "keeps_numbers (dn_a st) a" using k(1) e by simp
    then have "sender_ok_log (Suc n) log (st\<lparr>dn_a := a, dn_used := dn_used st, dn_written := dn_written st\<rparr>)" by (intro sender_keeps_numbers [OF a(2)]) simp_all
    then show ?thesis using k(2-4) e by (intro exI [of _ log]) (simp add: st'_def)
  next
    case False
    then consider (add) flow where "op = DgAdd flow" | (wr) flow p au now where "op = DgWrite flow p au now" | (send) out1 out2 where "op = DgSend out1 out2"
      by (cases op) (auto simp: numbers_none_def)
    then show ?thesis
    proof cases
      case add
      then have f: "fs = []" "flow \<notin> set (dn_used st)" using e u by (auto simp: opened_by_def)
      have "sender_ok_log (Suc n) log (st\<lparr>dn_a := a, dn_used := flow # dn_used st\<rparr>)"
      proof (cases "add_flow flow (dn_a st)")
        case (Inl x)
        then have "a = dn_a st" using add e by simp
        then have "sender_ok_log (Suc n) log (st\<lparr>dn_a := a, dn_used := flow # dn_used st, dn_written := dn_written st\<rparr>)" using same by (intro sender_keeps_numbers [OF a(2)]) auto
        then show ?thesis by simp
      next
        case (Inr x)
        then show ?thesis using sender_add [OF a(2) f(2)] add e by simp
      qed
      then show ?thesis using add f by (intro exI [of _ log]) (simp add: st'_def opened_by_def written_by_def)
    next
      case wr
      show ?thesis
      proof (cases "WriteAuthorized flow p au now (dn_a st)")
        case (Inl x)
        then have "a = dn_a st" "fs = []" using wr e by simp_all
        moreover have "sender_ok_log (Suc n) log (st\<lparr>dn_a := dn_a st, dn_used := dn_used st, dn_written := dn_written st\<rparr>)" using same by (intro sender_keeps_numbers [OF a(2)]) auto
        ultimately show ?thesis using wr Inl by (intro exI [of _ log]) (simp add: st'_def opened_by_def written_by_def)
      next
        case (Inr x)
        then have "a = x" "fs = []" using wr e by simp_all
        then show ?thesis using wr Inr sender_write [OF a(2) Inr] by (intro exI [of _ log]) (simp add: st'_def opened_by_def written_by_def)
      qed
    next
      case send
      then have "sender_job out1 out2 (dn_a st) = (fs, a)" using e by simp
      from sender_send_log [OF a(2) n this] show ?thesis using send by (simp add: st'_def opened_by_def written_by_def)
    qed
  qed
  then obtain log' where l: "sender_ok_log (Suc n) log' st'" "\<And>x y. log x = Some y \<Longrightarrow> log' x = Some y" by blast
  have "flow_good log' f s" if "map_of (dl_flows (dn_b st)) f = Some s" for f s
    using inv that flow_good_mono [of log f s log'] l(2) unfolding net_inv_def by blast
  then have "net_inv (Suc n) log' st'" using l(1) a' inv unfolding net_inv_def by (simp add: st'_def)
  then show ?thesis unfolding step by blast
qed

lemma net_step_ok:
  assumes inv: "net_inv n log st" and n: "2 * Suc n < 2 ^ 64"
  shows "\<exists>log'. net_inv (Suc n) log' (net_step op st)"
proof (cases op)
  case (AtA o1)
  show ?thesis
  proof (cases "list_ex (\<lambda>flow. flow \<in> set (dn_used st)) (opened_by o1)")
    case True
    then show ?thesis using net_same [OF inv] AtA by auto
  next
    case False
    then show ?thesis using net_at_a [OF assms False] AtA by simp
  qed
next
  case (AtB o1)
  then show ?thesis using net_same [OF inv] net_at_b [OF inv] by auto
next
  case (Arrive k now evict)
  then show ?thesis using net_same [OF inv] net_arrive [OF inv] by auto
qed

lemma net_run_ok:
  "net_inv n log st \<Longrightarrow> 2 * (n + length ops) < 2 ^ 64 \<Longrightarrow> \<exists>log'. net_inv (n + length ops) log' (net_run ops st)"
proof (induction ops arbitrary: n log st)
  case Nil
  then show ?case by (auto simp: net_run_def)
next
  case (Cons op ops)
  have "2 * Suc n < 2 ^ 64" using Cons.prems(2) by simp
  then obtain log1 where "net_inv (Suc n) log1 (net_step op st)" using net_step_ok [OF Cons.prems(1)] by blast
  then have "\<exists>log'. net_inv (Suc n + length ops) log' (net_run ops (net_step op st))" using Cons.prems(2) by (intro Cons.IH) simp_all
  then show ?case by (simp add: net_run_def)
qed

section \<open>Every packet was written\<close>

text \<open>C32: Whatever the connection loses, repeats, delays and reorders, and whatever else happens on both links: what a reader gets from a flow is a packet that was accepted for sending on that flow, cut to
  the reader's buffer. Pieces of different packets, of different attempts to send a packet or of different flows are never put together. (A run has fewer than \<open>2 ^ 63\<close> steps, so that no
  number of a packet is used again.)\<close>

theorem datagram_integrity:
  assumes "int (length ops) < 2 ^ 63" "fst (Read_packet flow n now ended (dn_b (net_run ops net_start))) = Inr q"
  shows "\<exists>p. (flow, p) \<in> set (dn_written (net_run ops net_start)) \<and> q = take n p"
proof -
  let ?st = "net_run ops net_start"
  have "2 * (0 + length ops) < 2 ^ 64" using assms(1) by simp
  then obtain log where inv: "net_inv (0 + length ops) log ?st" using net_run_ok [OF net_inv_start] by blast
  obtain s p ps where s: "map_of (dl_flows (dn_b ?st)) flow = Some s" "ds_in s = p # ps" "q = take n p"
    using assms(2) by (auto simp: Read_packet_def split: option.splits if_splits list.splits)
  have "flow_good log flow s" using inv s(1) unfolding net_inv_def by blast
  then obtain pid chunk where "log (flow, pid) = Some (p, chunk)" using s(2) unfolding flow_good_def by auto
  then have "(flow, p) \<in> set (dn_written ?st)" using inv unfolding net_inv_def sender_ok_log_def by blast
  then show ?thesis using s(3) by blast
qed

definition demo_net :: "net_op list" where
  "demo_net = [AtA (DgAdd 7), AtB (DgAdd 7), AtA (DgWrite 7 [1, 2, 3] True 0), AtA (DgSend (\<lambda>i. Sent) (\<lambda>i. Sent)), Arrive 0 5 0, Arrive 0 6 0]"

lemma datagram_integrity_witness: "\<exists>p. (7, p) \<in> set (dn_written (net_run demo_net net_start)) \<and> [1, 2, 3] = take 100 p"
proof (rule datagram_integrity)
  show "int (length demo_net) < 2 ^ 63" by (simp add: demo_net_def)
  show "fst (Read_packet 7 100 8 False (dn_b (net_run demo_net net_start))) = Inr [1, 2, 3]" by code_simp
qed

end
