(* ===== verification/Datagram_Delivery.thy ===== *)
theory Datagram_Delivery
  imports Datagram_Props
begin

text \<open>
  A packet of which every frame arrives in time, in any order and any number of times, is delivered, and once.
\<close>

section \<open>What one frame does\<close>

















section \<open>All frames\<close>















end
