(* ===== verification/Obfuscation.thy ===== *)
theory Obfuscation
  imports Frames
begin

text \<open>
  The obfuscation layer between TLS and the session of a tunnel (\<open>internal/tunnel/obfuscation.go\<close>). \<open>obfsConn\<close> sends each write as one frame with a length in four bytes; a strategy encodes the data of
  a frame: random padding, a random delay, or the header of a TLS record.

  The interface \<open>Obfuscator\<close> is the contract \<open>obfuscation\<close>; what is proved of the connection in it holds for every strategy. Random numbers and random bytes are arguments. An index
  out of range, at which Go panics, is the error \<open>OutOfRange\<close>. The parameters of a configuration, JSON numbers, are given as the integers that the code converts them to; the product of a delay and a millisecond wraps around.
\<close>

section \<open>Strategies\<close>

datatype obfs_error = InvalidFrameLength | EmptyFrame | CarrierError frame_error | PayloadTooLarge | InvalidPadding | InvalidDelay | TruncatedFrame | InvalidRecord
  | EmptyPayload | UnsupportedStrategy | OutOfRange

datatype obfuscator = RandomPaddingObfs int int | TimingPerturbObfs int int | TLSTrafficMimicObfs

definition maxObfuscatedFrame :: int where "maxObfuscatedFrame = 1048576"
definition maxUint16Payload :: int where "maxUint16Payload = 65535"
definition maxTLSRecordPayload :: int where "maxTLSRecordPayload = 16384"

text \<open>The slice expression \<open>b[lo:hi]\<close>.\<close>

definition go_slice :: "nat \<Rightarrow> nat \<Rightarrow> bytes \<Rightarrow> obfs_error + bytes" where
  "go_slice lo hi b = (if lo \<le> hi \<and> hi \<le> length b then Inr (take (hi - lo) (drop lo b)) else Inl OutOfRange)"

text \<open>The number \<open>draw\<close> is what \<open>rand.Int\<close> returns, below the range that is asked for.\<close>

definition padding_write :: "int \<Rightarrow> int \<Rightarrow> nat \<Rightarrow> (nat \<Rightarrow> 8 word) \<Rightarrow> bytes \<Rightarrow> obfs_error + bytes" where
  "padding_write minPad maxPad draw noise p =
     (if int (length p) > maxUint16Payload then Inl PayloadTooLarge
      else let padRange = maxPad - minPad + 1 in
        if padRange \<le> 0 then Inl InvalidPadding
        else let padLen = minPad + int draw mod padRange in
          Inr (put_be 2 (int (length p)) @ p @ map noise [0..<nat padLen]))"

text \<open>In the upper bound of the slice, \<open>2 + dataLen\<close>, both are of 16 bits.\<close>

definition padding_read :: "bytes \<Rightarrow> obfs_error + bytes" where
  "padding_read f =
     (if length f < 2 then Inl TruncatedFrame
      else let dataLen = word_of_nat (get_be (take 2 f)) :: 16 word in
        if 2 + unat dataLen > length f then Inl InvalidFrameLength
        else go_slice 2 (unat (2 + dataLen)) f)"

definition timing_write :: "int \<Rightarrow> int \<Rightarrow> bytes \<Rightarrow> obfs_error + bytes" where
  "timing_write minDelay maxDelay p = (if maxDelay - minDelay \<le> 0 then Inl InvalidDelay else Inr p)"

definition mimic_write :: "bytes \<Rightarrow> obfs_error + bytes" where
  "mimic_write p =
     (if p = [] then Inl EmptyPayload
      else if int (length p) > maxTLSRecordPayload then Inl PayloadTooLarge
      else Inr (0x17 # put_be 2 0x0303 @ put_be 2 (int (length p)) @ p))"

definition mimic_read :: "bytes \<Rightarrow> obfs_error + bytes" where
  "mimic_read f =
     (if length f < 5 then Inl TruncatedFrame
      else if f ! 0 \<noteq> 0x17 then Inl InvalidRecord
      else let payloadLen = word_of_nat (get_be (take 2 (drop 3 f))) :: 16 word in
        if 5 + unat payloadLen > length f then Inl InvalidFrameLength
        else go_slice 5 (unat (5 + payloadLen)) f)"

definition ObfuscateWrite :: "obfuscator \<Rightarrow> nat \<times> (nat \<Rightarrow> 8 word) \<Rightarrow> bytes \<Rightarrow> obfs_error + bytes" where
  "ObfuscateWrite ob = (\<lambda>(draw, noise) p. case ob of RandomPaddingObfs minPad maxPad \<Rightarrow> padding_write minPad maxPad draw noise p
     | TimingPerturbObfs minDelay maxDelay \<Rightarrow> timing_write minDelay maxDelay p | TLSTrafficMimicObfs \<Rightarrow> mimic_write p)"

definition DeobfuscateRead :: "obfuscator \<Rightarrow> bytes \<Rightarrow> obfs_error + bytes" where
  "DeobfuscateRead ob f = (case ob of RandomPaddingObfs minPad maxPad \<Rightarrow> padding_read f | TimingPerturbObfs minDelay maxDelay \<Rightarrow> Inr f | TLSTrafficMimicObfs \<Rightarrow> mimic_read f)"

definition Overhead :: "obfuscator \<Rightarrow> int" where
  "Overhead ob = (case ob of RandomPaddingObfs minPad maxPad \<Rightarrow> 2 + maxPad | TimingPerturbObfs minDelay maxDelay \<Rightarrow> 0 | TLSTrafficMimicObfs \<Rightarrow> 5)"

record obfuscation_config =
  oc_Strategy :: string
  oc_min_pad :: "int option"
  oc_max_pad :: "int option"
  oc_min_delay_ms :: "int option"
  oc_max_delay_ms :: "int option"

definition param :: "int \<Rightarrow> int option \<Rightarrow> int" where
  "param d v = (case v of None \<Rightarrow> d | Some n \<Rightarrow> n)"

definition newObfuscator :: "obfuscation_config option \<Rightarrow> obfs_error + obfuscator option" where
  "newObfuscator co = (case co of None \<Rightarrow> Inr None | Some cfg \<Rightarrow>
     if oc_Strategy cfg = ''random-padding'' then
       let minPad = param 10 (oc_min_pad cfg); maxPad = param 255 (oc_max_pad cfg) in
       if minPad < 0 \<or> maxPad > 255 \<or> minPad > maxPad then Inl InvalidPadding else Inr (Some (RandomPaddingObfs minPad maxPad))
     else if oc_Strategy cfg = ''timing-perturb'' then
       let minDelay = i64 (param 1 (oc_min_delay_ms cfg) * 1000000); maxDelay = i64 (param 50 (oc_max_delay_ms cfg) * 1000000) in
       if minDelay < 0 \<or> maxDelay > 1000 * 1000000 \<or> minDelay > maxDelay then Inl InvalidDelay else Inr (Some (TimingPerturbObfs minDelay maxDelay))
     else if oc_Strategy cfg = ''tls-mimic'' then Inr (Some TLSTrafficMimicObfs)
     else if oc_Strategy cfg = ''none'' \<or> oc_Strategy cfg = '''' then Inr None
     else Inl UnsupportedStrategy)"

definition ValidateObfuscation :: "obfuscation_config option \<Rightarrow> obfs_error option" where
  "ValidateObfuscation co = (case newObfuscator co of Inl e \<Rightarrow> Some e | Inr ob \<Rightarrow> None)"

section \<open>The connection\<close>

record obfs_conn =
  ob_in :: bytes
  ob_readBuf :: bytes

definition obfs_Write :: "(bytes \<Rightarrow> obfs_error + bytes) \<Rightarrow> bytes \<Rightarrow> obfs_error + bytes" where
  "obfs_Write encode p = bindE (encode p) (\<lambda>f.
     if f = [] \<or> int (length f) > maxObfuscatedFrame then Inl InvalidFrameLength else Inr (be32 (word_of_nat (length f)) @ f))"

text \<open>The loop of \<open>Read\<close> runs at most once: a frame has data, or it is an error.\<close>

definition obfs_fill :: "(bytes \<Rightarrow> obfs_error + bytes) \<Rightarrow> obfs_conn \<Rightarrow> obfs_error option \<times> obfs_conn" where
  "obfs_fill decode c = (case ReadFull 4 (ob_in c) of
     (h, Some e, rest) \<Rightarrow> (Some (CarrierError e), c\<lparr>ob_in := rest\<rparr>)
   | (h, None, rest) \<Rightarrow> let n = uint (get32 h); c1 = c\<lparr>ob_in := rest\<rparr> in
       if n = 0 \<or> n > maxObfuscatedFrame then (Some InvalidFrameLength, c1)
       else case ReadFull n rest of
         (f, Some e, rest) \<Rightarrow> (Some (CarrierError e), c\<lparr>ob_in := rest\<rparr>)
       | (f, None, rest) \<Rightarrow> let c2 = c\<lparr>ob_in := rest\<rparr> in
           case decode f of Inl e \<Rightarrow> (Some e, c2)
           | Inr plain \<Rightarrow> if plain = [] then (Some EmptyFrame, c2) else (None, c2\<lparr>ob_readBuf := plain\<rparr>))"

definition obfs_Read :: "(bytes \<Rightarrow> obfs_error + bytes) \<Rightarrow> nat \<Rightarrow> obfs_conn \<Rightarrow> (obfs_error + bytes) \<times> obfs_conn" where
  "obfs_Read decode room c = (case (if ob_readBuf c = [] then obfs_fill decode c else (None, c)) of
     (Some e, c1) \<Rightarrow> (Inl e, c1)
   | (None, c1) \<Rightarrow> (Inr (take room (ob_readBuf c1)), c1\<lparr>ob_readBuf := drop room (ob_readBuf c1)\<rparr>))"

text \<open>Several writes, until one fails, and several reads.\<close>

fun obfs_Writes :: "('r \<Rightarrow> bytes \<Rightarrow> obfs_error + bytes) \<Rightarrow> ('r \<times> bytes) list \<Rightarrow> obfs_error + bytes" where
  "obfs_Writes encode [] = Inr []"
| "obfs_Writes encode ((r, p) # ps) = bindE (obfs_Write (encode r) p) (\<lambda>w. bindE (obfs_Writes encode ps) (\<lambda>ws. Inr (w @ ws)))"

fun obfs_Reads :: "(bytes \<Rightarrow> obfs_error + bytes) \<Rightarrow> nat list \<Rightarrow> obfs_conn \<Rightarrow> bytes \<times> obfs_error option" where
  "obfs_Reads decode [] c = ([], None)"
| "obfs_Reads decode (room # rooms) c = (case obfs_Read decode room c of
     (Inl e, c1) \<Rightarrow> ([], Some e)
   | (Inr b, c1) \<Rightarrow> let (bs, e) = obfs_Reads decode rooms c1 in (b @ bs, e))"

section \<open>The contract of a strategy\<close>

locale obfuscation =
  fixes encode :: "'r \<Rightarrow> bytes \<Rightarrow> obfs_error + bytes" and decode :: "bytes \<Rightarrow> obfs_error + bytes" and carries :: "bytes \<Rightarrow> bool"
  assumes carries_data: "carries p \<Longrightarrow> p \<noteq> []"
    and decode_encode: "carries p \<Longrightarrow> \<exists>f. encode r p = Inr f \<and> f \<noteq> [] \<and> int (length f) \<le> maxObfuscatedFrame \<and> decode f = Inr p"
begin

lemma write_read:
  assumes "carries p"
  shows "\<exists>w. obfs_Write (encode r) p = Inr w \<and> (\<forall>c rest. ob_in c = w @ rest \<longrightarrow> obfs_fill decode c = (None, c\<lparr>ob_in := rest, ob_readBuf := p\<rparr>))"
proof -
  obtain f where f: "encode r p = Inr f" "f \<noteq> []" "int (length f) \<le> maxObfuscatedFrame" "decode f = Inr p" using decode_encode [OF assms] by blast
  let ?h = "be32 (word_of_nat (length f))"
  have n: "uint (word_of_nat (length f) :: 32 word) = int (length f)"
    using f(3) by (simp add: maxObfuscatedFrame_def unsigned_of_nat take_bit_nat_eq_self)
  have "obfs_fill decode c = (None, c\<lparr>ob_in := rest, ob_readBuf := p\<rparr>)" if c: "ob_in c = (?h @ f) @ rest" for c rest
  proof -
    have h: "ReadFull 4 (ob_in c) = (?h, None, f @ rest)" using ReadFull_append [of ?h "f @ rest"] c by simp
    have "\<not> (int (length f) = 0 \<or> int (length f) > maxObfuscatedFrame)" using f(2,3) by simp
    then show ?thesis using f(4) carries_data [OF assms] ReadFull_append [of f rest] by (simp add: obfs_fill_def h n Let_def)
  qed
  moreover have "obfs_Write (encode r) p = Inr (?h @ f)" using f by (simp add: obfs_Write_def)
  ultimately show ?thesis by blast
qed

definition holds :: "obfs_conn \<Rightarrow> bytes \<Rightarrow> bool" where
  "holds c x \<longleftrightarrow> (\<exists>ps. list_all (\<lambda>(r, p). carries p) ps \<and> obfs_Writes encode ps = Inr (ob_in c) \<and> x = ob_readBuf c @ concat (map snd ps))"

lemma writes_ok: "list_all (\<lambda>(r, p). carries p) ps \<Longrightarrow> \<exists>w. obfs_Writes encode ps = Inr w"
proof (induction ps)
  case (Cons x ps)
  obtain r p where x: "x = (r, p)" by (cases x)
  then obtain w where "obfs_Write (encode r) p = Inr w" using write_read [of p r] Cons.prems by auto
  then show ?case using Cons x by auto
qed simp

lemma read_step:
  assumes "holds c x" "0 < room"
  shows "if x = [] then fst (obfs_Read decode room c) = Inl (CarrierError EndOfStream)
    else \<exists>b c1 y. obfs_Read decode room c = (Inr b, c1) \<and> b \<noteq> [] \<and> x = b @ y \<and> holds c1 y"
proof -
  obtain ps where ps: "list_all (\<lambda>(r, p). carries p) ps" "obfs_Writes encode ps = Inr (ob_in c)" "x = ob_readBuf c @ concat (map snd ps)"
    using assms(1) unfolding holds_def by blast
  show ?thesis
  proof (cases "ob_readBuf c = []")
    case False
    have "holds (c\<lparr>ob_readBuf := drop room (ob_readBuf c)\<rparr>) (drop room (ob_readBuf c) @ concat (map snd ps))" using ps unfolding holds_def by auto
    moreover have "x = take room (ob_readBuf c) @ drop room (ob_readBuf c) @ concat (map snd ps)" using ps(3) by simp
    moreover have "obfs_Read decode room c = (Inr (take room (ob_readBuf c)), c\<lparr>ob_readBuf := drop room (ob_readBuf c)\<rparr>)" using False by (simp add: obfs_Read_def)
    moreover have "take room (ob_readBuf c) \<noteq> []" "x \<noteq> []" using False assms(2) ps(3) by simp_all
    ultimately show ?thesis by auto
  next
    case buf: True
    show ?thesis
    proof (cases ps)
      case Nil
      then show ?thesis using ps buf by (simp add: obfs_Read_def obfs_fill_def ReadFull_def)
    next
      case (Cons q qs)
      obtain r p where q: "q = (r, p)" by (cases q)
      have p: "carries p" "list_all (\<lambda>(r, p). carries p) qs" using ps(1) Cons q by simp_all
      obtain ws where ws: "obfs_Writes encode qs = Inr ws" using writes_ok [OF p(2)] by blast
      obtain w where w: "obfs_Write (encode r) p = Inr w" "\<And>c rest. ob_in c = w @ rest \<Longrightarrow> obfs_fill decode c = (None, c\<lparr>ob_in := rest, ob_readBuf := p\<rparr>)"
        using write_read [OF p(1), of r] by blast
      have "ob_in c = w @ ws" using ps(2) Cons q w(1) ws by simp
      then have f: "obfs_fill decode c = (None, c\<lparr>ob_in := ws, ob_readBuf := p\<rparr>)" by (rule w(2))
      let ?c = "c\<lparr>ob_in := ws, ob_readBuf := drop room p\<rparr>"
      have "obfs_Read decode room c = (Inr (take room p), ?c)" using f buf by (simp add: obfs_Read_def)
      moreover have "holds ?c (drop room p @ concat (map snd qs))" unfolding holds_def using p(2) ws by auto
      moreover have "x = take room p @ drop room p @ concat (map snd qs)" using ps(3) buf Cons q by simp
      moreover have "take room p \<noteq> []" using carries_data [OF p(1)] assms(2) by simp
      ultimately show ?thesis by auto
    qed
  qed
qed

lemma reads_prefix:
  assumes "holds c x" "list_all (\<lambda>room. 0 < room) rooms"
  shows "\<exists>n e. obfs_Reads decode rooms c = (take n x, e)
    \<and> (if length x < length rooms then take n x = x \<and> e = Some (CarrierError EndOfStream) else e = None \<or> take n x = x \<and> e = Some (CarrierError EndOfStream))"
  using assms
proof (induction rooms arbitrary: c x)
  case Nil
  then show ?case by (auto intro: exI [of _ 0])
next
  case (Cons room rooms)
  note st = read_step [OF Cons.prems(1), of room]
  show ?case
  proof (cases "x = []")
    case True
    then obtain c1 where "obfs_Read decode room c = (Inl (CarrierError EndOfStream), c1)" using st Cons.prems(2) by (cases "obfs_Read decode room c") auto
    then show ?thesis using True by simp
  next
    case False
    then obtain b c1 y where r: "obfs_Read decode room c = (Inr b, c1)" "b \<noteq> []" "x = b @ y" "holds c1 y" using st Cons.prems(2) by auto
    obtain n e where n: "obfs_Reads decode rooms c1 = (take n y, e)"
      "if length y < length rooms then take n y = y \<and> e = Some (CarrierError EndOfStream) else e = None \<or> take n y = y \<and> e = Some (CarrierError EndOfStream)"
      using Cons.IH [OF r(4)] Cons.prems(2) by auto
    have t: "take (length b + n) x = b @ take n y" using r(3) by simp
    have "length y < length x" using r(2,3) by simp
    moreover have "length y < length rooms" if "length x < length (room # rooms)" using that calculation by simp
    ultimately have "if length x < length (room # rooms) then b @ take n y = x \<and> e = Some (CarrierError EndOfStream) else e = None \<or> b @ take n y = x \<and> e = Some (CarrierError EndOfStream)"
      using n(2) r(3) by (auto split: if_splits)
    then show ?thesis using r(1) n(1) t by (intro exI [of _ "length b + n"] exI [of _ e]) simp
  qed
qed

lemma stream:
  assumes "list_all (\<lambda>(r, p). carries p) ps" "list_all (\<lambda>room. 0 < room) rooms"
  shows "\<exists>sent n e. obfs_Writes encode ps = Inr sent \<and> obfs_Reads decode rooms \<lparr>ob_in = sent, ob_readBuf = []\<rparr> = (take n (concat (map snd ps)), e)
    \<and> (if length (concat (map snd ps)) < length rooms then take n (concat (map snd ps)) = concat (map snd ps) \<and> e = Some (CarrierError EndOfStream)
       else e = None \<or> take n (concat (map snd ps)) = concat (map snd ps) \<and> e = Some (CarrierError EndOfStream))"
proof -
  obtain sent where s: "obfs_Writes encode ps = Inr sent" using writes_ok [OF assms(1)] by blast
  have "holds \<lparr>ob_in = sent, ob_readBuf = []\<rparr> (concat (map snd ps))" unfolding holds_def using assms(1) s by auto
  from reads_prefix [OF this assms(2)] show ?thesis using s by blast
qed

end

end
