(* ===== verification/Obfuscation_Props.thy ===== *)
theory Obfuscation_Props
  imports Obfuscation
begin

text \<open>
  The strategies keep the contract of an obfuscator for payloads up to a length that differs from one to the other, and what happens beyond it.
\<close>

section \<open>The strategies\<close>

lemma unat_len16: "int n \<le> 65535 \<Longrightarrow> unat (word_of_nat n :: 16 word) = n"
  by (simp add: unsigned_of_nat take_bit_nat_eq_self)

lemma unat_add16: "unat (k + word_of_nat n :: 16 word) = (unat k + n) mod 65536" if "int n \<le> 65535" for k :: "16 word"
  using that by (simp add: unat_word_ariths unat_len16)

text \<open>What the reader makes of a padded payload: the sum \<open>2 + dataLen\<close> wraps around for the two longest.\<close>

lemma padding_read_of:
  assumes "int (length p) \<le> 65535"
  shows "padding_read (put_be 2 (int (length p)) @ p @ pad) = (if int (length p) \<le> 65533 then Inr p else Inl OutOfRange)"
proof -
  let ?f = "put_be 2 (int (length p)) @ p @ pad"
  have b: "get_be (put_be 2 (int (length p))) = length p" using assms by (simp add: get_put_be)
  have u: "unat (2 + word_of_nat (length p) :: 16 word) = (2 + length p) mod 65536" using unat_add16 [OF assms, of 2] by simp
  have r: "padding_read ?f = go_slice 2 ((2 + length p) mod 65536) ?f"
    using assms unat_len16 [OF assms] u by (simp add: padding_read_def b Let_def)
  show ?thesis
  proof (cases "int (length p) \<le> 65533")
    case True
    then have "(2 + length p) mod 65536 = 2 + length p" by simp
    then show ?thesis using True r by (simp add: go_slice_def)
  next
    case False
    then have "length p = 65534 \<or> length p = 65535" using assms by linarith
    then have "(2 + length p) mod 65536 < 2" by auto
    then show ?thesis using False r by (simp add: go_slice_def)
  qed
qed

lemma padding_write_of:
  assumes "0 \<le> lo" "lo \<le> hi" "int (length p) \<le> 65535"
  shows "\<exists>pad. padding_write lo hi draw noise p = Inr (put_be 2 (int (length p)) @ p @ pad) \<and> int (length pad) \<le> hi"
proof -
  let ?n = "lo + int draw mod (hi - lo + 1)"
  have "?n \<le> hi" using pos_mod_bound [of "hi - lo + 1" "int draw"] assms(1,2) by linarith
  moreover have "0 \<le> ?n" using pos_mod_sign [of "hi - lo + 1" "int draw"] assms(1,2) by simp
  ultimately have "int (length (map noise [0..<nat ?n])) \<le> hi" by simp
  moreover have "padding_write lo hi draw noise p = Inr (put_be 2 (int (length p)) @ p @ map noise [0..<nat ?n])"
    using assms by (simp add: padding_write_def maxUint16Payload_def Let_def)
  ultimately show ?thesis by blast
qed







section \<open>Properties\<close>



text \<open>One write of a session.\<close>

lemma Session_Write_one:
  assumes "p \<noteq> []" "int (length p) \<le> 65535"
  shows "Session_Write p = Inr (frame dataFrame p)" "length (frame dataFrame p) = 5 + length p"
proof -
  have "min (int (length p)) maxFrame = int (length p)" using assms(2) by (simp add: maxFrame_def)
  then show "Session_Write p = Inr (frame dataFrame p)"
    using assms writeFrame_frame [of p dataFrame] Session_Write.simps [of "[]"] by (subst Session_Write.simps) (simp add: fits_frame_def maxFrame_def)
  show "length (frame dataFrame p) = 5 + length p" by (simp add: frame_def)
qed

text \<open>C39: TLS mimicry cannot carry what a relay writes: a session puts up to 65535 bytes into one frame, and the relay reads blocks of up to 32 KiB, but every frame of a session with more than 16379 bytes of data is
  refused, which ends the connection.\<close>

theorem tls_mimic_refuses_relay_blocks:
  assumes "16379 < int (length p)" "int (length p) \<le> 65535"
  shows "\<exists>b. Session_Write p = Inr b \<and> obfs_Write (ObfuscateWrite TLSTrafficMimicObfs r) b = Inl PayloadTooLarge"
proof -
  have p: "p \<noteq> []" using assms(1) by auto
  note w = Session_Write_one [OF p assms(2)]
  have "obfs_Write (ObfuscateWrite TLSTrafficMimicObfs r) (frame dataFrame p) = Inl PayloadTooLarge"
    using w(2) assms(1) by (cases r) (auto simp: obfs_Write_def ObfuscateWrite_def mimic_write_def maxTLSRecordPayload_def)
  then show ?thesis using w(1) by blast
qed

lemma tls_mimic_refuses_relay_blocks_witness:
  "\<exists>b. Session_Write (replicate 32768 7) = Inr b \<and> obfs_Write (ObfuscateWrite TLSTrafficMimicObfs (0, \<lambda>i. 0)) b = Inl PayloadTooLarge"
  using tls_mimic_refuses_relay_blocks [of "replicate 32768 7"] by simp

text \<open>C40: With random padding, a frame whose length field is 65534 or 65535 makes the reader panic, because the upper bound of the slice is computed with 16 bits. Such a frame is sent when a session writes 65529 or
  65530 bytes at once: it is encoded and sent without an error, and reading it is an index out of range.\<close>

theorem padding_length_panics:
  assumes "int (length p) = 65529 \<or> int (length p) = 65530" "0 \<le> lo" "lo \<le> hi" "hi \<le> 255"
  shows "\<exists>b w. Session_Write p = Inr b \<and> obfs_Write (ObfuscateWrite (RandomPaddingObfs lo hi) r) b = Inr w
    \<and> fst (obfs_Read (DeobfuscateRead (RandomPaddingObfs lo' hi')) room \<lparr>ob_in = w, ob_readBuf = []\<rparr>) = Inl OutOfRange"
proof -
  have p: "p \<noteq> []" "int (length p) \<le> 65535" using assms(1) by auto
  define b where "b = frame dataFrame p"
  have b: "Session_Write p = Inr b" "int (length b) \<le> 65535" "\<not> int (length b) \<le> 65533" using Session_Write_one [OF p] assms(1) by (auto simp: b_def)
  obtain draw noise where r: "r = (draw, noise)" by (cases r)
  obtain pad where pad: "padding_write lo hi draw noise b = Inr (put_be 2 (int (length b)) @ b @ pad)" "int (length pad) \<le> hi"
    using padding_write_of [OF assms(2,3) b(2)] by blast
  define f where "f = put_be 2 (int (length b)) @ b @ pad"
  have f: "f \<noteq> []" "int (length f) \<le> maxObfuscatedFrame" "padding_read f = Inl OutOfRange"
    using b(2,3) pad(2) assms(4) padding_read_of [OF b(2), of pad] by (auto simp: f_def maxObfuscatedFrame_def)
  let ?h = "be32 (word_of_nat (length f))"
  have w: "obfs_Write (ObfuscateWrite (RandomPaddingObfs lo hi) r) b = Inr (?h @ f)" using pad(1) f(1,2) by (simp add: obfs_Write_def ObfuscateWrite_def r f_def [symmetric])
  have n: "uint (word_of_nat (length f) :: 32 word) = int (length f)" using f(2) by (simp add: maxObfuscatedFrame_def unsigned_of_nat take_bit_nat_eq_self)
  have "ReadFull 4 (?h @ f) = (?h, None, f)" using ReadFull_append [of ?h f] by simp
  moreover have "ReadFull (int (length f)) f = (f, None, [])" using ReadFull_append [of f "[]"] by simp
  ultimately have "fst (obfs_Read (DeobfuscateRead (RandomPaddingObfs lo' hi')) room \<lparr>ob_in = ?h @ f, ob_readBuf = []\<rparr>) = Inl OutOfRange"
    using f n by (simp add: obfs_Read_def obfs_fill_def Let_def DeobfuscateRead_def)
  then show ?thesis using b(1) w by blast
qed

lemma padding_length_panics_witness:
  "\<exists>b w. Session_Write (replicate 65530 7) = Inr b \<and> obfs_Write (ObfuscateWrite (RandomPaddingObfs 10 255) (3, \<lambda>i. 0)) b = Inr w
    \<and> fst (obfs_Read (DeobfuscateRead (RandomPaddingObfs 10 255)) 1024 \<lparr>ob_in = w, ob_readBuf = []\<rparr>) = Inl OutOfRange"
  using padding_length_panics [of "replicate 65530 7" 10 255] by simp

text \<open>A configuration with one fixed delay is accepted, and then no write succeeds.\<close>

lemma fixed_delay_never_writes:
  assumes "0 \<le> ms" "ms \<le> 1000"
  shows "\<exists>ob. newObfuscator (Some \<lparr>oc_Strategy = ''timing-perturb'', oc_min_pad = None, oc_max_pad = None, oc_min_delay_ms = Some ms, oc_max_delay_ms = Some ms\<rparr>) = Inr (Some ob)
    \<and> (\<forall>r p. obfs_Write (ObfuscateWrite ob r) p = Inl InvalidDelay)"
proof -
  let ?ob = "TimingPerturbObfs (ms * 1000000) (ms * 1000000)"
  have "obfs_Write (ObfuscateWrite ?ob r) p = Inl InvalidDelay" for r p by (cases r) (simp add: obfs_Write_def ObfuscateWrite_def timing_write_def)
  moreover have "newObfuscator (Some \<lparr>oc_Strategy = ''timing-perturb'', oc_min_pad = None, oc_max_pad = None, oc_min_delay_ms = Some ms, oc_max_delay_ms = Some ms\<rparr>) = Inr (Some ?ob)"
    using assms by (simp add: newObfuscator_def param_def Let_def int64_defs)
  ultimately show ?thesis by blast
qed

end
