(* ===== verification/Tasks.thy ===== *)
theory Tasks
  imports Go_Prelude
begin

text \<open>
  Background tasks of the panel (\<open>internal/platform/tasks.go\<close>): rules are exported and imported by workers, one transaction per item, with a claim that fences off workers that have lost their task.

  A payload and a result, JSON in the database, are values. The import of one rule (\<open>importInputTx\<close>), the columns of the rules with their tables, \<open>redact\<close> and the digest of a payload are
  functions of the environment; what the import changes is the type \<open>'w\<close>. A transaction that fails leaves the database as it was.
\<close>

section \<open>Data\<close>

record exportPayload =
  xp_RuleIDs :: "string list"
  xp_Admin :: bool

record 'r importPayload =
  ip_Mode :: string
  ip_Rules :: "'r list"
  ip_Admin :: bool

datatype 'r task_payload = ExportPayload exportPayload | ImportPayload "'r importPayload" | NoPayload

record 'r taskItem =
  ti_Index :: nat
  ti_Rule :: "'r option"
  ti_Error :: string

datatype 'r task_result = NoResult | ItemsResult "'r taskItem list" | ExportResult "'r list"

record 'r task_row =
  tk_id :: string
  tk_user :: string
  tk_kind :: string
  tk_status :: string
  tk_payload :: "'r task_payload"
  tk_hash :: string
  tk_result :: "'r task_result"
  tk_error :: string
  tk_created :: int
  tk_updated :: int
  tk_cancel :: bool
  tk_claim :: string
  tk_key :: string
  tk_admin :: bool

record task_user =
  tu_role :: string
  tu_disabled :: bool

record ('r, 'w) task_db =
  td_users :: "(string, task_user) gomap"
  td_tasks :: "'r task_row list"
  td_items :: "((string \<times> nat) \<times> 'r taskItem) list"
  td_world :: 'w

record 'r rule_row =
  rr_id :: string
  rr_user :: string
  rr_deleted :: bool
  rr_rule :: "'r option"

record ('r, 'w) task_env =
  te_import :: "string \<Rightarrow> bool \<Rightarrow> 'r \<Rightarrow> string \<Rightarrow> 'w \<Rightarrow> ('r \<times> 'w) option"
  te_rules :: "'w \<Rightarrow> 'r rule_row list"
  te_redact :: "'r \<Rightarrow> 'r"
  te_digest :: "'r task_payload \<Rightarrow> string"

datatype task_error = BadTask | TaskConflict | TaskNotFound | TaskRevoked | TaskCanceled | InvalidPayload | ExportTooLarge | UnreadableRule | TaskIO

definition active :: "'r task_row \<Rightarrow> bool" where
  "active t \<longleftrightarrow> tk_status t = ''pending'' \<or> tk_status t = ''running''"

section \<open>Requests\<close>

definition createTask :: "('r, 'w) task_env \<Rightarrow> int \<Rightarrow> string \<Rightarrow> string \<Rightarrow> string \<Rightarrow> string \<Rightarrow> string \<Rightarrow> 'r task_payload \<Rightarrow> ('r, 'w) task_db
    \<Rightarrow> (task_error + string \<times> string) \<times> ('r, 'w) task_db" where
  "createTask e now fresh actor role kind key payload d =
     (if length key < 1 \<or> length key > 128 then (Inl BadTask, d)
      else case map_of (td_users d) actor of None \<Rightarrow> (Inl TaskConflict, d)
      | Some u \<Rightarrow> if tu_disabled u then (Inl TaskConflict, d)
          else case find (\<lambda>t. tk_user t = actor \<and> tk_key t = key) (td_tasks d) of
            Some t \<Rightarrow> if tk_kind t \<noteq> kind \<or> tk_hash t \<noteq> te_digest e payload then (Inl TaskConflict, d) else (Inr (tk_id t, tk_status t), d)
          | None \<Rightarrow> if length (filter (\<lambda>t. tk_user t = actor \<and> active t) (td_tasks d)) \<ge> 10 then (Inl TaskConflict, d)
              else if fresh \<in> tk_id ` set (td_tasks d) then (Inl TaskConflict, d)
              else (Inr (fresh, ''pending''), d\<lparr>td_tasks := td_tasks d @ [\<lparr>tk_id = fresh, tk_user = actor, tk_kind = kind, tk_status = ''pending'', tk_payload = payload, tk_hash = te_digest e payload,
                tk_result = NoResult, tk_error = '''', tk_created = now, tk_updated = now, tk_cancel = False, tk_claim = '''', tk_key = key, tk_admin = (role = ''admin'')\<rparr>]\<rparr>))"

definition createExportTask :: "('r, 'w) task_env \<Rightarrow> int \<Rightarrow> string \<Rightarrow> string \<Rightarrow> string \<Rightarrow> string \<Rightarrow> string list \<Rightarrow> ('r, 'w) task_db \<Rightarrow> (task_error + string \<times> string) \<times> ('r, 'w) task_db" where
  "createExportTask e now fresh actor role key ids d =
     (if length ids > 500 then (Inl BadTask, d)
      else createTask e now fresh actor role ''rules.export'' key (ExportPayload \<lparr>xp_RuleIDs = ids, xp_Admin = (role = ''admin'')\<rparr>) d)"

definition validImportMode :: "string \<Rightarrow> bool" where
  "validImportMode mode \<longleftrightarrow> mode = '''' \<or> mode = ''create'' \<or> mode = ''update_by_port''"

text \<open>\<open>sz\<close> is the length of the payload as JSON.\<close>

definition createImportTask :: "('r, 'w) task_env \<Rightarrow> int \<Rightarrow> string \<Rightarrow> string \<Rightarrow> string \<Rightarrow> string \<Rightarrow> string \<Rightarrow> 'r list \<Rightarrow> int \<Rightarrow> ('r, 'w) task_db \<Rightarrow> (task_error + string \<times> string) \<times> ('r, 'w) task_db" where
  "createImportTask e now fresh actor role key mode rules sz d =
     (if length rules < 1 \<or> length rules > 1000 \<or> \<not> validImportMode mode then (Inl BadTask, d)
      else if sz > 1048576 then (Inl BadTask, d)
      else createTask e now fresh actor role ''rules.import'' key (ImportPayload \<lparr>ip_Mode = mode, ip_Rules = rules, ip_Admin = (role = ''admin'')\<rparr>) d)"

definition row_of :: "('r, 'w) task_db \<Rightarrow> string \<Rightarrow> 'r task_row option" where
  "row_of d tid = find (\<lambda>t. tk_id t = tid) (td_tasks d)"

definition importResult :: "('r, 'w) task_db \<Rightarrow> string \<Rightarrow> 'r taskItem list \<times> bool" where
  "importResult d tid = (let items = map snd (sort_key (\<lambda>((t, i), x). i) (filter (\<lambda>((t, i), x). t = tid) (td_items d))) in
     (items, \<exists>x\<in>set items. ti_Error x \<noteq> ''''))"

definition task_view :: "string \<Rightarrow> string \<Rightarrow> string \<Rightarrow> ('r, 'w) task_db \<Rightarrow> task_error + 'r task_row" where
  "task_view actor role tid d = (case row_of d tid of None \<Rightarrow> Inl TaskNotFound
   | Some t \<Rightarrow> if role \<noteq> ''admin'' \<and> (tk_user t \<noteq> actor \<or> tk_admin t) then Inl TaskNotFound
       else if tk_kind t = ''rules.import'' \<and> (tk_status t = ''running'' \<or> tk_result t = NoResult) then Inr (t\<lparr>tk_result := ItemsResult (fst (importResult d tid))\<rparr>)
       else Inr t)"

definition tasks_view :: "string \<Rightarrow> string \<Rightarrow> ('r, 'w) task_db \<Rightarrow> (string \<times> string \<times> string) list" where
  "tasks_view actor role d = map (\<lambda>t. (tk_id t, tk_kind t, tk_status t))
     (take 100 (rev (sort_key tk_created (sort_key tk_id (filter (\<lambda>t. tk_user t = actor \<and> (\<not> tk_admin t \<or> role = ''admin'')) (td_tasks d))))))"

text \<open>An \<open>UPDATE\<close> of the tasks that meet a condition; its count of rows.\<close>

definition update_tasks :: "('r task_row \<Rightarrow> bool) \<Rightarrow> ('r task_row \<Rightarrow> 'r task_row) \<Rightarrow> ('r, 'w) task_db \<Rightarrow> ('r, 'w) task_db" where
  "update_tasks c f d = d\<lparr>td_tasks := map (\<lambda>t. if c t then f t else t) (td_tasks d)\<rparr>"

definition count_tasks :: "('r task_row \<Rightarrow> bool) \<Rightarrow> ('r, 'w) task_db \<Rightarrow> nat" where
  "count_tasks c d = length (filter c (td_tasks d))"

definition cancelTask :: "string \<Rightarrow> string \<Rightarrow> string \<Rightarrow> ('r, 'w) task_db \<Rightarrow> task_error option \<times> ('r, 'w) task_db" where
  "cancelTask actor role tid d = (let c = (\<lambda>t. tk_id t = tid \<and> (tk_user t = actor \<or> role = ''admin'') \<and> active t) in
     if count_tasks c d \<noteq> 1 then (Some TaskNotFound, d) else (None, update_tasks c (\<lambda>t. t\<lparr>tk_cancel := True\<rparr>) d))"

section \<open>Workers\<close>

definition taskGuard :: "('r, 'w) task_db \<Rightarrow> string \<Rightarrow> string \<Rightarrow> string \<Rightarrow> bool \<Rightarrow> task_error option" where
  "taskGuard d tid claim owner requiresAdmin = (case map_of (td_users d) owner of None \<Rightarrow> Some TaskNotFound
   | Some u \<Rightarrow> if tu_disabled u \<or> requiresAdmin \<and> tu_role u \<noteq> ''admin'' then Some TaskRevoked
       else case row_of d tid of None \<Rightarrow> Some TaskNotFound
       | Some t \<Rightarrow> if tk_status t \<noteq> ''running'' then Some TaskNotFound
           else if tk_claim t \<noteq> claim then Some TaskConflict
           else if tk_cancel t then Some TaskCanceled else None)"

definition rejected :: string where
  "rejected = ''rule rejected; check permissions, policy, entitlement and port availability''"

definition item_of :: "('r, 'w) task_env \<Rightarrow> nat \<Rightarrow> ('r \<times> 'w) option \<Rightarrow> 'r taskItem" where
  "item_of e i out = (case out of None \<Rightarrow> \<lparr>ti_Index = i, ti_Rule = None, ti_Error = rejected\<rparr> | Some (r, w) \<Rightarrow> \<lparr>ti_Index = i, ti_Rule = Some (te_redact e r), ti_Error = ''''\<rparr>)"

text \<open>The transaction of one item.\<close>

definition import_item :: "('r, 'w) task_env \<Rightarrow> int \<Rightarrow> string \<Rightarrow> string \<Rightarrow> string \<Rightarrow> bool \<Rightarrow> 'r importPayload \<Rightarrow> nat \<Rightarrow> ('r, 'w) task_db \<Rightarrow> task_error option \<times> ('r, 'w) task_db" where
  "import_item e now tid claim owner admin p i d = (case taskGuard d tid claim owner admin of Some er \<Rightarrow> (Some er, d)
   | None \<Rightarrow> if (tid, i) \<in> fst ` set (td_items d) then (None, d)
       else let out = te_import e owner (ip_Admin p) (ip_Rules p ! i) (ip_Mode p) (td_world d);
              d1 = d\<lparr>td_world := (case out of None \<Rightarrow> td_world d | Some (r, w) \<Rightarrow> w), td_items := td_items d @ [((tid, i), item_of e i out)]\<rparr>
            in (None, update_tasks (\<lambda>t. tk_id t = tid \<and> tk_claim t = claim) (\<lambda>t. t\<lparr>tk_updated := now\<rparr>) d1))"

definition finishTask :: "int \<Rightarrow> string \<Rightarrow> string \<Rightarrow> string \<Rightarrow> 'r task_result \<Rightarrow> string \<Rightarrow> ('r, 'w) task_db \<Rightarrow> task_error option \<times> ('r, 'w) task_db" where
  "finishTask now tid claim status result message d = (case row_of d tid of None \<Rightarrow> (Some TaskNotFound, d)
   | Some t \<Rightarrow> if tk_status t \<noteq> ''running'' then (Some TaskNotFound, d)
       else if tk_claim t \<noteq> claim then (Some TaskConflict, d)
       else let res = (if tk_cancel t \<and> tk_kind t = ''rules.export'' then NoResult else result); st = (if tk_cancel t then ''canceled'' else status) in
         (None, update_tasks (\<lambda>t. tk_id t = tid \<and> tk_claim t = claim) (\<lambda>t. t\<lparr>tk_status := st, tk_result := res, tk_error := message, tk_payload := NoPayload, tk_updated := now\<rparr>) d))"

definition export_rows :: "('r, 'w) task_env \<Rightarrow> exportPayload \<Rightarrow> string \<Rightarrow> 'w \<Rightarrow> 'r rule_row list" where
  "export_rows e p owner w = take 10001 (sort_key rr_id (filter (\<lambda>r. \<not> rr_deleted r \<and> (xp_Admin p \<or> rr_user r = owner) \<and> (xp_RuleIDs p = [] \<or> rr_id r \<in> set (xp_RuleIDs p))) (te_rules e w)))"

definition export_rules :: "('r, 'w) task_env \<Rightarrow> string \<Rightarrow> string \<Rightarrow> string \<Rightarrow> bool \<Rightarrow> exportPayload \<Rightarrow> ('r, 'w) task_db \<Rightarrow> task_error + 'r list" where
  "export_rules e tid claim owner admin p d = (case taskGuard d tid claim owner admin of Some er \<Rightarrow> Inl er
   | None \<Rightarrow> let rows = export_rows e p owner (td_world d) in
       if \<exists>r\<in>set rows. rr_rule r = None then Inl UnreadableRule
       else if length rows > 10000 then Inl ExportTooLarge
       else Inr (map (te_redact e \<circ> the \<circ> rr_rule) rows))"

text \<open>
  Where a worker is: in \<open>runTask\<close>, in the loop of \<open>runImportTask\<close>, in the transaction of an export, before \<open>finishTask\<close>, and, after an error, before the last \<open>finishTask\<close> of \<open>RunTasks\<close>. A step of a
  worker is one transaction or query. It can fail (\<open>Lost\<close>), or be done and yet be reported as failed (\<open>Unreported\<close>).
\<close>

datatype 'r phase = Begin | Importing string bool "'r importPayload" nat | Exporting string bool exportPayload | Finishing string "'r task_result" string | Failed task_error | Closing string "'r task_result" string

record 'r worker =
  wk_task :: string
  wk_claim :: string
  wk_phase :: "'r phase"

datatype fault = Sound | Lost | Unreported

definition begin_task :: "string \<Rightarrow> string \<Rightarrow> ('r, 'w) task_db \<Rightarrow> 'r phase" where
  "begin_task tid claim d = (case find (\<lambda>t. tk_id t = tid \<and> tk_claim t = claim) (td_tasks d) of None \<Rightarrow> Failed TaskNotFound
   | Some t \<Rightarrow> if tk_kind t = ''rules.import'' then (case tk_payload t of ImportPayload p \<Rightarrow> Importing (tk_user t) (tk_admin t) p 0 | _ \<Rightarrow> Failed InvalidPayload)
       else if tk_kind t \<noteq> ''rules.export'' then Finishing ''failed'' NoResult ''unsupported task''
       else (case tk_payload t of ExportPayload p \<Rightarrow> Exporting (tk_user t) (tk_admin t) p | _ \<Rightarrow> Failed InvalidPayload))"

definition settle :: "fault \<Rightarrow> 'r phase \<Rightarrow> task_error option \<times> ('r, 'w) task_db \<Rightarrow> ('r, 'w) task_db \<Rightarrow> 'r phase \<times> ('r, 'w) task_db" where
  "settle f next r d = (case f of Lost \<Rightarrow> (Failed TaskIO, d) | Unreported \<Rightarrow> (Failed TaskIO, snd r) | Sound \<Rightarrow> (case fst r of None \<Rightarrow> (next, snd r) | Some er \<Rightarrow> (Failed er, snd r)))"

definition import_done :: "'r taskItem list \<times> bool \<Rightarrow> 'r phase" where
  "import_done r = Finishing (if snd r then ''completed_with_errors'' else ''completed'') (ItemsResult (fst r)) ''''"

definition failure_message :: string where
  "failure_message = ''task failed; check resource access and configuration''"

definition worker_step :: "('r, 'w) task_env \<Rightarrow> int \<Rightarrow> fault \<Rightarrow> 'r worker \<Rightarrow> ('r, 'w) task_db \<Rightarrow> 'r phase option \<times> ('r, 'w) task_db" where
  "worker_step e now f w d = (let tid = wk_task w; claim = wk_claim w in case wk_phase w of
     Begin \<Rightarrow> (Some (if f = Sound then begin_task tid claim d else Failed TaskIO), d)
   | Importing owner admin p i \<Rightarrow>
       if i < length (ip_Rules p) then map_prod Some id (settle f (Importing owner admin p (Suc i)) (import_item e now tid claim owner admin p i d) d)
       else (Some (if f = Sound then import_done (importResult d tid) else Failed TaskIO), d)
   | Exporting owner admin p \<Rightarrow> (Some (if f = Sound then case export_rules e tid claim owner admin p d of Inl er \<Rightarrow> Failed er | Inr rs \<Rightarrow> Finishing ''completed'' (ExportResult rs) '''' else Failed TaskIO), d)
   | Finishing status result message \<Rightarrow>
       (case f of Lost \<Rightarrow> (Some (Failed TaskIO), d) | Unreported \<Rightarrow> (Some (Failed TaskIO), snd (finishTask now tid claim status result message d))
        | Sound \<Rightarrow> (case finishTask now tid claim status result message d of (None, d1) \<Rightarrow> (None, d1) | (Some er, d1) \<Rightarrow> (Some (Failed er), d1)))
   | Failed er \<Rightarrow> (if f = Sound then Some (Closing (if er = TaskCanceled then ''canceled'' else ''failed'') (ItemsResult (fst (importResult d tid))) (if er = TaskCanceled then '''' else failure_message)) else None, d)
   | Closing status result message \<Rightarrow> (None, if f = Lost then d else snd (finishTask now tid claim status result message d)))"

text \<open>The transactions of \<open>RunTasks\<close> before a worker starts, and of \<open>PruneTaskResults\<close>.\<close>

definition requeue :: "int \<Rightarrow> ('r, 'w) task_db \<Rightarrow> ('r, 'w) task_db" where
  "requeue now = update_tasks (\<lambda>t. tk_status t = ''running'' \<and> tk_updated t < now - 300) (\<lambda>t. t\<lparr>tk_status := ''pending'', tk_claim := ''''\<rparr>)"

definition pending_ids :: "int \<Rightarrow> ('r, 'w) task_db \<Rightarrow> string list" where
  "pending_ids limit d = (let n = (if limit \<le> 0 \<or> limit > 50 then 10 else limit) in
     take (nat n) (map tk_id (sort_key tk_created (sort_key tk_id (filter (\<lambda>t. tk_status t = ''pending'') (td_tasks d))))))"

definition claim_task :: "int \<Rightarrow> string \<Rightarrow> string \<Rightarrow> ('r, 'w) task_db \<Rightarrow> bool \<times> ('r, 'w) task_db" where
  "claim_task now claim tid d = (let c = (\<lambda>t. tk_id t = tid \<and> tk_status t = ''pending'') in
     (count_tasks c d = 1, update_tasks c (\<lambda>t. t\<lparr>tk_status := ''running'', tk_claim := claim, tk_updated := now\<rparr>) d))"

definition prunable_tasks :: "int \<Rightarrow> ('r, 'w) task_db \<Rightarrow> string list" where
  "prunable_tasks now d = take 100 (map tk_id (sort_key tk_updated (sort_key tk_id (filter (\<lambda>t. \<not> active t \<and> tk_result t \<noteq> NoResult \<and> tk_updated t < now - 604800) (td_tasks d)))))"

fun prune_tasks :: "string list \<Rightarrow> ('r, 'w) task_db \<Rightarrow> ('r, 'w) task_db" where
  "prune_tasks [] d = d"
| "prune_tasks (tid # ids) d = prune_tasks ids (update_tasks (\<lambda>t. tk_id t = tid) (\<lambda>t. t\<lparr>tk_result := NoResult\<rparr>) (d\<lparr>td_items := filter (\<lambda>((t, i), x). t \<noteq> tid) (td_items d)\<rparr>))"

section \<open>The machine\<close>

text \<open>
  Requests, workers of any number of processes, pruning and edits of everything else, in any order. \<open>tm_claims\<close> are the claim tokens drawn so far (\<open>id()\<close> draws 128 random bits and does not repeat);
  \<open>tm_log\<close> records the items that were imported.
\<close>

record ('r, 'w) task_machine =
  tm_db :: "('r, 'w) task_db"
  tm_workers :: "'r worker list"
  tm_claims :: "string set"
  tm_prunes :: "string list list"
  tm_log :: "(string \<times> nat) list"

definition advance :: "nat \<Rightarrow> 'r phase option \<Rightarrow> 'r worker list \<Rightarrow> 'r worker list" where
  "advance k ph ws = (case ph of None \<Rightarrow> take k ws @ drop (Suc k) ws | Some p \<Rightarrow> ws[k := (ws ! k)\<lparr>wk_phase := p\<rparr>])"

definition new_items :: "('r, 'w) task_db \<Rightarrow> ('r, 'w) task_db \<Rightarrow> (string \<times> nat) list" where
  "new_items d d1 = map fst (drop (length (td_items d)) (td_items d1))"

inductive task_step :: "('r, 'w) task_env \<Rightarrow> ('r, 'w) task_machine \<Rightarrow> ('r, 'w) task_machine \<Rightarrow> bool" for e where
  create_export: "createExportTask e now fresh actor role key ids (tm_db s) = (r, d) \<Longrightarrow> task_step e s (s\<lparr>tm_db := d\<rparr>)"
| create_import: "createImportTask e now fresh actor role key mode rules sz (tm_db s) = (r, d) \<Longrightarrow> task_step e s (s\<lparr>tm_db := d\<rparr>)"
| cancel: "cancelTask actor role tid (tm_db s) = (r, d) \<Longrightarrow> task_step e s (s\<lparr>tm_db := d\<rparr>)"
| requeue: "task_step e s (s\<lparr>tm_db := requeue now (tm_db s)\<rparr>)"
| claim: "c \<notin> tm_claims s \<Longrightarrow> c \<noteq> '''' \<Longrightarrow> claim_task now c tid (tm_db s) = (claimed, d)
    \<Longrightarrow> task_step e s (s\<lparr>tm_db := d, tm_claims := insert c (tm_claims s), tm_workers := tm_workers s @ (if claimed then [\<lparr>wk_task = tid, wk_claim = c, wk_phase = Begin\<rparr>] else [])\<rparr>)"
| work: "k < length (tm_workers s) \<Longrightarrow> worker_step e now f (tm_workers s ! k) (tm_db s) = (ph, d)
    \<Longrightarrow> task_step e s (s\<lparr>tm_db := d, tm_workers := advance k ph (tm_workers s), tm_log := tm_log s @ new_items (tm_db s) d\<rparr>)"
| crash: "k < length (tm_workers s) \<Longrightarrow> task_step e s (s\<lparr>tm_workers := advance k None (tm_workers s)\<rparr>)"
| select_old: "task_step e s (s\<lparr>tm_prunes := prunable_tasks now (tm_db s) # tm_prunes s\<rparr>)"
| prune: "ids \<in> set (tm_prunes s) \<Longrightarrow> task_step e s (s\<lparr>tm_db := prune_tasks ids (tm_db s)\<rparr>)"
| edit: "task_step e s (s\<lparr>tm_db := (tm_db s)\<lparr>td_users := us, td_world := w\<rparr>\<rparr>)"

definition task_init :: "(string, task_user) gomap \<Rightarrow> 'w \<Rightarrow> ('r, 'w) task_machine" where
  "task_init us w = \<lparr>tm_db = \<lparr>td_users = us, td_tasks = [], td_items = [], td_world = w\<rparr>, tm_workers = [], tm_claims = {}, tm_prunes = [], tm_log = []\<rparr>"

text \<open>A history, the last state first.\<close>

inductive task_run :: "('r, 'w) task_env \<Rightarrow> ('r, 'w) task_machine list \<Rightarrow> bool" for e where
  start: "task_run e [task_init us w]"
| more: "task_run e (s # h) \<Longrightarrow> task_step e s s' \<Longrightarrow> task_run e (s' # s # h)"

end
