(* ===== verification/Tasks_Inv.thy ===== *)
theory Tasks_Inv
  imports Tasks
begin

text \<open>
  The invariant of the task machine: tasks have distinct identifiers, a claim belongs to one worker and one task, what a worker remembers agrees with the database as long as it holds the claim, and the
  items of a task are only deleted when it is finished.
\<close>

section \<open>The invariant\<close>

definition items_of :: "('r, 'w) task_db \<Rightarrow> string \<Rightarrow> ((string \<times> nat) \<times> 'r taskItem) list" where
  "items_of d tid = filter (\<lambda>((t, i), x). t = tid) (td_items d)"

definition task_core :: "'r task_row \<Rightarrow> string \<times> string \<times> 'r task_payload \<times> bool" where
  "task_core t = (tk_user t, tk_kind t, tk_payload t, tk_admin t)"

definition exported :: "('r, 'w) task_env \<Rightarrow> 'w set \<Rightarrow> string \<Rightarrow> bool \<Rightarrow> 'r list \<Rightarrow> bool" where
  "exported e W owner admin rs \<longleftrightarrow> (\<exists>w\<in>W. \<forall>r\<in>set rs. \<exists>row\<in>set (te_rules e w). \<exists>r0. \<not> rr_deleted row \<and> (admin \<or> rr_user row = owner) \<and> rr_rule row = Some r0 \<and> r = te_redact e r0)"

definition payload_fits :: "'r task_row \<Rightarrow> bool" where
  "payload_fits t \<longleftrightarrow> (\<exists>p. tk_kind t = ''rules.import'' \<and> tk_payload t = ImportPayload p \<and> ip_Admin p = tk_admin t) \<or> (\<exists>p. tk_kind t = ''rules.export'' \<and> tk_payload t = ExportPayload p \<and> xp_Admin p = tk_admin t)"

definition row_ok :: "('r, 'w) task_env \<Rightarrow> 'w set \<Rightarrow> string set \<Rightarrow> 'r task_row \<Rightarrow> bool" where
  "row_ok e W C t \<longleftrightarrow> (tk_status t = ''running'' \<longrightarrow> tk_claim t \<noteq> '''') \<and> (tk_status t = ''pending'' \<longrightarrow> tk_claim t = '''') \<and> (tk_claim t \<noteq> '''' \<longrightarrow> tk_claim t \<in> C) \<and> (active t \<longrightarrow> payload_fits t)
    \<and> (\<forall>rs. tk_result t = ExportResult rs \<longrightarrow> exported e W (tk_user t) (tk_admin t) rs)"

definition items_complete :: "((string \<times> nat) \<times> 'r taskItem) list \<Rightarrow> 'r importPayload \<Rightarrow> nat \<Rightarrow> bool" where
  "items_complete its p n \<longleftrightarrow> n \<le> length (ip_Rules p) \<and> (\<forall>j<n. j \<in> (snd \<circ> fst) ` set its)"

definition success :: "string \<Rightarrow> bool" where
  "success st \<longleftrightarrow> st = ''completed'' \<or> st = ''completed_with_errors''"

definition result_list :: "((string \<times> nat) \<times> 'r taskItem) list \<Rightarrow> 'r taskItem list" where
  "result_list its = map snd (sort_key (\<lambda>((t, i), x). i) its)"

definition finish_ok :: "('r, 'w) task_env \<Rightarrow> 'w set \<Rightarrow> ((string \<times> nat) \<times> 'r taskItem) list \<Rightarrow> 'r task_row \<Rightarrow> string \<Rightarrow> 'r task_result \<Rightarrow> bool" where
  "finish_ok e W its t st res \<longleftrightarrow> \<not> active (t\<lparr>tk_status := st\<rparr>) \<and> (\<forall>rs. res = ExportResult rs \<longrightarrow> exported e W (tk_user t) (tk_admin t) rs)
    \<and> (tk_kind t = ''rules.import'' \<and> success st \<longrightarrow> (\<exists>p. tk_payload t = ImportPayload p \<and> items_complete its p (length (ip_Rules p)) \<and> res = ItemsResult (result_list its)
        \<and> (st = ''completed'' \<longleftrightarrow> (\<forall>x\<in>set (result_list its). ti_Error x = ''''))))"

definition phase_ok :: "('r, 'w) task_env \<Rightarrow> 'w set \<Rightarrow> ((string \<times> nat) \<times> 'r taskItem) list \<Rightarrow> 'r task_row \<Rightarrow> 'r phase \<Rightarrow> bool" where
  "phase_ok e W its t ph = (case ph of Begin \<Rightarrow> True | Failed er \<Rightarrow> True
   | Importing owner admin p i \<Rightarrow> tk_kind t = ''rules.import'' \<and> tk_payload t = ImportPayload p \<and> owner = tk_user t \<and> admin = tk_admin t \<and> items_complete its p i
   | Exporting owner admin p \<Rightarrow> tk_kind t = ''rules.export'' \<and> tk_payload t = ExportPayload p \<and> owner = tk_user t \<and> admin = tk_admin t
   | Finishing st res msg \<Rightarrow> finish_ok e W its t st res
   | Closing st res msg \<Rightarrow> finish_ok e W its t st res)"

definition worker_ok :: "('r, 'w) task_env \<Rightarrow> 'w set \<Rightarrow> ('r, 'w) task_db \<Rightarrow> 'r worker \<Rightarrow> bool" where
  "worker_ok e W d w \<longleftrightarrow> wk_claim w \<noteq> ''''
    \<and> (\<forall>t\<in>set (td_tasks d). tk_claim t = wk_claim w \<longrightarrow> tk_id t = wk_task w \<and> (tk_status t = ''running'' \<longrightarrow> phase_ok e W (items_of d (tk_id t)) t (wk_phase w)))"

definition item_ok :: "('r, 'w) task_db \<Rightarrow> (string \<times> nat) \<times> 'r taskItem \<Rightarrow> bool" where
  "item_ok d = (\<lambda>((tid, i), x). ti_Index x = i \<and> (\<exists>t\<in>set (td_tasks d). tk_id t = tid \<and> (active t \<longrightarrow> (\<exists>p. tk_payload t = ImportPayload p \<and> i < length (ip_Rules p)))))"

definition settled :: "('r, 'w) task_db \<Rightarrow> string \<Rightarrow> bool" where
  "settled d tid \<longleftrightarrow> (\<exists>t\<in>set (td_tasks d). tk_id t = tid \<and> \<not> active t)"

definition db_ok :: "('r, 'w) task_env \<Rightarrow> 'w set \<Rightarrow> string set \<Rightarrow> ('r, 'w) task_db \<Rightarrow> bool" where
  "db_ok e W C d \<longleftrightarrow> distinct (map tk_id (td_tasks d)) \<and> (\<forall>t\<in>set (td_tasks d). row_ok e W C t) \<and> distinct (map fst (td_items d)) \<and> (\<forall>x\<in>set (td_items d). item_ok d x)"

definition task_inv :: "('r, 'w) task_env \<Rightarrow> 'w set \<Rightarrow> ('r, 'w) task_machine \<Rightarrow> bool" where
  "task_inv e W s \<longleftrightarrow> db_ok e W (tm_claims s) (tm_db s)
    \<and> distinct (map wk_claim (tm_workers s)) \<and> (\<forall>w\<in>set (tm_workers s). wk_claim w \<in> tm_claims s \<and> worker_ok e W (tm_db s) w)
    \<and> (\<forall>ids\<in>set (tm_prunes s). \<forall>tid\<in>set ids. settled (tm_db s) tid)
    \<and> distinct (tm_log s) \<and> fst ` set (td_items (tm_db s)) \<subseteq> set (tm_log s) \<and> (\<forall>tid i. (tid, i) \<in> set (tm_log s) \<longrightarrow> (tid, i) \<in> fst ` set (td_items (tm_db s)) \<or> settled (tm_db s) tid)"

section \<open>Tables\<close>

lemma update_tasks_simps [simp]:
  "td_tasks (update_tasks c f d) = map (\<lambda>t. if c t then f t else t) (td_tasks d)" "td_items (update_tasks c f d) = td_items d" "td_users (update_tasks c f d) = td_users d" "td_world (update_tasks c f d) = td_world d"
  by (simp_all add: update_tasks_def)

lemma row_of_Some: "row_of d tid = Some t \<Longrightarrow> t \<in> set (td_tasks d) \<and> tk_id t = tid"
  by (auto simp: row_of_def find_Some_iff)

lemma row_unique: "distinct (map tk_id ts) \<Longrightarrow> t \<in> set ts \<Longrightarrow> u \<in> set ts \<Longrightarrow> tk_id t = tk_id u \<Longrightarrow> t = u"
  by (metis distinct_map inj_onD)

lemma row_of_mem: "distinct (map tk_id (td_tasks d)) \<Longrightarrow> t \<in> set (td_tasks d) \<Longrightarrow> row_of d (tk_id t) = Some t"
proof -
  assume a: "distinct (map tk_id (td_tasks d))" "t \<in> set (td_tasks d)"
  then obtain u where u: "row_of d (tk_id t) = Some u" unfolding row_of_def by (cases "find (\<lambda>u. tk_id u = tk_id t) (td_tasks d)") (auto simp: find_None_iff)
  then show ?thesis using row_of_Some [OF u] row_unique [OF a(1) _ a(2)] by auto
qed

lemma exported_mono: "exported e W o' a rs \<Longrightarrow> W \<subseteq> V \<Longrightarrow> exported e V o' a rs"
  unfolding exported_def by blast

lemma importResult_items: "importResult d tid = (result_list (items_of d tid), \<exists>x\<in>set (result_list (items_of d tid)). ti_Error x \<noteq> '''')"
  by (simp add: importResult_def result_list_def items_of_def Let_def)

lemma finish_ok_mono: "finish_ok e W its t st res \<Longrightarrow> W \<subseteq> V \<Longrightarrow> finish_ok e V its t st res"
  unfolding finish_ok_def using exported_mono [of e W] by blast

lemma phase_ok_mono: "phase_ok e W its t ph \<Longrightarrow> W \<subseteq> V \<Longrightarrow> phase_ok e V its t ph"
  by (cases ph) (simp_all add: phase_ok_def finish_ok_mono)

lemma worker_ok_mono: "worker_ok e W d w \<Longrightarrow> W \<subseteq> V \<Longrightarrow> worker_ok e V d w"
  unfolding worker_ok_def using phase_ok_mono by blast

lemma row_ok_mono: "row_ok e W C t \<Longrightarrow> W \<subseteq> V \<Longrightarrow> C \<subseteq> D \<Longrightarrow> row_ok e V D t"
  unfolding row_ok_def using exported_mono by blast

section \<open>What a transaction keeps for a worker\<close>

definition keeps_claim :: "string \<Rightarrow> ('r, 'w) task_db \<Rightarrow> ('r, 'w) task_db \<Rightarrow> bool" where
  "keeps_claim c d d1 \<longleftrightarrow> (\<forall>t1\<in>set (td_tasks d1). tk_claim t1 = c \<longrightarrow> (\<exists>t\<in>set (td_tasks d). tk_claim t = c \<and> tk_id t = tk_id t1
    \<and> (tk_status t1 = ''running'' \<longrightarrow> tk_status t = ''running'' \<and> task_core t = task_core t1 \<and> items_of d1 (tk_id t) = items_of d (tk_id t))))"

lemma phase_ok_core: "task_core t = task_core t1 \<Longrightarrow> phase_ok e W its t ph = phase_ok e W its t1 ph"
  unfolding phase_ok_def finish_ok_def task_core_def active_def by (auto split: phase.splits)

lemma keeps_worker: "keeps_claim (wk_claim w) d d1 \<Longrightarrow> worker_ok e W d w \<Longrightarrow> worker_ok e W d1 w"
proof -
  assume k: "keeps_claim (wk_claim w) d d1" and w: "worker_ok e W d w"
  have "tk_id t1 = wk_task w \<and> (tk_status t1 = ''running'' \<longrightarrow> phase_ok e W (items_of d1 (tk_id t1)) t1 (wk_phase w))" if t1: "t1 \<in> set (td_tasks d1)" "tk_claim t1 = wk_claim w" for t1
  proof -
    obtain t where t: "t \<in> set (td_tasks d)" "tk_claim t = wk_claim w" "tk_id t = tk_id t1"
      "tk_status t1 = ''running'' \<longrightarrow> tk_status t = ''running'' \<and> task_core t = task_core t1 \<and> items_of d1 (tk_id t) = items_of d (tk_id t)" using k t1 unfolding keeps_claim_def by blast
    have "tk_id t = wk_task w" "tk_status t = ''running'' \<longrightarrow> phase_ok e W (items_of d (tk_id t)) t (wk_phase w)" using w t(1,2) unfolding worker_ok_def by blast+
    then show ?thesis using t(3,4) phase_ok_core [of t t1 e W] by auto
  qed
  then show ?thesis using w unfolding worker_ok_def by blast
qed

lemma keeps_updateI:
  assumes "\<And>t. t \<in> set (td_tasks d) \<Longrightarrow> P t \<Longrightarrow> tk_claim (f t) = c \<Longrightarrow> tk_claim t = c \<and> tk_id (f t) = tk_id t \<and> (tk_status (f t) = ''running'' \<longrightarrow> tk_status t = ''running'' \<and> task_core (f t) = task_core t)"
    and "td_tasks d1 = map (\<lambda>t. if P t then f t else t) (td_tasks d)"
    and "\<And>t. t \<in> set (td_tasks d) \<Longrightarrow> tk_claim t = c \<Longrightarrow> tk_status t = ''running'' \<Longrightarrow> items_of d1 (tk_id t) = items_of d (tk_id t)"
  shows "keeps_claim c d d1"
  unfolding keeps_claim_def assms(2) using assms(1,3) by (fastforce split: if_splits)

section \<open>Transactions\<close>

lemma item_ok_map:
  assumes "item_ok d x" "td_tasks d1 = map g (td_tasks d)" "\<And>t. t \<in> set (td_tasks d) \<Longrightarrow> tk_id (g t) = tk_id t \<and> (active (g t) \<longrightarrow> active t \<and> tk_payload (g t) = tk_payload t)"
  shows "item_ok d1 x"
proof -
  obtain tid i y where x: "x = ((tid, i), y)" by (metis prod.exhaust)
  then obtain t where t: "t \<in> set (td_tasks d)" "tk_id t = tid" "active t \<longrightarrow> (\<exists>p. tk_payload t = ImportPayload p \<and> i < length (ip_Rules p))" "ti_Index y = i"
    using assms(1) unfolding item_ok_def by auto
  have "g t \<in> set (td_tasks d1)" using t(1) assms(2) by simp
  moreover have "tk_id (g t) = tid" "active (g t) \<longrightarrow> (\<exists>p. tk_payload (g t) = ImportPayload p \<and> i < length (ip_Rules p))" using assms(3) [OF t(1)] t(2,3) by auto
  ultimately show ?thesis using t(4) unfolding item_ok_def x by auto
qed

lemma db_ok_map:
  assumes "db_ok e W C d" "td_tasks d1 = map g (td_tasks d)" "td_items d1 = td_items d"
    and "\<And>t. t \<in> set (td_tasks d) \<Longrightarrow> row_ok e V D (g t) \<and> tk_id (g t) = tk_id t \<and> (active (g t) \<longrightarrow> active t \<and> tk_payload (g t) = tk_payload t)"
  shows "db_ok e V D d1" "settled d tid \<Longrightarrow> settled d1 tid"
proof -
  have m: "map tk_id (td_tasks d1) = map tk_id (td_tasks d)" using assms(2,4) by simp
  have "distinct (map tk_id (td_tasks d1))" using assms(1) unfolding m db_ok_def by blast
  moreover have "\<forall>t\<in>set (td_tasks d1). row_ok e V D t" using assms(2,4) by simp
  moreover have "item_ok d1 x" if "x \<in> set (td_items d1)" for x using item_ok_map [OF _ assms(2), of x] assms(1,3,4) that unfolding db_ok_def by simp
  ultimately show "db_ok e V D d1" using assms(1,3) unfolding db_ok_def by simp
  show "settled d1 tid" if "settled d tid" using that assms(2,4) unfolding settled_def by force
qed

lemma db_ok_mono: "db_ok e W C d \<Longrightarrow> W \<subseteq> V \<Longrightarrow> C \<subseteq> D \<Longrightarrow> db_ok e V D d"
  unfolding db_ok_def using row_ok_mono by blast

lemma db_rowD: "db_ok e W C d \<Longrightarrow> t \<in> set (td_tasks d) \<Longrightarrow> row_ok e W C t"
  by (simp add: db_ok_def)

definition good_step :: "('r, 'w) task_env \<Rightarrow> 'w set \<Rightarrow> string set \<Rightarrow> ('r, 'w) task_db \<Rightarrow> ('r, 'w) task_db \<Rightarrow> string set \<Rightarrow> bool" where
  "good_step e W C d d1 K \<longleftrightarrow> db_ok e W C d1 \<and> (\<forall>tid. settled d tid \<longrightarrow> settled d1 tid) \<and> (\<forall>c\<in>K. keeps_claim c d d1)"

lemma createTask_good:
  assumes "db_ok e W C d" "payload_fits \<lparr>tk_id = fresh, tk_user = actor, tk_kind = kind, tk_status = ''pending'', tk_payload = payload, tk_hash = te_digest e payload,
                tk_result = NoResult, tk_error = '''', tk_created = now, tk_updated = now, tk_cancel = False, tk_claim = '''', tk_key = key, tk_admin = (role = ''admin'')\<rparr>" (is "payload_fits ?r")
    and "createTask e now fresh actor role kind key payload d = (r, d1)"
  shows "good_step e W C d d1 (- {''''})" "td_items d1 = td_items d"
proof -
  have "d1 = d \<or> fresh \<notin> tk_id ` set (td_tasks d) \<and> d1 = d\<lparr>td_tasks := td_tasks d @ [?r]\<rparr>"
    using assms(3) unfolding createTask_def by (auto split: if_splits option.splits)
  then show "td_items d1 = td_items d" "good_step e W C d d1 (- {''''})"
  proof (atomize (full), elim disjE conjE)
    assume "d1 = d"
    then show "td_items d1 = td_items d \<and> good_step e W C d d1 (- {''''})" using assms(1) unfolding good_step_def keeps_claim_def by auto
  next
    assume f: "fresh \<notin> tk_id ` set (td_tasks d)" and d1: "d1 = d\<lparr>td_tasks := td_tasks d @ [?r]\<rparr>"
    have "row_ok e W C ?r" using assms(2) by (simp add: row_ok_def)
    moreover have "item_ok d1 x" if "item_ok d x" for x using that unfolding item_ok_def d1 by (auto split: prod.splits)
    ultimately have "db_ok e W C d1" using assms(1) f unfolding db_ok_def d1 by auto
    moreover have "settled d1 tid" if "settled d tid" for tid using that unfolding settled_def d1 by auto
    moreover have "keeps_claim c d d1" if "c \<noteq> ''''" for c using that unfolding keeps_claim_def d1 items_of_def by auto
    ultimately show "td_items d1 = td_items d \<and> good_step e W C d d1 (- {''''})" unfolding good_step_def d1 by auto
  qed
qed

lemma map_good:
  assumes "db_ok e W C d" "td_tasks d1 = map (\<lambda>t. if P t then f t else t) (td_tasks d)" "td_items d1 = td_items d"
    and "\<And>t. t \<in> set (td_tasks d) \<Longrightarrow> row_ok e W C t \<Longrightarrow> P t \<Longrightarrow> row_ok e W C (f t) \<and> tk_id (f t) = tk_id t \<and> (active (f t) \<longrightarrow> active t \<and> tk_payload (f t) = tk_payload t)"
    and "\<And>t c. t \<in> set (td_tasks d) \<Longrightarrow> row_ok e W C t \<Longrightarrow> P t \<Longrightarrow> c \<in> K \<Longrightarrow> tk_claim (f t) = c \<Longrightarrow> tk_claim t = c \<and> (tk_status (f t) = ''running'' \<longrightarrow> tk_status t = ''running'' \<and> task_core (f t) = task_core t)"
  shows "good_step e W C d d1 K"
proof -
  note r = db_rowD [OF assms(1)]
  have g: "row_ok e W C (if P t then f t else t) \<and> tk_id (if P t then f t else t) = tk_id t \<and> (active (if P t then f t else t) \<longrightarrow> active t \<and> tk_payload (if P t then f t else t) = tk_payload t)"
    if "t \<in> set (td_tasks d)" for t using that assms(4) r by auto
  have "keeps_claim c d d1" if "c \<in> K" for c
    by (rule keeps_updateI [where P = P and f = f]) (use assms that r in \<open>auto simp: items_of_def\<close>)
  then show ?thesis using db_ok_map [OF assms(1,2,3) g] unfolding good_step_def by blast
qed

lemma cancelTask_good: "db_ok e W C d \<Longrightarrow> cancelTask actor role tid d = (r, d1) \<Longrightarrow> good_step e W C d d1 UNIV \<and> td_items d1 = td_items d"
proof -
  assume a: "db_ok e W C d" "cancelTask actor role tid d = (r, d1)"
  let ?P = "\<lambda>t. tk_id t = tid \<and> (tk_user t = actor \<or> role = ''admin'') \<and> active t"
  have "d1 = d \<or> d1 = update_tasks ?P (\<lambda>t. t\<lparr>tk_cancel := True\<rparr>) d" using a(2) unfolding cancelTask_def by (auto simp: Let_def split: if_splits)
  then show ?thesis
  proof
    assume "d1 = d"
    then show ?thesis using a(1) unfolding good_step_def keeps_claim_def by auto
  next
    assume d1: "d1 = update_tasks ?P (\<lambda>t. t\<lparr>tk_cancel := True\<rparr>) d"
    have "good_step e W C d d1 UNIV" by (rule map_good [OF a(1), where P = ?P and f = "\<lambda>t. t\<lparr>tk_cancel := True\<rparr>"]) (auto simp: d1 row_ok_def active_def payload_fits_def task_core_def)
    then show ?thesis by (simp add: d1)
  qed
qed

lemma requeue_good: "db_ok e W C d \<Longrightarrow> good_step e W C d (requeue now d) (- {''''})"
  unfolding requeue_def
  by (rule map_good [where P = "\<lambda>t. tk_status t = ''running'' \<and> tk_updated t < now - 300" and f = "\<lambda>t. t\<lparr>tk_status := ''pending'', tk_claim := ''''\<rparr>"]) (auto simp: row_ok_def active_def payload_fits_def task_core_def)

lemma claim_task_good:
  assumes "db_ok e W C d" "c \<noteq> ''''" "claim_task now c tid d = (r, d1)"
  shows "good_step e W (insert c C) d d1 (- {c})" "td_items d1 = td_items d"
proof -
  let ?P = "\<lambda>t. tk_id t = tid \<and> tk_status t = ''pending''"
  let ?f = "\<lambda>t. t\<lparr>tk_status := ''running'', tk_claim := c, tk_updated := now\<rparr>"
  have d1: "d1 = update_tasks ?P ?f d" using assms(3) by (simp add: claim_task_def Let_def)
  have "db_ok e W (insert c C) d" using db_ok_mono [OF assms(1)] by blast
  then show "good_step e W (insert c C) d d1 (- {c})" by (rule map_good [where P = ?P and f = ?f]) (use assms(2) in \<open>auto simp: d1 row_ok_def active_def payload_fits_def task_core_def\<close>)
  show "td_items d1 = td_items d" by (simp add: d1)
qed

lemma finishTask_good:
  assumes "db_ok e W C d" "finishTask now tid c st res msg d = (r, d1)"
    and "\<And>t. t \<in> set (td_tasks d) \<Longrightarrow> tk_claim t = c \<Longrightarrow> tk_id t = tid \<Longrightarrow> tk_status t = ''running'' \<Longrightarrow> finish_ok e W (items_of d tid) t st res"
  shows "good_step e W C d d1 UNIV \<and> td_items d1 = td_items d"
proof (cases "d1 = d")
  case True
  then show ?thesis using assms(1) unfolding good_step_def keeps_claim_def by auto
next
  case False
  then obtain t where t: "row_of d tid = Some t" "tk_status t = ''running''" "tk_claim t = c" using assms(2) by (auto simp: finishTask_def split: option.splits if_splits)
  let ?P = "\<lambda>t. tk_id t = tid \<and> tk_claim t = c"
  let ?st = "if tk_cancel t then ''canceled'' else st" and ?res = "if tk_cancel t \<and> tk_kind t = ''rules.export'' then NoResult else res"
  let ?f = "\<lambda>u. u\<lparr>tk_status := ?st, tk_result := ?res, tk_error := msg, tk_payload := NoPayload, tk_updated := now\<rparr>"
  have d1: "d1 = update_tasks ?P ?f d" using assms(2) t by (simp add: finishTask_def Let_def)
  have tt: "t \<in> set (td_tasks d)" "tk_id t = tid" using row_of_Some [OF t(1)] by auto
  have u: "u = t" if "u \<in> set (td_tasks d)" "?P u" for u using row_unique [of "td_tasks d" u t] assms(1) tt that unfolding db_ok_def by simp
  have fo: "finish_ok e W (items_of d tid) t st res" by (rule assms(3)) (use t tt in auto)
  have na: "\<not> active (?f t)" using fo unfolding finish_ok_def active_def by auto
  have ex: "exported e W (tk_user t) (tk_admin t) rs" if "?res = ExportResult rs" for rs using fo that unfolding finish_ok_def by (auto split: if_splits)
  have ro: "row_ok e W C t" by (rule db_rowD [OF assms(1) tt(1)])
  have "row_ok e W C (?f t)" using ro na ex unfolding row_ok_def active_def by auto
  moreover have "tk_status (?f t) \<noteq> ''running''" using na unfolding active_def by auto
  ultimately have "good_step e W C d d1 UNIV" by (intro map_good [OF assms(1), where P = ?P and f = ?f]) (use d1 u na in auto)
  then show ?thesis by (simp add: d1)
qed

lemma prune_one_good:
  assumes "db_ok e W C d" "settled d tid"
  shows "good_step e W C d (update_tasks (\<lambda>t. tk_id t = tid) (\<lambda>t. t\<lparr>tk_result := NoResult\<rparr>) (d\<lparr>td_items := filter (\<lambda>((t, i), x). t \<noteq> tid) (td_items d)\<rparr>)) UNIV" (is "good_step e W C d ?d UNIV")
proof -
  let ?m = "d\<lparr>td_items := filter (\<lambda>((t, i), x). t \<noteq> tid) (td_items d)\<rparr>"
  have "distinct (map fst (td_items ?m))" using assms(1) unfolding db_ok_def by (simp add: distinct_map_filter)
  moreover have "item_ok ?m x = item_ok d x" for x by (simp add: item_ok_def)
  ultimately have m: "db_ok e W C ?m" using assms(1) unfolding db_ok_def by auto
  have g: "good_step e W C ?m ?d UNIV" by (rule map_good [OF m, where P = "\<lambda>t. tk_id t = tid" and f = "\<lambda>t. t\<lparr>tk_result := NoResult\<rparr>"]) (auto simp: row_ok_def active_def payload_fits_def task_core_def)
  have i: "items_of ?d u = items_of d u" if "u \<noteq> tid" for u using that unfolding items_of_def by (auto intro!: filter_cong)
  have "tk_id t \<noteq> tid" if "t \<in> set (td_tasks d)" "tk_status t = ''running''" for t
  proof
    assume "tk_id t = tid"
    then obtain u where "u \<in> set (td_tasks d)" "tk_id u = tk_id t" "\<not> active u" using assms(2) unfolding settled_def by auto
    then show False using row_unique [of "td_tasks d" u t] assms(1) that unfolding db_ok_def active_def by auto
  qed
  then have "keeps_claim c d ?d" for c
    by (intro keeps_updateI [where P = "\<lambda>t. tk_id t = tid" and f = "\<lambda>t. t\<lparr>tk_result := NoResult\<rparr>"]) (auto simp: task_core_def i)
  moreover have "settled ?d u" if "settled d u" for u using g that unfolding good_step_def settled_def by auto
  ultimately show ?thesis using g unfolding good_step_def by blast
qed

lemma keeps_claim_refl [simp]: "keeps_claim c d d"
  unfolding keeps_claim_def by auto

lemma good_refl: "db_ok e W C d \<Longrightarrow> good_step e W C d d K"
  by (simp add: good_step_def)

lemma keeps_claim_trans:
  assumes "keeps_claim c a b" "keeps_claim c b d"
  shows "keeps_claim c a d"
  unfolding keeps_claim_def
proof (intro ballI impI)
  fix t2 assume "t2 \<in> set (td_tasks d)" "tk_claim t2 = c"
  then obtain t1 where t1: "t1 \<in> set (td_tasks b)" "tk_claim t1 = c" "tk_id t1 = tk_id t2"
    "tk_status t2 = ''running'' \<longrightarrow> tk_status t1 = ''running'' \<and> task_core t1 = task_core t2 \<and> items_of d (tk_id t1) = items_of b (tk_id t1)" using assms(2) unfolding keeps_claim_def by blast
  then obtain t where t: "t \<in> set (td_tasks a)" "tk_claim t = c" "tk_id t = tk_id t1"
    "tk_status t1 = ''running'' \<longrightarrow> tk_status t = ''running'' \<and> task_core t = task_core t1 \<and> items_of b (tk_id t) = items_of a (tk_id t)" using assms(1) unfolding keeps_claim_def by blast
  have "tk_status t2 = ''running'' \<longrightarrow> tk_status t = ''running'' \<and> task_core t = task_core t2 \<and> items_of d (tk_id t) = items_of a (tk_id t)" using t(3,4) t1(4) by auto
  then show "\<exists>t\<in>set (td_tasks a). tk_claim t = c \<and> tk_id t = tk_id t2 \<and> (tk_status t2 = ''running'' \<longrightarrow> tk_status t = ''running'' \<and> task_core t = task_core t2 \<and> items_of d (tk_id t) = items_of a (tk_id t))"
    using t(1-3) t1(3) by auto
qed

lemma good_trans: "good_step e W C a b K \<Longrightarrow> good_step e W C b d K \<Longrightarrow> good_step e W C a d K"
  unfolding good_step_def using keeps_claim_trans by blast

lemma prune_good: "db_ok e W C d \<Longrightarrow> \<forall>tid\<in>set ids. settled d tid \<Longrightarrow> good_step e W C d (prune_tasks ids d) UNIV"
proof (induction ids arbitrary: d)
  case (Cons tid ids)
  let ?d = "update_tasks (\<lambda>t. tk_id t = tid) (\<lambda>t. t\<lparr>tk_result := NoResult\<rparr>) (d\<lparr>td_items := filter (\<lambda>((t, i), x). t \<noteq> tid) (td_items d)\<rparr>)"
  have g: "good_step e W C d ?d UNIV" using prune_one_good [OF Cons.prems(1)] Cons.prems(2) by simp
  then have "db_ok e W C ?d" "\<forall>tid\<in>set ids. settled ?d tid" using Cons.prems(2) unfolding good_step_def by auto
  then show ?case using good_trans [OF g Cons.IH] by simp
qed (simp add: good_refl)

lemma prune_items: "td_items (prune_tasks ids d) = filter (\<lambda>((t, i), x). t \<notin> set ids) (td_items d)"
  by (induction ids arbitrary: d) (auto simp: split_def intro!: filter_cong)

section \<open>Workers\<close>

lemma guardD:
  assumes "taskGuard d tid c owner admin = None"
  shows "\<exists>t u. row_of d tid = Some t \<and> t \<in> set (td_tasks d) \<and> tk_id t = tid \<and> tk_status t = ''running'' \<and> tk_claim t = c \<and> \<not> tk_cancel t \<and> map_of (td_users d) owner = Some u \<and> \<not> tu_disabled u
    \<and> (admin \<longrightarrow> tu_role u = ''admin'')"
  using assms row_of_Some [of d tid] unfolding taskGuard_def by (auto split: option.splits if_splits)

lemma import_item_good:
  assumes "db_ok e W C d" "worker_ok e W d w" "wk_phase w = Importing owner admin p i" "i < length (ip_Rules p)"
    and "import_item e now (wk_task w) (wk_claim w) owner admin p i d = (r, d1)"
  shows "good_step e W C d d1 (- {wk_claim w}) \<and> (r = None \<longrightarrow> worker_ok e W d1 (w\<lparr>wk_phase := Importing owner admin p (Suc i)\<rparr>))
    \<and> (td_items d1 = td_items d \<or> (wk_task w, i) \<notin> fst ` set (td_items d) \<and> \<not> settled d (wk_task w) \<and> (\<exists>x. td_items d1 = td_items d @ [((wk_task w, i), x)]))"
proof (cases "taskGuard d (wk_task w) (wk_claim w) owner admin")
  case (Some er)
  then have "r = Some er" "d1 = d" using assms(5) by (simp_all add: import_item_def)
  then show ?thesis using good_refl [OF assms(1)] by simp
next
  case None
  let ?tid = "wk_task w" and ?c = "wk_claim w"
  obtain t where t: "t \<in> set (td_tasks d)" "tk_id t = ?tid" "tk_status t = ''running''" "tk_claim t = ?c" using guardD [OF None] by blast
  have dist: "distinct (map tk_id (td_tasks d))" using assms(1) by (simp add: db_ok_def)
  have u: "u = t" if "u \<in> set (td_tasks d)" "tk_id u = ?tid" for u using row_unique [OF dist that(1) t(1)] that(2) t(2) by simp
  have ph: "phase_ok e W (items_of d ?tid) t (wk_phase w)" using assms(2) t unfolding worker_ok_def by auto
  then have p: "tk_kind t = ''rules.import''" "tk_payload t = ImportPayload p" "owner = tk_user t" "admin = tk_admin t" "items_complete (items_of d ?tid) p i" using assms(3) by (simp_all add: phase_ok_def)
  have "active t" using t(3) by (simp add: active_def)
  then have ns: "\<not> settled d ?tid" using u unfolding settled_def by blast
  have wo: "worker_ok e W d2 (w\<lparr>wk_phase := Importing owner admin p (Suc i)\<rparr>)"
    if "td_tasks d2 = map (\<lambda>t. if tk_id t = ?tid \<and> tk_claim t = ?c then t\<lparr>tk_updated := now'\<rparr> else t) (td_tasks d)" "(?tid, i) \<in> fst ` set (td_items d2)" "set (td_items d) \<subseteq> set (td_items d2)" for d2 now'
  proof -
    have "items_complete (items_of d2 ?tid) p (Suc i)" using p(5) assms(4) that(2,3) unfolding items_complete_def items_of_def by (fastforce simp: less_Suc_eq image_iff)
    then have "phase_ok e W (items_of d2 ?tid) (t\<lparr>tk_updated := now'\<rparr>) (Importing owner admin p (Suc i))" using p by (simp add: phase_ok_def)
    moreover have "tk_id v = ?tid" if "v \<in> set (td_tasks d)" "tk_claim v = ?c" for v using assms(2) that unfolding worker_ok_def by blast
    ultimately show ?thesis using that(1) u assms(2) t(2) unfolding worker_ok_def by fastforce
  qed
  show ?thesis
  proof (cases "(?tid, i) \<in> fst ` set (td_items d)")
    case True
    then have d1: "d1 = d" "r = None" using assms(5) None by (simp_all add: import_item_def)
    have "worker_ok e W d (w\<lparr>wk_phase := Importing owner admin p (Suc i)\<rparr>)"
      using wo [of d "tk_updated t"] True u by (auto simp: map_idI)
    then show ?thesis using d1 good_refl [OF assms(1)] by simp
  next
    case False
    let ?P = "\<lambda>t. tk_id t = ?tid \<and> tk_claim t = ?c"
    define out where "out = te_import e owner (ip_Admin p) (ip_Rules p ! i) (ip_Mode p) (td_world d)"
    define x where "x = item_of e i out"
    define w1 where "w1 = (case out of None \<Rightarrow> td_world d | Some (r, w) \<Rightarrow> w)"
    have d1: "d1 = update_tasks ?P (\<lambda>t. t\<lparr>tk_updated := now\<rparr>) (d\<lparr>td_world := w1, td_items := td_items d @ [((?tid, i), x)]\<rparr>)" "ti_Index x = i"
      using assms(5) None False by (simp_all add: import_item_def Let_def x_def w1_def out_def item_of_def split: option.splits prod.splits)
    let ?m = "d\<lparr>td_world := w1, td_items := td_items d @ [((?tid, i), x)]\<rparr>"
    have "item_ok ?m y" if "y \<in> set (td_items ?m)" for y
      using that assms(1) t p(2) assms(4) d1(2) unfolding db_ok_def item_ok_def by fastforce
    then have m: "db_ok e W C ?m" using assms(1) False unfolding db_ok_def by simp
    have g: "good_step e W C ?m d1 UNIV" by (rule map_good [OF m, where P = ?P and f = "\<lambda>t. t\<lparr>tk_updated := now\<rparr>"]) (auto simp: d1(1) row_ok_def active_def payload_fits_def task_core_def)
    have "keeps_claim c d d1" if c: "c \<noteq> ?c" for c
    proof (rule keeps_updateI [where P = ?P and f = "\<lambda>t. t\<lparr>tk_updated := now\<rparr>"])
      show "items_of d1 (tk_id v) = items_of d (tk_id v)" if v: "v \<in> set (td_tasks d)" "tk_claim v = c" "tk_status v = ''running''" for v
      proof -
        have "tk_id v \<noteq> ?tid" using u [OF v(1)] v(2) t(4) c by auto
        then show ?thesis by (simp add: items_of_def d1(1))
      qed
    qed (auto simp: d1(1) task_core_def)
    moreover have "settled d1 v" if "settled d v" for v using g that unfolding good_step_def settled_def by auto
    moreover have "worker_ok e W d1 (w\<lparr>wk_phase := Importing owner admin p (Suc i)\<rparr>)" by (rule wo [of d1 now]) (auto simp: d1(1))
    ultimately show ?thesis using g False ns unfolding good_step_def by (auto simp: d1(1))
  qed
qed

lemma import_item_error: "import_item e now tid c owner admin p i d = (Some er, d1) \<Longrightarrow> d1 = d"
  by (auto simp: import_item_def Let_def split: option.splits if_splits)

lemma worker_ok_failed: "worker_ok e W d (w\<lparr>wk_phase := p\<rparr>) \<Longrightarrow> worker_ok e W d (w\<lparr>wk_phase := Failed er\<rparr>)"
  unfolding worker_ok_def by (simp add: phase_ok_def)

lemma worker_okI:
  assumes "worker_ok e W d w" "\<And>t. t \<in> set (td_tasks d) \<Longrightarrow> tk_claim t = wk_claim w \<Longrightarrow> tk_id t = wk_task w \<Longrightarrow> tk_status t = ''running'' \<Longrightarrow> phase_ok e W (items_of d (wk_task w)) t (wk_phase w) \<Longrightarrow> phase_ok e W (items_of d (wk_task w)) t p"
  shows "worker_ok e W d (w\<lparr>wk_phase := p\<rparr>)"
  using assms unfolding worker_ok_def by auto

lemma worker_okD:
  assumes "worker_ok e W d w" "t \<in> set (td_tasks d)" "tk_claim t = wk_claim w" "tk_status t = ''running''"
  shows "tk_id t = wk_task w" "phase_ok e W (items_of d (wk_task w)) t (wk_phase w)"
  using assms unfolding worker_ok_def by auto

lemma finish_ok_failed: "st = ''failed'' \<or> st = ''canceled'' \<Longrightarrow> (\<And>rs. res \<noteq> ExportResult rs) \<Longrightarrow> finish_ok e W its t st res"
  by (auto simp: finish_ok_def active_def success_def)

lemma begin_task_ok:
  assumes "db_ok e W C d" "worker_ok e W d w"
  shows "worker_ok e W d (w\<lparr>wk_phase := begin_task (wk_task w) (wk_claim w) d\<rparr>)"
proof (rule worker_okI [OF assms(2)])
  fix t assume t: "t \<in> set (td_tasks d)" "tk_claim t = wk_claim w" "tk_id t = wk_task w" "tk_status t = ''running''"
  obtain u where u: "find (\<lambda>t. tk_id t = wk_task w \<and> tk_claim t = wk_claim w) (td_tasks d) = Some u" using t(1-3) by (cases "find (\<lambda>t. tk_id t = wk_task w \<and> tk_claim t = wk_claim w) (td_tasks d)") (auto simp: find_None_iff)
  then have "u \<in> set (td_tasks d)" "tk_id u = tk_id t" using t(3) by (auto simp: find_Some_iff)
  then have f: "find (\<lambda>t. tk_id t = wk_task w \<and> tk_claim t = wk_claim w) (td_tasks d) = Some t" using u row_unique [of "td_tasks d" u t] t(1) assms(1) unfolding db_ok_def by simp
  have "payload_fits t" using db_rowD [OF assms(1) t(1)] t(4) by (simp add: row_ok_def active_def)
  then show "phase_ok e W (items_of d (wk_task w)) t (begin_task (wk_task w) (wk_claim w) d)"
    unfolding payload_fits_def by (auto simp: begin_task_def f phase_ok_def items_complete_def)
qed

lemma import_done_ok:
  assumes "items_complete its p (length (ip_Rules p))" "tk_payload t = ImportPayload p"
  shows "phase_ok e W its t (import_done (result_list its, \<exists>x\<in>set (result_list its). ti_Error x \<noteq> ''''))"
  using assms by (auto simp: import_done_def phase_ok_def finish_ok_def active_def)

lemma export_ok:
  assumes "export_rules e tid c owner admin p d = Inr rs" "td_world d \<in> W" "xp_Admin p = admin" "owner = tk_user t" "admin = tk_admin t" "tk_kind t = ''rules.export''"
  shows "phase_ok e W its t (Finishing ''completed'' (ExportResult rs) '''')"
proof -
  let ?rows = "export_rows e p owner (td_world d)"
  have rs: "rs = map (te_redact e \<circ> the \<circ> rr_rule) ?rows" "\<forall>r\<in>set ?rows. rr_rule r \<noteq> None"
    using assms(1) by (auto simp: export_rules_def Let_def split: option.splits if_splits)
  have sub: "row \<in> set (te_rules e (td_world d)) \<and> \<not> rr_deleted row \<and> (xp_Admin p \<or> rr_user row = owner)" if "row \<in> set ?rows" for row
    using set_take_subset [of 10001] that by (fastforce simp: export_rows_def)
  have "\<exists>row\<in>set (te_rules e (td_world d)). \<exists>r0. \<not> rr_deleted row \<and> (admin \<or> rr_user row = owner) \<and> rr_rule row = Some r0 \<and> r = te_redact e r0" if "r \<in> set rs" for r
  proof -
    obtain row where row: "row \<in> set ?rows" "r = te_redact e (the (rr_rule row))" using \<open>r \<in> set rs\<close> rs(1) by auto
    then have "rr_rule row = Some (the (rr_rule row))" using rs(2) by auto
    then show ?thesis using sub [OF row(1)] row(2) assms(3) by blast
  qed
  then have "exported e W owner admin rs" using assms(2) unfolding exported_def by blast
  then show ?thesis using assms(4-6) by (auto simp: phase_ok_def finish_ok_def active_def)
qed

definition appended :: "('r, 'w) task_db \<Rightarrow> ('r, 'w) task_db \<Rightarrow> bool" where
  "appended d d1 \<longleftrightarrow> td_items d1 = td_items d \<or> (\<exists>tid i x. (tid, i) \<notin> fst ` set (td_items d) \<and> \<not> settled d tid \<and> td_items d1 = td_items d @ [((tid, i), x)])"

definition good_work :: "('r, 'w) task_env \<Rightarrow> 'w set \<Rightarrow> string set \<Rightarrow> 'r worker \<Rightarrow> ('r, 'w) task_db \<Rightarrow> 'r phase option \<Rightarrow> ('r, 'w) task_db \<Rightarrow> bool" where
  "good_work e W C w d ph d1 \<longleftrightarrow> good_step e W C d d1 (- {wk_claim w}) \<and> appended d d1 \<and> (\<forall>p. ph = Some p \<longrightarrow> worker_ok e W d1 (w\<lparr>wk_phase := p\<rparr>))"

lemma work_read: "db_ok e W C d \<Longrightarrow> (\<And>p. ph = Some p \<Longrightarrow> worker_ok e W d (w\<lparr>wk_phase := p\<rparr>)) \<Longrightarrow> good_work e W C w d ph d"
  by (simp add: good_work_def good_refl appended_def)

lemma work_finish:
  assumes "db_ok e W C d" "worker_ok e W d w" "wk_phase w = Finishing st res msg \<or> wk_phase w = Closing st res msg" "finishTask now (wk_task w) (wk_claim w) st res msg d = (r, d1)"
  shows "good_work e W C w d (Some (Failed er)) d1" "good_work e W C w d None d1"
proof -
  have "good_step e W C d d1 UNIV \<and> td_items d1 = td_items d"
  proof (rule finishTask_good [OF assms(1,4)])
    show "finish_ok e W (items_of d (wk_task w)) t st res" if "t \<in> set (td_tasks d)" "tk_claim t = wk_claim w" "tk_status t = ''running''" for t
      using worker_okD(2) [OF assms(2) that] assms(3) by (auto simp: phase_ok_def)
  qed
  moreover from this have "worker_ok e W d1 (w\<lparr>wk_phase := Failed er\<rparr>)"
    using keeps_worker [of "w\<lparr>wk_phase := Failed er\<rparr>" d d1] worker_ok_failed [of e W d "wk_phase w" w] assms(2) unfolding good_step_def by simp
  ultimately show "good_work e W C w d (Some (Failed er)) d1" "good_work e W C w d None d1" unfolding good_work_def good_step_def appended_def by auto
qed

lemma work_import:
  assumes "db_ok e W C d" "worker_ok e W d w" "wk_phase w = Importing owner admin p i" "i < length (ip_Rules p)"
  shows "good_work e W C w d (Some (fst (settle f (Importing owner admin p (Suc i)) (import_item e now (wk_task w) (wk_claim w) owner admin p i d) d)))
    (snd (settle f (Importing owner admin p (Suc i)) (import_item e now (wk_task w) (wk_claim w) owner admin p i d) d))"
proof -
  obtain r d1 where i: "import_item e now (wk_task w) (wk_claim w) owner admin p i d = (r, d1)" by (cases "import_item e now (wk_task w) (wk_claim w) owner admin p i d")
  note g = import_item_good [OF assms i]
  have f: "worker_ok e W d (w\<lparr>wk_phase := Failed er\<rparr>)" for er using worker_ok_failed [of e W d "wk_phase w" w] assms(2) by simp
  have a: "appended d d1" using g unfolding appended_def by blast
  have f1: "worker_ok e W d1 (w\<lparr>wk_phase := Failed er\<rparr>)" for er
  proof (cases r)
    case None
    then show ?thesis using g worker_ok_failed by blast
  next
    case (Some x)
    then show ?thesis using f i import_item_error by blast
  qed
  show ?thesis
    unfolding good_work_def settle_def i using g a f f1 good_refl [OF assms(1)] by (auto simp: appended_def split: fault.splits option.splits)
qed

lemma worker_step_good:
  assumes "db_ok e W C d" "worker_ok e W d w" "td_world d \<in> W" "worker_step e now f w d = (ph, d1)"
  shows "good_work e W C w d ph d1"
proof (cases "wk_phase w")
  case Begin
  have "ph = Some (if f = Sound then begin_task (wk_task w) (wk_claim w) d else Failed TaskIO)" "d1 = d" using assms(4) Begin by (auto simp: worker_step_def Let_def)
  then show ?thesis using begin_task_ok [OF assms(1,2)] worker_ok_failed by (auto intro!: work_read [OF assms(1)] split: if_splits)
next
  case (Importing owner admin p i)
  show ?thesis
  proof (cases "i < length (ip_Rules p)")
    case True
    then show ?thesis using work_import [OF assms(1,2) Importing True, of f now] assms(4) Importing by (auto simp: worker_step_def Let_def map_prod_def split: prod.splits)
  next
    case False
    have d1: "ph = Some (if f = Sound then import_done (importResult d (wk_task w)) else Failed TaskIO)" "d1 = d" using assms(4) Importing False by (auto simp: worker_step_def Let_def)
    have "worker_ok e W d (w\<lparr>wk_phase := import_done (importResult d (wk_task w))\<rparr>)"
    proof (rule worker_okI [OF assms(2)])
      fix t assume "phase_ok e W (items_of d (wk_task w)) t (wk_phase w)"
      then have c: "tk_payload t = ImportPayload p" "items_complete (items_of d (wk_task w)) p i" using Importing by (simp_all add: phase_ok_def)
      then have "i = length (ip_Rules p)" using False by (simp add: items_complete_def)
      then show "phase_ok e W (items_of d (wk_task w)) t (import_done (importResult d (wk_task w)))" using import_done_ok c by (simp add: importResult_items)
    qed
    then show ?thesis using d1 worker_ok_failed by (auto intro!: work_read [OF assms(1)] split: if_splits)
  qed
next
  case (Exporting owner admin p)
  have d1: "ph = Some (if f = Sound then case export_rules e (wk_task w) (wk_claim w) owner admin p d of Inl er \<Rightarrow> Failed er | Inr rs \<Rightarrow> Finishing ''completed'' (ExportResult rs) '''' else Failed TaskIO)" "d1 = d"
    using assms(4) Exporting by (auto simp: worker_step_def Let_def)
  have fl: "worker_ok e W d (w\<lparr>wk_phase := Failed er\<rparr>)" for er using worker_ok_failed [of e W d "wk_phase w" w] assms(2) by simp
  have "worker_ok e W d (w\<lparr>wk_phase := Finishing ''completed'' (ExportResult rs) ''''\<rparr>)" if x: "export_rules e (wk_task w) (wk_claim w) owner admin p d = Inr rs" for rs
  proof (rule worker_okI [OF assms(2)])
    fix t assume t: "t \<in> set (td_tasks d)" "tk_status t = ''running''" "phase_ok e W (items_of d (wk_task w)) t (wk_phase w)"
    then have c: "tk_kind t = ''rules.export''" "tk_payload t = ExportPayload p" "owner = tk_user t" "admin = tk_admin t" using Exporting by (simp_all add: phase_ok_def)
    have "xp_Admin p = admin" using db_rowD [OF assms(1) t(1)] t(2) c by (auto simp: row_ok_def active_def payload_fits_def)
    then show "phase_ok e W (items_of d (wk_task w)) t (Finishing ''completed'' (ExportResult rs) '''')" using export_ok [OF x assms(3)] c by simp
  qed
  then show ?thesis using d1 fl by (auto intro!: work_read [OF assms(1)] split: if_splits sum.splits)
next
  case (Finishing st res msg)
  obtain r d2 where "finishTask now (wk_task w) (wk_claim w) st res msg d = (r, d2)" by (cases "finishTask now (wk_task w) (wk_claim w) st res msg d")
  note g = this work_finish [OF assms(1,2) disjI1 [OF Finishing] this]
  have fl: "worker_ok e W d (w\<lparr>wk_phase := Failed er\<rparr>)" for er using worker_ok_failed [of e W d "wk_phase w" w] assms(2) by simp
  show ?thesis using assms(4) Finishing g fl work_read [OF assms(1), of "Some (Failed TaskIO)" w] by (auto simp: worker_step_def Let_def split: fault.splits option.splits)
next
  case (Failed er)
  have d1: "d1 = d" "ph = (if f = Sound then Some (Closing (if er = TaskCanceled then ''canceled'' else ''failed'') (ItemsResult (fst (importResult d (wk_task w)))) (if er = TaskCanceled then '''' else failure_message)) else None)"
    using assms(4) Failed by (auto simp: worker_step_def Let_def)
  have "worker_ok e W d (w\<lparr>wk_phase := Closing st (ItemsResult its) msg\<rparr>)" if "st = ''failed'' \<or> st = ''canceled''" for st its msg
    using finish_ok_failed [OF that, of "ItemsResult its"] by (intro worker_okI [OF assms(2)]) (simp add: phase_ok_def)
  then show ?thesis using d1 by (auto intro!: work_read [OF assms(1)] split: if_splits)
next
  case (Closing st res msg)
  obtain r d2 where "finishTask now (wk_task w) (wk_claim w) st res msg d = (r, d2)" by (cases "finishTask now (wk_task w) (wk_claim w) st res msg d")
  note g = this work_finish [OF assms(1,2) disjI2 [OF Closing] this]
  show ?thesis using assms(4) Closing g work_read [OF assms(1), of None w] by (auto simp: worker_step_def Let_def split: if_splits)
qed

section \<open>The steps keep the invariant\<close>

definition import_log_ok :: "('r, 'w) task_db \<Rightarrow> (string \<times> nat) list \<Rightarrow> bool" where
  "import_log_ok d l \<longleftrightarrow> distinct l \<and> fst ` set (td_items d) \<subseteq> set l \<and> (\<forall>tid i. (tid, i) \<in> set l \<longrightarrow> (tid, i) \<in> fst ` set (td_items d) \<or> settled d tid)"

lemma task_inv_iff: "task_inv e W s \<longleftrightarrow> db_ok e W (tm_claims s) (tm_db s)
    \<and> distinct (map wk_claim (tm_workers s)) \<and> (\<forall>w\<in>set (tm_workers s). wk_claim w \<in> tm_claims s \<and> worker_ok e W (tm_db s) w)
    \<and> (\<forall>ids\<in>set (tm_prunes s). \<forall>tid\<in>set ids. settled (tm_db s) tid) \<and> import_log_ok (tm_db s) (tm_log s)"
  unfolding task_inv_def import_log_ok_def by blast

lemma log_ok_same: "import_log_ok d l \<Longrightarrow> td_items d1 = td_items d \<Longrightarrow> (\<And>tid. settled d tid \<Longrightarrow> settled d1 tid) \<Longrightarrow> import_log_ok d1 l"
  unfolding import_log_ok_def by metis

lemma log_ok_pruned:
  assumes "import_log_ok d l" "td_items d1 = filter (\<lambda>((t, i), x). t \<notin> S) (td_items d)" "\<And>tid. settled d tid \<Longrightarrow> settled d1 tid" "\<And>tid. tid \<in> S \<Longrightarrow> settled d tid"
  shows "import_log_ok d1 l"
proof -
  have "(tid, i) \<in> fst ` set (td_items d1) \<or> settled d1 tid" if h: "(tid, i) \<in> fst ` set (td_items d) \<or> settled d tid" for tid i
  proof (cases "tid \<in> S \<or> settled d tid")
    case True
    then show ?thesis using assms(3,4) by blast
  next
    case False
    then obtain x where "((tid, i), x) \<in> set (td_items d)" using h by auto
    then have "((tid, i), x) \<in> set (td_items d1)" using False assms(2) by simp
    then show ?thesis by (auto intro: image_eqI [of _ fst "((tid, i), x)"])
  qed
  then have "\<forall>tid i. (tid, i) \<in> set l \<longrightarrow> (tid, i) \<in> fst ` set (td_items d1) \<or> settled d1 tid" using assms(1) unfolding import_log_ok_def by (metis (no_types))
  moreover have "fst ` set (td_items d1) \<subseteq> fst ` set (td_items d)" using assms(2) by auto
  ultimately show ?thesis using assms(1) unfolding import_log_ok_def by (metis (no_types) subset_trans)
qed

lemma log_ok_appended:
  assumes "import_log_ok d l" "appended d d1" "\<And>tid. settled d tid \<Longrightarrow> settled d1 tid"
  shows "import_log_ok d1 (l @ new_items d d1)"
proof (cases "td_items d1 = td_items d")
  case True
  then show ?thesis using log_ok_same [OF assms(1) True assms(3)] by (simp add: new_items_def)
next
  case False
  then obtain tid i x where a: "(tid, i) \<notin> fst ` set (td_items d)" "\<not> settled d tid" "td_items d1 = td_items d @ [((tid, i), x)]" using assms(2) unfolding appended_def by blast
  have n: "new_items d d1 = [(tid, i)]" by (simp add: new_items_def a(3))
  have "(tid, i) \<notin> set l" using assms(1) a(1,2) unfolding import_log_ok_def by blast
  moreover have "fst ` set (td_items d1) = insert (tid, i) (fst ` set (td_items d))" by (simp add: a(3))
  moreover have "(t, j) \<in> fst ` set (td_items d) \<or> settled d1 t" if "(t, j) \<in> set l" for t j using assms(1,3) that unfolding import_log_ok_def by blast
  moreover have "distinct l" "fst ` set (td_items d) \<subseteq> set l" using assms(1) by (simp_all add: import_log_ok_def)
  ultimately show ?thesis unfolding import_log_ok_def n by auto
qed

lemma inv_db:
  assumes "task_inv e W s" "good_step e W D (tm_db s) d1 K" "tm_claims s \<subseteq> D" "wk_claim ` set (tm_workers s) \<subseteq> K" "import_log_ok d1 (tm_log s)"
  shows "task_inv e W (s\<lparr>tm_db := d1, tm_claims := D\<rparr>)"
proof -
  have "worker_ok e W d1 w" if "w \<in> set (tm_workers s)" for w
    using assms(1,2,4) that keeps_worker [of w "tm_db s" d1 e W] unfolding task_inv_iff good_step_def by blast
  then show ?thesis using assms(1-3,5) unfolding task_inv_iff good_step_def by auto
qed

lemma inv_db_same:
  assumes "task_inv e W s" "good_step e W (tm_claims s) (tm_db s) d1 K" "wk_claim ` set (tm_workers s) \<subseteq> K" "td_items d1 = td_items (tm_db s)"
  shows "task_inv e W (s\<lparr>tm_db := d1\<rparr>)"
proof -
  have "import_log_ok d1 (tm_log s)" using assms(1,2,4) log_ok_same unfolding task_inv_iff good_step_def by blast
  then have "task_inv e W (s\<lparr>tm_db := d1, tm_claims := tm_claims s\<rparr>)" using inv_db [OF assms(1,2)] assms(3) by blast
  moreover have "s\<lparr>tm_db := d1, tm_claims := tm_claims s\<rparr> = s\<lparr>tm_db := d1\<rparr>" by simp
  ultimately show ?thesis by simp
qed

lemma advance_None: "w \<in> set (advance k None ws) \<Longrightarrow> w \<in> set ws" "distinct (map wk_claim ws) \<Longrightarrow> distinct (map wk_claim (advance k None ws))"
  and advance_None_other: "distinct (map wk_claim ws) \<Longrightarrow> k < length ws \<Longrightarrow> w \<in> set (advance k None ws) \<Longrightarrow> wk_claim w \<noteq> wk_claim (ws ! k)"
proof -
  show "w \<in> set ws" if "w \<in> set (advance k None ws)" using that set_take_subset [of k ws] set_drop_subset [of "Suc k" ws] by (auto simp: advance_def)
  assume d: "distinct (map wk_claim ws)"
  show "distinct (map wk_claim (advance k None ws))"
  proof (cases "k < length ws")
    case True
    have "map wk_claim ws = map wk_claim (take k ws) @ wk_claim (ws ! k) # map wk_claim (drop (Suc k) ws)" using id_take_nth_drop [OF True] by (metis list.simps(9) map_append)
    then show ?thesis using d by (simp add: advance_def)
  qed (use d in \<open>simp add: advance_def\<close>)
  assume k: "k < length ws" and w: "w \<in> set (advance k None ws)"
  have "map wk_claim ws = map wk_claim (take k ws) @ wk_claim (ws ! k) # map wk_claim (drop (Suc k) ws)" using id_take_nth_drop [OF k] by (metis list.simps(9) map_append)
  then have "wk_claim (ws ! k) \<notin> set (map wk_claim (take k ws)) \<union> set (map wk_claim (drop (Suc k) ws))" using d by (metis distinct_append distinct.simps(2) Un_iff disjoint_iff list.set_intros(1))
  then show "wk_claim w \<noteq> wk_claim (ws ! k)" using w by (auto simp: advance_def image_iff)
qed

lemma advance_Some:
  assumes "distinct (map wk_claim ws)" "k < length ws"
  shows "map wk_claim (advance k (Some p) ws) = map wk_claim ws" "w \<in> set (advance k (Some p) ws) \<Longrightarrow> w = (ws ! k)\<lparr>wk_phase := p\<rparr> \<or> w \<in> set ws \<and> wk_claim w \<noteq> wk_claim (ws ! k)"
proof -
  show m: "map wk_claim (advance k (Some p) ws) = map wk_claim ws" using assms(2) by (simp add: advance_def map_update) (metis list_update_id nth_map)
  assume "w \<in> set (advance k (Some p) ws)"
  then obtain j where j: "j < length ws" "w = advance k (Some p) ws ! j" by (auto simp: in_set_conv_nth advance_def)
  show "w = (ws ! k)\<lparr>wk_phase := p\<rparr> \<or> w \<in> set ws \<and> wk_claim w \<noteq> wk_claim (ws ! k)"
  proof (cases "j = k")
    case True
    then show ?thesis using j by (simp add: advance_def)
  next
    case False
    then have "w = ws ! j" using j by (simp add: advance_def)
    moreover have "wk_claim (ws ! j) \<noteq> wk_claim (ws ! k)" using assms j(1) False by (metis distinct_conv_nth length_map nth_map)
    ultimately show ?thesis using j(1) by auto
  qed
qed

lemma inv_work:
  assumes "task_inv e W s" "td_world (tm_db s) \<in> W" "k < length (tm_workers s)" "worker_step e now f (tm_workers s ! k) (tm_db s) = (ph, d)"
  shows "task_inv e W (s\<lparr>tm_db := d, tm_workers := advance k ph (tm_workers s), tm_log := tm_log s @ new_items (tm_db s) d\<rparr>)"
proof -
  let ?ws = "tm_workers s" and ?w = "tm_workers s ! k"
  note i = assms(1) [unfolded task_inv_iff]
  have ws: "distinct (map wk_claim ?ws)" "\<And>w. w \<in> set ?ws \<Longrightarrow> wk_claim w \<in> tm_claims s \<and> worker_ok e W (tm_db s) w" using i by auto
  have m: "?w \<in> set ?ws" using assms(3) by simp
  have g: "good_work e W (tm_claims s) ?w (tm_db s) ph d" using worker_step_good [of e W "tm_claims s" "tm_db s" ?w] i ws(2) [OF m] assms(2,4) by blast
  then have gs: "db_ok e W (tm_claims s) d" "\<And>tid. settled (tm_db s) tid \<Longrightarrow> settled d tid" "\<And>c. c \<noteq> wk_claim ?w \<Longrightarrow> keeps_claim c (tm_db s) d" "appended (tm_db s) d"
    "\<And>p. ph = Some p \<Longrightarrow> worker_ok e W d (?w\<lparr>wk_phase := p\<rparr>)" unfolding good_work_def good_step_def by auto
  have l: "import_log_ok d (tm_log s @ new_items (tm_db s) d)" using log_ok_appended i gs(2,4) by blast
  have o': "wk_claim w \<in> tm_claims s \<and> worker_ok e W d w" if "w \<in> set ?ws" "wk_claim w \<noteq> wk_claim ?w" for w using ws(2) that keeps_worker gs(3) by blast
  have "distinct (map wk_claim (advance k ph ?ws)) \<and> (\<forall>w\<in>set (advance k ph ?ws). wk_claim w \<in> tm_claims s \<and> worker_ok e W d w)"
  proof (cases ph)
    case None
    then show ?thesis using advance_None(1) [of _ k ?ws] advance_None(2) [OF ws(1), of k] advance_None_other [OF ws(1) assms(3)] ws(1) o' by blast
  next
    case (Some p)
    have "wk_claim w \<in> tm_claims s \<and> worker_ok e W d w" if "w \<in> set (advance k (Some p) ?ws)" for w
      using advance_Some(2) [OF ws(1) assms(3) that] o' gs(5) [OF Some] ws(2) [OF m] by auto
    then show ?thesis using advance_Some(1) [OF ws(1) assms(3), of p] ws(1) Some by simp
  qed
  then show ?thesis unfolding task_inv_iff using gs(1,2) l i by simp
qed

lemma inv_claim:
  assumes "task_inv e W s" "c \<notin> tm_claims s" "c \<noteq> ''''" "claim_task now c tid (tm_db s) = (claimed, d)"
  shows "task_inv e W (s\<lparr>tm_db := d, tm_claims := insert c (tm_claims s), tm_workers := tm_workers s @ (if claimed then [\<lparr>wk_task = tid, wk_claim = c, wk_phase = Begin\<rparr>] else [])\<rparr>)"
proof -
  note i = assms(1) [unfolded task_inv_iff]
  note g = claim_task_good [OF _ assms(3,4), of e W "tm_claims s"]
  have gs: "good_step e W (insert c (tm_claims s)) (tm_db s) d (- {c})" using g(1) i by blast
  have "wk_claim ` set (tm_workers s) \<subseteq> - {c}" using i assms(2) by auto
  moreover have "import_log_ok d (tm_log s)" using i log_ok_same [of "tm_db s" "tm_log s" d] g(2) gs unfolding good_step_def by blast
  ultimately have n: "task_inv e W (s\<lparr>tm_db := d, tm_claims := insert c (tm_claims s)\<rparr>)" using inv_db [OF assms(1) gs] by blast
  have nc: "tk_claim t \<noteq> c" if "t \<in> set (td_tasks (tm_db s))" for t using db_rowD [of e W "tm_claims s" "tm_db s" t] that i assms(2,3) unfolding row_ok_def by auto
  have ts: "td_tasks d = map (\<lambda>t. if tk_id t = tid \<and> tk_status t = ''pending'' then t\<lparr>tk_status := ''running'', tk_claim := c, tk_updated := now\<rparr> else t) (td_tasks (tm_db s))"
    using assms(4) by (auto simp: claim_task_def Let_def)
  have "tk_id t = tid" if t: "t \<in> set (td_tasks d)" "tk_claim t = c" for t
  proof -
    obtain x where x: "x \<in> set (td_tasks (tm_db s))" "t = (if tk_id x = tid \<and> tk_status x = ''pending'' then x\<lparr>tk_status := ''running'', tk_claim := c, tk_updated := now\<rparr> else x)" using t(1) unfolding ts by auto
    then show ?thesis using nc [OF x(1)] t(2) by (cases "tk_id x = tid \<and> tk_status x = ''pending''") simp_all
  qed
  then have "worker_ok e W d \<lparr>wk_task = tid, wk_claim = c, wk_phase = Begin\<rparr>" using assms(3) unfolding worker_ok_def by (simp add: phase_ok_def)
  then show ?thesis using n i assms(2) unfolding task_inv_iff by auto
qed

lemma step_inv:
  assumes "task_step e s s'" "task_inv e W s" "td_world (tm_db s) \<in> W"
  shows "task_inv e W s'"
  using assms(1)
proof cases
  note i = assms(2) [unfolded task_inv_iff]
  have ne: "wk_claim ` set (tm_workers s) \<subseteq> - {''''}" using i unfolding worker_ok_def by auto
  have db: "db_ok e W (tm_claims s) (tm_db s)" using i by blast
  {
    case (create_export now fresh actor role key ids r d)
    then have "d = tm_db s \<or> createTask e now fresh actor role ''rules.export'' key (ExportPayload \<lparr>xp_RuleIDs = ids, xp_Admin = (role = ''admin'')\<rparr>) (tm_db s) = (r, d)" by (auto simp: createExportTask_def split: if_splits)
    then show ?thesis
    proof
      assume c: "createTask e now fresh actor role ''rules.export'' key (ExportPayload \<lparr>xp_RuleIDs = ids, xp_Admin = (role = ''admin'')\<rparr>) (tm_db s) = (r, d)"
      show ?thesis unfolding create_export(1) by (rule inv_db_same [OF assms(2) createTask_good(1) [OF db _ c] ne createTask_good(2) [OF db _ c]]) (simp_all add: payload_fits_def)
    qed (use assms(2) create_export(1) in simp)
  next
    case (create_import now fresh actor role key mode rules sz r d)
    then have "d = tm_db s \<or> createTask e now fresh actor role ''rules.import'' key (ImportPayload \<lparr>ip_Mode = mode, ip_Rules = rules, ip_Admin = (role = ''admin'')\<rparr>) (tm_db s) = (r, d)" by (auto simp: createImportTask_def split: if_splits)
    then show ?thesis
    proof
      assume c: "createTask e now fresh actor role ''rules.import'' key (ImportPayload \<lparr>ip_Mode = mode, ip_Rules = rules, ip_Admin = (role = ''admin'')\<rparr>) (tm_db s) = (r, d)"
      show ?thesis unfolding create_import(1) by (rule inv_db_same [OF assms(2) createTask_good(1) [OF db _ c] ne createTask_good(2) [OF db _ c]]) (simp_all add: payload_fits_def)
    qed (use assms(2) create_import(1) in simp)
  next
    case (cancel actor role tid r d)
    then show ?thesis using inv_db_same [OF assms(2), of d UNIV] cancelTask_good [OF db cancel(2)] by simp
  next
    case (requeue now)
    then show ?thesis using inv_db_same [OF assms(2) requeue_good [OF db] ne] by (simp add: requeue_def)
  next
    case (claim c now tid claimed d)
    then show ?thesis using inv_claim [OF assms(2)] by blast
  next
    case (work k now f ph d)
    then show ?thesis using inv_work [OF assms(2,3)] by blast
  next
    case (crash k)
    then show ?thesis using i advance_None(1) [of _ k "tm_workers s"] advance_None(2) [of "tm_workers s" k] unfolding task_inv_iff by auto
  next
    case (select_old now)
    have "settled (tm_db s) tid" if "tid \<in> set (prunable_tasks now (tm_db s))" for tid
      using set_take_subset [of 100] that unfolding prunable_tasks_def settled_def by fastforce
    then show ?thesis using select_old i unfolding task_inv_iff by auto
  next
    case (prune ids)
    have st: "\<forall>tid\<in>set ids. settled (tm_db s) tid" using i prune(2) by blast
    have g: "good_step e W (tm_claims s) (tm_db s) (prune_tasks ids (tm_db s)) UNIV" by (rule prune_good [OF db st])
    have "import_log_ok (prune_tasks ids (tm_db s)) (tm_log s)" using log_ok_pruned [OF _ prune_items, of "tm_db s" "tm_log s" ids] i g st unfolding good_step_def by blast
    then have "task_inv e W (s\<lparr>tm_db := prune_tasks ids (tm_db s), tm_claims := tm_claims s\<rparr>)" using inv_db [OF assms(2) g] by blast
    then show ?thesis using prune by simp
  next
    case (edit w us)
    let ?d = "(tm_db s)\<lparr>td_users := us, td_world := w\<rparr>"
    have "good_step e W (tm_claims s) (tm_db s) ?d UNIV" by (rule map_good [OF db, where P = "\<lambda>t. False" and f = id]) simp_all
    then show ?thesis using inv_db_same [OF assms(2), of ?d UNIV] edit by simp
  }
qed

lemma task_inv_mono: "task_inv e W s \<Longrightarrow> W \<subseteq> V \<Longrightarrow> task_inv e V s"
  unfolding task_inv_iff using db_ok_mono worker_ok_mono by blast

definition past :: "('r, 'w) task_machine list \<Rightarrow> 'w set" where
  "past h = (\<lambda>s. td_world (tm_db s)) ` set h"

theorem task_invariant: "task_run e h \<Longrightarrow> h \<noteq> [] \<and> task_inv e (past h) (hd h)"
proof (induction rule: task_run.induct)
  case (start us w)
  then show ?case by (simp add: task_inv_iff task_init_def db_ok_def import_log_ok_def)
next
  case (more s h s')
  have "task_inv e (past (s # h)) s'" using step_inv [OF more.hyps(2)] more.IH by (simp add: past_def)
  then have "task_inv e (past (s' # s # h)) s'" by (rule task_inv_mono) (auto simp: past_def)
  then show ?case by simp
qed

end
