(* ===== verification/Tasks_Props.thy ===== *)
theory Tasks_Props
  imports Tasks_Inv
begin

text \<open>
  What background tasks promise, with any number of workers and faults: an item is imported at most once and only while its owner may, a completed import has an outcome for every item, exports stay private,
  and a request that is repeated creates nothing new.
\<close>

section \<open>How rows change\<close>

definition ident :: "'r task_row \<Rightarrow> string \<times> string \<times> string \<times> string \<times> string" where
  "ident t = (tk_id t, tk_user t, tk_kind t, tk_hash t, tk_key t)"

definition finished_by :: "'r worker \<Rightarrow> 'r task_row \<Rightarrow> 'r task_row \<Rightarrow> bool" where
  "finished_by w t t1 \<longleftrightarrow> wk_claim w = tk_claim t \<and> tk_status t = ''running''
    \<and> (\<exists>msg. wk_phase w = Finishing (tk_status t1) (tk_result t1) msg \<or> wk_phase w = Closing (tk_status t1) (tk_result t1) msg)"

definition changes :: "'r worker list \<Rightarrow> 'r task_row \<Rightarrow> 'r task_row \<Rightarrow> bool" where
  "changes ws t t1 \<longleftrightarrow> ident t1 = ident t \<and> (active t1 \<longrightarrow> active t) \<and> (success (tk_status t1) \<longrightarrow> success (tk_status t) \<or> (\<exists>w\<in>set ws. finished_by w t t1))"

lemma changes_refl [simp]: "changes ws t t"
  by (simp add: changes_def)

lemma rows_refl [simp]: "list_all2 (changes ws) ts ts"
  by (simp add: list_all2_same)

lemma rows_update: "(\<And>t. t \<in> set (td_tasks d) \<Longrightarrow> P t \<Longrightarrow> changes ws t (f t)) \<Longrightarrow> list_all2 (changes ws) (td_tasks d) (td_tasks (update_tasks P f d))"
  by (simp add: list_all2_map2 list_all2_same)

lemma changes_mono: "changes [] t t1 \<Longrightarrow> changes ws t t1"
  by (simp add: changes_def)

lemma changes_trans: "changes [] a b \<Longrightarrow> changes [] b c \<Longrightarrow> changes [] a c"
  by (simp add: changes_def)

lemma rows_prune: "list_all2 (changes []) (td_tasks d) (td_tasks (prune_tasks ids d))"
proof (induction ids arbitrary: d)
  case (Cons tid ids)
  let ?d = "update_tasks (\<lambda>t. tk_id t = tid) (\<lambda>t. t\<lparr>tk_result := NoResult\<rparr>) (d\<lparr>td_items := filter (\<lambda>((t, i), x). t \<noteq> tid) (td_items d)\<rparr>)"
  have "list_all2 (changes []) (td_tasks d) (td_tasks ?d)" by (simp add: list_all2_map2 list_all2_same changes_def ident_def active_def)
  then show ?case using list_all2_trans [OF changes_trans _ Cons.IH [of ?d]] by simp
qed simp

lemma rows_import: "list_all2 (changes ws) (td_tasks d) (td_tasks (snd (import_item e now tid c owner admin p i d)))"
  by (auto simp: import_item_def Let_def list_all2_map2 list_all2_same changes_def ident_def active_def split: option.splits)

lemma rows_finish:
  assumes "distinct (map tk_id (td_tasks d))" "w \<in> set ws" "wk_phase w = Finishing st res msg \<or> wk_phase w = Closing st res msg" "\<not> (st = ''pending'' \<or> st = ''running'')"
  shows "list_all2 (changes ws) (td_tasks d) (td_tasks (snd (finishTask now tid (wk_claim w) st res msg d)))"
proof (cases "snd (finishTask now tid (wk_claim w) st res msg d) = d")
  case False
  then obtain t where t: "row_of d tid = Some t" "tk_status t = ''running''" "tk_claim t = wk_claim w" by (auto simp: finishTask_def split: option.splits if_splits)
  let ?P = "\<lambda>u. tk_id u = tid \<and> tk_claim u = wk_claim w"
  let ?st = "if tk_cancel t then ''canceled'' else st" and ?res = "if tk_cancel t \<and> tk_kind t = ''rules.export'' then NoResult else res"
  let ?f = "\<lambda>u. u\<lparr>tk_status := ?st, tk_result := ?res, tk_error := msg, tk_payload := NoPayload, tk_updated := now\<rparr>"
  have d1: "snd (finishTask now tid (wk_claim w) st res msg d) = update_tasks ?P ?f d" using t by (simp add: finishTask_def Let_def)
  have "finished_by w t (?f t)" if "\<not> tk_cancel t" using that t(2,3) assms(3) unfolding finished_by_def by auto
  then have "success (tk_status (?f t)) \<longrightarrow> (\<exists>w\<in>set ws. finished_by w t (?f t))" using assms(2) by (cases "tk_cancel t") (auto simp: success_def)
  moreover have "\<not> active (?f t)" using assms(4) by (auto simp: active_def)
  ultimately have "changes ws t (?f t)" unfolding changes_def by (simp add: ident_def)
  moreover have "u = t" if "u \<in> set (td_tasks d)" "?P u" for u using row_unique [OF assms(1) that(1)] row_of_Some [OF t(1)] that(2) by simp
  ultimately show ?thesis unfolding d1 by (intro rows_update) blast
qed simp

lemma finishing_inactive:
  assumes "worker_ok e W d w" "wk_phase w = Finishing st res msg \<or> wk_phase w = Closing st res msg" "db_ok e W C d"
  shows "st = ''pending'' \<or> st = ''running'' \<Longrightarrow> snd (finishTask now (wk_task w) (wk_claim w) st res msg d) = d"
proof -
  assume st: "st = ''pending'' \<or> st = ''running''"
  have "\<not> (tk_status t = ''running'' \<and> tk_claim t = wk_claim w)" if "row_of d (wk_task w) = Some t" for t
  proof
    assume "tk_status t = ''running'' \<and> tk_claim t = wk_claim w"
    then have "phase_ok e W (items_of d (wk_task w)) t (wk_phase w)" using worker_okD(2) [OF assms(1)] row_of_Some [OF that] by blast
    then show False using st assms(2) by (auto simp: phase_ok_def finish_ok_def active_def)
  qed
  then show ?thesis by (auto simp: finishTask_def split: option.splits)
qed

lemma rows_work:
  assumes "db_ok e W C d" "worker_ok e W d w" "w \<in> set ws" "worker_step e now f w d = (ph, d1)"
  shows "list_all2 (changes ws) (td_tasks d) (td_tasks d1)"
proof -
  have dist: "distinct (map tk_id (td_tasks d))" using assms(1) by (simp add: db_ok_def)
  have fin: "list_all2 (changes ws) (td_tasks d) (td_tasks (snd (finishTask now (wk_task w) (wk_claim w) st res msg d)))"
    if "wk_phase w = Finishing st res msg \<or> wk_phase w = Closing st res msg" for st res msg
  proof (cases "st = ''pending'' \<or> st = ''running''")
    case True
    then show ?thesis using finishing_inactive [OF assms(2) that assms(1) True] by simp
  next
    case False
    then show ?thesis using rows_finish [OF dist assms(3) that False] by blast
  qed
  have d1: "d1 = d \<or> (\<exists>owner admin p i. d1 = snd (import_item e now (wk_task w) (wk_claim w) owner admin p i d))
    \<or> (\<exists>st res msg. (wk_phase w = Finishing st res msg \<or> wk_phase w = Closing st res msg) \<and> d1 = snd (finishTask now (wk_task w) (wk_claim w) st res msg d))"
    using assms(4) by (fastforce simp: worker_step_def Let_def settle_def map_prod_def split: phase.splits fault.splits option.splits prod.splits if_splits)
  then show ?thesis using fin rows_import [of ws d] by auto
qed

definition new_task :: "('r, 'w) task_db \<Rightarrow> 'r task_row \<Rightarrow> bool" where
  "new_task d t \<longleftrightarrow> tk_status t = ''pending'' \<and> (\<forall>u\<in>set (td_tasks d). \<not> (tk_user u = tk_user t \<and> tk_key u = tk_key t)) \<and> length (filter (\<lambda>u. tk_user u = tk_user t \<and> active u) (td_tasks d)) < 10"

lemma createTask_rows:
  assumes "createTask e now fresh actor role kind key payload d = (r, d1)"
  shows "d1 = d \<or> (\<exists>t. td_tasks d1 = td_tasks d @ [t] \<and> new_task d t)"
  using assms unfolding createTask_def new_task_def by (auto simp: find_None_iff split: if_splits option.splits)

lemma create_rows:
  assumes "createExportTask e now fresh actor role key ids d = (r, d1) \<or> createImportTask e now fresh actor role key mode rules sz d = (r, d1)"
  shows "d1 = d \<or> (\<exists>t. td_tasks d1 = td_tasks d @ [t] \<and> new_task d t)"
proof -
  have "d1 = d \<or> (\<exists>kind payload. createTask e now fresh actor role kind key payload d = (r, d1))" using assms unfolding createExportTask_def createImportTask_def by (auto split: if_splits)
  then show ?thesis using createTask_rows by blast
qed

lemma step_rows:
  assumes "task_step e s s'" "task_inv e W s"
  shows "list_all2 (changes (tm_workers s)) (td_tasks (tm_db s)) (td_tasks (tm_db s')) \<or> (\<exists>t. td_tasks (tm_db s') = td_tasks (tm_db s) @ [t] \<and> new_task (tm_db s) t)"
  using assms(1)
proof cases
  case create_export
  then show ?thesis using create_rows [OF disjI1] by fastforce
next
  case create_import
  then show ?thesis using create_rows [OF disjI2] by fastforce
next
  case (cancel actor role tid r d)
  then have "d = tm_db s \<or> d = update_tasks (\<lambda>t. tk_id t = tid \<and> (tk_user t = actor \<or> role = ''admin'') \<and> active t) (\<lambda>t. t\<lparr>tk_cancel := True\<rparr>) (tm_db s)" by (auto simp: cancelTask_def Let_def split: if_splits)
  then have "list_all2 (changes (tm_workers s)) (td_tasks (tm_db s)) (td_tasks d)" by (auto simp: list_all2_map2 list_all2_same changes_def ident_def active_def)
  then show ?thesis using cancel by simp
next
  case (requeue now)
  then show ?thesis by (auto simp: requeue_def list_all2_map2 list_all2_same changes_def ident_def active_def success_def)
next
  case (claim c now tid claimed d)
  then have "d = update_tasks (\<lambda>t. tk_id t = tid \<and> tk_status t = ''pending'') (\<lambda>t. t\<lparr>tk_status := ''running'', tk_claim := c, tk_updated := now\<rparr>) (tm_db s)" by (simp add: claim_task_def Let_def)
  then show ?thesis using claim(1) by (auto simp: list_all2_map2 list_all2_same changes_def ident_def active_def success_def)
next
  case (work k now f ph d)
  then have "list_all2 (changes (tm_workers s)) (td_tasks (tm_db s)) (td_tasks d)" using rows_work [of e W "tm_claims s" "tm_db s" "tm_workers s ! k" "tm_workers s" now f ph d] assms(2) unfolding task_inv_iff by simp
  then show ?thesis using work by simp
next
  case (prune ids)
  then show ?thesis using list_all2_mono [OF rows_prune [of "tm_db s" ids], of "changes (tm_workers s)"] changes_mono by auto
qed simp_all

section \<open>Items\<close>

lemma work_logs:
  assumes "db_ok e W C d" "worker_ok e W d w" "worker_step e now f w d = (ph, d1)"
  shows "new_items d d1 = [] \<or> (\<exists>i t u p. new_items d d1 = [(wk_task w, i)] \<and> row_of d (wk_task w) = Some t \<and> tk_status t = ''running'' \<and> \<not> tk_cancel t \<and> tk_payload t = ImportPayload p \<and> i < length (ip_Rules p)
    \<and> map_of (td_users d) (tk_user t) = Some u \<and> \<not> tu_disabled u \<and> (tk_admin t \<longrightarrow> tu_role u = ''admin'')
    \<and> td_world d1 = (case te_import e (tk_user t) (tk_admin t) (ip_Rules p ! i) (ip_Mode p) (td_world d) of None \<Rightarrow> td_world d | Some (r, x) \<Rightarrow> x))"
proof (cases "td_items d1 = td_items d")
  case True
  then show ?thesis by (simp add: new_items_def)
next
  case False
  have fi: "td_items (snd (finishTask now (wk_task w) (wk_claim w) st res msg d)) = td_items d" for st res msg by (simp add: finishTask_def Let_def split: option.splits)
  have "\<exists>owner admin p i. wk_phase w = Importing owner admin p i \<and> i < length (ip_Rules p) \<and> d1 = snd (import_item e now (wk_task w) (wk_claim w) owner admin p i d)"
  proof (cases "wk_phase w")
    case (Importing owner admin p i)
    then show ?thesis using assms(3) False by (cases "i < length (ip_Rules p)") (auto simp: worker_step_def Let_def settle_def map_prod_def split: fault.splits option.splits prod.splits)
  next
    case (Finishing st res msg)
    then show ?thesis using assms(3) False fi [of st res msg] by (auto simp: worker_step_def Let_def split: fault.splits option.splits prod.splits)
  next
    case (Closing st res msg)
    then show ?thesis using assms(3) False fi [of st res msg] by (auto simp: worker_step_def Let_def split: if_splits)
  qed (use assms(3) False in \<open>auto simp: worker_step_def Let_def\<close>)
  then obtain owner admin p i where ph: "wk_phase w = Importing owner admin p i" "i < length (ip_Rules p)" and d1: "d1 = snd (import_item e now (wk_task w) (wk_claim w) owner admin p i d)" by blast
  have g: "taskGuard d (wk_task w) (wk_claim w) owner admin = None"
  proof (rule ccontr)
    assume "taskGuard d (wk_task w) (wk_claim w) owner admin \<noteq> None"
    then have "d1 = d" using d1 by (auto simp: import_item_def)
    then show False using False by simp
  qed
  obtain t u where t: "row_of d (wk_task w) = Some t" "t \<in> set (td_tasks d)" "tk_status t = ''running''" "tk_claim t = wk_claim w" "\<not> tk_cancel t" "map_of (td_users d) owner = Some u" "\<not> tu_disabled u" "admin \<longrightarrow> tu_role u = ''admin''"
    using guardD [OF g] by blast
  have pk: "tk_kind t = ''rules.import''" "tk_payload t = ImportPayload p" "owner = tk_user t" "admin = tk_admin t" using worker_okD(2) [OF assms(2) t(2,4,3)] ph(1) by (simp_all add: phase_ok_def)
  have ad: "ip_Admin p = tk_admin t" using db_rowD [OF assms(1) t(2)] t(3) pk(1,2) by (auto simp: row_ok_def active_def payload_fits_def)
  have nw: "(wk_task w, i) \<notin> fst ` set (td_items d)"
  proof
    assume "(wk_task w, i) \<in> fst ` set (td_items d)"
    then have "d1 = d" using d1 g by (simp add: import_item_def)
    then show False using False by simp
  qed
  have "new_items d d1 = [(wk_task w, i)]" using d1 g nw by (simp add: new_items_def import_item_def Let_def)
  moreover have "td_world d1 = (case te_import e (tk_user t) (tk_admin t) (ip_Rules p ! i) (ip_Mode p) (td_world d) of None \<Rightarrow> td_world d | Some (r, x) \<Rightarrow> x)"
    using d1 g nw pk(3) ad by (simp add: import_item_def Let_def)
  ultimately show ?thesis using t pk ph(2) by blast
qed

inductive_cases run_stepE: "task_run e (s' # s # h)"

lemma task_run_inv: "task_run e (s # h) \<Longrightarrow> task_inv e (past (s # h)) s"
  using task_invariant by fastforce

lemma run_step: "task_run e (s' # s # h) \<Longrightarrow> task_step e s s' \<and> task_inv e (past (s # h)) s \<and> task_inv e (past (s' # s # h)) s'"
  using task_run_inv by (auto elim: run_stepE)

section \<open>Requests\<close>

definition keys_ok :: "('r, 'w) task_db \<Rightarrow> bool" where
  "keys_ok d \<longleftrightarrow> distinct (map (\<lambda>t. (tk_user t, tk_key t)) (td_tasks d)) \<and> (\<forall>u. length (filter (\<lambda>t. tk_user t = u \<and> active t) (td_tasks d)) \<le> 10)"

lemma changes_ident: "list_all2 (changes ws) xs ys \<Longrightarrow> map ident ys = map ident xs"
  by (induction rule: list_all2_induct) (simp_all add: changes_def)

lemma changes_active: "list_all2 (changes ws) xs ys \<Longrightarrow> length (filter (\<lambda>t. tk_user t = u \<and> active t) ys) \<le> length (filter (\<lambda>t. tk_user t = u \<and> active t) xs)"
  by (induction rule: list_all2_induct) (auto simp: changes_def ident_def)

lemma keys_step:
  assumes "task_step e s s'" "task_inv e W s" "keys_ok (tm_db s)"
  shows "keys_ok (tm_db s') \<and> ident ` set (td_tasks (tm_db s)) \<subseteq> ident ` set (td_tasks (tm_db s'))"
  using step_rows [OF assms(1,2)]
proof
  assume l: "list_all2 (changes (tm_workers s)) (td_tasks (tm_db s)) (td_tasks (tm_db s'))"
  note m = changes_ident [OF l]
  have e: "map (\<lambda>t. (tk_user t, tk_key t)) ts = map (\<lambda>(i, u, k, h, y). (u, y)) (map ident ts)" for ts :: "'a task_row list" by (simp add: ident_def)
  have "map (\<lambda>t. (tk_user t, tk_key t)) (td_tasks (tm_db s')) = map (\<lambda>t. (tk_user t, tk_key t)) (td_tasks (tm_db s))" by (simp only: e m)
  moreover have "ident ` set (td_tasks (tm_db s')) = ident ` set (td_tasks (tm_db s))" using m by (metis set_map)
  moreover have "length (filter (\<lambda>t. tk_user t = u \<and> active t) (td_tasks (tm_db s'))) \<le> 10" for u using changes_active [OF l, of u] assms(3) unfolding keys_ok_def by (meson order_trans)
  ultimately show ?thesis using assms(3) unfolding keys_ok_def by simp
next
  assume "\<exists>t. td_tasks (tm_db s') = td_tasks (tm_db s) @ [t] \<and> new_task (tm_db s) t"
  then obtain t where t: "td_tasks (tm_db s') = td_tasks (tm_db s) @ [t]" "new_task (tm_db s) t" by blast
  have "length (filter (\<lambda>t. tk_user t = u \<and> active t) (td_tasks (tm_db s'))) \<le> 10" for u
    using assms(3) t(2) unfolding keys_ok_def new_task_def t(1) by (cases "tk_user t = u") auto
  moreover have "distinct (map (\<lambda>t. (tk_user t, tk_key t)) (td_tasks (tm_db s')))" using assms(3) t(2) unfolding keys_ok_def new_task_def t(1) by auto
  ultimately show ?thesis unfolding keys_ok_def t(1) by auto
qed

lemma run_keys: "task_run e h \<Longrightarrow> keys_ok (tm_db (hd h)) \<and> (\<forall>s\<in>set h. ident ` set (td_tasks (tm_db s)) \<subseteq> ident ` set (td_tasks (tm_db (hd h))))"
proof (induction rule: task_run.induct)
  case (start us w)
  then show ?case by (simp add: keys_ok_def task_init_def)
next
  case (more s h s')
  then have "keys_ok (tm_db s')" "ident ` set (td_tasks (tm_db s)) \<subseteq> ident ` set (td_tasks (tm_db s'))" using keys_step [OF more.hyps(2) task_run_inv [OF more.hyps(1)]] by simp_all
  then show ?case using more.IH by simp blast
qed

lemma createTask_Inr:
  assumes "createTask e now fresh actor role kind key payload d = (Inr (tid, st), d1)"
  shows "(tid, actor, kind, te_digest e payload, key) \<in> ident ` set (td_tasks d1)" "1 \<le> length key" "length key \<le> 128"
proof -
  have "\<not> (length key < 1 \<or> length key > 128)"
  proof
    assume "length key < 1 \<or> length key > 128"
    then show False using assms by (simp add: createTask_def)
  qed
  then show "1 \<le> length key" "length key \<le> 128" by linarith+
  show "(tid, actor, kind, te_digest e payload, key) \<in> ident ` set (td_tasks d1)"
  proof (cases "find (\<lambda>t. tk_user t = actor \<and> tk_key t = key) (td_tasks d)")
    case None
    then show ?thesis using assms by (auto simp: createTask_def ident_def split: if_splits option.splits)
  next
    case (Some t)
    then have "t \<in> set (td_tasks d)" "tk_user t = actor" "tk_key t = key" by (auto simp: find_Some_iff)
    moreover have "d1 = d" "tk_id t = tid" "tk_kind t = kind" "tk_hash t = te_digest e payload" using assms Some by (auto simp: createTask_def split: if_splits option.splits)
    ultimately show ?thesis by (auto simp: ident_def intro!: image_eqI [of _ ident t])
  qed
qed

lemma find_key:
  assumes "keys_ok d" "t \<in> set (td_tasks d)"
  shows "find (\<lambda>u. tk_user u = tk_user t \<and> tk_key u = tk_key t) (td_tasks d) = Some t"
proof -
  obtain u where u: "find (\<lambda>u. tk_user u = tk_user t \<and> tk_key u = tk_key t) (td_tasks d) = Some u"
    using assms(2) by (cases "find (\<lambda>u. tk_user u = tk_user t \<and> tk_key u = tk_key t) (td_tasks d)") (auto simp: find_None_iff)
  then have "u \<in> set (td_tasks d)" "(tk_user u, tk_key u) = (tk_user t, tk_key t)" by (auto simp: find_Some_iff)
  then have "u = t" using assms unfolding keys_ok_def by (simp add: distinct_map inj_on_def)
  then show ?thesis using u by simp
qed

section \<open>An example\<close>

text \<open>Moves that a function computes; each is a step.\<close>

datatype 'r task_move = MImport int string string string string string "'r list" int | MExport int string string string string "string list" | MClaim int string string | MWork nat int fault

definition apply_move :: "('r, 'w) task_env \<Rightarrow> 'r task_move \<Rightarrow> ('r, 'w) task_machine \<Rightarrow> ('r, 'w) task_machine" where
  "apply_move e m s = (case m of
     MImport now fresh actor role key mode rules sz \<Rightarrow> s\<lparr>tm_db := snd (createImportTask e now fresh actor role key mode rules sz (tm_db s))\<rparr>
   | MExport now fresh actor role key ids \<Rightarrow> s\<lparr>tm_db := snd (createExportTask e now fresh actor role key ids (tm_db s))\<rparr>
   | MClaim now c tid \<Rightarrow> if c \<notin> tm_claims s \<and> c \<noteq> '''' then (case claim_task now c tid (tm_db s) of (claimed, d) \<Rightarrow>
       s\<lparr>tm_db := d, tm_claims := insert c (tm_claims s), tm_workers := tm_workers s @ (if claimed then [\<lparr>wk_task = tid, wk_claim = c, wk_phase = Begin\<rparr>] else [])\<rparr>) else s
   | MWork k now f \<Rightarrow> if k < length (tm_workers s) then (case worker_step e now f (tm_workers s ! k) (tm_db s) of (ph, d) \<Rightarrow>
       s\<lparr>tm_db := d, tm_workers := advance k ph (tm_workers s), tm_log := tm_log s @ new_items (tm_db s) d\<rparr>) else s)"

lemma stay_step: "task_step e s s"
  using task_step.edit [of e s "td_world (tm_db s)" "td_users (tm_db s)"] by simp

lemma apply_move_step: "task_step e s (apply_move e m s)"
proof (cases m)
  case (MClaim now c tid)
  obtain claimed d where "claim_task now c tid (tm_db s) = (claimed, d)" by (cases "claim_task now c tid (tm_db s)")
  then show ?thesis using MClaim task_step.claim [of c s now tid claimed d e] by (simp add: apply_move_def stay_step)
qed (auto simp: apply_move_def stay_step intro: task_step.create_import [OF surjective_pairing] task_step.create_export [OF surjective_pairing] task_step.work split: prod.splits)

fun moves :: "('r, 'w) task_env \<Rightarrow> 'r task_move list \<Rightarrow> ('r, 'w) task_machine list \<Rightarrow> ('r, 'w) task_machine list" where
  "moves e [] h = h"
| "moves e (m # ms) h = moves e ms (apply_move e m (hd h) # h)"

lemma moves_run: "task_run e h \<Longrightarrow> h \<noteq> [] \<Longrightarrow> task_run e (moves e ms h)"
proof (induction ms arbitrary: h)
  case (Cons m ms)
  then obtain s h0 where "h = s # h0" by (cases h) auto
  moreover from this have "task_run e (apply_move e m s # s # h0)" using Cons.prems task_run.more [OF _ apply_move_step] by blast
  ultimately show ?case using Cons.IH by simp
qed simp

definition tasks_demo_env :: "(nat, nat list) task_env" where
  "tasks_demo_env = \<lparr>te_import = (\<lambda>owner admin r mode w. if r = 0 then None else Some (r, w @ [r])), te_rules = map (\<lambda>r. \<lparr>rr_id = ''r'', rr_user = ''u'', rr_deleted = False, rr_rule = Some r\<rparr>), te_redact = (\<lambda>r. r), te_digest = (\<lambda>p. ''h'')\<rparr>"

definition tasks_demo_start :: "(nat, nat list) task_machine" where
  "tasks_demo_start = task_init [(''u'', \<lparr>tu_role = ''user'', tu_disabled = False\<rparr>)] []"

definition tasks_demo_moves :: "nat task_move list" where
  "tasks_demo_moves = [MImport 0 ''t'' ''u'' ''user'' ''k'' ''create'' [5, 0] 10, MClaim 1 ''c'' ''t'', MWork 0 2 Sound, MWork 0 3 Sound, MWork 0 4 Sound, MWork 0 5 Sound, MWork 0 6 Sound,
     MExport 7 ''x'' ''u'' ''user'' ''l'' [], MClaim 8 ''d'' ''x'', MWork 0 9 Sound, MWork 0 10 Sound, MWork 0 11 Sound]"

definition tasks_demo_after :: "nat \<Rightarrow> (nat, nat list) task_machine list" where
  "tasks_demo_after n = moves tasks_demo_env (take n tasks_demo_moves) [tasks_demo_start]"

lemma tasks_demo_run: "task_run tasks_demo_env (tasks_demo_after n)"
  unfolding tasks_demo_after_def by (rule moves_run) (simp_all add: tasks_demo_start_def task_run.start)

lemma tasks_demo_logged: "tm_log (hd (tasks_demo_after 4)) = [(''t'', 0)]" "tasks_demo_after 4 = hd (tasks_demo_after 4) # tasks_demo_after 3" "tm_log (hd (tasks_demo_after 3)) = []" "td_world (tm_db (hd (tasks_demo_after 4))) = [5]"
  by code_simp+

lemma result_indices:
  assumes "db_ok e W C d" "t \<in> set (td_tasks d)" "tk_id t = tid" "active t" "tk_payload t = ImportPayload p" "items_complete (items_of d tid) p (length (ip_Rules p))"
  shows "map ti_Index (result_list (items_of d tid)) = [0..<length (ip_Rules p)]"
proof -
  let ?its = "items_of d tid" and ?k = "\<lambda>((t, i), x). i :: nat"
  have it: "fst (fst x) = tid \<and> x \<in> set (td_items d)" if "x \<in> set ?its" for x using that by (auto simp: items_of_def)
  have idx: "ti_Index (snd x) = ?k x \<and> ?k x < length (ip_Rules p)" if x: "x \<in> set ?its" for x
  proof -
    obtain i y where xy: "x = ((tid, i), y)" using it [OF x] by (metis prod.collapse)
    have "item_ok d x" using assms(1) it [OF x] unfolding db_ok_def by blast
    then obtain u where u: "ti_Index y = i" "u \<in> set (td_tasks d)" "tk_id u = tid" "active u \<longrightarrow> (\<exists>p. tk_payload u = ImportPayload p \<and> i < length (ip_Rules p))" unfolding item_ok_def xy by auto
    have "u = t" using row_unique [OF _ u(2) assms(2)] u(3) assms(1,3) unfolding db_ok_def by simp
    then show ?thesis using u assms(4,5) xy by auto
  qed
  have m: "map ti_Index (result_list ?its) = map ?k (sort_key ?k ?its)" unfolding result_list_def using idx by (auto simp: o_def)
  have "distinct (map fst ?its)" using assms(1) unfolding db_ok_def items_of_def by (simp add: distinct_map_filter)
  then have "inj_on ?k (set ?its)" using it unfolding distinct_map inj_on_def by (metis (no_types, lifting) case_prod_beta prod_eqI)
  moreover have "distinct ?its" using \<open>distinct (map fst ?its)\<close> by (simp add: distinct_map)
  ultimately have "distinct (map ?k (sort_key ?k ?its))" by (simp add: distinct_map)
  moreover have "set (map ?k (sort_key ?k ?its)) = {0..<length (ip_Rules p)}"
  proof
    show "set (map ?k (sort_key ?k ?its)) \<subseteq> {0..<length (ip_Rules p)}" using idx by auto
    show "{0..<length (ip_Rules p)} \<subseteq> set (map ?k (sort_key ?k ?its))" using assms(6) unfolding items_complete_def by (force simp: image_iff split: prod.splits)
  qed
  moreover have "sorted (map ?k (sort_key ?k ?its))" by simp
  ultimately show ?thesis unfolding m by (metis atLeastLessThan_upt sorted_distinct_set_unique sorted_upt distinct_upt)
qed

lemma tasks_demo_finished: "tasks_demo_after 7 = hd (tasks_demo_after 7) # hd (tasks_demo_after 6) # tl (tasks_demo_after 6)"
  by code_simp

lemma tasks_demo_rows:
  "map_option (\<lambda>t. (tk_status t, tk_kind t)) (row_of (tm_db (hd (tasks_demo_after 6))) ''t'') = Some (''running'', ''rules.import'')"
  "map_option tk_status (row_of (tm_db (hd (tasks_demo_after 7))) ''t'') = Some ''completed_with_errors''"
  "map_sum id tk_result (task_view ''u'' ''user'' ''x'' (tm_db (hd (tasks_demo_after 12)))) = Inr (ExportResult [5])"
  "map_of (td_users (tm_db (hd (tasks_demo_after 12)))) ''u'' = Some \<lparr>tu_role = ''user'', tu_disabled = False\<rparr>"
  by code_simp+

section \<open>Properties\<close>

text \<open>C35: Whatever requests, workers of any number of processes, crashes, failed and unreported transactions, pruning and edits of accounts come together: no item of an import is imported twice, and every item that is
  imported belongs to a running task that nobody has cancelled, whose owner is not disabled at that moment and, if it was requested as administrator, still is one; it is imported with the rights of the request.\<close>

theorem import_once_while_authorized:
  assumes "task_run e (s' # s # h)"
  shows "distinct (tm_log s') \<and> (tm_log s' = tm_log s \<or> (\<exists>tid i t u p. tm_log s' = tm_log s @ [(tid, i)] \<and> row_of (tm_db s) tid = Some t \<and> tk_status t = ''running'' \<and> \<not> tk_cancel t
    \<and> tk_payload t = ImportPayload p \<and> i < length (ip_Rules p) \<and> map_of (td_users (tm_db s)) (tk_user t) = Some u \<and> \<not> tu_disabled u \<and> (if tk_admin t then tu_role u = ''admin'' else True)
    \<and> td_world (tm_db s') = (case te_import e (tk_user t) (tk_admin t) (ip_Rules p ! i) (ip_Mode p) (td_world (tm_db s)) of None \<Rightarrow> td_world (tm_db s) | Some (r, w) \<Rightarrow> w)))"
proof -
  note r = run_step [OF assms]
  have "distinct (tm_log s')" using r by (simp add: task_inv_def)
  moreover from r have "task_step e s s'" by blast
  then show ?thesis
  proof cases
    case (work k now f ph d)
    have "db_ok e (past (s # h)) (tm_claims s) (tm_db s)" "worker_ok e (past (s # h)) (tm_db s) (tm_workers s ! k)" using r work(2) unfolding task_inv_iff by simp_all
    from work_logs [OF this work(3)] show ?thesis using calculation work(1) by auto
  qed (use calculation in auto)
qed

lemma import_once_while_authorized_witness:
  "distinct (tm_log (hd (tasks_demo_after 4))) \<and> tm_log (hd (tasks_demo_after 4)) = [(''t'', 0)] \<and> tm_log (hd (tasks_demo_after 3)) = []"
  using import_once_while_authorized [of tasks_demo_env "hd (tasks_demo_after 4)" "hd (tasks_demo_after 3)" "tl (tasks_demo_after 3)"] tasks_demo_run [of 4] tasks_demo_logged by simp

text \<open>C36: When an import is stored as completed, every item of its payload has an outcome: the stored result lists them in order, as the workers recorded them, however often the task changed hands; and the status says
  whether an item was rejected.\<close>

theorem completed_import_is_complete:
  assumes "task_run e (s' # s # h)" "row_of (tm_db s) tid = Some t" "tk_status t = ''running''" "tk_kind t = ''rules.import''" "row_of (tm_db s') tid = Some t'"
    and "tk_status t' = ''completed'' \<or> tk_status t' = ''completed_with_errors''"
  shows "\<exists>p items. tk_payload t = ImportPayload p \<and> tk_result t' = ItemsResult items \<and> map ti_Index items = [0..<length (ip_Rules p)] \<and> set items = snd ` {x \<in> set (td_items (tm_db s)). fst (fst x) = tid}
    \<and> (tk_status t' = ''completed'' \<longleftrightarrow> list_all (\<lambda>x. ti_Error x = '''') items)"
proof -
  note r = run_step [OF assms(1)]
  let ?W = "past (s # h)" and ?d = "tm_db s"
  have i: "db_ok e ?W (tm_claims s) ?d" "\<And>w. w \<in> set (tm_workers s) \<Longrightarrow> worker_ok e ?W ?d w" using r unfolding task_inv_iff by blast+
  have t: "t \<in> set (td_tasks ?d)" "tk_id t = tid" "t' \<in> set (td_tasks (tm_db s'))" "tk_id t' = tid" using row_of_Some [OF assms(2)] row_of_Some [OF assms(5)] by auto
  have su: "success (tk_status t')" "\<not> success (tk_status t)" using assms(3,6) by (auto simp: success_def)
  have "changes (tm_workers s) t t'"
    using step_rows [OF conjunct1 [OF r] conjunct1 [OF conjunct2 [OF r]]]
  proof
    assume l: "list_all2 (changes (tm_workers s)) (td_tasks ?d) (td_tasks (tm_db s'))"
    then obtain x where x: "x \<in> set (td_tasks ?d)" "changes (tm_workers s) x t'" using t(3) by (metis in_set_conv_nth list_all2_conv_all_nth)
    then have "tk_id x = tid" using t(4) by (simp add: changes_def ident_def)
    then show ?thesis using row_unique [of "td_tasks ?d" x t] i(1) x t(1,2) by (simp add: db_ok_def)
  next
    assume "\<exists>x. td_tasks (tm_db s') = td_tasks ?d @ [x] \<and> new_task ?d x"
    then obtain x where x: "td_tasks (tm_db s') = td_tasks ?d @ [x]" "new_task ?d x" by blast
    have "t' \<noteq> x" using su(1) x(2) by (auto simp: new_task_def success_def)
    then have "t' \<in> set (td_tasks ?d)" using t(3) x(1) by simp
    then show ?thesis using row_unique [of "td_tasks ?d" t' t] i(1) t by (simp add: db_ok_def)
  qed
  then obtain w where w: "w \<in> set (tm_workers s)" "finished_by w t t'" using su by (auto simp: changes_def)
  then have "finish_ok e ?W (items_of ?d tid) t (tk_status t') (tk_result t')"
    using worker_okD [OF i(2) [OF w(1)] t(1) _ assms(3)] t(2) unfolding finished_by_def phase_ok_def by auto
  then obtain p where p: "tk_payload t = ImportPayload p" "items_complete (items_of ?d tid) p (length (ip_Rules p))" "tk_result t' = ItemsResult (result_list (items_of ?d tid))"
    "tk_status t' = ''completed'' \<longleftrightarrow> (\<forall>x\<in>set (result_list (items_of ?d tid)). ti_Error x = '''')" using assms(4) su(1) unfolding finish_ok_def by auto
  have "map ti_Index (result_list (items_of ?d tid)) = [0..<length (ip_Rules p)]" by (rule result_indices [OF i(1) t(1,2) _ p(1,2)]) (simp add: assms(3) active_def)
  moreover have "set (result_list (items_of ?d tid)) = snd ` {x \<in> set (td_items ?d). fst (fst x) = tid}" by (auto simp: result_list_def items_of_def)
  ultimately show ?thesis using p(1,3,4) by (auto simp: list_all_iff)
qed

lemma completed_import_is_complete_witness:
  "\<exists>t t' p items. row_of (tm_db (hd (tasks_demo_after 6))) ''t'' = Some t \<and> row_of (tm_db (hd (tasks_demo_after 7))) ''t'' = Some t' \<and> tk_payload t = ImportPayload p \<and> tk_result t' = ItemsResult items
     \<and> map ti_Index items = [0..<length (ip_Rules p)] \<and> (tk_status t' = ''completed'' \<longleftrightarrow> list_all (\<lambda>x. ti_Error x = '''') items)"
proof -
  obtain t where t: "row_of (tm_db (hd (tasks_demo_after 6))) ''t'' = Some t" "tk_status t = ''running''" "tk_kind t = ''rules.import''"
    using tasks_demo_rows(1) by auto
  obtain t' where t': "row_of (tm_db (hd (tasks_demo_after 7))) ''t'' = Some t'" "tk_status t' = ''completed_with_errors''" using tasks_demo_rows(2) by auto
  have "task_run tasks_demo_env (hd (tasks_demo_after 7) # hd (tasks_demo_after 6) # tl (tasks_demo_after 6))" using tasks_demo_run [of 7] tasks_demo_finished by simp
  from completed_import_is_complete [OF this t t'(1)] t'(2) t(1) t'(1) show ?thesis by blast
qed

text \<open>C37: What a user who is not an administrator sees of an export are rules of their own: each is the redacted form of a rule that belonged to them and was not deleted when it was exported.\<close>

theorem exports_stay_private:
  assumes "task_run e (s # h)" "task_view actor role tid (tm_db s) = Inr t" "role \<noteq> ''admin''" "tk_result t = ExportResult rs"
  shows "\<exists>s0\<in>set (s # h). \<forall>r\<in>set rs. \<exists>row\<in>set (te_rules e (td_world (tm_db s0))). \<exists>r0. \<not> rr_deleted row \<and> rr_user row = actor \<and> rr_rule row = Some r0 \<and> r = te_redact e r0"
proof -
  have "row_of (tm_db s) tid = Some t \<and> tk_user t = actor \<and> \<not> tk_admin t" using assms(2-4) by (auto simp: task_view_def split: option.splits if_splits)
  then have t: "t \<in> set (td_tasks (tm_db s))" "tk_user t = actor" "\<not> tk_admin t" using row_of_Some by blast+
  have "row_ok e (past (s # h)) (tm_claims s) t" using task_run_inv [OF assms(1)] t(1) unfolding task_inv_iff db_ok_def by blast
  then have "exported e (past (s # h)) actor False rs" using assms(4) t(2,3) by (simp add: row_ok_def)
  then show ?thesis unfolding exported_def past_def by blast
qed

lemma exports_stay_private_witness:
  "\<exists>s0\<in>set (tasks_demo_after 12). \<exists>row\<in>set (te_rules tasks_demo_env (td_world (tm_db s0))). rr_user row = ''u'' \<and> rr_rule row = Some 5"
proof -
  obtain t where t: "task_view ''u'' ''user'' ''x'' (tm_db (hd (tasks_demo_after 12))) = Inr t" "tk_result t = ExportResult [5]"
    using tasks_demo_rows(3) by (cases "task_view ''u'' ''user'' ''x'' (tm_db (hd (tasks_demo_after 12)))") auto
  have h: "tasks_demo_after 12 = hd (tasks_demo_after 12) # tl (tasks_demo_after 12)" using task_invariant [OF tasks_demo_run [of 12]] by simp
  have r: "task_run tasks_demo_env (hd (tasks_demo_after 12) # tl (tasks_demo_after 12))" using tasks_demo_run [of 12] h by simp
  have "\<exists>s0\<in>set (tasks_demo_after 12). \<forall>r\<in>set [5]. \<exists>row\<in>set (te_rules tasks_demo_env (td_world (tm_db s0))). \<exists>r0. \<not> rr_deleted row \<and> rr_user row = ''u'' \<and> rr_rule row = Some r0 \<and> r = te_redact tasks_demo_env r0"
    using exports_stay_private [OF r t(1) _ t(2)] h by auto
  then show ?thesis by (auto simp: tasks_demo_env_def)
qed

text \<open>A request for a task that is repeated with its key, after any time and whatever has happened, returns the same task and changes nothing; and no user has more than ten unfinished tasks.\<close>

theorem task_requests_idempotent:
  assumes "task_run e (s # h)" "s1 \<in> set (s # h)" "createTask e now fresh actor role kind key payload d = (Inr (tid, st), tm_db s1)"
    and "map_of (td_users (tm_db s)) actor = Some u" "\<not> tu_disabled u"
  shows "(\<exists>t. row_of (tm_db s) tid = Some t \<and> createTask e now' fresh' actor role' kind key payload (tm_db s) = (Inr (tid, tk_status t), tm_db s))
    \<and> length (filter (\<lambda>t. tk_user t = a \<and> active t) (td_tasks (tm_db s))) \<le> 10"
proof -
  note k = run_keys [OF assms(1), simplified]
  have ko: "keys_ok (tm_db s)" using k by blast
  have "(tid, actor, kind, te_digest e payload, key) \<in> ident ` set (td_tasks (tm_db s1))" by (rule createTask_Inr(1) [OF assms(3)])
  then have "(tid, actor, kind, te_digest e payload, key) \<in> ident ` set (td_tasks (tm_db s))" using k assms(2) by auto
  then obtain t where t: "t \<in> set (td_tasks (tm_db s))" "tk_id t = tid" "tk_user t = actor" "tk_kind t = kind" "tk_hash t = te_digest e payload" "tk_key t = key" by (auto simp: ident_def)
  have "find (\<lambda>x. tk_user x = actor \<and> tk_key x = key) (td_tasks (tm_db s)) = Some t" using find_key [OF ko t(1)] t(3,6) by simp
  then have "createTask e now' fresh' actor role' kind key payload (tm_db s) = (Inr (tid, tk_status t), tm_db s)"
    using createTask_Inr(2,3) [OF assms(3)] assms(4,5) t by (cases key) (simp_all add: createTask_def)
  moreover have "row_of (tm_db s) tid = Some t" using row_of_mem [OF _ t(1)] t(2) task_run_inv [OF assms(1)] unfolding task_inv_iff db_ok_def by blast
  ultimately show ?thesis using ko unfolding keys_ok_def by blast
qed

lemma task_requests_idempotent_witness:
  "\<exists>t. row_of (tm_db (hd (tasks_demo_after 12))) ''t'' = Some t \<and> createTask tasks_demo_env 99 ''z'' ''u'' ''user'' ''rules.import'' ''k'' (ImportPayload \<lparr>ip_Mode = ''create'', ip_Rules = [5, 0], ip_Admin = False\<rparr>) (tm_db (hd (tasks_demo_after 12)))
     = (Inr (''t'', tk_status t), tm_db (hd (tasks_demo_after 12)))"
proof -
  let ?p = "ImportPayload \<lparr>ip_Mode = ''create'', ip_Rules = [5, 0], ip_Admin = False\<rparr>"
  let ?s1 = "apply_move tasks_demo_env (hd tasks_demo_moves) tasks_demo_start"
  have h: "tasks_demo_after 12 = hd (tasks_demo_after 12) # tl (tasks_demo_after 12)" using task_invariant [OF tasks_demo_run [of 12]] by simp
  have r: "task_run tasks_demo_env (hd (tasks_demo_after 12) # tl (tasks_demo_after 12))" using tasks_demo_run [of 12] h by simp
  have "?s1 \<in> set (tasks_demo_after 12)" by (simp add: tasks_demo_after_def tasks_demo_moves_def)
  then have m: "?s1 \<in> set (hd (tasks_demo_after 12) # tl (tasks_demo_after 12))" using h by simp
  have c: "createTask tasks_demo_env 0 ''t'' ''u'' ''user'' ''rules.import'' ''k'' ?p (tm_db tasks_demo_start) = (Inr (''t'', ''pending''), tm_db ?s1)"
    by (simp add: createTask_def tasks_demo_start_def task_init_def apply_move_def tasks_demo_moves_def createImportTask_def validImportMode_def tasks_demo_env_def)
  have u: "map_of (td_users (tm_db (hd (tasks_demo_after 12)))) ''u'' = Some \<lparr>tu_role = ''user'', tu_disabled = False\<rparr>" by (rule tasks_demo_rows(4))
  show ?thesis using task_requests_idempotent [OF r m c u, of 99 "''z''" "''user''"] by simp
qed

end
