(* ===== verification/Spec2Isabelle.thy ===== *)
theory Spec2Isabelle
  imports Agent_Props Wal_Props Request_Props Purchase_Props Control_Props Http_Props Failover_Props Slots Frames Exit_Props Association_Safety Datagram_Delivery Obfuscation_Props Tasks_Props
begin

text \<open>
  \<^bold>\<open>Verification of the accounting core and the forwarding decisions of the Traffic Forwarding Panel\<close>

  The panel sells traffic. Agents forward it on nodes; the control plane gives every forwarding rule \<^emph>\<open>leases\<close>, numbers of bytes that the node
  may forward before it has to ask again; the commerce service takes the bytes of a lease out of the quota that a user bought and keeps
  the users' money. A mistake in these parts gives traffic away, bills a user twice, or loses money. This library models
  them as they are written in Go and proves that the books always balance. It also models how the nodes decide what to forward and where to: the traffic policy with its HTTP
  filter, the choice of a backend, the limits on connections, and the frames, datagrams and exits of tunnels.

  \<^bold>\<open>Parts and theories\<close>

  \<^item> \<open>Go_Prelude\<close>: Go's integers, maps as association lists, errors as sums (\<open>bindE\<close>, \<open>runE\<close>), the interfaces \<open>finite_map\<close>, which
    association lists provide, and \<open>guarded_machine\<close>: a fallible step function with an admissibility condition and an invariant. The machines of the Agent, of
    the commerce service and of the panel are interpretations of it, and their theorems about runs come from its \<open>run_inv\<close>. \<open>Bytes\<close> has big-endian numbers.
  \<^item> \<open>Contract\<close>: leases, rules, usage records and limits (\<open>internal/contract/types.go\<close>, \<open>limits.go\<close>).
  \<^item> The Agent (\<open>internal/agent\<close>). \<open>Ledger\<close> is the durable state (\<open>diskState\<close>) with \<open>validateEvent\<close>, \<open>applyEvent\<close>, snapshots and
    pruning (\<open>state.go\<close>, \<open>credits.go\<close>, \<open>durable_bounds.go\<close>); \<open>Store\<close> is the state in memory with its credit windows, charges, reservations
    and the writer's batches; \<open>Wal\<close> is the write-ahead log, byte by byte, with its checksums and checkpoints (\<open>wal.go\<close>).
    \<open>Ledger_Inv\<close>, \<open>Store_Inv\<close>, \<open>Store_Reserve\<close> and \<open>Store_Run\<close> hold the invariants and the machine; \<open>Agent_Props\<close> and \<open>Wal_Props\<close> the
    properties: a lease is never overspent under any interleaving of charges and batches, the log replays to the state, a crash keeps what was
    acknowledged, and a damaged byte is never replayed.
  \<^item> Money (\<open>internal/commerce\<close>). \<open>Commerce\<close> is the database of the service, the journal, wallets and the origin of money (\<open>service.go\<close>, \<open>funding.go\<close>, \<open>events.go\<close>);
    \<open>Billing\<close> plans, purchases, add-ons, renewals, codes and commissions (\<open>plans.go\<close>, \<open>lifecycle.go\<close>, \<open>plan_units.go\<close>, \<open>duration.go\<close>);
    \<open>Money\<close> amounts as texts (\<open>contract/money.go\<close>, \<open>payment/epay.go\<close>); \<open>Orders\<close> payment orders over every kind of gateway, reconciliation and
    refunds (\<open>orders.go\<close>, \<open>channels.go\<close>, \<open>manual.go\<close>, \<open>reconciliation.go\<close>, \<open>refunds.go\<close>); \<open>Pricing\<close> fees, quotes, delays and months. \<open>Wallet_Inv\<close>, \<open>Books\<close>
    and \<open>Order_Inv\<close> hold the invariants, \<open>Commerce_Run\<close> the machine of all requests, and \<open>Commerce_Props\<close>, \<open>Request_Props\<close> and
    \<open>Purchase_Props\<close> the properties.
  \<^item> Quota (\<open>quota.go\<close>, \<open>usage_batch.go\<close>, \<open>internal/storage/queries.go\<close>). \<open>Quota\<close> reserves, settles and returns bytes of an entitlement; \<open>Quota_Inv\<close>
    shows that an entitlement is never oversold and that rounding is done once per lease.
  \<^item> The control plane (\<open>internal/platform/leases.go\<close>, \<open>lease_set.go\<close>, \<open>usage_batch.go\<close> and the policy checks they call). \<open>Control\<close> has its
    handlers on both books; \<open>Metering\<close> shows that no other request of the commerce service touches leases; \<open>Control_Inv\<close> that the
    books agree; \<open>Upload\<close> when an upload succeeds; \<open>Control_Props\<close> the machine of the whole panel and its properties.
  \<^item> Traffic policy (\<open>internal/policy\<close>). \<open>Policy\<close> has host and path patterns, the normalisation of policy layers and their checks (\<open>match.go\<close>, \<open>inspection_config.go\<close>); \<open>Http_Filter\<close>
    the filter that checks every request of an HTTP/1 connection while it streams (\<open>http.go\<close>). \<open>Policy_Props\<close> shows that the path matcher decides a glob (on paths without a star) and that
    a blocked path cannot be disguised; \<open>Http_Props\<close> that only checked requests with exactly their bodies leave the filter, and that all of them do.
  \<^item> SOCKS5 associations (\<open>internal/policy/association\<close>). \<open>Association\<close> has the registry of the relationships that the operator allows and of the control connections (\<open>registry.go\<close>) and the observer that
    reads along on a handshake (\<open>observer.go\<close>); \<open>Association_Props\<close> the invariant of the registry and its index, \<open>Association_Run\<close> what an observer has seen in each stage, and \<open>Association_Safety\<close>
    the machine of all their operations: a proof stands for a whole handshake, and a revoked proof never becomes valid again.
  \<^item> Backends and limits (\<open>internal/agent/failover.go\<close>, \<open>limits.go\<close>). \<open>Failover\<close> has the weighted round robin, the circuit breaker and the attempts of a connection, \<open>Failover_Props\<close> its
    fairness, its rests and that a healthy backend is reached; \<open>Slots\<close> the slots of connections and addresses of an account. \<open>Breaker\<close> is the contract of a circuit breaker; the choice of
    a backend and the exits are interpretations of it.
  \<^item> Tunnels (\<open>internal/tunnel\<close>). \<open>Frames\<close> has the frames of a session with their round trip (\<open>tunnel.go\<close>); \<open>Exit\<close> what an exit does with a request (\<open>serveRequest\<close>, \<open>chain.go\<close>, \<open>group_policy.go\<close>);
    \<open>Exit_Props\<close> that routes end and that failed targets rest. \<open>Datagram\<close> has the flows of UDP packets over one QUIC connection (\<open>datagram.go\<close>, to line 470): cutting into frames, reassembly and queues;
    \<open>Datagram_Inv\<close> bounds their memory, \<open>Datagram_Wire\<close> relates frames to packets, \<open>Datagram_Props\<close> has both ends with a connection that loses, repeats and reorders frames, and \<open>Datagram_Delivery\<close> shows
    that a packet whose frames arrive is delivered once. \<open>Obfuscation\<close> has the connection between TLS and the session (\<open>obfuscation.go\<close>) with the contract of a strategy, which \<open>Obfuscation_Props\<close> interprets
    on random padding, delays and TLS mimicry; beyond the lengths of the contract, mimicry refuses and padding panics.
  \<^item> Background tasks (\<open>internal/platform/tasks.go\<close>). \<open>Tasks\<close> has the requests, the transactions of the workers that import and export rules, and the machine of all of them with crashes and
    failed or unreported transactions; \<open>Tasks_Inv\<close> its invariant, with what every transaction keeps for a worker that holds another claim; \<open>Tasks_Props\<close> that items are imported once and while authorized,
    that completed imports are complete, that exports stay private and that requests can be repeated.

  \<^bold>\<open>Conventions\<close>

  A struct is a record, a table or Go map an association list with distinct keys, an error return a value \<open>Inl\<close>. A handler is one transaction: it returns the new
  database, and a failed one leaves the old. What the program reads from outside is an argument: the clock, fresh identifiers, digests, the
  civil calendar and the gateways' answers are in \<open>env\<close> or are function parameters, and the JSON encoding in the log is a parameter with its
  round trip as a hypothesis. Integers of Go that can reach their bounds carry the range checks or the wrap-around (\<open>i64\<close>, \<open>fits64\<close>) of the source;
  \<open>big.Rat\<close> is \<open>rat\<close> and \<open>big.Int\<close> is \<open>int\<close>. Locks do not appear: a step is what the code does under one lock or in one transaction, and an
  interleaving is a list of steps.

  \<^bold>\<open>Bounds and fuel\<close>

  No definition runs out of fuel. Loops over data are structural; bulk statements work in chunks of 100, the replay of the log consumes bytes, and the
  walk over referrals has the depth bound 1000 of the source, all with termination proofs; the matcher of paths, the HTTP reader, the attempts of a connection
  and the reader of frames and of handshakes terminate by the pattern, the input or the candidates left. The batch bounds 500, 256 and 4096 are the source's own.

  \<^bold>\<open>Not modelled\<close>

Sockets, TLS, WebSocket, multiplexing, the pool and the server around UDP flows, protocol detection and the HTTP/2 filter: they depend on network and cryptographic libraries, and what the modelled
  code needs of them (the outcome of a dial, of an inspection) is an argument. The token bucket of the rate limit and the float estimate of the rate in the Agent's prefetches compute with floating-point
  numbers and the clock. HTTP handlers, web pages, mail and bots, start-up, migrations and backups: input and output around the modelled
  transactions. Editing of users, groups, nodes and rules: arbitrary edits of the tables in the control-plane machine, so that its theorems
  hold whatever those handlers do. The gateways' signatures.
\<close>

end
